(* ===== verification/Prelude.thy ===== *)
theory Prelude
  imports Main "HOL-Library.Word"
begin

text \<open>
  Shared ground of the development: the machine integers of the Rust sources as words, Rust's
  checked arithmetic, big-endian byte encodings, fixed-size array updates, and the generic list
  and option facts the component theories use.

  Conventions. An unsigned \<open>uN\<close> is an \<open>N word\<close> read through \<open>unat\<close>/\<open>uint\<close>; a signed
  \<open>iN\<close> is an \<open>N word\<close> read through \<open>sint\<close> (two's complement), compared with \<open>sint\<close>.
  A \<open>usize\<close> that is an array position or a length is a \<open>nat\<close>; the sentinel \<open>NIL\<close> is
  \<open>usize::MAX\<close> of a 64-bit target. A \<open>Result<T, E>\<close> is \<open>'e + 'a\<close> with \<open>Inl\<close> the error.
  A function that can panic returns an \<open>option\<close>, with \<open>None\<close> for the panic.
\<close>

type_synonym u8 = "8 word"
type_synonym u16 = "16 word"
type_synonym u32 = "32 word"
type_synonym u64 = "64 word"
type_synonym u128 = "128 word"
type_synonym i64 = "64 word"
type_synonym i128 = "128 word"

named_theorems checked_iff \<open>characterisations of the checked operations\<close>
named_theorems result_iff \<open>when a Result is Ok\<close>

section \<open>Checked arithmetic\<close>

definition checked_add :: "'a::len word \<Rightarrow> 'a word \<Rightarrow> 'a word option" where
  "checked_add a b = (if uint a + uint b < 2 ^ LENGTH('a) then Some (a + b) else None)"

definition checked_sub :: "'a::len word \<Rightarrow> 'a word \<Rightarrow> 'a word option" where
  "checked_sub a b = (if b \<le> a then Some (a - b) else None)"

definition checked_mul :: "'a::len word \<Rightarrow> 'a word \<Rightarrow> 'a word option" where
  "checked_mul a b = (if uint a * uint b < 2 ^ LENGTH('a) then Some (a * b) else None)"

definition signed_fits :: "nat \<Rightarrow> int \<Rightarrow> bool" where
  "signed_fits n x \<longleftrightarrow> - (2 ^ (n - 1)) \<le> x \<and> x < 2 ^ (n - 1)"

definition checked_sadd :: "'a::len word \<Rightarrow> 'a word \<Rightarrow> 'a word option" where
  "checked_sadd a b = (if signed_fits LENGTH('a) (sint a + sint b) then Some (a + b) else None)"

definition checked_ssub :: "'a::len word \<Rightarrow> 'a word \<Rightarrow> 'a word option" where
  "checked_ssub a b = (if signed_fits LENGTH('a) (sint a - sint b) then Some (a - b) else None)"

definition checked_abs :: "'a::len word \<Rightarrow> 'a word option" where
  "checked_abs a =
     (if signed_fits LENGTH('a) \<bar>sint a\<bar> then Some (word_of_int \<bar>sint a\<bar>) else None)"

text \<open>\<open>i128::try_from\<close> on a \<open>u128\<close>: the value must fit the signed range.\<close>

definition try_signed :: "'a::len word \<Rightarrow> 'a word option" where
  "try_signed a = (if uint a < 2 ^ (LENGTH('a) - 1) then Some a else None)"

text \<open>\<open>u64::try_from\<close> on an \<open>i64\<close>: the value must not be negative.\<close>

definition try_unsigned :: "'a::len word \<Rightarrow> 'a word option" where
  "try_unsigned a = (if 0 \<le> sint a then Some a else None)"

text \<open>\<open>ok_or\<close>: an option as a Result.\<close>

definition ok_or :: "'a option \<Rightarrow> 'e \<Rightarrow> 'e + 'a" where
  "ok_or x e = (case x of None \<Rightarrow> Inl e | Some v \<Rightarrow> Inr v)"

definition map_err :: "('e \<Rightarrow> 'f) \<Rightarrow> 'e + 'a \<Rightarrow> 'f + 'a" where
  "map_err f r = (case r of Inl e \<Rightarrow> Inl (f e) | Inr v \<Rightarrow> Inr v)"

text \<open>The \<open>?\<close> operator on a Result: return the error or go on with the value.\<close>

definition and_then :: "'e + 'a \<Rightarrow> ('a \<Rightarrow> 'e + 'b) \<Rightarrow> 'e + 'b" where
  "and_then r f = (case r of Inl e \<Rightarrow> Inl e | Inr v \<Rightarrow> f v)"

text \<open>The \<open>?\<close> operator on a call that may reject or panic.\<close>

definition rbind :: "('e + 'a) option \<Rightarrow> ('a \<Rightarrow> ('e + 'b) option) \<Rightarrow> ('e + 'b) option" where
  "rbind r f = (case r of None \<Rightarrow> None | Some (Inl e) \<Rightarrow> Some (Inl e) | Some (Inr v) \<Rightarrow> f v)"

lemma checked_add_Some [checked_iff]:
  "checked_add a b = Some c \<longleftrightarrow> uint a + uint b < 2 ^ LENGTH('a) \<and> c = a + b"
  for a b c :: "'a::len word"
  by (auto simp: checked_add_def)

lemma checked_add_None [checked_iff]:
  "checked_add a b = None \<longleftrightarrow> 2 ^ LENGTH('a) \<le> uint a + uint b" for a b :: "'a::len word"
  by (auto simp: checked_add_def)

lemma checked_sub_Some [checked_iff]: "checked_sub a b = Some c \<longleftrightarrow> b \<le> a \<and> c = a - b"
  by (auto simp: checked_sub_def)

lemma checked_sub_None [checked_iff]: "checked_sub a b = None \<longleftrightarrow> a < b"
  by (auto simp: checked_sub_def)

lemma checked_mul_Some [checked_iff]:
  "checked_mul a b = Some c \<longleftrightarrow> uint a * uint b < 2 ^ LENGTH('a) \<and> c = a * b"
  for a b c :: "'a::len word"
  by (auto simp: checked_mul_def)

lemma checked_sadd_Some [checked_iff]:
  "checked_sadd a b = Some c \<longleftrightarrow> signed_fits LENGTH('a) (sint a + sint b) \<and> c = a + b"
  for a b c :: "'a::len word"
  by (auto simp: checked_sadd_def)

lemma checked_ssub_Some [checked_iff]:
  "checked_ssub a b = Some c \<longleftrightarrow> signed_fits LENGTH('a) (sint a - sint b) \<and> c = a - b"
  for a b c :: "'a::len word"
  by (auto simp: checked_ssub_def)

lemma try_signed_Some [checked_iff]:
  "try_signed a = Some c \<longleftrightarrow> uint a < 2 ^ (LENGTH('a) - 1) \<and> c = a" for a c :: "'a::len word"
  by (auto simp: try_signed_def)

lemma ok_or_Inr [result_iff]: "ok_or x e = Inr v \<longleftrightarrow> x = Some v"
  by (auto simp: ok_or_def split: option.splits)

lemma ok_or_Inl [result_iff]: "ok_or x e = Inl d \<longleftrightarrow> x = None \<and> d = e"
  by (auto simp: ok_or_def split: option.splits)

lemma map_err_Inr [result_iff]: "map_err f r = Inr v \<longleftrightarrow> r = Inr v"
  by (auto simp: map_err_def split: sum.splits)

lemma map_err_Inl [result_iff]: "map_err f r = Inl d \<longleftrightarrow> (\<exists>e. r = Inl e \<and> d = f e)"
  by (auto simp: map_err_def split: sum.splits)

lemma and_then_Inr [result_iff]: "and_then r f = Inr v \<longleftrightarrow> (\<exists>x. r = Inr x \<and> f x = Inr v)"
  by (auto simp: and_then_def split: sum.splits)

lemma and_then_Inl [result_iff]:
  "and_then r f = Inl e \<longleftrightarrow> r = Inl e \<or> (\<exists>x. r = Inr x \<and> f x = Inl e)"
  by (auto simp: and_then_def split: sum.splits)

lemma and_then_simps [simp]: "and_then (Inl e) f = Inl e" "and_then (Inr v) f = f v"
  by (simp_all add: and_then_def)

lemma rbind_simps [simp]:
  "rbind None f = None" "rbind (Some (Inl e)) f = Some (Inl e)" "rbind (Some (Inr v)) f = f v"
  by (simp_all add: rbind_def)

lemma ok_or_simps [simp]: "ok_or None e = Inl e" "ok_or (Some v) e = Inr v"
  by (simp_all add: ok_or_def)

lemma map_err_simps [simp]: "map_err f (Inl e) = Inl (f e)" "map_err f (Inr v) = Inr v"
  by (simp_all add: map_err_def)

section \<open>Words read as numbers\<close>

lemma uint_add_bounded: "uint a + uint b < 2 ^ LENGTH('a) \<Longrightarrow> uint (a + b) = uint a + uint b"
  for a b :: "'a::len word"
  by (simp add: uint_word_ariths)

lemma unat_add_bounded:
  fixes a b :: "'a::len word"
  assumes "uint a + uint b < 2 ^ LENGTH('a)"
  shows "unat (a + b) = unat a + unat b"
proof -
  have "int (unat a + unat b) < int (2 ^ LENGTH('a))"
    using assms by simp
  then have "unat a + unat b < 2 ^ LENGTH('a)"
    by (simp only: of_nat_less_iff)
  then show ?thesis by (simp add: unat_add_lem)
qed

lemma uint_diff_bounded: "b \<le> a \<Longrightarrow> uint (a - b) = uint a - uint b" for a b :: "'a::len word"
  by (simp add: uint_sub_lem [THEN iffD1] word_le_def)

lemma unat_diff_bounded: "b \<le> a \<Longrightarrow> unat (a - b) = unat a - unat b" for a b :: "'a::len word"
  by (simp add: unat_sub)

lemma sint_word_of_int_fits:
  assumes "signed_fits LENGTH('a) x"
  shows "sint (word_of_int x :: 'a::len word) = x"
  using assms unfolding signed_fits_def
  by (simp add: sint_uint uint_word_of_int signed_take_bit_int_eq_self take_bit_int_def [symmetric]
      signed_take_bit_take_bit)

lemma sint_add_fits:
  fixes a b :: "'a::len word"
  assumes "signed_fits LENGTH('a) (sint a + sint b)"
  shows "sint (a + b) = sint a + sint b"
proof -
  have "a + b = word_of_int (sint a + sint b)"
    by simp
  then show ?thesis
    using sint_word_of_int_fits [OF assms] by simp
qed

lemma sint_sub_fits:
  fixes a b :: "'a::len word"
  assumes "signed_fits LENGTH('a) (sint a - sint b)"
  shows "sint (a - b) = sint a - sint b"
proof -
  have "a - b = word_of_int (sint a - sint b)"
    by simp
  then show ?thesis
    using sint_word_of_int_fits [OF assms] by simp
qed

lemma sint_eq_uint_small:
  fixes a :: "'a::len word"
  assumes "uint a < 2 ^ (LENGTH('a) - 1)"
  shows "sint a = uint a"
proof -
  have "signed_fits LENGTH('a) (uint a)"
    using assms by (simp add: signed_fits_def order_trans [of "- (2 ^ _)" 0])
  from sint_word_of_int_fits [OF this] show ?thesis by simp
qed

section \<open>Big-endian bytes\<close>

fun be_bytes :: "nat \<Rightarrow> nat \<Rightarrow> u8 list" where
  "be_bytes 0 x = []"
| "be_bytes (Suc n) x = be_bytes n (x div 256) @ [of_nat (x mod 256)]"

definition be_value :: "u8 list \<Rightarrow> nat" where
  "be_value bs = foldl (\<lambda>acc b. acc * 256 + unat b) 0 bs"

definition to_be_bytes :: "'a::len word \<Rightarrow> u8 list" where
  "to_be_bytes w = be_bytes (LENGTH('a) div 8) (unat w)"

definition from_be_bytes :: "u8 list \<Rightarrow> 'a::len word" where
  "from_be_bytes bs = of_nat (be_value bs)"

lemma length_be_bytes [simp]: "length (be_bytes n x) = n"
  by (induction n arbitrary: x) auto

lemma length_to_be_bytes [simp]: "length (to_be_bytes (w :: 'a::len word)) = LENGTH('a) div 8"
  by (simp add: to_be_bytes_def)

lemma be_value_snoc [simp]: "be_value (bs @ [b]) = be_value bs * 256 + unat b"
  by (simp add: be_value_def)

lemma be_value_Nil [simp]: "be_value [] = 0"
  by (simp add: be_value_def)

lemma be_value_be_bytes: "be_value (be_bytes n x) = x mod 256 ^ n"
proof (induction n arbitrary: x)
  case (Suc n)
  have "be_value (be_bytes (Suc n) x) = (x div 256 mod 256 ^ n) * 256 + x mod 256"
    by (simp add: Suc unat_of_nat)
  also have "\<dots> = x mod (256 * 256 ^ n)"
    by (simp add: mod_mult2_eq)
  finally show ?case by simp
qed simp

lemma be_bytes_be_value: "be_bytes (length bs) (be_value bs) = bs"
proof (induction bs rule: rev_induct)
  case (snoc b bs)
  have "unat b < 256"
    using unsigned_less [of b] by simp
  then show ?case
    by (simp add: snoc div_add1_eq mod_add_eq)
qed simp

lemma from_to_be_bytes:
  assumes "LENGTH('a) = 8 * n"
  shows "from_be_bytes (to_be_bytes w) = (w :: 'a::len word)"
proof -
  have "unat w < 2 ^ LENGTH('a)"
    by (rule unsigned_less)
  also have "(2 :: nat) ^ LENGTH('a) = 256 ^ n"
    by (simp add: assms power_mult)
  finally show ?thesis
    by (simp add: from_be_bytes_def to_be_bytes_def be_value_be_bytes assms)
qed

lemma from_to_be_bytes_widths [simp]:
  "from_be_bytes (to_be_bytes w16) = (w16 :: u16)"
  "from_be_bytes (to_be_bytes w32) = (w32 :: u32)"
  "from_be_bytes (to_be_bytes w64) = (w64 :: u64)"
  "from_be_bytes (to_be_bytes w128) = (w128 :: u128)"
  by (rule from_to_be_bytes [where n = 2] from_to_be_bytes [where n = 4]
      from_to_be_bytes [where n = 8] from_to_be_bytes [where n = 16]; simp)+

lemma be_value_bound: "be_value bs < 256 ^ length bs"
proof -
  have "be_value bs = be_value (be_bytes (length bs) (be_value bs))"
    by (simp add: be_bytes_be_value)
  also have "\<dots> < 256 ^ length bs"
    by (simp add: be_value_be_bytes)
  finally show ?thesis .
qed

lemma to_from_be_bytes:
  assumes "LENGTH('a) = 8 * length bs"
  shows "to_be_bytes (from_be_bytes bs :: 'a::len word) = bs"
proof -
  have "be_value bs < 2 ^ LENGTH('a)"
    using be_value_bound [of bs] by (simp add: assms power_mult)
  then have "unat (of_nat (be_value bs) :: 'a word) = be_value bs"
    by (simp add: unat_of_nat)
  then show ?thesis
    by (simp add: to_be_bytes_def from_be_bytes_def assms be_bytes_be_value)
qed

section \<open>Arrays of fixed length\<close>

text \<open>\<open>NIL\<close> is \<open>usize::MAX\<close> on a 64-bit target, the end of every linked list of slots.\<close>

definition NIL :: nat where
  "NIL = 2 ^ 64 - 1"

text \<open>\<open>usize\<close> arithmetic that the sources check or let wrap.\<close>

definition usize_checked_add :: "nat \<Rightarrow> nat \<Rightarrow> nat option" where
  "usize_checked_add a b = (if a + b \<le> NIL then Some (a + b) else None)"

definition usize_checked_mul :: "nat \<Rightarrow> nat \<Rightarrow> nat option" where
  "usize_checked_mul a b = (if a * b \<le> NIL then Some (a * b) else None)"

definition usize_wrapping_add :: "nat \<Rightarrow> nat \<Rightarrow> nat" where
  "usize_wrapping_add a b = (a + b) mod 2 ^ 64"

text \<open>\<open>u32::try_from\<close> on a \<open>usize\<close>.\<close>

definition u32_try_from :: "nat \<Rightarrow> u32 option" where
  "u32_try_from n = (if n < 2 ^ 32 then Some (of_nat n) else None)"

lemma u32_try_from_Some:
  "n < 2 ^ 32 \<Longrightarrow> \<exists>w. u32_try_from n = Some w \<and> unat w = n"
  by (simp add: u32_try_from_def unat_of_nat)

text \<open>Safe indexing, Rust's \<open>get\<close>.\<close>

definition get :: "'a list \<Rightarrow> nat \<Rightarrow> 'a option" where
  "get xs i = (if i < length xs then Some (xs ! i) else None)"

lemma get_Some [simp]: "get xs i = Some x \<longleftrightarrow> i < length xs \<and> xs ! i = x"
  by (auto simp: get_def)

lemma get_None [simp]: "get xs i = None \<longleftrightarrow> length xs \<le> i"
  by (auto simp: get_def)

text \<open>\<open>copy_from_slice\<close> into \<open>bytes[o..o + length ys]\<close>.\<close>

definition write_at :: "nat \<Rightarrow> 'a list \<Rightarrow> 'a list \<Rightarrow> 'a list" where
  "write_at off ys xs = take off xs @ ys @ drop (off + length ys) xs"

text \<open>The slice \<open>bytes[a..b]\<close>.\<close>

definition slice :: "nat \<Rightarrow> nat \<Rightarrow> 'a list \<Rightarrow> 'a list" where
  "slice a b xs = take (b - a) (drop a xs)"

lemma length_write_at [simp]:
  "off + length ys \<le> length xs \<Longrightarrow> length (write_at off ys xs) = length xs"
  by (simp add: write_at_def)

lemma write_at_append:
  "length xs \<le> off \<Longrightarrow> write_at off ys (xs @ zs) = xs @ write_at (off - length xs) ys zs"
  by (simp add: write_at_def)

lemma write_at_Cons: "0 < off \<Longrightarrow> write_at off ys (x # zs) = x # write_at (off - 1) ys zs"
  by (cases off) (simp_all add: write_at_def)

lemma write_at_replicate:
  "length ys \<le> k \<Longrightarrow> write_at 0 ys (replicate k z) = ys @ replicate (k - length ys) z"
  by (simp add: write_at_def)

lemma length_slice [simp]: "b \<le> length xs \<Longrightarrow> length (slice a b xs) = b - a"
  by (simp add: slice_def)

lemma slice_append: "length xs \<le> a \<Longrightarrow> slice a b (xs @ ys) = slice (a - length xs) (b - length xs) ys"
  by (simp add: slice_def)

lemma slice_Cons: "0 < a \<Longrightarrow> slice a b (x # ys) = slice (a - 1) (b - 1) ys"
  by (cases a) (simp_all add: slice_def)

lemma slice_prefix: "length xs = n \<Longrightarrow> slice 0 n (xs @ ys) = xs"
  by (simp add: slice_def)

lemma slice_whole: "length xs = n \<Longrightarrow> slice 0 n xs = xs"
  by (simp add: slice_def)

lemma slice_join: "\<lbrakk>a \<le> m; m \<le> n\<rbrakk> \<Longrightarrow> slice a m xs @ slice m n xs = slice a n xs"
  using take_add [of "m - a" "n - m" "drop a xs"] by (simp add: slice_def)

lemma slice_singleton: "i < length xs \<Longrightarrow> [xs ! i] = slice i (i + 1) xs"
  by (simp add: slice_def take_Suc hd_drop_conv_nth)

section \<open>Lists\<close>

lemma sum_list_update_nat:
  "i < length xs \<Longrightarrow> sum_list (xs[i := y]) + xs ! i = sum_list xs + (y :: nat)"
  by (induction xs arbitrary: i) (auto split: nat.split)

lemma takeWhile_sorted_wrt_split:
  assumes "sorted_wrt R xs" "transp R" "\<And>x y. R x y \<Longrightarrow> P y \<Longrightarrow> P x"
    and "x \<in> set (dropWhile P xs)"
  shows "\<not> P x"
  using assms
proof (induction xs)
  case (Cons a xs)
  then show ?case by (auto split: if_splits)
qed simp

text \<open>\<open>filter_map\<close> and \<open>flatten\<close> of an iterator.\<close>

lemma map_filter_append [simp]: "List.map_filter f (xs @ ys) = List.map_filter f xs @ List.map_filter f ys"
  by (simp add: List.map_filter_def)

lemma map_filter_none: "(\<forall>x \<in> set xs. f x = None) \<Longrightarrow> List.map_filter f xs = []"
  by (simp add: List.map_filter_def)

lemma set_map_filter: "set (List.map_filter f xs) = {y. \<exists>x \<in> set xs. f x = Some y}"
  by (force simp: List.map_filter_def)

lemma length_map_filter: "length (List.map_filter f xs) \<le> length xs"
  by (simp add: List.map_filter_def)

lemma distinct_filter_map_keys:
  assumes "\<And>i j a b. \<lbrakk>i < length xs; j < length xs; g (xs ! i) = Some a; g (xs ! j) = Some b; f a = f b\<rbrakk> \<Longrightarrow> i = j"
  shows "distinct (map f (List.map_filter g xs))"
  using assms
proof (induction xs)
  case (Cons x xs)
  have tl: "distinct (map f (List.map_filter g xs))"
  proof (rule Cons.IH)
    show "i = j" if "i < length xs" "j < length xs" "g (xs ! i) = Some a" "g (xs ! j) = Some b" "f a = f b" for i j a b
      using Cons.prems [of "Suc i" "Suc j" a b] that by simp
  qed
  show ?case
  proof (cases "g x")
    case None
    then show ?thesis using tl by (simp add: List.map_filter_simps)
  next
    case (Some a)
    have "f b \<noteq> f a" if b: "b \<in> set (List.map_filter g xs)" for b
    proof
      assume "f b = f a"
      obtain j where "j < length xs" "g (xs ! j) = Some b" using b by (auto simp: set_map_filter in_set_conv_nth)
      then show False using Cons.prems [of 0 "Suc j" a b] Some \<open>f b = f a\<close> by simp
    qed
    then have "f a \<notin> f ` set (List.map_filter g xs)" by (metis imageE)
    then show ?thesis using tl Some by (simp add: List.map_filter_simps)
  qed
qed simp

end
