(* ===== verification/Types.thy ===== *)
theory Types
  imports Prelude
begin

text \<open>
  The value types of \<^verbatim>\<open>crates/hft-types/src/lib.rs\<close>: identifiers (transparent newtypes, so
  plain words), sides, orders, commands, reject reasons, execution reports, and the fixed-capacity
  \<open>ReportBuffer\<close>. The contract of a bounded append-only buffer is the locale
  \<open>append_buffer\<close>, interpreted here on \<open>ReportBuffer\<close>.
\<close>

section \<open>Identifiers, orders and commands\<close>

type_synonym order_id = u64
type_synonym account_id = u32
type_synonym instrument_id = u32
type_synonym price_ticks = i64
type_synonym quantity = u64
type_synonym sequence_number = u64

datatype side = Buy | Sell

datatype time_in_force = Gtc | Ioc | Fok | PostOnly

text \<open>The discriminants \<open>#[repr(u8)]\<close>, as \<open>side as u8\<close> reads them.\<close>

fun side_u8 :: "side \<Rightarrow> u8" where
  "side_u8 Buy = 1"
| "side_u8 Sell = 2"

fun tif_u8 :: "time_in_force \<Rightarrow> u8" where
  "tif_u8 Gtc = 1"
| "tif_u8 Ioc = 2"
| "tif_u8 Fok = 3"
| "tif_u8 PostOnly = 4"

record new_order =
  no_order_id :: order_id
  no_account_id :: account_id
  no_instrument_id :: instrument_id
  no_price :: price_ticks
  no_quantity :: quantity
  no_sequence :: sequence_number
  no_side :: side
  no_time_in_force :: time_in_force

record replace_order =
  ro_order_id :: order_id
  ro_account_id :: account_id
  ro_instrument_id :: instrument_id
  ro_sequence :: sequence_number
  ro_price :: price_ticks
  ro_quantity :: quantity

record cancel_order =
  co_order_id :: order_id
  co_account_id :: account_id
  co_instrument_id :: instrument_id
  co_sequence :: sequence_number

datatype command = NewOrder new_order | CancelOrder cancel_order | ReplaceOrder replace_order

fun command_instrument_id :: "command \<Rightarrow> instrument_id" where
  "command_instrument_id (NewOrder order) = no_instrument_id order"
| "command_instrument_id (CancelOrder cancel) = co_instrument_id cancel"
| "command_instrument_id (ReplaceOrder replace) = ro_instrument_id replace"

fun command_sequence :: "command \<Rightarrow> sequence_number" where
  "command_sequence (NewOrder order) = no_sequence order"
| "command_sequence (CancelOrder cancel) = co_sequence cancel"
| "command_sequence (ReplaceOrder replace) = ro_sequence replace"

datatype reject_reason =
    InvalidInstrument | InvalidPrice | InvalidQuantity | QuantityLimit | NotionalLimit
  | PositionLimit | OpenOrderLimit | PriceCollar | DuplicateOrderId | UnknownOrder
  | NotOrderOwner | KillSwitch | UnknownAccount | ArithmeticOverflow | OrderCapacity
  | PriceLevelCapacity | PriceLevelOrderCapacity | ReportCapacity | InsufficientLiquidity
  | PostOnlyWouldTrade | ReplaceWouldCross

datatype order_state = Accepted | PartiallyFilled | Filled | Rejected reject_reason

record execution_report =
  er_maker_order_id :: order_id
  er_taker_order_id :: order_id
  er_instrument_id :: instrument_id
  er_price :: price_ticks
  er_quantity :: quantity
  er_sequence :: sequence_number

record match_summary =
  ms_state :: order_state
  ms_filled_quantity :: quantity
  ms_resting_quantity :: quantity
  ms_discarded_quantity :: quantity
  ms_report_count :: nat

text \<open>The other side of the book, as the source's \<open>match\<close> on the taker side computes it.\<close>

fun opposite :: "side \<Rightarrow> side" where
  "opposite Buy = Sell"
| "opposite Sell = Buy"

lemma opposite_opposite [simp]: "opposite (opposite s) = s"
  by (cases s) auto

lemma opposite_neq [simp]: "opposite s \<noteq> s" "s \<noteq> opposite s"
  by (cases s; simp)+

section \<open>Bounded append-only buffers\<close>

text \<open>
  Pushing onto a fixed-capacity buffer either appends at the end or refuses and leaves the buffer
  as it was. A client that reserved room for its whole list can push without looking at errors.
\<close>

fun push_all :: "('b \<Rightarrow> 'a \<Rightarrow> 'e + 'b) \<Rightarrow> 'b \<Rightarrow> 'a list \<Rightarrow> 'e + 'b" where
  "push_all push b [] = Inr b"
| "push_all push b (x # xs) = and_then (push b x) (\<lambda>b'. push_all push b' xs)"

locale append_buffer =
  fixes push :: "'b \<Rightarrow> 'a \<Rightarrow> 'e + 'b"
    and contents :: "'b \<Rightarrow> 'a list"
    and cap :: "'b \<Rightarrow> nat"
    and invar :: "'b \<Rightarrow> bool"
  assumes push_room: "\<lbrakk>invar b; length (contents b) < cap b\<rbrakk> \<Longrightarrow>
      \<exists>b'. push b x = Inr b' \<and> invar b' \<and> contents b' = contents b @ [x] \<and> cap b' = cap b"
    and push_full: "\<lbrakk>invar b; cap b \<le> length (contents b)\<rbrakk> \<Longrightarrow> \<exists>e. push b x = Inl e"
    and within_cap: "invar b \<Longrightarrow> length (contents b) \<le> cap b"
begin

lemma push_iff:
  "invar b \<Longrightarrow> (\<exists>b'. push b x = Inr b') \<longleftrightarrow> length (contents b) < cap b"
  using push_room [of b x] push_full [of b x] by fastforce

lemma push_all_room:
  assumes "invar b" "length (contents b) + length xs \<le> cap b"
  shows "\<exists>b'. push_all push b xs = Inr b' \<and> invar b' \<and> contents b' = contents b @ xs \<and>
    cap b' = cap b"
  using assms
proof (induction xs arbitrary: b)
  case (Cons x xs)
  then obtain b' where b': "push b x = Inr b'" "invar b'" "contents b' = contents b @ [x]"
      "cap b' = cap b"
    using push_room [of b x] by auto
  with Cons.prems Cons.IH [of b'] show ?case by auto
qed simp

lemma push_all_overflow:
  assumes "invar b" "cap b < length (contents b) + length xs"
  shows "\<exists>e. push_all push b xs = Inl e"
  using assms
proof (induction xs arbitrary: b)
  case Nil
  then show ?case using within_cap [of b] by simp
next
  case (Cons x xs)
  show ?case
  proof (cases "length (contents b) < cap b")
    case True
    then obtain b' where b': "push b x = Inr b'" "invar b'" "contents b' = contents b @ [x]"
        "cap b' = cap b"
      using push_room [of b x] Cons.prems by auto
    with Cons.prems Cons.IH [of b'] show ?thesis by auto
  next
    case False
    then obtain e where "push b x = Inl e"
      using push_full [of b x] Cons.prems by auto
    then show ?thesis by simp
  qed
qed

end

section \<open>ReportBuffer\<close>

record report_buffer =
  rb_entries :: "execution_report list"
  rb_len :: nat

definition empty_report :: execution_report where
  "empty_report = \<lparr>er_maker_order_id = 0, er_taker_order_id = 0, er_instrument_id = 0,
     er_price = 0, er_quantity = 0, er_sequence = 0\<rparr>"

definition report_buffer_new :: "nat \<Rightarrow> report_buffer" where
  "report_buffer_new N = \<lparr>rb_entries = replicate N empty_report, rb_len = 0\<rparr>"

definition report_buffer_clear :: "report_buffer \<Rightarrow> report_buffer" where
  "report_buffer_clear rb = rb\<lparr>rb_len := 0\<rparr>"

definition report_buffer_push ::
  "report_buffer \<Rightarrow> execution_report \<Rightarrow> reject_reason + report_buffer" where
  "report_buffer_push rb report =
     (if rb_len rb < length (rb_entries rb)
      then Inr (rb\<lparr>rb_entries := (rb_entries rb)[rb_len rb := report], rb_len := rb_len rb + 1\<rparr>)
      else Inl ReportCapacity)"

definition report_buffer_remaining_capacity :: "report_buffer \<Rightarrow> nat" where
  "report_buffer_remaining_capacity rb = length (rb_entries rb) - rb_len rb"

definition report_buffer_iter :: "report_buffer \<Rightarrow> execution_report list" where
  "report_buffer_iter rb = take (rb_len rb) (rb_entries rb)"

definition report_buffer_eq :: "report_buffer \<Rightarrow> report_buffer \<Rightarrow> bool" where
  "report_buffer_eq a b \<longleftrightarrow> report_buffer_iter a = report_buffer_iter b"

definition report_buffer_wf :: "report_buffer \<Rightarrow> bool" where
  "report_buffer_wf rb \<longleftrightarrow> rb_len rb \<le> length (rb_entries rb)"

lemma report_buffer_new_wf [simp]:
  "report_buffer_wf (report_buffer_new N)" "report_buffer_iter (report_buffer_new N) = []"
  by (simp_all add: report_buffer_wf_def report_buffer_new_def report_buffer_iter_def)

lemma report_buffer_clear_wf [simp]:
  "report_buffer_wf (report_buffer_clear rb)" "report_buffer_iter (report_buffer_clear rb) = []"
  by (simp_all add: report_buffer_wf_def report_buffer_clear_def report_buffer_iter_def)

interpretation rb: append_buffer report_buffer_push report_buffer_iter
  "\<lambda>rb. length (rb_entries rb)" report_buffer_wf
proof
  fix b :: report_buffer and x
  assume wf: "report_buffer_wf b"
  show "length (report_buffer_iter b) \<le> length (rb_entries b)"
    by (simp add: report_buffer_iter_def)
  show "length (report_buffer_iter b) < length (rb_entries b) \<Longrightarrow>
      \<exists>b'. report_buffer_push b x = Inr b' \<and> report_buffer_wf b' \<and>
        report_buffer_iter b' = report_buffer_iter b @ [x] \<and>
        length (rb_entries b') = length (rb_entries b)"
    using wf by (auto simp: report_buffer_push_def report_buffer_wf_def report_buffer_iter_def
        take_Suc_conv_app_nth)
  show "length (rb_entries b) \<le> length (report_buffer_iter b) \<Longrightarrow>
      \<exists>e. report_buffer_push b x = Inl e"
    using wf by (auto simp: report_buffer_push_def report_buffer_wf_def report_buffer_iter_def)
qed

end
