(* ===== verification/Wire.thy ===== *)
theory Wire
  imports Types
begin

text \<open>
  The binary protocol of \<^verbatim>\<open>crates/hft-wire/src/lib.rs\<close>: framing checks, field decoding and
  the three encoders. An \<open>RxFrame\<close> (\<^verbatim>\<open>crates/hft-io\<close>) is its byte slice. A borrowed message is
  the accepted frame itself, tagged by its kind; its fields are read from fixed offsets.
\<close>

section \<open>Constants, errors and borrowed messages\<close>

definition PROTOCOL_VERSION :: u8 where "PROTOCOL_VERSION = 2"
definition NEW_ORDER_TYPE :: u8 where "NEW_ORDER_TYPE = 1"
definition CANCEL_ORDER_TYPE :: u8 where "CANCEL_ORDER_TYPE = 2"
definition REPLACE_ORDER_TYPE :: u8 where "REPLACE_ORDER_TYPE = 3"
definition NEW_ORDER_LEN :: nat where "NEW_ORDER_LEN = 46"
definition NEW_ORDER_WIRE_LEN :: u16 where "NEW_ORDER_WIRE_LEN = 46"
definition CANCEL_ORDER_LEN :: nat where "CANCEL_ORDER_LEN = 28"
definition CANCEL_ORDER_WIRE_LEN :: u16 where "CANCEL_ORDER_WIRE_LEN = 28"
definition REPLACE_ORDER_LEN :: nat where "REPLACE_ORDER_LEN = 44"
definition REPLACE_ORDER_WIRE_LEN :: u16 where "REPLACE_ORDER_WIRE_LEN = 44"

lemmas wire_consts = PROTOCOL_VERSION_def NEW_ORDER_TYPE_def CANCEL_ORDER_TYPE_def
  REPLACE_ORDER_TYPE_def NEW_ORDER_LEN_def NEW_ORDER_WIRE_LEN_def CANCEL_ORDER_LEN_def
  CANCEL_ORDER_WIRE_LEN_def REPLACE_ORDER_LEN_def REPLACE_ORDER_WIRE_LEN_def

datatype parse_error =
    TruncatedHeader | UnsupportedVersion | UnknownMessageType | InvalidLength | InvalidSide
  | InvalidTimeInForce

datatype borrowed_message =
    BorrowedNewOrder "u8 list" | BorrowedCancelOrder "u8 list" | BorrowedReplaceOrder "u8 list"

section \<open>Field readers\<close>

definition read_u64 :: "u8 list \<Rightarrow> nat \<Rightarrow> u64" where
  "read_u64 bytes offset = from_be_bytes (map (\<lambda>i. bytes ! (offset + i)) [0..<8])"

definition read_i64 :: "u8 list \<Rightarrow> nat \<Rightarrow> i64" where
  "read_i64 bytes offset = from_be_bytes (map (\<lambda>i. bytes ! (offset + i)) [0..<8])"

definition read_u32 :: "u8 list \<Rightarrow> nat \<Rightarrow> u32" where
  "read_u32 bytes offset = from_be_bytes (map (\<lambda>i. bytes ! (offset + i)) [0..<4])"

definition new_order_to_owned :: "u8 list \<Rightarrow> new_order" where
  "new_order_to_owned b = \<lparr>
     no_order_id = from_be_bytes (slice 4 12 b),
     no_account_id = from_be_bytes (slice 12 16 b),
     no_instrument_id = from_be_bytes (slice 16 20 b),
     no_price = from_be_bytes (slice 20 28 b),
     no_quantity = from_be_bytes (slice 28 36 b),
     no_sequence = from_be_bytes (slice 36 44 b),
     no_side = (if b ! 44 = side_u8 Buy then Buy else Sell),
     no_time_in_force =
       (if b ! 45 = tif_u8 Gtc then Gtc
        else if b ! 45 = tif_u8 Ioc then Ioc
        else if b ! 45 = tif_u8 Fok then Fok
        else PostOnly)\<rparr>"

definition cancel_order_to_owned :: "u8 list \<Rightarrow> cancel_order" where
  "cancel_order_to_owned b = \<lparr>
     co_order_id = read_u64 b 4,
     co_account_id = read_u32 b 12,
     co_instrument_id = read_u32 b 16,
     co_sequence = read_u64 b 20\<rparr>"

definition replace_order_to_owned :: "u8 list \<Rightarrow> replace_order" where
  "replace_order_to_owned b = \<lparr>
     ro_order_id = read_u64 b 4,
     ro_account_id = read_u32 b 12,
     ro_instrument_id = read_u32 b 16,
     ro_sequence = read_u64 b 20,
     ro_price = read_i64 b 28,
     ro_quantity = read_u64 b 36\<rparr>"

fun message_sequence :: "borrowed_message \<Rightarrow> sequence_number" where
  "message_sequence (BorrowedNewOrder b) = from_be_bytes (slice 36 44 b)"
| "message_sequence (BorrowedCancelOrder b) = from_be_bytes (slice 20 28 b)"
| "message_sequence (BorrowedReplaceOrder b) = from_be_bytes (slice 20 28 b)"

fun to_command :: "borrowed_message \<Rightarrow> command" where
  "to_command (BorrowedNewOrder b) = NewOrder (new_order_to_owned b)"
| "to_command (BorrowedCancelOrder b) = CancelOrder (cancel_order_to_owned b)"
| "to_command (BorrowedReplaceOrder b) = ReplaceOrder (replace_order_to_owned b)"

section \<open>The parser\<close>

definition parse_message :: "u8 list \<Rightarrow> parse_error + borrowed_message" where
  "parse_message bytes =
     (if length bytes < 4 then Inl TruncatedHeader
      else if bytes ! 0 \<noteq> PROTOCOL_VERSION then Inl UnsupportedVersion
      else
        let declared = unat (from_be_bytes [bytes ! 2, bytes ! 3] :: u16) in
        if length bytes \<noteq> declared then Inl InvalidLength
        else if bytes ! 1 = NEW_ORDER_TYPE then
          (if declared \<noteq> NEW_ORDER_LEN then Inl InvalidLength
           else if \<not> (bytes ! 44 = side_u8 Buy \<or> bytes ! 44 = side_u8 Sell) then Inl InvalidSide
           else if \<not> (bytes ! 45 = tif_u8 Gtc \<or> bytes ! 45 = tif_u8 Ioc
               \<or> bytes ! 45 = tif_u8 Fok \<or> bytes ! 45 = tif_u8 PostOnly)
           then Inl InvalidTimeInForce
           else Inr (BorrowedNewOrder bytes))
        else if bytes ! 1 = CANCEL_ORDER_TYPE then
          (if declared \<noteq> CANCEL_ORDER_LEN then Inl InvalidLength
           else Inr (BorrowedCancelOrder bytes))
        else if bytes ! 1 = REPLACE_ORDER_TYPE then
          (if declared \<noteq> REPLACE_ORDER_LEN then Inl InvalidLength
           else Inr (BorrowedReplaceOrder bytes))
        else Inl UnknownMessageType)"

section \<open>The encoders\<close>

text \<open>Each write fills its own range of a zeroed array, in the order of the source.\<close>

definition encode_new_order :: "new_order \<Rightarrow> u8 list" where
  "encode_new_order order =
     (let bytes = replicate NEW_ORDER_LEN 0;
          bytes = bytes[0 := PROTOCOL_VERSION];
          bytes = bytes[1 := NEW_ORDER_TYPE];
          bytes = write_at 2 (to_be_bytes NEW_ORDER_WIRE_LEN) bytes;
          bytes = write_at 4 (to_be_bytes (no_order_id order)) bytes;
          bytes = write_at 12 (to_be_bytes (no_account_id order)) bytes;
          bytes = write_at 16 (to_be_bytes (no_instrument_id order)) bytes;
          bytes = write_at 20 (to_be_bytes (no_price order)) bytes;
          bytes = write_at 28 (to_be_bytes (no_quantity order)) bytes;
          bytes = write_at 36 (to_be_bytes (no_sequence order)) bytes;
          bytes = bytes[44 := side_u8 (no_side order)];
          bytes = bytes[45 := tif_u8 (no_time_in_force order)]
      in bytes)"

definition encode_cancel_order :: "cancel_order \<Rightarrow> u8 list" where
  "encode_cancel_order cancel =
     (let bytes = replicate CANCEL_ORDER_LEN 0;
          bytes = bytes[0 := PROTOCOL_VERSION];
          bytes = bytes[1 := CANCEL_ORDER_TYPE];
          bytes = write_at 2 (to_be_bytes CANCEL_ORDER_WIRE_LEN) bytes;
          bytes = write_at 4 (to_be_bytes (co_order_id cancel)) bytes;
          bytes = write_at 12 (to_be_bytes (co_account_id cancel)) bytes;
          bytes = write_at 16 (to_be_bytes (co_instrument_id cancel)) bytes;
          bytes = write_at 20 (to_be_bytes (co_sequence cancel)) bytes
      in bytes)"

definition encode_replace_order :: "replace_order \<Rightarrow> u8 list" where
  "encode_replace_order replace =
     (let bytes = replicate REPLACE_ORDER_LEN 0;
          bytes = bytes[0 := PROTOCOL_VERSION];
          bytes = bytes[1 := REPLACE_ORDER_TYPE];
          bytes = write_at 2 (to_be_bytes REPLACE_ORDER_WIRE_LEN) bytes;
          bytes = write_at 4 (to_be_bytes (ro_order_id replace)) bytes;
          bytes = write_at 12 (to_be_bytes (ro_account_id replace)) bytes;
          bytes = write_at 16 (to_be_bytes (ro_instrument_id replace)) bytes;
          bytes = write_at 20 (to_be_bytes (ro_sequence replace)) bytes;
          bytes = write_at 28 (to_be_bytes (ro_price replace)) bytes;
          bytes = write_at 36 (to_be_bytes (ro_quantity replace)) bytes
      in bytes)"

text \<open>The encoder the engine picks per command (\<^verbatim>\<open>crates/hft-engine/src/lib.rs\<close>,
  \<open>process_command\<close>).\<close>

fun encode_command :: "command \<Rightarrow> u8 list" where
  "encode_command (NewOrder order) = encode_new_order order"
| "encode_command (CancelOrder cancel) = encode_cancel_order cancel"
| "encode_command (ReplaceOrder replace) = encode_replace_order replace"

section \<open>Layout of the encodings\<close>

lemma read_is_slice:
  "offset + 8 \<le> length b \<Longrightarrow> read_u64 b offset = from_be_bytes (slice offset (offset + 8) b)"
  "offset + 8 \<le> length b \<Longrightarrow> read_i64 b offset = from_be_bytes (slice offset (offset + 8) b)"
  "offset + 4 \<le> length b \<Longrightarrow> read_u32 b offset = from_be_bytes (slice offset (offset + 4) b)"
proof -
  have *: "map (\<lambda>i. b ! (offset + i)) [0..<n] = slice offset (offset + n) b"
    if "offset + n \<le> length b" for n
    by (rule nth_equalityI) (use that in \<open>simp_all add: slice_def\<close>)
  show "offset + 8 \<le> length b \<Longrightarrow> read_u64 b offset = from_be_bytes (slice offset (offset + 8) b)"
    "offset + 8 \<le> length b \<Longrightarrow> read_i64 b offset = from_be_bytes (slice offset (offset + 8) b)"
    "offset + 4 \<le> length b \<Longrightarrow> read_u32 b offset = from_be_bytes (slice offset (offset + 4) b)"
    using *[of 8] *[of 4] by (simp_all add: read_u64_def read_i64_def read_u32_def)
qed

lemma header_writes:
  "2 \<le> n \<Longrightarrow> (replicate n z)[0 := v, Suc 0 := t] = v # t # replicate (n - 2) z"
  by (cases n; cases "n - 1") auto

lemmas write_layout = write_at_append write_at_Cons write_at_replicate

lemma encode_new_order_layout:
  "encode_new_order order =
     [PROTOCOL_VERSION, NEW_ORDER_TYPE] @ to_be_bytes NEW_ORDER_WIRE_LEN
     @ to_be_bytes (no_order_id order) @ to_be_bytes (no_account_id order)
     @ to_be_bytes (no_instrument_id order) @ to_be_bytes (no_price order)
     @ to_be_bytes (no_quantity order) @ to_be_bytes (no_sequence order)
     @ [side_u8 (no_side order), tif_u8 (no_time_in_force order)]"
  by (simp add: encode_new_order_def NEW_ORDER_LEN_def header_writes write_layout
      list_update_append Let_def)

lemma encode_cancel_order_layout:
  "encode_cancel_order cancel =
     [PROTOCOL_VERSION, CANCEL_ORDER_TYPE] @ to_be_bytes CANCEL_ORDER_WIRE_LEN
     @ to_be_bytes (co_order_id cancel) @ to_be_bytes (co_account_id cancel)
     @ to_be_bytes (co_instrument_id cancel) @ to_be_bytes (co_sequence cancel)"
  by (simp add: encode_cancel_order_def CANCEL_ORDER_LEN_def header_writes write_layout
      list_update_append Let_def)

lemma encode_replace_order_layout:
  "encode_replace_order replace =
     [PROTOCOL_VERSION, REPLACE_ORDER_TYPE] @ to_be_bytes REPLACE_ORDER_WIRE_LEN
     @ to_be_bytes (ro_order_id replace) @ to_be_bytes (ro_account_id replace)
     @ to_be_bytes (ro_instrument_id replace) @ to_be_bytes (ro_sequence replace)
     @ to_be_bytes (ro_price replace) @ to_be_bytes (ro_quantity replace)"
  by (simp add: encode_replace_order_def REPLACE_ORDER_LEN_def header_writes write_layout
      list_update_append Let_def)

lemmas wire_layouts = encode_new_order_layout encode_cancel_order_layout encode_replace_order_layout

lemma length_encode_command [simp]:
  "length (encode_new_order order) = 46"
  "length (encode_cancel_order cancel) = 28"
  "length (encode_replace_order replace) = 44"
  by (simp_all add: wire_layouts)

lemma wire_len_bytes:
  "from_be_bytes [to_be_bytes w ! 0, to_be_bytes w ! Suc 0] = (w :: u16)"
proof -
  have "[to_be_bytes w ! 0, to_be_bytes w ! Suc 0] = to_be_bytes w"
    by (rule nth_equalityI) (auto simp: less_Suc_eq)
  then show ?thesis by simp
qed

lemmas wire_slices = slice_append slice_Cons slice_prefix slice_whole nth_append

lemma decode_encode_new_order: "new_order_to_owned (encode_new_order order) = order"
  by (cases "no_side order"; cases "no_time_in_force order")
    (simp_all add: new_order_to_owned_def encode_new_order_layout wire_slices)

lemma decode_encode_cancel_order: "cancel_order_to_owned (encode_cancel_order cancel) = cancel"
  by (simp add: cancel_order_to_owned_def read_is_slice encode_cancel_order_layout wire_slices)

lemma decode_encode_replace_order:
  "replace_order_to_owned (encode_replace_order replace) = replace"
  by (simp add: replace_order_to_owned_def read_is_slice encode_replace_order_layout wire_slices)

lemma parse_encode_new_order:
  "parse_message (encode_new_order order) = Inr (BorrowedNewOrder (encode_new_order order))"
  by (cases "no_side order"; cases "no_time_in_force order")
    (simp_all add: parse_message_def encode_new_order_layout wire_slices wire_consts wire_len_bytes)

lemma parse_encode_cancel_order:
  "parse_message (encode_cancel_order cancel) = Inr (BorrowedCancelOrder (encode_cancel_order cancel))"
  by (simp add: parse_message_def encode_cancel_order_layout wire_slices wire_consts wire_len_bytes)

lemma parse_encode_replace_order:
  "parse_message (encode_replace_order replace)
     = Inr (BorrowedReplaceOrder (encode_replace_order replace))"
  by (simp add: parse_message_def encode_replace_order_layout wire_slices wire_consts wire_len_bytes)

lemmas parse_encode = parse_encode_new_order parse_encode_cancel_order parse_encode_replace_order
lemmas decode_encode = decode_encode_new_order decode_encode_cancel_order decode_encode_replace_order

section \<open>Accepted frames are canonical\<close>

lemma to_be_from_be_slice [simp]:
  "b - a = 8 \<Longrightarrow> b \<le> length xs \<Longrightarrow> to_be_bytes (from_be_bytes (slice a b xs) :: u64) = slice a b xs"
  "b - a = 4 \<Longrightarrow> b \<le> length xs \<Longrightarrow> to_be_bytes (from_be_bytes (slice a b xs) :: u32) = slice a b xs"
  "b - a = 2 \<Longrightarrow> b \<le> length xs \<Longrightarrow> to_be_bytes (from_be_bytes (slice a b xs) :: u16) = slice a b xs"
  by (rule to_from_be_bytes; simp)+

lemma wire_len_slice:
  assumes "4 \<le> length b" "length b = unat (from_be_bytes [b ! 2, b ! 3] :: u16)" "length b = unat n"
  shows "to_be_bytes (n :: u16) = slice 2 4 b"
proof -
  have "from_be_bytes [b ! 2, b ! 3] = n"
    using assms by (simp add: word_unat_eq_iff)
  moreover have "[b ! 2, b ! 3] = slice 2 4 b"
    using assms(1) by (intro nth_equalityI) (auto simp: slice_def less_Suc_eq)
  ultimately have "n = from_be_bytes (slice 2 4 b)"
    by simp
  then show ?thesis
    using assms(1) by simp
qed

lemma header_slice: "2 \<le> length b \<Longrightarrow> slice 0 2 b = [b ! 0, b ! 1]"
  by (rule nth_equalityI) (auto simp: slice_def less_Suc_eq numeral_2_eq_2)

lemma encode_decode_new_order:
  assumes "parse_message b = Inr (BorrowedNewOrder b')"
  shows "encode_new_order (new_order_to_owned b') = b \<and> b' = b"
proof -
  have len: "length b = 46" and b': "b' = b" and hd: "b ! 0 = PROTOCOL_VERSION" "b ! 1 = NEW_ORDER_TYPE"
    and wl: "to_be_bytes NEW_ORDER_WIRE_LEN = slice 2 4 b"
    and side: "b ! 44 = side_u8 Buy \<or> b ! 44 = side_u8 Sell"
    and tif: "b ! 45 = tif_u8 Gtc \<or> b ! 45 = tif_u8 Ioc \<or> b ! 45 = tif_u8 Fok \<or> b ! 45 = tif_u8 PostOnly"
    using assms wire_len_slice [of b NEW_ORDER_WIRE_LEN]
    by (auto simp: parse_message_def Let_def NEW_ORDER_LEN_def NEW_ORDER_WIRE_LEN_def split: if_splits)
  have "b = slice 0 2 b @ slice 2 4 b @ slice 4 12 b @ slice 12 16 b @ slice 16 20 b @
      slice 20 28 b @ slice 28 36 b @ slice 36 44 b @ slice 44 45 b @ slice 45 46 b"
    using len by (simp add: slice_join slice_whole)
  also have "\<dots> = encode_new_order (new_order_to_owned b)"
    using side tif hd len wl header_slice [of b] slice_singleton [of 44 b]
      slice_singleton [of 45 b]
    by (auto simp: encode_new_order_layout new_order_to_owned_def)
  finally show ?thesis using b' by simp
qed

lemma encode_decode_cancel_order:
  assumes "parse_message b = Inr (BorrowedCancelOrder b')"
  shows "encode_cancel_order (cancel_order_to_owned b') = b \<and> b' = b"
proof -
  have len: "length b = 28" and b': "b' = b" and hd: "b ! 0 = PROTOCOL_VERSION" "b ! 1 = CANCEL_ORDER_TYPE"
    and wl: "to_be_bytes CANCEL_ORDER_WIRE_LEN = slice 2 4 b"
    using assms wire_len_slice [of b CANCEL_ORDER_WIRE_LEN]
    by (auto simp: parse_message_def Let_def CANCEL_ORDER_LEN_def CANCEL_ORDER_WIRE_LEN_def split: if_splits)
  have "b = slice 0 2 b @ slice 2 4 b @ slice 4 12 b @ slice 12 16 b @ slice 16 20 b @
      slice 20 28 b"
    using len by (simp add: slice_join slice_whole)
  also have "\<dots> = encode_cancel_order (cancel_order_to_owned b)"
    using hd len wl header_slice [of b]
    by (auto simp: encode_cancel_order_layout cancel_order_to_owned_def read_is_slice)
  finally show ?thesis using b' by simp
qed

lemma encode_decode_replace_order:
  assumes "parse_message b = Inr (BorrowedReplaceOrder b')"
  shows "encode_replace_order (replace_order_to_owned b') = b \<and> b' = b"
proof -
  have len: "length b = 44" and b': "b' = b" and hd: "b ! 0 = PROTOCOL_VERSION" "b ! 1 = REPLACE_ORDER_TYPE"
    and wl: "to_be_bytes REPLACE_ORDER_WIRE_LEN = slice 2 4 b"
    using assms wire_len_slice [of b REPLACE_ORDER_WIRE_LEN]
    by (auto simp: parse_message_def Let_def REPLACE_ORDER_LEN_def REPLACE_ORDER_WIRE_LEN_def split: if_splits)
  have "b = slice 0 2 b @ slice 2 4 b @ slice 4 12 b @ slice 12 16 b @ slice 16 20 b @
      slice 20 28 b @ slice 28 36 b @ slice 36 44 b"
    using len by (simp add: slice_join slice_whole)
  also have "\<dots> = encode_replace_order (replace_order_to_owned b)"
    using hd len wl header_slice [of b]
    by (auto simp: encode_replace_order_layout replace_order_to_owned_def read_is_slice)
  finally show ?thesis using b' by simp
qed

section \<open>Properties\<close>

text \<open>
  C36. Parsing an encoded command gives the command back, and the sequence read from the borrowed
  frame is the command's sequence: the wire encoding of every order, cancel and replace is
  accepted and lossless.
\<close>

theorem wire_round_trip:
  "\<exists>m. parse_message (encode_command c) = Inr m \<and> to_command m = c \<and>
     message_sequence m = command_sequence c"
  by (cases c)
    (simp_all add: parse_encode decode_encode, simp_all add: wire_layouts wire_slices)

text \<open>
  C37. The parser accepts only canonical frames: whatever bytes it accepts are exactly the encoding
  of the command it reads from them, so no two different frames decode to the same command.
\<close>

theorem parse_accepts_only_encodings:
  assumes "parse_message bytes = Inr m"
  shows "encode_command (to_command m) = bytes"
  using assms encode_decode_new_order encode_decode_cancel_order encode_decode_replace_order
  by (cases m) auto

theorem parse_accepts_only_encodings_witness:
  "encode_command (to_command (BorrowedCancelOrder
     [2, 2, 0, 28, 0, 0, 0, 0, 0, 0, 0, 9, 0, 0, 0, 7, 0, 0, 0, 1, 0, 0, 0, 0, 0, 0, 0, 3]))
   = [2, 2, 0, 28, 0, 0, 0, 0, 0, 0, 0, 9, 0, 0, 0, 7, 0, 0, 0, 1, 0, 0, 0, 0, 0, 0, 0, 3]"
  by (rule parse_accepts_only_encodings) code_simp

end
