(* ===== verification/Probe_Table.thy ===== *)
theory Probe_Table
  imports Prelude "HOL-Library.Multiset"
begin

text \<open>
  The abstract hash table behind both open-addressed indices of the engine (\<open>OrderIndex\<close> of
  \<^verbatim>\<open>crates/hft-book\<close> and \<open>ProbeIndex\<close> of \<^verbatim>\<open>crates/hft-risk\<close>): linear probing with back-shift
  deletion and no tombstones. A table is a list of optional key/value pairs; \<open>home\<close> is the hash.
  The component theories translate the two Rust indices and show that they compute what the
  functions here compute; the correctness of probing, insertion and hole closing is proved once,
  here.
\<close>

type_synonym ('k, 'v) table = "('k \<times> 'v) option list"

section \<open>Cyclic distance\<close>

definition cdist :: "nat \<Rightarrow> nat \<Rightarrow> nat \<Rightarrow> nat" where
  "cdist cap h p = (if h \<le> p then p - h else cap - (h - p))"

lemma cdist_mod: "\<lbrakk>h < cap; p < cap\<rbrakk> \<Longrightarrow> cdist cap h p = (p + (cap - h)) mod cap"
  by (auto simp: cdist_def mod_if le_mod_geq)

lemma cdist_less: "\<lbrakk>h < cap; p < cap\<rbrakk> \<Longrightarrow> cdist cap h p < cap"
  by (auto simp: cdist_def)

lemma cdist_self [simp]: "cdist cap h h = 0"
  by (simp add: cdist_def)

lemma cdist_eq_0_iff: "\<lbrakk>h < cap; p < cap\<rbrakk> \<Longrightarrow> cdist cap h p = 0 \<longleftrightarrow> p = h"
  by (auto simp: cdist_def)

lemma cdist_inj: "\<lbrakk>h < cap; p < cap; q < cap; cdist cap h p = cdist cap h q\<rbrakk> \<Longrightarrow> p = q"
  by (auto simp: cdist_def split: if_splits)

lemma cdist_Suc:
  "\<lbrakk>h < cap; p < cap; Suc p mod cap \<noteq> h\<rbrakk> \<Longrightarrow> cdist cap h (Suc p mod cap) = Suc (cdist cap h p)"
  by (auto simp: cdist_def mod_Suc split: if_splits)

lemma cdist_offset: "\<lbrakk>h < cap; d < cap\<rbrakk> \<Longrightarrow> cdist cap h ((h + d) mod cap) = d"
  by (auto simp: cdist_def mod_if le_mod_geq)

lemma offset_cdist: "\<lbrakk>h < cap; p < cap\<rbrakk> \<Longrightarrow> (h + cdist cap h p) mod cap = p"
  by (auto simp: cdist_def)

lemma cdist_step:
  "\<lbrakk>a < cap; b < cap; c < cap; cdist cap a b + cdist cap b c < cap\<rbrakk> \<Longrightarrow>
     cdist cap a c = cdist cap a b + cdist cap b c"
  by (auto simp: cdist_def split: if_splits)

lemma cdist_between:
  "\<lbrakk>a < cap; b < cap; c < cap; cdist cap a b \<le> cdist cap a c\<rbrakk> \<Longrightarrow>
     cdist cap b c = cdist cap a c - cdist cap a b"
  by (auto simp: cdist_def split: if_splits)

section \<open>The table and its invariant\<close>

definition at :: "('k, 'v) table \<Rightarrow> nat \<Rightarrow> ('k \<times> 'v) option" where
  "at t p = (if p < length t then t ! p else None)"

text \<open>No empty slot lies between an entry's home and its position, and no key occurs twice.\<close>

definition unbroken :: "('k \<Rightarrow> nat) \<Rightarrow> ('k, 'v) table \<Rightarrow> bool" where
  "unbroken home t \<longleftrightarrow>
     (\<forall>p < length t. \<forall>q < length t. \<forall>k v. t ! p = Some (k, v) \<longrightarrow>
        cdist (length t) (home k) q < cdist (length t) (home k) p \<longrightarrow> t ! q \<noteq> None)"

definition keys_unique :: "('k, 'v) table \<Rightarrow> bool" where
  "keys_unique t \<longleftrightarrow>
     (\<forall>p < length t. \<forall>q < length t. \<forall>k v w. t ! p = Some (k, v) \<longrightarrow> t ! q = Some (k, w) \<longrightarrow> p = q)"

definition table_inv :: "('k \<Rightarrow> nat) \<Rightarrow> ('k, 'v) table \<Rightarrow> bool" where
  "table_inv home t \<longleftrightarrow>
     (\<forall>k. 0 < length t \<longrightarrow> home k < length t) \<and> unbroken home t \<and> keys_unique t"

definition entries :: "('k, 'v) table \<Rightarrow> ('k \<times> 'v) set" where
  "entries t = {e. Some e \<in> set t}"

definition used :: "('k, 'v) table \<Rightarrow> nat" where
  "used t = length (filter (\<lambda>e. e \<noteq> None) t)"

section \<open>Lookup\<close>

fun probe_find :: "('k, 'v) table \<Rightarrow> 'k \<Rightarrow> nat \<Rightarrow> nat list \<Rightarrow> nat option" where
  "probe_find t key start [] = None"
| "probe_find t key start (offset # offsets) =
     (let i = (start + offset) mod length t in
      case t ! i of
        None \<Rightarrow> None
      | Some (k, _) \<Rightarrow> if k = key then Some i else probe_find t key start offsets)"

lemma probe_find_sound:
  assumes "probe_find t key start offs = Some i" "0 < length t"
  shows "i < length t \<and> (\<exists>v. t ! i = Some (key, v))"
  using assms by (induction offs) (auto simp: Let_def split: option.splits if_splits)

lemma probe_find_hit:
  assumes inv: "table_inv home t" and p: "p < length t" "t ! p = Some (key, v)"
    and n: "n \<le> cdist (length t) (home key) p"
  shows "probe_find t key (home key) [n..<length t] = Some p"
  using n
proof (induction "length t - n" arbitrary: n)
  case 0
  have "cdist (length t) (home key) p < length t"
    using cdist_less [of "home key"] inv p by (auto simp: table_inv_def)
  with 0 show ?case by simp
next
  case (Suc m)
  let ?h = "home key" and ?cap = "length t"
  let ?i = "(?h + n) mod ?cap"
  have h: "?h < ?cap" and n: "n < ?cap"
    using inv p Suc.hyps(2) by (auto simp: table_inv_def)
  have offs: "[n..<?cap] = n # [Suc n..<?cap]"
    using n by (simp add: upt_conv_Cons)
  have i: "?i < ?cap" and di: "cdist ?cap ?h ?i = n"
    using n h p by (auto simp: cdist_offset intro!: mod_less_divisor)
  show ?case
  proof (cases "n = cdist ?cap ?h p")
    case True
    then have "?i = p" using h p by (simp add: offset_cdist)
    with p show ?thesis by (simp add: offs Let_def)
  next
    case False
    then have lt: "n < cdist ?cap ?h p" using Suc.prems by simp
    then obtain k w where ki: "t ! ?i = Some (k, w)"
      using inv i di p unfolding table_inv_def unbroken_def by (metis not_None_eq prod.exhaust)
    have "k \<noteq> key"
      using ki inv i p di lt unfolding table_inv_def keys_unique_def by (metis less_irrefl)
    moreover have "probe_find t key ?h [Suc n..<?cap] = Some p"
      by (rule Suc.hyps(1)) (use Suc.hyps(2) lt in auto)
    ultimately show ?thesis using ki by (simp add: offs Let_def)
  qed
qed

lemma probe_find_iff:
  assumes "table_inv home t" "0 < length t"
  shows "probe_find t key (home key) [0..<length t] = Some p \<longleftrightarrow>
    p < length t \<and> (\<exists>v. t ! p = Some (key, v))"
  using assms probe_find_hit [OF assms(1), where key = key and p = p and n = 0]
    probe_find_sound [of t key "home key" "[0..<length t]" p] by auto

lemma probe_find_none:
  assumes "table_inv home t" "0 < length t"
  shows "probe_find t key (home key) [0..<length t] = None \<longleftrightarrow> (\<forall>v. (key, v) \<notin> entries t)"
  using probe_find_iff [OF assms, of key]
  by (metis (no_types, lifting) entries_def in_set_conv_nth mem_Collect_eq not_None_eq)

section \<open>Insertion\<close>

datatype probe_error = ProbeFull | ProbeDuplicate

text \<open>The slot an insertion writes: the first empty one from the key's home on.\<close>

fun probe_slot :: "('k, 'v) table \<Rightarrow> 'k \<Rightarrow> nat \<Rightarrow> nat list \<Rightarrow> probe_error + nat" where
  "probe_slot t key start [] = Inl ProbeFull"
| "probe_slot t key start (offset # offsets) =
     (let i = (start + offset) mod length t in
      case t ! i of
        None \<Rightarrow> Inr i
      | Some (k, _) \<Rightarrow> if k = key then Inl ProbeDuplicate else probe_slot t key start offsets)"

lemma probe_slot_fresh:
  assumes h: "home key < length t" and fresh: "\<forall>v. (key, v) \<notin> entries t"
    and e: "e < length t" "t ! e = None" "n \<le> cdist (length t) (home key) e"
  shows "\<exists>i < length t. probe_slot t key (home key) [n..<length t] = Inr i \<and> t ! i = None \<and>
    (\<forall>q < length t. n \<le> cdist (length t) (home key) q \<longrightarrow>
       cdist (length t) (home key) q < cdist (length t) (home key) i \<longrightarrow> t ! q \<noteq> None)"
  using e(3)
proof (induction "length t - n" arbitrary: n)
  case 0
  then show ?case using cdist_less [OF h e(1)] by simp
next
  case (Suc m)
  let ?h = "home key" and ?cap = "length t"
  let ?i = "(?h + n) mod ?cap"
  have n: "n < ?cap" using Suc.hyps(2) by simp
  have offs: "[n..<?cap] = n # [Suc n..<?cap]"
    using n by (simp add: upt_conv_Cons)
  have i: "?i < ?cap" and di: "cdist ?cap ?h ?i = n"
    using n h by (auto simp: cdist_offset intro!: mod_less_divisor)
  show ?case
  proof (cases "t ! ?i")
    case None
    then show ?thesis using i di by (auto simp: offs Let_def)
  next
    case (Some kv)
    obtain k v where kv: "kv = (k, v)" by (cases kv)
    have "k \<noteq> key"
      using Some kv fresh i by (auto simp: entries_def in_set_conv_nth)
    moreover have "cdist ?cap ?h e \<noteq> n"
      using Some e i h di cdist_inj [OF h e(1) i] by auto
    moreover have "m = ?cap - Suc n"
      using Suc.hyps(2) by arith
    ultimately obtain j where j: "j < ?cap" "probe_slot t key ?h [Suc n..<?cap] = Inr j"
        "t ! j = None" and path: "\<forall>q < ?cap. Suc n \<le> cdist ?cap ?h q \<longrightarrow>
          cdist ?cap ?h q < cdist ?cap ?h j \<longrightarrow> t ! q \<noteq> None"
      using Suc.hyps(1) [of "Suc n"] Suc.prems by auto
    have "t ! q \<noteq> None" if "q < ?cap" "n \<le> cdist ?cap ?h q" "cdist ?cap ?h q < cdist ?cap ?h j" for q
    proof (cases "cdist ?cap ?h q = n")
      case True
      then have "q = ?i" using cdist_inj [OF h that(1) i] di by simp
      with Some show ?thesis by simp
    next
      case False
      with that path show ?thesis by auto
    qed
    with j Some kv \<open>k \<noteq> key\<close> show ?thesis by (auto simp: offs Let_def)
  qed
qed

lemma probe_slot_empty:
  "probe_slot t key start offs = Inr i \<Longrightarrow> 0 < length t \<Longrightarrow> i < length t \<and> t ! i = None"
  by (induction offs) (auto simp: Let_def split: option.splits if_splits)

lemma probe_slot_duplicate:
  assumes inv: "table_inv home t" and p: "p < length t" "t ! p = Some (key, v)"
    and n: "n \<le> cdist (length t) (home key) p"
  shows "probe_slot t key (home key) [n..<length t] = Inl ProbeDuplicate"
  using probe_find_hit [OF assms]
proof (induction "length t - n" arbitrary: n)
  case (Suc m)
  then show ?case
    by (cases "n < length t")
      (auto simp: upt_conv_Cons Let_def split: option.splits if_splits)
qed simp

lemma probe_slot_full:
  assumes "\<forall>v. (key, v) \<notin> entries t" "\<forall>i < length t. t ! i \<noteq> None" "0 < length t"
  shows "probe_slot t key start offs = Inl ProbeFull"
  using assms
  by (induction offs)
    (auto simp: Let_def entries_def in_set_conv_nth split: option.splits)

lemma insert_inv:
  assumes inv: "table_inv home t" and i: "i < length t" "t ! i = None"
    and fresh: "\<forall>v. (key, v) \<notin> entries t"
    and path: "\<forall>q < length t. cdist (length t) (home key) q < cdist (length t) (home key) i \<longrightarrow> t ! q \<noteq> None"
  shows "table_inv home (t[i := Some (key, v)])"
proof -
  have "t ! p \<noteq> Some (key, w)" if "p < length t" for p w
    using fresh that by (auto simp: entries_def in_set_conv_nth)
  with inv i show ?thesis
    unfolding table_inv_def keys_unique_def unbroken_def
    using path by (auto simp: nth_list_update split: if_splits)
qed

lemma entries_update:
  assumes "i < length t" "t ! i = None"
  shows "entries (t[i := Some e]) = insert e (entries t)"
  using assms set_update_memI [OF assms(1), of "Some e"] set_update_subset_insert [of t i "Some e"]
  by (auto simp: entries_def set_conv_nth) (metis nth_list_update_neq option.distinct(1))

lemma used_update:
  "\<lbrakk>i < length t; t ! i = None\<rbrakk> \<Longrightarrow> used (t[i := Some e]) = Suc (used t)"
  by (induction t arbitrary: i) (auto simp: used_def nth_Cons split: nat.splits)

lemma used_full: "used t < length t \<Longrightarrow> \<exists>i < length t. t ! i = None"
  by (metis (mono_tags, lifting) filter_True in_set_conv_nth less_irrefl used_def)

theorem probe_insert:
  assumes inv: "table_inv home t" and room: "used t < length t"
    and fresh: "\<forall>v. (key, v) \<notin> entries t"
  shows "\<exists>i < length t. probe_slot t key (home key) [0..<length t] = Inr i \<and> t ! i = None \<and>
    table_inv home (t[i := Some (key, v)]) \<and>
    entries (t[i := Some (key, v)]) = insert (key, v) (entries t) \<and>
    used (t[i := Some (key, v)]) = Suc (used t)"
proof -
  obtain e where e: "e < length t" "t ! e = None"
    using used_full [OF room] by blast
  have h: "home key < length t" using inv e by (auto simp: table_inv_def)
  obtain i where i: "i < length t" "probe_slot t key (home key) [0..<length t] = Inr i" "t ! i = None"
    and path: "\<forall>q < length t. cdist (length t) (home key) q < cdist (length t) (home key) i \<longrightarrow> t ! q \<noteq> None"
    using probe_slot_fresh [where home = home and n = 0, OF h fresh e] by auto
  then show ?thesis
    using insert_inv [OF inv i(1,3) fresh path] entries_update [OF i(1,3)] used_update [OF i(1,3)]
    by auto
qed

section \<open>Back-shift deletion\<close>

text \<open>
  \<open>close_hole\<close> walks from the slot after the hole. An entry whose probe path runs through the
  hole moves into it and leaves the new hole behind; an empty slot ends the walk. Each move is
  recorded as (key, value, new position), in the order the source reports it to its caller. The
  source's \<open>loop\<close> never ends on a table without an empty slot; the fuel makes that \<open>None\<close>,
  and \<open>close_hole_returns\<close> shows the table length is fuel enough when there is an empty slot.
\<close>

fun close_hole ::
  "('k \<Rightarrow> nat) \<Rightarrow> nat \<Rightarrow> ('k, 'v) table \<Rightarrow> nat \<Rightarrow> nat \<Rightarrow> (('k, 'v) table \<times> ('k \<times> 'v \<times> nat) list) option"
where
  "close_hole home 0 t hole cand = None"
| "close_hole home (Suc fuel) t hole cand =
     (case t ! cand of
        None \<Rightarrow> Some (t[hole := None], [])
      | Some (k, v) \<Rightarrow>
          if cdist (length t) (home k) hole < cdist (length t) (home k) cand
          then map_option (\<lambda>(t', moves). (t', (k, v, hole) # moves))
                 (close_hole home fuel (t[hole := Some (k, v)]) cand (Suc cand mod length t))
          else close_hole home fuel t hole (Suc cand mod length t))"

text \<open>
  The loop invariant, on the table with the stale entry of the hole taken out: paths are unbroken
  but for the hole; the slots already passed are occupied and their paths avoid the hole; \<open>e\<close> is
  an empty slot still ahead.
\<close>

definition hole_inv :: "('k \<Rightarrow> nat) \<Rightarrow> ('k, 'v) table \<Rightarrow> nat \<Rightarrow> nat \<Rightarrow> nat \<Rightarrow> bool" where
  "hole_inv home t hole cand e \<longleftrightarrow>
     (let cap = length t in
      (\<forall>k. home k < cap) \<and> hole < cap \<and> cand < cap \<and> e < cap \<and> e \<noteq> hole \<and> t ! e = None \<and>
      cand \<noteq> hole \<and> cdist cap hole cand \<le> cdist cap hole e \<and>
      keys_unique (t[hole := None]) \<and>
      (\<forall>p < cap. \<forall>q < cap. \<forall>k v. p \<noteq> hole \<longrightarrow> q \<noteq> hole \<longrightarrow> t ! p = Some (k, v) \<longrightarrow>
         cdist cap (home k) q < cdist cap (home k) p \<longrightarrow> t ! q \<noteq> None) \<and>
      (\<forall>p < cap. \<forall>k v. p \<noteq> hole \<longrightarrow> cdist cap hole p < cdist cap hole cand \<longrightarrow>
         t ! p = Some (k, v) \<longrightarrow> cdist cap (home k) p \<le> cdist cap (home k) hole))"

lemma hole_inv_done:
  assumes inv: "hole_inv home t hole cand e" and none: "t ! cand = None"
  shows "table_inv home (t[hole := None])"
proof -
  let ?cap = "length t"
  have b: "hole < ?cap" "cand < ?cap" "cand \<noteq> hole" and hm: "home k < ?cap" for k
    using inv by (auto simp: hole_inv_def Let_def)
  have "t ! p \<noteq> Some (k, v) \<or> cdist ?cap (home k) p \<le> cdist ?cap (home k) hole"
    if p: "p < ?cap" "p \<noteq> hole" for p k v
  proof (rule ccontr)
    assume "\<not> ?thesis"
    then have tp: "t ! p = Some (k, v)" and through: "cdist ?cap (home k) hole < cdist ?cap (home k) p"
      by auto
    have d: "cdist ?cap hole p = cdist ?cap (home k) p - cdist ?cap (home k) hole"
      using cdist_between [OF hm b(1) p(1)] through by simp
    have "p \<noteq> cand" using tp none by auto
    then have lt: "cdist ?cap hole cand < cdist ?cap hole p"
      using inv p tp through b cdist_inj [OF b(1) p(1) b(2)]
      unfolding hole_inv_def Let_def by (metis linorder_neqE_nat not_less)
    have "cdist ?cap (home k) hole + cdist ?cap hole cand < ?cap"
      using d lt through cdist_less [OF hm p(1), of k] by linarith
    then have "cdist ?cap (home k) cand = cdist ?cap (home k) hole + cdist ?cap hole cand"
      by (rule cdist_step [OF hm b(1,2)])
    then have "cdist ?cap (home k) cand < cdist ?cap (home k) p"
      using d lt through by linarith
    then show False
      using inv p b tp none unfolding hole_inv_def Let_def by metis
  qed
  then show ?thesis
    using inv unfolding table_inv_def unbroken_def hole_inv_def Let_def
    by (auto simp: nth_list_update split: if_splits) (metis leD option.distinct(1))+
qed

lemma hole_inv_skip:
  assumes inv: "hole_inv home t hole cand e" and some: "t ! cand = Some (k, v)"
    and skip: "\<not> cdist (length t) (home k) hole < cdist (length t) (home k) cand"
  shows "hole_inv home t hole (Suc cand mod length t) e"
proof -
  let ?cap = "length t" and ?next = "Suc cand mod length t"
  have b: "hole < ?cap" "cand < ?cap" "e < ?cap" "e \<noteq> cand" "cdist ?cap hole cand \<le> cdist ?cap hole e"
    using inv some by (auto simp: hole_inv_def Let_def)
  then have lt: "cdist ?cap hole cand < cdist ?cap hole e"
    using cdist_inj [OF b(1,2,3)] by (metis nat_less_le)
  have "?next \<noteq> hole"
  proof
    assume "?next = hole"
    then have "cdist ?cap hole cand = ?cap - 1"
      using b by (auto simp: cdist_def mod_Suc split: if_splits)
    with lt cdist_less [OF b(1,3)] show False by simp
  qed
  then have nx: "cdist ?cap hole ?next = Suc (cdist ?cap hole cand)"
    using cdist_Suc [OF b(1,2)] by simp
  have "?next < ?cap" using b by (auto intro: mod_less_divisor)
  moreover have "cdist ?cap (home k') p \<le> cdist ?cap (home k') hole"
    if "p < ?cap" "p \<noteq> hole" "cdist ?cap hole p < cdist ?cap hole ?next" "t ! p = Some (k', w)" for p k' w
  proof (cases "p = cand")
    case True
    with some skip that show ?thesis by auto
  next
    case False
    then have "cdist ?cap hole p < cdist ?cap hole cand"
      using that nx cdist_inj [OF b(1) that(1) b(2)] by (metis less_SucE)
    with inv that show ?thesis unfolding hole_inv_def Let_def by blast
  qed
  ultimately show ?thesis
    using inv \<open>?next \<noteq> hole\<close> nx lt unfolding hole_inv_def Let_def by auto
qed

lemma nth_cleared [simp]:
  "p < length t \<Longrightarrow> t[h := None] ! p = Some e \<longleftrightarrow> p \<noteq> h \<and> t ! p = Some e"
  by (cases "p = h") auto

lemma keys_unique_cleared: "keys_unique t \<Longrightarrow> keys_unique (t[h := None])"
  by (auto simp: keys_unique_def)

lemma entries_cleared:
  assumes "keys_unique t" "p < length t" "t ! p = Some (key, v)"
  shows "entries (t[p := None]) = entries t - {(key, v)}"
proof (rule set_eqI)
  fix e :: "'a \<times> 'b"
  have "e \<in> entries (t[p := None]) \<longleftrightarrow> (\<exists>q < length t. q \<noteq> p \<and> t ! q = Some e)"
    by (auto simp: entries_def in_set_conv_nth)
  also have "\<dots> \<longleftrightarrow> (\<exists>q < length t. t ! q = Some e) \<and> e \<noteq> (key, v)"
    using assms unfolding keys_unique_def by (metis option.inject)
  finally show "e \<in> entries (t[p := None]) \<longleftrightarrow> e \<in> entries t - {(key, v)}"
    by (auto simp: entries_def in_set_conv_nth)
qed

lemma keys_unique_move:
  assumes "keys_unique (t[hole := None])" "t ! cand = Some (k, v)" "cand < length t" "hole \<noteq> cand"
  shows "keys_unique (t[hole := Some (k, v), cand := None])"
proof -
  have pos: "p = (if a = k then cand else p)" if "p < length t" "p \<noteq> hole" "t ! p = Some (a, b)" for p a b
    using assms that by (auto simp: keys_unique_def)
  have new: "t[hole := Some (k, v), cand := None] ! p = Some (a, b) \<longleftrightarrow>
      p \<noteq> cand \<and> (if p = hole then (a, b) = (k, v) else t ! p = Some (a, b))"
    if "p < length t" for p a b
    using that by (auto simp: nth_list_update)
  show ?thesis
    unfolding keys_unique_def
  proof (intro allI impI)
    fix p q a b c
    assume pq: "p < length (t[hole := Some (k, v), cand := None])"
      "q < length (t[hole := Some (k, v), cand := None])"
      and tp: "t[hole := Some (k, v), cand := None] ! p = Some (a, b)"
      and tq: "t[hole := Some (k, v), cand := None] ! q = Some (a, c)"
    have p: "p \<noteq> cand \<and> (if p = hole then a = k else t ! p = Some (a, b))"
      and q: "q \<noteq> cand \<and> (if q = hole then a = k else t ! q = Some (a, c))"
      using pq tp tq new by (auto split: if_splits)
    show "p = q"
    proof (cases "p = hole \<or> q = hole")
      case True
      then show ?thesis
        using p q pq pos [of p a b] pos [of q a c] by (auto split: if_splits)
    next
      case False
      then show ?thesis
        using p q pq assms(1) by (auto simp: keys_unique_def)
    qed
  qed
qed

lemma hole_inv_move:
  assumes inv: "hole_inv home t hole cand e" and some: "t ! cand = Some (k, v)"
    and through: "cdist (length t) (home k) hole < cdist (length t) (home k) cand"
  shows "hole_inv home (t[hole := Some (k, v)]) cand (Suc cand mod length t) e"
proof -
  let ?cap = "length t" and ?next = "Suc cand mod length t" and ?t = "t[hole := Some (k, v)]"
  have b: "hole < ?cap" "cand < ?cap" "e < ?cap" "e \<noteq> cand" "e \<noteq> hole" "cand \<noteq> hole" "t ! e = None"
    using inv some by (auto simp: hole_inv_def Let_def)
  then have nx: "?next \<noteq> cand" "?next < ?cap"
    by (auto simp: mod_Suc)
  then have one: "cdist ?cap cand ?next = 1"
    using b cdist_Suc [OF b(2,2)] by simp
  have "keys_unique (?t[cand := None])"
    using inv some b by (intro keys_unique_move) (auto simp: hole_inv_def Let_def)
  moreover have "?t ! q \<noteq> None"
    if q: "p < ?cap" "q < ?cap" "p \<noteq> cand" "q \<noteq> cand" "?t ! p = Some (k', w)"
      "cdist ?cap (home k') q < cdist ?cap (home k') p" for p q k' w
  proof (cases "q = hole")
    case True
    then show ?thesis using b by simp
  next
    case False
    show ?thesis
    proof (cases "p = hole")
      case True
      then have "cdist ?cap (home k) q < cdist ?cap (home k) cand"
        using q through b by simp
      then show ?thesis
        using inv some b q False unfolding hole_inv_def Let_def by (auto simp: nth_list_update)
    next
      case neq: False
      then show ?thesis
        using inv q False unfolding hole_inv_def Let_def by (auto simp: nth_list_update)
    qed
  qed
  moreover have "cdist ?cap cand ?next \<le> cdist ?cap cand e"
    using one cdist_eq_0_iff [OF b(2,3)] b by (metis One_nat_def Suc_leI neq0_conv)
  moreover have "\<not> cdist ?cap cand p < cdist ?cap cand ?next" if "p < ?cap" "p \<noteq> cand" for p
    using one cdist_eq_0_iff [OF b(2) that(1)] that by simp
  ultimately show ?thesis
    using inv b nx unfolding hole_inv_def Let_def by (auto simp: nth_list_update)
qed

lemma move_entry_mset:
  assumes "hole < length t" "cand < length t" "hole \<noteq> cand" "t ! cand = Some kv"
  shows "mset (t[hole := Some kv, cand := None]) = mset (t[hole := None])"
proof -
  let ?t = "t[hole := None]"
  have "t[hole := Some kv, cand := None] = ?t[hole := ?t ! cand, cand := ?t ! hole]"
    using assms by (simp add: nth_list_update)
  also have "mset \<dots> = mset ?t"
    using assms by (intro mset_swap) simp_all
  finally show ?thesis .
qed

lemma entries_mset: "entries t = {e. Some e \<in># mset t}"
  by (simp add: entries_def)

lemma used_mset: "used t = size (filter_mset (\<lambda>e. e \<noteq> None) (mset t))"
  by (simp add: used_def flip: mset_filter)

theorem close_hole_returns:
  assumes "hole_inv home t hole cand e" "cdist (length t) cand e < fuel"
  shows "\<exists>t' moves. close_hole home fuel t hole cand = Some (t', moves) \<and> length t' = length t \<and>
    table_inv home t' \<and> mset t' = mset (t[hole := None]) \<and>
    (\<forall>p < length t. t' ! p \<noteq> None \<longrightarrow> t ! p \<noteq> None \<or> p = hole) \<and>
    (\<forall>(k, v, p) \<in> set moves. (k, v) \<in> entries (t[hole := None]) \<and> p < length t \<and> (t ! p \<noteq> None \<or> p = hole))"
  using assms
proof (induction fuel arbitrary: t hole cand)
  case 0
  then show ?case by simp
next
  case (Suc fuel)
  let ?cap = "length t" and ?next = "Suc cand mod length t"
  have b: "hole < ?cap" "cand < ?cap" "e < ?cap" "cand \<noteq> hole"
    using Suc.prems(1) by (auto simp: hole_inv_def Let_def)
  show ?case
  proof (cases "t ! cand")
    case None
    then show ?thesis
      using hole_inv_done [OF Suc.prems(1) None] by (auto simp: nth_list_update)
  next
    case (Some kv)
    obtain k v where kv: "t ! cand = Some (k, v)" using Some by (cases kv) auto
    have "e \<noteq> cand"
      using Suc.prems(1) kv by (auto simp: hole_inv_def Let_def)
    then have "cdist ?cap ?next e < fuel"
      using Suc.prems(2) b by (auto simp: cdist_def mod_Suc split: if_splits)
    note fuel = this
    show ?thesis
    proof (cases "cdist ?cap (home k) hole < cdist ?cap (home k) cand")
      case True
      let ?t = "t[hole := Some (k, v)]"
      have ms: "mset (?t[cand := None]) = mset (t[hole := None])"
        using move_entry_mset [OF b(1,2) _ kv] b(4) by simp
      then have en: "entries (?t[cand := None]) = entries (t[hole := None])"
        by (simp add: entries_mset)
      have "(k, v) \<in> entries (t[hole := None])"
        using kv b by (auto simp: entries_def in_set_conv_nth intro!: exI [of _ cand])
      moreover obtain t' m where r: "close_hole home fuel ?t cand ?next = Some (t', m)"
          "length t' = ?cap" "table_inv home t'" "mset t' = mset (t[hole := None])"
          "\<forall>p < ?cap. t' ! p \<noteq> None \<longrightarrow> ?t ! p \<noteq> None \<or> p = cand"
          "\<forall>(k, v, p) \<in> set m. (k, v) \<in> entries (t[hole := None]) \<and> p < ?cap \<and>
             (?t ! p \<noteq> None \<or> p = cand)"
        using Suc.IH [OF hole_inv_move [OF Suc.prems(1) kv True]] fuel ms en by auto
      moreover have "?t ! p \<noteq> None \<or> p = cand \<Longrightarrow> t ! p \<noteq> None \<or> p = hole" if "p < ?cap" for p
        using that kv by (auto simp: nth_list_update split: if_splits)
      ultimately show ?thesis
        using kv True b by (auto 0 4)
    next
      case False
      with Suc.IH [OF hole_inv_skip [OF Suc.prems(1) kv False] fuel] kv
      show ?thesis by simp
    qed
  qed
qed

lemma hole_inv_start:
  assumes inv: "table_inv home t" and p: "p < length t" "t ! p = Some (key, v)"
    and room: "used t < length t"
  shows "\<exists>e. hole_inv home t p (Suc p mod length t) e \<and>
    cdist (length t) (Suc p mod length t) e < length t"
proof -
  let ?cap = "length t" and ?c = "Suc p mod length t"
  obtain e where e: "e < ?cap" "t ! e = None"
    using used_full [OF room] by blast
  then have ep: "e \<noteq> p" using p by auto
  then have c: "?c \<noteq> p" "?c < ?cap"
    using p e by (auto simp: mod_Suc)
  then have one: "cdist ?cap p ?c = 1"
    using cdist_Suc [OF p(1,1)] by simp
  have "hole_inv home t p ?c e"
    unfolding hole_inv_def Let_def
  proof (intro conjI allI impI)
    show "cdist ?cap p ?c \<le> cdist ?cap p e"
      using one cdist_eq_0_iff [OF p(1) e(1)] ep by (metis One_nat_def Suc_leI neq0_conv)
    show "cdist ?cap (home k) q \<le> cdist ?cap (home k) p"
      if "q < ?cap" "q \<noteq> p" "cdist ?cap p q < cdist ?cap p ?c" for q k
      using that one cdist_eq_0_iff [OF p(1) that(1)] by simp
    show "keys_unique (t[p := None])"
      using inv by (simp add: table_inv_def keys_unique_cleared)
    show "home k < ?cap" for k
      using inv p by (auto simp: table_inv_def)
  qed (use inv p e ep c in \<open>auto simp: table_inv_def unbroken_def\<close>)
  with cdist_less [OF c(2) e(1)] show ?thesis by blast
qed

theorem probe_remove:
  assumes inv: "table_inv home t" and p: "p < length t" "t ! p = Some (key, v)"
    and room: "used t < length t"
  shows "\<exists>t' moves. close_hole home (length t) t p (Suc p mod length t) = Some (t', moves) \<and>
    length t' = length t \<and> table_inv home t' \<and> entries t' = entries t - {(key, v)} \<and>
    used t = Suc (used t') \<and> (\<forall>q < length t. t' ! q \<noteq> None \<longrightarrow> t ! q \<noteq> None) \<and>
    (\<forall>(k, w, q) \<in> set moves. (k, w) \<in> entries t - {(key, v)} \<and> q < length t \<and> t ! q \<noteq> None)"
proof -
  let ?cap = "length t" and ?c = "Suc p mod length t"
  obtain e where "hole_inv home t p ?c e" "cdist ?cap ?c e < ?cap"
    using hole_inv_start [OF assms] by blast
  then obtain t' moves where r: "close_hole home ?cap t p ?c = Some (t', moves)"
      "length t' = ?cap" "table_inv home t'" "mset t' = mset (t[p := None])"
      "\<forall>q < ?cap. t' ! q \<noteq> None \<longrightarrow> t ! q \<noteq> None \<or> q = p"
      "\<forall>(k, w, q) \<in> set moves. (k, w) \<in> entries (t[p := None]) \<and> q < ?cap \<and> (t ! q \<noteq> None \<or> q = p)"
    using close_hole_returns by blast
  have en: "entries (t[p := None]) = entries t - {(key, v)}"
    by (rule entries_cleared [OF _ p]) (use inv in \<open>simp add: table_inv_def\<close>)
  have "t[p := Some (key, v)] = t"
    using list_update_id [of t p] by (simp only: p(2))
  then have us: "used t = Suc (used (t[p := None]))"
    using used_update [of p "t[p := None]" "(key, v)"] p by simp
  show ?thesis
  proof (intro exI [of _ t'] exI [of _ moves] conjI)
    show "entries t' = entries t - {(key, v)}" "used t = Suc (used t')"
      using r(4) en us by (simp_all add: entries_mset used_mset)
    show "\<forall>q < ?cap. t' ! q \<noteq> None \<longrightarrow> t ! q \<noteq> None"
      using r(5) p by (metis option.distinct(1))
    show "\<forall>(k, w, q) \<in> set moves. (k, w) \<in> entries t - {(key, v)} \<and> q < ?cap \<and> t ! q \<noteq> None"
      unfolding en [symmetric]
    proof
      fix m
      assume "m \<in> set moves"
      with r(6) p show "case m of (k, w, q) \<Rightarrow> (k, w) \<in> entries (t[p := None]) \<and> q < ?cap \<and> t ! q \<noteq> None"
        by (cases m) auto
    qed
  qed (use r in simp_all)
qed

lemma used_card:
  assumes "table_inv home t"
  shows "used t = card (entries t)" "finite (entries t)"
proof -
  let ?I = "{i. i < length t \<and> t ! i \<noteq> None}"
  have "inj_on (\<lambda>i. the (t ! i)) ?I"
    using assms by (auto simp: inj_on_def table_inv_def keys_unique_def)
  then have "card ((\<lambda>i. the (t ! i)) ` ?I) = card ?I"
    by (rule card_image)
  moreover have "(\<lambda>i. the (t ! i)) ` ?I = entries t"
  proof (intro equalityI subsetI)
    fix e
    assume "e \<in> entries t"
    then obtain i where "i < length t" "t ! i = Some e" by (auto simp: entries_def in_set_conv_nth)
    then show "e \<in> (\<lambda>i. the (t ! i)) ` ?I" by (intro image_eqI [of _ _ i]) auto
  qed (auto simp: entries_def in_set_conv_nth)
  moreover have "used t = card ?I"
    by (simp only: used_def length_filter_conv_card)
  moreover have "finite ((\<lambda>i. the (t ! i)) ` ?I)" by simp
  ultimately show "used t = card (entries t)" "finite (entries t)" by simp_all
qed

section \<open>Handles that follow their entries\<close>

text \<open>
  Both users of an index store, next to the indexed object, the slot of its index entry, and the
  deletion tells them when an entry moved. The contract: \<open>R s k v p\<close> says that in state \<open>s\<close> the
  object of entry \<open>(k, v)\<close> has handle \<open>p\<close>; an update rewrites the handle of its own object and
  no other. Then the handles are right after any deletion.
\<close>

locale handle_store =
  fixes R :: "'s \<Rightarrow> 'k \<Rightarrow> 'v \<Rightarrow> nat \<Rightarrow> bool"
    and upd :: "'k \<Rightarrow> 'v \<Rightarrow> nat \<Rightarrow> 's \<Rightarrow> 's"
  assumes upd_own: "R s k v p \<Longrightarrow> R (upd k v q s) k v q"
    and upd_other: "\<lbrakk>R s k v p; R s k' v' p'; k' \<noteq> k\<rbrakk> \<Longrightarrow> R (upd k v q s) k' v' p'"
begin

lemma close_hole_handles:
  assumes "close_hole home fuel t hole cand = Some (t', moves)" "hole_inv home t hole cand e"
    and "\<forall>p < length t. \<forall>k v. p \<noteq> hole \<longrightarrow> t ! p = Some (k, v) \<longrightarrow> R s k v p"
  shows "\<forall>p < length t. \<forall>k v. t' ! p = Some (k, v) \<longrightarrow>
    R (fold (\<lambda>(k, v, p). upd k v p) moves s) k v p"
  using assms
proof (induction fuel arbitrary: t hole cand moves s)
  case (Suc fuel)
  have b: "hole < length t" "cand < length t" "cand \<noteq> hole"
    using Suc.prems(2) by (auto simp: hole_inv_def Let_def)
  show ?case
  proof (cases "t ! cand")
    case None
    with Suc.prems show ?thesis by auto
  next
    case (Some kv)
    obtain k v where kv: "t ! cand = Some (k, v)" using Some by (cases kv) auto
    show ?thesis
    proof (cases "cdist (length t) (home k) hole < cdist (length t) (home k) cand")
      case False
      with Suc.IH [of t hole "Suc cand mod length t" moves s] Suc.prems kv
        hole_inv_skip [OF Suc.prems(2) kv False] show ?thesis by simp
    next
      case True
      let ?t = "t[hole := Some (k, v)]" and ?s = "upd k v hole s"
      obtain m where m: "close_hole home fuel ?t cand (Suc cand mod length t) = Some (t', m)"
          "moves = (k, v, hole) # m"
        using Suc.prems(1) kv True by auto
      have own: "R s k v cand"
        using Suc.prems(3) b kv by blast
      have "R ?s k' v' p" if p: "p < length t" "p \<noteq> cand" "?t ! p = Some (k', v')" for p k' v'
      proof (cases "p = hole")
        case True
        with p b upd_own [OF own] show ?thesis by simp
      next
        case False
        then have "R s k' v' p" using Suc.prems(3) p by simp
        moreover have "k' \<noteq> k"
          using Suc.prems(2) kv p b False unfolding hole_inv_def Let_def keys_unique_def
          by auto
        ultimately show ?thesis using upd_other [OF own] by blast
      qed
      with Suc.IH [OF m(1)] hole_inv_move [OF Suc.prems(2) kv True] m(2) show ?thesis
        by simp
    qed
  qed
qed simp

lemma remove_handles:
  assumes "table_inv home t" "p < length t" "t ! p = Some (key, v)" "used t < length t"
    and "close_hole home (length t) t p (Suc p mod length t) = Some (t', moves)"
    and "\<forall>q < length t. \<forall>k w. q \<noteq> p \<longrightarrow> t ! q = Some (k, w) \<longrightarrow> R s k w q"
  shows "\<forall>q < length t. \<forall>k w. t' ! q = Some (k, w) \<longrightarrow>
    R (fold (\<lambda>(k, v, p). upd k v p) moves s) k w q"
  using hole_inv_start [OF assms(1-4)] close_hole_handles [OF assms(5) _ assms(6)] by blast

end

section \<open>The contract of an index\<close>

text \<open>
  What the order book and the risk engine rely on: an index is a probe table (\<open>contents\<close>) with a
  lookup, an insertion that returns the slot it wrote, and a deletion by slot that reports the
  entries it moved. \<open>valid\<close> are the values the index can encode.
\<close>

locale index_contract =
  fixes home :: "'k \<Rightarrow> nat"
    and invar :: "'i \<Rightarrow> bool"
    and contents :: "'i \<Rightarrow> ('k, 'v) table"
    and valid :: "'v \<Rightarrow> bool"
    and find :: "'i \<Rightarrow> 'k \<Rightarrow> 'v option"
    and ins :: "'i \<Rightarrow> 'k \<Rightarrow> 'v \<Rightarrow> 'e + 'i \<times> u32"
    and del :: "'i \<Rightarrow> u32 \<Rightarrow> 'k \<Rightarrow> ('i \<times> ('k \<times> 'v \<times> u32) list \<times> 'v option) option"
  assumes table: "invar i \<Longrightarrow> table_inv home (contents i)"
    and find_entry: "invar i \<Longrightarrow> find i k = Some v \<longleftrightarrow> (k, v) \<in> entries (contents i)"
    and ins_fresh: "\<lbrakk>invar i; valid v; used (contents i) < length (contents i);
        \<forall>w. (k, w) \<notin> entries (contents i)\<rbrakk> \<Longrightarrow>
      \<exists>i' s. ins i k v = Inr (i', s) \<and> invar i' \<and> unat s < length (contents i) \<and>
        contents i ! unat s = None \<and> contents i' = (contents i)[unat s := Some (k, v)]"
    and del_slot: "\<lbrakk>invar i; unat s < length (contents i); contents i ! unat s = Some (k, v);
        used (contents i) < length (contents i)\<rbrakk> \<Longrightarrow>
      \<exists>i' moves. del i s k = Some (i', moves, Some v) \<and> invar i' \<and>
        close_hole home (length (contents i)) (contents i) (unat s)
          (Suc (unat s) mod length (contents i))
        = Some (contents i', map (\<lambda>(k, v, s). (k, v, unat s)) moves)"
begin

lemma find_none: "invar i \<Longrightarrow> find i k = None \<longleftrightarrow> (\<forall>v. (k, v) \<notin> entries (contents i))"
  using find_entry [of i k] by (metis not_None_eq option.distinct(1))

lemma find_ins:
  assumes "invar i" "valid v" "used (contents i) < length (contents i)" "find i k = None"
  shows "\<exists>i' s. ins i k v = Inr (i', s) \<and> invar i' \<and> find i' = (find i)(k := Some v) \<and>
    length (contents i') = length (contents i) \<and> used (contents i') = Suc (used (contents i)) \<and>
    unat s < length (contents i) \<and> contents i ! unat s = None \<and>
    contents i' = (contents i)[unat s := Some (k, v)]"
proof -
  have fresh: "\<forall>w. (k, w) \<notin> entries (contents i)"
    using assms find_none by blast
  obtain i' s where r: "ins i k v = Inr (i', s)" "invar i'" "unat s < length (contents i)"
      "contents i ! unat s = None" "contents i' = (contents i)[unat s := Some (k, v)]"
    using ins_fresh [OF assms(1-3) fresh] by blast
  have "entries (contents i') = insert (k, v) (entries (contents i))"
    using r entries_update by metis
  then have "find i' x = Some w \<longleftrightarrow> ((find i)(k := Some v)) x = Some w" for x w
    using find_entry [OF r(2), of x w] find_entry [OF assms(1), of x w] fresh by auto
  then have "find i' = (find i)(k := Some v)"
    by (intro ext) (metis option.exhaust)
  with r show ?thesis by (auto simp: used_update)
qed

lemma find_del:
  assumes "invar i" "unat s < length (contents i)" "contents i ! unat s = Some (k, v)"
    and "used (contents i) < length (contents i)"
  shows "\<exists>i' moves. del i s k = Some (i', moves, Some v) \<and> invar i' \<and>
    find i' = (find i)(k := None) \<and> length (contents i') = length (contents i) \<and>
    used (contents i) = Suc (used (contents i')) \<and>
    close_hole home (length (contents i)) (contents i) (unat s)
      (Suc (unat s) mod length (contents i))
    = Some (contents i', map (\<lambda>(k, v, s). (k, v, unat s)) moves)"
proof -
  obtain i' moves where r: "del i s k = Some (i', moves, Some v)" "invar i'"
      "close_hole home (length (contents i)) (contents i) (unat s)
         (Suc (unat s) mod length (contents i))
       = Some (contents i', map (\<lambda>(k, v, s). (k, v, unat s)) moves)"
    using del_slot [OF assms] by blast
  then have e: "entries (contents i') = entries (contents i) - {(k, v)}"
      "length (contents i') = length (contents i)" "used (contents i) = Suc (used (contents i'))"
    using probe_remove [OF table [OF assms(1)] assms(2-4)] by auto
  have "(k, w) \<in> entries (contents i) \<Longrightarrow> w = v" for w
    using table [OF assms(1)] assms(2,3)
    by (auto simp: table_inv_def keys_unique_def entries_def in_set_conv_nth)
  then have "find i' x = Some w \<longleftrightarrow> ((find i)(k := None)) x = Some w" for x w
    using find_entry [OF r(2), of x w] find_entry [OF assms(1), of x w] e(1) by auto
  then have "find i' = (find i)(k := None)"
    by (intro ext) (metis option.exhaust)
  with r e show ?thesis by blast
qed

end

text \<open>An index together with the handles its user stores: deletion keeps them right.\<close>

locale indexed_store = index_contract home invar contents valid find ins del
  + handle_store R "\<lambda>k v p. upd k v (of_nat p)"
  for home :: "'k \<Rightarrow> nat" and invar :: "'i \<Rightarrow> bool" and contents :: "'i \<Rightarrow> ('k, 'v) table"
    and valid :: "'v \<Rightarrow> bool" and find :: "'i \<Rightarrow> 'k \<Rightarrow> 'v option"
    and ins :: "'i \<Rightarrow> 'k \<Rightarrow> 'v \<Rightarrow> 'e + 'i \<times> u32"
    and del :: "'i \<Rightarrow> u32 \<Rightarrow> 'k \<Rightarrow> ('i \<times> ('k \<times> 'v \<times> u32) list \<times> 'v option) option"
    and R :: "'s \<Rightarrow> 'k \<Rightarrow> 'v \<Rightarrow> nat \<Rightarrow> bool" and upd :: "'k \<Rightarrow> 'v \<Rightarrow> u32 \<Rightarrow> 's \<Rightarrow> 's"
begin

lemma del_handles:
  assumes "invar i" "unat s < length (contents i)" "contents i ! unat s = Some (k, v)"
    and "used (contents i) < length (contents i)"
    and "\<forall>q < length (contents i). \<forall>k w. q \<noteq> unat s \<longrightarrow> contents i ! q = Some (k, w) \<longrightarrow> R st k w q"
  shows "\<exists>i' moves. del i s k = Some (i', moves, Some v) \<and> invar i' \<and>
    find i' = (find i)(k := None) \<and> length (contents i') = length (contents i) \<and>
    used (contents i) = Suc (used (contents i')) \<and>
    (\<forall>q < length (contents i). \<forall>k w. contents i' ! q = Some (k, w) \<longrightarrow>
       R (fold (\<lambda>(k, v, s). upd k v s) moves st) k w q)"
proof -
  obtain i' moves where r: "del i s k = Some (i', moves, Some v)" "invar i'"
      "find i' = (find i)(k := None)" "length (contents i') = length (contents i)"
      "used (contents i) = Suc (used (contents i'))"
      "close_hole home (length (contents i)) (contents i) (unat s)
         (Suc (unat s) mod length (contents i))
       = Some (contents i', map (\<lambda>(k, v, s). (k, v, unat s)) moves)"
    using find_del [OF assms(1-4)] by blast
  have "fold (\<lambda>(k, v, p). upd k v (of_nat p)) (map (\<lambda>(k, v, s). (k, v, unat s)) moves) st
      = fold (\<lambda>(k, v, s). upd k v s) moves st"
    by (induction moves arbitrary: st) auto
  with r remove_handles [OF table [OF assms(1)] assms(2-4) r(6) assms(5)] show ?thesis by auto
qed

end

end
