(* ===== verification/Order_Index.thy ===== *)
theory Order_Index
  imports Types Probe_Table
begin

text \<open>
  The order-id index of the book (\<open>OrderIndex\<close> in \<^verbatim>\<open>crates/hft-book/src/lib.rs\<close>): open
  addressing with linear probing, compact encoded locations and back-shift deletion. The const
  generics \<open>LEVELS\<close> and \<open>ORDERS\<close> are the parameters \<open>L\<close> and \<open>K\<close>. The nested
  \<open>[[[IndexSlot; ORDERS]; LEVELS]; 4]\<close> array is one list in the order of the flat index;
  \<open>coordinates\<close> and the bijection theorem below say why that is the same storage.

  \<open>remove_at\<close> calls its closure once per moved entry. The model returns the calls, in order, and
  the caller applies them (the closure only touches the book's levels, never the index). A result
  of \<open>None\<close> is a panic (\<open>expect\<close>) or a loop that never ends.
\<close>

section \<open>Locations\<close>

record order_location =
  ol_side :: side
  ol_level_index :: nat
  ol_slot :: nat

record index_slot =
  is_order_id :: order_id
  is_location :: "nat option"

definition ORDER_INDEX_PLANES :: nat where "ORDER_INDEX_PLANES = 4"

definition index_slot_EMPTY :: index_slot where
  "index_slot_EMPTY = \<lparr>is_order_id = 0, is_location = None\<rparr>"

type_synonym order_index = "index_slot list"

definition index_capacity :: "nat \<Rightarrow> nat \<Rightarrow> nat" where
  "index_capacity L K = L * K * ORDER_INDEX_PLANES"

definition order_index_new :: "nat \<Rightarrow> nat \<Rightarrow> order_index" where
  "order_index_new L K = replicate (index_capacity L K) index_slot_EMPTY"

definition encode_location :: "nat \<Rightarrow> nat \<Rightarrow> order_location \<Rightarrow> nat option" where
  "encode_location L K location =
     (if ol_level_index location \<ge> L \<or> ol_slot location \<ge> K then None
      else
        Option.bind (usize_checked_mul (ol_level_index location) K) (\<lambda>m.
        Option.bind (usize_checked_add m (ol_slot location)) (\<lambda>flat.
        Option.bind (usize_checked_mul flat 2) (\<lambda>d.
        Option.bind (usize_checked_add d (if ol_side location = Sell then 1 else 0)) (\<lambda>e.
        Option.bind (usize_checked_add e 1) (\<lambda>encoded.
          if encoded = 0 then None else Some encoded))))))"

definition decode_location :: "nat \<Rightarrow> nat \<Rightarrow> nat \<Rightarrow> order_location option" where
  "decode_location L K encoded =
     (let encoded = encoded - 1; flat = encoded div 2 in
      if K = 0 then None
      else
        let level_index = flat div K in
        if level_index \<ge> L then None
        else Some \<lparr>ol_side = (if even encoded then Buy else Sell),
                   ol_level_index = level_index, ol_slot = flat mod K\<rparr>)"

definition coordinates :: "nat \<Rightarrow> nat \<Rightarrow> nat \<Rightarrow> nat \<times> nat \<times> nat" where
  "coordinates L K flat_index =
     (let per_plane = L * K; plane = flat_index div per_plane;
          within_plane = flat_index mod per_plane
      in (plane, within_plane div K, within_plane mod K))"

section \<open>Probing\<close>

definition probe_start :: "nat \<Rightarrow> u64 \<Rightarrow> nat" where
  "probe_start capacity key = unat (key * 0x9e3779b97f4a7c15) mod capacity"

definition probe_distance :: "nat \<Rightarrow> nat \<Rightarrow> nat \<Rightarrow> nat" where
  "probe_distance capacity home current =
     (if current \<ge> home then current - home else capacity - (home - current))"

fun find_slot_loop :: "nat \<Rightarrow> order_index \<Rightarrow> order_id \<Rightarrow> nat \<Rightarrow> nat list \<Rightarrow> nat option" where
  "find_slot_loop cap index order_id start [] = None"
| "find_slot_loop cap index order_id start (offset # offsets) =
     (let flat_index = usize_wrapping_add start offset mod cap; slot = index ! flat_index in
      case is_location slot of
        None \<Rightarrow> None
      | Some _ \<Rightarrow>
          if is_order_id slot = order_id then Some flat_index
          else find_slot_loop cap index order_id start offsets)"

definition find_slot :: "nat \<Rightarrow> nat \<Rightarrow> order_index \<Rightarrow> order_id \<Rightarrow> nat option" where
  "find_slot L K index order_id =
     (let cap = index_capacity L K in
      if cap = 0 then None
      else find_slot_loop cap index order_id (probe_start cap order_id) [0..<cap])"

definition index_location :: "nat \<Rightarrow> nat \<Rightarrow> order_index \<Rightarrow> order_id \<Rightarrow> order_location option" where
  "index_location L K index order_id =
     Option.bind (find_slot L K index order_id) (\<lambda>i.
     Option.bind (is_location (index ! i)) (decode_location L K))"

fun insert_loop ::
  "nat \<Rightarrow> order_index \<Rightarrow> order_id \<Rightarrow> nat \<Rightarrow> nat \<Rightarrow> nat list \<Rightarrow> reject_reason + order_index \<times> u32"
where
  "insert_loop cap index order_id encoded start [] = Inl OrderCapacity"
| "insert_loop cap index order_id encoded start (offset # offsets) =
     (let flat_index = usize_wrapping_add start offset mod cap; slot = index ! flat_index in
      if is_location slot = None then
        and_then (ok_or (u32_try_from flat_index) OrderCapacity) (\<lambda>slot_id.
          Inr (index[flat_index := \<lparr>is_order_id = order_id, is_location = Some encoded\<rparr>], slot_id))
      else if is_order_id slot = order_id then Inl DuplicateOrderId
      else insert_loop cap index order_id encoded start offsets)"

definition index_insert ::
  "nat \<Rightarrow> nat \<Rightarrow> order_index \<Rightarrow> order_id \<Rightarrow> order_location \<Rightarrow> reject_reason + order_index \<times> u32"
where
  "index_insert L K index order_id location =
     (let cap = index_capacity L K in
      if cap = 0 then Inl OrderCapacity
      else
        and_then (ok_or (encode_location L K location) OrderCapacity) (\<lambda>encoded.
          insert_loop cap index order_id encoded (probe_start cap order_id) [0..<cap]))"

section \<open>Removal\<close>

type_synonym index_move = "order_id \<times> order_location \<times> u32"

text \<open>
  The loop of \<open>remove_at\<close>; the flag tells whether it left through \<open>break\<close> (True) or through the
  early return of \<open>decode_location\<close> (False). The capacity is fuel enough
  (\<open>remove_loop_close_hole\<close>).
\<close>

fun remove_loop ::
  "nat \<Rightarrow> nat \<Rightarrow> nat \<Rightarrow> order_index \<Rightarrow> nat \<Rightarrow> nat \<Rightarrow> (order_index \<times> index_move list \<times> bool) option"
where
  "remove_loop L K 0 index hole candidate_index = None"
| "remove_loop L K (Suc fuel) index hole candidate_index =
     (let cap = index_capacity L K; candidate = index ! candidate_index;
          next = usize_wrapping_add candidate_index 1 mod cap in
      case is_location candidate of
        None \<Rightarrow> Some (index[hole := index_slot_EMPTY], [], True)
      | Some encoded \<Rightarrow>
          let home_bucket = probe_start cap (is_order_id candidate) in
          if probe_distance cap home_bucket hole < probe_distance cap home_bucket candidate_index
          then
            (case decode_location L K encoded of
               None \<Rightarrow> Some (index, [], False)
             | Some candidate_location \<Rightarrow>
                 (case u32_try_from hole of
                    None \<Rightarrow> None
                  | Some new_slot \<Rightarrow>
                      map_option
                        (\<lambda>(index', moves, done).
                           (index', (is_order_id candidate, candidate_location, new_slot) # moves, done))
                        (remove_loop L K fuel (index[hole := candidate]) candidate_index next)))
          else remove_loop L K fuel index hole next)"

definition remove_at ::
  "nat \<Rightarrow> nat \<Rightarrow> order_index \<Rightarrow> u32 \<Rightarrow> order_id
     \<Rightarrow> (order_index \<times> index_move list \<times> order_location option) option"
where
  "remove_at L K index slot_index order_id =
     (let cap = index_capacity L K; flat_index = unat slot_index in
      if flat_index \<ge> cap then Some (index, [], None)
      else
        let indexed = index ! flat_index in
        case Option.bind (is_location indexed) (decode_location L K) of
          None \<Rightarrow> Some (index, [], None)
        | Some location \<Rightarrow>
            if is_order_id indexed \<noteq> order_id then Some (index, [], None)
            else
              map_option (\<lambda>(index', moves, done). (index', moves, if done then Some location else None))
                (remove_loop L K cap index flat_index (usize_wrapping_add flat_index 1 mod cap)))"

section \<open>Encoding of locations\<close>

definition location_valid :: "nat \<Rightarrow> nat \<Rightarrow> order_location \<Rightarrow> bool" where
  "location_valid L K location \<longleftrightarrow> ol_level_index location < L \<and> ol_slot location < K"

text \<open>Every slot number fits the \<open>u32\<close> handle stored in an order.\<close>

definition index_fits :: "nat \<Rightarrow> nat \<Rightarrow> bool" where
  "index_fits L K \<longleftrightarrow> index_capacity L K \<le> 2 ^ 32"

lemma flat_location_bound:
  assumes "location_valid L K l"
  shows "ol_level_index l * K + ol_slot l < L * K"
proof -
  have "ol_level_index l * K + ol_slot l < Suc (ol_level_index l) * K"
    using assms by (simp add: location_valid_def)
  also have "\<dots> \<le> L * K"
    using assms by (intro mult_le_mono1) (simp add: location_valid_def)
  finally show ?thesis .
qed

lemma encode_location_value:
  assumes "location_valid L K l" "index_fits L K"
  shows "encode_location L K l =
    Some (2 * (ol_level_index l * K + ol_slot l) + (if ol_side l = Sell then 1 else 0) + 1)"
proof -
  have "L * K \<le> 2 ^ 30"
    using assms(2) by (simp add: index_fits_def index_capacity_def ORDER_INDEX_PLANES_def mult.commute)
  with flat_location_bound [OF assms(1)] have "ol_level_index l * K + ol_slot l < 2 ^ 30"
    by (rule order.strict_trans2)
  moreover have "ol_level_index l * K \<le> ol_level_index l * K + ol_slot l" by simp
  ultimately show ?thesis
    using assms(1)
    by (simp add: encode_location_def usize_checked_add_def usize_checked_mul_def NIL_def
        location_valid_def not_le mult.commute)
qed

lemma decode_encode_location:
  assumes "location_valid L K l" "encode_location L K l = Some e"
  shows "decode_location L K e = Some l"
proof -
  have e: "e = 2 * (ol_level_index l * K + ol_slot l) + (if ol_side l = Sell then 1 else 0) + 1"
    using assms(2)
    by (auto simp: encode_location_def usize_checked_add_def usize_checked_mul_def
        split: if_splits bind_splits)
  have "K \<noteq> 0" "ol_slot l < K" "ol_level_index l < L"
    using assms(1) by (auto simp: location_valid_def)
  then show ?thesis
    unfolding e by (cases l; cases "ol_side l") (auto simp: decode_location_def Let_def)
qed

lemma decode_location_valid: "decode_location L K e = Some l \<Longrightarrow> location_valid L K l"
  by (auto simp: decode_location_def Let_def location_valid_def split: if_splits)

section \<open>The index as a probe table\<close>

definition slot_view :: "nat \<Rightarrow> nat \<Rightarrow> index_slot \<Rightarrow> (order_id \<times> order_location) option" where
  "slot_view L K slot =
     map_option (\<lambda>e. (is_order_id slot, the (decode_location L K e))) (is_location slot)"

definition index_view :: "nat \<Rightarrow> nat \<Rightarrow> order_index \<Rightarrow> (order_id, order_location) table" where
  "index_view L K index = map (slot_view L K) index"

definition index_inv :: "nat \<Rightarrow> nat \<Rightarrow> order_index \<Rightarrow> bool" where
  "index_inv L K index \<longleftrightarrow>
     length index = index_capacity L K \<and> index_fits L K \<and>
     table_inv (probe_start (index_capacity L K)) (index_view L K index) \<and>
     (\<forall>slot \<in> set index. \<forall>e. is_location slot = Some e \<longrightarrow> decode_location L K e \<noteq> None)"

lemma length_index_view [simp]: "length (index_view L K index) = length index"
  by (simp add: index_view_def)

lemma nth_index_view [simp]:
  "i < length index \<Longrightarrow> index_view L K index ! i = slot_view L K (index ! i)"
  by (simp add: index_view_def)

lemma slot_view_empty [simp]:
  "slot_view L K slot = None \<longleftrightarrow> is_location slot = None"
  "slot_view L K index_slot_EMPTY = None"
  by (simp_all add: slot_view_def index_slot_EMPTY_def)

lemma index_view_update:
  "index_view L K (index[i := s]) = (index_view L K index)[i := slot_view L K s]"
  by (simp add: index_view_def map_update)

lemma probe_start_less: "0 < cap \<Longrightarrow> probe_start cap k < cap"
  by (simp add: probe_start_def)

lemma wrapping_add_small: "a + b < 2 ^ 64 \<Longrightarrow> usize_wrapping_add a b = a + b"
  by (simp add: usize_wrapping_add_def)

lemma probe_step_small:
  "\<lbrakk>cap \<le> 2 ^ 32; start < cap; offset < cap\<rbrakk> \<Longrightarrow> usize_wrapping_add start offset = start + offset"
  by (rule wrapping_add_small) simp

lemma probe_distance_cdist: "probe_distance = cdist"
  by (intro ext) (simp add: probe_distance_def cdist_def)

lemma find_slot_loop_probe:
  assumes "length index = cap" "cap \<le> 2 ^ 32" "start < cap" "\<forall>x \<in> set offs. x < cap"
  shows "find_slot_loop cap index k start offs = probe_find (index_view L K index) k start offs"
  using assms(4)
proof (induction offs)
  case (Cons x offs)
  have "(start + x) mod cap < length index" using assms by simp
  with Cons assms show ?case
    by (simp add: probe_step_small Let_def slot_view_def split: option.splits)
qed simp

lemma insert_loop_probe:
  assumes "length index = cap" "cap \<le> 2 ^ 32" "start < cap" "\<forall>x \<in> set offs. x < cap"
  shows "insert_loop cap index k encoded start offs =
    (case probe_slot (index_view L K index) k start offs of
       Inl ProbeFull \<Rightarrow> Inl OrderCapacity
     | Inl ProbeDuplicate \<Rightarrow> Inl DuplicateOrderId
     | Inr i \<Rightarrow> Inr (index[i := \<lparr>is_order_id = k, is_location = Some encoded\<rparr>], of_nat i))"
  using assms(4)
proof (induction offs)
  case (Cons x offs)
  have "(start + x) mod cap < cap" using assms by simp
  moreover from this assms(2) have "(start + x) mod cap < 2 ^ 32"
    by (rule order.strict_trans2)
  ultimately have "(start + x) mod cap < length index" "(start + x) mod cap < 2 ^ 32"
    using assms(1) by simp_all
  with Cons assms show ?case
    by (auto simp: probe_step_small Let_def slot_view_def u32_try_from_def split: option.splits)
qed simp

lemma remove_loop_close_hole:
  assumes "length index = index_capacity L K" "index_fits L K"
    and "hole < length index" "cand < length index"
    and "\<forall>slot \<in> set index. \<forall>e. is_location slot = Some e \<longrightarrow> decode_location L K e \<noteq> None"
    and "close_hole (probe_start (index_capacity L K)) fuel (index_view L K index) hole cand
      = Some (t', moves)"
  shows "\<exists>index' moves'. remove_loop L K fuel index hole cand = Some (index', moves', True) \<and>
    index_view L K index' = t' \<and> map (\<lambda>(k, v, s). (k, v, unat s)) moves' = moves \<and>
    length index' = length index \<and>
    (\<forall>slot \<in> set index'. \<forall>e. is_location slot = Some e \<longrightarrow> decode_location L K e \<noteq> None)"
  using assms
proof (induction fuel arbitrary: index hole cand moves)
  case (Suc fuel)
  let ?cap = "index_capacity L K" and ?c = "index ! cand"
  let ?next = "usize_wrapping_add cand 1 mod ?cap"
  have small: "length index \<le> 2 ^ 32" using Suc.prems(1,2) by (simp add: index_fits_def)
  have nx: "?next = Suc cand mod length index"
    using Suc.prems(1,4) small wrapping_add_small [of cand 1] by simp
  have inr: "Suc cand mod length index < length index"
    using Suc.prems(4) by (intro mod_less_divisor) (rule le_less_trans [OF le0])
  show ?case
  proof (cases "is_location ?c")
    case None
    with Suc.prems show ?thesis
      by (auto simp: Let_def index_view_update index_slot_EMPTY_def slot_view_def
          dest!: set_update_subset_insert [THEN subsetD])
  next
    case (Some e)
    then obtain loc where loc: "decode_location L K e = Some loc"
      using Suc.prems(4,5) by (metis nth_mem option.exhaust)
    have view: "index_view L K index ! cand = Some (is_order_id ?c, loc)"
      using Some loc Suc.prems(4) by (simp add: slot_view_def)
    have slot: "slot_view L K ?c = Some (is_order_id ?c, loc)"
      using view Suc.prems(4) by simp
    obtain w where w: "u32_try_from hole = Some w" "unat w = hole"
      using u32_try_from_Some [of hole] Suc.prems(3) small by (metis order.strict_trans2)
    have all': "\<forall>slot \<in> set (index[hole := ?c]). \<forall>e. is_location slot = Some e \<longrightarrow> decode_location L K e \<noteq> None"
      using Suc.prems(4,5) nth_mem [of cand index]
      by (auto dest!: set_update_subset_insert [THEN subsetD])
    show ?thesis
    proof (cases "cdist ?cap (probe_start ?cap (is_order_id ?c)) hole
        < cdist ?cap (probe_start ?cap (is_order_id ?c)) cand")
      case True
      then obtain m where m: "close_hole (probe_start ?cap) fuel (index_view L K (index[hole := ?c])) cand
          (Suc cand mod length index) = Some (t', m)" "moves = (is_order_id ?c, loc, hole) # m"
        using Suc.prems(1,6) view slot by (auto simp: index_view_update)
      obtain index' moves' where r:
          "remove_loop L K fuel (index[hole := ?c]) cand ?next = Some (index', moves', True)"
          "index_view L K index' = t'" "map (\<lambda>(k, v, s). (k, v, unat s)) moves' = m"
          "length index' = length index"
          "\<forall>slot \<in> set index'. \<forall>e. is_location slot = Some e \<longrightarrow> decode_location L K e \<noteq> None"
        using Suc.IH [of "index[hole := ?c]" cand "?next" m] Suc.prems(1-4) all' m nx inr
        by auto
      then show ?thesis
        using True Some loc w m(2)
        by (intro exI [of _ index'] exI [of _ "(is_order_id ?c, loc, w) # moves'"])
          (simp add: Let_def probe_distance_cdist)
    next
      case False
      then show ?thesis
        using Suc.IH [of index hole "Suc cand mod length index" moves] Suc.prems view Some nx inr
        by (auto simp: Let_def probe_distance_cdist)
    qed
  qed
qed simp

section \<open>The index satisfies the contract\<close>

lemma view_filled:
  assumes "index_inv L K index" "i < length index"
  shows "index_view L K index ! i = Some (k, l) \<longleftrightarrow>
    is_order_id (index ! i) = k \<and> Option.bind (is_location (index ! i)) (decode_location L K) = Some l"
proof -
  have "\<forall>e. is_location (index ! i) = Some e \<longrightarrow> decode_location L K e \<noteq> None"
    using assms by (auto simp: index_inv_def)
  then show ?thesis
    using assms(2) by (cases "is_location (index ! i)") (auto simp: slot_view_def)
qed

lemma index_inv_table:
  "index_inv L K index \<Longrightarrow> table_inv (probe_start (index_capacity L K)) (index_view L K index)"
  by (simp add: index_inv_def)

lemma index_inv_small: "index_inv L K index \<Longrightarrow> length index = index_capacity L K \<and> index_capacity L K \<le> 2 ^ 32"
  by (simp add: index_inv_def index_fits_def)

lemma find_slot_probe:
  assumes "index_inv L K index" "0 < index_capacity L K"
  shows "find_slot L K index k = probe_find (index_view L K index) k
    (probe_start (index_capacity L K) k) [0..<length (index_view L K index)]"
  using assms index_inv_small [OF assms(1)]
  by (simp add: find_slot_def Let_def find_slot_loop_probe [where L = L and K = K] probe_start_less)

lemma index_location_entry:
  assumes inv: "index_inv L K index"
  shows "index_location L K index k = Some l \<longleftrightarrow> (k, l) \<in> entries (index_view L K index)"
proof (cases "index_capacity L K = 0")
  case True
  with inv show ?thesis
    by (auto simp: index_location_def find_slot_def index_inv_def entries_def index_view_def)
next
  case False
  have len: "length (index_view L K index) = index_capacity L K" "length index = index_capacity L K"
    using inv by (simp_all add: index_inv_def)
  have "find_slot L K index k = Some p \<longleftrightarrow>
      p < index_capacity L K \<and> (\<exists>v. index_view L K index ! p = Some (k, v))" for p
    using probe_find_iff [OF index_inv_table [OF inv], of k p] find_slot_probe [OF inv] False len by simp
  then have "index_location L K index k = Some l \<longleftrightarrow>
      (\<exists>p < index_capacity L K. index_view L K index ! p = Some (k, l))"
    using view_filled [OF inv] len unfolding index_location_def bind_eq_Some_conv by metis
  then show ?thesis
    using len by (auto simp: entries_def in_set_conv_nth)
qed

lemma index_insert_fresh:
  assumes inv: "index_inv L K index" and l: "location_valid L K l"
    and room: "used (index_view L K index) < length (index_view L K index)"
    and fresh: "\<forall>w. (k, w) \<notin> entries (index_view L K index)"
  shows "\<exists>index' s. index_insert L K index k l = Inr (index', s) \<and> index_inv L K index' \<and>
    unat s < length (index_view L K index) \<and> index_view L K index ! unat s = None \<and>
    index_view L K index' = (index_view L K index)[unat s := Some (k, l)]"
proof -
  let ?cap = "index_capacity L K" and ?t = "index_view L K index"
  have cap: "length index = ?cap" "?cap \<le> 2 ^ 32" "0 < ?cap" "index_fits L K"
    using inv room by (simp_all add: index_inv_def index_fits_def)
  obtain e where e: "encode_location L K l = Some e" "decode_location L K e = Some l"
    using encode_location_value [OF l cap(4)] decode_encode_location [OF l] by auto
  obtain i where i: "i < ?cap" "probe_slot ?t k (probe_start ?cap k) [0..<?cap] = Inr i" "?t ! i = None"
      "table_inv (probe_start ?cap) (?t[i := Some (k, l)])"
    using probe_insert [OF index_inv_table [OF inv] room fresh, of l] cap(1) by auto
  let ?new = "\<lparr>is_order_id = k, is_location = Some e\<rparr>"
  have ins: "index_insert L K index k l = Inr (index[i := ?new], of_nat i)"
    using e cap i(2) insert_loop_probe [of index ?cap "probe_start ?cap k" "[0..<?cap]" k e L K]
    by (simp add: index_insert_def Let_def probe_start_less)
  have view: "index_view L K (index[i := ?new]) = ?t[i := Some (k, l)]"
    using e by (simp add: index_view_update slot_view_def)
  have "index_inv L K (index[i := ?new])"
    using inv view i(4) e(2) unfolding index_inv_def
    by (auto dest!: set_update_subset_insert [THEN subsetD])
  moreover have "unat (of_nat i :: u32) = i"
    using i(1) cap(2) by (simp add: unat_of_nat)
  ultimately show ?thesis
    using ins view i(1,3) cap(1) by auto
qed

lemma remove_at_slot:
  assumes inv: "index_inv L K index" and s: "unat s < length (index_view L K index)"
    and v: "index_view L K index ! unat s = Some (k, l)"
    and room: "used (index_view L K index) < length (index_view L K index)"
  shows "\<exists>index' moves. remove_at L K index s k = Some (index', moves, Some l) \<and> index_inv L K index' \<and>
    close_hole (probe_start (index_capacity L K)) (length (index_view L K index))
      (index_view L K index) (unat s) (Suc (unat s) mod length (index_view L K index))
    = Some (index_view L K index', map (\<lambda>(k, v, s). (k, v, unat s)) moves)"
proof -
  let ?cap = "index_capacity L K" and ?t = "index_view L K index"
  have cap: "length index = ?cap" "?cap \<le> 2 ^ 32" "index_fits L K" "unat s < ?cap"
    using inv s by (simp_all add: index_inv_def index_fits_def)
  have filled: "is_order_id (index ! unat s) = k"
      "Option.bind (is_location (index ! unat s)) (decode_location L K) = Some l"
    using v view_filled [OF inv] s by auto
  obtain t' moves where ch: "close_hole (probe_start ?cap) ?cap ?t (unat s) (Suc (unat s) mod ?cap)
        = Some (t', moves)" "table_inv (probe_start ?cap) t'"
    using probe_remove [OF index_inv_table [OF inv] s v room] cap(1) by auto
  have nx: "usize_wrapping_add (unat s) 1 mod ?cap = Suc (unat s) mod ?cap"
    using cap wrapping_add_small [of "unat s" 1] by simp
  have "Suc (unat s) mod ?cap < length index"
    using cap by simp
  moreover have "\<forall>slot \<in> set index. \<forall>e. is_location slot = Some e \<longrightarrow> decode_location L K e \<noteq> None"
    using inv by (simp add: index_inv_def)
  ultimately obtain index' moves' where r:
      "remove_loop L K ?cap index (unat s) (Suc (unat s) mod ?cap) = Some (index', moves', True)"
      "index_view L K index' = t'" "map (\<lambda>(k, v, s). (k, v, unat s)) moves' = moves"
      "length index' = length index"
      "\<forall>slot \<in> set index'. \<forall>e. is_location slot = Some e \<longrightarrow> decode_location L K e \<noteq> None"
    using remove_loop_close_hole [OF cap(1,3) _ _ _ ch(1)] cap by auto
  have "remove_at L K index s k = Some (index', moves', Some l)"
    using filled cap(4) nx r(1) by (simp add: remove_at_def Let_def)
  moreover have "index_inv L K index'"
    using r ch(2) cap unfolding index_inv_def by simp
  ultimately show ?thesis
    using ch(1) r(2,3) cap(1) by auto
qed

interpretation oi: index_contract "probe_start (index_capacity L K)" "index_inv L K"
    "index_view L K" "location_valid L K" "index_location L K" "index_insert L K" "remove_at L K"
  for L K
  by unfold_locales
    (rule index_inv_table index_location_entry index_insert_fresh remove_at_slot; assumption)+

lemma order_index_new_inv:
  assumes "index_fits L K"
  shows "index_inv L K (order_index_new L K) \<and> index_location L K (order_index_new L K) k = None \<and>
    used (index_view L K (order_index_new L K)) = 0"
proof -
  have view: "index_view L K (order_index_new L K) = replicate (index_capacity L K) None"
    by (simp add: index_view_def order_index_new_def)
  have inv: "index_inv L K (order_index_new L K)"
    using assms unfolding index_inv_def view
    by (auto simp: order_index_new_def table_inv_def keys_unique_def unbroken_def index_slot_EMPTY_def
        probe_start_less)
  then show ?thesis
    using oi.find_none [OF inv, of k] view by (auto simp: entries_def used_def)
qed

section \<open>Properties\<close>

lemma flat_index_of_coordinates:
  assumes "coordinates L K i = (plane, level, order)"
  shows "i = (plane * L + level) * K + order"
proof -
  have c: "plane = i div (L * K)" "level = i mod (L * K) div K" "order = i mod (L * K) mod K"
    using assms by (auto simp: coordinates_def Let_def)
  have "(plane * L + level) * K + order = plane * (L * K) + (level * K + order)"
    by (simp only: add_mult_distrib mult.assoc add.assoc)
  also have "level * K + order = i mod (L * K)"
    unfolding c by (rule div_mult_mod_eq)
  also have "plane * (L * K) + i mod (L * K) = i"
    unfolding c by (rule div_mult_mod_eq)
  finally show ?thesis by simp
qed

text \<open>
  The nested arrays of the order index are one flat array: below the capacity, \<open>coordinates\<close>
  stays inside the four planes of LEVELS rows of ORDERS slots and the flat index is recovered from
  it, so no two flat indices share a slot.
\<close>

theorem coordinates_bijective:
  assumes "i < index_capacity L K" "coordinates L K i = (plane, level, order)"
  shows "plane < ORDER_INDEX_PLANES \<and> level < L \<and> order < K \<and> i = (plane * L + level) * K + order"
proof -
  have pos: "0 < L" "0 < K" using assms(1) by (cases L; cases K; simp add: index_capacity_def)+
  have "i div (L * K) < ORDER_INDEX_PLANES"
    using assms(1) by (simp add: index_capacity_def less_mult_imp_div_less mult.commute)
  moreover have "i mod (L * K) div K < L"
    using pos by (simp add: less_mult_imp_div_less)
  moreover have "i mod (L * K) mod K < K"
    using pos by simp
  ultimately have "coordinates L K i = (p, l, k) \<Longrightarrow> p < ORDER_INDEX_PLANES \<and> l < L \<and> k < K" for p l k
    by (simp only: coordinates_def Let_def prod.inject)
  with assms(2) flat_index_of_coordinates [OF assms(2)] show ?thesis by blast
qed

theorem coordinates_bijective_witness:
  "(17::nat) < index_capacity 2 4 \<and> coordinates 2 4 17 = (2, 0, 1) \<and> (2 * 2 + 0) * 4 + 1 = (17::nat)"
  using coordinates_bijective [of 17 2 4 2 0 1] by code_simp

text \<open>
  The order index is a finite map with handles: an id that is absent can be inserted while a slot is
  free, and afterwards the lookup finds exactly the new binding besides the old ones; the returned
  handle is the slot of the entry, and \<open>remove_at\<close> with that handle returns the location and
  restores the lookup of the original index.
\<close>

theorem order_index_insert_remove:
  assumes "index_inv L K index" "location_valid L K l" "index_location L K index k = None"
    and "used (index_view L K index) + 1 < index_capacity L K"
  shows "\<exists>index' s. index_insert L K index k l = Inr (index', s) \<and> index_inv L K index' \<and>
    index_location L K index' = (index_location L K index)(k := Some l) \<and>
    (\<exists>index'' moves. remove_at L K index' s k = Some (index'', moves, Some l) \<and>
       index_inv L K index'' \<and> index_location L K index'' = index_location L K index)"
proof -
  have len: "length (index_view L K index) = index_capacity L K"
    using assms(1) by (simp add: index_inv_def)
  obtain index' s where i: "index_insert L K index k l = Inr (index', s)" "index_inv L K index'"
      "index_location L K index' = (index_location L K index)(k := Some l)"
      "length (index_view L K index') = index_capacity L K"
      "used (index_view L K index') = Suc (used (index_view L K index))"
      "unat s < index_capacity L K" "index_view L K index' = (index_view L K index)[unat s := Some (k, l)]"
    using oi.find_ins [OF assms(1,2) _ assms(3)] assms(4) len by auto
  then have "index_view L K index' ! unat s = Some (k, l)"
    using len by simp
  then obtain index'' moves where d: "remove_at L K index' s k = Some (index'', moves, Some l)"
      "index_inv L K index''" "index_location L K index'' = (index_location L K index')(k := None)"
    using oi.find_del [OF i(2), of s k l] i assms(4) by auto
  moreover have "index_location L K index'' = index_location L K index"
    using d(3) i(3) assms(3) by auto
  ultimately show ?thesis using i by blast
qed

theorem order_index_insert_remove_witness:
  "\<exists>index' s. index_insert 2 2 (order_index_new 2 2) 7
      \<lparr>ol_side = Sell, ol_level_index = 1, ol_slot = 0\<rparr> = Inr (index', s) \<and> index_inv 2 2 index' \<and>
    index_location 2 2 index' = (index_location 2 2 (order_index_new 2 2))
      (7 := Some \<lparr>ol_side = Sell, ol_level_index = 1, ol_slot = 0\<rparr>) \<and>
    (\<exists>index'' moves. remove_at 2 2 index' s 7
        = Some (index'', moves, Some \<lparr>ol_side = Sell, ol_level_index = 1, ol_slot = 0\<rparr>) \<and>
       index_inv 2 2 index'' \<and> index_location 2 2 index'' = index_location 2 2 (order_index_new 2 2))"
  using order_index_insert_remove [of 2 2 "order_index_new 2 2"
      "\<lparr>ol_side = Sell, ol_level_index = 1, ol_slot = 0\<rparr>" 7] order_index_new_inv [of 2 2 7]
  by (simp add: index_fits_def index_capacity_def ORDER_INDEX_PLANES_def location_valid_def)

end
