(* ===== verification/Price_Level.thy ===== *)
theory Price_Level
  imports Types
begin

text \<open>
  One price level of the book (\<open>PriceLevel\<close> in \<^verbatim>\<open>crates/hft-book/src/lib.rs\<close>): a doubly
  linked FIFO of live slots and a free list threaded through one fixed array. \<open>K\<close> is the const
  generic \<open>ORDERS\<close>. \<open>push_tail\<close>, \<open>unlink\<close> and \<open>reduce_quantity\<close> return \<open>None\<close> where the
  source does, and the source leaves the level as it was there.

  The FIFO is read back by \<open>walk\<close> (the slots from \<open>head\<close> along \<open>next\<close>) and the orders by
  \<open>live_data\<close> (an order without its links). \<open>level_inv\<close> says that both lists partition the
  array and that the length and the aggregate are those of the FIFO.
\<close>

section \<open>The level and its operations\<close>

record resting_order =
  rest_id :: order_id
  rest_account_id :: account_id
  rest_index_slot :: u32
  rest_quantity :: quantity
  rest_sequence :: sequence_number
  rest_prev :: nat
  rest_next :: nat

datatype order_slot = Free nat | Live resting_order

record price_level =
  pl_price :: price_ticks
  pl_aggregate_quantity :: u128
  pl_slots :: "order_slot list"
  pl_head :: nat
  pl_tail :: nat
  pl_free_head :: nat
  pl_len :: nat

definition price_level_new :: "nat \<Rightarrow> price_ticks \<Rightarrow> price_level" where
  "price_level_new K price =
     \<lparr>pl_price = price, pl_aggregate_quantity = 0,
      pl_slots = map (\<lambda>index. Free (if index + 1 < K then index + 1 else NIL)) [0..<K],
      pl_head = NIL, pl_tail = NIL, pl_free_head = (if K = 0 then NIL else 0), pl_len = 0\<rparr>"

definition get_live :: "price_level \<Rightarrow> nat \<Rightarrow> resting_order option" where
  "get_live level slot = (case get (pl_slots level) slot of Some (Live order) \<Rightarrow> Some order | _ \<Rightarrow> None)"

text \<open>A write through \<open>get_live_mut\<close>.\<close>

definition update_live :: "(resting_order \<Rightarrow> resting_order) \<Rightarrow> order_slot list \<Rightarrow> nat \<Rightarrow> order_slot list" where
  "update_live f slots slot =
     (case get slots slot of Some (Live order) \<Rightarrow> slots[slot := Live (f order)] | _ \<Rightarrow> slots)"

definition is_live :: "order_slot list \<Rightarrow> nat \<Rightarrow> bool" where
  "is_live slots slot = (case get slots slot of Some (Live _) \<Rightarrow> True | _ \<Rightarrow> False)"

definition push_tail :: "nat \<Rightarrow> price_level \<Rightarrow> resting_order \<Rightarrow> (price_level \<times> nat) option" where
  "push_tail K level order =
     (if pl_free_head level = NIL \<or> pl_len level \<ge> K then None
      else
        let slot = pl_free_head level in
        case get (pl_slots level) slot of
          Some (Free next_free) \<Rightarrow>
            if pl_tail level \<noteq> NIL \<and> \<not> is_live (pl_slots level) (pl_tail level) then None
            else
              let slots = (if pl_tail level \<noteq> NIL
                    then update_live (\<lambda>t. t\<lparr>rest_next := slot\<rparr>) (pl_slots level) (pl_tail level)
                    else pl_slots level);
                  order = order\<lparr>rest_prev := pl_tail level, rest_next := NIL\<rparr>
              in Some (level\<lparr>
                    pl_slots := slots[slot := Live order],
                    pl_free_head := next_free,
                    pl_head := (if pl_tail level = NIL then slot else pl_head level),
                    pl_tail := slot,
                    pl_len := pl_len level + 1,
                    pl_aggregate_quantity := pl_aggregate_quantity level + ucast (rest_quantity order)\<rparr>,
                  slot)
        | _ \<Rightarrow> None)"

definition unlink :: "price_level \<Rightarrow> nat \<Rightarrow> (price_level \<times> resting_order) option" where
  "unlink level slot =
     (case get (pl_slots level) slot of
        Some (Live order) \<Rightarrow>
          if rest_prev order \<noteq> NIL \<and> \<not> is_live (pl_slots level) (rest_prev order) then None
          else if rest_next order \<noteq> NIL \<and> \<not> is_live (pl_slots level) (rest_next order) then None
          else
            let level1 = (if rest_prev order = NIL then level\<lparr>pl_head := rest_next order\<rparr>
                  else level\<lparr>pl_slots := update_live (\<lambda>p. p\<lparr>rest_next := rest_next order\<rparr>)
                                (pl_slots level) (rest_prev order)\<rparr>);
                level2 = (if rest_next order = NIL then level1\<lparr>pl_tail := rest_prev order\<rparr>
                  else level1\<lparr>pl_slots := update_live (\<lambda>n. n\<lparr>rest_prev := rest_prev order\<rparr>)
                                (pl_slots level1) (rest_next order)\<rparr>)
            in Some (level2\<lparr>
                  pl_slots := (pl_slots level2)[slot := Free (pl_free_head level2)],
                  pl_free_head := slot,
                  pl_len := pl_len level2 - 1,
                  pl_aggregate_quantity := pl_aggregate_quantity level2 - ucast (rest_quantity order)\<rparr>,
                order)
      | _ \<Rightarrow> None)"

definition reduce_quantity :: "price_level \<Rightarrow> nat \<Rightarrow> quantity \<Rightarrow> price_level option" where
  "reduce_quantity level slot quantity =
     Option.bind (get_live level slot) (\<lambda>order.
     Option.bind (checked_sub (rest_quantity order) quantity) (\<lambda>left.
       Some (level\<lparr>
         pl_slots := (pl_slots level)[slot := Live (order\<lparr>rest_quantity := left\<rparr>)],
         pl_aggregate_quantity := pl_aggregate_quantity level - ucast quantity\<rparr>)))"

text \<open>The assignment to \<open>index_slot\<close> through \<open>get_live_mut\<close>; \<open>None\<close> when the slot is not live.\<close>

definition set_index_slot :: "price_level \<Rightarrow> nat \<Rightarrow> u32 \<Rightarrow> price_level option" where
  "set_index_slot level slot index_slot =
     map_option (\<lambda>order. level\<lparr>pl_slots := (pl_slots level)[slot := Live (order\<lparr>rest_index_slot := index_slot\<rparr>)]\<rparr>)
       (get_live level slot)"

text \<open>
  \<open>for_each_live\<close> visits the orders from \<open>head\<close> along \<open>next\<close>. The model returns what it
  visits; \<open>None\<close> is a walk that has not ended within the fuel, which \<open>for_each_live_returns\<close>
  excludes.
\<close>

fun for_each_live_loop :: "nat \<Rightarrow> order_slot list \<Rightarrow> nat \<Rightarrow> resting_order list option" where
  "for_each_live_loop 0 slots cursor = (if cursor = NIL then Some [] else None)"
| "for_each_live_loop (Suc fuel) slots cursor =
     (if cursor = NIL then Some []
      else case get slots cursor of
          Some (Live order) \<Rightarrow> map_option ((#) order) (for_each_live_loop fuel slots (rest_next order))
        | _ \<Rightarrow> Some [])"

definition for_each_live :: "price_level \<Rightarrow> resting_order list option" where
  "for_each_live level = for_each_live_loop (length (pl_slots level)) (pl_slots level) (pl_head level)"

section \<open>Linked slots\<close>

text \<open>\<open>link q xs\<close> is the link that leads to the list \<open>xs\<close>, or to \<open>q\<close> past its end.\<close>

fun link :: "nat \<Rightarrow> nat list \<Rightarrow> nat" where
  "link q [] = q"
| "link q (x # _) = x"

definition last_or :: "nat \<Rightarrow> nat list \<Rightarrow> nat" where
  "last_or p xs = (if xs = [] then p else last xs)"

text \<open>The live slots \<open>xs\<close> in FIFO order, entered from \<open>p\<close> and left to \<open>q\<close>.\<close>

fun live_seg :: "order_slot list \<Rightarrow> nat \<Rightarrow> nat list \<Rightarrow> nat \<Rightarrow> bool" where
  "live_seg slots p [] q = True"
| "live_seg slots p (x # xs) q =
     ((case get slots x of
         Some (Live order) \<Rightarrow> rest_prev order = p \<and> rest_next order = link q xs
       | _ \<Rightarrow> False) \<and> live_seg slots x xs q)"

fun free_seg :: "order_slot list \<Rightarrow> nat list \<Rightarrow> bool" where
  "free_seg slots [] = True"
| "free_seg slots (x # xs) = (get slots x = Some (Free (link NIL xs)) \<and> free_seg slots xs)"

text \<open>An order without its links, and the sum of the quantities of some slots.\<close>

definition strip :: "resting_order \<Rightarrow> resting_order" where
  "strip order = order\<lparr>rest_prev := NIL, rest_next := NIL\<rparr>"

definition slot_data :: "order_slot list \<Rightarrow> nat \<Rightarrow> resting_order option" where
  "slot_data slots slot = (case get slots slot of Some (Live order) \<Rightarrow> Some (strip order) | _ \<Rightarrow> None)"

definition live_data :: "price_level \<Rightarrow> nat \<Rightarrow> resting_order option" where
  "live_data level = slot_data (pl_slots level)"

definition fifo_sum :: "(nat \<Rightarrow> resting_order option) \<Rightarrow> nat list \<Rightarrow> int" where
  "fifo_sum data xs = sum_list (map (\<lambda>s. uint (rest_quantity (the (data s)))) xs)"

fun walk_from :: "nat \<Rightarrow> order_slot list \<Rightarrow> nat \<Rightarrow> nat list" where
  "walk_from 0 slots cursor = []"
| "walk_from (Suc fuel) slots cursor =
     (case get slots cursor of
        Some (Live order) \<Rightarrow> cursor # walk_from fuel slots (rest_next order)
      | _ \<Rightarrow> [])"

fun free_from :: "nat \<Rightarrow> order_slot list \<Rightarrow> nat \<Rightarrow> nat list" where
  "free_from 0 slots cursor = []"
| "free_from (Suc fuel) slots cursor =
     (case get slots cursor of
        Some (Free next_free) \<Rightarrow> cursor # free_from fuel slots next_free
      | _ \<Rightarrow> [])"

definition walk :: "price_level \<Rightarrow> nat list" where
  "walk level = walk_from (length (pl_slots level)) (pl_slots level) (pl_head level)"

definition free_walk :: "price_level \<Rightarrow> nat list" where
  "free_walk level = free_from (length (pl_slots level)) (pl_slots level) (pl_free_head level)"

definition level_rep :: "nat \<Rightarrow> price_level \<Rightarrow> nat list \<Rightarrow> nat list \<Rightarrow> bool" where
  "level_rep K level xs fs \<longleftrightarrow>
     length (pl_slots level) = K \<and> K < NIL \<and> distinct (xs @ fs) \<and> set (xs @ fs) = {..<K} \<and>
     pl_head level = link NIL xs \<and> pl_tail level = last_or NIL xs \<and>
     pl_free_head level = link NIL fs \<and>
     live_seg (pl_slots level) NIL xs NIL \<and> free_seg (pl_slots level) fs \<and>
     pl_len level = length xs \<and>
     uint (pl_aggregate_quantity level) = fifo_sum (live_data level) xs"

definition level_inv :: "nat \<Rightarrow> price_level \<Rightarrow> bool" where
  "level_inv K level = level_rep K level (walk level) (free_walk level)"

section \<open>Segments\<close>

lemma link_append [simp]: "link q (xs @ ys) = link (link q ys) xs"
  by (cases xs) simp_all

lemma last_or_simps [simp]:
  "last_or p [] = p" "last_or p (x # xs) = last_or x xs" "last_or p (xs @ [x]) = x"
  by (simp_all add: last_or_def)

lemma live_seg_append:
  "live_seg slots p (xs @ ys) q \<longleftrightarrow>
     live_seg slots p xs (link q ys) \<and> live_seg slots (last_or p xs) ys q"
  by (induction xs arbitrary: p) (simp_all split: option.splits order_slot.splits)

lemma live_seg_cong:
  "\<lbrakk>\<And>x. x \<in> set xs \<Longrightarrow> get slots' x = get slots x\<rbrakk> \<Longrightarrow> live_seg slots' p xs q = live_seg slots p xs q"
  by (induction xs arbitrary: p) auto

lemma free_seg_cong:
  "\<lbrakk>\<And>x. x \<in> set xs \<Longrightarrow> get slots' x = get slots x\<rbrakk> \<Longrightarrow> free_seg slots' xs = free_seg slots xs"
  by (induction xs) auto

lemma get_update: "get (slots[i := v]) x = (if x = i \<and> i < length slots then Some v else get slots x)"
  by (simp add: get_def nth_list_update)

lemma length_update_live [simp]: "length (update_live f slots i) = length slots"
  by (simp add: update_live_def split: option.splits order_slot.splits)

lemma get_update_live:
  "get (update_live f slots i) x =
     (if x = i then map_option (\<lambda>s. case s of Live order \<Rightarrow> Live (f order) | _ \<Rightarrow> s) (get slots x)
      else get slots x)"
  by (auto simp: update_live_def get_update get_def split: option.splits order_slot.splits)

lemma live_seg_update_other:
  "x \<notin> set xs \<Longrightarrow> live_seg (update_live f slots x) p xs q = live_seg slots p xs q"
  "x \<notin> set xs \<Longrightarrow> live_seg (slots[x := v]) p xs q = live_seg slots p xs q"
  by (rule live_seg_cong; auto simp: get_update_live get_update)+

lemma free_seg_update_other:
  "x \<notin> set xs \<Longrightarrow> free_seg (slots[x := v]) xs = free_seg slots xs"
  by (rule free_seg_cong) (auto simp: get_update)

lemma free_seg_update_live:
  "free_seg slots xs \<Longrightarrow> free_seg (update_live f slots x) xs"
  by (induction xs) (auto simp: get_update_live simp del: get_Some)

lemma live_seg_set_next:
  assumes "live_seg slots p xs q" "xs \<noteq> []" "distinct xs"
  shows "live_seg (update_live (\<lambda>t. t\<lparr>rest_next := q'\<rparr>) slots (last xs)) p xs q'"
proof -
  obtain ys x where xs: "xs = ys @ [x]" using assms(2) by (meson rev_exhaust)
  with assms(3) have "x \<notin> set ys" by simp
  with assms(1) show ?thesis
    by (auto simp: xs live_seg_append get_update_live live_seg_update_other
        split: option.splits order_slot.splits)
qed

lemma live_seg_set_prev:
  assumes "live_seg slots p (x # xs) q" "x \<notin> set xs"
  shows "live_seg (update_live (\<lambda>t. t\<lparr>rest_prev := p'\<rparr>) slots x) p' (x # xs) q"
  using assms
  by (auto simp: get_update_live live_seg_update_other split: option.splits order_slot.splits)

lemma live_seg_live: "\<lbrakk>live_seg slots p xs q; x \<in> set xs\<rbrakk> \<Longrightarrow> \<exists>order. get slots x = Some (Live order)"
  by (induction xs arbitrary: p) (auto split: option.splits order_slot.splits)

lemma free_seg_free: "\<lbrakk>free_seg slots xs; x \<in> set xs\<rbrakk> \<Longrightarrow> \<exists>n. get slots x = Some (Free n)"
  by (induction xs) auto

lemma walk_from_seg:
  "\<lbrakk>live_seg slots p xs NIL; length xs \<le> fuel; length slots < NIL\<rbrakk> \<Longrightarrow>
   walk_from fuel slots (link NIL xs) = xs"
proof (induction xs arbitrary: p fuel)
  case Nil
  then show ?case by (cases fuel) (simp_all add: get_def)
next
  case (Cons x xs)
  then obtain fuel' where "fuel = Suc fuel'" by (cases fuel) auto
  with Cons show ?case by (auto split: option.splits order_slot.splits)
qed

lemma free_from_seg:
  "\<lbrakk>free_seg slots xs; length xs \<le> fuel; length slots < NIL\<rbrakk> \<Longrightarrow>
   free_from fuel slots (link NIL xs) = xs"
proof (induction xs arbitrary: fuel)
  case Nil
  then show ?case by (cases fuel) (simp_all add: get_def)
next
  case (Cons x xs)
  then obtain fuel' where "fuel = Suc fuel'" by (cases fuel) auto
  with Cons show ?case by (auto simp: get_def)
qed

lemma partition_lengths:
  assumes "distinct (xs @ fs)" "set (xs @ fs) = {..<K}"
  shows "length xs + length fs = K"
  using distinct_card [OF assms(1)] assms(2) by simp

lemma level_rep_walk:
  assumes "level_rep K level xs fs"
  shows "walk level = xs" "free_walk level = fs" "level_inv K level"
proof -
  note r = assms [unfolded level_rep_def]
  have "length xs + length fs = K" using r partition_lengths by blast
  then show walks: "walk level = xs" "free_walk level = fs"
    using r walk_from_seg [of "pl_slots level" NIL xs K] free_from_seg [of "pl_slots level" fs K]
    by (auto simp: walk_def free_walk_def)
  with assms show "level_inv K level" by (simp add: level_inv_def)
qed

section \<open>Data\<close>

lemma slot_data_update_live:
  "(\<And>order. strip (f order) = strip order) \<Longrightarrow> slot_data (update_live f slots i) = slot_data slots"
  by (intro ext) (auto simp: slot_data_def get_update_live split: option.splits order_slot.splits)

lemma slot_data_set:
  "i < length slots \<Longrightarrow> slot_data (slots[i := Live order]) = (slot_data slots)(i := Some (strip order))"
  "i < length slots \<Longrightarrow> slot_data (slots[i := Free n]) = (slot_data slots)(i := None)"
  by (intro ext; simp add: slot_data_def get_update)+

lemma strip_simps [simp]:
  "strip (order\<lparr>rest_prev := a\<rparr>) = strip order" "strip (order\<lparr>rest_next := a\<rparr>) = strip order"
  "strip (order\<lparr>rest_prev := a, rest_next := b\<rparr>) = strip order"
  "strip (order\<lparr>rest_quantity := q\<rparr>) = (strip order)\<lparr>rest_quantity := q\<rparr>"
  "strip (order\<lparr>rest_index_slot := i\<rparr>) = (strip order)\<lparr>rest_index_slot := i\<rparr>"
  "rest_id (strip order) = rest_id order" "rest_account_id (strip order) = rest_account_id order"
  "rest_quantity (strip order) = rest_quantity order" "rest_sequence (strip order) = rest_sequence order"
  "rest_index_slot (strip order) = rest_index_slot order" "strip (strip order) = strip order"
  by (simp_all add: strip_def)

lemma fifo_sum_append [simp]: "fifo_sum data (xs @ ys) = fifo_sum data xs + fifo_sum data ys"
  by (simp add: fifo_sum_def)

lemma fifo_sum_simps [simp]:
  "fifo_sum data [] = 0"
  "fifo_sum data (x # xs) = uint (rest_quantity (the (data x))) + fifo_sum data xs"
  by (simp_all add: fifo_sum_def)

lemma fifo_sum_other [simp]: "x \<notin> set xs \<Longrightarrow> fifo_sum (data(x := v)) xs = fifo_sum data xs"
  by (auto simp: fifo_sum_def intro!: arg_cong [of _ _ sum_list])

lemma fifo_sum_bound: "0 \<le> fifo_sum data xs \<and> fifo_sum data xs \<le> int (length xs) * (2 ^ 64 - 1)"
proof (induction xs)
  case (Cons x xs)
  have "uint (rest_quantity (the (data x))) \<le> 2 ^ 64 - 1" "0 \<le> uint (rest_quantity (the (data x)))"
    using unsigned_less [of "rest_quantity (the (data x))", where ?'a = int] by simp_all
  with Cons show ?case by (simp add: algebra_simps)
qed simp

lemma slot_data_get:
  "get slots s = Some (Live order) \<Longrightarrow> slot_data slots s = Some (strip order)"
  "get slots s = Some (Free n) \<Longrightarrow> slot_data slots s = None"
  "get slots s = None \<Longrightarrow> slot_data slots s = None"
  by (simp_all add: slot_data_def del: get_Some get_None)

lemma is_live_get: "get slots s = Some (Live order) \<Longrightarrow> is_live slots s"
  by (simp add: is_live_def del: get_Some)

lemma get_live_data: "live_data level slot = map_option strip (get_live level slot)"
  by (simp add: live_data_def slot_data_def get_live_def split: option.splits order_slot.splits)

section \<open>Operations keep the level well formed\<close>

lemma new_free_seg:
  "free_seg (map (\<lambda>index. Free (if index + 1 < K then index + 1 else NIL)) [0..<K]) [i..<K]"
proof (induction "K - i" arbitrary: i)
  case (Suc d)
  then have "i < K" by simp
  moreover from this have "[i..<K] = i # [Suc i..<K]" by (simp add: upt_conv_Cons)
  moreover have "link NIL [Suc i..<K] = (if i + 1 < K then i + 1 else NIL)"
    by (simp add: upt_conv_Cons)
  ultimately show ?case using Suc by simp
qed simp

lemma price_level_new_rep: "K < NIL \<Longrightarrow> level_rep K (price_level_new K price) [] [0..<K]"
  using new_free_seg [of K 0]
  by (auto simp: level_rep_def price_level_new_def upt_conv_Cons simp del: upt_Suc)

lemma level_repD:
  assumes "level_rep K level xs fs"
  shows "length (pl_slots level) = K" "K < NIL" "distinct xs" "distinct fs" "set xs \<inter> set fs = {}"
    "set xs \<union> set fs = {..<K}" "length xs + length fs = K"
    "live_seg (pl_slots level) NIL xs NIL" "free_seg (pl_slots level) fs"
    "uint (pl_aggregate_quantity level) = fifo_sum (live_data level) xs"
    "pl_head level = link NIL xs" "pl_tail level = last_or NIL xs" "pl_free_head level = link NIL fs"
    "pl_len level = length xs"
  using assms partition_lengths [of xs fs K] by (auto simp: level_rep_def)

lemma live_data_iff:
  assumes "level_rep K level xs fs"
  shows "live_data level s \<noteq> None \<longleftrightarrow> s \<in> set xs"
proof -
  note r = level_repD [OF assms]
  consider "s \<in> set xs" | "s \<in> set fs" | "K \<le> s"
    using r(6) by (metis UnE lessThan_iff not_le)
  then show ?thesis
  proof cases
    case 1
    with live_seg_live [OF r(8) 1] show ?thesis
      by (auto simp: live_data_def slot_data_get simp del: get_Some)
  next
    case 2
    with free_seg_free [OF r(9) 2] r(5) show ?thesis
      by (auto simp: live_data_def slot_data_get simp del: get_Some)
  next
    case 3
    then have "s \<notin> set xs" using r(6) by (metis UnI1 lessThan_iff not_le)
    with 3 r(1) show ?thesis by (simp add: live_data_def slot_data_get)
  qed
qed

lemma sum_quantities_fit:
  assumes "length xs \<le> K" "K < NIL"
  shows "fifo_sum data xs < 2 ^ 128"
proof -
  have "fifo_sum data xs \<le> int (length xs) * (2 ^ 64 - 1)"
    using fifo_sum_bound by blast
  also have "\<dots> \<le> int NIL * (2 ^ 64 - 1)"
    using assms by (intro mult_right_mono) simp_all
  also have "\<dots> < 2 ^ 128"
    by (simp add: NIL_def)
  finally show ?thesis .
qed

lemma uint_ucast_quantity [simp]: "uint (ucast (q :: u64) :: u128) = uint q"
  by (simp add: unsigned_ucast_eq take_bit_int_eq_self_iff) (rule order.strict_trans [OF unsigned_less], simp)

lemma push_tail_rep:
  assumes rep: "level_rep K level xs fs" and room: "length xs < K"
  shows "\<exists>level' s fs'. fs = s # fs' \<and> push_tail K level order = Some (level', s) \<and>
    level_rep K level' (xs @ [s]) fs' \<and> pl_price level' = pl_price level \<and>
    live_data level' = (live_data level)(s := Some (strip order))"
proof -
  note r = level_repD [OF rep]
  obtain s fs' where fs: "fs = s # fs'" using room r(7) by (cases fs) auto
  have s: "s < K" "s \<notin> set xs" "s \<notin> set fs'" using fs r by auto
  have sfree: "get (pl_slots level) s = Some (Free (link NIL fs'))" using r(9) fs by simp
  define mid where "mid = (if pl_tail level \<noteq> NIL
    then update_live (\<lambda>t. t\<lparr>rest_next := s\<rparr>) (pl_slots level) (pl_tail level) else pl_slots level)"
  define new where "new = order\<lparr>rest_prev := pl_tail level, rest_next := NIL\<rparr>"
  define level' where "level' = level\<lparr>pl_slots := mid[s := Live new], pl_free_head := link NIL fs',
    pl_head := (if pl_tail level = NIL then s else pl_head level), pl_tail := s,
    pl_len := pl_len level + 1,
    pl_aggregate_quantity := pl_aggregate_quantity level + ucast (rest_quantity new)\<rparr>"
  have xsK: "\<And>x. x \<in> set xs \<Longrightarrow> x < K" using r(6) by blast
  have tl: "pl_tail level \<noteq> NIL \<longleftrightarrow> xs \<noteq> []"
    using r(2,12) xsK last_in_set [of xs] by (fastforce simp: last_or_def)
  have "pl_tail level \<noteq> NIL \<longrightarrow> is_live (pl_slots level) (pl_tail level)"
    using tl r(12) live_seg_live [OF r(8) last_in_set] is_live_get by (auto simp: last_or_def simp del: get_Some)
  then have push: "push_tail K level order = Some (level', s)"
    using room r(2,13,14) fs s sfree
    by (auto simp: push_tail_def Let_def level'_def mid_def new_def simp del: get_Some)
  have midlen: "length mid = K" using r(1) by (simp add: mid_def)
  have middata: "slot_data mid = live_data level"
    by (simp add: mid_def slot_data_update_live live_data_def)
  have data: "live_data level' = (live_data level)(s := Some (strip order))"
    using s midlen by (simp add: live_data_def level'_def slot_data_set middata new_def)
  have seg: "live_seg mid NIL xs s"
    using live_seg_set_next [OF r(8), of s] r(3,8,12) tl by (cases "xs = []") (auto simp: mid_def last_or_def)
  have "fifo_sum ((live_data level)(s := Some (strip order))) (xs @ [s]) < 2 ^ 128"
    using room r(2) by (intro sum_quantities_fit [where K = K]) simp_all
  then have "uint (pl_aggregate_quantity level) + uint (rest_quantity order) < 2 ^ 128"
    using s(2) r(10) by simp
  then have agg: "uint (pl_aggregate_quantity level') = fifo_sum (live_data level') (xs @ [s])"
    using s(2) r(10) unfolding data by (simp add: uint_add_bounded level'_def new_def)
  have "live_seg (mid[s := Live new]) NIL (xs @ [s]) NIL"
    using seg s midlen r(12) by (simp add: live_seg_append live_seg_update_other get_update new_def)
  moreover have "free_seg (mid[s := Live new]) fs'"
    using r(9) fs s(3) by (simp add: mid_def free_seg_update_other free_seg_update_live)
  moreover have "pl_head level' = link NIL (xs @ [s])"
    using tl r(11) by (cases xs) (auto simp: level'_def)
  ultimately have "level_rep K level' (xs @ [s]) fs'"
    using r fs s midlen agg unfolding level_rep_def by (auto simp: level'_def)
  with fs push data show ?thesis by (auto simp: level'_def)
qed

lemma push_tail_full:
  assumes "level_rep K level xs fs" "K \<le> length xs"
  shows "push_tail K level order = None"
  using level_repD(14) [OF assms(1)] assms(2) by (simp add: push_tail_def)

lemma unlink_rep:
  assumes rep: "level_rep K level (as @ s # bs) fs"
  shows "\<exists>level' order. unlink level s = Some (level', order) \<and>
    level_rep K level' (as @ bs) (s # fs) \<and> pl_price level' = pl_price level \<and>
    live_data level s = Some (strip order) \<and> live_data level' = (live_data level)(s := None)"
proof -
  note r = level_repD [OF rep]
  define p where "p = last_or NIL as"
  define q where "q = link NIL bs"
  have small: "x \<in> set as \<union> set bs \<Longrightarrow> x < NIL \<and> x \<noteq> s" for x
    using r(2,3,6) by auto
  have p: "p = NIL \<longleftrightarrow> as = []"
    using small by (cases as rule: rev_cases) (force simp: p_def)+
  have q: "q = NIL \<longleftrightarrow> bs = []"
    using small by (cases bs) (force simp: q_def)+
  have segs: "live_seg (pl_slots level) NIL as s" "live_seg (pl_slots level) s bs NIL"
    using r(8) by (simp_all add: live_seg_append)
  obtain order where order: "get (pl_slots level) s = Some (Live order)" "rest_prev order = p" "rest_next order = q"
    using r(8) by (auto simp: live_seg_append p_def q_def split: option.splits order_slot.splits)
  define mid1 where "mid1 = (if p = NIL then pl_slots level
    else update_live (\<lambda>t. t\<lparr>rest_next := q\<rparr>) (pl_slots level) p)"
  define mid2 where "mid2 = (if q = NIL then mid1 else update_live (\<lambda>t. t\<lparr>rest_prev := p\<rparr>) mid1 q)"
  define level' where "level' = level\<lparr>pl_slots := mid2[s := Free (pl_free_head level)],
    pl_head := (if p = NIL then q else pl_head level), pl_tail := (if q = NIL then p else pl_tail level),
    pl_free_head := s, pl_len := pl_len level - 1,
    pl_aggregate_quantity := pl_aggregate_quantity level - ucast (rest_quantity order)\<rparr>"
  have "p \<noteq> NIL \<longrightarrow> is_live (pl_slots level) p"
    using p segs(1) live_seg_live [OF segs(1) last_in_set] is_live_get
    by (auto simp: p_def last_or_def simp del: get_Some)
  moreover have "q \<noteq> NIL \<longrightarrow> is_live (pl_slots level) q"
    using q live_seg_live [OF segs(2), of q] is_live_get by (cases bs) (auto simp: q_def simp del: get_Some)
  ultimately have un: "unlink level s = Some (level', order)"
    using order by (auto simp: unlink_def Let_def level'_def mid1_def mid2_def simp del: get_Some)
  have len: "length mid2 = K" using r(1) by (simp add: mid1_def mid2_def)
  have mdata: "slot_data mid2 = live_data level"
    by (simp add: mid1_def mid2_def slot_data_update_live live_data_def)
  have "s < length mid2" using r(6) len by auto
  then have data: "live_data level' = (live_data level)(s := None)"
    by (simp add: live_data_def level'_def slot_data_set mdata)
  have old: "live_data level s = Some (strip order)"
    using order(1) by (simp add: live_data_def slot_data_get)
  have disj: "set as \<inter> set bs = {}" "distinct as" "distinct bs" "s \<notin> set as" "s \<notin> set bs" using r(3) by auto
  have as: "live_seg mid1 NIL as q"
    using live_seg_set_next [OF segs(1), of q] disj p by (cases "as = []") (auto simp: mid1_def p_def last_or_def)
  have bs: "live_seg mid1 s bs NIL"
  proof (cases "as = []")
    case False
    then have "p \<notin> set bs" using disj(1) last_in_set [of as] unfolding p_def last_or_def by (metis IntI empty_iff)
    with segs(2) show ?thesis by (simp add: mid1_def live_seg_update_other)
  qed (use segs(2) p in \<open>simp add: mid1_def\<close>)
  have "live_seg mid2 NIL as q \<and> live_seg mid2 p bs NIL"
  proof (cases bs)
    case (Cons b bs')
    then have "q = b" "b \<notin> set as" "b \<notin> set bs'" using disj by (auto simp: q_def)
    with as bs Cons q live_seg_set_prev [of mid1 s b bs' NIL p] show ?thesis
      by (simp add: mid2_def live_seg_update_other)
  qed (use as q in \<open>simp add: mid2_def\<close>)
  then have seg: "live_seg (mid2[s := Free (pl_free_head level)]) NIL (as @ bs) NIL"
    using disj(4,5) by (simp add: live_seg_append live_seg_update_other p_def q_def)
  have "s \<notin> set fs" using r(5) by auto
  then have free: "free_seg (mid2[s := Free (pl_free_head level)]) (s # fs)"
    using r(6,9,13) len by (auto simp: free_seg_update_other free_seg_update_live mid1_def mid2_def get_update)
  have agg0: "uint (pl_aggregate_quantity level) = fifo_sum (live_data level) (as @ bs) + uint (rest_quantity order)"
    using r(10) old by simp
  then have "ucast (rest_quantity order) \<le> pl_aggregate_quantity level"
    using fifo_sum_bound [of "live_data level" "as @ bs"] by (simp add: word_le_def)
  then have agg: "uint (pl_aggregate_quantity level') = fifo_sum (live_data level') (as @ bs)"
    using agg0 disj(4,5) unfolding data by (simp add: uint_diff_bounded level'_def)
  have "pl_head level' = link NIL (as @ bs)" "pl_tail level' = last_or NIL (as @ bs)"
    using r(11,12) p q by (cases as; cases bs rule: rev_cases; auto simp: level'_def p_def q_def last_or_def)+
  then have "level_rep K level' (as @ bs) (s # fs)"
    using r seg free agg len unfolding level_rep_def by (auto simp: level'_def)
  with un old data show ?thesis by (auto simp: level'_def)
qed

lemma unlink_dead:
  assumes "live_data level s = None"
  shows "unlink level s = None"
  using assms by (auto simp: unlink_def live_data_def slot_data_def split: option.splits order_slot.splits)

lemma live_seg_set_data:
  assumes "live_seg slots p xs q" "get slots s = Some (Live order)"
    and "rest_prev new = rest_prev order" "rest_next new = rest_next order"
  shows "live_seg (slots[s := Live new]) p xs q"
  using assms by (induction xs arbitrary: p) (auto simp: get_update split: option.splits order_slot.splits)

lemma free_seg_set_data:
  assumes "free_seg slots xs" "get slots s = Some (Live order)"
  shows "free_seg (slots[s := Live new]) xs"
  using assms by (induction xs) (auto simp: get_update)

text \<open>Any write to a live order that keeps its links and fits the aggregate.\<close>

lemma set_data_rep:
  assumes rep: "level_rep K level (as @ s # bs) fs" and get: "get (pl_slots level) s = Some (Live order)"
    and links: "rest_prev new = rest_prev order" "rest_next new = rest_next order"
    and agg: "uint agg = uint (pl_aggregate_quantity level) - uint (rest_quantity order) + uint (rest_quantity new)"
  shows "level_rep K (level\<lparr>pl_slots := (pl_slots level)[s := Live new], pl_aggregate_quantity := agg\<rparr>)
      (as @ s # bs) fs"
    and "live_data (level\<lparr>pl_slots := (pl_slots level)[s := Live new], pl_aggregate_quantity := agg\<rparr>)
      = (live_data level)(s := Some (strip new))"
proof -
  note r = level_repD [OF rep]
  let ?level = "level\<lparr>pl_slots := (pl_slots level)[s := Live new], pl_aggregate_quantity := agg\<rparr>"
  have "s < K" using r(6) by auto
  then show data: "live_data ?level = (live_data level)(s := Some (strip new))"
    using r(1) by (simp add: live_data_def slot_data_set)
  have "live_data level s = Some (strip order)"
    using get by (simp add: live_data_def slot_data_get)
  moreover have "s \<notin> set as" "s \<notin> set bs" using r(3) by auto
  ultimately have "uint agg = fifo_sum (live_data ?level) (as @ s # bs)"
    using agg r(10) unfolding data by simp
  with r live_seg_set_data [OF r(8) get links] free_seg_set_data [OF r(9) get]
  show "level_rep K ?level (as @ s # bs) fs"
    unfolding level_rep_def by (auto simp: live_data_def)
qed

section \<open>The contract of a level\<close>

text \<open>
  What the book relies on: a level is a FIFO of distinct slots (\<open>walk\<close>), each with the data of
  its order, that grows at the tail, loses a slot anywhere, and has the data of one order written in
  place. \<open>K\<close> is the capacity.
\<close>

locale fifo_level =
  fixes K :: nat
    and inv :: "'l \<Rightarrow> bool"
    and fifo :: "'l \<Rightarrow> nat list"
    and data :: "'l \<Rightarrow> nat \<Rightarrow> 'd option"
    and price :: "'l \<Rightarrow> 'p"
    and push :: "'l \<Rightarrow> 'd \<Rightarrow> ('l \<times> nat) option"
    and del :: "'l \<Rightarrow> nat \<Rightarrow> ('l \<times> 'd) option"
    and view :: "'d \<Rightarrow> 'd"
  assumes fifo_distinct: "inv l \<Longrightarrow> distinct (fifo l)"
    and fifo_data: "inv l \<Longrightarrow> data l s \<noteq> None \<longleftrightarrow> s \<in> set (fifo l)"
    and fifo_bound: "inv l \<Longrightarrow> s \<in> set (fifo l) \<Longrightarrow> s < K"
    and push_room: "\<lbrakk>inv l; length (fifo l) < K\<rbrakk> \<Longrightarrow> \<exists>l' s. push l d = Some (l', s) \<and> inv l' \<and> s < K \<and>
      s \<notin> set (fifo l) \<and> fifo l' = fifo l @ [s] \<and> data l' = (data l)(s := Some (view d)) \<and> price l' = price l"
    and del_live: "\<lbrakk>inv l; data l s = Some d\<rbrakk> \<Longrightarrow> \<exists>l' d'. del l s = Some (l', d') \<and> view d' = d \<and> inv l' \<and>
      fifo l' = remove1 s (fifo l) \<and> data l' = (data l)(s := None) \<and> price l' = price l"
begin

lemma length_fifo: "inv l \<Longrightarrow> length (fifo l) \<le> K"
proof -
  assume i: "inv l"
  then have "set (fifo l) \<subseteq> {..<K}" using fifo_bound by auto
  with i show ?thesis
    using card_mono [of "{..<K}" "set (fifo l)"] fifo_distinct by (simp add: distinct_card)
qed

lemma contents_push:
  assumes "inv l" "length (fifo l) < K"
  shows "\<exists>l' s. push l d = Some (l', s) \<and> inv l' \<and> s < K \<and> data l s = None \<and> fifo l' = fifo l @ [s] \<and>
    data l' = (data l)(s := Some (view d)) \<and> price l' = price l \<and>
    map (\<lambda>s. (s, the (data l' s))) (fifo l') = map (\<lambda>s. (s, the (data l s))) (fifo l) @ [(s, view d)]"
proof -
  obtain l' s where p: "push l d = Some (l', s)" "inv l'" "s < K" "s \<notin> set (fifo l)"
      "fifo l' = fifo l @ [s]" "data l' = (data l)(s := Some (view d))" "price l' = price l"
    using push_room [OF assms] by blast
  moreover have "data l s = None" using fifo_data [OF assms(1)] p(4) by blast
  moreover have "map (\<lambda>x. (x, the (data l' x))) (fifo l) = map (\<lambda>x. (x, the (data l x))) (fifo l)"
    using p by (intro map_cong) auto
  ultimately show ?thesis by auto
qed

lemma contents_del:
  assumes "inv l" "data l s = Some d"
  shows "\<exists>l' d'. del l s = Some (l', d') \<and> view d' = d \<and> inv l' \<and> data l' = (data l)(s := None) \<and>
    price l' = price l \<and> fifo l' = remove1 s (fifo l) \<and>
    map (\<lambda>s. (s, the (data l' s))) (fifo l') = filter (\<lambda>(x, _). x \<noteq> s) (map (\<lambda>s. (s, the (data l s))) (fifo l))"
proof -
  obtain l' d' where p: "del l s = Some (l', d')" "view d' = d" "inv l'"
      "fifo l' = remove1 s (fifo l)" "data l' = (data l)(s := None)" "price l' = price l"
    using del_live [OF assms] by blast
  have "fifo l' = filter (\<lambda>x. x \<noteq> s) (fifo l)"
    using p(4) fifo_distinct [OF assms(1)] by (simp add: distinct_remove1_removeAll removeAll_filter_not_eq eq_commute)
  then have "map (\<lambda>s. (s, the (data l' s))) (fifo l') = filter (\<lambda>(x, _). x \<noteq> s) (map (\<lambda>s. (s, the (data l s))) (fifo l))"
    using p(5) by (auto simp: filter_map o_def intro!: map_cong)
  with p show ?thesis by blast
qed

end

lemma level_inv_rep: "level_inv K level \<Longrightarrow> level_rep K level (walk level) (free_walk level)"
  by (simp add: level_inv_def)

lemma push_tail_level:
  assumes "level_inv K level" "length (walk level) < K"
  shows "\<exists>level' s. push_tail K level order = Some (level', s) \<and> level_inv K level' \<and> s < K \<and>
    s \<notin> set (walk level) \<and> walk level' = walk level @ [s] \<and>
    live_data level' = (live_data level)(s := Some (strip order)) \<and> pl_price level' = pl_price level"
proof -
  obtain level' s fs' where p: "free_walk level = s # fs'" "push_tail K level order = Some (level', s)"
      "level_rep K level' (walk level @ [s]) fs'" "pl_price level' = pl_price level"
      "live_data level' = (live_data level)(s := Some (strip order))"
    using push_tail_rep [OF level_inv_rep [OF assms(1)] assms(2)] by blast
  moreover have "s < K" "s \<notin> set (walk level)"
    using level_repD(3,6) [OF p(3)] by auto
  ultimately show ?thesis using level_rep_walk [OF p(3)] by auto
qed

lemma unlink_level:
  assumes "level_inv K level" "live_data level s = Some d"
  shows "\<exists>level' order. unlink level s = Some (level', order) \<and> strip order = d \<and> level_inv K level' \<and>
    walk level' = remove1 s (walk level) \<and> live_data level' = (live_data level)(s := None) \<and>
    pl_price level' = pl_price level"
proof -
  have rep: "level_rep K level (walk level) (free_walk level)"
    using assms(1) by (rule level_inv_rep)
  have "s \<in> set (walk level)" using live_data_iff [OF rep] assms(2) by blast
  then obtain as bs where w: "walk level = as @ s # bs" "s \<notin> set as"
    by (meson split_list_first)
  obtain level' order where u: "unlink level s = Some (level', order)"
      "level_rep K level' (as @ bs) (s # free_walk level)" "pl_price level' = pl_price level"
      "live_data level s = Some (strip order)" "live_data level' = (live_data level)(s := None)"
    using unlink_rep [OF rep [unfolded w]] by blast
  with w assms(2) level_rep_walk [OF u(2)] show ?thesis by (auto simp: remove1_append)
qed

interpretation lv: fifo_level K "level_inv K" walk live_data pl_price "push_tail K" unlink strip for K
proof
  fix level s
  assume i: "level_inv K level"
  note r = level_repD [OF level_inv_rep [OF i]]
  show "distinct (walk level)" by (rule r(3))
  show "(live_data level s \<noteq> None) = (s \<in> set (walk level))"
    by (rule live_data_iff [OF level_inv_rep [OF i]])
  show "s \<in> set (walk level) \<Longrightarrow> s < K" using r(6) by blast
qed (rule push_tail_level unlink_level; assumption)+

lemma write_level:
  assumes "level_inv K level" "get (pl_slots level) s = Some (Live order)"
    and "rest_prev new = rest_prev order" "rest_next new = rest_next order"
    and "uint agg = uint (pl_aggregate_quantity level) - uint (rest_quantity order) + uint (rest_quantity new)"
  defines "level' \<equiv> level\<lparr>pl_slots := (pl_slots level)[s := Live new], pl_aggregate_quantity := agg\<rparr>"
  shows "level_inv K level' \<and> walk level' = walk level \<and> live_data level' = (live_data level)(s := Some (strip new))"
proof -
  have rep: "level_rep K level (walk level) (free_walk level)"
    using assms(1) by (rule level_inv_rep)
  have "s \<in> set (walk level)"
    using live_data_iff [OF rep, of s] assms(2) by (simp add: live_data_def slot_data_get)
  then obtain as bs where w: "walk level = as @ s # bs"
    by (meson split_list_first)
  show ?thesis
    using set_data_rep [OF rep [unfolded w] assms(2-5)] level_rep_walk [of K level' "walk level" "free_walk level"]
    unfolding level'_def w by blast
qed

lemma live_data_get:
  "live_data level s = Some d \<longleftrightarrow> (\<exists>order. get (pl_slots level) s = Some (Live order) \<and> strip order = d)"
  by (auto simp: live_data_def slot_data_def simp del: get_Some get_None split: option.splits order_slot.splits)

lemma reduce_quantity_level:
  assumes inv: "level_inv K level" and d: "live_data level s = Some d" and q: "q \<le> rest_quantity d"
  shows "\<exists>level'. reduce_quantity level s q = Some level' \<and> level_inv K level' \<and> walk level' = walk level \<and>
    live_data level' = (live_data level)(s := Some (d\<lparr>rest_quantity := rest_quantity d - q\<rparr>)) \<and>
    pl_price level' = pl_price level"
proof -
  obtain order where o: "get (pl_slots level) s = Some (Live order)" "strip order = d"
    using d live_data_get by blast
  let ?new = "order\<lparr>rest_quantity := rest_quantity order - q\<rparr>"
  note r = level_repD [OF level_inv_rep [OF inv]]
  have le: "q \<le> rest_quantity order" using q o(2) by (metis strip_simps(8))
  have "rest_quantity order = rest_quantity (the (live_data level s))" using d o(2) by auto
  moreover have "s \<in> set (walk level)" using lv.fifo_data [OF inv] d by blast
  ultimately have "uint (rest_quantity order) \<le> uint (pl_aggregate_quantity level)"
    unfolding r(10) fifo_sum_def by (auto intro!: member_le_sum_list)
  then have sub: "ucast q \<le> pl_aggregate_quantity level"
    using le by (simp add: word_le_def)
  show ?thesis
    using write_level [OF inv o(1), of ?new "pl_aggregate_quantity level - ucast q"] le sub o
    by (auto simp: reduce_quantity_def get_live_def checked_sub_def uint_diff_bounded simp del: get_Some)
qed

lemma set_index_slot_level:
  assumes inv: "level_inv K level" and d: "live_data level s = Some d"
  shows "\<exists>level'. set_index_slot level s w = Some level' \<and> level_inv K level' \<and> walk level' = walk level \<and>
    live_data level' = (live_data level)(s := Some (d\<lparr>rest_index_slot := w\<rparr>)) \<and> pl_price level' = pl_price level"
proof -
  obtain order where o: "get (pl_slots level) s = Some (Live order)" "strip order = d"
    using d live_data_get by blast
  have "level\<lparr>pl_slots := ss, pl_aggregate_quantity := pl_aggregate_quantity level\<rparr> = level\<lparr>pl_slots := ss\<rparr>" for ss
    by simp
  with write_level [OF inv o(1), of "order\<lparr>rest_index_slot := w\<rparr>" "pl_aggregate_quantity level"] o
  show ?thesis
    by (auto simp: set_index_slot_def get_live_def simp del: get_Some)
qed

lemma for_each_live_loop_seg:
  "\<lbrakk>live_seg slots p xs NIL; length xs \<le> fuel; length slots < NIL\<rbrakk> \<Longrightarrow>
   \<exists>orders. for_each_live_loop fuel slots (link NIL xs) = Some orders \<and>
     map (Some \<circ> strip) orders = map (slot_data slots) xs"
proof (induction xs arbitrary: p fuel)
  case Nil
  then show ?case by (cases fuel) simp_all
next
  case (Cons x xs)
  then obtain fuel' where "fuel = Suc fuel'" by (cases fuel) auto
  moreover obtain order where o: "get slots x = Some (Live order)" "rest_next order = link NIL xs"
      "live_seg slots x xs NIL"
    using Cons.prems(1) by (auto split: option.splits order_slot.splits)
  moreover have "x \<noteq> NIL" using o(1) Cons.prems(3) by auto
  ultimately show ?case
    using Cons.IH [OF o(3), of fuel'] Cons.prems by (auto simp: slot_data_get simp del: get_Some)
qed

lemma for_each_live_walk:
  assumes "level_inv K level"
  shows "\<exists>orders. for_each_live level = Some orders \<and> map strip orders = map (\<lambda>s. the (live_data level s)) (walk level)"
proof -
  note r = level_repD [OF level_inv_rep [OF assms]]
  obtain orders where "for_each_live level = Some orders" "map (Some \<circ> strip) orders = map (live_data level) (walk level)"
    using for_each_live_loop_seg [OF r(8), of K] r by (auto simp: for_each_live_def live_data_def)
  moreover from arg_cong [OF this(2), of "map the"]
  have "map strip orders = map (\<lambda>s. the (live_data level s)) (walk level)"
    by (simp add: o_def)
  ultimately show ?thesis by blast
qed

lemma level_inv_totals:
  assumes "level_inv K level"
  shows "\<exists>visited. for_each_live level = Some visited \<and>
    map strip visited = map (\<lambda>s. the (live_data level s)) (walk level) \<and>
    uint (pl_aggregate_quantity level) = (\<Sum>order \<leftarrow> visited. uint (rest_quantity order)) \<and>
    pl_len level = length visited \<and> (push_tail K level order = None \<longleftrightarrow> length visited = K)"
proof -
  note rep = level_inv_rep [OF assms]
  note r = level_repD [OF rep]
  obtain visited where v: "for_each_live level = Some visited"
      "map strip visited = map (\<lambda>s. the (live_data level s)) (walk level)"
    using for_each_live_walk [OF assms] by blast
  have "map (uint \<circ> rest_quantity) (map strip visited) = map (\<lambda>s. uint (rest_quantity (the (live_data level s)))) (walk level)"
    unfolding v(2) by simp
  then have "(\<Sum>order \<leftarrow> visited. uint (rest_quantity order)) = fifo_sum (live_data level) (walk level)"
    by (simp add: fifo_sum_def o_def)
  moreover have len: "length visited = length (walk level)" using arg_cong [OF v(2), of length] by simp
  moreover have "push_tail K level order = None \<longleftrightarrow> length (walk level) = K"
    using push_tail_full [OF rep] push_tail_level [OF assms] lv.length_fifo [OF assms]
    by (metis le_neq_implies_less option.distinct(1) order_refl)
  ultimately show ?thesis using v r(10,14) by auto
qed

section \<open>Histories\<close>

text \<open>
  The levels that a new level becomes by its operations, each with the list a caller would keep of
  what it did: the handle and the order of every \<open>push_tail\<close>, less those taken out by \<open>unlink\<close>,
  with the quantities left by \<open>reduce_quantity\<close> and the index slots written. The list is computed from
  the arguments and the returned handles alone.
\<close>

definition amend_entry :: "nat \<Rightarrow> (resting_order \<Rightarrow> resting_order) \<Rightarrow> (nat \<times> resting_order) list \<Rightarrow> (nat \<times> resting_order) list" where
  "amend_entry s f = map (\<lambda>(x, order). (x, if x = s then f order else order))"

inductive level_history :: "nat \<Rightarrow> price_ticks \<Rightarrow> price_level \<Rightarrow> (nat \<times> resting_order) list \<Rightarrow> bool" for K p where
  New: "K < NIL \<Longrightarrow> level_history K p (price_level_new K p) []"
| Push: "\<lbrakk>level_history K p level hs; push_tail K level order = Some (level', s)\<rbrakk> \<Longrightarrow>
    level_history K p level' (hs @ [(s, strip order)])"
| Unlink: "\<lbrakk>level_history K p level hs; unlink level s = Some (level', order)\<rbrakk> \<Longrightarrow>
    level_history K p level' (filter (\<lambda>(x, _). x \<noteq> s) hs)"
| Reduce: "\<lbrakk>level_history K p level hs; reduce_quantity level s q = Some level'\<rbrakk> \<Longrightarrow>
    level_history K p level' (amend_entry s (\<lambda>order. order\<lparr>rest_quantity := rest_quantity order - q\<rparr>) hs)"
| Index: "\<lbrakk>level_history K p level hs; set_index_slot level s w = Some level'\<rbrakk> \<Longrightarrow>
    level_history K p level' (amend_entry s (\<lambda>order. order\<lparr>rest_index_slot := w\<rparr>) hs)"

definition level_contents :: "price_level \<Rightarrow> (nat \<times> resting_order) list" where
  "level_contents level = map (\<lambda>s. (s, the (live_data level s))) (walk level)"

lemma contents_data:
  assumes "level_inv K level"
  shows "(s, d) \<in> set (level_contents level) \<longleftrightarrow> live_data level s = Some d"
  using lv.fifo_data [OF assms, of s] by (force simp: level_contents_def)

lemma push_tail_accepted:
  assumes "level_inv K level" "push_tail K level order = Some (level', s)"
  shows "level_inv K level' \<and> pl_price level' = pl_price level \<and> s \<notin> set (walk level) \<and>
    level_contents level' = level_contents level @ [(s, strip order)]"
proof -
  have "length (walk level) < K"
    using push_tail_full [OF level_inv_rep [OF assms(1)]] assms(2) by (metis not_le option.distinct(1))
  from lv.contents_push [OF assms(1) this, of order] assms lv.fifo_data [OF assms(1), of s] show ?thesis
    by (auto simp: level_contents_def)
qed

lemma unlink_accepted:
  assumes "level_inv K level" "unlink level s = Some (level', order)"
  shows "level_inv K level' \<and> pl_price level' = pl_price level \<and> (s, strip order) \<in> set (level_contents level) \<and>
    level_contents level' = filter (\<lambda>(x, _). x \<noteq> s) (level_contents level)"
proof -
  obtain d where d: "live_data level s = Some d"
    using unlink_dead [of level s] assms(2) by fastforce
  from lv.contents_del [OF assms(1) d] assms d contents_data [OF assms(1)] show ?thesis
    by (auto simp: level_contents_def)
qed

lemma contents_amend:
  assumes "walk level' = walk level" "live_data level s = Some d" "live_data level' = (live_data level)(s := Some (f d))"
  shows "level_contents level' = amend_entry s f (level_contents level)"
  using assms by (auto simp: level_contents_def amend_entry_def)

lemma reduce_quantity_accepted:
  assumes "level_inv K level" "reduce_quantity level s q = Some level'"
  shows "level_inv K level' \<and> pl_price level' = pl_price level \<and> (\<exists>d. live_data level s = Some d \<and> q \<le> rest_quantity d) \<and>
    level_contents level' = amend_entry s (\<lambda>order. order\<lparr>rest_quantity := rest_quantity order - q\<rparr>) (level_contents level)"
proof -
  obtain order where "get_live level s = Some order" "q \<le> rest_quantity order"
    using assms(2) by (auto simp: reduce_quantity_def bind_eq_Some_conv checked_sub_def split: if_splits)
  then have d: "live_data level s = Some (strip order)" "q \<le> rest_quantity (strip order)"
    by (simp_all add: get_live_data)
  from reduce_quantity_level [OF assms(1) d] assms(2)
  have r: "level_inv K level'" "walk level' = walk level" "pl_price level' = pl_price level"
    "live_data level' = (live_data level)(s := Some ((strip order)\<lparr>rest_quantity := rest_quantity (strip order) - q\<rparr>))"
    by auto
  from contents_amend [OF r(2) d(1), of "\<lambda>order. order\<lparr>rest_quantity := rest_quantity order - q\<rparr>"] r d show ?thesis by auto
qed

lemma set_index_slot_accepted:
  assumes "level_inv K level" "set_index_slot level s w = Some level'"
  shows "level_inv K level' \<and> pl_price level' = pl_price level \<and>
    level_contents level' = amend_entry s (\<lambda>order. order\<lparr>rest_index_slot := w\<rparr>) (level_contents level)"
proof -
  obtain order where "get_live level s = Some order"
    using assms(2) by (auto simp: set_index_slot_def)
  then have d: "live_data level s = Some (strip order)" by (simp add: get_live_data)
  from set_index_slot_level [OF assms(1) d, of w] assms(2) contents_amend [OF _ d] show ?thesis by auto
qed

lemma level_history_inv:
  assumes "level_history K p level hs"
  shows "level_inv K level \<and> pl_price level = p \<and> level_contents level = hs"
  using assms
proof (induction rule: level_history.induct)
  case New
  then have rep: "level_rep K (price_level_new K p) [] [0..<K]" by (rule price_level_new_rep)
  show ?case using level_rep_walk [OF rep] by (simp add: level_contents_def price_level_new_def)
qed (auto dest: push_tail_accepted unlink_accepted reduce_quantity_accepted set_index_slot_accepted)

section \<open>Properties\<close>

text \<open>
  Price-time priority inside a level: \<open>push_tail\<close> on a level with room appends the order behind
  all others, whose order and data do not change, and \<open>unlink\<close> of the returned handle gives the
  order back and restores the FIFO; a traversal visits exactly that FIFO and always ends.
\<close>

theorem level_push_unlink:
  assumes "level_inv K level" "length (walk level) < K"
  shows "\<exists>level' s. push_tail K level order = Some (level', s) \<and> level_inv K level' \<and>
    (\<exists>visited visited'. for_each_live level = Some visited \<and> for_each_live level' = Some visited' \<and>
       map strip visited' = map strip visited @ [strip order]) \<and>
    (\<exists>level'' order'. unlink level' s = Some (level'', order') \<and> strip order' = strip order \<and>
       level_inv K level'' \<and> walk level'' = walk level \<and> live_data level'' = live_data level)"
proof -
  obtain level' s where p: "push_tail K level order = Some (level', s)" "level_inv K level'"
      "live_data level s = None" "walk level' = walk level @ [s]"
      "live_data level' = (live_data level)(s := Some (strip order))"
      "map (\<lambda>s. (s, the (live_data level' s))) (walk level')
       = map (\<lambda>s. (s, the (live_data level s))) (walk level) @ [(s, strip order)]"
    using lv.contents_push [OF assms, of order] by blast
  have "map snd (map (\<lambda>s. (s, the (live_data level' s))) (walk level'))
      = map (\<lambda>s. the (live_data level s)) (walk level) @ [strip order]"
    unfolding p(6) by simp
  then have data: "map (\<lambda>s. the (live_data level' s)) (walk level')
      = map (\<lambda>s. the (live_data level s)) (walk level) @ [strip order]"
    by (simp add: o_def)
  obtain level'' order' where u: "unlink level' s = Some (level'', order')" "strip order' = strip order"
      "level_inv K level''" "walk level'' = remove1 s (walk level')"
      "live_data level'' = (live_data level')(s := None)"
    using unlink_level [OF p(2), of s "strip order"] p(5) by auto
  have "s \<notin> set (walk level)" using lv.fifo_data [OF assms(1)] p(3) by blast
  then have "walk level'' = walk level" "live_data level'' = live_data level"
    using u(4,5) p(3-5) by (auto simp: remove1_append)
  with p(1,2) u data for_each_live_walk [OF assms(1)] for_each_live_walk [OF p(2)] show ?thesis
    by fastforce
qed

theorem level_push_unlink_witness:
  "\<exists>level' s. push_tail 2 (price_level_new 2 5) \<lparr>rest_id = 1, rest_account_id = 1, rest_index_slot = 0,
       rest_quantity = 10, rest_sequence = 1, rest_prev = NIL, rest_next = NIL\<rparr> = Some (level', s) \<and> level_inv 2 level'"
proof -
  have "level_rep 2 (price_level_new 2 5) [] [0..<2]"
    by (rule price_level_new_rep) (simp add: NIL_def)
  from level_push_unlink [of 2 "price_level_new 2 5"] level_rep_walk [OF this] show ?thesis
    by simp blast
qed

text \<open>
  C33. A level does what its operations did: after any sequence of successful \<open>push_tail\<close>,
  \<open>unlink\<close>, \<open>reduce_quantity\<close> and index writes on a new level, a traversal ends and visits exactly
  the orders pushed and not unlinked, oldest first and with the quantities left to them. The
  \<open>u128\<close> aggregate is the exact sum of these quantities (it never wraps), the length is their number, all
  have different handles, the level refuses a push exactly when it holds \<open>K\<close> orders, and \<open>unlink\<close>
  finds exactly the handles in use and gives back their orders.
\<close>

theorem level_history_exact:
  assumes "level_history K p level hs"
  shows "(\<exists>visited. for_each_live level = Some visited \<and> map strip visited = map snd hs) \<and>
    uint (pl_aggregate_quantity level) = (\<Sum>(s, order) \<leftarrow> hs. uint (rest_quantity order)) \<and>
    pl_len level = length hs \<and> pl_price level = p \<and> distinct (map fst hs) \<and>
    (\<forall>order. push_tail K level order = None \<longleftrightarrow> length hs = K) \<and>
    (\<forall>s. map_option (strip \<circ> snd) (unlink level s) = map_of hs s)"
proof -
  note inv = level_history_inv [OF assms]
  have hs: "map fst hs = walk level" "map snd hs = map (\<lambda>s. the (live_data level s)) (walk level)" "length hs = length (walk level)"
    using inv by (auto simp: level_contents_def o_def)
  have d: "distinct (map fst hs)" using hs(1) lv.fifo_distinct [of K level] inv by simp
  have u: "map_option (strip \<circ> snd) (unlink level s) = map_of hs s" for s
  proof (cases "live_data level s")
    case None
    then have "s \<notin> set (map fst hs)" using lv.fifo_data [of K level s] inv hs(1) by simp
    then have "map_of hs s = None" by (simp add: map_of_eq_None_iff)
    with unlink_dead [OF None] show ?thesis by simp
  next
    case (Some o1)
    with contents_data [of K level s o1] inv d have "map_of hs s = Some o1" by simp
    with unlink_level [of K level s o1] inv Some show ?thesis by auto
  qed
  obtain visited where v: "for_each_live level = Some visited" "map strip visited = map snd hs"
      "uint (pl_aggregate_quantity level) = (\<Sum>order \<leftarrow> visited. uint (rest_quantity order))" "pl_len level = length hs"
    using level_inv_totals [of K level] inv hs by (metis length_map)
  have "(\<Sum>order \<leftarrow> visited. uint (rest_quantity order)) = sum_list (map (uint \<circ> rest_quantity) (map strip visited))"
    by (simp add: o_def)
  also have "\<dots> = (\<Sum>(s, order) \<leftarrow> hs. uint (rest_quantity order))"
    unfolding v(2) by (simp add: case_prod_beta' o_def)
  finally have "uint (pl_aggregate_quantity level) = (\<Sum>(s, order) \<leftarrow> hs. uint (rest_quantity order))"
    using v(3) by simp
  moreover have "push_tail K level order = None \<longleftrightarrow> length hs = K" for order
    using level_inv_totals [of K level order] inv v(1,2) by (metis length_map option.inject)
  ultimately show ?thesis using v(1,2,4) inv d u by blast
qed

definition demo_resting :: "order_id \<Rightarrow> quantity \<Rightarrow> resting_order" where
  "demo_resting i q = \<lparr>rest_id = i, rest_account_id = 1, rest_index_slot = 0, rest_quantity = q, rest_sequence = 1,
     rest_prev = NIL, rest_next = NIL\<rparr>"

text \<open>Two orders of 10 and 7 are pushed and the second one loses 3: the aggregate is 14 and the level is full.\<close>

definition demo_level1 :: price_level where
  "demo_level1 = fst (the (push_tail 2 (price_level_new 2 5) (demo_resting 1 10)))"

definition demo_level2 :: price_level where
  "demo_level2 = fst (the (push_tail 2 demo_level1 (demo_resting 2 7)))"

definition demo_level :: price_level where
  "demo_level = the (reduce_quantity demo_level2 1 3)"

lemmas demo_level_steps = push_tail_def reduce_quantity_def price_level_new_def NIL_def get_def Let_def
  is_live_def update_live_def get_live_def checked_sub_def demo_resting_def upt_rec

lemma demo_level_history: "level_history 2 5 demo_level [(0, demo_resting 1 10), (1, demo_resting 2 4)]"
proof -
  let ?l = "price_level_new 2 5"
  have 1: "push_tail 2 ?l (demo_resting 1 10) = Some (demo_level1, 0)"
    unfolding demo_level1_def by (simp add: demo_level_steps)
  have 2: "push_tail 2 demo_level1 (demo_resting 2 7) = Some (demo_level2, 1)"
    unfolding demo_level2_def demo_level1_def by (simp add: demo_level_steps)
  have 3: "reduce_quantity demo_level2 1 3 = Some demo_level"
    unfolding demo_level_def demo_level2_def demo_level1_def by (simp add: demo_level_steps)
  have "level_history 2 5 ?l []" by (rule level_history.New) (simp add: NIL_def)
  from level_history.Reduce [OF level_history.Push [OF level_history.Push [OF this 1] 2] 3] show ?thesis
    by (simp add: amend_entry_def demo_resting_def strip_def)
qed

theorem level_history_exact_witness:
  "uint (pl_aggregate_quantity demo_level) = 14 \<and> pl_len demo_level = 2 \<and>
    push_tail 2 demo_level (demo_resting 3 1) = None"
  using level_history_exact [OF demo_level_history] by (simp add: demo_resting_def)

end
