(* ===== verification/Level_Index.thy ===== *)
theory Level_Index
  imports Types
begin

text \<open>
  The sorted index of the occupied levels of one side (\<open>LevelIndex\<close> in
  \<^verbatim>\<open>crates/hft-book/src/lib.rs\<close>) with the pool of its free level slots. \<open>L\<close> is the const generic
  \<open>LEVELS\<close>; \<open>descending\<close> is true for bids. \<open>partition_point\<close> on a partitioned slice is the
  length of the prefix that satisfies the predicate, which is how it is modelled; the entries are
  always sorted (\<open>li_inv\<close>), so its precondition holds. Slices and array writes stay in range under
  the same invariant.
\<close>

section \<open>The index and its operations\<close>

type_synonym level_entry = "price_ticks \<times> nat"

record level_index =
  li_len :: nat
  li_entries :: "level_entry list"
  li_free :: "nat list"
  li_free_len :: nat

definition level_index_new :: "nat \<Rightarrow> level_index" where
  "level_index_new L =
     \<lparr>li_len = 0, li_entries = replicate L (0, 0), li_free = map (\<lambda>index. L - 1 - index) [0..<L],
      li_free_len = L\<rparr>"

definition is_full :: "level_index \<Rightarrow> bool" where
  "is_full li \<longleftrightarrow> li_free_len li = 0"

definition iter :: "level_index \<Rightarrow> level_entry list" where
  "iter li = take (li_len li) (li_entries li)"

text \<open>\<open>listed\<close> comes strictly before \<open>price\<close> on this side.\<close>

definition better :: "bool \<Rightarrow> price_ticks \<Rightarrow> price_ticks \<Rightarrow> bool" where
  "better descending listed price = (if descending then sint listed > sint price else sint listed < sint price)"

definition position :: "level_index \<Rightarrow> price_ticks \<Rightarrow> bool \<Rightarrow> nat \<times> bool" where
  "position li price descending =
     (let entries = take (li_len li) (li_entries li);
          position = length (takeWhile (\<lambda>(listed, _). better descending listed price) entries);
          found = position < li_len li \<and> fst (entries ! position) = price
      in (position, found))"

definition li_find :: "level_index \<Rightarrow> price_ticks \<Rightarrow> bool \<Rightarrow> nat option" where
  "li_find li price descending =
     (let (position, found) = position li price descending in
      if found then Some (snd (li_entries li ! position)) else None)"

definition copy_within :: "nat \<Rightarrow> nat \<Rightarrow> nat \<Rightarrow> 'a list \<Rightarrow> 'a list" where
  "copy_within from_index to_index dest xs = write_at dest (slice from_index to_index xs) xs"

definition li_insert :: "level_index \<Rightarrow> price_ticks \<Rightarrow> bool \<Rightarrow> (level_index \<times> nat) option" where
  "li_insert li price descending =
     (let (position, _) = position li price descending in
      if li_free_len li = 0 then None
      else
        let free_len = li_free_len li - 1;
            level_index = li_free li ! free_len;
            entries = copy_within position (li_len li) (position + 1) (li_entries li)
        in Some (li\<lparr>li_free_len := free_len, li_entries := entries[position := (price, level_index)],
                    li_len := li_len li + 1\<rparr>, level_index))"

definition li_remove :: "level_index \<Rightarrow> price_ticks \<Rightarrow> bool \<Rightarrow> (level_index \<times> nat) option" where
  "li_remove li price descending =
     (let (position, found) = position li price descending in
      if \<not> found then None
      else
        let level_index = snd (li_entries li ! position);
            entries = copy_within (position + 1) (li_len li) position (li_entries li)
        in Some (li\<lparr>li_entries := entries, li_len := li_len li - 1,
                    li_free := (li_free li)[li_free_len li := level_index],
                    li_free_len := li_free_len li + 1\<rparr>, level_index))"

section \<open>Invariant\<close>

text \<open>
  Entries strictly sorted best first; the indexed and the free level slots partition the \<open>L\<close>
  slots of the side.
\<close>

definition li_inv :: "nat \<Rightarrow> bool \<Rightarrow> level_index \<Rightarrow> bool" where
  "li_inv L descending li \<longleftrightarrow>
     length (li_entries li) = L \<and> length (li_free li) = L \<and>
     li_len li \<le> L \<and> li_free_len li \<le> L \<and>
     sorted_wrt (better descending) (map fst (iter li)) \<and>
     distinct (map snd (iter li) @ take (li_free_len li) (li_free li)) \<and>
     set (map snd (iter li) @ take (li_free_len li) (li_free li)) = {..<L}"

lemma better_irrefl [simp]: "\<not> better d p p"
  by (simp add: better_def)

lemma better_trans: "\<lbrakk>better d p q; better d q r\<rbrakk> \<Longrightarrow> better d p r"
  by (auto simp: better_def split: if_splits)

lemma better_total: "better d p q \<or> p = q \<or> better d q p"
  by (auto simp: better_def intro: signed_word_eqI [where ?'a = int])

lemma better_antisym: "better d p q \<Longrightarrow> \<not> better d q p"
  by (auto simp: better_def split: if_splits)

definition before :: "bool \<Rightarrow> price_ticks \<Rightarrow> (price_ticks \<times> 'a) list \<Rightarrow> (price_ticks \<times> 'a) list" where
  "before d price es = takeWhile (\<lambda>(listed, _). better d listed price) es"

definition from_on :: "bool \<Rightarrow> price_ticks \<Rightarrow> (price_ticks \<times> 'a) list \<Rightarrow> (price_ticks \<times> 'a) list" where
  "from_on d price es = dropWhile (\<lambda>(listed, _). better d listed price) es"

lemma before_from_on [simp]: "before d p es @ from_on d p es = es"
  by (simp add: before_def from_on_def)

lemma before_better: "e \<in> set (before d p es) \<Longrightarrow> better d (fst e) p"
  by (auto simp: before_def dest: set_takeWhileD)

lemma from_on_rest:
  assumes "sorted_wrt (better d) (map fst es)" "e \<in> set (from_on d p es)"
  shows "\<not> better d (fst e) p"
  using assms
proof (induction es)
  case (Cons x es)
  then show ?case
    by (cases x) (auto simp: from_on_def dest: better_trans split: if_splits)
qed (simp add: from_on_def)

lemma from_on_hit:
  assumes "sorted_wrt (better d) (map fst es)"
  shows "map_of es p = (case from_on d p es of [] \<Rightarrow> None | (q, i) # _ \<Rightarrow> if q = p then Some i else None)"
proof -
  have "map_of (before d p es) p = None"
    using before_better [of _ d p es] by (fastforce simp: map_of_eq_None_iff)
  then have "map_of (before d p es @ from_on d p es) p = map_of (from_on d p es) p"
    unfolding map_of_append by (simp add: map_add_def split: option.splits)
  then have "map_of es p = map_of (from_on d p es) p"
    by simp
  moreover have "map_of (from_on d p es) p =
      (case from_on d p es of [] \<Rightarrow> None | (q, i) # _ \<Rightarrow> if q = p then Some i else None)"
  proof (cases "from_on d p es")
    case (Cons e rest)
    obtain q i where e: "e = (q, i)" by (cases e)
    have srt: "sorted_wrt (better d) (map fst (from_on d p es))"
      using assms sorted_wrt_append [of "better d" "map fst (before d p es)" "map fst (from_on d p es)"]
      by (metis before_from_on map_append)
    have "q \<noteq> p \<Longrightarrow> map_of rest p = None"
    proof -
      assume "q \<noteq> p"
      then have "better d p q"
        using from_on_rest [OF assms, of e p] better_total [of d p q] Cons e by auto
      then show ?thesis
        using srt Cons e by (fastforce simp: map_of_eq_None_iff dest: better_antisym)
    qed
    with Cons e show ?thesis by simp
  qed simp
  ultimately show ?thesis by simp
qed

lemma position_split:
  assumes "li_inv L d li"
  shows "position li p d = (length (before d p (iter li)), map_of (iter li) p \<noteq> None)"
    and "map_of (iter li) p = Some i \<Longrightarrow> \<exists>rest. from_on d p (iter li) = (p, i) # rest"
proof -
  have srt: "sorted_wrt (better d) (map fst (iter li))" using assms by (simp add: li_inv_def)
  let ?n = "length (before d p (iter li))"
  have len: "length (iter li) = li_len li" using assms by (simp add: li_inv_def iter_def)
  have "length (iter li) = ?n + length (from_on d p (iter li))"
    by (metis before_from_on length_append)
  then have nth1: "?n < li_len li \<longleftrightarrow> from_on d p (iter li) \<noteq> []"
    using len by (cases "from_on d p (iter li)") simp_all
  have nth2: "from_on d p (iter li) = e # rest \<Longrightarrow> iter li ! ?n = e" for e rest
    by (metis before_from_on nth_append_length)
  note nth = nth1 nth2
  have "position li p d = (?n, ?n < li_len li \<and> fst (iter li ! ?n) = p)"
    by (simp add: position_def Let_def before_def iter_def)
  also have "(?n < li_len li \<and> fst (iter li ! ?n) = p) \<longleftrightarrow> map_of (iter li) p \<noteq> None"
    using nth from_on_hit [OF srt, of p] by (cases "from_on d p (iter li)") (auto split: if_splits)
  finally show "position li p d = (?n, map_of (iter li) p \<noteq> None)" .
  show "map_of (iter li) p = Some i \<Longrightarrow> \<exists>rest. from_on d p (iter li) = (p, i) # rest"
    using from_on_hit [OF srt, of p] by (auto split: list.splits if_splits)
qed

section \<open>Price-time priority\<close>

text \<open>A resting price crosses a taker of the given side at the given limit.\<close>

definition crosses :: "side \<Rightarrow> price_ticks \<Rightarrow> price_ticks \<Rightarrow> bool" where
  "crosses taker price limit =
     (case taker of Buy \<Rightarrow> sint price \<le> sint limit | Sell \<Rightarrow> sint price \<ge> sint limit)"

text \<open>A new row goes behind every row of a price at least as good.\<close>

definition insert_row :: "bool \<Rightarrow> price_ticks \<times> 'a \<Rightarrow> (price_ticks \<times> 'a) list \<Rightarrow> (price_ticks \<times> 'a) list" where
  "insert_row d r rows =
     takeWhile (\<lambda>q. \<not> better d (fst r) (fst q)) rows @ r # dropWhile (\<lambda>q. \<not> better d (fst r) (fst q)) rows"

lemma insert_row_split:
  assumes "\<forall>q \<in> set as. \<not> better d (fst r) (fst q)" "\<forall>q \<in> set bs. better d (fst r) (fst q)"
  shows "insert_row d r (as @ bs) = as @ r # bs"
  using assms by (cases bs) (simp_all add: insert_row_def)

section \<open>Operations\<close>

lemma li_find_map_of:
  assumes "li_inv L d li"
  shows "li_find li p d = map_of (iter li) p"
proof (cases "map_of (iter li) p")
  case (Some i)
  then obtain rest where f: "from_on d p (iter li) = (p, i) # rest"
    using position_split(2) [OF assms] by blast
  let ?n = "length (before d p (iter li))"
  have "iter li ! ?n = (p, i)"
    using f by (metis before_from_on nth_append_length)
  moreover have "?n < length (iter li)"
    using f by (metis before_from_on length_append length_Cons less_add_same_cancel1 zero_less_Suc)
  ultimately have "li_entries li ! ?n = (p, i)"
    by (simp add: iter_def)
  with Some show ?thesis
    by (simp add: li_find_def position_split(1) [OF assms])
qed (simp add: li_find_def position_split(1) [OF assms])

lemma li_lengths:
  assumes "li_inv L d li"
  shows "length (iter li) = li_len li" "li_len li + li_free_len li = L"
    "length (li_entries li) = L" "length (li_free li) = L"
proof -
  show len: "length (iter li) = li_len li" "length (li_entries li) = L" "length (li_free li) = L"
    using assms by (simp_all add: li_inv_def iter_def)
  have "length (map snd (iter li) @ take (li_free_len li) (li_free li)) = L"
    using assms distinct_card [of "map snd (iter li) @ take (li_free_len li) (li_free li)"]
    by (simp add: li_inv_def)
  with len assms show "li_len li + li_free_len li = L"
    by (simp add: li_inv_def)
qed

lemma copy_right:
  assumes "xs = as @ bs @ x # cs"
  shows "(copy_within (length as) (length as + length bs) (length as + 1) xs)[length as := e] = as @ e # bs @ cs"
  unfolding assms copy_within_def write_at_def slice_def by (cases bs) simp_all

lemma copy_left:
  assumes "xs = as @ x # bs @ cs"
  shows "\<exists>y. copy_within (length as + 1) (length as + 1 + length bs) (length as) xs = as @ bs @ y # cs"
proof (cases bs rule: rev_cases)
  case Nil
  then show ?thesis unfolding assms copy_within_def write_at_def slice_def by simp
next
  case (snoc bs' b)
  then show ?thesis unfolding assms copy_within_def write_at_def slice_def
    by (cases bs') (simp_all add: numeral_2_eq_2)
qed

lemma li_insert_iter:
  assumes inv: "li_inv L d li" and new: "map_of (iter li) p = None" and room: "length (iter li) < L"
  shows "\<exists>li' i. li_insert li p d = Some (li', i) \<and> li_inv L d li' \<and> i < L \<and> i \<notin> snd ` set (iter li) \<and>
    iter li' = before d p (iter li) @ (p, i) # from_on d p (iter li)"
proof -
  note l = li_lengths [OF inv]
  define as where "as = before d p (iter li)"
  define bs where "bs = from_on d p (iter li)"
  have whole: "iter li = as @ bs" by (simp add: as_def bs_def)
  define n where "n = li_free_len li - 1"
  define i where "i = li_free li ! n"
  have free: "li_free_len li = Suc n" "n < L" using l room by (simp_all add: n_def)
  have lab: "length as + length bs = li_len li" using l(1) whole by simp
  have "li_entries li = iter li @ drop (li_len li) (li_entries li)" by (simp add: iter_def)
  then obtain x cs where cs: "li_entries li = as @ bs @ x # cs"
    using l room whole by (metis append.assoc Cons_nth_drop_Suc)
  define entries where "entries = as @ (p, i) # bs @ cs"
  define li' where "li' = li\<lparr>li_free_len := n, li_entries := entries, li_len := li_len li + 1\<rparr>"
  have op: "li_insert li p d = Some (li', i)"
    using copy_right [OF cs, of "(p, i)"] lab free
    by (simp add: li_insert_def position_split(1) [OF inv] Let_def li'_def entries_def i_def flip: as_def)
  have it: "iter li' = as @ (p, i) # bs"
    using lab [symmetric] unfolding iter_def [of li'] by (simp add: li'_def entries_def)
  have fr: "take (li_free_len li) (li_free li) = take n (li_free li) @ [i]"
    using free l by (simp add: take_Suc_conv_app_nth i_def)
  have srt: "sorted_wrt (better d) (map fst (iter li))" using inv by (simp add: li_inv_def)
  have gt: "\<forall>e \<in> set bs. better d p (fst e)"
  proof
    fix e
    assume e: "e \<in> set bs"
    then have "e \<in> set (iter li)" by (simp add: whole)
    then have "fst e \<noteq> p" using new by (force simp: map_of_eq_None_iff)
    with from_on_rest [OF srt e [unfolded bs_def]] show "better d p (fst e)" using better_total [of d] by blast
  qed
  have "sorted_wrt (better d) (map fst as @ map fst bs)"
    using srt by (simp add: whole)
  then have "sorted_wrt (better d) (map fst (iter li'))"
    using gt before_better [of _ d p "iter li", folded as_def] unfolding it by (auto simp: sorted_wrt_append dest: better_trans)
  moreover have "distinct (map snd (iter li') @ take (li_free_len li') (li_free li'))"
      "set (map snd (iter li') @ take (li_free_len li') (li_free li')) = {..<L}"
    using inv unfolding li_inv_def fr it whole by (auto simp: li'_def)
  ultimately have inv': "li_inv L d li'"
    using free l lab cs unfolding li_inv_def by (auto simp: li'_def entries_def)
  have "i \<in> {..<L}" "i \<notin> snd ` set (iter li)"
    using inv unfolding li_inv_def fr by auto
  with op inv' it show ?thesis by (auto simp: as_def bs_def)
qed

lemma li_insert_full:
  assumes "li_inv L d li"
  shows "is_full li \<longleftrightarrow> length (iter li) = L" "is_full li \<Longrightarrow> li_insert li p d = None"
  using li_lengths [OF assms] by (auto simp: is_full_def li_insert_def split: prod.splits)

lemma li_remove_iter:
  assumes inv: "li_inv L d li" and hit: "map_of (iter li) p = Some i"
  shows "\<exists>li'. li_remove li p d = Some (li', i) \<and> li_inv L d li' \<and>
    iter li' = filter (\<lambda>e. fst e \<noteq> p) (iter li)"
proof -
  note l = li_lengths [OF inv]
  define as where "as = before d p (iter li)"
  obtain bs where f: "from_on d p (iter li) = (p, i) # bs"
    using position_split(2) [OF inv hit] by blast
  then have whole: "iter li = as @ (p, i) # bs" unfolding as_def by (metis before_from_on)
  then have lab: "length as + 1 + length bs = li_len li"
    using l(1) by simp
  obtain cs where cs: "li_entries li = as @ (p, i) # bs @ cs"
    using whole append_take_drop_id [of "li_len li" "li_entries li"] by (metis append.assoc append_Cons iter_def)
  then obtain y where y: "copy_within (length as + 1) (li_len li) (length as) (li_entries li) = as @ bs @ y # cs"
    using copy_left [OF cs] lab by auto
  define li' where "li' = li\<lparr>li_entries := as @ bs @ y # cs, li_len := li_len li - 1,
    li_free := (li_free li)[li_free_len li := i], li_free_len := li_free_len li + 1\<rparr>"
  have "li_entries li ! length as = (p, i)" by (simp add: cs)
  then have op: "li_remove li p d = Some (li', i)"
    using hit y by (simp add: li_remove_def position_split(1) [OF inv] Let_def li'_def flip: as_def)
  have "li_len li - 1 = length as + length bs" using lab by simp
  then have it: "iter li' = as @ bs"
    unfolding iter_def [of li'] by (simp add: li'_def)
  have room: "li_free_len li < L" using l lab by simp
  then have fr: "take (li_free_len li') (li_free li') = take (li_free_len li) (li_free li) @ [i]"
    using l by (simp add: li'_def take_Suc_conv_app_nth)
  have srt: "sorted_wrt (better d) (map fst (as @ (p, i) # bs))"
    using inv whole by (simp add: li_inv_def)
  then have "\<forall>e \<in> set as. better d (fst e) p" "\<forall>e \<in> set bs. better d p (fst e)"
    by (auto simp: sorted_wrt_append)
  then have "p \<notin> fst ` set (as @ bs)" by force
  then have "filter (\<lambda>e. fst e \<noteq> p) (as @ bs) = as @ bs"
    by (intro filter_True) auto
  then have "iter li' = filter (\<lambda>e. fst e \<noteq> p) (as @ (p, i) # bs)"
    unfolding it by simp
  then have flt: "iter li' = filter (\<lambda>e. fst e \<noteq> p) (iter li)"
    by (simp only: whole)
  have "sorted_wrt (better d) (map fst (iter li'))"
    using srt unfolding it by (auto simp: sorted_wrt_append)
  moreover have "distinct (map snd (iter li') @ take (li_free_len li') (li_free li'))"
      "set (map snd (iter li') @ take (li_free_len li') (li_free li')) = {..<L}"
    using inv unfolding li_inv_def fr it whole by auto
  ultimately have "li_inv L d li'"
    using l room cs unfolding li_inv_def by (auto simp: li'_def)
  with op flt show ?thesis by blast
qed

lemma level_index_new_inv: "li_inv L d (level_index_new L) \<and> iter (level_index_new L) = []"
proof -
  have "(\<lambda>index. L - 1 - index) ` {..<L} = {..<L}"
  proof (intro equalityI subsetI)
    fix x
    assume "x \<in> {..<L}"
    then have "x = L - 1 - (L - 1 - x)" "L - 1 - x \<in> {..<L}" by auto
    then show "x \<in> (\<lambda>index. L - 1 - index) ` {..<L}" by (rule image_eqI)
  qed auto
  moreover have "inj_on (\<lambda>index. L - 1 - index) {..<L}" by (auto simp: inj_on_def)
  ultimately show ?thesis
    by (auto simp: li_inv_def iter_def level_index_new_def distinct_map lessThan_atLeast0)
qed

section \<open>The contract of the level directory\<close>

text \<open>
  What a side of the book relies on: the occupied levels are a list of distinct prices, best first,
  with distinct level slots below \<open>L\<close>; the lookup reads it, an insertion allocates an unused
  slot while there is one, and a removal drops one price.
\<close>

locale level_directory =
  fixes L :: nat
    and lt :: "'p \<Rightarrow> 'p \<Rightarrow> bool"
    and inv :: "'i \<Rightarrow> bool"
    and listing :: "'i \<Rightarrow> ('p \<times> nat) list"
    and find :: "'i \<Rightarrow> 'p \<Rightarrow> nat option"
    and ins :: "'i \<Rightarrow> 'p \<Rightarrow> ('i \<times> nat) option"
    and del :: "'i \<Rightarrow> 'p \<Rightarrow> ('i \<times> nat) option"
  assumes lt_irrefl: "\<not> lt p p"
    and sorted: "inv i \<Longrightarrow> sorted_wrt lt (map fst (listing i))"
    and slots: "inv i \<Longrightarrow> distinct (map snd (listing i)) \<and> snd ` set (listing i) \<subseteq> {..<L}"
    and find_listing: "inv i \<Longrightarrow> find i p = map_of (listing i) p"
    and ins_new: "\<lbrakk>inv i; map_of (listing i) p = None; length (listing i) < L\<rbrakk> \<Longrightarrow>
      \<exists>i' s as bs. ins i p = Some (i', s) \<and> inv i' \<and> s < L \<and> s \<notin> snd ` set (listing i) \<and>
        listing i = as @ bs \<and> listing i' = as @ (p, s) # bs"
    and del_hit: "\<lbrakk>inv i; map_of (listing i) p = Some s\<rbrakk> \<Longrightarrow>
      \<exists>i'. del i p = Some (i', s) \<and> inv i' \<and> listing i' = filter (\<lambda>e. fst e \<noteq> p) (listing i)"
begin

lemma distinct_prices: "inv i \<Longrightarrow> distinct (map fst (listing i))"
proof -
  have "sorted_wrt lt ps \<Longrightarrow> distinct ps" for ps
    by (induction ps) (auto simp: lt_irrefl)
  then show "inv i \<Longrightarrow> distinct (map fst (listing i))" using sorted by blast
qed

lemma listed: "inv i \<Longrightarrow> map_of (listing i) p = Some s \<longleftrightarrow> (p, s) \<in> set (listing i)"
  by (simp add: distinct_prices)

lemma same_slot:
  assumes "inv i" "(p, s) \<in> set (listing i)" "(q, s) \<in> set (listing i)"
  shows "p = q"
proof -
  have "inj_on snd (set (listing i))" using slots [OF assms(1)] by (simp add: distinct_map)
  then have "(p, s) = (q, s)" using assms(2,3) by (metis inj_onD snd_conv)
  then show ?thesis by simp
qed

lemma find_ins:
  assumes "inv i" "find i p = None" "length (listing i) < L"
  shows "\<exists>i' s. ins i p = Some (i', s) \<and> inv i' \<and> find i' = (find i)(p := Some s)"
proof -
  obtain i' s as bs where n: "ins i p = Some (i', s)" "inv i'" "listing i = as @ bs"
      "listing i' = as @ (p, s) # bs"
    using ins_new [OF assms(1) _ assms(3)] assms(1,2) find_listing by metis
  have "p \<notin> fst ` set (as @ bs)"
    using assms(1,2) find_listing n(3) by (metis map_of_eq_None_iff)
  then have "map_of (listing i') = (map_of (listing i))(p := Some s)"
    unfolding n(3,4)
    by (intro ext) (auto simp: map_add_def split: option.splits dest: map_of_SomeD intro: rev_image_eqI)
  then have "find i' = (find i)(p := Some s)"
    using find_listing [OF assms(1)] find_listing [OF n(2)] by (intro ext) simp
  with n show ?thesis by blast
qed

lemma find_del:
  assumes "inv i" "find i p = Some s"
  shows "\<exists>i'. del i p = Some (i', s) \<and> inv i' \<and> find i' = (find i)(p := None)"
proof -
  obtain i' where d: "del i p = Some (i', s)" "inv i'" "listing i' = filter (\<lambda>e. fst e \<noteq> p) (listing i)"
    using del_hit [OF assms(1)] assms find_listing by metis
  have "map_of (filter (\<lambda>e. fst e \<noteq> p) es) = (map_of es)(p := None)" for es :: "('p \<times> nat) list"
    by (induction es) auto
  then have "find i' = (find i)(p := None)"
    using find_listing [OF assms(1)] find_listing [OF d(2)] d(3) by (intro ext) simp
  with d show ?thesis by blast
qed

end

interpretation ld: level_directory L "better d" "li_inv L d" iter "\<lambda>li p. li_find li p d"
    "\<lambda>li p. li_insert li p d" "\<lambda>li p. li_remove li p d"
  for L d
proof
  show "\<not> better d p p" for p by simp
  show "li_inv L d li \<Longrightarrow> sorted_wrt (better d) (map fst (iter li))" for li
    by (simp add: li_inv_def)
  show "li_inv L d li \<Longrightarrow> distinct (map snd (iter li)) \<and> snd ` set (iter li) \<subseteq> {..<L}" for li
    by (auto simp: li_inv_def)
  show "li_inv L d li \<Longrightarrow> li_find li p d = map_of (iter li) p" for li p
    by (rule li_find_map_of)
  show "\<exists>i' s as bs. li_insert li p d = Some (i', s) \<and> li_inv L d i' \<and> s < L \<and> s \<notin> snd ` set (iter li) \<and>
      iter li = as @ bs \<and> iter i' = as @ (p, s) # bs"
    if "li_inv L d li" "map_of (iter li) p = None" "length (iter li) < L" for li p
    using li_insert_iter [OF that] before_from_on [of d p "iter li"] by metis
  show "\<exists>i'. li_remove li p d = Some (i', s) \<and> li_inv L d i' \<and> iter i' = filter (\<lambda>e. fst e \<noteq> p) (iter li)"
    if "li_inv L d li" "map_of (iter li) p = Some s" for li p s
    by (rule li_remove_iter [OF that])
qed

section \<open>Properties\<close>

text \<open>
  The level index is a sorted directory: inserting a price that is not listed, while a level slot is
  free, adds exactly that price with an unused slot, keeps the entries strictly sorted best first
  and the slots partitioned, and removing the price again returns the same slot and restores the
  lookup.
\<close>

theorem level_index_insert_remove:
  assumes "li_inv L d li" "li_find li p d = None" "\<not> is_full li"
  shows "\<exists>li' i. li_insert li p d = Some (li', i) \<and> li_inv L d li' \<and> i < L \<and> i \<notin> snd ` set (iter li) \<and>
    (\<lambda>q. li_find li' q d) = (\<lambda>q. li_find li q d)(p := Some i) \<and>
    (\<exists>li''. li_remove li' p d = Some (li'', i) \<and> li_inv L d li'' \<and> iter li'' = iter li)"
proof -
  have room: "length (iter li) < L"
    using li_insert_full(1) [OF assms(1)] li_lengths [OF assms(1)] assms(3) by linarith
  have new: "map_of (iter li) p = None" using assms(1,2) li_find_map_of by metis
  obtain li' i where n: "li_insert li p d = Some (li', i)" "li_inv L d li'" "i < L" "i \<notin> snd ` set (iter li)"
      "iter li' = before d p (iter li) @ (p, i) # from_on d p (iter li)"
    using li_insert_iter [OF assms(1) new room] by blast
  have find: "(\<lambda>q. li_find li' q d) = (\<lambda>q. li_find li q d)(p := Some i)"
    using ld.find_ins [OF assms(1,2) room] n(1) by auto
  then have "map_of (iter li') p = Some i"
    using li_find_map_of [OF n(2)] by (metis fun_upd_same)
  then obtain li'' where r: "li_remove li' p d = Some (li'', i)" "li_inv L d li''"
      "iter li'' = filter (\<lambda>e. fst e \<noteq> p) (iter li')"
    using li_remove_iter [OF n(2)] by blast
  have "filter (\<lambda>e. fst e \<noteq> p) (iter li) = iter li"
    using new by (intro filter_True) (auto simp: map_of_eq_None_iff)
  moreover have "iter li'' = filter (\<lambda>e. fst e \<noteq> p) (before d p (iter li) @ from_on d p (iter li))"
    unfolding r(3) n(5) filter_append by simp
  ultimately have "iter li'' = iter li" by (simp only: before_from_on)
  with n find r show ?thesis by blast
qed

theorem level_index_insert_remove_witness:
  "\<exists>li' i. li_insert (level_index_new 3) 7 True = Some (li', i) \<and> li_inv 3 True li' \<and> i < 3"
  using level_index_insert_remove [of 3 True "level_index_new 3" 7] level_index_new_inv [of 3 True]
    li_find_map_of [of 3 True "level_index_new 3" 7]
  by (auto simp: is_full_def level_index_new_def)

end
