(* ===== verification/Book.thy ===== *)
theory Book
  imports Order_Index Price_Level Level_Index
begin

text \<open>
  The single-instrument order book of \<^verbatim>\<open>crates/hft-book/src/lib.rs\<close>: \<open>submit\<close> with its plan and
  its application, \<open>replace\<close> and \<open>cancel\<close>. \<open>L\<close> and \<open>K\<close> are the const generics \<open>LEVELS\<close> and
  \<open>ORDERS_PER_LEVEL\<close>. An operation has type \<open>(reject_reason + result) option\<close>: \<open>Inl\<close> is a
  rejection and \<open>None\<close> a panic (an \<open>expect\<close>, an \<open>unreachable!\<close> or an index out of range);
  the theory Book_Inv shows that no operation panics on a well-formed book. The \<open>debug_assert\<close>s
  have no effect on the state and are not modelled.
\<close>

section \<open>Plans\<close>

record cancelled_order =
  cd_order_id :: order_id
  cd_account_id :: account_id
  cd_quantity :: quantity

record replaced_order =
  rd_order_id :: order_id
  rd_account_id :: account_id
  rd_old_quantity :: quantity
  rd_new_quantity :: quantity
  rd_price :: price_ticks
  rd_priority_lost :: bool

record top_level_view =
  tl_price :: price_ticks
  tl_aggregate_quantity :: u128
  tl_order_count :: nat

record fill_entry =
  fe_level_index :: nat
  fe_slot :: nat
  fe_order_id :: order_id
  fe_price :: price_ticks
  fe_quantity :: quantity

text \<open>\<open>mp_fills\<close> is the used prefix \<open>fills[..fill_count]\<close> of the fixed array.\<close>

record match_plan =
  mp_fills :: "fill_entry list"
  mp_capacity :: nat
  mp_maker_side :: side
  mp_resting_quantity :: quantity
  mp_discarded :: u64

definition match_plan_new :: "nat \<Rightarrow> side \<Rightarrow> nat \<Rightarrow> match_plan" where
  "match_plan_new FILLS maker_side report_capacity =
     \<lparr>mp_fills = [], mp_capacity = min report_capacity FILLS, mp_maker_side = maker_side,
      mp_resting_quantity = 0, mp_discarded = 0\<rparr>"

definition push_fill :: "match_plan \<Rightarrow> fill_entry \<Rightarrow> reject_reason + match_plan" where
  "push_fill plan fill =
     (if length (mp_fills plan) \<ge> mp_capacity plan then Inl ReportCapacity
      else Inr (plan\<lparr>mp_fills := mp_fills plan @ [fill]\<rparr>))"

section \<open>The book\<close>

record order_book =
  ob_instrument :: instrument_id
  ob_bids :: "price_level option list"
  ob_asks :: "price_level option list"
  ob_index :: order_index
  ob_bid_levels :: level_index
  ob_ask_levels :: level_index

definition book_new :: "nat \<Rightarrow> nat \<Rightarrow> instrument_id \<Rightarrow> order_book" where
  "book_new L K instrument =
     \<lparr>ob_instrument = instrument, ob_bids = replicate L None, ob_asks = replicate L None,
      ob_index = order_index_new L K, ob_bid_levels = level_index_new L,
      ob_ask_levels = level_index_new L\<rparr>"

definition side_levels :: "order_book \<Rightarrow> side \<Rightarrow> price_level option list" where
  "side_levels book side = (case side of Buy \<Rightarrow> ob_bids book | Sell \<Rightarrow> ob_asks book)"

definition side_index :: "order_book \<Rightarrow> side \<Rightarrow> level_index" where
  "side_index book side = (case side of Buy \<Rightarrow> ob_bid_levels book | Sell \<Rightarrow> ob_ask_levels book)"

text \<open>Writes through \<open>side_levels_mut\<close> and \<open>side_index_mut\<close>.\<close>

definition set_level :: "order_book \<Rightarrow> side \<Rightarrow> nat \<Rightarrow> price_level option \<Rightarrow> order_book" where
  "set_level book side level_index level =
     (case side of
        Buy \<Rightarrow> book\<lparr>ob_bids := (ob_bids book)[level_index := level]\<rparr>
      | Sell \<Rightarrow> book\<lparr>ob_asks := (ob_asks book)[level_index := level]\<rparr>)"

definition set_side_index :: "order_book \<Rightarrow> side \<Rightarrow> level_index \<Rightarrow> order_book" where
  "set_side_index book side li =
     (case side of Buy \<Rightarrow> book\<lparr>ob_bid_levels := li\<rparr> | Sell \<Rightarrow> book\<lparr>ob_ask_levels := li\<rparr>)"

text \<open>\<open>self.side_levels(side)[level_index].as_ref()\<close>, as the callers unwrap it.\<close>

definition level_at :: "order_book \<Rightarrow> side \<Rightarrow> nat \<Rightarrow> price_level option" where
  "level_at book side level_index = Option.bind (get (side_levels book side) level_index) id"

definition top_level :: "order_book \<Rightarrow> side \<Rightarrow> top_level_view option" where
  "top_level book side =
     (case iter (side_index book side) of
        [] \<Rightarrow> None
      | (price, level_index) # _ \<Rightarrow>
          map_option (\<lambda>level. \<lparr>tl_price = price, tl_aggregate_quantity = pl_aggregate_quantity level,
                               tl_order_count = pl_len level\<rparr>)
            (level_at book side level_index))"

definition contains_order :: "nat \<Rightarrow> nat \<Rightarrow> order_book \<Rightarrow> order_id \<Rightarrow> bool" where
  "contains_order L K book order_id \<longleftrightarrow> index_location L K (ob_index book) order_id \<noteq> None"

definition locate :: "nat \<Rightarrow> nat \<Rightarrow> order_book \<Rightarrow> order_id \<Rightarrow> (order_location \<times> account_id) option" where
  "locate L K book order_id =
     Option.bind (index_location L K (ob_index book) order_id) (\<lambda>location.
     Option.bind (level_at book (ol_side location) (ol_level_index location)) (\<lambda>level.
     Option.bind (get_live level (ol_slot location)) (\<lambda>order.
       if rest_id order \<noteq> order_id then None else Some (location, rest_account_id order))))"

definition order_count :: "order_book \<Rightarrow> nat" where
  "order_count book =
     sum_list (map (\<lambda>level. case level of Some l \<Rightarrow> pl_len l | None \<Rightarrow> 0) (ob_bids book @ ob_asks book))"

section \<open>Planning\<close>

text \<open>
  The inner loop of \<open>build_plan\<close>: the walk along one level. Every round pushes a fill, so the
  free capacity of the plan bounds the rounds.
\<close>

function plan_level ::
  "price_level \<Rightarrow> nat \<Rightarrow> price_ticks \<Rightarrow> nat \<Rightarrow> u64 \<Rightarrow> match_plan
     \<Rightarrow> (reject_reason + u64 \<times> match_plan) option"
where
  "plan_level level level_index price cursor remaining plan =
     (if cursor = NIL \<or> remaining = 0 then Some (Inr (remaining, plan))
      else case get (pl_slots level) cursor of
          Some (Live maker) \<Rightarrow>
            let traded = min remaining (rest_quantity maker) in
            (case push_fill plan \<lparr>fe_level_index = level_index, fe_slot = cursor,
                   fe_order_id = rest_id maker, fe_price = price, fe_quantity = traded\<rparr> of
               Inl e \<Rightarrow> Some (Inl e)
             | Inr plan' \<Rightarrow> plan_level level level_index price (rest_next maker) (remaining - traded) plan')
        | _ \<Rightarrow> None)"
  by pat_completeness auto
termination
  by (relation "measure (\<lambda>(_, _, _, _, _, plan). mp_capacity plan - length (mp_fills plan))")
    (auto simp: push_fill_def split: if_splits)

declare plan_level.simps [simp del]

fun plan_levels ::
  "order_book \<Rightarrow> new_order \<Rightarrow> level_entry list \<Rightarrow> u64 \<Rightarrow> match_plan
     \<Rightarrow> (reject_reason + u64 \<times> match_plan) option"
where
  "plan_levels book order [] remaining plan = Some (Inr (remaining, plan))"
| "plan_levels book order ((price, level_index) # listed) remaining plan =
     (if remaining = 0 then Some (Inr (remaining, plan))
      else if \<not> crosses (no_side order) price (no_price order) then Some (Inr (remaining, plan))
      else case level_at book (mp_maker_side plan) level_index of
          None \<Rightarrow> None
        | Some level \<Rightarrow>
            (case plan_level level level_index price (pl_head level) remaining plan of
               None \<Rightarrow> None
             | Some (Inl e) \<Rightarrow> Some (Inl e)
             | Some (Inr (remaining', plan')) \<Rightarrow> plan_levels book order listed remaining' plan'))"

text \<open>The capacity preflight for the resting remainder of a \<open>Gtc\<close> or \<open>PostOnly\<close> order.\<close>

definition rest_preflight :: "nat \<Rightarrow> order_book \<Rightarrow> new_order \<Rightarrow> (reject_reason + unit) option" where
  "rest_preflight K book order =
     (let descending = (no_side order = Buy) in
      case li_find (side_index book (no_side order)) (no_price order) descending of
        Some level_index \<Rightarrow>
          (case level_at book (no_side order) level_index of
             None \<Rightarrow> None
           | Some level \<Rightarrow> Some (if pl_len level = K then Inl PriceLevelOrderCapacity else Inr ()))
      | None \<Rightarrow> Some (if is_full (side_index book (no_side order)) then Inl PriceLevelCapacity else Inr ()))"

definition post_only_would_trade :: "order_book \<Rightarrow> new_order \<Rightarrow> bool" where
  "post_only_would_trade book order \<longleftrightarrow>
     no_time_in_force order = PostOnly \<and>
     (case iter (side_index book (opposite (no_side order))) of
        [] \<Rightarrow> False
      | (best_price, _) # _ \<Rightarrow> crosses (no_side order) best_price (no_price order))"

definition build_plan ::
  "nat \<Rightarrow> nat \<Rightarrow> nat \<Rightarrow> order_book \<Rightarrow> new_order \<Rightarrow> nat \<Rightarrow> (reject_reason + match_plan) option"
where
  "build_plan L K REPORTS book order report_capacity =
     (if no_instrument_id order \<noteq> ob_instrument book then Some (Inl InvalidInstrument)
      else if sint (no_price order) \<le> 0 then Some (Inl InvalidPrice)
      else if no_quantity order = 0 then Some (Inl InvalidQuantity)
      else if contains_order L K book (no_order_id order) then Some (Inl DuplicateOrderId)
      else if post_only_would_trade book order then Some (Inl PostOnlyWouldTrade)
      else
        let maker_side = opposite (no_side order);
            plan = match_plan_new REPORTS maker_side report_capacity in
        case plan_levels book order (iter (side_index book maker_side)) (no_quantity order) plan of
          None \<Rightarrow> None
        | Some (Inl e) \<Rightarrow> Some (Inl e)
        | Some (Inr (remaining, plan)) \<Rightarrow>
            (case no_time_in_force order of
               Fok \<Rightarrow>
                 Some (if remaining > 0 then Inl InsufficientLiquidity
                       else Inr (plan\<lparr>mp_resting_quantity := remaining, mp_discarded := 0\<rparr>))
             | Ioc \<Rightarrow> Some (Inr (plan\<lparr>mp_resting_quantity := 0, mp_discarded := remaining\<rparr>))
             | _ \<Rightarrow>
                 if remaining > 0 then
                   (case rest_preflight K book order of
                      None \<Rightarrow> None
                    | Some (Inl e) \<Rightarrow> Some (Inl e)
                    | Some (Inr _) \<Rightarrow>
                        Some (Inr (plan\<lparr>mp_resting_quantity := remaining, mp_discarded := 0\<rparr>)))
                 else Some (Inr (plan\<lparr>mp_resting_quantity := remaining, mp_discarded := 0\<rparr>))))"

section \<open>Application\<close>

text \<open>The closure passed to \<open>remove_at\<close>: rewrite the handle of a moved entry's order.\<close>

definition update_reverse_slot :: "order_id \<Rightarrow> order_location \<Rightarrow> u32 \<Rightarrow> order_book \<Rightarrow> order_book" where
  "update_reverse_slot moved_id location new_slot book =
     (case level_at book (ol_side location) (ol_level_index location) of
        None \<Rightarrow> book
      | Some level \<Rightarrow>
          (case get_live level (ol_slot location) of
             None \<Rightarrow> book
           | Some resting \<Rightarrow>
               if rest_id resting \<noteq> moved_id then book
               else set_level book (ol_side location) (ol_level_index location)
                      (set_index_slot level (ol_slot location) new_slot)))"

definition remove_index_entry ::
  "nat \<Rightarrow> nat \<Rightarrow> order_book \<Rightarrow> u32 \<Rightarrow> order_id \<Rightarrow> (order_book \<times> order_location option) option"
where
  "remove_index_entry L K book index_slot order_id =
     map_option
       (\<lambda>(index, moves, location).
          (fold (\<lambda>(k, l, s). update_reverse_slot k l s) moves book\<lparr>ob_index := index\<rparr>, location))
       (remove_at L K (ob_index book) index_slot order_id)"

text \<open>Dropping a level that became empty: its slot is cleared and its price leaves the index.\<close>

definition drop_level :: "order_book \<Rightarrow> side \<Rightarrow> nat \<Rightarrow> price_ticks \<Rightarrow> order_book" where
  "drop_level book side level_index price =
     (let cleared = set_level book side level_index None in
      case li_remove (side_index cleared side) price (side = Buy) of
        None \<Rightarrow> cleared
      | Some (li, _) \<Rightarrow> set_side_index cleared side li)"

text \<open>
  \<open>unlink\<close> at a location followed by \<open>drop_level\<close> when the level is empty, the common tail of a
  full fill, of \<open>cancel\<close> and of a repricing \<open>replace\<close>.
\<close>

definition unlink_at :: "order_book \<Rightarrow> side \<Rightarrow> nat \<Rightarrow> nat \<Rightarrow> (order_book \<times> resting_order) option" where
  "unlink_at book side level_index slot =
     Option.bind (level_at book side level_index) (\<lambda>level.
     Option.bind (unlink level slot) (\<lambda>(level, removed).
       let book = set_level book side level_index (Some level) in
       Some (if pl_len level = 0 then drop_level book side level_index (pl_price level) else book,
             removed)))"

definition rest_at_tail ::
  "nat \<Rightarrow> nat \<Rightarrow> order_book \<Rightarrow> side \<Rightarrow> price_ticks \<Rightarrow> resting_order \<Rightarrow> order_book option"
where
  "rest_at_tail L K book side price resting =
     (let descending = (side = Buy) in
      case (case li_find (side_index book side) price descending of
              Some level_index \<Rightarrow> Some (book, level_index)
            | None \<Rightarrow>
                map_option
                  (\<lambda>(li, level_index).
                     (set_level (set_side_index book side li) side level_index
                        (Some (price_level_new K price)), level_index))
                  (li_insert (side_index book side) price descending)) of
        None \<Rightarrow> None
      | Some (book, level_index) \<Rightarrow>
          Option.bind (level_at book side level_index) (\<lambda>level.
          Option.bind (push_tail K level resting) (\<lambda>(level, slot).
            let location = \<lparr>ol_side = side, ol_level_index = level_index, ol_slot = slot\<rparr> in
            case index_insert L K (ob_index book) (rest_id resting) location of
              Inl _ \<Rightarrow> None
            | Inr (index, index_slot) \<Rightarrow>
                Option.bind (set_index_slot level slot index_slot) (\<lambda>level.
                  Some ((set_level book side level_index (Some level))\<lparr>ob_index := index\<rparr>)))))"

definition rest :: "nat \<Rightarrow> nat \<Rightarrow> order_book \<Rightarrow> new_order \<Rightarrow> quantity \<Rightarrow> order_book option" where
  "rest L K book order quantity =
     rest_at_tail L K book (no_side order) (no_price order)
       \<lparr>rest_id = no_order_id order, rest_account_id = no_account_id order, rest_index_slot = 0,
        rest_quantity = quantity, rest_sequence = no_sequence order, rest_prev = NIL, rest_next = NIL\<rparr>"

text \<open>One round of the loop of \<open>apply_plan\<close>.\<close>

definition apply_fill ::
  "nat \<Rightarrow> nat \<Rightarrow> new_order \<Rightarrow> side \<Rightarrow> fill_entry \<Rightarrow> order_book \<Rightarrow> report_buffer
     \<Rightarrow> (order_book \<times> report_buffer) option"
where
  "apply_fill L K order maker_side fill book reports =
     Option.bind (level_at book maker_side (fe_level_index fill)) (\<lambda>level.
     Option.bind (get_live level (fe_slot fill)) (\<lambda>maker.
       case report_buffer_push reports
              \<lparr>er_maker_order_id = fe_order_id fill, er_taker_order_id = no_order_id order,
               er_instrument_id = no_instrument_id order, er_price = fe_price fill,
               er_quantity = fe_quantity fill, er_sequence = no_sequence order\<rparr> of
         Inl _ \<Rightarrow> None
       | Inr reports \<Rightarrow>
           if rest_quantity maker = fe_quantity fill then
             Option.bind (remove_index_entry L K book (rest_index_slot maker) (fe_order_id fill))
               (\<lambda>(book, _).
             Option.bind (unlink_at book maker_side (fe_level_index fill) (fe_slot fill))
               (\<lambda>(book, _). Some (book, reports)))
           else
             Option.bind (reduce_quantity level (fe_slot fill) (fe_quantity fill)) (\<lambda>level.
               Some (set_level book maker_side (fe_level_index fill) (Some level), reports))))"

fun apply_fills ::
  "nat \<Rightarrow> nat \<Rightarrow> new_order \<Rightarrow> side \<Rightarrow> fill_entry list \<Rightarrow> order_book \<Rightarrow> report_buffer
     \<Rightarrow> (order_book \<times> report_buffer) option"
where
  "apply_fills L K order maker_side [] book reports = Some (book, reports)"
| "apply_fills L K order maker_side (fill # fills) book reports =
     Option.bind (apply_fill L K order maker_side fill book reports) (\<lambda>(book, reports).
       apply_fills L K order maker_side fills book reports)"

definition apply_plan ::
  "nat \<Rightarrow> nat \<Rightarrow> order_book \<Rightarrow> new_order \<Rightarrow> match_plan \<Rightarrow> report_buffer
     \<Rightarrow> (order_book \<times> report_buffer) option"
where
  "apply_plan L K book order plan reports =
     Option.bind (apply_fills L K order (mp_maker_side plan) (mp_fills plan) book reports)
       (\<lambda>(book, reports).
          if mp_resting_quantity plan > 0
          then map_option (\<lambda>book. (book, reports)) (rest L K book order (mp_resting_quantity plan))
          else Some (book, reports))"

definition submit ::
  "nat \<Rightarrow> nat \<Rightarrow> order_book \<Rightarrow> new_order \<Rightarrow> report_buffer
     \<Rightarrow> (reject_reason + order_book \<times> report_buffer \<times> match_summary) option"
where
  "submit L K book order reports =
     (case build_plan L K (length (rb_entries reports)) book order
             (report_buffer_remaining_capacity reports) of
        None \<Rightarrow> None
      | Some (Inl e) \<Rightarrow> Some (Inl e)
      | Some (Inr plan) \<Rightarrow>
          Option.bind (apply_plan L K book order plan reports) (\<lambda>(book', reports').
            let filled = no_quantity order - mp_resting_quantity plan - mp_discarded plan;
                state = (if filled = no_quantity order then Filled
                         else if filled = 0 then Accepted else PartiallyFilled)
            in Some (Inr (book', reports',
                 \<lparr>ms_state = state, ms_filled_quantity = filled,
                  ms_resting_quantity = mp_resting_quantity plan,
                  ms_discarded_quantity = mp_discarded plan,
                  ms_report_count = rb_len reports' - rb_len reports\<rparr>))))"

section \<open>Replace and cancel\<close>

text \<open>The crossing and capacity preflight of a \<open>replace\<close> that loses priority.\<close>

definition replace_preflight ::
  "nat \<Rightarrow> nat \<Rightarrow> order_book \<Rightarrow> replace_order \<Rightarrow> order_location \<Rightarrow> price_ticks
     \<Rightarrow> (reject_reason + unit) option"
where
  "replace_preflight L K book cmd location old_price =
     (let side = ol_side location in
      if ro_price cmd \<noteq> old_price \<and>
         (case iter (side_index book (opposite side)) of
            [] \<Rightarrow> False
          | (best_price, _) # _ \<Rightarrow> crosses side best_price (ro_price cmd))
      then Some (Inl ReplaceWouldCross)
      else
        case li_find (side_index book side) (ro_price cmd) (side = Buy) of
          Some level_index \<Rightarrow>
            (case level_at book side level_index of
               None \<Rightarrow> None
             | Some dest \<Rightarrow>
                 let same_level = (level_index = ol_level_index location \<and> ro_price cmd = old_price) in
                 Some (if pl_len dest = K \<and> \<not> same_level then Inl PriceLevelOrderCapacity else Inr ()))
        | None \<Rightarrow>
            (case level_at book side (ol_level_index location) of
               None \<Rightarrow> None
             | Some source \<Rightarrow>
                 let source_empties = (pl_len source = 1);
                     free_levels = L - length (iter (side_index book side)) in
                 Some (if free_levels = 0 \<and> \<not> source_empties then Inl PriceLevelCapacity else Inr ())))"

definition replace ::
  "nat \<Rightarrow> nat \<Rightarrow> order_book \<Rightarrow> replace_order \<Rightarrow> (reject_reason + order_book \<times> replaced_order) option"
where
  "replace L K book cmd =
     (if ro_instrument_id cmd \<noteq> ob_instrument book then Some (Inl InvalidInstrument)
      else case locate L K book (ro_order_id cmd) of
        None \<Rightarrow> Some (Inl UnknownOrder)
      | Some (location, owner) \<Rightarrow>
          if owner \<noteq> ro_account_id cmd then Some (Inl NotOrderOwner)
          else if sint (ro_price cmd) \<le> 0 then Some (Inl InvalidPrice)
          else if ro_quantity cmd = 0 then Some (Inl InvalidQuantity)
          else
            Option.bind (level_at book (ol_side location) (ol_level_index location)) (\<lambda>level.
            Option.bind (get_live level (ol_slot location)) (\<lambda>old.
              let old_price = pl_price level;
                  replaced = (\<lambda>priority_lost.
                    \<lparr>rd_order_id = ro_order_id cmd, rd_account_id = ro_account_id cmd,
                     rd_old_quantity = rest_quantity old, rd_new_quantity = ro_quantity cmd,
                     rd_price = ro_price cmd, rd_priority_lost = priority_lost\<rparr>) in
              if ro_price cmd = old_price \<and> ro_quantity cmd < rest_quantity old then
                Option.bind (reduce_quantity level (ol_slot location)
                    (rest_quantity old - ro_quantity cmd)) (\<lambda>level.
                  Some (Inr (set_level book (ol_side location) (ol_level_index location) (Some level),
                             replaced False)))
              else
                case replace_preflight L K book cmd location old_price of
                  None \<Rightarrow> None
                | Some (Inl e) \<Rightarrow> Some (Inl e)
                | Some (Inr _) \<Rightarrow>
                    Option.bind (unlink_at book (ol_side location) (ol_level_index location)
                        (ol_slot location)) (\<lambda>(book, removed).
                    Option.bind (remove_index_entry L K book (rest_index_slot removed)
                        (ro_order_id cmd)) (\<lambda>(book, _).
                      map_option (\<lambda>book. Inr (book, replaced True))
                        (rest_at_tail L K book (ol_side location) (ro_price cmd)
                          \<lparr>rest_id = ro_order_id cmd, rest_account_id = ro_account_id cmd,
                           rest_index_slot = 0, rest_quantity = ro_quantity cmd,
                           rest_sequence = ro_sequence cmd, rest_prev = NIL, rest_next = NIL\<rparr>))))))"

definition cancel ::
  "nat \<Rightarrow> nat \<Rightarrow> order_book \<Rightarrow> cancel_order \<Rightarrow> (reject_reason + order_book \<times> cancelled_order) option"
where
  "cancel L K book cmd =
     (if co_instrument_id cmd \<noteq> ob_instrument book then Some (Inl InvalidInstrument)
      else case locate L K book (co_order_id cmd) of
        None \<Rightarrow> Some (Inl UnknownOrder)
      | Some (location, owner) \<Rightarrow>
          if owner \<noteq> co_account_id cmd then Some (Inl NotOrderOwner)
          else
            Option.bind (unlink_at book (ol_side location) (ol_level_index location)
                (ol_slot location)) (\<lambda>(book, removed).
            Option.bind (remove_index_entry L K book (rest_index_slot removed) (co_order_id cmd))
              (\<lambda>(book, _).
                Some (Inr (book, \<lparr>cd_order_id = rest_id removed, cd_account_id = rest_account_id removed,
                                  cd_quantity = rest_quantity removed\<rparr>)))))"

end
