(* ===== verification/Book_Side.thy ===== *)
theory Book_Side
  imports Book
begin

text \<open>
  One side of the book as a priority list. A side is the array of levels together with its sorted
  level index; \<open>rows\<close> reads it back as one list of \<open>(price, level, slot, order)\<close>, best price
  first and in FIFO order inside a price. Every change the book makes to a side is one of five
  steps, and each is a simple change of the rows: an order is written in place, removed (its level
  surviving or not), or appended at the end of its price (its level existing or new).
\<close>

section \<open>Rows of a side\<close>

type_synonym row = "price_ticks \<times> nat \<times> nat \<times> resting_order"

abbreviation row_price :: "row \<Rightarrow> price_ticks" where "row_price r \<equiv> fst r"
abbreviation row_order :: "row \<Rightarrow> resting_order" where "row_order r \<equiv> snd (snd (snd r))"

definition lvl :: "price_level option list \<Rightarrow> nat \<Rightarrow> price_level option" where
  "lvl levels i = Option.bind (get levels i) id"

definition level_rows :: "price_ticks \<Rightarrow> nat \<Rightarrow> price_level \<Rightarrow> row list" where
  "level_rows p i l = map (\<lambda>s. (p, i, s, the (live_data l s))) (walk l)"

definition rows_of :: "price_level option list \<Rightarrow> level_entry list \<Rightarrow> row list" where
  "rows_of levels es =
     concat (map (\<lambda>(p, i). case lvl levels i of None \<Rightarrow> [] | Some l \<Rightarrow> level_rows p i l) es)"

definition side_ok :: "nat \<Rightarrow> nat \<Rightarrow> bool \<Rightarrow> price_level option list \<Rightarrow> level_index \<Rightarrow> bool" where
  "side_ok L K d levels li \<longleftrightarrow>
     length levels = L \<and> li_inv L d li \<and> K < NIL \<and>
     (\<forall>i < L. levels ! i \<noteq> None \<longrightarrow> i \<in> snd ` set (iter li)) \<and>
     (\<forall>(p, i) \<in> set (iter li). case lvl levels i of
        None \<Rightarrow> False
      | Some l \<Rightarrow> pl_price l = p \<and> level_inv K l \<and> walk l \<noteq> [])"

definition lookup :: "price_level option list \<Rightarrow> nat \<Rightarrow> nat \<Rightarrow> resting_order option" where
  "lookup levels i s = Option.bind (lvl levels i) (\<lambda>l. live_data l s)"

lemma lvl_update: "lvl (levels[i := x]) j = (if j = i \<and> i < length levels then x else lvl levels j)"
  by (auto simp: lvl_def get_update simp del: get_Some)

lemma lvl_Some: "lvl levels i = Some l \<longleftrightarrow> i < length levels \<and> levels ! i = Some l"
  by (auto simp: lvl_def bind_eq_Some_conv)

lemma rows_of_simps [simp]:
  "rows_of levels [] = []"
  "rows_of levels ((p, i) # es) = (case lvl levels i of None \<Rightarrow> [] | Some l \<Rightarrow> level_rows p i l) @ rows_of levels es"
  "rows_of levels (as @ bs) = rows_of levels as @ rows_of levels bs"
  by (simp_all add: rows_of_def)

lemma rows_of_cong:
  "\<lbrakk>\<And>i. i \<in> snd ` set es \<Longrightarrow> lvl levels' i = lvl levels i\<rbrakk> \<Longrightarrow> rows_of levels' es = rows_of levels es"
  by (induction es) (auto split: option.splits)

lemma rows_of_update [simp]:
  "i \<notin> snd ` set es \<Longrightarrow> rows_of (levels[i := x]) es = rows_of levels es"
  by (rule rows_of_cong) (auto simp: lvl_update)

lemma set_rows_of: "r \<in> set (rows_of levels es) \<Longrightarrow>
  \<exists>p i l s. r = (p, i, s, the (live_data l s)) \<and> (p, i) \<in> set es \<and> lvl levels i = Some l \<and> s \<in> set (walk l)"
proof (induction es)
  case (Cons e es)
  obtain p i where e: "e = (p, i)" by (cases e)
  from Cons.prems consider "r \<in> set (case lvl levels i of None \<Rightarrow> [] | Some l \<Rightarrow> level_rows p i l)"
    | "r \<in> set (rows_of levels es)" unfolding e by auto
  then show ?case
  proof cases
    case 1
    then obtain l where "lvl levels i = Some l" "r \<in> set (level_rows p i l)"
      by (cases "lvl levels i") auto
    then show ?thesis unfolding e by (auto simp: level_rows_def)
  next
    case 2
    then obtain q j l s where "r = (q, j, s, the (live_data l s))" "(q, j) \<in> set es" "lvl levels j = Some l" "s \<in> set (walk l)"
      using Cons.IH by blast
    then show ?thesis by (intro exI [of _ q] exI [of _ j] exI [of _ l] exI [of _ s]) simp
  qed
qed simp

lemma side_okD:
  assumes "side_ok L K d levels li"
  shows "length levels = L" "li_inv L d li" "K < NIL"
    "lvl levels i = Some l \<Longrightarrow> (pl_price l, i) \<in> set (iter li) \<and> level_inv K l \<and> walk l \<noteq> []"
    "(p, i) \<in> set (iter li) \<Longrightarrow> i < L \<and> (\<exists>l. lvl levels i = Some l \<and> pl_price l = p \<and> level_inv K l \<and> walk l \<noteq> [])"
proof -
  note ok = assms [unfolded side_ok_def]
  show "length levels = L" "li_inv L d li" "K < NIL" using ok by auto
  have listed: "i < L \<and> (\<exists>l. lvl levels i = Some l \<and> pl_price l = p \<and> level_inv K l \<and> walk l \<noteq> [])"
    if "(p, i) \<in> set (iter li)" for p i
  proof -
    have "case lvl levels i of None \<Rightarrow> False | Some l \<Rightarrow> pl_price l = p \<and> level_inv K l \<and> walk l \<noteq> []"
      using ok that by blast
    moreover have "i < L" using ld.slots [of L d li] ok that by force
    ultimately show ?thesis by (auto split: option.splits)
  qed
  then show "(p, i) \<in> set (iter li) \<Longrightarrow> i < L \<and>
      (\<exists>l. lvl levels i = Some l \<and> pl_price l = p \<and> level_inv K l \<and> walk l \<noteq> [])" .
  show "lvl levels i = Some l \<Longrightarrow> (pl_price l, i) \<in> set (iter li) \<and> level_inv K l \<and> walk l \<noteq> []"
  proof -
    assume l: "lvl levels i = Some l"
    then obtain p where "(p, i) \<in> set (iter li)" using ok by (force simp: lvl_Some)
    with listed [of p i] l show ?thesis by auto
  qed
qed

text \<open>A listed level splits the rows of its side.\<close>

lemma rows_split:
  assumes ok: "side_ok L K d levels li" and l: "lvl levels i = Some l"
  shows "\<exists>as bs. iter li = as @ (pl_price l, i) # bs \<and> i \<notin> snd ` set as \<and> i \<notin> snd ` set bs \<and>
    rows_of levels (iter li) = rows_of levels as @ level_rows (pl_price l) i l @ rows_of levels bs"
proof -
  obtain as bs where it: "iter li = as @ (pl_price l, i) # bs"
    using side_okD(4) [OF ok l] by (meson split_list)
  have "distinct (map snd (iter li))" using ld.slots [OF side_okD(2) [OF ok]] by blast
  then have "i \<notin> snd ` set as" "i \<notin> snd ` set bs" unfolding it by auto
  with it l show ?thesis by auto
qed

lemma rows_lookup:
  assumes ok: "side_ok L K d levels li"
  shows "(p, i, s, w) \<in> set (rows_of levels (iter li)) \<longleftrightarrow>
    lookup levels i s = Some w \<and> (\<exists>l. lvl levels i = Some l \<and> pl_price l = p)"
proof
  assume "(p, i, s, w) \<in> set (rows_of levels (iter li))"
  then obtain l where l: "w = the (live_data l s)" "(p, i) \<in> set (iter li)" "lvl levels i = Some l" "s \<in> set (walk l)"
    using set_rows_of by fastforce
  with side_okD(5) [OF ok l(2)] have "level_inv K l" "pl_price l = p" by auto
  moreover from this(1) l(4) have "live_data l s \<noteq> None" using lv.fifo_data by blast
  ultimately show "lookup levels i s = Some w \<and> (\<exists>l. lvl levels i = Some l \<and> pl_price l = p)"
    using l by (auto simp: lookup_def)
next
  assume "lookup levels i s = Some w \<and> (\<exists>l. lvl levels i = Some l \<and> pl_price l = p)"
  then obtain l where l: "lvl levels i = Some l" "pl_price l = p" "live_data l s = Some w"
    by (auto simp: lookup_def)
  then have "s \<in> set (walk l)" using side_okD(4) [OF ok l(1)] lv.fifo_data [of K l s] by auto
  with l have "(p, i, s, w) \<in> set (level_rows p i l)" by (force simp: level_rows_def)
  with rows_split [OF ok l(1)] l(2) show "(p, i, s, w) \<in> set (rows_of levels (iter li))" by auto
qed

lemma lookup_update:
  "i < length levels \<Longrightarrow> lookup (levels[i := Some l]) j s = (if j = i then live_data l s else lookup levels j s)"
  "i < length levels \<Longrightarrow> lookup (levels[i := None]) j s = (if j = i then None else lookup levels j s)"
  by (simp_all add: lookup_def lvl_update)

section \<open>Steps on a side\<close>

definition drop_row :: "nat \<Rightarrow> nat \<Rightarrow> row list \<Rightarrow> row list" where
  "drop_row i s = filter (\<lambda>(_, j, t, _). (j, t) \<noteq> (i, s))"

definition write_row :: "nat \<Rightarrow> nat \<Rightarrow> resting_order \<Rightarrow> row list \<Rightarrow> row list" where
  "write_row i s w' = map (\<lambda>(p, j, t, w). (p, j, t, if (j, t) = (i, s) then w' else w))"

lemma row_level_other:
  assumes "i \<notin> snd ` set es" "(p, j, s, w) \<in> set (rows_of levels es)"
  shows "j \<noteq> i"
  using set_rows_of [OF assms(2)] assms(1) by (auto simp: image_iff)

lemma drop_row_append [simp]: "drop_row i s (as @ bs) = drop_row i s as @ drop_row i s bs"
  by (simp add: drop_row_def)

lemma write_row_append [simp]: "write_row i s w (as @ bs) = write_row i s w as @ write_row i s w bs"
  by (simp add: write_row_def)

lemma drop_row_other: "i \<notin> snd ` set es \<Longrightarrow> drop_row i s (rows_of levels es) = rows_of levels es"
  unfolding drop_row_def by (rule filter_True) (auto dest: row_level_other)

lemma write_row_other: "i \<notin> snd ` set es \<Longrightarrow> write_row i s w (rows_of levels es) = rows_of levels es"
  unfolding write_row_def by (rule map_idI) (auto dest: row_level_other)

lemma side_set_level:
  assumes ok: "side_ok L K d levels li" and l: "lvl levels i = Some l"
    and l': "level_inv K l'" "walk l' \<noteq> []" "pl_price l' = pl_price l"
  shows "side_ok L K d (levels[i := Some l']) li"
proof -
  note o = side_okD [OF ok]
  have i: "i < length levels" using l by (simp add: lvl_Some)
  show ?thesis
    unfolding side_ok_def
  proof (intro conjI ballI allI impI)
    fix e
    assume e: "e \<in> set (iter li)"
    obtain p j where pj: "e = (p, j)" by (cases e)
    show "case e of (p, i') \<Rightarrow> case lvl (levels[i := Some l']) i' of
        None \<Rightarrow> False | Some l \<Rightarrow> pl_price l = p \<and> level_inv K l \<and> walk l \<noteq> []"
      using o(5) [of p j] e pj l l' i by (cases "j = i") (auto simp: lvl_update)
  next
    fix j
    assume "j < L" "(levels[i := Some l']) ! j \<noteq> None"
    then show "j \<in> snd ` set (iter li)"
      using o(1) o(4) [OF l] o(4) [of j] by (cases "j = i") (force simp: lvl_Some)+
  qed (use o in simp_all)
qed

text \<open>An order is written in place.\<close>

lemma side_write:
  assumes ok: "side_ok L K d levels li" and l: "lvl levels i = Some l" and s: "live_data l s = Some w"
    and l': "level_inv K l'" "walk l' = walk l" "pl_price l' = pl_price l"
      "live_data l' = (live_data l)(s := Some w')"
  shows "side_ok L K d (levels[i := Some l']) li"
    and "rows_of (levels[i := Some l']) (iter li) =
      write_row i s w' (rows_of levels (iter li))"
    and "lookup (levels[i := Some l']) j t = (if (j, t) = (i, s) then Some w' else lookup levels j t)"
proof -
  have i: "i < length levels" using l by (simp add: lvl_Some)
  note o = side_okD [OF ok]
  have ne: "walk l' \<noteq> []" using l' o(4) [OF l] by simp
  show "side_ok L K d (levels[i := Some l']) li" by (rule side_set_level [OF ok l l'(1) ne l'(3)])
  obtain as bs where sp: "iter li = as @ (pl_price l, i) # bs" "i \<notin> snd ` set as" "i \<notin> snd ` set bs"
    using rows_split [OF ok l] by blast
  have "level_rows (pl_price l) i l' =
      write_row i s w' (level_rows (pl_price l) i l)"
    using l'(2,4) by (simp add: level_rows_def write_row_def)
  then show "rows_of (levels[i := Some l']) (iter li) =
      write_row i s w' (rows_of levels (iter li))"
    using sp l i by (simp add: lvl_update write_row_other)
  show "lookup (levels[i := Some l']) j t = (if (j, t) = (i, s) then Some w' else lookup levels j t)"
    using i l l'(4) by (auto simp: lvl_update lookup_def)
qed

lemma level_rows_del:
  assumes "level_inv K l" "walk l' = remove1 s (walk l)" "live_data l' = (live_data l)(s := None)"
  shows "level_rows p i l' = drop_row i s (level_rows p i l)"
proof -
  have "walk l' = filter (\<lambda>t. t \<noteq> s) (walk l)"
    using assms(2) lv.fifo_distinct [OF assms(1)]
    by (simp add: distinct_remove1_removeAll removeAll_filter_not_eq eq_commute)
  then show ?thesis
    using assms(3) by (auto simp: level_rows_def drop_row_def filter_map o_def intro!: map_cong)
qed

text \<open>An order leaves a level that keeps others.\<close>

lemma side_unlink:
  assumes ok: "side_ok L K d levels li" and l: "lvl levels i = Some l" and s: "live_data l s = Some w"
    and l': "level_inv K l'" "walk l' = remove1 s (walk l)" "pl_price l' = pl_price l"
      "live_data l' = (live_data l)(s := None)" "walk l' \<noteq> []"
  shows "side_ok L K d (levels[i := Some l']) li"
    and "rows_of (levels[i := Some l']) (iter li) =
      drop_row i s (rows_of levels (iter li))"
    and "lookup (levels[i := Some l']) j t = (if (j, t) = (i, s) then None else lookup levels j t)"
proof -
  have i: "i < length levels" using l by (simp add: lvl_Some)
  note o = side_okD [OF ok]
  have ne: "walk l' \<noteq> []" using l' o(4) [OF l] by simp
  show "side_ok L K d (levels[i := Some l']) li" by (rule side_set_level [OF ok l l'(1) ne l'(3)])
  obtain as bs where sp: "iter li = as @ (pl_price l, i) # bs" "i \<notin> snd ` set as" "i \<notin> snd ` set bs"
    using rows_split [OF ok l] by blast
  show "rows_of (levels[i := Some l']) (iter li) =
      drop_row i s (rows_of levels (iter li))"
    using sp l i l' o(4) [OF l] level_rows_del [of K l l' s "pl_price l" i]
    by (simp add: lvl_update drop_row_other)
  show "lookup (levels[i := Some l']) j t = (if (j, t) = (i, s) then None else lookup levels j t)"
    using i l l'(4) by (auto simp: lvl_update lookup_def)
qed

text \<open>The last order of a level leaves and the level goes.\<close>

lemma side_drop:
  assumes ok: "side_ok L K d levels li" and l: "lvl levels i = Some l" and s: "walk l = [s]"
  shows "\<exists>li'. li_remove li (pl_price l) d = Some (li', i) \<and> side_ok L K d (levels[i := None]) li' \<and>
    rows_of (levels[i := None]) (iter li') = drop_row i s (rows_of levels (iter li)) \<and>
    lookup (levels[i := None]) j t = (if (j, t) = (i, s) then None else lookup levels j t)"
proof -
  have i: "i < length levels" using l by (simp add: lvl_Some)
  note o = side_okD [OF ok]
  obtain as bs where sp: "iter li = as @ (pl_price l, i) # bs" "i \<notin> snd ` set as" "i \<notin> snd ` set bs"
      "rows_of levels (iter li) = rows_of levels as @ level_rows (pl_price l) i l @ rows_of levels bs"
    using rows_split [OF ok l] by blast
  have dp: "distinct (map fst (iter li))" by (rule ld.distinct_prices [OF o(2)])
  have "map_of (iter li) (pl_price l) = Some i" using o(4) [OF l] dp by simp
  then obtain li' where li': "li_remove li (pl_price l) d = Some (li', i)" "li_inv L d li'"
      "iter li' = filter (\<lambda>e. fst e \<noteq> pl_price l) (iter li)"
    using li_remove_iter [OF o(2)] by blast
  have "pl_price l \<notin> fst ` set (as @ bs)" using dp unfolding sp(1) by auto
  then have "filter (\<lambda>e. fst e \<noteq> pl_price l) (as @ bs) = as @ bs"
    by (intro filter_True) force
  then have it: "iter li' = as @ bs"
    unfolding li'(3) sp(1) by simp
  have "side_ok L K d (levels[i := None]) li'"
    unfolding side_ok_def
  proof (intro conjI ballI allI impI)
    fix e
    assume e: "e \<in> set (iter li')"
    obtain p j where pj: "e = (p, j)" by (cases e)
    have "j \<noteq> i" using e pj sp(2,3) unfolding it by force
    moreover have "(p, j) \<in> set (iter li)" using e pj unfolding it sp(1) by auto
    ultimately show "case e of (p, i') \<Rightarrow> case lvl (levels[i := None]) i' of
        None \<Rightarrow> False | Some l \<Rightarrow> pl_price l = p \<and> level_inv K l \<and> walk l \<noteq> []"
      using o(5) [of p j] pj by (auto simp: lvl_update)
  next
    fix j
    assume j: "j < L" "(levels[i := None]) ! j \<noteq> None"
    then have "j \<noteq> i" using i by auto
    moreover have "j \<in> snd ` set (iter li)"
      using o(1) o(4) [of j] j calculation by (force simp: lvl_Some)
    ultimately show "j \<in> snd ` set (iter li')" unfolding it sp(1) by auto
  qed (use o li' in simp_all)
  moreover have "rows_of (levels[i := None]) (iter li') =
      drop_row i s (rows_of levels (iter li))"
  proof -
    have "drop_row i s (level_rows (pl_price l) i l) = []"
      using s by (simp add: level_rows_def drop_row_def)
    then show ?thesis unfolding it sp(4) using sp(2,3) by (simp add: drop_row_other)
  qed
  moreover have "live_data l t = None" if "t \<noteq> s" for t
    using lv.fifo_data [of K l t] o(4) [OF l] s that by auto
  then have "lookup (levels[i := None]) j t = (if (j, t) = (i, s) then None else lookup levels j t)"
    using i l by (auto simp: lvl_update lookup_def)
  ultimately show ?thesis using li'(1) by blast
qed

lemma rows_of_prices: "q \<in> set (rows_of levels es) \<Longrightarrow> fst q \<in> fst ` set es"
  using set_rows_of [of q levels es] by force

text \<open>An order joins the tail of an existing level.\<close>

lemma side_push:
  assumes ok: "side_ok L K d levels li" and l: "lvl levels i = Some l"
    and l': "level_inv K l'" "walk l' = walk l @ [s]" "pl_price l' = pl_price l"
      "live_data l' = (live_data l)(s := Some w)" "live_data l s = None"
  shows "side_ok L K d (levels[i := Some l']) li"
    and "rows_of (levels[i := Some l']) (iter li) = insert_row d (pl_price l, i, s, w) (rows_of levels (iter li))"
    and "lookup (levels[i := Some l']) j t = (if (j, t) = (i, s) then Some w else lookup levels j t)"
proof -
  have i: "i < length levels" using l by (simp add: lvl_Some)
  note o = side_okD [OF ok]
  show "side_ok L K d (levels[i := Some l']) li"
    by (rule side_set_level [OF ok l l'(1) _ l'(3)]) (simp add: l'(2))
  obtain as bs where sp: "iter li = as @ (pl_price l, i) # bs" "i \<notin> snd ` set as" "i \<notin> snd ` set bs"
      "rows_of levels (iter li) = rows_of levels as @ level_rows (pl_price l) i l @ rows_of levels bs"
    using rows_split [OF ok l] by blast
  have "s \<notin> set (walk l)" using lv.fifo_data [of K l s] o(4) [OF l] l'(5) by auto
  then have lr: "level_rows (pl_price l) i l' = level_rows (pl_price l) i l @ [(pl_price l, i, s, w)]"
    using l'(2,4) by (auto simp: level_rows_def)
  have srt: "sorted_wrt (better d) (map fst (as @ (pl_price l, i) # bs))"
    using ld.sorted [OF o(2)] sp(1) by simp
  have "\<forall>q \<in> set (rows_of levels as). \<not> better d (pl_price l) (fst q)"
    using srt rows_of_prices [of _ levels as] by (force simp: sorted_wrt_append dest: better_antisym)
  moreover have "\<forall>q \<in> set (level_rows (pl_price l) i l). \<not> better d (pl_price l) (fst q)"
    by (auto simp: level_rows_def)
  moreover have "\<forall>q \<in> set (rows_of levels bs). better d (pl_price l) (fst q)"
    using srt rows_of_prices [of _ levels bs] by (force simp: sorted_wrt_append)
  ultimately have "insert_row d (pl_price l, i, s, w) ((rows_of levels as @ level_rows (pl_price l) i l) @ rows_of levels bs)
      = (rows_of levels as @ level_rows (pl_price l) i l) @ (pl_price l, i, s, w) # rows_of levels bs"
    by (intro insert_row_split) auto
  then show "rows_of (levels[i := Some l']) (iter li) = insert_row d (pl_price l, i, s, w) (rows_of levels (iter li))"
    unfolding sp(4) unfolding sp(1) using sp(2,3) i lr by (simp add: lvl_update)
  show "lookup (levels[i := Some l']) j t = (if (j, t) = (i, s) then Some w else lookup levels j t)"
    using i l l'(4) by (auto simp: lvl_update lookup_def)
qed

text \<open>An order opens a new level.\<close>

lemma side_open:
  assumes ok: "side_ok L K d levels li" and new: "li_find li p d = None" and room: "length (iter li) < L"
  shows "\<exists>li' i. li_insert li p d = Some (li', i) \<and> i < L \<and> lvl levels i = None \<and>
    (\<forall>l' s w. level_inv K l' \<longrightarrow> walk l' = [s] \<longrightarrow> pl_price l' = p \<longrightarrow> live_data l' = (\<lambda>_. None)(s := Some w) \<longrightarrow>
       side_ok L K d (levels[i := Some l']) li' \<and>
       rows_of (levels[i := Some l']) (iter li') = insert_row d (p, i, s, w) (rows_of levels (iter li)) \<and>
       (\<forall>j t. lookup (levels[i := Some l']) j t = (if (j, t) = (i, s) then Some w else lookup levels j t)))"
proof -
  note o = side_okD [OF ok]
  have new': "map_of (iter li) p = None" using new li_find_map_of [OF o(2)] by metis
  let ?as = "before d p (iter li)" and ?bs = "from_on d p (iter li)"
  obtain li' i where li': "li_insert li p d = Some (li', i)" "li_inv L d li'" "i < L" "i \<notin> snd ` set (iter li)"
      "iter li' = ?as @ (p, i) # ?bs"
    using li_insert_iter [OF o(2) new' room] by blast
  have ab: "set ?as \<union> set ?bs = set (iter li)" by (metis before_from_on set_append)
  have listed': "set (iter li') = insert (p, i) (set (iter li))" unfolding li'(5) ab [symmetric] by auto
  have i: "lvl levels i = None" using o(4) [of i] li'(4) by (cases "lvl levels i") force+
  have srt: "sorted_wrt (better d) (map fst (?as @ (p, i) # ?bs))"
    using ld.sorted [OF li'(2)] li'(5) by simp
  {
    fix l' s w
    assume l': "level_inv K l'" "walk l' = [s]" "pl_price l' = p" "live_data l' = (\<lambda>_. None)(s := Some w)"
    have "side_ok L K d (levels[i := Some l']) li'"
      unfolding side_ok_def
    proof (intro conjI ballI allI impI)
      fix e
      assume "e \<in> set (iter li')"
      then have e: "e = (p, i) \<or> e \<in> set (iter li)" unfolding listed' by blast
      obtain q j where qj: "e = (q, j)" by (cases e)
      have "lvl (levels[i := Some l']) i = Some l'" using o(1) li'(3) by (simp add: lvl_update)
      moreover have "j \<noteq> i \<and> (\<exists>l. lvl levels j = Some l \<and> pl_price l = q \<and> level_inv K l \<and> walk l \<noteq> [])"
        if "(q, j) \<in> set (iter li)"
        using o(5) [OF that] i by auto
      ultimately show "case e of (p, i') \<Rightarrow> case lvl (levels[i := Some l']) i' of
          None \<Rightarrow> False | Some l \<Rightarrow> pl_price l = p \<and> level_inv K l \<and> walk l \<noteq> []"
        using e l' unfolding qj by (auto simp: lvl_update)
    next
      fix j
      assume "j < L" "(levels[i := Some l']) ! j \<noteq> None"
      then show "j \<in> snd ` set (iter li')"
        using o(1) o(4) [of j] unfolding listed' by (cases "j = i") (force simp: lvl_Some)+
    qed (use o li' in simp_all)
    moreover have "rows_of (levels[i := Some l']) (iter li') = insert_row d (p, i, s, w) (rows_of levels (iter li))"
    proof -
      have "\<forall>q \<in> set (rows_of levels ?as). \<not> better d p (fst q)"
        using srt rows_of_prices [of _ levels ?as] by (force simp: sorted_wrt_append dest: better_antisym)
      moreover have "\<forall>q \<in> set (rows_of levels ?bs). better d p (fst q)"
        using srt rows_of_prices [of _ levels ?bs] by (force simp: sorted_wrt_append)
      ultimately have "insert_row d (p, i, s, w) (rows_of levels ?as @ rows_of levels ?bs)
          = rows_of levels ?as @ (p, i, s, w) # rows_of levels ?bs"
        by (intro insert_row_split) auto
      moreover have "rows_of levels (iter li) = rows_of levels ?as @ rows_of levels ?bs"
        by (metis before_from_on rows_of_simps(3))
      moreover have "i \<notin> snd ` set ?as" "i \<notin> snd ` set ?bs" using ab li'(4) by auto
      ultimately show ?thesis
        using o(1) li'(3) l' unfolding li'(5) by (simp add: lvl_update level_rows_def)
    qed
    moreover have "lookup (levels[i := Some l']) j t = (if (j, t) = (i, s) then Some w else lookup levels j t)" for j t
      using i l'(4) o(1) li'(3) by (auto simp: lookup_def lvl_update)
    ultimately have "side_ok L K d (levels[i := Some l']) li' \<and>
       rows_of (levels[i := Some l']) (iter li') = insert_row d (p, i, s, w) (rows_of levels (iter li)) \<and>
       (\<forall>j t. lookup (levels[i := Some l']) j t = (if (j, t) = (i, s) then Some w else lookup levels j t))"
      by blast
  }
  with li'(1,3) i show ?thesis by blast
qed

end
