(* ===== verification/Book_Inv.thy ===== *)
theory Book_Inv
  imports Book_Side
begin

text \<open>
  The invariant of the book and what each step of an operation does to it. \<open>shape\<close> says that both
  sides are well formed; \<open>linked\<close> says that the order index and the live orders point at each other:
  the index finds exactly the resting ids, and every order's stored handle is the slot of its index
  entry. Inside an operation the link may be broken for the one id it works on, so \<open>linked\<close> takes
  the set of ids to leave out. \<open>erows\<close> are the rows of a side without the handles, which is what the
  index maintenance leaves alone.
\<close>

section \<open>Reading the book\<close>

definition rows :: "order_book \<Rightarrow> side \<Rightarrow> row list" where
  "rows book side = rows_of (side_levels book side) (iter (side_index book side))"

definition order_at :: "order_book \<Rightarrow> order_location \<Rightarrow> resting_order option" where
  "order_at book loc = lookup (side_levels book (ol_side loc)) (ol_level_index loc) (ol_slot loc)"

definition shape :: "nat \<Rightarrow> nat \<Rightarrow> order_book \<Rightarrow> bool" where
  "shape L K book \<longleftrightarrow> (\<forall>side. side_ok L K (side = Buy) (side_levels book side) (side_index book side))"

definition book_handle :: "order_book \<Rightarrow> order_id \<Rightarrow> order_location \<Rightarrow> nat \<Rightarrow> bool" where
  "book_handle book k loc q \<longleftrightarrow>
     (\<exists>w. order_at book loc = Some w \<and> rest_id w = k \<and> rest_index_slot w = of_nat q)"

definition linked :: "nat \<Rightarrow> nat \<Rightarrow> order_id set \<Rightarrow> order_book \<Rightarrow> bool" where
  "linked L K X book \<longleftrightarrow>
     index_inv L K (ob_index book) \<and>
     (\<forall>k loc. k \<notin> X \<longrightarrow> (index_location L K (ob_index book) k = Some loc \<longleftrightarrow>
        (\<exists>w. order_at book loc = Some w \<and> rest_id w = k))) \<and>
     (\<forall>q < index_capacity L K. \<forall>k loc. k \<notin> X \<longrightarrow>
        index_view L K (ob_index book) ! q = Some (k, loc) \<longrightarrow> book_handle book k loc q)"

definition erase :: "resting_order \<Rightarrow> resting_order" where
  "erase w = w\<lparr>rest_index_slot := 0\<rparr>"

definition erase_row :: "row \<Rightarrow> row" where
  "erase_row = (\<lambda>(p, i, s, w). (p, i, s, erase w))"

definition erows :: "order_book \<Rightarrow> side \<Rightarrow> row list" where
  "erows book side = map erase_row (rows book side)"

lemma erase_simps [simp]:
  "rest_id (erase w) = rest_id w" "rest_account_id (erase w) = rest_account_id w"
  "rest_quantity (erase w) = rest_quantity w" "rest_sequence (erase w) = rest_sequence w"
  "erase (w\<lparr>rest_index_slot := h\<rparr>) = erase w" "erase (erase w) = erase w"
  "erase (w\<lparr>rest_quantity := q\<rparr>) = (erase w)\<lparr>rest_quantity := q\<rparr>"
  by (simp_all add: erase_def)

lemma level_at_lvl: "level_at book side i = lvl (side_levels book side) i"
  by (simp add: level_at_def lvl_def)

lemma set_level_simps [simp]:
  "side_levels (set_level book side i x) side' =
     (if side' = side then (side_levels book side)[i := x] else side_levels book side')"
  "side_index (set_level book side i x) side' = side_index book side'"
  "ob_index (set_level book side i x) = ob_index book"
  "ob_instrument (set_level book side i x) = ob_instrument book"
  by (cases side; cases side'; simp add: set_level_def side_levels_def side_index_def)+

lemma set_side_index_simps [simp]:
  "side_index (set_side_index book side li) side' = (if side' = side then li else side_index book side')"
  "side_levels (set_side_index book side li) side' = side_levels book side'"
  "ob_index (set_side_index book side li) = ob_index book"
  "ob_instrument (set_side_index book side li) = ob_instrument book"
  by (cases side; cases side'; simp add: set_side_index_def side_levels_def side_index_def)+

lemma ob_index_update_simps [simp]:
  "side_levels (book\<lparr>ob_index := x\<rparr>) side = side_levels book side"
  "side_index (book\<lparr>ob_index := x\<rparr>) side = side_index book side"
  "rows (book\<lparr>ob_index := x\<rparr>) side = rows book side" "erows (book\<lparr>ob_index := x\<rparr>) side = erows book side"
  "order_at (book\<lparr>ob_index := x\<rparr>) loc = order_at book loc" "shape L K (book\<lparr>ob_index := x\<rparr>) = shape L K book"
  "book_handle (book\<lparr>ob_index := x\<rparr>) k loc q = book_handle book k loc q"
  by (simp_all add: side_levels_def side_index_def rows_def erows_def order_at_def shape_def book_handle_def
      split: side.splits)

lemma shapeD: "shape L K book \<Longrightarrow> side_ok L K (side = Buy) (side_levels book side) (side_index book side)"
  by (simp add: shape_def)

lemma rows_order_at:
  assumes "shape L K book"
  shows "(\<exists>p. (p, i, s, w) \<in> set (rows book side)) \<longleftrightarrow>
    order_at book \<lparr>ol_side = side, ol_level_index = i, ol_slot = s\<rparr> = Some w"
  using rows_lookup [OF shapeD [OF assms, of side]] unfolding rows_def order_at_def
  by (auto simp: lookup_def bind_eq_Some_conv)

lemma order_at_valid:
  assumes "shape L K book" "order_at book loc = Some w"
  shows "location_valid L K loc"
proof -
  obtain l where l: "lvl (side_levels book (ol_side loc)) (ol_level_index loc) = Some l" "live_data l (ol_slot loc) = Some w"
    using assms(2) by (auto simp: order_at_def lookup_def bind_eq_Some_conv)
  note o = side_okD [OF shapeD [OF assms(1), of "ol_side loc"]]
  have "level_inv K l" "ol_level_index loc < L" using o(1) o(4) [OF l(1)] l(1) by (auto simp: lvl_Some)
  then show ?thesis
    using lv.fifo_data [of K l] lv.fifo_bound [of K l] l(2) by (auto simp: location_valid_def)
qed

section \<open>The handles follow the index\<close>

lemma live_data_set_index_slot:
  assumes "live_data l s = Some d"
  shows "\<exists>l'. set_index_slot l s h = Some l' \<and> live_data l' = (live_data l)(s := Some (d\<lparr>rest_index_slot := h\<rparr>))"
proof -
  obtain order where o: "get (pl_slots l) s = Some (Live order)" "strip order = d"
    using assms live_data_get by blast
  then have "s < length (pl_slots l)" by simp
  with o show ?thesis
    by (auto simp: set_index_slot_def get_live_def live_data_def slot_data_set simp del: get_Some)
qed

lemma update_reverse_slot_hit:
  assumes "order_at book loc = Some w" "rest_id w = k"
  shows "\<exists>l l'. lvl (side_levels book (ol_side loc)) (ol_level_index loc) = Some l \<and> live_data l (ol_slot loc) = Some w \<and>
    set_index_slot l (ol_slot loc) h = Some l' \<and>
    update_reverse_slot k loc h book = set_level book (ol_side loc) (ol_level_index loc) (Some l') \<and>
    live_data l' = (live_data l)(ol_slot loc := Some (w\<lparr>rest_index_slot := h\<rparr>))"
proof -
  obtain l where l: "lvl (side_levels book (ol_side loc)) (ol_level_index loc) = Some l" "live_data l (ol_slot loc) = Some w"
    using assms(1) by (auto simp: order_at_def lookup_def bind_eq_Some_conv)
  obtain order where "get_live l (ol_slot loc) = Some order" "strip order = w"
    using l(2) by (auto simp: get_live_data)
  with l live_data_set_index_slot [OF l(2), of h] assms(2) show ?thesis
    by (fastforce simp: update_reverse_slot_def level_at_lvl)
qed

lemma order_at_update:
  assumes "order_at book loc = Some w" "rest_id w = k"
  shows "order_at (update_reverse_slot k loc h book) = (order_at book)(loc := Some (w\<lparr>rest_index_slot := h\<rparr>))"
proof -
  obtain l l' where l: "lvl (side_levels book (ol_side loc)) (ol_level_index loc) = Some l"
      "update_reverse_slot k loc h book = set_level book (ol_side loc) (ol_level_index loc) (Some l')"
      "live_data l' = (live_data l)(ol_slot loc := Some (w\<lparr>rest_index_slot := h\<rparr>))"
    using update_reverse_slot_hit [OF assms] by blast
  then have "ol_level_index loc < length (side_levels book (ol_side loc))" by (simp add: lvl_Some)
  with l show ?thesis
    by (intro ext) (auto simp: order_at_def lookup_def lvl_update intro: order_location.equality)
qed

interpretation bs: indexed_store "probe_start (index_capacity L K)" "index_inv L K" "index_view L K"
    "location_valid L K" "index_location L K" "index_insert L K" "remove_at L K"
    book_handle update_reverse_slot
  for L K
proof
  fix book k loc p q
  assume "book_handle book k loc p"
  then show "book_handle (update_reverse_slot k loc (of_nat q) book) k loc q"
    by (auto simp: book_handle_def order_at_update)
next
  fix book k loc p k' loc' p' q
  assume h: "book_handle book k loc p" "book_handle book k' loc' p'" "k' \<noteq> k"
  then have "loc' \<noteq> loc" by (auto simp: book_handle_def)
  with h show "book_handle (update_reverse_slot k loc (of_nat q) book) k' loc' p'"
    by (auto simp: book_handle_def order_at_update)
qed

text \<open>Moving index entries changes handles and nothing else.\<close>

definition same_orders :: "order_book \<Rightarrow> order_book \<Rightarrow> bool" where
  "same_orders b b' \<longleftrightarrow>
     (\<forall>side. erows b' side = erows b side \<and> side_index b' side = side_index b side) \<and>
     ob_instrument b' = ob_instrument b \<and> ob_index b' = ob_index b \<and>
     (\<forall>loc. map_option erase (order_at b' loc) = map_option erase (order_at b loc))"

lemma same_orders_refl [simp]: "same_orders b b"
  by (simp add: same_orders_def)

lemma same_orders_trans: "\<lbrakk>same_orders a b; same_orders b c\<rbrakk> \<Longrightarrow> same_orders a c"
  by (simp add: same_orders_def)

lemma erase_write_row:
  assumes "\<And>p w'. (p, i, s, w') \<in> set rs \<Longrightarrow> erase w' = erase w"
  shows "map erase_row (write_row i s w rs) = map erase_row rs"
  unfolding write_row_def map_map by (intro map_cong refl) (auto simp: erase_row_def assms [symmetric])

lemma update_reverse_slot_same:
  assumes shape: "shape L K book"
  shows "shape L K (update_reverse_slot k loc h book) \<and> same_orders book (update_reverse_slot k loc h book)"
proof (cases "\<exists>w. order_at book loc = Some w \<and> rest_id w = k")
  case False
  then have "update_reverse_slot k loc h book = book"
    by (auto simp: update_reverse_slot_def order_at_def lookup_def level_at_lvl get_live_data
        split: option.splits)
  with shape show ?thesis by simp
next
  case True
  then obtain w where w: "order_at book loc = Some w" "rest_id w = k" by blast
  let ?s = "ol_side loc" and ?i = "ol_level_index loc"
  obtain l l' where l: "lvl (side_levels book ?s) ?i = Some l" "live_data l (ol_slot loc) = Some w"
      "set_index_slot l (ol_slot loc) h = Some l'"
      "update_reverse_slot k loc h book = set_level book ?s ?i (Some l')"
      "live_data l' = (live_data l)(ol_slot loc := Some (w\<lparr>rest_index_slot := h\<rparr>))"
    using update_reverse_slot_hit [OF w] by blast
  note ok = shapeD [OF shape, of ?s]
  have inv: "level_inv K l" using side_okD(4) [OF ok l(1)] by blast
  have l': "level_inv K l'" "walk l' = walk l" "pl_price l' = pl_price l"
    using set_index_slot_level [OF inv l(2), of h] l(3) by auto
  note sw = side_write [OF ok l(1,2) l' l(5)]
  have "erase w' = erase (w\<lparr>rest_index_slot := h\<rparr>)"
    if "(p, ?i, ol_slot loc, w') \<in> set (rows_of (side_levels book ?s) (iter (side_index book ?s)))" for p w'
    using rows_lookup [OF ok, of p ?i "ol_slot loc" w'] that w(1) by (simp add: order_at_def)
  then have "map erase_row (rows_of ((side_levels book ?s)[?i := Some l']) (iter (side_index book ?s)))
      = map erase_row (rows_of (side_levels book ?s) (iter (side_index book ?s)))"
    unfolding sw(2) by (rule erase_write_row)
  moreover have "shape L K (set_level book ?s ?i (Some l'))"
    using shape sw(1) by (auto simp: shape_def)
  ultimately show ?thesis
    using order_at_update [OF w, of h] w(1) l(4)
    by (auto simp: same_orders_def erows_def rows_def)
qed

lemma fold_update_reverse_slot_same:
  assumes "shape L K book"
  shows "shape L K (fold (\<lambda>(k, l, s). update_reverse_slot k l s) moves book) \<and>
    same_orders book (fold (\<lambda>(k, l, s). update_reverse_slot k l s) moves book)"
  using assms
proof (induction moves arbitrary: book)
  case (Cons m moves)
  obtain k l s where m: "m = (k, l, s)" by (cases m)
  from Cons.IH [of "update_reverse_slot k l s book"] update_reverse_slot_same [OF Cons.prems, of k l s]
  show ?case unfolding m by (auto intro: same_orders_trans)
qed simp

section \<open>Removing an order\<close>

lemma linked_used:
  assumes "shape L K book" "linked L K {} book"
  shows "used (index_view L K (ob_index book)) \<le> 2 * (L * K)"
proof -
  let ?t = "index_view L K (ob_index book)"
  have inv: "index_inv L K (ob_index book)" using assms(2) by (simp add: linked_def)
  note tab = index_inv_table [OF inv]
  have live: "\<exists>w. order_at book loc = Some w \<and> rest_id w = k" if "(k, loc) \<in> entries ?t" for k loc
    using that assms(2) oi.find_entry [OF inv, of k loc] by (auto simp: linked_def)
  have inj: "inj_on snd (entries ?t)"
  proof (rule inj_onI)
    fix e e'
    assume e: "e \<in> entries ?t" "e' \<in> entries ?t" "snd e = snd e'"
    obtain k k' l where "e = (k, l)" "e' = (k', l)" using e(3) by (cases e; cases e') auto
    with live [of k l] live [of k' l] e show "e = e'" by auto
  qed
  let ?locs = "(\<lambda>(s, i, j). \<lparr>ol_side = s, ol_level_index = i, ol_slot = j\<rparr>) ` ({Buy, Sell} \<times> {..<L} \<times> {..<K})"
  have "snd ` entries ?t \<subseteq> ?locs"
  proof
    fix loc
    assume "loc \<in> snd ` entries ?t"
    then obtain k w where "order_at book loc = Some w" using live by force
    then have "location_valid L K loc" by (rule order_at_valid [OF assms(1)])
    then have "(ol_side loc, ol_level_index loc, ol_slot loc) \<in> {Buy, Sell} \<times> {..<L} \<times> {..<K}"
      by (cases "ol_side loc") (auto simp: location_valid_def)
    then show "loc \<in> ?locs" by (force intro!: image_eqI)
  qed
  then have "card (entries ?t) \<le> card ?locs"
    using card_image [OF inj] card_mono [of ?locs "snd ` entries ?t"] by simp
  also have "\<dots> \<le> card ({Buy, Sell} \<times> {..<L} \<times> {..<K})" by (rule card_image_le) simp
  finally show ?thesis using used_card [OF tab] by (simp add: card_cartesian_product)
qed

lemma linked_entry:
  assumes "linked L K X book" "order_at book loc = Some w" "rest_id w \<notin> X"
  shows "unat (rest_index_slot w) < index_capacity L K \<and>
    index_view L K (ob_index book) ! unat (rest_index_slot w) = Some (rest_id w, loc)"
proof -
  have inv: "index_inv L K (ob_index book)" using assms(1) by (simp add: linked_def)
  then have len: "length (index_view L K (ob_index book)) = index_capacity L K" "index_capacity L K \<le> 2 ^ 32"
    by (simp_all add: index_inv_def index_fits_def)
  have "index_location L K (ob_index book) (rest_id w) = Some loc"
    using assms by (auto simp: linked_def)
  then have "(rest_id w, loc) \<in> entries (index_view L K (ob_index book))"
    using oi.find_entry [OF inv] by blast
  then obtain q where q: "q < index_capacity L K" "index_view L K (ob_index book) ! q = Some (rest_id w, loc)"
    using len by (auto simp: entries_def in_set_conv_nth)
  then have "book_handle book (rest_id w) loc q" using assms(1,3) by (auto simp: linked_def)
  then have "rest_index_slot w = of_nat q" using assms(2) by (auto simp: book_handle_def)
  moreover have "unat (of_nat q :: u32) = q" using q(1) len(2) by (simp add: unat_of_nat)
  ultimately show ?thesis using q by simp
qed

lemma remove_index_entry_ok:
  assumes shape: "shape L K book" and link: "linked L K {k} book"
    and h: "unat h < index_capacity L K" "index_view L K (ob_index book) ! unat h = Some (k, loc)"
    and room: "used (index_view L K (ob_index book)) < index_capacity L K"
  shows "\<exists>book'. remove_index_entry L K book h k = Some (book', Some loc) \<and> shape L K book' \<and>
    linked L K {k} book' \<and> index_location L K (ob_index book') k = None \<and>
    same_orders (book\<lparr>ob_index := ob_index book'\<rparr>) book'"
proof -
  have inv: "index_inv L K (ob_index book)" using link by (simp add: linked_def)
  have len: "length (index_view L K (ob_index book)) = index_capacity L K" using inv by (simp add: index_inv_def)
  have others: "\<forall>q < length (index_view L K (ob_index book)). \<forall>k' l. q \<noteq> unat h \<longrightarrow>
      index_view L K (ob_index book) ! q = Some (k', l) \<longrightarrow> book_handle book k' l q"
  proof (intro allI impI)
    fix q k' l
    assume q: "q < length (index_view L K (ob_index book))" "q \<noteq> unat h" "index_view L K (ob_index book) ! q = Some (k', l)"
    then have "k' \<noteq> k"
      using index_inv_table [OF inv] h len unfolding table_inv_def keys_unique_def by metis
    with q link len show "book_handle book k' l q" by (auto simp: linked_def)
  qed
  obtain index' moves where d: "remove_at L K (ob_index book) h k = Some (index', moves, Some loc)"
      "index_inv L K index'" "index_location L K index' = (index_location L K (ob_index book))(k := None)"
      "length (index_view L K index') = length (index_view L K (ob_index book))"
      "\<forall>q < length (index_view L K (ob_index book)). \<forall>k w. index_view L K index' ! q = Some (k, w) \<longrightarrow>
         book_handle (fold (\<lambda>(k, v, s). update_reverse_slot k v s) moves book) k w q"
    using bs.del_handles [OF inv, of h k loc book] h others room len by auto
  define b where "b = fold (\<lambda>(k, v, s). update_reverse_slot k v s) moves book"
  have b: "shape L K b" "same_orders book b"
    using fold_update_reverse_slot_same [OF shape, of moves] by (simp_all add: b_def)
  have ids: "(\<exists>w. order_at b l = Some w \<and> rest_id w = k') \<longleftrightarrow> (\<exists>w. order_at book l = Some w \<and> rest_id w = k')" for l k'
  proof -
    have "map_option erase (order_at b l) = map_option erase (order_at book l)" using b(2) by (simp add: same_orders_def)
    then show ?thesis by (cases "order_at b l"; cases "order_at book l") (simp_all, metis erase_simps(1))
  qed
  have "linked L K {k} (b\<lparr>ob_index := index'\<rparr>)"
    using link d(2,3,5) len unfolding linked_def by (auto simp: b_def [symmetric] ids)
  moreover have "remove_index_entry L K book h k = Some (b\<lparr>ob_index := index'\<rparr>, Some loc)"
    using d(1) by (simp add: remove_index_entry_def b_def)
  moreover have "same_orders (book\<lparr>ob_index := index'\<rparr>) (b\<lparr>ob_index := index'\<rparr>)"
    using b(2) by (simp add: same_orders_def)
  ultimately show ?thesis using b(1) d(3) by auto
qed

lemma unlink_at_ok:
  assumes shape: "shape L K book" and w: "order_at book loc = Some w"
  shows "\<exists>book' removed. unlink_at book (ol_side loc) (ol_level_index loc) (ol_slot loc) = Some (book', removed) \<and>
    strip removed = w \<and> shape L K book' \<and> ob_index book' = ob_index book \<and> ob_instrument book' = ob_instrument book \<and>
    order_at book' = (order_at book)(loc := None) \<and>
    rows book' (ol_side loc) = drop_row (ol_level_index loc) (ol_slot loc) (rows book (ol_side loc)) \<and>
    rows book' (opposite (ol_side loc)) = rows book (opposite (ol_side loc)) \<and>
    side_index book' (opposite (ol_side loc)) = side_index book (opposite (ol_side loc))"
proof -
  let ?s = "ol_side loc" and ?i = "ol_level_index loc" and ?j = "ol_slot loc"
  let ?levels = "side_levels book ?s" and ?li = "side_index book ?s"
  obtain l where l: "lvl ?levels ?i = Some l" "live_data l ?j = Some w"
    using w by (auto simp: order_at_def lookup_def bind_eq_Some_conv)
  note ok = shapeD [OF shape, of ?s]
  have inv: "level_inv K l" using side_okD(4) [OF ok l(1)] by blast
  have i: "?i < length ?levels" using l(1) by (simp add: lvl_Some)
  obtain l' removed where u: "unlink l ?j = Some (l', removed)" "strip removed = w" "level_inv K l'"
      "walk l' = remove1 ?j (walk l)" "live_data l' = (live_data l)(?j := None)" "pl_price l' = pl_price l"
    using unlink_level [OF inv l(2)] by blast
  have len: "pl_len l' = length (walk l')" using level_repD(14) [OF level_inv_rep [OF u(3)]] .
  define b where "b = set_level book ?s ?i (Some l')"
  have loc: "loc = \<lparr>ol_side = ?s, ol_level_index = ?i, ol_slot = ?j\<rparr>" by simp
  show ?thesis
  proof (cases "walk l' = []")
    case False
    note su = side_unlink [OF ok l u(3,4,6,5) False]
    have "unlink_at book ?s ?i ?j = Some (b, removed)"
      using l(1) u(1) len False by (simp add: unlink_at_def level_at_lvl b_def Let_def)
    moreover have "shape L K b" using shape su(1) by (auto simp: shape_def b_def)
    moreover have "order_at b = (order_at book)(loc := None)"
    proof
      fix loc'
      show "order_at b loc' = ((order_at book)(loc := None)) loc'"
        using su(3) [of "ol_level_index loc'" "ol_slot loc'"]
        by (cases "loc' = loc") (auto simp: order_at_def b_def intro: order_location.equality)
    qed
    moreover have "rows b ?s = drop_row ?i ?j (rows book ?s)" using su(2) by (simp add: rows_def b_def)
    ultimately show ?thesis using u(2) by (auto simp: b_def rows_def)
  next
    case True
    have "?j \<in> set (walk l)" using lv.fifo_data [OF inv] l(2) by blast
    then have w1: "walk l = [?j]"
      using True u(4) by (metis length_0_conv length_remove1 length_Suc_conv One_nat_def Suc_pred empty_iff
          empty_set length_greater_0_conv set_ConsD)
    obtain li' where r: "li_remove ?li (pl_price l) (?s = Buy) = Some (li', ?i)"
        "side_ok L K (?s = Buy) (?levels[?i := None]) li'"
        "rows_of (?levels[?i := None]) (iter li') = drop_row ?i ?j (rows_of ?levels (iter ?li))"
      using side_drop [OF ok l(1) w1] by blast
    have lk: "lookup (?levels[?i := None]) i t = (if (i, t) = (?i, ?j) then None else lookup ?levels i t)" for i t
      using side_drop [OF ok l(1) w1] by blast
    define b' where "b' = drop_level b ?s ?i (pl_price l')"
    have b': "side_levels b' s' = (if s' = ?s then ?levels[?i := None] else side_levels book s')"
        "side_index b' s' = (if s' = ?s then li' else side_index book s')"
        "ob_index b' = ob_index book" "ob_instrument b' = ob_instrument book" for s'
      using r(1) u(6) i by (simp_all add: b'_def b_def drop_level_def Let_def)
    have "unlink_at book ?s ?i ?j = Some (b', removed)"
      using l(1) u(1) len True by (simp add: unlink_at_def level_at_lvl b_def b'_def Let_def)
    moreover have "shape L K b'" using shape r(2) by (auto simp: shape_def b')
    moreover have "order_at b' = (order_at book)(loc := None)"
    proof
      fix loc'
      show "order_at b' loc' = ((order_at book)(loc := None)) loc'"
        using lk [of "ol_level_index loc'" "ol_slot loc'"]
        by (cases "loc' = loc") (auto simp: order_at_def b' intro: order_location.equality)
    qed
    moreover have "rows b' ?s = drop_row ?i ?j (rows book ?s)" using r(3) by (simp add: rows_def b')
    ultimately show ?thesis using u(2) by (auto simp: b' rows_def)
  qed
qed

lemma linked_weaken: "linked L K X book \<Longrightarrow> X \<subseteq> Y \<Longrightarrow> linked L K Y book"
  unfolding linked_def by blast

lemma linked_unique:
  assumes "linked L K {} book" "order_at book loc = Some w" "order_at book loc' = Some w'" "rest_id w' = rest_id w"
  shows "loc' = loc"
proof -
  have "index_location L K (ob_index book) (rest_id w) = Some loc"
      "index_location L K (ob_index book) (rest_id w) = Some loc'"
    using assms unfolding linked_def by auto
  then show ?thesis by simp
qed

lemma linked_restore:
  assumes link: "linked L K {k} book" and gone: "index_location L K (ob_index book) k = None"
    and none: "\<forall>loc w. order_at book loc = Some w \<longrightarrow> rest_id w \<noteq> k"
  shows "linked L K {} book"
proof -
  have inv: "index_inv L K (ob_index book)" using link by (simp add: linked_def)
  have empty: "index_view L K (ob_index book) ! q \<noteq> Some (k, loc)" if "q < index_capacity L K" for q loc
  proof
    assume v: "index_view L K (ob_index book) ! q = Some (k, loc)"
    have "q < length (index_view L K (ob_index book))" using that inv by (simp add: index_inv_def)
    with v have "(k, loc) \<in> entries (index_view L K (ob_index book))" by (metis entries_def mem_Collect_eq nth_mem)
    with oi.find_none [OF inv] gone show False by blast
  qed
  show ?thesis
    unfolding linked_def
  proof (intro conjI allI impI)
    fix k' loc
    show "(index_location L K (ob_index book) k' = Some loc) = (\<exists>w. order_at book loc = Some w \<and> rest_id w = k')"
      using link gone none by (cases "k' = k") (auto simp: linked_def)
    show "book_handle book k' loc q"
      if "q < index_capacity L K" "index_view L K (ob_index book) ! q = Some (k', loc)" for q
      using link empty [OF that(1)] that by (cases "k' = k") (auto simp: linked_def)
  qed (rule inv)
qed

lemma erase_drop_row: "map erase_row (drop_row i s rs) = drop_row i s (map erase_row rs)"
  by (induction rs) (auto simp: drop_row_def erase_row_def)

lemma index_room:
  assumes "shape L K book" "linked L K {} book" "0 < L * K"
  shows "used (index_view L K (ob_index book)) < index_capacity L K"
  using linked_used [OF assms(1,2)] assms(3) unfolding index_capacity_def ORDER_INDEX_PLANES_def by linarith

lemma order_at_pos: "\<lbrakk>shape L K book; order_at book loc = Some w\<rbrakk> \<Longrightarrow> 0 < L * K"
  using order_at_valid [of L K book loc w] by (auto simp: location_valid_def)

text \<open>A removed order leaves the rest of the book as it was.\<close>

definition order_removed :: "nat \<Rightarrow> nat \<Rightarrow> order_location \<Rightarrow> order_book \<Rightarrow> order_book \<Rightarrow> bool" where
  "order_removed L K loc book book' \<longleftrightarrow>
     shape L K book' \<and> linked L K {} book' \<and> ob_instrument book' = ob_instrument book \<and>
     erows book' (ol_side loc) = drop_row (ol_level_index loc) (ol_slot loc) (erows book (ol_side loc)) \<and>
     erows book' (opposite (ol_side loc)) = erows book (opposite (ol_side loc))"

lemma remove_then_unlink:
  assumes shape: "shape L K book" and link: "linked L K {} book" and w: "order_at book loc = Some w"
  shows "\<exists>b1 b2 r. remove_index_entry L K book (rest_index_slot w) (rest_id w) = Some (b1, Some loc) \<and>
    unlink_at b1 (ol_side loc) (ol_level_index loc) (ol_slot loc) = Some (b2, r) \<and>
    order_removed L K loc book b2"
proof -
  let ?k = "rest_id w"
  note pos = order_at_pos [OF shape w]
  obtain b1 where b1: "remove_index_entry L K book (rest_index_slot w) ?k = Some (b1, Some loc)" "shape L K b1"
      "linked L K {?k} b1" "index_location L K (ob_index b1) ?k = None"
      "same_orders (book\<lparr>ob_index := ob_index b1\<rparr>) b1"
    using remove_index_entry_ok [OF shape linked_weaken [OF link]] linked_entry [OF link w]
      index_room [OF shape link pos] by blast
  have er: "map_option erase (order_at b1 l) = map_option erase (order_at book l)" for l
    using b1(5) by (simp add: same_orders_def)
  from er [of loc] w obtain w1 where w1: "order_at b1 loc = Some w1" by auto
  obtain b2 r where b2: "unlink_at b1 (ol_side loc) (ol_level_index loc) (ol_slot loc) = Some (b2, r)"
      "shape L K b2" "ob_index b2 = ob_index b1" "ob_instrument b2 = ob_instrument b1"
      "order_at b2 = (order_at b1)(loc := None)"
      "rows b2 (ol_side loc) = drop_row (ol_level_index loc) (ol_slot loc) (rows b1 (ol_side loc))"
      "rows b2 (opposite (ol_side loc)) = rows b1 (opposite (ol_side loc))"
    using unlink_at_ok [OF b1(2) w1] by blast
  have none: "\<forall>l w'. order_at b2 l = Some w' \<longrightarrow> rest_id w' \<noteq> ?k"
  proof (intro allI impI)
    fix l w'
    assume "order_at b2 l = Some w'"
    then have "l \<noteq> loc" "order_at b1 l = Some w'" using b2(5) by (auto split: if_splits)
    then obtain w'' where "order_at book l = Some w''" "erase w'' = erase w'"
      using er [of l] by (metis (no_types, lifting) map_option_eq_Some option.simps(9))
    then show "rest_id w' \<noteq> ?k"
      using linked_unique [OF link w, of l w''] \<open>l \<noteq> loc\<close> by (metis erase_simps(1))
  qed
  have "index_location L K (ob_index b2) ?k = None" using b1(4) b2(3) by simp
  moreover have "linked L K {?k} b2"
  proof -
    have "book_handle b2 k' l q" if "book_handle b1 k' l q" "k' \<noteq> ?k" for k' l q
      using that w1 er [of loc] w b2(5) unfolding book_handle_def
      by (metis erase_simps(1) fun_upd_other map_option_eq_Some option.inject)
    moreover have "(\<exists>w'. order_at b2 l = Some w' \<and> rest_id w' = k') = (\<exists>w'. order_at b1 l = Some w' \<and> rest_id w' = k')"
      if "k' \<noteq> ?k" for k' l
      using that w1 er [of loc] w b2(5) by (auto, metis erase_simps(1) option.inject option.simps(9))
    ultimately show ?thesis
      using b1(3) b2(3) unfolding linked_def by auto
  qed
  ultimately have "linked L K {} b2" using none by (intro linked_restore [where k = ?k])
  with b1 b2 show ?thesis
    unfolding order_removed_def by (auto simp: same_orders_def erows_def erase_drop_row)
qed

lemma unlink_then_remove:
  assumes shape: "shape L K book" and link: "linked L K {} book" and w: "order_at book loc = Some w"
  shows "\<exists>b1 b2 r l. unlink_at book (ol_side loc) (ol_level_index loc) (ol_slot loc) = Some (b1, r) \<and> strip r = w \<and>
    remove_index_entry L K b1 (rest_index_slot w) (rest_id w) = Some (b2, l) \<and> order_removed L K loc book b2 \<and>
    index_location L K (ob_index b2) = (index_location L K (ob_index book))(rest_id w := None) \<and>
    side_index b2 (ol_side loc) = side_index b1 (ol_side loc)"
proof -
  let ?k = "rest_id w"
  note pos = order_at_pos [OF shape w]
  obtain b1 r where b1: "unlink_at book (ol_side loc) (ol_level_index loc) (ol_slot loc) = Some (b1, r)"
      "strip r = w" "shape L K b1" "ob_index b1 = ob_index book" "ob_instrument b1 = ob_instrument book"
      "order_at b1 = (order_at book)(loc := None)"
      "rows b1 (ol_side loc) = drop_row (ol_level_index loc) (ol_slot loc) (rows book (ol_side loc))"
      "rows b1 (opposite (ol_side loc)) = rows book (opposite (ol_side loc))"
    using unlink_at_ok [OF shape w] by blast
  have none: "\<forall>l w'. order_at b1 l = Some w' \<longrightarrow> rest_id w' \<noteq> ?k"
    using linked_unique [OF link w] b1(6) by (auto split: if_splits)
  have link1: "linked L K {?k} b1"
  proof -
    have "book_handle b1 k' l q" if "book_handle book k' l q" "k' \<noteq> ?k" for k' l q
      using that w b1(6) unfolding book_handle_def by auto
    moreover have "(\<exists>w'. order_at b1 l = Some w' \<and> rest_id w' = k') = (\<exists>w'. order_at book l = Some w' \<and> rest_id w' = k')"
      if "k' \<noteq> ?k" for k' l
      using that w b1(6) by auto
    ultimately show ?thesis using link b1(4) unfolding linked_def by auto
  qed
  obtain b2 where b2: "remove_index_entry L K b1 (rest_index_slot w) ?k = Some (b2, Some loc)" "shape L K b2"
      "linked L K {?k} b2" "index_location L K (ob_index b2) ?k = None"
      "same_orders (b1\<lparr>ob_index := ob_index b2\<rparr>) b2"
    using remove_index_entry_ok [OF b1(3) link1, of "rest_index_slot w" loc] linked_entry [OF link w] b1(4)
      index_room [OF shape link pos] by auto
  have er: "map_option erase (order_at b2 l) = map_option erase (order_at b1 l)" for l
    using b2(5) by (simp add: same_orders_def)
  have "\<forall>l w'. order_at b2 l = Some w' \<longrightarrow> rest_id w' \<noteq> ?k"
    using none er by (metis erase_simps(1) map_option_eq_Some)
  with b2(3,4) have l2: "linked L K {} b2" by (intro linked_restore [where k = ?k])
  have "index_location L K (ob_index b2) k' = (index_location L K (ob_index book)) k'" if "k' \<noteq> ?k" for k'
  proof -
    have "(\<exists>w'. order_at b2 l = Some w' \<and> rest_id w' = k') = (\<exists>w'. order_at b1 l = Some w' \<and> rest_id w' = k')" for l
      using er [of l] by (cases "order_at b2 l"; cases "order_at b1 l") (simp_all, metis erase_simps(1))
    then have "index_location L K (ob_index b2) k' = Some l \<longleftrightarrow> index_location L K (ob_index book) k' = Some l" for l
      using link1 b2(3) that b1(4) unfolding linked_def by auto
    then show ?thesis by (metis option.exhaust)
  qed
  then have "index_location L K (ob_index b2) = (index_location L K (ob_index book))(?k := None)"
    using b2(4) by auto
  with b1 b2 l2 show ?thesis
    unfolding order_removed_def by (auto simp: same_orders_def erows_def erase_drop_row)
qed

section \<open>Resting an order\<close>

lemma erase_insert_row: "map erase_row (insert_row d r rs) = insert_row d (erase_row r) (map erase_row rs)"
  by (simp add: insert_row_def takeWhile_map dropWhile_map o_def erase_row_def split_beta)

lemma push_indexed:
  assumes l: "level_inv K l" "length (walk l) < K" and i: "i < L"
    and ix: "index_inv L K index" "index_location L K index (rest_id resting) = None"
      "used (index_view L K index) < index_capacity L K"
  shows "\<exists>l' s index' h l''. push_tail K l resting = Some (l', s) \<and>
    index_insert L K index (rest_id resting) \<lparr>ol_side = side, ol_level_index = i, ol_slot = s\<rparr> = Inr (index', h) \<and>
    set_index_slot l' s h = Some l'' \<and> level_inv K l'' \<and> walk l'' = walk l @ [s] \<and> pl_price l'' = pl_price l \<and>
    live_data l s = None \<and> live_data l'' = (live_data l)(s := Some ((strip resting)\<lparr>rest_index_slot := h\<rparr>)) \<and>
    index_inv L K index' \<and> unat h < index_capacity L K \<and>
    index_location L K index' = (index_location L K index)(rest_id resting := Some \<lparr>ol_side = side, ol_level_index = i, ol_slot = s\<rparr>) \<and>
    index_view L K index' = (index_view L K index)[unat h := Some (rest_id resting, \<lparr>ol_side = side, ol_level_index = i, ol_slot = s\<rparr>)]"
proof -
  obtain l' s where p: "push_tail K l resting = Some (l', s)" "level_inv K l'" "s < K" "live_data l s = None"
      "walk l' = walk l @ [s]" "live_data l' = (live_data l)(s := Some (strip resting))" "pl_price l' = pl_price l"
    using lv.contents_push [OF l, of resting] by blast
  let ?loc = "\<lparr>ol_side = side, ol_level_index = i, ol_slot = s\<rparr>"
  have "length (index_view L K index) = index_capacity L K" using ix(1) by (simp add: index_inv_def)
  moreover have "location_valid L K ?loc" using p(3) i by (simp add: location_valid_def)
  ultimately obtain index' h where n: "index_insert L K index (rest_id resting) ?loc = Inr (index', h)"
      "index_inv L K index'" "index_location L K index' = (index_location L K index)(rest_id resting := Some ?loc)"
      "unat h < index_capacity L K"
      "index_view L K index' = (index_view L K index)[unat h := Some (rest_id resting, ?loc)]"
    using oi.find_ins [OF ix(1) _ _ ix(2), of ?loc] ix(3) by auto
  obtain l'' where "set_index_slot l' s h = Some l''" "level_inv K l''" "walk l'' = walk l'" "pl_price l'' = pl_price l'"
      "live_data l'' = (live_data l')(s := Some ((strip resting)\<lparr>rest_index_slot := h\<rparr>))"
    using set_index_slot_level [OF p(2), of s "strip resting" h] p(6) by auto
  with p n show ?thesis by auto
qed

lemma linked_insert:
  assumes link: "linked L K {} b" and oa: "order_at b' = (order_at b)(loc := Some w)" "order_at b loc = None"
    and new: "index_location L K (ob_index b) (rest_id w) = None"
    and ix: "index_inv L K (ob_index b')" "unat (rest_index_slot w) < index_capacity L K"
      "index_location L K (ob_index b') = (index_location L K (ob_index b))(rest_id w := Some loc)"
      "index_view L K (ob_index b') = (index_view L K (ob_index b))[unat (rest_index_slot w) := Some (rest_id w, loc)]"
  shows "linked L K {} b'"
  unfolding linked_def
proof (intro conjI allI impI)
  have inv: "index_inv L K (ob_index b)" using link by (simp add: linked_def)
  have none: "\<And>l w'. order_at b l = Some w' \<Longrightarrow> rest_id w' \<noteq> rest_id w"
  proof
    fix l w'
    assume "order_at b l = Some w'" "rest_id w' = rest_id w"
    then have "index_location L K (ob_index b) (rest_id w) = Some l" using link unfolding linked_def by auto
    with new show False by simp
  qed
  fix k l
  show "(index_location L K (ob_index b') k = Some l) = (\<exists>w. order_at b' l = Some w \<and> rest_id w = k)"
    using link oa none unfolding ix(3) by (cases "k = rest_id w") (auto simp: linked_def)
  fix q
  assume q: "q < index_capacity L K" "index_view L K (ob_index b') ! q = Some (k, l)"
  have len: "length (index_view L K (ob_index b)) = index_capacity L K" using inv by (simp add: index_inv_def)
  show "book_handle b' k l q"
  proof (cases "q = unat (rest_index_slot w)")
    case True
    with q len show ?thesis unfolding ix(4) book_handle_def oa(1) by auto
  next
    case False
    then have "book_handle b k l q" using q link unfolding ix(4) linked_def by auto
    then show ?thesis using oa unfolding book_handle_def by auto
  qed
qed (rule ix(1))

lemma price_level_new_level:
  "K < NIL \<Longrightarrow> level_inv K (price_level_new K p) \<and> walk (price_level_new K p) = [] \<and>
   live_data (price_level_new K p) = (\<lambda>_. None) \<and> pl_price (price_level_new K p) = p"
proof -
  assume "K < NIL"
  then have r: "level_rep K (price_level_new K p) [] [0..<K]" by (rule price_level_new_rep)
  have "live_data (price_level_new K p) s = None" for s using live_data_iff [OF r, of s] by simp
  with level_rep_walk [OF r] show ?thesis by (auto simp: price_level_new_def)
qed

text \<open>Room for one more order at a price of a side.\<close>

definition has_room :: "nat \<Rightarrow> nat \<Rightarrow> order_book \<Rightarrow> side \<Rightarrow> price_ticks \<Rightarrow> bool" where
  "has_room L K book side p \<longleftrightarrow>
     (case li_find (side_index book side) p (side = Buy) of
        Some i \<Rightarrow> (\<forall>l. lvl (side_levels book side) i = Some l \<longrightarrow> length (walk l) < K)
      | None \<Rightarrow> length (iter (side_index book side)) < L)"

text \<open>A side that gained one order, and an index that gained its entry.\<close>

lemma rest_finish:
  assumes shape: "shape L K book" and link: "linked L K {} book"
    and new: "index_location L K (ob_index book) (rest_id resting) = None"
    and b': "\<And>x. side_levels book' x = (if x = side then (side_levels book side)[i := Some l''] else side_levels book x)"
      "\<And>x. side_index book' x = (if x = side then li' else side_index book x)"
      "ob_index book' = index'" "ob_instrument book' = ob_instrument book"
    and ok': "side_ok L K (side = Buy) ((side_levels book side)[i := Some l'']) li'"
    and rws: "rows_of ((side_levels book side)[i := Some l'']) (iter li')
      = insert_row (side = Buy) (p, i, s, (strip resting)\<lparr>rest_index_slot := h\<rparr>) (rows book side)"
    and lk: "\<And>j t. lookup ((side_levels book side)[i := Some l'']) j t
      = (if (j, t) = (i, s) then Some ((strip resting)\<lparr>rest_index_slot := h\<rparr>) else lookup (side_levels book side) j t)"
    and fresh: "lookup (side_levels book side) i s = None"
    and ix: "index_inv L K index'" "unat h < index_capacity L K"
      "index_location L K index' = (index_location L K (ob_index book))(rest_id resting := Some \<lparr>ol_side = side, ol_level_index = i, ol_slot = s\<rparr>)"
      "index_view L K index' = (index_view L K (ob_index book))[unat h := Some (rest_id resting, \<lparr>ol_side = side, ol_level_index = i, ol_slot = s\<rparr>)]"
  shows "shape L K book' \<and> linked L K {} book' \<and> ob_instrument book' = ob_instrument book \<and>
    erows book' side = insert_row (side = Buy) (p, i, s, erase (strip resting)) (erows book side) \<and>
    (\<forall>w \<in> set (erows book side). (fst (snd w), fst (snd (snd w))) \<noteq> (i, s)) \<and>
    erows book' (opposite side) = erows book (opposite side)"
proof (intro conjI ballI)
  let ?loc = "\<lparr>ol_side = side, ol_level_index = i, ol_slot = s\<rparr>"
  let ?w = "(strip resting)\<lparr>rest_index_slot := h\<rparr>"
  have "order_at book' = (order_at book)(?loc := Some ?w)"
  proof
    fix l
    show "order_at book' l = ((order_at book)(?loc := Some ?w)) l"
      using lk [of "ol_level_index l" "ol_slot l"]
      by (cases "l = ?loc") (auto simp: order_at_def b' intro: order_location.equality)
  qed
  moreover have "order_at book ?loc = None" using fresh by (simp add: order_at_def)
  ultimately show "linked L K {} book'"
    using linked_insert [OF link, of book' ?loc ?w] new ix b'(3) by simp
  show "shape L K book'" using shape ok' by (auto simp: shape_def b')
  have "erase_row (p, i, s, ?w) = (p, i, s, erase (strip resting))" by (simp add: erase_row_def)
  then show "erows book' side = insert_row (side = Buy) (p, i, s, erase (strip resting)) (erows book side)"
    by (simp add: erows_def rows_def [of book'] b' rws erase_insert_row)
  show "erows book' (opposite side) = erows book (opposite side)"
    by (simp add: erows_def rows_def b')
  fix r
  assume "r \<in> set (erows book side)"
  then obtain q j t w where r: "r = (q, j, t, erase w)" "(q, j, t, w) \<in> set (rows book side)"
    by (auto simp: erows_def erase_row_def)
  with rows_lookup [OF shapeD [OF shape], of q j t w side] fresh
  show "(fst (snd r), fst (snd (snd r))) \<noteq> (i, s)" by (auto simp: rows_def)
qed (rule b'(4))

lemma rest_at_tail_ok:
  assumes shape: "shape L K book" and link: "linked L K {} book" and K: "0 < K"
    and new: "index_location L K (ob_index book) (rest_id resting) = None"
    and room: "has_room L K book side p"
  shows "\<exists>book' i s. rest_at_tail L K book side p resting = Some book' \<and> shape L K book' \<and> linked L K {} book' \<and>
    ob_instrument book' = ob_instrument book \<and>
    erows book' side = insert_row (side = Buy) (p, i, s, erase (strip resting)) (erows book side) \<and>
    (\<forall>w \<in> set (erows book side). (fst (snd w), fst (snd (snd w))) \<noteq> (i, s)) \<and>
    erows book' (opposite side) = erows book (opposite side)"
proof -
  let ?levels = "side_levels book side" and ?li = "side_index book side" and ?d = "side = Buy"
  note ok = shapeD [OF shape, of side]
  note o = side_okD [OF ok]
  have inv: "index_inv L K (ob_index book)" using link by (simp add: linked_def)
  have find: "li_find ?li p ?d = map_of (iter ?li) p" by (rule li_find_map_of [OF o(2)])
  show ?thesis
  proof (cases "li_find ?li p ?d")
    case (Some i)
    then have "(p, i) \<in> set (iter ?li)" using find by (simp add: map_of_SomeD)
    then obtain l where l: "lvl ?levels i = Some l" "pl_price l = p" "level_inv K l" and i: "i < L"
      using o(5) by blast
    have "length (walk l) < K" using room Some l(1) by (simp add: has_room_def)
    moreover have "0 < L * K" using i K by simp
    ultimately obtain l' s index' h l'' where n: "push_tail K l resting = Some (l', s)"
        "index_insert L K (ob_index book) (rest_id resting) \<lparr>ol_side = side, ol_level_index = i, ol_slot = s\<rparr> = Inr (index', h)"
        "set_index_slot l' s h = Some l''" "level_inv K l''" "walk l'' = walk l @ [s]" "pl_price l'' = pl_price l"
        "live_data l s = None" "live_data l'' = (live_data l)(s := Some ((strip resting)\<lparr>rest_index_slot := h\<rparr>))"
        "index_inv L K index'" "unat h < index_capacity L K"
        "index_location L K index' = (index_location L K (ob_index book))(rest_id resting := Some \<lparr>ol_side = side, ol_level_index = i, ol_slot = s\<rparr>)"
        "index_view L K index' = (index_view L K (ob_index book))[unat h := Some (rest_id resting, \<lparr>ol_side = side, ol_level_index = i, ol_slot = s\<rparr>)]"
      using push_indexed [OF l(3) _ i inv new index_room [OF shape link], of side] by metis
    define book' where "book' = (set_level book side i (Some l''))\<lparr>ob_index := index'\<rparr>"
    have "rest_at_tail L K book side p resting = Some book'"
      using Some l(1) n(1-3) by (simp add: rest_at_tail_def level_at_lvl book'_def Let_def)
    moreover note side_push [OF ok l(1) n(4-6,8,7)]
    ultimately show ?thesis
      using rest_finish [OF shape link new, of book' side i l'' ?li index' p s h] n l
      by (auto simp: book'_def lookup_def rows_def)
  next
    case None
    then have "length (iter ?li) < L" using room by (simp add: has_room_def)
    then obtain li' i where li': "li_insert ?li p ?d = Some (li', i)" "i < L" "lvl ?levels i = None"
        "\<And>l' s w. level_inv K l' \<Longrightarrow> walk l' = [s] \<Longrightarrow> pl_price l' = p \<Longrightarrow> live_data l' = (\<lambda>_. None)(s := Some w) \<Longrightarrow>
         side_ok L K ?d (?levels[i := Some l']) li' \<and>
         rows_of (?levels[i := Some l']) (iter li') = insert_row ?d (p, i, s, w) (rows_of ?levels (iter ?li)) \<and>
         (\<forall>j t. lookup (?levels[i := Some l']) j t = (if (j, t) = (i, s) then Some w else lookup ?levels j t))"
      using side_open [OF ok None] by blast
    let ?l = "price_level_new K p"
    note nl = price_level_new_level [OF o(3), of p]
    have "0 < L * K" using li'(2) K by simp
    then obtain l' s index' h l'' where n: "push_tail K ?l resting = Some (l', s)"
        "index_insert L K (ob_index book) (rest_id resting) \<lparr>ol_side = side, ol_level_index = i, ol_slot = s\<rparr> = Inr (index', h)"
        "set_index_slot l' s h = Some l''" "level_inv K l''" "walk l'' = walk ?l @ [s]" "pl_price l'' = pl_price ?l"
        "live_data ?l s = None" "live_data l'' = (live_data ?l)(s := Some ((strip resting)\<lparr>rest_index_slot := h\<rparr>))"
        "index_inv L K index'" "unat h < index_capacity L K"
        "index_location L K index' = (index_location L K (ob_index book))(rest_id resting := Some \<lparr>ol_side = side, ol_level_index = i, ol_slot = s\<rparr>)"
        "index_view L K index' = (index_view L K (ob_index book))[unat h := Some (rest_id resting, \<lparr>ol_side = side, ol_level_index = i, ol_slot = s\<rparr>)]"
      using push_indexed [of K ?l i L "ob_index book" resting side] nl li'(2) inv new K
        index_room [OF shape link] by auto
    define book' where "book' = (set_level (set_level (set_side_index book side li') side i (Some ?l)) side i (Some l''))\<lparr>ob_index := index'\<rparr>"
    have "i < length ?levels" using li'(2) o(1) by simp
    then have "rest_at_tail L K book side p resting = Some book'"
      using None li'(1) n(1-3) by (simp add: rest_at_tail_def level_at_lvl book'_def Let_def lvl_update)
    moreover have "side_levels book' x = (if x = side then ?levels[i := Some l''] else side_levels book x)"
        "side_index book' x = (if x = side then li' else side_index book x)" for x
      by (simp_all add: book'_def)
    note b' = this
    have "ob_index book' = index'" "ob_instrument book' = ob_instrument book" by (simp_all add: book'_def)
    moreover have "lookup ?levels i s = None" using li'(3) by (simp add: lookup_def)
    moreover note li'(4) [of l'' s "(strip resting)\<lparr>rest_index_slot := h\<rparr>"]
    ultimately show ?thesis
      using rest_finish [OF shape link new b', of index' p s h] n nl unfolding rows_def by auto
  qed
qed

end
