(* ===== verification/Book_Match.thy ===== *)
theory Book_Match
  imports Book_Inv
begin

text \<open>
  Planning and applying a match, seen on the rows of the maker side. \<open>row_match\<close> walks the rows
  once, best first: it returns the fills, what is left of the taker and the rows that remain. The
  plan of \<open>build_plan\<close> is exactly those fills (or a capacity rejection), and applying the plan
  leaves exactly those rows.
\<close>

section \<open>Matching on rows\<close>

fun row_match :: "side \<Rightarrow> price_ticks \<Rightarrow> row list \<Rightarrow> u64 \<Rightarrow> fill_entry list \<times> u64 \<times> row list" where
  "row_match taker limit [] remaining = ([], remaining, [])"
| "row_match taker limit ((p, i, s, w) # rs) remaining =
     (if remaining = 0 \<or> \<not> crosses taker p limit then ([], remaining, (p, i, s, w) # rs)
      else
        let traded = min remaining (rest_quantity w);
            fill = \<lparr>fe_level_index = i, fe_slot = s, fe_order_id = rest_id w, fe_price = p, fe_quantity = traded\<rparr>
        in if rest_quantity w \<le> remaining
           then (let (fs, left, rs') = row_match taker limit rs (remaining - traded) in (fill # fs, left, rs'))
           else ([fill], 0, (p, i, s, w\<lparr>rest_quantity := rest_quantity w - traded\<rparr>) # rs))"

lemma row_match_done [simp]: "row_match t lim rs 0 = ([], 0, rs)"
  by (cases rs) auto

lemma row_match_append:
  assumes "\<forall>r \<in> set as. crosses t (fst r) lim"
  shows "row_match t lim (as @ bs) rem =
    (let (f1, r1, a1) = row_match t lim as rem; (f2, r2, b2) = row_match t lim bs r1 in (f1 @ f2, r2, a1 @ b2))"
  using assms
proof (induction as arbitrary: rem)
  case Nil
  then show ?case by (auto split: prod.splits)
next
  case (Cons r as)
  obtain p i s w where r: "r = (p, i, s, w)" by (cases r)
  with Cons show ?case by (auto simp: Let_def split: prod.splits)
qed

lemma erase_row_simp [simp]: "erase_row (p, i, s, w) = (p, i, s, erase w)"
  by (simp add: erase_row_def)

lemma row_match_erase:
  "row_match t lim (map erase_row rs) rem =
     (let (f, r, a) = row_match t lim rs rem in (f, r, map erase_row a))"
proof (induction rs arbitrary: rem)
  case (Cons r rs)
  obtain p i s w where r: "r = (p, i, s, w)" by (cases r)
  show ?case
    unfolding r by (auto simp: Cons.IH Let_def split: prod.splits)
qed simp

section \<open>The plan is the match\<close>

definition plan_result :: "match_plan \<Rightarrow> fill_entry list \<times> u64 \<times> row list \<Rightarrow> reject_reason + u64 \<times> match_plan" where
  "plan_result plan m =
     (let (fs, left, _) = m in
      if length (mp_fills plan) + length fs \<le> mp_capacity plan
      then Inr (left, plan\<lparr>mp_fills := mp_fills plan @ fs\<rparr>) else Inl ReportCapacity)"

definition seg_rows :: "order_slot list \<Rightarrow> price_ticks \<Rightarrow> nat \<Rightarrow> nat list \<Rightarrow> row list" where
  "seg_rows slots p i xs = map (\<lambda>s. (p, i, s, the (slot_data slots s))) xs"

lemma plan_level_match:
  assumes "live_seg (pl_slots level) q xs NIL" "length (pl_slots level) < NIL"
    and "length (mp_fills plan) \<le> mp_capacity plan" "crosses t p lim"
  shows "plan_level level i p (link NIL xs) rem plan =
    Some (plan_result plan (row_match t lim (seg_rows (pl_slots level) p i xs) rem))"
  using assms
proof (induction xs arbitrary: q rem plan)
  case Nil
  then show ?case by (simp add: plan_level.simps seg_rows_def plan_result_def)
next
  case (Cons x xs)
  obtain maker where m: "get (pl_slots level) x = Some (Live maker)" "rest_next maker = link NIL xs"
      "live_seg (pl_slots level) x xs NIL"
    using Cons.prems(1) by (auto split: option.splits order_slot.splits)
  have x: "x \<noteq> NIL" using m(1) Cons.prems(2) by auto
  have d: "slot_data (pl_slots level) x = Some (strip maker)" using m(1) by (simp add: slot_data_get)
  show ?case
  proof (cases "rem = 0")
    case True
    then show ?thesis using Cons.prems(3) by (simp add: plan_level.simps plan_result_def)
  next
    case False
    let ?traded = "min rem (rest_quantity maker)"
    let ?fill = "\<lparr>fe_level_index = i, fe_slot = x, fe_order_id = rest_id maker, fe_price = p, fe_quantity = ?traded\<rparr>"
    have step: "plan_level level i p x rem plan =
        (case push_fill plan ?fill of
           Inl e \<Rightarrow> Some (Inl e)
         | Inr plan' \<Rightarrow> plan_level level i p (link NIL xs) (rem - ?traded) plan')"
      unfolding m(2) [symmetric] using x False m(1) by (subst plan_level.simps) (simp add: Let_def del: get_Some)
    show ?thesis
    proof (cases "length (mp_fills plan) < mp_capacity plan")
      case True
      have "plan_level level i p (link NIL xs) (rem - ?traded) (plan\<lparr>mp_fills := mp_fills plan @ [?fill]\<rparr>) =
          Some (plan_result (plan\<lparr>mp_fills := mp_fills plan @ [?fill]\<rparr>)
            (row_match t lim (seg_rows (pl_slots level) p i xs) (rem - ?traded)))"
        using Cons.IH [OF m(3) Cons.prems(2), of "plan\<lparr>mp_fills := mp_fills plan @ [?fill]\<rparr>" "rem - ?traded"]
          True Cons.prems(4) by simp
      then show ?thesis
        using step True False Cons.prems(4) d
        by (auto simp: push_fill_def seg_rows_def plan_result_def Let_def min_def split: prod.splits)
    next
      case full: False
      then show ?thesis
        using step False Cons.prems(3,4) d
        by (auto simp: push_fill_def seg_rows_def plan_result_def Let_def split: prod.splits)
    qed
  qed
qed

lemma level_rows_seg: "level_rows p i l = seg_rows (pl_slots l) p i (walk l)"
  by (simp add: level_rows_def seg_rows_def live_data_def)

lemma plan_levels_match:
  assumes "\<forall>(p, i) \<in> set es. \<exists>l. lvl (side_levels book (mp_maker_side plan)) i = Some l \<and> level_inv K l \<and> walk l \<noteq> []"
    and "length (mp_fills plan) \<le> mp_capacity plan"
  shows "plan_levels book order es rem plan =
    Some (plan_result plan (row_match (no_side order) (no_price order)
      (rows_of (side_levels book (mp_maker_side plan)) es) rem))"
  using assms
proof (induction es arbitrary: rem plan)
  case Nil
  then show ?case by (simp add: plan_result_def)
next
  case (Cons e es)
  obtain p i where e: "e = (p, i)" by (cases e)
  obtain l where l: "lvl (side_levels book (mp_maker_side plan)) i = Some l" "level_inv K l" "walk l \<noteq> []"
    using Cons.prems(1) e by auto
  note r = level_repD [OF level_inv_rep [OF l(2)]]
  let ?t = "no_side order" and ?lim = "no_price order"
  let ?rest = "rows_of (side_levels book (mp_maker_side plan)) es"
  have rows: "rows_of (side_levels book (mp_maker_side plan)) (e # es) = level_rows p i l @ ?rest"
    using e l(1) by simp
  show ?case
  proof (cases "rem = 0 \<or> \<not> crosses ?t p ?lim")
    case True
    obtain s xs where "walk l = s # xs" using l(3) by (cases "walk l") auto
    then have "row_match ?t ?lim (level_rows p i l @ ?rest) rem = ([], rem, level_rows p i l @ ?rest)"
      using True by (auto simp: level_rows_def)
    with True Cons.prems(2) rows show ?thesis
      unfolding e by (auto simp: plan_result_def)
  next
    case False
    have "plan_level l i p (pl_head l) rem plan = Some (plan_result plan (row_match ?t ?lim (level_rows p i l) rem))"
      using plan_level_match [OF r(8) _ Cons.prems(2), of ?t p ?lim i rem] r(1,2,11) False
      by (simp add: level_rows_seg)
    moreover obtain f1 r1 a1 where m: "row_match ?t ?lim (level_rows p i l) rem = (f1, r1, a1)"
      by (metis prod_cases3)
    ultimately have pl: "plan_level l i p (pl_head l) rem plan =
        Some (if length (mp_fills plan) + length f1 \<le> mp_capacity plan
              then Inr (r1, plan\<lparr>mp_fills := mp_fills plan @ f1\<rparr>) else Inl ReportCapacity)"
      by (simp add: plan_result_def)
    have "\<forall>r \<in> set (level_rows p i l). crosses ?t (fst r) ?lim" using False by (auto simp: level_rows_def)
    note app = row_match_append [OF this, of ?rest rem, unfolded m]
    show ?thesis
    proof (cases "length (mp_fills plan) + length f1 \<le> mp_capacity plan")
      case True
      have "plan_levels book order es r1 (plan\<lparr>mp_fills := mp_fills plan @ f1\<rparr>) =
          Some (plan_result (plan\<lparr>mp_fills := mp_fills plan @ f1\<rparr>) (row_match ?t ?lim ?rest r1))"
        using Cons.IH [of "plan\<lparr>mp_fills := mp_fills plan @ f1\<rparr>" r1] Cons.prems(1) True by simp
      then show ?thesis
        unfolding rows app using pl True False l(1)
        by (auto simp: e level_at_lvl plan_result_def split: prod.splits)
    next
      case full: False
      then show ?thesis
        unfolding rows app using pl False l(1)
        by (auto simp: e level_at_lvl plan_result_def split: prod.splits)
    qed
  qed
qed

section \<open>Applying the plan\<close>

lemma distinct_rows_of:
  assumes "distinct (map snd es)" "\<forall>(p, i) \<in> set es. \<forall>l. lvl levels i = Some l \<longrightarrow> distinct (walk l)"
  shows "distinct (map (\<lambda>(p, i, s, w). (i, s)) (rows_of levels es))"
  using assms
proof (induction es)
  case (Cons e es)
  obtain p i where e: "e = (p, i)" by (cases e)
  have "i \<notin> snd ` set es" using Cons.prems(1) e by auto
  then have other: "(i, s) \<notin> (\<lambda>(p, i, s, w). (i, s)) ` set (rows_of levels es)" for s
    using row_level_other [of i es _ _ _ _ levels] by fastforce
  show ?case
  proof (cases "lvl levels i")
    case None
    with Cons e show ?thesis by simp
  next
    case (Some l)
    then have "distinct (map (\<lambda>(p, i, s, w). (i, s)) (level_rows p i l))"
      using Cons.prems(2) e by (auto simp: level_rows_def o_def distinct_map inj_on_def)
    moreover have "(\<lambda>(p, i, s, w). (i, s)) ` set (level_rows p i l) \<inter>
        (\<lambda>(p, i, s, w). (i, s)) ` set (rows_of levels es) = {}"
    proof (rule equals0I)
      fix x
      assume x: "x \<in> (\<lambda>(p, i, s, w). (i, s)) ` set (level_rows p i l) \<inter>
        (\<lambda>(p, i, s, w). (i, s)) ` set (rows_of levels es)"
      then obtain s where "x = (i, s)" by (auto simp: level_rows_def)
      with IntD2 [OF x] other [of s] show False by simp
    qed
    ultimately show ?thesis using Cons e Some by auto
  qed
qed simp

lemma distinct_erows:
  assumes "shape L K book"
  shows "distinct (map (\<lambda>(p, i, s, w). (i, s)) (erows book side))"
proof -
  note o = side_okD [OF shapeD [OF assms, of side]]
  have "distinct (map (\<lambda>(p, i, s, w). (i, s)) (rows book side))"
    unfolding rows_def
  proof (rule distinct_rows_of)
    show "distinct (map snd (iter (side_index book side)))" using ld.slots [OF o(2)] by blast
    show "\<forall>(p, i) \<in> set (iter (side_index book side)). \<forall>l. lvl (side_levels book side) i = Some l \<longrightarrow> distinct (walk l)"
      using o(4) lv.fifo_distinct by blast
  qed
  moreover have "map (\<lambda>(p, i, s, w). (i, s)) (erows book side) = map (\<lambda>(p, i, s, w). (i, s)) (rows book side)"
    by (auto simp: erows_def erase_row_def)
  ultimately show ?thesis by simp
qed

lemma erows_order_at:
  assumes "shape L K book" "(p, i, s, w) \<in> set (erows book side)"
  shows "\<exists>w0. order_at book \<lparr>ol_side = side, ol_level_index = i, ol_slot = s\<rparr> = Some w0 \<and> erase w0 = w"
proof -
  from assms(2) obtain w0 where "(p, i, s, w0) \<in> set (rows book side)" "erase w0 = w"
    by (auto simp: erows_def erase_row_def)
  with rows_order_at [OF assms(1)] show ?thesis by blast
qed

lemma order_at_level:
  assumes "order_at book loc = Some w"
  shows "\<exists>l maker. level_at book (ol_side loc) (ol_level_index loc) = Some l \<and>
    get_live l (ol_slot loc) = Some maker \<and> strip maker = w \<and> live_data l (ol_slot loc) = Some w"
  using assms by (auto simp: order_at_def lookup_def level_at_lvl bind_eq_Some_conv get_live_data)

lemma linked_same_ids:
  assumes "linked L K X b" "ob_index b' = ob_index b"
    and "order_at b' = (order_at b)(loc := Some w')" "order_at b loc = Some w"
    and "rest_id w' = rest_id w" "rest_index_slot w' = rest_index_slot w"
  shows "linked L K X b'"
proof -
  have "book_handle b' = book_handle b" using assms by (auto simp: book_handle_def fun_eq_iff)
  moreover have "(\<exists>x. order_at b' l = Some x \<and> rest_id x = k) = (\<exists>x. order_at b l = Some x \<and> rest_id x = k)" for l k
    using assms by auto
  ultimately show ?thesis using assms(1,2) unfolding linked_def by simp
qed

lemma erase_write: "map erase_row (write_row i s w rs) = write_row i s (erase w) (map erase_row rs)"
  by (auto simp: write_row_def erase_row_def)

lemma reduce_at_ok:
  assumes shape: "shape L K book" and w: "order_at book loc = Some w" and q: "q \<le> rest_quantity w"
  shows "\<exists>l l' book'. level_at book (ol_side loc) (ol_level_index loc) = Some l \<and>
    reduce_quantity l (ol_slot loc) q = Some l' \<and>
    book' = set_level book (ol_side loc) (ol_level_index loc) (Some l') \<and> shape L K book' \<and>
    (\<forall>X. linked L K X book \<longrightarrow> linked L K X book') \<and> ob_instrument book' = ob_instrument book \<and>
    erows book' (ol_side loc) = write_row (ol_level_index loc) (ol_slot loc)
      ((erase w)\<lparr>rest_quantity := rest_quantity w - q\<rparr>) (erows book (ol_side loc)) \<and>
    erows book' (opposite (ol_side loc)) = erows book (opposite (ol_side loc))"
proof -
  let ?s = "ol_side loc" and ?i = "ol_level_index loc" and ?j = "ol_slot loc"
  let ?w' = "w\<lparr>rest_quantity := rest_quantity w - q\<rparr>"
  note ok = shapeD [OF shape, of ?s]
  obtain l where l: "lvl (side_levels book ?s) ?i = Some l" "live_data l ?j = Some w"
    using w by (auto simp: order_at_def lookup_def bind_eq_Some_conv)
  have inv: "level_inv K l" using side_okD(4) [OF ok l(1)] by blast
  obtain l' where l': "reduce_quantity l ?j q = Some l'" "level_inv K l'" "walk l' = walk l"
      "live_data l' = (live_data l)(?j := Some ?w')" "pl_price l' = pl_price l"
    using reduce_quantity_level [OF inv l(2) q] by blast
  note sw = side_write [OF ok l l'(2,3,5,4)]
  define b where "b = set_level book ?s ?i (Some l')"
  have "order_at b = (order_at book)(loc := Some ?w')"
  proof
    fix x
    show "order_at b x = ((order_at book)(loc := Some ?w')) x"
      using sw(3) [of "ol_level_index x" "ol_slot x"]
      by (cases "x = loc") (auto simp: order_at_def b_def intro: order_location.equality)
  qed
  then have "\<forall>X. linked L K X book \<longrightarrow> linked L K X b"
    using linked_same_ids [of L K _ book b loc ?w' w] w by (simp add: b_def)
  moreover have "shape L K b" using shape sw(1) by (auto simp: shape_def b_def)
  moreover have "erows b ?s = write_row ?i ?j ((erase w)\<lparr>rest_quantity := rest_quantity w - q\<rparr>) (erows book ?s)"
    using sw(2) by (simp add: erows_def rows_def b_def erase_write)
  moreover have "erows b (opposite ?s) = erows book (opposite ?s)" by (simp add: erows_def rows_def b_def)
  ultimately show ?thesis using l(1) l'(1) by (auto simp: level_at_lvl b_def)
qed

definition report_of :: "new_order \<Rightarrow> fill_entry \<Rightarrow> execution_report" where
  "report_of order fill =
     \<lparr>er_maker_order_id = fe_order_id fill, er_taker_order_id = no_order_id order,
      er_instrument_id = no_instrument_id order, er_price = fe_price fill,
      er_quantity = fe_quantity fill, er_sequence = no_sequence order\<rparr>"

lemma drop_row_hd:
  assumes "distinct (map (\<lambda>(p, i, s, w). (i, s)) ((p, i, s, w) # rs))"
  shows "drop_row i s ((p, i, s, w) # rs) = rs"
proof -
  have "(i, s) \<notin> (\<lambda>(p, i, s, w). (i, s)) ` set rs" using assms by simp
  then have "drop_row i s rs = rs" unfolding drop_row_def by (intro filter_True) force
  then show ?thesis by (simp add: drop_row_def)
qed

lemma write_row_hd:
  assumes "distinct (map (\<lambda>(p, i, s, w). (i, s)) ((p, i, s, w) # rs))"
  shows "write_row i s w' ((p, i, s, w) # rs) = (p, i, s, w') # rs"
proof -
  have "(i, s) \<notin> (\<lambda>(p, i, s, w). (i, s)) ` set rs" using assms by simp
  then have "write_row i s w' rs = rs" unfolding write_row_def by (intro map_idI) force
  then show ?thesis by (simp add: write_row_def)
qed

lemma apply_fills_match:
  assumes "shape L K book" "linked L K {} book" "row_match t lim (erows book maker) rem = (fs, left, rs')"
    and "report_buffer_wf reports" "length (report_buffer_iter reports) + length fs \<le> length (rb_entries reports)"
  shows "\<exists>book' reports'. apply_fills L K order maker fs book reports = Some (book', reports') \<and>
    shape L K book' \<and> linked L K {} book' \<and> ob_instrument book' = ob_instrument book \<and>
    erows book' maker = rs' \<and> erows book' (opposite maker) = erows book (opposite maker) \<and>
    report_buffer_wf reports' \<and> length (rb_entries reports') = length (rb_entries reports) \<and>
    report_buffer_iter reports' = report_buffer_iter reports @ map (report_of order) fs"
  using assms
proof (induction "erows book maker" arbitrary: book rem fs reports)
  case Nil
  then show ?case by auto
next
  case (Cons r rs)
  obtain p i s w where r: "r = (p, i, s, w)" by (cases r)
  note rows = Cons.hyps(2) [symmetric, unfolded r]
  show ?case
  proof (cases "rem = 0 \<or> \<not> crosses t p lim")
    case True
    with Cons.prems show ?thesis unfolding rows by (auto simp: rows)
  next
    case False
    let ?loc = "\<lparr>ol_side = maker, ol_level_index = i, ol_slot = s\<rparr>"
    let ?fill = "\<lparr>fe_level_index = i, fe_slot = s, fe_order_id = rest_id w, fe_price = p,
      fe_quantity = min rem (rest_quantity w)\<rparr>"
    note shape = Cons.prems(1)
    have dist: "distinct (map (\<lambda>(p, i, s, w). (i, s)) ((p, i, s, w) # rs))"
      using distinct_erows [OF shape, of maker] unfolding rows .
    obtain w0 where w0: "order_at book ?loc = Some w0" "erase w0 = w"
      using erows_order_at [OF shape, of p i s w maker] unfolding rows by auto
    have w0q: "rest_quantity w0 = rest_quantity w" "rest_id w0 = rest_id w" using w0(2) by auto
    obtain l m where l: "level_at book maker i = Some l" "get_live l s = Some m" "strip m = w0"
      using order_at_level [OF w0(1)] by auto
    have mq: "rest_quantity m = rest_quantity w" "rest_index_slot m = rest_index_slot w0"
      using l(3) w0q by (auto simp: strip_def)
    have room: "length (report_buffer_iter reports) < length (rb_entries reports)"
      using Cons.prems(3,5) False unfolding rows by (auto simp: Let_def split: if_splits prod.splits)
    then obtain reports1 where rp: "report_buffer_push reports (report_of order ?fill) = Inr reports1"
        "report_buffer_wf reports1" "report_buffer_iter reports1 = report_buffer_iter reports @ [report_of order ?fill]"
        "length (rb_entries reports1) = length (rb_entries reports)"
      using rb.push_room [OF Cons.prems(4), of "report_of order ?fill"] by blast
    have step: "apply_fill L K order maker ?fill book reports =
        (if rest_quantity w = min rem (rest_quantity w) then
           Option.bind (remove_index_entry L K book (rest_index_slot w0) (rest_id w)) (\<lambda>(book, _).
           Option.bind (unlink_at book maker i s) (\<lambda>(book, _). Some (book, reports1)))
         else Option.bind (reduce_quantity l s (min rem (rest_quantity w))) (\<lambda>level.
           Some (set_level book maker i (Some level), reports1)))"
      using l rp(1) mq by (simp add: apply_fill_def report_of_def)
    show ?thesis
    proof (cases "rest_quantity w \<le> rem")
      case True
      then have mn: "min rem (rest_quantity w) = rest_quantity w" by (simp add: min_def)
      obtain fs' where fs: "row_match t lim rs (rem - rest_quantity w) = (fs', left, rs')" "fs = ?fill # fs'"
        using Cons.prems(3) False True unfolding rows by (auto simp: Let_def mn split: prod.splits)
      obtain b1 b2 x where b: "remove_index_entry L K book (rest_index_slot w0) (rest_id w0) = Some (b1, Some ?loc)"
          "unlink_at b1 maker i s = Some (b2, x)" "order_removed L K ?loc book b2"
        using remove_then_unlink [OF shape Cons.prems(2) w0(1)] by auto
      have b2: "shape L K b2" "linked L K {} b2" "ob_instrument b2 = ob_instrument book"
          "rs = erows b2 maker" "erows b2 (opposite maker) = erows book (opposite maker)"
        using b(3) unfolding order_removed_def by (auto simp: rows drop_row_hd [OF dist])
      have "apply_fill L K order maker ?fill book reports = Some (b2, reports1)"
        using step b mn w0q by simp
      moreover obtain b3 r3 where "apply_fills L K order maker fs' b2 reports1 = Some (b3, r3)"
        "shape L K b3 \<and> linked L K {} b3 \<and> ob_instrument b3 = ob_instrument b2 \<and>
         erows b3 maker = rs' \<and> erows b3 (opposite maker) = erows b2 (opposite maker) \<and>
         report_buffer_wf r3 \<and> length (rb_entries r3) = length (rb_entries reports1) \<and>
         report_buffer_iter r3 = report_buffer_iter reports1 @ map (report_of order) fs'"
        using Cons.hyps(1) [OF b2(4,1,2) fs(1) [unfolded b2(4)] rp(2)] Cons.prems(5) fs(2) rp(3,4) by auto
      ultimately show ?thesis using fs(2) rp b2 by auto
    next
      case part: False
      then have mn: "min rem (rest_quantity w) = rem" "rem < rest_quantity w" by (auto simp: min_def)
      have fs: "fs = [?fill]" "rs' = (p, i, s, w\<lparr>rest_quantity := rest_quantity w - rem\<rparr>) # rs"
        using Cons.prems(3) False part unfolding rows by (auto simp: Let_def mn)
      obtain l0 l' b' where b': "level_at book maker i = Some l0" "reduce_quantity l0 s rem = Some l'"
          "b' = set_level book maker i (Some l')" "shape L K b'" "linked L K {} b'" "ob_instrument b' = ob_instrument book"
          "erows b' maker = write_row i s ((erase w0)\<lparr>rest_quantity := rest_quantity w0 - rem\<rparr>) (erows book maker)"
          "erows b' (opposite maker) = erows book (opposite maker)"
        using reduce_at_ok [OF shape w0(1), of rem] Cons.prems(2) order.strict_implies_order [OF mn(2)] w0q
        by auto
      have "l0 = l" using b'(1) l(1) by simp
      then have "apply_fill L K order maker ?fill book reports = Some (b', reports1)"
        using step b'(2,3) mn by auto
      moreover have "erows b' maker = rs'"
        unfolding b'(7) rows write_row_hd [OF dist] fs(2) using w0 w0q by simp
      ultimately show ?thesis using fs(1) rp b' by auto
    qed
  qed
qed

end
