(* ===== verification/Book_Spec.thy ===== *)
theory Book_Spec
  imports Level_Index
begin

text \<open>
  The abstract specification of the book: each side is one list of priced orders in price-time
  priority, and the three operations are a few lines of list functions. The concrete book of
  \<^verbatim>\<open>crates/hft-book/src/lib.rs\<close> is proved to implement it in the theory Book_Refine; here are the
  specification itself and what holds of it: the invariant is kept, matching conserves quantity,
  fills happen in priority order at crossing prices, and a rejected command has no effect because a
  rejection is a value without a book.
\<close>

section \<open>Priority lists\<close>

text \<open>The order data that the book and the reference model of \<^verbatim>\<open>crates/hft-model\<close> share.\<close>

record model_order =
  mo_id :: order_id
  mo_account :: account_id
  mo_quantity :: quantity
  mo_sequence :: sequence_number

type_synonym prow = "price_ticks \<times> model_order"
type_synonym spec_book = "side \<Rightarrow> prow list"
type_synonym spec_fill = "order_id \<times> price_ticks \<times> quantity"

definition count_price :: "price_ticks \<Rightarrow> (price_ticks \<times> 'a) list \<Rightarrow> nat" where
  "count_price p rs = length (filter (\<lambda>r. fst r = p) rs)"

definition level_count :: "(price_ticks \<times> 'a) list \<Rightarrow> nat" where
  "level_count rs = length (remdups (map fst rs))"

section \<open>The operations\<close>

fun spec_match :: "side \<Rightarrow> price_ticks \<Rightarrow> prow list \<Rightarrow> u64 \<Rightarrow> spec_fill list \<times> u64 \<times> prow list" where
  "spec_match taker limit [] remaining = ([], remaining, [])"
| "spec_match taker limit ((p, m) # rs) remaining =
     (if remaining = 0 \<or> \<not> crosses taker p limit then ([], remaining, (p, m) # rs)
      else if mo_quantity m \<le> remaining
      then (let (fs, left, rs') = spec_match taker limit rs (remaining - mo_quantity m)
            in ((mo_id m, p, mo_quantity m) # fs, left, rs'))
      else ([(mo_id m, p, remaining)], 0, (p, m\<lparr>mo_quantity := mo_quantity m - remaining\<rparr>) # rs))"

definition spec_ids :: "spec_book \<Rightarrow> order_id list" where
  "spec_ids sb = map (mo_id \<circ> snd) (sb Buy @ sb Sell)"

definition best_crosses :: "side \<Rightarrow> price_ticks \<Rightarrow> prow list \<Rightarrow> bool" where
  "best_crosses taker limit rs = (case rs of [] \<Rightarrow> False | (p, _) # _ \<Rightarrow> crosses taker p limit)"

record spec_result =
  sr_book :: spec_book
  sr_fills :: "spec_fill list"
  sr_resting :: quantity
  sr_discarded :: quantity

definition spec_submit :: "nat \<Rightarrow> nat \<Rightarrow> nat \<Rightarrow> spec_book \<Rightarrow> new_order \<Rightarrow> reject_reason + spec_result" where
  "spec_submit L K cap sb order =
     (let side = no_side order; price = no_price order in
      if sint price \<le> 0 then Inl InvalidPrice
      else if no_quantity order = 0 then Inl InvalidQuantity
      else if no_order_id order \<in> set (spec_ids sb) then Inl DuplicateOrderId
      else if no_time_in_force order = PostOnly \<and> best_crosses side price (sb (opposite side))
      then Inl PostOnlyWouldTrade
      else
        let (fills, left, makers) = spec_match side price (sb (opposite side)) (no_quantity order) in
        if cap < length fills then Inl ReportCapacity
        else if no_time_in_force order = Fok \<and> left > 0 then Inl InsufficientLiquidity
        else if no_time_in_force order = Ioc \<or> left = 0
        then Inr \<lparr>sr_book = sb(opposite side := makers), sr_fills = fills, sr_resting = 0, sr_discarded = left\<rparr>
        else if 0 < count_price price (sb side) \<and> count_price price (sb side) = K then Inl PriceLevelOrderCapacity
        else if count_price price (sb side) = 0 \<and> level_count (sb side) = L then Inl PriceLevelCapacity
        else Inr \<lparr>sr_book = sb(opposite side := makers,
                    side := insert_row (side = Buy)
                      (price, \<lparr>mo_id = no_order_id order, mo_account = no_account_id order,
                               mo_quantity = left, mo_sequence = no_sequence order\<rparr>) (sb side)),
                  sr_fills = fills, sr_resting = left, sr_discarded = 0\<rparr>)"

definition spec_find :: "spec_book \<Rightarrow> order_id \<Rightarrow> (side \<times> prow) option" where
  "spec_find sb k =
     (case find (\<lambda>r. mo_id (snd r) = k) (sb Buy) of
        Some r \<Rightarrow> Some (Buy, r)
      | None \<Rightarrow> map_option (Pair Sell) (find (\<lambda>r. mo_id (snd r) = k) (sb Sell)))"

definition spec_remove :: "order_id \<Rightarrow> prow list \<Rightarrow> prow list" where
  "spec_remove k = filter (\<lambda>r. mo_id (snd r) \<noteq> k)"

definition spec_cancel :: "spec_book \<Rightarrow> cancel_order \<Rightarrow> reject_reason + spec_book \<times> model_order" where
  "spec_cancel sb cmd =
     (case spec_find sb (co_order_id cmd) of
        None \<Rightarrow> Inl UnknownOrder
      | Some (side, p, m) \<Rightarrow>
          if mo_account m \<noteq> co_account_id cmd then Inl NotOrderOwner
          else Inr (sb(side := spec_remove (co_order_id cmd) (sb side)), m))"

text \<open>The result of a replacement: the book, the old order and whether priority was lost.\<close>

definition spec_replace ::
  "nat \<Rightarrow> nat \<Rightarrow> spec_book \<Rightarrow> replace_order \<Rightarrow> reject_reason + spec_book \<times> model_order \<times> bool"
where
  "spec_replace L K sb cmd =
     (case spec_find sb (ro_order_id cmd) of
        None \<Rightarrow> Inl UnknownOrder
      | Some (side, old_price, m) \<Rightarrow>
          let k = ro_order_id cmd; price = ro_price cmd; others = spec_remove k (sb side) in
          if mo_account m \<noteq> ro_account_id cmd then Inl NotOrderOwner
          else if sint price \<le> 0 then Inl InvalidPrice
          else if ro_quantity cmd = 0 then Inl InvalidQuantity
          else if price = old_price \<and> ro_quantity cmd < mo_quantity m
          then Inr (sb(side := map (\<lambda>(p, x). (p, if mo_id x = k then x\<lparr>mo_quantity := ro_quantity cmd\<rparr> else x)) (sb side)),
                    m, False)
          else if price \<noteq> old_price \<and> best_crosses side price (sb (opposite side)) then Inl ReplaceWouldCross
          else if price \<noteq> old_price \<and> 0 < count_price price (sb side) \<and> count_price price (sb side) = K
          then Inl PriceLevelOrderCapacity
          else if count_price price (sb side) = 0 \<and> level_count (sb side) = L \<and> count_price old_price (sb side) \<noteq> 1
          then Inl PriceLevelCapacity
          else Inr (sb(side := insert_row (side = Buy)
                      (price, \<lparr>mo_id = k, mo_account = ro_account_id cmd, mo_quantity = ro_quantity cmd,
                               mo_sequence = ro_sequence cmd\<rparr>) others), m, True))"

section \<open>The invariant\<close>

text \<open>Best price first on each side, positive prices and quantities, distinct ids, and no crossing.\<close>

definition side_sorted :: "bool \<Rightarrow> (price_ticks \<times> 'a) list \<Rightarrow> bool" where
  "side_sorted d rs \<longleftrightarrow> sorted_wrt (\<lambda>a b. \<not> better d (fst b) (fst a)) rs"

definition rows_positive :: "prow list \<Rightarrow> bool" where
  "rows_positive rs \<longleftrightarrow> (\<forall>(p, m) \<in> set rs. 0 < sint p \<and> mo_quantity m \<noteq> 0)"

definition uncrossed :: "spec_book \<Rightarrow> bool" where
  "uncrossed sb \<longleftrightarrow> (\<forall>bid \<in> set (sb Buy). \<forall>ask \<in> set (sb Sell). sint (fst bid) < sint (fst ask))"

definition spec_inv :: "spec_book \<Rightarrow> bool" where
  "spec_inv sb \<longleftrightarrow>
     side_sorted True (sb Buy) \<and> side_sorted False (sb Sell) \<and>
     rows_positive (sb Buy) \<and> rows_positive (sb Sell) \<and> distinct (spec_ids sb) \<and> uncrossed sb"

section \<open>Matching\<close>

lemma crosses_better:
  "crosses t p limit \<Longrightarrow> \<not> crosses t q limit \<Longrightarrow> better (t = Sell) p q"
  by (cases t) (auto simp: crosses_def better_def)

lemma spec_match_rest_stops:
  assumes "spec_match t lim rs rem = (fs, left, rs')" "side_sorted (t = Sell) rs" "left \<noteq> 0"
  shows "\<forall>r \<in> set rs'. \<not> crosses t (fst r) lim"
  using assms
proof (induction rs arbitrary: rem fs)
  case (Cons r rs)
  obtain p m where r: "r = (p, m)" by (cases r)
  show ?case
  proof (cases "crosses t p lim")
    case False
    have "\<not> crosses t (fst q) lim" if "q \<in> set rs" for q
      using Cons.prems(2) that r crosses_better [OF _ False] by (auto simp: side_sorted_def)
    with False Cons.prems(1) r show ?thesis by auto
  next
    case True
    with Cons show ?thesis
      by (auto simp: r side_sorted_def split: if_splits prod.splits)
  qed
qed simp

lemma spec_match_sublist:
  assumes "spec_match t lim rs rem = (fs, left, rs')"
  shows "\<exists>as bs. rs = as @ bs \<and> length rs' = length bs \<and> map fst rs' = map fst bs \<and>
    map (mo_id \<circ> snd) rs' = map (mo_id \<circ> snd) bs"
  using assms
proof (induction rs arbitrary: rem fs)
  case (Cons r rs)
  obtain p m where r: "r = (p, m)" by (cases r)
  show ?case
  proof (cases "rem \<noteq> 0 \<and> crosses t p lim \<and> mo_quantity m \<le> rem")
    case True
    then obtain fs' where "spec_match t lim rs (rem - mo_quantity m) = (fs', left, rs')"
      using Cons.prems r by (auto split: prod.splits)
    from Cons.IH [OF this] obtain as bs where "rs = as @ bs" "length rs' = length bs"
      "map fst rs' = map fst bs" "map (mo_id \<circ> snd) rs' = map (mo_id \<circ> snd) bs" by blast
    then show ?thesis by (intro exI [of _ bs, THEN exI [of _ "r # as"]]) (simp add: o_def)
  next
    case False
    with Cons.prems r show ?thesis
      by (intro exI [of _ "r # rs", THEN exI [of _ "[]"]]) (auto split: if_splits)
  qed
qed simp

text \<open>Conservation: what the makers lose is what trades, and what does not trade is left.\<close>

definition total_quantity :: "prow list \<Rightarrow> int" where
  "total_quantity rs = (\<Sum>(p, m) \<leftarrow> rs. uint (mo_quantity m))"

definition total_traded :: "spec_fill list \<Rightarrow> int" where
  "total_traded fs = (\<Sum>(k, p, q) \<leftarrow> fs. uint q)"

lemma total_simps [simp]:
  "total_quantity [] = 0" "total_quantity ((p, m) # rs) = uint (mo_quantity m) + total_quantity rs"
  "total_traded [] = 0" "total_traded ((k, p, q) # fs) = uint q + total_traded fs"
  by (simp_all add: total_quantity_def total_traded_def)

lemma spec_match_conserves:
  assumes "spec_match t lim rs rem = (fs, left, rs')"
  shows "total_traded fs + uint left = uint rem \<and> total_quantity rs = total_quantity rs' + total_traded fs"
  using assms
proof (induction rs arbitrary: rem fs)
  case (Cons r rs)
  obtain p m where r: "r = (p, m)" by (cases r)
  show ?case
  proof (cases "rem \<noteq> 0 \<and> crosses t p lim \<and> mo_quantity m \<le> rem")
    case True
    then obtain fs' where "spec_match t lim rs (rem - mo_quantity m) = (fs', left, rs')"
      "fs = (mo_id m, p, mo_quantity m) # fs'"
      using Cons.prems r by (auto split: prod.splits)
    with Cons.IH [of "rem - mo_quantity m" fs'] True show ?thesis
      by (auto simp: r uint_diff_bounded)
  next
    case False
    with Cons.prems r show ?thesis
      by (auto simp: uint_diff_bounded split: if_splits)
  qed
qed simp

text \<open>Fills are at crossing prices, of positive size, and take the makers in priority order.\<close>

lemma spec_match_fills:
  assumes "spec_match t lim rs rem = (fs, left, rs')" "rows_positive rs"
  shows "map fst fs = map (mo_id \<circ> snd) (take (length fs) rs) \<and>
    map (fst \<circ> snd) fs = map fst (take (length fs) rs) \<and>
    (\<forall>(k, p, q) \<in> set fs. crosses t p lim \<and> q \<noteq> 0)"
  using assms
proof (induction rs arbitrary: rem fs)
  case (Cons r rs)
  obtain p m where r: "r = (p, m)" by (cases r)
  have pos: "rows_positive rs" "mo_quantity m \<noteq> 0" using Cons.prems(2) r by (auto simp: rows_positive_def)
  show ?case
  proof (cases "rem \<noteq> 0 \<and> crosses t p lim \<and> mo_quantity m \<le> rem")
    case True
    then obtain fs' where "spec_match t lim rs (rem - mo_quantity m) = (fs', left, rs')"
      "fs = (mo_id m, p, mo_quantity m) # fs'"
      using Cons.prems r by (auto split: prod.splits)
    with Cons.IH [of "rem - mo_quantity m" fs'] True pos show ?thesis by (auto simp: r)
  next
    case False
    with Cons.prems r show ?thesis by (auto split: if_splits)
  qed
qed simp

lemma spec_match_positive:
  assumes "spec_match t lim rs rem = (fs, left, rs')" "rows_positive rs"
  shows "rows_positive rs'"
  using assms
proof (induction rs arbitrary: rem fs)
  case (Cons r rs)
  obtain p m where r: "r = (p, m)" by (cases r)
  show ?case
  proof (cases "rem \<noteq> 0 \<and> crosses t p lim \<and> mo_quantity m \<le> rem")
    case True
    then obtain fs' where "spec_match t lim rs (rem - mo_quantity m) = (fs', left, rs')"
      using Cons.prems r by (auto split: prod.splits)
    with Cons.IH Cons.prems(2) show ?thesis by (auto simp: rows_positive_def)
  next
    case False
    with Cons.prems r show ?thesis by (auto simp: rows_positive_def split: if_splits)
  qed
qed simp

section \<open>The invariant is kept\<close>

lemma side_sorted_prices: "side_sorted d rs = sorted_wrt (\<lambda>a b. \<not> better d b a) (map fst rs)"
  by (simp add: side_sorted_def sorted_wrt_map)

lemma side_sorted_append:
  "side_sorted d (as @ bs) \<longleftrightarrow> side_sorted d as \<and> side_sorted d bs \<and> (\<forall>a \<in> set as. \<forall>b \<in> set bs. \<not> better d (fst b) (fst a))"
  by (auto simp: side_sorted_def sorted_wrt_append)

lemma side_sorted_Cons:
  "side_sorted d (r # rs) \<longleftrightarrow> (\<forall>b \<in> set rs. \<not> better d (fst b) (fst r)) \<and> side_sorted d rs"
  by (simp add: side_sorted_def)

lemma side_sorted_filter: "side_sorted d rs \<Longrightarrow> side_sorted d (filter P rs)"
  by (simp add: side_sorted_def sorted_wrt_filter)

lemma set_insert_row [simp]: "set (insert_row d r rs) = insert r (set rs)"
proof -
  have "set rs = set (takeWhile P rs) \<union> set (dropWhile P rs)" for P
    by (metis set_append takeWhile_dropWhile_id)
  then show ?thesis by (auto simp: insert_row_def)
qed

lemma side_sorted_insert:
  assumes "side_sorted d rs"
  shows "side_sorted d (insert_row d r rs)"
proof -
  let ?P = "\<lambda>q. \<not> better d (fst r) (fst q)"
  let ?as = "takeWhile ?P rs" and ?bs = "dropWhile ?P rs"
  have sp: "side_sorted d (?as @ ?bs)" using assms by simp
  have "\<forall>a \<in> set ?as. \<not> better d (fst r) (fst a)" by (auto dest: set_takeWhileD)
  moreover have "\<not> better d (fst b) (fst r)" if b: "b \<in> set ?bs" for b
  proof (cases ?bs)
    case (Cons h t)
    have "better d (fst r) (fst h)" using hd_dropWhile [of ?P rs] Cons by simp
    moreover have "b = h \<or> \<not> better d (fst b) (fst h)"
      using sp b unfolding Cons side_sorted_append by (auto simp: side_sorted_def)
    ultimately show ?thesis by (meson better_antisym better_trans)
  next
    case Nil
    show ?thesis using b unfolding Nil by simp
  qed
  moreover have "side_sorted d ?as" "side_sorted d ?bs" "\<forall>a \<in> set ?as. \<forall>b \<in> set ?bs. \<not> better d (fst b) (fst a)"
    using sp unfolding side_sorted_append by blast+
  ultimately show ?thesis
    unfolding insert_row_def side_sorted_append side_sorted_Cons set_simps by blast
qed

lemma map_insert_row:
  "(\<And>q. fst (f q) = fst q) \<Longrightarrow> map f (insert_row d r rs) = insert_row d (f r) (map f rs)"
  by (simp add: insert_row_def takeWhile_map dropWhile_map o_def)

lemma distinct_insert_row:
  "distinct (map f (insert_row d r rs)) \<longleftrightarrow> f r \<notin> f ` set rs \<and> distinct (map f rs)"
proof -
  obtain as bs where "rs = as @ bs" "insert_row d r rs = as @ r # bs"
    by (metis insert_row_def takeWhile_dropWhile_id)
  then show ?thesis by auto
qed

lemma spec_invD:
  assumes "spec_inv sb"
  shows "side_sorted (side = Buy) (sb side)" "rows_positive (sb side)" "distinct (map (mo_id \<circ> snd) (sb side))"
    "set (map (mo_id \<circ> snd) (sb Buy)) \<inter> set (map (mo_id \<circ> snd) (sb Sell)) = {}" "uncrossed sb"
  using assms by (cases side; auto simp: spec_inv_def spec_ids_def)+

lemma spec_inv_disjoint:
  "spec_inv sb \<Longrightarrow> (mo_id \<circ> snd) ` set (sb side) \<inter> (mo_id \<circ> snd) ` set (sb (opposite side)) = {}"
  using spec_invD(4) [of sb] by (cases side) (simp_all add: Int_commute)

text \<open>Changing one side: the four conditions and the crossing against the other side.\<close>

lemma spec_inv_update:
  assumes inv: "spec_inv sb" and srt: "side_sorted (side = Buy) rs" and pos: "rows_positive rs"
    and dis: "distinct (map (mo_id \<circ> snd) rs)"
    and ids: "(mo_id \<circ> snd) ` set rs \<inter> (mo_id \<circ> snd) ` set (sb (opposite side)) = {}"
    and cross: "\<forall>r \<in> set rs. \<forall>q \<in> set (sb (opposite side)). \<not> crosses side (fst q) (fst r)"
  shows "spec_inv (sb(side := rs))"
proof -
  note o = spec_invD(1-3) [OF inv, of "opposite side"]
  have "distinct (spec_ids (sb(side := rs)))"
    using o(3) dis ids by (cases side) (simp_all add: spec_ids_def Int_commute)
  moreover have "uncrossed (sb(side := rs))"
    using cross by (cases side) (simp_all add: uncrossed_def crosses_def not_le)
  moreover have "side_sorted True ((sb(side := rs)) Buy) \<and> side_sorted False ((sb(side := rs)) Sell) \<and>
      rows_positive ((sb(side := rs)) Buy) \<and> rows_positive ((sb(side := rs)) Sell)"
    using o(1,2) srt pos by (cases side) simp_all
  ultimately show ?thesis unfolding spec_inv_def by blast
qed

lemma uncrossed_side:
  assumes "uncrossed sb" "r \<in> set (sb side)" "q \<in> set (sb (opposite side))"
  shows "\<not> crosses side (fst q) (fst r)"
  using assms by (cases side) (fastforce simp: uncrossed_def crosses_def)+

lemma spec_match_side:
  assumes inv: "spec_inv sb" and m: "spec_match t lim (sb (opposite t)) rem = (fs, left, rs')"
  shows "spec_inv (sb(opposite t := rs'))" "(mo_id \<circ> snd) ` set rs' \<subseteq> (mo_id \<circ> snd) ` set (sb (opposite t))"
    "left \<noteq> 0 \<Longrightarrow> \<forall>r \<in> set rs'. \<not> crosses t (fst r) lim"
proof -
  note d = spec_invD [OF inv]
  obtain as bs where ab: "sb (opposite t) = as @ bs" "map fst rs' = map fst bs"
      "map (mo_id \<circ> snd) rs' = map (mo_id \<circ> snd) bs"
    using spec_match_sublist [OF m] by blast
  have ids: "(mo_id \<circ> snd) ` set rs' = (mo_id \<circ> snd) ` set bs"
    using ab(3) by (metis list.set_map)
  then show sub: "(mo_id \<circ> snd) ` set rs' \<subseteq> (mo_id \<circ> snd) ` set (sb (opposite t))"
    unfolding ab(1) by auto
  have prices: "fst ` set rs' = fst ` set bs" using ab(2) by (metis list.set_map)
  have flip: "(opposite t = Buy) = (t = Sell)" by (cases t) auto
  have "side_sorted (opposite t = Buy) bs"
    using d(1) [of "opposite t"] unfolding ab(1) side_sorted_append by blast
  then have "side_sorted (opposite t = Buy) rs'" using ab(2) by (simp add: side_sorted_prices)
  moreover have "rows_positive rs'" by (rule spec_match_positive [OF m d(2)])
  moreover have "distinct (map (mo_id \<circ> snd) rs')"
    using d(3) [of "opposite t"] unfolding ab(1,3) by simp
  moreover have "(mo_id \<circ> snd) ` set rs' \<inter> (mo_id \<circ> snd) ` set (sb t) = {}"
    using sub d(4) by (cases t) auto
  moreover have "\<not> crosses (opposite t) (fst q) (fst r)" if r: "r \<in> set rs'" "q \<in> set (sb t)" for r q
  proof -
    obtain r0 where r0: "r0 \<in> set bs" "fst r0 = fst r" using prices r(1) by (metis imageE imageI)
    then have "r0 \<in> set (sb (opposite t))" unfolding ab(1) by simp
    with uncrossed_side [OF d(5), of r0 "opposite t" q] r(2) r0(2) show ?thesis by simp
  qed
  ultimately show "spec_inv (sb(opposite t := rs'))"
    using spec_inv_update [OF inv, of "opposite t" rs'] by simp
  show "left \<noteq> 0 \<Longrightarrow> \<forall>r \<in> set rs'. \<not> crosses t (fst r) lim"
    using spec_match_rest_stops [OF m] d(1) [of "opposite t"] flip by simp
qed

lemma spec_submit_inv:
  assumes inv: "spec_inv sb" and r: "spec_submit L K cap sb order = Inr res"
  shows "spec_inv (sr_book res)"
proof -
  let ?t = "no_side order" and ?p = "no_price order" and ?k = "no_order_id order"
  obtain fs left rs' where m: "spec_match ?t ?p (sb (opposite ?t)) (no_quantity order) = (fs, left, rs')"
    by (metis prod_cases3)
  note ms = spec_match_side [OF inv m]
  have pre: "0 < sint ?p" "?k \<notin> set (spec_ids sb)"
    using r by (auto simp: spec_submit_def Let_def m split: if_splits)
  consider "sr_book res = sb(opposite ?t := rs')"
    | "sr_book res = sb(opposite ?t := rs', ?t := insert_row (?t = Buy) (?p, \<lparr>mo_id = ?k, mo_account = no_account_id order,
         mo_quantity = left, mo_sequence = no_sequence order\<rparr>) (sb ?t))" "left \<noteq> 0"
    using r by (auto simp: spec_submit_def Let_def m split: if_splits)
  then show ?thesis
  proof cases
    case 1
    with ms(1) show ?thesis by simp
  next
    case 2
    let ?new = "(?p, \<lparr>mo_id = ?k, mo_account = no_account_id order, mo_quantity = left, mo_sequence = no_sequence order\<rparr>)"
    note d = spec_invD [OF inv]
    have notin: "?k \<notin> (mo_id \<circ> snd) ` set (sb side)" for side
      using pre(2) by (cases side) (auto simp: spec_ids_def)
    have "side_sorted (?t = Buy) (insert_row (?t = Buy) ?new (sb ?t))" by (rule side_sorted_insert [OF d(1)])
    moreover have "rows_positive (insert_row (?t = Buy) ?new (sb ?t))"
      using d(2) [of ?t] pre(1) 2(2) by (simp add: rows_positive_def)
    moreover have "distinct (map (mo_id \<circ> snd) (insert_row (?t = Buy) ?new (sb ?t)))"
      using d(3) [of ?t] notin [of ?t] by (simp add: distinct_insert_row)
    moreover have "(mo_id \<circ> snd) ` set (insert_row (?t = Buy) ?new (sb ?t)) \<inter> (mo_id \<circ> snd) ` set rs' = {}"
    proof -
      have "?k \<notin> (mo_id \<circ> snd) ` set rs'" using notin ms(2) by blast
      moreover have "(mo_id \<circ> snd) ` set (sb ?t) \<inter> (mo_id \<circ> snd) ` set rs' = {}"
        using ms(2) d(4) by (cases ?t) auto
      ultimately show ?thesis by simp
    qed
    moreover have "\<forall>r \<in> set (insert_row (?t = Buy) ?new (sb ?t)). \<forall>q \<in> set rs'. \<not> crosses ?t (fst q) (fst r)"
      using ms(3) 2(2) uncrossed_side [OF spec_invD(5) [OF ms(1)], of _ ?t] by auto
    ultimately show ?thesis
      unfolding 2(1) using spec_inv_update [OF ms(1), of ?t] by simp
  qed
qed

lemma spec_find_Some:
  assumes "spec_inv sb"
  shows "spec_find sb k = Some (side, r) \<longleftrightarrow> r \<in> set (sb side) \<and> mo_id (snd r) = k"
proof -
  note d = spec_invD [OF assms]
  have uniq: "r = r'" if "r \<in> set (sb s)" "r' \<in> set (sb s)" "mo_id (snd r) = mo_id (snd r')" for r r' s
    using d(3) [of s] that by (auto simp: distinct_map inj_on_def)
  have cross: "False" if "r \<in> set (sb Buy)" "r' \<in> set (sb Sell)" "mo_id (snd r) = mo_id (snd r')" for r r'
    using d(4) that by (auto simp: disjoint_iff image_iff)
  show ?thesis
  proof
    assume "spec_find sb k = Some (side, r)"
    then show "r \<in> set (sb side) \<and> mo_id (snd r) = k"
      by (auto simp: spec_find_def find_Some_iff in_set_conv_nth split: option.splits)
  next
    assume r: "r \<in> set (sb side) \<and> mo_id (snd r) = k"
    have hit: "find (\<lambda>r. mo_id (snd r) = k) (sb side) = Some r"
    proof (cases "find (\<lambda>r. mo_id (snd r) = k) (sb side)")
      case None
      with r show ?thesis unfolding find_None_iff by blast
    next
      case (Some r')
      then have "r' \<in> set (sb side)" "mo_id (snd r') = k" by (auto simp: find_Some_iff in_set_conv_nth)
      with uniq [of r' side r] r Some show ?thesis by simp
    qed
    show "spec_find sb k = Some (side, r)"
    proof (cases side)
      case Buy
      with hit show ?thesis by (simp add: spec_find_def)
    next
      case Sell
      have "find (\<lambda>r. mo_id (snd r) = k) (sb Buy) = None"
        using cross r Sell unfolding find_None_iff by metis
      with hit Sell show ?thesis by (simp add: spec_find_def)
    qed
  qed
qed

lemma spec_remove_inv:
  assumes "spec_inv sb"
  shows "spec_inv (sb(side := spec_remove k (sb side)))"
proof -
  note d = spec_invD [OF assms]
  have sub: "set (spec_remove k (sb side)) \<subseteq> set (sb side)" by (auto simp: spec_remove_def)
  have "distinct (map (mo_id \<circ> snd) (spec_remove k (sb side)))"
    using d(3) [of side] unfolding spec_remove_def by (rule distinct_map_filter)
  moreover have "(mo_id \<circ> snd) ` set (spec_remove k (sb side)) \<inter> (mo_id \<circ> snd) ` set (sb (opposite side)) = {}"
    using spec_inv_disjoint [OF assms, of side] image_mono [OF sub, of "mo_id \<circ> snd"] by blast
  moreover have "rows_positive (spec_remove k (sb side))" using d(2) [of side] sub by (auto simp: rows_positive_def)
  ultimately show ?thesis
    using assms d(1) [of side] sub uncrossed_side [OF d(5)]
    by (intro spec_inv_update) (auto simp: spec_remove_def side_sorted_filter)
qed

lemma spec_cancel_inv: "\<lbrakk>spec_inv sb; spec_cancel sb cmd = Inr (sb', m)\<rbrakk> \<Longrightarrow> spec_inv sb'"
  by (auto simp: spec_cancel_def spec_remove_inv split: option.splits prod.splits if_splits)

lemma best_crosses_all:
  assumes "side_sorted (t = Sell) rs" "\<not> best_crosses t lim rs" "r \<in> set rs"
  shows "\<not> crosses t (fst r) lim"
proof (cases rs)
  case (Cons h tl)
  then have "\<not> crosses t (fst h) lim" "r = h \<or> \<not> better (t = Sell) (fst r) (fst h)"
    using assms by (auto simp: best_crosses_def side_sorted_Cons)
  then show ?thesis using crosses_better by blast
qed (use assms in simp)

lemma spec_replace_inv:
  assumes inv: "spec_inv sb" and r: "spec_replace L K sb cmd = Inr (sb', m, lost)"
  shows "spec_inv sb'"
proof -
  let ?k = "ro_order_id cmd" and ?p = "ro_price cmd"
  obtain side old where f: "spec_find sb ?k = Some (side, old, m)"
    using r by (auto simp: spec_replace_def Let_def split: option.splits prod.splits if_splits)
  have old: "(old, m) \<in> set (sb side)" "mo_id m = ?k" using f spec_find_Some [OF inv] by auto
  note d = spec_invD [OF inv]
  have pos: "0 < sint ?p" "ro_quantity cmd \<noteq> 0"
    using r f by (auto simp: spec_replace_def Let_def split: if_splits)
  show ?thesis
  proof (cases "?p = old \<and> ro_quantity cmd < mo_quantity m")
    case True
    let ?f = "\<lambda>(p, x). (p, if mo_id x = ?k then x\<lparr>mo_quantity := ro_quantity cmd\<rparr> else x)"
    have sb': "sb' = sb(side := map ?f (sb side))"
      using r f True by (auto simp: spec_replace_def Let_def split: if_splits)
    have fst_f: "map fst (map ?f rs) = map fst rs" for rs by (induction rs) auto
    have id_f: "map (mo_id \<circ> snd) (map ?f rs) = map (mo_id \<circ> snd) rs" for rs by (induction rs) auto
    have ids: "(mo_id \<circ> snd) ` set (map ?f rs) = (mo_id \<circ> snd) ` set rs" for rs
      using arg_cong [OF id_f [of rs], of set] by (simp only: list.set_map)
    show ?thesis
      unfolding sb'
    proof (rule spec_inv_update [OF inv])
      show "side_sorted (side = Buy) (map ?f (sb side))" using d(1) [of side] by (simp only: side_sorted_prices fst_f)
      show "rows_positive (map ?f (sb side))"
        using d(2) [of side] pos(2) by (auto simp: rows_positive_def split: if_splits)
      show "distinct (map (mo_id \<circ> snd) (map ?f (sb side)))" unfolding id_f by (rule d(3))
      show "(mo_id \<circ> snd) ` set (map ?f (sb side)) \<inter> (mo_id \<circ> snd) ` set (sb (opposite side)) = {}"
        unfolding ids by (rule spec_inv_disjoint [OF inv])
      show "\<forall>r \<in> set (map ?f (sb side)). \<forall>q \<in> set (sb (opposite side)). \<not> crosses side (fst q) (fst r)"
        using uncrossed_side [OF d(5), of _ side] by fastforce
    qed
  next
    case False
    let ?new = "(?p, \<lparr>mo_id = ?k, mo_account = ro_account_id cmd, mo_quantity = ro_quantity cmd, mo_sequence = ro_sequence cmd\<rparr>)"
    let ?rest = "spec_remove ?k (sb side)"
    have sb': "sb' = sb(side := insert_row (side = Buy) ?new ?rest)"
      and nc: "?p = old \<or> \<not> best_crosses side ?p (sb (opposite side))"
      using r f False by (auto simp: spec_replace_def Let_def split: if_splits)
    note d' = spec_invD [OF spec_remove_inv [OF inv, of side ?k]]
    have k: "?k \<notin> (mo_id \<circ> snd) ` set ?rest" by (auto simp: spec_remove_def)
    have k': "?k \<notin> (mo_id \<circ> snd) ` set (sb (opposite side))"
    proof -
      have "?k \<in> (mo_id \<circ> snd) ` set (sb side)" using old by force
      with spec_inv_disjoint [OF inv, of side] show ?thesis by blast
    qed
    have flip: "(opposite side = Buy) = (side = Sell)" by (cases side) auto
    have newc: "\<forall>q \<in> set (sb (opposite side)). \<not> crosses side (fst q) ?p"
    proof (cases "?p = old")
      case True
      then show ?thesis using uncrossed_side [OF d(5) old(1)] by auto
    next
      case False
      then have "\<not> best_crosses side ?p (sb (opposite side))" using nc by blast
      with best_crosses_all [of side "sb (opposite side)" ?p] d(1) [of "opposite side"] flip
      show ?thesis by simp
    qed
    show ?thesis
      unfolding sb'
    proof (rule spec_inv_update [OF inv])
      show "side_sorted (side = Buy) (insert_row (side = Buy) ?new ?rest)"
        using d'(1) [of side] by (simp add: side_sorted_insert)
      show "rows_positive (insert_row (side = Buy) ?new ?rest)"
        using d'(2) [of side] pos by (simp add: rows_positive_def)
      show "distinct (map (mo_id \<circ> snd) (insert_row (side = Buy) ?new ?rest))"
        using d'(3) [of side] k by (simp add: distinct_insert_row)
      show "(mo_id \<circ> snd) ` set (insert_row (side = Buy) ?new ?rest) \<inter> (mo_id \<circ> snd) ` set (sb (opposite side)) = {}"
        using spec_inv_disjoint [OF spec_remove_inv [OF inv, of side ?k], of side] k' by simp
      show "\<forall>r \<in> set (insert_row (side = Buy) ?new ?rest). \<forall>q \<in> set (sb (opposite side)). \<not> crosses side (fst q) (fst r)"
        using newc uncrossed_side [OF d'(5), of _ side] by auto
    qed
  qed
qed

end
