(* ===== verification/Book_Refine.thy ===== *)
theory Book_Refine
  imports Book_Match Book_Spec
begin

text \<open>
  The order book implements its specification. \<open>abs_book\<close> forgets slots, links, handles and the
  index and keeps, per side, the priced orders in priority order. Every operation of
  \<^verbatim>\<open>crates/hft-book/src/lib.rs\<close> on a well-formed book returns (no \<open>expect\<close> fails, no index is out
  of range), rejects exactly when the specification rejects and with the same reason, and otherwise
  leads to a well-formed book whose abstraction is the specified one.
\<close>

section \<open>Abstraction\<close>

definition abs_order :: "resting_order \<Rightarrow> model_order" where
  "abs_order w = \<lparr>mo_id = rest_id w, mo_account = rest_account_id w, mo_quantity = rest_quantity w,
                  mo_sequence = rest_sequence w\<rparr>"

definition abs_row :: "row \<Rightarrow> prow" where
  "abs_row = (\<lambda>(p, i, s, w). (p, abs_order w))"

definition abs_book :: "order_book \<Rightarrow> spec_book" where
  "abs_book book side = map abs_row (erows book side)"

definition abs_fill :: "fill_entry \<Rightarrow> spec_fill" where
  "abs_fill f = (fe_order_id f, fe_price f, fe_quantity f)"

definition book_inv :: "nat \<Rightarrow> nat \<Rightarrow> order_book \<Rightarrow> bool" where
  "book_inv L K book \<longleftrightarrow> 0 < K \<and> shape L K book \<and> linked L K {} book \<and> spec_inv (abs_book book)"

lemma abs_row_simp [simp]: "abs_row (p, i, s, w) = (p, abs_order w)"
  by (simp add: abs_row_def)

lemma fst_abs_row [simp]: "fst (abs_row r) = fst r"
  by (cases r) simp

lemma abs_order_simps [simp]:
  "mo_id (abs_order w) = rest_id w" "mo_account (abs_order w) = rest_account_id w"
  "mo_quantity (abs_order w) = rest_quantity w" "mo_sequence (abs_order w) = rest_sequence w"
  "abs_order (erase w) = abs_order w" "abs_order (strip w) = abs_order w"
  "abs_order (w\<lparr>rest_quantity := q\<rparr>) = (abs_order w)\<lparr>mo_quantity := q\<rparr>"
  by (simp_all add: abs_order_def strip_def)

lemma row_match_spec:
  assumes "row_match t lim rs rem = (fs, left, rs')"
  shows "spec_match t lim (map abs_row rs) rem = (map abs_fill fs, left, map abs_row rs')"
  using assms
proof (induction rs arbitrary: rem fs)
  case (Cons r rs)
  obtain p i s w where r: "r = (p, i, s, w)" by (cases r)
  show ?case
  proof (cases "rem = 0 \<or> \<not> crosses t p lim")
    case True
    with Cons.prems r show ?thesis by auto
  next
    case False
    show ?thesis
    proof (cases "rest_quantity w \<le> rem")
      case True
      then have "min rem (rest_quantity w) = rest_quantity w" by (simp add: min_def)
      with Cons.prems False True obtain fs' where
          f: "row_match t lim rs (rem - rest_quantity w) = (fs', left, rs')"
          "fs = \<lparr>fe_level_index = i, fe_slot = s, fe_order_id = rest_id w, fe_price = p, fe_quantity = rest_quantity w\<rparr> # fs'"
        unfolding r by (auto simp: Let_def split: prod.splits)
      from Cons.IH [OF f(1)] f(2) False True show ?thesis unfolding r by (simp add: abs_fill_def)
    next
      case part: False
      then have "min rem (rest_quantity w) = rem" by (auto simp: min_def)
      with Cons.prems False part show ?thesis unfolding r by (auto simp: Let_def abs_fill_def)
    qed
  qed
qed auto

section \<open>Reading the book and reading its abstraction\<close>

lemma erows_prices:
  assumes "shape L K book"
  shows "fst ` set (erows book side) = fst ` set (iter (side_index book side))"
proof -
  note o = side_okD [OF shapeD [OF assms, of side]]
  have "fst ` set (erows book side) = fst ` set (rows book side)"
    by (force simp: erows_def erase_row_def image_iff)
  also have "\<dots> = fst ` set (iter (side_index book side))"
  proof (intro equalityI subsetI)
    fix p
    assume "p \<in> fst ` set (rows book side)"
    then show "p \<in> fst ` set (iter (side_index book side))"
      using rows_of_prices unfolding rows_def by blast
  next
    fix p
    assume "p \<in> fst ` set (iter (side_index book side))"
    then obtain i where pi: "(p, i) \<in> set (iter (side_index book side))" by force
    then obtain l where l: "lvl (side_levels book side) i = Some l" "pl_price l = p" "walk l \<noteq> []"
      using o(5) by blast
    then have "level_rows p i l \<noteq> []" "\<forall>r \<in> set (level_rows p i l). fst r = p" by (auto simp: level_rows_def)
    moreover have "set (level_rows p i l) \<subseteq> set (rows book side)"
      using rows_split [OF shapeD [OF assms] l(1)] l(2) unfolding rows_def by auto
    ultimately show "p \<in> fst ` set (rows book side)" by (metis (no_types) image_eqI last_in_set subset_iff)
  qed
  finally show ?thesis .
qed

lemma level_count_erows:
  assumes "shape L K book"
  shows "level_count (abs_book book side) = length (iter (side_index book side))"
proof -
  note o = side_okD [OF shapeD [OF assms, of side]]
  have "level_count (abs_book book side) = card (fst ` set (erows book side))"
    by (simp add: level_count_def abs_book_def length_remdups_card_conv image_image)
  also have "\<dots> = card (set (map fst (iter (side_index book side))))"
    by (simp add: erows_prices [OF assms])
  also have "\<dots> = length (iter (side_index book side))"
    using distinct_card [OF ld.distinct_prices [OF o(2)]] by simp
  finally show ?thesis .
qed

lemma count_price_map: "(\<And>r. fst (f r) = fst r) \<Longrightarrow> count_price p (map f rs) = count_price p rs"
  by (simp add: count_price_def filter_map o_def)

lemma count_price_0: "count_price p rs = 0 \<longleftrightarrow> p \<notin> fst ` set rs"
  by (force simp: count_price_def filter_empty_conv)

lemma fst_erase_row [simp]: "fst (erase_row r) = fst r"
  by (cases r) simp

lemma count_price_abs: "count_price p (abs_book book side) = count_price p (rows book side)"
  by (simp add: abs_book_def erows_def count_price_map)

lemma rows_of_prices_subset: "fst ` set (rows_of levels es) \<subseteq> fst ` set es"
  unfolding image_subset_iff using rows_of_prices by blast

lemma count_price_level:
  assumes "shape L K book" "lvl (side_levels book side) i = Some l"
  shows "count_price (pl_price l) (abs_book book side) = pl_len l" "pl_len l = length (walk l)" "0 < pl_len l"
proof -
  note o = side_okD [OF shapeD [OF assms(1), of side]]
  obtain as bs where sp: "iter (side_index book side) = as @ (pl_price l, i) # bs"
      "rows_of (side_levels book side) (iter (side_index book side))
       = rows_of (side_levels book side) as @ level_rows (pl_price l) i l @ rows_of (side_levels book side) bs"
    using rows_split [OF shapeD [OF assms(1)] assms(2)] by blast
  have "distinct (map fst (as @ (pl_price l, i) # bs))" using ld.distinct_prices [OF o(2)] sp(1) by simp
  then have "pl_price l \<notin> fst ` set as" "pl_price l \<notin> fst ` set bs" by auto
  then have "pl_price l \<notin> fst ` set (rows_of (side_levels book side) as)"
      "pl_price l \<notin> fst ` set (rows_of (side_levels book side) bs)"
    using rows_of_prices_subset [of "side_levels book side"] by blast+
  then have z: "count_price (pl_price l) (rows_of (side_levels book side) as) = 0"
      "count_price (pl_price l) (rows_of (side_levels book side) bs) = 0" by (simp_all add: count_price_0)
  have "count_price (pl_price l) (level_rows (pl_price l) i l) = length (walk l)"
    by (simp add: count_price_def level_rows_def filter_map o_def)
  with z have "count_price (pl_price l) (rows book side) = length (walk l)"
    unfolding rows_def sp(2) by (simp add: count_price_def)
  moreover show len: "pl_len l = length (walk l)"
    using o(4) [OF assms(2)] level_repD(14) [OF level_inv_rep] by blast
  ultimately show "count_price (pl_price l) (abs_book book side) = pl_len l" by (simp add: count_price_abs)
  show "0 < pl_len l" using len o(4) [OF assms(2)] by simp
qed

lemma li_find_level:
  assumes "shape L K book"
  shows "case li_find (side_index book side) p (side = Buy) of
      None \<Rightarrow> count_price p (abs_book book side) = 0
    | Some i \<Rightarrow> \<exists>l. level_at book side i = Some l \<and> pl_price l = p \<and>
        pl_len l = count_price p (abs_book book side) \<and> 0 < pl_len l \<and> pl_len l = length (walk l) \<and> pl_len l \<le> K"
proof -
  note o = side_okD [OF shapeD [OF assms, of side]]
  have find: "li_find (side_index book side) p (side = Buy) = map_of (iter (side_index book side)) p"
    by (rule li_find_map_of [OF o(2)])
  show ?thesis
  proof (cases "map_of (iter (side_index book side)) p")
    case None
    then have "p \<notin> fst ` set (abs_book book side)"
      using erows_prices [OF assms, of side] by (simp add: map_of_eq_None_iff abs_book_def image_image)
    then show ?thesis using None find by (simp add: count_price_0)
  next
    case (Some i)
    then obtain l where l: "lvl (side_levels book side) i = Some l" "pl_price l = p" "level_inv K l"
      using o(5) [OF map_of_SomeD] by blast
    then show ?thesis
      using Some find count_price_level [OF assms l(1)] lv.length_fifo [OF l(3)] by (simp add: level_at_lvl)
  qed
qed

lemma has_room_abs:
  assumes "shape L K book"
  shows "has_room L K book side p \<longleftrightarrow>
    (if count_price p (abs_book book side) = 0 then level_count (abs_book book side) < L
     else count_price p (abs_book book side) < K)"
  using li_find_level [OF assms, where side = side and p = p] level_count_erows [OF assms, where side = side]
  by (cases "li_find (side_index book side) p (side = Buy)") (auto simp: has_room_def level_at_lvl)

lemma capacity_bounds:
  assumes "shape L K book"
  shows "count_price p (abs_book book side) \<le> K \<and> level_count (abs_book book side) \<le> L"
proof -
  note o = side_okD [OF shapeD [OF assms, of side]]
  have "level_count (abs_book book side) \<le> L"
    using level_count_erows [OF assms, where side = side] li_lengths [OF o(2)] by linarith
  then show ?thesis
    using li_find_level [OF assms, where side = side and p = p] by (auto split: option.splits)
qed

lemma best_abs:
  assumes "shape L K book"
  shows "(case iter (side_index book side) of [] \<Rightarrow> False | (p, _) # _ \<Rightarrow> crosses t p lim)
    = best_crosses t lim (abs_book book side)"
proof (cases "iter (side_index book side)")
  case Nil
  then show ?thesis by (simp add: abs_book_def erows_def rows_def best_crosses_def)
next
  case (Cons e es)
  obtain p i where e: "e = (p, i)" by (cases e)
  then obtain l where l: "lvl (side_levels book side) i = Some l" "walk l \<noteq> []"
    using side_okD(5) [OF shapeD [OF assms, of side], of p i] Cons by auto
  then obtain s xs where "walk l = s # xs" by (cases "walk l") auto
  with Cons e l show ?thesis
    by (simp add: abs_book_def erows_def rows_def best_crosses_def level_rows_def)
qed

lemma order_at_abs:
  assumes "shape L K book"
  shows "(\<exists>loc w. order_at book loc = Some w \<and> ol_side loc = side \<and> rest_id w = k)
    \<longleftrightarrow> k \<in> (mo_id \<circ> snd) ` set (abs_book book side)"
proof -
  have "(\<exists>loc w. order_at book loc = Some w \<and> ol_side loc = side \<and> rest_id w = k)
      \<longleftrightarrow> (\<exists>i s w. order_at book \<lparr>ol_side = side, ol_level_index = i, ol_slot = s\<rparr> = Some w \<and> rest_id w = k)"
    (is "?lhs \<longleftrightarrow> ?rhs")
  proof
    assume ?lhs
    then obtain loc w where "order_at book loc = Some w" "ol_side loc = side" "rest_id w = k" by blast
    then show ?rhs by (cases loc) auto
  qed fastforce
  also have "\<dots> \<longleftrightarrow> (\<exists>i s w. (\<exists>p. (p, i, s, w) \<in> set (rows book side)) \<and> rest_id w = k)"
    by (simp only: rows_order_at [OF assms])
  also have "\<dots> \<longleftrightarrow> k \<in> (mo_id \<circ> snd) ` set (abs_book book side)"
    by (force simp: abs_book_def erows_def erase_row_def image_iff)
  finally show ?thesis .
qed

lemma contains_order_abs:
  assumes "shape L K book" "linked L K {} book"
  shows "contains_order L K book k \<longleftrightarrow> k \<in> set (spec_ids (abs_book book))"
proof -
  have "contains_order L K book k \<longleftrightarrow> (\<exists>loc w. order_at book loc = Some w \<and> rest_id w = k)"
    using assms(2) by (auto simp: linked_def contains_order_def)
  also have "\<dots> \<longleftrightarrow> (\<exists>side. \<exists>loc w. order_at book loc = Some w \<and> ol_side loc = side \<and> rest_id w = k)" by blast
  also have "\<dots> \<longleftrightarrow> (\<exists>side. k \<in> (mo_id \<circ> snd) ` set (abs_book book side))"
    by (simp only: order_at_abs [OF assms(1)])
  also have "\<dots> \<longleftrightarrow> k \<in> set (spec_ids (abs_book book))"
  proof
    assume "\<exists>side. k \<in> (mo_id \<circ> snd) ` set (abs_book book side)"
    then obtain side where "k \<in> (mo_id \<circ> snd) ` set (abs_book book side)" ..
    then show "k \<in> set (spec_ids (abs_book book))" by (cases side) (simp_all add: spec_ids_def image_Un)
  next
    assume "k \<in> set (spec_ids (abs_book book))"
    then show "\<exists>side. k \<in> (mo_id \<circ> snd) ` set (abs_book book side)"
      unfolding spec_ids_def set_map set_append image_Un by blast
  qed
  finally show ?thesis .
qed

section \<open>Submit\<close>

definition spec_report :: "new_order \<Rightarrow> spec_fill \<Rightarrow> execution_report" where
  "spec_report order = (\<lambda>(k, p, q).
     \<lparr>er_maker_order_id = k, er_taker_order_id = no_order_id order, er_instrument_id = no_instrument_id order,
      er_price = p, er_quantity = q, er_sequence = no_sequence order\<rparr>)"

definition spec_summary :: "new_order \<Rightarrow> spec_result \<Rightarrow> match_summary" where
  "spec_summary order res =
     (let filled = no_quantity order - sr_resting res - sr_discarded res in
      \<lparr>ms_state = (if filled = no_quantity order then Filled else if filled = 0 then Accepted else PartiallyFilled),
       ms_filled_quantity = filled, ms_resting_quantity = sr_resting res,
       ms_discarded_quantity = sr_discarded res, ms_report_count = length (sr_fills res)\<rparr>)"

lemma spec_report_of [simp]: "spec_report order (abs_fill f) = report_of order f"
  by (simp add: spec_report_def abs_fill_def report_of_def)

lemma rest_preflight_abs:
  assumes "shape L K book"
  shows "rest_preflight K book order =
    (let n = count_price (no_price order) (abs_book book (no_side order)) in
     Some (if 0 < n \<and> n = K then Inl PriceLevelOrderCapacity
           else if n = 0 \<and> level_count (abs_book book (no_side order)) = L then Inl PriceLevelCapacity
           else Inr ()))"
proof -
  note o = side_okD [OF shapeD [OF assms, of "no_side order"]]
  have "is_full (side_index book (no_side order)) \<longleftrightarrow> level_count (abs_book book (no_side order)) = L"
    using li_insert_full(1) [OF o(2)] level_count_erows [OF assms] by simp
  then show ?thesis
    using li_find_level [OF assms, where side = "no_side order" and p = "no_price order"]
    by (auto simp: rest_preflight_def Let_def split: option.splits)
qed

text \<open>The abstraction of a book in which one side changed.\<close>

lemma abs_book_update:
  assumes "erows b' side = rs" "erows b' (opposite side) = erows b (opposite side)"
  shows "abs_book b' = (abs_book b)(side := map abs_row rs)"
proof
  fix x
  show "abs_book b' x = ((abs_book b)(side := map abs_row rs)) x"
    using assms by (cases x; cases side) (simp_all add: abs_book_def)
qed

lemma build_plan_walk:
  assumes "shape L K book" "report_capacity \<le> REPORTS"
    and "row_match t lim (erows book (opposite t)) rem = (fs, left, rs')" "no_side order = t" "no_price order = lim"
  shows "plan_levels book order (iter (side_index book (opposite t))) rem
      (match_plan_new REPORTS (opposite t) report_capacity) =
    Some (if length fs \<le> report_capacity
          then Inr (left, (match_plan_new REPORTS (opposite t) report_capacity)\<lparr>mp_fills := fs\<rparr>) else Inl ReportCapacity)"
proof -
  let ?plan = "match_plan_new REPORTS (opposite t) report_capacity"
  note o = side_okD [OF shapeD [OF assms(1), of "opposite t"]]
  obtain f r a where m: "row_match t lim (rows book (opposite t)) rem = (f, r, a)" by (metis prod_cases3)
  with assms(3) have eq: "f = fs" "r = left" by (auto simp: erows_def row_match_erase)
  have "plan_levels book order (iter (side_index book (opposite t))) rem ?plan =
      Some (plan_result ?plan (row_match t lim (rows book (opposite t)) rem))"
    using plan_levels_match [of "iter (side_index book (opposite t))" book ?plan K order rem] o(5) assms(4,5)
    by (auto simp: match_plan_new_def rows_def)
  then show ?thesis
    using assms(2) by (simp add: m eq plan_result_def match_plan_new_def)
qed

text \<open>The whole of \<open>build_plan\<close>, read on the abstraction.\<close>

lemma build_plan_abs:
  assumes shape: "shape L K book" and link: "linked L K {} book" and cap: "report_capacity \<le> REPORTS"
    and m: "row_match (no_side order) (no_price order) (erows book (opposite (no_side order))) (no_quantity order) = (fs, left, rs')"
    and ins: "no_instrument_id order = ob_instrument book"
  shows "build_plan L K REPORTS book order report_capacity =
    (let sb = abs_book book; t = no_side order; p = no_price order; tif = no_time_in_force order;
         plan = (\<lambda>resting discarded. Inr \<lparr>mp_fills = fs, mp_capacity = report_capacity, mp_maker_side = opposite t,
                   mp_resting_quantity = resting, mp_discarded = discarded\<rparr>) in
     Some (if sint p \<le> 0 then Inl InvalidPrice
       else if no_quantity order = 0 then Inl InvalidQuantity
       else if no_order_id order \<in> set (spec_ids sb) then Inl DuplicateOrderId
       else if tif = PostOnly \<and> best_crosses t p (sb (opposite t)) then Inl PostOnlyWouldTrade
       else if report_capacity < length fs then Inl ReportCapacity
       else if tif = Fok \<and> left > 0 then Inl InsufficientLiquidity
       else if tif = Ioc \<or> left = 0 then plan 0 left
       else if 0 < count_price p (sb t) \<and> count_price p (sb t) = K then Inl PriceLevelOrderCapacity
       else if count_price p (sb t) = 0 \<and> level_count (sb t) = L then Inl PriceLevelCapacity
       else plan left 0))"
proof -
  have po: "post_only_would_trade book order \<longleftrightarrow>
      no_time_in_force order = PostOnly \<and> best_crosses (no_side order) (no_price order) (abs_book book (opposite (no_side order)))"
    by (simp add: post_only_would_trade_def best_abs [OF shape])
  note walk = build_plan_walk [OF shape cap m refl refl]
  have mp: "(match_plan_new REPORTS side report_capacity)\<lparr>mp_fills := fs, mp_resting_quantity := r, mp_discarded := d\<rparr>
      = \<lparr>mp_fills = fs, mp_capacity = report_capacity, mp_maker_side = side, mp_resting_quantity = r, mp_discarded = d\<rparr>"
    for side r d
    using cap by (simp add: match_plan_new_def min_absorb1)
  show ?thesis
  proof (cases "report_capacity < length fs")
    case True
    then show ?thesis
      using ins by (simp add: build_plan_def Let_def contains_order_abs [OF shape link] po walk)
  next
    case False
    with ins cap show ?thesis
      by (cases "no_time_in_force order")
        (simp_all add: build_plan_def Let_def contains_order_abs [OF shape link] po walk
          rest_preflight_abs [OF shape] mp word_gt_0)
  qed
qed

lemma report_remaining:
  "report_buffer_wf reports \<Longrightarrow> length (report_buffer_iter reports) + report_buffer_remaining_capacity reports = length (rb_entries reports)"
  "report_buffer_wf reports \<Longrightarrow> rb_len reports = length (report_buffer_iter reports)"
  by (simp_all add: report_buffer_wf_def report_buffer_remaining_capacity_def report_buffer_iter_def)

lemma apply_plan_spec:
  assumes inv: "book_inv L K book" and wf: "report_buffer_wf reports"
    and m: "row_match (no_side order) (no_price order) (erows book (opposite (no_side order))) rem = (fs, left, rs')"
    and cap: "length fs \<le> report_buffer_remaining_capacity reports"
    and new: "no_order_id order \<notin> set (spec_ids (abs_book book))"
    and plan: "mp_maker_side plan = opposite (no_side order)" "mp_fills plan = fs" "mp_resting_quantity plan = resting"
    and room: "resting \<noteq> 0 \<Longrightarrow> has_room L K book (no_side order) (no_price order)"
  shows "\<exists>book' reports'. apply_plan L K book order plan reports = Some (book', reports') \<and>
    shape L K book' \<and> linked L K {} book' \<and> ob_instrument book' = ob_instrument book \<and>
    abs_book book' = (let sb = (abs_book book)(opposite (no_side order) := map abs_row rs') in
      if resting = 0 then sb
      else sb(no_side order := insert_row (no_side order = Buy)
        (no_price order, \<lparr>mo_id = no_order_id order, mo_account = no_account_id order,
           mo_quantity = resting, mo_sequence = no_sequence order\<rparr>) (abs_book book (no_side order)))) \<and>
    report_buffer_wf reports' \<and> length (rb_entries reports') = length (rb_entries reports) \<and>
    report_buffer_iter reports' = report_buffer_iter reports @ map (report_of order) fs"
proof -
  let ?t = "no_side order" and ?p = "no_price order"
  have inv': "0 < K" "shape L K book" "linked L K {} book" "spec_inv (abs_book book)"
    using inv by (auto simp: book_inv_def)
  have "length (report_buffer_iter reports) + length fs \<le> length (rb_entries reports)"
    using cap report_remaining(1) [OF wf] by simp
  then obtain b1 r1 where b1: "apply_fills L K order (opposite ?t) fs book reports = Some (b1, r1)" "shape L K b1"
      "linked L K {} b1" "ob_instrument b1 = ob_instrument book" "erows b1 (opposite ?t) = rs'"
      "erows b1 ?t = erows book ?t" "report_buffer_wf r1" "length (rb_entries r1) = length (rb_entries reports)"
      "report_buffer_iter r1 = report_buffer_iter reports @ map (report_of order) fs"
    using apply_fills_match [OF inv'(2,3) m wf, of order] by auto
  have abs1: "abs_book b1 = (abs_book book)(opposite ?t := map abs_row rs')"
    by (rule abs_book_update) (simp_all add: b1)
  show ?thesis
  proof (cases "resting = 0")
    case True
    with b1 abs1 plan show ?thesis by (simp add: apply_plan_def)
  next
    case False
    let ?w = "\<lparr>rest_id = no_order_id order, rest_account_id = no_account_id order, rest_index_slot = 0,
        rest_quantity = resting, rest_sequence = no_sequence order, rest_prev = NIL, rest_next = NIL\<rparr>"
    have own: "abs_book b1 ?t = abs_book book ?t" by (simp add: abs_book_def b1)
    have "no_order_id order \<notin> set (spec_ids (abs_book b1))"
    proof -
      have sm: "spec_match ?t ?p (abs_book book (opposite ?t)) rem = (map abs_fill fs, left, map abs_row rs')"
        using row_match_spec [OF m] by (simp add: abs_book_def)
      have "(mo_id \<circ> snd) ` set (map abs_row rs') \<subseteq> (mo_id \<circ> snd) ` set (abs_book book (opposite ?t))"
        by (rule spec_match_side(2) [OF inv'(4) sm])
      with new show ?thesis
        by (cases ?t) (auto simp: spec_ids_def abs1 image_iff subset_iff)
    qed
    then have "index_location L K (ob_index b1) (rest_id ?w) = None"
      using contains_order_abs [OF b1(2,3), of "no_order_id order"] by (simp add: contains_order_def)
    moreover have "has_room L K b1 ?t ?p"
      using room [OF False] has_room_abs [OF inv'(2)] has_room_abs [OF b1(2)] own by simp
    ultimately obtain b2 i s where b2: "rest_at_tail L K b1 ?t ?p ?w = Some b2" "shape L K b2" "linked L K {} b2"
        "ob_instrument b2 = ob_instrument b1"
        "erows b2 ?t = insert_row (?t = Buy) (?p, i, s, erase (strip ?w)) (erows b1 ?t)"
        "erows b2 (opposite ?t) = erows b1 (opposite ?t)"
      using rest_at_tail_ok [OF b1(2,3) inv'(1), of ?w ?t ?p] by blast
    have "abs_book b2 = (abs_book b1)(?t := insert_row (?t = Buy) (?p, abs_order ?w) (abs_book book ?t))"
      using abs_book_update [OF b2(5,6)] by (simp add: map_insert_row abs_book_def b1(6))
    then show ?thesis
      using b1 b2 False plan by (simp add: apply_plan_def rest_def abs1 abs_order_def word_gt_0)
  qed
qed

lemma submit_simulates:
  assumes inv: "book_inv L K book" and wf: "report_buffer_wf reports"
    and ins: "no_instrument_id order = ob_instrument book"
  shows "case spec_submit L K (report_buffer_remaining_capacity reports) (abs_book book) order of
      Inl e \<Rightarrow> submit L K book order reports = Some (Inl e)
    | Inr res \<Rightarrow> \<exists>book' reports'. submit L K book order reports = Some (Inr (book', reports', spec_summary order res)) \<and>
        book_inv L K book' \<and> ob_instrument book' = ob_instrument book \<and> abs_book book' = sr_book res \<and>
        report_buffer_wf reports' \<and> length (rb_entries reports') = length (rb_entries reports) \<and>
        report_buffer_iter reports' = report_buffer_iter reports @ map (spec_report order) (sr_fills res)"
proof -
  let ?t = "no_side order" and ?p = "no_price order" and ?q = "no_quantity order"
  let ?cap = "report_buffer_remaining_capacity reports" and ?R = "length (rb_entries reports)"
  let ?spec = "spec_submit L K ?cap (abs_book book) order"
  have inv': "0 < K" "shape L K book" "linked L K {} book" "spec_inv (abs_book book)"
    using inv by (auto simp: book_inv_def)
  have capR: "?cap \<le> ?R" by (simp add: report_buffer_remaining_capacity_def)
  obtain fs left rs' where m: "row_match ?t ?p (erows book (opposite ?t)) ?q = (fs, left, rs')" by (metis prod_cases3)
  have sm: "spec_match ?t ?p (abs_book book (opposite ?t)) ?q = (map abs_fill fs, left, map abs_row rs')"
    using row_match_spec [OF m] by (simp add: abs_book_def)
  note bp = build_plan_abs [OF inv'(2,3) capR m ins]
  show ?thesis
  proof (cases ?spec)
    case (Inl e)
    then have "build_plan L K ?R book order ?cap = Some (Inl e)"
      unfolding bp by (simp add: spec_submit_def sm Let_def word_gt_0 split: if_splits)
    then show ?thesis using Inl by (simp add: submit_def)
  next
    case (Inr res)
    then obtain plan where plan: "build_plan L K ?R book order ?cap = Some (Inr plan)"
        "mp_maker_side plan = opposite ?t" "mp_fills plan = fs" "mp_resting_quantity plan = sr_resting res"
        "mp_discarded plan = sr_discarded res" and le: "length fs \<le> ?cap"
      and res: "sr_fills res = map abs_fill fs"
        "sr_book res = (let sb = (abs_book book)(opposite ?t := map abs_row rs') in
          if sr_resting res = 0 then sb
          else sb(?t := insert_row (?t = Buy) (?p, \<lparr>mo_id = no_order_id order, mo_account = no_account_id order,
             mo_quantity = sr_resting res, mo_sequence = no_sequence order\<rparr>) (abs_book book ?t)))"
      and new: "no_order_id order \<notin> set (spec_ids (abs_book book))"
      and room: "sr_resting res \<noteq> 0 \<Longrightarrow> \<not> (0 < count_price ?p (abs_book book ?t) \<and> count_price ?p (abs_book book ?t) = K) \<and>
        \<not> (count_price ?p (abs_book book ?t) = 0 \<and> level_count (abs_book book ?t) = L)"
      unfolding bp by (auto simp: spec_submit_def sm Let_def split: if_splits)
    have hr: "sr_resting res \<noteq> 0 \<Longrightarrow> has_room L K book ?t ?p"
      using room capacity_bounds [OF inv'(2), of ?p ?t] unfolding has_room_abs [OF inv'(2)] by auto
    obtain book' reports' where ap: "apply_plan L K book order plan reports = Some (book', reports')"
        "shape L K book'" "linked L K {} book'" "ob_instrument book' = ob_instrument book" "abs_book book' = sr_book res"
        "report_buffer_wf reports'" "length (rb_entries reports') = length (rb_entries reports)"
        "report_buffer_iter reports' = report_buffer_iter reports @ map (report_of order) fs"
      using apply_plan_spec [OF inv wf m le new plan(2-4) hr] res(2) by auto
    have "book_inv L K book'"
      using ap inv' spec_submit_inv [OF inv'(4) Inr] by (simp add: book_inv_def)
    moreover have "rb_len reports' - rb_len reports = length (sr_fills res)"
      using report_remaining(2) [OF wf] report_remaining(2) [OF ap(6)] ap(8) res(1) by simp
    moreover have "map (spec_report order) (sr_fills res) = map (report_of order) fs"
      by (simp add: res(1))
    ultimately show ?thesis
      using ap plan Inr by (simp add: submit_def spec_summary_def Let_def)
  qed
qed

section \<open>Cancel and replace\<close>

text \<open>Positions and ids name the same row of a side.\<close>

lemma erows_ids_inj:
  assumes "spec_inv (abs_book book)"
  shows "inj_on (\<lambda>r. rest_id (row_order r)) (set (erows book side))"
proof -
  have "distinct (map (mo_id \<circ> snd) (abs_book book side))" by (rule spec_invD(3) [OF assms])
  then have "distinct (map (\<lambda>r. rest_id (row_order r)) (erows book side))"
    by (simp add: abs_book_def o_def abs_row_def split_beta)
  then show ?thesis by (simp add: distinct_map)
qed

lemma row_unique:
  assumes inv: "book_inv L K book" and r: "(p, i, s, w) \<in> set (erows book side)"
    and q: "(p', j, t, x) \<in> set (erows book side)"
  shows "(j, t) = (i, s) \<longleftrightarrow> rest_id x = rest_id w"
proof -
  have inv': "shape L K book" "spec_inv (abs_book book)" using inv by (auto simp: book_inv_def)
  have pos: "inj_on (\<lambda>(p, i, s, w). (i, s)) (set (erows book side))"
    using distinct_erows [OF inv'(1), of side] by (simp add: distinct_map)
  show ?thesis
  proof
    assume "(j, t) = (i, s)"
    then have "(p', j, t, x) = (p, i, s, w)" by (intro inj_onD [OF pos _ q r]) simp
    then show "rest_id x = rest_id w" by simp
  next
    assume "rest_id x = rest_id w"
    then have "(p', j, t, x) = (p, i, s, w)" by (intro inj_onD [OF erows_ids_inj [OF inv'(2)] _ q r]) simp
    then show "(j, t) = (i, s)" by simp
  qed
qed

lemma abs_drop_row:
  assumes "book_inv L K book" "(p, i, s, w) \<in> set (erows book side)"
  shows "map abs_row (drop_row i s (erows book side)) = spec_remove (rest_id w) (abs_book book side)"
proof -
  have "drop_row i s (erows book side) = filter (\<lambda>r. rest_id (row_order r) \<noteq> rest_id w) (erows book side)"
    unfolding drop_row_def
  proof (intro filter_cong refl)
    fix r
    assume r: "r \<in> set (erows book side)"
    obtain p' j t x where "r = (p', j, t, x)" by (rule prod_cases4)
    with r row_unique [OF assms, of p' j t x]
    show "(case r of (_, j, t, _) \<Rightarrow> (j, t) \<noteq> (i, s)) = (rest_id (row_order r) \<noteq> rest_id w)" by auto
  qed
  then show ?thesis
    by (simp add: abs_book_def spec_remove_def filter_map o_def abs_row_def split_beta)
qed

lemma abs_write_row:
  assumes "book_inv L K book" "(p, i, s, w) \<in> set (erows book side)"
  shows "map abs_row (write_row i s (w\<lparr>rest_quantity := q\<rparr>) (erows book side)) =
    map (\<lambda>(p, x). (p, if mo_id x = rest_id w then x\<lparr>mo_quantity := q\<rparr> else x)) (abs_book book side)"
  unfolding abs_book_def write_row_def map_map
proof (intro map_cong refl)
  fix r
  assume r: "r \<in> set (erows book side)"
  obtain p' j t x where e: "r = (p', j, t, x)" by (cases r)
  have sp: "spec_inv (abs_book book)" using assms(1) by (simp add: book_inv_def)
  have "rest_id x = rest_id w \<Longrightarrow> (p', j, t, x) = (p, i, s, w)"
    using r by (intro inj_onD [OF erows_ids_inj [OF sp] _ _ assms(2)]) (simp_all add: e)
  with row_unique [OF assms, of p' j t x] r e
  show "(abs_row \<circ> (\<lambda>(p, j, t, x). (p, j, t, if (j, t) = (i, s) then w\<lparr>rest_quantity := q\<rparr> else x))) r =
      ((\<lambda>(p, x). (p, if mo_id x = rest_id w then x\<lparr>mo_quantity := q\<rparr> else x)) \<circ> abs_row) r"
    by auto
qed

lemma spec_find_None: "spec_find sb k = None \<longleftrightarrow> k \<notin> set (spec_ids sb)"
proof -
  have "spec_find sb k = None \<longleftrightarrow> find (\<lambda>r. mo_id (snd r) = k) (sb Buy) = None \<and> find (\<lambda>r. mo_id (snd r) = k) (sb Sell) = None"
    by (simp add: spec_find_def split: option.splits)
  also have "\<dots> \<longleftrightarrow> (\<forall>r \<in> set (sb Buy @ sb Sell). mo_id (snd r) \<noteq> k)"
    unfolding find_None_iff set_append ball_Un by blast
  also have "\<dots> \<longleftrightarrow> k \<notin> (\<lambda>r. mo_id (snd r)) ` set (sb Buy @ sb Sell)" by blast
  finally show ?thesis by (simp add: spec_ids_def o_def image_Un)
qed

text \<open>What \<open>locate\<close> finds is what the specification finds.\<close>

lemma locate_abs:
  assumes inv: "book_inv L K book"
  shows "case spec_find (abs_book book) k of
      None \<Rightarrow> locate L K book k = None
    | Some (side, p, m) \<Rightarrow> \<exists>i s w l maker.
        locate L K book k = Some (\<lparr>ol_side = side, ol_level_index = i, ol_slot = s\<rparr>, mo_account m) \<and>
        order_at book \<lparr>ol_side = side, ol_level_index = i, ol_slot = s\<rparr> = Some w \<and> rest_id w = k \<and>
        m = abs_order w \<and> (p, i, s, erase w) \<in> set (erows book side) \<and>
        level_at book side i = Some l \<and> pl_price l = p \<and> get_live l s = Some maker \<and> strip maker = w"
proof -
  have inv': "shape L K book" "linked L K {} book" "spec_inv (abs_book book)" using inv by (auto simp: book_inv_def)
  note ids = contains_order_abs [OF inv'(1,2), of k]
  show ?thesis
  proof (cases "spec_find (abs_book book) k")
    case None
    then have "k \<notin> set (spec_ids (abs_book book))" by (simp add: spec_find_None)
    then show ?thesis using ids None by (simp add: contains_order_def locate_def)
  next
    case (Some r)
    obtain side p m where r: "r = (side, p, m)" by (cases r)
    have pm: "(p, m) \<in> set (abs_book book side)" "mo_id m = k"
      using spec_find_Some [OF inv'(3), of k side "(p, m)"] Some r by auto
    then obtain i s w where row: "(p, i, s, w) \<in> set (rows book side)" "m = abs_order w"
      by (auto simp: abs_book_def erows_def erase_row_def)
    let ?loc = "\<lparr>ol_side = side, ol_level_index = i, ol_slot = s\<rparr>"
    have oa: "order_at book ?loc = Some w" using row(1) rows_order_at [OF inv'(1)] by blast
    have wk: "rest_id w = k" using pm(2) row(2) by simp
    obtain l maker where l: "level_at book side i = Some l" "get_live l s = Some maker" "strip maker = w"
      using order_at_level [OF oa] by auto
    have price: "pl_price l = p"
      using rows_lookup [OF shapeD [OF inv'(1), of side], of p i s w] row(1) l(1) by (auto simp: rows_def level_at_lvl)
    have "index_location L K (ob_index book) k = Some ?loc"
      using inv'(2) oa wk by (auto simp: linked_def)
    moreover have "rest_id maker = k" "rest_account_id maker = mo_account m"
      using arg_cong [OF l(3), of rest_id] arg_cong [OF l(3), of rest_account_id] wk row(2) by simp_all
    ultimately have "locate L K book k = Some (?loc, mo_account m)"
      using l(1,2) by (simp add: locate_def)
    moreover have "(p, i, s, erase w) \<in> set (erows book side)"
      using row(1) by (force simp: erows_def)
    ultimately show ?thesis using Some r oa wk row(2) l price by auto
  qed
qed

lemma cancel_simulates:
  assumes inv: "book_inv L K book" and ins: "co_instrument_id cmd = ob_instrument book"
  shows "case spec_cancel (abs_book book) cmd of
      Inl e \<Rightarrow> cancel L K book cmd = Some (Inl e)
    | Inr (sb, m) \<Rightarrow> \<exists>book'. cancel L K book cmd = Some (Inr (book', \<lparr>cd_order_id = mo_id m,
          cd_account_id = mo_account m, cd_quantity = mo_quantity m\<rparr>)) \<and>
        book_inv L K book' \<and> ob_instrument book' = ob_instrument book \<and> abs_book book' = sb"
proof -
  let ?k = "co_order_id cmd"
  have inv': "0 < K" "shape L K book" "linked L K {} book" "spec_inv (abs_book book)"
    using inv by (auto simp: book_inv_def)
  show ?thesis
  proof (cases "spec_find (abs_book book) ?k")
    case None
    then show ?thesis using locate_abs [OF inv, of ?k] ins by (simp add: spec_cancel_def cancel_def)
  next
    case (Some r)
    obtain side p m where r: "r = (side, p, m)" by (cases r)
    obtain i s w where loc: "locate L K book ?k = Some (\<lparr>ol_side = side, ol_level_index = i, ol_slot = s\<rparr>, mo_account m)"
        "order_at book \<lparr>ol_side = side, ol_level_index = i, ol_slot = s\<rparr> = Some w" "rest_id w = ?k"
        "m = abs_order w" "(p, i, s, erase w) \<in> set (erows book side)"
      using locate_abs [OF inv, of ?k] unfolding Some r option.case prod.case by blast
    show ?thesis
    proof (cases "mo_account m = co_account_id cmd")
      case False
      then show ?thesis using Some r loc(1) ins by (simp add: spec_cancel_def cancel_def)
    next
      case True
      obtain b1 b2 x l where rm: "unlink_at book side i s = Some (b1, x)" "strip x = w"
          "remove_index_entry L K b1 (rest_index_slot w) ?k = Some (b2, l)"
          "order_removed L K \<lparr>ol_side = side, ol_level_index = i, ol_slot = s\<rparr> book b2"
        using unlink_then_remove [OF inv'(2,3) loc(2)] loc(3) by auto
      have x: "rest_index_slot x = rest_index_slot w" "rest_id x = rest_id w" "rest_account_id x = rest_account_id w"
          "rest_quantity x = rest_quantity w" using rm(2) by (auto simp: strip_def)
      have c: "cancel L K book cmd = Some (Inr (b2, \<lparr>cd_order_id = mo_id m, cd_account_id = mo_account m,
          cd_quantity = mo_quantity m\<rparr>))"
        using loc rm(1,3) x True ins by (simp add: cancel_def)
      have sp: "spec_cancel (abs_book book) cmd = Inr ((abs_book book)(side := spec_remove ?k (abs_book book side)), m)"
        using Some r True by (simp add: spec_cancel_def)
      have "abs_book b2 = (abs_book book)(side := spec_remove ?k (abs_book book side))"
        using abs_book_update [of b2 side _ book] rm(4) abs_drop_row [OF inv loc(5)] loc(3)
        by (simp add: order_removed_def)
      moreover have "shape L K b2" "linked L K {} b2" "ob_instrument b2 = ob_instrument book"
        using rm(4) by (simp_all add: order_removed_def)
      ultimately show ?thesis
        using c sp inv' spec_cancel_inv [OF inv'(4) sp] by (simp add: book_inv_def)
    qed
  qed
qed

text \<open>Room on a side from which one order was taken.\<close>

lemma count_price_remove:
  assumes "distinct (map (mo_id \<circ> snd) rs)" "(old, m) \<in> set rs"
  shows "count_price p (spec_remove (mo_id m) rs) = count_price p rs - (if p = old then 1 else 0)"
proof -
  obtain as bs where ab: "rs = as @ (old, m) # bs" using assms(2) by (meson split_list)
  have "spec_remove (mo_id m) as = as" "spec_remove (mo_id m) bs = bs"
    using assms(1) unfolding ab spec_remove_def by (auto simp: filter_id_conv image_iff)
  then have "spec_remove (mo_id m) rs = as @ bs" by (simp add: ab spec_remove_def)
  then show ?thesis by (simp add: ab count_price_def)
qed

lemma level_count_card: "level_count rs = card (fst ` set rs)"
  by (simp add: level_count_def length_remdups_card_conv)

lemma level_count_remove:
  assumes "distinct (map (mo_id \<circ> snd) rs)" "(old, m) \<in> set rs"
  shows "level_count (spec_remove (mo_id m) rs) \<le> level_count rs"
    and "count_price old rs = 1 \<Longrightarrow> level_count (spec_remove (mo_id m) rs) < level_count rs"
proof -
  have sub: "fst ` set (spec_remove (mo_id m) rs) \<subseteq> fst ` set rs" by (auto simp: spec_remove_def)
  then show "level_count (spec_remove (mo_id m) rs) \<le> level_count rs"
    unfolding level_count_card by (intro card_mono) auto
  assume "count_price old rs = 1"
  then have "old \<notin> fst ` set (spec_remove (mo_id m) rs)"
    using count_price_remove [OF assms, of old] by (simp add: count_price_0)
  moreover have "old \<in> fst ` set rs" using assms(2) by force
  ultimately show "level_count (spec_remove (mo_id m) rs) < level_count rs"
    unfolding level_count_card using sub by (intro psubset_card_mono) auto
qed

lemma replace_preflight_abs:
  assumes shape: "shape L K book" and l: "level_at book side i = Some l"
  shows "replace_preflight L K book cmd \<lparr>ol_side = side, ol_level_index = i, ol_slot = s\<rparr> (pl_price l) =
    (let p = ro_price cmd; n = count_price p (abs_book book side) in
     Some (if p \<noteq> pl_price l \<and> best_crosses side p (abs_book book (opposite side)) then Inl ReplaceWouldCross
           else if p \<noteq> pl_price l \<and> 0 < n \<and> n = K then Inl PriceLevelOrderCapacity
           else if n = 0 \<and> level_count (abs_book book side) = L \<and> count_price (pl_price l) (abs_book book side) \<noteq> 1
           then Inl PriceLevelCapacity else Inr ()))"
proof -
  let ?p = "ro_price cmd" and ?li = "side_index book side"
  note o = side_okD [OF shapeD [OF shape, of side]]
  have lv: "lvl (side_levels book side) i = Some l" using l by (simp add: level_at_lvl)
  obtain as bs where "iter ?li = as @ (pl_price l, i) # bs" using rows_split [OF shapeD [OF shape] lv] by blast
  then have "(pl_price l, i) \<in> set (iter ?li)" by simp
  then have "map_of (iter ?li) (pl_price l) = Some i" by (intro map_of_is_SomeI ld.distinct_prices [OF o(2)])
  then have same: "li_find ?li (pl_price l) (side = Buy) = Some i" by (simp add: li_find_map_of [OF o(2)])
  have len: "pl_len l = count_price (pl_price l) (abs_book book side)"
    using count_price_level(1) [OF shape lv] by simp
  have full: "L - length (iter ?li) = 0 \<longleftrightarrow> level_count (abs_book book side) = L"
    using level_count_erows [OF shape, of side] capacity_bounds [OF shape, of ?p side] by auto
  show ?thesis
  proof (cases "li_find ?li ?p (side = Buy)")
    case None
    then have "?p \<noteq> pl_price l" using same by auto
    with None show ?thesis
      using li_find_level [OF shape, of ?p side] same l len full
      by (simp add: replace_preflight_def Let_def best_abs [OF shape])
  next
    case (Some j)
    then obtain d where "level_at book side j = Some d" "pl_len d = count_price ?p (abs_book book side)" "0 < pl_len d"
      using li_find_level [OF shape, of ?p side] by auto
    then show ?thesis
      using Some same by (auto simp: replace_preflight_def Let_def best_abs [OF shape])
  qed
qed

text \<open>The repricing branch: the order leaves its level and joins the tail of the requested one.\<close>

lemma move_order_ok:
  assumes inv: "book_inv L K book" and old: "(p, i, s, erase w) \<in> set (erows book side)"
    and w: "order_at book \<lparr>ol_side = side, ol_level_index = i, ol_slot = s\<rparr> = Some w"
    and id: "rest_id resting = rest_id w"
    and room: "q \<noteq> p \<longrightarrow> count_price q (abs_book book side) \<noteq> K \<or> count_price q (abs_book book side) = 0"
      "\<not> (count_price q (abs_book book side) = 0 \<and> level_count (abs_book book side) = L \<and> count_price p (abs_book book side) \<noteq> 1)"
  shows "\<exists>b1 b2 b3 x l. unlink_at book side i s = Some (b1, x) \<and> strip x = w \<and>
    remove_index_entry L K b1 (rest_index_slot w) (rest_id w) = Some (b2, l) \<and>
    rest_at_tail L K b2 side q resting = Some b3 \<and> shape L K b3 \<and> linked L K {} b3 \<and>
    ob_instrument b3 = ob_instrument book \<and>
    abs_book b3 = (abs_book book)(side := insert_row (side = Buy) (q, abs_order resting)
      (spec_remove (rest_id w) (abs_book book side)))"
proof -
  let ?rs = "abs_book book side" and ?loc = "\<lparr>ol_side = side, ol_level_index = i, ol_slot = s\<rparr>"
  have inv': "0 < K" "shape L K book" "linked L K {} book" "spec_inv (abs_book book)"
    using inv by (auto simp: book_inv_def)
  obtain b1 b2 x l where rm: "unlink_at book side i s = Some (b1, x)" "strip x = w"
      "remove_index_entry L K b1 (rest_index_slot w) (rest_id w) = Some (b2, l)"
      "order_removed L K ?loc book b2"
      "index_location L K (ob_index b2) = (index_location L K (ob_index book))(rest_id w := None)"
    using unlink_then_remove [OF inv'(2,3) w] by auto
  have b2: "shape L K b2" "linked L K {} b2" "ob_instrument b2 = ob_instrument book"
      "erows b2 (opposite side) = erows book (opposite side)"
    using rm(4) by (simp_all add: order_removed_def)
  have abs2: "abs_book b2 side = spec_remove (rest_id w) ?rs"
    using rm(4) abs_drop_row [OF inv old] by (simp add: order_removed_def abs_book_def)
  have row: "(p, abs_order w) \<in> set ?rs"
    using imageI [OF old, of abs_row] by (simp add: abs_book_def)
  note cnt = count_price_remove [OF spec_invD(3) [OF inv'(4), of side] row]
    and lc = level_count_remove [OF spec_invD(3) [OF inv'(4), of side] row]
  have bounds: "count_price r ?rs \<le> K" "level_count ?rs \<le> L" for r using capacity_bounds [OF inv'(2)] by auto
  have one: "0 < count_price p ?rs" using row count_price_0 [of p ?rs] by force
  have "has_room L K b2 side q"
  proof (cases "q = p")
    case True
    then show ?thesis
      unfolding has_room_abs [OF b2(1)] abs2 using cnt [of q] lc bounds(1) [of q] bounds(2) one inv'(1) by auto
  next
    case False
    then show ?thesis
      unfolding has_room_abs [OF b2(1)] abs2 using cnt [of q] lc bounds(1) [of q] bounds(2) room by auto
  qed
  moreover have "index_location L K (ob_index b2) (rest_id resting) = None" using rm(5) id by simp
  ultimately obtain b3 j t where b3: "rest_at_tail L K b2 side q resting = Some b3" "shape L K b3" "linked L K {} b3"
      "ob_instrument b3 = ob_instrument b2"
      "erows b3 side = insert_row (side = Buy) (q, j, t, erase (strip resting)) (erows b2 side)"
      "erows b3 (opposite side) = erows b2 (opposite side)"
    using rest_at_tail_ok [OF b2(1,2) inv'(1), of resting side q] by blast
  have "abs_book b3 = (abs_book book)(side := insert_row (side = Buy) (q, abs_order resting)
      (spec_remove (rest_id w) (abs_book book side)))"
    using abs_book_update [OF b3(5), of book] b3(6) b2(4) abs2 by (simp add: map_insert_row abs_book_def)
  then show ?thesis using rm(1-3) b3 b2(3) by auto
qed

lemma replace_simulates:
  assumes inv: "book_inv L K book" and ins: "ro_instrument_id cmd = ob_instrument book"
  shows "case spec_replace L K (abs_book book) cmd of
      Inl e \<Rightarrow> replace L K book cmd = Some (Inl e)
    | Inr (sb, m, lost) \<Rightarrow> \<exists>book'. replace L K book cmd = Some (Inr (book', \<lparr>rd_order_id = mo_id m,
          rd_account_id = mo_account m, rd_old_quantity = mo_quantity m, rd_new_quantity = ro_quantity cmd,
          rd_price = ro_price cmd, rd_priority_lost = lost\<rparr>)) \<and>
        book_inv L K book' \<and> ob_instrument book' = ob_instrument book \<and> abs_book book' = sb"
proof -
  let ?k = "ro_order_id cmd" and ?q = "ro_quantity cmd" and ?p = "ro_price cmd"
  have inv': "0 < K" "shape L K book" "linked L K {} book" "spec_inv (abs_book book)"
    using inv by (auto simp: book_inv_def)
  show ?thesis
  proof (cases "spec_find (abs_book book) ?k")
    case None
    then show ?thesis using locate_abs [OF inv, of ?k] ins by (simp add: spec_replace_def replace_def)
  next
    case (Some r)
    obtain side p m where r: "r = (side, p, m)" by (cases r)
    obtain i s w l x where loc: "locate L K book ?k = Some (\<lparr>ol_side = side, ol_level_index = i, ol_slot = s\<rparr>, mo_account m)"
        "order_at book \<lparr>ol_side = side, ol_level_index = i, ol_slot = s\<rparr> = Some w" "rest_id w = ?k"
        "m = abs_order w" "(p, i, s, erase w) \<in> set (erows book side)"
        "level_at book side i = Some l" "pl_price l = p" "get_live l s = Some x" "strip x = w"
      using locate_abs [OF inv, of ?k] unfolding Some r option.case prod.case by blast
    have x: "rest_quantity x = mo_quantity m" "rest_account_id x = mo_account m"
      using arg_cong [OF loc(9), of rest_quantity] arg_cong [OF loc(9), of rest_account_id] loc(4) by simp_all
    note pre = replace_preflight_abs [OF inv'(2) loc(6), of cmd s, unfolded loc(7)]
    let ?spec = "spec_replace L K (abs_book book) cmd"
    consider e where "?spec = Inl e" | sb lost where "?spec = Inr (sb, m, lost)"
      by (cases ?spec) (auto simp: spec_replace_def Let_def Some r split: if_splits)
    then show ?thesis
    proof cases
      case 1
      then show ?thesis
        using loc(1,6,7,8) x ins
        by (auto simp: spec_replace_def replace_def Some r pre Let_def split: if_splits)
    next
      case 2
      have guards: "mo_account m = ro_account_id cmd" "\<not> sint ?p \<le> 0" "?q \<noteq> 0"
        using 2 by (auto simp: spec_replace_def Let_def Some r split: if_splits)
      have "\<exists>book'. replace L K book cmd = Some (Inr (book', \<lparr>rd_order_id = mo_id m,
          rd_account_id = mo_account m, rd_old_quantity = mo_quantity m, rd_new_quantity = ?q,
          rd_price = ?p, rd_priority_lost = lost\<rparr>)) \<and>
        shape L K book' \<and> linked L K {} book' \<and> ob_instrument book' = ob_instrument book \<and> abs_book book' = sb"
      proof (cases "?p = p \<and> ?q < mo_quantity m")
        case True
        have "rest_quantity w - ?q \<le> rest_quantity w" using True loc(4) by (simp add: word_sub_le less_imp_le)
        then obtain l' where l': "reduce_quantity l s (rest_quantity w - ?q) = Some l'"
            "shape L K (set_level book side i (Some l'))" "linked L K {} (set_level book side i (Some l'))"
            "ob_instrument (set_level book side i (Some l')) = ob_instrument book"
            "erows (set_level book side i (Some l')) side = write_row i s ((erase w)\<lparr>rest_quantity := ?q\<rparr>) (erows book side)"
            "erows (set_level book side i (Some l')) (opposite side) = erows book (opposite side)"
          using reduce_at_ok [OF inv'(2) loc(2), of "rest_quantity w - ?q"] inv'(3) loc(6) by auto
        have "abs_book (set_level book side i (Some l')) = sb"
          using 2 True abs_book_update [OF l'(5,6)] abs_write_row [OF inv loc(5), of ?q] loc(3)
          by (simp add: spec_replace_def Some r Let_def guards split: if_splits)
        moreover have "lost = False" using 2 True by (simp add: spec_replace_def Some r Let_def guards split: if_splits)
        ultimately show ?thesis
          using l' loc True x guards ins by (simp add: replace_def Let_def)
      next
        case False
        let ?new = "\<lparr>rest_id = ?k, rest_account_id = ro_account_id cmd, rest_index_slot = 0, rest_quantity = ?q,
           rest_sequence = ro_sequence cmd, rest_prev = NIL, rest_next = NIL\<rparr>"
        have sp: "lost = True" "sb = (abs_book book)(side := insert_row (side = Buy) (?p, abs_order ?new)
            (spec_remove ?k (abs_book book side)))"
          and c: "\<not> (?p \<noteq> p \<and> best_crosses side ?p (abs_book book (opposite side)))"
            "\<not> (?p \<noteq> p \<and> 0 < count_price ?p (abs_book book side) \<and> count_price ?p (abs_book book side) = K)"
            "\<not> (count_price ?p (abs_book book side) = 0 \<and> level_count (abs_book book side) = L \<and>
               count_price p (abs_book book side) \<noteq> 1)"
          using 2 False guards by (auto simp: spec_replace_def Some r Let_def abs_order_def split: if_splits)
        have "?p \<noteq> p \<longrightarrow> count_price ?p (abs_book book side) \<noteq> K \<or> count_price ?p (abs_book book side) = 0"
          using c(2) by auto
        from move_order_ok [OF inv loc(5,2) _ this c(3), of ?new] loc(3)
        obtain b1 b2 b3 y z where b: "unlink_at book side i s = Some (b1, y)" "strip y = w"
            "remove_index_entry L K b1 (rest_index_slot w) ?k = Some (b2, z)"
            "rest_at_tail L K b2 side ?p ?new = Some b3" "shape L K b3" "linked L K {} b3"
            "ob_instrument b3 = ob_instrument book" "abs_book b3 = sb"
          unfolding sp(2) by auto
        have y: "rest_index_slot y = rest_index_slot w"
          using arg_cong [OF b(2), of rest_index_slot] by simp
        have "replace_preflight L K book cmd \<lparr>ol_side = side, ol_level_index = i, ol_slot = s\<rparr> p = Some (Inr ())"
          unfolding pre Let_def using c by auto
        then show ?thesis
          using False b y loc x guards ins sp(1) by (auto simp: replace_def Let_def)
      qed
      then show ?thesis using 2 inv' spec_replace_inv [OF inv'(4) 2] by (auto simp: book_inv_def)
    qed
  qed
qed

end
