(* ===== verification/Book_Reach.thy ===== *)
theory Book_Reach
  imports Book_Refine
begin

text \<open>
  Every state the book of \<^verbatim>\<open>crates/hft-book/src/lib.rs\<close> can reach: \<open>book_new\<close> followed by any
  sequence of \<open>submit\<close>, \<open>cancel\<close> and \<open>replace\<close> calls, accepted or rejected, is well formed. What the
  specification promises of one operation therefore holds of the code at every moment, and no
  operation ever panics.
\<close>

section \<open>The initial book\<close>

lemma side_ok_new: "K < NIL \<Longrightarrow> side_ok L K d (replicate L None) (level_index_new L)"
  using level_index_new_inv [of L d] by (simp add: side_ok_def)

lemma new_sides [simp]:
  "side_levels (book_new L K ins) side = replicate L None" "side_index (book_new L K ins) side = level_index_new L"
  "ob_index (book_new L K ins) = order_index_new L K" "ob_instrument (book_new L K ins) = ins"
  by (cases side; simp add: side_levels_def side_index_def book_new_def)+

lemma order_at_new [simp]: "order_at (book_new L K ins) loc = None"
  by (simp add: order_at_def lookup_def lvl_def get_def)

lemma erows_new [simp]: "erows (book_new L K ins) side = []"
  using level_index_new_inv [of L "side = Buy"] by (simp add: erows_def rows_def)

lemma book_new_inv:
  assumes "0 < K" "K < NIL" "index_fits L K"
  shows "book_inv L K (book_new L K ins) \<and> abs_book (book_new L K ins) = (\<lambda>side. [])"
proof -
  note new = order_index_new_inv [OF assms(3)]
  have "shape L K (book_new L K ins)" by (simp add: shape_def side_ok_new [OF assms(2)])
  moreover have "linked L K {} (book_new L K ins)"
    using new by (simp add: linked_def index_view_def order_index_new_def slot_view_def index_slot_EMPTY_def)
  moreover have e: "abs_book (book_new L K ins) = (\<lambda>side. [])" by (rule ext) (simp add: abs_book_def)
  moreover have "spec_inv (\<lambda>side. [])"
    by (simp add: spec_inv_def side_sorted_def rows_positive_def spec_ids_def uncrossed_def)
  ultimately show ?thesis using assms(1) by (simp add: book_inv_def)
qed

section \<open>Reachable books\<close>

inductive book_reachable :: "nat \<Rightarrow> nat \<Rightarrow> instrument_id \<Rightarrow> order_book \<Rightarrow> bool" for L K ins where
  Init: "book_reachable L K ins (book_new L K ins)"
| Submit: "\<lbrakk>book_reachable L K ins book; report_buffer_wf reports;
    submit L K book order reports = Some (Inr (book', reports', summary))\<rbrakk> \<Longrightarrow> book_reachable L K ins book'"
| Cancel: "\<lbrakk>book_reachable L K ins book; cancel L K book c = Some (Inr (book', cancelled))\<rbrakk>
    \<Longrightarrow> book_reachable L K ins book'"
| Replace: "\<lbrakk>book_reachable L K ins book; replace L K book r = Some (Inr (book', replaced))\<rbrakk>
    \<Longrightarrow> book_reachable L K ins book'"

text \<open>One operation on a well-formed book: it returns, and an accepted one keeps the invariant.\<close>

lemma submit_instrument:
  "no_instrument_id order \<noteq> ob_instrument book \<Longrightarrow> submit L K book order reports = Some (Inl InvalidInstrument)"
  by (simp add: submit_def build_plan_def)

lemma submit_keeps:
  assumes "book_inv L K book" "report_buffer_wf reports"
  shows "submit L K book order reports \<noteq> None"
    and "submit L K book order reports = Some (Inr (book', reports', summary)) \<Longrightarrow>
      book_inv L K book' \<and> ob_instrument book' = ob_instrument book"
  using submit_simulates [OF assms] submit_instrument [of order book L K reports]
  by (cases "no_instrument_id order = ob_instrument book"; force split: sum.splits)+

lemma cancel_keeps:
  assumes "book_inv L K book"
  shows "cancel L K book c \<noteq> None"
    and "cancel L K book c = Some (Inr (book', x)) \<Longrightarrow> book_inv L K book' \<and> ob_instrument book' = ob_instrument book"
  using cancel_simulates [OF assms, of c]
  by (cases "co_instrument_id c = ob_instrument book"; force simp: cancel_def split: sum.splits)+

lemma replace_keeps:
  assumes "book_inv L K book"
  shows "replace L K book c \<noteq> None"
    and "replace L K book c = Some (Inr (book', x)) \<Longrightarrow> book_inv L K book' \<and> ob_instrument book' = ob_instrument book"
  using replace_simulates [OF assms, of c]
  by (cases "ro_instrument_id c = ob_instrument book"; force simp: replace_def split: sum.splits)+

lemma reachable_inv:
  assumes "book_reachable L K ins book" "0 < K" "K < NIL" "index_fits L K"
  shows "book_inv L K book \<and> ob_instrument book = ins"
  using assms
proof (induction rule: book_reachable.induct)
  case Init
  then show ?case using book_new_inv by simp
next
  case (Submit book reports order book' reports' summary)
  then show ?case using submit_keeps(2) [of L K book reports order] by simp
next
  case (Cancel book c book' cancelled)
  then show ?case using cancel_keeps(2) by metis
next
  case (Replace book r book' replaced)
  then show ?case using replace_keeps(2) by metis
qed

text \<open>The const generics for which the code is meant: at least one order per level, and slots that fit their types.\<close>

definition dims_ok :: "nat \<Rightarrow> nat \<Rightarrow> bool" where
  "dims_ok L K \<longleftrightarrow> 0 < K \<and> K < NIL \<and> index_fits L K"

lemma reachable_book:
  "\<lbrakk>book_reachable L K ins book; dims_ok L K\<rbrakk> \<Longrightarrow> book_inv L K book \<and> ob_instrument book = ins"
  using reachable_inv by (simp add: dims_ok_def)

text \<open>A book with one resting bid, used to evaluate the properties.\<close>

definition demo_order :: "side \<Rightarrow> order_id \<Rightarrow> quantity \<Rightarrow> new_order" where
  "demo_order side k q = \<lparr>no_order_id = k, no_account_id = 9, no_instrument_id = 7, no_price = 5,
     no_quantity = q, no_sequence = 1, no_side = side, no_time_in_force = Gtc\<rparr>"

definition demo_book :: order_book where
  "demo_book = (case submit 1 1 (book_new 1 1 7) (demo_order Buy 3 4) (report_buffer_new 1) of
     Some (Inr (book, _)) \<Rightarrow> book | _ \<Rightarrow> book_new 1 1 7)"

lemma demo_dims: "dims_ok 1 1"
  by (simp add: dims_ok_def NIL_def index_fits_def index_capacity_def ORDER_INDEX_PLANES_def)

lemma demo_book_reachable: "book_reachable 1 1 7 demo_book"
proof (cases "submit 1 1 (book_new 1 1 7) (demo_order Buy 3 4) (report_buffer_new 1)")
  case (Some r)
  then show ?thesis
    by (cases r) (auto simp: demo_book_def book_reachable.Init simp del: One_nat_def
        intro: book_reachable.Submit [OF book_reachable.Init report_buffer_new_wf(1)])
qed (simp add: demo_book_def book_reachable.Init)

lemma demo_book_abs: "abs_book demo_book =
    (\<lambda>side. []) (Buy := [(5, \<lparr>mo_id = 3, mo_account = 9, mo_quantity = 4, mo_sequence = 1\<rparr>)])"
proof -
  let ?o = "demo_order Buy 3 4"
  have new: "book_inv 1 1 (book_new 1 1 7)" "abs_book (book_new 1 1 7) = (\<lambda>side. [])"
    using book_new_inv [of 1 1 7] demo_dims by (simp_all add: dims_ok_def)
  have sub: "\<exists>res. spec_submit 1 1 1 (\<lambda>side. []) ?o = Inr res \<and>
      sr_book res = (\<lambda>side. []) (Buy := [(5, \<lparr>mo_id = 3, mo_account = 9, mo_quantity = 4, mo_sequence = 1\<rparr>)])"
    by (auto simp: spec_submit_def demo_order_def Let_def spec_ids_def best_crosses_def count_price_def level_count_def
        insert_row_def)
  have cap: "report_buffer_remaining_capacity (report_buffer_new 1) = 1"
    by (simp add: report_buffer_remaining_capacity_def report_buffer_new_def)
  have "no_instrument_id ?o = ob_instrument (book_new 1 1 7)" by (simp add: demo_order_def)
  from submit_simulates [OF new(1) report_buffer_new_wf(1) [of 1] this] sub show ?thesis
    unfolding cap new(2) demo_book_def by auto
qed

lemma demo_book_instrument: "ob_instrument demo_book = 7"
  using reachable_book [OF demo_book_reachable demo_dims] by simp

text \<open>The demonstration book accepts a crossing ask that trades once.\<close>

lemma demo_accepts:
  "\<exists>book' reports' summary. submit 1 1 demo_book (demo_order Sell 8 6) (report_buffer_new 1) =
    Some (Inr (book', reports', summary)) \<and> ms_report_count summary = 1"
proof -
  have cap: "report_buffer_remaining_capacity (report_buffer_new 1) = 1"
    by (simp add: report_buffer_remaining_capacity_def report_buffer_new_def)
  have "book_inv 1 1 demo_book" "no_instrument_id (demo_order Sell 8 6) = ob_instrument demo_book"
    using reachable_book [OF demo_book_reachable demo_dims] by (simp_all add: demo_order_def)
  from submit_simulates [OF this(1) report_buffer_new_wf(1) [of 1] this(2)] show ?thesis
    unfolding cap demo_book_abs
    by (auto simp: spec_submit_def demo_order_def Let_def spec_ids_def best_crosses_def count_price_def level_count_def
        insert_row_def crosses_def spec_summary_def)
qed

section \<open>Refinement\<close>

text \<open>
  C24. Submitting an order of the book's own instrument to any reachable book does what the price-time priority specification says: it is
  rejected exactly when the specification rejects and with the same reason; otherwise it returns a
  reachable book that represents the specified one, the summary is the specified one, and the
  execution reports of the fills are appended to the report buffer in order.
\<close>

theorem submit_refines_spec:
  assumes "book_reachable L K ins book" "dims_ok L K" "report_buffer_wf reports" "no_instrument_id order = ins"
  shows "case spec_submit L K (report_buffer_remaining_capacity reports) (abs_book book) order of
      Inl e \<Rightarrow> submit L K book order reports = Some (Inl e)
    | Inr res \<Rightarrow> \<exists>book' reports'. submit L K book order reports = Some (Inr (book', reports', spec_summary order res)) \<and>
        book_reachable L K ins book' \<and> abs_book book' = sr_book res \<and>
        report_buffer_iter reports' = report_buffer_iter reports @ map (spec_report order) (sr_fills res)"
proof -
  have "book_inv L K book" "no_instrument_id order = ob_instrument book"
    using reachable_book [OF assms(1,2)] assms(4) by simp_all
  from submit_simulates [OF this(1) assms(3) this(2)] show ?thesis
    using book_reachable.Submit [OF assms(1,3)] by (fastforce split: sum.splits)
qed

theorem submit_refines_spec_witness:
  "\<exists>book' reports'. submit 1 1 demo_book (demo_order Sell 8 6) (report_buffer_new 1) =
      Some (Inr (book', reports', \<lparr>ms_state = PartiallyFilled, ms_filled_quantity = 4, ms_resting_quantity = 2,
        ms_discarded_quantity = 0, ms_report_count = 1\<rparr>)) \<and>
    report_buffer_iter reports' = [\<lparr>er_maker_order_id = 3, er_taker_order_id = 8, er_instrument_id = 7,
      er_price = 5, er_quantity = 4, er_sequence = 1\<rparr>]"
proof -
  have cap: "report_buffer_remaining_capacity (report_buffer_new 1) = 1"
    by (simp add: report_buffer_remaining_capacity_def report_buffer_new_def)
  have "no_instrument_id (demo_order Sell 8 6) = 7" by (simp add: demo_order_def)
  from submit_refines_spec [OF demo_book_reachable demo_dims report_buffer_new_wf(1) [of 1] this]
  show ?thesis unfolding cap demo_book_abs
    by (simp add: spec_submit_def demo_order_def Let_def spec_ids_def best_crosses_def count_price_def level_count_def
        insert_row_def crosses_def spec_summary_def spec_report_def) blast
qed

text \<open>
  C26. Cancelling on any reachable book, with a command for the book's own instrument, does what the
  specification says: the order with that id
  leaves its queue and its identity, owner and remaining quantity are returned, or the command is
  rejected with the specified reason.
\<close>

theorem cancel_refines_spec:
  assumes "book_reachable L K ins book" "dims_ok L K" "co_instrument_id cmd = ins"
  shows "case spec_cancel (abs_book book) cmd of
      Inl e \<Rightarrow> cancel L K book cmd = Some (Inl e)
    | Inr (sb, m) \<Rightarrow> \<exists>book'. cancel L K book cmd = Some (Inr (book', \<lparr>cd_order_id = mo_id m,
          cd_account_id = mo_account m, cd_quantity = mo_quantity m\<rparr>)) \<and>
        book_reachable L K ins book' \<and> abs_book book' = sb"
proof -
  have "book_inv L K book" "co_instrument_id cmd = ob_instrument book"
    using reachable_book [OF assms(1,2)] assms(3) by simp_all
  from cancel_simulates [OF this] show ?thesis
    using book_reachable.Cancel [OF assms(1)] by (fastforce split: sum.splits)
qed

theorem cancel_refines_spec_witness:
  "\<exists>book'. cancel 1 1 demo_book \<lparr>co_order_id = 3, co_account_id = 9, co_instrument_id = 7, co_sequence = 2\<rparr> =
      Some (Inr (book', \<lparr>cd_order_id = 3, cd_account_id = 9, cd_quantity = 4\<rparr>)) \<and> abs_book book' Buy = []"
  using cancel_refines_spec [OF demo_book_reachable demo_dims,
      of "\<lparr>co_order_id = 3, co_account_id = 9, co_instrument_id = 7, co_sequence = 2\<rparr>"]
  by (auto simp: demo_book_abs spec_cancel_def spec_find_def spec_remove_def)

text \<open>
  C25. Replacing on any reachable book, with a command for the book's own instrument, does what the
  specification says: a smaller quantity at the
  same price keeps the place in the queue, every other accepted replacement moves the order to the
  tail of the queue at its price, and the rejections (unknown order, foreign owner, invalid price or
  quantity, crossing, capacity) are the specified ones.
\<close>

theorem replace_refines_spec:
  assumes "book_reachable L K ins book" "dims_ok L K" "ro_instrument_id cmd = ins"
  shows "case spec_replace L K (abs_book book) cmd of
      Inl e \<Rightarrow> replace L K book cmd = Some (Inl e)
    | Inr (sb, m, lost) \<Rightarrow> \<exists>book'. replace L K book cmd = Some (Inr (book', \<lparr>rd_order_id = mo_id m,
          rd_account_id = mo_account m, rd_old_quantity = mo_quantity m, rd_new_quantity = ro_quantity cmd,
          rd_price = ro_price cmd, rd_priority_lost = lost\<rparr>)) \<and>
        book_reachable L K ins book' \<and> abs_book book' = sb"
proof -
  have "book_inv L K book" "ro_instrument_id cmd = ob_instrument book"
    using reachable_book [OF assms(1,2)] assms(3) by simp_all
  from replace_simulates [OF this] show ?thesis
    using book_reachable.Replace [OF assms(1)] by (fastforce split: sum.splits)
qed

theorem replace_refines_spec_witness:
  "\<exists>book'. replace 1 1 demo_book \<lparr>ro_order_id = 3, ro_account_id = 9, ro_instrument_id = 7, ro_sequence = 2,
        ro_price = 6, ro_quantity = 5\<rparr> =
      Some (Inr (book', \<lparr>rd_order_id = 3, rd_account_id = 9, rd_old_quantity = 4, rd_new_quantity = 5,
        rd_price = 6, rd_priority_lost = True\<rparr>)) \<and>
    abs_book book' Buy = [(6, \<lparr>mo_id = 3, mo_account = 9, mo_quantity = 5, mo_sequence = 2\<rparr>)]"
  using replace_refines_spec [OF demo_book_reachable demo_dims,
      of "\<lparr>ro_order_id = 3, ro_account_id = 9, ro_instrument_id = 7, ro_sequence = 2, ro_price = 6, ro_quantity = 5\<rparr>"]
  by (auto simp: demo_book_abs spec_replace_def spec_find_def spec_remove_def Let_def best_crosses_def count_price_def
      level_count_def insert_row_def)

section \<open>What follows for the code\<close>

text \<open>
  No operation on a reachable book panics: no \<open>expect\<close> fails and no array index is out of range,
  whatever the command.
\<close>

theorem book_never_panics:
  assumes "book_reachable L K ins book" "dims_ok L K" "report_buffer_wf reports"
  shows "submit L K book order reports \<noteq> None \<and> cancel L K book c \<noteq> None \<and> replace L K book r \<noteq> None"
  using reachable_book [OF assms(1,2)] submit_keeps(1) [OF _ assms(3)] cancel_keeps(1) replace_keeps(1)
  by blast

theorem book_never_panics_witness:
  "submit 1 1 demo_book (demo_order Sell 3 6) (report_buffer_new 0) \<noteq> None \<and>
   cancel 1 1 demo_book \<lparr>co_order_id = 3, co_account_id = 8, co_instrument_id = 7, co_sequence = 2\<rparr> \<noteq> None"
  using book_never_panics [OF demo_book_reachable demo_dims report_buffer_new_wf(1)] by blast

text \<open>What the reported top of a side says about the side.\<close>

definition top_exact :: "top_level_view option \<Rightarrow> prow list \<Rightarrow> bool" where
  "top_exact best rs \<longleftrightarrow> (case best of
     None \<Rightarrow> rs = []
   | Some t \<Rightarrow> (\<exists>m rs'. rs = (tl_price t, m) # rs') \<and> tl_order_count t = count_price (tl_price t) rs \<and>
       uint (tl_aggregate_quantity t) = total_quantity (filter (\<lambda>r. fst r = tl_price t) rs))"

lemma top_level_exact:
  assumes "shape L K book"
  shows "top_exact (top_level book side) (abs_book book side)"
proof (cases "iter (side_index book side)")
  case Nil
  then show ?thesis by (simp add: top_exact_def top_level_def abs_book_def erows_def rows_def)
next
  case (Cons e es)
  obtain p i where e: "e = (p, i)" by (cases e)
  let ?levels = "side_levels book side" and ?f = "\<lambda>r. abs_row (erase_row r)"
  note o = side_okD [OF shapeD [OF assms, of side]]
  obtain l where l: "lvl ?levels i = Some l" "pl_price l = p" "level_inv K l" "walk l \<noteq> []"
    using o(5) [of p i] Cons e by auto
  note r = level_repD [OF level_inv_rep [OF l(3)]]
  have rows: "abs_book book side = map ?f (level_rows p i l) @ map ?f (rows_of ?levels es)"
    using Cons e l(1) by (simp add: abs_book_def erows_def rows_def)
  have "p \<notin> fst ` set es" using ld.distinct_prices [OF o(2)] Cons e by auto
  then have "p \<notin> fst ` set (rows_of ?levels es)" using rows_of_prices_subset by blast
  then have "filter (\<lambda>r. fst r = p) (map ?f (rows_of ?levels es)) = []" by (auto simp: filter_empty_conv)
  moreover have "filter (\<lambda>r. fst r = p) (map ?f (level_rows p i l)) = map ?f (level_rows p i l)"
    by (auto simp: filter_id_conv level_rows_def)
  ultimately have at: "filter (\<lambda>r. fst r = p) (abs_book book side) = map ?f (level_rows p i l)"
    unfolding rows by simp
  have "total_quantity (map ?f (level_rows p i l)) = fifo_sum (live_data l) (walk l)"
    by (simp add: total_quantity_def fifo_sum_def level_rows_def o_def)
  moreover have "count_price p (abs_book book side) = length (walk l)"
    unfolding count_price_def at by (simp add: level_rows_def)
  moreover have "\<exists>m rs'. abs_book book side = (p, m) # rs'"
    unfolding rows using l(4) by (cases "walk l") (auto simp: level_rows_def)
  ultimately show ?thesis
    using Cons e l(1) r(10,14) at by (simp add: top_exact_def top_level_def level_at_lvl)
qed

text \<open>
  C29. In a reachable book the best bid is below the best ask, and the top of book that \<open>top_level\<close>
  reports on either side is exact: its price is the best price, its aggregate the sum of the
  quantities and its count the number of the orders resting at that price.
\<close>

theorem top_of_book_exact_uncrossed:
  assumes "book_reachable L K ins book" "dims_ok L K"
  shows "(\<forall>side. top_exact (top_level book side) (abs_book book side)) \<and>
    (case (top_level book Buy, top_level book Sell) of
       (Some bid, Some ask) \<Rightarrow> sint (tl_price bid) < sint (tl_price ask) | _ \<Rightarrow> True)"
proof -
  have inv: "shape L K book" "uncrossed (abs_book book)"
    using reachable_book [OF assms] spec_invD(5) by (auto simp: book_inv_def)
  have exact: "top_exact (top_level book side) (abs_book book side)" for side
    by (rule top_level_exact [OF inv(1)])
  have "sint (tl_price bid) < sint (tl_price ask)"
    if "top_level book Buy = Some bid" "top_level book Sell = Some ask" for bid ask
    using exact [of Buy] exact [of Sell] inv(2) that unfolding top_exact_def uncrossed_def by fastforce
  then show ?thesis using exact by (simp split: option.split)
qed

theorem top_of_book_exact_uncrossed_witness:
  "\<forall>side. top_exact (top_level demo_book side) (abs_book demo_book side)"
  using top_of_book_exact_uncrossed [OF demo_book_reachable demo_dims] by blast

lemma total_quantity_insert:
  "total_quantity (insert_row d r rs) = total_quantity rs + uint (mo_quantity (snd r))"
proof -
  obtain as bs where "rs = as @ bs" "insert_row d r rs = as @ r # bs"
    by (metis insert_row_def takeWhile_dropWhile_id)
  then show ?thesis by (cases r) (simp add: total_quantity_def)
qed

text \<open>An accepted submission, seen through the specification.\<close>

lemma submit_accepted:
  assumes "book_reachable L K ins book" "dims_ok L K" "report_buffer_wf reports"
    and s: "submit L K book order reports = Some (Inr (book', reports', summary))"
  shows "\<exists>res. spec_submit L K (report_buffer_remaining_capacity reports) (abs_book book) order = Inr res \<and>
    summary = spec_summary order res \<and> abs_book book' = sr_book res \<and>
    report_buffer_iter reports' = report_buffer_iter reports @ map (spec_report order) (sr_fills res)"
proof -
  have inv: "book_inv L K book" "ob_instrument book = ins" using reachable_book [OF assms(1,2)] by auto
  have ins: "no_instrument_id order = ob_instrument book" using s submit_instrument by fastforce
  from submit_simulates [OF inv(1) assms(3) ins] s show ?thesis by (auto split: sum.splits)
qed

text \<open>
  C28. An accepted order is conserved: what it filled, what it rests and what it discards add up to its
  quantity without wrap-around, the quantity that left the other side is what it filled, and the
  resting quantity is what its own side gained.
\<close>

theorem submit_conserves_quantity:
  assumes reach: "book_reachable L K ins book" "dims_ok L K" "report_buffer_wf reports"
    and s: "submit L K book order reports = Some (Inr (book', reports', summary))"
  shows "uint (ms_filled_quantity summary) + uint (ms_resting_quantity summary) + uint (ms_discarded_quantity summary)
      = uint (no_quantity order) \<and>
    total_quantity (abs_book book' (opposite (no_side order))) + uint (ms_filled_quantity summary)
      = total_quantity (abs_book book (opposite (no_side order))) \<and>
    total_quantity (abs_book book' (no_side order)) = total_quantity (abs_book book (no_side order)) + uint (ms_resting_quantity summary)"
proof -
  let ?t = "no_side order" and ?q = "no_quantity order"
  obtain res where res: "spec_submit L K (report_buffer_remaining_capacity reports) (abs_book book) order = Inr res"
      "summary = spec_summary order res" "abs_book book' = sr_book res"
    using submit_accepted [OF reach s] by blast
  obtain fs left rs' where m: "spec_match ?t (no_price order) (abs_book book (opposite ?t)) ?q = (fs, left, rs')"
    by (metis prod_cases3)
  have cons: "total_traded fs + uint left = uint ?q" "total_quantity (abs_book book (opposite ?t)) = total_quantity rs' + total_traded fs"
    using spec_match_conserves [OF m] by auto
  have parts: "sr_resting res = left \<and> sr_discarded res = 0 \<or> sr_resting res = 0 \<and> sr_discarded res = left"
    "sr_book res (opposite ?t) = rs'"
    "total_quantity (sr_book res ?t) = total_quantity (abs_book book ?t) + uint (sr_resting res)"
    using res(1) by (auto simp: spec_submit_def Let_def m total_quantity_insert split: if_splits)
  have "0 \<le> total_traded fs" by (induction fs) auto
  then have "left \<le> ?q" using cons(1) by (simp add: word_le_def)
  then have "uint (?q - left) = uint ?q - uint left" by (rule uint_diff_bounded)
  then have "uint (ms_filled_quantity summary) = total_traded fs"
    using parts(1) cons(1) by (auto simp: res(2) spec_summary_def Let_def)
  then show ?thesis
    using parts cons res(2,3) by (auto simp: spec_summary_def Let_def)
qed

theorem submit_conserves_quantity_witness:
  "\<exists>book' reports' summary. submit 1 1 demo_book (demo_order Sell 8 6) (report_buffer_new 1) = Some (Inr (book', reports', summary)) \<and>
    uint (ms_filled_quantity summary) + uint (ms_resting_quantity summary) + uint (ms_discarded_quantity summary) = 6 \<and>
    total_quantity (abs_book book' Buy) + uint (ms_filled_quantity summary) = 4"
proof -
  obtain book' reports' summary where
    s: "submit 1 1 demo_book (demo_order Sell 8 6) (report_buffer_new 1) = Some (Inr (book', reports', summary))"
    using demo_accepts by blast
  from submit_conserves_quantity [OF demo_book_reachable demo_dims report_buffer_new_wf(1) s] s show ?thesis
    by (auto simp: demo_order_def demo_book_abs)
qed

text \<open>
  C27. Fills respect price-time priority: the reports an accepted order appends name, in order, the
  first makers of the opposite side at their own prices, and every fill is at a price that crosses the
  limit and trades a positive quantity.
\<close>

theorem fills_in_priority_order:
  assumes "book_reachable L K ins book" "dims_ok L K" "report_buffer_wf reports"
    and "submit L K book order reports = Some (Inr (book', reports', summary))"
  shows "\<exists>new. report_buffer_iter reports' = report_buffer_iter reports @ new \<and> ms_report_count summary = length new \<and>
    map er_maker_order_id new = map (mo_id \<circ> snd) (take (length new) (abs_book book (opposite (no_side order)))) \<and>
    map er_price new = map fst (take (length new) (abs_book book (opposite (no_side order)))) \<and>
    (\<forall>r \<in> set new. crosses (no_side order) (er_price r) (no_price order) \<and> er_quantity r \<noteq> 0)"
proof -
  let ?t = "no_side order" and ?rs = "abs_book book (opposite (no_side order))"
  obtain res where res: "spec_submit L K (report_buffer_remaining_capacity reports) (abs_book book) order = Inr res"
      "summary = spec_summary order res"
      "report_buffer_iter reports' = report_buffer_iter reports @ map (spec_report order) (sr_fills res)"
    using submit_accepted [OF assms] by blast
  obtain fs left rs' where m: "spec_match ?t (no_price order) ?rs (no_quantity order) = (fs, left, rs')"
    by (metis prod_cases3)
  have fs: "sr_fills res = fs" using res(1) by (auto simp: spec_submit_def Let_def m split: if_splits)
  have "rows_positive ?rs"
    using reachable_book [OF assms(1,2)] spec_invD(2) by (auto simp: book_inv_def)
  note f = spec_match_fills [OF m this]
  have reps: "map er_maker_order_id (map (spec_report order) fs) = map fst fs"
      "map er_price (map (spec_report order) fs) = map (fst \<circ> snd) fs"
    by (auto simp: spec_report_def)
  have ok: "\<forall>r \<in> set (map (spec_report order) fs). crosses ?t (er_price r) (no_price order) \<and> er_quantity r \<noteq> 0"
    using f by (fastforce simp: spec_report_def)
  show ?thesis
  proof (intro exI conjI)
    show "report_buffer_iter reports' = report_buffer_iter reports @ map (spec_report order) fs" using res(3) fs by simp
    show "ms_report_count summary = length (map (spec_report order) fs)" using res(2) fs by (simp add: spec_summary_def Let_def)
  qed (use f reps ok in simp_all)
qed

theorem fills_in_priority_order_witness:
  "\<exists>book' reports' summary. submit 1 1 demo_book (demo_order Sell 8 6) (report_buffer_new 1) = Some (Inr (book', reports', summary)) \<and>
    map er_maker_order_id (report_buffer_iter reports') = [3]"
proof -
  obtain book' reports' summary where
    s: "submit 1 1 demo_book (demo_order Sell 8 6) (report_buffer_new 1) = Some (Inr (book', reports', summary))"
      "ms_report_count summary = 1"
    using demo_accepts by blast
  from fills_in_priority_order [OF demo_book_reachable demo_dims report_buffer_new_wf(1) s(1)] s show ?thesis
    by (auto simp: demo_order_def demo_book_abs)
qed

end
