(* ===== verification/Risk_Index.thy ===== *)
theory Risk_Index
  imports Order_Index
begin

text \<open>
  The open-addressed \<open>ProbeIndex\<close> of \<^verbatim>\<open>crates/hft-risk/src/lib.rs\<close>, which maps account and order ids to
  storage slots. \<open>cap\<close> is \<open>CAPACITY = PLANE * PLANES\<close>; the planes are laid out flat, which is what
  \<open>coordinates\<close> undoes. The index satisfies the same \<open>index_contract\<close> as the index of the order book.
\<close>

section \<open>The index\<close>

definition INDEX_PLANES :: nat where "INDEX_PLANES = 2"

datatype probe_entry = SlotEmpty | SlotOccupied (pe_key: u64) (pe_value: nat)

type_synonym probe_index = "probe_entry list"

definition probe_capacity :: "nat \<Rightarrow> nat" where
  "probe_capacity PLANE = PLANE * INDEX_PLANES"

definition probe_index_new :: "nat \<Rightarrow> probe_index" where
  "probe_index_new cap = replicate cap SlotEmpty"

definition pi_coordinates :: "nat \<Rightarrow> nat \<Rightarrow> nat \<times> nat" where
  "pi_coordinates PLANE flat_index = (flat_index div PLANE, flat_index mod PLANE)"

definition pi_probe_start :: "nat \<Rightarrow> u64 \<Rightarrow> nat" where
  "pi_probe_start cap key = unat (key * 0x9e3779b97f4a7c15) mod cap"

definition pi_probe_distance :: "nat \<Rightarrow> nat \<Rightarrow> nat \<Rightarrow> nat" where
  "pi_probe_distance cap home current =
     (if current \<ge> home then current - home else cap - (home - current))"

fun pi_find_loop :: "nat \<Rightarrow> probe_index \<Rightarrow> u64 \<Rightarrow> nat \<Rightarrow> nat list \<Rightarrow> nat option" where
  "pi_find_loop cap index key start [] = None"
| "pi_find_loop cap index key start (offset # offsets) =
     (let flat_index = usize_wrapping_add start offset mod cap in
      case index ! flat_index of
        SlotEmpty \<Rightarrow> None
      | SlotOccupied indexed _ \<Rightarrow>
          if indexed = key then Some flat_index else pi_find_loop cap index key start offsets)"

definition pi_find_slot :: "nat \<Rightarrow> probe_index \<Rightarrow> u64 \<Rightarrow> nat option" where
  "pi_find_slot cap index key =
     (if cap = 0 then None else pi_find_loop cap index key (pi_probe_start cap key) [0..<cap])"

definition pi_lookup :: "nat \<Rightarrow> probe_index \<Rightarrow> u64 \<Rightarrow> nat option" where
  "pi_lookup cap index key =
     Option.bind (pi_find_slot cap index key) (\<lambda>i.
       case index ! i of SlotOccupied _ v \<Rightarrow> Some (v - 1) | SlotEmpty \<Rightarrow> None)"

fun pi_insert_loop ::
  "nat \<Rightarrow> probe_index \<Rightarrow> u64 \<Rightarrow> nat \<Rightarrow> nat \<Rightarrow> nat list \<Rightarrow> probe_error + probe_index \<times> u32"
where
  "pi_insert_loop cap index key v start [] = Inl ProbeFull"
| "pi_insert_loop cap index key v start (offset # offsets) =
     (let flat_index = usize_wrapping_add start offset mod cap in
      case index ! flat_index of
        SlotEmpty \<Rightarrow>
          and_then (ok_or (u32_try_from flat_index) ProbeFull) (\<lambda>flat_u32.
            Inr (index[flat_index := SlotOccupied key v], flat_u32))
      | SlotOccupied indexed _ \<Rightarrow>
          if indexed = key then Inl ProbeDuplicate else pi_insert_loop cap index key v start offsets)"

definition pi_insert :: "nat \<Rightarrow> probe_index \<Rightarrow> u64 \<Rightarrow> nat \<Rightarrow> probe_error + probe_index \<times> u32" where
  "pi_insert cap index key v =
     (if cap = 0 then Inl ProbeFull
      else and_then (ok_or (usize_checked_add v 1) ProbeFull) (\<lambda>stored.
        pi_insert_loop cap index key stored (pi_probe_start cap key) [0..<cap]))"

type_synonym probe_move = "u64 \<times> nat \<times> u32"

text \<open>The loop of \<open>remove_at\<close> with the moves it reports; the capacity is fuel enough.\<close>

fun pi_remove_loop ::
  "nat \<Rightarrow> nat \<Rightarrow> probe_index \<Rightarrow> nat \<Rightarrow> nat \<Rightarrow> (probe_index \<times> probe_move list) option"
where
  "pi_remove_loop cap 0 index hole candidate = None"
| "pi_remove_loop cap (Suc fuel) index hole candidate =
     (let following = usize_wrapping_add candidate 1 mod cap in
      case index ! candidate of
        SlotEmpty \<Rightarrow> Some (index[hole := SlotEmpty], [])
      | SlotOccupied candidate_key candidate_value \<Rightarrow>
          let home_bucket = pi_probe_start cap candidate_key in
          if pi_probe_distance cap home_bucket hole < pi_probe_distance cap home_bucket candidate
          then
            (case u32_try_from hole of
               None \<Rightarrow> None
             | Some new_flat \<Rightarrow>
                 map_option (\<lambda>(index', moves). (index', (candidate_key, candidate_value - 1, new_flat) # moves))
                   (pi_remove_loop cap fuel (index[hole := index ! candidate]) candidate following))
          else pi_remove_loop cap fuel index hole following)"

definition pi_remove_at ::
  "nat \<Rightarrow> probe_index \<Rightarrow> u32 \<Rightarrow> u64 \<Rightarrow> (probe_index \<times> probe_move list \<times> nat option) option"
where
  "pi_remove_at cap index flat_u32 key =
     (let flat_index = unat flat_u32 in
      if flat_index \<ge> cap then Some (index, [], None)
      else case index ! flat_index of
          SlotEmpty \<Rightarrow> Some (index, [], None)
        | SlotOccupied indexed v \<Rightarrow>
            if indexed \<noteq> key then Some (index, [], None)
            else map_option (\<lambda>(index', moves). (index', moves, Some (v - 1)))
              (pi_remove_loop cap cap index flat_index (usize_wrapping_add flat_index 1 mod cap)))"

section \<open>The index as a probe table\<close>

fun entry_view :: "probe_entry \<Rightarrow> (u64 \<times> nat) option" where
  "entry_view SlotEmpty = None"
| "entry_view (SlotOccupied k v) = Some (k, v - 1)"

definition pi_view :: "probe_index \<Rightarrow> (u64, nat) table" where
  "pi_view index = map entry_view index"

definition pi_inv :: "nat \<Rightarrow> probe_index \<Rightarrow> bool" where
  "pi_inv cap index \<longleftrightarrow>
     length index = cap \<and> cap \<le> 2 ^ 32 \<and> table_inv (pi_probe_start cap) (pi_view index)"

lemma length_pi_view [simp]: "length (pi_view index) = length index"
  by (simp add: pi_view_def)

lemma nth_pi_view [simp]: "i < length index \<Longrightarrow> pi_view index ! i = entry_view (index ! i)"
  by (simp add: pi_view_def)

lemma pi_view_update: "pi_view (index[i := s]) = (pi_view index)[i := entry_view s]"
  by (simp add: pi_view_def map_update)

lemma pi_probe_distance_cdist: "pi_probe_distance = cdist"
  by (intro ext) (simp add: pi_probe_distance_def cdist_def)

lemma pi_probe_start_less: "0 < cap \<Longrightarrow> pi_probe_start cap k < cap"
  by (simp add: pi_probe_start_def)

lemma pi_find_loop_probe:
  assumes "length index = cap" "cap \<le> 2 ^ 32" "start < cap" "\<forall>x \<in> set offs. x < cap"
  shows "pi_find_loop cap index k start offs = probe_find (pi_view index) k start offs"
  using assms(4)
proof (induction offs)
  case (Cons x offs)
  have "(start + x) mod cap < length index" using assms by simp
  with Cons assms show ?case
    by (simp add: probe_step_small Let_def split: probe_entry.splits)
qed simp

lemma pi_insert_loop_probe:
  assumes "length index = cap" "cap \<le> 2 ^ 32" "start < cap" "\<forall>x \<in> set offs. x < cap"
  shows "pi_insert_loop cap index k v start offs =
    (case probe_slot (pi_view index) k start offs of
       Inl e \<Rightarrow> Inl e
     | Inr i \<Rightarrow> Inr (index[i := SlotOccupied k v], of_nat i))"
  using assms(4)
proof (induction offs)
  case (Cons x offs)
  have "(start + x) mod cap < cap" using assms by simp
  moreover from this assms(2) have "(start + x) mod cap < 2 ^ 32" by (rule order.strict_trans2)
  ultimately have "(start + x) mod cap < length index" "(start + x) mod cap < 2 ^ 32"
    using assms(1) by simp_all
  with Cons assms show ?case
    by (auto simp: probe_step_small Let_def u32_try_from_def split: probe_entry.splits)
qed simp

lemma pi_remove_loop_close_hole:
  assumes "length index = cap" "cap \<le> 2 ^ 32" "hole < length index" "cand < length index"
    and "close_hole (pi_probe_start cap) fuel (pi_view index) hole cand = Some (t', moves)"
  shows "\<exists>index' moves'. pi_remove_loop cap fuel index hole cand = Some (index', moves') \<and>
    pi_view index' = t' \<and> map (\<lambda>(k, v, s). (k, v, unat s)) moves' = moves \<and> length index' = length index"
  using assms
proof (induction fuel arbitrary: index hole cand moves)
  case (Suc fuel)
  let ?next = "usize_wrapping_add cand 1 mod cap"
  have nx: "?next = Suc cand mod length index"
    using Suc.prems(1,2,4) wrapping_add_small [of cand 1] by simp
  have inr: "Suc cand mod length index < length index"
    using Suc.prems(4) by (intro mod_less_divisor) (rule le_less_trans [OF le0])
  show ?case
  proof (cases "index ! cand")
    case SlotEmpty
    with Suc.prems show ?thesis by (auto simp: Let_def pi_view_update)
  next
    case (SlotOccupied k v)
    have view: "pi_view index ! cand = Some (k, v - 1)" using SlotOccupied Suc.prems(4) by simp
    obtain w where w: "u32_try_from hole = Some w" "unat w = hole"
      using u32_try_from_Some [of hole] Suc.prems(1-3) by (metis order.strict_trans2)
    show ?thesis
    proof (cases "cdist cap (pi_probe_start cap k) hole < cdist cap (pi_probe_start cap k) cand")
      case True
      then obtain m where m: "close_hole (pi_probe_start cap) fuel (pi_view (index[hole := index ! cand])) cand
          (Suc cand mod length index) = Some (t', m)" "moves = (k, v - 1, hole) # m"
        using Suc.prems(1,5) view SlotOccupied by (auto simp: pi_view_update)
      obtain index' moves' where r: "pi_remove_loop cap fuel (index[hole := index ! cand]) cand ?next = Some (index', moves')"
          "pi_view index' = t'" "map (\<lambda>(k, v, s). (k, v, unat s)) moves' = m" "length index' = length index"
        using Suc.IH [of "index[hole := index ! cand]" cand "?next" m] Suc.prems(1-4) m nx inr by auto
      then show ?thesis
        using True SlotOccupied w m(2)
        by (intro exI [of _ index'] exI [of _ "(k, v - 1, w) # moves'"])
          (simp add: Let_def pi_probe_distance_cdist)
    next
      case False
      then show ?thesis
        using Suc.IH [of index hole "Suc cand mod length index" moves] Suc.prems view SlotOccupied nx inr
        by (auto simp: Let_def pi_probe_distance_cdist)
    qed
  qed
qed simp

section \<open>The index satisfies the contract\<close>

lemma pi_inv_table: "pi_inv cap index \<Longrightarrow> table_inv (pi_probe_start cap) (pi_view index)"
  by (simp add: pi_inv_def)

lemma pi_lookup_entry:
  assumes inv: "pi_inv cap index"
  shows "pi_lookup cap index k = Some v \<longleftrightarrow> (k, v) \<in> entries (pi_view index)"
proof (cases "cap = 0")
  case True
  with inv show ?thesis by (auto simp: pi_lookup_def pi_find_slot_def pi_inv_def entries_def pi_view_def)
next
  case False
  have len: "length index = cap" "cap \<le> 2 ^ 32" using inv by (simp_all add: pi_inv_def)
  have "pi_find_slot cap index k = Some p \<longleftrightarrow> p < cap \<and> (\<exists>v. pi_view index ! p = Some (k, v))" for p
    using probe_find_iff [OF pi_inv_table [OF inv], of k p] False len pi_probe_start_less [of cap k]
    by (simp add: pi_find_slot_def pi_find_loop_probe)
  moreover have "p < cap \<Longrightarrow> (\<exists>w. pi_view index ! p = Some (k, w)) \<and>
      (case index ! p of SlotOccupied _ v \<Rightarrow> Some (v - 1) | SlotEmpty \<Rightarrow> None) = Some v \<longleftrightarrow>
      pi_view index ! p = Some (k, v)" for p
    using len by (cases "index ! p") auto
  ultimately have "pi_lookup cap index k = Some v \<longleftrightarrow> (\<exists>p < cap. pi_view index ! p = Some (k, v))"
    unfolding pi_lookup_def bind_eq_Some_conv by blast
  then show ?thesis using len by (auto simp: entries_def in_set_conv_nth)
qed

lemma pi_insert_fresh:
  assumes inv: "pi_inv cap index" and v: "v < NIL"
    and room: "used (pi_view index) < length (pi_view index)"
    and fresh: "\<forall>w. (k, w) \<notin> entries (pi_view index)"
  shows "\<exists>index' s. pi_insert cap index k v = Inr (index', s) \<and> pi_inv cap index' \<and>
    unat s < length (pi_view index) \<and> pi_view index ! unat s = None \<and>
    pi_view index' = (pi_view index)[unat s := Some (k, v)]"
proof -
  let ?t = "pi_view index"
  have cap: "length index = cap" "cap \<le> 2 ^ 32" "0 < cap" using inv room by (simp_all add: pi_inv_def)
  obtain i where i: "i < cap" "probe_slot ?t k (pi_probe_start cap k) [0..<cap] = Inr i" "?t ! i = None"
      "table_inv (pi_probe_start cap) (?t[i := Some (k, v)])"
    using probe_insert [OF pi_inv_table [OF inv] room fresh, of v] cap(1) by auto
  have ins: "pi_insert cap index k v = Inr (index[i := SlotOccupied k (v + 1)], of_nat i)"
    using v cap i(2) pi_insert_loop_probe [of index cap "pi_probe_start cap k" "[0..<cap]" k "v + 1"]
    by (simp add: pi_insert_def usize_checked_add_def pi_probe_start_less)
  have view: "pi_view (index[i := SlotOccupied k (v + 1)]) = ?t[i := Some (k, v)]"
    by (simp add: pi_view_update)
  have "pi_inv cap (index[i := SlotOccupied k (v + 1)])" using inv view i(4) by (simp add: pi_inv_def)
  moreover have "unat (of_nat i :: u32) = i" using i(1) cap(2) by (simp add: unat_of_nat)
  ultimately show ?thesis using ins view i(1,3) cap(1) by auto
qed

lemma pi_remove_at_slot:
  assumes inv: "pi_inv cap index" and s: "unat s < length (pi_view index)"
    and v: "pi_view index ! unat s = Some (k, v)"
    and room: "used (pi_view index) < length (pi_view index)"
  shows "\<exists>index' moves. pi_remove_at cap index s k = Some (index', moves, Some v) \<and> pi_inv cap index' \<and>
    close_hole (pi_probe_start cap) (length (pi_view index))
      (pi_view index) (unat s) (Suc (unat s) mod length (pi_view index))
    = Some (pi_view index', map (\<lambda>(k, v, s). (k, v, unat s)) moves)"
proof -
  have cap: "length index = cap" "cap \<le> 2 ^ 32" "unat s < cap" using inv s by (simp_all add: pi_inv_def)
  obtain x where x: "index ! unat s = SlotOccupied k x" "v = x - 1"
    using v s by (cases "index ! unat s") auto
  obtain t' moves where ch: "close_hole (pi_probe_start cap) cap (pi_view index) (unat s) (Suc (unat s) mod cap)
        = Some (t', moves)" "table_inv (pi_probe_start cap) t'"
    using probe_remove [OF pi_inv_table [OF inv] s v room] cap(1) by auto
  have nx: "usize_wrapping_add (unat s) 1 mod cap = Suc (unat s) mod cap"
    using cap wrapping_add_small [of "unat s" 1] by simp
  have "Suc (unat s) mod cap < length index" using cap by simp
  then obtain index' moves' where r: "pi_remove_loop cap cap index (unat s) (Suc (unat s) mod cap) = Some (index', moves')"
      "pi_view index' = t'" "map (\<lambda>(k, v, s). (k, v, unat s)) moves' = moves" "length index' = length index"
    using pi_remove_loop_close_hole [OF cap(1,2) _ _ ch(1)] cap by auto
  have "pi_remove_at cap index s k = Some (index', moves', Some v)"
    using x cap(3) nx r(1) by (simp add: pi_remove_at_def Let_def)
  moreover have "pi_inv cap index'" using r ch(2) cap by (simp add: pi_inv_def)
  ultimately show ?thesis using ch(1) r(2,3) cap(1) by auto
qed

interpretation pi: index_contract "pi_probe_start cap" "pi_inv cap" pi_view
    "\<lambda>v. v < NIL" "pi_lookup cap" "pi_insert cap" "pi_remove_at cap"
  for cap
  by unfold_locales (rule pi_inv_table pi_lookup_entry pi_insert_fresh pi_remove_at_slot; assumption)+

lemma probe_index_new_inv:
  assumes "cap \<le> 2 ^ 32"
  shows "pi_inv cap (probe_index_new cap) \<and> pi_lookup cap (probe_index_new cap) k = None \<and>
    used (pi_view (probe_index_new cap)) = 0"
proof -
  have view: "pi_view (probe_index_new cap) = replicate cap None" by (simp add: pi_view_def probe_index_new_def)
  have inv: "pi_inv cap (probe_index_new cap)"
    using assms unfolding pi_inv_def view
    by (auto simp: probe_index_new_def table_inv_def keys_unique_def unbroken_def pi_probe_start_less)
  then show ?thesis
    using pi.find_none [OF inv, of k] by (auto simp: view entries_def used_def)
qed

end
