(* ===== verification/Risk.thy ===== *)
theory Risk
  imports Risk_Index
begin

text \<open>
  The pre-trade risk engine of \<^verbatim>\<open>crates/hft-risk/src/lib.rs\<close>. \<open>A\<close> and \<open>N\<close> are the const generics
  \<open>ACCOUNTS\<close> and \<open>ORDERS\<close>. An operation has type \<open>(reject_reason + result) option\<close>: \<open>Inl\<close> is a
  rejection and \<open>None\<close> a panic (an index out of range or the \<open>expect\<close> of the index). The signed
  \<open>i128\<close> and \<open>i64\<close> are words read by \<open>sint\<close>.
\<close>

section \<open>State\<close>

record risk_limits =
  rl_max_quantity :: quantity
  rl_max_notional :: u128
  rl_max_abs_position :: quantity
  rl_max_open_orders :: u32
  rl_minimum_price :: price_ticks
  rl_maximum_price :: price_ticks

datatype registration_error = DuplicateAccount | AccountCapacity | InvalidLimits

record account_state =
  ac_id :: account_id
  ac_limits :: risk_limits
  ac_settled_position :: i128
  ac_reserved_buys :: u128
  ac_reserved_sells :: u128
  ac_open_orders :: u32
  ac_killed :: bool

record reservation =
  rv_order_id :: order_id
  rv_account_id :: account_id
  rv_index_slot :: u32
  rv_side :: side
  rv_quantity :: quantity

datatype reservation_slot = RFree nat | RLive reservation

record risk_engine =
  re_accounts :: "account_state option list"
  re_account_index :: probe_index
  re_reservations :: "reservation_slot list"
  re_free_head :: nat
  re_reservation_index :: probe_index
  re_maximum_order_id :: "order_id option"
  re_killed :: bool

definition risk_new :: "nat \<Rightarrow> nat \<Rightarrow> risk_engine" where
  "risk_new A N =
     \<lparr>re_accounts = replicate A None, re_account_index = probe_index_new (probe_capacity A),
      re_reservations = map (\<lambda>i. RFree (if i + 1 < N then i + 1 else NIL)) [0..<N],
      re_free_head = (if N = 0 then NIL else 0),
      re_reservation_index = probe_index_new (probe_capacity N),
      re_maximum_order_id = None, re_killed = False\<rparr>"

section \<open>Lookups\<close>

definition account_slot :: "nat \<Rightarrow> risk_engine \<Rightarrow> account_id \<Rightarrow> nat option" where
  "account_slot A eng account = pi_lookup (probe_capacity A) (re_account_index eng) (ucast account)"

definition live_reservation :: "nat \<Rightarrow> risk_engine \<Rightarrow> order_id \<Rightarrow> (nat \<times> reservation) option" where
  "live_reservation N eng order_id =
     Option.bind (pi_lookup (probe_capacity N) (re_reservation_index eng) order_id) (\<lambda>slot.
       case get (re_reservations eng) slot of
         Some (RLive reservation) \<Rightarrow>
           if rv_order_id reservation \<noteq> order_id then None else Some (slot, reservation)
       | _ \<Rightarrow> None)"

text \<open>\<open>account_slot(id).ok_or(UnknownAccount)?\<close> followed by \<open>accounts[slot].ok_or(UnknownAccount)?\<close>.\<close>

definition located_account ::
  "nat \<Rightarrow> risk_engine \<Rightarrow> account_id \<Rightarrow> (reject_reason + nat \<times> account_state) option"
where
  "located_account A eng account =
     (case account_slot A eng account of
        None \<Rightarrow> Some (Inl UnknownAccount)
      | Some slot \<Rightarrow>
          map_option (\<lambda>entry. case entry of None \<Rightarrow> Inl UnknownAccount | Some a \<Rightarrow> Inr (slot, a))
            (get (re_accounts eng) slot))"

definition set_account :: "risk_engine \<Rightarrow> nat \<Rightarrow> account_state \<Rightarrow> risk_engine" where
  "set_account eng slot account = eng\<lparr>re_accounts := (re_accounts eng)[slot := Some account]\<rparr>"

definition set_reservation :: "risk_engine \<Rightarrow> nat \<Rightarrow> reservation \<Rightarrow> risk_engine" where
  "set_reservation eng slot reservation =
     eng\<lparr>re_reservations := (re_reservations eng)[slot := RLive reservation]\<rparr>"

section \<open>Release\<close>

text \<open>The closure passed to \<open>remove_at\<close>: rewrite the handle of a moved entry's reservation.\<close>

definition update_moved :: "u64 \<Rightarrow> nat \<Rightarrow> u32 \<Rightarrow> reservation_slot list \<Rightarrow> reservation_slot list" where
  "update_moved moved_key moved_slot new_flat reservations =
     (case get reservations moved_slot of
        Some (RLive moved) \<Rightarrow>
          if rv_order_id moved \<noteq> moved_key then reservations
          else reservations[moved_slot := RLive (moved\<lparr>rv_index_slot := new_flat\<rparr>)]
      | _ \<Rightarrow> reservations)"

definition release_reservation :: "nat \<Rightarrow> risk_engine \<Rightarrow> nat \<Rightarrow> reservation \<Rightarrow> risk_engine option" where
  "release_reservation N eng slot reservation =
     Option.bind (pi_remove_at (probe_capacity N) (re_reservation_index eng) (rv_index_slot reservation)
         (rv_order_id reservation)) (\<lambda>(index, moves, _).
       let reservations = fold (\<lambda>(k, v, s). update_moved k v s) moves (re_reservations eng) in
       if slot < length reservations
       then Some (eng\<lparr>re_reservation_index := index,
                      re_reservations := reservations[slot := RFree (re_free_head eng)],
                      re_free_head := slot\<rparr>)
       else None)"

section \<open>Accounts\<close>

definition register_account ::
  "nat \<Rightarrow> risk_engine \<Rightarrow> account_id \<Rightarrow> risk_limits \<Rightarrow> registration_error + risk_engine"
where
  "register_account A eng account limits =
     (if rl_max_quantity limits = 0 \<or> rl_max_open_orders limits = 0 \<or>
         sint (rl_minimum_price limits) > sint (rl_maximum_price limits)
      then Inl InvalidLimits
      else if account_slot A eng account \<noteq> None then Inl DuplicateAccount
      else case List.find (\<lambda>slot. re_accounts eng ! slot = None) [0..<length (re_accounts eng)] of
          None \<Rightarrow> Inl AccountCapacity
        | Some slot \<Rightarrow>
            (case pi_insert (probe_capacity A) (re_account_index eng) (ucast account) slot of
               Inl ProbeFull \<Rightarrow> Inl AccountCapacity
             | Inl ProbeDuplicate \<Rightarrow> Inl DuplicateAccount
             | Inr (index, _) \<Rightarrow>
                 Inr (set_account (eng\<lparr>re_account_index := index\<rparr>) slot
                   \<lparr>ac_id = account, ac_limits = limits, ac_settled_position = 0, ac_reserved_buys = 0,
                    ac_reserved_sells = 0, ac_open_orders = 0, ac_killed = False\<rparr>)))"

definition set_kill_switch :: "risk_engine \<Rightarrow> bool \<Rightarrow> risk_engine" where
  "set_kill_switch eng killed = eng\<lparr>re_killed := killed\<rparr>"

definition set_account_kill_switch ::
  "nat \<Rightarrow> risk_engine \<Rightarrow> account_id \<Rightarrow> bool \<Rightarrow> (reject_reason + risk_engine) option"
where
  "set_account_kill_switch A eng account killed =
     rbind (located_account A eng account) (\<lambda>(slot, a).
       Some (Inr (set_account eng slot (a\<lparr>ac_killed := killed\<rparr>))))"

section \<open>Limits\<close>

text \<open>The reserved totals with \<open>quantity\<close> added to, or released from, one side.\<close>

definition reserve_more :: "account_state \<Rightarrow> side \<Rightarrow> u64 \<Rightarrow> reject_reason + u128 \<times> u128" where
  "reserve_more a side quantity =
     (case side of
        Buy \<Rightarrow> and_then (ok_or (checked_add (ac_reserved_buys a) (ucast quantity)) ArithmeticOverflow)
                 (\<lambda>buys. Inr (buys, ac_reserved_sells a))
      | Sell \<Rightarrow> and_then (ok_or (checked_add (ac_reserved_sells a) (ucast quantity)) ArithmeticOverflow)
                 (\<lambda>sells. Inr (ac_reserved_buys a, sells)))"

definition reserve_less :: "account_state \<Rightarrow> side \<Rightarrow> u64 \<Rightarrow> reject_reason + u128 \<times> u128" where
  "reserve_less a side quantity =
     (case side of
        Buy \<Rightarrow> and_then (ok_or (checked_sub (ac_reserved_buys a) (ucast quantity)) ArithmeticOverflow)
                 (\<lambda>buys. Inr (buys, ac_reserved_sells a))
      | Sell \<Rightarrow> and_then (ok_or (checked_sub (ac_reserved_sells a) (ucast quantity)) ArithmeticOverflow)
                 (\<lambda>sells. Inr (ac_reserved_buys a, sells)))"

text \<open>The notional of a price and a quantity, bounded by the limit.\<close>

definition check_notional :: "risk_limits \<Rightarrow> price_ticks \<Rightarrow> quantity \<Rightarrow> reject_reason + unit" where
  "check_notional limits price quantity =
     and_then (ok_or (checked_abs price) ArithmeticOverflow) (\<lambda>absolute_price.
     and_then (ok_or (try_unsigned absolute_price) ArithmeticOverflow) (\<lambda>absolute_price.
     and_then (ok_or (checked_mul (ucast absolute_price :: u128) (ucast quantity)) ArithmeticOverflow) (\<lambda>notional.
       if notional > rl_max_notional limits then Inl NotionalLimit else Inr ())))"

text \<open>The worst-case long and short positions against the position limit.\<close>

definition check_position :: "account_state \<Rightarrow> u128 \<Rightarrow> u128 \<Rightarrow> reject_reason + unit" where
  "check_position a reserved_buys reserved_sells =
     (let maximum_position = ucast (rl_max_abs_position (ac_limits a)) :: i128 in
      and_then (ok_or (try_signed reserved_buys) ArithmeticOverflow) (\<lambda>buys.
      and_then (ok_or (checked_sadd (ac_settled_position a) buys) ArithmeticOverflow) (\<lambda>worst_long.
      and_then (ok_or (try_signed reserved_sells) ArithmeticOverflow) (\<lambda>sells.
      and_then (ok_or (checked_ssub (ac_settled_position a) sells) ArithmeticOverflow) (\<lambda>worst_short.
        if sint worst_long > sint maximum_position \<or> sint worst_short < sint (- maximum_position)
        then Inl PositionLimit else Inr ())))))"

definition evaluate_limits :: "account_state \<Rightarrow> new_order \<Rightarrow> reject_reason + u128 \<times> u128 \<times> u32" where
  "evaluate_limits a order =
     (if ac_killed a then Inl KillSwitch
      else if no_quantity order > rl_max_quantity (ac_limits a) then Inl QuantityLimit
      else if sint (no_price order) < sint (rl_minimum_price (ac_limits a)) \<or>
              sint (no_price order) > sint (rl_maximum_price (ac_limits a)) then Inl PriceCollar
      else
        and_then (check_notional (ac_limits a) (no_price order) (no_quantity order)) (\<lambda>_.
        and_then (reserve_more a (no_side order) (no_quantity order)) (\<lambda>(reserved_buys, reserved_sells).
        and_then (check_position a reserved_buys reserved_sells) (\<lambda>_.
        and_then (ok_or (checked_add (ac_open_orders a) 1) ArithmeticOverflow) (\<lambda>open_orders.
          if open_orders > rl_max_open_orders (ac_limits a) then Inl OpenOrderLimit
          else Inr (reserved_buys, reserved_sells, open_orders))))))"

definition exposure_after_fill ::
  "account_state \<Rightarrow> side \<Rightarrow> u64 \<Rightarrow> u64 \<Rightarrow> reject_reason + i128 \<times> u128 \<times> u128"
where
  "exposure_after_fill a side filled released =
     and_then (ok_or (case side of
                        Buy \<Rightarrow> checked_sadd (ac_settled_position a) (ucast filled)
                      | Sell \<Rightarrow> checked_ssub (ac_settled_position a) (ucast filled)) ArithmeticOverflow)
       (\<lambda>settled_position.
     and_then (reserve_less a side released) (\<lambda>(reserved_buys, reserved_sells).
       Inr (settled_position, reserved_buys, reserved_sells)))"

section \<open>Reservation and settlement\<close>

definition check_and_reserve ::
  "nat \<Rightarrow> nat \<Rightarrow> risk_engine \<Rightarrow> new_order \<Rightarrow> (reject_reason + risk_engine) option"
where
  "check_and_reserve A N eng order =
     (if re_killed eng then Some (Inl KillSwitch)
      else if no_quantity order = 0 then Some (Inl InvalidQuantity)
      else if (case re_maximum_order_id eng of None \<Rightarrow> False | Some maximum \<Rightarrow> no_order_id order \<le> maximum)
      then Some (Inl DuplicateOrderId)
      else if re_free_head eng = NIL then Some (Inl OrderCapacity)
      else
        rbind (located_account A eng (no_account_id order)) (\<lambda>(account_slot, a).
        rbind (Some (evaluate_limits a order)) (\<lambda>(reserved_buys, reserved_sells, open_orders).
          let reservation_slot = re_free_head eng in
          case get (re_reservations eng) reservation_slot of
            Some (RFree next_free) \<Rightarrow>
              (case pi_insert (probe_capacity N) (re_reservation_index eng) (no_order_id order) reservation_slot of
                 Inl ProbeFull \<Rightarrow> Some (Inl OrderCapacity)
               | Inl ProbeDuplicate \<Rightarrow> Some (Inl ArithmeticOverflow)
               | Inr (index, index_slot) \<Rightarrow>
                   Some (Inr ((set_reservation
                     (set_account (eng\<lparr>re_reservation_index := index\<rparr>) account_slot
                        (a\<lparr>ac_reserved_buys := reserved_buys, ac_reserved_sells := reserved_sells,
                           ac_open_orders := open_orders\<rparr>))
                     reservation_slot
                     \<lparr>rv_order_id = no_order_id order, rv_account_id = no_account_id order,
                      rv_index_slot = index_slot, rv_side = no_side order,
                      rv_quantity = no_quantity order\<rparr>)
                     \<lparr>re_free_head := next_free, re_maximum_order_id := Some (no_order_id order)\<rparr>)))
          | _ \<Rightarrow> Some (Inl ArithmeticOverflow))))"

definition settle_reservation ::
  "nat \<Rightarrow> nat \<Rightarrow> risk_engine \<Rightarrow> nat \<Rightarrow> reservation \<Rightarrow> quantity \<Rightarrow> (reject_reason + risk_engine) option"
where
  "settle_reservation A N eng reservation_slot reservation filled_quantity =
     rbind (located_account A eng (rv_account_id reservation)) (\<lambda>(account_slot, a).
     rbind (Some (exposure_after_fill a (rv_side reservation) filled_quantity (rv_quantity reservation)))
       (\<lambda>(settled_position, reserved_buys, reserved_sells).
     rbind (Some (ok_or (checked_sub (ac_open_orders a) 1) ArithmeticOverflow)) (\<lambda>open_orders.
       map_option Inr (release_reservation N
         (set_account eng account_slot
            (a\<lparr>ac_settled_position := settled_position, ac_reserved_buys := reserved_buys,
               ac_reserved_sells := reserved_sells, ac_open_orders := open_orders\<rparr>))
         reservation_slot reservation))))"

definition settle ::
  "nat \<Rightarrow> nat \<Rightarrow> risk_engine \<Rightarrow> order_id \<Rightarrow> quantity \<Rightarrow> (reject_reason + risk_engine) option"
where
  "settle A N eng order_id filled_quantity =
     (case live_reservation N eng order_id of
        None \<Rightarrow> Some (Inl UnknownOrder)
      | Some (reservation_slot, reservation) \<Rightarrow>
          if filled_quantity > rv_quantity reservation then Some (Inl InvalidQuantity)
          else settle_reservation A N eng reservation_slot reservation filled_quantity)"

definition record_fill ::
  "nat \<Rightarrow> nat \<Rightarrow> risk_engine \<Rightarrow> order_id \<Rightarrow> quantity \<Rightarrow> (reject_reason + risk_engine) option"
where
  "record_fill A N eng order_id filled_quantity =
     (if filled_quantity = 0 then Some (Inl InvalidQuantity)
      else case live_reservation N eng order_id of
        None \<Rightarrow> Some (Inl UnknownOrder)
      | Some (reservation_slot, located) \<Rightarrow>
          rbind (Some (ok_or (checked_sub (rv_quantity located) filled_quantity) InvalidQuantity)) (\<lambda>remaining.
            let reservation = located\<lparr>rv_quantity := remaining\<rparr> in
          rbind (located_account A eng (rv_account_id reservation)) (\<lambda>(account_slot, a).
          rbind (Some (exposure_after_fill a (rv_side reservation) filled_quantity filled_quantity))
            (\<lambda>(settled_position, reserved_buys, reserved_sells).
          rbind (Some (if remaining = 0 then ok_or (checked_sub (ac_open_orders a) 1) ArithmeticOverflow
                       else Inr (ac_open_orders a))) (\<lambda>open_orders.
            let eng' = set_account eng account_slot
                  (a\<lparr>ac_settled_position := settled_position, ac_reserved_buys := reserved_buys,
                     ac_reserved_sells := reserved_sells, ac_open_orders := open_orders\<rparr>) in
            if remaining = 0 then map_option Inr (release_reservation N eng' reservation_slot reservation)
            else Some (Inr (set_reservation eng' reservation_slot reservation)))))))"

section \<open>Amendment and cancellation\<close>

text \<open>The write that ends both branches of \<open>adjust_reservation\<close> and \<open>restore_reservation\<close>.\<close>

definition amend ::
  "risk_engine \<Rightarrow> nat \<Rightarrow> account_state \<Rightarrow> u128 \<times> u128 \<Rightarrow> nat \<Rightarrow> reservation \<Rightarrow> quantity \<Rightarrow> risk_engine"
where
  "amend eng where_account a reserved slot reservation quantity =
     set_reservation
       (set_account eng where_account (a\<lparr>ac_reserved_buys := fst reserved, ac_reserved_sells := snd reserved\<rparr>))
       slot (reservation\<lparr>rv_quantity := quantity\<rparr>)"

definition adjust_reservation ::
  "nat \<Rightarrow> nat \<Rightarrow> risk_engine \<Rightarrow> order_id \<Rightarrow> account_id \<Rightarrow> price_ticks \<Rightarrow> quantity
     \<Rightarrow> (reject_reason + risk_engine \<times> quantity \<times> quantity) option"
where
  "adjust_reservation A N eng order_id account_id price new_total =
     (case live_reservation N eng order_id of
        None \<Rightarrow> Some (Inl UnknownOrder)
      | Some (slot, reservation) \<Rightarrow>
          if rv_account_id reservation \<noteq> account_id then Some (Inl NotOrderOwner)
          else
            let remaining = rv_quantity reservation in
            if new_total = remaining then Some (Inr (eng, 0, remaining))
            else
              rbind (located_account A eng account_id) (\<lambda>(account_slot, a).
                if new_total > remaining then
                  rbind (Some (reserve_more a (rv_side reservation) (new_total - remaining))) (\<lambda>reserved.
                  rbind (Some (check_notional (ac_limits a) price new_total)) (\<lambda>_.
                  rbind (Some (check_position a (fst reserved) (snd reserved))) (\<lambda>_.
                    Some (Inr (amend eng account_slot a reserved slot reservation new_total, 0, remaining)))))
                else
                  rbind (Some (reserve_less a (rv_side reservation) (remaining - new_total))) (\<lambda>reserved.
                    Some (Inr (amend eng account_slot a reserved slot reservation new_total,
                               remaining - new_total, remaining)))))"

definition restore_reservation ::
  "nat \<Rightarrow> nat \<Rightarrow> risk_engine \<Rightarrow> order_id \<Rightarrow> account_id \<Rightarrow> quantity \<Rightarrow> (reject_reason + risk_engine) option"
where
  "restore_reservation A N eng order_id account_id prior =
     (case live_reservation N eng order_id of
        None \<Rightarrow> Some (Inl UnknownOrder)
      | Some (slot, reservation) \<Rightarrow>
          if rv_account_id reservation \<noteq> account_id then Some (Inl NotOrderOwner)
          else
            let current = rv_quantity reservation in
            if current = prior then Some (Inr eng)
            else
              rbind (located_account A eng account_id) (\<lambda>(account_slot, a).
              rbind (Some (if prior > current then reserve_more a (rv_side reservation) (prior - current)
                           else reserve_less a (rv_side reservation) (current - prior))) (\<lambda>reserved.
                Some (Inr (amend eng account_slot a reserved slot reservation prior)))))"

definition can_cancel :: "nat \<Rightarrow> risk_engine \<Rightarrow> order_id \<Rightarrow> account_id \<Rightarrow> reject_reason + unit" where
  "can_cancel N eng order_id account_id =
     (case live_reservation N eng order_id of
        None \<Rightarrow> Inl UnknownOrder
      | Some (_, reservation) \<Rightarrow> if rv_account_id reservation \<noteq> account_id then Inl NotOrderOwner else Inr ())"

definition cancel_reservation ::
  "nat \<Rightarrow> nat \<Rightarrow> risk_engine \<Rightarrow> order_id \<Rightarrow> account_id \<Rightarrow> (reject_reason + risk_engine \<times> quantity) option"
where
  "cancel_reservation A N eng order_id account_id =
     (case live_reservation N eng order_id of
        None \<Rightarrow> Some (Inl UnknownOrder)
      | Some (reservation_slot, reservation) \<Rightarrow>
          if rv_account_id reservation \<noteq> account_id then Some (Inl NotOrderOwner)
          else rbind (settle_reservation A N eng reservation_slot reservation 0) (\<lambda>eng'.
            Some (Inr (eng', rv_quantity reservation))))"

definition account_snapshot :: "nat \<Rightarrow> risk_engine \<Rightarrow> account_id \<Rightarrow> (i128 \<times> u32) option option" where
  "account_snapshot A eng account =
     (case account_slot A eng account of
        None \<Rightarrow> Some None
      | Some slot \<Rightarrow>
          map_option (\<lambda>entry. Option.bind entry (\<lambda>a.
              Option.bind (try_signed (ac_reserved_buys a)) (\<lambda>buys.
              Option.bind (try_signed (ac_reserved_sells a)) (\<lambda>sells.
              Option.bind (checked_sadd (ac_settled_position a) buys) (\<lambda>long.
              Option.bind (checked_ssub long sells) (\<lambda>projected.
                Some (projected, ac_open_orders a)))))))
            (get (re_accounts eng) slot))"

end
