(* ===== verification/Risk_Store.thy ===== *)
theory Risk_Store
  imports Risk
begin

text \<open>
  The storage of the risk engine: reservations in stable slots with a free list, found through an
  index whose entries the reservations point back at, and accounts found through a second index.
  \<open>res_of\<close> and \<open>acct_of\<close> read the storage as finite maps; the lemmas say what each write does to them.
\<close>

section \<open>Reservation slots\<close>

definition live :: "reservation_slot list \<Rightarrow> nat \<Rightarrow> reservation option" where
  "live slots i = (case get slots i of Some (RLive rv) \<Rightarrow> Some rv | _ \<Rightarrow> None)"

fun free_chain :: "reservation_slot list \<Rightarrow> nat \<Rightarrow> nat list \<Rightarrow> bool" where
  "free_chain slots head [] \<longleftrightarrow> head = NIL"
| "free_chain slots head (x # xs) \<longleftrightarrow>
     head = x \<and> x < length slots \<and> (\<exists>n. slots ! x = RFree n \<and> free_chain slots n xs)"

definition free_list_ok :: "nat \<Rightarrow> reservation_slot list \<Rightarrow> nat \<Rightarrow> bool" where
  "free_list_ok N slots head \<longleftrightarrow>
     length slots = N \<and> N < NIL \<and>
     (\<exists>fs. free_chain slots head fs \<and> distinct fs \<and> (\<forall>i < N. i \<in> set fs \<longleftrightarrow> live slots i = None))"

definition res_handle :: "reservation_slot list \<Rightarrow> u64 \<Rightarrow> nat \<Rightarrow> nat \<Rightarrow> bool" where
  "res_handle slots k v q \<longleftrightarrow>
     (\<exists>rv. live slots v = Some rv \<and> rv_order_id rv = k \<and> rv_index_slot rv = of_nat q)"

definition store_ok :: "nat \<Rightarrow> risk_engine \<Rightarrow> bool" where
  "store_ok N eng \<longleftrightarrow>
     free_list_ok N (re_reservations eng) (re_free_head eng) \<and>
     pi_inv (probe_capacity N) (re_reservation_index eng) \<and>
     (\<forall>k v. pi_lookup (probe_capacity N) (re_reservation_index eng) k = Some v \<longleftrightarrow>
        (\<exists>rv. live (re_reservations eng) v = Some rv \<and> rv_order_id rv = k)) \<and>
     (\<forall>q < probe_capacity N. \<forall>k v. pi_view (re_reservation_index eng) ! q = Some (k, v) \<longrightarrow>
        res_handle (re_reservations eng) k v q)"

type_synonym exposure_entry = "account_id \<times> side \<times> quantity"

definition res_data :: "reservation \<Rightarrow> exposure_entry" where
  "res_data rv = (rv_account_id rv, rv_side rv, rv_quantity rv)"

definition res_of :: "nat \<Rightarrow> risk_engine \<Rightarrow> order_id \<Rightarrow> exposure_entry option" where
  "res_of N eng k = map_option (res_data \<circ> snd) (live_reservation N eng k)"

lemma live_Some: "live slots i = Some rv \<longleftrightarrow> i < length slots \<and> slots ! i = RLive rv"
  by (auto simp: live_def get_def split: reservation_slot.splits)

lemma live_None: "live slots i = None \<longleftrightarrow> length slots \<le> i \<or> (\<exists>n. slots ! i = RFree n)"
  by (auto simp: live_def get_def split: reservation_slot.splits)

lemma live_update: "live (slots[i := x]) j =
    (if j = i \<and> i < length slots then (case x of RLive rv \<Rightarrow> Some rv | RFree _ \<Rightarrow> None) else live slots j)"
  by (auto simp: live_def get_def nth_list_update split: reservation_slot.splits)

lemma length_update_moved [simp]: "length (update_moved k v s slots) = length slots"
  by (simp add: update_moved_def split: option.split reservation_slot.split)

lemma live_update_moved:
  "live (update_moved k v s slots) j =
     (case live slots j of
        Some rv \<Rightarrow> Some (if j = v \<and> rv_order_id rv = k then rv\<lparr>rv_index_slot := s\<rparr> else rv)
      | None \<Rightarrow> None)"
proof (cases "live slots v")
  case None
  then have "update_moved k v s slots = slots"
    by (auto simp: update_moved_def live_def get_def split: reservation_slot.splits if_splits)
  with None show ?thesis by (auto split: option.split)
next
  case (Some rv)
  then have "update_moved k v s slots =
      (if rv_order_id rv \<noteq> k then slots else slots[v := RLive (rv\<lparr>rv_index_slot := s\<rparr>)])" "v < length slots"
    by (auto simp: update_moved_def live_Some get_def)
  with Some show ?thesis by (auto simp: live_update split: option.split)
qed

lemma free_chain_cong:
  "\<lbrakk>length slots' = length slots; \<forall>x \<in> set fs. slots' ! x = slots ! x\<rbrakk> \<Longrightarrow>
    free_chain slots' head fs \<longleftrightarrow> free_chain slots head fs"
  by (induction fs arbitrary: head) auto

lemma free_chain_less: "\<lbrakk>free_chain slots head fs; x \<in> set fs\<rbrakk> \<Longrightarrow> x < length slots"
  by (induction fs arbitrary: head) auto

lemma free_chain_update: "x \<notin> set fs \<Longrightarrow> free_chain (slots[x := v]) head fs \<longleftrightarrow> free_chain slots head fs"
  by (rule free_chain_cong) (auto intro: nth_list_update_neq)

lemma free_chain_NIL: "\<lbrakk>free_chain slots head fs; length slots < NIL\<rbrakk> \<Longrightarrow> head = NIL \<longleftrightarrow> fs = []"
  by (cases fs) auto

section \<open>Index and handles\<close>

interpretation rs: indexed_store "pi_probe_start cap" "pi_inv cap" pi_view
    "\<lambda>v. v < NIL" "pi_lookup cap" "pi_insert cap" "pi_remove_at cap" res_handle update_moved
  for cap
proof
  fix slots k v p q
  assume "res_handle slots k v p"
  then show "res_handle (update_moved k v (of_nat q) slots) k v q"
    by (auto simp: res_handle_def live_update_moved)
next
  fix slots k v p k' v' p' q
  assume "res_handle slots k v p" "res_handle slots k' v' p'" "k' \<noteq> k"
  then show "res_handle (update_moved k v (of_nat q) slots) k' v' p'"
    by (auto simp: res_handle_def live_update_moved)
qed

text \<open>Moving index entries changes handles and nothing else.\<close>

definition same_reservations :: "reservation_slot list \<Rightarrow> reservation_slot list \<Rightarrow> bool" where
  "same_reservations a b \<longleftrightarrow> length b = length a \<and>
     (\<forall>i < length a. case a ! i of
        RFree n \<Rightarrow> b ! i = RFree n
      | RLive rv \<Rightarrow> \<exists>h. b ! i = RLive (rv\<lparr>rv_index_slot := h\<rparr>))"

lemma same_reservations_refl: "same_reservations a a"
proof -
  have "\<exists>h. rv = rv\<lparr>rv_index_slot := h\<rparr>" for rv by (rule exI [of _ "rv_index_slot rv"]) simp
  then show ?thesis by (auto simp: same_reservations_def split: reservation_slot.split)
qed

lemma same_reservations_update_moved: "same_reservations a b \<Longrightarrow> same_reservations a (update_moved k v s b)"
  unfolding same_reservations_def
  by (fastforce simp: update_moved_def get_def nth_list_update split: reservation_slot.splits if_splits)

lemma same_reservations_fold: "same_reservations a b \<Longrightarrow> same_reservations a (fold (\<lambda>(k, v, s). update_moved k v s) moves b)"
  by (induction moves arbitrary: b) (auto simp: same_reservations_update_moved)

lemma same_reservations_live:
  assumes "same_reservations a b"
  shows "live a i = None \<Longrightarrow> live b i = None"
    "live a i = Some rv \<Longrightarrow> \<exists>h. live b i = Some (rv\<lparr>rv_index_slot := h\<rparr>)"
  using assms unfolding same_reservations_def
  by (auto simp: live_def get_def split: reservation_slot.splits if_splits)

lemma store_okD:
  assumes "store_ok N eng"
  shows "length (re_reservations eng) = N" "N < NIL"
    "pi_inv (probe_capacity N) (re_reservation_index eng)"
    "length (pi_view (re_reservation_index eng)) = probe_capacity N" "probe_capacity N \<le> 2 ^ 32"
  using assms by (simp_all add: store_ok_def free_list_ok_def pi_inv_def)

lemma live_reservation_iff:
  assumes "store_ok N eng"
  shows "live_reservation N eng k = Some (v, rv) \<longleftrightarrow>
    live (re_reservations eng) v = Some rv \<and> rv_order_id rv = k"
proof -
  have look: "pi_lookup (probe_capacity N) (re_reservation_index eng) k = Some v \<longleftrightarrow>
      (\<exists>rv. live (re_reservations eng) v = Some rv \<and> rv_order_id rv = k)" for v
    using assms by (simp add: store_ok_def)
  have hit: "(case get (re_reservations eng) w of
        Some (RLive rv) \<Rightarrow> if rv_order_id rv \<noteq> k then None else Some (w, rv) | _ \<Rightarrow> None) = Some (v, rv) \<longleftrightarrow>
      w = v \<and> live (re_reservations eng) w = Some rv \<and> rv_order_id rv = k" for w
    by (auto simp: live_def split: option.split reservation_slot.split simp del: get_Some get_None)
  show ?thesis
    unfolding live_reservation_def bind_eq_Some_conv look hit by blast
qed

lemma res_of_iff:
  assumes "store_ok N eng"
  shows "res_of N eng k = Some d \<longleftrightarrow>
    (\<exists>v rv. live (re_reservations eng) v = Some rv \<and> rv_order_id rv = k \<and> res_data rv = d)"
  unfolding res_of_def map_option_eq_Some using live_reservation_iff [OF assms, of k] by auto

lemma live_unique:
  assumes "store_ok N eng" "live (re_reservations eng) v = Some rv" "live (re_reservations eng) w = Some rw"
    "rv_order_id rw = rv_order_id rv"
  shows "w = v"
proof -
  have "pi_lookup (probe_capacity N) (re_reservation_index eng) (rv_order_id rv) = Some v"
    "pi_lookup (probe_capacity N) (re_reservation_index eng) (rv_order_id rv) = Some w"
    using assms unfolding store_ok_def by blast+
  then show ?thesis by simp
qed

text \<open>The reserved orders and the live slots are in bijection, so the index always has room.\<close>

lemma card_live:
  assumes "store_ok N eng"
  shows "dom (res_of N eng) = (\<lambda>v. rv_order_id (the (live (re_reservations eng) v))) ` {v. live (re_reservations eng) v \<noteq> None}"
    (is "_ = ?f ` ?V")
    and "finite {v. live (re_reservations eng) v \<noteq> None}"
    and "card (dom (res_of N eng)) = card {v. live (re_reservations eng) v \<noteq> None}"
    and "card {v. live (re_reservations eng) v \<noteq> None} \<le> N"
proof -
  show d: "dom (res_of N eng) = ?f ` ?V"
  proof (intro equalityI subsetI)
    fix k
    assume "k \<in> dom (res_of N eng)"
    then obtain v rv where "live (re_reservations eng) v = Some rv" "rv_order_id rv = k"
      using res_of_iff [OF assms] by blast
    then show "k \<in> ?f ` ?V" by (intro image_eqI [of _ _ v]) auto
  next
    fix k
    assume "k \<in> ?f ` ?V"
    then obtain v rv where "live (re_reservations eng) v = Some rv" "k = rv_order_id rv" by auto
    then show "k \<in> dom (res_of N eng)" using res_of_iff [OF assms] by blast
  qed
  have sub: "?V \<subseteq> {..<N}" using store_okD(1) [OF assms] by (auto simp: live_Some)
  then show fin: "finite ?V" by (rule finite_subset) simp
  have "inj_on ?f ?V" by (intro inj_onI) (auto intro: live_unique [OF assms])
  then show "card (dom (res_of N eng)) = card ?V" by (simp add: d card_image)
  show "card ?V \<le> N" using card_mono [OF _ sub] by simp
qed

lemma index_used:
  assumes "store_ok N eng"
  shows "used (pi_view (re_reservation_index eng)) = card (dom (res_of N eng))"
proof -
  note inv = store_okD(3) [OF assms]
  have "entries (pi_view (re_reservation_index eng)) =
      (\<lambda>v. (rv_order_id (the (live (re_reservations eng) v)), v)) ` {v. live (re_reservations eng) v \<noteq> None}"
    (is "?E = ?g ` ?V")
  proof (intro equalityI subsetI)
    fix e
    assume "e \<in> ?E"
    then have "pi_lookup (probe_capacity N) (re_reservation_index eng) (fst e) = Some (snd e)"
      using pi_lookup_entry [OF inv] by simp
    then obtain rv where "live (re_reservations eng) (snd e) = Some rv" "rv_order_id rv = fst e"
      using assms by (auto simp: store_ok_def)
    then show "e \<in> ?g ` ?V" by (intro image_eqI [of _ _ "snd e"]) auto
  next
    fix e
    assume "e \<in> ?g ` ?V"
    then obtain v rv where v: "live (re_reservations eng) v = Some rv" "e = (rv_order_id rv, v)" by auto
    then have "pi_lookup (probe_capacity N) (re_reservation_index eng) (rv_order_id rv) = Some v"
      using assms by (auto simp: store_ok_def)
    then show "e \<in> ?E" using pi_lookup_entry [OF inv] v(2) by simp
  qed
  moreover have "inj_on (\<lambda>v. (rv_order_id (the (live (re_reservations eng) v)), v)) S" for S by (auto intro: inj_onI)
  ultimately show ?thesis
    using used_card(1) [OF pi_inv_table [OF inv]] card_live(3) [OF assms] by (simp add: card_image)
qed

lemma reservation_room:
  assumes "store_ok N eng" "0 < N"
  shows "used (pi_view (re_reservation_index eng)) < probe_capacity N"
  using index_used [OF assms(1)] card_live(3,4) [OF assms(1)] assms(2)
  by (simp add: probe_capacity_def INDEX_PLANES_def)

lemma free_head_NIL:
  assumes "store_ok N eng"
  shows "re_free_head eng = NIL \<longleftrightarrow> card (dom (res_of N eng)) = N"
proof -
  obtain fs where fs: "free_chain (re_reservations eng) (re_free_head eng) fs" "distinct fs"
      "\<forall>i < N. i \<in> set fs \<longleftrightarrow> live (re_reservations eng) i = None"
    using assms by (auto simp: store_ok_def free_list_ok_def)
  note D = store_okD [OF assms]
  have sub: "{v. live (re_reservations eng) v \<noteq> None} \<subseteq> {..<N}" using D(1) by (auto simp: live_Some)
  have "x < N" if "x \<in> set fs" for x
    using free_chain_less [OF fs(1) that] D(1) by simp
  moreover have "re_free_head eng = NIL \<longleftrightarrow> fs = []" using free_chain_NIL [OF fs(1)] D by simp
  moreover have "fs = [] \<longleftrightarrow> {v. live (re_reservations eng) v \<noteq> None} = {..<N}"
  proof
    assume "fs = []"
    then show "{v. live (re_reservations eng) v \<noteq> None} = {..<N}" using fs(3) sub by auto
  next
    assume all: "{v. live (re_reservations eng) v \<noteq> None} = {..<N}"
    have "x \<notin> set fs" for x using free_chain_less [OF fs(1), of x] fs(3) D(1) all by blast
    then show "fs = []" by (cases fs) auto
  qed
  ultimately have "re_free_head eng = NIL \<longleftrightarrow> {v. live (re_reservations eng) v \<noteq> None} = {..<N}" by simp
  also have "\<dots> \<longleftrightarrow> card {v. live (re_reservations eng) v \<noteq> None} = N"
    using card_subset_eq [OF _ sub] by auto
  finally show ?thesis using card_live(3) [OF assms] by simp
qed

section \<open>Writing the reservations\<close>

text \<open>A live reservation gets a new quantity.\<close>

lemma set_reservation_ok:
  assumes ok: "store_ok N eng" and v: "live (re_reservations eng) v = Some rv"
    and rv': "rv_order_id rv' = rv_order_id rv" "rv_index_slot rv' = rv_index_slot rv"
  shows "store_ok N (set_reservation eng v rv')"
    "res_of N (set_reservation eng v rv') = (res_of N eng)(rv_order_id rv := Some (res_data rv'))"
proof -
  let ?s = "re_reservations eng"
  have vl: "v < length ?s" using v by (simp add: live_Some)
  have live': "live (?s[v := RLive rv']) j = (if j = v then Some rv' else live ?s j)" for j
    using vl by (simp add: live_update)
  obtain fs where fs: "free_chain ?s (re_free_head eng) fs" "distinct fs"
      "\<forall>i < N. i \<in> set fs \<longleftrightarrow> live ?s i = None"
    using ok by (auto simp: store_ok_def free_list_ok_def)
  have "v \<notin> set fs" using fs(3) v vl store_okD(1) [OF ok] by auto
  then have "free_chain (?s[v := RLive rv']) (re_free_head eng) fs"
    using fs(1) by (simp add: free_chain_update)
  then have "free_list_ok N (?s[v := RLive rv']) (re_free_head eng)"
    using fs ok v unfolding free_list_ok_def store_ok_def live' by auto
  moreover have "res_handle (?s[v := RLive rv']) k w q" if "res_handle ?s k w q" for k w q
    using that v rv' by (auto simp: res_handle_def live')
  ultimately show ok': "store_ok N (set_reservation eng v rv')"
    using ok v rv' unfolding store_ok_def set_reservation_def by (auto simp: live')
  show "res_of N (set_reservation eng v rv') = (res_of N eng)(rv_order_id rv := Some (res_data rv'))"
  proof (rule ext)
    fix k
    show "res_of N (set_reservation eng v rv') k = ((res_of N eng)(rv_order_id rv := Some (res_data rv'))) k"
    proof (cases "k = rv_order_id rv")
      case True
      then have "res_of N (set_reservation eng v rv') k = Some (res_data rv')"
        using res_of_iff [OF ok'] rv'(1) by (auto simp: set_reservation_def live')
      with True show ?thesis by simp
    next
      case False
      have "(\<exists>x. live (re_reservations (set_reservation eng v rv')) j = Some x \<and> rv_order_id x = k \<and> res_data x = d) \<longleftrightarrow>
          (\<exists>x. live ?s j = Some x \<and> rv_order_id x = k \<and> res_data x = d)" for j d
        using False v rv'(1) by (cases "j = v") (auto simp: set_reservation_def live')
      then have "res_of N (set_reservation eng v rv') k = Some d \<longleftrightarrow> res_of N eng k = Some d" for d
        unfolding res_of_iff [OF ok'] res_of_iff [OF ok] by simp
      with False show ?thesis by (metis fun_upd_apply option.exhaust)
    qed
  qed
qed

text \<open>A live reservation is released.\<close>

lemma release_reservation_ok:
  assumes ok: "store_ok N eng" and v: "live (re_reservations eng) v = Some rv"
    and rv': "rv_order_id rv' = rv_order_id rv" "rv_index_slot rv' = rv_index_slot rv"
  shows "\<exists>eng'. release_reservation N eng v rv' = Some eng' \<and> store_ok N eng' \<and>
    res_of N eng' = (res_of N eng)(rv_order_id rv := None) \<and> re_accounts eng' = re_accounts eng \<and>
    re_account_index eng' = re_account_index eng \<and> re_maximum_order_id eng' = re_maximum_order_id eng \<and>
    re_killed eng' = re_killed eng"
proof -
  let ?s = "re_reservations eng" and ?i = "re_reservation_index eng" and ?cap = "probe_capacity N"
  let ?k = "rv_order_id rv" and ?h = "rv_index_slot rv"
  note D = store_okD [OF ok]
  have vl: "v < N" using v D(1) by (simp add: live_Some)
  have look: "pi_lookup ?cap ?i ?k = Some v" using ok v by (auto simp: store_ok_def)
  then have "(?k, v) \<in> entries (pi_view ?i)" using pi_lookup_entry [OF D(3)] by simp
  then obtain q where q: "q < ?cap" "pi_view ?i ! q = Some (?k, v)"
    using D(4) by (auto simp: entries_def in_set_conv_nth)
  then have "res_handle ?s ?k v q" using ok by (auto simp: store_ok_def)
  then have "?h = of_nat q" using v by (auto simp: res_handle_def)
  then have hq: "unat ?h = q" using q(1) D(5) by (simp add: unat_of_nat)
  have room: "used (pi_view ?i) < length (pi_view ?i)" using reservation_room [OF ok] vl D(4) by simp
  have handles: "\<forall>q < length (pi_view ?i). \<forall>k w. q \<noteq> unat ?h \<longrightarrow> pi_view ?i ! q = Some (k, w) \<longrightarrow> res_handle ?s k w q"
    using ok D(4) by (simp add: store_ok_def)
  obtain i' moves where d: "pi_remove_at ?cap ?i ?h ?k = Some (i', moves, Some v)" "pi_inv ?cap i'"
      "pi_lookup ?cap i' = (pi_lookup ?cap ?i)(?k := None)" "length (pi_view i') = length (pi_view ?i)"
      "\<forall>q < length (pi_view ?i). \<forall>k w. pi_view i' ! q = Some (k, w) \<longrightarrow>
         res_handle (fold (\<lambda>(k, v, s). update_moved k v s) moves ?s) k w q"
    using rs.del_handles [OF D(3) _ _ room handles, of ?k v] q D(4) hq by auto
  define s where "s = fold (\<lambda>(k, v, s). update_moved k v s) moves ?s"
  have same: "same_reservations ?s s" unfolding s_def by (rule same_reservations_fold) (rule same_reservations_refl)
  then have len: "length s = N" using D(1) by (simp add: same_reservations_def)
  define eng' where "eng' = eng\<lparr>re_reservation_index := i', re_reservations := s[v := RFree (re_free_head eng)], re_free_head := v\<rparr>"
  have rel: "release_reservation N eng v rv' = Some eng'"
    using d(1) vl len unfolding release_reservation_def rv' by (simp add: eng'_def s_def [symmetric])
  have live': "live (re_reservations eng') j = (if j = v then None else live s j)" for j
    using vl len by (simp add: eng'_def live_update)
  have lives: "(\<exists>x. live (re_reservations eng') j = Some x \<and> rv_order_id x = k \<and> res_data x = dd) \<longleftrightarrow>
      j \<noteq> v \<and> (\<exists>x. live ?s j = Some x \<and> rv_order_id x = k \<and> res_data x = dd)" for j k dd
    using same_reservations_live [OF same, of j] by (cases "live ?s j") (auto simp: live' res_data_def)
  have ids: "(\<exists>x. live (re_reservations eng') j = Some x \<and> rv_order_id x = k) \<longleftrightarrow>
      j \<noteq> v \<and> (\<exists>x. live ?s j = Some x \<and> rv_order_id x = k)" for j k
    using same_reservations_live [OF same, of j] by (cases "live ?s j") (auto simp: live')
  obtain fs where fs: "free_chain ?s (re_free_head eng) fs" "distinct fs"
      "\<forall>i < N. i \<in> set fs \<longleftrightarrow> live ?s i = None"
    using ok by (auto simp: store_ok_def free_list_ok_def)
  have nv: "v \<notin> set fs" using fs(3) v vl by auto
  have inN: "x < N" if "x \<in> set fs" for x
    using free_chain_less [OF fs(1) that] D(1) by simp
  have "\<forall>x \<in> set fs. s[v := RFree (re_free_head eng)] ! x = ?s ! x"
  proof
    fix x
    assume x: "x \<in> set fs"
    then obtain n where "?s ! x = RFree n" using fs(3) inN D(1) by (auto simp: live_None)
    then have "s ! x = ?s ! x" using same inN [OF x] D(1) unfolding same_reservations_def by auto
    moreover have "v \<noteq> x" using x nv by blast
    ultimately show "s[v := RFree (re_free_head eng)] ! x = ?s ! x" by simp
  qed
  then have "free_chain (s[v := RFree (re_free_head eng)]) (re_free_head eng) fs"
    using fs(1) free_chain_cong [of "s[v := RFree (re_free_head eng)]" ?s fs] len D(1) by simp
  then have "free_chain (re_reservations eng') v (v # fs)" using vl len by (simp add: eng'_def)
  moreover have "\<forall>i < N. i \<in> set (v # fs) \<longleftrightarrow> live (re_reservations eng') i = None"
    using fs(3) same_reservations_live [OF same] by (auto simp: live') (metis option.exhaust option.distinct(1))
  moreover have "distinct (v # fs)" "re_free_head eng' = v" "length (re_reservations eng') = N"
    using fs(2) nv len by (simp_all add: eng'_def)
  ultimately have "free_list_ok N (re_reservations eng') (re_free_head eng')"
    using D(2) unfolding free_list_ok_def by metis
  moreover have "res_handle (re_reservations eng') k w q" if "q < ?cap" "pi_view i' ! q = Some (k, w)" for k w q
  proof -
    have "res_handle s k w q" using d(5) that D(4) by (simp add: s_def)
    moreover have "w \<noteq> v"
    proof -
      have "(k, w) \<in> entries (pi_view i')" using that d(4) D(4) by (force simp: entries_def in_set_conv_nth)
      then have "pi_lookup ?cap i' k = Some w" using pi_lookup_entry [OF d(2)] by simp
      then have "pi_lookup ?cap ?i k = Some w" "k \<noteq> ?k" using d(3) by (auto split: if_splits)
      then show "w \<noteq> v" using ok v unfolding store_ok_def by auto
    qed
    ultimately show ?thesis by (simp add: res_handle_def live')
  qed
  moreover have "pi_lookup ?cap i' k = Some w \<longleftrightarrow> (\<exists>x. live (re_reservations eng') w = Some x \<and> rv_order_id x = k)" for k w
  proof -
    have at: "pi_lookup ?cap ?i k = Some w \<longleftrightarrow> (\<exists>x. live ?s w = Some x \<and> rv_order_id x = k)"
      using ok by (simp add: store_ok_def)
    moreover have "w = v \<longleftrightarrow> k = ?k" if l: "pi_lookup ?cap ?i k = Some w"
    proof
      assume "w = v"
      moreover obtain x where "live ?s w = Some x" "rv_order_id x = k" using l at by blast
      ultimately show "k = ?k" using v by simp
    next
      assume "k = ?k"
      then show "w = v" using l look by simp
    qed
    ultimately show ?thesis unfolding d(3) ids by auto
  qed
  ultimately have ok': "store_ok N eng'" using d(2) unfolding store_ok_def by (simp add: eng'_def)
  have "res_of N eng' = (res_of N eng)(?k := None)"
  proof (rule ext)
    fix k
    have "res_of N eng' k = Some dd \<longleftrightarrow> ((res_of N eng)(?k := None)) k = Some dd" for dd
    proof (cases "k = ?k")
      case True
      then show ?thesis unfolding res_of_iff [OF ok'] lives using live_unique [OF ok v] by auto
    next
      case False
      have "(j \<noteq> v \<and> (\<exists>x. live ?s j = Some x \<and> rv_order_id x = k \<and> res_data x = dd)) \<longleftrightarrow>
          (\<exists>x. live ?s j = Some x \<and> rv_order_id x = k \<and> res_data x = dd)" for j
        using v False by auto
      then show ?thesis using False unfolding res_of_iff [OF ok'] lives by (simp add: res_of_iff [OF ok])
    qed
    then show "res_of N eng' k = ((res_of N eng)(?k := None)) k" by (metis option.exhaust)
  qed
  then show ?thesis using rel ok' by (auto simp: eng'_def)
qed

text \<open>A new reservation takes the head of the free list.\<close>

definition push_reservation :: "risk_engine \<Rightarrow> probe_index \<Rightarrow> nat \<Rightarrow> reservation \<Rightarrow> risk_engine" where
  "push_reservation eng index following rv =
     (set_reservation (eng\<lparr>re_reservation_index := index\<rparr>) (re_free_head eng) rv)\<lparr>re_free_head := following\<rparr>"

lemma push_reservation_ok:
  assumes ok: "store_ok N eng" and head: "re_free_head eng \<noteq> NIL" and new: "res_of N eng k = None"
  shows "\<exists>n index s. get (re_reservations eng) (re_free_head eng) = Some (RFree n) \<and>
    pi_insert (probe_capacity N) (re_reservation_index eng) k (re_free_head eng) = Inr (index, s) \<and>
    (\<forall>rv. rv_order_id rv = k \<longrightarrow> rv_index_slot rv = s \<longrightarrow>
      store_ok N (push_reservation eng index n rv) \<and>
      res_of N (push_reservation eng index n rv) = (res_of N eng)(k := Some (res_data rv)))"
proof -
  let ?s = "re_reservations eng" and ?i = "re_reservation_index eng" and ?cap = "probe_capacity N" and ?h = "re_free_head eng"
  note D = store_okD [OF ok]
  obtain fs where fs: "free_chain ?s ?h fs" "distinct fs" "\<forall>i < N. i \<in> set fs \<longleftrightarrow> live ?s i = None"
    using ok by (auto simp: store_ok_def free_list_ok_def)
  obtain rest where rest: "fs = ?h # rest" using fs(1) head by (cases fs) auto
  obtain n where n: "?h < N" "?s ! ?h = RFree n" "free_chain ?s n rest" "?h \<notin> set rest" "distinct rest"
    using fs rest D(1) by auto
  have free: "live ?s ?h = None" using n(2) by (auto simp: live_None)
  have none: "pi_lookup ?cap ?i k = None"
  proof (cases "pi_lookup ?cap ?i k")
    case (Some v)
    then obtain x where "live ?s v = Some x" "rv_order_id x = k" using ok by (auto simp: store_ok_def)
    then have "res_of N eng k = Some (res_data x)" using res_of_iff [OF ok] by blast
    with new show ?thesis by simp
  qed
  have room: "used (pi_view ?i) < length (pi_view ?i)" using reservation_room [OF ok] n(1) D(4) by simp
  have hN: "?h < NIL" using n(1) D(2) by simp
  obtain index s where ins: "pi_insert ?cap ?i k ?h = Inr (index, s)" "pi_inv ?cap index"
      "pi_lookup ?cap index = (pi_lookup ?cap ?i)(k := Some ?h)" "unat s < length (pi_view ?i)"
      "pi_view index = (pi_view ?i)[unat s := Some (k, ?h)]"
    using pi.find_ins [OF D(3) hN room none] by blast
  have push: "store_ok N (push_reservation eng index n rv) \<and>
      res_of N (push_reservation eng index n rv) = (res_of N eng)(k := Some (res_data rv))"
    if rv: "rv_order_id rv = k" "rv_index_slot rv = s" for rv
  proof -
    let ?e = "push_reservation eng index n rv"
    have live': "live (re_reservations ?e) j = (if j = ?h then Some rv else live ?s j)" for j
      using n(1) D(1) by (simp add: push_reservation_def set_reservation_def live_update)
    have "free_chain (re_reservations ?e) n rest"
      using n(3,4) by (simp add: push_reservation_def set_reservation_def free_chain_update)
    moreover have "\<forall>i < N. i \<in> set rest \<longleftrightarrow> live (re_reservations ?e) i = None"
      using fs(3) rest n(4) by (auto simp: live')
    ultimately have fl: "free_list_ok N (re_reservations ?e) (re_free_head ?e)"
      using D(1,2) n(5) unfolding free_list_ok_def
      by (auto simp: push_reservation_def set_reservation_def)
    have hand: "res_handle (re_reservations ?e) k' w q"
      if q: "q < ?cap" "pi_view index ! q = Some (k', w)" for k' w q
    proof (cases "q = unat s")
      case True
      then show ?thesis using q ins(4,5) rv by (simp add: res_handle_def live')
    next
      case False
      then have "pi_view ?i ! q = Some (k', w)" using q(2) ins(5) by simp
      then have "res_handle ?s k' w q" using ok q(1) by (auto simp: store_ok_def)
      then show ?thesis using free by (auto simp: res_handle_def live')
    qed
    have look: "pi_lookup ?cap index k' = Some w \<longleftrightarrow> (\<exists>x. live (re_reservations ?e) w = Some x \<and> rv_order_id x = k')" for k' w
    proof -
      have old: "pi_lookup ?cap ?i k' = Some w \<longleftrightarrow> (\<exists>x. live ?s w = Some x \<and> rv_order_id x = k')"
        using ok by (simp add: store_ok_def)
      have "\<not> (\<exists>x. live ?s w = Some x \<and> rv_order_id x = k)"
        using none ok unfolding store_ok_def by (metis option.distinct(1))
      with old free rv(1) show ?thesis
        by (cases "w = ?h"; cases "k' = k") (auto simp: ins(3) live')
    qed
    have ok': "store_ok N ?e"
      using fl hand look ins(2) unfolding store_ok_def by (simp add: push_reservation_def set_reservation_def)
    have "res_of N ?e k' = Some d \<longleftrightarrow> ((res_of N eng)(k := Some (res_data rv))) k' = Some d" for k' d
    proof (cases "k' = k")
      case True
      have "res_of N ?e k = Some (res_data rv)" unfolding res_of_iff [OF ok']
        by (rule exI [of _ ?h], rule exI [of _ rv]) (simp add: live' rv(1))
      with True show ?thesis by simp
    next
      case False
      have "(\<exists>x. live (re_reservations ?e) j = Some x \<and> rv_order_id x = k' \<and> res_data x = d) \<longleftrightarrow>
          (\<exists>x. live ?s j = Some x \<and> rv_order_id x = k' \<and> res_data x = d)" for j
        using False free rv(1) by (cases "j = ?h") (auto simp: live')
      with False show ?thesis unfolding res_of_iff [OF ok'] by (simp add: res_of_iff [OF ok])
    qed
    then have "res_of N ?e = (res_of N eng)(k := Some (res_data rv))" by (intro ext) (metis option.exhaust)
    with ok' show ?thesis by blast
  qed
  have "get ?s ?h = Some (RFree n)" using n(1,2) D(1) by simp
  with ins(1) push show ?thesis by blast
qed

section \<open>Accounts\<close>

definition acct_at :: "risk_engine \<Rightarrow> nat \<Rightarrow> account_state option" where
  "acct_at eng slot = Option.bind (get (re_accounts eng) slot) id"

definition accounts_ok :: "nat \<Rightarrow> risk_engine \<Rightarrow> bool" where
  "accounts_ok A eng \<longleftrightarrow>
     length (re_accounts eng) = A \<and> A < NIL \<and> pi_inv (probe_capacity A) (re_account_index eng) \<and>
     (\<forall>k v. pi_lookup (probe_capacity A) (re_account_index eng) k = Some v \<longleftrightarrow>
        (\<exists>a. acct_at eng v = Some a \<and> ucast (ac_id a) = k))"

definition acct_of :: "nat \<Rightarrow> risk_engine \<Rightarrow> account_id \<Rightarrow> account_state option" where
  "acct_of A eng account = Option.bind (account_slot A eng account) (acct_at eng)"

lemma len_u32_u64: "LENGTH(32) \<le> LENGTH(64)"
  by simp

lemma ucast_u32_inj: "(ucast a :: u64) = ucast b \<longleftrightarrow> a = b" for a b :: u32
  by (metis ucast_up_ucast_id is_up len_u32_u64)

lemma account_slot_iff:
  assumes "accounts_ok A eng"
  shows "account_slot A eng i = Some v \<longleftrightarrow> (\<exists>a. acct_at eng v = Some a \<and> ac_id a = i)"
  using assms by (simp add: accounts_ok_def account_slot_def ucast_u32_inj)

lemma acct_of_iff:
  assumes "accounts_ok A eng"
  shows "acct_of A eng i = Some a \<longleftrightarrow> (\<exists>v. acct_at eng v = Some a \<and> ac_id a = i)"
  unfolding acct_of_def bind_eq_Some_conv account_slot_iff [OF assms] by auto

lemma located_account_ok:
  assumes "accounts_ok A eng"
  shows "case acct_of A eng i of
      None \<Rightarrow> located_account A eng i = Some (Inl UnknownAccount)
    | Some a \<Rightarrow> \<exists>v. located_account A eng i = Some (Inr (v, a)) \<and> acct_at eng v = Some a \<and> ac_id a = i"
proof (cases "account_slot A eng i")
  case None
  then show ?thesis by (simp add: acct_of_def located_account_def)
next
  case (Some v)
  then obtain a where a: "acct_at eng v = Some a" "ac_id a = i" using account_slot_iff [OF assms] by blast
  then have "get (re_accounts eng) v = Some (Some a)" by (auto simp: acct_at_def bind_eq_Some_conv)
  with Some a show ?thesis by (simp add: acct_of_def located_account_def del: get_Some)
qed

lemma acct_at_set: "acct_at (set_account eng v a) w = (if w = v \<and> v < length (re_accounts eng) then Some a else acct_at eng w)"
  by (auto simp: acct_at_def set_account_def get_def nth_list_update)

lemma acct_at_unique:
  assumes "accounts_ok A eng" "acct_at eng v = Some a" "acct_at eng w = Some b" "ac_id b = ac_id a"
  shows "w = v"
  using assms account_slot_iff [OF assms(1), of "ac_id a"] by (metis option.inject)

lemma set_account_ok:
  assumes ok: "accounts_ok A eng" and v: "acct_at eng v = Some a" and a': "ac_id a' = ac_id a"
  shows "accounts_ok A (set_account eng v a')"
    "acct_of A (set_account eng v a') = (acct_of A eng)(ac_id a := Some a')"
proof -
  have vl: "v < length (re_accounts eng)" using v by (auto simp: acct_at_def bind_eq_Some_conv)
  have at: "acct_at (set_account eng v a') w = (if w = v then Some a' else acct_at eng w)" for w
    using vl by (simp add: acct_at_set)
  show ok': "accounts_ok A (set_account eng v a')"
    using ok v a' unfolding accounts_ok_def at by (auto simp: set_account_def)
  have "acct_of A (set_account eng v a') i = Some b \<longleftrightarrow> ((acct_of A eng)(ac_id a := Some a')) i = Some b" for i b
  proof (cases "i = ac_id a")
    case True
    have "acct_of A (set_account eng v a') (ac_id a) = Some a'"
      unfolding acct_of_iff [OF ok'] by (rule exI [of _ v]) (simp add: at a')
    with True show ?thesis by simp
  next
    case False
    have "acct_at (set_account eng v a') w = Some b \<and> ac_id b = i \<longleftrightarrow> acct_at eng w = Some b \<and> ac_id b = i" for w
      using False v a' by (cases "w = v") (auto simp: at)
    with False show ?thesis unfolding acct_of_iff [OF ok'] by (simp add: acct_of_iff [OF ok])
  qed
  then show "acct_of A (set_account eng v a') = (acct_of A eng)(ac_id a := Some a')"
    by (intro ext) (metis option.exhaust)
qed

text \<open>Account writes leave the reservations alone and the other way round.\<close>

lemma store_cong:
  assumes "re_reservations eng' = re_reservations eng" "re_reservation_index eng' = re_reservation_index eng"
    "re_free_head eng' = re_free_head eng"
  shows "store_ok N eng' = store_ok N eng" "res_of N eng' = res_of N eng" "live_reservation N eng' = live_reservation N eng"
  using assms by (auto simp: store_ok_def res_of_def live_reservation_def)

lemma accounts_cong:
  assumes "re_accounts eng' = re_accounts eng" "re_account_index eng' = re_account_index eng"
  shows "accounts_ok A eng' = accounts_ok A eng" "acct_of A eng' = acct_of A eng"
    "located_account A eng' = located_account A eng" "acct_at eng' = acct_at eng"
proof -
  show at: "acct_at eng' = acct_at eng" unfolding acct_at_def assms ..
  show "accounts_ok A eng' = accounts_ok A eng" "acct_of A eng' = acct_of A eng"
    unfolding accounts_ok_def acct_of_def account_slot_def at assms by simp_all
  show "located_account A eng' = located_account A eng"
    unfolding located_account_def account_slot_def assms by simp
qed

lemma set_account_fields [simp]:
  "re_reservations (set_account eng v a) = re_reservations eng"
  "re_reservation_index (set_account eng v a) = re_reservation_index eng"
  "re_free_head (set_account eng v a) = re_free_head eng"
  "re_account_index (set_account eng v a) = re_account_index eng"
  "re_maximum_order_id (set_account eng v a) = re_maximum_order_id eng"
  "re_killed (set_account eng v a) = re_killed eng"
  by (simp_all add: set_account_def)

lemma set_reservation_fields [simp]:
  "re_accounts (set_reservation eng v rv) = re_accounts eng"
  "re_account_index (set_reservation eng v rv) = re_account_index eng"
  "re_reservation_index (set_reservation eng v rv) = re_reservation_index eng"
  "re_free_head (set_reservation eng v rv) = re_free_head eng"
  "re_maximum_order_id (set_reservation eng v rv) = re_maximum_order_id eng"
  "re_killed (set_reservation eng v rv) = re_killed eng"
  by (simp_all add: set_reservation_def)

lemma set_account_store [simp]:
  "store_ok N (set_account eng v a) = store_ok N eng" "res_of N (set_account eng v a) = res_of N eng"
  "live_reservation N (set_account eng v a) = live_reservation N eng"
  by (rule store_cong; simp)+

lemma set_reservation_accounts [simp]:
  "accounts_ok A (set_reservation eng v rv) = accounts_ok A eng"
  "acct_of A (set_reservation eng v rv) = acct_of A eng"
  by (rule accounts_cong; simp)+

end
