(* ===== verification/Risk_Inv.thy ===== *)
theory Risk_Inv
  imports Risk_Store
begin

text \<open>
  The invariant of the risk engine of \<^verbatim>\<open>crates/hft-risk/src/lib.rs\<close>: the reserved totals and the open
  order count of every account are exactly the sums over its live reservations, the worst-case long
  and short positions stay within the position limit, and no reserved id exceeds the watermark. Every
  operation keeps it, never panics, and acts on the reservations as on a finite map.
\<close>

section \<open>Sums over the reservations\<close>

definition weigh :: "(exposure_entry \<Rightarrow> int) \<Rightarrow> exposure_entry option \<Rightarrow> int" where
  "weigh f e = (case e of None \<Rightarrow> 0 | Some x \<Rightarrow> f x)"

definition total :: "(exposure_entry \<Rightarrow> int) \<Rightarrow> (order_id \<Rightarrow> exposure_entry option) \<Rightarrow> int" where
  "total f res = (\<Sum>k \<in> dom res. weigh f (res k))"

definition on_side :: "account_id \<Rightarrow> side \<Rightarrow> exposure_entry \<Rightarrow> int" where
  "on_side i s = (\<lambda>(j, t, q). if j = i \<and> t = s then uint q else 0)"

definition counted :: "account_id \<Rightarrow> exposure_entry \<Rightarrow> int" where
  "counted i = (\<lambda>(j, t, q). if j = i then 1 else 0)"

lemma weigh_simps [simp]: "weigh f None = 0" "weigh f (Some x) = f x"
  by (simp_all add: weigh_def)

lemma on_side_simp [simp]: "on_side i s (j, t, q) = (if j = i \<and> t = s then uint q else 0)"
  by (simp add: on_side_def)

lemma counted_simp [simp]: "counted i (j, t, q) = (if j = i then 1 else 0)"
  by (simp add: counted_def)

lemma total_upd:
  assumes "finite (dom res)"
  shows "total f (res(k := v)) = total f res - weigh f (res k) + weigh f v"
proof -
  have split: "total f r = (\<Sum>x \<in> dom r - {k}. weigh f (r x)) + weigh f (r k)" if "finite (dom r)" for r
  proof (cases "k \<in> dom r")
    case True
    then show ?thesis using that sum.remove [of "dom r" k "\<lambda>x. weigh f (r x)"] by (simp add: total_def)
  next
    case False
    then have "r k = None" by auto
    with False show ?thesis by (simp add: total_def)
  qed
  have "dom (res(k := v)) - {k} = dom res - {k}" by auto
  moreover have "(\<Sum>x \<in> dom res - {k}. weigh f ((res(k := v)) x)) = (\<Sum>x \<in> dom res - {k}. weigh f (res x))"
    by (intro sum.cong) auto
  ultimately show ?thesis
    using split [of res] split [of "res(k := v)"] assms by simp
qed

lemma total_member:
  assumes "finite (dom res)" "res k = Some e" "\<And>x. 0 \<le> f x"
  shows "f e \<le> total f res"
proof -
  have "0 \<le> total f (res(k := None))" unfolding total_def by (intro sum_nonneg) (simp add: weigh_def assms(3) split: option.split)
  then show ?thesis using total_upd [OF assms(1), of f k None] assms(2) by simp
qed

lemma weights_nonneg [simp]: "0 \<le> on_side i s e" "0 \<le> counted i e"
  by (auto simp: on_side_def counted_def split: prod.split)

section \<open>The invariant\<close>

definition account_exact :: "(order_id \<Rightarrow> exposure_entry option) \<Rightarrow> account_state \<Rightarrow> bool" where
  "account_exact res a \<longleftrightarrow>
     uint (ac_reserved_buys a) = total (on_side (ac_id a) Buy) res \<and>
     uint (ac_reserved_sells a) = total (on_side (ac_id a) Sell) res \<and>
     uint (ac_open_orders a) = total (counted (ac_id a)) res"

definition within_limit :: "account_state \<Rightarrow> bool" where
  "within_limit a \<longleftrightarrow>
     sint (ac_settled_position a) + uint (ac_reserved_buys a) \<le> uint (rl_max_abs_position (ac_limits a)) \<and>
     - uint (rl_max_abs_position (ac_limits a)) \<le> sint (ac_settled_position a) - uint (ac_reserved_sells a)"

definition risk_inv :: "nat \<Rightarrow> nat \<Rightarrow> risk_engine \<Rightarrow> bool" where
  "risk_inv A N eng \<longleftrightarrow>
     accounts_ok A eng \<and> store_ok N eng \<and>
     (\<forall>k i s q. res_of N eng k = Some (i, s, q) \<longrightarrow> acct_of A eng i \<noteq> None) \<and>
     (\<forall>i a. acct_of A eng i = Some a \<longrightarrow> account_exact (res_of N eng) a \<and> within_limit a) \<and>
     (\<forall>k \<in> dom (res_of N eng). \<exists>m. re_maximum_order_id eng = Some m \<and> k \<le> m)"

lemma risk_invD:
  assumes "risk_inv A N eng"
  shows "accounts_ok A eng" "store_ok N eng" "finite (dom (res_of N eng))"
    "res_of N eng k = Some (i, s, q) \<Longrightarrow> \<exists>a. acct_of A eng i = Some a \<and> ac_id a = i"
    "acct_of A eng i = Some a \<Longrightarrow> account_exact (res_of N eng) a \<and> within_limit a \<and> ac_id a = i"
    "res_of N eng k = Some e \<Longrightarrow> \<exists>m. re_maximum_order_id eng = Some m \<and> k \<le> m"
proof -
  show ok: "accounts_ok A eng" "store_ok N eng" using assms by (simp_all add: risk_inv_def)
  show "finite (dom (res_of N eng))" using card_live(1,2) [OF ok(2)] by simp
  show "res_of N eng k = Some (i, s, q) \<Longrightarrow> \<exists>a. acct_of A eng i = Some a \<and> ac_id a = i"
    using assms acct_of_iff [OF ok(1)] unfolding risk_inv_def by (metis not_None_eq)
  show "acct_of A eng i = Some a \<Longrightarrow> account_exact (res_of N eng) a \<and> within_limit a \<and> ac_id a = i"
    using assms acct_of_iff [OF ok(1)] unfolding risk_inv_def by blast
  show "res_of N eng k = Some e \<Longrightarrow> \<exists>m. re_maximum_order_id eng = Some m \<and> k \<le> m"
    using assms unfolding risk_inv_def by blast
qed

text \<open>
  One account and one reservation of it change together: the totals move by what the reservation
  gained or lost. All operations are instances.
\<close>

lemma risk_inv_change:
  assumes inv: "risk_inv A N eng" and a: "acct_of A eng i = Some a"
    and own: "weigh (counted i) (res_of N eng k) = (if res_of N eng k = None then 0 else 1)"
      "weigh (counted i) v = (if v = None then 0 else 1)"
    and eng': "accounts_ok A eng'" "store_ok N eng'" "acct_of A eng' = (acct_of A eng)(i := Some a')"
      "res_of N eng' = (res_of N eng)(k := v)"
    and a': "ac_id a' = i" "within_limit a'"
      "uint (ac_reserved_buys a') = uint (ac_reserved_buys a) - weigh (on_side i Buy) (res_of N eng k) + weigh (on_side i Buy) v"
      "uint (ac_reserved_sells a') = uint (ac_reserved_sells a) - weigh (on_side i Sell) (res_of N eng k) + weigh (on_side i Sell) v"
      "uint (ac_open_orders a') = uint (ac_open_orders a) - weigh (counted i) (res_of N eng k) + weigh (counted i) v"
    and water: "re_maximum_order_id eng' = re_maximum_order_id eng \<and> (v = None \<or> res_of N eng k \<noteq> None) \<or>
      re_maximum_order_id eng' = Some k \<and> (\<forall>m. re_maximum_order_id eng = Some m \<longrightarrow> m \<le> k)"
  shows "risk_inv A N eng'"
proof -
  note D = risk_invD [OF inv]
  have only: "weigh (counted j) e = 0 \<and> weigh (on_side j s) e = 0" if "j \<noteq> i" "weigh (counted i) e = (if e = None then 0 else 1)" for j s e
    using that by (cases e) (auto split: if_splits)
  have "account_exact (res_of N eng') b \<and> within_limit b" if b: "acct_of A eng' j = Some b" for j b
  proof (cases "j = i")
    case True
    then have "b = a'" using b eng'(3) by simp
    with D(5) [OF a] a' show ?thesis by (simp add: account_exact_def eng'(4) total_upd [OF D(3)])
  next
    case False
    then have "acct_of A eng j = Some b" using b eng'(3) by simp
    with D(5) [OF this] only [OF False own(1)] only [OF False own(2)] show ?thesis
      by (simp add: account_exact_def eng'(4) total_upd [OF D(3)])
  qed
  moreover have "acct_of A eng' j \<noteq> None" if r: "res_of N eng' k' = Some (j, s, q)" for k' j s q
  proof (cases "k' = k")
    case True
    then have "v = Some (j, s, q)" using r eng'(4) by simp
    then have "j = i" using own(2) by (auto split: if_splits)
    then show ?thesis using eng'(3) by simp
  next
    case False
    then show ?thesis using r eng'(3,4) D(4) [of k' j s q] by auto
  qed
  moreover have "\<exists>m. re_maximum_order_id eng' = Some m \<and> k' \<le> m" if k': "k' \<in> dom (res_of N eng')" for k'
  proof (cases "k' = k")
    case True
    then show ?thesis using water k' eng'(4) D(6) [of k] by fastforce
  next
    case False
    then have "res_of N eng k' \<noteq> None" using k' eng'(4) by (auto split: if_splits)
    then obtain e where "res_of N eng k' = Some e" by blast
    from D(6) [OF this] obtain m where "re_maximum_order_id eng = Some m" "k' \<le> m" by blast
    then show ?thesis using water by auto
  qed
  ultimately show ?thesis unfolding risk_inv_def using eng'(1,2) by blast
qed

section \<open>Arithmetic\<close>

lemma u64_bound: "uint x < 2 ^ 64" for x :: u64
  using uint_lt2p [of x] by simp

lemma uint_ucast_u64: "uint (ucast x :: u128) = uint x" for x :: u64
proof -
  have "uint x < 2 ^ 128" using u64_bound [of x] by (rule less_trans) simp
  then show ?thesis by (simp add: unsigned_ucast_eq take_bit_int_eq_self)
qed

lemma sint_ucast_u64: "sint (ucast x :: u128) = uint x" for x :: u64
proof -
  have "uint (ucast x :: u128) < 2 ^ (LENGTH(128) - 1)" using u64_bound [of x] by (simp add: uint_ucast_u64)
  from sint_eq_uint_small [OF this] show ?thesis by (simp add: uint_ucast_u64)
qed

lemma signed_fits_small: "\<bar>x\<bar> \<le> 2 ^ 67 \<Longrightarrow> signed_fits 128 x"
  by (auto simp: signed_fits_def)

lemma position_bounds:
  "\<lbrakk>\<bar>p\<bar> < 2 ^ 64; 0 \<le> f; f < 2 ^ 66\<rbrakk> \<Longrightarrow> \<bar>p + f\<bar> \<le> 2 ^ 67 \<and> \<bar>p - f\<bar> \<le> 2 ^ 67" for p f :: int
  by (simp, arith)

lemma limit_bounds:
  "\<lbrakk>p + b \<le> m; - m \<le> p - c; 0 \<le> b; 0 \<le> c; m < 2 ^ 64\<rbrakk> \<Longrightarrow> \<bar>p\<bar> < 2 ^ 64 \<and> b < 2 ^ 65 \<and> c < 2 ^ 65" for p b c m :: int
  by simp

lemma sint_neg_ucast_u64: "sint (- (ucast x :: u128)) = - uint x" for x :: u64
proof -
  have "uint x < 2 ^ 66" using u64_bound [of x] by simp
  then have "\<bar>0 - uint x\<bar> \<le> 2 ^ 67" using position_bounds [of 0 "uint x"] by simp
  then have "signed_fits LENGTH(128) (sint (0 :: u128) - sint (ucast x :: u128))"
    by (simp add: sint_ucast_u64 signed_fits_small)
  then have "sint (0 - (ucast x :: u128)) = sint (0 :: u128) - sint (ucast x :: u128)" by (rule sint_sub_fits)
  then show ?thesis by (simp add: sint_ucast_u64)
qed

definition reserved :: "account_state \<Rightarrow> side \<Rightarrow> u128" where
  "reserved a s = (case s of Buy \<Rightarrow> ac_reserved_buys a | Sell \<Rightarrow> ac_reserved_sells a)"

definition signed_by :: "side \<Rightarrow> int \<Rightarrow> int" where
  "signed_by s x = (case s of Buy \<Rightarrow> x | Sell \<Rightarrow> - x)"

lemma account_bounds:
  assumes "within_limit a"
  shows "\<bar>sint (ac_settled_position a)\<bar> < 2 ^ 64" "uint (reserved a s) < 2 ^ 65"
proof -
  note w = assms [unfolded within_limit_def]
  have "\<bar>sint (ac_settled_position a)\<bar> < 2 ^ 64 \<and> uint (ac_reserved_buys a) < 2 ^ 65 \<and> uint (ac_reserved_sells a) < 2 ^ 65"
    using w by (intro limit_bounds [where m = "uint (rl_max_abs_position (ac_limits a))"] u64_bound) simp_all
  then show "\<bar>sint (ac_settled_position a)\<bar> < 2 ^ 64" "uint (reserved a s) < 2 ^ 65"
    by (cases s; simp add: reserved_def)+
qed

lemma reserve_less_ok:
  assumes "uint q \<le> uint (reserved a s)"
  shows "\<exists>b c. reserve_less a s q = Inr (b, c) \<and>
    uint b = uint (ac_reserved_buys a) - (if s = Buy then uint q else 0) \<and>
    uint c = uint (ac_reserved_sells a) - (if s = Sell then uint q else 0)"
proof -
  have le: "(ucast q :: u128) \<le> reserved a s" using assms by (simp add: word_le_def uint_ucast_u64)
  have "uint (reserved a s - ucast q) = uint (reserved a s) - uint q"
    using uint_diff_bounded [OF le] by (simp add: uint_ucast_u64)
  with le show ?thesis
    by (cases s) (simp_all add: reserve_less_def reserved_def checked_sub_def)
qed

lemma reserve_more_ok:
  assumes "uint (reserved a s) < 2 ^ 65"
  shows "\<exists>b c. reserve_more a s q = Inr (b, c) \<and>
    uint b = uint (ac_reserved_buys a) + (if s = Buy then uint q else 0) \<and>
    uint c = uint (ac_reserved_sells a) + (if s = Sell then uint q else 0)"
proof -
  have le: "uint (reserved a s) + uint (ucast q :: u128) < 2 ^ LENGTH(128)"
    using assms u64_bound [of q] by (simp add: uint_ucast_u64)
  have "uint (reserved a s + ucast q) = uint (reserved a s) + uint q"
    using uint_add_bounded [OF le] by (simp add: uint_ucast_u64)
  with le show ?thesis
    by (cases s) (simp_all add: reserve_more_def reserved_def checked_add_def)
qed

lemma exposure_after_fill_ok:
  assumes "within_limit a" "uint r \<le> uint (reserved a s)"
  shows "\<exists>p b c. exposure_after_fill a s f r = Inr (p, b, c) \<and>
    sint p = sint (ac_settled_position a) + signed_by s (uint f) \<and>
    uint b = uint (ac_reserved_buys a) - (if s = Buy then uint r else 0) \<and>
    uint c = uint (ac_reserved_sells a) - (if s = Sell then uint r else 0)"
proof -
  let ?p = "ac_settled_position a" and ?f = "ucast f :: u128"
  have "uint f < 2 ^ 66" using u64_bound [of f] by simp
  then have "\<bar>sint ?p + uint f\<bar> \<le> 2 ^ 67" "\<bar>sint ?p - uint f\<bar> \<le> 2 ^ 67"
    using position_bounds [OF account_bounds(1) [OF assms(1)] uint_ge_0] by blast+
  then have fits: "signed_fits LENGTH(128) (sint ?p + sint ?f)" "signed_fits LENGTH(128) (sint ?p - sint ?f)"
    by (simp_all add: sint_ucast_u64 signed_fits_small)
  note sums = sint_add_fits [OF fits(1)] sint_sub_fits [OF fits(2)]
  obtain b c where "reserve_less a s r = Inr (b, c)"
    "uint b = uint (ac_reserved_buys a) - (if s = Buy then uint r else 0)"
    "uint c = uint (ac_reserved_sells a) - (if s = Sell then uint r else 0)"
    using reserve_less_ok [OF assms(2)] by blast
  with fits sums show ?thesis
    by (cases s) (simp_all add: exposure_after_fill_def checked_sadd_def checked_ssub_def signed_by_def sint_ucast_u64)
qed

lemma check_position_iff:
  assumes w: "within_limit a" and b: "uint b < 2 ^ 66" "uint c < 2 ^ 66"
  shows "check_position a b c =
    (if sint (ac_settled_position a) + uint b \<le> uint (rl_max_abs_position (ac_limits a)) \<and>
        - uint (rl_max_abs_position (ac_limits a)) \<le> sint (ac_settled_position a) - uint c
     then Inr () else Inl PositionLimit)"
proof -
  let ?p = "ac_settled_position a"
  have small: "uint b < 2 ^ (LENGTH(128) - 1)" "uint c < 2 ^ (LENGTH(128) - 1)" using b by simp_all
  note eq = sint_eq_uint_small [OF small(1)] sint_eq_uint_small [OF small(2)]
  have "\<bar>sint ?p + uint b\<bar> \<le> 2 ^ 67" "\<bar>sint ?p - uint c\<bar> \<le> 2 ^ 67"
    using position_bounds [OF account_bounds(1) [OF w] uint_ge_0] b by blast+
  then have fits: "signed_fits LENGTH(128) (sint ?p + sint b)" "signed_fits LENGTH(128) (sint ?p - sint c)"
    unfolding eq by (simp_all add: signed_fits_small)
  note sums = sint_add_fits [OF fits(1)] sint_sub_fits [OF fits(2)]
  show ?thesis
    using fits sums small
    by (simp add: check_position_def Let_def try_signed_def checked_sadd_def checked_ssub_def eq
        sint_ucast_u64 sint_neg_ucast_u64 not_le not_less)
qed

end
