(* ===== verification/Risk_Ops.thy ===== *)
theory Risk_Ops
  imports Risk_Inv
begin

text \<open>
  What every operation of the risk engine does on a state that satisfies its invariant: it never
  panics, its result is stated on the finite map of reservations, and the invariant is kept. A
  rejection is a value without a state, so it cannot have changed anything.
\<close>

section \<open>What a reservation comes with\<close>

lemma reservation_facts:
  assumes inv: "risk_inv A N eng" and r: "res_of N eng k = Some (i, s, q)"
  shows "\<exists>v rv w a. live_reservation N eng k = Some (v, rv) \<and> live (re_reservations eng) v = Some rv \<and>
    rv_order_id rv = k \<and> rv_account_id rv = i \<and> rv_side rv = s \<and> rv_quantity rv = q \<and>
    located_account A eng i = Some (Inr (w, a)) \<and> acct_at eng w = Some a \<and> acct_of A eng i = Some a \<and>
    ac_id a = i \<and> within_limit a \<and> uint q \<le> uint (reserved a s) \<and> 1 \<le> uint (ac_open_orders a)"
proof -
  note D = risk_invD [OF inv]
  obtain v rv where v: "live (re_reservations eng) v = Some rv" "rv_order_id rv = k" "res_data rv = (i, s, q)"
    using r res_of_iff [OF D(2)] by blast
  then have l: "live_reservation N eng k = Some (v, rv)" using live_reservation_iff [OF D(2)] by blast
  obtain a where a: "acct_of A eng i = Some a" "ac_id a = i" using D(4) [OF r] by blast
  then obtain w where w: "located_account A eng i = Some (Inr (w, a))" "acct_at eng w = Some a"
    using located_account_ok [OF D(1), of i] by auto
  have ex: "account_exact (res_of N eng) a" "within_limit a" using D(5) [OF a(1)] by auto
  have "uint q \<le> uint (reserved a s)"
    using total_member [OF D(3) r, of "on_side i s"] ex(1) a(2)
    by (cases s) (simp_all add: account_exact_def reserved_def)
  moreover have "1 \<le> uint (ac_open_orders a)"
    using total_member [OF D(3) r, of "counted i"] ex(1) a(2) by (simp add: account_exact_def)
  ultimately show ?thesis using v l a w ex(2) by (auto simp: res_data_def)
qed

lemma open_orders_sub:
  fixes x :: u32
  assumes "1 \<le> uint x"
  shows "checked_sub x 1 = Some (x - 1)" "uint (x - 1) = uint x - 1"
proof -
  have le: "1 \<le> x" using assms by (simp add: word_le_def)
  show "checked_sub x 1 = Some (x - 1)" using le by (simp add: checked_sub_def)
  show "uint (x - 1) = uint x - 1" using uint_diff_bounded [OF le] by simp
qed

text \<open>Filling moves exposure from the reserved total to the position; releasing drops it.\<close>

lemma within_limit_fill:
  assumes "within_limit a" "ac_limits a' = ac_limits a"
    and "sint (ac_settled_position a') = sint (ac_settled_position a) + signed_by s (uint f)"
    and "uint (ac_reserved_buys a') = uint (ac_reserved_buys a) - (if s = Buy then uint r else 0)"
    and "uint (ac_reserved_sells a') = uint (ac_reserved_sells a) - (if s = Sell then uint r else 0)"
    and "uint f \<le> uint r"
  shows "within_limit a'"
proof (cases s)
  case Buy
  then have "sint (ac_settled_position a') = sint (ac_settled_position a) + uint f"
      "uint (ac_reserved_buys a') = uint (ac_reserved_buys a) - uint r" "uint (ac_reserved_sells a') = uint (ac_reserved_sells a)"
    using assms(3-5) by (simp_all add: signed_by_def)
  then show ?thesis
    using assms(1,6) uint_ge_0 [of f] unfolding within_limit_def assms(2) by linarith
next
  case Sell
  then have "sint (ac_settled_position a') = sint (ac_settled_position a) - uint f"
      "uint (ac_reserved_buys a') = uint (ac_reserved_buys a)" "uint (ac_reserved_sells a') = uint (ac_reserved_sells a) - uint r"
    using assms(3-5) by (simp_all add: signed_by_def)
  then show ?thesis
    using assms(1,6) uint_ge_0 [of f] unfolding within_limit_def assms(2) by linarith
qed

section \<open>Fills and settlement\<close>

definition fill_effect :: "nat \<Rightarrow> nat \<Rightarrow> risk_engine \<Rightarrow> risk_engine \<Rightarrow> account_id \<Rightarrow> int \<Rightarrow> bool" where
  "fill_effect A N eng eng' i moved \<longleftrightarrow>
     (\<exists>a a'. acct_of A eng i = Some a \<and> acct_of A eng' = (acct_of A eng)(i := Some a') \<and>
        sint (ac_settled_position a') = sint (ac_settled_position a) + moved \<and>
        ac_limits a' = ac_limits a \<and> ac_killed a' = ac_killed a) \<and>
     re_maximum_order_id eng' = re_maximum_order_id eng \<and> re_killed eng' = re_killed eng"

lemma settle_reservation_ok:
  assumes inv: "risk_inv A N eng" and r: "res_of N eng k = Some (i, s, q)" and f: "f \<le> q"
    and l: "live_reservation N eng k = Some (v, rv)"
  shows "\<exists>eng'. settle_reservation A N eng v rv f = Some (Inr eng') \<and> risk_inv A N eng' \<and>
    res_of N eng' = (res_of N eng)(k := None) \<and> fill_effect A N eng eng' i (signed_by s (uint f))"
proof -
  note D = risk_invD [OF inv]
  obtain v' rv' w a where F: "live_reservation N eng k = Some (v', rv')" "live (re_reservations eng) v' = Some rv'"
      "rv_order_id rv' = k" "rv_account_id rv' = i" "rv_side rv' = s" "rv_quantity rv' = q"
      "located_account A eng i = Some (Inr (w, a))" "acct_at eng w = Some a" "acct_of A eng i = Some a"
      "ac_id a = i" "within_limit a" "uint q \<le> uint (reserved a s)" "1 \<le> uint (ac_open_orders a)"
    using reservation_facts [OF inv r] by metis
  have vv: "v' = v" "rv' = rv" using F(1) l by simp_all
  obtain p b c where e: "exposure_after_fill a s f q = Inr (p, b, c)"
      "sint p = sint (ac_settled_position a) + signed_by s (uint f)"
      "uint b = uint (ac_reserved_buys a) - (if s = Buy then uint q else 0)"
      "uint c = uint (ac_reserved_sells a) - (if s = Sell then uint q else 0)"
    using exposure_after_fill_ok [OF F(11,12)] by blast
  note o = open_orders_sub [OF F(13)]
  define a' where "a' = a\<lparr>ac_settled_position := p, ac_reserved_buys := b, ac_reserved_sells := c, ac_open_orders := ac_open_orders a - 1\<rparr>"
  define e1 where "e1 = set_account eng w a'"
  have acc: "accounts_ok A e1" "acct_of A e1 = (acct_of A eng)(i := Some a')"
    using set_account_ok [OF D(1) F(8), of a'] F(10) by (simp_all add: a'_def e1_def)
  have st: "store_ok N e1" "live (re_reservations e1) v = Some rv" "res_of N e1 = res_of N eng"
    using D(2) F(2) vv by (simp_all add: e1_def)
  obtain e2 where e2: "release_reservation N e1 v rv = Some e2" "store_ok N e2"
      "res_of N e2 = (res_of N eng)(k := None)" "re_accounts e2 = re_accounts e1"
      "re_account_index e2 = re_account_index e1" "re_maximum_order_id e2 = re_maximum_order_id e1"
      "re_killed e2 = re_killed e1"
    using release_reservation_ok [OF st(1,2), of rv] F(3) vv st(3) by auto
  note cong = accounts_cong(1,2) [OF e2(4,5)]
  have call: "settle_reservation A N eng v rv f = Some (Inr e2)"
    using F(4-7) vv e(1) o(1) e2(1) by (simp add: settle_reservation_def a'_def e1_def)
  have wl: "within_limit a'"
    using within_limit_fill [OF F(11), of a' s f q] e(2-4) f by (simp add: a'_def word_le_def)
  have "risk_inv A N e2"
  proof (rule risk_inv_change [OF inv F(9), where k = k and v = None and a' = a'])
    show "accounts_ok A e2" "acct_of A e2 = (acct_of A eng)(i := Some a')" using acc cong by simp_all
    show "re_maximum_order_id e2 = re_maximum_order_id eng \<and> (None = None \<or> res_of N eng k \<noteq> None) \<or>
      re_maximum_order_id e2 = Some k \<and> (\<forall>m. re_maximum_order_id eng = Some m \<longrightarrow> m \<le> k)"
      using e2(6) by (simp add: e1_def)
  qed (use e2(2,3) r wl F(10) e(3,4) o(2) in \<open>auto simp: a'_def\<close>)
  moreover have "fill_effect A N eng e2 i (signed_by s (uint f))"
    unfolding fill_effect_def using F(9) acc(2) cong e(2) e2(6,7)
    by (intro conjI exI [of _ a] exI [of _ a']) (simp_all add: a'_def e1_def)
  ultimately show ?thesis using call e2(3) by blast
qed

lemma settle_ok:
  assumes inv: "risk_inv A N eng"
  shows "case res_of N eng k of
      None \<Rightarrow> settle A N eng k f = Some (Inl UnknownOrder)
    | Some (i, s, q) \<Rightarrow>
        if q < f then settle A N eng k f = Some (Inl InvalidQuantity)
        else \<exists>eng'. settle A N eng k f = Some (Inr eng') \<and> risk_inv A N eng' \<and>
          res_of N eng' = (res_of N eng)(k := None) \<and> fill_effect A N eng eng' i (signed_by s (uint f))"
proof (cases "res_of N eng k")
  case None
  then show ?thesis by (simp add: res_of_def settle_def)
next
  case (Some e)
  obtain i s q where e: "e = (i, s, q)" by (cases e)
  obtain v rv where l: "live_reservation N eng k = Some (v, rv)" "rv_quantity rv = q"
    using reservation_facts [OF inv Some [unfolded e]] by blast
  show ?thesis
    using Some e l settle_reservation_ok [OF inv Some [unfolded e] _ l(1), of f]
    by (cases "q < f") (auto simp: settle_def not_less)
qed

lemma cancel_reservation_ok:
  assumes inv: "risk_inv A N eng"
  shows "case res_of N eng k of
      None \<Rightarrow> cancel_reservation A N eng k acct = Some (Inl UnknownOrder) \<and> can_cancel N eng k acct = Inl UnknownOrder
    | Some (i, s, q) \<Rightarrow>
        if i \<noteq> acct then cancel_reservation A N eng k acct = Some (Inl NotOrderOwner) \<and> can_cancel N eng k acct = Inl NotOrderOwner
        else can_cancel N eng k acct = Inr () \<and>
          (\<exists>eng'. cancel_reservation A N eng k acct = Some (Inr (eng', q)) \<and> risk_inv A N eng' \<and>
            res_of N eng' = (res_of N eng)(k := None) \<and> fill_effect A N eng eng' i 0)"
proof (cases "res_of N eng k")
  case None
  then show ?thesis by (simp add: res_of_def cancel_reservation_def can_cancel_def)
next
  case (Some e)
  obtain i s q where e: "e = (i, s, q)" by (cases e)
  obtain v rv where l: "live_reservation N eng k = Some (v, rv)" "rv_quantity rv = q" "rv_account_id rv = i"
    using reservation_facts [OF inv Some [unfolded e]] by blast
  obtain eng' where "settle_reservation A N eng v rv 0 = Some (Inr eng')" "risk_inv A N eng'"
      "res_of N eng' = (res_of N eng)(k := None)" "fill_effect A N eng eng' i 0"
    using settle_reservation_ok [OF inv Some [unfolded e] _ l(1), of 0] by (cases s) (auto simp: signed_by_def)
  then show ?thesis
    using Some e l by (auto simp: cancel_reservation_def can_cancel_def)
qed

lemma record_fill_ok:
  assumes inv: "risk_inv A N eng" and r: "res_of N eng k = Some (i, s, q)" and f: "f \<noteq> 0" "f \<le> q"
  shows "\<exists>eng'. record_fill A N eng k f = Some (Inr eng') \<and> risk_inv A N eng' \<and>
    res_of N eng' = (res_of N eng)(k := if f = q then None else Some (i, s, q - f)) \<and>
    fill_effect A N eng eng' i (signed_by s (uint f))"
proof -
  note D = risk_invD [OF inv]
  obtain v rv w a where F: "live_reservation N eng k = Some (v, rv)" "live (re_reservations eng) v = Some rv"
      "rv_order_id rv = k" "rv_account_id rv = i" "rv_side rv = s" "rv_quantity rv = q"
      "located_account A eng i = Some (Inr (w, a))" "acct_at eng w = Some a" "acct_of A eng i = Some a"
      "ac_id a = i" "within_limit a" "uint q \<le> uint (reserved a s)" "1 \<le> uint (ac_open_orders a)"
    using reservation_facts [OF inv r] by metis
  have fq: "uint f \<le> uint q" using f(2) by (simp add: word_le_def)
  obtain p b c where e: "exposure_after_fill a s f f = Inr (p, b, c)"
      "sint p = sint (ac_settled_position a) + signed_by s (uint f)"
      "uint b = uint (ac_reserved_buys a) - (if s = Buy then uint f else 0)"
      "uint c = uint (ac_reserved_sells a) - (if s = Sell then uint f else 0)"
    using exposure_after_fill_ok [OF F(11) order_trans [OF fq F(12)]] by blast
  note o = open_orders_sub [OF F(13)]
  have sub: "checked_sub q f = Some (q - f)" using f(2) by (simp add: checked_sub_def)
  have rest: "q - f = 0 \<longleftrightarrow> f = q" "uint (q - f) = uint q - uint f"
    using uint_diff_bounded [OF f(2)] by auto
  define n where "n = (if f = q then ac_open_orders a - 1 else ac_open_orders a)"
  define a' where "a' = a\<lparr>ac_settled_position := p, ac_reserved_buys := b, ac_reserved_sells := c, ac_open_orders := n\<rparr>"
  define e1 where "e1 = set_account eng w a'"
  define rv' where "rv' = rv\<lparr>rv_quantity := q - f\<rparr>"
  have acc: "accounts_ok A e1" "acct_of A e1 = (acct_of A eng)(i := Some a')"
    using set_account_ok [OF D(1) F(8), of a'] F(10) by (simp_all add: a'_def e1_def)
  have st: "store_ok N e1" "live (re_reservations e1) v = Some rv" "res_of N e1 = res_of N eng"
    using D(2) F(2) by (simp_all add: e1_def)
  have same: "rv_order_id rv' = rv_order_id rv" "rv_index_slot rv' = rv_index_slot rv" by (simp_all add: rv'_def)
  have "\<exists>e2. record_fill A N eng k f = Some (Inr e2) \<and> store_ok N e2 \<and> re_accounts e2 = re_accounts e1 \<and>
      re_account_index e2 = re_account_index e1 \<and> re_maximum_order_id e2 = re_maximum_order_id e1 \<and>
      re_killed e2 = re_killed e1 \<and> res_of N e2 = (res_of N eng)(k := if f = q then None else Some (i, s, q - f))"
  proof (cases "f = q")
    case True
    obtain e2 where e2: "release_reservation N e1 v rv' = Some e2" "store_ok N e2"
        "res_of N e2 = (res_of N eng)(k := None)" "re_accounts e2 = re_accounts e1"
        "re_account_index e2 = re_account_index e1" "re_maximum_order_id e2 = re_maximum_order_id e1"
        "re_killed e2 = re_killed e1"
      using release_reservation_ok [OF st(1,2) same] F(3) st(3) by auto
    have "record_fill A N eng k f = Some (Inr e2)"
      using F(1,4-7) f True e(1) o(1) e2(1) sub
      by (simp add: record_fill_def Let_def a'_def e1_def n_def rv'_def)
    with e2 True show ?thesis by auto
  next
    case False
    let ?e2 = "set_reservation e1 v rv'"
    have "record_fill A N eng k f = Some (Inr ?e2)"
      using F(1,4-7) f False e(1) rest(1) sub
      by (simp add: record_fill_def Let_def a'_def e1_def n_def rv'_def)
    moreover note set_reservation_ok [OF st(1,2) same]
    ultimately show ?thesis using False F(3-5) st(3) by (auto simp: res_data_def rv'_def)
  qed
  then obtain e2 where e2: "record_fill A N eng k f = Some (Inr e2)" "store_ok N e2" "re_accounts e2 = re_accounts e1"
      "re_account_index e2 = re_account_index e1" "re_maximum_order_id e2 = re_maximum_order_id e1"
      "re_killed e2 = re_killed e1" "res_of N e2 = (res_of N eng)(k := if f = q then None else Some (i, s, q - f))"
    by blast
  note cong = accounts_cong(1,2) [OF e2(3,4)]
  have wl: "within_limit a'" using within_limit_fill [OF F(11), of a' s f f] e(2-4) by (simp add: a'_def)
  have "risk_inv A N e2"
  proof (rule risk_inv_change [OF inv F(9) _ _ _ _ _ e2(7), where a' = a'])
    show "accounts_ok A e2" "acct_of A e2 = (acct_of A eng)(i := Some a')" using acc cong by simp_all
    show "re_maximum_order_id e2 = re_maximum_order_id eng \<and>
        ((if f = q then None else Some (i, s, q - f)) = None \<or> res_of N eng k \<noteq> None) \<or>
      re_maximum_order_id e2 = Some k \<and> (\<forall>m. re_maximum_order_id eng = Some m \<longrightarrow> m \<le> k)"
      using e2(5) r by (simp add: e1_def)
  qed (use e2(2) r wl F(10) e(3,4) o(2) rest(2) in \<open>auto simp: a'_def n_def\<close>)
  moreover have "fill_effect A N eng e2 i (signed_by s (uint f))"
    unfolding fill_effect_def using F(9) acc(2) cong e(2) e2(5,6)
    by (intro conjI exI [of _ a] exI [of _ a']) (simp_all add: a'_def e1_def)
  ultimately show ?thesis using e2(1,7) by blast
qed

text \<open>An accepted fill, read backwards.\<close>

lemma record_fill_accepted:
  assumes inv: "risk_inv A N eng" and ok: "record_fill A N eng k f = Some (Inr eng')"
  shows "\<exists>i s q. res_of N eng k = Some (i, s, q) \<and> f \<noteq> 0 \<and> f \<le> q \<and> risk_inv A N eng' \<and>
    res_of N eng' = (res_of N eng)(k := if f = q then None else Some (i, s, q - f)) \<and>
    fill_effect A N eng eng' i (signed_by s (uint f))"
proof -
  have nz: "f \<noteq> 0" and "live_reservation N eng k \<noteq> None"
    using ok by (auto simp: record_fill_def split: if_splits option.splits)
  then obtain i s q where r: "res_of N eng k = Some (i, s, q)" by (auto simp: res_of_def res_data_def)
  obtain v rv where "live_reservation N eng k = Some (v, rv)" "rv_quantity rv = q" using reservation_facts [OF inv r] by blast
  then have "f \<le> q" using ok nz by (auto simp: record_fill_def checked_sub_def split: if_splits)
  from record_fill_ok [OF inv r nz this] ok r nz this show ?thesis by auto
qed

section \<open>Limits in exact arithmetic\<close>

definition notional_verdict :: "risk_limits \<Rightarrow> price_ticks \<Rightarrow> quantity \<Rightarrow> reject_reason option" where
  "notional_verdict limits price quantity =
     (if sint price = - (2 ^ 63) then Some ArithmeticOverflow
      else if \<bar>sint price\<bar> * uint quantity > uint (rl_max_notional limits) then Some NotionalLimit
      else None)"

definition position_verdict :: "account_state \<Rightarrow> side \<Rightarrow> int \<Rightarrow> reject_reason option" where
  "position_verdict a side added =
     (let maximum = uint (rl_max_abs_position (ac_limits a));
          worst_long = sint (ac_settled_position a) + uint (ac_reserved_buys a) + (if side = Buy then added else 0);
          worst_short = sint (ac_settled_position a) - uint (ac_reserved_sells a) - (if side = Sell then added else 0)
      in if worst_long > maximum \<or> worst_short < - maximum then Some PositionLimit else None)"

definition limit_verdict :: "account_state \<Rightarrow> new_order \<Rightarrow> reject_reason option" where
  "limit_verdict a order =
     (if ac_killed a then Some KillSwitch
      else if uint (no_quantity order) > uint (rl_max_quantity (ac_limits a)) then Some QuantityLimit
      else if sint (no_price order) < sint (rl_minimum_price (ac_limits a)) \<or>
              sint (no_price order) > sint (rl_maximum_price (ac_limits a)) then Some PriceCollar
      else case notional_verdict (ac_limits a) (no_price order) (no_quantity order) of
          Some e \<Rightarrow> Some e
        | None \<Rightarrow>
            (case position_verdict a (no_side order) (uint (no_quantity order)) of
               Some e \<Rightarrow> Some e
             | None \<Rightarrow> if uint (ac_open_orders a) + 1 > uint (rl_max_open_orders (ac_limits a))
                       then Some OpenOrderLimit else None))"

lemma abs_price_product:
  "\<lbrakk>\<bar>p\<bar> \<le> 2 ^ 63; 0 \<le> q; q < 2 ^ 64\<rbrakk> \<Longrightarrow> \<bar>p\<bar> * q < 2 ^ 128" for p q :: int
proof -
  assume "\<bar>p\<bar> \<le> 2 ^ 63" "0 \<le> q" "q < 2 ^ 64"
  then have "\<bar>p\<bar> * q \<le> 2 ^ 63 * 2 ^ 64" by (intro mult_mono) auto
  also have "\<dots> < (2 ^ 128 :: int)" by simp
  finally show ?thesis .
qed

lemma check_notional_exact:
  "check_notional limits price quantity =
    (case notional_verdict limits price quantity of Some e \<Rightarrow> Inl e | None \<Rightarrow> Inr ())"
proof -
  have lo: "- (2 ^ 63) \<le> sint price" and hi: "sint price < 2 ^ 63"
    using sint_ge [of price] sint_lt [of price] by simp_all
  show ?thesis
  proof (cases "sint price = - (2 ^ 63)")
    case True
    then have "\<not> signed_fits LENGTH(64) \<bar>sint price\<bar>" by (simp add: signed_fits_def)
    then show ?thesis using True by (simp add: check_notional_def notional_verdict_def checked_abs_def)
  next
    case False
    then have fits: "signed_fits LENGTH(64) \<bar>sint price\<bar>" using lo hi by (auto simp: signed_fits_def)
    define w where "w = (word_of_int \<bar>sint price\<bar> :: u64)"
    have sw: "sint w = \<bar>sint price\<bar>" unfolding w_def by (rule sint_word_of_int_fits [OF fits])
    have uw: "uint w = \<bar>sint price\<bar>"
      using fits unfolding w_def by (simp add: uint_word_of_int signed_fits_def)
    have prod: "uint (ucast w :: u128) * uint (ucast quantity :: u128) < 2 ^ LENGTH(128)"
      using abs_price_product [of "sint price" "uint quantity"] lo hi u64_bound [of quantity]
      by (simp add: uint_ucast_u64 uw abs_le_iff)
    have val: "uint (ucast w * ucast quantity :: u128) = \<bar>sint price\<bar> * uint quantity"
      using prod by (simp add: uint_word_ariths uint_ucast_u64 uw)
    show ?thesis
      using False fits sw prod val
      by (simp add: check_notional_def notional_verdict_def checked_abs_def w_def [symmetric] try_unsigned_def
          checked_mul_def word_less_def)
  qed
qed

lemma check_position_exact:
  assumes w: "within_limit a" and more: "reserve_more a side q = Inr (b, c)"
  shows "check_position a b c = (case position_verdict a side (uint q) of Some e \<Rightarrow> Inl e | None \<Rightarrow> Inr ())"
proof -
  note r = account_bounds(2) [OF w]
  have bc: "uint b = uint (ac_reserved_buys a) + (if side = Buy then uint q else 0)"
      "uint c = uint (ac_reserved_sells a) + (if side = Sell then uint q else 0)"
    using reserve_more_ok [OF r, of side q] more by auto
  have "uint (ac_reserved_buys a) < 2 ^ 65" "uint (ac_reserved_sells a) < 2 ^ 65"
    using r [of Buy] r [of Sell] by (simp_all add: reserved_def)
  then have "uint b < 2 ^ 66" "uint c < 2 ^ 66" using u64_bound [of q] unfolding bc by simp_all
  from check_position_iff [OF w this] show ?thesis
    unfolding bc by (auto simp: position_verdict_def Let_def)
qed

lemma evaluate_limits_exact:
  assumes w: "within_limit a" and n: "uint (ac_open_orders a) + 1 < 2 ^ 32"
  shows "case limit_verdict a order of
      Some e \<Rightarrow> evaluate_limits a order = Inl e
    | None \<Rightarrow> \<exists>b c. evaluate_limits a order = Inr (b, c, ac_open_orders a + 1) \<and>
        reserve_more a (no_side order) (no_quantity order) = Inr (b, c)"
proof -
  obtain b c where more: "reserve_more a (no_side order) (no_quantity order) = Inr (b, c)"
    using reserve_more_ok [OF account_bounds(2) [OF w]] by blast
  have inc: "checked_add (ac_open_orders a) 1 = Some (ac_open_orders a + 1)" "uint (ac_open_orders a + 1) = uint (ac_open_orders a) + 1"
    using n uint_add_bounded [of "ac_open_orders a" 1] by (simp_all add: checked_add_def)
  show ?thesis
    by (simp add: evaluate_limits_def limit_verdict_def word_less_def more inc
        check_notional_exact check_position_exact [OF w more] split: option.split)
qed

lemma open_orders_bound:
  assumes inv: "risk_inv A N eng" and a: "acct_of A eng i = Some a"
  shows "uint (ac_open_orders a) + 1 < 2 ^ 32"
proof -
  note D = risk_invD [OF inv]
  have "total (counted (ac_id a)) (res_of N eng) \<le> (\<Sum>k \<in> dom (res_of N eng). 1)"
    unfolding total_def by (intro sum_mono) (auto simp: weigh_def counted_def split: option.split)
  also have "\<dots> \<le> int N" using card_live(3,4) [OF D(2)] by simp
  finally have "uint (ac_open_orders a) \<le> int N" using D(5) [OF a] by (simp add: account_exact_def)
  moreover have "2 * N \<le> 2 ^ 32" using store_okD(5) [OF D(2)] by (simp add: probe_capacity_def INDEX_PLANES_def)
  ultimately show ?thesis by simp
qed

section \<open>Reservation\<close>

definition reserve_verdict :: "nat \<Rightarrow> nat \<Rightarrow> risk_engine \<Rightarrow> new_order \<Rightarrow> reject_reason option" where
  "reserve_verdict A N eng order =
     (if re_killed eng then Some KillSwitch
      else if no_quantity order = 0 then Some InvalidQuantity
      else if (case re_maximum_order_id eng of None \<Rightarrow> False | Some m \<Rightarrow> no_order_id order \<le> m) then Some DuplicateOrderId
      else if card (dom (res_of N eng)) = N then Some OrderCapacity
      else case acct_of A eng (no_account_id order) of
          None \<Rightarrow> Some UnknownAccount
        | Some a \<Rightarrow> limit_verdict a order)"

lemma limit_verdict_position: "limit_verdict a order = None \<Longrightarrow> position_verdict a (no_side order) (uint (no_quantity order)) = None"
  by (auto simp: limit_verdict_def split: option.splits if_splits)

lemma within_limit_more:
  assumes "position_verdict a s (uint q) = None" "ac_limits a' = ac_limits a"
    and "ac_settled_position a' = ac_settled_position a"
    and "uint (ac_reserved_buys a') = uint (ac_reserved_buys a) + (if s = Buy then uint q else 0)"
    and "uint (ac_reserved_sells a') = uint (ac_reserved_sells a) + (if s = Sell then uint q else 0)"
  shows "within_limit a'"
  using assms by (auto simp: position_verdict_def within_limit_def Let_def split: if_splits)

lemma check_and_reserve_ok:
  assumes inv: "risk_inv A N eng"
  shows "case reserve_verdict A N eng order of
      Some e \<Rightarrow> check_and_reserve A N eng order = Some (Inl e)
    | None \<Rightarrow> res_of N eng (no_order_id order) = None \<and>
        (\<exists>eng'. check_and_reserve A N eng order = Some (Inr eng') \<and> risk_inv A N eng' \<and>
          res_of N eng' = (res_of N eng)(no_order_id order :=
            Some (no_account_id order, no_side order, no_quantity order)) \<and>
          re_maximum_order_id eng' = Some (no_order_id order) \<and> re_killed eng' = re_killed eng \<and>
          (\<exists>a a'. acct_of A eng (no_account_id order) = Some a \<and>
             acct_of A eng' = (acct_of A eng)(no_account_id order := Some a') \<and>
             ac_settled_position a' = ac_settled_position a \<and> ac_limits a' = ac_limits a \<and> ac_killed a' = ac_killed a))"
proof (cases "re_killed eng \<or> no_quantity order = 0 \<or>
    (case re_maximum_order_id eng of None \<Rightarrow> False | Some m \<Rightarrow> no_order_id order \<le> m) \<or> card (dom (res_of N eng)) = N")
  case True
  then show ?thesis
    using free_head_NIL [OF risk_invD(2) [OF inv]] by (auto simp: reserve_verdict_def check_and_reserve_def)
next
  case False
  let ?k = "no_order_id order" and ?i = "no_account_id order" and ?s = "no_side order" and ?q = "no_quantity order"
  note D = risk_invD [OF inv]
  have head: "re_free_head eng \<noteq> NIL" using False free_head_NIL [OF D(2)] by simp
  have fresh: "res_of N eng ?k = None"
    using D(6) [of ?k] False by (cases "res_of N eng ?k") auto
  have pre: "check_and_reserve A N eng order =
      rbind (located_account A eng ?i) (\<lambda>(w, a). rbind (Some (evaluate_limits a order)) (\<lambda>(b, c, n).
        case get (re_reservations eng) (re_free_head eng) of
          Some (RFree next_free) \<Rightarrow>
            (case pi_insert (probe_capacity N) (re_reservation_index eng) ?k (re_free_head eng) of
               Inl ProbeFull \<Rightarrow> Some (Inl OrderCapacity)
             | Inl ProbeDuplicate \<Rightarrow> Some (Inl ArithmeticOverflow)
             | Inr (index, index_slot) \<Rightarrow>
                 Some (Inr ((set_reservation (set_account (eng\<lparr>re_reservation_index := index\<rparr>) w
                        (a\<lparr>ac_reserved_buys := b, ac_reserved_sells := c, ac_open_orders := n\<rparr>))
                     (re_free_head eng) \<lparr>rv_order_id = ?k, rv_account_id = ?i, rv_index_slot = index_slot,
                        rv_side = ?s, rv_quantity = ?q\<rparr>)
                     \<lparr>re_free_head := next_free, re_maximum_order_id := Some ?k\<rparr>)))
        | _ \<Rightarrow> Some (Inl ArithmeticOverflow)))"
    using False head by (simp add: check_and_reserve_def Let_def)
  have ver: "reserve_verdict A N eng order = (case acct_of A eng ?i of None \<Rightarrow> Some UnknownAccount | Some a \<Rightarrow> limit_verdict a order)"
    using False by (simp add: reserve_verdict_def)
  show ?thesis
  proof (cases "acct_of A eng ?i")
    case None
    then show ?thesis using located_account_ok [OF D(1), of ?i] by (simp add: pre ver)
  next
    case (Some a)
    then obtain w where w: "located_account A eng ?i = Some (Inr (w, a))" "acct_at eng w = Some a" "ac_id a = ?i"
      using located_account_ok [OF D(1), of ?i] by auto
    have lim: "within_limit a" using D(5) [OF Some] by blast
    note ev = evaluate_limits_exact [OF lim open_orders_bound [OF inv Some], of order]
    show ?thesis
    proof (cases "limit_verdict a order")
      case reject: (Some e)
      with ev w(1) Some show ?thesis by (simp add: pre ver)
    next
      case None
      then obtain b c where bc: "evaluate_limits a order = Inr (b, c, ac_open_orders a + 1)"
          "reserve_more a ?s ?q = Inr (b, c)" using ev by auto
      obtain n index s where p: "get (re_reservations eng) (re_free_head eng) = Some (RFree n)"
          "pi_insert (probe_capacity N) (re_reservation_index eng) ?k (re_free_head eng) = Inr (index, s)"
          "\<And>rv. rv_order_id rv = ?k \<Longrightarrow> rv_index_slot rv = s \<Longrightarrow>
            store_ok N (push_reservation eng index n rv) \<and>
            res_of N (push_reservation eng index n rv) = (res_of N eng)(?k := Some (res_data rv))"
        using push_reservation_ok [OF D(2) head fresh] by blast
      define rv where "rv = \<lparr>rv_order_id = ?k, rv_account_id = ?i, rv_index_slot = s, rv_side = ?s, rv_quantity = ?q\<rparr>"
      define a' where "a' = a\<lparr>ac_reserved_buys := b, ac_reserved_sells := c, ac_open_orders := ac_open_orders a + 1\<rparr>"
      define e1 where "e1 = set_account eng w a'"
      define e2 where "e2 = (set_reservation (set_account (eng\<lparr>re_reservation_index := index\<rparr>) w a')
          (re_free_head eng) rv) \<lparr>re_free_head := n, re_maximum_order_id := Some ?k\<rparr>"
      have call: "check_and_reserve A N eng order = Some (Inr e2)"
        using w(1) bc(1) p(1,2) by (simp add: pre e2_def a'_def rv_def del: get_Some)
      have st: "store_ok N e2" "res_of N e2 = (res_of N eng)(?k := Some (?i, ?s, ?q))"
        using p(3) [of rv] store_cong [of e2 "push_reservation eng index n rv" N]
        by (simp_all add: e2_def rv_def res_data_def push_reservation_def set_reservation_def set_account_def)
      have "accounts_ok A e1" "acct_of A e1 = (acct_of A eng)(?i := Some a')"
        using set_account_ok [OF D(1) w(2), of a'] w(3) by (simp_all add: a'_def e1_def)
      then have acc: "accounts_ok A e2" "acct_of A e2 = (acct_of A eng)(?i := Some a')"
        using accounts_cong(1,2) [of e2 e1] by (simp_all add: e1_def e2_def set_reservation_def set_account_def)
      have sums: "uint b = uint (ac_reserved_buys a) + (if ?s = Buy then uint ?q else 0)"
          "uint c = uint (ac_reserved_sells a) + (if ?s = Sell then uint ?q else 0)"
        using reserve_more_ok [OF account_bounds(2) [OF lim], of ?s ?q] bc(2) by auto
      have inc: "uint (ac_open_orders a + 1) = uint (ac_open_orders a) + 1"
        using uint_add_bounded [of "ac_open_orders a" 1] open_orders_bound [OF inv Some] by simp
      have wl: "within_limit a'"
        using within_limit_more [OF limit_verdict_position [OF None], of a'] sums by (simp add: a'_def)
      have "risk_inv A N e2"
      proof (rule risk_inv_change [OF inv Some _ _ acc(1) st(1) acc(2) st(2)])
        show "re_maximum_order_id e2 = re_maximum_order_id eng \<and>
            (Some (?i, ?s, ?q) = None \<or> res_of N eng ?k \<noteq> None) \<or>
          re_maximum_order_id e2 = Some ?k \<and> (\<forall>m. re_maximum_order_id eng = Some m \<longrightarrow> m \<le> ?k)"
          using False by (auto simp: e2_def)
      qed (use fresh wl w(3) sums inc in \<open>auto simp: a'_def\<close>)
      then show ?thesis
        using call st(2) acc(2) None Some fresh
        by (auto simp: ver e2_def a'_def set_reservation_def set_account_def)
    qed
  qed
qed

end
