(* ===== verification/Risk_Amend.thy ===== *)
theory Risk_Amend
  imports Risk_Ops
begin

text \<open>
  Amending a reservation, undoing the amendment, and the administrative operations of the risk engine:
  each keeps the invariant, and the rollback of an amendment restores the engine bit for bit.
\<close>

section \<open>Amendment\<close>

definition adjust_verdict :: "account_state \<Rightarrow> side \<Rightarrow> quantity \<Rightarrow> price_ticks \<Rightarrow> quantity \<Rightarrow> reject_reason option" where
  "adjust_verdict a s q price n =
     (if n \<le> q then None
      else case notional_verdict (ac_limits a) price n of
          Some e \<Rightarrow> Some e
        | None \<Rightarrow> position_verdict a s (uint (n - q)))"

definition released_amount :: "quantity \<Rightarrow> quantity \<Rightarrow> quantity" where
  "released_amount q n = (if n < q then q - n else 0)"

lemma amend_ok:
  assumes inv: "risk_inv A N eng" and r: "res_of N eng k = Some (i, s, q)"
    and v: "live (re_reservations eng) v = Some rv" "rv_order_id rv = k"
    and a: "acct_of A eng i = Some a" "acct_at eng w = Some a" "ac_id a = i"
    and sums: "uint (fst bc) = uint (ac_reserved_buys a) + (if s = Buy then uint n - uint q else 0)"
      "uint (snd bc) = uint (ac_reserved_sells a) + (if s = Sell then uint n - uint q else 0)"
    and wl: "within_limit (a\<lparr>ac_reserved_buys := fst bc, ac_reserved_sells := snd bc\<rparr>)"
  shows "risk_inv A N (amend eng w a bc v rv n) \<and>
    res_of N (amend eng w a bc v rv n) = (res_of N eng)(k := Some (i, s, n)) \<and>
    fill_effect A N eng (amend eng w a bc v rv n) i 0"
proof -
  note D = risk_invD [OF inv]
  define a' where "a' = a\<lparr>ac_reserved_buys := fst bc, ac_reserved_sells := snd bc\<rparr>"
  define e1 where "e1 = set_account eng w a'"
  define e2 where "e2 = amend eng w a bc v rv n"
  have e2: "e2 = set_reservation e1 v (rv\<lparr>rv_quantity := n\<rparr>)" by (simp add: e2_def amend_def e1_def a'_def)
  have acc: "accounts_ok A e2" "acct_of A e2 = (acct_of A eng)(i := Some a')"
    using set_account_ok [OF D(1) a(2), of a'] a(3) by (simp_all add: e2 a'_def e1_def)
  have "res_of N eng k = Some (res_data rv)" using v res_of_iff [OF D(2)] by blast
  then have "res_data rv = (i, s, q)" using r by simp
  then have data: "res_data (rv\<lparr>rv_quantity := n\<rparr>) = (i, s, n)" by (simp add: res_data_def)
  have st: "store_ok N e2" "res_of N e2 = (res_of N eng)(k := Some (i, s, n))"
    using set_reservation_ok [of N e1 v rv "rv\<lparr>rv_quantity := n\<rparr>"] D(2) v data by (simp_all add: e2 e1_def)
  have "risk_inv A N e2"
  proof (rule risk_inv_change [OF inv a(1) _ _ acc(1) st(1) acc(2) st(2)])
    show "re_maximum_order_id e2 = re_maximum_order_id eng \<and> (Some (i, s, n) = None \<or> res_of N eng k \<noteq> None) \<or>
      re_maximum_order_id e2 = Some k \<and> (\<forall>m. re_maximum_order_id eng = Some m \<longrightarrow> m \<le> k)"
      using r by (simp add: e2 e1_def)
  qed (use r a(3) wl sums in \<open>auto simp: a'_def\<close>)
  moreover have "fill_effect A N eng e2 i 0"
    unfolding fill_effect_def using a(1) acc(2)
    by (intro conjI exI [of _ a] exI [of _ a']) (simp_all add: a'_def e2 e1_def)
  ultimately show ?thesis using st(2) unfolding e2_def by blast
qed

lemma adjust_reservation_ok:
  assumes inv: "risk_inv A N eng"
  shows "case res_of N eng k of
      None \<Rightarrow> adjust_reservation A N eng k acct price n = Some (Inl UnknownOrder)
    | Some (i, s, q) \<Rightarrow>
        if i \<noteq> acct then adjust_reservation A N eng k acct price n = Some (Inl NotOrderOwner)
        else \<exists>a. acct_of A eng i = Some a \<and>
          (case adjust_verdict a s q price n of
             Some e \<Rightarrow> adjust_reservation A N eng k acct price n = Some (Inl e)
           | None \<Rightarrow> \<exists>eng'. adjust_reservation A N eng k acct price n =
                 Some (Inr (eng', released_amount q n, q)) \<and> risk_inv A N eng' \<and>
               res_of N eng' = (res_of N eng)(k := Some (i, s, n)) \<and> fill_effect A N eng eng' i 0)"
proof (cases "res_of N eng k")
  case None
  then show ?thesis by (simp add: res_of_def adjust_reservation_def)
next
  case (Some e)
  obtain i s q where e: "e = (i, s, q)" by (cases e)
  note r = Some [unfolded e]
  obtain v rv w a where F: "live_reservation N eng k = Some (v, rv)" "live (re_reservations eng) v = Some rv"
      "rv_order_id rv = k" "rv_account_id rv = i" "rv_side rv = s" "rv_quantity rv = q"
      "located_account A eng i = Some (Inr (w, a))" "acct_at eng w = Some a" "acct_of A eng i = Some a"
      "ac_id a = i" "within_limit a" "uint q \<le> uint (reserved a s)"
    using reservation_facts [OF inv r] by metis
  show ?thesis
  proof (cases "i = acct")
    case False
    then show ?thesis using r F(1,4) by (simp add: adjust_reservation_def)
  next
    case own: True
    consider "n = q" | "q < n" | "n < q" by (rule linorder_cases)
    then have "case adjust_verdict a s q price n of
        Some e \<Rightarrow> adjust_reservation A N eng k acct price n = Some (Inl e)
      | None \<Rightarrow> \<exists>eng'. adjust_reservation A N eng k acct price n = Some (Inr (eng', released_amount q n, q)) \<and>
          risk_inv A N eng' \<and> res_of N eng' = (res_of N eng)(k := Some (i, s, n)) \<and> fill_effect A N eng eng' i 0"
    proof cases
      case 1
      have "fill_effect A N eng eng i 0" unfolding fill_effect_def using F(9)
        by (intro conjI exI [of _ a]) (simp_all add: fun_upd_idem)
      then show ?thesis
        using 1 own r F(1,4,6) inv by (simp add: adjust_verdict_def adjust_reservation_def fun_upd_idem released_amount_def)
    next
      case 2
      have d: "uint (n - q) = uint n - uint q" using uint_diff_bounded [of q n] 2 by simp
      obtain b c where more: "reserve_more a s (n - q) = Inr (b, c)"
          "uint b = uint (ac_reserved_buys a) + (if s = Buy then uint (n - q) else 0)"
          "uint c = uint (ac_reserved_sells a) + (if s = Sell then uint (n - q) else 0)"
        using reserve_more_ok [OF account_bounds(2) [OF F(11)]] by blast
      have call: "adjust_reservation A N eng k acct price n =
          rbind (Some (check_notional (ac_limits a) price n)) (\<lambda>_. rbind (Some (check_position a b c)) (\<lambda>_.
            Some (Inr (amend eng w a (b, c) v rv n, 0, q))))"
        using 2 own F(1,4-7) more(1) by (auto simp: adjust_reservation_def Let_def)
      have ver: "adjust_verdict a s q price n = (case notional_verdict (ac_limits a) price n of
          Some e \<Rightarrow> Some e | None \<Rightarrow> position_verdict a s (uint (n - q)))"
        using 2 by (auto simp: adjust_verdict_def)
      show ?thesis
      proof (cases "adjust_verdict a s q price n")
        case None
        then have pv: "notional_verdict (ac_limits a) price n = None" "position_verdict a s (uint (n - q)) = None"
          unfolding ver by (auto split: option.splits)
        have "within_limit (a\<lparr>ac_reserved_buys := b, ac_reserved_sells := c\<rparr>)"
          using within_limit_more [OF pv(2), of "a\<lparr>ac_reserved_buys := b, ac_reserved_sells := c\<rparr>"] more(2,3) by simp
        with amend_ok [OF inv r F(2,3,9,8,10), of "(b, c)" n] more(2,3) d
        show ?thesis
          using None 2 call pv by (auto simp: check_notional_exact check_position_exact [OF F(11) more(1)] released_amount_def)
      next
        case (Some e)
        then show ?thesis
          unfolding call unfolding ver
          by (auto simp: check_notional_exact check_position_exact [OF F(11) more(1)] split: option.splits)
      qed
    next
      case 3
      have d: "uint (q - n) = uint q - uint n" using uint_diff_bounded [of n q] 3 by simp
      have "uint (q - n) \<le> uint (reserved a s)" using F(12) uint_ge_0 [of n] unfolding d by linarith
      then obtain b c where less: "reserve_less a s (q - n) = Inr (b, c)"
          "uint b = uint (ac_reserved_buys a) - (if s = Buy then uint (q - n) else 0)"
          "uint c = uint (ac_reserved_sells a) - (if s = Sell then uint (q - n) else 0)"
        using reserve_less_ok by blast
      have call: "adjust_reservation A N eng k acct price n = Some (Inr (amend eng w a (b, c) v rv n, q - n, q))"
        using 3 own F(1,4-7) less(1) by (auto simp: adjust_reservation_def Let_def)
      have "within_limit (a\<lparr>ac_reserved_buys := b, ac_reserved_sells := c\<rparr>)"
        using within_limit_fill [OF F(11), of "a\<lparr>ac_reserved_buys := b, ac_reserved_sells := c\<rparr>" s 0 "q - n"] less(2,3)
        by (cases s) (simp_all add: signed_by_def)
      with amend_ok [OF inv r F(2,3,9,8,10), of "(b, c)" n] less(2,3) d
      show ?thesis using 3 call by (auto simp: adjust_verdict_def released_amount_def)
    qed
    then show ?thesis using own r F(9) by auto
  qed
qed

section \<open>Rollback\<close>

lemma located_set_account:
  assumes "located_account A eng i = Some (Inr (w, a))"
  shows "located_account A (set_account eng w a') i = Some (Inr (w, a'))"
proof -
  have l: "account_slot A eng i = Some w" "w < length (re_accounts eng)"
    using assms by (auto simp: located_account_def split: option.splits)
  moreover have "account_slot A (set_account eng w a') i = account_slot A eng i" by (simp add: account_slot_def)
  ultimately show ?thesis by (simp add: located_account_def set_account_def get_def)
qed

lemma amend_undo:
  assumes v: "live (re_reservations eng) v = Some rv" and a: "acct_at eng w = Some a"
  shows "amend (amend eng w a bc v rv n) w (a\<lparr>ac_reserved_buys := fst bc, ac_reserved_sells := snd bc\<rparr>)
    (ac_reserved_buys a, ac_reserved_sells a) v (rv\<lparr>rv_quantity := n\<rparr>) (rv_quantity rv) = eng"
proof -
  have "(re_reservations eng)[v := RLive rv] = re_reservations eng" using v by (simp add: live_Some list_update_same_conv)
  moreover have "(re_accounts eng)[w := Some a] = re_accounts eng"
    using a by (auto simp: acct_at_def bind_eq_Some_conv list_update_same_conv)
  ultimately show ?thesis by (simp add: amend_def set_reservation_def set_account_def)
qed

lemma reserve_inverse:
  assumes "reserve_more a s d = Inr (b, c)"
  shows "reserve_less (a\<lparr>ac_reserved_buys := b, ac_reserved_sells := c\<rparr>) s d = Inr (ac_reserved_buys a, ac_reserved_sells a)"
proof -
  have "checked_add x y = Some z \<Longrightarrow> checked_sub z y = Some x" for x y z :: u128
    by (auto simp: checked_add_def checked_sub_def word_le_def uint_add_bounded split: if_splits)
  with assms show ?thesis by (cases s) (auto simp: reserve_more_def reserve_less_def result_iff)
qed

lemma reserve_inverse':
  assumes "reserve_less a s d = Inr (b, c)"
  shows "reserve_more (a\<lparr>ac_reserved_buys := b, ac_reserved_sells := c\<rparr>) s d = Inr (ac_reserved_buys a, ac_reserved_sells a)"
proof -
  have "checked_add z y = Some x" if "checked_sub x y = Some z" for x y z :: u128
  proof -
    have "y \<le> x" "z = x - y" using that by (auto simp: checked_sub_def split: if_splits)
    then have "uint z + uint y = uint x" "z + y = x" by (simp_all add: uint_diff_bounded)
    then show ?thesis using uint_lt2p [of x] by (simp add: checked_add_def)
  qed
  with assms show ?thesis by (cases s) (auto simp: reserve_more_def reserve_less_def result_iff)
qed

text \<open>What an accepted adjustment wrote.\<close>

lemma adjust_reservation_cases:
  assumes "adjust_reservation A N eng k acct price n = Some (Inr (eng', rel, prior))"
  obtains v rv where "live_reservation N eng k = Some (v, rv)" "rv_account_id rv = acct" "prior = rv_quantity rv"
      "n = rv_quantity rv" "eng' = eng"
  | v rv w a bc where "live_reservation N eng k = Some (v, rv)" "rv_account_id rv = acct" "prior = rv_quantity rv"
      "located_account A eng acct = Some (Inr (w, a))" "eng' = amend eng w a bc v rv n" "n \<noteq> rv_quantity rv"
      "rv_quantity rv < n \<Longrightarrow> reserve_more a (rv_side rv) (n - rv_quantity rv) = Inr bc"
      "n < rv_quantity rv \<Longrightarrow> reserve_less a (rv_side rv) (rv_quantity rv - n) = Inr bc"
  using assms unfolding adjust_reservation_def rbind_def Let_def
  by (auto split: option.splits sum.splits if_splits)

lemma adjust_then_restore:
  assumes ok: "store_ok N eng" "accounts_ok A eng"
    and adj: "adjust_reservation A N eng k acct price n = Some (Inr (eng', rel, prior))"
  shows "restore_reservation A N eng' k acct prior = Some (Inr eng)"
  using adj
proof (cases rule: adjust_reservation_cases)
  case (1 v rv)
  then show ?thesis by (simp add: restore_reservation_def Let_def)
next
  case (2 v rv w a bc)
  obtain b c where bc: "bc = (b, c)" by (cases bc)
  let ?a' = "a\<lparr>ac_reserved_buys := b, ac_reserved_sells := c\<rparr>" and ?rv' = "rv\<lparr>rv_quantity := n\<rparr>"
  have v: "live (re_reservations eng) v = Some rv" "rv_order_id rv = k"
    using 2(1) live_reservation_iff [OF ok(1)] by auto
  have a: "acct_at eng w = Some a" "ac_id a = acct"
    using 2(4) located_account_ok [OF ok(2), of acct] by (auto split: option.splits)
  have eng': "eng' = set_reservation (set_account eng w ?a') v ?rv'" by (simp add: 2(5) amend_def bc)
  have st: "store_ok N eng'" using set_reservation_ok(1) [of N "set_account eng w ?a'" v rv ?rv'] ok(1) v by (simp add: eng')
  have "live (re_reservations eng') v = Some ?rv'"
    using v(1) by (simp add: eng' set_reservation_def live_update live_Some)
  then have l: "live_reservation N eng' k = Some (v, ?rv')" using live_reservation_iff [OF st] v(2) by simp
  have loc: "located_account A eng' acct = Some (Inr (w, ?a'))"
    using located_set_account [OF 2(4), of ?a'] accounts_cong(3) [of eng' "set_account eng w ?a'" A] by (simp add: eng')
  have undo: "amend eng' w ?a' (ac_reserved_buys a, ac_reserved_sells a) v ?rv' (rv_quantity rv) = eng"
    using amend_undo [OF v(1) a(1), of bc n] by (simp add: 2(5) bc)
  have "(if rv_quantity rv > n then reserve_more ?a' (rv_side rv) (rv_quantity rv - n)
         else reserve_less ?a' (rv_side rv) (n - rv_quantity rv)) = Inr (ac_reserved_buys a, ac_reserved_sells a)"
    using 2(6-8) reserve_inverse [of a "rv_side rv" "n - rv_quantity rv" b c]
      reserve_inverse' [of a "rv_side rv" "rv_quantity rv - n" b c] by (auto simp: bc not_less less_le)
  then show ?thesis
    using l loc 2(2,3,6) undo by (cases "n < rv_quantity rv") (simp_all add: restore_reservation_def Let_def)
qed

section \<open>Accounts\<close>

lemma account_index_room:
  assumes ok: "accounts_ok A eng" and "0 < A"
  shows "used (pi_view (re_account_index eng)) < length (pi_view (re_account_index eng))"
proof -
  let ?E = "entries (pi_view (re_account_index eng))"
  have inv: "pi_inv (probe_capacity A) (re_account_index eng)" using ok by (simp add: accounts_ok_def)
  have at: "\<exists>a. acct_at eng (snd e) = Some a \<and> ucast (ac_id a) = fst e" if "e \<in> ?E" for e
    using that pi_lookup_entry [OF inv, of "fst e" "snd e"] ok by (simp add: accounts_ok_def)
  have "inj_on snd ?E"
  proof (rule inj_onI)
    fix d e
    assume "d \<in> ?E" "e \<in> ?E" "snd d = snd e"
    with at [of d] at [of e] show "d = e" by (auto intro: prod_eqI)
  qed
  moreover have "snd ` ?E \<subseteq> {..<A}"
    using at ok by (fastforce simp: acct_at_def accounts_ok_def bind_eq_Some_conv)
  ultimately have "card ?E \<le> A" by (metis card_image card_mono card_lessThan finite_lessThan)
  then have "used (pi_view (re_account_index eng)) \<le> A" using used_card(1) [OF pi_inv_table [OF inv]] by simp
  then show ?thesis using inv assms(2) by (simp add: pi_inv_def probe_capacity_def INDEX_PLANES_def)
qed

text \<open>An account enters at an empty slot.\<close>

lemma insert_account_ok:
  assumes ok: "accounts_ok A eng" and v: "v < A" "re_accounts eng ! v = None" and none: "account_slot A eng (ac_id a) = None"
  shows "\<exists>index h. pi_insert (probe_capacity A) (re_account_index eng) (ucast (ac_id a)) v = Inr (index, h) \<and>
    accounts_ok A (set_account (eng\<lparr>re_account_index := index\<rparr>) v a) \<and>
    acct_of A (set_account (eng\<lparr>re_account_index := index\<rparr>) v a) = (acct_of A eng)(ac_id a := Some a)"
proof -
  let ?cap = "probe_capacity A" and ?i = "ac_id a"
  have pinv: "pi_inv ?cap (re_account_index eng)" using ok by (simp add: accounts_ok_def)
  have none': "pi_lookup ?cap (re_account_index eng) (ucast ?i) = None" using none by (simp add: account_slot_def)
  have "v < NIL" using v(1) ok by (simp add: accounts_ok_def)
  from pi.find_ins [OF pinv this account_index_room [OF ok] none'] v(1)
  obtain index h where ins: "pi_insert ?cap (re_account_index eng) (ucast ?i) v = Inr (index, h)" "pi_inv ?cap index"
    "pi_lookup ?cap index = (pi_lookup ?cap (re_account_index eng))(ucast ?i := Some v)" by auto
  define eng' where "eng' = set_account (eng\<lparr>re_account_index := index\<rparr>) v a"
  have at: "acct_at eng' w = (if w = v then Some a else acct_at eng w)" for w
    using v(1) ok by (auto simp: eng'_def acct_at_def set_account_def get_def accounts_ok_def)
  have vnone: "acct_at eng v = None" using v ok by (simp add: acct_at_def get_def)
  have look: "pi_lookup ?cap index k = Some w \<longleftrightarrow> (\<exists>b. acct_at eng' w = Some b \<and> ucast (ac_id b) = k)" for k w
  proof -
    have old: "pi_lookup ?cap (re_account_index eng) k = Some w \<longleftrightarrow> (\<exists>b. acct_at eng w = Some b \<and> ucast (ac_id b) = k)"
      using ok by (simp add: accounts_ok_def)
    have "\<not> (\<exists>b. acct_at eng w = Some b \<and> (ucast (ac_id b) :: u64) = ucast ?i)"
      using none' ok unfolding accounts_ok_def by (metis option.distinct(1))
    with old vnone show ?thesis by (cases "w = v"; cases "k = ucast ?i") (auto simp: ins(3) at)
  qed
  have ok': "accounts_ok A eng'"
    using ins(2) look ok unfolding accounts_ok_def by (simp add: eng'_def set_account_def)
  have "acct_of A eng' j = ((acct_of A eng)(?i := Some a)) j" for j
  proof -
    have "acct_of A eng' j = Some b \<longleftrightarrow> ((acct_of A eng)(?i := Some a)) j = Some b" for b
    proof (cases "j = ?i")
      case True
      have "acct_of A eng' ?i = Some a" unfolding acct_of_iff [OF ok'] by (rule exI [of _ v]) (simp add: at)
      with True show ?thesis by simp
    next
      case False
      then have "acct_at eng' w = Some b \<and> ac_id b = j \<longleftrightarrow> acct_at eng w = Some b \<and> ac_id b = j" for w
        using vnone by (cases "w = v") (auto simp: at)
      with False show ?thesis unfolding acct_of_iff [OF ok'] by (simp add: acct_of_iff [OF ok])
    qed
    then show ?thesis by (metis option.exhaust)
  qed
  then show ?thesis using ins(1) ok' unfolding eng'_def by blast
qed

lemma register_account_ok:
  assumes inv: "risk_inv A N eng" and reg: "register_account A eng i limits = Inr eng'"
  shows "risk_inv A N eng' \<and> res_of N eng' = res_of N eng \<and> re_maximum_order_id eng' = re_maximum_order_id eng \<and>
    acct_of A eng i = None \<and> acct_of A eng' = (acct_of A eng)(i := Some
      \<lparr>ac_id = i, ac_limits = limits, ac_settled_position = 0, ac_reserved_buys = 0,
       ac_reserved_sells = 0, ac_open_orders = 0, ac_killed = False\<rparr>)"
proof -
  note D = risk_invD [OF inv]
  let ?cap = "probe_capacity A"
  define a where "a = \<lparr>ac_id = i, ac_limits = limits, ac_settled_position = 0, ac_reserved_buys = 0,
       ac_reserved_sells = 0, ac_open_orders = 0, ac_killed = False\<rparr>"
  obtain v index h where r: "account_slot A eng i = None"
      "List.find (\<lambda>v. re_accounts eng ! v = None) [0..<length (re_accounts eng)] = Some v"
      "pi_insert ?cap (re_account_index eng) (ucast i) v = Inr (index, h)"
      "eng' = set_account (eng\<lparr>re_account_index := index\<rparr>) v a"
    using reg unfolding register_account_def a_def
    by (auto split: if_splits option.splits sum.splits probe_error.splits)
  have v: "v < A" "re_accounts eng ! v = None" using r(2) D(1) by (auto simp: find_Some_iff accounts_ok_def)
  have "ac_id a = i" by (simp add: a_def)
  then have ok': "accounts_ok A eng'" and acc: "acct_of A eng' = (acct_of A eng)(i := Some a)"
    using insert_account_ok [OF D(1) v, of a] r(1,3) by (auto simp: r(4))
  have st: "store_ok N eng'" "res_of N eng' = res_of N eng"
    using store_cong [of eng' eng N] D(2) by (simp_all add: r(4) set_account_def)
  have old: "acct_of A eng i = None" using r(1) by (simp add: acct_of_def)
  have zero: "total (on_side i s) (res_of N eng) = 0 \<and> total (counted i) (res_of N eng) = 0" for s
  proof -
    have "weigh (on_side i s) (res_of N eng k) = 0 \<and> weigh (counted i) (res_of N eng k) = 0" for k
      using D(4) [of k i] old by (cases "res_of N eng k") fastforce+
    then show ?thesis by (simp add: total_def)
  qed
  have "account_exact (res_of N eng') b \<and> within_limit b" if "acct_of A eng' j = Some b" for j b
    using that D(5) [of j b] zero
    by (cases "j = i") (auto simp: acc st(2) a_def account_exact_def within_limit_def)
  moreover have "\<forall>k j s q. res_of N eng' k = Some (j, s, q) \<longrightarrow> acct_of A eng' j \<noteq> None"
    using D(4) by (fastforce simp: st(2) acc)
  moreover have "re_maximum_order_id eng' = re_maximum_order_id eng" by (simp add: r(4))
  ultimately have "risk_inv A N eng'"
    using ok' st inv unfolding risk_inv_def by simp
  then show ?thesis using st(2) old acc by (simp add: r(4) a_def)
qed

lemma register_account_accepts:
  assumes inv: "risk_inv A N eng" and lim: "rl_max_quantity limits \<noteq> 0" "rl_max_open_orders limits \<noteq> 0"
      "sint (rl_minimum_price limits) \<le> sint (rl_maximum_price limits)"
    and new: "acct_of A eng i = None" and free: "None \<in> set (re_accounts eng)"
  shows "\<exists>eng'. register_account A eng i limits = Inr eng'"
proof -
  note D = risk_invD [OF inv]
  have slot: "account_slot A eng i = None"
  proof (cases "account_slot A eng i")
    case (Some v)
    then obtain a where "acct_at eng v = Some a" using account_slot_iff [OF D(1)] by blast
    with Some new show ?thesis by (simp add: acct_of_def)
  qed
  have "List.find (\<lambda>v. re_accounts eng ! v = None) [0..<length (re_accounts eng)] \<noteq> None"
    using free by (auto simp: find_None_iff in_set_conv_nth)
  then obtain v where v: "List.find (\<lambda>v. re_accounts eng ! v = None) [0..<length (re_accounts eng)] = Some v" by blast
  then have "v < A" "v < NIL" using D(1) by (auto simp: find_Some_iff accounts_ok_def)
  moreover have "pi_inv (probe_capacity A) (re_account_index eng)"
      "pi_lookup (probe_capacity A) (re_account_index eng) (ucast i) = None"
    using D(1) slot by (simp_all add: accounts_ok_def account_slot_def)
  ultimately obtain index h where "pi_insert (probe_capacity A) (re_account_index eng) (ucast i) v = Inr (index, h)"
    using pi.find_ins [of "probe_capacity A" "re_account_index eng" v "ucast i"] account_index_room [OF D(1)] by auto
  then show ?thesis using lim slot v by (simp add: register_account_def)
qed

lemma risk_new_inv:
  assumes "2 * A \<le> 2 ^ 32" "2 * N \<le> 2 ^ 32"
  shows "risk_inv A N (risk_new A N)" "res_of N (risk_new A N) k = None"
proof -
  let ?e = "risk_new A N"
  have cap: "probe_capacity A \<le> 2 ^ 32" "probe_capacity N \<le> 2 ^ 32" "A < NIL" "N < NIL"
    using assms by (simp_all add: probe_capacity_def INDEX_PLANES_def NIL_def)
  have free: "re_reservations ?e ! i = RFree (if i + 1 < N then i + 1 else NIL)" if "i < N" for i
    using that by (simp add: risk_new_def)
  have len: "length (re_reservations ?e) = N" by (simp add: risk_new_def)
  have dead: "live (re_reservations ?e) i = None" for i using free len by (auto simp: live_None not_less)
  have "free_chain (re_reservations ?e) (if j < N then j else NIL) [j..<N]" if "j \<le> N" for j
    using that
  proof (induction "N - j" arbitrary: j)
    case (Suc x)
    then have "free_chain (re_reservations ?e) (if Suc j < N then Suc j else NIL) [Suc j..<N]" by simp
    moreover have "j < N" "[j..<N] = j # [Suc j..<N]" using Suc(2) by (simp_all add: upt_conv_Cons)
    ultimately show ?case using free [of j] len by (cases "Suc j < N") simp_all
  qed simp
  from this [of 0] have "free_chain (re_reservations ?e) (re_free_head ?e) [0..<N]"
    by (cases "N = 0") (simp_all add: risk_new_def)
  then have "free_list_ok N (re_reservations ?e) (re_free_head ?e)"
    unfolding free_list_ok_def using len cap dead by (intro conjI exI [of _ "[0..<N]"]) auto
  moreover have "pi_view (re_reservation_index ?e) ! q = None" if "q < probe_capacity N" for q
    using that by (simp add: risk_new_def probe_index_new_def)
  ultimately have st: "store_ok N ?e"
    unfolding store_ok_def using probe_index_new_inv [OF cap(2)] dead by (simp add: risk_new_def)
  have none: "acct_at ?e v = None" for v by (simp add: acct_at_def risk_new_def get_def)
  have acc: "accounts_ok A ?e"
    unfolding accounts_ok_def none using probe_index_new_inv [OF cap(1)] cap(3) by (simp add: risk_new_def)
  show res: "res_of N ?e k = None" for k
    using res_of_iff [OF st, of k] dead by (metis not_None_eq option.distinct(1))
  have "acct_of A ?e i = None" for i
    using acct_of_iff [OF acc, of i] none by (metis not_None_eq option.distinct(1))
  with st acc res show "risk_inv A N ?e" by (simp add: risk_inv_def dom_def)
qed

lemma kill_switch_ok: "risk_inv A N eng \<Longrightarrow> risk_inv A N (set_kill_switch eng b)"
  using store_cong [of "set_kill_switch eng b" eng N] accounts_cong(1,2) [of "set_kill_switch eng b" eng]
  by (simp add: risk_inv_def set_kill_switch_def)

lemma account_kill_switch_ok:
  assumes inv: "risk_inv A N eng" and k: "set_account_kill_switch A eng i b = Some (Inr eng')"
  shows "risk_inv A N eng' \<and> res_of N eng' = res_of N eng \<and> re_maximum_order_id eng' = re_maximum_order_id eng \<and>
    (\<exists>a. acct_of A eng i = Some a \<and> acct_of A eng' = (acct_of A eng)(i := Some (a\<lparr>ac_killed := b\<rparr>)))"
proof -
  note D = risk_invD [OF inv]
  obtain w a where w: "located_account A eng i = Some (Inr (w, a))" "eng' = set_account eng w (a\<lparr>ac_killed := b\<rparr>)"
    using k by (auto simp: set_account_kill_switch_def rbind_def split: option.splits sum.splits)
  then have a: "acct_at eng w = Some a" "ac_id a = i" "acct_of A eng i = Some a"
    using located_account_ok [OF D(1), of i] by (auto split: option.splits)
  have acc: "accounts_ok A eng'" "acct_of A eng' = (acct_of A eng)(i := Some (a\<lparr>ac_killed := b\<rparr>))"
    using set_account_ok [OF D(1) a(1), of "a\<lparr>ac_killed := b\<rparr>"] a(2) by (simp_all add: w(2))
  have "account_exact (res_of N eng) c \<and> within_limit c" if "acct_of A eng' j = Some c" for j c
    using that D(5) [of j c] D(5) [OF a(3)] by (cases "j = i") (auto simp: acc(2) account_exact_def within_limit_def)
  then have "risk_inv A N eng'"
    using inv acc unfolding risk_inv_def by (simp add: w(2))
  then show ?thesis using a(3) acc(2) by (simp add: w(2))
qed

end
