(* ===== verification/Risk_Reach.thy ===== *)
theory Risk_Reach
  imports Risk_Amend
begin

text \<open>
  Every state the risk engine of \<^verbatim>\<open>crates/hft-risk/src/lib.rs\<close> can reach through its operations, and what
  holds there: reserved totals are exact, positions stay within limits, limits are evaluated without
  rounding or overflow, no operation panics, and the rollback of an amendment is exact.
\<close>

section \<open>Reachable engines\<close>

inductive risk_reachable :: "nat \<Rightarrow> nat \<Rightarrow> risk_engine \<Rightarrow> bool" for A N where
  Init: "risk_reachable A N (risk_new A N)"
| Register: "\<lbrakk>risk_reachable A N eng; register_account A eng i limits = Inr eng'\<rbrakk> \<Longrightarrow> risk_reachable A N eng'"
| Kill: "risk_reachable A N eng \<Longrightarrow> risk_reachable A N (set_kill_switch eng b)"
| AccountKill: "\<lbrakk>risk_reachable A N eng; set_account_kill_switch A eng i b = Some (Inr eng')\<rbrakk> \<Longrightarrow> risk_reachable A N eng'"
| Reserve: "\<lbrakk>risk_reachable A N eng; check_and_reserve A N eng order = Some (Inr eng')\<rbrakk> \<Longrightarrow> risk_reachable A N eng'"
| Settle: "\<lbrakk>risk_reachable A N eng; settle A N eng k f = Some (Inr eng')\<rbrakk> \<Longrightarrow> risk_reachable A N eng'"
| Fill: "\<lbrakk>risk_reachable A N eng; record_fill A N eng k f = Some (Inr eng')\<rbrakk> \<Longrightarrow> risk_reachable A N eng'"
| Adjust: "\<lbrakk>risk_reachable A N eng; adjust_reservation A N eng k i price n = Some (Inr (eng', rel, prior))\<rbrakk>
    \<Longrightarrow> risk_reachable A N eng'"
| Cancel: "\<lbrakk>risk_reachable A N eng; cancel_reservation A N eng k i = Some (Inr (eng', remaining))\<rbrakk>
    \<Longrightarrow> risk_reachable A N eng'"

definition risk_dims :: "nat \<Rightarrow> nat \<Rightarrow> bool" where
  "risk_dims A N \<longleftrightarrow> 2 * A \<le> 2 ^ 32 \<and> 2 * N \<le> 2 ^ 32"

lemma record_fill_result:
  assumes inv: "risk_inv A N eng"
  shows "record_fill A N eng k f \<noteq> None \<and> (record_fill A N eng k f = Some (Inr eng') \<longrightarrow> risk_inv A N eng')"
proof (cases "f = 0 \<or> res_of N eng k = None")
  case True
  then show ?thesis by (auto simp: record_fill_def res_of_def)
next
  case False
  then obtain i s q where r: "res_of N eng k = Some (i, s, q)" by auto
  obtain v rv where l: "live_reservation N eng k = Some (v, rv)" "rv_quantity rv = q"
    using reservation_facts [OF inv r] by blast
  show ?thesis
  proof (cases "f \<le> q")
    case True
    then show ?thesis using record_fill_ok [OF inv r _ True] False by auto
  next
    case less: False
    then show ?thesis using l False by (simp add: record_fill_def checked_sub_def)
  qed
qed

lemma reachable_risk_inv:
  assumes "risk_reachable A N eng" "risk_dims A N"
  shows "risk_inv A N eng"
  using assms
proof (induction rule: risk_reachable.induct)
  case Init
  then show ?case using risk_new_inv(1) by (simp add: risk_dims_def)
next
  case (Register eng i limits eng')
  then show ?case using register_account_ok by blast
next
  case (Kill eng b)
  then show ?case using kill_switch_ok by blast
next
  case (AccountKill eng i b eng')
  then show ?case using account_kill_switch_ok by blast
next
  case (Reserve eng order eng')
  then show ?case using check_and_reserve_ok [of A N eng order] by (auto split: option.splits)
next
  case (Settle eng k f eng')
  then show ?case using settle_ok [of A N eng k f] by (auto split: option.splits if_splits)
next
  case (Fill eng k f eng')
  then show ?case using record_fill_result by blast
next
  case (Adjust eng k i price n eng' rel prior)
  then show ?case using adjust_reservation_ok [of A N eng k i price n] by (auto split: option.splits if_splits)
next
  case (Cancel eng k i eng' remaining)
  then show ?case using cancel_reservation_ok [of A N eng k i] by (auto split: option.splits if_splits)
qed

text \<open>The sums of the invariant, read off the reservation slots.\<close>

fun slot_weight :: "(exposure_entry \<Rightarrow> int) \<Rightarrow> reservation_slot \<Rightarrow> int" where
  "slot_weight f (RFree n) = 0"
| "slot_weight f (RLive rv) = f (rv_account_id rv, rv_side rv, rv_quantity rv)"

lemma total_slots:
  assumes ok: "store_ok N eng"
  shows "total f (res_of N eng) = (\<Sum>slot \<leftarrow> re_reservations eng. slot_weight f slot)"
proof -
  let ?s = "re_reservations eng" and ?V = "{v. live (re_reservations eng) v \<noteq> None}"
  let ?id = "\<lambda>v. rv_order_id (the (live ?s v))"
  have inj: "inj_on ?id ?V" by (intro inj_onI) (auto intro: live_unique [OF ok])
  have at: "weigh f (res_of N eng (?id v)) = slot_weight f (?s ! v)" if v: "v \<in> ?V" for v
  proof -
    obtain rv where rv: "live ?s v = Some rv" using v by auto
    then have "res_of N eng (rv_order_id rv) = Some (res_data rv)" using res_of_iff [OF ok] by blast
    moreover have "?s ! v = RLive rv" using rv by (simp add: live_Some)
    ultimately show ?thesis using rv by (simp add: res_data_def)
  qed
  have "total f (res_of N eng) = (\<Sum>v \<in> ?V. weigh f (res_of N eng (?id v)))"
    unfolding total_def card_live(1) [OF ok] using inj by (simp add: sum.reindex)
  also have "\<dots> = (\<Sum>v \<in> ?V. slot_weight f (?s ! v))" using at by (intro sum.cong) auto
  also have "\<dots> = (\<Sum>v \<in> {0..<length ?s}. slot_weight f (?s ! v))"
  proof (rule sum.mono_neutral_left)
    show "?V \<subseteq> {0..<length ?s}" by (auto simp: live_Some)
    show "\<forall>v \<in> {0..<length ?s} - ?V. slot_weight f (?s ! v) = 0" by (auto simp: live_None)
  qed simp
  also have "\<dots> = (\<Sum>slot \<leftarrow> ?s. slot_weight f slot)" by (simp add: sum_list_sum_nth)
  finally show ?thesis .
qed

lemma account_in_store:
  assumes "accounts_ok A eng" "Some a \<in> set (re_accounts eng)"
  shows "acct_of A eng (ac_id a) = Some a"
proof -
  obtain v where "v < length (re_accounts eng)" "re_accounts eng ! v = Some a" using assms(2) by (auto simp: in_set_conv_nth)
  then have "acct_at eng v = Some a" by (simp add: acct_at_def get_def)
  then show ?thesis using acct_of_iff [OF assms(1)] by blast
qed

section \<open>Properties\<close>

text \<open>
  C18. In every reachable risk engine the reserved totals and the open-order count of each account are
  exactly the sums over its live reservations, and its worst-case long and short positions (settled
  position plus all reserved buys, minus all reserved sells) lie within its position limit.
\<close>

theorem risk_totals_exact:
  assumes "risk_reachable A N eng" "risk_dims A N" "Some a \<in> set (re_accounts eng)"
  shows "uint (ac_reserved_buys a) = (\<Sum>slot \<leftarrow> re_reservations eng. slot_weight (on_side (ac_id a) Buy) slot) \<and>
    uint (ac_reserved_sells a) = (\<Sum>slot \<leftarrow> re_reservations eng. slot_weight (on_side (ac_id a) Sell) slot) \<and>
    uint (ac_open_orders a) = (\<Sum>slot \<leftarrow> re_reservations eng. slot_weight (counted (ac_id a)) slot) \<and>
    sint (ac_settled_position a) + uint (ac_reserved_buys a) \<le> uint (rl_max_abs_position (ac_limits a)) \<and>
    - uint (rl_max_abs_position (ac_limits a)) \<le> sint (ac_settled_position a) - uint (ac_reserved_sells a)"
proof -
  note D = risk_invD [OF reachable_risk_inv [OF assms(1,2)]]
  from D(5) [OF account_in_store [OF D(1) assms(3)]] show ?thesis
    by (simp add: account_exact_def within_limit_def total_slots [OF D(2)])
qed

text \<open>An engine with one account and one reservation, used to evaluate the properties.\<close>

definition demo_limits :: risk_limits where
  "demo_limits = \<lparr>rl_max_quantity = 10, rl_max_notional = 2000, rl_max_abs_position = 12,
     rl_max_open_orders = 2, rl_minimum_price = 1, rl_maximum_price = 100\<rparr>"

definition demo_risk :: risk_engine where
  "demo_risk = (case register_account 1 (risk_new 1 2) 9 demo_limits of Inr eng \<Rightarrow> eng | Inl _ \<Rightarrow> risk_new 1 2)"

lemma demo_risk_dims: "risk_dims 1 2"
  by (simp add: risk_dims_def)

lemma demo_risk_reachable: "risk_reachable 1 2 demo_risk"
  by (auto simp: demo_risk_def intro: risk_reachable.Init risk_reachable.Register [OF risk_reachable.Init]
      simp del: One_nat_def split: sum.split)

lemma demo_risk_state:
  "acct_of 1 demo_risk 9 = Some \<lparr>ac_id = 9, ac_limits = demo_limits, ac_settled_position = 0,
     ac_reserved_buys = 0, ac_reserved_sells = 0, ac_open_orders = 0, ac_killed = False\<rparr>"
  "res_of 2 demo_risk = (\<lambda>k. None)" "re_maximum_order_id demo_risk = None" "re_killed demo_risk = False"
proof -
  have inv: "risk_inv 1 2 (risk_new 1 2)" "res_of 2 (risk_new 1 2) k = None" for k
    using risk_new_inv [of 1 2] by simp_all
  have "acct_at (risk_new 1 2) v = None" for v by (simp add: acct_at_def risk_new_def get_def)
  then have none: "acct_of 1 (risk_new 1 2) 9 = None"
    using acct_of_iff [OF risk_invD(1) [OF inv(1)], of 9] by (metis not_None_eq option.distinct(1))
  have "None \<in> set (re_accounts (risk_new 1 2))" by (simp add: risk_new_def)
  then obtain eng' where reg: "register_account 1 (risk_new 1 2) 9 demo_limits = Inr eng'"
    using register_account_accepts [OF inv(1) _ _ _ none, of demo_limits] by (auto simp: demo_limits_def)
  then have d: "demo_risk = eng'" by (simp add: demo_risk_def)
  note ok = register_account_ok [OF inv(1) reg]
  show "acct_of 1 demo_risk 9 = Some \<lparr>ac_id = 9, ac_limits = demo_limits, ac_settled_position = 0,
     ac_reserved_buys = 0, ac_reserved_sells = 0, ac_open_orders = 0, ac_killed = False\<rparr>" using ok by (simp add: d)
  show "res_of 2 demo_risk = (\<lambda>k. None)" using ok inv(2) by (simp add: d fun_eq_iff)
  show "re_maximum_order_id demo_risk = None" using ok by (simp add: d risk_new_def)
  show "re_killed demo_risk = False" using reg unfolding d register_account_def
    by (auto simp: risk_new_def split: if_splits option.splits sum.splits probe_error.splits)
qed

theorem risk_totals_exact_witness:
  "\<exists>a. Some a \<in> set (re_accounts demo_risk) \<and> ac_id a = 9 \<and>
    uint (ac_reserved_buys a) = (\<Sum>slot \<leftarrow> re_reservations demo_risk. slot_weight (on_side (ac_id a) Buy) slot)"
proof -
  have "accounts_ok 1 demo_risk" using risk_invD(1) reachable_risk_inv [OF demo_risk_reachable demo_risk_dims] by blast
  then obtain v a where "acct_at demo_risk v = Some a" "ac_id a = 9"
    using demo_risk_state(1) acct_of_iff by blast
  then have a: "Some a \<in> set (re_accounts demo_risk)" "ac_id a = 9"
    by (auto simp: acct_at_def bind_eq_Some_conv in_set_conv_nth)
  with risk_totals_exact [OF demo_risk_reachable demo_risk_dims a(1)] show ?thesis by blast
qed

text \<open>
  C19. Reserving evaluates the limits exactly: on a reachable engine an order is rejected for the first
  violated condition among kill switch, quantity, id watermark, capacity, account, size, price collar,
  notional, worst-case position and open orders, each computed over the integers, and otherwise it is
  accepted and its reservation is the only one that changes. The only arithmetic rejection is the
  price \<open>i64::MIN\<close>.
\<close>

theorem reserve_exact:
  assumes "risk_reachable A N eng" "risk_dims A N"
  shows "case reserve_verdict A N eng order of
      Some e \<Rightarrow> check_and_reserve A N eng order = Some (Inl e)
    | None \<Rightarrow> \<exists>eng'. check_and_reserve A N eng order = Some (Inr eng') \<and> risk_reachable A N eng' \<and>
        res_of N eng (no_order_id order) = None \<and>
        res_of N eng' = (res_of N eng)(no_order_id order := Some (no_account_id order, no_side order, no_quantity order))"
  using check_and_reserve_ok [OF reachable_risk_inv [OF assms], of order] risk_reachable.Reserve [OF assms(1), of order]
  by (auto split: option.splits)

definition demo_reserve :: new_order where
  "demo_reserve = \<lparr>no_order_id = 3, no_account_id = 9, no_instrument_id = 7, no_price = 10, no_quantity = 10,
       no_sequence = 1, no_side = Buy, no_time_in_force = Gtc\<rparr>"

lemma demo_reserve_verdict: "reserve_verdict 1 2 demo_risk demo_reserve = None"
  by (simp add: reserve_verdict_def demo_reserve_def demo_risk_state limit_verdict_def demo_limits_def
      notional_verdict_def position_verdict_def Let_def del: One_nat_def)

theorem reserve_exact_witness:
  "\<exists>eng'. check_and_reserve 1 2 demo_risk demo_reserve = Some (Inr eng') \<and>
    res_of 2 eng' 3 = Some (9, Buy, 10)"
  using reserve_exact [OF demo_risk_reachable demo_risk_dims, of demo_reserve] demo_reserve_verdict
  by (auto simp: demo_reserve_def)

text \<open>
  C20. The rollback of an amendment is exact: after any accepted \<open>adjust_reservation\<close>, restoring the
  prior quantity succeeds and gives back the very same engine, whatever the limits are.
\<close>

theorem adjust_rollback_exact:
  assumes "risk_reachable A N eng" "risk_dims A N"
    and "adjust_reservation A N eng k i price n = Some (Inr (eng', rel, prior))"
  shows "restore_reservation A N eng' k i prior = Some (Inr eng)"
  using adjust_then_restore [OF _ _ assms(3)] risk_invD(1,2) [OF reachable_risk_inv [OF assms(1,2)]] by blast

text \<open>An engine with one reservation.\<close>

definition demo_reserved :: risk_engine where
  "demo_reserved = (case check_and_reserve 1 2 demo_risk demo_reserve of Some (Inr eng) \<Rightarrow> eng | _ \<Rightarrow> demo_risk)"

lemma demo_reserved_state: "risk_reachable 1 2 demo_reserved" "res_of 2 demo_reserved 3 = Some (9, Buy, 10)"
proof -
  obtain eng' where e: "check_and_reserve 1 2 demo_risk demo_reserve = Some (Inr eng')" "res_of 2 eng' 3 = Some (9, Buy, 10)"
    using check_and_reserve_ok [OF reachable_risk_inv [OF demo_risk_reachable demo_risk_dims], of demo_reserve]
      demo_reserve_verdict by (auto simp: demo_reserve_def)
  then show "risk_reachable 1 2 demo_reserved" "res_of 2 demo_reserved 3 = Some (9, Buy, 10)"
    using risk_reachable.Reserve [OF demo_risk_reachable e(1)] by (simp_all add: demo_reserved_def)
qed

theorem adjust_rollback_exact_witness:
  "\<exists>eng'. adjust_reservation 1 2 demo_reserved 3 9 10 4 = Some (Inr (eng', 6, 10)) \<and>
    restore_reservation 1 2 eng' 3 9 10 = Some (Inr demo_reserved)"
proof -
  obtain eng' where "adjust_reservation 1 2 demo_reserved 3 9 10 4 = Some (Inr (eng', 6, 10))"
    using adjust_reservation_ok [OF reachable_risk_inv [OF demo_reserved_state(1) demo_risk_dims], of 3 9 10 4]
    by (auto simp: demo_reserved_state(2) adjust_verdict_def released_amount_def)
  with adjust_rollback_exact [OF demo_reserved_state(1) demo_risk_dims this] show ?thesis by blast
qed

text \<open>
  No operation of a reachable risk engine panics: every slot and index access is in range and the
  index never overflows its handles.
\<close>

theorem risk_never_panics:
  assumes "risk_reachable A N eng" "risk_dims A N"
  shows "check_and_reserve A N eng order \<noteq> None \<and> settle A N eng k f \<noteq> None \<and> record_fill A N eng k f \<noteq> None \<and>
    adjust_reservation A N eng k i price n \<noteq> None \<and> cancel_reservation A N eng k i \<noteq> None \<and>
    set_account_kill_switch A eng i b \<noteq> None \<and> account_snapshot A eng i \<noteq> None"
proof -
  note inv = reachable_risk_inv [OF assms]
  note D = risk_invD [OF inv]
  have "check_and_reserve A N eng order \<noteq> None"
    using check_and_reserve_ok [OF inv, of order] by (auto split: option.splits)
  moreover have "settle A N eng k f \<noteq> None" using settle_ok [OF inv, of k f] by (auto split: option.splits if_splits)
  moreover have "record_fill A N eng k f \<noteq> None" using record_fill_result [OF inv] by blast
  moreover have "adjust_reservation A N eng k i price n \<noteq> None"
    using adjust_reservation_ok [OF inv, of k i price n] by (auto split: option.splits if_splits)
  moreover have "cancel_reservation A N eng k i \<noteq> None"
    using cancel_reservation_ok [OF inv, of k i] by (auto split: option.splits if_splits)
  moreover have "set_account_kill_switch A eng i b \<noteq> None"
    using located_account_ok [OF D(1), of i] by (auto simp: set_account_kill_switch_def split: option.splits)
  moreover have "account_snapshot A eng i \<noteq> None"
  proof (cases "account_slot A eng i")
    case (Some v)
    then obtain a where "acct_at eng v = Some a" using account_slot_iff [OF D(1)] by blast
    then have "v < length (re_accounts eng)" by (auto simp: acct_at_def bind_eq_Some_conv)
    with Some show ?thesis by (simp add: account_snapshot_def)
  qed (simp add: account_snapshot_def)
  ultimately show ?thesis by blast
qed

theorem risk_never_panics_witness:
  "record_fill 1 2 demo_reserved 3 11 \<noteq> None \<and> cancel_reservation 1 2 demo_reserved 4 9 \<noteq> None"
  using risk_never_panics [OF demo_reserved_state(1) demo_risk_dims] by blast

end
