(* ===== verification/Gateway.thy ===== *)
theory Gateway
  imports Wire Book_Reach Risk_Reach
begin

text \<open>
  The single-instrument gateway of \<^verbatim>\<open>crates/hft-gateway/src/lib.rs\<close>: sequence admission, the risk
  reservation, the book, and the settlement of fills, in the order of the code. \<open>A\<close>, \<open>N\<close>, \<open>L\<close> and
  \<open>K\<close> are the const generics \<open>ACCOUNTS\<close>, \<open>RISK_ORDERS\<close>, \<open>LEVELS\<close> and \<open>ORDERS_PER_LEVEL\<close>. A call
  returns the gateway and the report buffer as it left them together with its \<open>Result\<close>, because an
  error does not undo what was written before it; \<open>None\<close> is a panic.
\<close>

section \<open>State\<close>

datatype gateway_error =
    GwParse parse_error
  | GwSequence (gw_expected: sequence_number) (gw_received: sequence_number)
  | GwRisk reject_reason
  | GwBook reject_reason
  | GwRiskState reject_reason

datatype gateway_outcome =
    OutNewOrder match_summary
  | OutCancelled cancelled_order
  | OutReplaced replaced_order

record gateway =
  gw_risk :: risk_engine
  gw_book :: order_book
  gw_expected_sequence :: sequence_number
  gw_maximum_received :: "order_id option"

definition gateway_new :: "nat \<Rightarrow> nat \<Rightarrow> risk_engine \<Rightarrow> instrument_id \<Rightarrow> gateway" where
  "gateway_new L K risk instrument =
     \<lparr>gw_risk = risk, gw_book = book_new L K instrument, gw_expected_sequence = 1,
      gw_maximum_received = None\<rparr>"

type_synonym gateway_step = "(gateway \<times> report_buffer \<times> (gateway_error + gateway_outcome)) option"

section \<open>Sequence admission\<close>

definition check_sequence :: "gateway \<Rightarrow> sequence_number \<Rightarrow> gateway_error + unit" where
  "check_sequence gw received =
     (if received \<noteq> gw_expected_sequence gw then Inl (GwSequence (gw_expected_sequence gw) received)
      else and_then (ok_or (checked_add (gw_expected_sequence gw) 1) (GwRiskState ArithmeticOverflow))
             (\<lambda>_. Inr ()))"

definition accept_sequence :: "gateway \<Rightarrow> sequence_number \<Rightarrow> gateway_error + gateway" where
  "accept_sequence gw received =
     and_then (check_sequence gw received) (\<lambda>_.
     and_then (ok_or (checked_add (gw_expected_sequence gw) 1) (GwRiskState ArithmeticOverflow)) (\<lambda>following.
       Inr (gw\<lparr>gw_expected_sequence := following\<rparr>)))"

section \<open>Commands\<close>

text \<open>The loop over the reports: each fill reaches the maker and the taker; the first failure ends it.\<close>

fun record_fills ::
  "nat \<Rightarrow> nat \<Rightarrow> execution_report list \<Rightarrow> risk_engine \<Rightarrow> (risk_engine \<times> reject_reason option) option"
where
  "record_fills A N [] risk = Some (risk, None)"
| "record_fills A N (report # reports) risk =
     (case record_fill A N risk (er_maker_order_id report) (er_quantity report) of
        None \<Rightarrow> None
      | Some (Inl e) \<Rightarrow> Some (risk, Some e)
      | Some (Inr risk) \<Rightarrow>
          (case record_fill A N risk (er_taker_order_id report) (er_quantity report) of
             None \<Rightarrow> None
           | Some (Inl e) \<Rightarrow> Some (risk, Some e)
           | Some (Inr risk) \<Rightarrow> record_fills A N reports risk))"

definition process_new_order ::
  "nat \<Rightarrow> nat \<Rightarrow> nat \<Rightarrow> nat \<Rightarrow> gateway \<Rightarrow> new_order \<Rightarrow> report_buffer \<Rightarrow> gateway_step"
where
  "process_new_order A N L K gw order reports =
     (if (case gw_maximum_received gw of None \<Rightarrow> False | Some maximum \<Rightarrow> no_order_id order \<le> maximum)
      then Some (gw, reports, Inl (GwRisk DuplicateOrderId))
      else
        let gw = gw\<lparr>gw_maximum_received := Some (no_order_id order)\<rparr> in
        case check_and_reserve A N (gw_risk gw) order of
          None \<Rightarrow> None
        | Some (Inl e) \<Rightarrow> Some (gw, reports, Inl (GwRisk e))
        | Some (Inr risk) \<Rightarrow>
            (case submit L K (gw_book gw) order reports of
               None \<Rightarrow> None
             | Some (Inl e) \<Rightarrow>
                 (case settle A N risk (no_order_id order) 0 of
                    None \<Rightarrow> None
                  | Some (Inl d) \<Rightarrow> Some (gw\<lparr>gw_risk := risk\<rparr>, reports, Inl (GwRiskState d))
                  | Some (Inr risk) \<Rightarrow> Some (gw\<lparr>gw_risk := risk\<rparr>, reports, Inl (GwBook e)))
             | Some (Inr (book, reports, summary)) \<Rightarrow>
                 let gw = gw\<lparr>gw_book := book\<rparr> in
                 (case record_fills A N (report_buffer_iter reports) risk of
                    None \<Rightarrow> None
                  | Some (risk, Some e) \<Rightarrow> Some (gw\<lparr>gw_risk := risk\<rparr>, reports, Inl (GwRiskState e))
                  | Some (risk, None) \<Rightarrow>
                      if ms_resting_quantity summary = 0 \<and> ms_filled_quantity summary < no_quantity order then
                        (case settle A N risk (no_order_id order) 0 of
                           None \<Rightarrow> None
                         | Some (Inl e) \<Rightarrow> Some (gw\<lparr>gw_risk := risk\<rparr>, reports, Inl (GwRiskState e))
                         | Some (Inr risk) \<Rightarrow> Some (gw\<lparr>gw_risk := risk\<rparr>, reports, Inr (OutNewOrder summary)))
                      else Some (gw\<lparr>gw_risk := risk\<rparr>, reports, Inr (OutNewOrder summary)))))"

definition process_replace ::
  "nat \<Rightarrow> nat \<Rightarrow> nat \<Rightarrow> nat \<Rightarrow> gateway \<Rightarrow> replace_order \<Rightarrow> report_buffer \<Rightarrow> gateway_step"
where
  "process_replace A N L K gw cmd reports =
     (case adjust_reservation A N (gw_risk gw) (ro_order_id cmd) (ro_account_id cmd) (ro_price cmd) (ro_quantity cmd) of
        None \<Rightarrow> None
      | Some (Inl e) \<Rightarrow> Some (gw, reports, Inl (GwRisk e))
      | Some (Inr (risk, _, prior_remaining)) \<Rightarrow>
          (case replace L K (gw_book gw) cmd of
             None \<Rightarrow> None
           | Some (Inr (book, replaced)) \<Rightarrow>
               Some (gw\<lparr>gw_risk := risk, gw_book := book\<rparr>, reports, Inr (OutReplaced replaced))
           | Some (Inl e) \<Rightarrow>
               (case restore_reservation A N risk (ro_order_id cmd) (ro_account_id cmd) prior_remaining of
                  None \<Rightarrow> None
                | Some (Inl d) \<Rightarrow> Some (gw\<lparr>gw_risk := risk\<rparr>, reports, Inl (GwRiskState d))
                | Some (Inr risk) \<Rightarrow> Some (gw\<lparr>gw_risk := risk\<rparr>, reports, Inl (GwBook e)))))"

definition process_cancel ::
  "nat \<Rightarrow> nat \<Rightarrow> nat \<Rightarrow> nat \<Rightarrow> gateway \<Rightarrow> cancel_order \<Rightarrow> report_buffer \<Rightarrow> gateway_step"
where
  "process_cancel A N L K gw cmd reports =
     (case can_cancel N (gw_risk gw) (co_order_id cmd) (co_account_id cmd) of
        Inl e \<Rightarrow> Some (gw, reports, Inl (GwRisk e))
      | Inr _ \<Rightarrow>
          (case cancel L K (gw_book gw) cmd of
             None \<Rightarrow> None
           | Some (Inl e) \<Rightarrow> Some (gw, reports, Inl (GwBook e))
           | Some (Inr (book, cancelled)) \<Rightarrow>
               let gw = gw\<lparr>gw_book := book\<rparr> in
               (case cancel_reservation A N (gw_risk gw) (co_order_id cmd) (co_account_id cmd) of
                  None \<Rightarrow> None
                | Some (Inl e) \<Rightarrow> Some (gw, reports, Inl (GwRiskState e))
                | Some (Inr (risk, released)) \<Rightarrow>
                    Some (gw\<lparr>gw_risk := risk\<rparr>, reports,
                      if released \<noteq> cd_quantity cancelled then Inl (GwRiskState ArithmeticOverflow)
                      else Inr (OutCancelled cancelled)))))"

definition dispatch ::
  "nat \<Rightarrow> nat \<Rightarrow> nat \<Rightarrow> nat \<Rightarrow> gateway \<Rightarrow> command \<Rightarrow> report_buffer \<Rightarrow> gateway_step"
where
  "dispatch A N L K gw command reports =
     (case command of
        NewOrder order \<Rightarrow> process_new_order A N L K gw order reports
      | CancelOrder cmd \<Rightarrow> process_cancel A N L K gw cmd reports
      | ReplaceOrder cmd \<Rightarrow> process_replace A N L K gw cmd reports)"

definition process_command ::
  "nat \<Rightarrow> nat \<Rightarrow> nat \<Rightarrow> nat \<Rightarrow> gateway \<Rightarrow> command \<Rightarrow> report_buffer \<Rightarrow> gateway_step"
where
  "process_command A N L K gw command reports =
     (let reports = report_buffer_clear reports in
      case accept_sequence gw (command_sequence command) of
        Inl e \<Rightarrow> Some (gw, reports, Inl e)
      | Inr gw \<Rightarrow> dispatch A N L K gw command reports)"

definition process_frame ::
  "nat \<Rightarrow> nat \<Rightarrow> nat \<Rightarrow> nat \<Rightarrow> gateway \<Rightarrow> u8 list \<Rightarrow> report_buffer \<Rightarrow> gateway_step"
where
  "process_frame A N L K gw frame reports =
     (let reports = report_buffer_clear reports in
      case parse_message frame of
        Inl e \<Rightarrow> Some (gw, reports, Inl (GwParse e))
      | Inr message \<Rightarrow>
          (case accept_sequence gw (message_sequence message) of
             Inl e \<Rightarrow> Some (gw, reports, Inl e)
           | Inr gw \<Rightarrow>
               (case message of
                  BorrowedNewOrder b \<Rightarrow> process_new_order A N L K gw (new_order_to_owned b) reports
                | BorrowedCancelOrder b \<Rightarrow> process_cancel A N L K gw (cancel_order_to_owned b) reports
                | BorrowedReplaceOrder b \<Rightarrow> process_replace A N L K gw (replace_order_to_owned b) reports)))"

end
