(* ===== verification/Gateway_Inv.thy ===== *)
theory Gateway_Inv
  imports Gateway
begin

text \<open>
  The invariant that ties the parts of the gateway of \<^verbatim>\<open>crates/hft-gateway/src/lib.rs\<close> together: the
  reservations of the risk engine are exactly the resting orders of the book, with the same account,
  side and remaining quantity. Each command keeps it; the settlement of a list of fills is followed
  report by report.
\<close>

section \<open>The reservations a book calls for\<close>

definition book_res :: "spec_book \<Rightarrow> order_id \<Rightarrow> exposure_entry option" where
  "book_res sb k = map_option (\<lambda>(s, p, m). (mo_account m, s, mo_quantity m)) (spec_find sb k)"

definition rows_res :: "side \<Rightarrow> prow list \<Rightarrow> order_id \<Rightarrow> exposure_entry option" where
  "rows_res s rs = map_of (map (\<lambda>(p, m). (mo_id m, (mo_account m, s, mo_quantity m))) rs)"

lemma rows_res_Nil [simp]: "rows_res s [] = Map.empty"
  by (simp add: rows_res_def)

lemma rows_res_Cons [simp]:
  "rows_res s ((p, m) # rs) = (rows_res s rs)(mo_id m := Some (mo_account m, s, mo_quantity m))"
  by (simp add: rows_res_def)

lemma rows_res_None: "rows_res s rs k = None \<longleftrightarrow> k \<notin> (mo_id \<circ> snd) ` set rs"
  by (simp add: rows_res_def map_of_eq_None_iff image_image split_beta o_def)

lemma book_res_iff:
  assumes "spec_inv sb"
  shows "book_res sb k = Some (i, s, q) \<longleftrightarrow>
    (\<exists>p m. (p, m) \<in> set (sb s) \<and> mo_id m = k \<and> mo_account m = i \<and> mo_quantity m = q)"
  unfolding book_res_def using spec_find_Some [OF assms, of k] by force

lemma rows_res_iff:
  assumes "distinct (map (mo_id \<circ> snd) rs)"
  shows "rows_res s rs k = Some (i, t, q) \<longleftrightarrow>
    t = s \<and> (\<exists>p m. (p, m) \<in> set rs \<and> mo_id m = k \<and> mo_account m = i \<and> mo_quantity m = q)"
  using assms
proof (induction rs)
  case (Cons r rs)
  obtain p m where r: "r = (p, m)" by (cases r)
  with Cons show ?case by (cases "k = mo_id m") (auto simp: image_iff)
qed simp

lemma book_res_rows:
  assumes "spec_inv sb"
  shows "book_res sb k = (case rows_res t (sb t) k of Some e \<Rightarrow> Some e | None \<Rightarrow> rows_res (opposite t) (sb (opposite t)) k)"
proof -
  note d = spec_invD(3) [OF assms]
  have other: "s = t \<or> s = opposite t" for s by (cases s; cases t) auto
  have "book_res sb k = Some (i, s, q) \<longleftrightarrow>
      (case rows_res t (sb t) k of Some e \<Rightarrow> Some e | None \<Rightarrow> rows_res (opposite t) (sb (opposite t)) k) = Some (i, s, q)" for i s q
  proof (cases "rows_res t (sb t) k")
    case None
    then have "\<not> (\<exists>p m. (p, m) \<in> set (sb t) \<and> mo_id m = k)" by (force simp: rows_res_None image_iff)
    then show ?thesis
      using None other [of s] by (auto simp: book_res_iff [OF assms] rows_res_iff [OF d])
  next
    case (Some e)
    then have "k \<in> (mo_id \<circ> snd) ` set (sb t)" using rows_res_None [of t "sb t" k] by auto
    then have "k \<notin> (mo_id \<circ> snd) ` set (sb (opposite t))" using spec_inv_disjoint [OF assms, of t] by blast
    then have "\<not> (\<exists>p m. (p, m) \<in> set (sb (opposite t)) \<and> mo_id m = k)" by (force simp: image_iff)
    then have "book_res sb k = Some (i, s, q) \<longleftrightarrow> rows_res t (sb t) k = Some (i, s, q)"
      using other [of s] unfolding book_res_iff [OF assms] rows_res_iff [OF d] by blast
    with Some show ?thesis by simp
  qed
  then show ?thesis by (metis (no_types) option.exhaust prod_cases3)
qed

lemma book_res_match:
  assumes inv: "spec_inv sb" and m: "spec_match t lim (sb (opposite t)) rem = (fs, left, rs')"
  shows "book_res (sb(opposite t := rs')) k =
    (if k \<in> (mo_id \<circ> snd) ` set (sb (opposite t)) then rows_res (opposite t) rs' k else book_res sb k)"
proof -
  note side = spec_match_side [OF inv m]
  have dis: "k \<in> (mo_id \<circ> snd) ` set (sb (opposite t)) \<Longrightarrow> rows_res t (sb t) k = None"
    using spec_inv_disjoint [OF inv, of t] by (auto simp: rows_res_None)
  have "k \<notin> (mo_id \<circ> snd) ` set (sb (opposite t)) \<Longrightarrow> rows_res (opposite t) rs' k = None \<and> rows_res (opposite t) (sb (opposite t)) k = None"
    using side(2) by (auto simp: rows_res_None)
  with dis show ?thesis
    unfolding book_res_rows [OF side(1), of k t] book_res_rows [OF inv, of k t] by (auto split: option.split)
qed

text \<open>One order is written, and nothing else: added, requantified or removed.\<close>

lemma book_res_write:
  assumes inv: "spec_inv sb" "spec_inv sb'"
    and other: "\<And>s p m. mo_id m \<noteq> k \<Longrightarrow> (p, m) \<in> set (sb' s) \<longleftrightarrow> (p, m) \<in> set (sb s)"
    and own: "\<And>i s q. (\<exists>p m. (p, m) \<in> set (sb' s) \<and> mo_id m = k \<and> mo_account m = i \<and> mo_quantity m = q) \<longleftrightarrow> v = Some (i, s, q)"
  shows "book_res sb' = (book_res sb)(k := v)"
proof (rule ext)
  fix x
  have "book_res sb' x = Some (i, s, q) \<longleftrightarrow> ((book_res sb)(k := v)) x = Some (i, s, q)" for i s q
  proof (cases "x = k")
    case True
    then show ?thesis using own by (simp add: book_res_iff [OF inv(2)])
  next
    case False
    then have "(\<exists>p m. (p, m) \<in> set (sb' s) \<and> mo_id m = x \<and> mo_account m = i \<and> mo_quantity m = q) \<longleftrightarrow>
        (\<exists>p m. (p, m) \<in> set (sb s) \<and> mo_id m = x \<and> mo_account m = i \<and> mo_quantity m = q)"
      using other by blast
    with False show ?thesis by (simp add: book_res_iff [OF inv(2)] book_res_iff [OF inv(1)])
  qed
  then show "book_res sb' x = ((book_res sb)(k := v)) x" by (metis (no_types) option.exhaust prod_cases3)
qed

lemma book_res_insert:
  assumes inv: "spec_inv sb" "spec_inv (sb(t := insert_row d (p, m) (sb t)))"
    and new: "mo_id m \<notin> set (spec_ids sb)"
  shows "book_res (sb(t := insert_row d (p, m) (sb t))) = (book_res sb)(mo_id m := Some (mo_account m, t, mo_quantity m))"
proof (rule book_res_write [OF inv])
  have none: "\<not> (\<exists>p x. (p, x) \<in> set (sb s) \<and> mo_id x = mo_id m)" for s
    using new by (cases s) (force simp: spec_ids_def image_iff)+
  show "mo_id x \<noteq> mo_id m \<Longrightarrow> (q, x) \<in> set ((sb(t := insert_row d (p, m) (sb t))) s) \<longleftrightarrow> (q, x) \<in> set (sb s)" for s q x
    by (auto simp: set_insert_row)
  show "(\<exists>r x. (r, x) \<in> set ((sb(t := insert_row d (p, m) (sb t))) s) \<and> mo_id x = mo_id m \<and> mo_account x = i \<and> mo_quantity x = q) \<longleftrightarrow>
      Some (mo_account m, t, mo_quantity m) = Some (i, s, q)" for i s q
    using none [of s] by (auto simp: set_insert_row)
qed

section \<open>The net position of all accounts\<close>

definition net_of :: "nat \<Rightarrow> risk_engine \<Rightarrow> int" where
  "net_of A eng = (\<Sum>i \<in> UNIV. case acct_of A eng i of None \<Rightarrow> 0 | Some a \<Rightarrow> sint (ac_settled_position a))"

lemma net_of_upd:
  assumes "acct_of A eng i = Some a" "acct_of A eng' = (acct_of A eng)(i := Some a')"
    and "sint (ac_settled_position a') = sint (ac_settled_position a) + moved"
  shows "net_of A eng' = net_of A eng + moved"
proof -
  let ?p = "\<lambda>m i. case m i of None \<Rightarrow> 0 | Some a \<Rightarrow> sint (ac_settled_position a)"
  have split: "(\<Sum>j \<in> UNIV. ?p m j) = ?p m i + (\<Sum>j \<in> UNIV - {i}. ?p m j)" for m
    by (rule sum.remove) auto
  have "(\<Sum>j \<in> UNIV - {i}. ?p (acct_of A eng') j) = (\<Sum>j \<in> UNIV - {i}. ?p (acct_of A eng) j)"
    by (intro sum.cong) (auto simp: assms(2))
  then show ?thesis
    unfolding net_of_def split [of "acct_of A eng"] split [of "acct_of A eng'"] using assms by simp
qed

lemma fill_effect_net: "fill_effect A N eng eng' i moved \<Longrightarrow> net_of A eng' = net_of A eng + moved"
  unfolding fill_effect_def using net_of_upd by blast

lemma signed_opposite: "signed_by (opposite s) x + signed_by s x = 0"
  by (cases s) (simp_all add: signed_by_def)

lemma net_of_accounts:
  assumes ok: "accounts_ok A eng"
  shows "net_of A eng = (\<Sum>x \<leftarrow> re_accounts eng. case x of None \<Rightarrow> 0 | Some a \<Rightarrow> sint (ac_settled_position a))"
proof -
  let ?xs = "re_accounts eng" and ?V = "{v. acct_at eng v \<noteq> None}"
  let ?id = "\<lambda>v. ac_id (the (acct_at eng v))" and ?p = "\<lambda>x. case x of None \<Rightarrow> 0 | Some a \<Rightarrow> sint (ac_settled_position a)"
  have slot: "account_slot A eng (?id v) = Some v" if "v \<in> ?V" for v
    using that account_slot_iff [OF ok] by auto
  then have inj: "inj_on ?id ?V" by (intro inj_onI) (metis option.inject)
  have at: "acct_of A eng (?id v) = ?xs ! v" "v < length ?xs" if v: "v \<in> ?V" for v
  proof -
    obtain a where a: "acct_at eng v = Some a" using v by auto
    then have "acct_of A eng (?id v) = Some a" using acct_of_iff [OF ok, of "ac_id a" a] by auto
    moreover have "?xs ! v = Some a" "v < length ?xs" using a by (auto simp: acct_at_def bind_eq_Some_conv)
    ultimately show "acct_of A eng (?id v) = ?xs ! v" "v < length ?xs" by simp_all
  qed
  have dom: "acct_of A eng i = None" if "i \<notin> ?id ` ?V" for i
  proof (cases "acct_of A eng i")
    case (Some a)
    then obtain v where "acct_at eng v = Some a" "ac_id a = i" using acct_of_iff [OF ok] by blast
    then have "i = ?id v" "v \<in> ?V" by auto
    with that show ?thesis by blast
  qed
  have "net_of A eng = (\<Sum>i \<in> ?id ` ?V. ?p (acct_of A eng i))"
    unfolding net_of_def by (rule sum.mono_neutral_right) (auto simp: dom)
  also have "\<dots> = (\<Sum>v \<in> ?V. ?p (acct_of A eng (?id v)))" using inj by (simp add: sum.reindex)
  also have "\<dots> = (\<Sum>v \<in> ?V. ?p (?xs ! v))" using at(1) by (intro sum.cong) auto
  also have "\<dots> = (\<Sum>v \<in> {0..<length ?xs}. ?p (?xs ! v))"
  proof (rule sum.mono_neutral_left)
    show "?V \<subseteq> {0..<length ?xs}" using at(2) by auto
    show "\<forall>v \<in> {0..<length ?xs} - ?V. ?p (?xs ! v) = 0" by (auto simp: acct_at_def get_def split: option.split)
  qed simp
  also have "\<dots> = (\<Sum>x \<leftarrow> ?xs. ?p x)" by (simp add: sum_list_sum_nth)
  finally show ?thesis .
qed

section \<open>Settling a list of fills\<close>

lemma pair_of_fills:
  assumes "fill_effect A N risk risk1 j (signed_by (opposite t) x)" "fill_effect A N risk1 risk2 i (signed_by t x)"
  shows "net_of A risk2 = net_of A risk \<and> re_maximum_order_id risk2 = re_maximum_order_id risk"
  using fill_effect_net [OF assms(1)] fill_effect_net [OF assms(2)] signed_opposite [of t x] assms
  by (auto simp: fill_effect_def)

lemma record_fills_match:
  assumes "risk_inv A N risk" "spec_match t lim rs rem = (fs, left, rs')"
    and "distinct (map (mo_id \<circ> snd) rs)" "rows_positive rs" "no_order_id order \<notin> (mo_id \<circ> snd) ` set rs"
    and "\<forall>k \<in> (mo_id \<circ> snd) ` set rs. res_of N risk k = rows_res (opposite t) rs k"
    and "res_of N risk (no_order_id order) = (if rem = 0 then None else Some (i, t, rem))"
  shows "\<exists>risk'. record_fills A N (map (spec_report order) fs) risk = Some (risk', None) \<and> risk_inv A N risk' \<and>
    re_maximum_order_id risk' = re_maximum_order_id risk \<and> net_of A risk' = net_of A risk \<and>
    res_of N risk' = (\<lambda>k. if k = no_order_id order then (if left = 0 then None else Some (i, t, left))
      else if k \<in> (mo_id \<circ> snd) ` set rs then rows_res (opposite t) rs' k else res_of N risk k)"
  using assms
proof (induction rs arbitrary: risk rem fs)
  case Nil
  then show ?case by auto
next
  case (Cons r rs)
  obtain p m where r: "r = (p, m)" by (cases r)
  let ?k = "no_order_id order" and ?j = "mo_id m" and ?s = "opposite t" and ?q = "mo_quantity m"
  have jk: "?j \<noteq> ?k" "?j \<notin> (mo_id \<circ> snd) ` set rs" "?q \<noteq> 0" using Cons.prems(3-5) r by (auto simp: rows_positive_def)
  have maker: "res_of N risk ?j = Some (mo_account m, ?s, ?q)" using Cons.prems(6) r by simp
  have others: "\<forall>k \<in> (mo_id \<circ> snd) ` set rs. res_of N risk k = rows_res ?s rs k"
  proof
    fix k
    assume k: "k \<in> (mo_id \<circ> snd) ` set rs"
    then have "k \<noteq> ?j" using jk(2) by blast
    with k Cons.prems(6) r show "res_of N risk k = rows_res ?s rs k" by auto
  qed
  show ?case
  proof (cases "rem = 0 \<or> \<not> crosses t p lim")
    case True
    then have out: "fs = []" "left = rem" "rs' = r # rs" using Cons.prems(2) r by auto
    have "res_of N risk = (\<lambda>k. if k = ?k then (if left = 0 then None else Some (i, t, left))
        else if k \<in> (mo_id \<circ> snd) ` set (r # rs) then rows_res ?s rs' k else res_of N risk k)"
    proof
      fix k
      show "res_of N risk k = (if k = ?k then (if left = 0 then None else Some (i, t, left))
        else if k \<in> (mo_id \<circ> snd) ` set (r # rs) then rows_res ?s rs' k else res_of N risk k)"
        using bspec [OF Cons.prems(6), of k] Cons.prems(7) unfolding out by metis
    qed
    with Cons.prems(1) show ?thesis unfolding out(1) by simp
  next
    case go: False
    then have taker: "res_of N risk ?k = Some (i, t, rem)" using Cons.prems(7) by simp
    show ?thesis
    proof (cases "?q \<le> rem")
      case True
      then obtain fs' where m': "spec_match t lim rs (rem - ?q) = (fs', left, rs')" "fs = (?j, p, ?q) # fs'"
        using Cons.prems(2) go r by (auto split: prod.splits)
      obtain risk1 where r1: "record_fill A N risk ?j ?q = Some (Inr risk1)" "risk_inv A N risk1"
          "res_of N risk1 = (res_of N risk)(?j := None)" "fill_effect A N risk risk1 (mo_account m) (signed_by ?s (uint ?q))"
        using record_fill_ok [OF Cons.prems(1) maker jk(3)] by auto
      have taker1: "res_of N risk1 ?k = Some (i, t, rem)" using taker jk(1) by (simp add: r1(3))
      obtain risk2 where r2: "record_fill A N risk1 ?k ?q = Some (Inr risk2)" "risk_inv A N risk2"
          "res_of N risk2 = (res_of N risk1)(?k := if ?q = rem then None else Some (i, t, rem - ?q))"
          "fill_effect A N risk1 risk2 i (signed_by t (uint ?q))"
        using record_fill_ok [OF r1(2) taker1 jk(3) True] by auto
      note both = pair_of_fills [OF r1(4) r2(4)]
      have res2: "\<forall>k \<in> (mo_id \<circ> snd) ` set rs. res_of N risk2 k = rows_res ?s rs k"
      proof
        fix k
        assume k: "k \<in> (mo_id \<circ> snd) ` set rs"
        then have "k \<noteq> ?j" "k \<noteq> ?k" using jk(2) Cons.prems(5) unfolding list.set(2) by blast+
        with bspec [OF others k] show "res_of N risk2 k = rows_res ?s rs k" by (simp add: r2(3) r1(3))
      qed
      have own2: "res_of N risk2 ?k = (if rem - ?q = 0 then None else Some (i, t, rem - ?q))"
        by (auto simp: r2(3))
      have rest: "distinct (map (mo_id \<circ> snd) rs)" "rows_positive rs" "?k \<notin> (mo_id \<circ> snd) ` set rs"
        using Cons.prems(3-5) r by (auto simp: rows_positive_def o_def)
      obtain risk' where ih: "record_fills A N (map (spec_report order) fs') risk2 = Some (risk', None)" "risk_inv A N risk'"
          "re_maximum_order_id risk' = re_maximum_order_id risk2" "net_of A risk' = net_of A risk2"
          "res_of N risk' = (\<lambda>k. if k = ?k then (if left = 0 then None else Some (i, t, left))
            else if k \<in> (mo_id \<circ> snd) ` set rs then rows_res ?s rs' k else res_of N risk2 k)"
        using Cons.IH [OF r2(2) m'(1) rest res2 own2] by blast
      have sub: "(mo_id \<circ> snd) ` set rs' \<subseteq> (mo_id \<circ> snd) ` set rs"
      proof -
        obtain as bs where "rs = as @ bs" "map (mo_id \<circ> snd) rs' = map (mo_id \<circ> snd) bs"
          using spec_match_sublist [OF m'(1)] by blast
        then show ?thesis by (metis list.set_map set_append Un_upper2 image_mono)
      qed
      have "rows_res ?s rs' ?j = None" using sub jk(2) by (auto simp: rows_res_None)
      then have "res_of N risk' = (\<lambda>k. if k = ?k then (if left = 0 then None else Some (i, t, left))
          else if k \<in> (mo_id \<circ> snd) ` set (r # rs) then rows_res ?s rs' k else res_of N risk k)"
        unfolding ih(5) r2(3) r1(3) r using jk(1,2) by (intro ext) auto
      moreover have "record_fills A N (map (spec_report order) fs) risk = Some (risk', None)"
        using r1(1) r2(1) ih(1) by (simp add: m'(2) spec_report_def)
      moreover have "net_of A risk' = net_of A risk" "re_maximum_order_id risk' = re_maximum_order_id risk"
        using ih(3,4) both by simp_all
      ultimately show ?thesis using ih(2) by blast
    next
      case False
      then have le: "rem \<le> ?q" "rem \<noteq> ?q" "rem \<noteq> 0" using go by auto
      have out: "fs = [(?j, p, rem)]" "left = 0" "rs' = (p, m\<lparr>mo_quantity := ?q - rem\<rparr>) # rs"
        using Cons.prems(2) go False r by auto
      obtain risk1 where r1: "record_fill A N risk ?j rem = Some (Inr risk1)" "risk_inv A N risk1"
          "res_of N risk1 = (res_of N risk)(?j := Some (mo_account m, ?s, ?q - rem))"
          "fill_effect A N risk risk1 (mo_account m) (signed_by ?s (uint rem))"
        using record_fill_ok [OF Cons.prems(1) maker le(3,1)] le(2) by auto
      have taker1: "res_of N risk1 ?k = Some (i, t, rem)" using taker jk(1) by (simp add: r1(3))
      obtain risk2 where r2: "record_fill A N risk1 ?k rem = Some (Inr risk2)" "risk_inv A N risk2"
          "res_of N risk2 = (res_of N risk1)(?k := None)" "fill_effect A N risk1 risk2 i (signed_by t (uint rem))"
        using record_fill_ok [OF r1(2) taker1 le(3)] by auto
      have "res_of N risk2 = (\<lambda>k. if k = ?k then (if left = 0 then None else Some (i, t, left))
          else if k \<in> (mo_id \<circ> snd) ` set (r # rs) then rows_res ?s rs' k else res_of N risk k)"
        unfolding r2(3) r1(3) out(2,3) r using jk(1) others by (intro ext) auto
      moreover have "record_fills A N (map (spec_report order) fs) risk = Some (risk2, None)"
        using r1(1) r2(1) by (simp add: out(1) spec_report_def)
      ultimately show ?thesis using r2(2) pair_of_fills [OF r1(4) r2(4)] by blast
    qed
  qed
qed

section \<open>An accepted order, as a match and a remainder\<close>

definition own_row :: "new_order \<Rightarrow> quantity \<Rightarrow> prow" where
  "own_row order q = (no_price order, \<lparr>mo_id = no_order_id order, mo_account = no_account_id order,
     mo_quantity = q, mo_sequence = no_sequence order\<rparr>)"

lemma spec_submit_accepted:
  assumes "spec_submit L K cap sb order = Inr res"
  obtains fs left rs' where
    "spec_match (no_side order) (no_price order) (sb (opposite (no_side order))) (no_quantity order) = (fs, left, rs')"
    "no_quantity order \<noteq> 0" "no_order_id order \<notin> set (spec_ids sb)" "sr_fills res = fs"
    "sr_resting res = 0 \<and> sr_discarded res = left \<and> sr_book res = sb(opposite (no_side order) := rs') \<or>
     left \<noteq> 0 \<and> sr_resting res = left \<and> sr_discarded res = 0 \<and>
     sr_book res = sb(opposite (no_side order) := rs',
       no_side order := insert_row (no_side order = Buy) (own_row order left) (sb (no_side order)))"
proof -
  obtain fs left rs' where m:
      "spec_match (no_side order) (no_price order) (sb (opposite (no_side order))) (no_quantity order) = (fs, left, rs')"
    by (metis prod_cases3)
  show ?thesis
    by (rule that [OF m]; insert assms m) (auto simp: spec_submit_def own_row_def Let_def word_neq_0_conv split: if_splits)
qed

lemma book_res_absent: "k \<notin> set (spec_ids sb) \<Longrightarrow> book_res sb k = None"
  by (simp add: book_res_def spec_find_None)

lemma spec_ids_side: "k \<notin> set (spec_ids sb) \<Longrightarrow> k \<notin> (mo_id \<circ> snd) ` set (sb s)"
  by (cases s) (auto simp: spec_ids_def)

lemma book_res_submit:
  assumes inv: "spec_inv sb" and res: "spec_submit L K cap sb order = Inr res"
    and m: "spec_match (no_side order) (no_price order) (sb (opposite (no_side order))) (no_quantity order) = (fs, left, rs')"
  shows "book_res (sr_book res) k = (if k = no_order_id order
      then (if sr_resting res = 0 then None else Some (no_account_id order, no_side order, sr_resting res))
      else if k \<in> (mo_id \<circ> snd) ` set (sb (opposite (no_side order))) then rows_res (opposite (no_side order)) rs' k
      else book_res sb k)"
proof -
  let ?t = "no_side order" and ?sb = "sb(opposite (no_side order) := rs')"
  from res obtain fs1 left1 rs1 where
      a: "spec_match (no_side order) (no_price order) (sb (opposite (no_side order))) (no_quantity order) = (fs1, left1, rs1)"
      "no_quantity order \<noteq> 0" "no_order_id order \<notin> set (spec_ids sb)" "sr_fills res = fs1"
      "sr_resting res = 0 \<and> sr_discarded res = left1 \<and> sr_book res = sb(opposite (no_side order) := rs1) \<or>
       left1 \<noteq> 0 \<and> sr_resting res = left1 \<and> sr_discarded res = 0 \<and>
       sr_book res = sb(opposite (no_side order) := rs1,
         no_side order := insert_row (no_side order = Buy) (own_row order left1) (sb (no_side order)))"
    by (rule spec_submit_accepted)
  have eq: "left1 = left" "rs1 = rs'" using a(1) m by simp_all
  note side = spec_match_side [OF inv m] and fresh = spec_ids_side [OF a(3)]
  have mid: "book_res ?sb k = (if k \<in> (mo_id \<circ> snd) ` set (sb (opposite ?t)) then rows_res (opposite ?t) rs' k else book_res sb k)" for k
    by (rule book_res_match [OF inv m])
  have own: "book_res ?sb (no_order_id order) = None"
    unfolding mid using fresh [of "opposite ?t"] book_res_absent [OF a(3)] by simp
  from a(5) show ?thesis
  proof
    assume "sr_resting res = 0 \<and> sr_discarded res = left1 \<and> sr_book res = sb(opposite (no_side order) := rs1)"
    then have "sr_resting res = 0" "book_res (sr_book res) k = book_res ?sb k" by (simp_all add: eq)
    then show ?thesis using mid [of k] own by metis
  next
    assume r: "left1 \<noteq> 0 \<and> sr_resting res = left1 \<and> sr_discarded res = 0 \<and>
       sr_book res = sb(opposite (no_side order) := rs1,
         no_side order := insert_row (no_side order = Buy) (own_row order left1) (sb (no_side order)))"
    have same: "?sb ?t = sb ?t" by (cases ?t) auto
    have b: "sr_book res = ?sb(?t := insert_row (?t = Buy) (own_row order left) (?sb ?t))" using r by (simp add: same eq)
    have new: "no_order_id order \<notin> set (spec_ids ?sb)"
      using fresh side(2) by (cases ?t) (fastforce simp: spec_ids_def image_iff)+
    have "book_res (sr_book res) = (book_res ?sb)(no_order_id order := Some (no_account_id order, ?t, left))"
      using book_res_insert [OF side(1), of ?t "?t = Buy" "no_price order" "snd (own_row order left)"] new
        spec_submit_inv [OF inv res] by (simp add: b own_row_def)
    then show ?thesis using mid [of k] r by (simp add: eq)
  qed
qed

lemma record_fills_submit:
  assumes inv: "spec_inv sb" "risk_inv A N risk" and res: "spec_submit L K cap sb order = Inr res"
    and own: "res_of N risk = (book_res sb)(no_order_id order := Some (i, no_side order, no_quantity order))"
    and i: "no_account_id order = i"
  shows "\<exists>risk'. record_fills A N (map (spec_report order) (sr_fills res)) risk = Some (risk', None) \<and> risk_inv A N risk' \<and>
    re_maximum_order_id risk' = re_maximum_order_id risk \<and> net_of A risk' = net_of A risk \<and>
    res_of N risk' = (book_res (sr_book res))(no_order_id order :=
      (if sr_resting res + sr_discarded res = 0 then None else Some (i, no_side order, sr_resting res + sr_discarded res)))"
proof -
  let ?t = "no_side order" and ?k = "no_order_id order" and ?rs = "sb (opposite (no_side order))"
  from res obtain fs left rs' where
      a: "spec_match ?t (no_price order) ?rs (no_quantity order) = (fs, left, rs')"
      "no_quantity order \<noteq> 0" "?k \<notin> set (spec_ids sb)" "sr_fills res = fs"
      "sr_resting res = 0 \<and> sr_discarded res = left \<and> sr_book res = sb(opposite ?t := rs') \<or>
       left \<noteq> 0 \<and> sr_resting res = left \<and> sr_discarded res = 0 \<and>
       sr_book res = sb(opposite ?t := rs', ?t := insert_row (?t = Buy) (own_row order left) (sb ?t))"
    by (rule spec_submit_accepted)
  have left: "sr_resting res + sr_discarded res = left" using a(5) by auto
  note d = spec_invD [OF inv(1)] and fresh = spec_ids_side [OF a(3)]
  have makers: "\<forall>k \<in> (mo_id \<circ> snd) ` set ?rs. res_of N risk k = rows_res (opposite ?t) ?rs k"
  proof
    fix k
    assume k: "k \<in> (mo_id \<circ> snd) ` set ?rs"
    then have "k \<noteq> ?k" "k \<notin> (mo_id \<circ> snd) ` set (sb ?t)" using fresh spec_inv_disjoint [OF inv(1), of ?t] by blast+
    then have "res_of N risk k = book_res sb k" "rows_res ?t (sb ?t) k = None" by (simp_all add: own rows_res_None)
    then show "res_of N risk k = rows_res (opposite ?t) ?rs k" using book_res_rows [OF inv(1), of k ?t] by simp
  qed
  have taker: "res_of N risk ?k = (if no_quantity order = 0 then None else Some (i, ?t, no_quantity order))"
    using a(2) own by simp
  obtain risk' where r: "record_fills A N (map (spec_report order) fs) risk = Some (risk', None)" "risk_inv A N risk'"
      "re_maximum_order_id risk' = re_maximum_order_id risk \<and> net_of A risk' = net_of A risk"
      "res_of N risk' = (\<lambda>k. if k = ?k then (if left = 0 then None else Some (i, ?t, left))
        else if k \<in> (mo_id \<circ> snd) ` set ?rs then rows_res (opposite ?t) rs' k else res_of N risk k)"
    using record_fills_match [OF inv(2) a(1) d(3) d(2) fresh makers taker] by blast
  have "res_of N risk' = (book_res (sr_book res))(?k := (if left = 0 then None else Some (i, ?t, left)))"
    unfolding r(4) own by (rule ext) (simp add: book_res_submit [OF inv(1) res a(1)])
  with r(1-3) show ?thesis unfolding left a(4) by blast
qed

end
