(* ===== verification/Gateway_Ops.thy ===== *)
theory Gateway_Ops
  imports Gateway_Inv
begin

text \<open>
  What each command of the gateway of \<^verbatim>\<open>crates/hft-gateway/src/lib.rs\<close> does, on every branch: which
  error it returns and in which order the reasons are tried, that an error leaves the book, the
  reservations and the accounts as they were, and that an accepted command acts on the book as the
  book's specification says while the reservations keep matching the resting orders.
\<close>

section \<open>The invariant\<close>

definition gw_inv :: "nat \<Rightarrow> nat \<Rightarrow> nat \<Rightarrow> nat \<Rightarrow> gateway \<Rightarrow> bool" where
  "gw_inv A N L K gw \<longleftrightarrow>
     book_inv L K (gw_book gw) \<and> risk_inv A N (gw_risk gw) \<and>
     res_of N (gw_risk gw) = book_res (abs_book (gw_book gw)) \<and>
     (\<forall>m. re_maximum_order_id (gw_risk gw) = Some m \<longrightarrow> (\<exists>r. gw_maximum_received gw = Some r \<and> m \<le> r)) \<and>
     net_of A (gw_risk gw) = 0"

lemma gw_invD:
  assumes "gw_inv A N L K gw"
  shows "book_inv L K (gw_book gw)" "risk_inv A N (gw_risk gw)" "spec_inv (abs_book (gw_book gw))"
    "res_of N (gw_risk gw) = book_res (abs_book (gw_book gw))"
    "re_maximum_order_id (gw_risk gw) = Some m \<Longrightarrow> \<exists>r. gw_maximum_received gw = Some r \<and> m \<le> r"
    "net_of A (gw_risk gw) = 0"
  using assms by (auto simp: gw_inv_def book_inv_def)

text \<open>What a refused command must not touch.\<close>

definition untouched :: "nat \<Rightarrow> nat \<Rightarrow> gateway \<Rightarrow> gateway \<Rightarrow> bool" where
  "untouched A N gw gw' \<longleftrightarrow>
     gw_book gw' = gw_book gw \<and> res_of N (gw_risk gw') = res_of N (gw_risk gw) \<and>
     acct_of A (gw_risk gw') = acct_of A (gw_risk gw) \<and> re_killed (gw_risk gw') = re_killed (gw_risk gw)"

lemma untouched_refl [simp]: "untouched A N gw gw"
  by (simp add: untouched_def)

text \<open>The totals of an account follow from the reservations, so equal reservations mean equal accounts.\<close>

lemma account_determined:
  assumes inv: "risk_inv A N eng" "risk_inv A N eng'" and res: "res_of N eng' = res_of N eng"
    and a: "acct_of A eng i = Some a" "acct_of A eng' i = Some a'"
    and same: "ac_settled_position a' = ac_settled_position a" "ac_limits a' = ac_limits a" "ac_killed a' = ac_killed a"
  shows "a' = a"
proof -
  have "account_exact (res_of N eng) a" "ac_id a = i" using risk_invD(5) [OF inv(1) a(1)] by auto
  moreover have "account_exact (res_of N eng) a'" "ac_id a' = i" using risk_invD(5) [OF inv(2) a(2)] res by auto
  ultimately have "ac_reserved_buys a' = ac_reserved_buys a" "ac_reserved_sells a' = ac_reserved_sells a"
      "ac_open_orders a' = ac_open_orders a" "ac_id a' = ac_id a"
    by (simp_all add: account_exact_def word_uint_eq_iff)
  with same show ?thesis by simp
qed

lemma reserve_then_release:
  assumes inv: "risk_inv A N eng" and v: "reserve_verdict A N eng order = None"
  shows "\<exists>eng1 eng2. check_and_reserve A N eng order = Some (Inr eng1) \<and>
    settle A N eng1 (no_order_id order) 0 = Some (Inr eng2) \<and> risk_inv A N eng2 \<and>
    res_of N eng2 = res_of N eng \<and> acct_of A eng2 = acct_of A eng \<and> re_killed eng2 = re_killed eng \<and>
    re_maximum_order_id eng2 = Some (no_order_id order)"
proof -
  let ?k = "no_order_id order" and ?i = "no_account_id order"
  from check_and_reserve_ok [OF inv, of order] v obtain eng1 a a1 where
      e1: "res_of N eng ?k = None" "check_and_reserve A N eng order = Some (Inr eng1)" "risk_inv A N eng1"
      "res_of N eng1 = (res_of N eng)(?k := Some (?i, no_side order, no_quantity order))"
      "re_maximum_order_id eng1 = Some ?k" "re_killed eng1 = re_killed eng"
      "acct_of A eng ?i = Some a" "acct_of A eng1 = (acct_of A eng)(?i := Some a1)"
      "ac_settled_position a1 = ac_settled_position a" "ac_limits a1 = ac_limits a" "ac_killed a1 = ac_killed a"
    by auto
  have r: "res_of N eng1 ?k = Some (?i, no_side order, no_quantity order)" by (simp add: e1(4))
  from settle_ok [OF e1(3), of ?k 0] r obtain eng2 where
      e2: "settle A N eng1 ?k 0 = Some (Inr eng2)" "risk_inv A N eng2"
      "res_of N eng2 = (res_of N eng1)(?k := None)" "fill_effect A N eng1 eng2 ?i 0"
    by (cases "no_side order") (auto simp: signed_by_def)
  from e2(4) e1(8) obtain a2 where
      a2: "acct_of A eng2 = (acct_of A eng1)(?i := Some a2)" "sint (ac_settled_position a2) = sint (ac_settled_position a1)"
      "ac_limits a2 = ac_limits a1" "ac_killed a2 = ac_killed a1"
      "re_maximum_order_id eng2 = re_maximum_order_id eng1" "re_killed eng2 = re_killed eng1"
    by (auto simp: fill_effect_def)
  have res: "res_of N eng2 = res_of N eng" using e1(1,4) e2(3) by auto
  have "ac_settled_position a2 = ac_settled_position a1" by (rule signed_word_eqI) (rule a2(2))
  then have "a2 = a"
    using account_determined [OF inv e2(2) res e1(7), of a2] a2(1,3,4) e1(9-11) by simp
  then have "acct_of A eng2 = acct_of A eng" using a2(1) e1(7,8) by auto
  with e1 e2 a2 res show ?thesis by auto
qed

section \<open>New orders\<close>

definition new_order_verdict ::
  "nat \<Rightarrow> nat \<Rightarrow> nat \<Rightarrow> nat \<Rightarrow> nat \<Rightarrow> gateway \<Rightarrow> new_order \<Rightarrow> gateway_error + spec_result"
where
  "new_order_verdict A N L K cap gw order =
     (if (case gw_maximum_received gw of None \<Rightarrow> False | Some maximum \<Rightarrow> no_order_id order \<le> maximum)
      then Inl (GwRisk DuplicateOrderId)
      else case reserve_verdict A N (gw_risk gw) order of
          Some e \<Rightarrow> Inl (GwRisk e)
        | None \<Rightarrow>
            if no_instrument_id order \<noteq> ob_instrument (gw_book gw) then Inl (GwBook InvalidInstrument)
            else (case spec_submit L K cap (abs_book (gw_book gw)) order of
                    Inl e \<Rightarrow> Inl (GwBook e) | Inr res \<Rightarrow> Inr res))"

definition with_id :: "gateway \<Rightarrow> new_order \<Rightarrow> gateway" where
  "with_id gw order = gw\<lparr>gw_maximum_received := Some (no_order_id order)\<rparr>"

lemma new_order_rejected_by_risk:
  assumes inv: "gw_inv A N L K gw"
    and w: "\<not> (case gw_maximum_received gw of None \<Rightarrow> False | Some maximum \<Rightarrow> no_order_id order \<le> maximum)"
    and v: "reserve_verdict A N (gw_risk gw) order = Some e"
  shows "process_new_order A N L K gw order reports = Some (with_id gw order, reports, Inl (GwRisk e)) \<and>
    gw_inv A N L K (with_id gw order)"
proof -
  note I = gw_invD [OF inv]
  have "check_and_reserve A N (gw_risk gw) order = Some (Inl e)" using check_and_reserve_ok [OF I(2), of order] v by simp
  moreover have "m \<le> no_order_id order" if "re_maximum_order_id (gw_risk gw) = Some m" for m
    using I(5) [OF that] w by auto
  ultimately show ?thesis using w I(1,2,4,6) by (auto simp: process_new_order_def Let_def with_id_def gw_inv_def)
qed

lemma new_order_rejected_by_book:
  assumes inv: "gw_inv A N L K gw"
    and w: "\<not> (case gw_maximum_received gw of None \<Rightarrow> False | Some maximum \<Rightarrow> no_order_id order \<le> maximum)"
    and v: "reserve_verdict A N (gw_risk gw) order = None"
    and b: "submit L K (gw_book gw) order reports = Some (Inl e)"
  shows "\<exists>risk. process_new_order A N L K gw order reports =
      Some ((with_id gw order)\<lparr>gw_risk := risk\<rparr>, reports, Inl (GwBook e)) \<and>
    gw_inv A N L K ((with_id gw order)\<lparr>gw_risk := risk\<rparr>) \<and>
    untouched A N gw ((with_id gw order)\<lparr>gw_risk := risk\<rparr>)"
proof -
  note I = gw_invD [OF inv]
  from reserve_then_release [OF I(2) v] obtain eng1 eng2 where e:
      "check_and_reserve A N (gw_risk gw) order = Some (Inr eng1)" "settle A N eng1 (no_order_id order) 0 = Some (Inr eng2)"
      "risk_inv A N eng2" "res_of N eng2 = res_of N (gw_risk gw)" "acct_of A eng2 = acct_of A (gw_risk gw)"
      "re_killed eng2 = re_killed (gw_risk gw)" "re_maximum_order_id eng2 = Some (no_order_id order)"
    by blast
  have "process_new_order A N L K gw order reports =
      Some ((with_id gw order)\<lparr>gw_risk := eng2\<rparr>, reports, Inl (GwBook e))"
    using w e(1,2) b by (simp add: process_new_order_def Let_def with_id_def)
  moreover have "gw_inv A N L K ((with_id gw order)\<lparr>gw_risk := eng2\<rparr>)"
    using I(1,4,6) e(3,4,5,7) by (simp add: gw_inv_def with_id_def net_of_def)
  moreover have "untouched A N gw ((with_id gw order)\<lparr>gw_risk := eng2\<rparr>)"
    using e(4-6) by (simp add: untouched_def with_id_def)
  ultimately show ?thesis by blast
qed

lemma new_order_accepted:
  assumes inv: "gw_inv A N L K gw"
    and w: "\<not> (case gw_maximum_received gw of None \<Rightarrow> False | Some maximum \<Rightarrow> no_order_id order \<le> maximum)"
    and v: "reserve_verdict A N (gw_risk gw) order = None"
    and s: "spec_submit L K cap (abs_book (gw_book gw)) order = Inr res"
    and b: "submit L K (gw_book gw) order reports = Some (Inr (book', reports', spec_summary order res))"
      "book_inv L K book'" "abs_book book' = sr_book res" "report_buffer_iter reports' = map (spec_report order) (sr_fills res)"
  shows "\<exists>risk. process_new_order A N L K gw order reports =
      Some ((with_id gw order)\<lparr>gw_risk := risk, gw_book := book'\<rparr>, reports', Inr (OutNewOrder (spec_summary order res))) \<and>
    gw_inv A N L K ((with_id gw order)\<lparr>gw_risk := risk, gw_book := book'\<rparr>)"
proof -
  note I = gw_invD [OF inv]
  let ?k = "no_order_id order" and ?i = "no_account_id order" and ?t = "no_side order"
  let ?left = "sr_resting res + sr_discarded res"
  from check_and_reserve_ok [OF I(2), of order] v obtain eng1 where
      e1: "check_and_reserve A N (gw_risk gw) order = Some (Inr eng1)" "risk_inv A N eng1"
      "res_of N eng1 = (res_of N (gw_risk gw))(?k := Some (?i, ?t, no_quantity order))" "re_maximum_order_id eng1 = Some ?k"
      "net_of A eng1 = 0"
    using I(6) by (auto simp: net_of_upd [where moved = 0])
  from record_fills_submit [OF I(3) e1(2) s, of ?i] e1(3) I(4) obtain eng2 where
      e2: "record_fills A N (report_buffer_iter reports') eng1 = Some (eng2, None)" "risk_inv A N eng2"
      "re_maximum_order_id eng2 = Some ?k" "net_of A eng2 = 0"
      "res_of N eng2 = (book_res (sr_book res))(?k := (if ?left = 0 then None else Some (?i, ?t, ?left)))"
    unfolding b(4) e1(4,5) by auto
  from s obtain fs left rs' where
      m: "spec_match ?t (no_price order) (abs_book (gw_book gw) (opposite ?t)) (no_quantity order) = (fs, left, rs')"
      "no_quantity order \<noteq> 0"
      "sr_resting res = 0 \<and> sr_discarded res = left \<or> left \<noteq> 0 \<and> sr_resting res = left \<and> sr_discarded res = 0"
    by (rule spec_submit_accepted) blast
  have own: "book_res (sr_book res) ?k = (if sr_resting res = 0 then None else Some (?i, ?t, sr_resting res))"
    using book_res_submit [OF I(3) s m(1), of ?k] by simp
  have filled: "no_quantity order - left < no_quantity order \<longleftrightarrow> left \<noteq> 0"
  proof -
    have "0 \<le> total_traded fs" unfolding total_traded_def by (intro sum_list_nonneg) auto
    then have "left \<le> no_quantity order" using spec_match_conserves [OF m(1)] by (simp add: word_le_def)
    then show ?thesis by (auto simp: word_less_def uint_diff_bounded word_neq_0_conv [symmetric] uint_0_iff less_le)
  qed
  show ?thesis
  proof (cases "sr_resting res = 0 \<and> sr_discarded res \<noteq> 0")
    case True
    have "res_of N eng2 ?k = Some (?i, ?t, sr_discarded res)" using True by (simp add: e2(5))
    with settle_ok [OF e2(2), of ?k 0] obtain eng3 where
        e3: "settle A N eng2 ?k 0 = Some (Inr eng3)" "risk_inv A N eng3" "res_of N eng3 = (res_of N eng2)(?k := None)"
        "fill_effect A N eng2 eng3 ?i 0"
      by (cases ?t) (auto simp: signed_by_def)
    have "res_of N eng3 = book_res (sr_book res)" using own True by (auto simp: e3(3) e2(5))
    moreover have "process_new_order A N L K gw order reports =
      Some ((with_id gw order)\<lparr>gw_risk := eng3, gw_book := book'\<rparr>, reports', Inr (OutNewOrder (spec_summary order res)))"
      using w e1(1) e2(1) e3(1) b(1) True m(3) filled by (auto simp: process_new_order_def Let_def with_id_def spec_summary_def)
    ultimately show ?thesis using b(2,3) e3(2,4) e2(3,4) fill_effect_net [OF e3(4)]
      by (auto simp: gw_inv_def with_id_def fill_effect_def)
  next
    case False
    have "res_of N eng2 = book_res (sr_book res)" using own False m(3) by (auto simp: e2(5))
    moreover have "process_new_order A N L K gw order reports =
      Some ((with_id gw order)\<lparr>gw_risk := eng2, gw_book := book'\<rparr>, reports', Inr (OutNewOrder (spec_summary order res)))"
      using w e1(1) e2(1) b(1) False m(3) filled by (auto simp: process_new_order_def Let_def with_id_def spec_summary_def)
    ultimately show ?thesis using b(2,3) e2(2,3,4) by (auto simp: gw_inv_def with_id_def)
  qed
qed


lemma process_new_order_ok:
  assumes inv: "gw_inv A N L K gw" and wf: "report_buffer_wf reports" "report_buffer_iter reports = []"
  shows "\<exists>gw' reports'. gw_inv A N L K gw' \<and> report_buffer_wf reports' \<and>
    length (rb_entries reports') = length (rb_entries reports) \<and>
    gw_expected_sequence gw' = gw_expected_sequence gw \<and> ob_instrument (gw_book gw') = ob_instrument (gw_book gw) \<and>
    (case new_order_verdict A N L K (report_buffer_remaining_capacity reports) gw order of
       Inl e \<Rightarrow> process_new_order A N L K gw order reports = Some (gw', reports', Inl e) \<and>
         untouched A N gw gw' \<and> reports' = reports
     | Inr res \<Rightarrow> process_new_order A N L K gw order reports = Some (gw', reports', Inr (OutNewOrder (spec_summary order res))) \<and>
         abs_book (gw_book gw') = sr_book res \<and> report_buffer_iter reports' = map (spec_report order) (sr_fills res))"
proof -
  note I = gw_invD [OF inv]
  let ?cap = "report_buffer_remaining_capacity reports"
  consider (dup) "case gw_maximum_received gw of None \<Rightarrow> False | Some maximum \<Rightarrow> no_order_id order \<le> maximum"
    | (risk) e where "\<not> (case gw_maximum_received gw of None \<Rightarrow> False | Some maximum \<Rightarrow> no_order_id order \<le> maximum)"
        "reserve_verdict A N (gw_risk gw) order = Some e"
    | (book) "\<not> (case gw_maximum_received gw of None \<Rightarrow> False | Some maximum \<Rightarrow> no_order_id order \<le> maximum)"
        "reserve_verdict A N (gw_risk gw) order = None"
    by blast
  then show ?thesis
  proof cases
    case dup
    then show ?thesis using inv wf by (intro exI [of _ gw] exI [of _ reports]) (simp add: process_new_order_def new_order_verdict_def)
  next
    case risk
    note R = new_order_rejected_by_risk [OF inv risk, of reports]
    show ?thesis using R risk wf
      by (intro exI [of _ "with_id gw order"] exI [of _ reports])
        (simp add: new_order_verdict_def untouched_def, simp add: with_id_def)
  next
    case book
    show ?thesis
    proof (cases "no_instrument_id order = ob_instrument (gw_book gw)")
      case False
      from new_order_rejected_by_book [OF inv book submit_instrument [OF False]] obtain risk where
          R: "process_new_order A N L K gw order reports =
            Some ((with_id gw order)\<lparr>gw_risk := risk\<rparr>, reports, Inl (GwBook InvalidInstrument))"
          "gw_inv A N L K ((with_id gw order)\<lparr>gw_risk := risk\<rparr>)" "untouched A N gw ((with_id gw order)\<lparr>gw_risk := risk\<rparr>)"
        by blast
      show ?thesis using R book wf False
        by (intro exI [of _ "(with_id gw order)\<lparr>gw_risk := risk\<rparr>"] exI [of _ reports])
          (simp add: new_order_verdict_def, simp add: with_id_def)
    next
      case ins: True
      note S = submit_simulates [OF I(1) wf(1) ins]
      show ?thesis
      proof (cases "spec_submit L K ?cap (abs_book (gw_book gw)) order")
        case (Inl e)
        with S have "submit L K (gw_book gw) order reports = Some (Inl e)" by simp
        from new_order_rejected_by_book [OF inv book this] obtain risk where
          R: "process_new_order A N L K gw order reports = Some ((with_id gw order)\<lparr>gw_risk := risk\<rparr>, reports, Inl (GwBook e))"
          "gw_inv A N L K ((with_id gw order)\<lparr>gw_risk := risk\<rparr>)" "untouched A N gw ((with_id gw order)\<lparr>gw_risk := risk\<rparr>)"
          by blast
        show ?thesis using R book wf ins Inl
          by (intro exI [of _ "(with_id gw order)\<lparr>gw_risk := risk\<rparr>"] exI [of _ reports])
            (simp add: new_order_verdict_def, simp add: with_id_def)
      next
        case (Inr res)
        with S wf(2) obtain book' reports' where
            b: "submit L K (gw_book gw) order reports = Some (Inr (book', reports', spec_summary order res))"
            "book_inv L K book'" "abs_book book' = sr_book res" "report_buffer_iter reports' = map (spec_report order) (sr_fills res)"
            "ob_instrument book' = ob_instrument (gw_book gw)" "report_buffer_wf reports'"
            "length (rb_entries reports') = length (rb_entries reports)"
          by auto
        from new_order_accepted [OF inv book Inr b(1-4)] obtain risk where
          R: "process_new_order A N L K gw order reports =
            Some ((with_id gw order)\<lparr>gw_risk := risk, gw_book := book'\<rparr>, reports', Inr (OutNewOrder (spec_summary order res)))"
          "gw_inv A N L K ((with_id gw order)\<lparr>gw_risk := risk, gw_book := book'\<rparr>)"
          by blast
        show ?thesis using R book ins Inr b(3-7)
          by (intro exI [of _ "(with_id gw order)\<lparr>gw_risk := risk, gw_book := book'\<rparr>"] exI [of _ reports'])
            (simp add: new_order_verdict_def, simp add: with_id_def)
      qed
    qed
  qed
qed

section \<open>Cancels\<close>

definition cancel_verdict :: "gateway \<Rightarrow> cancel_order \<Rightarrow> gateway_error + spec_book \<times> model_order" where
  "cancel_verdict gw cmd =
     (case spec_cancel (abs_book (gw_book gw)) cmd of
        Inl e \<Rightarrow> Inl (GwRisk e)
      | Inr x \<Rightarrow> if co_instrument_id cmd \<noteq> ob_instrument (gw_book gw) then Inl (GwBook InvalidInstrument) else Inr x)"

lemma book_res_find:
  "book_res sb k = (case spec_find sb k of None \<Rightarrow> None | Some (s, p, m) \<Rightarrow> Some (mo_account m, s, mo_quantity m))"
  by (simp add: book_res_def split: option.split prod.split)

lemma book_res_cancel:
  assumes inv: "spec_inv sb" and c: "spec_cancel sb cmd = Inr (sb', m)"
  shows "book_res sb' = (book_res sb)(co_order_id cmd := None)"
proof (rule book_res_write [OF inv spec_cancel_inv [OF inv c]])
  let ?k = "co_order_id cmd"
  from c obtain side p where f: "spec_find sb ?k = Some (side, p, m)" "sb' = sb(side := spec_remove ?k (sb side))"
    by (auto simp: spec_cancel_def split: option.splits if_splits)
  have mem: "(q, x) \<in> set (sb' s) \<longleftrightarrow> (q, x) \<in> set (sb s) \<and> (s = side \<longrightarrow> mo_id x \<noteq> ?k)" for q x s
    by (auto simp: f(2) spec_remove_def)
  have only: "s = side" if "(q, x) \<in> set (sb s)" "mo_id x = ?k" for q x s
    using that f(1) spec_find_Some [OF inv, of ?k] by (metis Pair_inject option.inject snd_conv)
  show "mo_id x \<noteq> ?k \<Longrightarrow> (q, x) \<in> set (sb' s) \<longleftrightarrow> (q, x) \<in> set (sb s)" for s q x by (auto simp: mem)
  show "(\<exists>r x. (r, x) \<in> set (sb' s) \<and> mo_id x = ?k \<and> mo_account x = i \<and> mo_quantity x = q) \<longleftrightarrow> None = Some (i, s, q)" for i s q
    using only by (auto simp: mem)
qed

lemma process_cancel_ok:
  assumes inv: "gw_inv A N L K gw"
  shows "\<exists>gw'. gw_inv A N L K gw' \<and> gw_expected_sequence gw' = gw_expected_sequence gw \<and>
    ob_instrument (gw_book gw') = ob_instrument (gw_book gw) \<and>
    (case cancel_verdict gw cmd of
       Inl e \<Rightarrow> process_cancel A N L K gw cmd reports = Some (gw', reports, Inl e) \<and> gw' = gw
     | Inr (sb, m) \<Rightarrow> process_cancel A N L K gw cmd reports = Some (gw', reports, Inr (OutCancelled
           \<lparr>cd_order_id = mo_id m, cd_account_id = mo_account m, cd_quantity = mo_quantity m\<rparr>)) \<and>
         abs_book (gw_book gw') = sb)"
proof -
  note I = gw_invD [OF inv]
  let ?k = "co_order_id cmd" and ?i = "co_account_id cmd" and ?sb = "abs_book (gw_book gw)"
  note C = cancel_reservation_ok [OF I(2), of ?k ?i]
  show ?thesis
  proof (cases "spec_cancel ?sb cmd")
    case (Inl e)
    then have "can_cancel N (gw_risk gw) ?k ?i = Inl e"
      using C by (auto simp: I(4) book_res_find spec_cancel_def split: option.splits if_splits)
    then show ?thesis using inv Inl
      by (intro exI [of _ gw]) (simp add: process_cancel_def cancel_verdict_def)
  next
    case (Inr r)
    obtain sb m where r: "r = (sb, m)" by (cases r)
    obtain side p where f: "spec_find ?sb ?k = Some (side, p, m)" "mo_account m = ?i"
      using Inr r by (auto simp: spec_cancel_def split: option.splits if_splits)
    then obtain eng where e: "can_cancel N (gw_risk gw) ?k ?i = Inr ()"
        "cancel_reservation A N (gw_risk gw) ?k ?i = Some (Inr (eng, mo_quantity m))" "risk_inv A N eng"
        "res_of N eng = (res_of N (gw_risk gw))(?k := None)" "fill_effect A N (gw_risk gw) eng ?i 0"
      using C by (auto simp: I(4) book_res_find)
    show ?thesis
    proof (cases "co_instrument_id cmd = ob_instrument (gw_book gw)")
      case False
      then show ?thesis using inv Inr e(1)
        by (intro exI [of _ gw]) (simp add: process_cancel_def cancel_verdict_def cancel_def r)
    next
      case True
      from cancel_simulates [OF I(1) True] Inr r obtain book' where
          b: "cancel L K (gw_book gw) cmd = Some (Inr (book',
            \<lparr>cd_order_id = mo_id m, cd_account_id = mo_account m, cd_quantity = mo_quantity m\<rparr>))"
          "book_inv L K book'" "ob_instrument book' = ob_instrument (gw_book gw)" "abs_book book' = sb"
        by auto
      have "res_of N eng = book_res sb" using book_res_cancel [OF I(3) Inr [unfolded r]] e(4) I(4) by simp
      then have "gw_inv A N L K (gw\<lparr>gw_book := book', gw_risk := eng\<rparr>)"
        using b e(3,5) I(5,6) fill_effect_net [OF e(5)] by (auto simp: gw_inv_def fill_effect_def)
      then show ?thesis using b e Inr r True
        by (intro exI [of _ "gw\<lparr>gw_book := book', gw_risk := eng\<rparr>"]) (simp add: process_cancel_def cancel_verdict_def Let_def)
    qed
  qed
qed

section \<open>Replacements\<close>

definition replace_verdict ::
  "nat \<Rightarrow> nat \<Rightarrow> nat \<Rightarrow> gateway \<Rightarrow> replace_order \<Rightarrow> gateway_error + spec_book \<times> model_order \<times> bool"
where
  "replace_verdict A L K gw cmd =
     (case spec_find (abs_book (gw_book gw)) (ro_order_id cmd) of
        None \<Rightarrow> Inl (GwRisk UnknownOrder)
      | Some (side, p, m) \<Rightarrow>
          if mo_account m \<noteq> ro_account_id cmd then Inl (GwRisk NotOrderOwner)
          else case Option.bind (acct_of A (gw_risk gw) (mo_account m))
                 (\<lambda>a. adjust_verdict a side (mo_quantity m) (ro_price cmd) (ro_quantity cmd)) of
              Some e \<Rightarrow> Inl (GwRisk e)
            | None \<Rightarrow>
                if ro_instrument_id cmd \<noteq> ob_instrument (gw_book gw) then Inl (GwBook InvalidInstrument)
                else (case spec_replace L K (abs_book (gw_book gw)) cmd of Inl e \<Rightarrow> Inl (GwBook e) | Inr x \<Rightarrow> Inr x))"

lemma book_res_replace:
  assumes inv: "spec_inv sb" and c: "spec_replace L K sb cmd = Inr (sb', m, lost)"
    and f: "spec_find sb (ro_order_id cmd) = Some (side, p, m')"
  shows "book_res sb' = (book_res sb)(ro_order_id cmd := Some (ro_account_id cmd, side, ro_quantity cmd))" "m' = m"
proof -
  let ?k = "ro_order_id cmd" and ?q = "ro_quantity cmd"
  have here: "(p, m') \<in> set (sb side)" "mo_id m' = ?k" using f spec_find_Some [OF inv, of ?k] by auto
  have only: "s = side \<and> q = p \<and> x = m'" if "(q, x) \<in> set (sb s)" "mo_id x = ?k" for q x s
    using that f spec_find_Some [OF inv, of ?k] by (metis Pair_inject option.inject snd_conv)
  have acc: "m' = m" "mo_account m = ro_account_id cmd"
    using c f by (auto simp: spec_replace_def Let_def split: if_splits)
  show "m' = m" by (rule acc)
  let ?new = "\<lparr>mo_id = ?k, mo_account = ro_account_id cmd, mo_quantity = ?q, mo_sequence = ro_sequence cmd\<rparr>"
  from c f have shape: "sb' = sb(side := map (\<lambda>(p, x). (p, if mo_id x = ?k then x\<lparr>mo_quantity := ?q\<rparr> else x)) (sb side)) \<or>
      sb' = sb(side := insert_row (side = Buy) (ro_price cmd, ?new) (spec_remove ?k (sb side)))"
    by (auto simp: spec_replace_def Let_def split: if_splits)
  show "book_res sb' = (book_res sb)(?k := Some (ro_account_id cmd, side, ?q))"
  proof (rule book_res_write [OF inv spec_replace_inv [OF inv c]])
    show "mo_id x \<noteq> ?k \<Longrightarrow> (q, x) \<in> set (sb' s) \<longleftrightarrow> (q, x) \<in> set (sb s)" for s q x
      using shape by (auto simp: spec_remove_def image_iff split: if_splits; force)
    show "(\<exists>r x. (r, x) \<in> set (sb' s) \<and> mo_id x = ?k \<and> mo_account x = i \<and> mo_quantity x = q) \<longleftrightarrow>
        Some (ro_account_id cmd, side, ?q) = Some (i, s, q)" for i s q
      using shape
    proof
      assume s: "sb' = sb(side := map (\<lambda>(p, x). (p, if mo_id x = ?k then x\<lparr>mo_quantity := ?q\<rparr> else x)) (sb side))"
      have mem: "(r, x) \<in> set (sb' side) \<longleftrightarrow> (\<exists>y. (r, y) \<in> set (sb side) \<and> x = (if mo_id y = ?k then y\<lparr>mo_quantity := ?q\<rparr> else y))" for r x
        by (force simp: s)
      have now: "(r, x) \<in> set (sb' s) \<and> mo_id x = ?k \<longleftrightarrow> s = side \<and> r = p \<and> x = m'\<lparr>mo_quantity := ?q\<rparr>" for r x
      proof (cases "s = side")
        case True
        show ?thesis
        proof
          assume "(r, x) \<in> set (sb' s) \<and> mo_id x = ?k"
          then obtain y where y: "(r, y) \<in> set (sb side)" "x = (if mo_id y = ?k then y\<lparr>mo_quantity := ?q\<rparr> else y)" "mo_id x = ?k"
            using mem True by blast
          then have "mo_id y = ?k" by (auto split: if_splits)
          with y only [OF y(1)] True show "s = side \<and> r = p \<and> x = m'\<lparr>mo_quantity := ?q\<rparr>" by simp
        next
          assume "s = side \<and> r = p \<and> x = m'\<lparr>mo_quantity := ?q\<rparr>"
          with mem [of p x] here show "(r, x) \<in> set (sb' s) \<and> mo_id x = ?k" by auto
        qed
      next
        case False
        then show ?thesis using only [of r x s] by (auto simp: s)
      qed
      show ?thesis unfolding conj_assoc [symmetric] now using acc by auto
    next
      assume s: "sb' = sb(side := insert_row (side = Buy) (ro_price cmd, ?new) (spec_remove ?k (sb side)))"
      have now: "(r, x) \<in> set (sb' s) \<and> mo_id x = ?k \<longleftrightarrow> s = side \<and> r = ro_price cmd \<and> x = ?new" for r x
        using only [of r x s] by (auto simp: s spec_remove_def)
      show ?thesis unfolding conj_assoc [symmetric] now by auto
    qed
  qed
qed

lemma process_replace_ok:
  assumes inv: "gw_inv A N L K gw"
  shows "\<exists>gw'. gw_inv A N L K gw' \<and> gw_expected_sequence gw' = gw_expected_sequence gw \<and>
    ob_instrument (gw_book gw') = ob_instrument (gw_book gw) \<and>
    (case replace_verdict A L K gw cmd of
       Inl e \<Rightarrow> process_replace A N L K gw cmd reports = Some (gw', reports, Inl e) \<and> gw' = gw
     | Inr (sb, m, lost) \<Rightarrow> process_replace A N L K gw cmd reports = Some (gw', reports, Inr (OutReplaced
           \<lparr>rd_order_id = mo_id m, rd_account_id = mo_account m, rd_old_quantity = mo_quantity m,
            rd_new_quantity = ro_quantity cmd, rd_price = ro_price cmd, rd_priority_lost = lost\<rparr>)) \<and>
         abs_book (gw_book gw') = sb)"
proof -
  note I = gw_invD [OF inv]
  let ?k = "ro_order_id cmd" and ?i = "ro_account_id cmd" and ?sb = "abs_book (gw_book gw)"
  note C = adjust_reservation_ok [OF I(2), of ?k ?i "ro_price cmd" "ro_quantity cmd"]
  show ?thesis
  proof (cases "spec_find ?sb ?k")
    case None
    then show ?thesis using inv C
      by (intro exI [of _ gw]) (simp add: process_replace_def replace_verdict_def I(4) book_res_find)
  next
    case (Some r)
    obtain side p m where f: "spec_find ?sb ?k = Some (side, p, m)" using Some by (cases r) auto
    show ?thesis
    proof (cases "mo_account m = ?i")
      case False
      then show ?thesis using inv C f
        by (intro exI [of _ gw]) (simp add: process_replace_def replace_verdict_def I(4) book_res_find)
    next
      case own: True
      then obtain a where a: "acct_of A (gw_risk gw) ?i = Some a"
          "case adjust_verdict a side (mo_quantity m) (ro_price cmd) (ro_quantity cmd) of
             Some e \<Rightarrow> adjust_reservation A N (gw_risk gw) ?k ?i (ro_price cmd) (ro_quantity cmd) = Some (Inl e)
           | None \<Rightarrow> \<exists>eng'. adjust_reservation A N (gw_risk gw) ?k ?i (ro_price cmd) (ro_quantity cmd) =
                 Some (Inr (eng', released_amount (mo_quantity m) (ro_quantity cmd), mo_quantity m)) \<and> risk_inv A N eng' \<and>
               res_of N eng' = (res_of N (gw_risk gw))(?k := Some (?i, side, ro_quantity cmd)) \<and>
               fill_effect A N (gw_risk gw) eng' ?i 0"
        using C f by (auto simp: I(4) book_res_find)
      show ?thesis
      proof (cases "adjust_verdict a side (mo_quantity m) (ro_price cmd) (ro_quantity cmd)")
        case (Some e)
        then show ?thesis using inv a f own
          by (intro exI [of _ gw]) (simp add: process_replace_def replace_verdict_def)
      next
        case None
        then obtain eng where e: "adjust_reservation A N (gw_risk gw) ?k ?i (ro_price cmd) (ro_quantity cmd) =
              Some (Inr (eng, released_amount (mo_quantity m) (ro_quantity cmd), mo_quantity m))" "risk_inv A N eng"
            "res_of N eng = (res_of N (gw_risk gw))(?k := Some (?i, side, ro_quantity cmd))"
            "fill_effect A N (gw_risk gw) eng ?i 0"
          using a(2) by auto
        have undo: "restore_reservation A N eng ?k ?i (mo_quantity m) = Some (Inr (gw_risk gw))"
          by (rule adjust_then_restore [OF risk_invD(2,1) [OF I(2)] e(1)])
        have rejected: ?thesis if "replace L K (gw_book gw) cmd = Some (Inl x)" "replace_verdict A L K gw cmd = Inl (GwBook x)" for x
          using that inv e(1) undo by (intro exI [of _ gw]) (simp add: process_replace_def)
        show ?thesis
        proof (cases "ro_instrument_id cmd = ob_instrument (gw_book gw)")
          case False
          then show ?thesis using a(1) f own None by (intro rejected) (simp_all add: replace_def replace_verdict_def)
        next
          case True
          note S = replace_simulates [OF I(1) True]
          show ?thesis
          proof (cases "spec_replace L K ?sb cmd")
            case (Inl x)
            then show ?thesis using S a(1) f own None True by (intro rejected [of x]) (simp_all add: replace_verdict_def)
          next
            case (Inr y)
            obtain sb m' lost where y: "y = (sb, m', lost)" by (cases y)
            note w = book_res_replace [OF I(3) Inr [unfolded y] f]
            obtain book' where b: "replace L K (gw_book gw) cmd = Some (Inr (book', \<lparr>rd_order_id = mo_id m',
                rd_account_id = mo_account m', rd_old_quantity = mo_quantity m', rd_new_quantity = ro_quantity cmd,
                rd_price = ro_price cmd, rd_priority_lost = lost\<rparr>))"
                "book_inv L K book'" "ob_instrument book' = ob_instrument (gw_book gw)" "abs_book book' = sb"
              using S Inr y by auto
            have "gw_inv A N L K (gw\<lparr>gw_risk := eng, gw_book := book'\<rparr>)"
              using b e(2-4) I(4-6) w(1) fill_effect_net [OF e(4)] by (auto simp: gw_inv_def fill_effect_def)
            then show ?thesis using b e(1) Inr y True a(1) f own None
              by (intro exI [of _ "gw\<lparr>gw_risk := eng, gw_book := book'\<rparr>"]) (simp add: process_replace_def replace_verdict_def)
          qed
        qed
      qed
    qed
  qed
qed

end
