(* ===== verification/Gateway_Reach.thy ===== *)
theory Gateway_Reach
  imports Gateway_Ops
begin

text \<open>
  The states the gateway of \<^verbatim>\<open>crates/hft-gateway/src/lib.rs\<close> reaches through frames and commands, and
  the end-to-end properties: what a command does as one specification, that reservations and resting
  orders always agree, that positions net to zero, and that no internal failure is reachable.
\<close>

section \<open>Reachable gateways\<close>

text \<open>\<open>Gateway::new\<close> is given a risk engine in which accounts may be registered but nothing was reserved yet.\<close>

inductive gateway_reachable :: "nat \<Rightarrow> nat \<Rightarrow> nat \<Rightarrow> nat \<Rightarrow> instrument_id \<Rightarrow> gateway \<Rightarrow> bool" for A N L K ins where
  Init: "\<lbrakk>risk_reachable A N risk; re_maximum_order_id risk = None\<rbrakk> \<Longrightarrow>
    gateway_reachable A N L K ins (gateway_new L K risk ins)"
| Command: "\<lbrakk>gateway_reachable A N L K ins gw; report_buffer_wf reports;
    process_command A N L K gw command reports = Some (gw', reports', out)\<rbrakk> \<Longrightarrow> gateway_reachable A N L K ins gw'"
| Frame: "\<lbrakk>gateway_reachable A N L K ins gw; report_buffer_wf reports;
    process_frame A N L K gw frame reports = Some (gw', reports', out)\<rbrakk> \<Longrightarrow> gateway_reachable A N L K ins gw'"

definition gateway_dims :: "nat \<Rightarrow> nat \<Rightarrow> nat \<Rightarrow> nat \<Rightarrow> bool" where
  "gateway_dims A N L K \<longleftrightarrow> risk_dims A N \<and> dims_ok L K"

text \<open>An engine that never reserved has no reservations and only zero positions.\<close>

definition fresh_positions :: "nat \<Rightarrow> risk_engine \<Rightarrow> bool" where
  "fresh_positions A eng \<longleftrightarrow> (\<forall>i a. re_maximum_order_id eng = None \<longrightarrow> acct_of A eng i = Some a \<longrightarrow> ac_settled_position a = 0)"

lemma no_watermark_no_reservation:
  "\<lbrakk>risk_inv A N eng; re_maximum_order_id eng = None\<rbrakk> \<Longrightarrow> res_of N eng k = None"
  using risk_invD(6) [of A N eng k] by (cases "res_of N eng k") auto

lemma fresh_positions_fill:
  assumes "risk_inv A N eng" "res_of N eng k = Some r" "fill_effect A N eng eng' i moved"
  shows "fresh_positions A eng'"
  using assms no_watermark_no_reservation [OF assms(1), of k] by (auto simp: fresh_positions_def fill_effect_def)

lemma fresh_engine_positions:
  assumes "risk_reachable A N eng" "risk_dims A N"
  shows "fresh_positions A eng"
  using assms(1)
proof (induction rule: risk_reachable.induct)
  case Init
  have "acct_at (risk_new A N) v = None" for v by (simp add: acct_at_def risk_new_def get_def)
  then have "acct_of A (risk_new A N) i = None" for i
    using acct_of_iff [OF risk_invD(1) [OF reachable_risk_inv [OF risk_reachable.Init assms(2)]], of i]
    by (metis not_None_eq option.distinct(1))
  then show ?case by (simp add: fresh_positions_def)
next
  case (Register eng i limits eng')
  then show ?case using register_account_ok [OF reachable_risk_inv [OF Register(1) assms(2)] Register(2)]
    by (auto simp: fresh_positions_def)
next
  case (Kill eng b)
  then show ?case using accounts_cong(2) [of "set_kill_switch eng b" eng A]
    by (simp add: fresh_positions_def set_kill_switch_def)
next
  case (AccountKill eng i b eng')
  then show ?case using account_kill_switch_ok [OF reachable_risk_inv [OF AccountKill(1) assms(2)] AccountKill(2)]
    by (auto simp: fresh_positions_def split: if_splits)
next
  case (Reserve eng order eng')
  then show ?case using check_and_reserve_ok [OF reachable_risk_inv [OF Reserve(1) assms(2)], of order]
    by (auto simp: fresh_positions_def split: option.splits)
next
  case (Settle eng k f eng')
  note inv = reachable_risk_inv [OF Settle(1) assms(2)]
  show ?case using settle_ok [OF inv, of k f] Settle(2) fresh_positions_fill [OF inv, of k]
    by (auto split: option.splits if_splits)
next
  case (Fill eng k f eng')
  note inv = reachable_risk_inv [OF Fill(1) assms(2)]
  show ?case using record_fill_accepted [OF inv Fill(2)] fresh_positions_fill [OF inv] by blast
next
  case (Adjust eng k i price n eng' rel prior)
  note inv = reachable_risk_inv [OF Adjust(1) assms(2)]
  show ?case using adjust_reservation_ok [OF inv, of k i price n] Adjust(2) fresh_positions_fill [OF inv, of k]
    by (auto split: option.splits if_splits)
next
  case (Cancel eng k i eng' remaining)
  note inv = reachable_risk_inv [OF Cancel(1) assms(2)]
  show ?case using cancel_reservation_ok [OF inv, of k i] Cancel(2) fresh_positions_fill [OF inv, of k]
    by (auto split: option.splits if_splits)
qed

lemma gateway_new_inv:
  assumes r: "risk_reachable A N risk" "re_maximum_order_id risk = None" and d: "gateway_dims A N L K"
  shows "gw_inv A N L K (gateway_new L K risk ins) \<and> ob_instrument (gw_book (gateway_new L K risk ins)) = ins"
proof -
  have inv: "risk_inv A N risk" and pos: "fresh_positions A risk"
    using reachable_risk_inv [OF r(1)] fresh_engine_positions [OF r(1)] d by (simp_all add: gateway_dims_def)
  have "net_of A risk = 0" unfolding net_of_def
    by (rule sum.neutral) (use pos r(2) in \<open>auto simp: fresh_positions_def split: option.split\<close>)
  moreover have "res_of N risk = book_res (\<lambda>side. [])"
    using no_watermark_no_reservation [OF inv r(2)] by (intro ext) (simp add: book_res_def spec_find_def)
  moreover have "book_inv L K (book_new L K ins) \<and> abs_book (book_new L K ins) = (\<lambda>side. [])"
    using book_new_inv d by (simp add: gateway_dims_def dims_ok_def)
  ultimately show ?thesis using inv r(2) by (simp add: gw_inv_def gateway_new_def book_new_def)
qed

section \<open>One command as a specification\<close>

definition spec_dispatch ::
  "nat \<Rightarrow> nat \<Rightarrow> nat \<Rightarrow> nat \<Rightarrow> nat \<Rightarrow> gateway \<Rightarrow> command \<Rightarrow>
     gateway_error + spec_book \<times> gateway_outcome \<times> execution_report list"
where
  "spec_dispatch A N L K cap gw command =
     (case command of
          NewOrder order \<Rightarrow> map_sum id (\<lambda>res. (sr_book res, OutNewOrder (spec_summary order res), map (spec_report order) (sr_fills res)))
            (new_order_verdict A N L K cap gw order)
        | CancelOrder c \<Rightarrow> map_sum id (\<lambda>(sb, m). (sb, OutCancelled
            \<lparr>cd_order_id = mo_id m, cd_account_id = mo_account m, cd_quantity = mo_quantity m\<rparr>, []))
            (cancel_verdict gw c)
        | ReplaceOrder c \<Rightarrow> map_sum id (\<lambda>(sb, m, lost). (sb, OutReplaced
            \<lparr>rd_order_id = mo_id m, rd_account_id = mo_account m, rd_old_quantity = mo_quantity m,
             rd_new_quantity = ro_quantity c, rd_price = ro_price c, rd_priority_lost = lost\<rparr>, []))
            (replace_verdict A L K gw c))"

definition spec_command ::
  "nat \<Rightarrow> nat \<Rightarrow> nat \<Rightarrow> nat \<Rightarrow> nat \<Rightarrow> gateway \<Rightarrow> command \<Rightarrow>
     gateway_error + spec_book \<times> gateway_outcome \<times> execution_report list"
where
  "spec_command A N L K cap gw command =
     (if command_sequence command \<noteq> gw_expected_sequence gw
      then Inl (GwSequence (gw_expected_sequence gw) (command_sequence command))
      else if uint (gw_expected_sequence gw) = 2 ^ 64 - 1 then Inl (GwRiskState ArithmeticOverflow)
      else spec_dispatch A N L K cap gw command)"

lemma accept_sequence_cases:
  "accept_sequence gw s =
     (if s \<noteq> gw_expected_sequence gw then Inl (GwSequence (gw_expected_sequence gw) s)
      else if uint (gw_expected_sequence gw) = 2 ^ 64 - 1 then Inl (GwRiskState ArithmeticOverflow)
      else Inr (gw\<lparr>gw_expected_sequence := gw_expected_sequence gw + 1\<rparr>))"
proof -
  have "uint (gw_expected_sequence gw) + 1 < 2 ^ 64 \<longleftrightarrow> uint (gw_expected_sequence gw) \<noteq> 2 ^ 64 - 1"
    using uint_lt2p [of "gw_expected_sequence gw"] by auto
  then show ?thesis
    by (simp add: accept_sequence_def check_sequence_def checked_add_def and_then_def ok_or_def)
qed

text \<open>The sequence counter is read by admission only.\<close>

lemma gw_inv_sequence [simp]: "gw_inv A N L K (gw\<lparr>gw_expected_sequence := x\<rparr>) = gw_inv A N L K gw"
  by (simp add: gw_inv_def)

lemma untouched_sequence [simp]: "untouched A N (gw\<lparr>gw_expected_sequence := x\<rparr>) gw' = untouched A N gw gw'"
  "untouched A N gw (gw\<lparr>gw_expected_sequence := x\<rparr>)"
  by (simp_all add: untouched_def)

lemma spec_dispatch_sequence [simp]:
  "spec_dispatch A N L K cap (gw\<lparr>gw_expected_sequence := x\<rparr>) = spec_dispatch A N L K cap gw"
proof -
  have fields: "gw_book (gw\<lparr>gw_expected_sequence := x\<rparr>) = gw_book gw" "gw_risk (gw\<lparr>gw_expected_sequence := x\<rparr>) = gw_risk gw"
    "gw_maximum_received (gw\<lparr>gw_expected_sequence := x\<rparr>) = gw_maximum_received gw" by simp_all
  show ?thesis
    unfolding spec_dispatch_def new_order_verdict_def cancel_verdict_def replace_verdict_def fields ..
qed

definition command_effect ::
  "nat \<Rightarrow> nat \<Rightarrow> gateway \<Rightarrow> gateway \<Rightarrow> execution_report list \<Rightarrow>
     gateway_error + spec_book \<times> gateway_outcome \<times> execution_report list \<Rightarrow> (gateway_error + gateway_outcome) \<Rightarrow> bool"
where
  "command_effect A N gw gw' reports spec out =
     (case spec of
        Inl e \<Rightarrow> out = Inl e \<and> untouched A N gw gw' \<and> reports = []
      | Inr (sb, outcome, fills) \<Rightarrow> out = Inr outcome \<and> abs_book (gw_book gw') = sb \<and> reports = fills)"

lemma dispatch_ok:
  assumes inv: "gw_inv A N L K gw" and wf: "report_buffer_wf reports" "report_buffer_iter reports = []"
  shows "\<exists>gw' reports' out. dispatch A N L K gw command reports = Some (gw', reports', out) \<and>
    gw_inv A N L K gw' \<and> ob_instrument (gw_book gw') = ob_instrument (gw_book gw) \<and> report_buffer_wf reports' \<and>
    length (rb_entries reports') = length (rb_entries reports) \<and>
    gw_expected_sequence gw' = gw_expected_sequence gw \<and>
    command_effect A N gw gw' (report_buffer_iter reports')
      (spec_dispatch A N L K (report_buffer_remaining_capacity reports) gw command) out"
proof (cases command)
  case (NewOrder order)
  show ?thesis
    using process_new_order_ok [OF inv wf, of order] wf
    by (cases "new_order_verdict A N L K (report_buffer_remaining_capacity reports) gw order")
      (auto simp: NewOrder dispatch_def spec_dispatch_def command_effect_def)
next
  case (CancelOrder c)
  show ?thesis
    using process_cancel_ok [OF inv, of c reports] wf
    by (cases "cancel_verdict gw c") (auto simp: CancelOrder dispatch_def spec_dispatch_def command_effect_def)
next
  case (ReplaceOrder c)
  show ?thesis
    using process_replace_ok [OF inv, of c reports] wf
    by (cases "replace_verdict A L K gw c") (auto simp: ReplaceOrder dispatch_def spec_dispatch_def command_effect_def)
qed

definition admitted :: "gateway \<Rightarrow> command \<Rightarrow> bool" where
  "admitted gw command \<longleftrightarrow>
     command_sequence command = gw_expected_sequence gw \<and> uint (gw_expected_sequence gw) \<noteq> 2 ^ 64 - 1"

lemma clear_capacity [simp]: "report_buffer_remaining_capacity (report_buffer_clear rb) = length (rb_entries rb)"
  by (simp add: report_buffer_clear_def report_buffer_remaining_capacity_def)

lemma clear_entries [simp]: "length (rb_entries (report_buffer_clear rb)) = length (rb_entries rb)"
  by (simp add: report_buffer_clear_def)

lemma command_effect_sequence [simp]:
  "command_effect A N (gw\<lparr>gw_expected_sequence := x\<rparr>) gw' = command_effect A N gw gw'"
  unfolding command_effect_def untouched_sequence(1) ..

lemma process_command_ok:
  assumes inv: "gw_inv A N L K gw"
  shows "\<exists>gw' reports' out. process_command A N L K gw command reports = Some (gw', reports', out) \<and>
    gw_inv A N L K gw' \<and> ob_instrument (gw_book gw') = ob_instrument (gw_book gw) \<and> report_buffer_wf reports' \<and>
    length (rb_entries reports') = length (rb_entries reports) \<and>
    gw_expected_sequence gw' = gw_expected_sequence gw + (if admitted gw command then 1 else 0) \<and>
    command_effect A N gw gw' (report_buffer_iter reports')
      (spec_command A N L K (length (rb_entries reports)) gw command) out"
proof (cases "admitted gw command")
  case False
  then show ?thesis using inv
    by (auto simp: process_command_def accept_sequence_cases admitted_def spec_command_def command_effect_def)
next
  case True
  let ?gw = "gw\<lparr>gw_expected_sequence := gw_expected_sequence gw + 1\<rparr>" and ?r = "report_buffer_clear reports"
  have a: "command_sequence command = gw_expected_sequence gw" "uint (gw_expected_sequence gw) \<noteq> 2 ^ 64 - 1"
    using True by (auto simp: admitted_def)
  have p: "process_command A N L K gw command reports = dispatch A N L K ?gw command ?r"
    using a by (simp add: process_command_def accept_sequence_cases Let_def)
  show ?thesis
    using dispatch_ok [of A N L K ?gw ?r command] inv a True by (simp add: p spec_command_def)
qed

text \<open>A frame is handled as the command it encodes; a frame that does not parse changes nothing.\<close>

lemma message_sequence_command:
  assumes "parse_message frame = Inr m"
  shows "message_sequence m = command_sequence (to_command m)"
proof -
  have "m = BorrowedNewOrder frame \<or> 28 \<le> length frame \<and> (m = BorrowedCancelOrder frame \<or> m = BorrowedReplaceOrder frame)"
    using assms by (auto simp: parse_message_def Let_def CANCEL_ORDER_LEN_def REPLACE_ORDER_LEN_def split: if_splits)
  then show ?thesis
    by (auto simp: new_order_to_owned_def cancel_order_to_owned_def replace_order_to_owned_def read_is_slice)
qed

lemma process_frame_command:
  assumes "parse_message frame = Inr m"
  shows "process_frame A N L K gw frame reports = process_command A N L K gw (to_command m) reports"
  using assms message_sequence_command [OF assms]
  by (cases m; cases "accept_sequence gw (command_sequence (to_command m))")
    (simp_all add: process_frame_def process_command_def dispatch_def Let_def)

lemma process_frame_error:
  "parse_message frame = Inl e \<Longrightarrow> process_frame A N L K gw frame reports = Some (gw, report_buffer_clear reports, Inl (GwParse e))"
  by (simp add: process_frame_def)

lemma reachable_gateway_inv:
  assumes "gateway_reachable A N L K ins gw" "gateway_dims A N L K"
  shows "gw_inv A N L K gw \<and> ob_instrument (gw_book gw) = ins"
  using assms
proof (induction rule: gateway_reachable.induct)
  case (Init risk)
  then show ?case by (intro gateway_new_inv)
next
  case (Command gw reports command gw' reports' out)
  then show ?case using process_command_ok [of A N L K gw command reports] by auto
next
  case (Frame gw reports frame gw' reports' out)
  show ?case
  proof (cases "parse_message frame")
    case (Inl e)
    with Frame show ?thesis by (simp add: process_frame_error)
  next
    case (Inr m)
    with Frame show ?thesis
      using process_command_ok [of A N L K gw "to_command m" reports] by (auto simp: process_frame_command)
  qed
qed

section \<open>Properties\<close>

text \<open>A gateway with one account on an empty book, and an order for it.\<close>

definition demo_gateway :: gateway where
  "demo_gateway = gateway_new 1 1 demo_risk 7"

lemma demo_gateway_dims: "gateway_dims 1 2 1 1"
  using demo_risk_dims demo_dims by (simp add: gateway_dims_def)

lemma demo_gateway_reachable: "gateway_reachable 1 2 1 1 7 demo_gateway"
  using gateway_reachable.Init [OF demo_risk_reachable demo_risk_state(3)] by (simp add: demo_gateway_def)

lemma demo_gateway_accepts:
  "spec_command 1 2 1 1 4 demo_gateway (NewOrder demo_reserve) =
     Inr ((\<lambda>side. [])(Buy := [(10, \<lparr>mo_id = 3, mo_account = 9, mo_quantity = 10, mo_sequence = 1\<rparr>)]),
       OutNewOrder \<lparr>ms_state = Accepted, ms_filled_quantity = 0, ms_resting_quantity = 10, ms_discarded_quantity = 0, ms_report_count = 0\<rparr>, [])"
proof -
  have e: "abs_book (gw_book demo_gateway) = (\<lambda>side. [])" "ob_instrument (gw_book demo_gateway) = 7"
    "gw_maximum_received demo_gateway = None" "gw_expected_sequence demo_gateway = 1" "gw_risk demo_gateway = demo_risk"
    using book_new_inv [of 1 1 7] demo_dims by (simp_all add: demo_gateway_def gateway_new_def book_new_def dims_ok_def)
  show ?thesis using demo_reserve_verdict
    by (simp add: spec_command_def spec_dispatch_def new_order_verdict_def e demo_reserve_def spec_submit_def spec_ids_def
        count_price_def level_count_def spec_summary_def best_crosses_def insert_row_def fun_eq_iff del: One_nat_def)
qed

text \<open>
  C1. One command through the gateway is one step of its specification: on a reachable gateway it
  returns exactly the error the specification gives (sequence, then id watermark and limits, then the
  book's reasons), leaving book, reservations and accounts as they were and no reports; an accepted
  command turns the book into the specified one and returns the specified outcome and reports, in
  order. The sequence counter advances by one exactly when the command was admitted.
\<close>

theorem command_refines_spec:
  assumes "gateway_reachable A N L K ins gw" "gateway_dims A N L K"
  shows "\<exists>gw' reports' out. process_command A N L K gw command reports = Some (gw', reports', out) \<and>
    gw_expected_sequence gw' = gw_expected_sequence gw + (if admitted gw command then 1 else 0) \<and>
    (case spec_command A N L K (length (rb_entries reports)) gw command of
       Inl e \<Rightarrow> out = Inl e \<and> untouched A N gw gw' \<and> report_buffer_iter reports' = []
     | Inr (sb, outcome, fills) \<Rightarrow> out = Inr outcome \<and> abs_book (gw_book gw') = sb \<and> report_buffer_iter reports' = fills)"
  using process_command_ok [OF conjunct1 [OF reachable_gateway_inv [OF assms]], of command reports]
  unfolding command_effect_def by blast

theorem command_refines_spec_witness:
  "\<exists>gw' reports'. process_command 1 2 1 1 demo_gateway (NewOrder demo_reserve) (report_buffer_new 4) =
      Some (gw', reports', Inr (OutNewOrder \<lparr>ms_state = Accepted, ms_filled_quantity = 0, ms_resting_quantity = 10,
        ms_discarded_quantity = 0, ms_report_count = 0\<rparr>)) \<and>
    abs_book (gw_book gw') Buy = [(10, \<lparr>mo_id = 3, mo_account = 9, mo_quantity = 10, mo_sequence = 1\<rparr>)]"
proof -
  have "length (rb_entries (report_buffer_new 4)) = 4" by (simp add: report_buffer_new_def)
  then show ?thesis
    using command_refines_spec [OF demo_gateway_reachable demo_gateway_dims, of "NewOrder demo_reserve" "report_buffer_new 4"]
      demo_gateway_accepts by auto
qed

text \<open>
  C2. Risk and book never drift apart: in every reachable gateway an order is reserved exactly when it
  rests in the book, with the same account, side and remaining quantity, and the positions of all
  accounts sum to zero.
\<close>

theorem reservations_match_book:
  assumes "gateway_reachable A N L K ins gw" "gateway_dims A N L K"
  shows "(\<forall>k i s q. res_of N (gw_risk gw) k = Some (i, s, q) \<longleftrightarrow>
      (\<exists>p m. (p, m) \<in> set (abs_book (gw_book gw) s) \<and> mo_id m = k \<and> mo_account m = i \<and> mo_quantity m = q)) \<and>
    (\<Sum>x \<leftarrow> re_accounts (gw_risk gw). case x of None \<Rightarrow> 0 | Some a \<Rightarrow> sint (ac_settled_position a)) = 0"
proof -
  note I = gw_invD [OF conjunct1 [OF reachable_gateway_inv [OF assms]]]
  show ?thesis
    using I(6) net_of_accounts [OF risk_invD(1) [OF I(2)]] by (simp add: I(4) book_res_iff [OF I(3)])
qed

theorem reservations_match_book_witness:
  "(\<Sum>x \<leftarrow> re_accounts (gw_risk demo_gateway). case x of None \<Rightarrow> 0 | Some a \<Rightarrow> sint (ac_settled_position a)) = 0 \<and>
    res_of 2 (gw_risk demo_gateway) 3 = None"
proof -
  have "abs_book (gw_book demo_gateway) = (\<lambda>side. [])"
    using book_new_inv [of 1 1 7] demo_dims by (simp add: demo_gateway_def gateway_new_def dims_ok_def)
  then have none: "\<not> (\<exists>p m. (p, m) \<in> set (abs_book (gw_book demo_gateway) s) \<and> mo_id m = k \<and> mo_account m = i \<and> mo_quantity m = q)" for s k i q
    by simp
  have "res_of 2 (gw_risk demo_gateway) 3 \<noteq> Some (i, s, q)" for i s q
    using reservations_match_book [OF demo_gateway_reachable demo_gateway_dims] none by blast
  then have "res_of 2 (gw_risk demo_gateway) 3 = None" by (metis option.exhaust prod_cases3)
  with reservations_match_book [OF demo_gateway_reachable demo_gateway_dims] show ?thesis by blast
qed

text \<open>
  C3. No command makes a reachable gateway panic, and the internal failure \<open>RiskState\<close> is returned
  only when the sequence numbers are exhausted: settling fills, releasing remainders and rolling back
  never fail.
\<close>

theorem gateway_no_internal_failure:
  assumes "gateway_reachable A N L K ins gw" "gateway_dims A N L K"
  shows "\<exists>gw' reports' out. process_command A N L K gw command reports = Some (gw', reports', out) \<and>
    (\<forall>e. out = Inl (GwRiskState e) \<longrightarrow> uint (gw_expected_sequence gw) = 2 ^ 64 - 1 \<and> e = ArithmeticOverflow)"
proof -
  have verdict: "spec_dispatch A N L K cap gw command \<noteq> Inl (GwRiskState e)" for cap e
    unfolding spec_dispatch_def new_order_verdict_def cancel_verdict_def replace_verdict_def
    by (auto split: command.splits option.splits sum.splits)
  show ?thesis
    using process_command_ok [OF conjunct1 [OF reachable_gateway_inv [OF assms]], of command reports] verdict
    by (fastforce simp: command_effect_def spec_command_def split: sum.splits if_splits prod.splits)
qed

theorem gateway_no_internal_failure_witness:
  "\<exists>gw' reports' out. process_command 1 2 1 1 demo_gateway (NewOrder demo_reserve) (report_buffer_new 0) = Some (gw', reports', out) \<and>
    out \<noteq> Inl (GwRiskState ArithmeticOverflow)"
proof -
  have "uint (gw_expected_sequence demo_gateway) \<noteq> 2 ^ 64 - 1" by (simp add: demo_gateway_def gateway_new_def)
  then show ?thesis
    using gateway_no_internal_failure [OF demo_gateway_reachable demo_gateway_dims, of "NewOrder demo_reserve" "report_buffer_new 0"]
    by blast
qed

text \<open>
  The two entry points agree: processing a frame is processing the command it decodes to, and a
  frame that does not parse changes nothing but the cleared report buffer.
\<close>

theorem frame_equals_command:
  "process_frame A N L K gw frame reports =
     (case parse_message frame of
        Inl e \<Rightarrow> Some (gw, report_buffer_clear reports, Inl (GwParse e))
      | Inr m \<Rightarrow> process_command A N L K gw (to_command m) reports)"
  by (simp add: process_frame_command process_frame_error split: sum.split)

end
