(* ===== verification/Spsc.thy ===== *)
theory Spsc
  imports Prelude
begin

text \<open>
  The single-producer/single-consumer ring of \<^verbatim>\<open>crates/hft-spsc/src/lib.rs\<close>. Cursors are 64-bit
  \<open>usize\<close> words that wrap; a slot is \<open>None\<close> while uninitialised. The \<open>unsafe\<close> slot operations return
  \<open>None\<close> when their stated contract is broken (writing a slot that still holds a value, reading one
  that holds none), so that the absence of \<open>None\<close> is the safety of the unsafe blocks. Besides the calls
  as the source has them, the two threads are modelled as machines whose steps are the single
  accesses to shared memory, interleaved in any order; every access to the two atomics is an
  acquire load or a release store of a cursor with one writer.
\<close>

unbundle bit_operations_syntax

type_synonym usize = u64

section \<open>The queue and its endpoints\<close>

record 'a spsc_queue =
  sq_head :: usize
  sq_tail :: usize
  sq_slots :: "'a option list"

record spsc_producer =
  pr_tail :: usize
  pr_cached_head :: usize

record spsc_consumer =
  cn_head :: usize
  cn_cached_tail :: usize

datatype queue_config_error = CapacityMustBePowerOfTwo

definition is_power_of_two :: "nat \<Rightarrow> bool" where
  "is_power_of_two n \<longleftrightarrow> n \<in> set (map (\<lambda>k. 2 ^ k) [0..<64])"

definition spsc_try_new :: "nat \<Rightarrow> queue_config_error + 'a spsc_queue" where
  "spsc_try_new N =
     (if \<not> is_power_of_two N then Inl CapacityMustBePowerOfTwo
      else Inr \<lparr>sq_head = 0, sq_tail = 0, sq_slots = replicate N None\<rparr>)"

definition spsc_split :: "'a spsc_queue \<Rightarrow> spsc_producer \<times> spsc_consumer" where
  "spsc_split q = (\<lparr>pr_tail = sq_tail q, pr_cached_head = sq_head q\<rparr>, \<lparr>cn_head = sq_head q, cn_cached_tail = sq_tail q\<rparr>)"

section \<open>Slots\<close>

definition ring_index :: "nat \<Rightarrow> usize \<Rightarrow> nat" where
  "ring_index N position = unat (position AND (of_nat N - 1))"

definition slot_write :: "nat \<Rightarrow> 'a \<Rightarrow> 'a option list \<Rightarrow> 'a option list option" where
  "slot_write i v slots = (if i < length slots \<and> slots ! i = None then Some (slots[i := Some v]) else None)"

definition slot_read :: "nat \<Rightarrow> 'a option list \<Rightarrow> ('a \<times> 'a option list) option" where
  "slot_read i slots =
     (if i < length slots then map_option (\<lambda>v. (v, slots[i := None])) (slots ! i) else None)"

section \<open>The calls\<close>

definition push_impl ::
  "nat \<Rightarrow> 'a spsc_queue \<Rightarrow> spsc_producer \<Rightarrow> 'a \<Rightarrow> ('a spsc_queue \<times> spsc_producer \<times> ('a + unit)) option"
where
  "push_impl N q p v =
     (let p = (if pr_tail p - pr_cached_head p = of_nat N then p\<lparr>pr_cached_head := sq_head q\<rparr> else p) in
      if pr_tail p - pr_cached_head p = of_nat N then Some (q, p, Inl v)
      else
        map_option (\<lambda>slots.
          let p = p\<lparr>pr_tail := pr_tail p + 1\<rparr> in
          (q\<lparr>sq_slots := slots, sq_tail := pr_tail p\<rparr>, p, Inr ()))
          (slot_write (ring_index N (pr_tail p)) v (sq_slots q)))"

definition pop_impl ::
  "nat \<Rightarrow> 'a spsc_queue \<Rightarrow> spsc_consumer \<Rightarrow> ('a spsc_queue \<times> spsc_consumer \<times> 'a option) option"
where
  "pop_impl N q c =
     (let c = (if cn_head c = cn_cached_tail c then c\<lparr>cn_cached_tail := sq_tail q\<rparr> else c) in
      if cn_head c = cn_cached_tail c then Some (q, c, None)
      else
        map_option (\<lambda>(v, slots).
          let c = c\<lparr>cn_head := cn_head c + 1\<rparr> in
          (q\<lparr>sq_slots := slots, sq_head := cn_head c\<rparr>, c, Some v))
          (slot_read (ring_index N (cn_head c)) (sq_slots q)))"

definition has_capacity :: "nat \<Rightarrow> 'a spsc_queue \<Rightarrow> spsc_producer \<Rightarrow> spsc_producer \<times> bool" where
  "has_capacity N q p =
     (let p = (if pr_tail p - pr_cached_head p = of_nat N then p\<lparr>pr_cached_head := sq_head q\<rparr> else p) in
      (p, pr_tail p - pr_cached_head p \<noteq> of_nat N))"

text \<open>The draining loop; the distance to the tail shrinks, also across the wrap of the cursor.\<close>

lemma word_distance_less:
  fixes position :: usize
  assumes "position \<noteq> tail"
  shows "unat (tail - (position + 1)) < unat (tail - position)"
proof -
  have nz: "tail - position \<noteq> 0" using assms by simp
  have "tail - (position + 1) = (tail - position) - 1" by simp
  with nz show ?thesis by (metis unat_minus_one unat_gt_0 diff_less less_numeral_extra(1) word_neq_0_conv)
qed

function drain_loop :: "nat \<Rightarrow> usize \<Rightarrow> usize \<Rightarrow> 'a spsc_queue \<Rightarrow> 'a list \<Rightarrow> ('a spsc_queue \<times> 'a list) option" where
  "drain_loop N position tail q drained =
     (if position = tail then Some (q, drained)
      else
        let q = q\<lparr>sq_head := position + 1\<rparr> in
        case slot_read (ring_index N position) (sq_slots q) of
          None \<Rightarrow> None
        | Some (v, slots) \<Rightarrow> drain_loop N (position + 1) tail (q\<lparr>sq_slots := slots\<rparr>) (drained @ [v]))"
  by pat_completeness auto
termination
  by (relation "measure (\<lambda>(N, position, tail, q, drained). unat (tail - position))") (simp_all add: word_distance_less)

declare drain_loop.simps [simp del]

definition into_inner :: "nat \<Rightarrow> 'a spsc_queue \<Rightarrow> ('a spsc_queue \<times> 'a list) option" where
  "into_inner N q = drain_loop N (sq_head q) (sq_tail q) q []"

text \<open>Dropping the queue drops every value that was published and not taken.\<close>

function drop_loop :: "nat \<Rightarrow> usize \<Rightarrow> usize \<Rightarrow> 'a option list \<Rightarrow> 'a option list option" where
  "drop_loop N position tail slots =
     (if position = tail then Some slots
      else
        case slot_read (ring_index N position) slots of
          None \<Rightarrow> None
        | Some (_, slots) \<Rightarrow> drop_loop N (position + 1) tail slots)"
  by pat_completeness auto
termination
  by (relation "measure (\<lambda>(N, position, tail, slots). unat (tail - position))") (simp_all add: word_distance_less)

declare drop_loop.simps [simp del]

definition spsc_drop :: "nat \<Rightarrow> 'a spsc_queue \<Rightarrow> 'a option list option" where
  "spsc_drop N q = drop_loop N (sq_head q) (sq_tail q) (sq_slots q)"

section \<open>A queue with both endpoints\<close>

text \<open>The endpoints \<open>split\<close> hands out, kept beside their queue for clients that call them in turn.\<close>

record 'a channel =
  ch_queue :: "'a spsc_queue"
  ch_producer :: spsc_producer
  ch_consumer :: spsc_consumer

definition channel_of :: "'a spsc_queue \<Rightarrow> 'a channel" where
  "channel_of q = (let (p, c) = spsc_split q in \<lparr>ch_queue = q, ch_producer = p, ch_consumer = c\<rparr>)"

definition try_push :: "nat \<Rightarrow> 'a channel \<Rightarrow> 'a \<Rightarrow> ('a channel \<times> ('a + unit)) option" where
  "try_push N ch v =
     map_option (\<lambda>(q, p, r). (ch\<lparr>ch_producer := p, ch_queue := q\<rparr>, r)) (push_impl N (ch_queue ch) (ch_producer ch) v)"

definition try_pop :: "nat \<Rightarrow> 'a channel \<Rightarrow> ('a channel \<times> 'a option) option" where
  "try_pop N ch =
     map_option (\<lambda>(q, c, r). (ch\<lparr>ch_consumer := c, ch_queue := q\<rparr>, r)) (pop_impl N (ch_queue ch) (ch_consumer ch))"

definition channel_has_capacity :: "nat \<Rightarrow> 'a channel \<Rightarrow> 'a channel \<times> bool" where
  "channel_has_capacity N ch =
     (let (p, r) = has_capacity N (ch_queue ch) (ch_producer ch) in (ch\<lparr>ch_producer := p\<rparr>, r))"

section \<open>The two threads, access by access\<close>

datatype 'a push_pc = PIdle | PLoad 'a | PWrite 'a | PPublish

datatype 'a pop_pc = CIdle | CLoad | CRead | CReclaim 'a

record 'a spsc_system =
  sy_channel :: "'a channel"
  sy_push :: "'a push_pc"
  sy_pop :: "'a pop_pc"
  sy_pushed :: "'a list"
  sy_popped :: "'a list"

text \<open>
  The producer: compare with the cached head, reload it when it says full, write the slot, publish
  the tail. \<open>sy_pushed\<close> and \<open>sy_popped\<close> record what went in and came out.
\<close>

definition producer_step :: "nat \<Rightarrow> 'a \<Rightarrow> 'a spsc_system \<Rightarrow> 'a spsc_system option" where
  "producer_step N v sys =
     (let ch = sy_channel sys; q = ch_queue ch; p = ch_producer ch in
      case sy_push sys of
        PIdle \<Rightarrow> Some (sys\<lparr>sy_push := (if pr_tail p - pr_cached_head p = of_nat N then PLoad v else PWrite v)\<rparr>)
      | PLoad w \<Rightarrow>
          let p = p\<lparr>pr_cached_head := sq_head q\<rparr> in
          Some (sys\<lparr>sy_channel := ch\<lparr>ch_producer := p\<rparr>,
                    sy_push := (if pr_tail p - pr_cached_head p = of_nat N then PIdle else PWrite w)\<rparr>)
      | PWrite w \<Rightarrow>
          map_option (\<lambda>slots. sys\<lparr>sy_channel := ch\<lparr>ch_queue := q\<lparr>sq_slots := slots\<rparr>,
                                               ch_producer := p\<lparr>pr_tail := pr_tail p + 1\<rparr>\<rparr>,
                                 sy_push := PPublish, sy_pushed := sy_pushed sys @ [w]\<rparr>)
            (slot_write (ring_index N (pr_tail p)) w (sq_slots q))
      | PPublish \<Rightarrow> Some (sys\<lparr>sy_channel := ch\<lparr>ch_queue := q\<lparr>sq_tail := pr_tail p\<rparr>\<rparr>, sy_push := PIdle\<rparr>))"

definition consumer_step :: "nat \<Rightarrow> 'a spsc_system \<Rightarrow> 'a spsc_system option" where
  "consumer_step N sys =
     (let ch = sy_channel sys; q = ch_queue ch; c = ch_consumer ch in
      case sy_pop sys of
        CIdle \<Rightarrow> Some (sys\<lparr>sy_pop := (if cn_head c = cn_cached_tail c then CLoad else CRead)\<rparr>)
      | CLoad \<Rightarrow>
          let c = c\<lparr>cn_cached_tail := sq_tail q\<rparr> in
          Some (sys\<lparr>sy_channel := ch\<lparr>ch_consumer := c\<rparr>,
                    sy_pop := (if cn_head c = cn_cached_tail c then CIdle else CRead)\<rparr>)
      | CRead \<Rightarrow>
          map_option (\<lambda>(v, slots). sys\<lparr>sy_channel := ch\<lparr>ch_queue := q\<lparr>sq_slots := slots\<rparr>,
                                               ch_consumer := c\<lparr>cn_head := cn_head c + 1\<rparr>\<rparr>,
                                      sy_pop := CReclaim v, sy_popped := sy_popped sys @ [v]\<rparr>)
            (slot_read (ring_index N (cn_head c)) (sq_slots q))
      | CReclaim v \<Rightarrow> Some (sys\<lparr>sy_channel := ch\<lparr>ch_queue := q\<lparr>sq_head := cn_head c\<rparr>\<rparr>, sy_pop := CIdle\<rparr>))"

definition system_of :: "'a spsc_queue \<Rightarrow> 'a spsc_system" where
  "system_of q = \<lparr>sy_channel = channel_of q, sy_push = PIdle, sy_pop = CIdle, sy_pushed = [], sy_popped = []\<rparr>"

text \<open>Any interleaving of the two threads, the producer offering any values.\<close>

inductive spsc_reachable :: "nat \<Rightarrow> 'a spsc_system \<Rightarrow> bool" for N where
  Start: "spsc_try_new N = Inr q \<Longrightarrow> spsc_reachable N (system_of q)"
| Produce: "\<lbrakk>spsc_reachable N sys; producer_step N v sys = Some sys'\<rbrakk> \<Longrightarrow> spsc_reachable N sys'"
| Consume: "\<lbrakk>spsc_reachable N sys; consumer_step N sys = Some sys'\<rbrakk> \<Longrightarrow> spsc_reachable N sys'"

section \<open>The ring\<close>

definition ring :: "nat \<Rightarrow> nat \<Rightarrow> 'a option list \<Rightarrow> 'a list \<Rightarrow> bool" where
  "ring N H slots vs \<longleftrightarrow> length slots = N \<and> length vs \<le> N \<and>
     (\<forall>j < N. slots ! ((H + j) mod N) = (if j < length vs then Some (vs ! j) else None))"

lemma mod_shift_inj:
  assumes "(H + i) mod N = (H + j) mod N" "i < N" "j < N"
  shows "i = (j :: nat)"
proof -
  have "int N dvd int (H + i) - int (H + j)"
    using assms(1) by (metis mod_eq_dvd_iff zmod_int)
  then have "int N dvd int i - int j" by simp
  then show ?thesis using assms(2,3) dvd_imp_le_int [of "int i - int j" "int N"] by fastforce
qed

lemma ring_write:
  assumes r: "ring N H slots vs" and room: "length vs < N"
  shows "\<exists>slots'. slot_write ((H + length vs) mod N) v slots = Some slots' \<and> ring N H slots' (vs @ [v])"
proof -
  let ?i = "(H + length vs) mod N"
  have i: "?i < length slots" "slots ! ?i = None" using r room by (auto simp: ring_def)
  have "slots[?i := Some v] ! ((H + j) mod N) = (if j < length (vs @ [v]) then Some ((vs @ [v]) ! j) else None)" if "j < N" for j
    using r room that i(1) mod_shift_inj [of H j N "length vs"]
    by (cases "j = length vs") (auto simp: ring_def nth_append nth_list_update)
  with i r room show ?thesis by (auto simp: slot_write_def ring_def)
qed

lemma ring_read:
  assumes r: "ring N H slots (v # vs)"
  shows "\<exists>slots'. slot_read (H mod N) slots = Some (v, slots') \<and> ring N (Suc H) slots' vs"
proof -
  have N: "0 < N" "length vs < N" "length slots = N" using r by (auto simp: ring_def)
  have at: "slots ! ((H + j) mod N) = (if j < Suc (length vs) then Some ((v # vs) ! j) else None)" if "j < N" for j
    using r that by (simp add: ring_def)
  have i: "H mod N < length slots" "slots ! (H mod N) = Some v" using N at [of 0] by auto
  have "slots[H mod N := None] ! ((Suc H + j) mod N) = (if j < length vs then Some (vs ! j) else None)" if j: "j < N" for j
  proof (cases "Suc j = N")
    case True
    then have "(Suc H + j) mod N = H mod N" by (metis add_Suc_shift add_Suc mod_add_self2)
    then show ?thesis using True N i(1) by simp
  next
    case False
    then have "Suc j < N" "(Suc H + j) mod N = (H + Suc j) mod N" using j by simp_all
    moreover have "(H + Suc j) mod N \<noteq> H mod N" using mod_shift_inj [of H "Suc j" N 0] \<open>Suc j < N\<close> N by auto
    ultimately show ?thesis using at [of "Suc j"] by simp
  qed
  then show ?thesis using i N by (auto simp: slot_read_def ring_def)
qed

lemma ring_index_mod:
  assumes "is_power_of_two N"
  shows "ring_index N (of_nat i) = i mod N" "0 < N" "N < 2 ^ 64"
proof -
  obtain k where k: "N = 2 ^ k" "k < 64" using assms by (auto simp: is_power_of_two_def)
  have m: "(of_nat N - 1 :: usize) = mask k" by (simp add: k mask_eq_exp_minus_1)
  have "ring_index N (of_nat i) = unat (take_bit k (of_nat i :: usize))"
    by (simp add: ring_index_def m take_bit_eq_mask)
  also have "\<dots> = i mod N" using k by (simp add: unsigned_take_bit_eq unsigned_of_nat take_bit_eq_mod flip: take_bit_eq_mod)
  finally show "ring_index N (of_nat i) = i mod N" .
  show "0 < N" by (simp add: k)
  show "N < 2 ^ 64" unfolding k(1) by (rule power_strict_increasing) (use k(2) in simp_all)
qed

lemma of_nat_usize_inj:
  assumes "x < 2 ^ 64" "y < 2 ^ 64"
  shows "(of_nat x :: usize) = of_nat y \<longleftrightarrow> x = y"
  using take_bit_nat_eq_self [OF assms(1)] take_bit_nat_eq_self [OF assms(2)] by (simp add: word_of_nat_eq_iff)

lemma cursor_eq:
  assumes "b \<le> a" "a \<le> b + n" "n < 2 ^ 64"
  shows "(of_nat a :: usize) = of_nat b \<longleftrightarrow> a = b"
    "(of_nat a - of_nat b :: usize) = of_nat n \<longleftrightarrow> a = b + n"
proof -
  have d: "(of_nat a :: usize) - of_nat b = of_nat (a - b)" using assms(1) by (simp add: of_nat_diff)
  have "(of_nat a :: usize) = of_nat b \<longleftrightarrow> (of_nat (a - b) :: usize) = of_nat 0" unfolding d [symmetric] by simp
  then show "(of_nat a :: usize) = of_nat b \<longleftrightarrow> a = b"
    using of_nat_usize_inj [of "a - b" 0] assms by simp
  show "(of_nat a - of_nat b :: usize) = of_nat n \<longleftrightarrow> a = b + n"
    unfolding d using of_nat_usize_inj [of "a - b" n] assms by auto
qed

section \<open>The invariant of the interleaving\<close>

fun push_phase :: "nat \<Rightarrow> nat \<Rightarrow> nat \<Rightarrow> nat \<Rightarrow> 'a push_pc \<Rightarrow> bool" where
  "push_phase N CH ST T PIdle \<longleftrightarrow> T = ST"
| "push_phase N CH ST T (PLoad v) \<longleftrightarrow> T = ST"
| "push_phase N CH ST T (PWrite v) \<longleftrightarrow> T = ST \<and> T < CH + N"
| "push_phase N CH ST T PPublish \<longleftrightarrow> T = Suc ST"

fun pop_phase :: "nat \<Rightarrow> nat \<Rightarrow> nat \<Rightarrow> 'a pop_pc \<Rightarrow> bool" where
  "pop_phase SH H CT CIdle \<longleftrightarrow> H = SH"
| "pop_phase SH H CT CLoad \<longleftrightarrow> H = SH"
| "pop_phase SH H CT CRead \<longleftrightarrow> H = SH \<and> H < CT"
| "pop_phase SH H CT (CReclaim v) \<longleftrightarrow> H = Suc SH"

text \<open>
  The cursors count all values ever written (\<open>T\<close>), published (\<open>ST\<close>), read (\<open>H\<close>) and reclaimed (\<open>SH\<close>);
  the words hold them modulo \<open>2 ^ 64\<close>. Both cached cursors lag behind.
\<close>

definition cursors :: "nat \<Rightarrow> nat \<Rightarrow> nat \<Rightarrow> nat \<Rightarrow> nat \<Rightarrow> nat \<Rightarrow> nat \<Rightarrow> 'a channel \<Rightarrow> 'a list \<Rightarrow> bool" where
  "cursors N CH SH H CT ST T ch ws \<longleftrightarrow>
     is_power_of_two N \<and> CH \<le> SH \<and> SH \<le> H \<and> H \<le> CT \<and> CT \<le> ST \<and> ST \<le> T \<and> T \<le> CH + N \<and>
     sq_head (ch_queue ch) = of_nat SH \<and> sq_tail (ch_queue ch) = of_nat ST \<and>
     pr_tail (ch_producer ch) = of_nat T \<and> pr_cached_head (ch_producer ch) = of_nat CH \<and>
     cn_head (ch_consumer ch) = of_nat H \<and> cn_cached_tail (ch_consumer ch) = of_nat CT \<and>
     length ws = T - H \<and> ring N H (sq_slots (ch_queue ch)) ws"

definition spsc_inv :: "nat \<Rightarrow> 'a spsc_system \<Rightarrow> bool" where
  "spsc_inv N sys \<longleftrightarrow> (\<exists>CH SH H CT ST T ws.
     cursors N CH SH H CT ST T (sy_channel sys) ws \<and> push_phase N CH ST T (sy_push sys) \<and>
     pop_phase SH H CT (sy_pop sys) \<and> sy_pushed sys = sy_popped sys @ ws)"

lemma cursors_checks:
  assumes "cursors N CH SH H CT ST T ch ws"
  shows "pr_tail (ch_producer ch) - pr_cached_head (ch_producer ch) = of_nat N \<longleftrightarrow> T = CH + N"
    "pr_tail (ch_producer ch) - sq_head (ch_queue ch) = of_nat N \<longleftrightarrow> T = SH + N"
    "cn_head (ch_consumer ch) = cn_cached_tail (ch_consumer ch) \<longleftrightarrow> H = CT"
    "cn_head (ch_consumer ch) = sq_tail (ch_queue ch) \<longleftrightarrow> H = ST"
    "ring_index N (pr_tail (ch_producer ch)) = (H + length ws) mod N"
    "ring_index N (cn_head (ch_consumer ch)) = H mod N"
proof -
  note c = assms [unfolded cursors_def]
  have N: "N < 2 ^ 64" "\<And>i. ring_index N (of_nat i) = i mod N" using c ring_index_mod by blast+
  have T: "T = H + length ws" using c by simp
  show "pr_tail (ch_producer ch) - pr_cached_head (ch_producer ch) = of_nat N \<longleftrightarrow> T = CH + N"
    using c N(1) cursor_eq(2) [of CH T N] by simp
  show "pr_tail (ch_producer ch) - sq_head (ch_queue ch) = of_nat N \<longleftrightarrow> T = SH + N"
    using c N(1) cursor_eq(2) [of SH T N] by simp
  show "cn_head (ch_consumer ch) = cn_cached_tail (ch_consumer ch) \<longleftrightarrow> H = CT"
    using c N(1) cursor_eq(1) [of H CT N] by simp metis
  show "cn_head (ch_consumer ch) = sq_tail (ch_queue ch) \<longleftrightarrow> H = ST"
    using c N(1) cursor_eq(1) [of H ST N] by simp metis
  show "ring_index N (pr_tail (ch_producer ch)) = (H + length ws) mod N" using c N(2) [of T] T by simp
  show "ring_index N (cn_head (ch_consumer ch)) = H mod N" using c N(2) [of H] by simp
qed

lemma spsc_start: "spsc_try_new N = Inr q \<Longrightarrow> cursors N 0 0 0 0 0 0 (channel_of q) []"
  by (auto simp: spsc_try_new_def cursors_def channel_of_def spsc_split_def ring_def split: if_splits)

lemma cursors_write:
  assumes c: "cursors N CH SH H CT ST T ch ws" and room: "T < CH + N"
  shows "\<exists>slots. slot_write (ring_index N (pr_tail (ch_producer ch))) v (sq_slots (ch_queue ch)) = Some slots \<and>
    cursors N CH SH H CT ST (Suc T) (ch\<lparr>ch_queue := (ch_queue ch)\<lparr>sq_slots := slots\<rparr>,
      ch_producer := (ch_producer ch)\<lparr>pr_tail := pr_tail (ch_producer ch) + 1\<rparr>\<rparr>) (ws @ [v])"
proof -
  note d = c [unfolded cursors_def]
  have "length ws < N" using d room by linarith
  then show ?thesis
    using ring_write [of N H "sq_slots (ch_queue ch)" ws v] d room
    unfolding cursors_checks(5) [OF c] by (auto simp: cursors_def)
qed

lemma cursors_read:
  assumes c: "cursors N CH SH H CT ST T ch ws" and some: "H < CT"
  shows "\<exists>v ws' slots. ws = v # ws' \<and> slot_read (ring_index N (cn_head (ch_consumer ch))) (sq_slots (ch_queue ch)) = Some (v, slots) \<and>
    cursors N CH SH (Suc H) CT ST T (ch\<lparr>ch_queue := (ch_queue ch)\<lparr>sq_slots := slots\<rparr>,
      ch_consumer := (ch_consumer ch)\<lparr>cn_head := cn_head (ch_consumer ch) + 1\<rparr>\<rparr>) ws'"
proof -
  note d = c [unfolded cursors_def]
  have "0 < length ws" using d some by linarith
  then obtain v ws' where ws: "ws = v # ws'" by (cases ws) auto
  then show ?thesis
    using ring_read [of N H "sq_slots (ch_queue ch)" v ws'] d some
    unfolding cursors_checks(6) [OF c] by (auto simp: cursors_def)
qed

lemma cursors_publish:
  assumes "cursors N CH SH H CT ST T ch ws"
  shows "cursors N SH SH H CT ST T (ch\<lparr>ch_producer := (ch_producer ch)\<lparr>pr_cached_head := sq_head (ch_queue ch)\<rparr>\<rparr>) ws"
    "cursors N CH SH H ST ST T (ch\<lparr>ch_consumer := (ch_consumer ch)\<lparr>cn_cached_tail := sq_tail (ch_queue ch)\<rparr>\<rparr>) ws"
    "cursors N CH SH H CT T T (ch\<lparr>ch_queue := (ch_queue ch)\<lparr>sq_tail := pr_tail (ch_producer ch)\<rparr>\<rparr>) ws"
    "cursors N CH H H CT ST T (ch\<lparr>ch_queue := (ch_queue ch)\<lparr>sq_head := cn_head (ch_consumer ch)\<rparr>\<rparr>) ws"
  using assms by (auto simp: cursors_def)

lemma spsc_invI:
  "\<lbrakk>cursors N CH SH H CT ST T (sy_channel sys) ws; push_phase N CH ST T (sy_push sys); pop_phase SH H CT (sy_pop sys);
    sy_pushed sys = sy_popped sys @ ws\<rbrakk> \<Longrightarrow> spsc_inv N sys"
  unfolding spsc_inv_def by blast

lemma producer_step_inv:
  assumes "spsc_inv N sys"
  shows "\<exists>sys'. producer_step N v sys = Some sys' \<and> spsc_inv N sys'"
proof -
  obtain CH SH H CT ST T ws where c: "cursors N CH SH H CT ST T (sy_channel sys) ws" "push_phase N CH ST T (sy_push sys)"
      "pop_phase SH H CT (sy_pop sys)" "sy_pushed sys = sy_popped sys @ ws"
    using assms by (auto simp: spsc_inv_def)
  note chk = cursors_checks [OF c(1)] and le = c(1) [unfolded cursors_def]
  show ?thesis
  proof (cases "sy_push sys")
    case PIdle
    then have "push_phase N CH ST T (if T = CH + N then PLoad v else PWrite v)" using c(2) le by auto
    then have "spsc_inv N (sys\<lparr>sy_push := (if T = CH + N then PLoad v else PWrite v)\<rparr>)"
      by (intro spsc_invI [of N CH SH H CT ST T _ ws]) (use c in simp_all)
    then show ?thesis using PIdle by (simp add: producer_step_def Let_def chk)
  next
    case (PLoad w)
    then have "push_phase N SH ST T (if T = SH + N then PIdle else PWrite w)" using c(2) le by auto
    then have "spsc_inv N (sys\<lparr>sy_channel := (sy_channel sys)\<lparr>ch_producer := (ch_producer (sy_channel sys))
        \<lparr>pr_cached_head := sq_head (ch_queue (sy_channel sys))\<rparr>\<rparr>, sy_push := (if T = SH + N then PIdle else PWrite w)\<rparr>)"
      by (intro spsc_invI [of N SH SH H CT ST T _ ws]) (use c cursors_publish(1) [OF c(1)] in simp_all)
    then show ?thesis using PLoad by (simp add: producer_step_def Let_def chk)
  next
    case (PWrite w)
    then obtain slots where "slot_write (ring_index N (pr_tail (ch_producer (sy_channel sys)))) w (sq_slots (ch_queue (sy_channel sys))) = Some slots"
        "cursors N CH SH H CT ST (Suc T) ((sy_channel sys)\<lparr>ch_queue := (ch_queue (sy_channel sys))\<lparr>sq_slots := slots\<rparr>,
          ch_producer := (ch_producer (sy_channel sys))\<lparr>pr_tail := pr_tail (ch_producer (sy_channel sys)) + 1\<rparr>\<rparr>) (ws @ [w])"
      using cursors_write [OF c(1), of w] c(2) by auto
    then show ?thesis using PWrite c(2-4)
      by (auto simp: producer_step_def Let_def spsc_inv_def intro!: exI)
  next
    case PPublish
    then show ?thesis using c cursors_publish(3) [OF c(1)]
      by (auto simp: producer_step_def Let_def spsc_inv_def intro!: exI)
  qed
qed

lemma consumer_step_inv:
  assumes "spsc_inv N sys"
  shows "\<exists>sys'. consumer_step N sys = Some sys' \<and> spsc_inv N sys'"
proof -
  obtain CH SH H CT ST T ws where c: "cursors N CH SH H CT ST T (sy_channel sys) ws" "push_phase N CH ST T (sy_push sys)"
      "pop_phase SH H CT (sy_pop sys)" "sy_pushed sys = sy_popped sys @ ws"
    using assms by (auto simp: spsc_inv_def)
  note chk = cursors_checks [OF c(1)] and le = c(1) [unfolded cursors_def]
  show ?thesis
  proof (cases "sy_pop sys")
    case CIdle
    then have "pop_phase SH H CT (if H = CT then CLoad else CRead)" using c(3) le by auto
    then have "spsc_inv N (sys\<lparr>sy_pop := (if H = CT then CLoad else CRead)\<rparr>)"
      by (intro spsc_invI [of N CH SH H CT ST T _ ws]) (use c in simp_all)
    then show ?thesis using CIdle by (simp add: consumer_step_def Let_def chk)
  next
    case CLoad
    then have "pop_phase SH H ST (if H = ST then CIdle else CRead)" using c(3) le by auto
    then have "spsc_inv N (sys\<lparr>sy_channel := (sy_channel sys)\<lparr>ch_consumer := (ch_consumer (sy_channel sys))
        \<lparr>cn_cached_tail := sq_tail (ch_queue (sy_channel sys))\<rparr>\<rparr>, sy_pop := (if H = ST then CIdle else CRead)\<rparr>)"
      by (intro spsc_invI [of N CH SH H ST ST T _ ws]) (use c cursors_publish(2) [OF c(1)] in simp_all)
    then show ?thesis using CLoad by (simp add: consumer_step_def Let_def chk)
  next
    case CRead
    then obtain v ws' slots where "ws = v # ws'"
        "slot_read (ring_index N (cn_head (ch_consumer (sy_channel sys)))) (sq_slots (ch_queue (sy_channel sys))) = Some (v, slots)"
        "cursors N CH SH (Suc H) CT ST T ((sy_channel sys)\<lparr>ch_queue := (ch_queue (sy_channel sys))\<lparr>sq_slots := slots\<rparr>,
          ch_consumer := (ch_consumer (sy_channel sys))\<lparr>cn_head := cn_head (ch_consumer (sy_channel sys)) + 1\<rparr>\<rparr>) ws'"
      using cursors_read [OF c(1)] c(3) by auto
    then show ?thesis using CRead c(2-4)
      by (auto simp: consumer_step_def Let_def spsc_inv_def intro!: exI)
  next
    case (CReclaim v)
    then show ?thesis using c cursors_publish(4) [OF c(1)]
      by (auto simp: consumer_step_def Let_def spsc_inv_def intro!: exI)
  qed
qed

lemma spsc_reachable_inv: "spsc_reachable N sys \<Longrightarrow> spsc_inv N sys"
proof (induction rule: spsc_reachable.induct)
  case (Start q)
  then show ?case using spsc_start by (intro spsc_invI [of N 0 0 0 0 0 0 _ "[]"]) (simp_all add: system_of_def)
next
  case (Produce sys v sys')
  then show ?case using producer_step_inv [of N sys v] by auto
next
  case (Consume sys sys')
  then show ?case using consumer_step_inv [of N sys] by auto
qed

text \<open>A call of the source is the run of its thread's steps with no step of the other thread between.\<close>

fun producer_run :: "nat \<Rightarrow> nat \<Rightarrow> 'a \<Rightarrow> 'a spsc_system \<Rightarrow> 'a spsc_system option" where
  "producer_run 0 N v sys = Some sys"
| "producer_run (Suc n) N v sys =
     Option.bind (producer_step N v sys) (\<lambda>sys. if sy_push sys = PIdle then Some sys else producer_run n N v sys)"

fun consumer_run :: "nat \<Rightarrow> nat \<Rightarrow> 'a spsc_system \<Rightarrow> 'a spsc_system option" where
  "consumer_run 0 N sys = Some sys"
| "consumer_run (Suc n) N sys =
     Option.bind (consumer_step N sys) (\<lambda>sys. if sy_pop sys = CIdle then Some sys else consumer_run n N sys)"

lemma push_is_run:
  assumes "sy_push sys = PIdle"
  shows "producer_run 4 N v sys = map_option (\<lambda>(ch, r). sys\<lparr>sy_channel := ch,
      sy_pushed := (case r of Inl _ \<Rightarrow> sy_pushed sys | Inr _ \<Rightarrow> sy_pushed sys @ [v])\<rparr>) (try_push N (sy_channel sys) v)"
proof -
  let ?ch = "sy_channel sys"
  have four: "(4 :: nat) = Suc (Suc (Suc (Suc 0)))" by simp
  show ?thesis
  proof (cases "pr_tail (ch_producer ?ch) - pr_cached_head (ch_producer ?ch) = of_nat N")
    case True
    then show ?thesis using assms
      by (cases "pr_tail (ch_producer ?ch) - sq_head (ch_queue ?ch) = of_nat N";
          cases "slot_write (ring_index N (pr_tail (ch_producer ?ch))) v (sq_slots (ch_queue ?ch))")
        (simp_all add: four producer_step_def try_push_def push_impl_def Let_def)
  next
    case False
    then show ?thesis using assms
      by (cases "slot_write (ring_index N (pr_tail (ch_producer ?ch))) v (sq_slots (ch_queue ?ch))")
        (simp_all add: four producer_step_def try_push_def push_impl_def Let_def)
  qed
qed

lemma pop_is_run:
  assumes "sy_pop sys = CIdle"
  shows "consumer_run 4 N sys = map_option (\<lambda>(ch, r). sys\<lparr>sy_channel := ch,
      sy_popped := (case r of None \<Rightarrow> sy_popped sys | Some v \<Rightarrow> sy_popped sys @ [v])\<rparr>) (try_pop N (sy_channel sys))"
proof -
  let ?ch = "sy_channel sys"
  have four: "(4 :: nat) = Suc (Suc (Suc (Suc 0)))" by simp
  show ?thesis
  proof (cases "cn_head (ch_consumer ?ch) = cn_cached_tail (ch_consumer ?ch)")
    case True
    then show ?thesis using assms
      by (cases "cn_cached_tail (ch_consumer ?ch) = sq_tail (ch_queue ?ch)";
          cases "slot_read (ring_index N (cn_head (ch_consumer ?ch))) (sq_slots (ch_queue ?ch))")
        (auto simp: four consumer_step_def try_pop_def pop_impl_def Let_def)
  next
    case False
    then show ?thesis using assms
      by (cases "slot_read (ring_index N (cn_head (ch_consumer ?ch))) (sq_slots (ch_queue ?ch))")
        (auto simp: four consumer_step_def try_pop_def pop_impl_def Let_def)
  qed
qed

section \<open>The interface of a bounded queue\<close>

locale bounded_fifo =
  fixes ok :: "'s \<Rightarrow> 'a list \<Rightarrow> bool"
    and cap :: nat
    and push :: "'s \<Rightarrow> 'a \<Rightarrow> ('s \<times> ('a + unit)) option"
    and pop :: "'s \<Rightarrow> ('s \<times> 'a option) option"
    and room :: "'s \<Rightarrow> 's \<times> bool"
  assumes push_law: "ok s xs \<Longrightarrow> \<exists>s'. (if length xs = cap then push s x = Some (s', Inl x) \<and> ok s' xs
      else push s x = Some (s', Inr ()) \<and> ok s' (xs @ [x]))"
    and pop_law: "ok s xs \<Longrightarrow> \<exists>s'. (case xs of [] \<Rightarrow> pop s = Some (s', None) \<and> ok s' []
      | x # xs' \<Rightarrow> pop s = Some (s', Some x) \<and> ok s' xs')"
    and room_law: "ok s xs \<Longrightarrow> snd (room s) \<longleftrightarrow> length xs < cap"
    and room_keeps: "ok s xs \<Longrightarrow> ok (fst (room s)) xs"
    and bounded: "ok s xs \<Longrightarrow> length xs \<le> cap"
begin

text \<open>Capacity once observed stays: the next push is accepted.\<close>

lemma room_then_push:
  assumes "ok s xs" "room s = (s1, True)"
  shows "\<exists>s2. push s1 x = Some (s2, Inr ()) \<and> ok s2 (xs @ [x])"
  using push_law [OF room_keeps [OF assms(1)], of x] room_law [OF assms(1)] assms(2) by auto

lemma room_refused:
  assumes "ok s xs" "room s = (s1, False)"
  shows "length xs = cap" "ok s1 xs"
  using room_law [OF assms(1)] bounded [OF assms(1)] room_keeps [OF assms(1)] assms(2) by auto

end

definition channel_ok :: "nat \<Rightarrow> 'a channel \<Rightarrow> 'a list \<Rightarrow> bool" where
  "channel_ok N ch vs \<longleftrightarrow> (\<exists>CH H CT T. cursors N CH H H CT T T ch vs)"

lemma channel_okI: "cursors N CH H H CT T T ch vs \<Longrightarrow> channel_ok N ch vs"
  unfolding channel_ok_def by blast

lemma try_push_ok:
  assumes "channel_ok N ch vs"
  shows "\<exists>ch'. (if length vs = N then try_push N ch v = Some (ch', Inl v) \<and> channel_ok N ch' vs
    else try_push N ch v = Some (ch', Inr ()) \<and> channel_ok N ch' (vs @ [v]))"
proof -
  obtain CH H CT T where c: "cursors N CH H H CT T T ch vs" using assms by (auto simp: channel_ok_def)
  note d = c [unfolded cursors_def]
  let ?ch1 = "if T = CH + N then ch\<lparr>ch_producer := (ch_producer ch)\<lparr>pr_cached_head := sq_head (ch_queue ch)\<rparr>\<rparr> else ch"
  let ?CH = "if T = CH + N then H else CH"
  have c1: "cursors N ?CH H H CT T T ?ch1 vs" using cursors_publish(1) [OF c] c by auto
  have full: "T = ?CH + N \<longleftrightarrow> length vs = N" using d by auto
  have p: "push_impl N (ch_queue ch) (ch_producer ch) v =
      (if T = ?CH + N then Some (ch_queue ch, ch_producer ?ch1, Inl v)
       else map_option (\<lambda>slots. ((ch_queue ch)\<lparr>sq_slots := slots, sq_tail := pr_tail (ch_producer ch) + 1\<rparr>,
           (ch_producer ?ch1)\<lparr>pr_tail := pr_tail (ch_producer ch) + 1\<rparr>, Inr ()))
         (slot_write (ring_index N (pr_tail (ch_producer ch))) v (sq_slots (ch_queue ch))))"
    using cursors_checks(1,2) [OF c] by (auto simp: push_impl_def Let_def)
  show ?thesis
  proof (cases "length vs = N")
    case True
    then have "try_push N ch v = Some (?ch1, Inl v)" using p full by (auto simp: try_push_def)
    then show ?thesis using True channel_okI [OF c1] by auto
  next
    case False
    have ne: "T \<noteq> ?CH + N" using full False by blast
    have lt: "T < ?CH + N" using ne c1 unfolding cursors_def by linarith
    obtain slots where w: "slot_write (ring_index N (pr_tail (ch_producer ch))) v (sq_slots (ch_queue ch)) = Some slots"
        "cursors N ?CH H H CT T (Suc T) (?ch1\<lparr>ch_queue := (ch_queue ch)\<lparr>sq_slots := slots\<rparr>,
          ch_producer := (ch_producer ?ch1)\<lparr>pr_tail := pr_tail (ch_producer ch) + 1\<rparr>\<rparr>) (vs @ [v])"
      using cursors_write [OF c1 lt, of v] by (auto split: if_splits)
    define ch' where "ch' = ch\<lparr>ch_producer := (ch_producer ?ch1)\<lparr>pr_tail := pr_tail (ch_producer ch) + 1\<rparr>,
      ch_queue := (ch_queue ch)\<lparr>sq_slots := slots, sq_tail := pr_tail (ch_producer ch) + 1\<rparr>\<rparr>"
    have "try_push N ch v = Some (ch', Inr ())" using p w(1) ne by (simp add: try_push_def ch'_def)
    moreover have "channel_ok N ch' (vs @ [v])"
      using channel_okI [OF cursors_publish(3) [OF w(2)]] unfolding ch'_def by (auto split: if_splits)
    ultimately show ?thesis using False by auto
  qed
qed

lemma try_pop_ok:
  assumes "channel_ok N ch vs"
  shows "\<exists>ch'. (case vs of [] \<Rightarrow> try_pop N ch = Some (ch', None) \<and> channel_ok N ch' []
    | v # vs' \<Rightarrow> try_pop N ch = Some (ch', Some v) \<and> channel_ok N ch' vs')"
proof -
  obtain CH H CT T where c: "cursors N CH H H CT T T ch vs" using assms by (auto simp: channel_ok_def)
  note d = c [unfolded cursors_def]
  let ?ch1 = "if H = CT then ch\<lparr>ch_consumer := (ch_consumer ch)\<lparr>cn_cached_tail := sq_tail (ch_queue ch)\<rparr>\<rparr> else ch"
  let ?CT = "if H = CT then T else CT"
  have c1: "cursors N CH H H ?CT T T ?ch1 vs" using cursors_publish(2) [OF c] c by auto
  have p: "pop_impl N (ch_queue ch) (ch_consumer ch) =
      (if H = ?CT then Some (ch_queue ch, ch_consumer ?ch1, None)
       else map_option (\<lambda>(v, slots). ((ch_queue ch)\<lparr>sq_slots := slots, sq_head := cn_head (ch_consumer ch) + 1\<rparr>,
           (ch_consumer ?ch1)\<lparr>cn_head := cn_head (ch_consumer ch) + 1\<rparr>, Some v))
         (slot_read (ring_index N (cn_head (ch_consumer ch))) (sq_slots (ch_queue ch))))"
    using cursors_checks(3,4) [OF c] by (auto simp: pop_impl_def Let_def)
  show ?thesis
  proof (cases "H = ?CT")
    case True
    then have "vs = []" using d by (auto split: if_splits)
    moreover have "try_pop N ch = Some (?ch1, None)" using p True by (auto simp: try_pop_def)
    ultimately show ?thesis using channel_okI [OF c1] by auto
  next
    case False
    have lt: "H < ?CT" using False c1 unfolding cursors_def by linarith
    obtain v vs' slots where r: "vs = v # vs'"
        "slot_read (ring_index N (cn_head (ch_consumer ch))) (sq_slots (ch_queue ch)) = Some (v, slots)"
        "cursors N CH H (Suc H) ?CT T T (?ch1\<lparr>ch_queue := (ch_queue ch)\<lparr>sq_slots := slots\<rparr>,
          ch_consumer := (ch_consumer ?ch1)\<lparr>cn_head := cn_head (ch_consumer ch) + 1\<rparr>\<rparr>) vs'"
      using cursors_read [OF c1 lt] by (auto split: if_splits)
    define ch' where "ch' = ch\<lparr>ch_consumer := (ch_consumer ?ch1)\<lparr>cn_head := cn_head (ch_consumer ch) + 1\<rparr>,
      ch_queue := (ch_queue ch)\<lparr>sq_slots := slots, sq_head := cn_head (ch_consumer ch) + 1\<rparr>\<rparr>"
    have "try_pop N ch = Some (ch', Some v)" using p r(2) False by (simp add: try_pop_def ch'_def)
    moreover have "channel_ok N ch' vs'"
      using channel_okI [OF cursors_publish(4) [OF r(3)]] unfolding ch'_def by (auto split: if_splits)
    ultimately show ?thesis using r(1) by auto
  qed
qed

lemma channel_has_capacity_ok:
  assumes "channel_ok N ch vs"
  shows "snd (channel_has_capacity N ch) \<longleftrightarrow> length vs < N" "channel_ok N (fst (channel_has_capacity N ch)) vs"
    "length vs \<le> N"
proof -
  obtain CH H CT T where c: "cursors N CH H H CT T T ch vs" using assms by (auto simp: channel_ok_def)
  note d = c [unfolded cursors_def] and k = cursors_checks(1,2) [OF c]
  show "length vs \<le> N" using d by (simp add: ring_def)
  show "snd (channel_has_capacity N ch) \<longleftrightarrow> length vs < N"
    using d k by (auto simp: channel_has_capacity_def has_capacity_def Let_def)
  show "channel_ok N (fst (channel_has_capacity N ch)) vs"
    using channel_okI [OF c] channel_okI [OF cursors_publish(1) [OF c]]
    by (simp add: channel_has_capacity_def has_capacity_def Let_def)
qed

interpretation chan: bounded_fifo "channel_ok N" N "try_push N" "try_pop N" "channel_has_capacity N" for N
  by unfold_locales (rule try_push_ok try_pop_ok channel_has_capacity_ok, assumption)+

lemma channel_new_ok: "spsc_try_new N = Inr q \<Longrightarrow> channel_ok N (channel_of q) []"
  by (rule channel_okI [OF spsc_start])

text \<open>Draining returns what is left, in order, and leaves the queue empty.\<close>

lemma drain_loop_ok:
  assumes "is_power_of_two N" "ring N H (sq_slots q) vs" "position = of_nat H" "tail = of_nat (H + length vs)"
  shows "\<exists>q'. drain_loop N position tail q drained = Some (q', drained @ vs) \<and> ring N (H + length vs) (sq_slots q') [] \<and>
    (vs \<noteq> [] \<longrightarrow> sq_head q' = tail) \<and> (vs = [] \<longrightarrow> sq_head q' = sq_head q) \<and> sq_tail q' = sq_tail q"
  using assms(2-4)
proof (induction vs arbitrary: H q position drained)
  case Nil
  then show ?case by (subst drain_loop.simps) simp
next
  case (Cons v vs)
  have N: "N < 2 ^ 64" and idx: "ring_index N position = H mod N"
    using ring_index_mod [OF assms(1)] Cons.prems(2) by auto
  have "Suc (length vs) \<le> N" using Cons.prems(1) by (simp add: ring_def)
  then have ne: "position \<noteq> tail"
    using cursor_eq(1) [of H "H + Suc (length vs)" N] N Cons.prems(2,3) by auto
  obtain slots where s: "slot_read (H mod N) (sq_slots q) = Some (v, slots)" "ring N (Suc H) slots vs"
    using ring_read [OF Cons.prems(1)] by blast
  let ?q = "q\<lparr>sq_head := position + 1, sq_slots := slots\<rparr>"
  have "\<exists>q'. drain_loop N (position + 1) tail ?q (drained @ [v]) = Some (q', (drained @ [v]) @ vs) \<and>
      ring N (Suc H + length vs) (sq_slots q') [] \<and> (vs \<noteq> [] \<longrightarrow> sq_head q' = tail) \<and>
      (vs = [] \<longrightarrow> sq_head q' = sq_head ?q) \<and> sq_tail q' = sq_tail ?q"
    using Cons.prems(2,3) s(2) by (intro Cons.IH) simp_all
  moreover have "drain_loop N position tail q drained = drain_loop N (position + 1) tail ?q (drained @ [v])"
    using ne by (subst drain_loop.simps) (simp add: idx s(1) Let_def)
  ultimately show ?case using Cons.prems(2,3) by auto
qed

lemma drop_loop_drain:
  "drop_loop N position tail (sq_slots q) = map_option (\<lambda>(q', _). sq_slots q') (drain_loop N position tail q drained)"
proof (induction N position tail q drained rule: drain_loop.induct)
  case (1 N position tail q drained)
  show ?case
  proof (cases "position = tail")
    case True
    then show ?thesis by (subst drop_loop.simps, subst drain_loop.simps) simp
  next
    case False
    then show ?thesis using 1 [OF False refl]
      by (subst drop_loop.simps, subst drain_loop.simps) (auto simp: Let_def split: option.split)
  qed
qed

lemma ring_empty:
  assumes "ring N T slots []"
  shows "slots = replicate N None"
proof (rule nth_equalityI)
  show "length slots = length (replicate N None)" using assms by (simp add: ring_def)
  fix i
  assume i: "i < length slots"
  have "inj_on (\<lambda>j. (T + j) mod N) {..<N}" using mod_shift_inj by (auto intro!: inj_onI)
  moreover have "(\<lambda>j. (T + j) mod N) ` {..<N} \<subseteq> {..<N}" by auto
  ultimately have "(\<lambda>j. (T + j) mod N) ` {..<N} = {..<N}" by (intro endo_inj_surj) auto
  moreover have "i \<in> {..<N}" using i assms by (simp add: ring_def)
  ultimately obtain j where "j < N" "i = (T + j) mod N" by blast
  then show "slots ! i = replicate N None ! i" using assms by (simp add: ring_def)
qed

section \<open>Properties\<close>

text \<open>
  C14. Under every interleaving of the producer's and the consumer's memory accesses the ring is safe and
  first-in first-out: no access breaks the contract of its unsafe block (no published value is
  overwritten, no slot is read before it is written or twice), the values taken out are a prefix of
  the values put in, in order, and at most \<open>N\<close> are in the ring. The cursors may wrap around.
\<close>

theorem spsc_interleaving_fifo:
  assumes "spsc_reachable N sys"
  shows "producer_step N v sys \<noteq> None \<and> consumer_step N sys \<noteq> None \<and>
    (\<exists>ws. sy_pushed sys = sy_popped sys @ ws \<and> length ws \<le> N)"
proof -
  note inv = spsc_reachable_inv [OF assms]
  from inv obtain ws where "sy_pushed sys = sy_popped sys @ ws" "length ws \<le> N"
    by (auto simp: spsc_inv_def cursors_def ring_def)
  with producer_step_inv [OF inv, of v] consumer_step_inv [OF inv] show ?thesis by auto
qed

definition demo_ring :: "nat spsc_system" where
  "demo_ring = system_of \<lparr>sq_head = 0, sq_tail = 0, sq_slots = replicate 2 None\<rparr>"

lemma demo_ring_new: "spsc_try_new 2 = Inr \<lparr>sq_head = 0, sq_tail = 0, sq_slots = replicate 2 None\<rparr>"
proof -
  have "(2 :: nat) = 2 ^ 1" "(1 :: nat) \<in> {0..<64}" by simp_all
  then have "is_power_of_two 2" unfolding is_power_of_two_def set_map set_upt by blast
  then show ?thesis by (simp add: spsc_try_new_def)
qed

lemma demo_ring_reachable: "spsc_reachable 2 demo_ring"
  unfolding demo_ring_def by (rule spsc_reachable.Start) (rule demo_ring_new)

theorem spsc_interleaving_fifo_witness:
  "\<exists>sys. Option.bind (producer_step 2 7 demo_ring) (producer_step 2 7) = Some sys \<and> sy_pushed sys = [7] \<and>
     consumer_step 2 sys \<noteq> None \<and> (\<exists>ws. sy_pushed sys = sy_popped sys @ ws \<and> length ws \<le> 2)"
proof -
  obtain s1 where s1: "producer_step 2 7 demo_ring = Some s1" "spsc_reachable 2 s1"
    using spsc_interleaving_fifo [OF demo_ring_reachable, of 7] spsc_reachable.Produce [OF demo_ring_reachable] by blast
  obtain s2 where s2: "producer_step 2 7 s1 = Some s2" "spsc_reachable 2 s2"
    using spsc_interleaving_fifo [OF s1(2), of 7] spsc_reachable.Produce [OF s1(2)] by blast
  have "sy_pushed s2 = [7]" using s1(1) s2(1)
    by (auto simp: producer_step_def demo_ring_def system_of_def channel_of_def spsc_split_def Let_def)
  with s1 s2 spsc_interleaving_fifo [OF s2(2), of 7] show ?thesis by auto
qed

text \<open>
  C35. Draining terminates and loses nothing: \<open>into_inner\<close> on a ring holding \<open>vs\<close> returns exactly \<open>vs\<close>, in
  order, with the head advanced to the tail, also when the cursors wrap on the way; dropping the ring
  instead drops exactly those values.
\<close>

theorem into_inner_drains:
  assumes "channel_ok N ch vs"
  shows "\<exists>q. into_inner N (ch_queue ch) = Some (q, vs) \<and> sq_head q = sq_tail q \<and> sq_slots q = replicate N None \<and>
    spsc_drop N (ch_queue ch) = Some (replicate N None)"
proof -
  obtain CH H CT T where c: "cursors N CH H H CT T T ch vs" using assms by (auto simp: channel_ok_def)
  note d = c [unfolded cursors_def]
  have T: "T = H + length vs" using d by simp
  have at: "is_power_of_two N" "ring N H (sq_slots (ch_queue ch)) vs" "sq_head (ch_queue ch) = of_nat H"
      "sq_tail (ch_queue ch) = of_nat (H + length vs)"
    using d T by simp_all
  from drain_loop_ok [OF at, of "[]"] obtain q where
      q: "into_inner N (ch_queue ch) = Some (q, vs)" "ring N T (sq_slots q) []"
      "vs \<noteq> [] \<longrightarrow> sq_head q = of_nat T" "vs = [] \<longrightarrow> sq_head q = of_nat H" "sq_tail q = of_nat T"
    unfolding into_inner_def append_Nil at(3,4) T [symmetric] by blast
  note ring_empty [OF q(2)]
  moreover have "sq_head q = sq_tail q" using q(3-5) T by (cases vs) simp_all
  moreover have "spsc_drop N (ch_queue ch) = Some (sq_slots q)"
    unfolding spsc_drop_def drop_loop_drain [of N _ _ "ch_queue ch" "[]"] using q(1) by (simp add: into_inner_def)
  ultimately show ?thesis using q(1) by simp
qed

theorem into_inner_drains_witness:
  "\<exists>ch q. try_push 2 (sy_channel demo_ring) 7 = Some (ch, Inr ()) \<and> into_inner 2 (ch_queue ch) = Some (q, [7])"
proof -
  have "channel_ok 2 (sy_channel demo_ring) []"
    using channel_new_ok [OF demo_ring_new] by (simp add: demo_ring_def system_of_def)
  then obtain ch where "try_push 2 (sy_channel demo_ring) 7 = Some (ch, Inr ())" "channel_ok 2 ch [7]"
    using chan.push_law [of 2 "sy_channel demo_ring" "[]" 7] by auto
  with into_inner_drains [of 2 ch "[7]"] show ?thesis by blast
qed

end
