(* ===== verification/Events.thy ===== *)
theory Events
  imports Gateway_Reach Spsc
begin

text \<open>
  The bounded event engine of \<^verbatim>\<open>crates/hft-events/src/lib.rs\<close>: a gateway whose results are published as
  one batch of events per command on a bounded queue. \<open>R\<close>, \<open>B\<close> and \<open>Q\<close> are the const generics
  \<open>REPORTS\<close>, \<open>BATCH\<close> and \<open>QUEUE\<close>. Queue capacity is observed before the gateway changes; the theorems
  show that publication then never fails and what each batch holds.
\<close>

section \<open>Events\<close>

record event_id =
  ei_command_sequence :: sequence_number
  ei_ordinal :: u16

datatype command_kind = KindNewOrder | KindCancel | KindReplace

record accepted =
  acc_id :: event_id
  acc_order_id :: order_id
  acc_account_id :: account_id
  acc_instrument_id :: instrument_id
  acc_state :: order_state
  acc_filled_quantity :: quantity
  acc_resting_quantity :: quantity
  acc_discarded_quantity :: quantity

record rejected =
  rej_id :: event_id
  rej_command :: command_kind
  rej_order_id :: order_id
  rej_account_id :: account_id
  rej_instrument_id :: instrument_id
  rej_reason :: reject_reason

record trade =
  tr_id :: event_id
  tr_maker_order_id :: order_id
  tr_taker_order_id :: order_id
  tr_instrument_id :: instrument_id
  tr_price :: price_ticks
  tr_quantity :: quantity

record cancelled_event =
  cae_id :: event_id
  cae_order_id :: order_id
  cae_account_id :: account_id
  cae_instrument_id :: instrument_id
  cae_quantity :: quantity

record replaced_event =
  ree_id :: event_id
  ree_order_id :: order_id
  ree_account_id :: account_id
  ree_instrument_id :: instrument_id
  ree_old_quantity :: quantity
  ree_new_quantity :: quantity
  ree_price :: price_ticks
  ree_priority_lost :: bool

record top_of_book =
  tob_id :: event_id
  tob_instrument_id :: instrument_id
  tob_bid :: "top_level_view option"
  tob_ask :: "top_level_view option"

datatype event =
    EvAccepted accepted
  | EvRejected rejected
  | EvTrade trade
  | EvCancelled cancelled_event
  | EvReplaced replaced_event
  | EvTopOfBook top_of_book

section \<open>Batches\<close>

record event_batch =
  eb_events :: "event option list"
  eb_len :: nat

definition event_batch_new :: "nat \<Rightarrow> event_batch" where
  "event_batch_new B = \<lparr>eb_events = replicate B None, eb_len = 0\<rparr>"

definition event_batch_push :: "event_batch \<Rightarrow> event \<Rightarrow> unit + event_batch" where
  "event_batch_push b e =
     (if eb_len b < length (eb_events b)
      then Inr (b\<lparr>eb_events := (eb_events b)[eb_len b := Some e], eb_len := eb_len b + 1\<rparr>)
      else Inl ())"

definition event_batch_iter :: "event_batch \<Rightarrow> event list" where
  "event_batch_iter b = List.map_filter id (take (eb_len b) (eb_events b))"

section \<open>The engine\<close>

datatype event_config_error = BatchTooSmall | TooManyEvents

datatype event_engine_error =
    Backpressured
  | EngineGateway gateway_error
  | EventCapacityInvariant
  | PublicationInvariant

record event_engine =
  en_gateway :: gateway
  en_channel :: "event_batch channel"

definition event_engine_try_new ::
  "nat \<Rightarrow> nat \<Rightarrow> gateway \<Rightarrow> event_batch channel \<Rightarrow> event_config_error + event_engine"
where
  "event_engine_try_new R B gw ch =
     (if R > 65535 - 1 then Inl TooManyEvents
      else if B < R + 2 then Inl BatchTooSmall
      else Inr \<lparr>en_gateway = gw, en_channel = ch\<rparr>)"

record command_identity =
  ci_kind :: command_kind
  ci_order_id :: order_id
  ci_account_id :: account_id
  ci_instrument_id :: instrument_id

fun identity_from_command :: "command \<Rightarrow> command_identity" where
  "identity_from_command (NewOrder order) =
     \<lparr>ci_kind = KindNewOrder, ci_order_id = no_order_id order, ci_account_id = no_account_id order,
      ci_instrument_id = no_instrument_id order\<rparr>"
| "identity_from_command (CancelOrder cmd) =
     \<lparr>ci_kind = KindCancel, ci_order_id = co_order_id cmd, ci_account_id = co_account_id cmd,
      ci_instrument_id = co_instrument_id cmd\<rparr>"
| "identity_from_command (ReplaceOrder cmd) =
     \<lparr>ci_kind = KindReplace, ci_order_id = ro_order_id cmd, ci_account_id = ro_account_id cmd,
      ci_instrument_id = ro_instrument_id cmd\<rparr>"

fun identity_from_message :: "borrowed_message \<Rightarrow> command_identity" where
  "identity_from_message (BorrowedNewOrder b) =
     (let order = new_order_to_owned b in
      \<lparr>ci_kind = KindNewOrder, ci_order_id = no_order_id order, ci_account_id = no_account_id order,
       ci_instrument_id = no_instrument_id order\<rparr>)"
| "identity_from_message (BorrowedCancelOrder b) =
     (let cmd = cancel_order_to_owned b in
      \<lparr>ci_kind = KindCancel, ci_order_id = co_order_id cmd, ci_account_id = co_account_id cmd,
       ci_instrument_id = co_instrument_id cmd\<rparr>)"
| "identity_from_message (BorrowedReplaceOrder b) =
     (let cmd = replace_order_to_owned b in
      \<lparr>ci_kind = KindReplace, ci_order_id = ro_order_id cmd, ci_account_id = ro_account_id cmd,
       ci_instrument_id = ro_instrument_id cmd\<rparr>)"

fun terminal_event :: "gateway_outcome \<Rightarrow> command_identity \<Rightarrow> sequence_number \<Rightarrow> u16 \<Rightarrow> event" where
  "terminal_event (OutNewOrder summary) command sequence ordinal =
     EvAccepted \<lparr>acc_id = \<lparr>ei_command_sequence = sequence, ei_ordinal = ordinal\<rparr>,
       acc_order_id = ci_order_id command, acc_account_id = ci_account_id command,
       acc_instrument_id = ci_instrument_id command, acc_state = ms_state summary,
       acc_filled_quantity = ms_filled_quantity summary, acc_resting_quantity = ms_resting_quantity summary,
       acc_discarded_quantity = ms_discarded_quantity summary\<rparr>"
| "terminal_event (OutCancelled c) command sequence ordinal =
     EvCancelled \<lparr>cae_id = \<lparr>ei_command_sequence = sequence, ei_ordinal = ordinal\<rparr>,
       cae_order_id = cd_order_id c, cae_account_id = cd_account_id c,
       cae_instrument_id = ci_instrument_id command, cae_quantity = cd_quantity c\<rparr>"
| "terminal_event (OutReplaced r) command sequence ordinal =
     EvReplaced \<lparr>ree_id = \<lparr>ei_command_sequence = sequence, ei_ordinal = ordinal\<rparr>,
       ree_order_id = rd_order_id r, ree_account_id = rd_account_id r,
       ree_instrument_id = ci_instrument_id command, ree_old_quantity = rd_old_quantity r,
       ree_new_quantity = rd_new_quantity r, ree_price = rd_price r, ree_priority_lost = rd_priority_lost r\<rparr>"

definition push_preflighted :: "event_batch \<Rightarrow> event \<Rightarrow> event_engine_error + event_batch" where
  "push_preflighted batch e = map_err (\<lambda>_. EventCapacityInvariant) (event_batch_push batch e)"

definition trade_event :: "sequence_number \<Rightarrow> u16 \<Rightarrow> execution_report \<Rightarrow> event" where
  "trade_event sequence ordinal report =
     EvTrade \<lparr>tr_id = \<lparr>ei_command_sequence = sequence, ei_ordinal = ordinal\<rparr>,
       tr_maker_order_id = er_maker_order_id report, tr_taker_order_id = er_taker_order_id report,
       tr_instrument_id = er_instrument_id report, tr_price = er_price report, tr_quantity = er_quantity report\<rparr>"

text \<open>The loop over the reports; \<open>ordinal += 1\<close> that overflows \<open>u16\<close> panics.\<close>

fun push_trades ::
  "sequence_number \<Rightarrow> execution_report list \<Rightarrow> u16 \<Rightarrow> event_batch \<Rightarrow> (event_engine_error + event_batch \<times> u16) option"
where
  "push_trades sequence [] ordinal batch = Some (Inr (batch, ordinal))"
| "push_trades sequence (report # reports) ordinal batch =
     rbind (Some (push_preflighted batch (trade_event sequence ordinal report))) (\<lambda>batch.
       Option.bind (checked_add ordinal 1) (\<lambda>ordinal. push_trades sequence reports ordinal batch))"

type_synonym top_pair = "top_level_view option \<times> top_level_view option"

definition result_batch ::
  "nat \<Rightarrow> command_identity \<Rightarrow> sequence_number \<Rightarrow> top_pair \<Rightarrow> top_pair \<Rightarrow> report_buffer \<Rightarrow>
     gateway_error + gateway_outcome \<Rightarrow> (event_engine_error + event_batch) option"
where
  "result_batch B command sequence top_before top_after reports result =
     (let batch = event_batch_new B in
      case result of
        Inr outcome \<Rightarrow>
          rbind (Some (push_preflighted batch (terminal_event outcome command sequence 0))) (\<lambda>batch.
          Option.bind (checked_add 0 1) (\<lambda>ordinal.
          rbind (push_trades sequence (report_buffer_iter reports) ordinal batch) (\<lambda>(batch, ordinal).
            if top_before \<noteq> top_after
            then Some (push_preflighted batch (EvTopOfBook
                   \<lparr>tob_id = \<lparr>ei_command_sequence = sequence, ei_ordinal = ordinal\<rparr>,
                    tob_instrument_id = ci_instrument_id command, tob_bid = fst top_after, tob_ask = snd top_after\<rparr>))
            else Some (Inr batch))))
      | Inl (GwRisk reason) \<Rightarrow> Some (push_preflighted batch (EvRejected
            \<lparr>rej_id = \<lparr>ei_command_sequence = sequence, ei_ordinal = 0\<rparr>, rej_command = ci_kind command,
             rej_order_id = ci_order_id command, rej_account_id = ci_account_id command,
             rej_instrument_id = ci_instrument_id command, rej_reason = reason\<rparr>))
      | Inl (GwBook reason) \<Rightarrow> Some (push_preflighted batch (EvRejected
            \<lparr>rej_id = \<lparr>ei_command_sequence = sequence, ei_ordinal = 0\<rparr>, rej_command = ci_kind command,
             rej_order_id = ci_order_id command, rej_account_id = ci_account_id command,
             rej_instrument_id = ci_instrument_id command, rej_reason = reason\<rparr>))
      | Inl e \<Rightarrow> Some (Inl (EngineGateway e)))"

type_synonym engine_step = "(event_engine \<times> (event_engine_error + unit)) option"

definition publish_result ::
  "nat \<Rightarrow> nat \<Rightarrow> event_engine \<Rightarrow> command_identity \<Rightarrow> sequence_number \<Rightarrow> top_pair \<Rightarrow> top_pair \<Rightarrow> report_buffer \<Rightarrow>
     gateway_error + gateway_outcome \<Rightarrow> engine_step"
where
  "publish_result B Q en command sequence top_before top_after reports result =
     (case result_batch B command sequence top_before top_after reports result of
        None \<Rightarrow> None
      | Some (Inl e) \<Rightarrow> Some (en, Inl e)
      | Some (Inr batch) \<Rightarrow>
          (case try_push Q (en_channel en) batch of
             None \<Rightarrow> None
           | Some (ch, Inl _) \<Rightarrow> Some (en\<lparr>en_channel := ch\<rparr>, Inl PublicationInvariant)
           | Some (ch, Inr _) \<Rightarrow> Some (en\<lparr>en_channel := ch\<rparr>, Inr ())))"

definition preflight :: "nat \<Rightarrow> event_engine \<Rightarrow> sequence_number \<Rightarrow> event_engine \<times> (event_engine_error + unit)" where
  "preflight Q en sequence =
     (case check_sequence (en_gateway en) sequence of
        Inl e \<Rightarrow> (en, Inl (EngineGateway e))
      | Inr _ \<Rightarrow>
          (case channel_has_capacity Q (en_channel en) of
             (ch, False) \<Rightarrow> (en\<lparr>en_channel := ch\<rparr>, Inl Backpressured)
           | (ch, True) \<Rightarrow> (en\<lparr>en_channel := ch\<rparr>, Inr ())))"

definition tops :: "gateway \<Rightarrow> top_pair" where
  "tops gw = (top_level (gw_book gw) Buy, top_level (gw_book gw) Sell)"

definition apply_admitted_command ::
  "nat \<Rightarrow> nat \<Rightarrow> nat \<Rightarrow> nat \<Rightarrow> nat \<Rightarrow> nat \<Rightarrow> nat \<Rightarrow> event_engine \<Rightarrow> command \<Rightarrow> engine_step"
where
  "apply_admitted_command A N L K R B Q en command =
     (let top_before = tops (en_gateway en) in
      case process_command A N L K (en_gateway en) command (report_buffer_new R) of
        None \<Rightarrow> None
      | Some (gw, reports, result) \<Rightarrow>
          publish_result B Q (en\<lparr>en_gateway := gw\<rparr>) (identity_from_command command) (command_sequence command)
            top_before (tops gw) reports result)"

definition admit :: "nat \<Rightarrow> event_engine \<Rightarrow> command \<Rightarrow> event_engine \<times> (event_engine_error + command)" where
  "admit Q en command =
     (case preflight Q en (command_sequence command) of
        (en, Inl e) \<Rightarrow> (en, Inl e)
      | (en, Inr _) \<Rightarrow> (en, Inr command))"

definition engine_process_command ::
  "nat \<Rightarrow> nat \<Rightarrow> nat \<Rightarrow> nat \<Rightarrow> nat \<Rightarrow> nat \<Rightarrow> nat \<Rightarrow> event_engine \<Rightarrow> command \<Rightarrow> engine_step"
where
  "engine_process_command A N L K R B Q en command =
     (case admit Q en command of
        (en, Inl e) \<Rightarrow> Some (en, Inl e)
      | (en, Inr command) \<Rightarrow> apply_admitted_command A N L K R B Q en command)"

definition engine_process_frame ::
  "nat \<Rightarrow> nat \<Rightarrow> nat \<Rightarrow> nat \<Rightarrow> nat \<Rightarrow> nat \<Rightarrow> nat \<Rightarrow> event_engine \<Rightarrow> u8 list \<Rightarrow> engine_step"
where
  "engine_process_frame A N L K R B Q en frame =
     (case parse_message frame of
        Inl e \<Rightarrow> Some (en, Inl (EngineGateway (GwParse e)))
      | Inr message \<Rightarrow>
          (case preflight Q en (message_sequence message) of
             (en, Inl e) \<Rightarrow> Some (en, Inl e)
           | (en, Inr _) \<Rightarrow>
               let top_before = tops (en_gateway en) in
               (case process_frame A N L K (en_gateway en) frame (report_buffer_new R) of
                  None \<Rightarrow> None
                | Some (gw, reports, result) \<Rightarrow>
                    publish_result B Q (en\<lparr>en_gateway := gw\<rparr>) (identity_from_message message)
                      (message_sequence message) top_before (tops gw) reports result)))"

section \<open>Batches as lists of events\<close>

definition batch_wf :: "event_batch \<Rightarrow> bool" where
  "batch_wf b \<longleftrightarrow> eb_len b \<le> length (eb_events b) \<and> None \<notin> set (take (eb_len b) (eb_events b))"

lemma map_filter_id: "None \<notin> set xs \<Longrightarrow> length (List.map_filter id xs) = length xs"
proof (induction xs)
  case (Cons x xs)
  then show ?case by (cases x) (simp_all add: map_filter_simps)
qed (simp add: map_filter_simps)

lemma event_batch_new_wf [simp]:
  "batch_wf (event_batch_new B)" "event_batch_iter (event_batch_new B) = []" "length (eb_events (event_batch_new B)) = B"
  by (simp_all add: batch_wf_def event_batch_new_def event_batch_iter_def map_filter_simps)

lemma event_batch_length: "batch_wf b \<Longrightarrow> length (event_batch_iter b) = eb_len b"
  by (simp add: batch_wf_def event_batch_iter_def map_filter_id)

interpretation eb: append_buffer event_batch_push event_batch_iter "\<lambda>b. length (eb_events b)" batch_wf
proof
  fix b :: event_batch and x
  assume wf: "batch_wf b"
  show "length (event_batch_iter b) \<le> length (eb_events b)"
    using wf by (simp add: event_batch_length) (simp add: batch_wf_def)
  show "\<exists>b'. event_batch_push b x = Inr b' \<and> batch_wf b' \<and> event_batch_iter b' = event_batch_iter b @ [x] \<and>
      length (eb_events b') = length (eb_events b)" if "length (event_batch_iter b) < length (eb_events b)"
  proof -
    let ?b = "b\<lparr>eb_events := (eb_events b)[eb_len b := Some x], eb_len := eb_len b + 1\<rparr>"
    have lt: "eb_len b < length (eb_events b)" using that wf by (simp add: event_batch_length)
    then have t: "take (eb_len ?b) (eb_events ?b) = take (eb_len b) (eb_events b) @ [Some x]"
      by (simp add: take_Suc_conv_app_nth)
    have "event_batch_iter ?b = event_batch_iter b @ [x]"
      unfolding event_batch_iter_def t map_filter_append by (simp add: map_filter_simps)
    moreover have "batch_wf ?b" unfolding batch_wf_def t using wf lt by (simp add: batch_wf_def)
    ultimately show ?thesis using lt by (simp add: event_batch_push_def)
  qed
  show "\<exists>e. event_batch_push b x = Inl e" if "length (eb_events b) \<le> length (event_batch_iter b)"
    using that wf by (simp add: event_batch_length event_batch_push_def)
qed

lemma push_preflighted_ok:
  assumes "batch_wf b" "length (event_batch_iter b) < length (eb_events b)"
  shows "\<exists>b'. push_preflighted b x = Inr b' \<and> batch_wf b' \<and> event_batch_iter b' = event_batch_iter b @ [x] \<and>
    length (eb_events b') = length (eb_events b)"
  using eb.push_room [OF assms, of x] by (auto simp: push_preflighted_def map_err_def)

definition trade_events :: "sequence_number \<Rightarrow> nat \<Rightarrow> execution_report list \<Rightarrow> event list" where
  "trade_events sequence n reports =
     map (\<lambda>(i, report). trade_event sequence (of_nat (n + i)) report) (enumerate 0 reports)"

lemma trade_events_simps [simp]:
  "trade_events sequence n [] = []"
  "trade_events sequence n (r # rs) = trade_event sequence (of_nat n) r # trade_events sequence (Suc n) rs"
  by (simp_all add: trade_events_def enumerate_Suc_eq o_def split_beta ac_simps)

lemma length_trade_events [simp]: "length (trade_events sequence n reports) = length reports"
  by (simp add: trade_events_def)

lemma push_trades_ok:
  assumes "batch_wf b" "length (event_batch_iter b) + length rs \<le> length (eb_events b)" "n + length rs < 2 ^ 16"
  shows "\<exists>b'. push_trades sequence rs (of_nat n) b = Some (Inr (b', of_nat (n + length rs))) \<and> batch_wf b' \<and>
    event_batch_iter b' = event_batch_iter b @ trade_events sequence n rs \<and> length (eb_events b') = length (eb_events b)"
  using assms
proof (induction rs arbitrary: n b)
  case (Cons r rs)
  obtain b1 where b1: "push_preflighted b (trade_event sequence (of_nat n) r) = Inr b1" "batch_wf b1"
      "event_batch_iter b1 = event_batch_iter b @ [trade_event sequence (of_nat n) r]" "length (eb_events b1) = length (eb_events b)"
    using push_preflighted_ok [OF Cons.prems(1), of "trade_event sequence (of_nat n) r"] Cons.prems(2) by auto
  have n: "uint (of_nat n :: u16) = int n" using Cons.prems(3) by (simp add: unsigned_of_nat take_bit_nat_eq_self)
  then have c: "checked_add (of_nat n :: u16) 1 = Some (of_nat (Suc n))"
    using Cons.prems(3) by (simp add: checked_add_def add.commute)
  have "length (event_batch_iter b1) + length rs \<le> length (eb_events b1)" "Suc n + length rs < 2 ^ 16"
    using Cons.prems(2,3) b1(3,4) by simp_all
  from Cons.IH [OF b1(2) this] b1 c show ?case by auto
qed simp

section \<open>What a command publishes\<close>

definition published ::
  "command_identity \<Rightarrow> sequence_number \<Rightarrow> top_pair \<Rightarrow> top_pair \<Rightarrow> execution_report list \<Rightarrow>
     gateway_error + gateway_outcome \<Rightarrow> event list"
where
  "published command sequence top_before top_after reports result =
     (case result of
        Inr outcome \<Rightarrow>
          terminal_event outcome command sequence 0 # trade_events sequence 1 reports @
          (if top_before \<noteq> top_after
           then [EvTopOfBook \<lparr>tob_id = \<lparr>ei_command_sequence = sequence, ei_ordinal = of_nat (1 + length reports)\<rparr>,
                  tob_instrument_id = ci_instrument_id command, tob_bid = fst top_after, tob_ask = snd top_after\<rparr>]
           else [])
      | Inl e \<Rightarrow>
          (case (case e of GwRisk reason \<Rightarrow> Some reason | GwBook reason \<Rightarrow> Some reason | _ \<Rightarrow> None) of
             Some reason \<Rightarrow> [EvRejected
               \<lparr>rej_id = \<lparr>ei_command_sequence = sequence, ei_ordinal = 0\<rparr>, rej_command = ci_kind command,
                rej_order_id = ci_order_id command, rej_account_id = ci_account_id command,
                rej_instrument_id = ci_instrument_id command, rej_reason = reason\<rparr>]
           | None \<Rightarrow> []))"

definition fatal :: "gateway_error + gateway_outcome \<Rightarrow> bool" where
  "fatal result \<longleftrightarrow> (case result of Inr _ \<Rightarrow> False | Inl e \<Rightarrow> (\<forall>r. e \<noteq> GwRisk r \<and> e \<noteq> GwBook r))"

lemma rejected_batch:
  assumes "1 \<le> B"
  shows "\<exists>batch. push_preflighted (event_batch_new B) e = Inr batch \<and> batch_wf batch \<and> event_batch_iter batch = [e]"
  using push_preflighted_ok [of "event_batch_new B" e] assms by auto

lemma accepted_batch:
  assumes dims: "length (report_buffer_iter reports) + 2 \<le> B" "length (report_buffer_iter reports) < 65535"
  shows "\<exists>batch. result_batch B command sequence top_before top_after reports (Inr outcome) = Some (Inr batch) \<and> batch_wf batch \<and>
    event_batch_iter batch = published command sequence top_before top_after (report_buffer_iter reports) (Inr outcome)"
proof -
  let ?rs = "report_buffer_iter reports"
  obtain b1 where b1: "push_preflighted (event_batch_new B) (terminal_event outcome command sequence 0) = Inr b1" "batch_wf b1"
      "event_batch_iter b1 = [terminal_event outcome command sequence 0]" "length (eb_events b1) = B"
    using push_preflighted_ok [of "event_batch_new B" "terminal_event outcome command sequence 0"] dims by auto
  have one: "checked_add 0 1 = Some (of_nat 1 :: u16)" by (simp add: checked_add_def)
  obtain b2 where b2: "push_trades sequence ?rs (of_nat 1) b1 = Some (Inr (b2, of_nat (1 + length ?rs)))" "batch_wf b2"
      "event_batch_iter b2 = terminal_event outcome command sequence 0 # trade_events sequence 1 ?rs" "length (eb_events b2) = B"
    using push_trades_ok [OF b1(2), of ?rs 1 sequence] b1(3,4) dims by auto
  let ?top = "EvTopOfBook \<lparr>tob_id = \<lparr>ei_command_sequence = sequence, ei_ordinal = of_nat (1 + length ?rs)\<rparr>,
      tob_instrument_id = ci_instrument_id command, tob_bid = fst top_after, tob_ask = snd top_after\<rparr>"
  have p: "result_batch B command sequence top_before top_after reports (Inr outcome) =
      Some (if top_before \<noteq> top_after then push_preflighted b2 ?top else Inr b2)"
    unfolding result_batch_def Let_def sum.case b1(1) one rbind_simps Option.bind.bind_lunit b2(1) prod.case by simp
  show ?thesis
  proof (cases "top_before = top_after")
    case True
    then show ?thesis using p b2 by (simp add: published_def)
  next
    case False
    obtain b3 where "push_preflighted b2 ?top = Inr b3" "batch_wf b3" "event_batch_iter b3 = event_batch_iter b2 @ [?top]"
      using push_preflighted_ok [OF b2(2), of ?top] b2(3,4) dims by auto
    with False show ?thesis using p b2(3) by (simp add: published_def)
  qed
qed

lemma result_batch_ok:
  assumes dims: "length (report_buffer_iter reports) \<le> R" "R \<le> 65534" "R + 2 \<le> B" and r: "\<not> fatal result"
  shows "\<exists>batch. result_batch B command sequence top_before top_after reports result = Some (Inr batch) \<and> batch_wf batch \<and>
    event_batch_iter batch = published command sequence top_before top_after (report_buffer_iter reports) result"
proof (cases result)
  case (Inr outcome)
  then show ?thesis using accepted_batch [of reports B] dims by simp
next
  case (Inl e)
  then show ?thesis using r rejected_batch [of B] dims
    by (cases e) (simp_all add: fatal_def result_batch_def published_def)
qed

section \<open>The engine between commands\<close>

definition event_dims :: "nat \<Rightarrow> nat \<Rightarrow> nat \<Rightarrow> nat \<Rightarrow> nat \<Rightarrow> nat \<Rightarrow> bool" where
  "event_dims A N L K R B \<longleftrightarrow> gateway_dims A N L K \<and> R \<le> 65534 \<and> R + 2 \<le> B"

definition engine_inv ::
  "nat \<Rightarrow> nat \<Rightarrow> nat \<Rightarrow> nat \<Rightarrow> nat \<Rightarrow> instrument_id \<Rightarrow> event_engine \<Rightarrow> event_batch list \<Rightarrow> bool"
where
  "engine_inv A N L K Q ins en batches \<longleftrightarrow>
     gateway_reachable A N L K ins (en_gateway en) \<and> channel_ok Q (en_channel en) batches"

lemma check_sequence_admitted:
  "check_sequence gw (command_sequence command) = Inr () \<longleftrightarrow> admitted gw command"
proof -
  have "uint (gw_expected_sequence gw) + 1 < 2 ^ 64 \<longleftrightarrow> uint (gw_expected_sequence gw) \<noteq> 2 ^ 64 - 1"
    using uint_lt2p [of "gw_expected_sequence gw"] by auto
  then show ?thesis
    by (simp add: check_sequence_def admitted_def checked_add_def and_then_def ok_or_def)
qed

lemma spec_dispatch_business: "spec_dispatch A N L K cap gw command = Inl e \<Longrightarrow> \<exists>r. e = GwRisk r \<or> e = GwBook r"
  unfolding spec_dispatch_def new_order_verdict_def cancel_verdict_def replace_verdict_def
  by (auto split: command.splits option.splits sum.splits if_splits)

text \<open>An admitted command leaves the gateway with a result that is no internal failure.\<close>

lemma admitted_result:
  assumes r: "gateway_reachable A N L K ins gw" "gateway_dims A N L K" and adm: "admitted gw command"
  shows "\<exists>gw' reports out. process_command A N L K gw command (report_buffer_new R) = Some (gw', reports, out) \<and>
    gateway_reachable A N L K ins gw' \<and> \<not> fatal out \<and> length (report_buffer_iter reports) \<le> R"
proof -
  obtain gw' reports out where p: "process_command A N L K gw command (report_buffer_new R) = Some (gw', reports, out)"
      "report_buffer_wf reports" "length (rb_entries reports) = R"
      "command_effect A N gw gw' (report_buffer_iter reports) (spec_command A N L K R gw command) out"
    using process_command_ok [OF conjunct1 [OF reachable_gateway_inv [OF r]], of command "report_buffer_new R"]
    by (auto simp: report_buffer_new_def)
  have "spec_command A N L K R gw command = spec_dispatch A N L K R gw command"
    using adm by (simp add: spec_command_def admitted_def)
  then have "\<not> fatal out" using p(4) spec_dispatch_business [of A N L K R gw command]
    by (auto simp: command_effect_def fatal_def split: sum.splits)
  moreover have "length (report_buffer_iter reports) \<le> R" using rb.within_cap [OF p(2)] p(3) by simp
  moreover have "gateway_reachable A N L K ins gw'"
    by (rule gateway_reachable.Command [OF r(1) _ p(1)]) simp
  ultimately show ?thesis using p(1) by blast
qed

lemma engine_process_command_ok:
  assumes inv: "engine_inv A N L K Q ins en batches" and dims: "event_dims A N L K R B"
  shows "\<exists>en' out. engine_process_command A N L K R B Q en command = Some (en', out) \<and>
    (if \<not> admitted (en_gateway en) command
     then (\<exists>e. check_sequence (en_gateway en) (command_sequence command) = Inl e \<and> out = Inl (EngineGateway e)) \<and>
       en' = en
     else if length batches = Q
     then out = Inl Backpressured \<and> en_gateway en' = en_gateway en \<and> engine_inv A N L K Q ins en' batches
     else out = Inr () \<and>
       (\<exists>reports result batch. process_command A N L K (en_gateway en) command (report_buffer_new R) =
            Some (en_gateway en', reports, result) \<and>
          engine_inv A N L K Q ins en' (batches @ [batch]) \<and>
          event_batch_iter batch = published (identity_from_command command) (command_sequence command)
            (tops (en_gateway en)) (tops (en_gateway en')) (report_buffer_iter reports) result))"
proof -
  let ?gw = "en_gateway en" and ?ch = "en_channel en"
  have I: "gateway_reachable A N L K ins ?gw" "channel_ok Q ?ch batches" using inv by (auto simp: engine_inv_def)
  have D: "gateway_dims A N L K" "R \<le> 65534" "R + 2 \<le> B" using dims by (auto simp: event_dims_def)
  show ?thesis
  proof (cases "admitted ?gw command")
    case False
    then obtain e where "check_sequence ?gw (command_sequence command) = Inl e"
      using check_sequence_admitted [of ?gw command] by (cases "check_sequence ?gw (command_sequence command)") auto
    then show ?thesis using False by (simp add: engine_process_command_def admit_def preflight_def)
  next
    case adm: True
    then have chk: "check_sequence ?gw (command_sequence command) = Inr ()" by (simp add: check_sequence_admitted)
    obtain ch b where room: "channel_has_capacity Q ?ch = (ch, b)" by (cases "channel_has_capacity Q ?ch")
    show ?thesis
    proof (cases b)
      case False
      have no: "channel_has_capacity Q ?ch = (ch, False)" using room False by simp
      note full = chan.room_refused [OF I(2) no]
      have "engine_process_command A N L K R B Q en command = Some (en\<lparr>en_channel := ch\<rparr>, Inl Backpressured)"
        using chk room False by (simp add: engine_process_command_def admit_def preflight_def)
      then show ?thesis using adm full I(1) by (simp add: engine_inv_def)
    next
      case True
      have lt: "length batches \<noteq> Q" using chan.room_law [OF I(2)] room True by auto
      obtain gw' reports out where p: "process_command A N L K ?gw command (report_buffer_new R) = Some (gw', reports, out)"
          "gateway_reachable A N L K ins gw'" "\<not> fatal out" "length (report_buffer_iter reports) \<le> R"
        using admitted_result [OF I(1) D(1) adm, of R] by blast
      obtain batch where b: "result_batch B (identity_from_command command) (command_sequence command) (tops ?gw) (tops gw') reports out = Some (Inr batch)"
          "event_batch_iter batch = published (identity_from_command command) (command_sequence command) (tops ?gw) (tops gw') (report_buffer_iter reports) out"
        using result_batch_ok [OF p(4) D(2,3) p(3)] by blast
      obtain ch' where c: "try_push Q ch batch = Some (ch', Inr ())" "channel_ok Q ch' (batches @ [batch])"
        using chan.room_then_push [OF I(2), of ch batch] room True by auto
      have "engine_process_command A N L K R B Q en command = Some (en\<lparr>en_channel := ch', en_gateway := gw'\<rparr>, Inr ())"
        using chk room True p(1) b(1) c(1)
        by (simp add: engine_process_command_def admit_def preflight_def apply_admitted_command_def publish_result_def Let_def)
      then show ?thesis using adm lt p(1,2) b(2) c(2) by (auto simp: engine_inv_def)
    qed
  qed
qed

text \<open>Frames and commands are published alike.\<close>

lemma identity_agrees: "identity_from_message m = identity_from_command (to_command m)"
  by (cases m) (simp_all add: Let_def)

lemma engine_frame_command:
  assumes "parse_message frame = Inr m"
  shows "engine_process_frame A N L K R B Q en frame = engine_process_command A N L K R B Q en (to_command m)"
proof (cases "preflight Q en (command_sequence (to_command m))")
  case (Pair en' r)
  then show ?thesis
    unfolding engine_process_frame_def engine_process_command_def apply_admitted_command_def admit_def assms sum.case
      process_frame_command [OF assms] identity_agrees message_sequence_command [OF assms] by (cases r) simp_all
qed

section \<open>Properties\<close>

text \<open>
  C11. One command, one complete batch, or nothing: on a well-formed engine a command with the wrong
  sequence is refused and nothing changes; with a full event queue it is refused as backpressured
  before the gateway changes; otherwise the gateway processes it and exactly one batch is appended to
  the queue, holding the outcome first, then one trade per report in order, then the top of book
  exactly when it changed, with ordinals 0, 1, 2 and so on. The failures \<open>EventCapacityInvariant\<close> and
  \<open>PublicationInvariant\<close> and the overflow of an ordinal do not occur.
\<close>

theorem command_publishes_batch:
  assumes "engine_inv A N L K Q ins en batches" "event_dims A N L K R B"
  shows "\<exists>en' out. engine_process_command A N L K R B Q en command = Some (en', out) \<and>
    (if \<not> admitted (en_gateway en) command
     then (\<exists>e. check_sequence (en_gateway en) (command_sequence command) = Inl e \<and> out = Inl (EngineGateway e)) \<and>
       en' = en
     else if length batches = Q
     then out = Inl Backpressured \<and> en_gateway en' = en_gateway en \<and> engine_inv A N L K Q ins en' batches
     else out = Inr () \<and>
       (\<exists>reports result batch. process_command A N L K (en_gateway en) command (report_buffer_new R) =
            Some (en_gateway en', reports, result) \<and>
          engine_inv A N L K Q ins en' (batches @ [batch]) \<and>
          event_batch_iter batch = published (identity_from_command command) (command_sequence command)
            (tops (en_gateway en)) (tops (en_gateway en')) (report_buffer_iter reports) result))"
  by (rule engine_process_command_ok [OF assms])

text \<open>The engine around the one-account gateway and a queue of two batches.\<close>

definition demo_engine :: event_engine where
  "demo_engine = \<lparr>en_gateway = demo_gateway,
     en_channel = channel_of \<lparr>sq_head = 0, sq_tail = 0, sq_slots = replicate 2 None\<rparr>\<rparr>"

lemma demo_engine_inv: "engine_inv 1 2 1 1 2 7 demo_engine []"
  using demo_gateway_reachable channel_new_ok [OF demo_ring_new] by (simp add: engine_inv_def demo_engine_def)

lemma demo_event_dims: "event_dims 1 2 1 1 4 6"
  using demo_gateway_dims by (simp add: event_dims_def)

lemma demo_admitted: "admitted demo_gateway (NewOrder demo_reserve)"
  by (simp add: admitted_def demo_gateway_def gateway_new_def demo_reserve_def)

theorem command_publishes_batch_witness:
  "\<exists>en' batch. engine_process_command 1 2 1 1 4 6 2 demo_engine (NewOrder demo_reserve) = Some (en', Inr ()) \<and>
    engine_inv 1 2 1 1 2 7 en' [batch] \<and>
    (\<exists>e es. event_batch_iter batch = EvAccepted e # es \<and> acc_resting_quantity e = 10)"
proof -
  have g: "en_gateway demo_engine = demo_gateway" by (simp add: demo_engine_def)
  have "length (rb_entries (report_buffer_new 4)) = 4" by (simp add: report_buffer_new_def)
  then obtain gw' reports' where out: "process_command 1 2 1 1 demo_gateway (NewOrder demo_reserve) (report_buffer_new 4) =
      Some (gw', reports', Inr (OutNewOrder \<lparr>ms_state = Accepted, ms_filled_quantity = 0, ms_resting_quantity = 10,
        ms_discarded_quantity = 0, ms_report_count = 0\<rparr>))"
    using process_command_ok [OF conjunct1 [OF reachable_gateway_inv [OF demo_gateway_reachable demo_gateway_dims]],
        of "NewOrder demo_reserve" "report_buffer_new 4"] demo_gateway_accepts
    by (auto simp: command_effect_def)
  have "length ([] :: event_batch list) \<noteq> 2" by simp
  with command_publishes_batch [OF demo_engine_inv demo_event_dims, of "NewOrder demo_reserve"] demo_admitted
  obtain en' batch reports result where
      r: "engine_process_command 1 2 1 1 4 6 2 demo_engine (NewOrder demo_reserve) = Some (en', Inr ())"
      "process_command 1 2 1 1 demo_gateway (NewOrder demo_reserve) (report_buffer_new 4) = Some (en_gateway en', reports, result)"
      "engine_inv 1 2 1 1 2 7 en' ([] @ [batch])"
      "event_batch_iter batch = published (identity_from_command (NewOrder demo_reserve)) (command_sequence (NewOrder demo_reserve))
            (tops demo_gateway) (tops (en_gateway en')) (report_buffer_iter reports) result"
    unfolding g by (metis (no_types))
  have "result = Inr (OutNewOrder \<lparr>ms_state = Accepted, ms_filled_quantity = 0, ms_resting_quantity = 10,
        ms_discarded_quantity = 0, ms_report_count = 0\<rparr>)" using out r(2) by simp
  then have "\<exists>e es. event_batch_iter batch = EvAccepted e # es \<and> acc_resting_quantity e = 10"
    unfolding r(4) by (simp add: published_def)
  with r(1,3) show ?thesis by auto
qed

end
