(* ===== verification/Binary_Search.thy ===== *)
theory Binary_Search
  imports Prelude
begin

text \<open>
  \<open>slice::binary_search_by_key\<close> of the standard library, which the route table
  (\<^verbatim>\<open>crates/hft-router/src/lib.rs\<close>) and the validation of risk states (\<^verbatim>\<open>crates/hft-risk/src/lib.rs\<close>)
  call: on a list with strictly increasing keys it finds exactly the position of the key.
\<close>

text \<open>The search of the standard library: halve the window, keep the half that can hold the key.\<close>

function binary_search_loop :: "('a \<Rightarrow> 'k::linorder) \<Rightarrow> 'k \<Rightarrow> 'a list \<Rightarrow> nat \<Rightarrow> nat \<Rightarrow> nat" where
  "binary_search_loop f key xs n base =
     (if n \<le> 1 then base
      else
        let half = n div 2; mid = base + half in
        binary_search_loop f key xs (n - half) (if f (xs ! mid) > key then base else mid))"
  by pat_completeness auto
termination by (relation "measure (\<lambda>(f, key, xs, n, base). n)") auto

declare binary_search_loop.simps [simp del]

definition binary_search_by_key :: "('a \<Rightarrow> 'k::linorder) \<Rightarrow> 'k \<Rightarrow> 'a list \<Rightarrow> nat option" where
  "binary_search_by_key f key xs =
     (if xs = [] then None
      else let i = binary_search_loop f key xs (length xs) 0 in if f (xs ! i) = key then Some i else None)"

lemma strict_key_less:
  "\<lbrakk>sorted_wrt (<) (map f xs); i < length xs; j < length xs\<rbrakk> \<Longrightarrow> (f (xs ! i) :: 'k::linorder) < f (xs ! j) \<longleftrightarrow> i < j"
  using sorted_wrt_nth_less [of "(<)" "map f xs" i j] sorted_wrt_nth_less [of "(<)" "map f xs" j i]
  by (cases i j rule: linorder_cases) auto

lemma binary_search_loop_range:
  "0 < n \<Longrightarrow> base + n \<le> length xs \<Longrightarrow> binary_search_loop f key xs n base < length xs"
proof (induction f key xs n base rule: binary_search_loop.induct)
  case (1 f key xs n base)
  show ?case
  proof (cases "n \<le> 1")
    case True
    with 1 show ?thesis by (subst binary_search_loop.simps) simp
  next
    case False
    have "binary_search_loop f key xs (n - n div 2) (if key < f (xs ! (base + n div 2)) then base else base + n div 2) < length xs"
      using False 1(2,3) by (intro 1(1) [OF False refl refl]) auto
    then show ?thesis using False by (subst binary_search_loop.simps) (simp add: Let_def)
  qed
qed

lemma binary_search_loop_finds:
  assumes "sorted_wrt (<) (map f xs)" "f (xs ! p) = key" "base \<le> p" "p < base + n" "base + n \<le> length xs"
  shows "binary_search_loop f key xs n base = p"
  using assms
proof (induction f key xs n base rule: binary_search_loop.induct)
  case (1 f key xs n base)
  let ?h = "n div 2"
  show ?case
  proof (cases "n \<le> 1")
    case True
    with 1 show ?thesis by (subst binary_search_loop.simps) simp
  next
    case False
    have mid: "base + ?h < length xs" "?h < n" "0 < ?h" "?h \<le> n - ?h" using False 1(6) by auto
    have "key < f (xs ! (base + ?h)) \<longleftrightarrow> p < base + ?h"
      using strict_key_less [OF 1(2), of p "base + ?h"] 1(3,5,6) mid(1) by simp
    then have "binary_search_loop f key xs (n - ?h) (if key < f (xs ! (base + ?h)) then base else base + ?h) = p"
      using mid 1(2-6) by (intro 1(1) [OF False refl refl]) (simp_all, linarith+)
    then show ?thesis using False by (subst binary_search_loop.simps) (simp add: Let_def)
  qed
qed

lemma binary_search_iff:
  assumes s: "sorted_wrt (<) (map f xs)"
  shows "binary_search_by_key f key xs = Some i \<longleftrightarrow> i < length xs \<and> f (xs ! i) = key"
proof
  assume "binary_search_by_key f key xs = Some i"
  then show "i < length xs \<and> f (xs ! i) = key"
    using binary_search_loop_range [of "length xs" 0 xs f key] by (auto simp: binary_search_by_key_def Let_def split: if_splits)
next
  assume "i < length xs \<and> f (xs ! i) = key"
  then show "binary_search_by_key f key xs = Some i"
    using binary_search_loop_finds [OF s, of i key 0 "length xs"] by (auto simp: binary_search_by_key_def Let_def)
qed

end
