(* ===== verification/Router.thy ===== *)
theory Router
  imports Events Binary_Search
begin

text \<open>
  The multi-instrument router of \<^verbatim>\<open>crates/hft-router/src/lib.rs\<close>: the table that assigns every instrument
  to one shard, the router that publishes commands to the shards' queues, and the matching shard that
  takes commands from its queue. The table is looked up by offset when the instruments are
  consecutive and by binary search otherwise.
\<close>

section \<open>The route table\<close>

type_synonym shard_id = u16

record instrument_route =
  ir_instrument_id :: instrument_id
  ir_shard_id :: shard_id

datatype route_table_error =
    NoShards
  | TooManyShards
  | InvalidShardId shard_id
  | DuplicateShardId shard_id
  | DuplicateInstrument instrument_id

record route_table =
  rt_by_instrument :: "instrument_route list"
  rt_by_shard :: "u16 list"
  rt_dense :: bool

fun check_shards :: "nat \<Rightarrow> instrument_route list \<Rightarrow> bool list \<Rightarrow> route_table_error + unit" where
  "check_shards S [] seen = Inr ()"
| "check_shards S (route # routes) seen =
     (let shard = unat (ir_shard_id route) in
      if shard \<ge> S then Inl (InvalidShardId (ir_shard_id route))
      else if seen ! shard then Inl (DuplicateShardId (ir_shard_id route))
      else check_shards S routes (seen[shard := True]))"

fun check_instruments :: "instrument_route list \<Rightarrow> route_table_error + unit" where
  "check_instruments (a # b # routes) =
     (if ir_instrument_id a = ir_instrument_id b then Inl (DuplicateInstrument (ir_instrument_id a))
      else check_instruments (b # routes))"
| "check_instruments routes = Inr ()"

text \<open>\<open>by_shard\<close> receives the position of every route, as \<open>u16\<close>.\<close>

fun fill_by_shard :: "nat \<Rightarrow> instrument_route list \<Rightarrow> u16 list \<Rightarrow> route_table_error + u16 list" where
  "fill_by_shard index [] by_shard = Inr by_shard"
| "fill_by_shard index (route # routes) by_shard =
     (if index < 2 ^ 16
      then fill_by_shard (index + 1) routes (by_shard[unat (ir_shard_id route) := of_nat index])
      else Inl TooManyShards)"

definition route_table_try_new :: "instrument_route list \<Rightarrow> route_table_error + route_table" where
  "route_table_try_new routes =
     (let S = length routes in
      if S = 0 then Inl NoShards
      else if S > 65535 + 1 then Inl TooManyShards
      else
        and_then (check_shards S routes (replicate S False)) (\<lambda>_.
        let routes = sort_key ir_instrument_id routes in
        and_then (check_instruments routes) (\<lambda>_.
        and_then (fill_by_shard 0 routes (replicate S 0)) (\<lambda>by_shard.
          Inr \<lparr>rt_by_instrument = routes, rt_by_shard = by_shard,
               rt_dense = (ir_instrument_id (routes ! (S - 1)) - ir_instrument_id (routes ! 0) = of_nat (S - 1))\<rparr>))))"

definition shard_for :: "route_table \<Rightarrow> instrument_id \<Rightarrow> shard_id option" where
  "shard_for t instrument =
     (if rt_dense t
      then Option.bind (checked_sub instrument (ir_instrument_id (rt_by_instrument t ! 0))) (\<lambda>offset.
             map_option ir_shard_id (get (rt_by_instrument t) (unat offset)))
      else map_option (\<lambda>index. ir_shard_id (rt_by_instrument t ! index))
             (binary_search_by_key ir_instrument_id instrument (rt_by_instrument t)))"

definition instrument_for :: "route_table \<Rightarrow> shard_id \<Rightarrow> instrument_id option" where
  "instrument_for t shard =
     Option.bind (get (rt_by_shard t) (unat shard)) (\<lambda>index.
       map_option ir_instrument_id (get (rt_by_instrument t) (unat index)))"

section \<open>The router\<close>

datatype router_error =
    RouterParse parse_error
  | UnknownInstrument instrument_id
  | UnknownShard shard_id
  | CommandBackpressured shard_id

text \<open>\<open>C\<close> and \<open>Q\<close> are the const generics \<open>COMMAND_QUEUE\<close> and \<open>EVENT_QUEUE\<close>.\<close>

record router =
  mr_routes :: route_table
  mr_commands :: "command channel list"
  mr_events :: "event_batch channel list"

definition route_command :: "nat \<Rightarrow> router \<Rightarrow> command \<Rightarrow> (router \<times> (router_error + shard_id)) option" where
  "route_command C r command =
     (let instrument = command_instrument_id command in
      case shard_for (mr_routes r) instrument of
        None \<Rightarrow> Some (r, Inl (UnknownInstrument instrument))
      | Some shard \<Rightarrow>
          (case get (mr_commands r) (unat shard) of
             None \<Rightarrow> Some (r, Inl (UnknownShard shard))
           | Some ch \<Rightarrow>
               map_option (\<lambda>(ch, pushed).
                 (r\<lparr>mr_commands := (mr_commands r)[unat shard := ch]\<rparr>,
                  case pushed of Inl _ \<Rightarrow> Inl (CommandBackpressured shard) | Inr _ \<Rightarrow> Inr shard))
                 (try_push C ch command)))"

definition route_frame :: "nat \<Rightarrow> router \<Rightarrow> u8 list \<Rightarrow> (router \<times> (router_error + shard_id)) option" where
  "route_frame C r frame =
     (case parse_message frame of
        Inl e \<Rightarrow> Some (r, Inl (RouterParse e))
      | Inr message \<Rightarrow> route_command C r (to_command message))"

definition try_event :: "nat \<Rightarrow> router \<Rightarrow> shard_id \<Rightarrow> (router \<times> (router_error + event_batch option)) option" where
  "try_event Q r shard =
     (case get (mr_events r) (unat shard) of
        None \<Rightarrow> Some (r, Inl (UnknownShard shard))
      | Some ch \<Rightarrow>
          map_option (\<lambda>(ch, b). (r\<lparr>mr_events := (mr_events r)[unat shard := ch]\<rparr>, Inr b)) (try_pop Q ch))"

section \<open>The matching shard\<close>

datatype shard_config_error =
    InstrumentMismatch instrument_id instrument_id
  | ShardEvents event_config_error

datatype shard_step = ShardIdle | ShardProcessed sequence_number

datatype shard_error =
    Misrouted instrument_id instrument_id
  | EventBackpressured
  | ShardEngine event_engine_error

record shard =
  sh_route :: instrument_route
  sh_commands :: "command channel"
  sh_engine :: event_engine
  sh_pending :: "command option"

definition shard_try_new ::
  "nat \<Rightarrow> nat \<Rightarrow> instrument_route \<Rightarrow> gateway \<Rightarrow> command channel \<Rightarrow> event_batch channel \<Rightarrow> shard_config_error + shard"
where
  "shard_try_new R B route gw commands events =
     (if ir_instrument_id route \<noteq> ob_instrument (gw_book gw)
      then Inl (InstrumentMismatch (ir_instrument_id route) (ob_instrument (gw_book gw)))
      else and_then (map_err ShardEvents (event_engine_try_new R B gw events)) (\<lambda>engine.
        Inr \<lparr>sh_route = route, sh_commands = commands, sh_engine = engine, sh_pending = None\<rparr>))"

text \<open>\<open>pending.take().or_else(try_pop)\<close>\<close>

definition next_command :: "nat \<Rightarrow> shard \<Rightarrow> (shard \<times> command option) option" where
  "next_command C sh =
     (case sh_pending sh of
        Some command \<Rightarrow> Some (sh\<lparr>sh_pending := None\<rparr>, Some command)
      | None \<Rightarrow> map_option (\<lambda>(ch, command). (sh\<lparr>sh_commands := ch\<rparr>, command)) (try_pop C (sh_commands sh)))"

definition try_process_one ::
  "nat \<Rightarrow> nat \<Rightarrow> nat \<Rightarrow> nat \<Rightarrow> nat \<Rightarrow> nat \<Rightarrow> nat \<Rightarrow> nat \<Rightarrow> shard \<Rightarrow> (shard \<times> (shard_error + shard_step)) option"
where
  "try_process_one A N L K R B C Q sh =
     (case next_command C sh of
        None \<Rightarrow> None
      | Some (sh, None) \<Rightarrow> Some (sh, Inr ShardIdle)
      | Some (sh, Some command) \<Rightarrow>
          let received = command_instrument_id command in
          if received \<noteq> ir_instrument_id (sh_route sh)
          then Some (sh, Inl (Misrouted (ir_instrument_id (sh_route sh)) received))
          else
            (case engine_process_command A N L K R B Q (sh_engine sh) command of
               None \<Rightarrow> None
             | Some (engine, Inr _) \<Rightarrow> Some (sh\<lparr>sh_engine := engine\<rparr>, Inr (ShardProcessed (command_sequence command)))
             | Some (engine, Inl e) \<Rightarrow>
                 if e = Backpressured
                 then Some (sh\<lparr>sh_engine := engine, sh_pending := Some command\<rparr>, Inl EventBackpressured)
                 else Some (sh\<lparr>sh_engine := engine\<rparr>, Inl (ShardEngine e))))"

section \<open>Accepted tables\<close>

lemma unat_eq_iff_shard: "unat (x :: shard_id) = unat y \<longleftrightarrow> x = y"
  by (auto intro: unsigned_word_eqI)

lemma check_shards_iff:
  assumes "length seen = S"
  shows "check_shards S routes seen = Inr () \<longleftrightarrow>
    (\<forall>r \<in> set routes. unat (ir_shard_id r) < S \<and> \<not> seen ! unat (ir_shard_id r)) \<and> distinct (map ir_shard_id routes)"
  using assms
proof (induction routes arbitrary: seen)
  case (Cons r routes)
  let ?s = "unat (ir_shard_id r)"
  show ?case
  proof (cases "?s < S \<and> \<not> seen ! ?s")
    case True
    show ?thesis using True Cons.prems Cons.IH [of "seen[?s := True]"]
      by (auto simp: Let_def nth_list_update image_iff unat_eq_iff_shard)
  next
    case False
    then show ?thesis by (auto simp: Let_def)
  qed
qed simp

lemma check_instruments_iff:
  assumes "sorted (map ir_instrument_id routes)"
  shows "check_instruments routes = Inr () \<longleftrightarrow> sorted_wrt (<) (map ir_instrument_id routes)"
  using assms
proof (induction routes rule: check_instruments.induct)
  case (1 a b routes)
  show ?case
  proof (cases "ir_instrument_id a = ir_instrument_id b")
    case False
    then have "ir_instrument_id a < ir_instrument_id b" using 1(2) by auto
    with False 1 show ?thesis by (auto intro: less_trans)
  qed simp
qed auto

lemma fill_by_shard_ok:
  assumes "index + length routes \<le> 2 ^ 16" "\<forall>r \<in> set routes. unat (ir_shard_id r) < length bs" "distinct (map ir_shard_id routes)"
  shows "\<exists>bs'. fill_by_shard index routes bs = Inr bs' \<and> length bs' = length bs \<and>
    (\<forall>i < length routes. bs' ! unat (ir_shard_id (routes ! i)) = of_nat (index + i)) \<and>
    (\<forall>s. s \<notin> (\<lambda>r. unat (ir_shard_id r)) ` set routes \<longrightarrow> bs' ! s = bs ! s)"
  using assms
proof (induction routes arbitrary: index bs)
  case (Cons r routes)
  let ?s = "unat (ir_shard_id r)"
  obtain bs' where b: "fill_by_shard (index + 1) routes (bs[?s := of_nat index]) = Inr bs'" "length bs' = length bs"
      "\<forall>i < length routes. bs' ! unat (ir_shard_id (routes ! i)) = of_nat (index + 1 + i)"
      "\<forall>s. s \<notin> (\<lambda>r. unat (ir_shard_id r)) ` set routes \<longrightarrow> bs' ! s = bs[?s := of_nat index] ! s"
    using Cons.IH [of "index + 1" "bs[?s := of_nat index]"] Cons.prems by auto
  have own: "?s \<notin> (\<lambda>r. unat (ir_shard_id r)) ` set routes"
    using Cons.prems(3) by (auto simp: unat_eq_iff_shard)
  have "bs' ! unat (ir_shard_id ((r # routes) ! i)) = of_nat (index + i)" if "i < length (r # routes)" for i
    using that b(3,4) own Cons.prems(2) by (cases i) auto
  moreover have "bs' ! s = bs ! s" if "s \<notin> (\<lambda>r. unat (ir_shard_id r)) ` set (r # routes)" for s
    using that b(4) by auto
  ultimately show ?case using b(1,2) Cons.prems(1) by auto
qed simp

definition valid_routes :: "instrument_route list \<Rightarrow> bool" where
  "valid_routes routes \<longleftrightarrow> 0 < length routes \<and> length routes \<le> 2 ^ 16 \<and> distinct (map ir_instrument_id routes) \<and>
     distinct (map ir_shard_id routes) \<and> (\<forall>r \<in> set routes. unat (ir_shard_id r) < length routes)"

definition table_of :: "instrument_route list \<Rightarrow> route_table \<Rightarrow> bool" where
  "table_of routes t \<longleftrightarrow> valid_routes routes \<and> rt_by_instrument t = sort_key ir_instrument_id routes \<and>
     sorted_wrt (<) (map ir_instrument_id (rt_by_instrument t)) \<and> length (rt_by_shard t) = length routes \<and>
     (\<forall>i < length routes. rt_by_shard t ! unat (ir_shard_id (rt_by_instrument t ! i)) = of_nat i) \<and>
     rt_dense t = (ir_instrument_id (rt_by_instrument t ! (length routes - 1)) - ir_instrument_id (rt_by_instrument t ! 0)
       = of_nat (length routes - 1))"

lemma distinct_map_sort_key: "distinct (map f (sort_key g xs)) = distinct (map f xs)"
  by (metis mset_map mset_sort mset_eq_imp_distinct_iff)

lemma strict_iff_distinct: "sorted_wrt (<) (xs :: 'k::linorder list) \<longleftrightarrow> sorted xs \<and> distinct xs"
  by (simp add: strict_sorted_iff)

lemma valid_check_shards: "valid_routes routes \<Longrightarrow> check_shards (length routes) routes (replicate (length routes) False) = Inr ()"
  by (simp add: valid_routes_def check_shards_iff)

text \<open>A table is accepted exactly when the routes are valid.\<close>

lemma route_table_try_new_ok:
  assumes "valid_routes routes"
  shows "\<exists>t. route_table_try_new routes = Inr t \<and> table_of routes t"
proof -
  let ?S = "length routes" and ?rs = "sort_key ir_instrument_id routes"
  note v = assms [unfolded valid_routes_def]
  have shards: "check_shards ?S routes (replicate ?S False) = Inr ()" by (rule valid_check_shards [OF assms])
  have strict: "sorted_wrt (<) (map ir_instrument_id ?rs)"
    using v by (simp add: strict_iff_distinct distinct_map_sort_key)
  then have ins: "check_instruments ?rs = Inr ()" by (simp add: check_instruments_iff)
  obtain bs where bs: "fill_by_shard 0 ?rs (replicate ?S 0) = Inr bs" "length bs = ?S"
      "\<forall>i < length ?rs. bs ! unat (ir_shard_id (?rs ! i)) = of_nat (0 + i)"
    using fill_by_shard_ok [of 0 ?rs "replicate ?S 0"] v by (auto simp: distinct_map_sort_key)
  show ?thesis using v shards ins bs strict assms
    by (auto simp: route_table_try_new_def and_then_def Let_def table_of_def)
qed

lemma route_table_try_new_valid:
  assumes "route_table_try_new routes = Inr t"
  shows "valid_routes routes"
proof -
  let ?S = "length routes"
  have S: "?S \<noteq> 0" "?S \<le> 2 ^ 16" using assms by (auto simp: route_table_try_new_def Let_def split: if_splits)
  have "check_shards ?S routes (replicate ?S False) = Inr ()" "check_instruments (sort_key ir_instrument_id routes) = Inr ()"
    using assms S by (auto simp: route_table_try_new_def Let_def and_then_def split: sum.splits if_splits)
  then show ?thesis using S
    by (auto simp: valid_routes_def check_shards_iff check_instruments_iff strict_iff_distinct distinct_map_sort_key)
qed

lemma route_table_of: "route_table_try_new routes = Inr t \<Longrightarrow> table_of routes t"
  using route_table_try_new_ok [OF route_table_try_new_valid] by fastforce

lemma table_ofD:
  assumes "table_of routes t"
  shows "valid_routes routes" "set (rt_by_instrument t) = set routes" "length (rt_by_instrument t) = length routes"
    "sorted_wrt (<) (map ir_instrument_id (rt_by_instrument t))" "length (rt_by_shard t) = length routes"
    "i < length routes \<Longrightarrow> rt_by_shard t ! unat (ir_shard_id (rt_by_instrument t ! i)) = of_nat i"
    "0 < length routes" "length routes \<le> 2 ^ 16"
    "rt_dense t = (ir_instrument_id (rt_by_instrument t ! (length routes - 1)) - ir_instrument_id (rt_by_instrument t ! 0)
       = of_nat (length routes - 1))"
proof -
  note T = assms [unfolded table_of_def]
  show "valid_routes routes" "sorted_wrt (<) (map ir_instrument_id (rt_by_instrument t))" "length (rt_by_shard t) = length routes"
    "rt_dense t = (ir_instrument_id (rt_by_instrument t ! (length routes - 1)) - ir_instrument_id (rt_by_instrument t ! 0)
       = of_nat (length routes - 1))"
    using T by blast+
  show "set (rt_by_instrument t) = set routes" "length (rt_by_instrument t) = length routes" using T by (metis set_sort, metis length_sort)
  show "i < length routes \<Longrightarrow> rt_by_shard t ! unat (ir_shard_id (rt_by_instrument t ! i)) = of_nat i" using T by blast
  show "0 < length routes" "length routes \<le> 2 ^ 16" using T unfolding valid_routes_def by blast+
qed

lemma strict_gap:
  fixes f :: "nat \<Rightarrow> nat"
  assumes "\<And>i j. i < j \<Longrightarrow> j < S \<Longrightarrow> f i < f j" "i \<le> j" "j < S"
  shows "f i + (j - i) \<le> f j"
  using assms(2,3)
proof (induction j)
  case (Suc j)
  show ?case
  proof (cases "i = Suc j")
    case False
    then have "f i + (j - i) \<le> f j" "f j < f (Suc j)" using Suc assms(1) by auto
    then show ?thesis using False Suc(2) by auto
  qed simp
qed simp

lemma dense_positions:
  assumes t: "table_of routes t" and d: "rt_dense t" and i: "i < length routes"
  shows "unat (ir_instrument_id (rt_by_instrument t ! i)) = unat (ir_instrument_id (rt_by_instrument t ! 0)) + i"
proof -
  let ?rs = "rt_by_instrument t" and ?S = "length routes"
  let ?f = "\<lambda>i. unat (ir_instrument_id (?rs ! i))"
  note T = table_ofD [OF t]
  have mono: "?f i < ?f j" if "i < j" "j < ?S" for i j
    using strict_key_less [OF T(4), of i j] T(3) that by (simp add: word_less_nat_alt)
  have le: "?f 0 + i \<le> ?f i" "?f i + (?S - 1 - i) \<le> ?f (?S - 1)"
    using strict_gap [of ?S ?f 0 i, OF mono] strict_gap [of ?S ?f i "?S - 1", OF mono] i by auto
  then have "?f 0 \<le> ?f (?S - 1)" by linarith
  then have "unat (ir_instrument_id (?rs ! (?S - 1)) - ir_instrument_id (?rs ! 0)) = ?f (?S - 1) - ?f 0"
    by (intro unat_sub) (simp add: word_le_nat_alt)
  moreover have "unat (of_nat (?S - 1) :: u32) = ?S - 1"
    using T(8) by (simp add: unsigned_of_nat take_bit_nat_eq_self del: of_nat_diff)
  ultimately have "?f (?S - 1) - ?f 0 = ?S - 1" using T(9) d by metis
  then show ?thesis using le i by linarith
qed

lemma dense_index:
  assumes t: "table_of routes t" and d: "rt_dense t" and i: "i < length routes"
  shows "ir_instrument_id (rt_by_instrument t ! i) = ins \<longleftrightarrow>
    ir_instrument_id (rt_by_instrument t ! 0) \<le> ins \<and> unat (ins - ir_instrument_id (rt_by_instrument t ! 0)) = i"
proof -
  let ?b = "ir_instrument_id (rt_by_instrument t ! 0)"
  note pos = dense_positions [OF t d i]
  show ?thesis
  proof
    assume "ir_instrument_id (rt_by_instrument t ! i) = ins"
    then have u: "unat ins = unat ?b + i" using pos by simp
    then have "?b \<le> ins" by (simp add: word_le_nat_alt)
    then show "?b \<le> ins \<and> unat (ins - ?b) = i" using u by (simp add: unat_sub)
  next
    assume "?b \<le> ins \<and> unat (ins - ?b) = i"
    then have "unat ins = unat ?b + i" by (auto simp: unat_sub word_le_nat_alt)
    then have "unat (ir_instrument_id (rt_by_instrument t ! i)) = unat ins" using pos by simp
    then show "ir_instrument_id (rt_by_instrument t ! i) = ins" by (rule unsigned_word_eqI)
  qed
qed

lemma shard_for_iff:
  assumes t: "table_of routes t"
  shows "shard_for t ins = Some s \<longleftrightarrow> \<lparr>ir_instrument_id = ins, ir_shard_id = s\<rparr> \<in> set routes"
proof -
  let ?rs = "rt_by_instrument t" and ?b = "ir_instrument_id (rt_by_instrument t ! 0)"
  note T = table_ofD [OF t]
  have rec: "?rs ! i = \<lparr>ir_instrument_id = ins, ir_shard_id = s\<rparr> \<longleftrightarrow> ir_instrument_id (?rs ! i) = ins \<and> ir_shard_id (?rs ! i) = s" for i
    by (cases "?rs ! i") auto
  have mem: "\<lparr>ir_instrument_id = ins, ir_shard_id = s\<rparr> \<in> set routes \<longleftrightarrow>
      (\<exists>i < length routes. ir_instrument_id (?rs ! i) = ins \<and> ir_shard_id (?rs ! i) = s)"
    unfolding T(2) [symmetric] in_set_conv_nth rec T(3) ..
  show ?thesis
  proof (cases "rt_dense t")
    case True
    have "shard_for t ins = Some s \<longleftrightarrow>
        ?b \<le> ins \<and> unat (ins - ?b) < length routes \<and> ir_shard_id (?rs ! unat (ins - ?b)) = s"
      using True T(3) by (auto simp: shard_for_def bind_eq_Some_conv checked_sub_Some get_def)
    then show ?thesis unfolding mem using dense_index [OF t True, of _ ins] by metis
  next
    case False
    then show ?thesis unfolding mem
      using binary_search_iff [OF T(4), of ins] T(3) by (auto simp: shard_for_def)
  qed
qed

lemma instrument_for_iff:
  assumes t: "table_of routes t"
  shows "instrument_for t s = Some ins \<longleftrightarrow> \<lparr>ir_instrument_id = ins, ir_shard_id = s\<rparr> \<in> set routes"
proof -
  let ?rs = "rt_by_instrument t"
  note T = table_ofD [OF t]
  have v: "distinct (map ir_shard_id ?rs)" "\<forall>r \<in> set ?rs. unat (ir_shard_id r) < length routes"
    using T(1,2) t by (auto simp: valid_routes_def table_of_def distinct_map_sort_key)
  have small: "unat (of_nat i :: u16) = i" if "i < length routes" for i
    using that T(8) by (simp add: unsigned_of_nat take_bit_nat_eq_self)
  have at: "instrument_for t (ir_shard_id r) = Some (ir_instrument_id r)" if r: "r \<in> set ?rs" for r
  proof -
    obtain i where i: "i < length routes" "?rs ! i = r" using r T(3) by (metis in_set_conv_nth)
    then have "unat (ir_shard_id r) < length (rt_by_shard t)" "rt_by_shard t ! unat (ir_shard_id r) = of_nat i"
      using v(2) r T(5,6) by auto
    then show ?thesis using i T(3) small by (simp add: instrument_for_def get_def)
  qed
  have surj: "\<exists>r \<in> set ?rs. ir_shard_id r = s" if "unat s < length routes"
  proof -
    have "inj_on (\<lambda>r. unat (ir_shard_id r)) (set ?rs)"
      using v(1) by (auto simp: distinct_map inj_on_def unat_eq_iff_shard)
    moreover have "card (set ?rs) = length routes" using v(1) T(3) by (metis distinct_card distinct_map)
    ultimately have "card ((\<lambda>r. unat (ir_shard_id r)) ` set ?rs) = card {..<length routes}" by (simp add: card_image)
    then have "(\<lambda>r. unat (ir_shard_id r)) ` set ?rs = {..<length routes}"
      using v(2) by (intro card_subset_eq) auto
    then have "unat s \<in> (\<lambda>r. unat (ir_shard_id r)) ` set ?rs" using that by simp
    then show ?thesis by (auto simp: unat_eq_iff_shard)
  qed
  show ?thesis
  proof (cases "unat s < length routes")
    case True
    then obtain r where r: "r \<in> set ?rs" "ir_shard_id r = s" using surj by blast
    have "instrument_for t s = Some ins \<longleftrightarrow> ir_instrument_id r = ins" using at [OF r(1)] r(2) by auto
    moreover have "x = r" if "x \<in> set ?rs" "ir_shard_id x = s" for x
      using v(1) r that by (auto simp: distinct_map inj_on_def)
    moreover have "\<lparr>ir_instrument_id = ir_instrument_id r, ir_shard_id = s\<rparr> = r" using r(2) by simp
    ultimately have "instrument_for t s = Some ins \<longleftrightarrow> \<lparr>ir_instrument_id = ins, ir_shard_id = s\<rparr> \<in> set ?rs"
      by (metis instrument_route.select_convs(1,2) r(1))
    then show ?thesis unfolding T(2) by simp
  next
    case False
    then show ?thesis using v(2) T(2,5) by (auto simp: instrument_for_def get_def)
  qed
qed

text \<open>The order of the input does not matter.\<close>

lemma distinct_map_permuted: "mset xs = mset ys \<Longrightarrow> distinct (map f xs) = distinct (map f ys)"
  by (rule mset_eq_imp_distinct_iff) simp

lemma route_table_permuted:
  assumes m: "mset routes = mset routes'" and v: "valid_routes routes"
  shows "route_table_try_new routes' = route_table_try_new routes"
proof -
  let ?f = ir_instrument_id
  have set: "set routes' = set routes" using mset_eq_setD [OF m] by simp
  have len: "length routes' = length routes" using mset_eq_length [OF m] by simp
  have valid': "valid_routes routes'"
    using v distinct_map_permuted [OF m, of ir_instrument_id] distinct_map_permuted [OF m, of ir_shard_id]
    by (simp add: valid_routes_def set len)
  have "sort_key ?f routes = sort_key ?f routes'"
  proof (rule map_sorted_distinct_set_unique [where f = ?f])
    show "inj_on ?f (set (sort_key ?f routes) \<union> set (sort_key ?f routes'))"
      using v by (simp add: set valid_routes_def distinct_map)
    show "distinct (map ?f (sort_key ?f routes))" "distinct (map ?f (sort_key ?f routes'))"
      using v valid' unfolding distinct_map_sort_key valid_routes_def by blast+
  qed (simp_all add: set)
  moreover have "check_shards (length routes') routes' (replicate (length routes') False) =
      check_shards (length routes) routes (replicate (length routes) False)"
    using valid_check_shards [OF v] valid_check_shards [OF valid'] by simp
  ultimately show ?thesis by (simp add: route_table_try_new_def len Let_def)
qed

section \<open>The shard and its backlog\<close>

text \<open>What a shard still has to process: the command held back, then the queue.\<close>

definition backlog :: "shard \<Rightarrow> command list \<Rightarrow> command list" where
  "backlog sh queued = (case sh_pending sh of None \<Rightarrow> queued | Some c \<Rightarrow> c # queued)"

definition shard_inv ::
  "nat \<Rightarrow> nat \<Rightarrow> nat \<Rightarrow> nat \<Rightarrow> nat \<Rightarrow> nat \<Rightarrow> shard \<Rightarrow> command list \<Rightarrow> event_batch list \<Rightarrow> bool"
where
  "shard_inv A N L K C Q sh queued batches \<longleftrightarrow>
     channel_ok C (sh_commands sh) queued \<and> engine_inv A N L K Q (ir_instrument_id (sh_route sh)) (sh_engine sh) batches"

lemma next_command_ok:
  assumes "channel_ok C (sh_commands sh) queued"
  shows "\<exists>sh'. next_command C sh = Some (sh', case backlog sh queued of [] \<Rightarrow> None | c # _ \<Rightarrow> Some c) \<and>
    sh_pending sh' = None \<and> channel_ok C (sh_commands sh') (tl (backlog sh queued)) \<and>
    sh_route sh' = sh_route sh \<and> sh_engine sh' = sh_engine sh"
proof (cases "sh_pending sh")
  case None
  then show ?thesis using chan.pop_law [OF assms]
    by (cases queued) (auto simp: next_command_def backlog_def)
next
  case (Some c)
  then show ?thesis using assms by (simp add: next_command_def backlog_def)
qed

text \<open>
  The outcome of one step: which commands are left, what is returned, and what the engine did.
\<close>

definition shard_outcome ::
  "nat \<Rightarrow> nat \<Rightarrow> nat \<Rightarrow> nat \<Rightarrow> nat \<Rightarrow> nat \<Rightarrow> shard \<Rightarrow> command list \<Rightarrow> event_batch list \<Rightarrow> shard \<Rightarrow> command list \<Rightarrow>
     event_batch list \<Rightarrow> shard_error + shard_step \<Rightarrow> bool"
where
  "shard_outcome A N L K R Q sh queued batches sh' left batches' out =
     (case backlog sh queued of
        [] \<Rightarrow> out = Inr ShardIdle \<and> left = [] \<and> batches' = batches \<and> sh_engine sh' = sh_engine sh
      | c # cs \<Rightarrow>
          if command_instrument_id c \<noteq> ir_instrument_id (sh_route sh)
          then out = Inl (Misrouted (ir_instrument_id (sh_route sh)) (command_instrument_id c)) \<and> left = cs \<and>
            batches' = batches \<and> sh_engine sh' = sh_engine sh
          else if \<not> admitted (en_gateway (sh_engine sh)) c
          then (\<exists>e. out = Inl (ShardEngine (EngineGateway e))) \<and> left = cs \<and> batches' = batches \<and> sh_engine sh' = sh_engine sh
          else if length batches = Q
          then out = Inl EventBackpressured \<and> left = c # cs \<and> batches' = batches \<and>
            en_gateway (sh_engine sh') = en_gateway (sh_engine sh)
          else out = Inr (ShardProcessed (command_sequence c)) \<and> left = cs \<and>
            (\<exists>reports result batch. batches' = batches @ [batch] \<and>
               process_command A N L K (en_gateway (sh_engine sh)) c (report_buffer_new R) =
                 Some (en_gateway (sh_engine sh'), reports, result)))"

lemma try_process_one_ok:
  assumes inv: "shard_inv A N L K C Q sh queued batches" and dims: "event_dims A N L K R B"
  shows "\<exists>sh' out queued' batches'. try_process_one A N L K R B C Q sh = Some (sh', out) \<and>
    shard_inv A N L K C Q sh' queued' batches' \<and> sh_route sh' = sh_route sh \<and>
    shard_outcome A N L K R Q sh queued batches sh' (backlog sh' queued') batches' out"
proof -
  have I: "channel_ok C (sh_commands sh) queued" "engine_inv A N L K Q (ir_instrument_id (sh_route sh)) (sh_engine sh) batches"
    using inv by (auto simp: shard_inv_def)
  obtain sh1 where n: "next_command C sh = Some (sh1, case backlog sh queued of [] \<Rightarrow> None | c # _ \<Rightarrow> Some c)"
      "sh_pending sh1 = None" "channel_ok C (sh_commands sh1) (tl (backlog sh queued))"
      "sh_route sh1 = sh_route sh" "sh_engine sh1 = sh_engine sh"
    using next_command_ok [OF I(1)] by blast
  show ?thesis
  proof (cases "backlog sh queued")
    case Nil
    then show ?thesis using n I(2)
      by (intro exI [of _ sh1] exI [of _ "Inr ShardIdle"] exI [of _ "[]"] exI [of _ batches])
        (simp add: try_process_one_def shard_inv_def shard_outcome_def backlog_def [of sh1])
  next
    case (Cons c cs)
    note E = engine_process_command_ok [OF I(2) dims, of c]
    have n1: "next_command C sh = Some (sh1, Some c)" "channel_ok C (sh_commands sh1) cs" using n Cons by simp_all
    show ?thesis
    proof (cases "command_instrument_id c = ir_instrument_id (sh_route sh)")
      case False
      then show ?thesis using n(2,4,5) n1 I(2) Cons
        by (intro exI [of _ sh1] exI [of _ "Inl (Misrouted (ir_instrument_id (sh_route sh)) (command_instrument_id c))"]
            exI [of _ cs] exI [of _ batches])
          (simp add: try_process_one_def shard_inv_def shard_outcome_def backlog_def [of sh1])
    next
      case own: True
      consider (seq) "\<not> admitted (en_gateway (sh_engine sh)) c"
        | (full) "admitted (en_gateway (sh_engine sh)) c" "length batches = Q"
        | (go) "admitted (en_gateway (sh_engine sh)) c" "length batches \<noteq> Q" by blast
      then show ?thesis
      proof cases
        case seq
        then obtain e where e: "engine_process_command A N L K R B Q (sh_engine sh) c = Some (sh_engine sh, Inl (EngineGateway e))"
          using E by auto
        then show ?thesis using own seq n(2,4,5) n1 I(2) Cons
          by (intro exI [of _ sh1] exI [of _ "Inl (ShardEngine (EngineGateway e))"] exI [of _ cs] exI [of _ batches])
            (simp add: try_process_one_def shard_inv_def shard_outcome_def backlog_def [of sh1])
      next
        case full
        then obtain en' where e: "engine_process_command A N L K R B Q (sh_engine sh) c = Some (en', Inl Backpressured)"
            "en_gateway en' = en_gateway (sh_engine sh)" "engine_inv A N L K Q (ir_instrument_id (sh_route sh)) en' batches"
          using E by auto
        let ?sh = "sh1\<lparr>sh_engine := en', sh_pending := Some c\<rparr>"
        show ?thesis using own full e n(2,4,5) n1 Cons
          by (intro exI [of _ ?sh] exI [of _ "Inl EventBackpressured"] exI [of _ cs] exI [of _ batches])
            (simp add: try_process_one_def shard_inv_def shard_outcome_def backlog_def [of ?sh])
      next
        case go
        then obtain en' reports result batch where e: "engine_process_command A N L K R B Q (sh_engine sh) c = Some (en', Inr ())"
            "process_command A N L K (en_gateway (sh_engine sh)) c (report_buffer_new R) = Some (en_gateway en', reports, result)"
            "engine_inv A N L K Q (ir_instrument_id (sh_route sh)) en' (batches @ [batch])"
          using E by auto
        let ?sh = "sh1\<lparr>sh_engine := en'\<rparr>"
        show ?thesis using own go e n(2,4,5) n1 Cons
          by (intro exI [of _ ?sh] exI [of _ "Inr (ShardProcessed (command_sequence c))"] exI [of _ cs] exI [of _ "batches @ [batch]"])
            (simp add: try_process_one_def shard_inv_def shard_outcome_def backlog_def [of ?sh])
      qed
    qed
  qed
qed

section \<open>Router and shards together\<close>

text \<open>
  The running system: the table and the shards. The router's producers and consumers are the other
  ends of the shards' queues.
\<close>

record exchange =
  ex_routes :: route_table
  ex_shards :: "shard list"

definition router_of :: "exchange \<Rightarrow> router" where
  "router_of ex = \<lparr>mr_routes = ex_routes ex, mr_commands = map sh_commands (ex_shards ex),
     mr_events = map (\<lambda>sh. en_channel (sh_engine sh)) (ex_shards ex)\<rparr>"

definition attach :: "shard \<times> command channel \<times> event_batch channel \<Rightarrow> shard" where
  "attach = (\<lambda>(sh, commands, events).
     sh\<lparr>sh_commands := commands, sh_engine := (sh_engine sh)\<lparr>en_channel := events\<rparr>\<rparr>)"

definition with_router :: "exchange \<Rightarrow> router \<Rightarrow> exchange" where
  "with_router ex r = ex\<lparr>ex_shards := map attach (zip (ex_shards ex) (zip (mr_commands r) (mr_events r)))\<rparr>"

definition fresh_shard :: "nat \<Rightarrow> nat \<Rightarrow> nat \<Rightarrow> nat \<Rightarrow> nat \<Rightarrow> nat \<Rightarrow> nat \<Rightarrow> nat \<Rightarrow> shard \<Rightarrow> bool" where
  "fresh_shard A N L K R B C Q sh \<longleftrightarrow> (\<exists>gw commands events.
     shard_try_new R B (sh_route sh) gw commands events = Inr sh \<and>
     gateway_reachable A N L K (ob_instrument (gw_book gw)) gw \<and> channel_ok C commands [] \<and> channel_ok Q events [])"

inductive exchange_reachable ::
  "nat \<Rightarrow> nat \<Rightarrow> nat \<Rightarrow> nat \<Rightarrow> nat \<Rightarrow> nat \<Rightarrow> nat \<Rightarrow> nat \<Rightarrow> exchange \<Rightarrow> bool" for A N L K R B C Q
where
  Start: "\<lbrakk>route_table_try_new routes = Inr t; length shards = length routes;
    \<And>i. i < length shards \<Longrightarrow> fresh_shard A N L K R B C Q (shards ! i) \<and> sh_route (shards ! i) \<in> set routes \<and>
      unat (ir_shard_id (sh_route (shards ! i))) = i\<rbrakk> \<Longrightarrow>
    exchange_reachable A N L K R B C Q \<lparr>ex_routes = t, ex_shards = shards\<rparr>"
| Route: "\<lbrakk>exchange_reachable A N L K R B C Q ex; route_command C (router_of ex) command = Some (r, out)\<rbrakk> \<Longrightarrow>
    exchange_reachable A N L K R B C Q (with_router ex r)"
| Take: "\<lbrakk>exchange_reachable A N L K R B C Q ex; try_event Q (router_of ex) s = Some (r, taken)\<rbrakk> \<Longrightarrow>
    exchange_reachable A N L K R B C Q (with_router ex r)"
| Process: "\<lbrakk>exchange_reachable A N L K R B C Q ex; i < length (ex_shards ex);
    try_process_one A N L K R B C Q (ex_shards ex ! i) = Some (sh, step)\<rbrakk> \<Longrightarrow>
    exchange_reachable A N L K R B C Q (ex\<lparr>ex_shards := (ex_shards ex)[i := sh]\<rparr>)"

definition shard_good :: "nat \<Rightarrow> nat \<Rightarrow> nat \<Rightarrow> nat \<Rightarrow> nat \<Rightarrow> nat \<Rightarrow> shard \<Rightarrow> bool" where
  "shard_good A N L K C Q sh \<longleftrightarrow> (\<exists>queued batches. shard_inv A N L K C Q sh queued batches \<and>
     (\<forall>c \<in> set (backlog sh queued). command_instrument_id c = ir_instrument_id (sh_route sh)))"

definition exchange_inv :: "nat \<Rightarrow> nat \<Rightarrow> nat \<Rightarrow> nat \<Rightarrow> nat \<Rightarrow> nat \<Rightarrow> exchange \<Rightarrow> bool" where
  "exchange_inv A N L K C Q ex \<longleftrightarrow>
     (\<forall>sh \<in> set (ex_shards ex). shard_good A N L K C Q sh) \<and>
     (\<forall>ins s. shard_for (ex_routes ex) ins = Some s \<longrightarrow>
        unat s < length (ex_shards ex) \<and> ir_instrument_id (sh_route (ex_shards ex ! unat s)) = ins)"

lemma exchange_invD:
  assumes "exchange_inv A N L K C Q ex"
  shows "i < length (ex_shards ex) \<Longrightarrow> shard_good A N L K C Q (ex_shards ex ! i)"
    "shard_for (ex_routes ex) ins = Some s \<Longrightarrow> unat s < length (ex_shards ex)"
    "shard_for (ex_routes ex) ins = Some s \<Longrightarrow> ir_instrument_id (sh_route (ex_shards ex ! unat s)) = ins"
  using assms by (auto simp: exchange_inv_def)

text \<open>One shard changes and keeps its route.\<close>

lemma exchange_inv_update:
  assumes inv: "exchange_inv A N L K C Q ex" and sh: "shard_good A N L K C Q sh" "sh_route sh = sh_route (ex_shards ex ! i)"
    and i: "i < length (ex_shards ex)"
  shows "exchange_inv A N L K C Q (ex\<lparr>ex_shards := (ex_shards ex)[i := sh]\<rparr>)"
  using inv sh i set_update_subset_insert [of "ex_shards ex" i sh]
  by (auto simp: exchange_inv_def nth_list_update)

lemma attach_own [simp]: "attach (sh, sh_commands sh, en_channel (sh_engine sh)) = sh"
  by (simp add: attach_def)

lemma attach_all:
  "map attach (zip shs (zip (map sh_commands shs) (map (\<lambda>sh. en_channel (sh_engine sh)) shs))) = shs"
  "i < length shs \<Longrightarrow>
     map attach (zip shs (zip ((map sh_commands shs)[i := ch]) (map (\<lambda>sh. en_channel (sh_engine sh)) shs))) =
     shs[i := (shs ! i)\<lparr>sh_commands := ch\<rparr>]"
  "i < length shs \<Longrightarrow>
     map attach (zip shs (zip (map sh_commands shs) ((map (\<lambda>sh. en_channel (sh_engine sh)) shs)[i := ev]))) =
     shs[i := (shs ! i)\<lparr>sh_engine := (sh_engine (shs ! i))\<lparr>en_channel := ev\<rparr>\<rparr>]"
  by (rule nth_equalityI; simp add: nth_list_update; simp add: attach_def)+

lemma with_router_id: "with_router ex (router_of ex) = ex"
proof -
  have "with_router ex (router_of ex) = ex\<lparr>ex_shards := ex_shards ex\<rparr>"
    unfolding with_router_def router_of_def router.select_convs attach_all(1) ..
  then show ?thesis by simp
qed

lemma with_router_update:
  assumes "i < length (ex_shards ex)"
  shows "with_router ex ((router_of ex)\<lparr>mr_commands := (mr_commands (router_of ex))[i := ch]\<rparr>) =
      ex\<lparr>ex_shards := (ex_shards ex)[i := (ex_shards ex ! i)\<lparr>sh_commands := ch\<rparr>]\<rparr>"
    "with_router ex ((router_of ex)\<lparr>mr_events := (mr_events (router_of ex))[i := ev]\<rparr>) =
      ex\<lparr>ex_shards := (ex_shards ex)[i := (ex_shards ex ! i)\<lparr>sh_engine := (sh_engine (ex_shards ex ! i))\<lparr>en_channel := ev\<rparr>\<rparr>]\<rparr>"
  unfolding with_router_def router_of_def router.select_convs router.update_convs attach_all(2,3) [OF assms] by (rule refl)+

lemma get_router_of:
  "get (mr_commands (router_of ex)) i = (if i < length (ex_shards ex) then Some (sh_commands (ex_shards ex ! i)) else None)"
  "get (mr_events (router_of ex)) i = (if i < length (ex_shards ex) then Some (en_channel (sh_engine (ex_shards ex ! i))) else None)"
  "mr_routes (router_of ex) = ex_routes ex"
  by (simp_all add: router_of_def get_def)

text \<open>Routing pushes the command to the queue of the shard that owns its instrument, or changes nothing.\<close>

lemma route_command_inv:
  assumes inv: "exchange_inv A N L K C Q ex"
  shows "\<exists>r out. route_command C (router_of ex) command = Some (r, out) \<and> exchange_inv A N L K C Q (with_router ex r)"
proof (cases "shard_for (ex_routes ex) (command_instrument_id command)")
  case None
  then show ?thesis using inv by (simp add: route_command_def get_router_of with_router_id)
next
  case (Some s)
  note D = exchange_invD(2,3) [OF inv Some]
  let ?sh = "ex_shards ex ! unat s"
  obtain queued batches where q: "shard_inv A N L K C Q ?sh queued batches"
      "\<forall>c \<in> set (backlog ?sh queued). command_instrument_id c = ir_instrument_id (sh_route ?sh)"
    using exchange_invD(1) [OF inv D(1)] by (auto simp: shard_good_def)
  obtain ch out queued' where p: "try_push C (sh_commands ?sh) command = Some (ch, out)" "channel_ok C ch queued'"
      "queued' = queued \<or> queued' = queued @ [command]"
    using chan.push_law [of C "sh_commands ?sh" queued command] q(1) unfolding shard_inv_def by metis
  have "shard_good A N L K C Q (?sh\<lparr>sh_commands := ch\<rparr>)"
    unfolding shard_good_def using q p(2,3) D(2)
    by (intro exI [of _ queued'] exI [of _ batches]) (auto simp: shard_inv_def backlog_def split: option.splits)
  then have "exchange_inv A N L K C Q (ex\<lparr>ex_shards := (ex_shards ex)[unat s := ?sh\<lparr>sh_commands := ch\<rparr>]\<rparr>)"
    using D(1) by (intro exchange_inv_update [OF inv]) simp_all
  then show ?thesis using Some D(1) p(1)
    by (simp add: route_command_def get_router_of with_router_update)
qed

lemma try_event_inv:
  assumes inv: "exchange_inv A N L K C Q ex"
  shows "\<exists>r out. try_event Q (router_of ex) s = Some (r, out) \<and> exchange_inv A N L K C Q (with_router ex r)"
proof (cases "unat s < length (ex_shards ex)")
  case False
  then show ?thesis using inv by (simp add: try_event_def get_router_of with_router_id)
next
  case True
  let ?sh = "ex_shards ex ! unat s"
  obtain queued batches where q: "shard_inv A N L K C Q ?sh queued batches"
      "\<forall>c \<in> set (backlog ?sh queued). command_instrument_id c = ir_instrument_id (sh_route ?sh)"
    using exchange_invD(1) [OF inv True] by (auto simp: shard_good_def)
  have ch: "channel_ok Q (en_channel (sh_engine ?sh)) batches" using q(1) by (simp add: shard_inv_def engine_inv_def)
  obtain ch b batches' where p: "try_pop Q (en_channel (sh_engine ?sh)) = Some (ch, b)" "channel_ok Q ch batches'"
    using chan.pop_law [OF ch] by (cases batches) auto
  let ?sh' = "?sh\<lparr>sh_engine := (sh_engine ?sh)\<lparr>en_channel := ch\<rparr>\<rparr>"
  have "shard_good A N L K C Q ?sh'"
    unfolding shard_good_def using q p(2)
    by (intro exI [of _ queued] exI [of _ batches']) (simp add: shard_inv_def engine_inv_def backlog_def)
  then have "exchange_inv A N L K C Q (ex\<lparr>ex_shards := (ex_shards ex)[unat s := ?sh']\<rparr>)"
    using True by (intro exchange_inv_update [OF inv]) simp_all
  then show ?thesis using True p(1) by (simp add: try_event_def get_router_of with_router_update)
qed

lemma process_inv:
  assumes inv: "exchange_inv A N L K C Q ex" and i: "i < length (ex_shards ex)" and dims: "event_dims A N L K R B"
  shows "\<exists>sh out. try_process_one A N L K R B C Q (ex_shards ex ! i) = Some (sh, out) \<and>
    (\<forall>e r. out \<noteq> Inl (Misrouted e r)) \<and> exchange_inv A N L K C Q (ex\<lparr>ex_shards := (ex_shards ex)[i := sh]\<rparr>)"
proof -
  let ?sh = "ex_shards ex ! i"
  obtain queued batches where q: "shard_inv A N L K C Q ?sh queued batches"
      "\<forall>c \<in> set (backlog ?sh queued). command_instrument_id c = ir_instrument_id (sh_route ?sh)"
    using exchange_invD(1) [OF inv i] by (auto simp: shard_good_def)
  obtain sh out queued' batches' where p: "try_process_one A N L K R B C Q ?sh = Some (sh, out)"
      "shard_inv A N L K C Q sh queued' batches'" "sh_route sh = sh_route ?sh"
      "shard_outcome A N L K R Q ?sh queued batches sh (backlog sh queued') batches' out"
    using try_process_one_ok [OF q(1) dims] by blast
  have "set (backlog sh queued') \<subseteq> set (backlog ?sh queued) \<and> (\<forall>e r. out \<noteq> Inl (Misrouted e r))"
    using p(4) q(2) by (cases "backlog ?sh queued") (auto simp: shard_outcome_def split: if_splits)
  then have "shard_good A N L K C Q sh" "\<forall>e r. out \<noteq> Inl (Misrouted e r)"
    using p(2,3) q(2) unfolding shard_good_def by (metis subsetD)+
  then show ?thesis using p(1,3) exchange_inv_update [OF inv _ _ i] by blast
qed

lemma fresh_shard_good:
  assumes "fresh_shard A N L K R B C Q sh"
  shows "shard_good A N L K C Q sh"
proof -
  obtain gw commands events where f: "shard_try_new R B (sh_route sh) gw commands events = Inr sh"
      "gateway_reachable A N L K (ob_instrument (gw_book gw)) gw" "channel_ok C commands []" "channel_ok Q events []"
    using assms by (auto simp: fresh_shard_def)
  then have "sh = \<lparr>sh_route = sh_route sh, sh_commands = commands, sh_engine = \<lparr>en_gateway = gw, en_channel = events\<rparr>, sh_pending = None\<rparr>"
      "ir_instrument_id (sh_route sh) = ob_instrument (gw_book gw)"
    by (auto simp: shard_try_new_def event_engine_try_new_def and_then_def map_err_def split: if_splits)
  then have "sh_commands sh = commands" "sh_engine sh = \<lparr>en_gateway = gw, en_channel = events\<rparr>" "sh_pending sh = None"
    by (metis shard.select_convs(2), metis shard.select_convs(3), metis shard.select_convs(4))
  with f \<open>ir_instrument_id (sh_route sh) = _\<close> show ?thesis
    unfolding shard_good_def
    by (intro exI [of _ "[]"]) (simp add: shard_inv_def engine_inv_def backlog_def)
qed

lemma reachable_exchange_inv:
  assumes "exchange_reachable A N L K R B C Q ex" "event_dims A N L K R B"
  shows "exchange_inv A N L K C Q ex"
  using assms
proof (induction rule: exchange_reachable.induct)
  case (Start routes t shards)
  note t = route_table_of [OF Start(1)]
  note v = table_ofD(1) [OF t]
  have "unat s < length shards \<and> ir_instrument_id (sh_route (shards ! unat s)) = ins" if "shard_for t ins = Some s" for ins s
  proof -
    have r: "\<lparr>ir_instrument_id = ins, ir_shard_id = s\<rparr> \<in> set routes" using that shard_for_iff [OF t] by blast
    then have lt: "unat s < length shards" using v Start(2) unfolding valid_routes_def by fastforce
    then have r': "sh_route (shards ! unat s) \<in> set routes" "ir_shard_id (sh_route (shards ! unat s)) = s"
      using Start(3) [of "unat s"] by (auto simp: unat_eq_iff_shard)
    have "inj_on ir_shard_id (set routes)" using v by (simp add: valid_routes_def distinct_map)
    then have "sh_route (shards ! unat s) = \<lparr>ir_instrument_id = ins, ir_shard_id = s\<rparr>"
      by (rule inj_onD [OF _ _ r'(1) r]) (simp add: r'(2))
    with lt show ?thesis by simp
  qed
  moreover have "shard_good A N L K C Q sh" if "sh \<in> set shards" for sh
    using that Start(3) fresh_shard_good by (metis in_set_conv_nth)
  ultimately show ?case by (simp add: exchange_inv_def)
next
  case (Route ex command r out)
  then show ?case using route_command_inv [of A N L K C Q ex command] by auto
next
  case (Take ex s r taken)
  then show ?case using try_event_inv [of A N L K C Q ex s] by auto
next
  case (Process ex i sh step)
  then show ?case using process_inv [of A N L K C Q ex i R B] by auto
qed

section \<open>Properties\<close>

text \<open>
  C34. The route table is a bijection between instruments and shards and its lookups are exact: an
  accepted table finds the shard of an instrument, by offset or by binary search alike, exactly when
  the routes assign it, finds the instrument of a shard exactly when the routes assign it, and is the
  same table for every order of the routes.
\<close>

theorem route_lookup_exact:
  assumes "route_table_try_new routes = Inr t"
  shows "(\<forall>ins s. shard_for t ins = Some s \<longleftrightarrow> \<lparr>ir_instrument_id = ins, ir_shard_id = s\<rparr> \<in> set routes) \<and>
    (\<forall>ins s. instrument_for t s = Some ins \<longleftrightarrow> shard_for t ins = Some s) \<and>
    (\<forall>routes'. mset routes = mset routes' \<longrightarrow> route_table_try_new routes' = Inr t)"
proof -
  note t = route_table_of [OF assms]
  show ?thesis
    using shard_for_iff [OF t] instrument_for_iff [OF t] route_table_permuted [OF _ table_ofD(1) [OF t]] assms by simp
qed

definition demo_routes :: "instrument_route list" where
  "demo_routes = [\<lparr>ir_instrument_id = 9, ir_shard_id = 1\<rparr>, \<lparr>ir_instrument_id = 7, ir_shard_id = 0\<rparr>]"

theorem route_lookup_exact_witness:
  "\<exists>t. route_table_try_new demo_routes = Inr t \<and> shard_for t 9 = Some 1 \<and> instrument_for t 0 = Some 7 \<and> shard_for t 8 = None \<and>
     route_table_try_new (rev demo_routes) = Inr t"
proof -
  have v: "valid_routes demo_routes" by (simp add: valid_routes_def demo_routes_def)
  obtain t where t: "route_table_try_new demo_routes = Inr t" using route_table_try_new_ok [OF v] by blast
  note R = route_lookup_exact [OF t]
  have "shard_for t 9 = Some 1" "shard_for t 7 = Some 0" "\<forall>s. shard_for t 8 \<noteq> Some s"
    using R by (simp_all add: demo_routes_def)
  moreover have "mset demo_routes = mset (rev demo_routes)" by simp
  ultimately show ?thesis using t R by (metis not_None_eq)
qed

text \<open>
  C13. A shard loses no command and keeps their order: one step takes the oldest command of the backlog
  (held-back command first, then the queue). It is processed and published, or refused with an
  explicit error (misrouted, wrong sequence) and dropped, or, when the event queue is full, held back
  so that the backlog and the gateway are unchanged. An empty backlog is idle.
\<close>

theorem shard_step_exact:
  assumes "shard_inv A N L K C Q sh queued batches" "event_dims A N L K R B"
  shows "\<exists>sh' out queued' batches'. try_process_one A N L K R B C Q sh = Some (sh', out) \<and>
    shard_inv A N L K C Q sh' queued' batches' \<and> sh_route sh' = sh_route sh \<and>
    shard_outcome A N L K R Q sh queued batches sh' (backlog sh' queued') batches' out"
  by (rule try_process_one_ok [OF assms])

text \<open>A shard for instrument 7 with one queued order.\<close>

definition demo_shard :: shard where
  "demo_shard = \<lparr>sh_route = \<lparr>ir_instrument_id = 7, ir_shard_id = 0\<rparr>,
     sh_commands = channel_of \<lparr>sq_head = 0, sq_tail = 0, sq_slots = replicate 2 None\<rparr>,
     sh_engine = demo_engine, sh_pending = Some (NewOrder demo_reserve)\<rparr>"

theorem shard_step_exact_witness:
  "\<exists>sh' queued' batch. try_process_one 1 2 1 1 4 6 2 2 demo_shard = Some (sh', Inr (ShardProcessed 1)) \<and>
    backlog demo_shard [] = [NewOrder demo_reserve] \<and> backlog sh' queued' = [] \<and>
    shard_inv 1 2 1 1 2 2 sh' queued' [batch]"
proof -
  have inv: "shard_inv 1 2 1 1 2 2 demo_shard [] []"
    using channel_new_ok [OF demo_ring_new] demo_engine_inv by (simp add: shard_inv_def demo_shard_def)
  have b: "backlog demo_shard [] = [NewOrder demo_reserve]" by (simp add: backlog_def demo_shard_def)
  have ok: "command_instrument_id (NewOrder demo_reserve) = ir_instrument_id (sh_route demo_shard)"
      "admitted (en_gateway (sh_engine demo_shard)) (NewOrder demo_reserve)" "command_sequence (NewOrder demo_reserve) = 1"
    using demo_admitted by (simp_all add: demo_shard_def demo_engine_def demo_reserve_def)
  obtain sh' out queued' batches' where r: "try_process_one 1 2 1 1 4 6 2 2 demo_shard = Some (sh', out)"
      "shard_inv 1 2 1 1 2 2 sh' queued' batches'"
      "shard_outcome 1 2 1 1 4 2 demo_shard [] [] sh' (backlog sh' queued') batches' out"
    using shard_step_exact [OF inv demo_event_dims] by blast
  from r(3) ok have "out = Inr (ShardProcessed 1)" "backlog sh' queued' = []" "\<exists>batch. batches' = [batch]"
    by (auto simp: shard_outcome_def b)
  with r(1,2) b show ?thesis by blast
qed

lemma accepted_route_queued:
  assumes inv: "exchange_inv A N L K C Q ex" and ok: "route_command C (router_of ex) command = Some (r, Inr s)"
  shows "unat s < length (ex_shards ex) \<and>
    ir_instrument_id (sh_route (ex_shards ex ! unat s)) = command_instrument_id command \<and>
    (\<exists>queued. channel_ok C (sh_commands (ex_shards ex ! unat s)) queued \<and> channel_ok C (mr_commands r ! unat s) (queued @ [command]))"
proof -
  obtain s0 where s0: "shard_for (ex_routes ex) (command_instrument_id command) = Some s0"
    using ok by (cases "shard_for (ex_routes ex) (command_instrument_id command)") (auto simp: route_command_def get_router_of)
  note D = exchange_invD(2,3) [OF inv s0]
  obtain queued batches where q: "shard_inv A N L K C Q (ex_shards ex ! unat s0) queued batches"
    using exchange_invD(1) [OF inv D(1)] by (auto simp: shard_good_def)
  then have ch: "channel_ok C (sh_commands (ex_shards ex ! unat s0)) queued" by (simp add: shard_inv_def)
  have "length (mr_commands (router_of ex)) = length (ex_shards ex)" by (simp add: router_of_def)
  with ok s0 D(1) chan.push_law [OF ch, of command]
  have "s = s0 \<and> channel_ok C (mr_commands r ! unat s) (queued @ [command])"
    by (auto simp: route_command_def get_router_of split: if_splits)
  with D ch show ?thesis by blast
qed

text \<open>
  C12. Router and shards compose: in every reachable exchange, whatever was routed, processed and taken
  before, routing and processing never panic, no shard ever receives a command of another instrument,
  and a command the router accepts is the last in the queue of the shard whose route has its instrument.
\<close>

theorem exchange_never_misroutes:
  assumes "exchange_reachable A N L K R B C Q ex" "event_dims A N L K R B"
  shows "(\<forall>command. route_command C (router_of ex) command \<noteq> None) \<and>
    (\<forall>command r s. route_command C (router_of ex) command = Some (r, Inr s) \<longrightarrow> unat s < length (ex_shards ex) \<and>
       ir_instrument_id (sh_route (ex_shards ex ! unat s)) = command_instrument_id command \<and>
       (\<exists>queued. channel_ok C (sh_commands (ex_shards ex ! unat s)) queued \<and> channel_ok C (mr_commands r ! unat s) (queued @ [command]))) \<and>
    (\<forall>s. try_event Q (router_of ex) s \<noteq> None) \<and>
    (\<forall>i < length (ex_shards ex). \<exists>sh out. try_process_one A N L K R B C Q (ex_shards ex ! i) = Some (sh, out) \<and>
       (\<forall>expected received. out \<noteq> Inl (Misrouted expected received)))"
proof -
  note inv = reachable_exchange_inv [OF assms]
  have "route_command C (router_of ex) command \<noteq> None" "try_event Q (router_of ex) s \<noteq> None" for command s
    using route_command_inv [OF inv, of command] try_event_inv [OF inv, of s] by auto
  then show ?thesis
    using accepted_route_queued [OF inv] process_inv [OF inv _ assms(2)] by (intro conjI allI impI) metis+
qed

definition demo_exchange :: exchange where
  "demo_exchange = \<lparr>ex_routes = \<lparr>rt_by_instrument = [\<lparr>ir_instrument_id = 7, ir_shard_id = 0\<rparr>], rt_by_shard = [0], rt_dense = True\<rparr>,
     ex_shards = [demo_shard\<lparr>sh_pending := None\<rparr>]\<rparr>"

lemma demo_exchange_reachable: "exchange_reachable 1 2 1 1 4 6 2 2 demo_exchange"
proof -
  let ?routes = "[\<lparr>ir_instrument_id = 7, ir_shard_id = 0\<rparr>] :: instrument_route list"
  have t: "route_table_try_new ?routes = Inr (ex_routes demo_exchange)"
    by (simp add: route_table_try_new_def Let_def and_then_def demo_exchange_def)
  have ins: "ob_instrument (gw_book demo_gateway) = 7"
    using reachable_gateway_inv [OF demo_gateway_reachable demo_gateway_dims] by blast
  have "fresh_shard 1 2 1 1 4 6 2 2 (demo_shard\<lparr>sh_pending := None\<rparr>)"
    unfolding fresh_shard_def using demo_gateway_reachable channel_new_ok [OF demo_ring_new] channel_new_ok [OF demo_ring_new]
    by (intro exI [of _ demo_gateway] exI [of _ "sh_commands demo_shard"] exI [of _ "en_channel demo_engine"])
      (simp add: shard_try_new_def event_engine_try_new_def and_then_def map_err_def demo_shard_def demo_engine_def ins)
  then show ?thesis unfolding demo_exchange_def
    by (intro exchange_reachable.Start [of ?routes]) (use t in \<open>simp_all add: demo_exchange_def demo_shard_def\<close>)
qed

theorem exchange_never_misroutes_witness:
  "route_command 2 (router_of demo_exchange) (NewOrder demo_reserve) \<noteq> None \<and>
    (\<exists>sh out. try_process_one 1 2 1 1 4 6 2 2 (ex_shards demo_exchange ! 0) = Some (sh, out))"
  using exchange_never_misroutes [OF demo_exchange_reachable demo_event_dims] by (fastforce simp: demo_exchange_def)

end
