(* ===== verification/Session.thy ===== *)
theory Session
  imports Types
begin

text \<open>
  The session state machine of \<^verbatim>\<open>crates/hft-session/src/lib.rs\<close>: connection lifecycle, inbound
  sequencing and virtual-time deadlines. \<open>handle\<close> and \<open>tick\<close> take \<open>&mut self\<close> and return a
  Result, so they are functions to a pair of the new machine and the Result: a refusal may have
  written fields before it was returned, and the model keeps those writes.
\<close>

section \<open>States, events and errors\<close>

datatype session_state =
  Disconnected | Connecting | Logon | Active | Recovering | Logout | Failed

datatype session_event =
    Connect | LogonSent | LogonAccepted sequence_number | Command sequence_number
  | HeartbeatReceived | LogoutSent | Disconnect | Fail

datatype session_error =
    InvalidTransition session_state string
  | Gap sequence_number sequence_number
  | DuplicateSequence sequence_number sequence_number
  | NotActive
  | SessionOverflow

record session_config =
  logon_timeout_ticks :: u64
  heartbeat_timeout_ticks :: u64

record transition =
  tr_state :: session_state
  tr_deadline :: "u64 option"

record session =
  s_state :: session_state
  s_config :: session_config
  s_next_sequence :: u64
  s_deadline :: "u64 option"
  s_heartbeat_timeouts :: u32

definition session_config_default :: session_config where
  "session_config_default = \<lparr>logon_timeout_ticks = 100, heartbeat_timeout_ticks = 50\<rparr>"

definition session_new :: "session_config \<Rightarrow> session" where
  "session_new config = \<lparr>s_state = Disconnected, s_config = config, s_next_sequence = 1,
     s_deadline = None, s_heartbeat_timeouts = 0\<rparr>"

fun event_name :: "session_event \<Rightarrow> string" where
  "event_name Connect = ''connect''"
| "event_name LogonSent = ''logon_sent''"
| "event_name (LogonAccepted _) = ''logon_accepted''"
| "event_name (Command _) = ''command''"
| "event_name HeartbeatReceived = ''heartbeat_received''"
| "event_name LogoutSent = ''logout_sent''"
| "event_name Disconnect = ''disconnect''"
| "event_name Fail = ''fail''"

section \<open>The private steps\<close>

definition snapshot :: "session \<Rightarrow> transition" where
  "snapshot s = \<lparr>tr_state = s_state s, tr_deadline = s_deadline s\<rparr>"

definition enter ::
  "session \<Rightarrow> session_state \<Rightarrow> u64 option \<Rightarrow> session \<times> (session_error + transition)" where
  "enter s state deadline =
     (let s' = s\<lparr>s_state := state, s_deadline := deadline\<rparr> in (s', Inr (snapshot s')))"

definition arm ::
  "session \<Rightarrow> session_state \<Rightarrow> u64 \<Rightarrow> u64 \<Rightarrow> session \<times> (session_error + transition)" where
  "arm s state timeout now =
     (case checked_add now timeout of
        None \<Rightarrow> (s, Inl SessionOverflow)
      | Some deadline \<Rightarrow>
          let s' = s\<lparr>s_state := state, s_deadline := Some deadline\<rparr> in (s', Inr (snapshot s')))"

definition reset :: "session \<Rightarrow> session" where
  "reset s = s\<lparr>s_next_sequence := 1, s_deadline := None, s_heartbeat_timeouts := 0\<rparr>"

definition allows_commands :: "session \<Rightarrow> bool" where
  "allows_commands s \<longleftrightarrow> s_state s = Active \<or> s_state s = Recovering"

section \<open>Events\<close>

definition handle_command ::
  "session \<Rightarrow> sequence_number \<Rightarrow> u64 \<Rightarrow> session \<times> (session_error + transition)" where
  "handle_command s received now =
     (if received < s_next_sequence s
      then (s, Inl (DuplicateSequence received (s_next_sequence s)))
      else if received > s_next_sequence s
      then (s, Inl (Gap (s_next_sequence s) received))
      else
        (case checked_add (s_next_sequence s) 1 of
           None \<Rightarrow> (s, Inl SessionOverflow)
         | Some next \<Rightarrow>
             let s = s\<lparr>s_next_sequence := next, s_heartbeat_timeouts := 0, s_state := Active\<rparr>
             in arm s (s_state s) (heartbeat_timeout_ticks (s_config s)) now))"

definition handle ::
  "session \<Rightarrow> session_event \<Rightarrow> u64 \<Rightarrow> session \<times> (session_error + transition)" where
  "handle s event now =
     (case (s_state s, event) of
        (Disconnected, Connect) \<Rightarrow> enter s Connecting None
      | (Connecting, LogonSent) \<Rightarrow> arm s Logon (logon_timeout_ticks (s_config s)) now
      | (Logon, LogonAccepted first_sequence) \<Rightarrow>
          if first_sequence = 0 then (s, Inl SessionOverflow)
          else
            let s = s\<lparr>s_next_sequence := first_sequence, s_heartbeat_timeouts := 0\<rparr>
            in arm s Active (heartbeat_timeout_ticks (s_config s)) now
      | (Active, Command sequence) \<Rightarrow> handle_command s sequence now
      | (Recovering, Command sequence) \<Rightarrow> handle_command s sequence now
      | (Active, HeartbeatReceived) \<Rightarrow> arm s Active (heartbeat_timeout_ticks (s_config s)) now
      | (Connecting, LogoutSent) \<Rightarrow> enter s Logout None
      | (Logon, LogoutSent) \<Rightarrow> enter s Logout None
      | (Active, LogoutSent) \<Rightarrow> enter s Logout None
      | (Recovering, LogoutSent) \<Rightarrow> enter s Logout None
      | (state, Disconnect) \<Rightarrow>
          if state \<noteq> Failed then enter (reset s) Disconnected None
          else (s, Inl (InvalidTransition state (event_name Disconnect)))
      | (_, Fail) \<Rightarrow> enter (reset s) Failed None
      | (state, event) \<Rightarrow> (s, Inl (InvalidTransition state (event_name event))))"

section \<open>Virtual time\<close>

text \<open>\<open>heartbeat_timeouts += 1\<close> on a \<open>u32\<close> is a word addition: the release build wraps.\<close>

definition tick :: "session \<Rightarrow> u64 \<Rightarrow> session \<times> (session_error + transition)" where
  "tick s now =
     (case s_deadline s of
        None \<Rightarrow> (s, Inr (snapshot s))
      | Some deadline \<Rightarrow>
          if now < deadline then (s, Inr (snapshot s))
          else
            (case s_state s of
               Logon \<Rightarrow> enter (reset s) Failed None
             | Active \<Rightarrow>
                 let s = s\<lparr>s_heartbeat_timeouts := s_heartbeat_timeouts s + 1\<rparr> in
                 (case checked_add now (heartbeat_timeout_ticks (s_config s)) of
                    None \<Rightarrow> (s, Inl SessionOverflow)
                  | Some deadline \<Rightarrow>
                      let s = s\<lparr>s_state := Recovering, s_deadline := Some deadline\<rparr> in
                      (s, Inr \<lparr>tr_state = Recovering, tr_deadline = s_deadline s\<rparr>))
             | Recovering \<Rightarrow>
                 let s = s\<lparr>s_heartbeat_timeouts := s_heartbeat_timeouts s + 1\<rparr>
                 in enter (reset s) Failed None
             | _ \<Rightarrow> (s, Inr (snapshot s))))"

section \<open>Runs\<close>

datatype session_input = Event session_event u64 | Tick u64

fun step :: "session \<Rightarrow> session_input \<Rightarrow> session \<times> (session_error + transition)" where
  "step s (Event e now) = handle s e now"
| "step s (Tick now) = tick s now"

fun run :: "session \<Rightarrow> session_input list \<Rightarrow> session" where
  "run s [] = s"
| "run s (i # is) = run (fst (step s i)) is"

text \<open>The commands a run accepts, in order.\<close>

fun accepted_sequences :: "session \<Rightarrow> session_input list \<Rightarrow> sequence_number list" where
  "accepted_sequences s [] = []"
| "accepted_sequences s (i # is) =
     (case (i, snd (step s i)) of
        (Event (Command sequence) _, Inr _) \<Rightarrow> sequence # accepted_sequences (fst (step s i)) is
      | _ \<Rightarrow> accepted_sequences (fst (step s i)) is)"

inductive reachable :: "session_config \<Rightarrow> session \<Rightarrow> bool" for config where
  start: "reachable config (session_new config)"
| step: "reachable config s \<Longrightarrow> reachable config (fst (step s i))"

text \<open>Which lifecycle states carry a deadline, and what the sequence counter can be.\<close>

definition session_inv :: "session \<Rightarrow> bool" where
  "session_inv s \<longleftrightarrow>
     (s_deadline s \<noteq> None \<longleftrightarrow> s_state s \<in> {Logon, Active, Recovering}) \<and>
     s_next_sequence s \<noteq> 0 \<and>
     (s_state s \<in> {Disconnected, Failed} \<longrightarrow> s_next_sequence s = 1)"

section \<open>Step lemmas\<close>

lemmas session_steps = enter_def arm_def reset_def snapshot_def handle_command_def Let_def

lemma handle_config [simp]: "s_config (fst (handle s e now)) = s_config s"
  by (cases "s_state s"; cases e) (auto simp: handle_def session_steps split: option.splits)

lemma tick_config [simp]: "s_config (fst (tick s now)) = s_config s"
  by (cases "s_state s") (auto simp: tick_def session_steps split: option.splits)

lemma step_config [simp]: "s_config (fst (step s i)) = s_config s"
  by (cases i) simp_all

lemma not_zero_after_checked_add:
  fixes q n :: "'a::len word"
  assumes "checked_add q 1 = Some n"
  shows "n \<noteq> 0"
proof -
  have "uint n = uint q + 1"
    using assms uint_add_bounded [of q 1] by (auto simp: checked_iff)
  moreover have "0 \<le> uint q" by simp
  ultimately have "0 < uint n" by linarith
  then show ?thesis by auto
qed

lemma handle_inv: "session_inv s \<Longrightarrow> session_inv (fst (handle s e now))"
  by (cases "s_state s"; cases e)
    (auto simp: handle_def session_inv_def session_steps dest: not_zero_after_checked_add
      split: option.splits)

lemma tick_inv: "session_inv s \<Longrightarrow> session_inv (fst (tick s now))"
  by (cases "s_state s") (auto simp: tick_def session_inv_def session_steps split: option.splits)

lemma step_inv: "session_inv s \<Longrightarrow> session_inv (fst (step s i))"
  by (cases i) (simp_all add: handle_inv tick_inv)

lemma session_new_inv: "session_inv (session_new config)"
  by (simp add: session_inv_def session_new_def)

lemma step_failed: "s_state s = Failed \<Longrightarrow> s_state (fst (step s i)) = Failed"
  by (cases i; cases "case i of Event e _ \<Rightarrow> e")
    (auto simp: handle_def tick_def session_steps split: option.splits)

lemma reachable_run: "reachable config s \<Longrightarrow> reachable config (run s is)"
  by (induction "is" arbitrary: s) (simp_all add: reachable.step)

text \<open>No clock value of the input overflows a deadline.\<close>

fun input_time :: "session_input \<Rightarrow> u64" where
  "input_time (Event _ now) = now"
| "input_time (Tick now) = now"

definition in_time :: "session \<Rightarrow> u64 \<Rightarrow> bool" where
  "in_time s now \<longleftrightarrow> uint now + uint (heartbeat_timeout_ticks (s_config s)) < 2 ^ 64"

fun is_logon :: "session_input \<Rightarrow> bool" where
  "is_logon (Event (LogonAccepted _) _) = True"
| "is_logon _ = False"

lemma command_ok:
  "(\<exists>t. snd (handle s (Command q) now) = Inr t) \<longleftrightarrow>
     allows_commands s \<and> q = s_next_sequence s \<and> uint q + 1 < 2 ^ 64 \<and> in_time s now"
  by (cases "s_state s")
    (auto simp: handle_def session_steps allows_commands_def in_time_def checked_add_def)

lemma command_effect:
  assumes "snd (handle s (Command q) now) = Inr t"
  shows "fst (handle s (Command q) now) = s\<lparr>s_state := Active, s_next_sequence := q + 1,
      s_deadline := Some (now + heartbeat_timeout_ticks (s_config s)), s_heartbeat_timeouts := 0\<rparr>"
  using assms
  by (cases "s_state s")
    (auto simp: handle_def session_steps checked_add_def split: if_splits)

lemma quiet_step:
  assumes "\<not> is_logon i" "in_time s (input_time i)" "\<And>q now. i \<noteq> Event (Command q) now"
  shows "(allows_commands (fst (step s i)) \<longrightarrow>
      allows_commands s \<and> s_next_sequence (fst (step s i)) = s_next_sequence s)"
  using assms
  by (cases i; cases "case i of Event e _ \<Rightarrow> e"; cases "s_state s")
    (auto simp: handle_def tick_def session_steps allows_commands_def split: option.splits if_splits)

lemma refused_command_unchanged:
  assumes "snd (handle s (Command q) now) = Inl e" "in_time s now"
  shows "fst (handle s (Command q) now) = s"
  using assms
  by (cases "s_state s")
    (auto simp: handle_def session_steps in_time_def checked_add_def split: if_splits)

lemma accepted_silent:
  assumes "\<not> allows_commands s" "\<forall>i\<in>set is. \<not> is_logon i \<and> in_time s (input_time i)"
  shows "accepted_sequences s is = []"
  using assms
proof (induction "is" arbitrary: s)
  case (Cons i "is")
  let ?s = "fst (step s i)"
  have "\<not> allows_commands ?s"
  proof (cases "\<exists>q now. i = Event (Command q) now")
    case True
    with Cons.prems show ?thesis
      using command_ok [of s] refused_command_unchanged [of s]
      by (metis input_time.simps(1) list.set_intros(1) step.simps(1) sum.exhaust_sel)
  next
    case False
    with Cons.prems quiet_step [of i s] show ?thesis by auto
  qed
  moreover have "in_time ?s t = in_time s t" for t
    by (simp add: in_time_def)
  ultimately have "accepted_sequences ?s is = []"
    using Cons by simp
  then show ?case
    using Cons.prems command_ok [of s]
    by (auto split: sum.splits session_input.splits session_event.splits)
qed simp

lemma accepted_consecutive_aux:
  assumes "\<forall>i\<in>set is. \<not> is_logon i \<and> in_time s (input_time i)"
  shows "accepted_sequences s is = map (\<lambda>k. s_next_sequence s + of_nat k) [0..<length (accepted_sequences s is)]"
  using assms
proof (induction "is" arbitrary: s)
  case (Cons i "is")
  let ?s = "fst (step s i)"
  have time: "in_time ?s t = in_time s t" for t
    by (simp add: in_time_def)
  have IH: "accepted_sequences ?s is = map (\<lambda>k. s_next_sequence ?s + of_nat k) [0..<length (accepted_sequences ?s is)]"
    using Cons.IH [of ?s] Cons.prems by (simp add: time)
  show ?case
  proof (cases "allows_commands ?s")
    case False
    then have silent: "accepted_sequences ?s is = []"
      using accepted_silent [of ?s "is"] Cons.prems by (simp add: time)
    show ?thesis
    proof (cases "\<exists>q now t. i = Event (Command q) now \<and> snd (step s i) = Inr t")
      case True
      with command_effect [of s] False show ?thesis
        by (auto simp: allows_commands_def)
    next
      case False
      with silent show ?thesis
        by (auto split: sum.splits session_input.splits session_event.splits)
    qed
  next
    case True
    show ?thesis
    proof (cases "\<exists>q now. i = Event (Command q) now")
      case False
      then have "accepted_sequences s (i # is) = accepted_sequences ?s is" "s_next_sequence ?s = s_next_sequence s"
        using quiet_step [of i s] Cons.prems True
        by (auto split: session_input.splits session_event.splits)
      with IH show ?thesis by simp
    next
      case True
      then obtain q now where i: "i = Event (Command q) now" by blast
      show ?thesis
      proof (cases "snd (step s i)")
        case (Inl e)
        then have "?s = s"
          using refused_command_unchanged [of s q now e] Cons.prems i by simp
        with IH Inl i show ?thesis by simp
      next
        case (Inr t)
        then have "q = s_next_sequence s" "s_next_sequence ?s = q + 1"
          using command_ok [of s q now] command_effect [of s q now t] i by auto
        moreover have "[0..<Suc n] = 0 # map Suc [0..<n]" for n
          by (simp add: map_Suc_upt upt_conv_Cons)
        ultimately show ?thesis
          using IH Inr i by (simp add: o_def add.assoc)
      qed
    qed
  qed
qed simp

text \<open>Without any condition on the clock: only a logon opens a session to commands or lowers what it expects.\<close>

lemma step_expected_mono:
  assumes "\<not> is_logon i" "allows_commands (fst (step s i))"
  shows "allows_commands s \<and> s_next_sequence s \<le> s_next_sequence (fst (step s i))"
proof -
  have "n \<le> n'" if "checked_add n 1 = Some n'" for n n' :: u64
    using that by (auto simp: checked_add_def word_le_def uint_add_bounded split: if_splits)
  with assms show ?thesis
    by (cases i; cases "case i of Event e _ \<Rightarrow> e"; cases "s_state s")
      (auto simp: handle_def tick_def session_steps allows_commands_def split: option.splits if_splits)
qed

lemma accepted_closed:
  "\<lbrakk>\<not> allows_commands s; \<forall>i\<in>set is. \<not> is_logon i\<rbrakk> \<Longrightarrow> accepted_sequences s is = []"
proof (induction "is" arbitrary: s)
  case (Cons i "is")
  then have "\<not> allows_commands (fst (step s i))" using step_expected_mono [of i s] by auto
  with Cons have "accepted_sequences (fst (step s i)) is = []" by simp
  with Cons.prems show ?case
    using command_ok [of s] by (auto split: sum.splits session_input.splits session_event.splits)
qed simp

lemma accepted_increasing:
  "\<forall>i\<in>set is. \<not> is_logon i \<Longrightarrow>
   sorted_wrt (<) (accepted_sequences s is) \<and> (\<forall>q\<in>set (accepted_sequences s is). s_next_sequence s \<le> q)"
proof (induction "is" arbitrary: s)
  case (Cons i "is")
  let ?s = "fst (step s i)"
  have IH: "sorted_wrt (<) (accepted_sequences ?s is)" "\<forall>q\<in>set (accepted_sequences ?s is). s_next_sequence ?s \<le> q"
    using Cons by simp_all
  show ?case
  proof (cases "\<exists>q now t. i = Event (Command q) now \<and> snd (step s i) = Inr t")
    case True
    then obtain q now t where i: "i = Event (Command q) now" "snd (handle s (Command q) now) = Inr t" by auto
    then have q: "q = s_next_sequence s" "uint q + 1 < 2 ^ 64" using command_ok [of s q now] by auto
    have "s_next_sequence ?s = q + 1" using command_effect [OF i(2)] i(1) by simp
    moreover have "q < q + 1" using q(2) by (simp add: word_less_def uint_add_bounded)
    ultimately show ?thesis using IH i q(1) by (auto intro: less_le_trans less_imp_le)
  next
    case False
    then have eq: "accepted_sequences s (i # is) = accepted_sequences ?s is"
      by (auto split: sum.splits session_input.splits session_event.splits)
    show ?thesis
    proof (cases "allows_commands ?s")
      case True
      with step_expected_mono [of i s] Cons.prems IH show ?thesis unfolding eq by (auto intro: order_trans)
    next
      case closed: False
      show ?thesis unfolding eq using accepted_closed [OF closed] Cons.prems by simp
    qed
  qed
qed simp

section \<open>Properties\<close>

text \<open>
  In every reachable session a deadline is armed exactly in Logon, Active and Recovering, the
  expected sequence is never 0, and a disconnected or failed session expects sequence 1.
\<close>

theorem reachable_session_inv:
  assumes "reachable config s"
  shows "session_inv s"
  using assms by (induction rule: reachable.induct) (simp_all add: session_new_inv step_inv)

theorem reachable_session_inv_witness:
  "session_inv (fst (step (session_new session_config_default) (Event Connect 5)))"
  by (rule reachable_session_inv [OF reachable.step [OF reachable.start]])

text \<open>
  A command is accepted exactly when the session is Active or Recovering, its sequence is the
  expected one and has a successor, and the new heartbeat deadline is representable. Acceptance
  makes the session Active, advances the expected sequence by one and re-arms the deadline.
\<close>

theorem command_accepted_iff:
  "(\<exists>t. handle s (Command q) now =
       (s\<lparr>s_state := Active, s_next_sequence := q + 1,
          s_deadline := Some (now + heartbeat_timeout_ticks (s_config s)),
          s_heartbeat_timeouts := 0\<rparr>, Inr t))
   \<longleftrightarrow> allows_commands s \<and> q = s_next_sequence s \<and> uint q + 1 < 2 ^ 64 \<and> in_time s now"
  using command_ok [of s q now] command_effect [of s q now] by (metis prod.collapse snd_conv)

text \<open>
  C38. Between two logons the accepted commands carry strictly increasing sequence numbers, none below the
  expected one: no duplicate and no reordering, whatever the peer sends and the clock shows. When
  moreover every clock value leaves room for a heartbeat deadline (\<open>in_time\<close>: \<open>now\<close> plus the heartbeat
  timeout fits in \<open>u64\<close>), they are consecutive from the expected number: no gap. The condition is
  needed: a command whose deadline overflows is refused and still consumes its number
  (\<open>refused_command_consumes_sequence\<close>), so the accepted ones skip it.
\<close>

theorem accepted_commands_consecutive:
  assumes "\<forall>i\<in>set is. \<not> is_logon i"
  shows "sorted_wrt (<) (accepted_sequences s is) \<and> (\<forall>q\<in>set (accepted_sequences s is). s_next_sequence s \<le> q) \<and>
    ((\<forall>i\<in>set is. in_time s (input_time i)) \<longrightarrow>
       accepted_sequences s is = map (\<lambda>k. s_next_sequence s + of_nat k) [0..<length (accepted_sequences s is)])"
  using accepted_increasing [OF assms, of s] accepted_consecutive_aux [of "is" s] assms by blast

definition demo_session :: session where
  "demo_session = run (session_new session_config_default)
     [Event Connect 0, Event LogonSent 1, Event (LogonAccepted 7) 2]"

theorem accepted_commands_consecutive_witness:
  "accepted_sequences demo_session [Event (Command 7) 3, Event (Command 9) 4, Tick 60, Event (Command 8) 61]
     = [7, 8]"
proof -
  let ?is = "[Event (Command 7) 3, Event (Command 9) 4, Tick 60, Event (Command 8) 61]"
  have "\<forall>i\<in>set ?is. \<not> is_logon i" "\<forall>i\<in>set ?is. in_time demo_session (input_time i)"
    by code_simp+
  with accepted_commands_consecutive [of ?is demo_session]
  have "accepted_sequences demo_session ?is =
      map (\<lambda>k. s_next_sequence demo_session + of_nat k) [0..<length (accepted_sequences demo_session ?is)]" by blast
  moreover have "length (accepted_sequences demo_session ?is) = 2" "s_next_sequence demo_session = 7"
    by code_simp+
  ultimately show ?thesis by (simp add: upt_conv_Cons)
qed

text \<open>
  A failed session stays failed: no event and no tick leads out of Failed.
\<close>

theorem failed_is_terminal:
  assumes "s_state s = Failed"
  shows "s_state (run s is) = Failed"
  using assms by (induction "is" arbitrary: s) (simp_all add: step_failed)

theorem failed_is_terminal_witness:
  "s_state (run (fst (handle demo_session Fail 9)) [Event Connect 10, Event Disconnect 11]) = Failed"
  by (rule failed_is_terminal) code_simp

text \<open>
  C39. What silence does to an Active session with deadline \<open>d\<close>, when the clock value of the first tick
  leaves room for the next heartbeat deadline (\<open>in_time\<close>): a tick before \<open>d\<close> changes nothing; a tick at or
  after \<open>d\<close> moves it to Recovering with a deadline one heartbeat timeout later, and a further tick before
  that deadline leaves it there, at or after that deadline fails it. A heartbeat timeout of zero is no exception,
  although the documentation of the configuration says that zero disables a deadline: the
  deadline is then the current time, and two ticks at one time fail the session.
\<close>

theorem silence_fails_session:
  assumes "s_state s = Active" "s_deadline s = Some d" "in_time s t1"
  shows "(t1 < d \<longrightarrow> run s [Tick t1] = s) \<and>
    (d \<le> t1 \<longrightarrow> s_state (run s [Tick t1]) = Recovering \<and>
       s_deadline (run s [Tick t1]) = Some (t1 + heartbeat_timeout_ticks (s_config s)) \<and>
       s_state (run s [Tick t1, Tick t2]) = (if t2 < t1 + heartbeat_timeout_ticks (s_config s) then Recovering else Failed)) \<and>
    (d \<le> t1 \<and> heartbeat_timeout_ticks (s_config s) = 0 \<longrightarrow> s_state (run s [Tick t1, Tick t1]) = Failed)"
  using assms by (auto simp: tick_def session_steps in_time_def checked_add_def)

theorem silence_fails_session_witness:
  "run demo_session [Tick 51] = demo_session \<and> s_state (run demo_session [Tick 52]) = Recovering \<and>
   s_state (run demo_session [Tick 52, Tick 101]) = Recovering \<and>
   s_state (run demo_session [Tick 52, Tick 102]) = Failed"
proof -
  have d: "s_state demo_session = Active" "s_deadline demo_session = Some 52"
    "in_time demo_session 51" "in_time demo_session 52" "heartbeat_timeout_ticks (s_config demo_session) = 50"
    by code_simp+
  show ?thesis
    using silence_fails_session [OF d(1,2,3), of 0] silence_fails_session [OF d(1,2,4), of 101]
      silence_fails_session [OF d(1,2,4), of 102] by (simp add: d(5) del: run.simps)
qed

text \<open>
  Zero timeouts do not disable the deadlines: with both timeouts zero, as in the benchmark fixture of
  \<^verbatim>\<open>crates/hft-bench/src/session_workloads.rs\<close>, a session that has sent its logon fails at the first
  tick, and one that has just become Active fails after two ticks at the time of its logon.
\<close>

definition zero_config :: session_config where
  "zero_config = \<lparr>logon_timeout_ticks = 0, heartbeat_timeout_ticks = 0\<rparr>"

theorem zero_timeout_fires:
  "s_state (run (session_new zero_config) [Event Connect 0, Event LogonSent 0, Tick 0]) = Failed \<and>
   s_state (run (session_new zero_config) [Event Connect 0, Event LogonSent 0, Event (LogonAccepted 1) 0]) = Active \<and>
   s_state (run (session_new zero_config) [Event Connect 0, Event LogonSent 0, Event (LogonAccepted 1) 0, Tick 0]) = Recovering \<and>
   s_state (run (session_new zero_config) [Event Connect 0, Event LogonSent 0, Event (LogonAccepted 1) 0, Tick 0, Tick 0]) = Failed"
  by (intro conjI) code_simp+

text \<open>
  A refused event leaves the session as it was whenever the deadlines it could arm are
  representable.
\<close>

theorem refusal_keeps_session:
  assumes "snd (handle s e now) = Inl err" "in_time s now"
  shows "fst (handle s e now) = s"
  using assms
  by (cases "s_state s"; cases e)
    (auto simp: handle_def session_steps in_time_def checked_add_def split: if_splits)

theorem refusal_keeps_session_witness:
  "fst (handle demo_session (Command 9) 3) = demo_session"
  by (rule refusal_keeps_session [of demo_session "Command 9" 3 "Gap 7 9"]) code_simp+

text \<open>
  Near the end of the clock a refused command still consumes its sequence number: the
  acceptance writes the new expected sequence before the deadline overflows, so the caller gets an
  error, and a retry of the same command is refused as a duplicate.
\<close>

theorem refused_command_consumes_sequence:
  "\<exists>s now. reachable session_config_default s \<and>
     snd (handle s (Command 7) now) = Inl SessionOverflow \<and>
     s_next_sequence s = 7 \<and>
     s_next_sequence (fst (handle s (Command 7) now)) = 8 \<and>
     snd (handle (fst (handle s (Command 7) now)) (Command 7) now) = Inl (DuplicateSequence 7 8)"
proof (rule exI [of _ demo_session], rule exI [of _ "- 1"], intro conjI)
  show "reachable session_config_default demo_session"
    unfolding demo_session_def by (rule reachable_run) (rule reachable.start)
qed code_simp+

end
