(* ===== verification/Retransmit.thy ===== *)
theory Retransmit
  imports Types
begin

text \<open>
  The retransmission window of \<^verbatim>\<open>crates/hft-session/src/retransmit.rs\<close>: accepted frames kept
  in FIFO order until the peer confirms them. The \<open>VecDeque\<close> is a list, front first.
\<close>

definition MAX_FRAME :: nat where "MAX_FRAME = 46"

record retained_frame =
  rf_sequence :: sequence_number
  rf_bytes :: "u8 list"
  rf_len :: nat

definition retained_slice :: "retained_frame \<Rightarrow> u8 list" where
  "retained_slice f = take (rf_len f) (rf_bytes f)"

datatype retain_error =
  RetainFull | NotInOrder sequence_number sequence_number | RetainSequenceOverflow

record retransmit_buffer =
  rt_entries :: "retained_frame list"
  rt_capacity :: nat
  rt_next_sequence :: u64

definition retransmit_new :: "nat \<Rightarrow> retransmit_buffer" where
  "retransmit_new capacity = \<lparr>rt_entries = [], rt_capacity = capacity, rt_next_sequence = 1\<rparr>"

definition retain ::
  "retransmit_buffer \<Rightarrow> sequence_number \<Rightarrow> u8 list \<Rightarrow> retain_error + retransmit_buffer" where
  "retain b sequence bytes =
     (if length bytes > MAX_FRAME then Inl RetainFull
      else if sequence \<noteq> rt_next_sequence b
      then Inl (NotInOrder (rt_next_sequence b) sequence)
      else if length (rt_entries b) = rt_capacity b then Inl RetainFull
      else
        and_then (ok_or (checked_add sequence 1) RetainSequenceOverflow) (\<lambda>next_sequence.
          let stored = write_at 0 bytes (replicate MAX_FRAME 0) in
          Inr (b\<lparr>rt_entries := rt_entries b
                   @ [\<lparr>rf_sequence = sequence, rf_bytes = stored, rf_len = length bytes\<rparr>],
                 rt_next_sequence := next_sequence\<rparr>)))"

fun drop_confirmed :: "u64 \<Rightarrow> retained_frame list \<Rightarrow> retained_frame list \<times> nat" where
  "drop_confirmed confirmed [] = ([], 0)"
| "drop_confirmed confirmed (f # fs) =
     (if rf_sequence f \<le> confirmed
      then (let (rest, dropped) = drop_confirmed confirmed fs in (rest, dropped + 1))
      else (f # fs, 0))"

definition confirm_through :: "retransmit_buffer \<Rightarrow> u64 \<Rightarrow> retransmit_buffer \<times> nat" where
  "confirm_through b confirmed =
     (let (rest, dropped) = drop_confirmed confirmed (rt_entries b)
      in (b\<lparr>rt_entries := rest\<rparr>, dropped))"

definition since :: "retransmit_buffer \<Rightarrow> u64 \<Rightarrow> retained_frame list" where
  "since b from = filter (\<lambda>f. from \<le> rf_sequence f) (rt_entries b)"

definition retransmit_remaining_capacity :: "retransmit_buffer \<Rightarrow> nat" where
  "retransmit_remaining_capacity b = rt_capacity b - length (rt_entries b)"

section \<open>The retained window\<close>

text \<open>
  The window invariant: retained sequences are consecutive and end just before the next expected
  sequence, every frame fits, and retention is within capacity.
\<close>

definition window_inv :: "retransmit_buffer \<Rightarrow> bool" where
  "window_inv b \<longleftrightarrow>
     length (rt_entries b) \<le> rt_capacity b \<and>
     length (rt_entries b) < unat (rt_next_sequence b) \<and>
     map (unat \<circ> rf_sequence) (rt_entries b)
       = [unat (rt_next_sequence b) - length (rt_entries b) ..< unat (rt_next_sequence b)] \<and>
     (\<forall>f \<in> set (rt_entries b). length (rf_bytes f) = MAX_FRAME \<and> rf_len f \<le> MAX_FRAME)"

lemma drop_confirmed_dropWhile:
  "drop_confirmed c fs =
     (dropWhile (\<lambda>f. rf_sequence f \<le> c) fs, length (takeWhile (\<lambda>f. rf_sequence f \<le> c) fs))"
  by (induction fs) (auto simp: case_prod_beta)

lemma retransmit_new_inv: "window_inv (retransmit_new capacity)"
  by (simp add: window_inv_def retransmit_new_def)

lemma retain_iff:
  "retain b sequence bytes = Inr b' \<longleftrightarrow>
     length bytes \<le> MAX_FRAME \<and> sequence = rt_next_sequence b \<and>
     length (rt_entries b) \<noteq> rt_capacity b \<and> uint sequence + 1 < 2 ^ 64 \<and>
     b' = b\<lparr>rt_entries := rt_entries b @ [\<lparr>rf_sequence = sequence,
          rf_bytes = write_at 0 bytes (replicate MAX_FRAME 0), rf_len = length bytes\<rparr>],
        rt_next_sequence := sequence + 1\<rparr>"
  by (auto simp: retain_def Let_def result_iff checked_iff)

lemma unat_succ: "uint q + 1 < 2 ^ 64 \<Longrightarrow> unat (q + 1) = Suc (unat q)" for q :: u64
  using unat_add_bounded [of q 1] by simp

lemma retain_inv:
  assumes "window_inv b" "retain b sequence bytes = Inr b'"
  shows "window_inv b'"
proof -
  let ?n = "unat (rt_next_sequence b)"
  have *: "[Suc ?n - Suc (length (rt_entries b)) ..< Suc ?n]
      = [?n - length (rt_entries b) ..< ?n] @ [?n]"
    by simp
  show ?thesis
    using assms * by (auto simp: window_inv_def retain_iff unat_succ simp del: upt_Suc)
qed

lemma confirm_inv:
  assumes "window_inv b"
  shows "window_inv (fst (confirm_through b c))"
proof -
  let ?es = "rt_entries b" and ?n = "unat (rt_next_sequence b)"
  let ?k = "length (takeWhile (\<lambda>f. rf_sequence f \<le> c) ?es)"
  have rest: "dropWhile (\<lambda>f. rf_sequence f \<le> c) ?es = drop ?k ?es"
    by (simp add: dropWhile_eq_drop)
  have "map (unat \<circ> rf_sequence) (drop ?k ?es) = drop ?k [?n - length ?es ..< ?n]"
    using assms by (simp add: window_inv_def flip: drop_map)
  moreover have "?k \<le> length ?es"
    by (rule length_takeWhile_le)
  ultimately show ?thesis
    using assms
    by (auto simp: confirm_through_def drop_confirmed_dropWhile window_inv_def rest dest: in_set_dropD)
qed

lemma window_sorted:
  assumes "window_inv b"
  shows "sorted_wrt (\<lambda>f g. unat (rf_sequence f) < unat (rf_sequence g)) (rt_entries b)"
proof -
  have "sorted_wrt (<) (map (unat \<circ> rf_sequence) (rt_entries b))"
    using assms by (simp add: window_inv_def)
  then show ?thesis by (simp add: sorted_wrt_map o_def)
qed

lemma dropWhile_sorted_filter:
  assumes "sorted_wrt (\<lambda>f g. key f < (key g :: nat)) fs"
  shows "dropWhile (\<lambda>f. key f \<le> c) fs = filter (\<lambda>f. c < key f) fs"
  using assms
proof (induction fs)
  case (Cons f fs)
  then show ?case
    by (auto intro!: filter_True [symmetric] simp: not_le dest: order.strict_trans)
qed simp

section \<open>Properties\<close>

text \<open>
  Admitting a frame and confirming a prefix keep the retained window: consecutive sequences
  ending just before the next expected one, never more than the capacity.
\<close>

theorem window_preserved:
  assumes "window_inv b"
  shows "window_inv (fst (confirm_through b c)) \<and>
    (\<forall>sequence bytes b'. retain b sequence bytes = Inr b' \<longrightarrow> window_inv b')"
  using assms by (blast intro: confirm_inv retain_inv)

text \<open>
  C40. Recovery gets exactly what is not confirmed: after the peer confirms through \<open>c\<close>, the
  retained frames are the old ones above \<open>c\<close>, in order, and asking for them from \<open>c + 1\<close> on
  returns all of them with their payloads.
\<close>

theorem recovery_after_confirm:
  assumes "window_inv b" "uint c + 1 < 2 ^ 64"
  shows "rt_entries (fst (confirm_through b c)) = filter (\<lambda>f. c < rf_sequence f) (rt_entries b) \<and>
    since (fst (confirm_through b c)) (c + 1) = rt_entries (fst (confirm_through b c))"
proof -
  have eq: "rt_entries (fst (confirm_through b c)) = filter (\<lambda>f. c < rf_sequence f) (rt_entries b)"
    using dropWhile_sorted_filter [OF window_sorted [OF assms(1)], of "unat c"]
    by (simp add: confirm_through_def drop_confirmed_dropWhile word_le_nat_alt word_less_nat_alt)
  moreover have "c + 1 \<le> rf_sequence f \<longleftrightarrow> c < rf_sequence f" for f :: retained_frame
    using unat_succ [OF assms(2)] by (auto simp: word_le_nat_alt word_less_nat_alt)
  ultimately show ?thesis
    by (simp add: since_def cong: filter_cong)
qed

text \<open>
  A retained payload is returned byte for byte: the stored copy is zero-padded, the slice is
  the admitted frame.
\<close>

theorem retained_payload_intact:
  assumes "retain b sequence bytes = Inr b'"
  shows "retained_slice (last (rt_entries b')) = bytes \<and>
    rf_sequence (last (rt_entries b')) = sequence \<and> butlast (rt_entries b') = rt_entries b"
  using assms by (auto simp: retain_iff retained_slice_def write_at_def)

definition demo_window :: retransmit_buffer where
  "demo_window =
     (case retain (retransmit_new 4) 1 [1, 2] of Inl _ \<Rightarrow> retransmit_new 4 | Inr b \<Rightarrow>
      (case retain b 2 [3] of Inl _ \<Rightarrow> b | Inr b' \<Rightarrow> b'))"

lemma demo_window_inv: "window_inv demo_window"
  by code_simp

theorem window_preserved_witness: "window_inv (fst (confirm_through demo_window 1))"
  using window_preserved [OF demo_window_inv, of 1] by blast

theorem recovery_after_confirm_witness:
  "map retained_slice (since (fst (confirm_through demo_window 1)) 2) = [[3]]"
proof -
  have "since (fst (confirm_through demo_window 1)) (1 + 1)
      = filter (\<lambda>f. 1 < rf_sequence f) (rt_entries demo_window)"
    using recovery_after_confirm [OF demo_window_inv, of 1] by simp
  also have "map retained_slice \<dots> = [[3]]"
    by code_simp
  finally show ?thesis by simp
qed

theorem retained_payload_intact_witness:
  "\<exists>b'. retain demo_window 3 [9, 8, 7] = Inr b' \<and> retained_slice (last (rt_entries b')) = [9, 8, 7]"
proof -
  have "retain demo_window 3 [9, 8, 7] = Inr (case retain demo_window 3 [9, 8, 7] of Inr b \<Rightarrow> b)"
    by code_simp
  then obtain b' where "retain demo_window 3 [9, 8, 7] = Inr b'" ..
  then show ?thesis using retained_payload_intact by blast
qed

end
