(* ===== verification/Book_State.thy ===== *)
theory Book_State
  imports Book_Reach
begin

text \<open>
  The exported logical state of the order book of \<^verbatim>\<open>crates/hft-book/src/lib.rs\<close>: \<open>export_state\<close> writes the
  levels of each side in priority order into fixed arrays, \<open>from_state\<close> validates such arrays and
  rebuilds a book by resting the orders again. A state is determined by the groups of orders at one
  price; the book built from it has exactly these orders in this priority.
\<close>

section \<open>States\<close>

record book_order_state =
  bo_order_id :: order_id
  bo_account_id :: account_id
  bo_side :: side
  bo_price :: price_ticks
  bo_quantity :: quantity
  bo_sequence :: sequence_number

definition EMPTY_BOOK_ORDER_STATE :: book_order_state where
  "EMPTY_BOOK_ORDER_STATE =
     \<lparr>bo_order_id = 0, bo_account_id = 0, bo_side = Buy, bo_price = 0, bo_quantity = 0, bo_sequence = 0\<rparr>"

record book_level_state =
  bl_side :: side
  bl_price :: price_ticks
  bl_order_count :: nat
  bl_orders :: "book_order_state list"

definition empty_book_level_state :: "nat \<Rightarrow> book_level_state" where
  "empty_book_level_state K =
     \<lparr>bl_side = Buy, bl_price = 0, bl_order_count = 0, bl_orders = replicate K EMPTY_BOOK_ORDER_STATE\<rparr>"

record book_state =
  bs_instrument :: instrument_id
  bs_bid_level_count :: nat
  bs_bids :: "book_level_state list"
  bs_ask_level_count :: nat
  bs_asks :: "book_level_state list"

definition book_state_empty :: "nat \<Rightarrow> nat \<Rightarrow> instrument_id \<Rightarrow> book_state" where
  "book_state_empty L K instrument =
     \<lparr>bs_instrument = instrument, bs_bid_level_count = 0, bs_bids = replicate L (empty_book_level_state K),
      bs_ask_level_count = 0, bs_asks = replicate L (empty_book_level_state K)\<rparr>"

datatype book_state_error =
    BsInstrument
  | BsLevelCapacity
  | BsOrderCapacity
  | BsSide
  | BsPrice
  | BsQuantity
  | BsSequence
  | BsLevelOrder
  | BsDuplicateOrderId
  | BsCrossed
  | BsNonCanonical

section \<open>Export\<close>

text \<open>The closure of \<open>for_each_live\<close>: append to the destination, a panic when its array is full.\<close>

fun export_orders ::
  "side \<Rightarrow> price_ticks \<Rightarrow> resting_order list \<Rightarrow> book_level_state \<Rightarrow> book_level_state option"
where
  "export_orders side price [] destination = Some destination"
| "export_orders side price (order # orders) destination =
     (if bl_order_count destination < length (bl_orders destination)
      then export_orders side price orders
        (destination\<lparr>bl_orders := (bl_orders destination)[bl_order_count destination :=
            \<lparr>bo_order_id = rest_id order, bo_account_id = rest_account_id order, bo_side = side, bo_price = price,
             bo_quantity = rest_quantity order, bo_sequence = rest_sequence order\<rparr>],
          bl_order_count := bl_order_count destination + 1\<rparr>)
      else None)"

fun export_side ::
  "side \<Rightarrow> price_level option list \<Rightarrow> level_entry list \<Rightarrow> book_level_state list \<Rightarrow> nat
     \<Rightarrow> (book_level_state list \<times> nat) option"
where
  "export_side side levels [] output output_len = Some (output, output_len)"
| "export_side side levels ((price, slot) # listed) output output_len =
     (case get levels slot of
        None \<Rightarrow> None
      | Some None \<Rightarrow> export_side side levels listed output output_len
      | Some (Some level) \<Rightarrow>
          Option.bind (get output output_len) (\<lambda>destination.
          Option.bind (for_each_live level) (\<lambda>orders.
          Option.bind (export_orders side price orders (destination\<lparr>bl_side := side, bl_price := price\<rparr>)) (\<lambda>destination.
            export_side side levels listed (output[output_len := destination]) (output_len + 1)))))"

definition book_export_state :: "nat \<Rightarrow> nat \<Rightarrow> order_book \<Rightarrow> book_state option" where
  "book_export_state L K book =
     (let state = book_state_empty L K (ob_instrument book) in
      Option.bind (export_side Buy (side_levels book Buy) (iter (side_index book Buy)) (bs_bids state) (bs_bid_level_count state))
        (\<lambda>(bids, bid_level_count).
      let state = state\<lparr>bs_bids := bids, bs_bid_level_count := bid_level_count\<rparr> in
      Option.bind (export_side Sell (side_levels book Sell) (iter (side_index book Sell)) (bs_asks state) (bs_ask_level_count state))
        (\<lambda>(asks, ask_level_count). Some (state\<lparr>bs_asks := asks, bs_ask_level_count := ask_level_count\<rparr>))))"

section \<open>Validation\<close>

definition live_orders :: "book_level_state \<Rightarrow> book_order_state list" where
  "live_orders level = take (bl_order_count level) (bl_orders level)"

definition state_orders :: "book_state \<Rightarrow> book_order_state list" where
  "state_orders state =
     concat (map live_orders (take (bs_bid_level_count state) (bs_bids state) @ take (bs_ask_level_count state) (bs_asks state)))"

fun check_orders :: "side \<Rightarrow> price_ticks \<Rightarrow> book_order_state list \<Rightarrow> book_state_error + unit" where
  "check_orders side price [] = Inr ()"
| "check_orders side price (order # orders) =
     (if bo_side order \<noteq> side then Inl BsSide
      else if bo_price order \<noteq> price then Inl BsPrice
      else if bo_quantity order = 0 then Inl BsQuantity
      else if bo_sequence order = 0 then Inl BsSequence
      else check_orders side price orders)"

text \<open>\<open>windows(2).any\<close> over the sequences of a level.\<close>

fun any_not_increasing :: "sequence_number list \<Rightarrow> bool" where
  "any_not_increasing (x # y # xs) \<longleftrightarrow> x \<ge> y \<or> any_not_increasing (y # xs)"
| "any_not_increasing _ \<longleftrightarrow> False"

fun validate_side :: "nat \<Rightarrow> side \<Rightarrow> book_level_state list \<Rightarrow> price_ticks option \<Rightarrow> book_state_error + unit" where
  "validate_side K side [] prior_price = Inr ()"
| "validate_side K side (level # levels) prior_price =
     (if bl_side level \<noteq> side then Inl BsSide
      else if sint (bl_price level) \<le> 0 then Inl BsPrice
      else if bl_order_count level = 0 \<or> bl_order_count level > K then Inl BsOrderCapacity
      else if (case prior_price of None \<Rightarrow> False
               | Some prior \<Rightarrow> (case side of Buy \<Rightarrow> sint prior \<le> sint (bl_price level) | Sell \<Rightarrow> sint prior \<ge> sint (bl_price level)))
      then Inl BsLevelOrder
      else
        and_then (check_orders side (bl_price level) (live_orders level)) (\<lambda>_.
        if any_not_increasing (map bo_sequence (live_orders level)) then Inl BsSequence
        else if \<exists>order \<in> set (drop (bl_order_count level) (bl_orders level)). order \<noteq> EMPTY_BOOK_ORDER_STATE
        then Inl BsNonCanonical
        else validate_side K side levels (Some (bl_price level))))"

fun validate_unique_ids :: "book_order_state list \<Rightarrow> book_order_state list \<Rightarrow> book_state_error + unit" where
  "validate_unique_ids candidates [] = Inr ()"
| "validate_unique_ids candidates (order # orders) =
     (if length (filter (\<lambda>candidate. bo_order_id candidate = bo_order_id order) candidates) \<noteq> 1 then Inl BsDuplicateOrderId
      else if length (filter (\<lambda>candidate. bo_sequence candidate = bo_sequence order) candidates) \<noteq> 1 then Inl BsSequence
      else validate_unique_ids candidates orders)"

definition book_validate_state :: "nat \<Rightarrow> nat \<Rightarrow> book_state \<Rightarrow> book_state_error + unit" where
  "book_validate_state L K state =
     (if bs_bid_level_count state > L \<or> bs_ask_level_count state > L then Inl BsLevelCapacity
      else
        and_then (validate_side K Buy (take (bs_bid_level_count state) (bs_bids state)) None) (\<lambda>_.
        and_then (validate_side K Sell (take (bs_ask_level_count state) (bs_asks state)) None) (\<lambda>_.
        if \<exists>level \<in> set (drop (bs_bid_level_count state) (bs_bids state) @ drop (bs_ask_level_count state) (bs_asks state)).
             level \<noteq> empty_book_level_state K
        then Inl BsNonCanonical
        else if bs_bids state \<noteq> [] \<and> bs_bid_level_count state > 0 \<and> bs_asks state \<noteq> [] \<and> bs_ask_level_count state > 0 \<and>
             sint (bl_price (hd (bs_bids state))) \<ge> sint (bl_price (hd (bs_asks state)))
        then Inl BsCrossed
        else validate_unique_ids (state_orders state) (state_orders state))))"

section \<open>Restoring\<close>

fun restore_orders ::
  "nat \<Rightarrow> nat \<Rightarrow> side \<Rightarrow> nat \<Rightarrow> book_order_state list \<Rightarrow> order_book \<Rightarrow> (book_state_error + order_book) option"
where
  "restore_orders L K side level_index [] book = Some (Inr book)"
| "restore_orders L K side level_index (order # orders) book =
     (let resting = \<lparr>rest_id = bo_order_id order, rest_account_id = bo_account_id order, rest_index_slot = 0,
                     rest_quantity = bo_quantity order, rest_sequence = bo_sequence order, rest_prev = NIL, rest_next = NIL\<rparr> in
      case get (side_levels book side) level_index of
        None \<Rightarrow> None
      | Some entry \<Rightarrow>
          (case Option.bind entry (\<lambda>level. push_tail K level resting) of
             None \<Rightarrow> Some (Inl BsOrderCapacity)
           | Some (level, slot) \<Rightarrow>
               let location = \<lparr>ol_side = side, ol_level_index = level_index, ol_slot = slot\<rparr> in
               (case index_insert L K (ob_index book) (bo_order_id order) location of
                  Inl _ \<Rightarrow> Some (Inl BsDuplicateOrderId)
                | Inr (index, index_slot) \<Rightarrow>
                    (case set_index_slot level slot index_slot of
                       None \<Rightarrow> Some (Inl BsOrderCapacity)
                     | Some level \<Rightarrow>
                         restore_orders L K side level_index orders
                           ((set_level book side level_index (Some level))\<lparr>ob_index := index\<rparr>)))))"

definition restore_level ::
  "nat \<Rightarrow> nat \<Rightarrow> book_level_state \<Rightarrow> order_book \<Rightarrow> (book_state_error + order_book) option"
where
  "restore_level L K state book =
     (let side = bl_side state; descending = (side = Buy) in
      case li_insert (side_index book side) (bl_price state) descending of
        None \<Rightarrow> Some (Inl BsLevelCapacity)
      | Some (li, level_index) \<Rightarrow>
          if level_index < length (side_levels book side)
          then restore_orders L K side level_index (live_orders state)
            (set_level (set_side_index book side li) side level_index (Some (price_level_new K (bl_price state))))
          else None)"

fun restore_levels ::
  "nat \<Rightarrow> nat \<Rightarrow> book_level_state list \<Rightarrow> order_book \<Rightarrow> (book_state_error + order_book) option"
where
  "restore_levels L K [] book = Some (Inr book)"
| "restore_levels L K (level # levels) book =
     rbind (restore_level L K level book) (\<lambda>book. restore_levels L K levels book)"

definition book_from_state ::
  "nat \<Rightarrow> nat \<Rightarrow> instrument_id \<Rightarrow> book_state \<Rightarrow> (book_state_error + order_book) option"
where
  "book_from_state L K instrument state =
     (if bs_instrument state \<noteq> instrument then Some (Inl BsInstrument)
      else
        rbind (Some (book_validate_state L K state)) (\<lambda>_.
        rbind (restore_levels L K (take (bs_bid_level_count state) (bs_bids state)) (book_new L K instrument)) (\<lambda>book.
        restore_levels L K (take (bs_ask_level_count state) (bs_asks state)) book)))"

section \<open>Groups of orders\<close>

text \<open>The orders of a side by price, the state array built from them, and the rows they stand for.\<close>

type_synonym order_group = "price_ticks \<times> model_order list"

definition order_state :: "side \<Rightarrow> price_ticks \<Rightarrow> model_order \<Rightarrow> book_order_state" where
  "order_state side p m =
     \<lparr>bo_order_id = mo_id m, bo_account_id = mo_account m, bo_side = side, bo_price = p,
      bo_quantity = mo_quantity m, bo_sequence = mo_sequence m\<rparr>"

definition level_state :: "nat \<Rightarrow> side \<Rightarrow> order_group \<Rightarrow> book_level_state" where
  "level_state K side g =
     \<lparr>bl_side = side, bl_price = fst g, bl_order_count = length (snd g),
      bl_orders = map (order_state side (fst g)) (snd g) @ replicate (K - length (snd g)) EMPTY_BOOK_ORDER_STATE\<rparr>"

definition side_state :: "nat \<Rightarrow> nat \<Rightarrow> side \<Rightarrow> order_group list \<Rightarrow> book_level_state list" where
  "side_state L K side gs = map (level_state K side) gs @ replicate (L - length gs) (empty_book_level_state K)"

definition group_rows :: "order_group \<Rightarrow> prow list" where
  "group_rows g = map (Pair (fst g)) (snd g)"

function groups :: "prow list \<Rightarrow> order_group list" where
  "groups [] = []"
| "groups ((p, m) # rs) =
     (p, m # map snd (takeWhile (\<lambda>r. fst r = p) rs)) # groups (dropWhile (\<lambda>r. fst r = p) rs)"
  by pat_completeness auto
termination
  by (relation "measure length") (auto simp: le_imp_less_Suc length_dropWhile_le)

definition spec_state :: "nat \<Rightarrow> nat \<Rightarrow> instrument_id \<Rightarrow> spec_book \<Rightarrow> book_state" where
  "spec_state L K ins sb =
     \<lparr>bs_instrument = ins,
      bs_bid_level_count = length (groups (sb Buy)), bs_bids = side_state L K Buy (groups (sb Buy)),
      bs_ask_level_count = length (groups (sb Sell)), bs_asks = side_state L K Sell (groups (sb Sell))\<rparr>"

definition groups_ok :: "bool \<Rightarrow> order_group list \<Rightarrow> bool" where
  "groups_ok d gs \<longleftrightarrow> sorted_wrt (better d) (map fst gs) \<and> (\<forall>g \<in> set gs. snd g \<noteq> [])"

lemma level_state_simps [simp]:
  "bl_side (level_state K side g) = side" "bl_price (level_state K side g) = fst g"
  "bl_order_count (level_state K side g) = length (snd g)"
  "live_orders (level_state K side g) = map (order_state side (fst g)) (snd g)"
  by (simp_all add: level_state_def live_orders_def)

lemma order_state_simps [simp]:
  "bo_order_id (order_state side p m) = mo_id m" "bo_side (order_state side p m) = side"
  "bo_price (order_state side p m) = p" "bo_quantity (order_state side p m) = mo_quantity m"
  "bo_sequence (order_state side p m) = mo_sequence m" "bo_account_id (order_state side p m) = mo_account m"
  by (simp_all add: order_state_def)

lemma take_side_state [simp]: "take (length gs) (side_state L K side gs) = map (level_state K side) gs"
  by (simp add: side_state_def)

lemma group_rows_prices: "r \<in> set (concat (map group_rows gs)) \<Longrightarrow> fst r \<in> fst ` set gs"
  by (force simp: group_rows_def)

lemma groups_concat:
  assumes "groups_ok d gs"
  shows "groups (concat (map group_rows gs)) = gs"
  using assms
proof (induction gs)
  case (Cons g gs)
  obtain p m ms where g: "g = (p, m # ms)" using Cons.prems by (cases g; cases "snd g") (auto simp: groups_ok_def)
  let ?rs = "concat (map group_rows gs)" and ?P = "\<lambda>r. fst r = p"
  have "\<not> ?P r" if "r \<in> set ?rs" for r
    using group_rows_prices [OF that] Cons.prems g by (auto simp: groups_ok_def)
  then have rest: "takeWhile ?P ?rs = []" "dropWhile ?P ?rs = ?rs"
    unfolding takeWhile_eq_Nil_iff dropWhile_eq_self_iff using hd_in_set [of ?rs] by blast+
  have "takeWhile ?P (map (Pair p) ms @ ?rs) = map (Pair p) ms @ takeWhile ?P ?rs"
    "dropWhile ?P (map (Pair p) ms @ ?rs) = dropWhile ?P ?rs"
    by (rule takeWhile_append2 dropWhile_append2; auto)+
  then have "takeWhile ?P (map (Pair p) ms @ ?rs) = map (Pair p) ms" "dropWhile ?P (map (Pair p) ms @ ?rs) = ?rs"
    by (simp_all only: rest append_Nil2)
  moreover have "groups ?rs = gs" using Cons by (auto simp: groups_ok_def)
  ultimately show ?case by (simp add: g group_rows_def [of "(p, m # ms)"] o_def)
qed simp

lemma concat_groups [simp]: "concat (map group_rows (groups rs)) = rs"
proof (induction rs rule: groups.induct)
  case (2 p m rs)
  have "map (Pair p \<circ> snd) (takeWhile (\<lambda>r. fst r = p) rs) = takeWhile (\<lambda>r. fst r = p) rs"
    by (rule map_idI) (auto dest: set_takeWhileD)
  with 2 show ?case by (simp add: group_rows_def)
qed simp

section \<open>The exported state\<close>

lemma export_orders_append:
  assumes "length ms + length orders \<le> K"
  shows "export_orders side p orders (level_state K side (p, ms))
    = Some (level_state K side (p, ms @ map abs_order orders))"
  using assms
proof (induction orders arbitrary: ms)
  case (Cons order orders)
  let ?s = "\<lparr>bo_order_id = rest_id order, bo_account_id = rest_account_id order, bo_side = side, bo_price = p,
             bo_quantity = rest_quantity order, bo_sequence = rest_sequence order\<rparr>"
  have rep: "replicate (K - length ms) EMPTY_BOOK_ORDER_STATE
      = EMPTY_BOOK_ORDER_STATE # replicate (K - length (ms @ [abs_order order])) EMPTY_BOOK_ORDER_STATE"
    using Cons.prems by (cases "K - length ms") (auto simp: Suc_diff_le)
  have "(level_state K side (p, ms))\<lparr>bl_orders := (bl_orders (level_state K side (p, ms)))[length ms := ?s],
      bl_order_count := length ms + 1\<rparr> = level_state K side (p, ms @ [abs_order order])"
    using rep by (simp add: level_state_def order_state_def list_update_append)
  moreover have "length ms < length (bl_orders (level_state K side (p, ms)))"
    using Cons.prems by (simp add: level_state_def)
  ultimately show ?case using Cons.IH [of "ms @ [abs_order order]"] Cons.prems by simp
qed simp

definition entry_group :: "price_level option list \<Rightarrow> level_entry \<Rightarrow> order_group" where
  "entry_group levels e =
     (fst e, case lvl levels (snd e) of None \<Rightarrow> []
             | Some l \<Rightarrow> map (\<lambda>s. abs_order (the (live_data l s))) (walk l))"

lemma export_side_groups:
  assumes "length gs + length es \<le> L" "\<forall>e \<in> set es. \<exists>l. lvl levels (snd e) = Some l \<and> level_inv K l"
  shows "export_side side levels es (side_state L K side gs) (length gs)
    = Some (side_state L K side (gs @ map (entry_group levels) es), length gs + length es)"
  using assms
proof (induction es arbitrary: gs)
  case (Cons e es)
  obtain p i where e: "e = (p, i)" by (cases e)
  obtain l where l: "lvl levels i = Some l" "level_inv K l" using Cons.prems e by auto
  obtain orders where o: "for_each_live l = Some orders" "map strip orders = map (\<lambda>s. the (live_data l s)) (walk l)"
    using for_each_live_walk [OF l(2)] by blast
  have "map abs_order (map strip orders) = map abs_order orders" by simp
  then have abs: "map abs_order orders = map (\<lambda>s. abs_order (the (live_data l s))) (walk l)"
    using o(2) by (simp add: o_def)
  have len: "length orders \<le> K" using lv.length_fifo [OF l(2)] arg_cong [OF o(2), of length] by simp
  have rep: "replicate (L - length gs) (empty_book_level_state K)
      = empty_book_level_state K # replicate (L - length (gs @ [g])) (empty_book_level_state K)" for g
    using Cons.prems by (cases "L - length gs") (auto simp: Suc_diff_le)
  have dest: "(empty_book_level_state K)\<lparr>bl_side := side, bl_price := p\<rparr> = level_state K side (p, [])"
    by (simp add: empty_book_level_state_def level_state_def)
  have "get (side_state L K side gs) (length gs) = Some (empty_book_level_state K)"
    using rep by (simp add: side_state_def nth_append)
  moreover have "export_orders side p orders (level_state K side (p, [])) = Some (level_state K side (entry_group levels e))"
    using export_orders_append [of "[]" orders K side p] len abs l(1) e by (simp add: entry_group_def)
  moreover have "(side_state L K side gs)[length gs := level_state K side (entry_group levels e)]
      = side_state L K side (gs @ [entry_group levels e])"
    using rep by (simp add: side_state_def list_update_append)
  moreover have "get levels i = Some (Some l)" using l(1) by (simp add: lvl_Some)
  ultimately show ?case
    using Cons.IH [of "gs @ [entry_group levels e]"] Cons.prems o(1) by (simp add: e dest del: get_Some)
qed simp

lemma side_groups:
  assumes "shape L K book"
  shows "groups (abs_book book side) = map (entry_group (side_levels book side)) (iter (side_index book side))"
proof -
  let ?levels = "side_levels book side" and ?es = "iter (side_index book side)"
  note o = side_okD [OF shapeD [OF assms, of side]]
  have rows: "concat (map group_rows (map (entry_group ?levels) es)) = map abs_row (map erase_row (rows_of ?levels es))" for es
    by (induction es) (auto simp: group_rows_def entry_group_def level_rows_def o_def erase_row_def split: option.splits)
  have "\<exists>l. lvl ?levels (snd e) = Some l \<and> walk l \<noteq> []" if "e \<in> set ?es" for e
    using o(5) [of "fst e" "snd e"] that by auto
  then have "groups_ok (side = Buy) (map (entry_group ?levels) ?es)"
    using o(2) by (fastforce simp: groups_ok_def li_inv_def entry_group_def o_def)
  from groups_concat [OF this] show ?thesis by (simp only: rows abs_book_def erows_def rows_def)
qed

lemma export_state_spec:
  assumes "shape L K book"
  shows "book_export_state L K book = Some (spec_state L K (ob_instrument book) (abs_book book))"
proof -
  have side: "export_side side (side_levels book side) (iter (side_index book side)) (replicate L (empty_book_level_state K)) 0
      = Some (side_state L K side (groups (abs_book book side)), length (groups (abs_book book side)))" for side
  proof -
    note o = side_okD [OF shapeD [OF assms, of side]]
    have "length (iter (side_index book side)) \<le> L" using li_lengths [OF o(2)] by linarith
    moreover have "\<exists>l. lvl (side_levels book side) (snd e) = Some l \<and> level_inv K l" if "e \<in> set (iter (side_index book side))" for e
      using o(5) [of "fst e" "snd e"] that by auto
    ultimately show ?thesis
      using export_side_groups [of "[]" "iter (side_index book side)" L "side_levels book side" K side]
      by (simp add: side_groups [OF assms] side_state_def)
  qed
  show ?thesis
    using side [of Buy] side [of Sell] by (simp add: book_export_state_def book_state_empty_def spec_state_def Let_def)
qed

section \<open>What a side is validated for\<close>

definition group_ok :: "nat \<Rightarrow> order_group \<Rightarrow> bool" where
  "group_ok K g \<longleftrightarrow> 0 < sint (fst g) \<and> snd g \<noteq> [] \<and> length (snd g) \<le> K \<and> (\<forall>m \<in> set (snd g). mo_quantity m \<noteq> 0)"

definition group_sequenced :: "order_group \<Rightarrow> bool" where
  "group_sequenced g \<longleftrightarrow> (\<forall>m \<in> set (snd g). mo_sequence m \<noteq> 0) \<and> sorted_wrt (<) (map mo_sequence (snd g))"

definition prior_ok :: "bool \<Rightarrow> price_ticks option \<Rightarrow> order_group list \<Rightarrow> bool" where
  "prior_ok d prior gs \<longleftrightarrow> sorted_wrt (better d) (map fst gs) \<and>
     (\<forall>p. prior = Some p \<longrightarrow> (\<forall>g \<in> set gs. better d p (fst g)))"

definition mo_of :: "book_order_state \<Rightarrow> model_order" where
  "mo_of x = \<lparr>mo_id = bo_order_id x, mo_account = bo_account_id x, mo_quantity = bo_quantity x, mo_sequence = bo_sequence x\<rparr>"

lemma not_increasing_iff: "any_not_increasing xs \<longleftrightarrow> \<not> sorted_wrt (<) xs"
proof (induction xs rule: any_not_increasing.induct)
  case (1 x y xs)
  then show ?case by (simp only: any_not_increasing.simps sorted_wrt2 [OF transp_on_less] not_less de_Morgan_conj not_not)
qed simp_all

lemma check_orders_states:
  assumes "\<forall>m \<in> set ms. mo_quantity m \<noteq> 0"
  shows "check_orders side p (map (order_state side p) ms)
    = (if \<forall>m \<in> set ms. mo_sequence m \<noteq> 0 then Inr () else Inl BsSequence)"
  using assms by (induction ms) auto

lemma check_orders_Inr:
  "check_orders side p os = Inr () \<longleftrightarrow> (\<forall>x \<in> set os. bo_side x = side \<and> bo_price x = p \<and> bo_quantity x \<noteq> 0 \<and> bo_sequence x \<noteq> 0)"
  by (induction os) auto

lemma prior_ok_Cons:
  "prior_ok d prior (g # gs) \<longleftrightarrow> (\<forall>p. prior = Some p \<longrightarrow> better d p (fst g)) \<and> prior_ok d (Some (fst g)) gs"
  by (auto simp: prior_ok_def intro: better_trans)

lemma level_order_iff:
  "(case prior of None \<Rightarrow> False
    | Some q \<Rightarrow> (case side of Buy \<Rightarrow> sint q \<le> sint p | Sell \<Rightarrow> sint q \<ge> sint p))
   \<longleftrightarrow> \<not> (\<forall>q. prior = Some q \<longrightarrow> better (side = Buy) q p)"
  by (cases side) (auto simp: better_def not_less split: option.splits)

lemma validate_side_groups:
  assumes "\<forall>g \<in> set gs. group_ok K g" "prior_ok (side = Buy) prior gs"
  shows "validate_side K side (map (level_state K side) gs) prior
    = (if \<forall>g \<in> set gs. group_sequenced g then Inr () else Inl BsSequence)"
  using assms
proof (induction gs arbitrary: prior)
  case (Cons g gs)
  have g: "group_ok K g" "\<forall>p. prior = Some p \<longrightarrow> better (side = Buy) p (fst g)" "prior_ok (side = Buy) (Some (fst g)) gs"
    using Cons.prems by (simp_all add: prior_ok_Cons)
  have "drop (length (snd g)) (bl_orders (level_state K side g)) = replicate (K - length (snd g)) EMPTY_BOOK_ORDER_STATE"
    by (simp add: level_state_def)
  moreover have "map bo_sequence (map (order_state side (fst g)) (snd g)) = map mo_sequence (snd g)" by simp
  ultimately show ?case
    using Cons.IH [OF _ g(3)] Cons.prems(1) g(1,2)
    by (auto simp: level_order_iff check_orders_states not_increasing_iff group_ok_def group_sequenced_def
        simp del: map_map)
qed simp

lemma order_state_mo_of: "bo_side x = side \<Longrightarrow> bo_price x = p \<Longrightarrow> order_state side p (mo_of x) = x"
  by (simp add: order_state_def mo_of_def)

lemma level_state_mo_of:
  assumes "length (bl_orders lv) = K" "bl_side lv = side" "bl_order_count lv \<le> K"
    "\<forall>x \<in> set (live_orders lv). bo_side x = side \<and> bo_price x = bl_price lv"
    "\<forall>x \<in> set (drop (bl_order_count lv) (bl_orders lv)). x = EMPTY_BOOK_ORDER_STATE"
  shows "level_state K side (bl_price lv, map mo_of (live_orders lv)) = lv"
proof -
  have "map (order_state side (bl_price lv)) (map mo_of (live_orders lv)) = live_orders lv"
    using assms(4) by (auto simp: order_state_mo_of intro: map_idI)
  moreover have "replicate (K - bl_order_count lv) EMPTY_BOOK_ORDER_STATE = drop (bl_order_count lv) (bl_orders lv)"
    using assms(1,5) by (metis length_drop replicate_length_same)
  ultimately show ?thesis
    using assms(1-3) by (simp add: level_state_def live_orders_def min_absorb2)
qed

lemma validate_side_Inr:
  assumes "validate_side K side levels prior = Inr ()" "\<forall>lv \<in> set levels. length (bl_orders lv) = K"
  shows "\<exists>gs. levels = map (level_state K side) gs \<and> (\<forall>g \<in> set gs. group_ok K g \<and> group_sequenced g) \<and>
    prior_ok (side = Buy) prior gs"
  using assms
proof (induction levels arbitrary: prior)
  case Nil
  then show ?case by (intro exI [of _ "[]"]) (simp add: prior_ok_def)
next
  case (Cons lv levels)
  let ?g = "(bl_price lv, map mo_of (live_orders lv))"
  have v: "bl_side lv = side" "0 < sint (bl_price lv)" "bl_order_count lv \<noteq> 0" "bl_order_count lv \<le> K"
      "\<forall>q. prior = Some q \<longrightarrow> better (side = Buy) q (bl_price lv)"
      "check_orders side (bl_price lv) (live_orders lv) = Inr ()"
      "sorted_wrt (<) (map bo_sequence (live_orders lv))"
      "\<forall>x \<in> set (drop (bl_order_count lv) (bl_orders lv)). x = EMPTY_BOOK_ORDER_STATE"
      "validate_side K side levels (Some (bl_price lv)) = Inr ()"
    using Cons.prems(1) by (auto simp: level_order_iff not_increasing_iff result_iff split: if_splits)
  obtain gs where gs: "levels = map (level_state K side) gs" "\<forall>g \<in> set gs. group_ok K g \<and> group_sequenced g"
      "prior_ok (side = Buy) (Some (bl_price lv)) gs"
    using Cons.IH [OF v(9)] Cons.prems(2) by auto
  have chk: "\<forall>x \<in> set (live_orders lv). bo_side x = side \<and> bo_price x = bl_price lv \<and> bo_quantity x \<noteq> 0 \<and> bo_sequence x \<noteq> 0"
    using v(6) by (simp add: check_orders_Inr)
  have len: "length (live_orders lv) = bl_order_count lv"
    using Cons.prems(2) v(4) by (simp add: live_orders_def min_absorb2)
  have "level_state K side ?g = lv"
    using level_state_mo_of [of lv K side] Cons.prems(2) v chk by auto
  moreover have "mo_sequence \<circ> mo_of = bo_sequence" by (rule ext) (simp add: mo_of_def)
  then have "group_ok K ?g \<and> group_sequenced ?g"
    using v(2-4,7) chk len unfolding group_ok_def group_sequenced_def by (auto simp: mo_of_def)
  ultimately show ?case
    using gs v(5) by (intro exI [of _ "?g # gs"]) (simp add: prior_ok_Cons)
qed

section \<open>Groups and rows\<close>

definition sequenced_rows :: "prow list \<Rightarrow> bool" where
  "sequenced_rows rs \<longleftrightarrow> (\<forall>r \<in> set rs. mo_sequence (snd r) \<noteq> 0) \<and>
     sorted_wrt (\<lambda>a b. fst a = fst b \<longrightarrow> mo_sequence (snd a) < mo_sequence (snd b)) rs"

text \<open>
  The condition on sequences that a state is checked for and that the book itself does not enforce:
  no sequence is zero, none occurs twice, and the orders at one price are in the order of their
  sequences.
\<close>

definition sequenced :: "spec_book \<Rightarrow> bool" where
  "sequenced sb \<longleftrightarrow> sequenced_rows (sb Buy) \<and> sequenced_rows (sb Sell) \<and>
     distinct (map (mo_sequence \<circ> snd) (sb Buy @ sb Sell))"

definition fits :: "nat \<Rightarrow> nat \<Rightarrow> spec_book \<Rightarrow> bool" where
  "fits L K sb \<longleftrightarrow> (\<forall>side. level_count (sb side) \<le> L \<and> (\<forall>p. count_price p (sb side) \<le> K))"

lemma groups_prices: "fst ` set (groups rs) = fst ` set rs"
proof (induction rs rule: groups.induct)
  case (2 p m rs)
  have "set rs = set (takeWhile (\<lambda>r. fst r = p) rs) \<union> set (dropWhile (\<lambda>r. fst r = p) rs)"
    by (metis set_append takeWhile_dropWhile_id)
  moreover have "fst ` set (takeWhile (\<lambda>r. fst r = p) rs) \<subseteq> {p}" by (auto dest: set_takeWhileD)
  ultimately show ?case using 2 by auto
qed simp

lemma groups_nonempty: "g \<in> set (groups rs) \<Longrightarrow> snd g \<noteq> []"
  by (induction rs rule: groups.induct) auto

lemma side_sorted_dropWhile:
  assumes "side_sorted d ((p, m) # rs)" "r \<in> set (dropWhile (\<lambda>r. fst r = p) rs)"
  shows "better d p (fst r)"
proof -
  let ?P = "\<lambda>r. fst r = p"
  obtain h t where t: "dropWhile ?P rs = h # t" using assms(2) by (cases "dropWhile ?P rs") auto
  then have "h \<in> set rs" "fst h \<noteq> p" using hd_dropWhile [of ?P rs] set_dropWhileD [of h ?P rs] by auto
  then have h: "better d p (fst h)" using assms(1) better_total [of d] by (auto simp: side_sorted_Cons)
  have "rs = takeWhile ?P rs @ h # t" by (metis t takeWhile_dropWhile_id)
  then have "side_sorted d (h # t)" using assms(1) by (metis side_sorted_Cons side_sorted_append)
  then have "r = h \<or> \<not> better d (fst r) (fst h)" using assms(2) t by (auto simp: side_sorted_Cons)
  with h show ?thesis using better_total [of d "fst r" "fst h"] by (metis better_trans)
qed

lemma groups_sorted:
  assumes "side_sorted d rs"
  shows "groups_ok d (groups rs)"
proof -
  from assms have "sorted_wrt (better d) (map fst (groups rs))"
  proof (induction rs rule: groups.induct)
    case (2 p m rs)
    let ?ds = "dropWhile (\<lambda>r. fst r = p) rs"
    have "side_sorted d rs" using "2.prems" by (simp add: side_sorted_Cons)
    then have "side_sorted d ?ds" by (metis side_sorted_append takeWhile_dropWhile_id)
    moreover have "better d p q" if "q \<in> fst ` set (groups ?ds)" for q
      using that side_sorted_dropWhile [OF "2.prems"] unfolding groups_prices by auto
    ultimately show ?case using "2.IH" by auto
  qed simp
  then show ?thesis by (simp add: groups_ok_def groups_nonempty)
qed

lemma groups_ok_distinct: "groups_ok d gs \<Longrightarrow> distinct (map fst gs)"
proof -
  have "sorted_wrt (better d) ps \<Longrightarrow> distinct ps" for ps by (induction ps) auto
  then show "groups_ok d gs \<Longrightarrow> distinct (map fst gs)" by (simp add: groups_ok_def)
qed

lemma level_count_groups:
  assumes "groups_ok d (groups rs)"
  shows "level_count rs = length (groups rs)"
  using distinct_card [OF groups_ok_distinct [OF assms]] groups_prices [of rs] by (simp add: level_count_card)

lemma count_price_groups:
  assumes "distinct (map fst gs)" "g \<in> set gs"
  shows "count_price (fst g) (concat (map group_rows gs)) = length (snd g)"
  using assms
proof (induction gs)
  case (Cons h gs)
  have other: "filter (\<lambda>r. fst r = fst h) (concat (map group_rows gs)) = []"
    using Cons.prems(1) group_rows_prices [of _ gs] by (fastforce simp: filter_empty_conv)
  have same: "filter (\<lambda>r. fst r = q) (group_rows h) = (if q = fst h then group_rows h else [])" for q
    by (auto simp: group_rows_def filter_empty_conv)
  show ?case
  proof (cases "g = h")
    case True
    then show ?thesis using other same by (simp add: count_price_def group_rows_def [of h])
  next
    case False
    then have "g \<in> set gs" "fst g \<noteq> fst h" using Cons.prems by (auto simp: rev_image_eqI)
    then show ?thesis using Cons same by (simp add: count_price_def)
  qed
qed simp

lemma sequenced_groups:
  assumes "distinct (map fst gs)"
  shows "sequenced_rows (concat (map group_rows gs)) \<longleftrightarrow> (\<forall>g \<in> set gs. group_sequenced g)"
  using assms
proof (induction gs)
  case (Cons g gs)
  have "fst a \<noteq> fst b" if "a \<in> set (group_rows g)" "b \<in> set (concat (map group_rows gs))" for a b
    using that(1) group_rows_prices [OF that(2)] Cons.prems by (force simp: group_rows_def)
  moreover have "sequenced_rows (group_rows g) \<longleftrightarrow> group_sequenced g"
    by (auto simp: sequenced_rows_def group_sequenced_def group_rows_def sorted_wrt_map)
  ultimately show ?case
    using Cons unfolding sequenced_rows_def by (auto simp: sorted_wrt_append)
qed (simp add: sequenced_rows_def)

lemma spec_groups_ok:
  assumes "spec_inv sb" "fits L K sb"
  shows "prior_ok (side = Buy) None (groups (sb side))" "g \<in> set (groups (sb side)) \<Longrightarrow> group_ok K g"
    "length (groups (sb side)) \<le> L" "sequenced_rows (sb side) \<longleftrightarrow> (\<forall>g \<in> set (groups (sb side)). group_sequenced g)"
proof -
  note d = spec_invD [OF assms(1)]
  have ok: "groups_ok (side = Buy) (groups (sb side))" by (rule groups_sorted [OF d(1)])
  then show "prior_ok (side = Buy) None (groups (sb side))" by (simp add: prior_ok_def groups_ok_def)
  show "length (groups (sb side)) \<le> L" using assms(2) level_count_groups [OF ok] by (metis fits_def)
  show "sequenced_rows (sb side) \<longleftrightarrow> (\<forall>g \<in> set (groups (sb side)). group_sequenced g)"
    using sequenced_groups [OF groups_ok_distinct [OF ok]] by simp
  show "group_ok K g" if g: "g \<in> set (groups (sb side))"
  proof -
    have rows: "set (group_rows g) \<subseteq> set (sb side)"
      using concat_groups [of "sb side"] g by (metis UN_upper set_concat set_map image_eqI Sup_upper)
    have ne: "snd g \<noteq> []" by (rule groups_nonempty [OF g])
    have "length (snd g) \<le> K"
      using count_price_groups [OF groups_ok_distinct [OF ok] g] assms(2) by (metis concat_groups fits_def)
    moreover have "\<forall>m \<in> set (snd g). 0 < sint (fst g) \<and> mo_quantity m \<noteq> 0"
      using d(2) [of side] rows by (auto simp: rows_positive_def group_rows_def)
    ultimately show ?thesis using ne by (cases "snd g") (auto simp: group_ok_def)
  qed
qed

section \<open>Validation of a whole state\<close>

text \<open>The lengths of the arrays, which the Rust types fix.\<close>

definition state_dims :: "nat \<Rightarrow> nat \<Rightarrow> book_state \<Rightarrow> bool" where
  "state_dims L K st \<longleftrightarrow> length (bs_bids st) = L \<and> length (bs_asks st) = L \<and>
     (\<forall>lv \<in> set (bs_bids st @ bs_asks st). length (bl_orders lv) = K)"

lemma occurrences_distinct:
  "(\<forall>x \<in> set xs. length (filter (\<lambda>c. f c = f x) xs) = 1) \<longleftrightarrow> distinct (map f xs)"
proof (induction xs)
  case (Cons a xs)
  show ?case
  proof (cases "f a \<in> f ` set xs")
    case True
    then have "filter (\<lambda>c. f c = f a) xs \<noteq> []" by (auto simp: filter_empty_conv)
    then show ?thesis using True by auto
  next
    case False
    then have "filter (\<lambda>c. f c = f a) xs = []" "\<forall>x \<in> set xs. f a \<noteq> f x" by (auto simp: filter_empty_conv rev_image_eqI)
    with False show ?thesis by (simp flip: Cons)
  qed
qed simp

lemma validate_unique_ids_Inr:
  "validate_unique_ids cs os = Inr () \<longleftrightarrow>
     (\<forall>x \<in> set os. length (filter (\<lambda>c. bo_order_id c = bo_order_id x) cs) = 1) \<and>
     (\<forall>x \<in> set os. length (filter (\<lambda>c. bo_sequence c = bo_sequence x) cs) = 1)"
  by (induction os) auto

lemma validate_unique_ids_sequences:
  "\<forall>x \<in> set os. length (filter (\<lambda>c. bo_order_id c = bo_order_id x) cs) = 1 \<Longrightarrow>
   validate_unique_ids cs os = Inr () \<or> validate_unique_ids cs os = Inl BsSequence"
  by (induction os) auto

lemma group_keys:
  assumes "\<And>side p m. f (order_state side p m) = h m"
  shows "map f (concat (map live_orders (map (level_state K side) gs))) = map (h \<circ> snd) (concat (map group_rows gs))"
  by (induction gs) (simp_all add: group_rows_def o_def assms)

lemma spec_state_keys:
  "map bo_order_id (state_orders (spec_state L K ins sb)) = spec_ids sb"
  "map bo_sequence (state_orders (spec_state L K ins sb)) = map (mo_sequence \<circ> snd) (sb Buy @ sb Sell)"
  using group_keys [of bo_order_id mo_id K _ "groups (sb _)"] group_keys [of bo_sequence mo_sequence K _ "groups (sb _)"]
  by (simp_all add: state_orders_def spec_state_def spec_ids_def)

lemma side_state_tail: "drop (length gs) (side_state L K side gs) = replicate (L - length gs) (empty_book_level_state K)"
  by (simp add: side_state_def)

lemma side_state_head: "gs \<noteq> [] \<Longrightarrow> bl_price (hd (side_state L K side gs)) = fst (hd gs)"
  by (cases gs) (simp_all add: side_state_def)

lemma groups_head: "groups rs \<noteq> [] \<Longrightarrow> hd rs \<in> set rs \<and> fst (hd (groups rs)) = fst (hd rs)"
  by (cases rs; cases "hd rs") auto

lemma validate_spec_state:
  assumes inv: "spec_inv sb" and fit: "fits L K sb"
  shows "book_validate_state L K (spec_state L K ins sb) = (if sequenced sb then Inr () else Inl BsSequence)"
proof -
  note ok = spec_groups_ok [OF assms]
  let ?st = "spec_state L K ins sb"
  have side: "validate_side K side (map (level_state K side) (groups (sb side))) None
      = (if sequenced_rows (sb side) then Inr () else Inl BsSequence)" for side
    using validate_side_groups [of "groups (sb side)" K side None] ok by simp
  have "sint (fst (hd (groups (sb Buy)))) < sint (fst (hd (groups (sb Sell))))"
    if "groups (sb Buy) \<noteq> []" "groups (sb Sell) \<noteq> []"
    using groups_head [OF that(1)] groups_head [OF that(2)] spec_invD(5) [OF inv] by (auto simp: uncrossed_def)
  then have cross: "\<not> (bs_bids ?st \<noteq> [] \<and> bs_bid_level_count ?st > 0 \<and> bs_asks ?st \<noteq> [] \<and> bs_ask_level_count ?st > 0 \<and>
      sint (bl_price (hd (bs_bids ?st))) \<ge> sint (bl_price (hd (bs_asks ?st))))"
    by (fastforce simp: spec_state_def side_state_head)
  have ids: "\<forall>x \<in> set (state_orders ?st). length (filter (\<lambda>c. bo_order_id c = bo_order_id x) (state_orders ?st)) = 1"
    using inv unfolding occurrences_distinct spec_state_keys by (simp add: spec_inv_def)
  have uniq: "validate_unique_ids (state_orders ?st) (state_orders ?st)
      = (if distinct (map (mo_sequence \<circ> snd) (sb Buy @ sb Sell)) then Inr () else Inl BsSequence)"
  proof -
    have "validate_unique_ids (state_orders ?st) (state_orders ?st) = Inr ()
        \<longleftrightarrow> distinct (map (mo_sequence \<circ> snd) (sb Buy @ sb Sell))"
      using ids unfolding validate_unique_ids_Inr occurrences_distinct [of _ bo_sequence] spec_state_keys by blast
    with validate_unique_ids_sequences [OF ids] show ?thesis by metis
  qed
  have "\<not> (bs_bid_level_count ?st > L \<or> bs_ask_level_count ?st > L)"
    using ok(3) by (simp add: spec_state_def not_less)
  moreover have "take (bs_bid_level_count ?st) (bs_bids ?st) = map (level_state K Buy) (groups (sb Buy))"
    "take (bs_ask_level_count ?st) (bs_asks ?st) = map (level_state K Sell) (groups (sb Sell))"
    by (simp_all add: spec_state_def)
  moreover have "\<not> (\<exists>lv \<in> set (drop (bs_bid_level_count ?st) (bs_bids ?st) @ drop (bs_ask_level_count ?st) (bs_asks ?st)).
      lv \<noteq> empty_book_level_state K)"
    by (auto simp: spec_state_def side_state_tail)
  ultimately show ?thesis
    using cross uniq side unfolding book_validate_state_def sequenced_def by (simp del: map_append set_append)
qed

lemma validated_side:
  assumes "validate_side K side (take n lvs) None = Inr ()" "length lvs = L" "n \<le> L"
    "\<forall>lv \<in> set lvs. length (bl_orders lv) = K" "\<forall>lv \<in> set (drop n lvs). lv = empty_book_level_state K"
  shows "\<exists>gs. n = length gs \<and> lvs = side_state L K side gs \<and> (\<forall>g \<in> set gs. group_ok K g \<and> group_sequenced g) \<and>
    groups_ok (side = Buy) gs"
proof -
  have "\<forall>lv \<in> set (take n lvs). length (bl_orders lv) = K" using assms(4) by (meson in_set_takeD)
  from validate_side_Inr [OF assms(1) this]
  obtain gs where gs: "take n lvs = map (level_state K side) gs" "\<forall>g \<in> set gs. group_ok K g \<and> group_sequenced g"
    "prior_ok (side = Buy) None gs" by blast
  have n: "n = length gs" using arg_cong [OF gs(1), of length] assms(2,3) by simp
  have "drop n lvs = replicate (L - n) (empty_book_level_state K)"
    using assms(2,5) by (metis length_drop replicate_length_same)
  then have "lvs = side_state L K side gs"
    using gs(1) n by (metis append_take_drop_id side_state_def)
  with n gs(2,3) show ?thesis by (auto simp: prior_ok_def groups_ok_def group_ok_def)
qed

lemma side_sorted_groups:
  assumes "groups_ok d gs"
  shows "side_sorted d (concat (map group_rows gs))"
  using assms
proof (induction gs)
  case (Cons g gs)
  have "side_sorted d (group_rows g)" by (simp add: side_sorted_def group_rows_def sorted_wrt_map)
  moreover have "\<not> better d (fst b) (fst a)" if ab: "a \<in> set (group_rows g)" "b \<in> set (concat (map group_rows gs))" for a b
  proof -
    obtain g' where "g' \<in> set gs" "fst b = fst g'" using group_rows_prices [OF ab(2)] by auto
    then show ?thesis using ab(1) Cons.prems better_antisym by (auto simp: groups_ok_def group_rows_def)
  qed
  ultimately show ?case using Cons by (auto simp: side_sorted_append groups_ok_def)
qed (simp add: side_sorted_def)

lemma uncrossed_groups:
  assumes "groups_ok True bs" "groups_ok False as"
    "bs \<noteq> [] \<Longrightarrow> as \<noteq> [] \<Longrightarrow> sint (fst (hd bs)) < sint (fst (hd as))"
    "b \<in> set (concat (map group_rows bs))" "a \<in> set (concat (map group_rows as))"
  shows "sint (fst b) < sint (fst a)"
proof -
  have "fst b \<in> fst ` set bs" "fst a \<in> fst ` set as" using assms(4,5) by (blast dest: group_rows_prices)+
  then obtain q bs' r as' where "bs = q # bs'" "as = r # as'" "fst b \<in> fst ` set bs" "fst a \<in> fst ` set as"
    by (cases bs; cases as) auto
  moreover from this have "sint (fst b) \<le> sint (fst q)" "sint (fst r) \<le> sint (fst a)"
    using assms(1,2) by (fastforce simp: groups_ok_def better_def)+
  ultimately show ?thesis using assms(3) by simp
qed

lemma validated_state:
  assumes dims: "state_dims L K st" and v: "book_validate_state L K st = Inr ()"
  shows "\<exists>sb. st = spec_state L K (bs_instrument st) sb \<and> spec_inv sb \<and> fits L K sb \<and> sequenced sb"
proof -
  have c: "bs_bid_level_count st \<le> L" "bs_ask_level_count st \<le> L"
      "validate_side K Buy (take (bs_bid_level_count st) (bs_bids st)) None = Inr ()"
      "validate_side K Sell (take (bs_ask_level_count st) (bs_asks st)) None = Inr ()"
      "\<forall>lv \<in> set (drop (bs_bid_level_count st) (bs_bids st)). lv = empty_book_level_state K"
      "\<forall>lv \<in> set (drop (bs_ask_level_count st) (bs_asks st)). lv = empty_book_level_state K"
      "\<not> (bs_bids st \<noteq> [] \<and> bs_bid_level_count st > 0 \<and> bs_asks st \<noteq> [] \<and> bs_ask_level_count st > 0 \<and>
         sint (bl_price (hd (bs_bids st))) \<ge> sint (bl_price (hd (bs_asks st))))"
      "validate_unique_ids (state_orders st) (state_orders st) = Inr ()"
    using v unfolding book_validate_state_def by (auto simp: result_iff split: if_splits)
  obtain gb where gb: "bs_bid_level_count st = length gb" "bs_bids st = side_state L K Buy gb"
      "\<forall>g \<in> set gb. group_ok K g \<and> group_sequenced g" "groups_ok True gb"
    using validated_side [OF c(3) _ c(1) _ c(5)] dims by (auto simp: state_dims_def)
  obtain ga where ga: "bs_ask_level_count st = length ga" "bs_asks st = side_state L K Sell ga"
      "\<forall>g \<in> set ga. group_ok K g \<and> group_sequenced g" "groups_ok False ga"
    using validated_side [OF c(4) _ c(2) _ c(6)] dims by (auto simp: state_dims_def)
  define gs where "gs side = (case side of Buy \<Rightarrow> gb | Sell \<Rightarrow> ga)" for side
  define sb where "sb side = concat (map group_rows (gs side))" for side
  have gok: "groups_ok (side = Buy) (gs side)" "\<forall>g \<in> set (gs side). group_ok K g \<and> group_sequenced g" for side
    using gb(3,4) ga(3,4) by (cases side; simp add: gs_def)+
  have grp: "groups (sb side) = gs side" for side unfolding sb_def by (rule groups_concat [OF gok(1)])
  have st: "st = spec_state L K (bs_instrument st) sb"
    using gb(1,2) ga(1,2) by (simp add: spec_state_def grp gs_def)
  have keys: "distinct (spec_ids sb)" "distinct (map (mo_sequence \<circ> snd) (sb Buy @ sb Sell))"
    using c(8) unfolding validate_unique_ids_Inr occurrences_distinct
    by (subst (asm) (1 2) st, simp only: spec_state_keys)+
  have "side_sorted (side = Buy) (sb side)" for side unfolding sb_def by (rule side_sorted_groups [OF gok(1)])
  from this [of Buy] this [of Sell] have sorted: "side_sorted True (sb Buy)" "side_sorted False (sb Sell)" by simp_all
  have "rows_positive (sb side)" for side
    using gok(2) [of side] unfolding rows_positive_def sb_def by (fastforce simp: group_rows_def group_ok_def)
  moreover have "sint (fst (hd gb)) < sint (fst (hd ga))" if "gb \<noteq> []" "ga \<noteq> []"
    using c(7) that gb(1,2) ga(1,2) side_state_head [of gb L K Buy] side_state_head [of ga L K Sell]
    by (auto simp: side_state_def)
  then have "uncrossed sb"
    unfolding uncrossed_def sb_def gs_def using uncrossed_groups [OF gb(4) ga(4)] by simp
  ultimately have inv: "spec_inv sb" using sorted keys(1) by (simp add: spec_inv_def)
  have "level_count (sb side) \<le> L" for side
    using level_count_groups [of "side = Buy" "sb side"] gok(1) [of side] c(1,2) gb(1) ga(1)
    by (cases side) (simp_all add: grp gs_def)
  moreover have "count_price p (sb side) \<le> K" for side p
  proof (cases "p \<in> fst ` set (gs side)")
    case True
    then show ?thesis
      using count_price_groups [OF groups_ok_distinct [OF gok(1)]] gok(2) [of side] by (auto simp: sb_def group_ok_def)
  next
    case False
    then have "count_price p (sb side) = 0"
      unfolding count_price_0 sb_def using group_rows_prices [of _ "gs side"] by blast
    then show ?thesis by simp
  qed
  moreover have "sequenced_rows (sb side)" for side
    using sequenced_groups [OF groups_ok_distinct [OF gok(1)], of side] gok(2) [of side] by (simp add: sb_def)
  ultimately have "fits L K sb" "sequenced sb" using keys(2) unfolding fits_def sequenced_def by blast+
  with st inv show ?thesis by blast
qed

section \<open>Restoring\<close>

definition resting_of :: "model_order \<Rightarrow> resting_order" where
  "resting_of m = \<lparr>rest_id = mo_id m, rest_account_id = mo_account m, rest_index_slot = 0,
     rest_quantity = mo_quantity m, rest_sequence = mo_sequence m, rest_prev = NIL, rest_next = NIL\<rparr>"

lemma resting_of_simps [simp]: "rest_id (resting_of m) = mo_id m" "abs_order (resting_of m) = m"
  by (simp_all add: resting_of_def abs_order_def)

lemma rest_at_level:
  assumes "level_at b side i = Some level"
    "Option.bind (push_tail K level resting) (\<lambda>(level, slot).
       case index_insert L K (ob_index b) (rest_id resting) \<lparr>ol_side = side, ol_level_index = i, ol_slot = slot\<rparr> of
         Inl _ \<Rightarrow> None
       | Inr (index, index_slot) \<Rightarrow>
           Option.bind (set_index_slot level slot index_slot) (\<lambda>level.
             Some ((set_level b side i (Some level))\<lparr>ob_index := index\<rparr>))) = Some book'"
    "resting = resting_of m"
  shows "restore_orders L K side i (order_state side p m # os) b = restore_orders L K side i os book' \<and>
    side_index book' side = side_index b side"
proof -
  obtain l slot where "push_tail K level resting = Some (l, slot)" using assms(2) by (auto simp: bind_eq_Some_conv)
  moreover from this obtain index h where
      "index_insert L K (ob_index b) (rest_id resting) \<lparr>ol_side = side, ol_level_index = i, ol_slot = slot\<rparr> = Inr (index, h)"
    using assms(2)
    by (cases "index_insert L K (ob_index b) (rest_id resting) \<lparr>ol_side = side, ol_level_index = i, ol_slot = slot\<rparr>") auto
  ultimately obtain l' where r: "push_tail K level resting = Some (l, slot)"
      "index_insert L K (ob_index b) (rest_id resting) \<lparr>ol_side = side, ol_level_index = i, ol_slot = slot\<rparr> = Inr (index, h)"
      "set_index_slot l slot h = Some l'" "book' = (set_level b side i (Some l'))\<lparr>ob_index := index\<rparr>"
    using assms(2) by (auto simp: bind_eq_Some_conv)
  have "get (side_levels b side) i = Some (Some level)" using assms(1) by (auto simp: level_at_def bind_eq_Some_conv)
  with r show ?thesis unfolding assms(3) by (simp add: resting_of_def Let_def del: get_Some)
qed

lemma restore_order_step:
  assumes "li_find (side_index book side) p (side = Buy) = Some i"
    "rest_at_tail L K book side p (resting_of m) = Some book'"
  shows "restore_orders L K side i (order_state side p m # os) book = restore_orders L K side i os book' \<and>
    side_index book' side = side_index book side"
proof -
  obtain level where "level_at book side i = Some level"
    using assms by (auto simp: rest_at_tail_def bind_eq_Some_conv)
  with assms show ?thesis
    by (intro rest_at_level [OF _ _ refl]) (simp_all add: rest_at_tail_def Let_def del: resting_of_simps)
qed

lemma restore_level_step:
  assumes "li_find (side_index book side) p (side = Buy) = None"
    "rest_at_tail L K book side p (resting_of m) = Some book'"
  shows "\<exists>i li. li_insert (side_index book side) p (side = Buy) = Some (li, i) \<and> side_index book' side = li \<and>
    restore_level L K (level_state K side (p, m # ms)) book
      = restore_orders L K side i (map (order_state side p) ms) book'"
proof -
  obtain li i where li: "li_insert (side_index book side) p (side = Buy) = Some (li, i)"
    using assms by (auto simp: rest_at_tail_def split: option.splits)
  let ?b = "set_level (set_side_index book side li) side i (Some (price_level_new K p))"
  obtain level where l: "level_at ?b side i = Some level"
    using assms li by (auto simp: rest_at_tail_def bind_eq_Some_conv)
  then have "i < length (side_levels book side)" by (auto simp: level_at_lvl lvl_Some)
  moreover have "restore_orders L K side i (order_state side p m # map (order_state side p) ms) ?b
      = restore_orders L K side i (map (order_state side p) ms) book' \<and> side_index book' side = side_index ?b side"
    using assms li l by (intro rest_at_level [OF l _ refl]) (simp add: rest_at_tail_def Let_def del: resting_of_simps)
  ultimately show ?thesis using li by (simp add: restore_level_def)
qed

lemma insert_row_last:
  "\<forall>r \<in> set rs. \<not> better d (fst x) (fst r) \<Longrightarrow> insert_row d x rs = rs @ [x]"
  by (simp add: insert_row_def)

lemma spec_ids_append:
  "set (spec_ids (sb(side := sb side @ rs))) = set (spec_ids sb) \<union> (mo_id \<circ> snd) ` set rs"
  by (cases side) (auto simp: spec_ids_def)

text \<open>What restoring keeps: a well-formed book that gained orders behind all others of a side.\<close>

definition restored :: "nat \<Rightarrow> nat \<Rightarrow> side \<Rightarrow> prow list \<Rightarrow> order_book \<Rightarrow> order_book \<Rightarrow> bool" where
  "restored L K side rs book book' \<longleftrightarrow>
     shape L K book' \<and> linked L K {} book' \<and> ob_instrument book' = ob_instrument book \<and>
     abs_book book' = (abs_book book)(side := abs_book book side @ rs)"

lemma restored_trans: "\<lbrakk>restored L K side rs a b; restored L K side rs' b c\<rbrakk> \<Longrightarrow> restored L K side (rs @ rs') a c"
  by (simp add: restored_def)

lemma restored_refl: "\<lbrakk>shape L K book; linked L K {} book\<rbrakk> \<Longrightarrow> restored L K side [] book book"
  by (simp add: restored_def)

lemma rest_worst:
  assumes wf: "shape L K book" "linked L K {} book" "0 < K" and new: "mo_id m \<notin> set (spec_ids (abs_book book))"
    and room: "has_room L K book side p"
    and worst: "\<forall>r \<in> set (abs_book book side). \<not> better (side = Buy) p (fst r)"
  shows "\<exists>book'. rest_at_tail L K book side p (resting_of m) = Some book' \<and> restored L K side [(p, m)] book book'"
proof -
  have none: "index_location L K (ob_index book) (rest_id (resting_of m)) = None"
    using contains_order_abs [OF wf(1,2), of "mo_id m"] new by (simp add: contains_order_def)
  obtain book' i s where b: "rest_at_tail L K book side p (resting_of m) = Some book'" "shape L K book'" "linked L K {} book'"
      "ob_instrument book' = ob_instrument book"
      "erows book' side = insert_row (side = Buy) (p, i, s, erase (strip (resting_of m))) (erows book side)"
      "erows book' (opposite side) = erows book (opposite side)"
    using rest_at_tail_ok [OF wf none room] by blast
  have "\<forall>r \<in> set (erows book side). \<not> better (side = Buy) p (fst r)" using worst by (auto simp: abs_book_def)
  then have "erows book' side = erows book side @ [(p, i, s, erase (strip (resting_of m)))]"
    using insert_row_last [of "erows book side" "side = Buy" "(p, i, s, erase (strip (resting_of m)))"] b(5) by simp
  from abs_book_update [OF this b(6)] b(1-4) show ?thesis
    by (simp add: restored_def abs_book_def fun_upd_def)
qed

lemma restore_orders_ok:
  assumes "shape L K book" "linked L K {} book" "0 < K" "li_find (side_index book side) p (side = Buy) = Some i"
    "\<forall>r \<in> set (abs_book book side). \<not> better (side = Buy) p (fst r)"
    "distinct (map mo_id ms)" "mo_id ` set ms \<inter> set (spec_ids (abs_book book)) = {}"
    "count_price p (abs_book book side) + length ms \<le> K"
  shows "\<exists>book'. restore_orders L K side i (map (order_state side p) ms) book = Some (Inr book') \<and>
    restored L K side (map (Pair p) ms) book book'"
  using assms
proof (induction ms arbitrary: book)
  case Nil
  then show ?case by (simp add: restored_refl)
next
  case (Cons m ms)
  have "0 < count_price p (abs_book book side)"
    using li_find_level [OF Cons.prems(1), where side = side and p = p] Cons.prems(4) by auto
  then have "has_room L K book side p"
    using Cons.prems(8) by (simp add: has_room_abs [OF Cons.prems(1)])
  then obtain b where b: "rest_at_tail L K book side p (resting_of m) = Some b" "restored L K side [(p, m)] book b"
    using rest_worst [OF Cons.prems(1-3), of m side p] Cons.prems(5,7) by auto
  note r = b(2) [unfolded restored_def]
  note step = restore_order_step [OF Cons.prems(4) b(1)]
  have "\<exists>book'. restore_orders L K side i (map (order_state side p) ms) b = Some (Inr book') \<and>
    restored L K side (map (Pair p) ms) b book'"
  proof (rule Cons.IH)
    show "shape L K b" "linked L K {} b" using r by simp_all
    show "li_find (side_index b side) p (side = Buy) = Some i" using step Cons.prems(4) by simp
    show "\<forall>r \<in> set (abs_book b side). \<not> better (side = Buy) p (fst r)" using r Cons.prems(5) by auto
    show "mo_id ` set ms \<inter> set (spec_ids (abs_book b)) = {}"
      using r Cons.prems(6,7) by (auto simp: spec_ids_append)
    show "count_price p (abs_book b side) + length ms \<le> K" using r Cons.prems(8) by (simp add: count_price_def)
  qed (use Cons.prems in auto)
  with step restored_trans [OF b(2), of "map (Pair p) ms"] show ?case by auto
qed

lemma restore_level_ok:
  assumes wf: "shape L K book" "linked L K {} book" "0 < K"
    and g: "snd g \<noteq> []" "length (snd g) \<le> K"
    and worst: "\<forall>r \<in> set (abs_book book side). better (side = Buy) (fst r) (fst g)"
    and ids: "distinct (map mo_id (snd g))" "mo_id ` set (snd g) \<inter> set (spec_ids (abs_book book)) = {}"
    and room: "level_count (abs_book book side) < L"
  shows "\<exists>book'. restore_level L K (level_state K side g) book = Some (Inr book') \<and>
    restored L K side (group_rows g) book book'"
proof -
  obtain p m ms where gp: "g = (p, m # ms)" using g(1) by (cases g; cases "snd g") auto
  have none: "count_price p (abs_book book side) = 0" using worst gp by (force simp: count_price_0)
  then have find: "li_find (side_index book side) p (side = Buy) = None"
    using li_find_level [OF wf(1), where side = side and p = p] by (cases "li_find (side_index book side) p (side = Buy)") auto
  have room': "has_room L K book side p" using none room by (simp add: has_room_abs [OF wf(1)])
  have worst': "\<forall>r \<in> set (abs_book book side). \<not> better (side = Buy) p (fst r)"
    using worst gp better_antisym by auto
  obtain b where b: "rest_at_tail L K book side p (resting_of m) = Some b" "restored L K side [(p, m)] book b"
    using rest_worst [OF wf _ room' worst', of m] ids(2) gp by auto
  note r = b(2) [unfolded restored_def]
  obtain i li where li: "li_insert (side_index book side) p (side = Buy) = Some (li, i)" "side_index b side = li"
      "restore_level L K (level_state K side (p, m # ms)) book = restore_orders L K side i (map (order_state side p) ms) b"
    using restore_level_step [OF find b(1)] by blast
  have "length (iter (side_index book side)) < L" using room level_count_erows [OF wf(1), where side = side] by simp
  then have hit: "li_find (side_index b side) p (side = Buy) = Some i"
    using ld.find_ins [OF side_okD(2) [OF shapeD [OF wf(1)]] find] li(1,2) by (metis fun_upd_same option.inject prod.inject)
  have "\<exists>book'. restore_orders L K side i (map (order_state side p) ms) b = Some (Inr book') \<and>
    restored L K side (map (Pair p) ms) b book'"
  proof (rule restore_orders_ok [OF _ _ wf(3) hit])
    show "shape L K b" "linked L K {} b" using r by simp_all
    show "\<forall>r \<in> set (abs_book b side). \<not> better (side = Buy) p (fst r)" using r worst' by auto
    show "mo_id ` set ms \<inter> set (spec_ids (abs_book b)) = {}" using r ids gp by (auto simp: spec_ids_append)
    show "count_price p (abs_book b side) + length ms \<le> K" using r none g(2) gp by (simp add: count_price_def)
  qed (use ids gp in auto)
  then show ?thesis using li(3) restored_trans [OF b(2), of "map (Pair p) ms"] gp by (auto simp: group_rows_def)
qed

lemma restore_levels_ok:
  assumes "shape L K book" "linked L K {} book" "0 < K" "groups_ok (side = Buy) gs"
    "\<forall>g \<in> set gs. length (snd g) \<le> K"
    "\<forall>r \<in> set (abs_book book side). \<forall>g \<in> set gs. better (side = Buy) (fst r) (fst g)"
    "distinct (map (mo_id \<circ> snd) (concat (map group_rows gs)))"
    "(mo_id \<circ> snd) ` set (concat (map group_rows gs)) \<inter> set (spec_ids (abs_book book)) = {}"
    "level_count (abs_book book side) + length gs \<le> L"
  shows "\<exists>book'. restore_levels L K (map (level_state K side) gs) book = Some (Inr book') \<and>
    restored L K side (concat (map group_rows gs)) book book'"
  using assms
proof (induction gs arbitrary: book)
  case Nil
  then show ?case by (simp add: restored_refl)
next
  case (Cons g gs)
  have "map (mo_id \<circ> snd) (group_rows g) = map mo_id (snd g)" by (simp add: group_rows_def)
  moreover have "distinct (map (mo_id \<circ> snd) (group_rows g))" using Cons.prems(7) by (simp add: o_def)
  ultimately have dg: "distinct (map mo_id (snd g))" by (simp only:)
  have ids': "(mo_id \<circ> snd) ` set (group_rows g) = mo_id ` set (snd g)" by (force simp: group_rows_def)
  have ne: "snd g \<noteq> []" using Cons.prems(4) by (simp add: groups_ok_def)
  obtain b where b: "restore_level L K (level_state K side g) book = Some (Inr b)" "restored L K side (group_rows g) book b"
    using restore_level_ok [OF Cons.prems(1-3) ne, of side] Cons.prems(5,6,8,9) dg ids'
    by (auto simp: image_Un Int_Un_distrib2)
  note r = b(2) [unfolded restored_def]
  have fresh: "fst g \<notin> fst ` set (abs_book book side)" using Cons.prems(6) by fastforce
  have "fst ` set (group_rows g) = {fst g}" using ne by (simp add: group_rows_def image_image image_constant_conv)
  then have lc: "level_count (abs_book b side) = level_count (abs_book book side) + 1"
    using r fresh by (simp add: level_count_card image_Un)
  have "\<exists>book'. restore_levels L K (map (level_state K side) gs) b = Some (Inr book') \<and>
    restored L K side (concat (map group_rows gs)) b book'"
  proof (rule Cons.IH)
    show "shape L K b" "linked L K {} b" using r by simp_all
    show "groups_ok (side = Buy) gs" using Cons.prems(4) by (simp add: groups_ok_def)
    show "\<forall>r \<in> set (abs_book b side). \<forall>g \<in> set gs. better (side = Buy) (fst r) (fst g)"
      using r Cons.prems(4,6) by (auto simp: groups_ok_def group_rows_def)
    show "(mo_id \<circ> snd) ` set (concat (map group_rows gs)) \<inter> set (spec_ids (abs_book b)) = {}"
      using r Cons.prems(7,8) by (auto simp: spec_ids_append)
    show "level_count (abs_book b side) + length gs \<le> L" using lc Cons.prems(9) by simp
  qed (use Cons.prems in auto)
  with b restored_trans [OF b(2), of "concat (map group_rows gs)"] show ?case by auto
qed

lemma restore_spec_state:
  assumes inv: "spec_inv sb" and fit: "fits L K sb" and sq: "sequenced sb" and dims: "dims_ok L K"
  shows "\<exists>book. book_from_state L K ins (spec_state L K ins sb) = Some (Inr book) \<and> book_inv L K book \<and>
    ob_instrument book = ins \<and> abs_book book = sb"
proof -
  note ok = spec_groups_ok [OF inv fit] and d = spec_invD [OF inv]
  have K: "0 < K" using dims by (simp add: dims_ok_def)
  have gok: "groups_ok (side = Buy) (groups (sb side))" for side by (rule groups_sorted [OF d(1)])
  have len: "\<forall>g \<in> set (groups (sb side)). length (snd g) \<le> K" for side using ok(2) by (auto simp: group_ok_def)
  let ?new = "book_new L K ins"
  have new: "shape L K ?new" "linked L K {} ?new" "abs_book ?new = (\<lambda>side. [])"
    using book_new_inv [of K L ins] dims by (simp_all add: dims_ok_def book_inv_def)
  have zero: "level_count ([] :: prow list) = 0" "spec_ids (\<lambda>side. []) = []" by (simp_all add: level_count_def spec_ids_def)
  obtain b where b: "restore_levels L K (map (level_state K Buy) (groups (sb Buy))) ?new = Some (Inr b)"
      "restored L K Buy (sb Buy) ?new b"
    using restore_levels_ok [OF new(1,2) K gok [of Buy] len] ok(3) [of Buy] d(3) [of Buy] by (auto simp: new(3) zero)
  note r = b(2) [unfolded restored_def new(3)]
  have "set (spec_ids (abs_book b)) = (mo_id \<circ> snd) ` set (sb Buy)" using r by (simp add: spec_ids_def)
  then have "\<exists>book. restore_levels L K (map (level_state K Sell) (groups (sb Sell))) b = Some (Inr book) \<and>
      restored L K Sell (concat (map group_rows (groups (sb Sell)))) b book"
    using r ok(3) [of Sell] d(3) [of Sell] d(4) zero(1)
    by (intro restore_levels_ok [OF _ _ K gok len]) auto
  then obtain book where book: "restore_levels L K (map (level_state K Sell) (groups (sb Sell))) b = Some (Inr book)"
      "restored L K Sell (sb Sell) b book" by auto
  have abs: "abs_book book = sb"
  proof
    show "abs_book book side = sb side" for side using book(2) r by (cases side) (simp_all add: restored_def)
  qed
  have "book_from_state L K ins (spec_state L K ins sb) = Some (Inr book)"
    using b(1) book(1) validate_spec_state [OF inv fit, of ins] sq
    by (simp add: book_from_state_def spec_state_def)
  then show ?thesis using book(2) r K inv abs by (auto simp: restored_def book_inv_def)
qed

lemma inv_fits: "shape L K book \<Longrightarrow> fits L K (abs_book book)"
  using capacity_bounds by (simp add: fits_def)

text \<open>Restoring on an arbitrary state: it is refused, or the book exports the state again.\<close>

lemma from_state_cases:
  assumes dims: "dims_ok L K" "state_dims L K st"
  shows "(\<exists>e. book_from_state L K ins st = Some (Inl e)) \<or>
    (\<exists>book. book_from_state L K ins st = Some (Inr book) \<and> book_inv L K book \<and> ob_instrument book = ins \<and>
       sequenced (abs_book book) \<and> st = spec_state L K ins (abs_book book) \<and> book_export_state L K book = Some st)"
proof (cases "bs_instrument st = ins \<and> book_validate_state L K st = Inr ()")
  case False
  then have "\<exists>e. book_from_state L K ins st = Some (Inl e)"
    by (cases "book_validate_state L K st") (auto simp: book_from_state_def)
  then show ?thesis ..
next
  case True
  then obtain sb where sb: "st = spec_state L K ins sb" "spec_inv sb" "fits L K sb" "sequenced sb"
    using validated_state [OF dims(2)] by metis
  obtain book where b: "book_from_state L K ins st = Some (Inr book)" "book_inv L K book" "ob_instrument book = ins" "abs_book book = sb"
    using restore_spec_state [OF sb(2-4) dims(1)] sb(1) by blast
  then have "book_export_state L K book = Some st" using export_state_spec [of L K book] sb(1) by (simp add: book_inv_def)
  with b sb show ?thesis by blast
qed

section \<open>Properties\<close>

text \<open>
  Exporting and restoring a book: every reachable book exports its logical state, which depends
  only on its orders in priority order. When the sequences of the orders are non-zero, unique and
  increasing in every level, \<open>from_state\<close> accepts that state and builds a well-formed book with the
  same orders in the same priority, which exports the same state; otherwise it returns the
  \<open>Sequence\<close> error. The book itself accepts any sequence, so this condition is the caller's.
\<close>

theorem book_state_round_trip:
  assumes "book_reachable L K ins book" "dims_ok L K"
  shows "\<exists>st. book_export_state L K book = Some st \<and> st = spec_state L K ins (abs_book book) \<and>
    (if sequenced (abs_book book)
     then \<exists>book'. book_from_state L K ins st = Some (Inr book') \<and> book_inv L K book' \<and>
       abs_book book' = abs_book book \<and> book_export_state L K book' = Some st
     else book_from_state L K ins st = Some (Inl BsSequence))"
proof -
  have b: "book_inv L K book" "ob_instrument book = ins" using reachable_book [OF assms] by simp_all
  have inv: "shape L K book" "spec_inv (abs_book book)" using b(1) by (simp_all add: book_inv_def)
  let ?st = "spec_state L K ins (abs_book book)"
  have st: "book_export_state L K book = Some ?st" using export_state_spec [OF inv(1)] b(2) by simp
  show ?thesis
  proof (cases "sequenced (abs_book book)")
    case True
    obtain book' where "book_from_state L K ins ?st = Some (Inr book')" "book_inv L K book'" "ob_instrument book' = ins"
        "abs_book book' = abs_book book"
      using restore_spec_state [OF inv(2) inv_fits [OF inv(1)] True assms(2)] by blast
    moreover from this have "book_export_state L K book' = Some ?st"
      using export_state_spec [of L K book'] by (simp add: book_inv_def)
    ultimately show ?thesis using st True by auto
  next
    case False
    then have "book_from_state L K ins ?st = Some (Inl BsSequence)"
      using validate_spec_state [OF inv(2) inv_fits [OF inv(1)], of ins] by (simp add: book_from_state_def spec_state_def)
    with st False show ?thesis by auto
  qed
qed

theorem book_state_round_trip_witness:
  "\<exists>st book'. book_export_state 1 1 demo_book = Some st \<and> book_from_state 1 1 7 st = Some (Inr book') \<and>
    abs_book book' = abs_book demo_book"
proof -
  have "sequenced (abs_book demo_book)"
    by (simp add: demo_book_abs sequenced_def sequenced_rows_def)
  then show ?thesis using book_state_round_trip [OF demo_book_reachable demo_dims] by auto
qed

text \<open>
  C32. Every array of states is answered without a panic, and an accepted one is canonical: the
  restored book is well formed, carries the requested instrument and exports exactly the arrays it
  was built from, so two different states never restore to books with the same orders.
\<close>

theorem book_from_state_sound:
  assumes "dims_ok L K" "state_dims L K st"
  shows "\<exists>r. book_from_state L K ins st = Some r \<and>
    (\<forall>book. r = Inr book \<longrightarrow> book_inv L K book \<and> ob_instrument book = ins \<and> sequenced (abs_book book) \<and>
       book_export_state L K book = Some st)"
  using from_state_cases [OF assms] by auto

theorem book_from_state_sound_witness:
  "\<exists>book. book_from_state 1 1 7 (book_state_empty 1 1 7) = Some (Inr book) \<and> book_inv 1 1 book \<and>
    book_export_state 1 1 book = Some (book_state_empty 1 1 7)"
proof -
  have dims: "state_dims 1 1 (book_state_empty 1 1 7)"
    by (simp add: state_dims_def book_state_empty_def empty_book_level_state_def)
  have "\<exists>book. book_from_state 1 1 7 (book_state_empty 1 1 7) = Some (Inr book)"
    by (simp add: book_from_state_def book_state_empty_def book_validate_state_def state_orders_def)
  with book_from_state_sound [OF demo_dims dims, of 7] show ?thesis by auto
qed

end
