(* ===== verification/Risk_State.thy ===== *)
theory Risk_State
  imports Risk_Reach Binary_Search
begin

text \<open>
  The exported logical state of the risk engine of \<^verbatim>\<open>crates/hft-risk/src/lib.rs\<close>: \<open>export_state\<close> lists accounts
  and live reservations in the order of their ids and forgets slots and indices, \<open>from_state\<close>
  validates such a state and builds an engine from it. Every accepted state gives an engine with the
  full invariant that exports the same state again; the state of every reachable engine is accepted
  unless a reservation was amended to quantity zero.
\<close>

section \<open>States\<close>

record account_risk_state =
  as_id :: account_id
  as_limits :: risk_limits
  as_settled_position :: i128
  as_reserved_buys :: u128
  as_reserved_sells :: u128
  as_open_orders :: u32
  as_killed :: bool

record reservation_risk_state =
  rs_order_id :: order_id
  rs_account_id :: account_id
  rs_side :: side
  rs_quantity :: quantity

record risk_engine_state =
  es_accounts :: "account_risk_state list"
  es_reservations :: "reservation_risk_state list"
  es_maximum_order_id :: "order_id option"
  es_killed :: bool

datatype risk_state_error =
    RsAccountCapacity
  | RsReservationCapacity
  | RsDuplicateAccount
  | RsDuplicateOrder
  | RsNonCanonical
  | RsInvalidLimits
  | RsUnknownAccount
  | RsInvalidWatermark
  | RsExposureMismatch
  | RsOpenOrderMismatch
  | RsPositionLimit
  | RsArithmeticOverflow
  | RsInvalidQuantity

section \<open>Export\<close>

definition account_risk_state_of :: "account_state \<Rightarrow> account_risk_state" where
  "account_risk_state_of a =
     \<lparr>as_id = ac_id a, as_limits = ac_limits a, as_settled_position = ac_settled_position a,
      as_reserved_buys = ac_reserved_buys a, as_reserved_sells = ac_reserved_sells a,
      as_open_orders = ac_open_orders a, as_killed = ac_killed a\<rparr>"

fun reservation_risk_state_of :: "reservation_slot \<Rightarrow> reservation_risk_state option" where
  "reservation_risk_state_of (RLive rv) =
     Some \<lparr>rs_order_id = rv_order_id rv, rs_account_id = rv_account_id rv, rs_side = rv_side rv, rs_quantity = rv_quantity rv\<rparr>"
| "reservation_risk_state_of (RFree _) = None"

definition risk_export_state :: "risk_engine \<Rightarrow> risk_engine_state" where
  "risk_export_state eng =
     \<lparr>es_accounts = sort_key as_id (map account_risk_state_of (List.map_filter id (re_accounts eng))),
      es_reservations = sort_key rs_order_id (List.map_filter reservation_risk_state_of (re_reservations eng)),
      es_maximum_order_id = re_maximum_order_id eng, es_killed = re_killed eng\<rparr>"

section \<open>Validation\<close>

text \<open>The loop over \<open>windows(2)\<close>: the first pair of neighbours that is equal or out of order.\<close>

fun check_order :: "('a \<Rightarrow> 'k::linorder) \<Rightarrow> risk_state_error \<Rightarrow> 'a list \<Rightarrow> risk_state_error + unit" where
  "check_order key duplicate (x # y # xs) =
     (if key x = key y then Inl duplicate
      else if key x > key y then Inl RsNonCanonical
      else check_order key duplicate (y # xs))"
| "check_order key duplicate _ = Inr ()"

text \<open>The totals of one account over the reservations that name it.\<close>

fun sum_reservations ::
  "reservation_risk_state list \<Rightarrow> u128 \<Rightarrow> u128 \<Rightarrow> u32 \<Rightarrow> risk_state_error + u128 \<times> u128 \<times> u32"
where
  "sum_reservations [] buys sells open_orders = Inr (buys, sells, open_orders)"
| "sum_reservations (r # rs) buys sells open_orders =
     and_then
       (case rs_side r of
          Buy \<Rightarrow> and_then (ok_or (checked_add buys (ucast (rs_quantity r))) RsArithmeticOverflow) (\<lambda>buys. Inr (buys, sells))
        | Sell \<Rightarrow> and_then (ok_or (checked_add sells (ucast (rs_quantity r))) RsArithmeticOverflow) (\<lambda>sells. Inr (buys, sells)))
       (\<lambda>(buys, sells).
     and_then (ok_or (checked_add open_orders 1) RsArithmeticOverflow) (\<lambda>open_orders.
       sum_reservations rs buys sells open_orders))"

definition validate_account_state ::
  "account_risk_state \<Rightarrow> reservation_risk_state list \<Rightarrow> risk_state_error + unit"
where
  "validate_account_state account reservations =
     and_then (sum_reservations (filter (\<lambda>r. rs_account_id r = as_id account) reservations) 0 0 0)
       (\<lambda>(reserved_buys, reserved_sells, open_orders).
     if reserved_buys \<noteq> as_reserved_buys account \<or> reserved_sells \<noteq> as_reserved_sells account
     then Inl RsExposureMismatch
     else if open_orders \<noteq> as_open_orders account \<or> open_orders > rl_max_open_orders (as_limits account)
     then Inl RsOpenOrderMismatch
     else
       and_then (ok_or (try_signed reserved_buys) RsArithmeticOverflow) (\<lambda>buys.
       and_then (ok_or (try_signed reserved_sells) RsArithmeticOverflow) (\<lambda>sells.
       and_then (ok_or (checked_sadd (as_settled_position account) buys) RsArithmeticOverflow) (\<lambda>worst_long.
       and_then (ok_or (checked_ssub (as_settled_position account) sells) RsArithmeticOverflow) (\<lambda>worst_short.
         let maximum = ucast (rl_max_abs_position (as_limits account)) :: i128 in
         if sint worst_long > sint maximum \<or> sint worst_short < sint (- maximum) then Inl RsPositionLimit
         else Inr ())))))"

fun validate_accounts ::
  "account_risk_state list \<Rightarrow> reservation_risk_state list \<Rightarrow> risk_state_error + unit"
where
  "validate_accounts [] reservations = Inr ()"
| "validate_accounts (a # as) reservations =
     and_then (validate_account_state a reservations) (\<lambda>_. validate_accounts as reservations)"

definition invalid_limits :: "risk_limits \<Rightarrow> bool" where
  "invalid_limits limits \<longleftrightarrow>
     rl_max_quantity limits = 0 \<or> rl_max_open_orders limits = 0 \<or>
     sint (rl_minimum_price limits) > sint (rl_maximum_price limits)"

definition risk_validate_state ::
  "nat \<Rightarrow> nat \<Rightarrow> risk_engine_state \<Rightarrow> risk_state_error + account_risk_state list \<times> reservation_risk_state list"
where
  "risk_validate_state A N state =
     (if length (es_accounts state) > A then Inl RsAccountCapacity
      else if length (es_reservations state) > N then Inl RsReservationCapacity
      else
        let accounts = es_accounts state in
        and_then (check_order as_id RsDuplicateAccount accounts) (\<lambda>_.
        if \<exists>account \<in> set accounts. invalid_limits (as_limits account) then Inl RsInvalidLimits
        else
          let reservations = es_reservations state in
          and_then (check_order rs_order_id RsDuplicateOrder reservations) (\<lambda>_.
          if \<exists>reservation \<in> set reservations. rs_quantity reservation = 0 then Inl RsInvalidQuantity
          else if reservations \<noteq> [] \<and>
              (case es_maximum_order_id state of None \<Rightarrow> True | Some maximum \<Rightarrow> maximum < rs_order_id (last reservations))
          then Inl RsInvalidWatermark
          else if \<exists>reservation \<in> set reservations. binary_search_by_key as_id (rs_account_id reservation) accounts = None
          then Inl RsUnknownAccount
          else and_then (validate_accounts accounts reservations) (\<lambda>_. Inr (accounts, reservations)))))"

section \<open>Restoring\<close>

fun restore_accounts ::
  "nat \<Rightarrow> nat \<Rightarrow> account_risk_state list \<Rightarrow> risk_engine \<Rightarrow> (risk_state_error + risk_engine) option"
where
  "restore_accounts A slot [] eng = Some (Inr eng)"
| "restore_accounts A slot (account # accounts) eng =
     (case pi_insert (probe_capacity A) (re_account_index eng) (ucast (as_id account)) slot of
        Inl ProbeFull \<Rightarrow> Some (Inl RsAccountCapacity)
      | Inl ProbeDuplicate \<Rightarrow> Some (Inl RsDuplicateAccount)
      | Inr (index, _) \<Rightarrow>
          if slot < length (re_accounts eng)
          then restore_accounts A (slot + 1) accounts
            (set_account (eng\<lparr>re_account_index := index\<rparr>) slot
               \<lparr>ac_id = as_id account, ac_limits = as_limits account, ac_settled_position = as_settled_position account,
                ac_reserved_buys = as_reserved_buys account, ac_reserved_sells = as_reserved_sells account,
                ac_open_orders = as_open_orders account, ac_killed = as_killed account\<rparr>)
          else None)"

fun restore_reservations ::
  "nat \<Rightarrow> nat \<Rightarrow> reservation_risk_state list \<Rightarrow> risk_engine \<Rightarrow> (risk_state_error + risk_engine) option"
where
  "restore_reservations N slot [] eng = Some (Inr eng)"
| "restore_reservations N slot (reservation # reservations) eng =
     (case pi_insert (probe_capacity N) (re_reservation_index eng) (rs_order_id reservation) slot of
        Inl ProbeFull \<Rightarrow> Some (Inl RsReservationCapacity)
      | Inl ProbeDuplicate \<Rightarrow> Some (Inl RsDuplicateOrder)
      | Inr (index, index_slot) \<Rightarrow>
          if slot < length (re_reservations eng)
          then restore_reservations N (slot + 1) reservations
            (set_reservation (eng\<lparr>re_reservation_index := index\<rparr>) slot
               \<lparr>rv_order_id = rs_order_id reservation, rv_account_id = rs_account_id reservation,
                rv_index_slot = index_slot, rv_side = rs_side reservation, rv_quantity = rs_quantity reservation\<rparr>)
          else None)"

definition link_free :: "nat \<Rightarrow> nat \<Rightarrow> reservation_slot list \<Rightarrow> reservation_slot list" where
  "link_free N first_free slots =
     fold (\<lambda>slot slots. slots[slot := RFree (if slot + 1 < N then slot + 1 else NIL)]) [first_free..<N] slots"

definition risk_from_state :: "nat \<Rightarrow> nat \<Rightarrow> risk_engine_state \<Rightarrow> (risk_state_error + risk_engine) option" where
  "risk_from_state A N state =
     rbind (Some (risk_validate_state A N state)) (\<lambda>(accounts, reservations).
     let eng = (risk_new A N)\<lparr>re_killed := es_killed state, re_maximum_order_id := es_maximum_order_id state\<rparr> in
     rbind (restore_accounts A 0 accounts eng) (\<lambda>eng.
     rbind (restore_reservations N 0 reservations eng) (\<lambda>eng.
       let first_free = length (es_reservations state) in
       Some (Inr (eng\<lparr>re_free_head := (if first_free = N then NIL else first_free),
                      re_reservations := link_free N first_free (re_reservations eng)\<rparr>)))))"

section \<open>What validation means\<close>

lemma check_order_iff: "check_order key d xs = Inr () \<longleftrightarrow> sorted_wrt (<) (map key xs)"
proof (induction key d xs rule: check_order.induct)
  case (1 key d x y xs)
  have "sorted_wrt (<) (map key (x # y # xs)) \<longleftrightarrow> key x < key y \<and> sorted_wrt (<) (map key (y # xs))"
    by (auto intro: less_trans)
  then show ?case using 1 by (auto simp: not_less)
qed simp_all

definition entry_of :: "reservation_risk_state \<Rightarrow> exposure_entry" where
  "entry_of r = (rs_account_id r, rs_side r, rs_quantity r)"

definition res_map :: "reservation_risk_state list \<Rightarrow> order_id \<Rightarrow> exposure_entry option" where
  "res_map rs = map_of (map (\<lambda>r. (rs_order_id r, entry_of r)) rs)"

definition list_total :: "(exposure_entry \<Rightarrow> int) \<Rightarrow> reservation_risk_state list \<Rightarrow> int" where
  "list_total f rs = (\<Sum>r \<leftarrow> rs. f (entry_of r))"

lemma list_total_simps [simp]: "list_total f [] = 0" "list_total f (r # rs) = f (entry_of r) + list_total f rs"
  by (simp_all add: list_total_def)

lemma res_map_Cons: "res_map (r # rs) = (res_map rs)(rs_order_id r := Some (entry_of r))"
  by (simp add: res_map_def)

lemma dom_res_map: "dom (res_map rs) = rs_order_id ` set rs"
  by (simp add: res_map_def dom_map_of_conv_image_fst image_image)

lemma res_map_total: "distinct (map rs_order_id rs) \<Longrightarrow> total f (res_map rs) = list_total f rs"
proof (induction rs)
  case (Cons r rs)
  have "finite (dom (res_map rs))" by (simp add: dom_res_map)
  moreover have "res_map rs (rs_order_id r) = None" using Cons.prems dom_res_map [of rs] by auto
  ultimately show ?case
    using Cons total_upd [of "res_map rs" f "rs_order_id r" "Some (entry_of r)"] by (simp add: res_map_Cons del: fun_upd_apply)
qed (simp add: res_map_def total_def)

lemma list_total_nonneg: "(\<And>e. 0 \<le> f e) \<Longrightarrow> 0 \<le> list_total f rs"
  by (induction rs) simp_all

lemma list_total_filter:
  "list_total (on_side i s) (filter (\<lambda>r. rs_account_id r = i) rs) = list_total (on_side i s) rs"
  "int (length (filter (\<lambda>r. rs_account_id r = i) rs)) = list_total (counted i) rs"
  by (induction rs) (simp_all add: entry_of_def)

lemma checked_add_uint:
  "checked_add a b = (if uint a + uint b < 2 ^ LENGTH('a) then Some (word_of_int (uint a + uint b)) else None)"
  for a b :: "'a::len word"
  by (simp add: checked_add_def)

lemma word_of_int_eq_iff_uint: "0 \<le> x \<Longrightarrow> x < 2 ^ LENGTH('a) \<Longrightarrow> uint (word_of_int x :: 'a::len word) = x"
  by (simp add: uint_word_of_int_eq take_bit_int_eq_self)

lemma uint_sum_exact:
  "uint x + uint y < 2 ^ LENGTH('a) \<Longrightarrow> uint (word_of_int (uint x + uint y) :: 'a::len word) = uint x + uint y"
  for x y :: "'a::len word"
  by (rule word_of_int_eq_iff_uint) simp_all

lemma sum_reservations_exact:
  assumes "\<forall>r \<in> set rs. rs_account_id r = i"
  shows "sum_reservations rs b s n =
    (if uint b + list_total (on_side i Buy) rs < 2 ^ 128 \<and> uint s + list_total (on_side i Sell) rs < 2 ^ 128 \<and>
        uint n + int (length rs) < 2 ^ 32
     then Inr (word_of_int (uint b + list_total (on_side i Buy) rs), word_of_int (uint s + list_total (on_side i Sell) rs),
       word_of_int (uint n + int (length rs)))
     else Inl RsArithmeticOverflow)"
  using assms
proof (induction rs arbitrary: b s n)
  case Nil
  have "uint b < 2 ^ 128" "uint s < 2 ^ 128" "uint n < 2 ^ 32"
    using uint_lt2p [of b] uint_lt2p [of s] uint_lt2p [of n] by simp_all
  then show ?case by simp
next
  case (Cons r rs)
  have nn: "0 \<le> list_total (on_side i Buy) rs" "0 \<le> list_total (on_side i Sell) rs"
    by (rule list_total_nonneg, simp)+
  have ids: "\<forall>r \<in> set rs. rs_account_id r = i" "rs_account_id r = i" using Cons.prems by simp_all
  have q: "uint (ucast (rs_quantity r) :: u128) = uint (rs_quantity r)" by (rule uint_ucast_u64)
  show ?case
  proof (cases "rs_side r")
    case Buy
    then show ?thesis
      using Cons.IH [OF ids(1)] nn ids(2) uint_sum_exact [of b "ucast (rs_quantity r)"] uint_sum_exact [of n 1] q
      by (auto simp: checked_add_uint entry_of_def and_then_def ok_or_def algebra_simps)
  next
    case Sell
    then show ?thesis
      using Cons.IH [OF ids(1)] nn ids(2) uint_sum_exact [of s "ucast (rs_quantity r)"] uint_sum_exact [of n 1] q
      by (auto simp: checked_add_uint entry_of_def and_then_def ok_or_def algebra_simps)
  qed
qed

definition account_of :: "account_risk_state \<Rightarrow> account_state" where
  "account_of s =
     \<lparr>ac_id = as_id s, ac_limits = as_limits s, ac_settled_position = as_settled_position s,
      ac_reserved_buys = as_reserved_buys s, ac_reserved_sells = as_reserved_sells s,
      ac_open_orders = as_open_orders s, ac_killed = as_killed s\<rparr>"

lemma account_of_inverse [simp]: "account_of (account_risk_state_of a) = a" "account_risk_state_of (account_of s) = s"
  by (simp_all add: account_of_def account_risk_state_of_def)

lemma account_of_fields [simp]:
  "ac_id (account_of s) = as_id s" "ac_limits (account_of s) = as_limits s"
  "ac_settled_position (account_of s) = as_settled_position s" "ac_reserved_buys (account_of s) = as_reserved_buys s"
  "ac_reserved_sells (account_of s) = as_reserved_sells s" "ac_open_orders (account_of s) = as_open_orders s"
  "as_id (account_risk_state_of a) = ac_id a" "as_limits (account_risk_state_of a) = ac_limits a"
  by (simp_all add: account_of_def account_risk_state_of_def)

lemma check_position_within: "check_position a (ac_reserved_buys a) (ac_reserved_sells a) = Inr () \<longleftrightarrow> within_limit a"
proof
  assume "within_limit a"
  moreover have "uint (ac_reserved_buys a) < 2 ^ 66" "uint (ac_reserved_sells a) < 2 ^ 66"
    using account_bounds(2) [OF \<open>within_limit a\<close>, of Buy] account_bounds(2) [OF \<open>within_limit a\<close>, of Sell]
    by (simp_all add: reserved_def)
  ultimately show "check_position a (ac_reserved_buys a) (ac_reserved_sells a) = Inr ()"
    by (simp add: check_position_iff within_limit_def)
next
  let ?p = "ac_settled_position a" and ?b = "ac_reserved_buys a" and ?c = "ac_reserved_sells a"
  assume "check_position a ?b ?c = Inr ()"
  then have small: "uint ?b < 2 ^ (LENGTH(128) - 1)" "uint ?c < 2 ^ (LENGTH(128) - 1)"
    and fits: "signed_fits LENGTH(128) (sint ?p + sint ?b)" "signed_fits LENGTH(128) (sint ?p - sint ?c)"
    and le: "sint (?p + ?b) \<le> uint (rl_max_abs_position (ac_limits a))" "- uint (rl_max_abs_position (ac_limits a)) \<le> sint (?p - ?c)"
    by (auto simp: check_position_def Let_def try_signed_def checked_sadd_def checked_ssub_def sint_ucast_u64
        sint_neg_ucast_u64 not_less split: if_splits)
  then show "within_limit a"
    using sint_add_fits [OF fits(1)] sint_sub_fits [OF fits(2)] sint_eq_uint_small [OF small(1)] sint_eq_uint_small [OF small(2)]
    by (simp add: within_limit_def)
qed

lemma word_of_int_eq_uint:
  assumes "0 \<le> x" "x < 2 ^ LENGTH('a)"
  shows "word_of_int x = (w :: 'a::len word) \<longleftrightarrow> uint w = x"
  using word_of_int_eq_iff_uint [OF assms] by auto

lemma validate_account_iff:
  assumes "distinct (map rs_order_id rs)"
  shows "validate_account_state s rs = Inr () \<longleftrightarrow>
    account_exact (res_map rs) (account_of s) \<and> within_limit (account_of s) \<and> as_open_orders s \<le> rl_max_open_orders (as_limits s)"
proof -
  let ?i = "as_id s"
  define B where "B = list_total (on_side ?i Buy) rs"
  define S where "S = list_total (on_side ?i Sell) rs"
  define C where "C = list_total (counted ?i) rs"
  have nn: "0 \<le> B" "0 \<le> S" "0 \<le> C" unfolding B_def S_def C_def by (rule list_total_nonneg, simp)+
  have sums: "sum_reservations (filter (\<lambda>r. rs_account_id r = ?i) rs) 0 0 0 =
      (if B < 2 ^ 128 \<and> S < 2 ^ 128 \<and> C < 2 ^ 32 then Inr (word_of_int B, word_of_int S, word_of_int C)
       else Inl RsArithmeticOverflow)"
    by (subst sum_reservations_exact [where i = ?i]) (auto simp: B_def S_def C_def list_total_filter)
  have exact: "account_exact (res_map rs) (account_of s) \<longleftrightarrow>
      uint (as_reserved_buys s) = B \<and> uint (as_reserved_sells s) = S \<and> uint (as_open_orders s) = C"
    using res_map_total [OF assms] by (simp add: account_exact_def B_def S_def C_def)
  have pos: "(and_then (ok_or (try_signed (as_reserved_buys s)) RsArithmeticOverflow) (\<lambda>buys.
       and_then (ok_or (try_signed (as_reserved_sells s)) RsArithmeticOverflow) (\<lambda>sells.
       and_then (ok_or (checked_sadd (as_settled_position s) buys) RsArithmeticOverflow) (\<lambda>worst_long.
       and_then (ok_or (checked_ssub (as_settled_position s) sells) RsArithmeticOverflow) (\<lambda>worst_short.
         let maximum = ucast (rl_max_abs_position (as_limits s)) :: i128 in
         if sint worst_long > sint maximum \<or> sint worst_short < sint (- maximum) then Inl RsPositionLimit
         else Inr ())))) = Inr ()) \<longleftrightarrow> within_limit (account_of s)"
    unfolding check_position_within [symmetric]
    by (auto simp: check_position_def and_then_def ok_or_def Let_def split: option.splits sum.splits if_splits)
  have bounds: "uint (as_reserved_buys s) < 2 ^ 128" "uint (as_reserved_sells s) < 2 ^ 128" "uint (as_open_orders s) < 2 ^ 32"
    using uint_lt2p [of "as_reserved_buys s"] uint_lt2p [of "as_reserved_sells s"] uint_lt2p [of "as_open_orders s"] by simp_all
  show ?thesis
  proof (cases "B < 2 ^ 128 \<and> S < 2 ^ 128 \<and> C < 2 ^ 32")
    case False
    then show ?thesis using bounds unfolding exact validate_account_state_def sums by auto
  next
    case True
    then have eq: "word_of_int B = as_reserved_buys s \<longleftrightarrow> uint (as_reserved_buys s) = B"
        "word_of_int S = as_reserved_sells s \<longleftrightarrow> uint (as_reserved_sells s) = S"
        "word_of_int C = as_open_orders s \<longleftrightarrow> uint (as_open_orders s) = C"
      using nn word_of_int_eq_uint [of B "as_reserved_buys s"] word_of_int_eq_uint [of S "as_reserved_sells s"]
        word_of_int_eq_uint [of C "as_open_orders s"] by simp_all
    show ?thesis
    proof (cases "uint (as_reserved_buys s) = B \<and> uint (as_reserved_sells s) = S \<and> uint (as_open_orders s) = C")
      case False
      then show ?thesis using True eq unfolding exact validate_account_state_def sums by auto
    next
      case same: True
      then have w: "word_of_int B = as_reserved_buys s" "word_of_int S = as_reserved_sells s" "word_of_int C = as_open_orders s"
        using eq by simp_all
      have "validate_account_state s rs = Inr () \<longleftrightarrow> as_open_orders s \<le> rl_max_open_orders (as_limits s) \<and> within_limit (account_of s)"
        unfolding validate_account_state_def sums pos [symmetric] using True by (simp add: w) (auto simp: not_less)
      then show ?thesis using same exact by blast
    qed
  qed
qed

lemma validate_accounts_iff:
  "validate_accounts as rs = Inr () \<longleftrightarrow> (\<forall>a \<in> set as. validate_account_state a rs = Inr ())"
  by (induction as) (auto simp: and_then_Inr)

text \<open>A valid state: what \<open>validate_state\<close> accepts.\<close>

definition valid_state :: "nat \<Rightarrow> nat \<Rightarrow> risk_engine_state \<Rightarrow> bool" where
  "valid_state A N st \<longleftrightarrow>
     length (es_accounts st) \<le> A \<and> length (es_reservations st) \<le> N \<and>
     sorted_wrt (<) (map as_id (es_accounts st)) \<and> sorted_wrt (<) (map rs_order_id (es_reservations st)) \<and>
     (\<forall>s \<in> set (es_accounts st). \<not> invalid_limits (as_limits s) \<and> as_open_orders s \<le> rl_max_open_orders (as_limits s) \<and>
        account_exact (res_map (es_reservations st)) (account_of s) \<and> within_limit (account_of s)) \<and>
     (\<forall>r \<in> set (es_reservations st). rs_quantity r \<noteq> 0 \<and> rs_account_id r \<in> as_id ` set (es_accounts st) \<and>
        (\<exists>m. es_maximum_order_id st = Some m \<and> rs_order_id r \<le> m))"

lemma sorted_wrt_last_max: "\<lbrakk>sorted_wrt (<) (map f xs); x \<in> set xs\<rbrakk> \<Longrightarrow> f x \<le> (f (last xs) :: 'k::linorder)"
  by (induction xs) (auto intro: less_imp_le)

lemma binary_search_None:
  "sorted_wrt (<) (map f xs) \<Longrightarrow> binary_search_by_key f k xs = None \<longleftrightarrow> k \<notin> f ` set xs"
  using binary_search_iff [of f xs k] by (metis (no_types, lifting) imageE image_eqI in_set_conv_nth not_None_eq option.distinct(1))

lemma validate_state_iff:
  "risk_validate_state A N st = (if valid_state A N st then Inr (es_accounts st, es_reservations st) else risk_validate_state A N st)"
  "valid_state A N st \<longleftrightarrow> (\<exists>r. risk_validate_state A N st = Inr r)"
proof -
  let ?as = "es_accounts st" and ?rs = "es_reservations st"
  have strict: "sorted_wrt (<) (map rs_order_id ?rs) \<Longrightarrow> distinct (map rs_order_id ?rs)"
    by (metis strict_sorted_iff)
  have water: "(?rs \<noteq> [] \<and> (case es_maximum_order_id st of None \<Rightarrow> True | Some m \<Rightarrow> m < rs_order_id (last ?rs))) \<longleftrightarrow>
      \<not> (\<forall>r \<in> set ?rs. \<exists>m. es_maximum_order_id st = Some m \<and> rs_order_id r \<le> m)"
    if "sorted_wrt (<) (map rs_order_id ?rs)"
    using sorted_wrt_last_max [OF that] last_in_set [of ?rs]
    by (cases "?rs = []"; cases "es_maximum_order_id st") (fastforce simp: not_less)+
  have ok: "risk_validate_state A N st = Inr r \<longleftrightarrow> valid_state A N st \<and> r = (?as, ?rs)" for r
  proof (cases "sorted_wrt (<) (map as_id ?as) \<and> sorted_wrt (<) (map rs_order_id ?rs)")
    case False
    then have "check_order as_id RsDuplicateAccount ?as \<noteq> Inr () \<or> check_order rs_order_id RsDuplicateOrder ?rs \<noteq> Inr ()"
      by (simp add: check_order_iff)
    then show ?thesis using False by (auto simp: risk_validate_state_def valid_state_def Let_def and_then_Inr)
  next
    case True
    then have c: "check_order as_id RsDuplicateAccount ?as = Inr ()" "check_order rs_order_id RsDuplicateOrder ?rs = Inr ()"
      by (simp_all add: check_order_iff)
    have v: "validate_accounts ?as ?rs = Inr () \<longleftrightarrow> (\<forall>s \<in> set ?as. as_open_orders s \<le> rl_max_open_orders (as_limits s) \<and>
        account_exact (res_map ?rs) (account_of s) \<and> within_limit (account_of s))"
      using True strict by (auto simp: validate_accounts_iff validate_account_iff)
    show ?thesis
      using True water c unfolding risk_validate_state_def valid_state_def Let_def
      by (auto simp: and_then_Inr v binary_search_None)
  qed
  show "valid_state A N st \<longleftrightarrow> (\<exists>r. risk_validate_state A N st = Inr r)" using ok by blast
  show "risk_validate_state A N st = (if valid_state A N st then Inr (?as, ?rs) else risk_validate_state A N st)" using ok by auto
qed

section \<open>Restoring the stores\<close>

lemma restore_accounts_ok:
  assumes "accounts_ok A eng" "slot + length as \<le> A" "\<forall>j. slot \<le> j \<longrightarrow> j < A \<longrightarrow> re_accounts eng ! j = None"
    and "distinct (map as_id as)" "\<forall>s \<in> set as. \<forall>v a. acct_at eng v = Some a \<longrightarrow> ac_id a \<noteq> as_id s"
  shows "\<exists>index. let eng' = eng\<lparr>re_accounts := take slot (re_accounts eng) @ map (\<lambda>s. Some (account_of s)) as @ drop (slot + length as) (re_accounts eng),
      re_account_index := index\<rparr> in
    restore_accounts A slot as eng = Some (Inr eng') \<and> accounts_ok A eng'"
  using assms
proof (induction as arbitrary: slot eng)
  case Nil
  have "eng\<lparr>re_accounts := re_accounts eng, re_account_index := re_account_index eng\<rparr> = eng" by simp
  then show ?case using Nil.prems(1) by (intro exI [of _ "re_account_index eng"]) (simp add: Let_def)
next
  case (Cons s as)
  let ?acc = "re_accounts eng"
  have len: "length ?acc = A" using Cons.prems(1) by (simp add: accounts_ok_def)
  have none: "account_slot A eng (ac_id (account_of s)) = None"
    using account_slot_iff [OF Cons.prems(1), of "as_id s"] Cons.prems(5) by (metis account_of_fields(1) list.set_intros(1) not_None_eq)
  obtain index h where ins: "pi_insert (probe_capacity A) (re_account_index eng) (ucast (as_id s)) slot = Inr (index, h)"
      "accounts_ok A (set_account (eng\<lparr>re_account_index := index\<rparr>) slot (account_of s))"
    using insert_account_ok [OF Cons.prems(1) _ _ none, of slot] Cons.prems(2,3) by auto
  define eng1 where "eng1 = set_account (eng\<lparr>re_account_index := index\<rparr>) slot (account_of s)"
  have acc1: "re_accounts eng1 = ?acc[slot := Some (account_of s)]" by (simp add: eng1_def set_account_def)
  have at: "acct_at eng1 v = (if v = slot then Some (account_of s) else acct_at eng v)" for v
    using Cons.prems(2) len by (simp add: eng1_def acct_at_set) (simp add: acct_at_def)
  have fresh: "\<forall>r \<in> set as. \<forall>v a. acct_at eng1 v = Some a \<longrightarrow> ac_id a \<noteq> as_id r"
    using Cons.prems(4,5) unfolding at by (auto split: if_splits)
  have later: "\<forall>j. Suc slot \<le> j \<longrightarrow> j < A \<longrightarrow> re_accounts eng1 ! j = None"
    using Cons.prems(3) by (simp add: acc1 nth_list_update)
  obtain index' where IH: "let eng' = eng1\<lparr>re_accounts := take (Suc slot) (re_accounts eng1) @ map (\<lambda>s. Some (account_of s)) as @
        drop (Suc slot + length as) (re_accounts eng1), re_account_index := index'\<rparr> in
      restore_accounts A (Suc slot) as eng1 = Some (Inr eng') \<and> accounts_ok A eng'"
    using Cons.IH [OF ins(2) [folded eng1_def] _ later _ fresh] Cons.prems(2,4) by auto
  have "restore_accounts A slot (s # as) eng = restore_accounts A (Suc slot) as eng1"
    using ins(1) Cons.prems(2) len by (simp add: eng1_def account_of_def)
  moreover have "take (Suc slot) (re_accounts eng1) @ map (\<lambda>s. Some (account_of s)) as @ drop (Suc slot + length as) (re_accounts eng1) =
      take slot ?acc @ map (\<lambda>s. Some (account_of s)) (s # as) @ drop (slot + length (s # as)) ?acc"
    using Cons.prems(2) len by (simp add: acc1 take_Suc_conv_app_nth)
  moreover have "eng1\<lparr>re_accounts := X, re_account_index := index'\<rparr> = eng\<lparr>re_accounts := X, re_account_index := index'\<rparr>" for X
    by (simp add: eng1_def set_account_def)
  ultimately show ?case using IH by (intro exI [of _ index']) (simp add: Let_def)
qed

definition slot_of :: "reservation_risk_state \<Rightarrow> u32 \<Rightarrow> reservation" where
  "slot_of r h = \<lparr>rv_order_id = rs_order_id r, rv_account_id = rs_account_id r, rv_index_slot = h,
     rv_side = rs_side r, rv_quantity = rs_quantity r\<rparr>"

lemma slot_of_entry: "rv_order_id (slot_of r h) = rs_order_id r" "res_data (slot_of r h) = entry_of r"
  by (simp_all add: slot_of_def res_data_def entry_of_def)

definition next_slot :: "nat \<Rightarrow> nat \<Rightarrow> nat" where
  "next_slot N slot = (if slot < N then slot else NIL)"

lemma restore_reservations_ok:
  assumes "store_ok N (eng\<lparr>re_free_head := next_slot N slot\<rparr>)" "slot + length rs \<le> N"
    and "\<forall>j. slot \<le> j \<longrightarrow> j < N \<longrightarrow> re_reservations eng ! j = RFree (next_slot N (Suc j))"
    and "distinct (map rs_order_id rs)" "\<forall>r \<in> set rs. \<forall>v rv. live (re_reservations eng) v = Some rv \<longrightarrow> rv_order_id rv \<noteq> rs_order_id r"
  shows "\<exists>index hs. let eng' = eng\<lparr>re_reservations := take slot (re_reservations eng) @ map2 (\<lambda>r h. RLive (slot_of r h)) rs hs @
      drop (slot + length rs) (re_reservations eng), re_reservation_index := index\<rparr> in
    restore_reservations N slot rs eng = Some (Inr eng') \<and> length hs = length rs \<and>
    store_ok N (eng'\<lparr>re_free_head := next_slot N (slot + length rs)\<rparr>)"
  using assms
proof (induction rs arbitrary: slot eng)
  case Nil
  have "eng\<lparr>re_reservations := re_reservations eng, re_reservation_index := re_reservation_index eng\<rparr> = eng" by simp
  then show ?case using Nil.prems(1)
    by (intro exI [of _ "re_reservation_index eng"] exI [of _ "[]"]) (simp add: Let_def)
next
  case (Cons r rs)
  let ?res = "re_reservations eng" and ?e0 = "eng\<lparr>re_free_head := slot\<rparr>"
  have lt: "slot < N" "next_slot N slot = slot" using Cons.prems(2) by (auto simp: next_slot_def)
  have ok: "store_ok N ?e0" using Cons.prems(1) lt by simp
  have len: "length ?res = N" "N < NIL" using store_okD(1,2) [OF ok] by simp_all
  have "res_of N ?e0 (rs_order_id r) = None"
    using res_of_iff [OF ok, of "rs_order_id r"] Cons.prems(5) by (metis (no_types, lifting) list.set_intros(1) not_None_eq
        risk_engine.select_convs(3) risk_engine.surjective risk_engine.update_convs(4))
  then obtain n index h where p: "get ?res slot = Some (RFree n)"
      "pi_insert (probe_capacity N) (re_reservation_index eng) (rs_order_id r) slot = Inr (index, h)"
      "store_ok N (push_reservation ?e0 index n (slot_of r h))"
    using push_reservation_ok [OF ok, of "rs_order_id r"] lt(1) len(2) by (auto simp: slot_of_def)
  have n: "n = next_slot N (Suc slot)" using p(1) Cons.prems(3) lt(1) by auto
  define eng1 where "eng1 = set_reservation (eng\<lparr>re_reservation_index := index\<rparr>) slot (slot_of r h)"
  have res1: "re_reservations eng1 = ?res[slot := RLive (slot_of r h)]" by (simp add: eng1_def set_reservation_def)
  have ok1: "store_ok N (eng1\<lparr>re_free_head := next_slot N (Suc slot)\<rparr>)"
    using p(3) by (simp add: push_reservation_def set_reservation_def eng1_def n)
  have fresh: "\<forall>q \<in> set rs. \<forall>v rv. live (re_reservations eng1) v = Some rv \<longrightarrow> rv_order_id rv \<noteq> rs_order_id q"
    using Cons.prems(4,5) unfolding res1 live_update by (auto simp: slot_of_def split: if_splits)
  have later: "\<forall>j. Suc slot \<le> j \<longrightarrow> j < N \<longrightarrow> re_reservations eng1 ! j = RFree (next_slot N (Suc j))"
    using Cons.prems(3) by (simp add: res1 nth_list_update)
  obtain index' hs where IH: "let eng' = eng1\<lparr>re_reservations := take (Suc slot) (re_reservations eng1) @
        map2 (\<lambda>r h. RLive (slot_of r h)) rs hs @ drop (Suc slot + length rs) (re_reservations eng1), re_reservation_index := index'\<rparr> in
      restore_reservations N (Suc slot) rs eng1 = Some (Inr eng') \<and> length hs = length rs \<and>
      store_ok N (eng'\<lparr>re_free_head := next_slot N (Suc slot + length rs)\<rparr>)"
    using Cons.IH [OF ok1 _ later _ fresh] Cons.prems(2,4) by auto
  have "restore_reservations N slot (r # rs) eng = restore_reservations N (Suc slot) rs eng1"
    using p(2) lt(1) len(1) by (simp add: eng1_def slot_of_def)
  moreover have "take (Suc slot) (re_reservations eng1) @ map2 (\<lambda>r h. RLive (slot_of r h)) rs hs @ drop (Suc slot + length rs) (re_reservations eng1) =
      take slot ?res @ map2 (\<lambda>r h. RLive (slot_of r h)) (r # rs) (h # hs) @ drop (slot + length (r # rs)) ?res"
    using lt(1) len(1) by (simp add: res1 take_Suc_conv_app_nth)
  moreover have "eng1\<lparr>re_reservations := X, re_reservation_index := index'\<rparr> = eng\<lparr>re_reservations := X, re_reservation_index := index'\<rparr>" for X
    by (simp add: eng1_def set_reservation_def)
  ultimately show ?case using IH by (intro exI [of _ index'] exI [of _ "h # hs"]) (simp add: Let_def)
qed

lemma link_free_id:
  "\<forall>j. k \<le> j \<longrightarrow> j < N \<longrightarrow> slots ! j = RFree (next_slot N (Suc j)) \<Longrightarrow> link_free N k slots = slots"
proof -
  have "fold (\<lambda>slot slots. slots[slot := RFree (if slot + 1 < N then slot + 1 else NIL)]) js slots = slots"
    if "\<forall>j \<in> set js. slots ! j = RFree (next_slot N (Suc j))" for js
    using that
  proof (induction js)
    case (Cons j js)
    then have "RFree (if j + 1 < N then j + 1 else NIL) = slots ! j" by (simp add: next_slot_def)
    then have "slots[j := RFree (if j + 1 < N then j + 1 else NIL)] = slots" by simp
    then show ?case using Cons by simp
  qed simp
  then show "\<forall>j. k \<le> j \<longrightarrow> j < N \<longrightarrow> slots ! j = RFree (next_slot N (Suc j)) \<Longrightarrow> link_free N k slots = slots"
    by (simp add: link_free_def)
qed

lemma risk_new_parts:
  assumes "risk_dims A N" and e0_def: "e0 = (risk_new A N)\<lparr>re_killed := killed, re_maximum_order_id := maximum\<rparr>"
  shows "accounts_ok A e0" "store_ok N (e0\<lparr>re_free_head := next_slot N 0\<rparr>)" "acct_at e0 v = None" "live (re_reservations e0) v = None"
    "re_accounts e0 = replicate A None" "re_reservations e0 = map (\<lambda>j. RFree (next_slot N (Suc j))) [0..<N]"
proof -
  have inv: "risk_inv A N (risk_new A N)" using assms(1) by (intro risk_new_inv) (simp_all add: risk_dims_def)
  show "accounts_ok A e0" using risk_invD(1) [OF inv] accounts_cong(1) [of e0 "risk_new A N" A] by (simp add: e0_def)
  have "re_free_head (risk_new A N) = next_slot N 0" by (simp add: risk_new_def next_slot_def)
  then show "store_ok N (e0\<lparr>re_free_head := next_slot N 0\<rparr>)"
    using risk_invD(2) [OF inv] store_cong(1) [of "e0\<lparr>re_free_head := next_slot N 0\<rparr>" "risk_new A N" N] by (simp add: e0_def)
  show acc: "re_accounts e0 = replicate A None" by (simp add: e0_def risk_new_def)
  show res: "re_reservations e0 = map (\<lambda>j. RFree (next_slot N (Suc j))) [0..<N]"
    by (simp add: e0_def risk_new_def next_slot_def)
  show "acct_at e0 v = None" using acc by (simp add: acct_at_def get_def)
  show "live (re_reservations e0) v = None" using res by (auto simp: live_None not_le)
qed

lemma map2_nth_list: "length hs = length rs \<Longrightarrow> map2 f rs hs = map (\<lambda>i. f (rs ! i) (hs ! i)) [0..<length rs]"
  by (rule nth_equalityI) simp_all

text \<open>A valid state is restored slot by slot in the order of the lists.\<close>

lemma restore_valid:
  assumes v: "valid_state A N st" and dims: "risk_dims A N"
  shows "\<exists>eng hs. risk_from_state A N st = Some (Inr eng) \<and> accounts_ok A eng \<and> store_ok N eng \<and>
    re_accounts eng = map (\<lambda>s. Some (account_of s)) (es_accounts st) @ replicate (A - length (es_accounts st)) None \<and>
    length hs = length (es_reservations st) \<and>
    re_reservations eng = map2 (\<lambda>r h. RLive (slot_of r h)) (es_reservations st) hs @
      map (\<lambda>j. RFree (next_slot N (Suc j))) [length (es_reservations st)..<N] \<and>
    re_maximum_order_id eng = es_maximum_order_id st \<and> re_killed eng = es_killed st"
proof -
  let ?as = "es_accounts st" and ?rs = "es_reservations st"
  define e0 where "e0 = (risk_new A N)\<lparr>re_killed := es_killed st, re_maximum_order_id := es_maximum_order_id st\<rparr>"
  note E = risk_new_parts [OF dims e0_def]
  have V: "length ?as \<le> A" "length ?rs \<le> N" "distinct (map as_id ?as)" "distinct (map rs_order_id ?rs)"
    using v strict_sorted_iff unfolding valid_state_def by blast+
  obtain ai where a: "let e1 = e0\<lparr>re_accounts := take 0 (re_accounts e0) @ map (\<lambda>s. Some (account_of s)) ?as @ drop (0 + length ?as) (re_accounts e0),
        re_account_index := ai\<rparr> in restore_accounts A 0 ?as e0 = Some (Inr e1) \<and> accounts_ok A e1"
    using restore_accounts_ok [OF E(1), of 0 ?as] V(1,3) E(3,5) by auto
  define e1 where "e1 = e0\<lparr>re_accounts := map (\<lambda>s. Some (account_of s)) ?as @ replicate (A - length ?as) None, re_account_index := ai\<rparr>"
  have e1: "restore_accounts A 0 ?as e0 = Some (Inr e1)" "accounts_ok A e1" using a by (simp_all add: e1_def E(5) Let_def)
  have "store_ok N (e1\<lparr>re_free_head := next_slot N 0\<rparr>)"
    using E(2) store_cong(1) [of "e1\<lparr>re_free_head := next_slot N 0\<rparr>" "e0\<lparr>re_free_head := next_slot N 0\<rparr>" N] by (simp add: e1_def)
  moreover have res1: "re_reservations e1 = map (\<lambda>j. RFree (next_slot N (Suc j))) [0..<N]" using E(6) by (simp add: e1_def)
  moreover have "live (re_reservations e1) w = None" for w using E(4) by (simp add: e1_def)
  ultimately obtain ri hs where r: "let e2 = e1\<lparr>re_reservations := take 0 (re_reservations e1) @ map2 (\<lambda>r h. RLive (slot_of r h)) ?rs hs @
        drop (0 + length ?rs) (re_reservations e1), re_reservation_index := ri\<rparr> in
      restore_reservations N 0 ?rs e1 = Some (Inr e2) \<and> length hs = length ?rs \<and>
      store_ok N (e2\<lparr>re_free_head := next_slot N (0 + length ?rs)\<rparr>)"
    using restore_reservations_ok [of N 0 e1 ?rs] V(2,4) by auto
  define slots where "slots = map2 (\<lambda>r h. RLive (slot_of r h)) ?rs hs @ map (\<lambda>j. RFree (next_slot N (Suc j))) [length ?rs..<N]"
  have "drop (length ?rs) (re_reservations e1) = map (\<lambda>j. RFree (next_slot N (Suc j))) [length ?rs..<N]"
    by (simp add: res1 drop_map)
  then have r2: "restore_reservations N 0 ?rs e1 = Some (Inr (e1\<lparr>re_reservations := slots, re_reservation_index := ri\<rparr>))"
      "length hs = length ?rs" "store_ok N (e1\<lparr>re_reservations := slots, re_reservation_index := ri, re_free_head := next_slot N (length ?rs)\<rparr>)"
    using r by (simp_all add: slots_def Let_def)
  have "\<forall>j. length ?rs \<le> j \<longrightarrow> j < N \<longrightarrow> slots ! j = RFree (next_slot N (Suc j))"
    using r2(2) by (auto simp: slots_def nth_append)
  then have lf: "link_free N (length ?rs) slots = slots" by (rule link_free_id)
  have head: "(if length ?rs = N then NIL else length ?rs) = next_slot N (length ?rs)" using V(2) by (auto simp: next_slot_def)
  let ?eng = "e1\<lparr>re_reservations := slots, re_reservation_index := ri, re_free_head := next_slot N (length ?rs)\<rparr>"
  have vs: "risk_validate_state A N st = Inr (?as, ?rs)" using validate_state_iff(1) [of A N st] v by simp
  have "risk_from_state A N st = Some (Inr ?eng)"
    by (simp add: risk_from_state_def vs e0_def [symmetric] e1 r2 lf Let_def head)
  moreover have "accounts_ok A ?eng" using e1(2) accounts_cong(1) [of ?eng e1 A] by simp
  ultimately show ?thesis using r2(2,3) by (intro exI [of _ ?eng] exI [of _ hs]) (simp add: e1_def slots_def e0_def)
qed

lemma res_map_iff:
  "distinct (map rs_order_id rs) \<Longrightarrow> res_map rs k = Some d \<longleftrightarrow> (\<exists>r \<in> set rs. rs_order_id r = k \<and> entry_of r = d)"
  by (auto simp: res_map_def map_of_eq_Some_iff comp_def)

lemma restored_inv:
  assumes v: "valid_state A N st" and ok: "accounts_ok A eng" "store_ok N eng"
    and acc: "re_accounts eng = map (\<lambda>s. Some (account_of s)) (es_accounts st) @ replicate (A - length (es_accounts st)) None"
    and hs: "length hs = length (es_reservations st)"
    and res: "re_reservations eng = map2 (\<lambda>r h. RLive (slot_of r h)) (es_reservations st) hs @
      map (\<lambda>j. RFree (next_slot N (Suc j))) [length (es_reservations st)..<N]"
    and m: "re_maximum_order_id eng = es_maximum_order_id st" "re_killed eng = es_killed st"
  shows "risk_inv A N eng" "risk_export_state eng = st" "res_of N eng = res_map (es_reservations st)"
    "acct_of A eng i = Some a \<longleftrightarrow> (\<exists>s \<in> set (es_accounts st). account_of s = a \<and> as_id s = i)"
proof -
  let ?as = "es_accounts st" and ?rs = "es_reservations st"
  have S: "sorted_wrt (<) (map as_id ?as)" "sorted_wrt (<) (map rs_order_id ?rs)" using v by (simp_all add: valid_state_def)
  then have d: "distinct (map as_id ?as)" "distinct (map rs_order_id ?rs)" "sorted (map as_id ?as)" "sorted (map rs_order_id ?rs)"
    using strict_sorted_iff by blast+
  have at: "acct_at eng w = Some a \<longleftrightarrow> w < length ?as \<and> account_of (?as ! w) = a" for w a
    by (auto simp: acct_at_def acc get_def nth_append)
  show acct: "acct_of A eng i = Some a \<longleftrightarrow> (\<exists>s \<in> set ?as. account_of s = a \<and> as_id s = i)" for i a
    unfolding acct_of_iff [OF ok(1)] at by (metis account_of_fields(1) in_set_conv_nth)
  have lv: "live (re_reservations eng) w = Some rv \<longleftrightarrow> w < length ?rs \<and> rv = slot_of (?rs ! w) (hs ! w)" for w rv
    using hs v by (auto simp: live_Some res nth_append valid_state_def)
  have "res_of N eng k = Some e \<longleftrightarrow> res_map ?rs k = Some e" for k e
    unfolding res_of_iff [OF ok(2)] lv res_map_iff [OF d(2)] by (metis in_set_conv_nth slot_of_entry)
  then show rmap: "res_of N eng = res_map ?rs" by (metis ext not_None_eq)
  have own: "acct_of A eng i \<noteq> None" if "res_map ?rs k = Some (i, s, q)" for k i s q
  proof -
    have "i \<in> as_id ` set ?as" using that v by (auto simp: res_map_iff [OF d(2)] entry_of_def valid_state_def)
    then show ?thesis using acct by (metis imageE option.distinct(1))
  qed
  show "risk_inv A N eng"
    using v ok own unfolding risk_inv_def rmap acct valid_state_def by (auto simp: dom_res_map m)
  have "List.map_filter id (re_accounts eng) = map account_of ?as"
    by (simp add: acc map_filter_none) (simp add: List.map_filter_def comp_def)
  moreover have "List.map_filter reservation_risk_state_of (map2 (\<lambda>r h. RLive (slot_of r h)) ?rs hs) = ?rs"
    using hs by (intro nth_equalityI) (simp_all add: List.map_filter_def comp_def slot_of_def split_def)
  then have "List.map_filter reservation_risk_state_of (re_reservations eng) = ?rs"
    by (simp add: res map_filter_none)
  ultimately show "risk_export_state eng = st"
    using d(3,4) by (simp add: risk_export_state_def m comp_def sort_key_id_if_sorted)
qed

section \<open>The state of a reachable engine\<close>

definition limits_ok :: "account_state \<Rightarrow> bool" where
  "limits_ok a \<longleftrightarrow> \<not> invalid_limits (ac_limits a) \<and> ac_open_orders a \<le> rl_max_open_orders (ac_limits a)"

lemma account_entries:
  assumes "accounts_ok A eng"
  shows "distinct (map as_id (map account_risk_state_of (List.map_filter id (re_accounts eng))))"
    and "s \<in> set (es_accounts (risk_export_state eng)) \<longleftrightarrow> acct_of A eng (as_id s) = Some (account_of s)"
proof -
  have at: "acct_at eng v = Some a \<longleftrightarrow> v < length (re_accounts eng) \<and> re_accounts eng ! v = Some a" for v a
    by (auto simp: acct_at_def get_def)
  have "distinct (map ac_id (List.map_filter id (re_accounts eng)))"
  proof (rule distinct_filter_map_keys)
    fix i j a b
    assume "i < length (re_accounts eng)" "j < length (re_accounts eng)" "id (re_accounts eng ! i) = Some a"
      "id (re_accounts eng ! j) = Some b" "ac_id a = ac_id b"
    then show "i = j" using account_slot_iff [OF assms, of "ac_id a"] at by (metis id_apply option.inject)
  qed
  then show "distinct (map as_id (map account_risk_state_of (List.map_filter id (re_accounts eng))))" by (simp add: comp_def)
  have "s \<in> set (es_accounts (risk_export_state eng)) \<longleftrightarrow> (\<exists>v. acct_at eng v = Some (account_of s))"
    unfolding at by (auto simp: risk_export_state_def set_map_filter in_set_conv_nth image_iff)
  then show "s \<in> set (es_accounts (risk_export_state eng)) \<longleftrightarrow> acct_of A eng (as_id s) = Some (account_of s)"
    by (simp add: acct_of_iff [OF assms])
qed

lemma reservation_state_iff: "reservation_risk_state_of slot = Some r \<longleftrightarrow> (\<exists>rv. slot = RLive rv \<and> rv_order_id rv = rs_order_id r \<and> res_data rv = entry_of r)"
  by (cases slot; cases r) (auto simp: res_data_def entry_of_def)

lemma reservation_entries:
  assumes "store_ok N eng"
  shows "distinct (map rs_order_id (List.map_filter reservation_risk_state_of (re_reservations eng)))"
    and "r \<in> set (es_reservations (risk_export_state eng)) \<longleftrightarrow> res_of N eng (rs_order_id r) = Some (entry_of r)"
proof -
  show "distinct (map rs_order_id (List.map_filter reservation_risk_state_of (re_reservations eng)))"
  proof (rule distinct_filter_map_keys)
    fix i j a b
    assume "i < length (re_reservations eng)" "j < length (re_reservations eng)" "rs_order_id a = rs_order_id b"
      "reservation_risk_state_of (re_reservations eng ! i) = Some a" "reservation_risk_state_of (re_reservations eng ! j) = Some b"
    then show "i = j" using live_unique [OF assms, of j _ i] by (auto simp: reservation_state_iff live_Some)
  qed
  show "r \<in> set (es_reservations (risk_export_state eng)) \<longleftrightarrow> res_of N eng (rs_order_id r) = Some (entry_of r)"
    unfolding res_of_iff [OF assms] live_Some
    by (simp add: risk_export_state_def set_map_filter reservation_state_iff) (metis in_set_conv_nth)
qed

lemma strict_sort_key: "distinct (map f xs) \<Longrightarrow> sorted_wrt (<) (map f (sort_key f xs))"
  by (metis distinct_map distinct_sort set_sort sorted_sort_key strict_sorted_iff)

lemma export_state_parts:
  assumes inv: "risk_inv A N eng"
  shows "sorted_wrt (<) (map as_id (es_accounts (risk_export_state eng)))" "sorted_wrt (<) (map rs_order_id (es_reservations (risk_export_state eng)))"
    "length (es_accounts (risk_export_state eng)) \<le> A" "length (es_reservations (risk_export_state eng)) \<le> N"
    "res_map (es_reservations (risk_export_state eng)) = res_of N eng"
proof -
  note D = risk_invD [OF inv]
  show "sorted_wrt (<) (map as_id (es_accounts (risk_export_state eng)))"
    unfolding risk_export_state_def using account_entries(1) [OF D(1)] by (simp add: strict_sort_key)
  show s: "sorted_wrt (<) (map rs_order_id (es_reservations (risk_export_state eng)))"
    unfolding risk_export_state_def using reservation_entries(1) [OF D(2)] by (simp add: strict_sort_key)
  show "length (es_accounts (risk_export_state eng)) \<le> A" "length (es_reservations (risk_export_state eng)) \<le> N"
    using length_map_filter [of id "re_accounts eng"] length_map_filter [of reservation_risk_state_of "re_reservations eng"]
      D(1) store_okD(1) [OF D(2)] by (simp_all add: risk_export_state_def accounts_ok_def)
  have "distinct (map rs_order_id (es_reservations (risk_export_state eng)))" using s strict_sorted_iff by blast
  from res_map_iff [OF this] have "res_map (es_reservations (risk_export_state eng)) k = Some d \<longleftrightarrow> res_of N eng k = Some d" for k d
    unfolding reservation_entries(2) [OF D(2)]
    by (cases d) (auto simp: entry_of_def intro: bexI [of _ "\<lparr>rs_order_id = k, rs_account_id = fst d, rs_side = fst (snd d), rs_quantity = snd (snd d)\<rparr>"]
        simp: reservation_entries(2) [OF D(2)])
  then show "res_map (es_reservations (risk_export_state eng)) = res_of N eng" by (metis ext not_None_eq)
qed

lemma export_state_valid:
  assumes inv: "risk_inv A N eng" and lim: "\<And>i a. acct_of A eng i = Some a \<Longrightarrow> limits_ok a"
    and nz: "\<And>k i s q. res_of N eng k = Some (i, s, q) \<Longrightarrow> q \<noteq> 0"
  shows "valid_state A N (risk_export_state eng)"
proof -
  note D = risk_invD [OF inv] and P = export_state_parts [OF inv]
  have "\<not> invalid_limits (as_limits s) \<and> as_open_orders s \<le> rl_max_open_orders (as_limits s) \<and>
      account_exact (res_of N eng) (account_of s) \<and> within_limit (account_of s)"
    if "s \<in> set (es_accounts (risk_export_state eng))" for s
    using that lim D(5) unfolding account_entries(2) [OF D(1)] limits_ok_def by fastforce
  moreover have "rs_quantity r \<noteq> 0 \<and> rs_account_id r \<in> as_id ` set (es_accounts (risk_export_state eng)) \<and>
      (\<exists>m. re_maximum_order_id eng = Some m \<and> rs_order_id r \<le> m)"
    if r: "r \<in> set (es_reservations (risk_export_state eng))" for r
  proof -
    have o: "res_of N eng (rs_order_id r) = Some (rs_account_id r, rs_side r, rs_quantity r)"
      using r unfolding reservation_entries(2) [OF D(2)] by (simp add: entry_of_def)
    obtain a where "acct_of A eng (rs_account_id r) = Some a" "ac_id a = rs_account_id r" using D(4) [OF o] by blast
    then have "account_risk_state_of a \<in> set (es_accounts (risk_export_state eng))" "as_id (account_risk_state_of a) = rs_account_id r"
      unfolding account_entries(2) [OF D(1)] by simp_all
    then show ?thesis using nz [OF o] D(6) [OF o] by (metis image_eqI)
  qed
  ultimately show ?thesis unfolding valid_state_def P(5) using P(1-4) by (simp add: risk_export_state_def)
qed

text \<open>Limits stay as registered, and the open-order count stays within them.\<close>

lemma limits_ok_step:
  assumes inv: "risk_inv A N eng" "risk_inv A N eng'" and lim: "\<And>j b. acct_of A eng j = Some b \<Longrightarrow> limits_ok b"
    and a: "acct_of A eng i = Some a" "acct_of A eng' = (acct_of A eng)(i := Some a')" "ac_limits a' = ac_limits a"
    and r: "res_of N eng' = (res_of N eng)(k := v)"
      "uint (ac_open_orders a) - weigh (counted i) (res_of N eng k) + weigh (counted i) v \<le> uint (rl_max_open_orders (ac_limits a))"
    and b: "acct_of A eng' j = Some b"
  shows "limits_ok b"
proof (cases "j = i")
  case False
  then show ?thesis using lim b a(2) by simp
next
  case True
  then have "b = a'" using b a(2) by simp
  moreover have "uint (ac_open_orders a') = uint (ac_open_orders a) - weigh (counted i) (res_of N eng k) + weigh (counted i) v"
    using risk_invD(5) [OF inv(1) a(1)] risk_invD(5) [OF inv(2), of i a'] a(2) total_upd [OF risk_invD(3) [OF inv(1)], of "counted i" k v]
    by (simp add: account_exact_def r(1))
  ultimately show ?thesis using lim [OF a(1)] r(2) a(3) by (simp add: limits_ok_def word_le_def)
qed

lemma limits_ok_fill:
  assumes inv: "risk_inv A N eng" "risk_inv A N eng'" and lim: "\<And>j b. acct_of A eng j = Some b \<Longrightarrow> limits_ok b"
    and e: "fill_effect A N eng eng' i moved" "res_of N eng k = Some (i, s, q)"
    and r: "res_of N eng' = (res_of N eng)(k := v)" "v = None \<or> (\<exists>q'. v = Some (i, s, q'))"
    and b: "acct_of A eng' j = Some b"
  shows "limits_ok b"
proof -
  obtain a a' where a: "acct_of A eng i = Some a" "acct_of A eng' = (acct_of A eng)(i := Some a')" "ac_limits a' = ac_limits a"
    using e(1) unfolding fill_effect_def by blast
  have "uint (ac_open_orders a) \<le> uint (rl_max_open_orders (ac_limits a))"
    using lim [OF a(1)] by (simp add: limits_ok_def word_le_def)
  then show ?thesis using limits_ok_step [OF inv lim a r(1) _ b] e(2) r(2) by auto
qed

definition limited :: "nat \<Rightarrow> risk_engine \<Rightarrow> bool" where
  "limited A eng \<longleftrightarrow> (\<forall>i a. acct_of A eng i = Some a \<longrightarrow> limits_ok a)"

lemma limitedD: "\<lbrakk>limited A eng; acct_of A eng i = Some a\<rbrakk> \<Longrightarrow> limits_ok a"
  by (auto simp: limited_def)

lemma limited_cong: "acct_of A eng' = acct_of A eng \<Longrightarrow> limited A eng' = limited A eng"
  by (simp add: limited_def)

lemma limited_fill:
  assumes "risk_inv A N eng" "risk_inv A N eng'" "limited A eng" "fill_effect A N eng eng' i moved"
    "res_of N eng k = Some (i, s, q)" "res_of N eng' = (res_of N eng)(k := v)" "v = None \<or> (\<exists>q'. v = Some (i, s, q'))"
  shows "limited A eng'"
  unfolding limited_def by (intro allI impI) (rule limits_ok_fill [OF assms(1,2) limitedD [OF assms(3)] assms(4-7)])

lemma reserve_limited:
  assumes inv: "risk_inv A N eng" and lim: "limited A eng" and ok: "check_and_reserve A N eng order = Some (Inr eng')"
  shows "limited A eng'"
proof -
  let ?k = "no_order_id order" and ?j = "no_account_id order"
  have v: "reserve_verdict A N eng order = None"
    using check_and_reserve_ok [OF inv, of order] ok by (auto split: option.splits)
  then obtain b b' where r: "risk_inv A N eng'" "res_of N eng ?k = None" "acct_of A eng ?j = Some b"
      "res_of N eng' = (res_of N eng)(?k := Some (?j, no_side order, no_quantity order))"
      "acct_of A eng' = (acct_of A eng)(?j := Some b')" "ac_limits b' = ac_limits b"
    using check_and_reserve_ok [OF inv, of order] ok by auto
  have "limit_verdict b order = None" using v r(3) by (auto simp: reserve_verdict_def split: if_splits)
  then have "uint (ac_open_orders b) + 1 \<le> uint (rl_max_open_orders (ac_limits b))"
    by (auto simp: limit_verdict_def split: if_splits option.splits)
  then show ?thesis
    unfolding limited_def using limits_ok_step [OF inv r(1) limitedD [OF lim] r(3,5,6,4)] r(2) by auto
qed

lemma settle_limited:
  assumes inv: "risk_inv A N eng" and lim: "limited A eng" and ok: "settle A N eng k f = Some (Inr eng')"
  shows "limited A eng'"
proof -
  from settle_ok [OF inv, of k f] ok obtain j t q where st: "res_of N eng k = Some (j, t, q)" "risk_inv A N eng'"
      "res_of N eng' = (res_of N eng)(k := None)" "fill_effect A N eng eng' j (signed_by t (uint f))"
    by (auto split: option.splits if_splits)
  show ?thesis by (rule limited_fill [OF inv st(2) lim st(4,1,3)]) simp
qed

lemma record_fill_limited:
  assumes inv: "risk_inv A N eng" and lim: "limited A eng" and ok: "record_fill A N eng k f = Some (Inr eng')"
  shows "limited A eng'"
proof -
  obtain j t q where st: "res_of N eng k = Some (j, t, q)" "risk_inv A N eng'"
      "res_of N eng' = (res_of N eng)(k := if f = q then None else Some (j, t, q - f))" "fill_effect A N eng eng' j (signed_by t (uint f))"
    using record_fill_accepted [OF inv ok] by blast
  show ?thesis by (rule limited_fill [OF inv st(2) lim st(4,1,3)]) simp
qed

lemma adjust_limited:
  assumes inv: "risk_inv A N eng" and lim: "limited A eng"
    and ok: "adjust_reservation A N eng k j price n = Some (Inr (eng', rel, prior))"
  shows "limited A eng'"
proof -
  from adjust_reservation_ok [OF inv, of k j price n] ok obtain t q where st: "res_of N eng k = Some (j, t, q)" "risk_inv A N eng'"
      "res_of N eng' = (res_of N eng)(k := Some (j, t, n))" "fill_effect A N eng eng' j 0"
    by (auto split: option.splits if_splits)
  show ?thesis by (rule limited_fill [OF inv st(2) lim st(4,1,3)]) simp
qed

lemma cancel_limited:
  assumes inv: "risk_inv A N eng" and lim: "limited A eng"
    and ok: "cancel_reservation A N eng k j = Some (Inr (eng', remaining))"
  shows "limited A eng'"
proof -
  from cancel_reservation_ok [OF inv, of k j] ok obtain t q where st: "res_of N eng k = Some (j, t, q)" "risk_inv A N eng'"
      "res_of N eng' = (res_of N eng)(k := None)" "fill_effect A N eng eng' j 0"
    by (auto split: option.splits if_splits)
  show ?thesis by (rule limited_fill [OF inv st(2) lim st(4,1,3)]) simp
qed

lemma reachable_limited:
  assumes "risk_reachable A N eng" "risk_dims A N"
  shows "limited A eng"
  using assms
proof (induction rule: risk_reachable.induct)
  case Init
  then show ?case using risk_new_parts(3) [OF Init(1), of "risk_new A N" None False]
    by (auto simp: limited_def acct_of_def bind_eq_Some_conv risk_new_def)
next
  case (Register eng j limits eng')
  note inv = reachable_risk_inv [OF Register.hyps(1) Register.prems]
  have "\<not> invalid_limits limits" using Register.hyps(2) by (auto simp: register_account_def invalid_limits_def split: if_splits)
  then show ?case using register_account_ok [OF inv Register.hyps(2)] Register.IH [OF Register.prems]
    by (auto simp: limited_def limits_ok_def)
next
  case (Kill eng b)
  then show ?case using accounts_cong(2) [of "set_kill_switch eng b" eng A] by (simp add: set_kill_switch_def limited_def)
next
  case (AccountKill eng j b eng')
  note inv = reachable_risk_inv [OF AccountKill.hyps(1) AccountKill.prems]
  then show ?case using account_kill_switch_ok [OF inv AccountKill.hyps(2)] AccountKill.IH [OF AccountKill.prems]
    by (fastforce simp: limited_def limits_ok_def)
qed (use reachable_risk_inv in \<open>blast intro: reserve_limited settle_limited record_fill_limited adjust_limited cancel_limited\<close>)+

section \<open>Restoring what was exported\<close>

lemma restore_sound:
  assumes "risk_dims A N"
  shows "risk_from_state A N st \<noteq> None"
    and "risk_from_state A N st = Some (Inr eng) \<Longrightarrow> valid_state A N st \<and> risk_inv A N eng \<and> risk_export_state eng = st"
proof -
  show "risk_from_state A N st \<noteq> None"
  proof (cases "valid_state A N st")
    case True
    then show ?thesis using restore_valid [OF True assms] by auto
  next
    case False
    then obtain e where "risk_validate_state A N st = Inl e" using validate_state_iff(2) [of A N st] by (cases "risk_validate_state A N st") auto
    then show ?thesis by (simp add: risk_from_state_def)
  qed
  assume r: "risk_from_state A N st = Some (Inr eng)"
  then have v: "valid_state A N st"
    using validate_state_iff(2) [of A N st] by (cases "risk_validate_state A N st") (auto simp: risk_from_state_def)
  show "valid_state A N st \<and> risk_inv A N eng \<and> risk_export_state eng = st"
    using restore_valid [OF v assms] r restored_inv(1,2) [OF v] v by (metis Inr_inject option.inject)
qed

lemma restore_export:
  assumes inv: "risk_inv A N eng" and dims: "risk_dims A N" and lim: "\<And>i a. acct_of A eng i = Some a \<Longrightarrow> limits_ok a"
    and nz: "\<And>k i s q. res_of N eng k = Some (i, s, q) \<Longrightarrow> q \<noteq> 0"
  shows "\<exists>eng'. risk_from_state A N (risk_export_state eng) = Some (Inr eng') \<and> risk_inv A N eng' \<and> risk_export_state eng' = risk_export_state eng \<and>
    acct_of A eng' = acct_of A eng \<and> res_of N eng' = res_of N eng \<and>
    re_maximum_order_id eng' = re_maximum_order_id eng \<and> re_killed eng' = re_killed eng"
proof -
  have v: "valid_state A N (risk_export_state eng)" using export_state_valid [OF inv lim nz] .
  obtain eng' hs where f: "risk_from_state A N (risk_export_state eng) = Some (Inr eng')" "accounts_ok A eng'" "store_ok N eng'"
      "re_accounts eng' = map (\<lambda>s. Some (account_of s)) (es_accounts (risk_export_state eng)) @
        replicate (A - length (es_accounts (risk_export_state eng))) None"
      "length hs = length (es_reservations (risk_export_state eng))"
      "re_reservations eng' = map2 (\<lambda>r h. RLive (slot_of r h)) (es_reservations (risk_export_state eng)) hs @
        map (\<lambda>j. RFree (next_slot N (Suc j))) [length (es_reservations (risk_export_state eng))..<N]"
      "re_maximum_order_id eng' = es_maximum_order_id (risk_export_state eng)" "re_killed eng' = es_killed (risk_export_state eng)"
    using restore_valid [OF v dims] by blast
  note R = restored_inv [OF v f(2-8)]
  have "acct_of A eng' i = Some a \<longleftrightarrow> acct_of A eng i = Some a" for i a
    unfolding R(4) Bex_def account_entries(2) [OF risk_invD(1) [OF inv]]
    using risk_invD(5) [OF inv, of i a] by (metis account_of_inverse(1) account_of_fields(7))
  then have "acct_of A eng' = acct_of A eng" by (metis ext not_None_eq)
  then show ?thesis using f(1,7,8) R(1-3) export_state_parts(5) [OF inv] by (auto simp: risk_export_state_def)
qed

lemma quantity_slots:
  assumes "store_ok N eng"
  shows "(\<exists>k i s. res_of N eng k = Some (i, s, 0)) \<longleftrightarrow> (\<exists>r \<in> set (es_reservations (risk_export_state eng)). rs_quantity r = 0)"
proof
  assume "\<exists>k i s. res_of N eng k = Some (i, s, 0)"
  then obtain k i s where "res_of N eng k = Some (i, s, 0)" by blast
  then have "\<lparr>rs_order_id = k, rs_account_id = i, rs_side = s, rs_quantity = 0\<rparr> \<in> set (es_reservations (risk_export_state eng))"
    unfolding reservation_entries(2) [OF assms] by (simp add: entry_of_def)
  then show "\<exists>r \<in> set (es_reservations (risk_export_state eng)). rs_quantity r = 0" by (rule bexI [rotated]) simp
next
  assume "\<exists>r \<in> set (es_reservations (risk_export_state eng)). rs_quantity r = 0"
  then show "\<exists>k i s. res_of N eng k = Some (i, s, 0)"
    unfolding Bex_def reservation_entries(2) [OF assms] entry_of_def by metis
qed

section \<open>Properties\<close>

text \<open>
  The state a reachable risk engine exports is accepted by \<open>from_state\<close>, and the engine built from
  it has the same accounts, reservations, watermark and kill switch, satisfies the whole invariant and
  exports the same state. The one exception is stated too: after an amendment to quantity zero the
  exported state is refused with \<open>InvalidQuantity\<close>.
\<close>

theorem risk_state_round_trip:
  assumes "risk_reachable A N eng" "risk_dims A N"
  shows "if \<exists>k i s. res_of N eng k = Some (i, s, 0)
    then risk_from_state A N (risk_export_state eng) = Some (Inl RsInvalidQuantity)
    else \<exists>eng'. risk_from_state A N (risk_export_state eng) = Some (Inr eng') \<and> risk_inv A N eng' \<and> risk_export_state eng' = risk_export_state eng \<and>
      acct_of A eng' = acct_of A eng \<and> res_of N eng' = res_of N eng \<and>
      re_maximum_order_id eng' = re_maximum_order_id eng \<and> re_killed eng' = re_killed eng"
proof -
  note inv = reachable_risk_inv [OF assms] and lim = limitedD [OF reachable_limited [OF assms]]
  show ?thesis
  proof (cases "\<exists>k i s. res_of N eng k = Some (i, s, 0)")
    case False
    then have "q \<noteq> 0" if "res_of N eng k = Some (i, s, q)" for k i s q using that by blast
    then show ?thesis using False restore_export [OF inv assms(2) lim] by auto
  next
    case True
    note P = export_state_parts [OF inv]
    have "\<not> invalid_limits (as_limits s)" if "s \<in> set (es_accounts (risk_export_state eng))" for s
      using that lim [of "as_id s" "account_of s"] unfolding account_entries(2) [OF risk_invD(1) [OF inv]] by (simp add: limits_ok_def)
    then have "risk_validate_state A N (risk_export_state eng) = Inl RsInvalidQuantity"
      using P True quantity_slots [OF risk_invD(2) [OF inv]]
        check_order_iff [of as_id RsDuplicateAccount "es_accounts (risk_export_state eng)"]
        check_order_iff [of rs_order_id RsDuplicateOrder "es_reservations (risk_export_state eng)"]
      by (auto simp: risk_validate_state_def Let_def)
    then show ?thesis using True by (simp add: risk_from_state_def)
  qed
qed

theorem risk_state_round_trip_witness:
  "\<exists>eng'. risk_from_state 1 2 (risk_export_state demo_risk) = Some (Inr eng') \<and> risk_export_state eng' = risk_export_state demo_risk"
  using risk_state_round_trip [OF demo_risk_reachable demo_risk_dims] demo_risk_state(2) by auto

text \<open>
  \<open>from_state\<close> accepts no bad state: it never panics, and when it accepts, the engine satisfies the whole
  invariant (exact totals, limits respected, sound indices and free list) and exports exactly the
  state it was built from.
\<close>

theorem risk_from_state_sound:
  assumes "risk_dims A N"
  shows "case risk_from_state A N st of
      None \<Rightarrow> False
    | Some (Inl _) \<Rightarrow> True
    | Some (Inr eng) \<Rightarrow> risk_inv A N eng \<and> risk_export_state eng = st"
  using restore_sound [OF assms, of st] by (auto split: option.splits sum.splits)

theorem risk_from_state_sound_witness:
  "case risk_from_state 1 2 (risk_export_state demo_risk) of
      None \<Rightarrow> False
    | Some (Inl _) \<Rightarrow> True
    | Some (Inr eng) \<Rightarrow> risk_inv 1 2 eng \<and> risk_export_state eng = risk_export_state demo_risk"
  by (rule risk_from_state_sound [OF demo_risk_dims])

end
