(* ===== verification/Gateway_State.thy ===== *)
theory Gateway_State
  imports Gateway_Reach Book_State Risk_State "HOL-Library.Sublist"
begin

text \<open>
  The exported state of the gateway of \<^verbatim>\<open>crates/hft-gateway/src/lib.rs\<close>: \<open>export_state\<close> joins the states of the book
  and the risk engine, \<open>from_state\<close> restores both and checks that they agree. The sequences of the
  resting orders of a reachable gateway are those of the commands that placed them, so the book of
  an exported gateway is always accepted; the one check that can fail is the check of the orders
  against the limits of their accounts, because an accepted replace can move an order past them.
\<close>

section \<open>States\<close>

record gateway_state =
  gs_instrument :: instrument_id
  gs_book :: book_state
  gs_risk :: risk_engine_state
  gs_expected_sequence :: sequence_number
  gs_maximum_received :: "order_id option"

datatype gateway_state_error =
    GsBook book_state_error
  | GsRisk risk_state_error
  | GsExpectedSequence
  | GsOrderSequence
  | GsOrderWatermark
  | GsRiskWatermark
  | GsMissingReservation
  | GsReservationMismatch
  | GsOrderLimit
  | GsOrphanReservation

definition gateway_export_state :: "nat \<Rightarrow> nat \<Rightarrow> gateway \<Rightarrow> gateway_state option" where
  "gateway_export_state L K gw =
     map_option (\<lambda>book.
       \<lparr>gs_instrument = bs_instrument book, gs_book = book, gs_risk = risk_export_state (gw_risk gw),
        gs_expected_sequence = gw_expected_sequence gw, gs_maximum_received = gw_maximum_received gw\<rparr>)
       (book_export_state L K (gw_book gw))"

section \<open>Validation\<close>

text \<open>The order of \<open>Option\<close>: \<open>None\<close> is below every \<open>Some\<close>.\<close>

fun option_greater :: "order_id option \<Rightarrow> order_id option \<Rightarrow> bool" where
  "option_greater (Some a) (Some b) \<longleftrightarrow> a > b"
| "option_greater (Some _) None \<longleftrightarrow> True"
| "option_greater None _ \<longleftrightarrow> False"

text \<open>The checks of one order; \<open>u128::try_from\<close> of a price fails on a negative one.\<close>

definition check_book_order :: "gateway_state \<Rightarrow> book_order_state \<Rightarrow> gateway_state_error + unit" where
  "check_book_order state order =
     (if bo_sequence order \<ge> gs_expected_sequence state then Inl GsOrderSequence
      else if (case gs_maximum_received state of None \<Rightarrow> True | Some maximum \<Rightarrow> maximum < bo_order_id order)
      then Inl GsOrderWatermark
      else case find (\<lambda>reservation. rs_order_id reservation = bo_order_id order) (es_reservations (gs_risk state)) of
          None \<Rightarrow> Inl GsMissingReservation
        | Some reservation \<Rightarrow>
            if rs_account_id reservation \<noteq> bo_account_id order \<or> rs_side reservation \<noteq> bo_side order \<or>
               rs_quantity reservation \<noteq> bo_quantity order
            then Inl GsReservationMismatch
            else case find (\<lambda>account. as_id account = bo_account_id order) (es_accounts (gs_risk state)) of
                None \<Rightarrow> Inl GsReservationMismatch
              | Some account \<Rightarrow>
                  if sint (bo_price order) < 0 then Inl GsOrderLimit
                  else
                    and_then (ok_or (checked_mul (word_of_int (sint (bo_price order)) :: u128) (ucast (bo_quantity order))) GsOrderLimit)
                      (\<lambda>notional.
                         if bo_quantity order > rl_max_quantity (as_limits account) \<or>
                            sint (bo_price order) < sint (rl_minimum_price (as_limits account)) \<or>
                            sint (bo_price order) > sint (rl_maximum_price (as_limits account)) \<or>
                            notional > rl_max_notional (as_limits account)
                         then Inl GsOrderLimit else Inr ()))"

fun check_book_orders :: "gateway_state \<Rightarrow> book_order_state list \<Rightarrow> nat \<Rightarrow> gateway_state_error + nat" where
  "check_book_orders state [] book_orders = Inr book_orders"
| "check_book_orders state (order # orders) book_orders =
     and_then (check_book_order state order) (\<lambda>_. check_book_orders state orders (book_orders + 1))"

definition validate_cross_component_state :: "gateway_state \<Rightarrow> gateway_state_error + unit" where
  "validate_cross_component_state state =
     (if gs_expected_sequence state = 0 then Inl GsExpectedSequence
      else if option_greater (es_maximum_order_id (gs_risk state)) (gs_maximum_received state) then Inl GsRiskWatermark
      else
        and_then (check_book_orders state (state_orders (gs_book state)) 0) (\<lambda>book_orders.
        if book_orders \<noteq> length (es_reservations (gs_risk state)) then Inl GsOrphanReservation else Inr ()))"

section \<open>Restoring\<close>

definition gateway_from_state ::
  "nat \<Rightarrow> nat \<Rightarrow> nat \<Rightarrow> nat \<Rightarrow> gateway_state \<Rightarrow> (gateway_state_error + gateway) option"
where
  "gateway_from_state A N L K state =
     rbind (map_option (map_err GsBook) (book_from_state L K (gs_instrument state) (gs_book state))) (\<lambda>book.
     rbind (map_option (map_err GsRisk) (risk_from_state A N (gs_risk state))) (\<lambda>risk.
     rbind (Some (validate_cross_component_state state)) (\<lambda>_.
       Some (Inr \<lparr>gw_risk = risk, gw_book = book, gw_expected_sequence = gs_expected_sequence state,
                  gw_maximum_received = gs_maximum_received state\<rparr>))))"

section \<open>The sequences of resting orders\<close>

definition keys :: "prow list \<Rightarrow> (price_ticks \<times> sequence_number) list" where
  "keys = map (\<lambda>r. (fst r, mo_sequence (snd r)))"

definition below :: "spec_book \<Rightarrow> sequence_number \<Rightarrow> bool" where
  "below sb n \<longleftrightarrow> (\<forall>side. \<forall>r \<in> set (sb side). mo_sequence (snd r) < n)"

lemma sequenced_keys:
  "sequenced_rows rs \<longleftrightarrow> (\<forall>k \<in> set (keys rs). snd k \<noteq> 0) \<and>
     sorted_wrt (\<lambda>a b. fst a = fst b \<longrightarrow> snd a < snd b) (keys rs)"
  by (simp add: sequenced_rows_def keys_def sorted_wrt_map)

lemma subseq_set: "subseq xs ys \<Longrightarrow> set xs \<subseteq> set ys"
  by (induction rule: list_emb.induct) auto

lemma subseq_sorted_wrt: "\<lbrakk>subseq xs ys; sorted_wrt P ys\<rbrakk> \<Longrightarrow> sorted_wrt P xs"
  by (induction rule: list_emb.induct) (auto dest: subseq_set)

lemma subseq_distinct: "\<lbrakk>subseq xs ys; distinct ys\<rbrakk> \<Longrightarrow> distinct xs"
  by (induction rule: list_emb.induct) (auto dest: subseq_set)

text \<open>A book that lost orders, or only changed quantities, stays sequenced.\<close>

lemma sequenced_thin:
  assumes "\<And>side. subseq (keys (sb' side)) (keys (sb side))" "sequenced sb" "below sb n"
  shows "sequenced sb' \<and> below sb' n"
proof -
  have rows: "sequenced_rows (sb' side)" if "sequenced_rows (sb side)" for side
    using that subseq_set [OF assms(1) [of side]] subseq_sorted_wrt [OF assms(1) [of side]] by (auto simp: sequenced_keys)
  have seqs: "map (mo_sequence \<circ> snd) rs = map snd (keys rs)" for rs by (simp add: keys_def)
  have "subseq (map snd (keys (sb' Buy)) @ map snd (keys (sb' Sell))) (map snd (keys (sb Buy)) @ map snd (keys (sb Sell)))"
    by (intro list_emb_append_mono subseq_map assms(1))
  then have "distinct (map (mo_sequence \<circ> snd) (sb' Buy @ sb' Sell))"
    using assms(2) unfolding sequenced_def map_append seqs by (metis subseq_distinct)
  moreover have "mo_sequence (snd r) < n" if "r \<in> set (sb' side)" for side r
  proof -
    have "(fst r, mo_sequence (snd r)) \<in> set (keys (sb side))"
      using that subseq_set [OF assms(1) [of side]] by (auto simp: keys_def)
    then obtain r' where "r' \<in> set (sb side)" "mo_sequence (snd r') = mo_sequence (snd r)" by (auto simp: keys_def)
    then show ?thesis using assms(3) by (metis below_def)
  qed
  ultimately show ?thesis using rows assms(2) by (auto simp: sequenced_def below_def)
qed

lemma keys_match: "spec_match t lim rs rem = (fs, left, rs') \<Longrightarrow> subseq (keys rs') (keys rs)"
proof (induction rs arbitrary: rem fs)
  case (Cons r rs)
  obtain p m where r: "r = (p, m)" by (cases r)
  show ?case
  proof (cases "rem \<noteq> 0 \<and> crosses t p lim \<and> mo_quantity m \<le> rem")
    case True
    then obtain fs' where "spec_match t lim rs (rem - mo_quantity m) = (fs', left, rs')"
      using Cons.prems r by (auto split: prod.splits)
    from Cons.IH [OF this] show ?thesis unfolding keys_def list.map(2) by (rule list_emb_Cons)
  next
    case False
    then have "keys rs' = keys (r # rs)" using Cons.prems r by (auto simp: keys_def split: if_splits)
    then show ?thesis by simp
  qed
qed (simp add: keys_def)

text \<open>An order with the highest sequence so far goes behind the orders at its price.\<close>

lemma insert_row_parts:
  assumes "side_sorted d rs"
  shows "\<exists>as bs. rs = as @ bs \<and> insert_row d r rs = as @ r # bs \<and> (\<forall>b \<in> set bs. fst b \<noteq> fst r)"
proof -
  let ?P = "\<lambda>q. \<not> better d (fst r) (fst q)"
  have "fst b \<noteq> fst r" if b: "b \<in> set (dropWhile ?P rs)" for b
  proof -
    obtain h t where ht: "dropWhile ?P rs = h # t" using b by (cases "dropWhile ?P rs") auto
    then have h: "better d (fst r) (fst h)" using hd_dropWhile [of ?P rs] by simp
    have "rs = takeWhile ?P rs @ h # t" by (metis ht takeWhile_dropWhile_id)
    then have "side_sorted d (h # t)" using assms by (metis side_sorted_append)
    then have "b = h \<or> \<not> better d (fst b) (fst h)" using b ht by (auto simp: side_sorted_Cons)
    then show ?thesis using h by auto
  qed
  then show ?thesis unfolding insert_row_def by (metis takeWhile_dropWhile_id)
qed

lemma sequenced_insert:
  assumes sq: "sequenced sb" "below sb n" and srt: "side_sorted (side = Buy) (sb side)"
    and r: "mo_sequence (snd r) = n" "n \<noteq> 0"
  shows "sequenced (sb(side := insert_row (side = Buy) r (sb side)))"
proof -
  obtain as bs where ab: "sb side = as @ bs" "insert_row (side = Buy) r (sb side) = as @ r # bs" "\<forall>b \<in> set bs. fst b \<noteq> fst r"
    using insert_row_parts [OF srt] by blast
  have lt: "mo_sequence (snd x) < n" if "x \<in> set (sb t)" for t x using sq(2) that by (auto simp: below_def)
  have "sequenced_rows (sb side)" using sq(1) by (cases side) (auto simp: sequenced_def)
  then have rows: "sequenced_rows (insert_row (side = Buy) r (sb side))"
    using ab(3) r lt [of _ side] unfolding ab(2) unfolding ab(1) sequenced_rows_def by (auto simp: sorted_wrt_append)
  have "n \<notin> (mo_sequence \<circ> snd) ` set (sb t)" for t using lt by fastforce
  from this [of Buy] this [of Sell] have "distinct (map (mo_sequence \<circ> snd) ((sb(side := as @ r # bs)) Buy @ (sb(side := as @ r # bs)) Sell))"
    using sq(1) ab(1) r(1) by (cases side) (auto simp: sequenced_def)
  then show ?thesis using rows sq(1) ab(2) by (cases side) (simp_all add: sequenced_def)
qed

lemma below_insert:
  assumes "below sb n" "n < n'" "mo_sequence (snd r) = n"
  shows "below (sb(side := insert_row d r (sb side))) n'"
  using assms by (auto simp: below_def dest: less_trans)

lemma below_mono: "below sb n \<Longrightarrow> n < n' \<Longrightarrow> below sb n'"
  by (auto simp: below_def intro: less_trans)

lemma submit_sequenced:
  assumes inv: "spec_inv sb" and sq: "sequenced sb" "below sb (no_sequence order)"
    and n: "no_sequence order \<noteq> 0" "no_sequence order < n'"
    and ok: "spec_submit L K cap sb order = Inr res"
  shows "sequenced (sr_book res) \<and> below (sr_book res) n'"
proof -
  let ?t = "no_side order" and ?n = "no_sequence order"
  obtain fs left rs' where m: "spec_match ?t (no_price order) (sb (opposite ?t)) (no_quantity order) = (fs, left, rs')"
    by (metis prod_cases3)
  let ?sb = "sb(opposite ?t := rs')"
  have thin: "sequenced ?sb \<and> below ?sb ?n"
    by (rule sequenced_thin [OF _ sq]) (simp add: keys_match [OF m])
  consider "sr_book res = ?sb"
    | "sr_book res = ?sb(?t := insert_row (?t = Buy) (no_price order, \<lparr>mo_id = no_order_id order, mo_account = no_account_id order,
         mo_quantity = left, mo_sequence = ?n\<rparr>) (?sb ?t))"
    using ok m by (auto simp: spec_submit_def Let_def split: if_splits)
  then show ?thesis
  proof cases
    case 1
    then show ?thesis using thin below_mono [OF _ n(2)] by simp
  next
    case 2
    have "side_sorted (?t = Buy) (?sb ?t)" using spec_invD(1) [OF inv, of ?t] by simp
    then show ?thesis
      unfolding 2 using thin sequenced_insert [of ?sb ?n ?t] below_insert [of ?sb ?n n' _ ?t] n by auto
  qed
qed

lemma keys_remove: "subseq (keys (spec_remove k rs)) (keys rs)"
  unfolding keys_def spec_remove_def by (intro subseq_map subseq_filter_left)

lemma cancel_sequenced:
  assumes sq: "sequenced sb" "below sb n" and n: "n < n'" and ok: "spec_cancel sb cmd = Inr (sb', m)"
  shows "sequenced sb' \<and> below sb' n'"
proof -
  obtain side where "sb' = sb(side := spec_remove (co_order_id cmd) (sb side))"
    using ok by (auto simp: spec_cancel_def split: option.splits if_splits)
  then have "sequenced sb' \<and> below sb' n" using sequenced_thin [OF _ sq, of sb'] keys_remove by auto
  then show ?thesis using below_mono [OF _ n] by blast
qed

lemma replace_sequenced:
  assumes inv: "spec_inv sb" and sq: "sequenced sb" "below sb (ro_sequence cmd)"
    and n: "ro_sequence cmd \<noteq> 0" "ro_sequence cmd < n'"
    and ok: "spec_replace L K sb cmd = Inr (sb', m, lost)"
  shows "sequenced sb' \<and> below sb' n'"
proof -
  let ?k = "ro_order_id cmd" and ?n = "ro_sequence cmd"
  consider (reduce) side where "sb' = sb(side := map (\<lambda>(p, x). (p, if mo_id x = ?k then x\<lparr>mo_quantity := ro_quantity cmd\<rparr> else x)) (sb side))"
    | (move) side where "sb' = (sb(side := spec_remove ?k (sb side)))(side := insert_row (side = Buy)
        (ro_price cmd, \<lparr>mo_id = ?k, mo_account = ro_account_id cmd, mo_quantity = ro_quantity cmd, mo_sequence = ?n\<rparr>)
        ((sb(side := spec_remove ?k (sb side))) side))"
    using ok by (auto simp: spec_replace_def Let_def split: option.splits if_splits)
  then show ?thesis
  proof cases
    case reduce
    have "keys (sb' x) = keys (sb x)" for x unfolding reduce by (auto simp: keys_def)
    then have "sequenced sb' \<and> below sb' ?n" using sequenced_thin [OF _ sq, of sb'] by simp
    then show ?thesis using below_mono [OF _ n(2)] by blast
  next
    case move
    let ?sb = "sb(side := spec_remove ?k (sb side))"
    have thin: "sequenced ?sb \<and> below ?sb ?n" using sequenced_thin [OF _ sq, of ?sb] keys_remove by simp
    have "side_sorted (side = Buy) (?sb side)"
      using spec_invD(1) [OF spec_remove_inv [OF inv, of side ?k], of side] .
    then show ?thesis
      unfolding move using thin sequenced_insert [of ?sb ?n side] below_insert [of ?sb ?n n' _ side] n by auto
  qed
qed

definition in_sequence :: "gateway \<Rightarrow> bool" where
  "in_sequence gw \<longleftrightarrow> gw_expected_sequence gw \<noteq> 0 \<and> sequenced (abs_book (gw_book gw)) \<and>
     below (abs_book (gw_book gw)) (gw_expected_sequence gw)"

lemma dispatch_sequenced:
  assumes inv: "spec_inv (abs_book (gw_book gw))" and sq: "in_sequence gw"
    and n: "command_sequence command = gw_expected_sequence gw" "gw_expected_sequence gw < n'"
    and ok: "spec_dispatch A N L K cap gw command = Inr (sb, outcome, fills)"
  shows "sequenced sb \<and> below sb n'"
proof (cases command)
  case (NewOrder order)
  then show ?thesis
    using ok submit_sequenced [OF inv, of order n' L K cap] sq n
    by (auto simp: spec_dispatch_def new_order_verdict_def in_sequence_def split: option.splits if_splits sum.splits)
next
  case (CancelOrder c)
  then show ?thesis
    using ok cancel_sequenced [of "abs_book (gw_book gw)" "gw_expected_sequence gw" n' c] sq n
    by (auto simp: spec_dispatch_def cancel_verdict_def in_sequence_def split: if_splits sum.splits)
next
  case (ReplaceOrder c)
  then show ?thesis
    using ok replace_sequenced [OF inv, of c n' L K] sq n
    by (auto simp: spec_dispatch_def replace_verdict_def in_sequence_def split: option.splits if_splits sum.splits)
qed

lemma command_in_sequence:
  assumes inv: "gw_inv A N L K gw" and sq: "in_sequence gw"
    and p: "process_command A N L K gw command reports = Some (gw', reports', out)"
  shows "in_sequence gw'"
proof -
  let ?n = "gw_expected_sequence gw"
  note e = process_command_ok [OF inv, of command reports]
  have n': "gw_expected_sequence gw' = ?n + (if admitted gw command then 1 else 0)"
    and eff: "command_effect A N gw gw' (report_buffer_iter reports') (spec_command A N L K (length (rb_entries reports)) gw command) out"
    using e p by auto
  show ?thesis
  proof (cases "admitted gw command")
    case False
    then have "spec_command A N L K (length (rb_entries reports)) gw command \<noteq> Inr x" for x
      by (auto simp: admitted_def spec_command_def)
    then obtain err where "spec_command A N L K (length (rb_entries reports)) gw command = Inl err"
      by (cases "spec_command A N L K (length (rb_entries reports)) gw command") auto
    then have "gw_book gw' = gw_book gw" using eff by (simp add: command_effect_def untouched_def)
    then show ?thesis using sq n' False by (simp add: in_sequence_def)
  next
    case True
    then have a: "command_sequence command = ?n" "uint ?n \<noteq> 2 ^ 64 - 1" by (auto simp: admitted_def)
    have "uint ?n + 1 < 2 ^ 64" using a(2) uint_lt2p [of ?n] by simp
    then have "uint (?n + 1) = uint ?n + 1" by (simp add: uint_plus_if')
    moreover have "0 < uint ?n + 1" using uint_ge_0 [of ?n] by linarith
    ultimately have lt: "?n < ?n + 1" "uint (?n + 1) \<noteq> 0" unfolding word_less_def by linarith+
    have "sequenced (abs_book (gw_book gw')) \<and> below (abs_book (gw_book gw')) (?n + 1)"
    proof (cases "spec_command A N L K (length (rb_entries reports)) gw command")
      case (Inl err)
      then have "gw_book gw' = gw_book gw" using eff by (simp add: command_effect_def untouched_def)
      then show ?thesis using sq below_mono [OF _ lt(1)] by (simp add: in_sequence_def)
    next
      case (Inr x)
      then have "spec_dispatch A N L K (length (rb_entries reports)) gw command = Inr x" using a by (simp add: spec_command_def)
      moreover have "abs_book (gw_book gw') = fst x" using eff Inr by (cases x) (auto simp: command_effect_def)
      ultimately show ?thesis using dispatch_sequenced [OF gw_invD(3) [OF inv] sq a(1) lt(1)] by (cases x) auto
    qed
    then show ?thesis using n' True lt(2) by (simp add: in_sequence_def uint_0_iff)
  qed
qed

lemma reachable_in_sequence:
  assumes "gateway_reachable A N L K ins gw" "gateway_dims A N L K"
  shows "in_sequence gw"
  using assms
proof (induction rule: gateway_reachable.induct)
  case (Init risk)
  have "abs_book (book_new L K ins) = (\<lambda>side. [])" using book_new_inv Init by (simp add: gateway_dims_def dims_ok_def)
  then show ?case by (simp add: in_sequence_def gateway_new_def sequenced_def sequenced_rows_def below_def)
next
  case (Command gw reports command gw' reports' out)
  then show ?case using command_in_sequence reachable_gateway_inv by blast
next
  case (Frame gw reports frame gw' reports' out)
  then show ?case
    using command_in_sequence [of A N L K gw _ reports gw' reports' out] reachable_gateway_inv [of A N L K ins gw]
    by (cases "parse_message frame") (auto simp: process_frame_error process_frame_command)
qed

section \<open>The risk engine of a reachable gateway\<close>

text \<open>The operations a gateway performs on its risk engine; none of them is administrative.\<close>

inductive risk_trades :: "nat \<Rightarrow> nat \<Rightarrow> risk_engine \<Rightarrow> risk_engine \<Rightarrow> bool" for A N eng where
  Start: "risk_trades A N eng eng"
| Reserve: "\<lbrakk>risk_trades A N eng e; check_and_reserve A N e order = Some (Inr e')\<rbrakk> \<Longrightarrow> risk_trades A N eng e'"
| Settle: "\<lbrakk>risk_trades A N eng e; settle A N e k f = Some (Inr e')\<rbrakk> \<Longrightarrow> risk_trades A N eng e'"
| Fill: "\<lbrakk>risk_trades A N eng e; record_fill A N e k f = Some (Inr e')\<rbrakk> \<Longrightarrow> risk_trades A N eng e'"
| Adjust: "\<lbrakk>risk_trades A N eng e; adjust_reservation A N e k i price n = Some (Inr (e', rel, prior))\<rbrakk> \<Longrightarrow> risk_trades A N eng e'"
| Cancel: "\<lbrakk>risk_trades A N eng e; cancel_reservation A N e k i = Some (Inr (e', remaining))\<rbrakk> \<Longrightarrow> risk_trades A N eng e'"

lemma trades_reachable: "\<lbrakk>risk_trades A N eng e; risk_reachable A N eng\<rbrakk> \<Longrightarrow> risk_reachable A N e"
  by (induction rule: risk_trades.induct) (auto intro: risk_reachable.intros)

text \<open>Trading never changes the limits of an account.\<close>

definition limits_of :: "nat \<Rightarrow> risk_engine \<Rightarrow> account_id \<Rightarrow> risk_limits option" where
  "limits_of A eng i = map_option ac_limits (acct_of A eng i)"

lemma limits_of_fill: "fill_effect A N eng eng' i moved \<Longrightarrow> limits_of A eng' = limits_of A eng"
  by (auto simp: fill_effect_def limits_of_def fun_eq_iff)

lemma trades_limits:
  assumes "risk_trades A N eng e" "risk_reachable A N eng" "risk_dims A N"
  shows "limits_of A e = limits_of A eng"
  using assms
proof (induction rule: risk_trades.induct)
  case (Reserve e order e')
  note inv = reachable_risk_inv [OF trades_reachable [OF Reserve.hyps(1) Reserve.prems(1)] Reserve.prems(2)]
  have "limits_of A e' = limits_of A e"
    using check_and_reserve_ok [OF inv, of order] Reserve.hyps(2) by (auto simp: limits_of_def fun_eq_iff split: option.splits)
  then show ?case using Reserve by simp
next
  case (Settle e k f e')
  note inv = reachable_risk_inv [OF trades_reachable [OF Settle.hyps(1) Settle.prems(1)] Settle.prems(2)]
  from settle_ok [OF inv, of k f] Settle show ?case
    by (auto dest: limits_of_fill split: option.splits if_splits)
next
  case (Fill e k f e')
  note inv = reachable_risk_inv [OF trades_reachable [OF Fill.hyps(1) Fill.prems(1)] Fill.prems(2)]
  from record_fill_accepted [OF inv Fill.hyps(2)] Fill show ?case by (auto dest: limits_of_fill)
next
  case (Adjust e k i price n e' rel prior)
  note inv = reachable_risk_inv [OF trades_reachable [OF Adjust.hyps(1) Adjust.prems(1)] Adjust.prems(2)]
  from adjust_reservation_ok [OF inv, of k i price n] Adjust show ?case
    by (auto dest: limits_of_fill split: option.splits if_splits)
next
  case (Cancel e k i e' remaining)
  note inv = reachable_risk_inv [OF trades_reachable [OF Cancel.hyps(1) Cancel.prems(1)] Cancel.prems(2)]
  from cancel_reservation_ok [OF inv, of k i] Cancel show ?case
    by (auto dest: limits_of_fill split: option.splits if_splits)
qed simp

lemma record_fills_trades:
  "\<lbrakk>record_fills A N reports risk = Some (risk', e); risk_trades A N eng risk\<rbrakk> \<Longrightarrow> risk_trades A N eng risk'"
  by (induction reports arbitrary: risk)
    (auto split: option.splits sum.splits intro: risk_trades.Fill, meson risk_trades.Fill)

lemma new_order_trades:
  assumes "process_new_order A N L K gw order reports = Some (gw', reports', out)"
  shows "risk_trades A N (gw_risk gw) (gw_risk gw')"
  using assms
  by (auto simp: process_new_order_def Let_def split: option.splits sum.splits if_splits prod.splits
      intro: risk_trades.Start risk_trades.Reserve [OF risk_trades.Start] risk_trades.Settle
      dest!: record_fills_trades [OF _ risk_trades.Reserve [OF risk_trades.Start]])

lemma cancel_trades:
  assumes "process_cancel A N L K gw cmd reports = Some (gw', reports', out)"
  shows "risk_trades A N (gw_risk gw) (gw_risk gw')"
  using assms
  by (auto simp: process_cancel_def Let_def split: option.splits sum.splits prod.splits intro: risk_trades.intros)

lemma replace_trades:
  assumes p: "process_replace A N L K gw cmd reports = Some (gw', reports', out)" and inv: "risk_inv A N (gw_risk gw)"
  shows "risk_trades A N (gw_risk gw) (gw_risk gw')"
  using p adjust_then_restore [OF risk_invD(2,1) [OF inv], of "ro_order_id cmd" "ro_account_id cmd" "ro_price cmd" "ro_quantity cmd"]
  by (auto simp: process_replace_def split: option.splits sum.splits prod.splits intro: risk_trades.intros)

lemma command_trades:
  assumes "process_command A N L K gw command reports = Some (gw', reports', out)" "risk_inv A N (gw_risk gw)"
  shows "risk_trades A N (gw_risk gw) (gw_risk gw')"
proof (cases "accept_sequence gw (command_sequence command)")
  case (Inl e)
  then show ?thesis using assms by (simp add: process_command_def risk_trades.Start)
next
  case (Inr gw1)
  then have r: "gw_risk gw1 = gw_risk gw" by (auto simp: accept_sequence_cases split: if_splits)
  have "dispatch A N L K gw1 command (report_buffer_clear reports) = Some (gw', reports', out)"
    using assms Inr by (simp add: process_command_def)
  then have "risk_trades A N (gw_risk gw1) (gw_risk gw')"
    using new_order_trades cancel_trades replace_trades assms(2) r
    by (cases command) (fastforce simp: dispatch_def)+
  then show ?thesis by (simp add: r)
qed

lemma reachable_gateway_risk:
  assumes "gateway_reachable A N L K ins gw" "gateway_dims A N L K"
  shows "risk_reachable A N (gw_risk gw)"
  using assms
proof (induction rule: gateway_reachable.induct)
  case (Init risk)
  then show ?case by (simp add: gateway_new_def)
next
  case (Command gw reports command gw' reports' out)
  have "risk_inv A N (gw_risk gw)" using gw_invD(2) reachable_gateway_inv [OF Command.hyps(1) Command.prems] by blast
  from trades_reachable [OF command_trades [OF Command.hyps(3) this]] Command show ?case by simp
next
  case (Frame gw reports frame gw' reports' out)
  have inv: "risk_inv A N (gw_risk gw)" using gw_invD(2) reachable_gateway_inv [OF Frame.hyps(1) Frame.prems] by blast
  show ?case
    using trades_reachable [OF command_trades [OF _ inv, of L K _ reports gw' reports' out]] Frame
    by (cases "parse_message frame") (auto simp: process_frame_error process_frame_command)
qed

section \<open>The cross-component check\<close>

text \<open>What the last check asks of an order, and the gateway all of whose orders pass it.\<close>

definition order_within :: "account_state \<Rightarrow> price_ticks \<Rightarrow> model_order \<Rightarrow> bool" where
  "order_within a p m \<longleftrightarrow>
     mo_quantity m \<le> rl_max_quantity (ac_limits a) \<and>
     sint (rl_minimum_price (ac_limits a)) \<le> sint p \<and> sint p \<le> sint (rl_maximum_price (ac_limits a)) \<and>
     sint p * uint (mo_quantity m) \<le> uint (rl_max_notional (ac_limits a))"

definition orders_within :: "nat \<Rightarrow> gateway \<Rightarrow> bool" where
  "orders_within A gw \<longleftrightarrow> (\<forall>side. \<forall>r \<in> set (abs_book (gw_book gw) side).
     \<forall>a. acct_of A (gw_risk gw) (mo_account (snd r)) = Some a \<longrightarrow> order_within a (fst r) (snd r))"

lemma find_key: "\<lbrakk>distinct (map f xs); x \<in> set xs\<rbrakk> \<Longrightarrow> find (\<lambda>y. f y = f x) xs = Some x"
  by (induction xs) (auto simp: rev_image_eqI)

lemma state_orders_spec:
  "state_orders (spec_state L K ins sb) =
     map (\<lambda>r. order_state Buy (fst r) (snd r)) (sb Buy) @ map (\<lambda>r. order_state Sell (fst r) (snd r)) (sb Sell)"
proof -
  have "concat (map live_orders (map (level_state K side) gs)) = map (\<lambda>r. order_state side (fst r) (snd r)) (concat (map group_rows gs))" for side gs
    by (induction gs) (simp_all add: group_rows_def o_def)
  from this [of Buy "groups (sb Buy)"] this [of Sell "groups (sb Sell)"] show ?thesis
    by (simp add: state_orders_def spec_state_def)
qed

lemma notional_exact:
  assumes "0 < sint (p :: price_ticks)"
  shows "checked_mul (word_of_int (sint p) :: u128) (ucast (q :: quantity)) = Some (word_of_int (sint p * uint q))"
    and "uint (word_of_int (sint p * uint q) :: u128) = sint p * uint q"
proof -
  have p: "sint p < 2 ^ 63" using sint_lt [of p] by simp
  have q: "uint q < 2 ^ 64" "0 \<le> uint q" using uint_lt2p [of q] by simp_all
  have up: "uint (word_of_int (sint p) :: u128) = sint p" using assms p by (intro word_of_int_eq_iff_uint) simp_all
  have "sint p * uint q \<le> 2 ^ 63 * 2 ^ 64" using assms p q by (intro mult_mono) auto
  then have bound: "0 \<le> sint p * uint q" "sint p * uint q < 2 ^ 128" using assms q by (simp_all add: mult_nonneg_nonneg)
  then show u: "uint (word_of_int (sint p * uint q) :: u128) = sint p * uint q"
    by (intro word_of_int_eq_iff_uint) simp_all
  have "(word_of_int (sint p) :: u128) * ucast q = word_of_int (sint p * uint q)"
    by simp
  then show "checked_mul (word_of_int (sint p) :: u128) (ucast q) = Some (word_of_int (sint p * uint q))"
    using bound(2) up by (simp add: checked_mul_def)
qed

lemma check_exported_order:
  assumes inv: "gw_inv A N L K gw" and sq: "in_sequence gw"
    and st: "gs_risk st = risk_export_state (gw_risk gw)" "gs_expected_sequence st = gw_expected_sequence gw"
      "gs_maximum_received st = gw_maximum_received gw"
    and r: "(p, m) \<in> set (abs_book (gw_book gw) side)"
  shows "\<exists>a. acct_of A (gw_risk gw) (mo_account m) = Some a \<and>
    check_book_order st (order_state side p m) = (if order_within a p m then Inr () else Inl GsOrderLimit)"
proof -
  note I = gw_invD [OF inv] and D = risk_invD [OF gw_invD(2) [OF inv]]
  note P = export_state_parts [OF I(2)]
  let ?k = "mo_id m" and ?rs = "es_reservations (gs_risk st)" and ?as = "es_accounts (gs_risk st)"
  have pos: "0 < sint p" using spec_invD(2) [OF I(3), of side] r by (auto simp: rows_positive_def)
  have res: "res_of N (gw_risk gw) ?k = Some (mo_account m, side, mo_quantity m)"
    unfolding I(4) book_res_iff [OF I(3)] using r by blast
  let ?r = "\<lparr>rs_order_id = ?k, rs_account_id = mo_account m, rs_side = side, rs_quantity = mo_quantity m\<rparr>"
  have "?r \<in> set ?rs" unfolding st reservation_entries(2) [OF D(2)] using res by (simp add: entry_of_def)
  moreover have "distinct (map rs_order_id ?rs)" using P(2) strict_sorted_iff unfolding st by blast
  ultimately have fr: "find (\<lambda>reservation. rs_order_id reservation = ?k) ?rs = Some ?r"
    using find_key [of rs_order_id ?rs ?r] by simp
  obtain a where a: "acct_of A (gw_risk gw) (mo_account m) = Some a" "ac_id a = mo_account m" using D(4) [OF res] by blast
  have "account_risk_state_of a \<in> set ?as" unfolding st account_entries(2) [OF D(1)] using a by simp
  moreover have "distinct (map as_id ?as)" using P(1) strict_sorted_iff unfolding st by blast
  ultimately have fa: "find (\<lambda>account. as_id account = mo_account m) ?as = Some (account_risk_state_of a)"
    using find_key [of as_id ?as "account_risk_state_of a"] a(2) by simp
  obtain w where w: "re_maximum_order_id (gw_risk gw) = Some w" "?k \<le> w" using D(6) [OF res] by blast
  obtain mr where "gw_maximum_received gw = Some mr" "w \<le> mr" using I(5) [OF w(1)] by blast
  then have "gs_maximum_received st = Some mr" "\<not> mr < ?k" using st w(2) by (simp_all add: not_less)
  moreover have "\<not> mo_sequence m \<ge> gs_expected_sequence st"
    using sq r st by (force simp: in_sequence_def below_def not_le)
  ultimately have "check_book_order st (order_state side p m) = (if order_within a p m then Inr () else Inl GsOrderLimit)"
    using fr fa pos notional_exact [OF pos, of "mo_quantity m"]
    by (auto simp: check_book_order_def ok_or_def order_within_def word_less_def word_le_def not_le not_less)
  with a show ?thesis by blast
qed

lemma check_book_orders_all:
  assumes "\<And>x. x \<in> set os \<Longrightarrow> check_book_order st x = (if P x then Inr () else Inl GsOrderLimit)"
  shows "check_book_orders st os n = (if \<forall>x \<in> set os. P x then Inr (n + length os) else Inl GsOrderLimit)"
  using assms by (induction os arbitrary: n) auto

lemma option_greater_iff: "option_greater x y \<longleftrightarrow> (\<exists>a. x = Some a \<and> (\<forall>b. y = Some b \<longrightarrow> b < a))"
  by (cases x; cases y) auto

lemma all_side: "(\<forall>side. Q side) \<longleftrightarrow> Q Buy \<and> Q Sell"
  by (metis side.exhaust)

lemma exported_cross_check:
  assumes inv: "gw_inv A N L K gw" and sq: "in_sequence gw"
    and st: "gs_risk st = risk_export_state (gw_risk gw)" "gs_expected_sequence st = gw_expected_sequence gw"
      "gs_maximum_received st = gw_maximum_received gw" "gs_book st = spec_state L K ins (abs_book (gw_book gw))"
  shows "validate_cross_component_state st = (if orders_within A gw then Inr () else Inl GsOrderLimit)"
proof -
  note I = gw_invD [OF inv] and D = risk_invD [OF gw_invD(2) [OF inv]]
  let ?sb = "abs_book (gw_book gw)" and ?rs = "es_reservations (gs_risk st)" and ?os = "state_orders (gs_book st)"
  define P where "P x \<longleftrightarrow> (\<forall>a. acct_of A (gw_risk gw) (bo_account_id x) = Some a \<longrightarrow> order_within a (bo_price x) (mo_of x))" for x
  have mo: "mo_of (order_state side p m) = m" for side p m by (simp add: mo_of_def order_state_def)
  have os: "?os = map (\<lambda>r. order_state Buy (fst r) (snd r)) (?sb Buy) @ map (\<lambda>r. order_state Sell (fst r) (snd r)) (?sb Sell)"
    by (simp add: st(4) state_orders_spec)
  have one: "check_book_order st (order_state side p m) = (if P (order_state side p m) then Inr () else Inl GsOrderLimit)"
    if "(p, m) \<in> set (?sb side)" for side p m
    using check_exported_order [OF inv sq st(1-3) that] by (auto simp: P_def mo)
  then have "check_book_order st x = (if P x then Inr () else Inl GsOrderLimit)" if "x \<in> set ?os" for x
    using that unfolding os set_append set_map by fastforce
  from check_book_orders_all [OF this]
  have chk: "check_book_orders st ?os 0 = (if \<forall>x \<in> set ?os. P x then Inr (length ?os) else Inl GsOrderLimit)" by simp
  have "(\<forall>x \<in> set ?os. P x) \<longleftrightarrow> (\<forall>side. \<forall>r \<in> set (?sb side). P (order_state side (fst r) (snd r)))"
    by (simp add: os ball_Un all_side)
  then have within: "(\<forall>x \<in> set ?os. P x) \<longleftrightarrow> orders_within A gw"
    by (simp add: orders_within_def P_def mo)
  have "k \<in> set (spec_ids ?sb) \<longleftrightarrow> k \<in> rs_order_id ` set ?rs" for k
  proof -
    have "k \<in> set (spec_ids ?sb) \<longleftrightarrow> res_of N (gw_risk gw) k \<noteq> None"
      unfolding I(4) by (simp add: book_res_def spec_find_None)
    also have "\<dots> \<longleftrightarrow> k \<in> dom (res_map ?rs)" using export_state_parts(5) [OF I(2)] st(1) by (simp add: domIff)
    finally show ?thesis by (simp add: dom_res_map)
  qed
  then have "set (spec_ids ?sb) = set (map rs_order_id ?rs)" by auto
  moreover have "distinct (spec_ids ?sb)" using I(3) by (simp add: spec_inv_def)
  moreover have "distinct (map rs_order_id ?rs)" using export_state_parts(2) [OF I(2)] strict_sorted_iff unfolding st(1) by blast
  ultimately have "length (spec_ids ?sb) = length ?rs" by (metis distinct_card length_map)
  moreover have "length ?os = length (spec_ids ?sb)" by (simp add: os spec_ids_def)
  ultimately have len: "length ?os = length ?rs" by simp
  have "\<not> option_greater (es_maximum_order_id (gs_risk st)) (gs_maximum_received st)"
    using I(5) unfolding option_greater_iff st by (fastforce simp: risk_export_state_def)
  then show ?thesis using chk within len sq by (simp add: validate_cross_component_state_def st(2) in_sequence_def)
qed

section \<open>Restoring a gateway\<close>

text \<open>Two gateways with the same logical state: they may differ in slots, links, indices and free lists only.\<close>

definition same_gateway :: "nat \<Rightarrow> nat \<Rightarrow> gateway \<Rightarrow> gateway \<Rightarrow> bool" where
  "same_gateway A N gw gw' \<longleftrightarrow>
     abs_book (gw_book gw') = abs_book (gw_book gw) \<and> ob_instrument (gw_book gw') = ob_instrument (gw_book gw) \<and>
     acct_of A (gw_risk gw') = acct_of A (gw_risk gw) \<and> res_of N (gw_risk gw') = res_of N (gw_risk gw) \<and>
     re_maximum_order_id (gw_risk gw') = re_maximum_order_id (gw_risk gw) \<and> re_killed (gw_risk gw') = re_killed (gw_risk gw) \<and>
     gw_expected_sequence gw' = gw_expected_sequence gw \<and> gw_maximum_received gw' = gw_maximum_received gw"

lemma gateway_export_spec:
  assumes "gw_inv A N L K gw"
  shows "gateway_export_state L K gw = Some \<lparr>gs_instrument = ob_instrument (gw_book gw),
    gs_book = spec_state L K (ob_instrument (gw_book gw)) (abs_book (gw_book gw)), gs_risk = risk_export_state (gw_risk gw),
    gs_expected_sequence = gw_expected_sequence gw, gs_maximum_received = gw_maximum_received gw\<rparr>"
  using export_state_spec [of L K "gw_book gw"] gw_invD(1) [OF assms]
  by (simp add: gateway_export_state_def book_inv_def spec_state_def)

lemma net_of_cong: "\<lbrakk>acct_of A e' = acct_of A e\<rbrakk> \<Longrightarrow> net_of A e' = net_of A e"
  by (simp add: net_of_def)

lemma restore_limited:
  assumes "risk_inv A N eng" "risk_dims A N" "limited A eng" "\<forall>k i s q. res_of N eng k = Some (i, s, q) \<longrightarrow> q \<noteq> 0"
  shows "\<exists>eng'. risk_from_state A N (risk_export_state eng) = Some (Inr eng') \<and> risk_inv A N eng' \<and>
    risk_export_state eng' = risk_export_state eng \<and> acct_of A eng' = acct_of A eng \<and> res_of N eng' = res_of N eng \<and>
    re_maximum_order_id eng' = re_maximum_order_id eng \<and> re_killed eng' = re_killed eng"
  by (rule restore_export [OF assms(1,2)]) (use limitedD [OF assms(3)] assms(4) in blast)+

lemma restore_gateway:
  assumes inv: "gw_inv A N L K gw" and sq: "in_sequence gw" and lim: "limited A (gw_risk gw)" and dims: "gateway_dims A N L K"
  shows "\<exists>st. gateway_export_state L K gw = Some st \<and>
    (if orders_within A gw
     then \<exists>gw'. gateway_from_state A N L K st = Some (Inr gw') \<and> gw_inv A N L K gw' \<and> same_gateway A N gw gw' \<and>
       gateway_export_state L K gw' = Some st
     else gateway_from_state A N L K st = Some (Inl GsOrderLimit))"
proof -
  note I = gw_invD [OF inv]
  define st where "st = \<lparr>gs_instrument = ob_instrument (gw_book gw),
    gs_book = spec_state L K (ob_instrument (gw_book gw)) (abs_book (gw_book gw)), gs_risk = risk_export_state (gw_risk gw),
    gs_expected_sequence = gw_expected_sequence gw, gs_maximum_received = gw_maximum_received gw\<rparr>"
  have ex: "gateway_export_state L K gw = Some st" unfolding st_def by (rule gateway_export_spec [OF inv])
  have shp: "shape L K (gw_book gw)" using I(1) by (simp add: book_inv_def)
  obtain book where b: "book_from_state L K (ob_instrument (gw_book gw)) (gs_book st) = Some (Inr book)" "book_inv L K book"
      "ob_instrument book = ob_instrument (gw_book gw)" "abs_book book = abs_book (gw_book gw)"
    using restore_spec_state [OF I(3) inv_fits [OF shp], of "ob_instrument (gw_book gw)"] sq dims
    by (auto simp: in_sequence_def gateway_dims_def st_def)
  have nz: "\<forall>k i s q. res_of N (gw_risk gw) k = Some (i, s, q) \<longrightarrow> q \<noteq> 0"
    using spec_invD(2) [OF I(3)] unfolding I(4) book_res_iff [OF I(3)] by (fastforce simp: rows_positive_def)
  have "risk_dims A N" using dims by (simp add: gateway_dims_def)
  from restore_limited [OF I(2) this lim nz]
  obtain risk where r: "risk_from_state A N (gs_risk st) = Some (Inr risk)" "risk_inv A N risk"
      "risk_export_state risk = risk_export_state (gw_risk gw)" "acct_of A risk = acct_of A (gw_risk gw)"
      "res_of N risk = res_of N (gw_risk gw)" "re_maximum_order_id risk = re_maximum_order_id (gw_risk gw)"
      "re_killed risk = re_killed (gw_risk gw)"
    by (auto simp: st_def)
  define gw' where "gw' = \<lparr>gw_risk = risk, gw_book = book, gw_expected_sequence = gw_expected_sequence gw,
    gw_maximum_received = gw_maximum_received gw\<rparr>"
  have back_eq: "gateway_from_state A N L K st = (if orders_within A gw then Some (Inr gw') else Some (Inl GsOrderLimit))"
    using b(1) r(1) exported_cross_check [OF inv sq, of st] by (simp add: gateway_from_state_def map_err_def gw'_def st_def)
  have inv': "gw_inv A N L K gw'"
    using inv b r net_of_cong [OF r(4)] by (simp add: gw_inv_def gw'_def)
  moreover have "same_gateway A N gw gw'" using b r by (simp add: same_gateway_def gw'_def)
  moreover have "gateway_export_state L K gw' = Some st"
    unfolding gateway_export_spec [OF inv'] using b r by (simp add: gw'_def st_def)
  ultimately show ?thesis using ex back_eq by auto
qed

section \<open>Properties\<close>

text \<open>
  Exporting and restoring a gateway: the state of every reachable gateway restores, except that a
  resting order outside the limits of its account makes \<open>from_state\<close> return \<open>OrderLimit\<close>. The restored
  gateway satisfies the whole invariant, has the same orders in the same priority, the same accounts,
  reservations, watermarks and expected sequence, and exports the same state.
\<close>

theorem gateway_state_round_trip:
  assumes "gateway_reachable A N L K ins gw" "gateway_dims A N L K"
  shows "\<exists>st. gateway_export_state L K gw = Some st \<and>
    (if orders_within A gw
     then \<exists>gw'. gateway_from_state A N L K st = Some (Inr gw') \<and> gw_inv A N L K gw' \<and> same_gateway A N gw gw' \<and>
       gateway_export_state L K gw' = Some st
     else gateway_from_state A N L K st = Some (Inl GsOrderLimit))"
proof (rule restore_gateway)
  show "gw_inv A N L K gw" using reachable_gateway_inv [OF assms] by blast
  show "in_sequence gw" by (rule reachable_in_sequence [OF assms])
  show "limited A (gw_risk gw)"
    using reachable_limited [OF reachable_gateway_risk [OF assms]] assms(2) by (simp add: gateway_dims_def)
qed (rule assms(2))

theorem gateway_state_round_trip_witness:
  "\<exists>st gw'. gateway_export_state 1 1 demo_gateway = Some st \<and> gateway_from_state 1 2 1 1 st = Some (Inr gw') \<and>
    gateway_export_state 1 1 gw' = Some st"
proof -
  have "abs_book (gw_book demo_gateway) = (\<lambda>side. [])"
    using book_new_inv [of 1 1 7] demo_dims by (simp add: demo_gateway_def gateway_new_def dims_ok_def)
  then have "orders_within 1 demo_gateway" by (simp add: orders_within_def)
  then show ?thesis using gateway_state_round_trip [OF demo_gateway_reachable demo_gateway_dims] by auto
qed

text \<open>The demonstration gateway after its first order, and a replace that moves the order past the collar.\<close>

definition demo_escape :: replace_order where
  "demo_escape = \<lparr>ro_order_id = 3, ro_account_id = 9, ro_instrument_id = 7, ro_sequence = 2, ro_price = 101, ro_quantity = 10\<rparr>"

lemma demo_placed:
  obtains gw reports where "gateway_reachable 1 2 1 1 7 gw"
    "process_command 1 2 1 1 demo_gateway (NewOrder demo_reserve) (report_buffer_new 4) = Some (gw, reports, Inr
       (OutNewOrder \<lparr>ms_state = Accepted, ms_filled_quantity = 0, ms_resting_quantity = 10, ms_discarded_quantity = 0, ms_report_count = 0\<rparr>))"
    "abs_book (gw_book gw) = (\<lambda>side. [])(Buy := [(10, \<lparr>mo_id = 3, mo_account = 9, mo_quantity = 10, mo_sequence = 1\<rparr>)])"
    "gw_expected_sequence gw = 2" "limits_of 1 (gw_risk gw) 9 = Some demo_limits" "report_buffer_wf reports" "length (rb_entries reports) = 4"
proof -
  have inv: "gw_inv 1 2 1 1 demo_gateway" using reachable_gateway_inv [OF demo_gateway_reachable demo_gateway_dims] by blast
  have e: "gw_expected_sequence demo_gateway = 1" "gw_risk demo_gateway = demo_risk" by (simp_all add: demo_gateway_def gateway_new_def)
  have adm: "admitted demo_gateway (NewOrder demo_reserve)" by (simp add: admitted_def e demo_reserve_def)
  have len: "length (rb_entries (report_buffer_new 4)) = 4" by (simp add: report_buffer_new_def)
  note P = process_command_ok [OF inv, of "NewOrder demo_reserve" "report_buffer_new 4", unfolded len demo_gateway_accepts command_effect_def]
  obtain gw reports where c: "process_command 1 2 1 1 demo_gateway (NewOrder demo_reserve) (report_buffer_new 4) = Some (gw, reports, Inr
       (OutNewOrder \<lparr>ms_state = Accepted, ms_filled_quantity = 0, ms_resting_quantity = 10, ms_discarded_quantity = 0, ms_report_count = 0\<rparr>))"
      "abs_book (gw_book gw) = (\<lambda>side. [])(Buy := [(10, \<lparr>mo_id = 3, mo_account = 9, mo_quantity = 10, mo_sequence = 1\<rparr>)])"
      "gw_expected_sequence gw = 2" "report_buffer_wf reports" "length (rb_entries reports) = 4"
    using P adm e(1) by (auto simp del: One_nat_def)
  have wf: "report_buffer_wf (report_buffer_new 4)" by (simp add: report_buffer_wf_def report_buffer_new_def)
  have "limits_of 1 (gw_risk gw) 9 = limits_of 1 demo_risk 9"
    using trades_limits [OF command_trades [OF c(1) gw_invD(2) [OF inv]]] demo_risk_reachable demo_risk_dims e(2) by simp
  then have "limits_of 1 (gw_risk gw) 9 = Some demo_limits" using demo_risk_state(1) by (simp add: limits_of_def)
  with that [OF gateway_reachable.Command [OF demo_gateway_reachable wf c(1)] c(1-3) _ c(4,5)] show thesis by blast
qed

text \<open>
  C23. An accepted replace can leave an order outside its account's limits, and then the gateway cannot
  be restored: the amendment of a reservation checks no limit when the quantity does not grow, so a
  replace at the same quantity may move the price past the price collar. In a reachable gateway one
  order rests, 10 units at price 10 and within all limits; a replace that keeps the 10 units and asks
  for price 101, above the maximum price of the account and within its quantity and notional limits,
  is accepted and the order rests at 101. The state this reachable gateway exports is refused with
  \<open>OrderLimit\<close>.
\<close>

theorem replace_escapes_limits:
  "\<exists>gw gw' reports reports' outcome limits st. gateway_reachable 1 2 1 1 7 gw \<and> orders_within 1 gw \<and>
     abs_book (gw_book gw) = (\<lambda>side. [])(Buy := [(10, \<lparr>mo_id = 3, mo_account = 9, mo_quantity = 10, mo_sequence = 1\<rparr>)]) \<and>
     ro_order_id demo_escape = 3 \<and> ro_quantity demo_escape = 10 \<and>
     process_command 1 2 1 1 gw (ReplaceOrder demo_escape) reports = Some (gw', reports', Inr outcome) \<and>
     abs_book (gw_book gw') = (\<lambda>side. [])(Buy := [(ro_price demo_escape, \<lparr>mo_id = 3, mo_account = 9, mo_quantity = 10, mo_sequence = 2\<rparr>)]) \<and>
     limits_of 1 (gw_risk gw) 9 = Some limits \<and> limits_of 1 (gw_risk gw') 9 = Some limits \<and>
     sint (rl_maximum_price limits) < sint (ro_price demo_escape) \<and>
     ro_quantity demo_escape \<le> rl_max_quantity limits \<and>
     sint (ro_price demo_escape) * uint (ro_quantity demo_escape) \<le> uint (rl_max_notional limits) \<and>
     gateway_reachable 1 2 1 1 7 gw' \<and> \<not> orders_within 1 gw' \<and>
     gateway_export_state 1 1 gw' = Some st \<and> gateway_from_state 1 2 1 1 st = Some (Inl GsOrderLimit)"
proof -
  obtain gw reports where g: "gateway_reachable 1 2 1 1 7 gw"
    "abs_book (gw_book gw) = (\<lambda>side. [])(Buy := [(10, \<lparr>mo_id = 3, mo_account = 9, mo_quantity = 10, mo_sequence = 1\<rparr>)])"
    "gw_expected_sequence gw = 2" "limits_of 1 (gw_risk gw) 9 = Some demo_limits" "report_buffer_wf reports"
    by (rule demo_placed) blast
  note R = reachable_gateway_inv [OF g(1) demo_gateway_dims]
  have inv: "gw_inv 1 2 1 1 gw" "ob_instrument (gw_book gw) = 7" using R by simp_all
  have within: "orders_within 1 gw"
    using g(2,4) unfolding orders_within_def limits_of_def all_side
    by (auto simp: order_within_def demo_limits_def simp del: One_nat_def)
  let ?m = "\<lparr>mo_id = 3, mo_account = 9, mo_quantity = 10, mo_sequence = 2\<rparr>"
  obtain outcome where spec: "spec_command 1 2 1 1 (length (rb_entries reports)) gw (ReplaceOrder demo_escape)
      = Inr ((\<lambda>side. [])(Buy := [(101, ?m)]), outcome, [])"
    using g(2,3) inv(2)
    by (cases "acct_of 1 (gw_risk gw) 9")
      (simp_all add: spec_command_def spec_dispatch_def replace_verdict_def demo_escape_def spec_find_def spec_replace_def
        adjust_verdict_def spec_remove_def insert_row_def count_price_def level_count_def best_crosses_def Let_def fun_upd_def
        cong: if_cong del: One_nat_def)
  obtain gw' reports' where c: "process_command 1 2 1 1 gw (ReplaceOrder demo_escape) reports = Some (gw', reports', Inr outcome)"
      "abs_book (gw_book gw') = (\<lambda>side. [])(Buy := [(101, ?m)])"
    using process_command_ok [OF inv(1), of "ReplaceOrder demo_escape" reports, unfolded spec command_effect_def] by auto
  have r': "gateway_reachable 1 2 1 1 7 gw'" by (rule gateway_reachable.Command [OF g(1,5) c(1)])
  have lim': "limits_of 1 (gw_risk gw') 9 = Some demo_limits"
    using trades_limits [OF command_trades [OF c(1) gw_invD(2) [OF inv(1)]] reachable_gateway_risk [OF g(1) demo_gateway_dims] demo_risk_dims] g(4)
    by simp
  then have out: "\<not> orders_within 1 gw'"
    using c(2) unfolding orders_within_def limits_of_def all_side
    by (auto simp: order_within_def demo_limits_def simp del: One_nat_def)
  have "limited 1 (gw_risk gw')"
    using reachable_limited [OF reachable_gateway_risk [OF r' demo_gateway_dims]] demo_risk_dims by simp
  then obtain st where "gateway_export_state 1 1 gw' = Some st" "gateway_from_state 1 2 1 1 st = Some (Inl GsOrderLimit)"
    using restore_gateway [OF conjunct1 [OF reachable_gateway_inv [OF r' demo_gateway_dims]]
        reachable_in_sequence [OF r' demo_gateway_dims] _ demo_gateway_dims] out by auto
  moreover have "sint (rl_maximum_price demo_limits) < sint (ro_price demo_escape)"
    "ro_quantity demo_escape \<le> rl_max_quantity demo_limits"
    "sint (ro_price demo_escape) * uint (ro_quantity demo_escape) \<le> uint (rl_max_notional demo_limits)"
    by (simp_all add: demo_limits_def demo_escape_def)
  moreover have "ro_order_id demo_escape = 3" "ro_quantity demo_escape = 10" "ro_price demo_escape = 101"
    by (simp_all add: demo_escape_def)
  ultimately show ?thesis using g(1,2,4) within c r' lim' out by metis
qed

end
