(* ===== verification/Gateway_Equiv.thy ===== *)
theory Gateway_Equiv
  imports Gateway_State
begin

text \<open>
  Two gateways with the same logical state behave alike: whatever command or frame they are given, they
  answer with the same outcome and the same reports and end in the same logical state again. Slots,
  links, free lists and the layout of the hash indices are unobservable, so a restored gateway can
  replace the one it was exported from. The proof is a simulation, operation by operation.
\<close>

section \<open>Engines with the same accounts and reservations\<close>

definition risk_equiv :: "nat \<Rightarrow> nat \<Rightarrow> risk_engine \<Rightarrow> risk_engine \<Rightarrow> bool" where
  "risk_equiv A N e e' \<longleftrightarrow> risk_inv A N e \<and> risk_inv A N e' \<and>
     acct_of A e' = acct_of A e \<and> res_of N e' = res_of N e \<and>
     re_maximum_order_id e' = re_maximum_order_id e \<and> re_killed e' = re_killed e"

text \<open>The results of an operation on both sides: the same error, or related values.\<close>

abbreviation same_result :: "('a \<Rightarrow> 'b \<Rightarrow> bool) \<Rightarrow> ('e + 'a) option \<Rightarrow> ('e + 'b) option \<Rightarrow> bool" where
  "same_result R \<equiv> rel_option (rel_sum (=) R)"

lemma same_result_cases [consumes 1, case_names Panic Error Value]:
  assumes "same_result R x y"
  obtains "x = None" "y = None"
  | e where "x = Some (Inl e)" "y = Some (Inl e)"
  | a b where "x = Some (Inr a)" "y = Some (Inr b)" "R a b"
  using assms by (cases x; cases y) (auto elim: rel_sum.cases)

lemma same_account:
  assumes eq: "risk_equiv A N e e'" and inv: "risk_inv A N f" "risk_inv A N f'" "res_of N f' = res_of N f"
    and a: "acct_of A e i = Some a" "acct_of A f = (acct_of A e)(i := Some b)" "acct_of A f' = (acct_of A e')(i := Some b')"
    and same: "ac_settled_position b' = ac_settled_position b" "ac_limits b' = ac_limits b" "ac_killed b' = ac_killed b"
  shows "acct_of A f' = acct_of A f"
proof -
  have "b' = b" using account_determined [OF inv, of i b b'] a(2,3) same by simp
  then show ?thesis using a eq by (simp add: risk_equiv_def)
qed

lemma fill_equiv:
  assumes eq: "risk_equiv A N e e'" and inv: "risk_inv A N f" "risk_inv A N f'" "res_of N f' = res_of N f"
    and fe: "fill_effect A N e f i x" "fill_effect A N e' f' i x"
  shows "risk_equiv A N f f'"
proof -
  obtain a b where b: "acct_of A e i = Some a" "acct_of A f = (acct_of A e)(i := Some b)"
      "sint (ac_settled_position b) = sint (ac_settled_position a) + x" "ac_limits b = ac_limits a" "ac_killed b = ac_killed a"
    using fe(1) by (auto simp: fill_effect_def)
  obtain a' b' where b': "acct_of A e' i = Some a'" "acct_of A f' = (acct_of A e')(i := Some b')"
      "sint (ac_settled_position b') = sint (ac_settled_position a') + x" "ac_limits b' = ac_limits a'" "ac_killed b' = ac_killed a'"
    using fe(2) by (auto simp: fill_effect_def)
  have "a' = a" using b(1) b'(1) eq by (simp add: risk_equiv_def)
  then have "ac_settled_position b' = ac_settled_position b" using b(3) b'(3) by (intro signed_word_eqI [where ?'a = int]) simp
  then have "acct_of A f' = acct_of A f" using same_account [OF eq inv b(1,2) b'(2)] b b' \<open>a' = a\<close> by simp
  then show ?thesis using eq inv fe by (simp add: risk_equiv_def fill_effect_def)
qed

lemma reserve_equiv:
  assumes eq: "risk_equiv A N e e'"
  shows "same_result (risk_equiv A N) (check_and_reserve A N e order) (check_and_reserve A N e' order)"
proof -
  have inv: "risk_inv A N e" "risk_inv A N e'" using eq by (simp_all add: risk_equiv_def)
  have v: "reserve_verdict A N e' order = reserve_verdict A N e order" using eq by (simp add: risk_equiv_def reserve_verdict_def)
  note P = check_and_reserve_ok [OF inv(1), of order] and Q = check_and_reserve_ok [OF inv(2), of order, unfolded v]
  show ?thesis
  proof (cases "reserve_verdict A N e order")
    case (Some err)
    then show ?thesis using P Q by simp
  next
    case None
    let ?i = "no_account_id order"
    obtain f a b where f: "check_and_reserve A N e order = Some (Inr f)" "risk_inv A N f"
        "res_of N f = (res_of N e)(no_order_id order := Some (?i, no_side order, no_quantity order))"
        "re_maximum_order_id f = Some (no_order_id order)" "re_killed f = re_killed e"
        "acct_of A e ?i = Some a" "acct_of A f = (acct_of A e)(?i := Some b)"
        "ac_settled_position b = ac_settled_position a" "ac_limits b = ac_limits a" "ac_killed b = ac_killed a"
      using P None by auto
    obtain f' a' b' where f': "check_and_reserve A N e' order = Some (Inr f')" "risk_inv A N f'"
        "res_of N f' = (res_of N e')(no_order_id order := Some (?i, no_side order, no_quantity order))"
        "re_maximum_order_id f' = Some (no_order_id order)" "re_killed f' = re_killed e'"
        "acct_of A e' ?i = Some a'" "acct_of A f' = (acct_of A e')(?i := Some b')"
        "ac_settled_position b' = ac_settled_position a'" "ac_limits b' = ac_limits a'" "ac_killed b' = ac_killed a'"
      using Q None by auto
    have res: "res_of N f' = res_of N f" using f(3) f'(3) eq by (simp add: risk_equiv_def)
    have "a' = a" using f(6) f'(6) eq by (simp add: risk_equiv_def)
    then have "acct_of A f' = acct_of A f"
      using same_account [OF eq f(2) f'(2) res f(6,7) f'(7)] f(8-10) f'(8-10) by simp
    then have "risk_equiv A N f f'" using f(2,4,5) f'(2,4,5) res eq by (simp add: risk_equiv_def)
    then show ?thesis using f(1) f'(1) by simp
  qed
qed

lemma settle_equiv:
  assumes eq: "risk_equiv A N e e'"
  shows "same_result (risk_equiv A N) (settle A N e k f) (settle A N e' k f)"
proof -
  have inv: "risk_inv A N e" "risk_inv A N e'" "res_of N e' = res_of N e" using eq by (simp_all add: risk_equiv_def)
  note P = settle_ok [OF inv(1), of k f] and Q = settle_ok [OF inv(2), of k f, unfolded inv(3)]
  show ?thesis
  proof (cases "\<exists>i s q. res_of N e k = Some (i, s, q) \<and> \<not> q < f")
    case False
    then show ?thesis using P Q by (auto split: option.splits if_splits)
  next
    case True
    then obtain i s q where r: "res_of N e k = Some (i, s, q)" "\<not> q < f" by blast
    then show ?thesis using P Q fill_equiv [OF eq] by (auto simp del: fun_upd_apply)
  qed
qed

lemma record_fill_equiv:
  assumes eq: "risk_equiv A N e e'"
  shows "same_result (risk_equiv A N) (record_fill A N e k f) (record_fill A N e' k f)"
proof -
  have inv: "risk_inv A N e" "risk_inv A N e'" "res_of N e' = res_of N e" using eq by (simp_all add: risk_equiv_def)
  show ?thesis
  proof (cases "res_of N e k")
    case None
    then have "live_reservation N e k = None" "live_reservation N e' k = None" using inv(3) by (metis map_option_is_None res_of_def)+
    then show ?thesis by (simp add: record_fill_def)
  next
    case (Some x)
    obtain i s q where r: "res_of N e k = Some (i, s, q)" using Some by (cases x) auto
    then have r': "res_of N e' k = Some (i, s, q)" using inv(3) by simp
    obtain v rv w rw where l: "live_reservation N e k = Some (v, rv)" "rv_quantity rv = q"
        "live_reservation N e' k = Some (w, rw)" "rv_quantity rw = q"
      using reservation_facts [OF inv(1) r] reservation_facts [OF inv(2) r'] by metis
    show ?thesis
    proof (cases "f \<noteq> 0 \<and> f \<le> q")
      case False
      then show ?thesis using l by (auto simp: record_fill_def checked_sub_def ok_or_def)
    next
      case True
      then obtain g g' where g: "record_fill A N e k f = Some (Inr g)" "risk_inv A N g"
          "res_of N g = (res_of N e)(k := if f = q then None else Some (i, s, q - f))" "fill_effect A N e g i (signed_by s (uint f))"
        and g': "record_fill A N e' k f = Some (Inr g')" "risk_inv A N g'"
          "res_of N g' = (res_of N e')(k := if f = q then None else Some (i, s, q - f))" "fill_effect A N e' g' i (signed_by s (uint f))"
        using record_fill_ok [OF inv(1) r] record_fill_ok [OF inv(2) r'] by blast
      have "res_of N g' = res_of N g" using g(3) g'(3) inv(3) by simp
      then show ?thesis using fill_equiv [OF eq g(2) g'(2) _ g(4) g'(4)] g(1) g'(1) by simp
    qed
  qed
qed

lemma cancel_reservation_equiv:
  assumes eq: "risk_equiv A N e e'"
  shows "can_cancel N e' k acct = can_cancel N e k acct"
    and "same_result (rel_prod (risk_equiv A N) (=)) (cancel_reservation A N e k acct) (cancel_reservation A N e' k acct)"
proof -
  have inv: "risk_inv A N e" "risk_inv A N e'" "res_of N e' = res_of N e" using eq by (simp_all add: risk_equiv_def)
  note P = cancel_reservation_ok [OF inv(1), of k acct] and Q = cancel_reservation_ok [OF inv(2), of k acct, unfolded inv(3)]
  show "can_cancel N e' k acct = can_cancel N e k acct" using P Q by (auto split: option.splits if_splits)
  show "same_result (rel_prod (risk_equiv A N) (=)) (cancel_reservation A N e k acct) (cancel_reservation A N e' k acct)"
  proof (cases "\<exists>s q. res_of N e k = Some (acct, s, q)")
    case False
    then show ?thesis using P Q by (auto split: option.splits if_splits)
  next
    case True
    then show ?thesis using P Q fill_equiv [OF eq] by (auto simp del: fun_upd_apply)
  qed
qed

lemma adjust_equiv:
  assumes eq: "risk_equiv A N e e'"
  shows "same_result (rel_prod (risk_equiv A N) (=))
    (adjust_reservation A N e k acct price n) (adjust_reservation A N e' k acct price n)"
proof -
  have inv: "risk_inv A N e" "risk_inv A N e'" "res_of N e' = res_of N e" "acct_of A e' = acct_of A e"
    using eq by (simp_all add: risk_equiv_def)
  note P = adjust_reservation_ok [OF inv(1), of k acct price n]
    and Q = adjust_reservation_ok [OF inv(2), of k acct price n, unfolded inv(3,4)]
  show ?thesis
  proof (cases "\<exists>s q. res_of N e k = Some (acct, s, q)")
    case False
    then show ?thesis using P Q by (auto split: option.splits if_splits)
  next
    case True
    then obtain s q where r: "res_of N e k = Some (acct, s, q)" by blast
    obtain a where a: "acct_of A e acct = Some a" using P r by auto
    show ?thesis
    proof (cases "adjust_verdict a s q price n")
      case (Some err)
      then show ?thesis using P Q r a by auto
    next
      case None
      obtain g g' where g: "adjust_reservation A N e k acct price n = Some (Inr (g, released_amount q n, q))" "risk_inv A N g"
          "res_of N g = (res_of N e)(k := Some (acct, s, n))" "fill_effect A N e g acct 0"
        and g': "adjust_reservation A N e' k acct price n = Some (Inr (g', released_amount q n, q))" "risk_inv A N g'"
          "res_of N g' = (res_of N e)(k := Some (acct, s, n))" "fill_effect A N e' g' acct 0"
        using P Q r a None by auto
      have "res_of N g' = res_of N g" using g(3) g'(3) by simp
      then show ?thesis using fill_equiv [OF eq g(2) g'(2) _ g(4) g'(4)] g(1) g'(1) by simp
    qed
  qed
qed

lemma record_fills_equiv:
  assumes "risk_equiv A N e e'"
  shows "rel_option (rel_prod (risk_equiv A N) (=)) (record_fills A N reports e) (record_fills A N reports e')"
  using assms
proof (induction reports arbitrary: e e')
  case (Cons report reports)
  from record_fill_equiv [OF Cons.prems, of "er_maker_order_id report" "er_quantity report"]
  show ?case
  proof (cases rule: same_result_cases)
    case (Value f f')
    from record_fill_equiv [OF Value(3), of "er_taker_order_id report" "er_quantity report"] show ?thesis
      using Value Cons.IH by (cases rule: same_result_cases) auto
  qed (use Cons.prems in auto)
qed simp

section \<open>Books with the same orders\<close>

definition book_equiv :: "nat \<Rightarrow> nat \<Rightarrow> order_book \<Rightarrow> order_book \<Rightarrow> bool" where
  "book_equiv L K b b' \<longleftrightarrow> book_inv L K b \<and> book_inv L K b' \<and> abs_book b' = abs_book b \<and> ob_instrument b' = ob_instrument b"

definition same_reports :: "report_buffer \<Rightarrow> report_buffer \<Rightarrow> bool" where
  "same_reports r r' \<longleftrightarrow> report_buffer_wf r \<and> report_buffer_wf r' \<and> report_buffer_iter r' = report_buffer_iter r \<and>
     length (rb_entries r') = length (rb_entries r)"

lemma same_reports_capacity:
  "same_reports r r' \<Longrightarrow> report_buffer_remaining_capacity r' = report_buffer_remaining_capacity r"
  by (auto simp: same_reports_def report_buffer_remaining_capacity_def report_buffer_iter_def report_buffer_wf_def
      dest!: arg_cong [of _ _ length])

lemma submit_equiv:
  assumes eq: "book_equiv L K b b'" and rp: "same_reports r r'"
  shows "same_result (rel_prod (book_equiv L K) (rel_prod same_reports (=))) (submit L K b order r) (submit L K b' order r')"
proof (cases "no_instrument_id order = ob_instrument b")
  case False
  then show ?thesis using submit_instrument [of order b L K r] submit_instrument [of order b' L K r'] eq by (simp add: book_equiv_def)
next
  case True
  have inv: "book_inv L K b" "book_inv L K b'" "report_buffer_wf r" "report_buffer_wf r'" "abs_book b' = abs_book b"
    "no_instrument_id order = ob_instrument b'"
    using eq rp True by (simp_all add: book_equiv_def same_reports_def)
  note P = submit_simulates [OF inv(1,3) True]
    and Q = submit_simulates [OF inv(2,4,6), unfolded same_reports_capacity [OF rp] inv(5)]
  show ?thesis
  proof (cases "spec_submit L K (report_buffer_remaining_capacity r) (abs_book b) order")
    case (Inl err)
    then show ?thesis using P Q by simp
  next
    case (Inr res)
    then show ?thesis using P Q eq rp by (auto simp: book_equiv_def same_reports_def)
  qed
qed

lemma cancel_equiv:
  assumes eq: "book_equiv L K b b'"
  shows "same_result (rel_prod (book_equiv L K) (=)) (cancel L K b cmd) (cancel L K b' cmd)"
proof (cases "co_instrument_id cmd = ob_instrument b")
  case False
  then show ?thesis using eq by (simp add: cancel_def book_equiv_def)
next
  case True
  have inv: "book_inv L K b" "book_inv L K b'" "abs_book b' = abs_book b" "co_instrument_id cmd = ob_instrument b'"
    using eq True by (simp_all add: book_equiv_def)
  note P = cancel_simulates [OF inv(1) True] and Q = cancel_simulates [OF inv(2,4), unfolded inv(3)]
  show ?thesis using P Q eq by (cases "spec_cancel (abs_book b) cmd") (auto simp: book_equiv_def)
qed

lemma replace_equiv:
  assumes eq: "book_equiv L K b b'"
  shows "same_result (rel_prod (book_equiv L K) (=)) (replace L K b cmd) (replace L K b' cmd)"
proof (cases "ro_instrument_id cmd = ob_instrument b")
  case False
  then show ?thesis using eq by (simp add: replace_def book_equiv_def)
next
  case True
  have inv: "book_inv L K b" "book_inv L K b'" "abs_book b' = abs_book b" "ro_instrument_id cmd = ob_instrument b'"
    using eq True by (simp_all add: book_equiv_def)
  note P = replace_simulates [OF inv(1) True] and Q = replace_simulates [OF inv(2,4), unfolded inv(3)]
  show ?thesis using P Q eq by (cases "spec_replace L K (abs_book b) cmd") (auto simp: book_equiv_def)
qed

section \<open>Gateways with the same state\<close>

definition gw_equiv :: "nat \<Rightarrow> nat \<Rightarrow> nat \<Rightarrow> nat \<Rightarrow> gateway \<Rightarrow> gateway \<Rightarrow> bool" where
  "gw_equiv A N L K gw gw' \<longleftrightarrow> risk_equiv A N (gw_risk gw) (gw_risk gw') \<and> book_equiv L K (gw_book gw) (gw_book gw') \<and>
     gw_expected_sequence gw' = gw_expected_sequence gw \<and> gw_maximum_received gw' = gw_maximum_received gw"

abbreviation same_step :: "nat \<Rightarrow> nat \<Rightarrow> nat \<Rightarrow> nat \<Rightarrow> gateway_step \<Rightarrow> gateway_step \<Rightarrow> bool" where
  "same_step A N L K \<equiv> rel_option (rel_prod (gw_equiv A N L K) (rel_prod same_reports (=)))"

lemma gw_equivD:
  assumes "gw_equiv A N L K gw gw'"
  shows "risk_equiv A N (gw_risk gw) (gw_risk gw')" "book_equiv L K (gw_book gw) (gw_book gw')"
    "gw_expected_sequence gw' = gw_expected_sequence gw" "gw_maximum_received gw' = gw_maximum_received gw"
  using assms by (simp_all add: gw_equiv_def)

lemma process_new_order_equiv:
  assumes eq: "gw_equiv A N L K gw gw'" and rp: "same_reports r r'"
  shows "same_step A N L K (process_new_order A N L K gw order r) (process_new_order A N L K gw' order r')"
proof (cases "case gw_maximum_received gw of None \<Rightarrow> False | Some maximum \<Rightarrow> no_order_id order \<le> maximum")
  case True
  then show ?thesis using eq rp by (simp add: process_new_order_def gw_equivD(4) [OF eq])
next
  case fresh: False
  note D = gw_equivD [OF eq]
  note unf = process_new_order_def Let_def D(4)
  from reserve_equiv [OF D(1), of order] show ?thesis
  proof (cases rule: same_result_cases)
    case (Value e e')
    note res = Value
    from submit_equiv [OF D(2) rp, of order] show ?thesis
    proof (cases rule: same_result_cases)
      case (Error err)
      from settle_equiv [OF res(3), of "no_order_id order" 0] show ?thesis
        using fresh res Error rp D by (cases rule: same_result_cases) (auto simp: unf gw_equiv_def)
    next
      case (Value x y)
      obtain b s sm b' s' where xy: "x = (b, s, sm)" "y = (b', s', sm)" "book_equiv L K b b'" "same_reports s s'"
        using Value(3) by (cases x; cases y) auto
      have it: "report_buffer_iter s' = report_buffer_iter s" using xy(4) by (simp add: same_reports_def)
      from record_fills_equiv [OF res(3), of "report_buffer_iter s"] show ?thesis
      proof (cases rule: option.rel_cases)
        case None
        then show ?thesis using fresh res Value xy it by (auto simp: unf)
      next
        case (Some u w)
        obtain f f' er where uw: "u = (f, er)" "w = (f', er)" "risk_equiv A N f f'" using Some(3) by (cases u; cases w) auto
        from settle_equiv [OF uw(3), of "no_order_id order" 0] show ?thesis
          using fresh res Value xy it Some uw D
          by (cases rule: same_result_cases; cases er) (auto simp: unf gw_equiv_def)
      qed
    qed (use fresh res in \<open>auto simp: unf\<close>)
  qed (use fresh D rp in \<open>auto simp: unf gw_equiv_def\<close>)
qed

lemma process_replace_equiv:
  assumes eq: "gw_equiv A N L K gw gw'" and rp: "same_reports r r'"
  shows "same_step A N L K (process_replace A N L K gw cmd r) (process_replace A N L K gw' cmd r')"
proof -
  note D = gw_equivD [OF eq]
  have inv: "risk_inv A N (gw_risk gw)" "risk_inv A N (gw_risk gw')" using D(1) by (simp_all add: risk_equiv_def)
  note undo = adjust_then_restore [OF risk_invD(2,1) [OF inv(1)]] adjust_then_restore [OF risk_invD(2,1) [OF inv(2)]]
  from adjust_equiv [OF D(1), of "ro_order_id cmd" "ro_account_id cmd" "ro_price cmd" "ro_quantity cmd"] show ?thesis
  proof (cases rule: same_result_cases)
    case (Value x y)
    obtain e rel prior e' where xy: "x = (e, rel, prior)" "y = (e', rel, prior)" "risk_equiv A N e e'"
      using Value(3) by (cases x; cases y) auto
    note undone = undo(1) [OF Value(1) [unfolded xy(1)]] undo(2) [OF Value(2) [unfolded xy(2)]]
    from replace_equiv [OF D(2), of cmd] show ?thesis
      using Value(1,2) xy undone D rp by (cases rule: same_result_cases) (auto simp: process_replace_def gw_equiv_def)
  qed (use eq rp in \<open>auto simp: process_replace_def\<close>)
qed

lemma process_cancel_equiv:
  assumes eq: "gw_equiv A N L K gw gw'" and rp: "same_reports r r'"
  shows "same_step A N L K (process_cancel A N L K gw cmd r) (process_cancel A N L K gw' cmd r')"
proof -
  note D = gw_equivD [OF eq]
  note C = cancel_reservation_equiv [OF D(1), of "co_order_id cmd" "co_account_id cmd"]
  show ?thesis
  proof (cases "can_cancel N (gw_risk gw) (co_order_id cmd) (co_account_id cmd)")
    case (Inl e)
    then show ?thesis using C(1) eq rp by (simp add: process_cancel_def)
  next
    case (Inr u)
    from cancel_equiv [OF D(2), of cmd] show ?thesis
    proof (cases rule: same_result_cases)
      case (Value x y)
      then obtain b c b' where xy: "x = (b, c)" "y = (b', c)" "book_equiv L K b b'" by (cases x; cases y) auto
      from C(2) show ?thesis
        using Inr Value(1,2) xy C(1) D rp
        by (cases rule: same_result_cases) (auto simp: process_cancel_def gw_equiv_def Let_def)
    qed (use Inr C(1) eq rp in \<open>auto simp: process_cancel_def\<close>)
  qed
qed

lemma gw_equiv_sequence:
  "gw_equiv A N L K gw gw' \<Longrightarrow> gw_equiv A N L K (gw\<lparr>gw_expected_sequence := n\<rparr>) (gw'\<lparr>gw_expected_sequence := n\<rparr>)"
  by (simp add: gw_equiv_def)

lemma same_reports_clear:
  "length (rb_entries r') = length (rb_entries r) \<Longrightarrow> same_reports (report_buffer_clear r) (report_buffer_clear r')"
  by (simp add: same_reports_def)

lemma process_command_equiv:
  assumes eq: "gw_equiv A N L K gw gw'" and rp: "length (rb_entries r') = length (rb_entries r)"
  shows "same_step A N L K (process_command A N L K gw command r) (process_command A N L K gw' command r')"
proof -
  note c = same_reports_clear [OF rp] and s = gw_equiv_sequence [OF eq, of "gw_expected_sequence gw + 1"]
  have "same_step A N L K (dispatch A N L K (gw\<lparr>gw_expected_sequence := gw_expected_sequence gw + 1\<rparr>) command (report_buffer_clear r))
      (dispatch A N L K (gw'\<lparr>gw_expected_sequence := gw_expected_sequence gw + 1\<rparr>) command (report_buffer_clear r'))"
    using process_new_order_equiv [OF s c] process_cancel_equiv [OF s c] process_replace_equiv [OF s c]
    by (cases command) (simp_all add: dispatch_def)
  then show ?thesis
    using eq c gw_equivD(3) [OF eq] by (auto simp: process_command_def accept_sequence_cases Let_def)
qed

lemma process_frame_equiv:
  assumes eq: "gw_equiv A N L K gw gw'" and rp: "length (rb_entries r') = length (rb_entries r)"
  shows "same_step A N L K (process_frame A N L K gw frame r) (process_frame A N L K gw' frame r')"
  using process_command_equiv [OF eq rp] eq same_reports_clear [OF rp]
  by (cases "parse_message frame") (simp_all add: process_frame_error process_frame_command)

lemma same_gateway_equiv:
  assumes "gw_inv A N L K gw" "gw_inv A N L K gw'" "same_gateway A N gw gw'"
  shows "gw_equiv A N L K gw gw'"
  using assms by (auto simp: gw_equiv_def risk_equiv_def book_equiv_def same_gateway_def dest: gw_invD(1,2))

end
