(* ===== verification/Snapshot.thy ===== *)
theory Snapshot
  imports Gateway_Equiv
begin

text \<open>
  The snapshot format of \<^verbatim>\<open>crates/hft-recovery/src/lib.rs\<close>: \<open>encode_snapshot\<close> writes the exported state of a
  gateway behind a header with the capacities, the applied sequence and a SHA-256 digest, and
  \<open>decode_snapshot\<close> checks the header and the digest, reads the state back and restores the gateway.
  The hash function of the crate \<open>sha2\<close> is the parameter \<open>sha256\<close>; feeding a hasher piecewise is hashing
  the concatenation. A \<open>usize\<close> has 64 bits, so a \<open>u64\<close> always fits in one.
\<close>

type_synonym hash_function = "u8 list \<Rightarrow> u8 list"

section \<open>Format\<close>

definition SNAPSHOT_FORMAT_VERSION :: u16 where "SNAPSHOT_FORMAT_VERSION = 1"
definition HEADER_SIZE :: nat where "HEADER_SIZE = 96"
definition SNAPSHOT_MAGIC :: "u8 list" where "SNAPSHOT_MAGIC = [0x48, 0x46, 0x54, 0x53, 0x4e, 0x41, 0x50, 0]"
definition HASH_ALGORITHM_SHA256 :: u16 where "HASH_ALGORITHM_SHA256 = 1"
definition DIGEST_OFFSET :: nat where "DIGEST_OFFSET = 52"
definition DIGEST_SIZE :: nat where "DIGEST_SIZE = 32"

text \<open>The bytes of \<open>deterministic-exchange snapshot v1\<close> and a zero byte.\<close>

definition DOMAIN :: "u8 list" where
  "DOMAIN = [0x64, 0x65, 0x74, 0x65, 0x72, 0x6d, 0x69, 0x6e, 0x69, 0x73, 0x74, 0x69, 0x63, 0x2d,
     0x65, 0x78, 0x63, 0x68, 0x61, 0x6e, 0x67, 0x65, 0x20, 0x73, 0x6e, 0x61, 0x70, 0x73, 0x68, 0x6f, 0x74, 0x20, 0x76, 0x31, 0]"

record encoded_snapshot =
  sn_bytes :: "u8 list"
  sn_digest :: "u8 list"
  sn_applied_sequence :: u64

record decoded_snapshot =
  ds_gateway :: gateway
  ds_applied_sequence :: u64
  ds_digest :: "u8 list"

datatype snapshot_error =
    SnTruncated
  | SnTrailingBytes
  | SnBadMagic
  | SnUnsupportedVersion u16
  | SnUnsupportedFlags u32
  | SnUnsupportedHash u16
  | SnHeaderLength u16
  | SnDigestLength u16
  | SnLengthOverflow
  | SnCapacityMismatch
  | SnIntegrityMismatch
  | SnInvalidBoolean
  | SnInvalidSide
  | SnInvalidCount
  | SnInvalidSequence
  | SnNonCanonical
  | SnGatewayState gateway_state_error

section \<open>Writing\<close>

fun side_tag :: "side \<Rightarrow> u8" where
  "side_tag Buy = 1"
| "side_tag Sell = 2"

definition bool_byte :: "bool \<Rightarrow> u8" where
  "bool_byte b = (if b then 1 else 0)"

definition encode_optional_order :: "order_id option \<Rightarrow> u8 list" where
  "encode_optional_order value =
     [bool_byte (value \<noteq> None)] @ to_be_bytes (case value of None \<Rightarrow> 0 | Some order_id \<Rightarrow> order_id)"

definition write_count :: "nat \<Rightarrow> snapshot_error + u8 list" where
  "write_count value = and_then (ok_or (u32_try_from value) SnLengthOverflow) (\<lambda>w. Inr (to_be_bytes w))"

definition snapshot_capacity :: "nat \<Rightarrow> snapshot_error + u32" where
  "snapshot_capacity N = ok_or (u32_try_from N) SnLengthOverflow"

definition encode_account :: "account_risk_state \<Rightarrow> u8 list" where
  "encode_account account =
     to_be_bytes (as_id account) @
     to_be_bytes (rl_max_quantity (as_limits account)) @
     to_be_bytes (rl_max_notional (as_limits account)) @
     to_be_bytes (rl_max_abs_position (as_limits account)) @
     to_be_bytes (rl_max_open_orders (as_limits account)) @
     to_be_bytes (rl_minimum_price (as_limits account)) @
     to_be_bytes (rl_maximum_price (as_limits account)) @
     to_be_bytes (as_settled_position account) @
     to_be_bytes (as_reserved_buys account) @
     to_be_bytes (as_reserved_sells account) @
     to_be_bytes (as_open_orders account) @
     [bool_byte (as_killed account)]"

definition encode_reservation :: "reservation_risk_state \<Rightarrow> u8 list" where
  "encode_reservation reservation =
     to_be_bytes (rs_order_id reservation) @ to_be_bytes (rs_account_id reservation) @
     [side_tag (rs_side reservation)] @ to_be_bytes (rs_quantity reservation)"

definition encode_order :: "book_order_state \<Rightarrow> u8 list" where
  "encode_order order =
     to_be_bytes (bo_order_id order) @ to_be_bytes (bo_account_id order) @ [side_tag (bo_side order)] @
     to_be_bytes (bo_price order) @ to_be_bytes (bo_quantity order) @ to_be_bytes (bo_sequence order)"

fun encode_levels :: "book_level_state list \<Rightarrow> snapshot_error + u8 list" where
  "encode_levels [] = Inr []"
| "encode_levels (level # levels) =
     and_then (write_count (bl_order_count level)) (\<lambda>count.
     and_then (encode_levels levels) (\<lambda>rest.
       Inr ([side_tag (bl_side level)] @ to_be_bytes (bl_price level) @ count @
            concat (map encode_order (take (bl_order_count level) (bl_orders level))) @ rest)))"

definition encode_gateway_state :: "gateway_state \<Rightarrow> snapshot_error + u8 list" where
  "encode_gateway_state state =
     and_then (write_count (length (es_accounts (gs_risk state)))) (\<lambda>accounts.
     and_then (write_count (length (es_reservations (gs_risk state)))) (\<lambda>reservations.
     and_then (write_count (bs_bid_level_count (gs_book state))) (\<lambda>bid_count.
     and_then (write_count (bs_ask_level_count (gs_book state))) (\<lambda>ask_count.
     and_then (encode_levels (take (bs_bid_level_count (gs_book state)) (bs_bids (gs_book state)))) (\<lambda>bids.
     and_then (encode_levels (take (bs_ask_level_count (gs_book state)) (bs_asks (gs_book state)))) (\<lambda>asks.
       Inr (to_be_bytes (gs_instrument state) @
            to_be_bytes (gs_expected_sequence state) @
            encode_optional_order (gs_maximum_received state) @
            encode_optional_order (es_maximum_order_id (gs_risk state)) @
            [bool_byte (es_killed (gs_risk state))] @
            accounts @ reservations @ bid_count @ ask_count @
            concat (map encode_account (es_accounts (gs_risk state))) @
            concat (map encode_reservation (es_reservations (gs_risk state))) @
            bids @ asks)))))))"

definition snapshot_digest :: "hash_function \<Rightarrow> u8 list \<Rightarrow> u8 list \<Rightarrow> u8 list" where
  "snapshot_digest sha256 header payload =
     (let canonical_header = write_at DIGEST_OFFSET (replicate DIGEST_SIZE 0) header in
      sha256 (DOMAIN @ canonical_header @ payload))"

definition encode_snapshot ::
  "hash_function \<Rightarrow> nat \<Rightarrow> nat \<Rightarrow> nat \<Rightarrow> nat \<Rightarrow> gateway \<Rightarrow> u64 \<Rightarrow> (snapshot_error + encoded_snapshot) option"
where
  "encode_snapshot sha256 A N L K gateway applied_sequence =
     Option.bind (gateway_export_state L K gateway) (\<lambda>state. Some (
     and_then (ok_or (checked_add applied_sequence 1) SnInvalidSequence) (\<lambda>following.
     if gs_expected_sequence state \<noteq> following then Inl SnInvalidSequence
     else
       and_then (encode_gateway_state state) (\<lambda>payload.
       if length payload \<ge> 2 ^ 64 then Inl SnLengthOverflow
       else
         let payload_len = of_nat (length payload) :: u64;
             header = replicate HEADER_SIZE 0;
             header = write_at 0 SNAPSHOT_MAGIC header;
             header = write_at 8 (to_be_bytes SNAPSHOT_FORMAT_VERSION) header;
             header = write_at 10 (to_be_bytes (of_nat HEADER_SIZE :: u16)) header;
             header = write_at 16 (to_be_bytes HASH_ALGORITHM_SHA256) header;
             header = write_at 18 (to_be_bytes (of_nat DIGEST_SIZE :: u16)) header;
             header = write_at 20 (to_be_bytes payload_len) header;
             header = write_at 28 (to_be_bytes applied_sequence) header in
         and_then (snapshot_capacity A) (\<lambda>a. let header = write_at 36 (to_be_bytes a) header in
         and_then (snapshot_capacity N) (\<lambda>n. let header = write_at 40 (to_be_bytes n) header in
         and_then (snapshot_capacity L) (\<lambda>l. let header = write_at 44 (to_be_bytes l) header in
         and_then (snapshot_capacity K) (\<lambda>k. let header = write_at 48 (to_be_bytes k) header;
             digest = snapshot_digest sha256 header payload;
             header = write_at DIGEST_OFFSET digest header in
           Inr \<lparr>sn_bytes = header @ payload, sn_digest = digest, sn_applied_sequence = applied_sequence\<rparr>))))))))"

section \<open>Reading\<close>

record input =
  in_bytes :: "u8 list"
  in_offset :: nat

type_synonym 'a reader = "input \<Rightarrow> snapshot_error + 'a \<times> input"

text \<open>Two reads in a row; the \<open>?\<close> operator stops at the first error.\<close>

definition in_then :: "'a reader \<Rightarrow> ('a \<Rightarrow> 'b reader) \<Rightarrow> 'b reader" where
  "in_then r f input = and_then (r input) (\<lambda>(x, input). f x input)"

definition in_return :: "'a \<Rightarrow> 'a reader" where
  "in_return x input = Inr (x, input)"

definition in_fail :: "snapshot_error \<Rightarrow> 'a reader" where
  "in_fail e input = Inl e"

definition input_new :: "u8 list \<Rightarrow> input" where
  "input_new bytes = \<lparr>in_bytes = bytes, in_offset = 0\<rparr>"

definition in_take :: "nat \<Rightarrow> u8 list reader" where
  "in_take len input =
     and_then (ok_or (usize_checked_add (in_offset input) len) SnLengthOverflow) (\<lambda>end_offset.
       if end_offset \<le> length (in_bytes input)
       then Inr (slice (in_offset input) end_offset (in_bytes input), input\<lparr>in_offset := end_offset\<rparr>)
       else Inl SnTruncated)"

definition in_u8 :: "u8 reader" where
  "in_u8 = in_then (in_take 1) (\<lambda>bytes. in_return (bytes ! 0))"

definition in_u32 :: "u32 reader" where
  "in_u32 = in_then (in_take 4) (\<lambda>bytes. in_return (from_be_bytes bytes))"

definition in_u64 :: "u64 reader" where
  "in_u64 = in_then (in_take 8) (\<lambda>bytes. in_return (from_be_bytes bytes))"

definition in_u128 :: "u128 reader" where
  "in_u128 = in_then (in_take 16) (\<lambda>bytes. in_return (from_be_bytes bytes))"

definition in_i64 :: "i64 reader" where
  "in_i64 = in_then (in_take 8) (\<lambda>bytes. in_return (from_be_bytes bytes))"

definition in_i128 :: "i128 reader" where
  "in_i128 = in_then (in_take 16) (\<lambda>bytes. in_return (from_be_bytes bytes))"

definition in_boolean :: "bool reader" where
  "in_boolean = in_then in_u8 (\<lambda>b.
     if b = 0 then in_return False else if b = 1 then in_return True else in_fail SnInvalidBoolean)"

definition in_side :: "side reader" where
  "in_side = in_then in_u8 (\<lambda>b.
     if b = 1 then in_return Buy else if b = 2 then in_return Sell else in_fail SnInvalidSide)"

definition in_count :: "nat reader" where
  "in_count = in_then in_u32 (\<lambda>w. in_return (unat w))"

definition in_optional_order :: "order_id option reader" where
  "in_optional_order = in_then in_boolean (\<lambda>present. in_then in_u64 (\<lambda>value.
     if present then in_return (Some value) else if value = 0 then in_return None else in_fail SnNonCanonical))"

definition in_account :: "account_risk_state reader" where
  "in_account =
     in_then in_u32 (\<lambda>id.
     in_then in_u64 (\<lambda>max_quantity.
     in_then in_u128 (\<lambda>max_notional.
     in_then in_u64 (\<lambda>max_abs_position.
     in_then in_u32 (\<lambda>max_open_orders.
     in_then in_i64 (\<lambda>minimum_price.
     in_then in_i64 (\<lambda>maximum_price.
     in_then in_i128 (\<lambda>settled_position.
     in_then in_u128 (\<lambda>reserved_buys.
     in_then in_u128 (\<lambda>reserved_sells.
     in_then in_u32 (\<lambda>open_orders.
     in_then in_boolean (\<lambda>killed.
       in_return \<lparr>as_id = id,
         as_limits = \<lparr>rl_max_quantity = max_quantity, rl_max_notional = max_notional, rl_max_abs_position = max_abs_position,
           rl_max_open_orders = max_open_orders, rl_minimum_price = minimum_price, rl_maximum_price = maximum_price\<rparr>,
         as_settled_position = settled_position, as_reserved_buys = reserved_buys, as_reserved_sells = reserved_sells,
         as_open_orders = open_orders, as_killed = killed\<rparr>))))))))))))"

definition in_reservation :: "reservation_risk_state reader" where
  "in_reservation =
     in_then in_u64 (\<lambda>order_id. in_then in_u32 (\<lambda>account_id. in_then in_side (\<lambda>side. in_then in_u64 (\<lambda>quantity.
       in_return \<lparr>rs_order_id = order_id, rs_account_id = account_id, rs_side = side, rs_quantity = quantity\<rparr>))))"

definition in_order :: "book_order_state reader" where
  "in_order =
     in_then in_u64 (\<lambda>order_id. in_then in_u32 (\<lambda>account_id. in_then in_side (\<lambda>side. in_then in_i64 (\<lambda>price.
     in_then in_u64 (\<lambda>quantity. in_then in_u64 (\<lambda>sequence.
       in_return \<lparr>bo_order_id = order_id, bo_account_id = account_id, bo_side = side, bo_price = price,
         bo_quantity = quantity, bo_sequence = sequence\<rparr>))))))"

text \<open>A loop that reads a number of items.\<close>

fun in_many :: "nat \<Rightarrow> 'a reader \<Rightarrow> 'a list reader" where
  "in_many 0 r = in_return []"
| "in_many (Suc n) r = in_then r (\<lambda>x. in_then (in_many n r) (\<lambda>xs. in_return (x # xs)))"

definition in_level :: "nat \<Rightarrow> book_level_state reader" where
  "in_level K =
     in_then in_side (\<lambda>side. in_then in_i64 (\<lambda>price. in_then in_count (\<lambda>count.
     if count > K then in_fail SnInvalidCount
     else in_then (in_many count in_order) (\<lambda>orders.
       in_return \<lparr>bl_side = side, bl_price = price, bl_order_count = count,
         bl_orders = write_at 0 orders (replicate K EMPTY_BOOK_ORDER_STATE)\<rparr>))))"

definition input_is_empty :: "input \<Rightarrow> bool" where
  "input_is_empty input \<longleftrightarrow> in_offset input = length (in_bytes input)"

definition in_gateway_state :: "nat \<Rightarrow> nat \<Rightarrow> nat \<Rightarrow> nat \<Rightarrow> gateway_state reader" where
  "in_gateway_state A N L K =
     in_then in_u32 (\<lambda>instrument.
     in_then in_u64 (\<lambda>expected_sequence.
     in_then in_optional_order (\<lambda>maximum_received.
     in_then in_optional_order (\<lambda>risk_maximum.
     in_then in_boolean (\<lambda>killed.
     in_then in_count (\<lambda>account_count.
     in_then in_count (\<lambda>reservation_count.
     in_then in_count (\<lambda>bid_count.
     in_then in_count (\<lambda>ask_count.
     if account_count > A \<or> reservation_count > N \<or> bid_count > L \<or> ask_count > L then in_fail SnInvalidCount
     else
       in_then (in_many account_count in_account) (\<lambda>accounts.
       in_then (in_many reservation_count in_reservation) (\<lambda>reservations.
       in_then (in_many bid_count (in_level K)) (\<lambda>bids.
       in_then (in_many ask_count (in_level K)) (\<lambda>asks.
         in_return \<lparr>gs_instrument = instrument,
           gs_book = (book_state_empty L K instrument)\<lparr>
             bs_bid_level_count := bid_count, bs_bids := write_at 0 bids (bs_bids (book_state_empty L K instrument)),
             bs_ask_level_count := ask_count, bs_asks := write_at 0 asks (bs_asks (book_state_empty L K instrument))\<rparr>,
           gs_risk = \<lparr>es_accounts = accounts, es_reservations = reservations, es_maximum_order_id = risk_maximum, es_killed = killed\<rparr>,
           gs_expected_sequence = expected_sequence, gs_maximum_received = maximum_received\<rparr>)))))))))))))"

definition decode_gateway_state ::
  "nat \<Rightarrow> nat \<Rightarrow> nat \<Rightarrow> nat \<Rightarrow> u8 list \<Rightarrow> snapshot_error + gateway_state"
where
  "decode_gateway_state A N L K payload =
     and_then (in_gateway_state A N L K (input_new payload)) (\<lambda>(state, input).
       if input_is_empty input then Inr state else Inl SnTrailingBytes)"

definition decode_snapshot ::
  "hash_function \<Rightarrow> nat \<Rightarrow> nat \<Rightarrow> nat \<Rightarrow> nat \<Rightarrow> u8 list \<Rightarrow> (snapshot_error + decoded_snapshot) option"
where
  "decode_snapshot sha256 A N L K bytes =
     (if length bytes < HEADER_SIZE then Some (Inl SnTruncated)
      else
        let header = slice 0 HEADER_SIZE bytes;
            version = from_be_bytes (slice 8 10 header) :: u16;
            header_len = from_be_bytes (slice 10 12 header) :: u16;
            flags = from_be_bytes (slice 12 16 header) :: u32;
            hash = from_be_bytes (slice 16 18 header) :: u16;
            digest_len = from_be_bytes (slice 18 20 header) :: u16;
            payload_len = unat (from_be_bytes (slice 20 28 header) :: u64) in
        if slice 0 8 header \<noteq> SNAPSHOT_MAGIC then Some (Inl SnBadMagic)
        else if version \<noteq> SNAPSHOT_FORMAT_VERSION then Some (Inl (SnUnsupportedVersion version))
        else if unat header_len \<noteq> HEADER_SIZE then Some (Inl (SnHeaderLength header_len))
        else if flags \<noteq> 0 then Some (Inl (SnUnsupportedFlags flags))
        else if hash \<noteq> HASH_ALGORITHM_SHA256 then Some (Inl (SnUnsupportedHash hash))
        else if unat digest_len \<noteq> DIGEST_SIZE then Some (Inl (SnDigestLength digest_len))
        else case usize_checked_add HEADER_SIZE payload_len of
            None \<Rightarrow> Some (Inl SnLengthOverflow)
          | Some all_bytes \<Rightarrow>
              if length bytes < all_bytes then Some (Inl SnTruncated)
              else if length bytes > all_bytes then Some (Inl SnTrailingBytes)
              else
                rbind (Some (snapshot_capacity A)) (\<lambda>a.
                if from_be_bytes (slice 36 40 header) \<noteq> a then Some (Inl SnCapacityMismatch)
                else rbind (Some (snapshot_capacity N)) (\<lambda>n.
                if from_be_bytes (slice 40 44 header) \<noteq> n then Some (Inl SnCapacityMismatch)
                else rbind (Some (snapshot_capacity L)) (\<lambda>l.
                if from_be_bytes (slice 44 48 header) \<noteq> l then Some (Inl SnCapacityMismatch)
                else rbind (Some (snapshot_capacity K)) (\<lambda>k.
                if from_be_bytes (slice 48 52 header) \<noteq> k then Some (Inl SnCapacityMismatch)
                else if \<exists>byte \<in> set (slice 84 HEADER_SIZE header). byte \<noteq> 0 then Some (Inl SnNonCanonical)
                else
                  let payload = drop HEADER_SIZE bytes;
                      expected_digest = snapshot_digest sha256 header payload;
                      stored_digest = slice DIGEST_OFFSET (DIGEST_OFFSET + DIGEST_SIZE) header in
                  if expected_digest \<noteq> stored_digest then Some (Inl SnIntegrityMismatch)
                  else
                    let applied_sequence = from_be_bytes (slice 28 36 header) :: u64 in
                    rbind (Some (decode_gateway_state A N L K payload)) (\<lambda>state.
                    rbind (Some (ok_or (checked_add applied_sequence 1) SnInvalidSequence)) (\<lambda>following.
                    if gs_expected_sequence state \<noteq> following then Some (Inl SnInvalidSequence)
                    else rbind (map_option (map_err SnGatewayState) (gateway_from_state A N L K state)) (\<lambda>gateway.
                      Some (Inr \<lparr>ds_gateway = gateway, ds_applied_sequence = applied_sequence, ds_digest = stored_digest\<rparr>)))))))))"

end
