(* ===== verification/Snapshot_Codec.thy ===== *)
theory Snapshot_Codec
  imports Snapshot
begin

text \<open>
  The readers of \<^verbatim>\<open>crates/hft-recovery/src/lib.rs\<close> invert its writers. The interface is the locale \<open>codec\<close>: a
  reader accepts exactly the bytes of its writer at the current offset and moves past them. It is
  interpreted for every item of the payload, and the readers of the larger items are proved from the
  laws of the smaller ones.
\<close>

section \<open>Readers and writers\<close>

definition at :: "u8 list \<Rightarrow> nat \<Rightarrow> u8 list \<Rightarrow> bool" where
  "at bytes n w \<longleftrightarrow> take (length w) (drop n bytes) = w"

abbreviation input_at :: "u8 list \<Rightarrow> nat \<Rightarrow> input" where
  "input_at bytes n \<equiv> \<lparr>in_bytes = bytes, in_offset = n\<rparr>"

named_theorems reader_iff \<open>when a reader returns\<close>

lemma at_Nil [simp]: "at bytes n []"
  by (simp add: at_def)

lemma at_Cons [simp]: "at bytes n (b # w) \<longleftrightarrow> (n < length bytes \<and> bytes ! n = b) \<and> at bytes (Suc n) w"
proof (cases "n < length bytes")
  case True
  then show ?thesis by (auto simp: at_def Cons_nth_drop_Suc [symmetric])
qed (simp add: at_def)

lemma at_append [simp]: "at bytes n (v @ w) \<longleftrightarrow> at bytes n v \<and> at bytes (n + length v) w"
  by (induction v arbitrary: n) auto

lemma at_whole: "at bytes 0 w \<and> length w = length bytes \<longleftrightarrow> w = bytes"
  by (auto simp: at_def)

lemma at_unique: "\<lbrakk>at bytes n v; at bytes n w; length v = length w\<rbrakk> \<Longrightarrow> v = w"
  by (simp add: at_def)

lemma in_then_iff [reader_iff]: "in_then r f i = Inr (y, j) \<longleftrightarrow> (\<exists>x i'. r i = Inr (x, i') \<and> f x i' = Inr (y, j))"
  by (auto simp: in_then_def result_iff)

lemma in_return_iff [reader_iff]: "in_return x i = Inr (y, j) \<longleftrightarrow> y = x \<and> j = i"
  by (auto simp: in_return_def)

lemma in_fail_iff [reader_iff]: "in_fail e i \<noteq> Inr (y, j)"
  by (simp add: in_fail_def)

lemma if_reader_iff [reader_iff]:
  "(if c then r else r') i = Inr y \<longleftrightarrow> c \<and> r i = Inr y \<or> \<not> c \<and> r' i = Inr y"
  by simp

lemma in_take_iff [reader_iff]:
  assumes "length bytes < 2 ^ 64" "0 < k"
  shows "in_take k (input_at bytes n) = Inr (w, j) \<longleftrightarrow> length w = k \<and> at bytes n w \<and> j = input_at bytes (n + k)"
  using assms by (auto simp: in_take_def usize_checked_add_def NIL_def at_def slice_def result_iff split: if_splits)

text \<open>A writer and the reader that accepts exactly what it writes.\<close>

locale codec =
  fixes r :: "'a reader" and ok :: "'a \<Rightarrow> bool" and enc :: "'a \<Rightarrow> u8 list"
  assumes reads: "length bytes < 2 ^ 64 \<Longrightarrow>
    r (input_at bytes n) = Inr (x, j) \<longleftrightarrow> ok x \<and> at bytes n (enc x) \<and> j = input_at bytes (n + length (enc x))"
begin

lemma many_reads:
  assumes "length bytes < 2 ^ 64"
  shows "in_many k r (input_at bytes n) = Inr (xs, j) \<longleftrightarrow>
    length xs = k \<and> list_all ok xs \<and> at bytes n (concat (map enc xs)) \<and> j = input_at bytes (n + length (concat (map enc xs)))"
proof (induction k arbitrary: n xs)
  case 0
  then show ?case by (auto simp: reader_iff)
next
  case (Suc k)
  show ?case
    by (cases xs) (auto simp: reader_iff reads [OF assms] Suc add.assoc)
qed

lemma then_reads:
  assumes "length bytes < 2 ^ 64"
  shows "in_then r f (input_at bytes n) = Inr (y, j) \<longleftrightarrow>
    (\<exists>x. ok x \<and> at bytes n (enc x) \<and> f x (input_at bytes (n + length (enc x))) = Inr (y, j))"
  unfolding in_then_iff reads [OF assms] by blast

lemma many_then_reads:
  assumes "length bytes < 2 ^ 64"
  shows "in_then (in_many k r) f (input_at bytes n) = Inr (y, j) \<longleftrightarrow>
    (\<exists>xs. (length xs = k \<and> list_all ok xs) \<and> at bytes n (concat (map enc xs)) \<and>
       f xs (input_at bytes (n + length (concat (map enc xs)))) = Inr (y, j))"
  unfolding in_then_iff many_reads [OF assms] by blast

end

lemma guard_iff: "(if c then in_fail e else r) i = Inr (y, j) \<longleftrightarrow> \<not> c \<and> r i = Inr (y, j)"
  by (simp add: in_fail_def)

lemma be_reader:
  assumes "length bytes < 2 ^ 64" "LENGTH('a) = 8 * k" "0 < k"
  shows "in_then (in_take k) (\<lambda>b. in_return (from_be_bytes b)) (input_at bytes n) = Inr (x :: 'a::len word, j) \<longleftrightarrow>
    at bytes n (to_be_bytes x) \<and> j = input_at bytes (n + length (to_be_bytes x))"
proof -
  have *: "length w = k \<and> x = from_be_bytes w \<longleftrightarrow> w = to_be_bytes x" for w
    using to_from_be_bytes [of w, where 'a = 'a] from_to_be_bytes [of k x] assms(2) by auto
  have "in_then (in_take k) (\<lambda>b. in_return (from_be_bytes b)) (input_at bytes n) = Inr (x, j) \<longleftrightarrow>
      (\<exists>w. (length w = k \<and> x = from_be_bytes w) \<and> at bytes n w \<and> j = input_at bytes (n + k))"
    unfolding in_then_iff in_return_iff in_take_iff [OF assms(1,3)] by blast
  then show ?thesis unfolding * using assms(2) by simp
qed

interpretation u32_codec: codec in_u32 "\<lambda>_. True" to_be_bytes
  by unfold_locales (simp add: in_u32_def be_reader)

interpretation u64_codec: codec in_u64 "\<lambda>_. True" to_be_bytes
  by unfold_locales (simp add: in_u64_def be_reader)

interpretation u128_codec: codec in_u128 "\<lambda>_. True" to_be_bytes
  by unfold_locales (simp add: in_u128_def be_reader)

interpretation i64_codec: codec in_i64 "\<lambda>_. True" to_be_bytes
  by unfold_locales (simp add: in_i64_def be_reader)

interpretation i128_codec: codec in_i128 "\<lambda>_. True" to_be_bytes
  by unfold_locales (simp add: in_i128_def be_reader)

lemma in_u8_iff:
  assumes "length bytes < 2 ^ 64"
  shows "in_u8 (input_at bytes n) = Inr (x, j) \<longleftrightarrow> at bytes n [x] \<and> j = input_at bytes (n + 1)"
  using assms by (auto simp: in_u8_def reader_iff length_Suc_conv)

interpretation u8_codec: codec in_u8 "\<lambda>_. True" "\<lambda>x. [x]"
  by unfold_locales (simp add: in_u8_iff)

interpretation boolean_codec: codec in_boolean "\<lambda>_. True" "\<lambda>b. [bool_byte b]"
  by unfold_locales (auto simp: in_boolean_def reader_iff u8_codec.reads bool_byte_def)

interpretation side_codec: codec in_side "\<lambda>_. True" "\<lambda>side. [side_tag side]"
proof unfold_locales
  fix bytes :: "u8 list" and n side j
  assume "length bytes < 2 ^ 64"
  then show "in_side (input_at bytes n) = Inr (side, j) \<longleftrightarrow>
      True \<and> at bytes n [side_tag side] \<and> j = input_at bytes (n + length [side_tag side])"
    by (cases side) (auto simp: in_side_def reader_iff u8_codec.reads)
qed

interpretation count_codec: codec in_count "\<lambda>c. c < 2 ^ 32" "\<lambda>c. to_be_bytes (of_nat c :: u32)"
proof unfold_locales
  fix bytes :: "u8 list" and n c j
  assume b: "length bytes < 2 ^ 64"
  have "c = unat (w :: u32) \<longleftrightarrow> c < 2 ^ 32 \<and> w = of_nat c" for w
    using unsigned_less [of w, where 'a = nat] by (auto simp: unat_of_nat)
  then show "in_count (input_at bytes n) = Inr (c, j) \<longleftrightarrow>
      c < 2 ^ 32 \<and> at bytes n (to_be_bytes (of_nat c :: u32)) \<and> j = input_at bytes (n + length (to_be_bytes (of_nat c :: u32)))"
    using b by (auto simp: in_count_def reader_iff u32_codec.reads)
qed

interpretation optional_codec: codec in_optional_order "\<lambda>_. True" encode_optional_order
proof unfold_locales
  fix bytes :: "u8 list" and n v j
  assume "length bytes < 2 ^ 64"
  then show "in_optional_order (input_at bytes n) = Inr (v, j) \<longleftrightarrow>
      True \<and> at bytes n (encode_optional_order v) \<and> j = input_at bytes (n + length (encode_optional_order v))"
    by (cases v) (auto simp: in_optional_order_def encode_optional_order_def reader_iff boolean_codec.reads u64_codec.reads ex_bool_eq)
qed

lemmas item_reads = u32_codec.reads u64_codec.reads u128_codec.reads i64_codec.reads i128_codec.reads
  boolean_codec.reads side_codec.reads count_codec.reads optional_codec.reads

interpretation account_codec: codec in_account "\<lambda>_. True" encode_account
proof unfold_locales
  fix bytes :: "u8 list" and n a j
  assume "length bytes < 2 ^ 64"
  then show "in_account (input_at bytes n) = Inr (a, j) \<longleftrightarrow>
      True \<and> at bytes n (encode_account a) \<and> j = input_at bytes (n + length (encode_account a))"
    by (cases a; cases "as_limits a") (auto simp: in_account_def encode_account_def reader_iff item_reads)
qed

interpretation reservation_codec: codec in_reservation "\<lambda>_. True" encode_reservation
proof unfold_locales
  fix bytes :: "u8 list" and n a j
  assume "length bytes < 2 ^ 64"
  then show "in_reservation (input_at bytes n) = Inr (a, j) \<longleftrightarrow>
      True \<and> at bytes n (encode_reservation a) \<and> j = input_at bytes (n + length (encode_reservation a))"
    by (cases a) (auto simp: in_reservation_def encode_reservation_def reader_iff item_reads)
qed

interpretation order_codec: codec in_order "\<lambda>_. True" encode_order
proof unfold_locales
  fix bytes :: "u8 list" and n a j
  assume "length bytes < 2 ^ 64"
  then show "in_order (input_at bytes n) = Inr (a, j) \<longleftrightarrow>
      True \<and> at bytes n (encode_order a) \<and> j = input_at bytes (n + length (encode_order a))"
    by (cases a) (auto simp: in_order_def encode_order_def reader_iff item_reads)
qed

section \<open>Levels\<close>

text \<open>A level with its unused slots empty, and its bytes.\<close>

definition level_form :: "nat \<Rightarrow> book_level_state \<Rightarrow> bool" where
  "level_form K lv \<longleftrightarrow> bl_order_count lv \<le> K \<and> bl_order_count lv < 2 ^ 32 \<and>
     length (live_orders lv) = bl_order_count lv \<and>
     bl_orders lv = live_orders lv @ replicate (K - bl_order_count lv) EMPTY_BOOK_ORDER_STATE"

definition level_bytes :: "book_level_state \<Rightarrow> u8 list" where
  "level_bytes lv = [side_tag (bl_side lv)] @ to_be_bytes (bl_price lv) @ to_be_bytes (of_nat (bl_order_count lv) :: u32) @
     concat (map encode_order (live_orders lv))"

lemma level_record:
  "lv = \<lparr>bl_side = side, bl_price = p, bl_order_count = c, bl_orders = write_at 0 os (replicate K EMPTY_BOOK_ORDER_STATE)\<rparr>
     \<and> length os = c \<and> c \<le> K \<and> c < 2 ^ 32
   \<longleftrightarrow> level_form K lv \<and> side = bl_side lv \<and> p = bl_price lv \<and> c = bl_order_count lv \<and> os = live_orders lv"
  by (cases lv) (auto simp: level_form_def live_orders_def write_at_replicate)

interpretation level_codec: codec "in_level K" "level_form K" level_bytes for K
proof unfold_locales
  fix bytes :: "u8 list" and n lv j
  assume b: "length bytes < 2 ^ 64"
  have "in_level K (input_at bytes n) = Inr (lv, j) \<longleftrightarrow> (\<exists>side p c os.
      (lv = \<lparr>bl_side = side, bl_price = p, bl_order_count = c, bl_orders = write_at 0 os (replicate K EMPTY_BOOK_ORDER_STATE)\<rparr>
        \<and> length os = c \<and> c \<le> K \<and> c < 2 ^ 32) \<and>
      at bytes n ([side_tag side] @ to_be_bytes p @ to_be_bytes (of_nat c :: u32) @ concat (map encode_order os)) \<and>
      j = input_at bytes (n + length ([side_tag side] @ to_be_bytes p @ to_be_bytes (of_nat c :: u32) @ concat (map encode_order os))))"
    by (auto simp: in_level_def reader_iff item_reads [OF b] order_codec.many_reads [OF b] list_all_iff add_ac not_less)
  then show "in_level K (input_at bytes n) = Inr (lv, j) \<longleftrightarrow>
      level_form K lv \<and> at bytes n (level_bytes lv) \<and> j = input_at bytes (n + length (level_bytes lv))"
    unfolding level_record level_bytes_def by blast
qed

lemma encode_levels_iff:
  "encode_levels lvs = Inr w \<longleftrightarrow> (\<forall>lv \<in> set lvs. bl_order_count lv < 2 ^ 32) \<and> w = concat (map level_bytes lvs)"
  by (induction lvs arbitrary: w)
    (auto simp: result_iff write_count_def u32_try_from_def level_bytes_def live_orders_def split: if_splits)

section \<open>States\<close>

definition side_form :: "nat \<Rightarrow> nat \<Rightarrow> nat \<Rightarrow> book_level_state list \<Rightarrow> bool" where
  "side_form L K c lvs \<longleftrightarrow> c \<le> L \<and> c < 2 ^ 32 \<and> length (take c lvs) = c \<and> list_all (level_form K) (take c lvs) \<and>
     lvs = take c lvs @ replicate (L - c) (empty_book_level_state K)"

definition state_form :: "nat \<Rightarrow> nat \<Rightarrow> nat \<Rightarrow> nat \<Rightarrow> gateway_state \<Rightarrow> bool" where
  "state_form A N L K st \<longleftrightarrow>
     length (es_accounts (gs_risk st)) \<le> A \<and> length (es_accounts (gs_risk st)) < 2 ^ 32 \<and>
     length (es_reservations (gs_risk st)) \<le> N \<and> length (es_reservations (gs_risk st)) < 2 ^ 32 \<and>
     bs_instrument (gs_book st) = gs_instrument st \<and>
     side_form L K (bs_bid_level_count (gs_book st)) (bs_bids (gs_book st)) \<and>
     side_form L K (bs_ask_level_count (gs_book st)) (bs_asks (gs_book st))"

definition state_bytes :: "gateway_state \<Rightarrow> u8 list" where
  "state_bytes st =
     to_be_bytes (gs_instrument st) @ to_be_bytes (gs_expected_sequence st) @
     encode_optional_order (gs_maximum_received st) @ encode_optional_order (es_maximum_order_id (gs_risk st)) @
     [bool_byte (es_killed (gs_risk st))] @
     to_be_bytes (of_nat (length (es_accounts (gs_risk st))) :: u32) @
     to_be_bytes (of_nat (length (es_reservations (gs_risk st))) :: u32) @
     to_be_bytes (of_nat (bs_bid_level_count (gs_book st)) :: u32) @
     to_be_bytes (of_nat (bs_ask_level_count (gs_book st)) :: u32) @
     concat (map encode_account (es_accounts (gs_risk st))) @
     concat (map encode_reservation (es_reservations (gs_risk st))) @
     concat (map level_bytes (take (bs_bid_level_count (gs_book st)) (bs_bids (gs_book st)))) @
     concat (map level_bytes (take (bs_ask_level_count (gs_book st)) (bs_asks (gs_book st))))"

lemma side_form_iff:
  "length lvs = c \<and> list_all (level_form K) lvs \<and> c \<le> L \<and> c < 2 ^ 32 \<and>
     out = write_at 0 lvs (replicate L (empty_book_level_state K))
   \<longleftrightarrow> side_form L K c out \<and> lvs = take c out"
  by (auto simp: side_form_def write_at_replicate)

lemma encode_state_ok:
  assumes "state_form A N L K st"
  shows "encode_gateway_state st = Inr (state_bytes st)"
proof -
  have c: "write_count n = Inr (to_be_bytes (of_nat n :: u32))" if "n < 2 ^ 32" for n
    using that by (simp add: write_count_def u32_try_from_def)
  have lv: "encode_levels (take n lvs) = Inr (concat (map level_bytes (take n lvs)))" if "side_form L K n lvs" for n lvs
    using that by (simp add: encode_levels_iff side_form_def list_all_iff level_form_def)
  show ?thesis using assms by (simp add: encode_gateway_state_def c lv state_form_def state_bytes_def side_form_def)
qed

text \<open>The record the reader builds from its parts is a state in form, and every such state is one.\<close>

lemma state_record:
  "st = \<lparr>gs_instrument = ins, gs_book = (book_state_empty L K ins)\<lparr>
       bs_bid_level_count := bc, bs_bids := write_at 0 bids (bs_bids (book_state_empty L K ins)),
       bs_ask_level_count := ac, bs_asks := write_at 0 asks (bs_asks (book_state_empty L K ins))\<rparr>,
     gs_risk = \<lparr>es_accounts = accounts, es_reservations = reservations, es_maximum_order_id = risk_maximum, es_killed = killed\<rparr>,
     gs_expected_sequence = sq, gs_maximum_received = received\<rparr> \<and>
   (length accounts = a \<and> a \<le> A \<and> a < 2 ^ 32) \<and> (length reservations = r \<and> r \<le> N \<and> r < 2 ^ 32) \<and>
   (length bids = bc \<and> list_all (level_form K) bids \<and> bc \<le> L \<and> bc < 2 ^ 32) \<and>
   (length asks = ac \<and> list_all (level_form K) asks \<and> ac \<le> L \<and> ac < 2 ^ 32)
   \<longleftrightarrow> state_form A N L K st \<and> ins = gs_instrument st \<and> sq = gs_expected_sequence st \<and> received = gs_maximum_received st \<and>
     risk_maximum = es_maximum_order_id (gs_risk st) \<and> killed = es_killed (gs_risk st) \<and>
     a = length (es_accounts (gs_risk st)) \<and> r = length (es_reservations (gs_risk st)) \<and>
     bc = bs_bid_level_count (gs_book st) \<and> ac = bs_ask_level_count (gs_book st) \<and>
     accounts = es_accounts (gs_risk st) \<and> reservations = es_reservations (gs_risk st) \<and>
     bids = take bc (bs_bids (gs_book st)) \<and> asks = take ac (bs_asks (gs_book st))"
proof (cases st)
  case (fields ins' book risk sq' received')
  then show ?thesis
    using side_form_iff [of bids bc K L "bs_bids book"] side_form_iff [of asks ac K L "bs_asks book"]
    by (cases book; cases risk) (simp add: book_state_empty_def state_form_def, blast)
qed

interpretation state_codec: codec "in_gateway_state A N L K" "state_form A N L K" state_bytes for A N L K
proof unfold_locales
  fix bytes :: "u8 list" and n st j
  assume b: "length bytes < 2 ^ 64"
  let ?enc = "\<lambda>ins sq received risk_maximum killed a r bc ac accounts reservations bids asks.
    to_be_bytes ins @ to_be_bytes sq @ encode_optional_order received @ encode_optional_order risk_maximum @
    [bool_byte killed] @ to_be_bytes (of_nat a :: u32) @ to_be_bytes (of_nat r :: u32) @
    to_be_bytes (of_nat bc :: u32) @ to_be_bytes (of_nat ac :: u32) @
    concat (map encode_account accounts) @ concat (map encode_reservation reservations) @
    concat (map level_bytes bids) @ concat (map level_bytes asks)"
  let ?rec = "\<lambda>ins sq received risk_maximum killed bc ac accounts reservations bids asks.
    \<lparr>gs_instrument = ins, gs_book = (book_state_empty L K ins)\<lparr>
       bs_bid_level_count := bc, bs_bids := write_at 0 bids (bs_bids (book_state_empty L K ins)),
       bs_ask_level_count := ac, bs_asks := write_at 0 asks (bs_asks (book_state_empty L K ins))\<rparr>,
     gs_risk = \<lparr>es_accounts = accounts, es_reservations = reservations, es_maximum_order_id = risk_maximum, es_killed = killed\<rparr>,
     gs_expected_sequence = sq, gs_maximum_received = received\<rparr>"
  have "in_gateway_state A N L K (input_at bytes n) = Inr (st, j) \<longleftrightarrow>
    (\<exists>ins sq received risk_maximum killed a r bc ac accounts reservations bids asks.
      (st = ?rec ins sq received risk_maximum killed bc ac accounts reservations bids asks \<and>
       (length accounts = a \<and> a \<le> A \<and> a < 2 ^ 32) \<and> (length reservations = r \<and> r \<le> N \<and> r < 2 ^ 32) \<and>
       (length bids = bc \<and> list_all (level_form K) bids \<and> bc \<le> L \<and> bc < 2 ^ 32) \<and>
       (length asks = ac \<and> list_all (level_form K) asks \<and> ac \<le> L \<and> ac < 2 ^ 32)) \<and>
      at bytes n (?enc ins sq received risk_maximum killed a r bc ac accounts reservations bids asks) \<and>
      j = input_at bytes (n + length (?enc ins sq received risk_maximum killed a r bc ac accounts reservations bids asks)))"
    (is "?l \<longleftrightarrow> ?r")
  proof -
    note then_read = u32_codec.then_reads [OF b] u64_codec.then_reads [OF b] optional_codec.then_reads [OF b]
      boolean_codec.then_reads [OF b] count_codec.then_reads [OF b] account_codec.many_then_reads [OF b]
      reservation_codec.many_then_reads [OF b] level_codec.many_then_reads [OF b]
    show ?thesis
    proof
      assume ?l
      then show ?r
        unfolding in_gateway_state_def then_read guard_iff in_return_iff
        by (elim exE conjE) (intro exI conjI, assumption, auto simp: add_ac not_less)
    next
      assume ?r
      then show ?l
        unfolding in_gateway_state_def then_read guard_iff in_return_iff at_append
        by (elim exE conjE) (intro exI conjI; (assumption | rule TrueI | simp add: not_less list_all_iff add_ac))
    qed
  qed
  then show "in_gateway_state A N L K (input_at bytes n) = Inr (st, j) \<longleftrightarrow>
      state_form A N L K st \<and> at bytes n (state_bytes st) \<and> j = input_at bytes (n + length (state_bytes st))"
    unfolding state_record state_bytes_def by blast
qed

lemma decode_state_iff:
  assumes "length payload < 2 ^ 64"
  shows "decode_gateway_state A N L K payload = Inr st \<longleftrightarrow> state_form A N L K st \<and> payload = state_bytes st"
proof -
  have "decode_gateway_state A N L K payload = Inr st \<longleftrightarrow>
      state_form A N L K st \<and> at payload 0 (state_bytes st) \<and> length (state_bytes st) = length payload"
    by (auto simp: decode_gateway_state_def input_new_def input_is_empty_def result_iff state_codec.reads [OF assms] split: if_splits)
  then show ?thesis using at_whole [of payload "state_bytes st"] by auto
qed

end
