(* ===== verification/Snapshot_Sound.thy ===== *)
theory Snapshot_Sound
  imports Snapshot_Codec
begin

text \<open>
  Whole snapshots of \<^verbatim>\<open>crates/hft-recovery/src/lib.rs\<close>: the layout of the header, when \<open>decode_snapshot\<close>
  accepts, and the round trips with \<open>encode_snapshot\<close>.
\<close>

section \<open>The header\<close>

definition snapshot_header :: "u64 \<Rightarrow> u64 \<Rightarrow> u32 \<Rightarrow> u32 \<Rightarrow> u32 \<Rightarrow> u32 \<Rightarrow> u8 list \<Rightarrow> u8 list" where
  "snapshot_header payload_len applied a n l k digest =
     SNAPSHOT_MAGIC @ to_be_bytes SNAPSHOT_FORMAT_VERSION @ to_be_bytes (96 :: u16) @ replicate 4 0 @
     to_be_bytes HASH_ALGORITHM_SHA256 @ to_be_bytes (32 :: u16) @ to_be_bytes payload_len @ to_be_bytes applied @
     to_be_bytes a @ to_be_bytes n @ to_be_bytes l @ to_be_bytes k @ digest @ replicate 12 0"

lemmas snapshot_consts = HEADER_SIZE_def DIGEST_OFFSET_def DIGEST_SIZE_def

lemma length_magic [simp]: "length SNAPSHOT_MAGIC = 8"
  by (simp add: SNAPSHOT_MAGIC_def)

lemma length_snapshot_header [simp]: "length digest = 32 \<Longrightarrow> length (snapshot_header p s a n l k digest) = 96"
  by (simp add: snapshot_header_def)

lemma be_bytes_zero: "be_bytes n 0 = replicate n 0"
  by (induction n) (simp_all add: replicate_append_same)

lemma write_zeros:
  "i + length ys \<le> k \<Longrightarrow> write_at i ys (replicate k z) = replicate i z @ ys @ replicate (k - i - length ys) z"
  by (simp add: write_at_def min_def)

lemma write_digest:
  assumes "length d = 32" "length d' = 32"
  shows "write_at 52 d' (snapshot_header p s a n l k d) = snapshot_header p s a n l k d'"
  using assms by (simp add: snapshot_header_def write_at_append) (simp add: write_at_def)

lemma digest_header:
  "length d = 32 \<Longrightarrow> snapshot_digest sha256 (snapshot_header p s a n l k d) payload =
     sha256 (DOMAIN @ snapshot_header p s a n l k (replicate 32 0) @ payload)"
  by (simp add: snapshot_digest_def snapshot_consts write_digest)

lemma header_slices:
  assumes "length d = 32"
  shows "slice 0 8 (snapshot_header p s a n l k d) = SNAPSHOT_MAGIC"
    "from_be_bytes (slice 8 10 (snapshot_header p s a n l k d)) = SNAPSHOT_FORMAT_VERSION"
    "from_be_bytes (slice 10 12 (snapshot_header p s a n l k d)) = (96 :: u16)"
    "slice 12 16 (snapshot_header p s a n l k d) = replicate 4 0"
    "from_be_bytes (slice 16 18 (snapshot_header p s a n l k d)) = HASH_ALGORITHM_SHA256"
    "from_be_bytes (slice 18 20 (snapshot_header p s a n l k d)) = (32 :: u16)"
    "from_be_bytes (slice 20 28 (snapshot_header p s a n l k d)) = p"
    "from_be_bytes (slice 28 36 (snapshot_header p s a n l k d)) = s"
    "from_be_bytes (slice 36 40 (snapshot_header p s a n l k d)) = a"
    "from_be_bytes (slice 40 44 (snapshot_header p s a n l k d)) = n"
    "from_be_bytes (slice 44 48 (snapshot_header p s a n l k d)) = l"
    "from_be_bytes (slice 48 52 (snapshot_header p s a n l k d)) = k"
    "slice 52 84 (snapshot_header p s a n l k d) = d"
    "slice 84 96 (snapshot_header p s a n l k d) = replicate 12 0"
  using assms by (simp_all add: snapshot_header_def slice_append slice_prefix slice_whole)

lemma header_of_slices:
  fixes b :: "u8 list"
  assumes len: "length b = 96" and m: "slice 0 8 b = SNAPSHOT_MAGIC"
    and v: "from_be_bytes (slice 8 10 b) = SNAPSHOT_FORMAT_VERSION" and h: "from_be_bytes (slice 10 12 b) = (96 :: u16)"
    and f: "from_be_bytes (slice 12 16 b) = (0 :: u32)" and hs: "from_be_bytes (slice 16 18 b) = HASH_ALGORITHM_SHA256"
    and d: "from_be_bytes (slice 18 20 b) = (32 :: u16)" and z: "slice 84 96 b = replicate 12 0"
  shows "b = snapshot_header (from_be_bytes (slice 20 28 b)) (from_be_bytes (slice 28 36 b)) (from_be_bytes (slice 36 40 b))
    (from_be_bytes (slice 40 44 b)) (from_be_bytes (slice 44 48 b)) (from_be_bytes (slice 48 52 b)) (slice 52 84 b)"
proof -
  have r: "to_be_bytes SNAPSHOT_FORMAT_VERSION = slice 8 10 b" "to_be_bytes (96 :: u16) = slice 10 12 b"
    "to_be_bytes HASH_ALGORITHM_SHA256 = slice 16 18 b" "to_be_bytes (32 :: u16) = slice 18 20 b"
    by (rule to_be_from_be_slice(3) [of 10 8 b, unfolded v] to_be_from_be_slice(3) [of 12 10 b, unfolded h]
        to_be_from_be_slice(3) [of 18 16 b, unfolded hs] to_be_from_be_slice(3) [of 20 18 b, unfolded d]; simp add: len)+
  have "slice 12 16 b = to_be_bytes (0 :: u32)"
    by (rule to_be_from_be_slice(2) [of 16 12 b, unfolded f, symmetric]) (simp_all add: len)
  also have "\<dots> = replicate 4 0" by (simp add: to_be_bytes_def be_bytes_zero)
  finally have z4: "slice 12 16 b = replicate 4 0" .
  have "b = slice 0 8 b @ slice 8 10 b @ slice 10 12 b @ slice 12 16 b @ slice 16 18 b @ slice 18 20 b @ slice 20 28 b @
      slice 28 36 b @ slice 36 40 b @ slice 40 44 b @ slice 44 48 b @ slice 48 52 b @ slice 52 84 b @ slice 84 96 b"
    using len by (simp add: slice_join slice_whole)
  then show ?thesis using len unfolding snapshot_header_def r z4 [symmetric] z [symmetric] m [symmetric] by simp
qed

section \<open>Encoding\<close>

lemma encode_snapshot_layout:
  assumes "gateway_export_state L K gw = Some st" "state_form A N L K st" "length (state_bytes st) < 2 ^ 64"
    "checked_add applied 1 = Some (gs_expected_sequence st)" "A < 2 ^ 32" "N < 2 ^ 32" "L < 2 ^ 32" "K < 2 ^ 32"
    "d = sha256 (DOMAIN @ snapshot_header (of_nat (length (state_bytes st))) applied (of_nat A) (of_nat N) (of_nat L) (of_nat K)
           (replicate 32 0) @ state_bytes st)" "length d = 32"
  shows "encode_snapshot sha256 A N L K gw applied = Some (Inr
    \<lparr>sn_bytes = snapshot_header (of_nat (length (state_bytes st))) applied (of_nat A) (of_nat N) (of_nat L) (of_nat K) d @ state_bytes st,
     sn_digest = d, sn_applied_sequence = applied\<rparr>)"
proof -
  have h: "write_at 48 (to_be_bytes k) (write_at 44 (to_be_bytes l) (write_at 40 (to_be_bytes n) (write_at 36 (to_be_bytes a)
      (write_at 28 (to_be_bytes s) (write_at 20 (to_be_bytes p) (write_at 18 (to_be_bytes (32 :: u16))
      (write_at 16 (to_be_bytes HASH_ALGORITHM_SHA256) (write_at 10 (to_be_bytes (96 :: u16))
      (write_at 8 (to_be_bytes SNAPSHOT_FORMAT_VERSION) (write_at 0 SNAPSHOT_MAGIC (replicate 96 0)))))))))))
     = snapshot_header p s a n l k (replicate 32 0)" for p s a n l k
    by (simp add: write_at_append write_zeros snapshot_header_def flip: replicate_add)
  show ?thesis
    using assms(4-8) encode_state_ok [OF assms(2)] assms(3)
    by (simp add: encode_snapshot_def assms(1) snapshot_capacity_def u32_try_from_def Let_def snapshot_consts h
        digest_header assms(9) [symmetric] write_digest assms(10))
qed

section \<open>Decoding\<close>

text \<open>The bytes of a snapshot of a state; \<open>digest\<close> is what the hash gives for it.\<close>

definition state_digest :: "hash_function \<Rightarrow> nat \<Rightarrow> nat \<Rightarrow> nat \<Rightarrow> nat \<Rightarrow> u64 \<Rightarrow> gateway_state \<Rightarrow> u8 list" where
  "state_digest sha256 A N L K applied st =
     sha256 (DOMAIN @ snapshot_header (of_nat (length (state_bytes st))) applied (of_nat A) (of_nat N) (of_nat L) (of_nat K)
       (replicate 32 0) @ state_bytes st)"

definition snapshot_bytes :: "hash_function \<Rightarrow> nat \<Rightarrow> nat \<Rightarrow> nat \<Rightarrow> nat \<Rightarrow> u64 \<Rightarrow> gateway_state \<Rightarrow> u8 list" where
  "snapshot_bytes sha256 A N L K applied st =
     snapshot_header (of_nat (length (state_bytes st))) applied (of_nat A) (of_nat N) (of_nat L) (of_nat K)
       (state_digest sha256 A N L K applied st) @ state_bytes st"

text \<open>What the format can hold: the capacities fit their fields, the payload its length field.\<close>

definition snapshot_fits :: "nat \<Rightarrow> nat \<Rightarrow> nat \<Rightarrow> nat \<Rightarrow> gateway_state \<Rightarrow> bool" where
  "snapshot_fits A N L K st \<longleftrightarrow> state_form A N L K st \<and> HEADER_SIZE + length (state_bytes st) < 2 ^ 64 \<and>
     A < 2 ^ 32 \<and> N < 2 ^ 32 \<and> L < 2 ^ 32 \<and> K < 2 ^ 32"

lemma encode_fitting:
  assumes "gateway_export_state L K gw = Some st" "snapshot_fits A N L K st"
    "checked_add applied 1 = Some (gs_expected_sequence st)" "length (state_digest sha256 A N L K applied st) = 32"
  shows "encode_snapshot sha256 A N L K gw applied = Some (Inr
    \<lparr>sn_bytes = snapshot_bytes sha256 A N L K applied st, sn_digest = state_digest sha256 A N L K applied st,
     sn_applied_sequence = applied\<rparr>)"
  using encode_snapshot_layout [OF assms(1) _ _ assms(3) _ _ _ _ _ assms(4), of A N] assms(2)
  by (simp add: snapshot_fits_def state_digest_def snapshot_bytes_def)

lemma decode_fitting:
  assumes fit: "snapshot_fits A N L K st" and sq: "checked_add applied 1 = Some (gs_expected_sequence st)"
    and len: "length (state_digest sha256 A N L K applied st) = 32"
  shows "decode_snapshot sha256 A N L K (snapshot_bytes sha256 A N L K applied st) =
    rbind (map_option (map_err SnGatewayState) (gateway_from_state A N L K st)) (\<lambda>gw.
      Some (Inr \<lparr>ds_gateway = gw, ds_applied_sequence = applied, ds_digest = state_digest sha256 A N L K applied st\<rparr>))"
proof -
  let ?d = "state_digest sha256 A N L K applied st" and ?w = "state_bytes st"
  let ?h = "snapshot_header (of_nat (length ?w)) applied (of_nat A) (of_nat N) (of_nat L) (of_nat K) ?d"
  have b: "snapshot_bytes sha256 A N L K applied st = ?h @ ?w" "length ?h = 96" using len by (simp_all add: snapshot_bytes_def)
  then have hd: "slice 0 96 (?h @ ?w) = ?h" "drop 96 (?h @ ?w) = ?w" by (simp_all add: slice_prefix)
  have w: "length ?w < 2 ^ 64" "96 + length ?w < 2 ^ 64" using fit by (auto simp: snapshot_fits_def snapshot_consts)
  then have pl: "unat (of_nat (length ?w) :: u64) = length ?w" "usize_checked_add 96 (length ?w) = Some (96 + length ?w)"
    by (simp_all add: unat_of_nat usize_checked_add_def NIL_def)
  have st: "decode_gateway_state A N L K ?w = Inr st" using fit decode_state_iff [OF w(1)] by (simp add: snapshot_fits_def)
  have z: "from_be_bytes (replicate 4 0) = (0 :: u32)"
    using from_to_be_bytes_widths(2) [of 0] by (simp add: to_be_bytes_def be_bytes_zero)
  have dg: "snapshot_digest sha256 ?h ?w = ?d" using digest_header [OF len] by (simp add: state_digest_def)
  show ?thesis
    unfolding decode_snapshot_def b(1) snapshot_consts hd Let_def header_slices [OF len] dg z
    using fit b(2) pl st sq
    by (simp add: header_slices [OF len] snapshot_capacity_def u32_try_from_def snapshot_fits_def dg)
qed

lemma u16_eq_iff: "unat (w :: u16) = n \<Longrightarrow> w = of_nat n"
  by auto

text \<open>A result that is no error; every check on the way must have passed.\<close>

definition passes :: "('e + 'a) option \<Rightarrow> bool" where
  "passes r \<longleftrightarrow> (\<forall>e. r \<noteq> Some (Inl e))"

lemma passes_iff:
  "passes (if c then Some (Inl e) else r) \<longleftrightarrow> \<not> c \<and> passes r"
  "passes (case x of None \<Rightarrow> Some (Inl e) | Some v \<Rightarrow> f v) \<longleftrightarrow> (\<exists>v. x = Some v \<and> passes (f v))"
  "passes (rbind (Some s) g) \<longleftrightarrow> (\<exists>v. s = Inr v \<and> passes (g v))"
  by (auto simp: passes_def rbind_def split: option.splits sum.splits)

lemma decode_accepts_canonical:
  assumes acc: "passes (decode_snapshot sha256 A N L K bytes)"
  shows "\<exists>applied st. bytes = snapshot_bytes sha256 A N L K applied st \<and> snapshot_fits A N L K st \<and>
    checked_add applied 1 = Some (gs_expected_sequence st) \<and> length (state_digest sha256 A N L K applied st) = 32"
proof -
  let ?h = "slice 0 96 bytes" and ?w = "drop 96 bytes"
  let ?plen = "from_be_bytes (slice 20 28 ?h) :: u64" and ?s = "from_be_bytes (slice 28 36 ?h) :: u64" and ?d = "slice 52 84 ?h"
  obtain all_bytes a n l k st following where
    len: "96 \<le> length bytes" and c: "slice 0 8 ?h = SNAPSHOT_MAGIC" "from_be_bytes (slice 8 10 ?h) = SNAPSHOT_FORMAT_VERSION"
      "unat (from_be_bytes (slice 10 12 ?h) :: u16) = 96" "from_be_bytes (slice 12 16 ?h) = (0 :: u32)"
      "from_be_bytes (slice 16 18 ?h) = HASH_ALGORITHM_SHA256" "unat (from_be_bytes (slice 18 20 ?h) :: u16) = 32"
    and p: "usize_checked_add 96 (unat ?plen) = Some all_bytes" "length bytes = all_bytes"
    and cap: "snapshot_capacity A = Inr a" "from_be_bytes (slice 36 40 ?h) = a" "snapshot_capacity N = Inr n" "from_be_bytes (slice 40 44 ?h) = n"
      "snapshot_capacity L = Inr l" "from_be_bytes (slice 44 48 ?h) = l" "snapshot_capacity K = Inr k" "from_be_bytes (slice 48 52 ?h) = k"
    and z: "\<forall>byte \<in> set (slice 84 96 ?h). byte = 0" and dg: "snapshot_digest sha256 ?h ?w = ?d"
    and st: "decode_gateway_state A N L K ?w = Inr st" "checked_add ?s 1 = Some following" "gs_expected_sequence st = following"
    using acc unfolding decode_snapshot_def Let_def passes_iff snapshot_consts
    by (simp add: not_less ok_or_Inr) (metis le_antisym)
  have lh: "length ?h = 96" and split: "bytes = ?h @ ?w" using len by (simp_all add: slice_def)
  then have ld: "length ?d = 32" by simp
  have pl: "length ?w = unat ?plen" "96 + length ?w < 2 ^ 64" using p by (auto simp: usize_checked_add_def NIL_def split: if_splits)
  have w: "state_form A N L K st" "?w = state_bytes st" using st(1) decode_state_iff [of ?w] pl(2) by auto
  have caps: "A < 2 ^ 32" "N < 2 ^ 32" "L < 2 ^ 32" "K < 2 ^ 32" "a = of_nat A" "n = of_nat N" "l = of_nat L" "k = of_nat K"
    using cap(1,3,5,7) by (auto simp: snapshot_capacity_def u32_try_from_def result_iff split: if_splits)
  have "slice 84 96 ?h = replicate 12 0" by (rule replicate_eqI) (use z lh in simp_all)
  then have "?h = snapshot_header ?plen ?s a n l k ?d"
    using header_of_slices [OF lh c(1,2) _ c(4,5)] u16_eq_iff [OF c(3)] u16_eq_iff [OF c(6)] cap by simp
  then have h: "?h = snapshot_header (of_nat (length (state_bytes st))) ?s (of_nat A) (of_nat N) (of_nat L) (of_nat K) ?d"
    using pl(1) caps(5-8) by (simp flip: w(2))
  have d: "state_digest sha256 A N L K ?s st = ?d"
    using digest_header [OF ld, of sha256 "of_nat (length (state_bytes st))" ?s "of_nat A" "of_nat N" "of_nat L" "of_nat K" ?w]
      h dg w(2) by (simp add: state_digest_def)
  have "bytes = snapshot_bytes sha256 A N L K ?s st" using split h d w(2) by (simp add: snapshot_bytes_def)
  moreover have "snapshot_fits A N L K st" using w pl(2) caps(1-4) by (simp add: snapshot_fits_def snapshot_consts)
  moreover have "checked_add ?s 1 = Some (gs_expected_sequence st)" "length (state_digest sha256 A N L K ?s st) = 32"
    using st(2,3) d ld by simp_all
  ultimately show ?thesis by blast
qed

section \<open>Exported states fit the format\<close>

lemma level_form_state: "length (snd g) \<le> K \<Longrightarrow> K < 2 ^ 32 \<Longrightarrow> level_form K (level_state K side g)"
  by (simp add: level_form_def level_state_def live_orders_def)

lemma length_level_bytes: "level_form K lv \<Longrightarrow> length (level_bytes lv) \<le> 13 + 37 * K"
proof -
  have "length (concat (map encode_order os)) = 37 * length os" for os
    by (induction os) (simp_all add: encode_order_def)
  then show "level_form K lv \<Longrightarrow> ?thesis" by (simp add: level_form_def level_bytes_def)
qed

lemma length_concat_bound: "(\<And>x. x \<in> set xs \<Longrightarrow> length (f x) \<le> c) \<Longrightarrow> length (concat (map f xs)) \<le> c * length xs"
  by (induction xs) (auto simp: add_mono)

lemma book_small:
  assumes "gateway_dims A N L K"
  shows "L \<le> L * K" "L * K \<le> 2 ^ 30"
  using assms by (simp_all add: gateway_dims_def dims_ok_def index_fits_def index_capacity_def ORDER_INDEX_PLANES_def mult.commute)

lemma state_bytes_bound:
  assumes f: "state_form A N L K st" and dims: "gateway_dims A N L K"
  shows "96 + length (state_bytes st) < 2 ^ 64"
proof -
  let ?b = "gs_book st" and ?r = "gs_risk st"
  have levels: "length (concat (map level_bytes (take c lvs))) \<le> (13 + 37 * K) * L" if "side_form L K c lvs" for c lvs
  proof -
    have "length (concat (map level_bytes (take c lvs))) \<le> (13 + 37 * K) * length (take c lvs)"
      by (rule length_concat_bound) (use that length_level_bytes in \<open>auto simp: side_form_def list_all_iff\<close>)
    also have "\<dots> \<le> (13 + 37 * K) * L" using that by (intro mult_le_mono2) (simp add: side_form_def)
    finally show ?thesis .
  qed
  have "length (concat (map encode_account (es_accounts ?r))) \<le> 109 * length (es_accounts ?r)"
    "length (concat (map encode_reservation (es_reservations ?r))) \<le> 21 * length (es_reservations ?r)"
    by (rule length_concat_bound; simp add: encode_account_def encode_reservation_def)+
  moreover have "length (es_accounts ?r) \<le> A" "length (es_reservations ?r) \<le> N"
    "length (concat (map level_bytes (take (bs_bid_level_count ?b) (bs_bids ?b)))) \<le> (13 + 37 * K) * L"
    "length (concat (map level_bytes (take (bs_ask_level_count ?b) (bs_asks ?b)))) \<le> (13 + 37 * K) * L"
    using f levels by (simp_all add: state_form_def)
  moreover have "(13 + 37 * K) * L \<le> 50 * 2 ^ 32"
  proof -
    have "(13 + 37 * K) * L = 13 * L + 37 * (L * K)" by (simp add: algebra_simps)
    moreover have "13 * l + 37 * m \<le> 50 * 2 ^ 32" if "l \<le> m" "m \<le> 2 ^ 30" for l m :: nat using that by simp
    ultimately show ?thesis using book_small [OF dims] by metis
  qed
  moreover have "2 * A \<le> 2 ^ 32" "2 * N \<le> 2 ^ 32" using dims by (simp_all add: gateway_dims_def risk_dims_def)
  moreover have "length (encode_optional_order v) = 9" for v by (simp add: encode_optional_order_def)
  ultimately show ?thesis by (simp add: state_bytes_def)
qed

lemma exported_fits:
  assumes inv: "gw_inv A N L K gw" and dims: "gateway_dims A N L K" and k: "K < 2 ^ 32"
    and ex: "gateway_export_state L K gw = Some st"
  shows "snapshot_fits A N L K st"
proof -
  note I = gw_invD [OF inv]
  let ?sb = "abs_book (gw_book gw)"
  have st: "st = \<lparr>gs_instrument = ob_instrument (gw_book gw), gs_book = spec_state L K (ob_instrument (gw_book gw)) ?sb,
      gs_risk = risk_export_state (gw_risk gw), gs_expected_sequence = gw_expected_sequence gw, gs_maximum_received = gw_maximum_received gw\<rparr>"
    using ex gateway_export_spec [OF inv] by simp
  have ac: "2 * A \<le> 2 ^ 32" "2 * N \<le> 2 ^ 32" using dims by (simp_all add: gateway_dims_def risk_dims_def)
  have l: "L < 2 ^ 32" using le_trans [OF book_small [OF dims]] by simp
  have fit: "fits L K ?sb" using inv_fits I(1) by (simp add: book_inv_def)
  have "side_form L K (length (groups (?sb side))) (side_state L K side (groups (?sb side)))" for side
    using spec_groups_ok(2) [OF I(3) fit, of _ side] spec_groups_ok(3) [OF I(3) fit, of side] l k
    by (auto simp: side_form_def side_state_def list_all_iff group_ok_def intro!: level_form_state)
  from this [of Buy] this [of Sell] have "state_form A N L K st"
    using export_state_parts(3,4) [OF I(2)] ac by (simp add: st state_form_def spec_state_def)
  then show ?thesis using state_bytes_bound [OF _ dims] l k ac by (simp add: snapshot_fits_def snapshot_consts)
qed

text \<open>A state in form has arrays of the right lengths.\<close>

lemma form_dims: "state_form A N L K st \<Longrightarrow> state_dims L K (gs_book st)"
proof -
  have lv: "length (bl_orders lv) = K" if "level_form K lv" for lv
    using that by (metis level_form_def le_add_diff_inverse length_append length_replicate)
  have "length lvs = L \<and> (\<forall>lv \<in> set lvs. length (bl_orders lv) = K)" if f: "side_form L K c lvs" for c lvs
  proof -
    have e: "lvs = take c lvs @ replicate (L - c) (empty_book_level_state K)" "c \<le> L" "length (take c lvs) = c"
      "\<forall>lv \<in> set (take c lvs). level_form K lv"
      using f by (auto simp: side_form_def list_all_iff)
    have "length lvs = L" using arg_cong [OF e(1), of length] e(2,3) by simp
    moreover have "set lvs \<subseteq> set (take c lvs) \<union> {empty_book_level_state K}"
      using arg_cong [OF e(1), of set] by (auto dest: in_set_takeD split: if_splits)
    ultimately show ?thesis using e(4) lv by (auto simp: empty_book_level_state_def)
  qed
  then show "state_form A N L K st \<Longrightarrow> ?thesis" by (auto simp: state_form_def state_dims_def)
qed

text \<open>Restoring a state in form never panics, and a restored gateway exports the state it came from.\<close>

lemma restore_exports:
  assumes f: "state_form A N L K st" and dims: "gateway_dims A N L K"
  shows "gateway_from_state A N L K st \<noteq> None"
    "gateway_from_state A N L K st = Some (Inr gw) \<Longrightarrow> gateway_export_state L K gw = Some st"
proof -
  have d: "dims_ok L K" "risk_dims A N" using dims by (simp_all add: gateway_dims_def)
  note B = from_state_cases [OF d(1) form_dims [OF f], of "gs_instrument st"] and R = restore_sound [OF d(2), of "gs_risk st"]
  show "gateway_from_state A N L K st \<noteq> None"
    using B R(1) by (auto simp: gateway_from_state_def rbind_def map_err_def split: sum.splits)
  assume "gateway_from_state A N L K st = Some (Inr gw)"
  then obtain book risk where p: "book_from_state L K (gs_instrument st) (gs_book st) = Some (Inr book)"
      "risk_from_state A N (gs_risk st) = Some (Inr risk)"
      "gw = \<lparr>gw_risk = risk, gw_book = book, gw_expected_sequence = gs_expected_sequence st, gw_maximum_received = gs_maximum_received st\<rparr>"
    by (auto simp: gateway_from_state_def rbind_def map_err_def split: sum.splits option.splits)
  have "book_export_state L K book = Some (gs_book st)" "risk_export_state risk = gs_risk st" "bs_instrument (gs_book st) = gs_instrument st"
    using B p(1) R(2) [OF p(2)] f by (auto simp: state_form_def)
  then show "gateway_export_state L K gw = Some st" by (simp add: gateway_export_state_def p(3))
qed

lemma snapshot_of_gateway:
  assumes inv: "gw_inv A N L K gw" and sq: "in_sequence gw" and lim: "limited A (gw_risk gw)" and dims: "gateway_dims A N L K" "K < 2 ^ 32"
    and sha: "\<forall>x. length (sha256 x) = 32" and applied: "checked_add applied 1 = Some (gw_expected_sequence gw)"
  shows "\<exists>sn. encode_snapshot sha256 A N L K gw applied = Some (Inr sn) \<and>
    (if orders_within A gw
     then \<exists>gw'. decode_snapshot sha256 A N L K (sn_bytes sn) =
           Some (Inr \<lparr>ds_gateway = gw', ds_applied_sequence = applied, ds_digest = sn_digest sn\<rparr>) \<and>
         gw_inv A N L K gw' \<and> same_gateway A N gw gw' \<and> encode_snapshot sha256 A N L K gw' applied = Some (Inr sn)
     else decode_snapshot sha256 A N L K (sn_bytes sn) = Some (Inl (SnGatewayState GsOrderLimit)))"
proof -
  obtain st where ex: "gateway_export_state L K gw = Some st" and rs: "if orders_within A gw
     then \<exists>gw'. gateway_from_state A N L K st = Some (Inr gw') \<and> gw_inv A N L K gw' \<and> same_gateway A N gw gw' \<and>
       gateway_export_state L K gw' = Some st
     else gateway_from_state A N L K st = Some (Inl GsOrderLimit)"
    using restore_gateway [OF inv sq lim dims(1)] by blast
  note fit = exported_fits [OF inv dims ex]
  have ap: "checked_add applied 1 = Some (gs_expected_sequence st)" using applied ex gateway_export_spec [OF inv] by auto
  have len: "length (state_digest sha256 A N L K applied st) = 32" using sha by (simp add: state_digest_def)
  let ?sn = "\<lparr>sn_bytes = snapshot_bytes sha256 A N L K applied st, sn_digest = state_digest sha256 A N L K applied st,
     sn_applied_sequence = applied\<rparr>"
  have enc: "encode_snapshot sha256 A N L K g applied = Some (Inr ?sn)" if "gateway_export_state L K g = Some st" for g
    by (rule encode_fitting [OF that fit ap len])
  have "if orders_within A gw
     then \<exists>gw'. decode_snapshot sha256 A N L K (sn_bytes ?sn) =
           Some (Inr \<lparr>ds_gateway = gw', ds_applied_sequence = applied, ds_digest = sn_digest ?sn\<rparr>) \<and>
         gw_inv A N L K gw' \<and> same_gateway A N gw gw' \<and> encode_snapshot sha256 A N L K gw' applied = Some (Inr ?sn)
     else decode_snapshot sha256 A N L K (sn_bytes ?sn) = Some (Inl (SnGatewayState GsOrderLimit))"
    using rs decode_fitting [OF fit ap len] enc by (auto split: if_splits)
  then show ?thesis using enc [OF ex] by blast
qed

section \<open>Properties\<close>

text \<open>
  C7. A snapshot restores: for every reachable gateway and the journal cut just before its next
  sequence, \<open>encode_snapshot\<close> succeeds and \<open>decode_snapshot\<close> accepts the bytes, except that a gateway with a
  resting order outside its account's limits is refused with \<open>OrderLimit\<close>. The decoded gateway satisfies
  the whole invariant, has the same logical state, and encodes to the same snapshot.
\<close>

theorem snapshot_round_trip:
  assumes "gateway_reachable A N L K ins gw" "gateway_dims A N L K" "K < 2 ^ 32"
    and "\<forall>x. length (sha256 x) = 32" "checked_add applied 1 = Some (gw_expected_sequence gw)"
  shows "\<exists>sn. encode_snapshot sha256 A N L K gw applied = Some (Inr sn) \<and>
    (if orders_within A gw
     then \<exists>gw'. decode_snapshot sha256 A N L K (sn_bytes sn) =
           Some (Inr \<lparr>ds_gateway = gw', ds_applied_sequence = applied, ds_digest = sn_digest sn\<rparr>) \<and>
         gw_inv A N L K gw' \<and> same_gateway A N gw gw' \<and> encode_snapshot sha256 A N L K gw' applied = Some (Inr sn)
     else decode_snapshot sha256 A N L K (sn_bytes sn) = Some (Inl (SnGatewayState GsOrderLimit)))"
  using snapshot_of_gateway [OF _ reachable_in_sequence _ assms(2-5)] reachable_gateway_inv [OF assms(1,2)]
    reachable_limited [OF reachable_gateway_risk] assms(1,2) by (simp add: gateway_dims_def)

lemma demo_snapshot_parts:
  "orders_within 1 demo_gateway" "checked_add 0 1 = Some (gw_expected_sequence demo_gateway)"
proof -
  have "abs_book (gw_book demo_gateway) = (\<lambda>side. [])"
    using book_new_inv [of 1 1 7] demo_dims by (simp add: demo_gateway_def gateway_new_def dims_ok_def)
  then show "orders_within 1 demo_gateway" by (simp add: orders_within_def)
  show "checked_add 0 1 = Some (gw_expected_sequence demo_gateway)"
    by (simp add: demo_gateway_def gateway_new_def checked_add_def)
qed

theorem snapshot_round_trip_witness:
  "\<exists>sn gw'. encode_snapshot (\<lambda>_. replicate 32 7) 1 2 1 1 demo_gateway 0 = Some (Inr sn) \<and>
     decode_snapshot (\<lambda>_. replicate 32 7) 1 2 1 1 (sn_bytes sn) =
       Some (Inr \<lparr>ds_gateway = gw', ds_applied_sequence = 0, ds_digest = sn_digest sn\<rparr>) \<and> same_gateway 1 2 demo_gateway gw'"
  using snapshot_round_trip [OF demo_gateway_reachable demo_gateway_dims _ _ demo_snapshot_parts(2), of "\<lambda>_. replicate 32 7"]
    demo_snapshot_parts(1) by auto

text \<open>
  C8. Whatever bytes it is given, \<open>decode_snapshot\<close> returns without a panic, and the snapshots it accepts
  are canonical: encoding the decoded gateway at the decoded sequence gives back exactly the input
  bytes and the stored digest, so no two accepted inputs stand for the same state.
\<close>

theorem decode_snapshot_canonical:
  assumes "gateway_dims A N L K"
  shows "\<exists>r. decode_snapshot sha256 A N L K bytes = Some r \<and>
    (\<forall>d. r = Inr d \<longrightarrow> encode_snapshot sha256 A N L K (ds_gateway d) (ds_applied_sequence d) =
       Some (Inr \<lparr>sn_bytes = bytes, sn_digest = ds_digest d, sn_applied_sequence = ds_applied_sequence d\<rparr>))"
proof (cases "passes (decode_snapshot sha256 A N L K bytes)")
  case False
  then show ?thesis by (auto simp: passes_def)
next
  case True
  then obtain applied st where b: "bytes = snapshot_bytes sha256 A N L K applied st" and fit: "snapshot_fits A N L K st"
    and ap: "checked_add applied 1 = Some (gs_expected_sequence st)" and len: "length (state_digest sha256 A N L K applied st) = 32"
    using decode_accepts_canonical by blast
  have f: "state_form A N L K st" using fit by (simp add: snapshot_fits_def)
  obtain r where r: "gateway_from_state A N L K st = Some r" using restore_exports(1) [OF f assms] by blast
  show ?thesis
    using decode_fitting [OF fit ap len] r restore_exports(2) [OF f assms] encode_fitting [OF _ fit ap len]
    by (cases r) (auto simp: b)
qed

theorem decode_snapshot_canonical_witness:
  "\<exists>sn gw' d. encode_snapshot (\<lambda>_. replicate 32 7) 1 2 1 1 demo_gateway 0 = Some (Inr sn) \<and>
     decode_snapshot (\<lambda>_. replicate 32 7) 1 2 1 1 (sn_bytes sn) = Some (Inr d) \<and>
     encode_snapshot (\<lambda>_. replicate 32 7) 1 2 1 1 (ds_gateway d) (ds_applied_sequence d) =
       Some (Inr \<lparr>sn_bytes = sn_bytes sn, sn_digest = ds_digest d, sn_applied_sequence = ds_applied_sequence d\<rparr>)"
proof -
  have inv: "gw_inv 1 2 1 1 demo_gateway" "in_sequence demo_gateway" "limited 1 (gw_risk demo_gateway)"
    using reachable_gateway_inv [OF demo_gateway_reachable demo_gateway_dims] reachable_in_sequence [OF demo_gateway_reachable demo_gateway_dims]
      reachable_limited [OF reachable_gateway_risk [OF demo_gateway_reachable demo_gateway_dims]] demo_risk_dims by simp_all
  obtain sn d where "encode_snapshot (\<lambda>_. replicate 32 7) 1 2 1 1 demo_gateway 0 = Some (Inr sn)"
      "decode_snapshot (\<lambda>_. replicate 32 7) 1 2 1 1 (sn_bytes sn) = Some (Inr d)"
    using snapshot_of_gateway [OF inv demo_gateway_dims _ _ demo_snapshot_parts(2), of "\<lambda>_. replicate 32 7"]
      demo_snapshot_parts(1) by auto
  then show ?thesis
    using decode_snapshot_canonical [OF demo_gateway_dims, of "\<lambda>_. replicate 32 7" "sn_bytes sn"] by auto
qed

end
