(* ===== verification/Journal.thy ===== *)
theory Journal
  imports Wire Spsc
begin

text \<open>
  The durable command journal of \<^verbatim>\<open>crates/hft-journal/src/lib.rs\<close>: the 64-byte record format, the
  writer and the reader at the two ends of a ring, the persistence worker that moves records from
  the ring to a sink in batches, and the recovery scan of a file.

  The CRC32C crate is the parameter \<open>crc\<close>, about which nothing is assumed. A sink and a source of
  bytes are given by their operations (the traits \<open>DurableSink\<close> and \<open>Read\<close>); \<open>disk_file\<close> below is the
  standard library's \<open>File\<close> as an instance of both. The status words that writer, reader and worker
  share are one value threaded through the calls, absent for handles made without a channel. A loop
  that need not end (a sink may answer \<open>Interrupted\<close> forever) is a partial function, \<open>None\<close> if it
  does not return.
\<close>

section \<open>Records\<close>

definition MAX_PAYLOAD :: nat where "MAX_PAYLOAD = 46"
definition RECORD_SIZE :: nat where "RECORD_SIZE = 64"
definition RING_CAPACITY :: nat where "RING_CAPACITY = 1024"
definition FORMAT_VERSION :: u8 where "FORMAT_VERSION = 1"
definition MAGIC :: u16 where "MAGIC = 0x4a52"
definition CHECKSUM_OFFSET :: nat where "CHECKSUM_OFFSET = 14"
definition PAYLOAD_OFFSET :: nat where "PAYLOAD_OFFSET = 18"

lemmas journal_consts = MAX_PAYLOAD_def RECORD_SIZE_def CHECKSUM_OFFSET_def PAYLOAD_OFFSET_def

datatype journal_error = Saturated | SequenceOverflow | PayloadTooLarge nat

record journal_record =
  jr_sequence :: sequence_number
  jr_checksum :: u32
  jr_len :: u16
  jr_magic :: u16
  jr_payload :: "u8 list"
  jr_version :: u8
  jr_flags :: u8

datatype decode_error =
    Malformed
  | BadMagic u16
  | UnsupportedVersion u8
  | UnsupportedFlags u8
  | PayloadLength u16
  | DecodeChecksumMismatch sequence_number

type_synonym crc32c = "u8 list \<Rightarrow> u32"

definition u16_try_from :: "nat \<Rightarrow> u16 option" where
  "u16_try_from n = (if n < 2 ^ 16 then Some (of_nat n) else None)"

definition bytes_without_checksum :: "journal_record \<Rightarrow> u8 list" where
  "bytes_without_checksum r =
     (let bytes = replicate RECORD_SIZE 0;
          bytes = write_at 0 (to_be_bytes (jr_magic r)) bytes;
          bytes = bytes[2 := jr_version r];
          bytes = bytes[3 := jr_flags r];
          bytes = write_at 4 (to_be_bytes (jr_sequence r)) bytes;
          bytes = write_at 12 (to_be_bytes (jr_len r)) bytes;
          bytes = write_at PAYLOAD_OFFSET (jr_payload r) bytes
      in bytes)"

definition record_checksum :: "crc32c \<Rightarrow> u8 list \<Rightarrow> u32" where
  "record_checksum crc bytes = crc bytes"

definition journal_record_new :: "crc32c \<Rightarrow> sequence_number \<Rightarrow> u8 list \<Rightarrow> journal_error + journal_record" where
  "journal_record_new crc sequence payload =
     (if length payload > MAX_PAYLOAD then Inl (PayloadTooLarge (length payload))
      else
        let stored = write_at 0 payload (replicate MAX_PAYLOAD 0) in
        case u16_try_from (length payload) of
          None \<Rightarrow> Inl (PayloadTooLarge (length payload))
        | Some len \<Rightarrow>
            let r = \<lparr>jr_sequence = sequence, jr_checksum = 0, jr_len = len, jr_magic = MAGIC, jr_payload = stored,
                     jr_version = FORMAT_VERSION, jr_flags = 0\<rparr>
            in Inr (r\<lparr>jr_checksum := record_checksum crc (bytes_without_checksum r)\<rparr>))"

definition record_slice :: "journal_record \<Rightarrow> u8 list option" where
  "record_slice r =
     (if unat (jr_len r) \<le> length (jr_payload r) then Some (take (unat (jr_len r)) (jr_payload r)) else None)"

definition verify :: "crc32c \<Rightarrow> journal_record \<Rightarrow> bool" where
  "verify crc r \<longleftrightarrow>
     jr_magic r = MAGIC \<and> jr_version r = FORMAT_VERSION \<and> jr_flags r = 0 \<and> record_slice r \<noteq> None \<and>
     jr_checksum r = record_checksum crc (bytes_without_checksum r)"

definition encode :: "journal_record \<Rightarrow> u8 list" where
  "encode r = write_at CHECKSUM_OFFSET (to_be_bytes (jr_checksum r)) (bytes_without_checksum r)"

definition decode :: "crc32c \<Rightarrow> u8 list \<Rightarrow> decode_error + journal_record" where
  "decode crc bytes =
     (let magic = from_be_bytes [bytes ! 0, bytes ! 1] in
      if magic \<noteq> MAGIC then Inl (BadMagic magic)
      else let version = bytes ! 2 in
      if version \<noteq> FORMAT_VERSION then Inl (UnsupportedVersion version)
      else let flags = bytes ! 3 in
      if flags \<noteq> 0 then Inl (UnsupportedFlags flags)
      else let sequence = from_be_bytes (slice 4 12 bytes); len = from_be_bytes [bytes ! 12, bytes ! 13] in
      if unat len > MAX_PAYLOAD then Inl (PayloadLength len)
      else
        let checksum = from_be_bytes (slice CHECKSUM_OFFSET PAYLOAD_OFFSET bytes);
            payload = slice PAYLOAD_OFFSET RECORD_SIZE bytes;
            r = \<lparr>jr_sequence = sequence, jr_checksum = checksum, jr_len = len, jr_magic = magic,
                 jr_payload = payload, jr_version = version, jr_flags = flags\<rparr>
        in if \<not> verify crc r then Inl (DecodeChecksumMismatch sequence) else Inr r)"

section \<open>Shared status\<close>

record status_state =
  ss_next_written_sequence :: u64
  ss_next_durable_sequence :: u64
  ss_producer_closed :: bool
  ss_poisoned :: bool
  ss_shutdown_complete :: bool

definition status_state_new :: "u64 \<Rightarrow> status_state" where
  "status_state_new first_sequence =
     \<lparr>ss_next_written_sequence = first_sequence, ss_next_durable_sequence = first_sequence,
      ss_producer_closed = False, ss_poisoned = False, ss_shutdown_complete = False\<rparr>"

text \<open>The memory both handles point to: the ring, and the status of a controlled channel.\<close>

record journal_link =
  jl_ring :: "journal_record channel"
  jl_status :: "status_state option"

definition poison :: "journal_link \<Rightarrow> journal_link" where
  "poison link = link\<lparr>jl_status := map_option (\<lambda>s. s\<lparr>ss_poisoned := True\<rparr>) (jl_status link)\<rparr>"

definition publish_written :: "u64 \<Rightarrow> journal_link \<Rightarrow> journal_link" where
  "publish_written next_sequence link =
     link\<lparr>jl_status := map_option (\<lambda>s. s\<lparr>ss_next_written_sequence := next_sequence\<rparr>) (jl_status link)\<rparr>"

definition publish_durable :: "u64 \<Rightarrow> journal_link \<Rightarrow> journal_link" where
  "publish_durable next_sequence link =
     link\<lparr>jl_status := map_option (\<lambda>s. s\<lparr>ss_next_durable_sequence := next_sequence\<rparr>) (jl_status link)\<rparr>"

section \<open>Writer and reader\<close>

record journal_writer =
  jw_next_sequence :: u64

record journal_reader =
  rd_expected_sequence :: u64
  rd_poisoned :: bool
  rd_shutdown_complete :: bool

definition journal_split ::
  "journal_record spsc_queue \<Rightarrow> u64 \<Rightarrow> journal_link \<times> journal_writer \<times> journal_reader"
where
  "journal_split q first_sequence =
     (\<lparr>jl_ring = channel_of q, jl_status = Some (status_state_new first_sequence)\<rparr>,
      \<lparr>jw_next_sequence = first_sequence\<rparr>,
      \<lparr>rd_expected_sequence = first_sequence, rd_poisoned = False, rd_shutdown_complete = False\<rparr>)"

definition complete :: "journal_reader \<Rightarrow> journal_link \<Rightarrow> journal_reader \<times> journal_link" where
  "complete rd link =
     (rd\<lparr>rd_shutdown_complete := True\<rparr>,
      link\<lparr>jl_status := map_option (\<lambda>s. s\<lparr>ss_shutdown_complete := True\<rparr>) (jl_status link)\<rparr>)"

text \<open>Dropping the reader: its status guard poisons a channel that was not shut down.\<close>

definition drop_reader :: "journal_reader \<Rightarrow> journal_link \<Rightarrow> journal_link" where
  "drop_reader rd link = (if \<not> rd_shutdown_complete rd then poison link else link)"

definition close :: "journal_link \<Rightarrow> journal_link" where
  "close link = link\<lparr>jl_status := map_option (\<lambda>s. s\<lparr>ss_producer_closed := True\<rparr>) (jl_status link)\<rparr>"

definition enqueue ::
  "crc32c \<Rightarrow> journal_link \<Rightarrow> journal_writer \<Rightarrow> u8 list
     \<Rightarrow> (journal_link \<times> journal_writer \<times> (journal_error + sequence_number)) option"
where
  "enqueue crc link w payload =
     (case checked_add (jw_next_sequence w) 1 of
        None \<Rightarrow> Some (link, w, Inl SequenceOverflow)
      | Some next \<Rightarrow>
          let sequence = jw_next_sequence w in
          case journal_record_new crc sequence payload of
            Inl e \<Rightarrow> Some (link, w, Inl e)
          | Inr r \<Rightarrow>
              (case try_push RING_CAPACITY (jl_ring link) r of
                 None \<Rightarrow> None
               | Some (ch, Inl _) \<Rightarrow> Some (link\<lparr>jl_ring := ch\<rparr>, w, Inl Saturated)
               | Some (ch, Inr _) \<Rightarrow> Some (link\<lparr>jl_ring := ch\<rparr>, w\<lparr>jw_next_sequence := next\<rparr>, Inr sequence)))"

datatype read_error =
    ReadEmpty
  | ReadChecksumMismatch sequence_number
  | ReadSequenceMismatch sequence_number sequence_number
  | ReadPoisoned

definition read_record ::
  "crc32c \<Rightarrow> journal_link \<Rightarrow> journal_reader
     \<Rightarrow> (journal_link \<times> journal_reader \<times> (read_error + journal_record)) option"
where
  "read_record crc link rd =
     (if rd_poisoned rd then Some (link, rd, Inl ReadPoisoned)
      else
        case try_pop RING_CAPACITY (jl_ring link) of
          None \<Rightarrow> None
        | Some (ch, None) \<Rightarrow> Some (link\<lparr>jl_ring := ch\<rparr>, rd, Inl ReadEmpty)
        | Some (ch, Some r) \<Rightarrow>
            let link = link\<lparr>jl_ring := ch\<rparr> in
            if \<not> verify crc r
            then Some (poison link, rd\<lparr>rd_poisoned := True\<rparr>, Inl (ReadChecksumMismatch (jr_sequence r)))
            else if jr_sequence r \<noteq> rd_expected_sequence rd
            then Some (poison link, rd\<lparr>rd_poisoned := True\<rparr>,
                       Inl (ReadSequenceMismatch (rd_expected_sequence rd) (jr_sequence r)))
            else
              (case checked_add (rd_expected_sequence rd) 1 of
                 None \<Rightarrow> Some (poison link, rd\<lparr>rd_poisoned := True\<rparr>, Inl ReadPoisoned)
               | Some expected \<Rightarrow> Some (link, rd\<lparr>rd_expected_sequence := expected\<rparr>, Inr r)))"

definition producer_is_closed :: "journal_link \<Rightarrow> bool" where
  "producer_is_closed link = (case jl_status link of None \<Rightarrow> False | Some s \<Rightarrow> ss_producer_closed s)"

section \<open>Persistence worker\<close>

datatype io_error = Interrupted | WriteZero | InvalidData | InvalidInput | OtherIo

type_synonym 's sink_write = "'s \<Rightarrow> u8 list \<Rightarrow> 's \<times> (io_error + nat)"
type_synonym 's sink_flush = "'s \<Rightarrow> 's \<times> (io_error + unit)"

datatype flush_policy = EveryBatch | OnShutdown

datatype persist_error = PersistRead read_error | PersistIo io_error | ProducerOpen | PersistPoisoned

record 's persistence_worker =
  pw_reader :: journal_reader
  pw_sink :: 's
  pw_policy :: flush_policy
  pw_poisoned :: bool

definition worker_new ::
  "nat \<Rightarrow> journal_link \<Rightarrow> journal_reader \<Rightarrow> 's \<Rightarrow> flush_policy
     \<Rightarrow> journal_link \<times> (io_error + 's persistence_worker)"
where
  "worker_new BATCH link rd sink policy =
     (if BATCH = 0 then (drop_reader rd link, Inl InvalidInput)
      else if (case jl_status link of None \<Rightarrow> False
               | Some s \<Rightarrow> rd_poisoned rd \<or> rd_expected_sequence rd \<noteq> ss_next_written_sequence s)
      then (drop_reader rd link, Inl InvalidInput)
      else (link, Inr \<lparr>pw_reader = rd, pw_sink = sink, pw_policy = policy, pw_poisoned = False\<rparr>))"

definition fail ::
  "journal_link \<Rightarrow> 's persistence_worker \<Rightarrow> persist_error
     \<Rightarrow> journal_link \<times> 's persistence_worker \<times> (persist_error + 'a)"
where
  "fail link wk e = (poison link, wk\<lparr>pw_poisoned := True\<rparr>, Inl e)"

partial_function (option) write_all ::
  "'s sink_write \<Rightarrow> 's \<Rightarrow> u8 list \<Rightarrow> ('s \<times> (io_error + unit)) option"
where
  "write_all write sink bytes =
     (if bytes = [] then Some (sink, Inr ())
      else
        case write sink bytes of
          (sink, r) \<Rightarrow>
            (case r of
               Inr written \<Rightarrow>
                 if written = 0 then Some (sink, Inl WriteZero)
                 else if written \<le> length bytes then write_all write sink (drop written bytes)
                 else Some (sink, Inl InvalidData)
             | Inl e \<Rightarrow> if e = Interrupted then write_all write sink bytes else Some (sink, Inl e)))"

text \<open>The loops of \<open>drain_batch\<close>: fill the batch from the ring, then write it record by record.\<close>

fun read_batch ::
  "crc32c \<Rightarrow> nat \<Rightarrow> journal_link \<Rightarrow> journal_reader
     \<Rightarrow> (journal_link \<times> journal_reader \<times> (read_error + u8 list list)) option"
where
  "read_batch crc 0 link rd = Some (link, rd, Inr [])"
| "read_batch crc (Suc n) link rd =
     (case read_record crc link rd of
        None \<Rightarrow> None
      | Some (link, rd, Inl e) \<Rightarrow> Some (link, rd, if e = ReadEmpty then Inr [] else Inl e)
      | Some (link, rd, Inr r) \<Rightarrow>
          map_option (\<lambda>(link, rd, batch). (link, rd, map_sum id (\<lambda>batch. encode r # batch) batch))
            (read_batch crc n link rd))"

fun write_batch :: "'s sink_write \<Rightarrow> 's \<Rightarrow> u8 list list \<Rightarrow> ('s \<times> (io_error + unit)) option" where
  "write_batch write sink [] = Some (sink, Inr ())"
| "write_batch write sink (bytes # batch) =
     (case write_all write sink bytes of
        None \<Rightarrow> None
      | Some (sink, Inl e) \<Rightarrow> Some (sink, Inl e)
      | Some (sink, Inr _) \<Rightarrow> write_batch write sink batch)"

definition drain_batch ::
  "crc32c \<Rightarrow> 's sink_write \<Rightarrow> 's sink_flush \<Rightarrow> nat \<Rightarrow> journal_link \<Rightarrow> 's persistence_worker
     \<Rightarrow> (journal_link \<times> 's persistence_worker \<times> (persist_error + nat)) option"
where
  "drain_batch crc write flush BATCH link wk =
     (if pw_poisoned wk then Some (link, wk, Inl PersistPoisoned)
      else
        case read_batch crc BATCH link (pw_reader wk) of
          None \<Rightarrow> None
        | Some (link, rd, Inl e) \<Rightarrow> Some (fail link (wk\<lparr>pw_reader := rd\<rparr>) (PersistRead e))
        | Some (link, rd, Inr batch) \<Rightarrow>
            let wk = wk\<lparr>pw_reader := rd\<rparr>; count = length batch in
            (case write_batch write (pw_sink wk) batch of
               None \<Rightarrow> None
             | Some (sink, Inl e) \<Rightarrow> Some (fail link (wk\<lparr>pw_sink := sink\<rparr>) (PersistIo e))
             | Some (sink, Inr _) \<Rightarrow>
                 let wk = wk\<lparr>pw_sink := sink\<rparr>;
                     link = (if count \<noteq> 0 then publish_written (rd_expected_sequence rd) link else link) in
                 if count \<noteq> 0 \<and> pw_policy wk = EveryBatch
                 then
                   (case flush (pw_sink wk) of
                      (sink, Inl e) \<Rightarrow> Some (fail link (wk\<lparr>pw_sink := sink\<rparr>) (PersistIo e))
                    | (sink, Inr _) \<Rightarrow>
                        Some (publish_durable (rd_expected_sequence rd) link, wk\<lparr>pw_sink := sink\<rparr>, Inr count))
                 else Some (link, wk, Inr count)))"

partial_function (option) drain_all ::
  "crc32c \<Rightarrow> 's sink_write \<Rightarrow> 's sink_flush \<Rightarrow> nat \<Rightarrow> journal_link \<Rightarrow> 's persistence_worker
     \<Rightarrow> (journal_link \<times> 's persistence_worker \<times> (persist_error + unit)) option"
where
  "drain_all crc write flush BATCH link wk =
     Option.bind (drain_batch crc write flush BATCH link wk) (\<lambda>(link, wk, r).
       case r of
         Inl e \<Rightarrow> Some (link, wk, Inl e)
       | Inr count \<Rightarrow> if count = 0 then Some (link, wk, Inr ()) else drain_all crc write flush BATCH link wk)"

definition shutdown ::
  "crc32c \<Rightarrow> 's sink_write \<Rightarrow> 's sink_flush \<Rightarrow> nat \<Rightarrow> journal_link \<Rightarrow> 's persistence_worker
     \<Rightarrow> (journal_link \<times> 's persistence_worker \<times> (persist_error + unit)) option"
where
  "shutdown crc write flush BATCH link wk =
     (if pw_poisoned wk then Some (link, wk, Inl PersistPoisoned)
      else if rd_shutdown_complete (pw_reader wk) then Some (link, wk, Inr ())
      else if \<not> producer_is_closed link then Some (link, wk, Inl ProducerOpen)
      else
        case drain_all crc write flush BATCH link wk of
          None \<Rightarrow> None
        | Some (link, wk, Inl e) \<Rightarrow> Some (link, wk, Inl e)
        | Some (link, wk, Inr _) \<Rightarrow>
            (case flush (pw_sink wk) of
               (sink, Inl e) \<Rightarrow> Some (fail link (wk\<lparr>pw_sink := sink\<rparr>) (PersistIo e))
             | (sink, Inr _) \<Rightarrow>
                 let link = publish_durable (rd_expected_sequence (pw_reader wk)) link;
                     (rd, link) = complete (pw_reader wk) link in
                 Some (link, wk\<lparr>pw_sink := sink, pw_reader := rd\<rparr>, Inr ())))"

definition into_sink :: "journal_link \<Rightarrow> 's persistence_worker \<Rightarrow> journal_link \<times> (persist_error + 's)" where
  "into_sink link wk =
     (drop_reader (pw_reader wk) link, if pw_poisoned wk then Inl PersistPoisoned else Inr (pw_sink wk))"

section \<open>Recovery scan\<close>

type_synonym 'r source_read = "'r \<Rightarrow> nat \<Rightarrow> 'r \<times> (io_error + u8 list)"

datatype recovery_error =
    RecoveryIo io_error
  | Truncated nat
  | RecoveryDecode u64 decode_error
  | RecoverySequence sequence_number sequence_number
  | RecoverySequenceOverflow

record recovery =
  rc_records :: u64
  rc_next_sequence :: u64

definition saturating_mul :: "'a::len word \<Rightarrow> 'a word \<Rightarrow> 'a word" where
  "saturating_mul a b = (case checked_mul a b of None \<Rightarrow> - 1 | Some c \<Rightarrow> c)"

text \<open>
  Reading one record: \<open>Inr None\<close> at the end of the input, \<open>Inr (Some bytes)\<close> when the buffer is full.
  The buffer keeps its bytes from one record to the next.
\<close>

partial_function (option) fill_record ::
  "'r source_read \<Rightarrow> 'r \<Rightarrow> u8 list \<Rightarrow> nat \<Rightarrow> ('r \<times> (recovery_error + u8 list option)) option"
where
  "fill_record read reader bytes filled =
     (if filled < RECORD_SIZE then
        case read reader (RECORD_SIZE - filled) of
          (reader, r) \<Rightarrow>
            (case r of
               Inr chunk \<Rightarrow>
                 if chunk = [] then Some (reader, if filled = 0 then Inr None else Inl (Truncated filled))
                 else fill_record read reader (write_at filled chunk bytes) (filled + length chunk)
             | Inl e \<Rightarrow> if e = Interrupted then fill_record read reader bytes filled
                        else Some (reader, Inl (RecoveryIo e)))
      else Some (reader, Inr (Some bytes)))"

partial_function (option) recover_loop ::
  "crc32c \<Rightarrow> 'r source_read \<Rightarrow> 'r \<Rightarrow> u8 list \<Rightarrow> u64 \<Rightarrow> u64 \<Rightarrow> ('r \<times> (recovery_error + recovery)) option"
where
  "recover_loop crc read reader bytes expected records =
     Option.bind (fill_record read reader bytes 0) (\<lambda>(reader, r).
       case r of
         Inl e \<Rightarrow> Some (reader, Inl e)
       | Inr full \<Rightarrow>
           (case full of
              None \<Rightarrow> Some (reader, Inr \<lparr>rc_records = records, rc_next_sequence = expected\<rparr>)
            | Some bytes \<Rightarrow>
                let offset = saturating_mul records (of_nat RECORD_SIZE) in
                case decode crc bytes of
                  Inl source \<Rightarrow> Some (reader, Inl (RecoveryDecode offset source))
                | Inr r \<Rightarrow>
                    if jr_sequence r \<noteq> expected then Some (reader, Inl (RecoverySequence expected (jr_sequence r)))
                    else
                      (case checked_add expected 1 of
                         None \<Rightarrow> Some (reader, Inl RecoverySequenceOverflow)
                       | Some expected \<Rightarrow>
                           (case checked_add records 1 of
                              None \<Rightarrow> Some (reader, Inl RecoverySequenceOverflow)
                            | Some records \<Rightarrow> recover_loop crc read reader bytes expected records))))"

definition recover :: "crc32c \<Rightarrow> 'r source_read \<Rightarrow> 'r \<Rightarrow> u64 \<Rightarrow> ('r \<times> (recovery_error + recovery)) option" where
  "recover crc read reader first_sequence = recover_loop crc read reader (replicate RECORD_SIZE 0) first_sequence 0"

section \<open>Files\<close>

text \<open>
  The standard library's \<open>File\<close>, opened for reading and appending. What the operating system answers to
  the next calls is a script: fail with an error, or move at most \<open>n + 1\<close> bytes; \<open>f_sync\<close> is the same
  for \<open>sync_data\<close>. Calls after the end of a script succeed in full. A call that fails has moved nothing.
  \<open>f_durable\<close> is the length of the prefix that \<open>sync_data\<close> has made durable: after a crash the file is
  a prefix at least that long.
\<close>

datatype io_answer = Fail io_error | Limit nat

record disk_file =
  f_bytes :: "u8 list"
  f_pos :: nat
  f_durable :: nat
  f_script :: "io_answer list"
  f_sync :: "io_error option list"

definition file_write :: "disk_file sink_write" where
  "file_write f bytes =
     (case f_script f of
        Fail e # script \<Rightarrow> (f\<lparr>f_script := script\<rparr>, Inl e)
      | Limit n # script \<Rightarrow>
          (f\<lparr>f_script := script, f_bytes := f_bytes f @ take (Suc n) bytes\<rparr>, Inr (min (Suc n) (length bytes)))
      | [] \<Rightarrow> (f\<lparr>f_bytes := f_bytes f @ bytes\<rparr>, Inr (length bytes)))"

definition file_flush :: "disk_file sink_flush" where
  "file_flush f =
     (case f_sync f of
        Some e # script \<Rightarrow> (f\<lparr>f_sync := script\<rparr>, Inl e)
      | None # script \<Rightarrow> (f\<lparr>f_sync := script, f_durable := length (f_bytes f)\<rparr>, Inr ())
      | [] \<Rightarrow> (f\<lparr>f_durable := length (f_bytes f)\<rparr>, Inr ()))"

definition file_read :: "disk_file source_read" where
  "file_read f n =
     (let rest = drop (f_pos f) (f_bytes f) in
      case f_script f of
        Fail e # script \<Rightarrow> (f\<lparr>f_script := script\<rparr>, Inl e)
      | Limit k # script \<Rightarrow>
          (let chunk = take (min (Suc k) n) rest in
           (f\<lparr>f_script := script, f_pos := f_pos f + length chunk\<rparr>, Inr chunk))
      | [] \<Rightarrow> (let chunk = take n rest in (f\<lparr>f_pos := f_pos f + length chunk\<rparr>, Inr chunk)))"

definition file_seek :: "nat \<Rightarrow> disk_file \<Rightarrow> disk_file \<times> (io_error + unit)" where
  "file_seek pos f =
     (case f_script f of
        Fail e # script \<Rightarrow> (f\<lparr>f_script := script\<rparr>, Inl e)
      | Limit k # script \<Rightarrow> (f\<lparr>f_script := script, f_pos := pos\<rparr>, Inr ())
      | [] \<Rightarrow> (f\<lparr>f_pos := pos\<rparr>, Inr ()))"

text \<open>
  The argument is what opening the path returned; a missing file is created empty. An error after
  the file is open drops it.
\<close>

definition open_append :: "crc32c \<Rightarrow> io_error + disk_file \<Rightarrow> u64 \<Rightarrow> (recovery_error + disk_file \<times> recovery) option" where
  "open_append crc opened first_sequence =
     (case opened of
        Inl e \<Rightarrow> Some (Inl (RecoveryIo e))
      | Inr f \<Rightarrow>
          (case file_seek 0 f of
             (f, Inl e) \<Rightarrow> Some (Inl (RecoveryIo e))
           | (f, Inr _) \<Rightarrow>
               (case recover crc file_read f first_sequence of
                  None \<Rightarrow> None
                | Some (f, Inl e) \<Rightarrow> Some (Inl e)
                | Some (f, Inr recovery) \<Rightarrow>
                    (case file_seek (length (f_bytes f)) f of
                       (f, Inl e) \<Rightarrow> Some (Inl (RecoveryIo e))
                     | (f, Inr _) \<Rightarrow> Some (Inr (f, recovery))))))"

end
