(* ===== verification/Journal_Format.thy ===== *)
theory Journal_Format
  imports Journal
begin

text \<open>
  The record format of the journal: layout of an encoded record, decoding and encoding are inverse to
  each other, and the byte image of a run of consecutive records.
\<close>

section \<open>Layout\<close>

definition well_sized :: "journal_record \<Rightarrow> bool" where
  "well_sized r \<longleftrightarrow> length (jr_payload r) = MAX_PAYLOAD"

lemma replicate_3: "replicate 62 z = z # z # replicate 60 z"
  by (simp add: numeral_eq_Suc)

lemma body_layout:
  assumes "well_sized r"
  shows "bytes_without_checksum r =
    to_be_bytes (jr_magic r) @ [jr_version r, jr_flags r] @ to_be_bytes (jr_sequence r) @ to_be_bytes (jr_len r) @
    replicate 4 0 @ jr_payload r"
  using assms
  by (simp add: bytes_without_checksum_def well_sized_def journal_consts write_at_replicate replicate_3
      list_update_append write_at_append write_at_Cons Let_def) (simp add: write_at_def)

lemma body_ignores_checksum [simp]:
  "bytes_without_checksum (r\<lparr>jr_checksum := c\<rparr>) = bytes_without_checksum r"
  by (simp add: bytes_without_checksum_def)

lemma encode_layout:
  assumes "well_sized r"
  shows "encode r =
    to_be_bytes (jr_magic r) @ [jr_version r, jr_flags r] @ to_be_bytes (jr_sequence r) @ to_be_bytes (jr_len r) @
    to_be_bytes (jr_checksum r) @ jr_payload r"
  using assms
  by (simp add: encode_def body_layout CHECKSUM_OFFSET_def write_at_append write_at_Cons)
    (simp add: write_at_def)

lemma length_encode [simp]: "well_sized r \<Longrightarrow> length (encode r) = 64"
  by (simp add: encode_layout) (simp add: well_sized_def MAX_PAYLOAD_def)

section \<open>Round trips\<close>

lemma be_pair: "[to_be_bytes w ! 0, to_be_bytes w ! Suc 0] = to_be_bytes (w :: u16)"
  by (rule nth_equalityI) (auto simp: less_Suc_eq)

lemma verify_len: "\<lbrakk>verify crc r; well_sized r\<rbrakk> \<Longrightarrow> unat (jr_len r) \<le> MAX_PAYLOAD"
  by (auto simp: verify_def record_slice_def well_sized_def split: if_splits)

lemma decode_encode_record:
  assumes "well_sized r" "verify crc r"
  shows "decode crc (encode r) = Inr r"
proof -
  let ?b = "encode r"
  have m: "[?b ! 0, ?b ! 1] = to_be_bytes (jr_magic r)" "?b ! 2 = jr_version r" "?b ! 3 = jr_flags r"
    "slice 4 12 ?b = to_be_bytes (jr_sequence r)" "[?b ! 12, ?b ! 13] = to_be_bytes (jr_len r)"
    "slice 14 18 ?b = to_be_bytes (jr_checksum r)" "slice 18 64 ?b = jr_payload r"
    using assms(1) be_pair
    by (simp_all add: encode_layout wire_slices) (simp_all add: well_sized_def MAX_PAYLOAD_def slice_def)
  have f: "jr_magic r = MAGIC" "jr_version r = FORMAT_VERSION" "jr_flags r = 0" using assms(2) by (auto simp: verify_def)
  have r: "\<lparr>jr_sequence = jr_sequence r, jr_checksum = jr_checksum r, jr_len = jr_len r, jr_magic = MAGIC,
                 jr_payload = jr_payload r, jr_version = FORMAT_VERSION, jr_flags = 0\<rparr> = r"
    using f by (cases r) simp
  show ?thesis
    using verify_len [OF assms(2,1)] assms(2) f
    unfolding decode_def Let_def CHECKSUM_OFFSET_def PAYLOAD_OFFSET_def RECORD_SIZE_def m by (simp add: r not_less)
qed

lemma decode_fields:
  assumes "decode crc b = Inr r"
  shows "verify crc r" "jr_magic r = from_be_bytes [b ! 0, b ! 1]" "jr_version r = b ! 2" "jr_flags r = b ! 3"
    "jr_sequence r = from_be_bytes (slice 4 12 b)" "jr_len r = from_be_bytes [b ! 12, b ! 13]"
    "jr_checksum r = from_be_bytes (slice 14 18 b)" "jr_payload r = slice 18 64 b"
  using assms by (auto simp: decode_def Let_def journal_consts split: if_splits)

lemma pair_slice: "Suc i < length b \<Longrightarrow> [b ! i, b ! Suc i] = slice i (i + 2) b"
  by (rule nth_equalityI) (auto simp: slice_def less_Suc_eq)

lemma encode_decode_record:
  assumes "length b = 64" "decode crc b = Inr r"
  shows "encode r = b" "verify crc r" "well_sized r"
proof -
  note d = decode_fields [OF assms(2)]
  show "verify crc r" by (rule d)
  show ws: "well_sized r" using assms(1) d(8) by (simp add: well_sized_def MAX_PAYLOAD_def)
  have "b = slice 0 2 b @ slice 2 4 b @ slice 4 12 b @ slice 12 14 b @ slice 14 18 b @ slice 18 64 b"
    using assms(1) by (simp add: slice_join slice_whole)
  also have "\<dots> = encode r"
    using assms(1) d header_slice [of b, symmetric] pair_slice [of 2 b] pair_slice [of 12 b]
    by (simp add: encode_layout [OF ws])
  finally show "encode r = b" by simp
qed

section \<open>Records made by the writer\<close>

definition record_of :: "crc32c \<Rightarrow> sequence_number \<Rightarrow> u8 list \<Rightarrow> journal_record" where
  "record_of crc sequence payload = projr (journal_record_new crc sequence payload)"

lemma record_new_iff:
  "journal_record_new crc sequence payload =
     (if length payload \<le> MAX_PAYLOAD then Inr (record_of crc sequence payload)
      else Inl (PayloadTooLarge (length payload)))"
  by (simp add: record_of_def journal_record_new_def u16_try_from_def MAX_PAYLOAD_def Let_def)

lemma record_of_fields:
  assumes "length payload \<le> MAX_PAYLOAD"
  shows "jr_sequence (record_of crc sequence payload) = sequence" "well_sized (record_of crc sequence payload)"
    "record_slice (record_of crc sequence payload) = Some payload" "verify crc (record_of crc sequence payload)"
proof -
  define r0 where "r0 = \<lparr>jr_sequence = sequence, jr_checksum = 0, jr_len = of_nat (length payload), jr_magic = MAGIC,
    jr_payload = payload @ replicate (46 - length payload) 0, jr_version = FORMAT_VERSION, jr_flags = 0\<rparr>"
  have f: "jr_sequence r0 = sequence" "jr_len r0 = of_nat (length payload)" "jr_magic r0 = MAGIC" "jr_flags r0 = 0"
    "jr_payload r0 = payload @ replicate (46 - length payload) 0" "jr_version r0 = FORMAT_VERSION"
    by (simp_all add: r0_def)
  have "record_of crc sequence payload = r0\<lparr>jr_checksum := crc (bytes_without_checksum r0)\<rparr>"
    using assms by (simp add: record_of_def journal_record_new_def u16_try_from_def MAX_PAYLOAD_def Let_def
        write_at_replicate record_checksum_def r0_def)
  then show "jr_sequence (record_of crc sequence payload) = sequence" "well_sized (record_of crc sequence payload)"
    "record_slice (record_of crc sequence payload) = Some payload" "verify crc (record_of crc sequence payload)"
    using assms by (simp_all add: f well_sized_def record_slice_def verify_def record_checksum_def MAX_PAYLOAD_def
        unat_of_nat)
qed

text \<open>The byte image of consecutive records with the given payloads.\<close>

fun journal_records :: "crc32c \<Rightarrow> u64 \<Rightarrow> u8 list list \<Rightarrow> journal_record list" where
  "journal_records crc sequence [] = []"
| "journal_records crc sequence (p # ps) = record_of crc sequence p # journal_records crc (sequence + 1) ps"

definition journal_image :: "crc32c \<Rightarrow> u64 \<Rightarrow> u8 list list \<Rightarrow> u8 list" where
  "journal_image crc sequence ps = concat (map encode (journal_records crc sequence ps))"

definition payloads_ok :: "u8 list list \<Rightarrow> bool" where
  "payloads_ok ps \<longleftrightarrow> list_all (\<lambda>p. length p \<le> MAX_PAYLOAD) ps"

lemma journal_records_append [simp]:
  "journal_records crc s (ps @ qs) = journal_records crc s ps @ journal_records crc (s + of_nat (length ps)) qs"
  by (induction ps arbitrary: s) (simp_all add: add.assoc)

lemma length_journal_records [simp]: "length (journal_records crc s ps) = length ps"
  by (induction ps arbitrary: s) simp_all

lemma journal_image_Nil [simp]: "journal_image crc s [] = []"
  by (simp add: journal_image_def)

lemma journal_image_Cons: "journal_image crc s (p # ps) = encode (record_of crc s p) @ journal_image crc (s + 1) ps"
  by (simp add: journal_image_def)

lemma journal_image_append [simp]:
  "journal_image crc s (ps @ qs) = journal_image crc s ps @ journal_image crc (s + of_nat (length ps)) qs"
  by (simp add: journal_image_def)

lemma length_journal_image: "payloads_ok ps \<Longrightarrow> length (journal_image crc s ps) = 64 * length ps"
  by (induction ps arbitrary: s) (simp_all add: journal_image_Cons payloads_ok_def record_of_fields)

lemma payloads_ok_simps [simp]:
  "payloads_ok []" "payloads_ok (p # ps) \<longleftrightarrow> length p \<le> MAX_PAYLOAD \<and> payloads_ok ps"
  "payloads_ok (ps @ qs) \<longleftrightarrow> payloads_ok ps \<and> payloads_ok qs"
  by (simp_all add: payloads_ok_def)

end
