(* ===== verification/Recovery.thy ===== *)
theory Recovery
  imports Snapshot_Sound Journal_Format
begin

text \<open>
  \<open>recover_snapshot_and_tail\<close> of \<^verbatim>\<open>crates/hft-recovery/src/lib.rs\<close>: a gateway is restored from a snapshot and the
  records of the journal after the snapshot's cut are processed. The main theorem spans the wire
  format, the journal format, the snapshot format and the gateway: recovery reproduces the state of
  a gateway that processed every command itself.
\<close>

section \<open>Recovery\<close>

datatype tail_recovery_error =
    RecSnapshot snapshot_error
  | RecTruncatedJournal nat
  | RecJournalDecode nat decode_error
  | RecJournalSequence u64 u64
  | RecPayloadSequence u64 u64
  | RecPayloadParse parse_error
  | RecGateway gateway_error
  | RecSequenceOverflow

text \<open>\<open>chunks_exact\<close> of a slice, for a positive size.\<close>

function chunks_exact :: "nat \<Rightarrow> 'a list \<Rightarrow> 'a list list" where
  "chunks_exact n xs = (if n = 0 \<or> length xs < n then [] else take n xs # chunks_exact n (drop n xs))"
  by pat_completeness auto
termination
  by (relation "measure (length \<circ> snd)") auto

declare chunks_exact.simps [simp del]

text \<open>The loop over the records; \<open>index\<close> counts them.\<close>

fun apply_tail ::
  "crc32c \<Rightarrow> nat \<Rightarrow> nat \<Rightarrow> nat \<Rightarrow> nat \<Rightarrow> u8 list list \<Rightarrow> nat \<Rightarrow> gateway \<Rightarrow> u64 \<Rightarrow> report_buffer \<Rightarrow> (tail_recovery_error + gateway) option"
where
  "apply_tail crc A N L K [] index gateway expected reports = Some (Inr gateway)"
| "apply_tail crc A N L K (chunk # chunks) index gateway expected reports =
     (if length chunk \<noteq> RECORD_SIZE then Some (Inl (RecTruncatedJournal (length chunk)))
      else
        rbind (Some (map_err (RecJournalDecode (index * RECORD_SIZE)) (decode crc chunk))) (\<lambda>record.
        if jr_sequence record \<noteq> expected then Some (Inl (RecJournalSequence expected (jr_sequence record)))
        else
          rbind (Some (ok_or (record_slice record) (RecJournalDecode (index * RECORD_SIZE) (PayloadLength 0xffff)))) (\<lambda>frame.
          rbind (Some (map_err RecPayloadParse (parse_message frame))) (\<lambda>message.
          if message_sequence message \<noteq> jr_sequence record
          then Some (Inl (RecPayloadSequence (jr_sequence record) (message_sequence message)))
          else case process_frame A N L K gateway frame reports of
              None \<Rightarrow> None
            | Some (gateway, reports, result) \<Rightarrow>
                let continue =
                  rbind (Some (ok_or (checked_add expected 1) RecSequenceOverflow)) (\<lambda>expected.
                    apply_tail crc A N L K chunks (index + 1) gateway expected reports) in
                (case result of
                   Inr _ \<Rightarrow> continue
                 | Inl (GwRisk _) \<Rightarrow> continue
                 | Inl (GwBook _) \<Rightarrow> continue
                 | Inl e \<Rightarrow> Some (Inl (RecGateway e)))))))"

definition recover_snapshot_and_tail ::
  "hash_function \<Rightarrow> crc32c \<Rightarrow> nat \<Rightarrow> nat \<Rightarrow> nat \<Rightarrow> nat \<Rightarrow> nat \<Rightarrow> u8 list \<Rightarrow> u8 list \<Rightarrow> (tail_recovery_error + gateway) option"
where
  "recover_snapshot_and_tail sha256 crc A N L K R snapshot tail =
     rbind (map_option (map_err RecSnapshot) (decode_snapshot sha256 A N L K snapshot)) (\<lambda>decoded.
     if length tail mod RECORD_SIZE \<noteq> 0 then Some (Inl (RecTruncatedJournal (length tail mod RECORD_SIZE)))
     else
       rbind (Some (ok_or (checked_add (ds_applied_sequence decoded) 1) RecSequenceOverflow)) (\<lambda>expected.
       apply_tail crc A N L K (chunks_exact RECORD_SIZE tail) 0 (ds_gateway decoded) expected (report_buffer_new R)))"

section \<open>Processing the commands themselves\<close>

fun process_all :: "nat \<Rightarrow> nat \<Rightarrow> nat \<Rightarrow> nat \<Rightarrow> nat \<Rightarrow> command list \<Rightarrow> gateway \<Rightarrow> gateway option" where
  "process_all A N L K R [] gw = Some gw"
| "process_all A N L K R (c # cs) gw =
     Option.bind (process_command A N L K gw c (report_buffer_new R)) (\<lambda>(gw, _, _). process_all A N L K R cs gw)"

lemma process_all_append:
  "process_all A N L K R (cs @ ds) gw = Option.bind (process_all A N L K R cs gw) (process_all A N L K R ds)"
  by (induction cs arbitrary: gw) (simp_all add: split_def)

text \<open>Commands whose sequences count up from \<open>s\<close>.\<close>

fun consecutive :: "u64 \<Rightarrow> command list \<Rightarrow> bool" where
  "consecutive s [] \<longleftrightarrow> True"
| "consecutive s (c # cs) \<longleftrightarrow> command_sequence c = s \<and> consecutive (s + 1) cs"

lemma chunks_journal_image:
  "payloads_ok ps \<Longrightarrow> chunks_exact 64 (journal_image crc s ps) = map encode (journal_records crc s ps)"
proof (induction ps arbitrary: s)
  case Nil
  then show ?case by (simp add: chunks_exact.simps)
next
  case (Cons p ps)
  then have "length (encode (record_of crc s p)) = 64" by (simp add: record_of_fields)
  then show ?case using Cons by (subst chunks_exact.simps) (simp add: journal_image_Cons)
qed

lemma parse_encoded: "\<exists>m. parse_message (encode_command c) = Inr m \<and> to_command m = c \<and> message_sequence m = command_sequence c"
  by (cases c) (simp_all add: parse_encode decode_encode, simp_all add: wire_layouts wire_slices)

lemma frame_is_encoding: "parse_message frame = Inr m \<Longrightarrow> encode_command (to_command m) = frame"
  by (cases m) (auto dest: encode_decode_new_order encode_decode_cancel_order encode_decode_replace_order)

lemma length_encoded [simp]: "length (encode_command c) \<le> 46"
  by (cases c) simp_all

text \<open>An admitted command is answered with an outcome or a business rejection.\<close>

lemma admitted_answer:
  assumes "gw_inv A N L K gw" "admitted gw c" "process_command A N L K gw c r = Some (gw', r', out)"
  shows "\<exists>e. out = Inr e \<or> (\<exists>q. out = Inl (GwRisk q) \<or> out = Inl (GwBook q))"
proof -
  have v: "spec_dispatch A N L K cap gw c = Inl e \<Longrightarrow> \<exists>q. e = GwRisk q \<or> e = GwBook q" for cap e
    unfolding spec_dispatch_def new_order_verdict_def cancel_verdict_def replace_verdict_def
    by (auto split: command.splits option.splits sum.splits if_splits)
  show ?thesis
    using process_command_ok [OF assms(1), of c r] assms(2,3) v
    by (fastforce simp: command_effect_def spec_command_def admitted_def split: sum.splits prod.splits)
qed

lemma same_step_Some:
  "same_step A N L K (Some (g, r, out)) y \<Longrightarrow> \<exists>g' r'. y = Some (g', r', out) \<and> gw_equiv A N L K g g' \<and> same_reports r r'"
  by (cases y) auto

lemma apply_tail_equiv:
  assumes "gw_inv A N L K gw" "gw_inv A N L K gw'" "gw_equiv A N L K gw gw'" "length (rb_entries r') = R"
    "consecutive s cs" "gw_expected_sequence gw = s" "uint s + int (length cs) < 2 ^ 64"
  shows "\<exists>g g'. process_all A N L K R cs gw = Some g \<and>
    apply_tail crc A N L K (map encode (journal_records crc s (map encode_command cs))) i gw' s r' = Some (Inr g') \<and>
    gw_inv A N L K g \<and> gw_inv A N L K g' \<and> gw_equiv A N L K g g' \<and> gw_expected_sequence g = s + of_nat (length cs)"
  using assms
proof (induction cs arbitrary: gw gw' r' s i)
  case (Cons c cs)
  note inv = Cons.prems(1,2) and eq = Cons.prems(3)
  have seq: "command_sequence c = s" "gw_expected_sequence gw = s" "gw_expected_sequence gw' = s"
    and bound: "uint s + 1 < 2 ^ 64" using Cons.prems gw_equivD(3) [OF eq] by auto
  then have adm: "admitted gw c" "admitted gw' c" by (auto simp: admitted_def)
  let ?r = "report_buffer_new R"
  have len: "length (rb_entries ?r) = R" by (simp add: report_buffer_new_def)
  obtain g1 r1 out where p: "process_command A N L K gw c ?r = Some (g1, r1, out)" "gw_inv A N L K g1" "gw_expected_sequence g1 = s + 1"
      "length (rb_entries r1) = R"
    using process_command_ok [OF inv(1), of c ?r] adm seq len by auto
  obtain g1' r1' where p': "process_command A N L K gw' c r' = Some (g1', r1', out)" "gw_equiv A N L K g1 g1'" "same_reports r1 r1'"
    using process_command_equiv [OF eq, of r' ?r c] Cons.prems(4) len p(1) by (auto dest: same_step_Some)
  have inv1: "gw_inv A N L K g1'" using process_command_ok [OF inv(2), of c r'] p'(1) by auto
  obtain m where m: "parse_message (encode_command c) = Inr m" "to_command m = c" "message_sequence m = s"
    using parse_encoded [of c] seq(1) by auto
  have fr: "process_frame A N L K gw' (encode_command c) r' = Some (g1', r1', out)"
    using p'(1) process_frame_command [OF m(1)] m(2) by simp
  note rf = record_of_fields [of "encode_command c" crc s, unfolded MAX_PAYLOAD_def, OF length_encoded]
  have u: "uint (s + 1) = uint s + 1" using bound by (simp add: uint_plus_if')
  have ca: "checked_add s 1 = Some (s + 1)" using bound by (simp add: checked_add_def)
  have "uint (s + 1) + int (length cs) < 2 ^ 64" using Cons.prems(7) u by simp
  from Cons.IH [OF p(2) inv1 p'(2) _ _ p(3) this, of r1' "Suc i"] p'(3) p(4) Cons.prems(5)
  obtain g g' where g: "process_all A N L K R cs g1 = Some g"
      "apply_tail crc A N L K (map encode (journal_records crc (s + 1) (map encode_command cs))) (Suc i) g1' (s + 1) r1' = Some (Inr g')"
      "gw_inv A N L K g" "gw_inv A N L K g'" "gw_equiv A N L K g g'" "gw_expected_sequence g = s + 1 + of_nat (length cs)"
    by (auto simp: same_reports_def)
  have "apply_tail crc A N L K (map encode (journal_records crc s (map encode_command (c # cs)))) i gw' s r' = Some (Inr g')"
    using admitted_answer [OF inv(2) adm(2) p'(1)] g(2)
    by (auto simp: RECORD_SIZE_def rf decode_encode_record [OF rf(2,4)] m fr ca)
  then show ?case using g p(1) by (auto simp: add.assoc)
qed simp

section \<open>Equal logical states export equally\<close>

lemma keyed_lists_equal:
  fixes f :: "'a \<Rightarrow> 'k::linorder"
  assumes "sorted_wrt (<) (map f xs)" "sorted_wrt (<) (map f ys)" "set xs = set ys"
  shows "xs = ys"
proof -
  have "map f xs = map f ys"
    using assms strict_sorted_equal [of "map f xs" "map f ys"] by (metis list.set_map)
  moreover have "inj_on f (set xs \<union> set ys)"
    using assms by (metis Un_absorb distinct_map strict_sorted_iff)
  ultimately show ?thesis by (metis map_inj_on)
qed

lemma equiv_exports:
  assumes inv: "gw_inv A N L K g" "gw_inv A N L K g'" and eq: "gw_equiv A N L K g g'"
  shows "gateway_export_state L K g' = gateway_export_state L K g"
proof -
  note I = gw_invD(2) [OF inv(1)] and I' = gw_invD(2) [OF inv(2)]
  have r: "acct_of A (gw_risk g') = acct_of A (gw_risk g)" "res_of N (gw_risk g') = res_of N (gw_risk g)"
      "re_maximum_order_id (gw_risk g') = re_maximum_order_id (gw_risk g)" "re_killed (gw_risk g') = re_killed (gw_risk g)"
    using gw_equivD(1) [OF eq] by (simp_all add: risk_equiv_def)
  have "es_accounts (risk_export_state (gw_risk g')) = es_accounts (risk_export_state (gw_risk g))"
    using keyed_lists_equal [OF export_state_parts(1) [OF I'] export_state_parts(1) [OF I]]
      account_entries(2) [OF risk_invD(1) [OF I]] account_entries(2) [OF risk_invD(1) [OF I']] r(1) by auto
  moreover have "es_reservations (risk_export_state (gw_risk g')) = es_reservations (risk_export_state (gw_risk g))"
    using keyed_lists_equal [OF export_state_parts(2) [OF I'] export_state_parts(2) [OF I]]
      reservation_entries(2) [OF risk_invD(2) [OF I]] reservation_entries(2) [OF risk_invD(2) [OF I']] r(2) by auto
  ultimately have "risk_export_state (gw_risk g') = risk_export_state (gw_risk g)"
    using r(3,4) by (simp add: risk_export_state_def)
  then show ?thesis
    using gateway_export_spec [OF inv(1)] gateway_export_spec [OF inv(2)] gw_equivD(2-4) [OF eq] by (simp add: book_equiv_def)
qed

lemma recover_tail:
  assumes reach: "gateway_reachable A N L K ins gw" and dims: "gateway_dims A N L K" "K < 2 ^ 32" and within: "orders_within A gw"
    and sha: "\<forall>x. length (sha256 x) = 32" and applied: "checked_add applied 1 = Some (gw_expected_sequence gw)"
    and sn: "encode_snapshot sha256 A N L K gw applied = Some (Inr sn)"
    and cs: "consecutive (applied + 1) commands" "uint applied + 1 + int (length commands) < 2 ^ 64"
  shows "\<exists>live recovered. process_all A N L K R commands gw = Some live \<and>
    recover_snapshot_and_tail sha256 crc A N L K R (sn_bytes sn) (journal_image crc (applied + 1) (map encode_command commands))
      = Some (Inr recovered) \<and>
    gw_inv A N L K live \<and> gw_inv A N L K recovered \<and> gw_equiv A N L K live recovered \<and>
    gw_expected_sequence live = applied + 1 + of_nat (length commands)"
proof -
  have inv: "gw_inv A N L K gw" using reachable_gateway_inv [OF reach dims(1)] by blast
  have lim: "limited A (gw_risk gw)"
    using reachable_limited [OF reachable_gateway_risk [OF reach dims(1)]] dims(1) by (simp add: gateway_dims_def)
  obtain gw' where gw': "decode_snapshot sha256 A N L K (sn_bytes sn) = Some (Inr \<lparr>ds_gateway = gw', ds_applied_sequence = applied, ds_digest = sn_digest sn\<rparr>)"
      "gw_inv A N L K gw'" "same_gateway A N gw gw'"
    using snapshot_of_gateway [OF inv reachable_in_sequence [OF reach dims(1)] lim dims sha applied] within sn by auto
  have s: "gw_expected_sequence gw = applied + 1" "uint (applied + 1) = uint applied + 1"
    using applied by (auto simp: checked_add_def uint_plus_if' split: if_splits)
  let ?s = "applied + 1" and ?r = "report_buffer_new R"
  obtain live recovered where t: "process_all A N L K R commands gw = Some live"
      "apply_tail crc A N L K (map encode (journal_records crc ?s (map encode_command commands))) 0 gw' ?s ?r = Some (Inr recovered)"
      "gw_inv A N L K live" "gw_inv A N L K recovered" "gw_equiv A N L K live recovered"
      "gw_expected_sequence live = ?s + of_nat (length commands)"
    using apply_tail_equiv [OF inv gw'(2) same_gateway_equiv [OF inv gw'(2,3)] _ cs(1) s(1), of ?r R crc 0] cs(2) s(2)
    by (auto simp: report_buffer_new_def)
  have ok: "payloads_ok (map encode_command commands)" by (simp add: payloads_ok_def list_all_iff MAX_PAYLOAD_def)
  have "recover_snapshot_and_tail sha256 crc A N L K R (sn_bytes sn) (journal_image crc ?s (map encode_command commands)) = Some (Inr recovered)"
    using t(2) applied s(1) chunks_journal_image [OF ok, of crc ?s] length_journal_image [OF ok, of crc ?s]
    by (simp add: recover_snapshot_and_tail_def gw'(1) RECORD_SIZE_def)
  then show ?thesis using t by blast
qed

lemma recover_refused:
  assumes "gateway_reachable A N L K ins gw" "gateway_dims A N L K" "K < 2 ^ 32" "\<not> orders_within A gw"
    and "\<forall>x. length (sha256 x) = 32" "checked_add applied 1 = Some (gw_expected_sequence gw)"
    and "encode_snapshot sha256 A N L K gw applied = Some (Inr sn)"
  shows "recover_snapshot_and_tail sha256 crc A N L K R (sn_bytes sn) tail = Some (Inl (RecSnapshot (SnGatewayState GsOrderLimit)))"
proof -
  have "gw_inv A N L K gw" "limited A (gw_risk gw)"
    using reachable_gateway_inv [OF assms(1,2)] reachable_limited [OF reachable_gateway_risk [OF assms(1,2)]] assms(2)
    by (simp_all add: gateway_dims_def)
  from snapshot_of_gateway [OF this(1) reachable_in_sequence [OF assms(1,2)] this(2) assms(2,3,5,6)] assms(4,7)
  have "decode_snapshot sha256 A N L K (sn_bytes sn) = Some (Inl (SnGatewayState GsOrderLimit))" by auto
  then show ?thesis by (simp add: recover_snapshot_and_tail_def map_err_def)
qed

lemma snapshot_taken:
  assumes "gateway_reachable A N L K ins gw" "gateway_dims A N L K" "K < 2 ^ 32"
    and "\<forall>x. length (sha256 x) = 32" "checked_add applied 1 = Some (gw_expected_sequence gw)"
  shows "\<exists>sn. encode_snapshot sha256 A N L K gw applied = Some (Inr sn)"
  using snapshot_of_gateway [OF _ reachable_in_sequence _ assms(2-5)] reachable_gateway_inv [OF assms(1,2)]
    reachable_limited [OF reachable_gateway_risk] assms(1,2) by (simp add: gateway_dims_def) blast

section \<open>Properties\<close>

text \<open>
  C6. Crash recovery reproduces the live gateway. Take any reachable gateway whose orders are within
  their limits, its snapshot at the journal cut, and the journal of any further commands with
  consecutive sequences, encoded on the wire and stored as records, whatever the gateway answered
  to them. Recovering from the snapshot bytes and the journal bytes succeeds, and the recovered
  gateway satisfies the whole invariant, has the same logical state as the gateway that processed
  the commands, exports the same state and encodes to the same snapshot at every later cut.
\<close>

theorem recovery_reproduces_gateway:
  assumes "gateway_reachable A N L K ins gw" "gateway_dims A N L K" "K < 2 ^ 32" "orders_within A gw"
    and "\<forall>x. length (sha256 x) = 32" "checked_add applied 1 = Some (gw_expected_sequence gw)"
    and "consecutive (applied + 1) commands" "uint applied + 1 + int (length commands) < 2 ^ 64"
  shows "\<exists>sn live recovered.
    encode_snapshot sha256 A N L K gw applied = Some (Inr sn) \<and>
    process_all A N L K R commands gw = Some live \<and>
    recover_snapshot_and_tail sha256 crc A N L K R (sn_bytes sn) (journal_image crc (applied + 1) (map encode_command commands))
      = Some (Inr recovered) \<and>
    gw_inv A N L K recovered \<and> gw_equiv A N L K live recovered \<and>
    gw_expected_sequence recovered = applied + 1 + of_nat (length commands) \<and>
    gateway_export_state L K recovered = gateway_export_state L K live \<and>
    (\<forall>cut. encode_snapshot sha256 A N L K recovered cut = encode_snapshot sha256 A N L K live cut)"
proof -
  obtain sn where sn: "encode_snapshot sha256 A N L K gw applied = Some (Inr sn)"
    using snapshot_taken [OF assms(1-3,5,6)] by blast
  obtain live recovered where t: "process_all A N L K R commands gw = Some live"
      "recover_snapshot_and_tail sha256 crc A N L K R (sn_bytes sn) (journal_image crc (applied + 1) (map encode_command commands)) = Some (Inr recovered)"
      "gw_inv A N L K live" "gw_inv A N L K recovered" "gw_equiv A N L K live recovered"
      "gw_expected_sequence live = applied + 1 + of_nat (length commands)"
    using recover_tail [OF assms(1-6) sn assms(7,8), of R crc] by blast
  have ex: "gateway_export_state L K recovered = gateway_export_state L K live" by (rule equiv_exports [OF t(3-5)])
  moreover have "encode_snapshot sha256 A N L K recovered cut = encode_snapshot sha256 A N L K live cut" for cut
    by (simp add: encode_snapshot_def ex)
  moreover have "gw_expected_sequence recovered = applied + 1 + of_nat (length commands)" using t(6) gw_equivD(3) [OF t(5)] by simp
  ultimately show ?thesis using sn t by blast
qed

theorem recovery_reproduces_gateway_witness:
  "\<exists>sn live recovered.
     encode_snapshot (\<lambda>_. replicate 32 7) 1 2 1 1 demo_gateway 0 = Some (Inr sn) \<and>
     process_all 1 2 1 1 4 [NewOrder demo_reserve] demo_gateway = Some live \<and>
     recover_snapshot_and_tail (\<lambda>_. replicate 32 7) (\<lambda>_. 5) 1 2 1 1 4 (sn_bytes sn)
       (journal_image (\<lambda>_. 5) 1 [encode_new_order demo_reserve]) = Some (Inr recovered) \<and>
     gateway_export_state 1 1 recovered = gateway_export_state 1 1 live"
  using recovery_reproduces_gateway [OF demo_gateway_reachable demo_gateway_dims _ demo_snapshot_parts(1) _ demo_snapshot_parts(2),
      of "\<lambda>_. replicate 32 7" "[NewOrder demo_reserve]" 4 "\<lambda>_. 5"]
  by (auto simp: demo_reserve_def)

end
