(* ===== verification/Journal_Worker.thy ===== *)
theory Journal_Worker
  imports Journal_Format
begin

text \<open>
  From the writer to the sink: what the persistence worker of the journal has put into its sink at
  every moment, as an invariant of all sequences of enqueues, batches, closing and shutdown.
\<close>

section \<open>What a sink promises\<close>

text \<open>
  The contract of \<open>DurableSink\<close>: a write appends a prefix of its argument or fails without effect, a
  successful flush makes everything written durable, and neither forgets what is durable.
\<close>

locale durable_sink =
  fixes put :: "'s sink_write"
    and flush :: "'s sink_flush"
    and content :: "'s \<Rightarrow> u8 list"
    and durable :: "'s \<Rightarrow> nat"
  assumes write_ok: "put s bs = (s', Inr n) \<Longrightarrow> n \<le> length bs \<and> content s' = content s @ take n bs \<and> durable s' = durable s"
    and write_err: "put s bs = (s', Inl e) \<Longrightarrow> content s' = content s \<and> durable s' = durable s"
    and flush_ok: "flush s = (s', Inr u) \<Longrightarrow> content s' = content s \<and> durable s' = length (content s)"
    and flush_err: "flush s = (s', Inl e) \<Longrightarrow> content s' = content s \<and> durable s \<le> durable s'"
begin

lemma write_all_content:
  assumes "write_all put s bs = Some (s', r)"
  shows "\<exists>n. content s' = content s @ take n bs \<and> durable s' = durable s \<and> (r = Inr () \<longrightarrow> length bs \<le> n)"
proof -
  have "w = put \<longrightarrow> (\<exists>n. content (fst y) = content s @ take n bs \<and> durable (fst y) = durable s \<and>
      (snd y = Inr () \<longrightarrow> length bs \<le> n))" if "write_all w s bs = Some y" for w s bs y
    using that
  proof (induction rule: write_all.raw_induct [rotated, consumes 1, case_names step])
    case (step rec w s bs y)
    show ?case
    proof (intro impI)
      assume w: "w = put"
      obtain s1 r1 where wr: "put s bs = (s1, r1)" by (cases "put s bs") auto
      note body = step(2) [unfolded w wr]
      show "\<exists>n. content (fst y) = content s @ take n bs \<and> durable (fst y) = durable s \<and>
        (snd y = Inr () \<longrightarrow> length bs \<le> n)"
      proof (cases "bs = []")
        case True
        then show ?thesis using body by auto
      next
        case nonempty: False
        show ?thesis
        proof (cases r1)
          case (Inl e)
          show ?thesis
          proof (cases "e = Interrupted")
            case True
            then have "rec put s1 bs = Some y" using body nonempty Inl by simp
            from step(1) [OF this] show ?thesis using write_err [OF wr [unfolded Inl]] by auto
          next
            case False
            then show ?thesis using body nonempty Inl write_err [OF wr [unfolded Inl]] by (auto intro: exI [of _ 0])
          qed
        next
          case (Inr k)
          note k = write_ok [OF wr [unfolded Inr]]
          show ?thesis
          proof (cases "k = 0")
            case True
            then show ?thesis using body nonempty Inr k by (auto intro: exI [of _ 0])
          next
            case False
            then have "rec put s1 (drop k bs) = Some y" using body nonempty Inr k by simp
            from step(1) [OF this] obtain n where n: "content (fst y) = content s1 @ take n (drop k bs)"
              "durable (fst y) = durable s1" "snd y = Inr () \<longrightarrow> length (drop k bs) \<le> n" by blast
            have "content (fst y) = content s @ take (k + n) bs" using n(1) k by (simp add: take_add)
            then show ?thesis using n k by (intro exI [of _ "k + n"]) auto
          qed
        qed
      qed
    qed
  qed
  from this [OF assms] show ?thesis by simp
qed

lemma write_batch_content:
  assumes "write_batch put s batch = Some (s', r)"
  shows "\<exists>n. content s' = content s @ take n (concat batch) \<and> durable s' = durable s \<and>
    (r = Inr () \<longrightarrow> length (concat batch) \<le> n)"
  using assms
proof (induction batch arbitrary: s)
  case Nil
  then show ?case by auto
next
  case (Cons bs batch)
  obtain s1 r1 where w: "write_all put s bs = Some (s1, r1)" using Cons.prems by (auto split: option.splits)
  obtain n where n: "content s1 = content s @ take n bs" "durable s1 = durable s" "r1 = Inr () \<longrightarrow> length bs \<le> n"
    using write_all_content [OF w] by blast
  show ?case
  proof (cases r1)
    case (Inl e)
    then show ?thesis using Cons.prems w n by (intro exI [of _ "min n (length bs)"]) (auto simp: min_def)
  next
    case (Inr u)
    then have "write_batch put s1 batch = Some (s', r)" using Cons.prems w by simp
    from Cons.IH [OF this] obtain m where m: "content s' = content s1 @ take m (concat batch)"
      "durable s' = durable s1" "r = Inr () \<longrightarrow> length (concat batch) \<le> m" by blast
    then show ?thesis using n Inr by (intro exI [of _ "length bs + m"]) auto
  qed
qed

end

text \<open>
  A sink that does not answer \<open>Interrupted\<close> forever lets the worker return; one without faults lets
  it succeed.
\<close>

locale patient_sink = durable_sink +
  fixes patience :: "'a \<Rightarrow> nat" and faultless :: "'a \<Rightarrow> bool"
  assumes write_patience: "put s bs = (s', r) \<Longrightarrow> patience s' \<le> patience s"
    and interrupted: "put s bs = (s', Inl Interrupted) \<Longrightarrow> patience s' < patience s"
    and write_faultless: "\<lbrakk>faultless s; put s bs = (s', r); bs \<noteq> []\<rbrakk> \<Longrightarrow> faultless s' \<and> r \<noteq> Inr (0 :: nat) \<and> (\<forall>e. r = Inl e \<longrightarrow> e = Interrupted)"
    and flush_faultless: "\<lbrakk>faultless s; flush s = (s', x)\<rbrakk> \<Longrightarrow> faultless s' \<and> x = Inr ()"
begin

lemma write_all_returns: "\<exists>s' r. write_all put s bs = Some (s', r) \<and> (faultless s \<longrightarrow> faultless s' \<and> r = Inr ())"
proof (induction "patience s + length bs" arbitrary: s bs rule: less_induct)
  case less
  obtain s1 r1 where w: "put s bs = (s1, r1)" by (cases "put s bs") auto
  show ?case
  proof (cases "bs = []")
    case True
    then show ?thesis by (subst write_all.simps) simp
  next
    case nonempty: False
    show ?thesis
    proof (cases r1)
      case (Inl e)
      show ?thesis
      proof (cases "e = Interrupted")
        case True
        then have "write_all put s bs = write_all put s1 bs" using w nonempty Inl by (subst write_all.simps) simp
        moreover have "faultless s \<longrightarrow> faultless s1" using write_faultless [OF _ w nonempty] by blast
        moreover have "patience s1 + length bs < patience s + length bs"
          using interrupted [of s bs s1] w Inl True by simp
        ultimately show ?thesis using less [of s1 bs] by auto
      next
        case False
        then have "write_all put s bs = Some (s1, Inl e)" using w nonempty Inl by (subst write_all.simps) simp
        moreover have "\<not> faultless s" using write_faultless [OF _ w nonempty] False Inl by blast
        ultimately show ?thesis by blast
      qed
    next
      case (Inr k)
      note k = write_ok [OF w [unfolded Inr]]
      show ?thesis
      proof (cases "k = 0")
        case True
        then have "write_all put s bs = Some (s1, Inl WriteZero)" using w nonempty Inr by (subst write_all.simps) simp
        moreover have "\<not> faultless s" using write_faultless [OF _ w nonempty] True Inr by blast
        ultimately show ?thesis by blast
      next
        case False
        then have "write_all put s bs = write_all put s1 (drop k bs)"
          using w nonempty Inr k by (subst write_all.simps) simp
        moreover have "faultless s \<longrightarrow> faultless s1" using write_faultless [OF _ w nonempty] by blast
        moreover have "patience s1 + length (drop k bs) < patience s + length bs"
          using write_patience [OF w] nonempty False k by (intro add_le_less_mono) (auto intro: diff_less)
        ultimately show ?thesis using less [of s1 "drop k bs"] by auto
      qed
    qed
  qed
qed

lemma write_batch_returns:
  "\<exists>s' r. write_batch put s batch = Some (s', r) \<and> (faultless s \<longrightarrow> faultless s' \<and> r = Inr ())"
proof (induction batch arbitrary: s)
  case (Cons bs batch)
  obtain s1 r1 where w: "write_all put s bs = Some (s1, r1)" "faultless s \<longrightarrow> faultless s1 \<and> r1 = Inr ()"
    using write_all_returns by blast
  then show ?case using Cons.IH [of s1] by (cases r1) auto
qed simp

end

lemma file_write_cases:
  assumes "file_write f bs = (f', r)"
  obtains e script where "f_script f = Fail e # script" "f' = f\<lparr>f_script := script\<rparr>" "r = Inl e"
  | n script where "f_script f = Limit n # script" "r = Inr (min (Suc n) (length bs))"
      "f' = f\<lparr>f_script := script, f_bytes := f_bytes f @ take (Suc n) bs\<rparr>"
  | "f_script f = []" "r = Inr (length bs)" "f' = f\<lparr>f_bytes := f_bytes f @ bs\<rparr>"
  using assms unfolding file_write_def by (auto split: list.splits io_answer.splits)

definition is_fault :: "io_answer \<Rightarrow> bool" where
  "is_fault a \<longleftrightarrow> (case a of Fail e \<Rightarrow> e \<noteq> Interrupted | Limit n \<Rightarrow> False)"

definition file_faultless :: "disk_file \<Rightarrow> bool" where
  "file_faultless f \<longleftrightarrow> list_all (\<lambda>a. \<not> is_fault a) (f_script f) \<and> list_all (\<lambda>a. a = None) (f_sync f)"

interpretation fsink: patient_sink file_write file_flush f_bytes f_durable "\<lambda>f. length (f_script f)" file_faultless
proof unfold_locales
  show "n \<le> length bs \<and> f_bytes f' = f_bytes f @ take n bs \<and> f_durable f' = f_durable f"
    if "file_write f bs = (f', Inr n)" for f bs f' n
    using that by (cases rule: file_write_cases) (auto simp: min_def)
  show "f_bytes f' = f_bytes f \<and> f_durable f' = f_durable f"
    if "file_write f bs = (f', Inl e)" for f bs f' e
    using that by (cases rule: file_write_cases) auto
  show "f_bytes f' = f_bytes f \<and> f_durable f' = length (f_bytes f)" if "file_flush f = (f', Inr u)" for f f' u
    using that by (auto simp: file_flush_def split: list.splits option.splits)
  show "f_bytes f' = f_bytes f \<and> f_durable f \<le> f_durable f'" if "file_flush f = (f', Inl e)" for f f' e
    using that by (auto simp: file_flush_def split: list.splits option.splits)
  show "length (f_script f') \<le> length (f_script f)" if "file_write f bs = (f', r)" for f bs f' r
    using that by (cases rule: file_write_cases) auto
  show "length (f_script f') < length (f_script f)" if "file_write f bs = (f', Inl Interrupted)" for f bs f'
    using that by (cases rule: file_write_cases) auto
  show "file_faultless f' \<and> r \<noteq> Inr (0 :: nat) \<and> (\<forall>e. r = Inl e \<longrightarrow> e = Interrupted)"
    if "file_faultless f" "file_write f bs = (f', r)" "bs \<noteq> []" for f bs f' r
    using that(2,1,3) by (cases rule: file_write_cases) (auto simp: file_faultless_def is_fault_def)
  show "file_faultless f' \<and> r = Inr ()" if "file_faultless f" "file_flush f = (f', r)" for f f' r
    using that by (auto simp: file_faultless_def file_flush_def split: list.splits option.splits)
qed

section \<open>The journal as a system\<close>

text \<open>
  Writer, worker and the memory they share. \<open>js_sent\<close> records the payloads \<open>enqueue\<close> accepted; the writer is gone
  once it is closed.
\<close>

datatype journal_op = Enqueue "u8 list" | Close | Drain | Shutdown

record 's journal_system =
  js_link :: journal_link
  js_writer :: "journal_writer option"
  js_worker :: "'s persistence_worker"
  js_sent :: "u8 list list"

fun journal_step ::
  "crc32c \<Rightarrow> 's sink_write \<Rightarrow> 's sink_flush \<Rightarrow> nat \<Rightarrow> 's journal_system \<Rightarrow> journal_op \<Rightarrow> 's journal_system option"
where
  "journal_step crc put flush BATCH js (Enqueue payload) =
     (case js_writer js of
        None \<Rightarrow> Some js
      | Some w \<Rightarrow>
          map_option (\<lambda>(link, w, r). js\<lparr>js_link := link, js_writer := Some w,
              js_sent := js_sent js @ (case r of Inl _ \<Rightarrow> [] | Inr _ \<Rightarrow> [payload])\<rparr>)
            (enqueue crc (js_link js) w payload))"
| "journal_step crc put flush BATCH js Close =
     (case js_writer js of
        None \<Rightarrow> Some js
      | Some _ \<Rightarrow> Some (js\<lparr>js_link := close (js_link js), js_writer := None\<rparr>))"
| "journal_step crc put flush BATCH js Drain =
     map_option (\<lambda>(link, wk, _). js\<lparr>js_link := link, js_worker := wk\<rparr>)
       (drain_batch crc put flush BATCH (js_link js) (js_worker js))"
| "journal_step crc put flush BATCH js Shutdown =
     map_option (\<lambda>(link, wk, _). js\<lparr>js_link := link, js_worker := wk\<rparr>)
       (shutdown crc put flush BATCH (js_link js) (js_worker js))"

inductive journal_reachable ::
  "crc32c \<Rightarrow> 's sink_write \<Rightarrow> 's sink_flush \<Rightarrow> nat \<Rightarrow> u64 \<Rightarrow> 's \<Rightarrow> 's journal_system \<Rightarrow> bool"
  for crc put flush BATCH first_sequence sink
where
  start: "\<lbrakk>spsc_try_new RING_CAPACITY = Inr q; journal_split q first_sequence = (link, w, rd);
      worker_new BATCH link rd sink policy = (link', Inr wk)\<rbrakk>
    \<Longrightarrow> journal_reachable crc put flush BATCH first_sequence sink
          \<lparr>js_link = link', js_writer = Some w, js_worker = wk, js_sent = []\<rparr>"
| step: "\<lbrakk>journal_reachable crc put flush BATCH first_sequence sink js; journal_step crc put flush BATCH js op = Some js'\<rbrakk>
    \<Longrightarrow> journal_reachable crc put flush BATCH first_sequence sink js'"

section \<open>The invariant\<close>

text \<open>
  The accepted payloads are, in order, the durable ones, the written ones, those taken from the ring
  by a batch that failed, and those still queued. The sink holds what it held at the start, the
  records of the first two groups, and after a failure a part of the third.
\<close>

definition segments ::
  "crc32c \<Rightarrow> ('s \<Rightarrow> u8 list) \<Rightarrow> ('s \<Rightarrow> nat) \<Rightarrow> u64 \<Rightarrow> u8 list \<Rightarrow> journal_link \<Rightarrow> 's persistence_worker \<Rightarrow> bool
     \<Rightarrow> u8 list list \<Rightarrow> u8 list list \<Rightarrow> u8 list list \<Rightarrow> u8 list list \<Rightarrow> bool"
where
  "segments crc content durable f base link wk closed ds ws ls qs \<longleftrightarrow>
     payloads_ok (ds @ ws @ ls @ qs) \<and> unat f + length (ds @ ws @ ls @ qs) < 2 ^ 64 \<and>
     channel_ok RING_CAPACITY (jl_ring link) (journal_records crc (f + of_nat (length (ds @ ws @ ls))) qs) \<and>
     rd_expected_sequence (pw_reader wk) = f + of_nat (length (ds @ ws @ ls)) \<and> \<not> rd_poisoned (pw_reader wk) \<and>
     (\<exists>n. content (pw_sink wk) = base @ journal_image crc f (ds @ ws) @
        take n (journal_image crc (f + of_nat (length (ds @ ws))) ls)) \<and>
     length base + 64 * length ds \<le> durable (pw_sink wk) \<and>
     (\<not> pw_poisoned wk \<longrightarrow> ls = []) \<and>
     jl_status link = Some \<lparr>ss_next_written_sequence = f + of_nat (length (ds @ ws)),
       ss_next_durable_sequence = f + of_nat (length ds), ss_producer_closed = closed,
       ss_poisoned = pw_poisoned wk, ss_shutdown_complete = rd_shutdown_complete (pw_reader wk)\<rparr> \<and>
     (rd_shutdown_complete (pw_reader wk) \<longrightarrow> closed \<and> ws = [] \<and> ls = [] \<and> qs = [])"

definition journal_inv ::
  "crc32c \<Rightarrow> ('s \<Rightarrow> u8 list) \<Rightarrow> ('s \<Rightarrow> nat) \<Rightarrow> u64 \<Rightarrow> u8 list \<Rightarrow> 's journal_system \<Rightarrow> bool"
where
  "journal_inv crc content durable f base js \<longleftrightarrow>
     (\<exists>ds ws ls qs. js_sent js = ds @ ws @ ls @ qs \<and>
        segments crc content durable f base (js_link js) (js_worker js) (js_writer js = None) ds ws ls qs) \<and>
     (\<forall>w. js_writer js = Some w \<longrightarrow> jw_next_sequence w = f + of_nat (length (js_sent js)))"

lemma journal_invI:
  assumes "js_sent js = ds @ ws @ ls @ qs"
    and "segments crc content durable f base (js_link js) (js_worker js) (js_writer js = None) ds ws ls qs"
    and "\<And>w. js_writer js = Some w \<Longrightarrow> jw_next_sequence w = f + of_nat (length (js_sent js))"
  shows "journal_inv crc content durable f base js"
  using assms unfolding journal_inv_def by blast

lemma checked_succ:
  assumes "unat f + k < 2 ^ 64 - 1"
  shows "checked_add (f + of_nat k) 1 = Some (f + of_nat (Suc k) :: u64)"
proof -
  have "unat (of_nat k :: u64) = k" using assms by (simp add: unat_of_nat)
  then have "unat (f + of_nat k) = unat f + k" using assms by (simp add: unat_word_ariths)
  then have "uint (f + of_nat k) = int (unat f + k)" by (metis uint_nat)
  moreover have "int (unat f + k) < int (2 ^ 64 - 1)" using assms by (simp only: of_nat_less_iff)
  ultimately have "uint (f + of_nat k) + uint (1 :: u64) < 2 ^ LENGTH(64)" by simp
  moreover have "f + of_nat k + 1 = (f + of_nat (Suc k) :: u64)" by (simp add: algebra_simps)
  ultimately show ?thesis by (simp only: checked_add_def if_True)
qed

lemma read_record_ok:
  assumes "channel_ok RING_CAPACITY (jl_ring link) (journal_records crc (rd_expected_sequence rd) qs)"
    and "\<not> rd_poisoned rd" "payloads_ok qs" "unat (rd_expected_sequence rd) + length qs < 2 ^ 64"
  shows "\<exists>ch. (case qs of
      [] \<Rightarrow> read_record crc link rd = Some (link\<lparr>jl_ring := ch\<rparr>, rd, Inl ReadEmpty) \<and> channel_ok RING_CAPACITY ch []
    | p # qs' \<Rightarrow> read_record crc link rd = Some (link\<lparr>jl_ring := ch\<rparr>,
        rd\<lparr>rd_expected_sequence := rd_expected_sequence rd + 1\<rparr>, Inr (record_of crc (rd_expected_sequence rd) p)) \<and>
        channel_ok RING_CAPACITY ch (journal_records crc (rd_expected_sequence rd + 1) qs'))"
proof (cases qs)
  case Nil
  then show ?thesis using chan.pop_law [OF assms(1)] assms(2) by (auto simp: read_record_def)
next
  case (Cons p qs')
  obtain ch where ch: "try_pop RING_CAPACITY (jl_ring link) = Some (ch, Some (record_of crc (rd_expected_sequence rd) p))"
    "channel_ok RING_CAPACITY ch (journal_records crc (rd_expected_sequence rd + 1) qs')"
    using chan.pop_law [OF assms(1)] Cons by auto
  have "checked_add (rd_expected_sequence rd) 1 = Some (rd_expected_sequence rd + 1)"
    using checked_succ [of "rd_expected_sequence rd" 0] assms(4) Cons by simp
  then show ?thesis using ch assms(2,3) Cons record_of_fields [of p crc "rd_expected_sequence rd"]
    by (auto simp: read_record_def Let_def)
qed

lemma read_batch_ok:
  assumes "channel_ok RING_CAPACITY (jl_ring link) (journal_records crc (rd_expected_sequence rd) qs)"
    and "\<not> rd_poisoned rd" "payloads_ok qs" "unat (rd_expected_sequence rd) + length qs < 2 ^ 64"
  shows "\<exists>ch. read_batch crc n link rd = Some (link\<lparr>jl_ring := ch\<rparr>,
      rd\<lparr>rd_expected_sequence := rd_expected_sequence rd + of_nat (length (take n qs))\<rparr>,
      Inr (map encode (journal_records crc (rd_expected_sequence rd) (take n qs)))) \<and>
    channel_ok RING_CAPACITY ch
      (journal_records crc (rd_expected_sequence rd + of_nat (length (take n qs))) (drop n qs))"
  using assms
proof (induction n arbitrary: link rd qs)
  case 0
  then show ?case by (intro exI [of _ "jl_ring link"]) simp
next
  case (Suc n)
  note r = read_record_ok [OF Suc.prems]
  show ?case
  proof (cases qs)
    case Nil
    then show ?thesis using r by auto
  next
    case (Cons p qs')
    let ?rd = "rd\<lparr>rd_expected_sequence := rd_expected_sequence rd + 1\<rparr>"
    obtain ch where ch: "read_record crc link rd = Some (link\<lparr>jl_ring := ch\<rparr>, ?rd, Inr (record_of crc (rd_expected_sequence rd) p))"
      "channel_ok RING_CAPACITY ch (journal_records crc (rd_expected_sequence rd + 1) qs')"
      using r Cons by auto
    have "unat (rd_expected_sequence rd + 1) = unat (rd_expected_sequence rd) + 1"
      using Suc.prems(4) Cons by (simp add: unat_word_ariths)
    then have "\<exists>ch'. read_batch crc n (link\<lparr>jl_ring := ch\<rparr>) ?rd = Some (link\<lparr>jl_ring := ch'\<rparr>,
        ?rd\<lparr>rd_expected_sequence := rd_expected_sequence rd + 1 + of_nat (length (take n qs'))\<rparr>,
        Inr (map encode (journal_records crc (rd_expected_sequence rd + 1) (take n qs')))) \<and>
      channel_ok RING_CAPACITY ch' (journal_records crc (rd_expected_sequence rd + 1 + of_nat (length (take n qs'))) (drop n qs'))"
      using Suc.IH [of "link\<lparr>jl_ring := ch\<rparr>" ?rd qs'] ch(2) Suc.prems(2-4) Cons by simp
    then obtain ch' where "read_batch crc n (link\<lparr>jl_ring := ch\<rparr>) ?rd = Some (link\<lparr>jl_ring := ch'\<rparr>,
        ?rd\<lparr>rd_expected_sequence := rd_expected_sequence rd + 1 + of_nat (length (take n qs'))\<rparr>,
        Inr (map encode (journal_records crc (rd_expected_sequence rd + 1) (take n qs'))))"
      "channel_ok RING_CAPACITY ch' (journal_records crc (rd_expected_sequence rd + 1 + of_nat (length (take n qs'))) (drop n qs'))"
      by blast
    then show ?thesis using ch(1) Cons by (intro exI [of _ ch']) (simp add: add.assoc)
  qed
qed

lemma offset_sum:
  assumes "unat f + k < 2 ^ 64"
  shows "unat (f + of_nat k :: u64) = unat f + k"
proof -
  have "unat (of_nat k :: u64) = k" using assms by (simp add: unat_of_nat)
  then show ?thesis using assms by (simp add: unat_word_ariths)
qed

lemma segmentsD:
  assumes "segments crc content durable f base link wk closed ds ws ls qs" "\<not> pw_poisoned wk"
  shows "ls = []" "payloads_ok (ds @ ws @ qs)" "unat f + length (ds @ ws @ qs) < 2 ^ 64"
    "channel_ok RING_CAPACITY (jl_ring link) (journal_records crc (f + of_nat (length (ds @ ws))) qs)"
    "rd_expected_sequence (pw_reader wk) = f + of_nat (length (ds @ ws))" "\<not> rd_poisoned (pw_reader wk)"
    "content (pw_sink wk) = base @ journal_image crc f (ds @ ws)"
    "length base + 64 * length ds \<le> durable (pw_sink wk)"
    "jl_status link = Some \<lparr>ss_next_written_sequence = f + of_nat (length (ds @ ws)),
       ss_next_durable_sequence = f + of_nat (length ds), ss_producer_closed = closed,
       ss_poisoned = False, ss_shutdown_complete = rd_shutdown_complete (pw_reader wk)\<rparr>"
    "rd_shutdown_complete (pw_reader wk) \<Longrightarrow> closed \<and> ws = [] \<and> qs = []"
  using assms by (auto simp: segments_def)

lemma image_concat: "concat (map encode (journal_records crc s ps)) = journal_image crc s ps"
  by (simp add: journal_image_def)

lemma length_content: "payloads_ok ps \<Longrightarrow> length (base @ journal_image crc f ps) = length base + 64 * length ps"
  by (simp add: length_journal_image)

context patient_sink
begin

lemma drain_batch_segments:
  assumes seg: "segments crc content durable f base link wk closed ds ws [] qs" and np: "\<not> pw_poisoned wk"
  shows "\<exists>link' wk' r ds' ws' ls'. drain_batch crc put flush BATCH link wk = Some (link', wk', r) \<and>
    segments crc content durable f base link' wk' closed ds' ws' ls' (drop BATCH qs) \<and>
    ds' @ ws' @ ls' = ds @ ws @ take BATCH qs \<and>
    (if pw_poisoned wk' then \<exists>e. r = Inl e else r = Inr (min BATCH (length qs))) \<and>
    (faultless (pw_sink wk) \<longrightarrow> \<not> pw_poisoned wk' \<and> faultless (pw_sink wk'))"
proof -
  note S = segmentsD [OF seg np]
  let ?rd = "pw_reader wk" and ?bs = "take BATCH qs" and ?k = "f + of_nat (length (ds @ ws))"
  let ?rd' = "?rd\<lparr>rd_expected_sequence := ?k + of_nat (length ?bs)\<rparr>"
  have fits: "unat ?k + length qs < 2 ^ 64"
    using S(3) offset_sum [of f "length (ds @ ws)"] by simp
  obtain ch where ch: "read_batch crc BATCH link ?rd =
      Some (link\<lparr>jl_ring := ch\<rparr>, ?rd', Inr (map encode (journal_records crc ?k ?bs)))"
      "channel_ok RING_CAPACITY ch (journal_records crc (?k + of_nat (length ?bs)) (drop BATCH qs))"
    using read_batch_ok [of link crc ?rd qs BATCH, unfolded S(5)] S(2,4,6) fits by auto
  obtain s' r where w: "write_batch put (pw_sink wk) (map encode (journal_records crc ?k ?bs)) = Some (s', r)"
      "faultless (pw_sink wk) \<longrightarrow> faultless s' \<and> r = Inr ()"
    using write_batch_returns by blast
  obtain n where n: "content s' = content (pw_sink wk) @ take n (journal_image crc ?k ?bs)"
      "durable s' = durable (pw_sink wk)" "r = Inr () \<longrightarrow> length (journal_image crc ?k ?bs) \<le> n"
    using write_batch_content [OF w(1)] unfolding image_concat by blast
  have split: "ds @ ws @ qs = ds @ ws @ ?bs @ drop BATCH qs" by simp
  have ok: "payloads_ok (ds @ ws @ ?bs @ drop BATCH qs)" "unat f + length (ds @ ws @ ?bs @ drop BATCH qs) < 2 ^ 64"
    using S(2,3) unfolding split [symmetric] by blast+
  have fin: "rd_shutdown_complete ?rd \<Longrightarrow> closed \<and> ws = [] \<and> ?bs = [] \<and> drop BATCH qs = []" using S(10) by simp
  show ?thesis
  proof (cases r)
    case (Inl e)
    define wk' where "wk' = wk\<lparr>pw_reader := ?rd', pw_sink := s', pw_poisoned := True\<rparr>"
    have nd: "\<not> rd_shutdown_complete ?rd" using w(1) Inl fin by auto
    have "segments crc content durable f base (poison (link\<lparr>jl_ring := ch\<rparr>)) wk' closed ds ws ?bs (drop BATCH qs)"
      using ch(2) ok S(6-9) n(1,2) nd by (auto simp: segments_def wk'_def poison_def add.assoc)
    moreover have "drain_batch crc put flush BATCH link wk =
        Some (poison (link\<lparr>jl_ring := ch\<rparr>), wk', Inl (PersistIo e))"
      using np ch(1) w(1) Inl by (simp add: drain_batch_def fail_def wk'_def Let_def)
    moreover have "pw_poisoned wk'" "\<not> faultless (pw_sink wk)" using w(2) Inl by (auto simp: wk'_def)
    ultimately show ?thesis by auto
  next
    case (Inr u)
    have c': "content s' = base @ journal_image crc f (ds @ ws @ ?bs)" using n(1,3) Inr S(7) by (simp add: add.assoc)
    have len: "length (content s') = length base + 64 * (length ds + length ws + length ?bs)"
      unfolding c' by (subst length_content) (use ok(1) in \<open>simp_all del: append_take_drop_id\<close>)
    let ?link = "if ?bs \<noteq> [] then publish_written (?k + of_nat (length ?bs)) (link\<lparr>jl_ring := ch\<rparr>) else link\<lparr>jl_ring := ch\<rparr>"
    have status: "jl_ring ?link = ch" "jl_status ?link = Some \<lparr>ss_next_written_sequence = f + of_nat (length (ds @ ws @ ?bs)),
       ss_next_durable_sequence = f + of_nat (length ds), ss_producer_closed = closed,
       ss_poisoned = False, ss_shutdown_complete = rd_shutdown_complete ?rd\<rparr>"
      using S(9) by (auto simp: publish_written_def add.assoc)
    have unflushed: "segments crc content durable f base ?link (wk\<lparr>pw_reader := ?rd', pw_sink := s'\<rparr>) closed ds (ws @ ?bs) [] (drop BATCH qs)"
      using ch(2) ok S(6,8) n(2) np fin c' unfolding segments_def status by (auto simp: add.assoc)
    show ?thesis
    proof (cases "?bs \<noteq> [] \<and> pw_policy wk = EveryBatch")
      case False
      then have "drain_batch crc put flush BATCH link wk = Some (?link, wk\<lparr>pw_reader := ?rd', pw_sink := s'\<rparr>, Inr (min BATCH (length qs)))"
        using np ch(1) w(1) Inr by (auto simp: drain_batch_def Let_def)
      then show ?thesis using unflushed np w(2)
        by (intro exI [of _ ?link] exI [of _ "wk\<lparr>pw_reader := ?rd', pw_sink := s'\<rparr>"] exI [of _ "Inr (min BATCH (length qs))"]
            exI [of _ ds] exI [of _ "ws @ ?bs"] exI [of _ "[]"]) simp
    next
      case True
      obtain s2 r2 where fl: "flush s' = (s2, r2)" by (cases "flush s'") auto
      show ?thesis
      proof (cases r2)
        case (Inl e)
        note fe = flush_err [OF fl [unfolded Inl]]
        define wk' where "wk' = wk\<lparr>pw_reader := ?rd', pw_sink := s2, pw_poisoned := True\<rparr>"
        have "drain_batch crc put flush BATCH link wk = Some (poison ?link, wk', Inl (PersistIo e))"
          using np ch(1) w(1) Inr True fl Inl by (auto simp: drain_batch_def Let_def fail_def wk'_def)
        moreover have "segments crc content durable f base (poison ?link) wk' closed ds (ws @ ?bs) [] (drop BATCH qs)"
          using unflushed fe unfolding segments_def poison_def wk'_def by (auto simp: add.assoc)
        moreover have "pw_poisoned wk'" "\<not> faultless (pw_sink wk)"
          using w(2) flush_faultless [OF _ fl] Inl by (auto simp: wk'_def)
        ultimately show ?thesis
          by (intro exI [of _ "poison ?link"] exI [of _ wk'] exI [of _ "Inl (PersistIo e)"] exI [of _ ds]
              exI [of _ "ws @ ?bs"] exI [of _ "[]"]) auto
      next
        case (Inr u2)
        note fo = flush_ok [OF fl [unfolded Inr]]
        let ?l2 = "publish_durable (?k + of_nat (length ?bs)) ?link" and ?wk2 = "wk\<lparr>pw_reader := ?rd', pw_sink := s2\<rparr>"
        have "drain_batch crc put flush BATCH link wk = Some (?l2, ?wk2, Inr (min BATCH (length qs)))"
          using np ch(1) w(1) \<open>r = Inr u\<close> True fl Inr by (auto simp: drain_batch_def Let_def)
        moreover have "segments crc content durable f base ?l2 ?wk2 closed (ds @ ws @ ?bs) [] [] (drop BATCH qs)"
          using unflushed fo c' len unfolding segments_def publish_durable_def by (auto simp: add.assoc)
        ultimately show ?thesis using np w(2) flush_faultless [OF _ fl]
          by (intro exI [of _ ?l2] exI [of _ ?wk2] exI [of _ "Inr (min BATCH (length qs))"] exI [of _ "ds @ ws @ ?bs"]
              exI [of _ "[]"]) auto
      qed
    qed
  qed
qed

lemma drain_all_segments:
  assumes "segments crc content durable f base link wk closed ds ws [] qs" "\<not> pw_poisoned wk" "0 < BATCH"
  shows "\<exists>link' wk' r ds' ws' ls' qs'. drain_all crc put flush BATCH link wk = Some (link', wk', r) \<and>
    segments crc content durable f base link' wk' closed ds' ws' ls' qs' \<and> ds' @ ws' @ ls' @ qs' = ds @ ws @ qs \<and>
    (if pw_poisoned wk' then \<exists>e. r = Inl e else r = Inr () \<and> qs' = []) \<and>
    (faultless (pw_sink wk) \<longrightarrow> \<not> pw_poisoned wk' \<and> faultless (pw_sink wk'))"
  using assms(1,2)
proof (induction "length qs" arbitrary: link wk ds ws qs rule: less_induct)
  case less
  obtain link1 wk1 r1 ds1 ws1 ls1 where d: "drain_batch crc put flush BATCH link wk = Some (link1, wk1, r1)"
      "segments crc content durable f base link1 wk1 closed ds1 ws1 ls1 (drop BATCH qs)"
      "ds1 @ ws1 @ ls1 = ds @ ws @ take BATCH qs"
      "if pw_poisoned wk1 then \<exists>e. r1 = Inl e else r1 = Inr (min BATCH (length qs))"
      "faultless (pw_sink wk) \<longrightarrow> \<not> pw_poisoned wk1 \<and> faultless (pw_sink wk1)"
    using drain_batch_segments [OF less.prems] by blast
  have sum: "ds1 @ ws1 @ ls1 @ drop BATCH qs = ds @ ws @ qs"
    using d(3) by (metis append.assoc append_take_drop_id)
  show ?case
  proof (cases "pw_poisoned wk1")
    case True
    then obtain e where "r1 = Inl e" using d(4) by auto
    then have "drain_all crc put flush BATCH link wk = Some (link1, wk1, Inl e)"
      using d(1) by (subst drain_all.simps) simp
    then show ?thesis using d(2,5) sum True by auto
  next
    case False
    have ls: "ls1 = []" using segmentsD(1) [OF d(2) False] .
    have r1: "r1 = Inr (min BATCH (length qs))" using d(4) False by simp
    show ?thesis
    proof (cases "qs = []")
      case True
      then have "drain_all crc put flush BATCH link wk = Some (link1, wk1, Inr ())"
        using d(1) r1 by (subst drain_all.simps) simp
      then show ?thesis using d(2,5) sum False True by auto
    next
      case nonempty: False
      have "min BATCH (length qs) \<noteq> 0" using nonempty assms(3) by simp
      then obtain k where "r1 = Inr (Suc k)" using r1 by (metis not0_implies_Suc)
      then have "drain_all crc put flush BATCH link wk = drain_all crc put flush BATCH link1 wk1"
        using d(1) by (subst drain_all.simps) simp
      moreover have "length (drop BATCH qs) < length qs" using nonempty assms(3) by simp
      moreover have "ds1 @ ws1 @ drop BATCH qs = ds @ ws @ qs" using sum ls by simp
      ultimately show ?thesis using less.hyps [OF _ d(2) [unfolded ls] False] d(5) by metis
    qed
  qed
qed

lemma shutdown_segments:
  assumes seg: "segments crc content durable f base link wk closed ds ws ls qs" and B: "0 < BATCH"
  shows "\<exists>link' wk' r ds' ws' ls' qs'. shutdown crc put flush BATCH link wk = Some (link', wk', r) \<and>
    segments crc content durable f base link' wk' closed ds' ws' ls' qs' \<and> ds' @ ws' @ ls' @ qs' = ds @ ws @ ls @ qs \<and>
    (r = Inr () \<longrightarrow> rd_shutdown_complete (pw_reader wk') \<and> \<not> pw_poisoned wk') \<and>
    (faultless (pw_sink wk) \<and> closed \<and> \<not> pw_poisoned wk \<longrightarrow> r = Inr () \<and> faultless (pw_sink wk'))"
proof (cases "pw_poisoned wk \<or> rd_shutdown_complete (pw_reader wk) \<or> \<not> producer_is_closed link")
  case True
  have closed: "producer_is_closed link = closed" using seg by (simp add: producer_is_closed_def segments_def)
  from True obtain r where "shutdown crc put flush BATCH link wk = Some (link, wk, r)"
      "r = Inr () \<longrightarrow> rd_shutdown_complete (pw_reader wk) \<and> \<not> pw_poisoned wk"
      "closed \<and> \<not> pw_poisoned wk \<longrightarrow> r = Inr ()"
    by (cases "pw_poisoned wk"; cases "rd_shutdown_complete (pw_reader wk)") (auto simp: shutdown_def closed)
  then show ?thesis using seg by blast
next
  case False
  then have np: "\<not> pw_poisoned wk" and open1: "\<not> rd_shutdown_complete (pw_reader wk)" "producer_is_closed link" by auto
  have ls: "ls = []" using segmentsD(1) [OF seg np] .
  have closed: "closed" using segmentsD(9) [OF seg np] open1 by (simp add: producer_is_closed_def)
  obtain link1 wk1 r1 ds1 ws1 ls1 qs1 where d: "drain_all crc put flush BATCH link wk = Some (link1, wk1, r1)"
      "segments crc content durable f base link1 wk1 closed ds1 ws1 ls1 qs1" "ds1 @ ws1 @ ls1 @ qs1 = ds @ ws @ qs"
      "if pw_poisoned wk1 then \<exists>e. r1 = Inl e else r1 = Inr () \<and> qs1 = []"
      "faultless (pw_sink wk) \<longrightarrow> \<not> pw_poisoned wk1 \<and> faultless (pw_sink wk1)"
    using drain_all_segments [OF seg [unfolded ls] np B] by blast
  show ?thesis
  proof (cases "pw_poisoned wk1")
    case True
    then obtain e where "r1 = Inl e" using d(4) by auto
    then have "shutdown crc put flush BATCH link wk = Some (link1, wk1, Inl e)"
      using np open1 d(1) by (simp add: shutdown_def)
    then show ?thesis using d(2,3,5) ls True by auto
  next
    case np1: False
    note S = segmentsD [OF d(2) np1]
    have r1: "r1 = Inr ()" "qs1 = []" using d(4) np1 by auto
    obtain s2 r2 where fl: "flush (pw_sink wk1) = (s2, r2)" by (cases "flush (pw_sink wk1)") auto
    show ?thesis
    proof (cases r2)
      case (Inl e)
      let ?wk = "wk1\<lparr>pw_sink := s2, pw_poisoned := True\<rparr>"
      have "shutdown crc put flush BATCH link wk = Some (poison link1, ?wk, Inl (PersistIo e))"
        using np open1 d(1) r1 fl Inl by (simp add: shutdown_def fail_def)
      moreover have "segments crc content durable f base (poison link1) ?wk closed ds1 ws1 [] qs1"
        using d(2) flush_err [OF fl [unfolded Inl]] unfolding segments_def poison_def S(1) by (auto simp: add.assoc)
      moreover have "\<not> faultless (pw_sink wk)" using d(5) flush_faultless [OF _ fl] Inl by auto
      moreover have "ds1 @ ws1 @ [] @ qs1 = ds @ ws @ ls @ qs" using d(3) ls S(1) by simp
      ultimately show ?thesis by blast
    next
      case (Inr u)
      note fo = flush_ok [OF fl [unfolded Inr]]
      define link2 where "link2 = snd (complete (pw_reader wk1) (publish_durable (rd_expected_sequence (pw_reader wk1)) link1))"
      define wk2 where "wk2 = wk1\<lparr>pw_sink := s2, pw_reader := (pw_reader wk1)\<lparr>rd_shutdown_complete := True\<rparr>\<rparr>"
      have "shutdown crc put flush BATCH link wk = Some (link2, wk2, Inr ())"
        using np open1 d(1) r1 fl Inr by (simp add: shutdown_def link2_def wk2_def complete_def Let_def)
      moreover have "segments crc content durable f base link2 wk2 closed (ds1 @ ws1) [] [] []"
        using S(2-7,9) r1(2) fo np1 closed length_content [of "ds1 @ ws1" base crc f]
        by (simp add: segments_def link2_def wk2_def complete_def publish_durable_def)
      moreover have "ds @ ws @ ls @ qs = (ds1 @ ws1) @ [] @ [] @ []" using d(3) ls S(1) r1(2) by simp
      moreover have "faultless (pw_sink wk) \<longrightarrow> faultless (pw_sink wk2)"
        using d(5) flush_faultless [OF _ fl] by (simp add: wk2_def)
      moreover have "\<not> pw_poisoned wk2" "rd_shutdown_complete (pw_reader wk2)" using np1 by (simp_all add: wk2_def)
      ultimately show ?thesis by metis
    qed
  qed
qed

lemma drain_step_segments:
  assumes "segments crc content durable f base link wk closed ds ws ls qs"
  shows "\<exists>link' wk' r ds' ws' ls' qs'. drain_batch crc put flush BATCH link wk = Some (link', wk', r) \<and>
    segments crc content durable f base link' wk' closed ds' ws' ls' qs' \<and> ds' @ ws' @ ls' @ qs' = ds @ ws @ ls @ qs"
proof (cases "pw_poisoned wk")
  case True
  then have "drain_batch crc put flush BATCH link wk = Some (link, wk, Inl PersistPoisoned)" by (simp add: drain_batch_def)
  then show ?thesis using assms by blast
next
  case False
  have ls: "ls = []" using segmentsD(1) [OF assms False] .
  obtain link1 wk1 r1 ds1 ws1 ls1 where d: "drain_batch crc put flush BATCH link wk = Some (link1, wk1, r1)"
      "segments crc content durable f base link1 wk1 closed ds1 ws1 ls1 (drop BATCH qs)"
      "ds1 @ ws1 @ ls1 = ds @ ws @ take BATCH qs"
    using drain_batch_segments [OF assms [unfolded ls] False] by blast
  moreover have "ds1 @ ws1 @ ls1 @ drop BATCH qs = ds @ ws @ ls @ qs"
    using d(3) ls by (metis append.assoc append_Nil append_take_drop_id)
  ultimately show ?thesis by blast
qed

lemma enqueue_segments:
  assumes seg: "segments crc content durable f base link wk False ds ws ls qs"
    and w: "jw_next_sequence w = f + of_nat (length (ds @ ws @ ls @ qs))"
  shows "\<exists>link' w' r. enqueue crc link w payload = Some (link', w', r) \<and>
    (case r of
       Inl _ \<Rightarrow> w' = w \<and> segments crc content durable f base link' wk False ds ws ls qs
     | Inr s \<Rightarrow> s = jw_next_sequence w \<and> jw_next_sequence w' = f + of_nat (length (ds @ ws @ ls @ qs @ [payload])) \<and>
         segments crc content durable f base link' wk False ds ws ls (qs @ [payload]))"
proof (cases "checked_add (jw_next_sequence w) 1")
  case None
  then show ?thesis using seg by (simp add: enqueue_def)
next
  case (Some nxt)
  let ?n = "length (ds @ ws @ ls @ qs)"
  have n: "unat f + ?n < 2 ^ 64" using seg unfolding segments_def by blast
  have "int (unat f + ?n) + 1 < 2 ^ 64"
    using Some [unfolded checked_add_Some w] offset_sum [OF n] by (simp add: uint_nat del: length_append of_nat_add)
  then have "int (unat f + Suc ?n) < int (2 ^ 64)" by (simp del: length_append)
  then have n1: "unat f + Suc ?n < 2 ^ 64" by (simp only: of_nat_less_iff)
  have nxt: "nxt = f + of_nat (Suc ?n)" using Some [unfolded checked_add_Some w] by (simp add: algebra_simps)
  show ?thesis
  proof (cases "length payload \<le> MAX_PAYLOAD")
    case False
    then show ?thesis using seg Some by (simp add: enqueue_def record_new_iff)
  next
    case True
    let ?q = "journal_records crc (f + of_nat (length (ds @ ws @ ls))) qs" and ?r = "record_of crc (jw_next_sequence w) payload"
    have ch: "channel_ok RING_CAPACITY (jl_ring link) ?q" using seg unfolding segments_def by blast
    have q: "?q @ [?r] = journal_records crc (f + of_nat (length (ds @ ws @ ls))) (qs @ [payload])" by (simp add: w add.assoc)
    show ?thesis
    proof (cases "length ?q = RING_CAPACITY")
      case full: True
      then obtain ch' where "try_push RING_CAPACITY (jl_ring link) ?r = Some (ch', Inl ?r)" "channel_ok RING_CAPACITY ch' ?q"
        using chan.push_law [OF ch, of ?r] by auto
      then show ?thesis using seg Some True
        by (simp add: enqueue_def record_new_iff) (simp add: segments_def)
    next
      case room: False
      then obtain ch' where p: "try_push RING_CAPACITY (jl_ring link) ?r = Some (ch', Inr ())"
          "channel_ok RING_CAPACITY ch' (?q @ [?r])"
        using chan.push_law [OF ch, of ?r] by auto
      have "segments crc content durable f base (link\<lparr>jl_ring := ch'\<rparr>) wk False ds ws ls (qs @ [payload])"
        using seg p(2) [unfolded q] n1 True unfolding segments_def by auto
      then show ?thesis using p(1) Some True nxt
        by (simp add: enqueue_def record_new_iff)
    qed
  qed
qed

lemma close_segments:
  "segments crc content durable f base link wk False ds ws ls qs
     \<Longrightarrow> segments crc content durable f base (close link) wk True ds ws ls qs"
  by (auto simp: segments_def close_def)

lemma journal_step_inv:
  assumes "journal_inv crc content durable f base js" "0 < BATCH"
  shows "\<exists>js'. journal_step crc put flush BATCH js op = Some js' \<and> journal_inv crc content durable f base js'"
proof -
  obtain ds ws ls qs where sent: "js_sent js = ds @ ws @ ls @ qs"
    and seg: "segments crc content durable f base (js_link js) (js_worker js) (js_writer js = None) ds ws ls qs"
    using assms(1) unfolding journal_inv_def by blast
  have wn: "js_writer js = Some w \<Longrightarrow> jw_next_sequence w = f + of_nat (length (js_sent js))" for w
    using assms(1) unfolding journal_inv_def by blast
  show ?thesis
  proof (cases op)
    case (Enqueue payload)
    show ?thesis
    proof (cases "js_writer js")
      case None
      then show ?thesis using assms(1) Enqueue by simp
    next
      case (Some w)
      obtain link' w' r where e: "enqueue crc (js_link js) w payload = Some (link', w', r)"
        "case r of
           Inl _ \<Rightarrow> w' = w \<and> segments crc content durable f base link' (js_worker js) False ds ws ls qs
         | Inr s \<Rightarrow> s = jw_next_sequence w \<and> jw_next_sequence w' = f + of_nat (length (ds @ ws @ ls @ qs @ [payload])) \<and>
             segments crc content durable f base link' (js_worker js) False ds ws ls (qs @ [payload])"
        using enqueue_segments [OF _ wn [OF Some, unfolded sent], of crc base "js_link js" "js_worker js" payload] seg Some by auto
      define js' where "js' = js\<lparr>js_link := link', js_writer := Some w',
              js_sent := js_sent js @ (case r of Inl _ \<Rightarrow> [] | Inr _ \<Rightarrow> [payload])\<rparr>"
      have "journal_inv crc content durable f base js'"
      proof (cases r)
        case (Inl err)
        then show ?thesis using e(2) sent wn [OF Some] unfolding journal_inv_def js'_def by auto
      next
        case (Inr s)
        then have "segments crc content durable f base (js_link js') (js_worker js') (js_writer js' = None) ds ws ls (qs @ [payload])"
            "js_sent js' = ds @ ws @ ls @ (qs @ [payload])"
          using e(2) sent by (simp_all add: js'_def)
        then show ?thesis using e(2) Inr sent unfolding journal_inv_def by (auto simp: js'_def)
      qed
      then show ?thesis using Enqueue Some e(1) by (simp add: js'_def)
    qed
  next
    case Close
    then show ?thesis
      using assms(1) close_segments [of crc f base "js_link js" "js_worker js" ds ws ls qs] seg sent
      by (cases "js_writer js") (auto simp: journal_inv_def)
  next
    case Drain
    obtain link' wk' r ds' ws' ls' qs' where "drain_batch crc put flush BATCH (js_link js) (js_worker js) = Some (link', wk', r)"
      "segments crc content durable f base link' wk' (js_writer js = None) ds' ws' ls' qs'" "ds' @ ws' @ ls' @ qs' = js_sent js"
      using drain_step_segments [OF seg] sent by metis
    then show ?thesis using Drain wn journal_invI [of "js\<lparr>js_link := link', js_worker := wk'\<rparr>" ds' ws' ls' qs']
      by auto
  next
    case Shutdown
    obtain link' wk' r ds' ws' ls' qs' where "shutdown crc put flush BATCH (js_link js) (js_worker js) = Some (link', wk', r)"
      "segments crc content durable f base link' wk' (js_writer js = None) ds' ws' ls' qs'" "ds' @ ws' @ ls' @ qs' = js_sent js"
      using shutdown_segments [OF seg assms(2)] sent by metis
    then show ?thesis using Shutdown wn journal_invI [of "js\<lparr>js_link := link', js_worker := wk'\<rparr>" ds' ws' ls' qs']
      by auto
  qed
qed

lemma journal_reachable_inv:
  assumes "journal_reachable crc put flush BATCH f sink js" "length (content sink) \<le> durable sink"
  shows "journal_inv crc content durable f (content sink) js \<and> 0 < BATCH"
  using assms
proof (induction rule: journal_reachable.induct)
  case (start q link w rd policy link' wk)
  have "channel_ok RING_CAPACITY (channel_of q) []" using channel_new_ok start(1) .
  moreover have "unat f < 2 ^ 64" using unsigned_less [of f] by simp
  ultimately show ?case using start(2,3,4)
    by (auto simp: journal_inv_def segments_def journal_split_def worker_new_def status_state_new_def split: if_splits)
next
  case (step js op js')
  then show ?case using journal_step_inv [of crc f "content sink" js BATCH op] by auto
qed

end

end
