(* ===== verification/Journal_Recover.thy ===== *)
theory Journal_Recover
  imports Journal_Worker
begin

text \<open>
  The recovery scan of the journal, and the properties of the journal as a whole. The scan of a
  source that answers in any portions equals a scan of its bytes; it accepts exactly the files that
  are a run of valid consecutive records, so what a clean shutdown left is recovered in full.
\<close>

section \<open>What a source of bytes promises\<close>

text \<open>What reading one record yields when \<open>bs\<close> is left and \<open>filled\<close> bytes of it are in the buffer.\<close>

definition filled_result :: "nat \<Rightarrow> u8 list \<Rightarrow> u8 list \<Rightarrow> recovery_error + u8 list option" where
  "filled_result filled bytes bs =
     (if RECORD_SIZE \<le> filled + length bs then Inr (Some (take filled bytes @ take (RECORD_SIZE - filled) bs))
      else if filled + length bs = 0 then Inr None else Inl (Truncated (filled + length bs)))"

locale byte_source =
  fixes get_bytes :: "'r source_read"
    and remaining :: "'r \<Rightarrow> u8 list"
    and patience :: "'r \<Rightarrow> nat"
    and faultless :: "'r \<Rightarrow> bool"
  assumes read_ok: "get_bytes r n = (r', Inr c) \<Longrightarrow>
      remaining r = c @ remaining r' \<and> length c \<le> n \<and> (c = [] \<longrightarrow> n = 0 \<or> remaining r = []) \<and> patience r' \<le> patience r"
    and read_err: "get_bytes r n = (r', Inl e) \<Longrightarrow> remaining r' = remaining r"
    and interrupted: "get_bytes r n = (r', Inl Interrupted) \<Longrightarrow> patience r' < patience r"
    and read_faultless: "\<lbrakk>faultless r; get_bytes r n = (r', x)\<rbrakk> \<Longrightarrow> faultless r' \<and> (\<forall>e. x = Inl e \<longrightarrow> e = Interrupted)"
begin

lemma fill_record_reads:
  assumes "faultless r" "length bytes = RECORD_SIZE" "filled \<le> RECORD_SIZE"
  shows "\<exists>r'. fill_record get_bytes r bytes filled = Some (r', filled_result filled bytes (remaining r)) \<and>
    faultless r' \<and> remaining r' = drop (RECORD_SIZE - filled) (remaining r)"
  using assms
proof (induction "patience r + (RECORD_SIZE - filled)" arbitrary: r bytes filled rule: less_induct)
  case less
  obtain r1 x where g: "get_bytes r (RECORD_SIZE - filled) = (r1, x)" by (cases "get_bytes r (RECORD_SIZE - filled)") auto
  note fl = read_faultless [OF less.prems(1) g]
  show ?case
  proof (cases "filled < RECORD_SIZE")
    case False
    then have "filled = RECORD_SIZE" using less.prems(3) by simp
    then show ?thesis using less.prems by (subst fill_record.simps) (simp add: filled_result_def)
  next
    case lt: True
    show ?thesis
    proof (cases x)
      case (Inl e)
      then have e: "e = Interrupted" using fl by simp
      then have "fill_record get_bytes r bytes filled = fill_record get_bytes r1 bytes filled"
        using g lt Inl by (subst fill_record.simps) simp
      moreover have "patience r1 < patience r" "remaining r1 = remaining r"
        using interrupted [of r _ r1] read_err [of r _ r1 e] g Inl e by auto
      ultimately show ?thesis using less.hyps [of r1 filled bytes] fl less.prems by auto
    next
      case (Inr c)
      note c = read_ok [OF g [unfolded Inr]]
      show ?thesis
      proof (cases "c = []")
        case True
        then have "remaining r = []" "remaining r1 = []" using c lt by auto
        then show ?thesis using g lt Inr True fl by (subst fill_record.simps) (auto simp: filled_result_def)
      next
        case False
        let ?bytes = "write_at filled c bytes" and ?n = "filled + length c"
        have n: "?n \<le> RECORD_SIZE" "length ?bytes = RECORD_SIZE" using c lt less.prems(2) by auto
        have "fill_record get_bytes r bytes filled = fill_record get_bytes r1 ?bytes ?n"
          using g lt Inr False by (subst fill_record.simps) simp
        moreover have "patience r1 + (RECORD_SIZE - ?n) < patience r + (RECORD_SIZE - filled)"
          using c lt n False by (intro add_le_less_mono diff_less_mono2) (simp_all add: length_greater_0_conv [symmetric] del: length_greater_0_conv)
        then obtain r' where "fill_record get_bytes r1 ?bytes ?n = Some (r', filled_result ?n ?bytes (remaining r1))"
            "faultless r'" "remaining r' = drop (RECORD_SIZE - ?n) (remaining r1)"
          using less.hyps [of r1 ?n ?bytes] fl n by blast
        moreover have "take ?n ?bytes = take filled bytes @ c"
          using less.prems(2,3) by (simp add: write_at_def)
        then have "filled_result ?n ?bytes (remaining r1) = filled_result filled bytes (remaining r)"
          using c False by (simp add: filled_result_def add.assoc)
        ultimately show ?thesis using c by simp
      qed
    qed
  qed
qed

end

lemma file_read_cases:
  assumes "file_read f n = (f', r)"
  obtains e script where "f_script f = Fail e # script" "f' = f\<lparr>f_script := script\<rparr>" "r = Inl e"
  | k script where "f_script f = Limit k # script" "r = Inr (take (min (Suc k) n) (drop (f_pos f) (f_bytes f)))"
      "f' = f\<lparr>f_script := script, f_pos := f_pos f + min (min (Suc k) n) (length (f_bytes f) - f_pos f)\<rparr>"
  | "f_script f = []" "r = Inr (take n (drop (f_pos f) (f_bytes f)))"
      "f' = f\<lparr>f_pos := f_pos f + min n (length (f_bytes f) - f_pos f)\<rparr>"
  using assms unfolding file_read_def Let_def by (auto split: list.splits io_answer.splits simp: min.commute)

definition file_remaining :: "disk_file \<Rightarrow> u8 list" where
  "file_remaining f = drop (f_pos f) (f_bytes f)"

lemma take_drop_advance:
  "drop p xs = take k (drop p xs) @ drop (p + min k (length xs - p)) xs"
proof (cases "k \<le> length xs - p")
  case True
  then have "drop (p + min k (length xs - p)) xs = drop k (drop p xs)" by (simp add: min_absorb1 add.commute)
  then show ?thesis by (metis append_take_drop_id)
qed simp

interpretation fsource: byte_source file_read file_remaining "\<lambda>f. length (f_script f)" file_faultless
proof unfold_locales
  show "file_remaining f = c @ file_remaining f' \<and> length c \<le> n \<and> (c = [] \<longrightarrow> n = 0 \<or> file_remaining f = []) \<and>
      length (f_script f') \<le> length (f_script f)" if "file_read f n = (f', Inr c)" for f n f' c
    using that
  proof (cases rule: file_read_cases)
    case (1 e script)
    then show ?thesis by simp
  next
    case (2 k script)
    then show ?thesis using take_drop_advance [of "f_pos f" "f_bytes f" "min (Suc k) n"]
      by (auto simp: file_remaining_def)
  next
    case 3
    then show ?thesis using take_drop_advance [of "f_pos f" "f_bytes f" n]
      by (auto simp: file_remaining_def)
  qed
  show "file_remaining f' = file_remaining f" if "file_read f n = (f', Inl e)" for f n f' e
    using that by (cases rule: file_read_cases) (auto simp: file_remaining_def)
  show "length (f_script f') < length (f_script f)" if "file_read f n = (f', Inl Interrupted)" for f n f'
    using that by (cases rule: file_read_cases) auto
  show "file_faultless f' \<and> (\<forall>e. x = Inl e \<longrightarrow> e = Interrupted)" if "file_faultless f" "file_read f n = (f', x)" for f n f' x
    using that(2,1) by (cases rule: file_read_cases) (auto simp: file_faultless_def is_fault_def)
qed

section \<open>The scan as a function of the bytes\<close>

function scan :: "crc32c \<Rightarrow> u8 list \<Rightarrow> u64 \<Rightarrow> u64 \<Rightarrow> recovery_error + recovery" where
  "scan crc bs expected records =
     (if bs = [] then Inr \<lparr>rc_records = records, rc_next_sequence = expected\<rparr>
      else if length bs < RECORD_SIZE then Inl (Truncated (length bs))
      else
        case decode crc (take RECORD_SIZE bs) of
          Inl source \<Rightarrow> Inl (RecoveryDecode (saturating_mul records (of_nat RECORD_SIZE)) source)
        | Inr r \<Rightarrow>
            if jr_sequence r \<noteq> expected then Inl (RecoverySequence expected (jr_sequence r))
            else
              (case checked_add expected 1 of
                 None \<Rightarrow> Inl RecoverySequenceOverflow
               | Some expected \<Rightarrow>
                   (case checked_add records 1 of
                      None \<Rightarrow> Inl RecoverySequenceOverflow
                    | Some records \<Rightarrow> scan crc (drop RECORD_SIZE bs) expected records)))"
  by pat_completeness auto
termination
  by (relation "measure (\<lambda>(crc, bs, _). length bs)") (auto simp: RECORD_SIZE_def)

declare scan.simps [simp del]

context byte_source
begin

lemma recover_loop_scan:
  assumes "faultless r" "length bytes = RECORD_SIZE"
  shows "\<exists>r'. recover_loop crc get_bytes r bytes expected records = Some (r', scan crc (remaining r) expected records)"
  using assms
proof (induction "length (remaining r)" arbitrary: r bytes expected records rule: less_induct)
  case less
  let ?bs = "remaining r"
  obtain r1 where f: "fill_record get_bytes r bytes 0 = Some (r1, filled_result 0 bytes ?bs)" "faultless r1"
      "remaining r1 = drop RECORD_SIZE ?bs"
    using fill_record_reads [OF less.prems(1,2), of 0] by auto
  show ?case
  proof (cases "RECORD_SIZE \<le> length ?bs")
    case False
    then show ?thesis using f(1) by (subst recover_loop.simps, subst scan.simps) (auto simp: filled_result_def)
  next
    case True
    then have full: "filled_result 0 bytes ?bs = Inr (Some (take RECORD_SIZE ?bs))" by (simp add: filled_result_def)
    have ne: "?bs \<noteq> []" "\<not> length ?bs < RECORD_SIZE" using True by (auto simp: RECORD_SIZE_def)
    have "length (remaining r1) < length ?bs" using f(3) ne by (simp add: RECORD_SIZE_def)
    from less.hyps [OF this f(2), of "take RECORD_SIZE ?bs"]
    have IH: "\<exists>r'. recover_loop crc get_bytes r1 (take RECORD_SIZE ?bs) e n = Some (r', scan crc (drop RECORD_SIZE ?bs) e n)" for e n
      using True f(3) by simp
    show ?thesis
      using f(1) full ne IH
      by (subst recover_loop.simps, subst scan.simps) (auto split: sum.splits option.splits simp: Let_def)
  qed
qed

lemma recover_scan:
  "faultless r \<Longrightarrow> \<exists>r'. recover crc get_bytes r first_sequence = Some (r', scan crc (remaining r) first_sequence 0)"
  unfolding recover_def by (rule recover_loop_scan) simp_all

end

text \<open>A run of valid records with consecutive sequence numbers.\<close>

fun valid_run :: "crc32c \<Rightarrow> u64 \<Rightarrow> journal_record list \<Rightarrow> bool" where
  "valid_run crc s [] \<longleftrightarrow> True"
| "valid_run crc s (r # rs) \<longleftrightarrow> well_sized r \<and> verify crc r \<and> jr_sequence r = s \<and> valid_run crc (s + 1) rs"

lemma valid_run_journal_records: "payloads_ok ps \<Longrightarrow> valid_run crc s (journal_records crc s ps)"
  by (induction ps arbitrary: s) (simp_all add: record_of_fields)

lemma checked_add_one: "checked_add a 1 = (if unat a + 1 < 2 ^ 64 then Some (a + 1) else None)" for a :: u64
proof (cases "unat a + 1 < 2 ^ 64")
  case True
  then show ?thesis using checked_succ [of a 0] by simp
next
  case False
  then have "int (2 ^ 64) \<le> int (unat a + 1)" by (simp only: of_nat_le_iff not_less)
  then show ?thesis using False by (simp add: checked_add_def)
qed

lemma unat_word_succ: "unat a + 1 < 2 ^ 64 \<Longrightarrow> unat (a + 1) = unat a + 1" for a :: u64
  using offset_sum [of a 1] by simp

lemma scan_run:
  assumes "valid_run crc e rs" "unat e + length rs < 2 ^ 64" "unat n \<le> unat e"
  shows "scan crc (concat (map encode rs)) e n =
    Inr \<lparr>rc_records = n + of_nat (length rs), rc_next_sequence = e + of_nat (length rs)\<rparr>"
  using assms
proof (induction rs arbitrary: e n)
  case Nil
  then show ?case by (simp add: scan.simps)
next
  case (Cons r rs)
  have r: "length (encode r) = 64" "decode crc (encode r) = Inr r" "jr_sequence r = e"
    using Cons.prems(1) decode_encode_record [of r crc] by auto
  have u: "unat (e + 1) = unat e + 1" "unat (n + 1) = unat n + 1" "unat e + 1 < 2 ^ 64" "unat n + 1 < 2 ^ 64"
    using Cons.prems(2,3) unat_word_succ [of e] unat_word_succ [of n] by simp_all
  then have "scan crc (concat (map encode rs)) (e + 1) (n + 1) =
      Inr \<lparr>rc_records = n + 1 + of_nat (length rs), rc_next_sequence = e + 1 + of_nat (length rs)\<rparr>"
    using Cons.IH [of "e + 1" "n + 1"] Cons.prems by simp
  moreover have "encode r \<noteq> []" using r(1) by auto
  ultimately show ?case using r u by (subst scan.simps) (simp add: RECORD_SIZE_def checked_add_one algebra_simps)
qed

lemma scan_accepts:
  assumes "scan crc bs e n = Inr rc" "unat n \<le> unat e"
  shows "\<exists>rs. bs = concat (map encode rs) \<and> valid_run crc e rs \<and> unat e + length rs < 2 ^ 64"
  using assms
proof (induction crc bs e n rule: scan.induct)
  case (1 crc bs e n)
  show ?case
  proof (cases "bs = []")
    case True
    then show ?thesis using unsigned_less [of e] by (intro exI [of _ "[]"]) simp
  next
    case ne: False
    then obtain r where r: "\<not> length bs < RECORD_SIZE" "decode crc (take RECORD_SIZE bs) = Inr r" "jr_sequence r = e"
        "unat e + 1 < 2 ^ 64" "unat n + 1 < 2 ^ 64" "scan crc (drop RECORD_SIZE bs) (e + 1) (n + 1) = Inr rc"
      using 1(2) by (subst (asm) scan.simps) (auto split: if_splits sum.splits option.splits simp: checked_add_one)
    have u: "unat (n + 1) \<le> unat (e + 1)" using unat_word_succ [OF r(4)] unat_word_succ [OF r(5)] 1(3) by simp
    have c: "checked_add e 1 = Some (e + 1)" "checked_add n 1 = Some (n + 1)" using r(4,5) by (simp_all add: checked_add_one)
    obtain rs where rs: "drop RECORD_SIZE bs = concat (map encode rs)" "valid_run crc (e + 1) rs" "unat (e + 1) + length rs < 2 ^ 64"
      using 1(1) [OF ne r(1,2) _ c r(6) u] r(3) by auto
    have d: "encode r = take RECORD_SIZE bs" "verify crc r" "well_sized r"
      using encode_decode_record [OF _ r(2)] r(1) by (simp_all add: RECORD_SIZE_def)
    have "bs = take RECORD_SIZE bs @ drop RECORD_SIZE bs" by simp
    then have "bs = concat (map encode (r # rs))" using d(1) rs(1) by simp
    moreover have "valid_run crc e (r # rs)" using d r(3) rs(2) by simp
    moreover have "unat e + length (r # rs) < 2 ^ 64" using rs(3) unat_word_succ [OF r(4)] by simp
    ultimately show ?thesis by blast
  qed
qed

section \<open>A journal to look at\<close>

text \<open>One payload enqueued at sequence 5 and the writer closed, with some checksum function.\<close>

definition demo_crc :: crc32c where
  "demo_crc bytes = of_nat (length bytes)"

definition demo_file :: disk_file where
  "demo_file = \<lparr>f_bytes = [], f_pos = 0, f_durable = 0, f_script = [Limit 9, Fail Interrupted], f_sync = []\<rparr>"

lemma demo_journal:
  "\<exists>js. journal_reachable demo_crc file_write file_flush 4 5 demo_file js \<and> js_sent js = [[1, 2]] \<and>
     js_writer js = None \<and> \<not> pw_poisoned (js_worker js) \<and> pw_sink (js_worker js) = demo_file"
proof -
  obtain q :: "journal_record spsc_queue" where q: "spsc_try_new RING_CAPACITY = Inr q"
  proof -
    have "is_power_of_two RING_CAPACITY"
      unfolding is_power_of_two_def RING_CAPACITY_def set_map by (rule image_eqI [of _ _ 10]) simp_all
    then show thesis using that by (simp add: spsc_try_new_def)
  qed
  let ?link = "\<lparr>jl_ring = channel_of q, jl_status = Some (status_state_new 5)\<rparr>"
  let ?rd = "\<lparr>rd_expected_sequence = 5, rd_poisoned = False, rd_shutdown_complete = False\<rparr>"
  let ?wk = "\<lparr>pw_reader = ?rd, pw_sink = demo_file, pw_policy = EveryBatch, pw_poisoned = False\<rparr>"
  let ?js = "\<lparr>js_link = ?link, js_writer = Some \<lparr>jw_next_sequence = 5\<rparr>, js_worker = ?wk, js_sent = []\<rparr>"
  have 1: "journal_reachable demo_crc file_write file_flush 4 5 demo_file ?js"
    using journal_reachable.start [OF q, of 5 ?link "\<lparr>jw_next_sequence = 5\<rparr>" ?rd 4 demo_file EveryBatch ?link ?wk]
    by (simp add: journal_split_def worker_new_def status_state_new_def)
  let ?r = "record_of demo_crc 5 [1, 2]"
  obtain ch where ch: "try_push RING_CAPACITY (channel_of q) ?r = Some (ch, Inr ())"
    using chan.push_law [OF channel_new_ok [OF q], of ?r] by (auto simp: RING_CAPACITY_def)
  let ?js1 = "?js\<lparr>js_link := ?link\<lparr>jl_ring := ch\<rparr>, js_writer := Some \<lparr>jw_next_sequence = 6\<rparr>, js_sent := [[1, 2]]\<rparr>"
  have "journal_step demo_crc file_write file_flush 4 ?js (Enqueue [1, 2]) = Some ?js1"
    using ch by (simp add: enqueue_def record_new_iff MAX_PAYLOAD_def checked_add_one)
  then have 2: "journal_reachable demo_crc file_write file_flush 4 5 demo_file ?js1"
    by (rule journal_reachable.step [OF 1])
  have "journal_step demo_crc file_write file_flush 4 ?js1 Close =
      Some (?js1\<lparr>js_link := close (js_link ?js1), js_writer := None\<rparr>)" by simp
  then have "journal_reachable demo_crc file_write file_flush 4 5 demo_file
      (?js1\<lparr>js_link := close (js_link ?js1), js_writer := None\<rparr>)" by (rule journal_reachable.step [OF 2])
  then show ?thesis by (intro exI) (auto intro: conjI)
qed

section \<open>Properties\<close>

text \<open>
  A record made from a payload that fits decodes from its encoding and yields the payload and the
  sequence; conversely the decoder accepts a 64-byte block only if it is the encoding of the record it
  returns. Nothing is assumed about the checksum function.
\<close>

theorem journal_record_round_trip:
  "(length payload \<le> MAX_PAYLOAD \<longrightarrow> (\<exists>r. journal_record_new crc sequence payload = Inr r \<and>
      decode crc (encode r) = Inr r \<and> jr_sequence r = sequence \<and> record_slice r = Some payload)) \<and>
   (length bytes = RECORD_SIZE \<and> decode crc bytes = Inr r \<longrightarrow> encode r = bytes \<and> verify crc r)"
  using record_of_fields [of payload crc sequence] decode_encode_record [of "record_of crc sequence payload" crc]
    encode_decode_record [of bytes crc r]
  by (auto simp: record_new_iff RECORD_SIZE_def)

theorem journal_record_round_trip_witness:
  "\<exists>r. journal_record_new demo_crc 5 [1, 2] = Inr r \<and> decode demo_crc (encode r) = Inr r \<and>
     jr_sequence r = 5 \<and> record_slice r = Some [1, 2]"
  using journal_record_round_trip [of "[1, 2]" demo_crc 5] by (simp add: MAX_PAYLOAD_def)

text \<open>
  C16. At every moment of a journal that writes to a file, whatever the operating system answers: the
  status counts \<open>w\<close> written and \<open>d\<close> durable records with \<open>d \<le> w\<close>, the file holds what it held before,
  followed by the records of the first \<open>w\<close> accepted payloads in order, followed by nothing unless the
  channel is poisoned; and every prefix of the file a crash may leave still holds the first \<open>d\<close>
  records in full. A checksum or sequence error in the ring is impossible.
\<close>

theorem journal_written_prefix:
  assumes "journal_reachable crc file_write file_flush BATCH first_sequence f0 js"
    and "f_durable f0 = length (f_bytes f0)"
  shows "\<exists>s w d junk. jl_status (js_link js) = Some s \<and> d \<le> w \<and> w \<le> length (js_sent js) \<and>
    ss_next_written_sequence s = first_sequence + of_nat w \<and> ss_next_durable_sequence s = first_sequence + of_nat d \<and>
    f_bytes (pw_sink (js_worker js)) = f_bytes f0 @ journal_image crc first_sequence (take w (js_sent js)) @ junk \<and>
    (ss_poisoned s \<or> junk = []) \<and> \<not> rd_poisoned (pw_reader (js_worker js)) \<and>
    (\<forall>n \<ge> f_durable (pw_sink (js_worker js)). take (length (f_bytes f0) + 64 * d) (take n (f_bytes (pw_sink (js_worker js)))) =
       f_bytes f0 @ journal_image crc first_sequence (take d (js_sent js)))"
proof -
  obtain ds ws ls qs where sent: "js_sent js = ds @ ws @ ls @ qs"
    and seg: "segments crc f_bytes f_durable first_sequence (f_bytes f0) (js_link js) (js_worker js) (js_writer js = None) ds ws ls qs"
    using fsink.journal_reachable_inv [OF assms(1)] assms(2) unfolding journal_inv_def by auto
  let ?d = "length ds" and ?w = "length (ds @ ws)" and ?f = "pw_sink (js_worker js)"
  have tk: "take ?w (js_sent js) = ds @ ws" "take ?d (js_sent js) = ds" by (simp_all add: sent)
  obtain n where n: "f_bytes ?f = f_bytes f0 @ journal_image crc first_sequence (ds @ ws) @
        take n (journal_image crc (first_sequence + of_nat ?w) ls)" "pw_poisoned (js_worker js) \<or> ls = []"
      "payloads_ok ds" "length (f_bytes f0) + 64 * ?d \<le> f_durable ?f"
    using seg unfolding segments_def by auto
  have crash: "take (length (f_bytes f0) + 64 * ?d) (take m (f_bytes ?f)) = f_bytes f0 @ journal_image crc first_sequence ds"
    if "f_durable ?f \<le> m" for m
    using n(1,4) that length_journal_image [OF n(3), of crc first_sequence] by (simp add: min_def)
  have status: "jl_status (js_link js) = Some \<lparr>ss_next_written_sequence = first_sequence + of_nat ?w,
       ss_next_durable_sequence = first_sequence + of_nat ?d, ss_producer_closed = (js_writer js = None),
       ss_poisoned = pw_poisoned (js_worker js), ss_shutdown_complete = rd_shutdown_complete (pw_reader (js_worker js))\<rparr>"
      and rd: "\<not> rd_poisoned (pw_reader (js_worker js))"
    using seg unfolding segments_def by blast+
  show ?thesis
  proof (rule exI, rule exI [of _ ?w], rule exI [of _ ?d], rule exI, intro conjI)
    show "?d \<le> ?w" "?w \<le> length (js_sent js)" by (simp_all add: sent)
    show "f_bytes ?f = f_bytes f0 @ journal_image crc first_sequence (take ?w (js_sent js)) @
        take n (journal_image crc (first_sequence + of_nat ?w) ls)" unfolding tk by (rule n(1))
  qed (use n(2) crash status rd in \<open>auto simp: tk\<close>)
qed

theorem journal_written_prefix_witness:
  "\<exists>js s w. journal_reachable demo_crc file_write file_flush 4 5 demo_file js \<and> jl_status (js_link js) = Some s \<and>
     w \<le> 1 \<and> ss_next_written_sequence s = 5 + of_nat w"
proof -
  obtain js where js: "journal_reachable demo_crc file_write file_flush 4 5 demo_file js" "js_sent js = [[1, 2]]"
    using demo_journal by blast
  show ?thesis using journal_written_prefix [OF js(1)] js by (auto simp: demo_file_def)
qed

text \<open>
  C15. Shutting down a closed, unpoisoned journal whose file has no faults left (it may still answer in
  portions and with interruptions) returns, succeeds, and leaves every accepted payload in the file,
  all of it durable; scanning the file from the first sequence of its oldest record then recovers
  every record, old and new, and the sequence at which to go on.
\<close>

theorem shutdown_then_recover:
  assumes "journal_reachable crc file_write file_flush BATCH (g + of_nat (length old)) f0 js"
    and "f_bytes f0 = journal_image crc g old" "f_durable f0 = length (f_bytes f0)"
    and "payloads_ok old" "unat g + length old < 2 ^ 64"
    and "js_writer js = None" "\<not> pw_poisoned (js_worker js)" "file_faultless (pw_sink (js_worker js))"
  shows "\<exists>link wk f'. shutdown crc file_write file_flush BATCH (js_link js) (js_worker js) = Some (link, wk, Inr ()) \<and>
    f_bytes (pw_sink wk) = journal_image crc g (old @ js_sent js) \<and>
    f_durable (pw_sink wk) \<ge> length (f_bytes (pw_sink wk)) \<and>
    recover crc file_read ((pw_sink wk)\<lparr>f_pos := 0\<rparr>) g =
      Some (f', Inr \<lparr>rc_records = of_nat (length (old @ js_sent js)), rc_next_sequence = g + of_nat (length (old @ js_sent js))\<rparr>)"
proof -
  let ?f = "g + of_nat (length old)"
  obtain ds ws ls qs where sent: "js_sent js = ds @ ws @ ls @ qs"
    and seg: "segments crc f_bytes f_durable ?f (f_bytes f0) (js_link js) (js_worker js) True ds ws ls qs" and B: "0 < BATCH"
    using fsink.journal_reachable_inv [OF assms(1)] assms(3,6) unfolding journal_inv_def by auto
  obtain link wk ds' ws' ls' qs' where sh:
      "shutdown crc file_write file_flush BATCH (js_link js) (js_worker js) = Some (link, wk, Inr ())"
      "segments crc f_bytes f_durable ?f (f_bytes f0) link wk True ds' ws' ls' qs'" "ds' @ ws' @ ls' @ qs' = js_sent js"
      "rd_shutdown_complete (pw_reader wk)" "\<not> pw_poisoned wk" "file_faultless (pw_sink wk)"
    using fsink.shutdown_segments [OF seg B] assms(7,8) sent by metis
  note S = segmentsD [OF sh(2,5)]
  have ds': "ds' = js_sent js" "ws' = []" using S(1,10) sh(3,4) by auto
  have ok: "payloads_ok (old @ js_sent js)" "unat g + length (old @ js_sent js) < 2 ^ 64"
    using S(2,3) assms(4,5) ds' offset_sum [OF assms(5)] by auto
  have bytes: "f_bytes (pw_sink wk) = journal_image crc g (old @ js_sent js)" using S(7) assms(2) ds' by simp
  have dur: "length (f_bytes (pw_sink wk)) \<le> f_durable (pw_sink wk)"
    using S(8) bytes ok(1) assms(2,4) ds' by (simp add: length_journal_image)
  have fl: "file_faultless ((pw_sink wk)\<lparr>f_pos := 0\<rparr>)" using sh(6) by (simp add: file_faultless_def)
  have "scan crc (journal_image crc g (old @ js_sent js)) g 0 =
      Inr \<lparr>rc_records = of_nat (length (old @ js_sent js)), rc_next_sequence = g + of_nat (length (old @ js_sent js))\<rparr>"
    using scan_run [OF valid_run_journal_records [OF ok(1)] , where n = 0] ok(2) unfolding image_concat by simp
  then show ?thesis using sh(1) bytes dur fsource.recover_scan [OF fl, of crc g] by (auto simp: file_remaining_def)
qed

theorem shutdown_then_recover_witness:
  "\<exists>js link wk f'. journal_reachable demo_crc file_write file_flush 4 5 demo_file js \<and>
     shutdown demo_crc file_write file_flush 4 (js_link js) (js_worker js) = Some (link, wk, Inr ()) \<and>
     recover demo_crc file_read ((pw_sink wk)\<lparr>f_pos := 0\<rparr>) 5 = Some (f', Inr \<lparr>rc_records = 1, rc_next_sequence = 6\<rparr>)"
proof -
  obtain js where js: "journal_reachable demo_crc file_write file_flush 4 5 demo_file js" "js_sent js = [[1, 2]]"
      "js_writer js = None" "\<not> pw_poisoned (js_worker js)" "pw_sink (js_worker js) = demo_file"
    using demo_journal by blast
  have "file_faultless (pw_sink (js_worker js))" using js(5) by (simp add: file_faultless_def demo_file_def is_fault_def)
  then show ?thesis using shutdown_then_recover [of demo_crc 4 5 "[]" demo_file js] js by (auto simp: demo_file_def)
qed

text \<open>
  C17. The recovery scan of a file without faults returns, however the bytes arrive, and it accepts exactly
  when the bytes from its position on are a run of valid records whose sequences are consecutive from
  the expected one and stay below the last; it then reports their number and the next sequence.
\<close>

theorem recover_accepts_exactly:
  assumes "file_faultless f"
  shows "\<exists>f' r. recover crc file_read f first_sequence = Some (f', r) \<and>
    (r = Inr rc \<longleftrightarrow> (\<exists>rs. drop (f_pos f) (f_bytes f) = concat (map encode rs) \<and> valid_run crc first_sequence rs \<and>
       unat first_sequence + length rs < 2 ^ 64 \<and>
       rc = \<lparr>rc_records = of_nat (length rs), rc_next_sequence = first_sequence + of_nat (length rs)\<rparr>))"
proof -
  let ?bs = "drop (f_pos f) (f_bytes f)"
  have "scan crc ?bs first_sequence 0 = Inr rc \<longleftrightarrow> (\<exists>rs. ?bs = concat (map encode rs) \<and> valid_run crc first_sequence rs \<and>
       unat first_sequence + length rs < 2 ^ 64 \<and>
       rc = \<lparr>rc_records = of_nat (length rs), rc_next_sequence = first_sequence + of_nat (length rs)\<rparr>)" (is "?L \<longleftrightarrow> ?R")
  proof
    assume L: ?L
    from scan_accepts [OF L] obtain rs where rs: "?bs = concat (map encode rs)" "valid_run crc first_sequence rs"
      "unat first_sequence + length rs < 2 ^ 64" by auto
    then show ?R using scan_run [OF rs(2,3), where n = 0] L by auto
  next
    assume ?R
    then show ?L using scan_run [where n = 0] by auto
  qed
  then show ?thesis using fsource.recover_scan [OF assms, of crc first_sequence] by (auto simp: file_remaining_def)
qed

theorem recover_accepts_exactly_witness:
  "\<exists>f' r. recover demo_crc file_read demo_file 5 = Some (f', r) \<and> r \<noteq> Inr \<lparr>rc_records = 1, rc_next_sequence = 6\<rparr>"
proof -
  have "file_faultless demo_file" by (simp add: file_faultless_def demo_file_def is_fault_def)
  moreover have "\<not> (\<exists>rs. [] = concat (map encode rs) \<and> valid_run demo_crc 5 rs \<and> unat (5 :: u64) + length rs < 2 ^ 64 \<and>
       \<lparr>rc_records = 1, rc_next_sequence = 6\<rparr> = \<lparr>rc_records = of_nat (length rs), rc_next_sequence = 5 + of_nat (length rs)\<rparr>)"
    (is "\<not> (\<exists>rs. ?P rs)")
  proof
    assume "\<exists>rs. ?P rs"
    then obtain rs where "?P rs" ..
    then show False by (cases rs) (auto simp: length_0_conv [symmetric] simp del: length_0_conv)
  qed
  ultimately show ?thesis
    using recover_accepts_exactly [of demo_file demo_crc 5 "\<lparr>rc_records = 1, rc_next_sequence = 6\<rparr>"] by (auto simp: demo_file_def)
qed

end
