(* ===== verification/Engine.thy ===== *)
theory Engine
  imports Recovery Events Journal_Recover
begin

text \<open>
  The single-instrument engine of \<^verbatim>\<open>crates/hft-engine\<close>: \<open>Engine\<close> journals a command before it applies it and
  publishes its events, \<open>EngineBuilder\<close> makes or restores the gateway and attaches the queues. The
  journal ring and the status words that the engine shares with the persistence worker are the
  value \<open>shared\<close>, which every operation takes and returns; a reading of the status words is one step.
\<close>

section \<open>Types\<close>

datatype engine_error =
    EngStopped
  | EngFailed
  | EngPersistenceFailed
  | EngUnknownInstrument instrument_id
  | EngParse parse_error
  | EngAdmission event_engine_error
  | EngJournal journal_error
  | EngSequenceInvariant
  | EngApply event_engine_error

datatype engine_state = StateRunning | StateStopping | StateStopped | StateFailed

record health =
  he_state :: engine_state
  he_next_sequence :: sequence_number
  he_journal :: status_state

datatype checkpoint_error =
    CpAdmissionOpen
  | CpPersistencePending
  | CpFailed
  | CpSequenceInvariant
  | CpSnapshot snapshot_error

record engine =
  eg_events :: event_engine
  eg_journal :: "journal_writer option"
  eg_failed :: bool

section \<open>Operations\<close>

definition engine_instrument :: "engine \<Rightarrow> instrument_id" where
  "engine_instrument eng = ob_instrument (gw_book (en_gateway (eg_events eng)))"

definition engine_expected_sequence :: "engine \<Rightarrow> sequence_number" where
  "engine_expected_sequence eng = gw_expected_sequence (en_gateway (eg_events eng))"

definition is_poisoned :: "journal_link \<Rightarrow> bool" where
  "is_poisoned shared = (case jl_status shared of None \<Rightarrow> False | Some s \<Rightarrow> ss_poisoned s)"

definition stop_admission :: "engine \<Rightarrow> journal_link \<Rightarrow> engine \<times> journal_link" where
  "stop_admission eng shared =
     (case eg_journal eng of
        None \<Rightarrow> (eng, shared)
      | Some writer \<Rightarrow> (eng\<lparr>eg_journal := None\<rparr>, close shared))"

definition engine_fail :: "engine \<Rightarrow> journal_link \<Rightarrow> engine \<times> journal_link" where
  "engine_fail eng shared = stop_admission (eng\<lparr>eg_failed := True\<rparr>) shared"

text \<open>The closure argument \<open>enqueue\<close> of the source always enqueues fixed bytes, here \<open>payload\<close>.\<close>

definition apply_journaled ::
  "crc32c \<Rightarrow> nat \<Rightarrow> nat \<Rightarrow> nat \<Rightarrow> nat \<Rightarrow> nat \<Rightarrow> nat \<Rightarrow> nat \<Rightarrow> engine \<Rightarrow> journal_link \<Rightarrow> command \<Rightarrow> u8 list
     \<Rightarrow> (engine \<times> journal_link \<times> (engine_error + unit)) option"
where
  "apply_journaled crc A N L K R B Q eng shared command payload =
     (if eg_failed eng then Some (eng, shared, Inl EngFailed)
      else if is_poisoned shared then
        (case engine_fail eng shared of (eng, shared) \<Rightarrow> Some (eng, shared, Inl EngPersistenceFailed))
      else case eg_journal eng of
          None \<Rightarrow> Some (eng, shared, Inl EngStopped)
        | Some writer \<Rightarrow>
            if command_instrument_id command \<noteq> engine_instrument eng
            then Some (eng, shared, Inl (EngUnknownInstrument (command_instrument_id command)))
            else if jw_next_sequence writer \<noteq> engine_expected_sequence eng then
              (case engine_fail eng shared of (eng, shared) \<Rightarrow> Some (eng, shared, Inl EngSequenceInvariant))
            else
              (case admit Q (eg_events eng) command of
                 (events, Inl e) \<Rightarrow>
                   let eng = eng\<lparr>eg_events := events\<rparr> in
                   (case e of
                      EngineGateway (GwRiskState _) \<Rightarrow>
                        (case stop_admission (eng\<lparr>eg_failed := True\<rparr>) shared of
                           (eng, shared) \<Rightarrow> Some (eng, shared, Inl (EngAdmission e)))
                    | _ \<Rightarrow> Some (eng, shared, Inl (EngAdmission e)))
               | (events, Inr cmd) \<Rightarrow>
                   (case enqueue crc shared writer payload of
                      None \<Rightarrow> None
                    | Some (shared, writer, r) \<Rightarrow>
                        let eng = eng\<lparr>eg_events := events, eg_journal := Some writer\<rparr> in
                        (case r of
                           Inl e \<Rightarrow> Some (eng, shared, Inl (EngJournal e))
                         | Inr _ \<Rightarrow>
                             (case apply_admitted_command A N L K R B Q events cmd of
                                None \<Rightarrow> None
                              | Some (events, Inl e) \<Rightarrow>
                                  (case engine_fail (eng\<lparr>eg_events := events\<rparr>) shared of
                                     (eng, shared) \<Rightarrow> Some (eng, shared, Inl (EngApply e)))
                              | Some (events, Inr _) \<Rightarrow> Some (eng\<lparr>eg_events := events\<rparr>, shared, Inr ()))))))"

definition eng_process_frame ::
  "crc32c \<Rightarrow> nat \<Rightarrow> nat \<Rightarrow> nat \<Rightarrow> nat \<Rightarrow> nat \<Rightarrow> nat \<Rightarrow> nat \<Rightarrow> engine \<Rightarrow> journal_link \<Rightarrow> u8 list
     \<Rightarrow> (engine \<times> journal_link \<times> (engine_error + unit)) option"
where
  "eng_process_frame crc A N L K R B Q eng shared frame =
     (case parse_message frame of
        Inl e \<Rightarrow> Some (eng, shared, Inl (EngParse e))
      | Inr message \<Rightarrow> apply_journaled crc A N L K R B Q eng shared (to_command message) frame)"

definition eng_process_command ::
  "crc32c \<Rightarrow> nat \<Rightarrow> nat \<Rightarrow> nat \<Rightarrow> nat \<Rightarrow> nat \<Rightarrow> nat \<Rightarrow> nat \<Rightarrow> engine \<Rightarrow> journal_link \<Rightarrow> command
     \<Rightarrow> (engine \<times> journal_link \<times> (engine_error + unit)) option"
where
  "eng_process_command crc A N L K R B Q eng shared command =
     apply_journaled crc A N L K R B Q eng shared command (encode_command command)"

text \<open>The status reader of an engine refers to status words, so \<open>None\<close> does not arise for a built engine.\<close>

definition engine_health :: "engine \<Rightarrow> journal_link \<Rightarrow> health option" where
  "engine_health eng shared =
     map_option (\<lambda>journal.
       \<lparr>he_state =
          (if eg_failed eng \<or> ss_poisoned journal then StateFailed
           else if eg_journal eng \<noteq> None then StateRunning
           else if ss_shutdown_complete journal then StateStopped else StateStopping),
        he_next_sequence = engine_expected_sequence eng, he_journal = journal\<rparr>) (jl_status shared)"

definition engine_snapshot ::
  "hash_function \<Rightarrow> nat \<Rightarrow> nat \<Rightarrow> nat \<Rightarrow> nat \<Rightarrow> engine \<Rightarrow> journal_link \<Rightarrow> (checkpoint_error + encoded_snapshot) option"
where
  "engine_snapshot sha256 A N L K eng shared =
     Option.bind (engine_health eng shared) (\<lambda>health.
     if he_state health = StateFailed then Some (Inl CpFailed)
     else if eg_journal eng \<noteq> None then Some (Inl CpAdmissionOpen)
     else if \<not> ss_shutdown_complete (he_journal health) then Some (Inl CpPersistencePending)
     else if ss_next_written_sequence (he_journal health) \<noteq> he_next_sequence health \<or>
             ss_next_durable_sequence (he_journal health) \<noteq> he_next_sequence health
     then Some (Inl CpSequenceInvariant)
     else
       rbind (Some (ok_or (checked_sub (he_next_sequence health) 1) CpSequenceInvariant)) (\<lambda>applied.
       map_option (map_err CpSnapshot) (encode_snapshot sha256 A N L K (en_gateway (eg_events eng)) applied)))"

section \<open>Builder\<close>

datatype build_error =
    BuildZeroCapacity
  | BuildRegistration registration_error
  | BuildEvents event_config_error
  | BuildStorageAlreadyUsed
  | BuildJournalStatusUnavailable
  | BuildRecovery tail_recovery_error
  | BuildInstrumentMismatch

record engine_storage =
  sg_events :: "event_batch spsc_queue"
  sg_queue :: "journal_record spsc_queue"
  sg_status :: status_state
  sg_used :: bool

definition engine_storage_try_new :: "nat \<Rightarrow> queue_config_error + engine_storage" where
  "engine_storage_try_new Q =
     and_then (spsc_try_new Q) (\<lambda>events.
     and_then (spsc_try_new RING_CAPACITY) (\<lambda>queue.
       Inr \<lparr>sg_events = events, sg_queue = queue, sg_status = status_state_new 0, sg_used = False\<rparr>))"

definition validate_capacity :: "nat \<Rightarrow> nat \<Rightarrow> nat \<Rightarrow> nat \<Rightarrow> nat \<Rightarrow> build_error + unit" where
  "validate_capacity A N L K R =
     (if A = 0 \<or> N = 0 \<or> L = 0 \<or> K = 0 \<or> R = 0 then Inl BuildZeroCapacity else Inr ())"

fun register_all ::
  "nat \<Rightarrow> (account_id \<times> risk_limits) list \<Rightarrow> risk_engine \<Rightarrow> build_error + risk_engine"
where
  "register_all A [] risk = Inr risk"
| "register_all A ((account, limits) # accounts) risk =
     and_then (map_err BuildRegistration (register_account A risk account limits)) (\<lambda>risk. register_all A accounts risk)"

definition builder_new ::
  "nat \<Rightarrow> nat \<Rightarrow> nat \<Rightarrow> nat \<Rightarrow> nat \<Rightarrow> instrument_id \<Rightarrow> (account_id \<times> risk_limits) list \<Rightarrow> build_error + gateway"
where
  "builder_new A N L K R instrument accounts =
     and_then (validate_capacity A N L K R) (\<lambda>_.
     and_then (register_all A accounts (risk_new A N)) (\<lambda>risk.
       Inr (gateway_new L K risk instrument)))"

definition builder_restore ::
  "hash_function \<Rightarrow> crc32c \<Rightarrow> nat \<Rightarrow> nat \<Rightarrow> nat \<Rightarrow> nat \<Rightarrow> nat \<Rightarrow> instrument_id \<Rightarrow> u8 list \<Rightarrow> u8 list \<Rightarrow> (build_error + gateway) option"
where
  "builder_restore sha256 crc A N L K R instrument snapshot tail =
     rbind (Some (validate_capacity A N L K R)) (\<lambda>_.
     rbind (map_option (map_err BuildRecovery) (recover_snapshot_and_tail sha256 crc A N L K R snapshot tail)) (\<lambda>gateway.
     if ob_instrument (gw_book gateway) \<noteq> instrument then Some (Inl BuildInstrumentMismatch)
     else Some (Inr gateway)))"

text \<open>
  Building consumes the storage for the lifetime of the engine. When the event engine refuses its
  configuration, the journal reader is dropped, which poisons the status of the storage.
\<close>

definition builder_build ::
  "nat \<Rightarrow> nat \<Rightarrow> gateway \<Rightarrow> engine_storage \<Rightarrow> engine_storage \<times> (build_error + engine \<times> journal_link \<times> journal_reader)"
where
  "builder_build R B gateway storage =
     (if sg_used storage then (storage, Inl BuildStorageAlreadyUsed)
      else
        let channel = channel_of (sg_events storage) in
        case journal_split (sg_queue storage) (gw_expected_sequence gateway) of
          (shared, writer, reader) \<Rightarrow>
            (case jl_status shared of
               None \<Rightarrow> (storage, Inl BuildJournalStatusUnavailable)
             | Some status \<Rightarrow>
                 (case event_engine_try_new R B gateway channel of
                    Inl e \<Rightarrow>
                      (storage\<lparr>sg_status := (case jl_status (drop_reader reader shared) of None \<Rightarrow> status | Some s \<Rightarrow> s)\<rparr>,
                       Inl (BuildEvents e))
                  | Inr events \<Rightarrow>
                      (storage\<lparr>sg_used := True\<rparr>,
                       Inr (\<lparr>eg_events = events, eg_journal = Some writer, eg_failed = False\<rparr>, shared, reader)))))"

end
