(* ===== verification/Engine_System.thy ===== *)
theory Engine_System
  imports Engine
begin

text \<open>
  The engine of \<^verbatim>\<open>crates/hft-engine\<close> together with the persistence worker and the consumer of its events,
  as a system of steps. Its journal is the journal of \<open>Journal_Worker\<close>: every step of the engine is at
  most one step of that system, so the invariant of the journal carries over. The gateway is always
  the result of processing exactly the journaled commands in order.
\<close>

section \<open>Steps\<close>

record 's engine_system =
  ey_engine :: engine
  ey_shared :: journal_link
  ey_worker :: "'s persistence_worker"
  ey_sent :: "command list"

datatype engine_op = OpCommand command | OpFrame "u8 list" | OpTakeEvents | OpStop | OpDrain | OpShutdown

text \<open>\<open>ey_sent\<close> records the commands that were answered with success.\<close>

fun after_command :: "'s engine_system \<Rightarrow> command \<Rightarrow> engine \<times> journal_link \<times> (engine_error + unit) \<Rightarrow> 's engine_system" where
  "after_command sys command (eng, shared, r) =
     sys\<lparr>ey_engine := eng, ey_shared := shared, ey_sent := ey_sent sys @ (case r of Inl _ \<Rightarrow> [] | Inr _ \<Rightarrow> [command])\<rparr>"

fun engine_step ::
  "crc32c \<Rightarrow> 's sink_write \<Rightarrow> 's sink_flush \<Rightarrow> nat \<Rightarrow> nat \<Rightarrow> nat \<Rightarrow> nat \<Rightarrow> nat \<Rightarrow> nat \<Rightarrow> nat \<Rightarrow> nat \<Rightarrow> 's engine_system \<Rightarrow> engine_op
     \<Rightarrow> 's engine_system option"
where
  "engine_step crc put flush BATCH A N L K R B Q sys (OpCommand command) =
     map_option (after_command sys command) (eng_process_command crc A N L K R B Q (ey_engine sys) (ey_shared sys) command)"
| "engine_step crc put flush BATCH A N L K R B Q sys (OpFrame frame) =
     (case parse_message frame of
        Inl _ \<Rightarrow> map_option (\<lambda>(eng, shared, _). sys\<lparr>ey_engine := eng, ey_shared := shared\<rparr>)
          (eng_process_frame crc A N L K R B Q (ey_engine sys) (ey_shared sys) frame)
      | Inr message \<Rightarrow> map_option (after_command sys (to_command message))
          (eng_process_frame crc A N L K R B Q (ey_engine sys) (ey_shared sys) frame))"
| "engine_step crc put flush BATCH A N L K R B Q sys OpTakeEvents =
     map_option (\<lambda>(ch, _). sys\<lparr>ey_engine := (ey_engine sys)\<lparr>eg_events := (eg_events (ey_engine sys))\<lparr>en_channel := ch\<rparr>\<rparr>\<rparr>)
       (try_pop Q (en_channel (eg_events (ey_engine sys))))"
| "engine_step crc put flush BATCH A N L K R B Q sys OpStop =
     (case stop_admission (ey_engine sys) (ey_shared sys) of
        (eng, shared) \<Rightarrow> Some (sys\<lparr>ey_engine := eng, ey_shared := shared\<rparr>))"
| "engine_step crc put flush BATCH A N L K R B Q sys OpDrain =
     map_option (\<lambda>(shared, wk, _). sys\<lparr>ey_shared := shared, ey_worker := wk\<rparr>)
       (drain_batch crc put flush BATCH (ey_shared sys) (ey_worker sys))"
| "engine_step crc put flush BATCH A N L K R B Q sys OpShutdown =
     map_option (\<lambda>(shared, wk, _). sys\<lparr>ey_shared := shared, ey_worker := wk\<rparr>)
       (shutdown crc put flush BATCH (ey_shared sys) (ey_worker sys))"

inductive engine_reachable ::
  "crc32c \<Rightarrow> 's sink_write \<Rightarrow> 's sink_flush \<Rightarrow> nat \<Rightarrow> 's \<Rightarrow> nat \<Rightarrow> nat \<Rightarrow> nat \<Rightarrow> nat \<Rightarrow> nat \<Rightarrow> nat \<Rightarrow> nat \<Rightarrow> gateway \<Rightarrow> 's engine_system \<Rightarrow> bool"
  for crc put flush BATCH sink A N L K R B Q gw
where
  Built: "\<lbrakk>engine_storage_try_new Q = Inr storage; builder_build R B gw storage = (storage', Inr (eng, shared, reader));
      worker_new BATCH shared reader sink policy = (shared', Inr wk)\<rbrakk>
    \<Longrightarrow> engine_reachable crc put flush BATCH sink A N L K R B Q gw
          \<lparr>ey_engine = eng, ey_shared = shared', ey_worker = wk, ey_sent = []\<rparr>"
| Step: "\<lbrakk>engine_reachable crc put flush BATCH sink A N L K R B Q gw sys;
      engine_step crc put flush BATCH A N L K R B Q sys op = Some sys'\<rbrakk>
    \<Longrightarrow> engine_reachable crc put flush BATCH sink A N L K R B Q gw sys'"

section \<open>The invariant\<close>

definition journal_of :: "'s engine_system \<Rightarrow> 's journal_system" where
  "journal_of sys = \<lparr>js_link = ey_shared sys, js_writer = eg_journal (ey_engine sys), js_worker = ey_worker sys,
     js_sent = map encode_command (ey_sent sys)\<rparr>"

abbreviation live_gateway :: "'s engine_system \<Rightarrow> gateway" where
  "live_gateway sys \<equiv> en_gateway (eg_events (ey_engine sys))"

definition engine_ok ::
  "nat \<Rightarrow> nat \<Rightarrow> nat \<Rightarrow> nat \<Rightarrow> nat \<Rightarrow> nat \<Rightarrow> instrument_id \<Rightarrow> gateway \<Rightarrow> 's engine_system \<Rightarrow> bool"
where
  "engine_ok A N L K R Q ins gw sys \<longleftrightarrow>
     (\<exists>batches. engine_inv A N L K Q ins (eg_events (ey_engine sys)) batches) \<and>
     consecutive (gw_expected_sequence gw) (ey_sent sys) \<and>
     process_all A N L K R (ey_sent sys) gw = Some (live_gateway sys) \<and>
     gw_expected_sequence (live_gateway sys) = gw_expected_sequence gw + of_nat (length (ey_sent sys)) \<and>
     (eg_failed (ey_engine sys) \<longrightarrow> eg_journal (ey_engine sys) = None)"

lemma consecutive_append: "consecutive s (cs @ [c]) \<longleftrightarrow> consecutive s cs \<and> command_sequence c = s + of_nat (length cs)"
  by (induction cs arbitrary: s) (auto simp: add.assoc)

text \<open>Admission: refused by sequence or by a full event ring, otherwise nothing but a cached cursor changes.\<close>

lemma admit_cases [consumes 1, case_names Refused Full Admitted]:
  assumes "engine_inv A N L K Q ins en batches"
  obtains (Refused) x where "admit Q en command = (en, Inl (EngineGateway x))" "\<not> admitted (en_gateway en) command"
      "check_sequence (en_gateway en) (command_sequence command) = Inl x"
  | (Full) en' where "admit Q en command = (en', Inl Backpressured)" "admitted (en_gateway en) command" "en_gateway en' = en_gateway en"
      "engine_inv A N L K Q ins en' batches" "length batches = Q"
  | (Admitted) en' where "admit Q en command = (en', Inr command)" "admitted (en_gateway en) command" "en_gateway en' = en_gateway en"
      "engine_inv A N L K Q ins en' batches" "length batches < Q"
proof -
  have ch: "channel_ok Q (en_channel en) batches" and g: "gateway_reachable A N L K ins (en_gateway en)"
    using assms by (auto simp: engine_inv_def)
  obtain ch' b where room: "channel_has_capacity Q (en_channel en) = (ch', b)" by (cases "channel_has_capacity Q (en_channel en)")
  have room': "b \<longleftrightarrow> length batches < Q" "channel_ok Q ch' batches" "length batches \<le> Q"
    using chan.room_law [OF ch] chan.room_keeps [OF ch] chan.bounded [OF ch] room by auto
  have inv': "engine_inv A N L K Q ins (en\<lparr>en_channel := ch'\<rparr>) batches" using g room'(2) by (simp add: engine_inv_def)
  show thesis
  proof (cases "check_sequence (en_gateway en) (command_sequence command)")
    case (Inl x)
    then have "\<not> admitted (en_gateway en) command" using check_sequence_admitted [of "en_gateway en" command] by auto
    moreover have "admit Q en command = (en, Inl (EngineGateway x))" using Inl by (simp add: admit_def preflight_def)
    ultimately show thesis using Refused Inl by blast
  next
    case (Inr u)
    then have adm: "admitted (en_gateway en) command" using check_sequence_admitted [of "en_gateway en" command] by simp
    show thesis
    proof (cases b)
      case True
      show thesis by (rule Admitted [of "en\<lparr>en_channel := ch'\<rparr>"]) (use Inr room True adm inv' room' in \<open>auto simp: admit_def preflight_def\<close>)
    next
      case False
      show thesis by (rule Full [of "en\<lparr>en_channel := ch'\<rparr>"]) (use Inr room False adm inv' room' in \<open>auto simp: admit_def preflight_def\<close>)
    qed
  qed
qed

lemma apply_after_admission:
  assumes inv: "engine_inv A N L K Q ins en batches" and dims: "event_dims A N L K R B" and adm: "admit Q en command = (en1, Inr command)"
  shows "\<exists>en' reports result batch. apply_admitted_command A N L K R B Q en1 command = Some (en', Inr ()) \<and>
    process_command A N L K (en_gateway en) command (report_buffer_new R) = Some (en_gateway en', reports, result) \<and>
    engine_inv A N L K Q ins en' (batches @ [batch])"
proof -
  have e: "engine_process_command A N L K R B Q en command = apply_admitted_command A N L K R B Q en1 command"
    using adm by (simp add: engine_process_command_def)
  have "admitted (en_gateway en) command \<and> length batches < Q"
    using inv by (cases rule: admit_cases [of A N L K Q ins en batches command]) (use adm in auto)
  then show ?thesis using engine_process_command_ok [OF inv dims, of command] e by auto
qed

lemma expected_after:
  assumes "engine_inv A N L K Q ins en batches" "gateway_dims A N L K" "admitted (en_gateway en) command"
    "process_command A N L K (en_gateway en) command r = Some (gw', r', out)"
  shows "gw_expected_sequence gw' = gw_expected_sequence (en_gateway en) + 1"
  using process_command_ok [OF conjunct1 [OF reachable_gateway_inv], of A N L K ins "en_gateway en" command r] assms
  by (auto simp: engine_inv_def)

lemma enqueue_result:
  assumes "channel_ok RING_CAPACITY (jl_ring shared) queued" "length payload \<le> MAX_PAYLOAD" "checked_add (jw_next_sequence w) 1 = Some n"
  shows "\<exists>ch. enqueue crc shared w payload = Some (shared\<lparr>jl_ring := ch\<rparr>,
    (if length queued = RING_CAPACITY then (w, Inl Saturated) else (w\<lparr>jw_next_sequence := n\<rparr>, Inr (jw_next_sequence w))))"
  using chan.push_law [OF assms(1), of "record_of crc (jw_next_sequence w) payload"] assms(2,3)
  by (auto simp: enqueue_def record_new_iff split: if_splits)

lemma stop_admission_journal:
  assumes "journal_reachable crc put flush BATCH f sink (journal_of sys)" "stop_admission ((ey_engine sys)\<lparr>eg_failed := b\<rparr>) (ey_shared sys) = (eng, shared)"
  shows "journal_reachable crc put flush BATCH f sink (journal_of (sys\<lparr>ey_engine := eng, ey_shared := shared\<rparr>))"
  using journal_reachable.step [OF assms(1), of Close] assms
  by (auto simp: journal_of_def stop_admission_def split: option.splits)

lemma stop_admission_engine:
  assumes "engine_ok A N L K R Q ins gw sys" "stop_admission ((ey_engine sys)\<lparr>eg_failed := b\<rparr>) (ey_shared sys) = (eng, shared)"
  shows "engine_ok A N L K R Q ins gw (sys\<lparr>ey_engine := eng, ey_shared := shared\<rparr>)" "eg_events eng = eg_events (ey_engine sys)"
  using assms by (auto simp: engine_ok_def stop_admission_def split: option.splits)

section \<open>One command\<close>

text \<open>The answer of the engine to a command, in the order of its checks.\<close>

definition engine_answer ::
  "nat \<Rightarrow> engine \<Rightarrow> journal_link \<Rightarrow> event_batch list \<Rightarrow> journal_record list \<Rightarrow> command \<Rightarrow> engine_error + unit"
where
  "engine_answer Q eng shared batches queued command =
     (if eg_failed eng then Inl EngFailed
      else if is_poisoned shared then Inl EngPersistenceFailed
      else if eg_journal eng = None then Inl EngStopped
      else if command_instrument_id command \<noteq> engine_instrument eng then Inl (EngUnknownInstrument (command_instrument_id command))
      else case check_sequence (en_gateway (eg_events eng)) (command_sequence command) of
          Inl e \<Rightarrow> Inl (EngAdmission (EngineGateway e))
        | Inr _ \<Rightarrow>
            if length batches = Q then Inl (EngAdmission Backpressured)
            else if length queued = RING_CAPACITY then Inl (EngJournal Saturated) else Inr ())"

definition system_ok ::
  "crc32c \<Rightarrow> 's sink_write \<Rightarrow> 's sink_flush \<Rightarrow> nat \<Rightarrow> 's \<Rightarrow> nat \<Rightarrow> nat \<Rightarrow> nat \<Rightarrow> nat \<Rightarrow> nat \<Rightarrow> nat \<Rightarrow> instrument_id \<Rightarrow> gateway \<Rightarrow> 's engine_system \<Rightarrow> bool"
where
  "system_ok crc put flush BATCH sink A N L K R Q ins gw sys \<longleftrightarrow>
     journal_reachable crc put flush BATCH (gw_expected_sequence gw) sink (journal_of sys) \<and> engine_ok A N L K R Q ins gw sys"

lemma system_keeps_admission:
  assumes "system_ok crc put flush BATCH sink A N L K R Q ins gw sys" "en_gateway en = live_gateway sys" "engine_inv A N L K Q ins en batches"
  shows "system_ok crc put flush BATCH sink A N L K R Q ins gw (sys\<lparr>ey_engine := (ey_engine sys)\<lparr>eg_events := en\<rparr>\<rparr>)"
  using assms by (auto simp: system_ok_def engine_ok_def journal_of_def)

lemma system_stops:
  assumes "system_ok crc put flush BATCH sink A N L K R Q ins gw sys"
    "stop_admission ((ey_engine sys)\<lparr>eg_failed := b\<rparr>) (ey_shared sys) = (eng, shared)"
  shows "system_ok crc put flush BATCH sink A N L K R Q ins gw (sys\<lparr>ey_engine := eng, ey_shared := shared\<rparr>)"
  using stop_admission_journal [OF _ assms(2)] stop_admission_engine(1) [OF _ assms(2)] assms(1)
  unfolding system_ok_def by blast

context patient_sink
begin

lemma apply_journaled_ok:
  assumes ok: "system_ok crc put flush BATCH sink A N L K R Q ins gw sys" and sink: "length (content sink) \<le> durable sink"
    and dims: "event_dims A N L K R B"
  shows "\<exists>eng shared r batches queued. apply_journaled crc A N L K R B Q (ey_engine sys) (ey_shared sys) command (encode_command command) = Some (eng, shared, r) \<and>
    system_ok crc put flush BATCH sink A N L K R Q ins gw (after_command sys command (eng, shared, r)) \<and>
    engine_inv A N L K Q ins (eg_events (ey_engine sys)) batches \<and> channel_ok RING_CAPACITY (jl_ring (ey_shared sys)) queued \<and>
    r = engine_answer Q (ey_engine sys) (ey_shared sys) batches queued command \<and>
    (if r = Inr () then \<exists>reports result. process_command A N L K (live_gateway sys) command (report_buffer_new R) = Some (en_gateway (eg_events eng), reports, result)
     else en_gateway (eg_events eng) = live_gateway sys)"
proof -
  let ?eng = "ey_engine sys" and ?sh = "ey_shared sys" and ?f = "gw_expected_sequence gw"
  have jr: "journal_reachable crc put flush BATCH ?f sink (journal_of sys)" and eo: "engine_ok A N L K R Q ins gw sys"
    using ok by (auto simp: system_ok_def)
  obtain batches where ei: "engine_inv A N L K Q ins (eg_events ?eng) batches"
    and st: "consecutive ?f (ey_sent sys)" "process_all A N L K R (ey_sent sys) gw = Some (live_gateway sys)"
      "gw_expected_sequence (live_gateway sys) = ?f + of_nat (length (ey_sent sys))"
    using eo by (auto simp: engine_ok_def)
  obtain queued where q: "channel_ok RING_CAPACITY (jl_ring ?sh) queued"
    and wn: "\<And>w. eg_journal ?eng = Some w \<Longrightarrow> jw_next_sequence w = gw_expected_sequence (live_gateway sys)"
    using journal_reachable_inv [OF jr sink] st(3) unfolding journal_inv_def segments_def by (auto simp: journal_of_def)
  have gd: "gateway_dims A N L K" using dims by (simp add: event_dims_def)
  let ?go = "\<lambda>eng shared r. apply_journaled crc A N L K R B Q ?eng ?sh command (encode_command command) = Some (eng, shared, r) \<and>
    system_ok crc put flush BATCH sink A N L K R Q ins gw (after_command sys command (eng, shared, r)) \<and>
    r = engine_answer Q ?eng ?sh batches queued command \<and>
    (if r = Inr () then \<exists>reports result. process_command A N L K (live_gateway sys) command (report_buffer_new R) = Some (en_gateway (eg_events eng), reports, result)
     else en_gateway (eg_events eng) = live_gateway sys)"
  have "\<exists>eng shared r. ?go eng shared r"
  proof (cases "eg_failed ?eng \<or> is_poisoned ?sh \<or> eg_journal ?eng = None \<or> command_instrument_id command \<noteq> engine_instrument ?eng")
    case True
    obtain e1 s1 where f: "stop_admission (?eng\<lparr>eg_failed := True\<rparr>) ?sh = (e1, s1)" by (cases "stop_admission (?eng\<lparr>eg_failed := True\<rparr>) ?sh")
    note f' = system_stops [OF ok f] stop_admission_engine(2) [OF eo f]
    show ?thesis
      using True f f' ok unfolding apply_journaled_def engine_answer_def engine_fail_def by (cases "eg_journal ?eng") auto
  next
    case False
    then obtain w where w: "eg_journal ?eng = Some w" by auto
    have ok': "\<not> eg_failed ?eng" "\<not> is_poisoned ?sh" "command_instrument_id command = engine_instrument ?eng"
      "jw_next_sequence w = engine_expected_sequence ?eng"
      using False wn [OF w] by (auto simp: engine_expected_sequence_def)
    from ei show ?thesis
    proof (cases rule: admit_cases [where command = command])
      case (Refused x)
      obtain e1 s1 where f: "stop_admission (?eng\<lparr>eg_failed := True\<rparr>) ?sh = (e1, s1)" by (cases "stop_admission (?eng\<lparr>eg_failed := True\<rparr>) ?sh")
      note f' = system_stops [OF ok f] stop_admission_engine(2) [OF eo f]
      show ?thesis
        using Refused ok' w f f' ok unfolding apply_journaled_def engine_answer_def by (cases x) auto
    next
      case (Full en')
      note k = system_keeps_admission [OF ok Full(3,4)]
      have "check_sequence (live_gateway sys) (command_sequence command) = Inr ()" using Full(2) by (simp add: check_sequence_admitted)
      then show ?thesis using Full ok' w k unfolding apply_journaled_def engine_answer_def by auto
    next
      case (Admitted en')
      have chk: "check_sequence (live_gateway sys) (command_sequence command) = Inr ()" using Admitted(2) by (simp add: check_sequence_admitted)
      have ca: "checked_add (jw_next_sequence w) 1 = Some (jw_next_sequence w + 1)"
        using Admitted(2) uint_lt2p [of "jw_next_sequence w"] wn [OF w] by (auto simp: admitted_def checked_add_def)
      obtain ch where en: "enqueue crc ?sh w (encode_command command) = Some (?sh\<lparr>jl_ring := ch\<rparr>,
          (if length queued = RING_CAPACITY then (w, Inl Saturated) else (w\<lparr>jw_next_sequence := jw_next_sequence w + 1\<rparr>, Inr (jw_next_sequence w))))"
        using enqueue_result [OF q _ ca, of "encode_command command" crc] by (auto simp: MAX_PAYLOAD_def)
      note js = journal_reachable.step [OF jr, of "Enqueue (encode_command command)"]
      show ?thesis
      proof (cases "length queued = RING_CAPACITY")
        case True
        let ?eng' = "?eng\<lparr>eg_events := en', eg_journal := Some w\<rparr>"
        have "journal_reachable crc put flush BATCH ?f sink (journal_of (after_command sys command (?eng', ?sh\<lparr>jl_ring := ch\<rparr>, Inl (EngJournal Saturated))))"
          using js en True w by (simp add: journal_of_def)
        moreover have "engine_ok A N L K R Q ins gw (after_command sys command (?eng', ?sh\<lparr>jl_ring := ch\<rparr>, Inl (EngJournal Saturated)))"
          using eo Admitted(3,4) ok'(1) by (auto simp: engine_ok_def)
        ultimately show ?thesis using Admitted ok' w chk en True
          by (intro exI [of _ ?eng'] exI [of _ "?sh\<lparr>jl_ring := ch\<rparr>"] exI [of _ "Inl (EngJournal Saturated)"])
            (simp add: apply_journaled_def engine_answer_def system_ok_def)
      next
        case False
        obtain en2 reports result batch where ap: "apply_admitted_command A N L K R B Q en' command = Some (en2, Inr ())"
            "process_command A N L K (live_gateway sys) command (report_buffer_new R) = Some (en_gateway en2, reports, result)"
            "engine_inv A N L K Q ins en2 (batches @ [batch])"
          using apply_after_admission [OF ei dims Admitted(1)] by blast
        let ?eng' = "?eng\<lparr>eg_events := en2, eg_journal := Some (w\<lparr>jw_next_sequence := jw_next_sequence w + 1\<rparr>)\<rparr>"
        have "journal_reachable crc put flush BATCH ?f sink (journal_of (after_command sys command (?eng', ?sh\<lparr>jl_ring := ch\<rparr>, Inr ())))"
          using js en False w by (simp add: journal_of_def)
        moreover have "engine_ok A N L K R Q ins gw (after_command sys command (?eng', ?sh\<lparr>jl_ring := ch\<rparr>, Inr ()))"
          using st ap(2,3) expected_after [OF ei gd Admitted(2) ap(2)] ok'(1) Admitted(2)
          by (auto simp: engine_ok_def consecutive_append process_all_append admitted_def)
        ultimately show ?thesis using Admitted ok' w chk en False ap
          by (intro exI [of _ ?eng'] exI [of _ "?sh\<lparr>jl_ring := ch\<rparr>"] exI [of _ "Inr ()"])
            (simp add: apply_journaled_def engine_answer_def system_ok_def)
      qed
    qed
  qed
  then show ?thesis using ei q by blast
qed

text \<open>Every operation of the system returns and keeps the invariant.\<close>

lemma engine_step_ok:
  assumes ok: "system_ok crc put flush BATCH sink A N L K R Q ins gw sys" and sink: "length (content sink) \<le> durable sink"
    and dims: "event_dims A N L K R B"
  shows "\<exists>sys'. engine_step crc put flush BATCH A N L K R B Q sys op = Some sys' \<and>
    system_ok crc put flush BATCH sink A N L K R Q ins gw sys'"
proof -
  have jr: "journal_reachable crc put flush BATCH (gw_expected_sequence gw) sink (journal_of sys)" and eo: "engine_ok A N L K R Q ins gw sys"
    using ok by (auto simp: system_ok_def)
  have ji: "journal_inv crc content durable (gw_expected_sequence gw) (content sink) (journal_of sys)" "0 < BATCH"
    using journal_reachable_inv [OF jr sink] by auto
  show ?thesis
  proof (cases op)
    case (OpCommand command)
    then show ?thesis using apply_journaled_ok [OF ok sink dims, of command] by (auto simp: eng_process_command_def)
  next
    case (OpFrame frame)
    show ?thesis
    proof (cases "parse_message frame")
      case (Inl e)
      then show ?thesis using OpFrame ok by (auto simp: eng_process_frame_def)
    next
      case (Inr m)
      then show ?thesis using apply_journaled_ok [OF ok sink dims, of "to_command m"] OpFrame frame_is_encoding [OF Inr]
        by (auto simp: eng_process_frame_def)
    qed
  next
    case OpTakeEvents
    obtain batches where ei: "engine_inv A N L K Q ins (eg_events (ey_engine sys)) batches" using eo by (auto simp: engine_ok_def)
    then have ch: "channel_ok Q (en_channel (eg_events (ey_engine sys))) batches" by (simp add: engine_inv_def)
    obtain ch' taken left where p: "try_pop Q (en_channel (eg_events (ey_engine sys))) = Some (ch', taken)" "channel_ok Q ch' left"
      using chan.pop_law [OF ch] by (cases batches) auto
    then have "engine_inv A N L K Q ins ((eg_events (ey_engine sys))\<lparr>en_channel := ch'\<rparr>) left" using ei by (simp add: engine_inv_def)
    from system_keeps_admission [OF ok _ this] show ?thesis using p(1) OpTakeEvents by simp
  next
    case OpStop
    then show ?thesis using system_stops [OF ok, of "eg_failed (ey_engine sys)"]
      by (cases "stop_admission (ey_engine sys) (ey_shared sys)") simp
  next
    case OpDrain
    obtain js' where js: "journal_step crc put flush BATCH (journal_of sys) Drain = Some js'" using journal_step_inv [OF ji] by blast
    then show ?thesis using journal_reachable.step [OF jr js] OpDrain eo
      by (auto simp: journal_of_def system_ok_def engine_ok_def)
  next
    case OpShutdown
    obtain js' where js: "journal_step crc put flush BATCH (journal_of sys) Shutdown = Some js'" using journal_step_inv [OF ji] by blast
    then show ?thesis using journal_reachable.step [OF jr js] OpShutdown eo
      by (auto simp: journal_of_def system_ok_def engine_ok_def)
  qed
qed

lemma engine_reachable_ok:
  assumes "engine_reachable crc put flush BATCH sink A N L K R B Q gw sys" and gw: "gateway_reachable A N L K ins gw"
    and sink: "length (content sink) \<le> durable sink" and dims: "event_dims A N L K R B"
  shows "system_ok crc put flush BATCH sink A N L K R Q ins gw sys"
  using assms(1)
proof (induction rule: engine_reachable.induct)
  case (Built storage storage' eng shared reader policy shared' wk)
  obtain qe qj where st: "spsc_try_new Q = Inr qe" "spsc_try_new RING_CAPACITY = Inr qj" "sg_events storage = qe" "sg_queue storage = qj"
    using Built(1) by (auto simp: engine_storage_try_new_def result_iff)
  obtain w where b: "journal_split qj (gw_expected_sequence gw) = (shared, w, reader)" "eg_journal eng = Some w" "\<not> eg_failed eng"
      "eg_events eng = \<lparr>en_gateway = gw, en_channel = channel_of qe\<rparr>"
    using Built(2) st by (auto simp: builder_build_def event_engine_try_new_def Let_def split: if_splits option.splits sum.splits prod.splits)
  have "journal_reachable crc put flush BATCH (gw_expected_sequence gw) sink \<lparr>js_link = shared', js_writer = Some w, js_worker = wk, js_sent = []\<rparr>"
    by (rule journal_reachable.start [OF st(2) b(1) Built(3)])
  moreover have "engine_inv A N L K Q ins (eg_events eng) []" using gw channel_new_ok [OF st(1)] b(4) by (simp add: engine_inv_def)
  ultimately show ?case using b by (auto simp: system_ok_def engine_ok_def journal_of_def)
next
  case (Step sys op sys')
  then show ?case using engine_step_ok [OF Step.IH sink dims, of op] by auto
qed

end

end
