(* ===== verification/Engine_Durable.thy ===== *)
theory Engine_Durable
  imports Engine_System
begin

text \<open>
  The guarantees of the engine of \<^verbatim>\<open>crates/hft-engine\<close> over a file: the exact answer to every command, crash
  recovery from the last snapshot and any prefix of the journal file, and the checkpoint after an
  orderly shutdown.
\<close>

section \<open>What the file holds\<close>

lemma consecutive_take: "consecutive s cs \<Longrightarrow> consecutive s (take m cs)"
  by (induction cs arbitrary: s m) (auto simp: take_Cons split: nat.split)

text \<open>The journal of a reachable engine on an initially empty file.\<close>

lemma engine_journal:
  assumes "system_ok crc file_write file_flush BATCH f0 A N L K R Q ins gw sys" "f_bytes f0 = []"
  obtains ds ws ls qs where "map encode_command (ey_sent sys) = ds @ ws @ ls @ qs" "0 < BATCH"
    "segments crc f_bytes f_durable (gw_expected_sequence gw) [] (ey_shared sys) (ey_worker sys) (eg_journal (ey_engine sys) = None) ds ws ls qs"
proof -
  have jr: "journal_reachable crc file_write file_flush BATCH (gw_expected_sequence gw) f0 (journal_of sys)" using assms(1) by (simp add: system_ok_def)
  show thesis
    using fsink.journal_reachable_inv [OF jr] assms(2) that unfolding journal_inv_def by (auto simp: journal_of_def)
qed

lemma segments_parts:
  assumes "segments crc f_bytes f_durable f [] shared wk closed ds ws ls qs"
  shows "jl_status shared = Some \<lparr>ss_next_written_sequence = f + of_nat (length (ds @ ws)),
       ss_next_durable_sequence = f + of_nat (length ds), ss_producer_closed = closed,
       ss_poisoned = pw_poisoned wk, ss_shutdown_complete = rd_shutdown_complete (pw_reader wk)\<rparr>"
    "\<exists>junk. f_bytes (pw_sink wk) = journal_image crc f (ds @ ws) @ junk" "64 * length ds \<le> f_durable (pw_sink wk)"
    "unat f + length (ds @ ws @ ls @ qs) < 2 ^ 64" "payloads_ok (ds @ ws)"
proof -
  note s = assms [unfolded segments_def append_Nil list.size(3) add_0]
  from s show "jl_status shared = Some \<lparr>ss_next_written_sequence = f + of_nat (length (ds @ ws)),
       ss_next_durable_sequence = f + of_nat (length ds), ss_producer_closed = closed,
       ss_poisoned = pw_poisoned wk, ss_shutdown_complete = rd_shutdown_complete (pw_reader wk)\<rparr>" by (elim conjE)
  from s show "\<exists>junk. f_bytes (pw_sink wk) = journal_image crc f (ds @ ws) @ junk"
    by (elim conjE exE) (rule exI, assumption)
  from s show "64 * length ds \<le> f_durable (pw_sink wk)" by (elim conjE)
  from s show "unat f + length (ds @ ws @ ls @ qs) < 2 ^ 64" by (elim conjE)
  from s have "payloads_ok (ds @ ws @ ls @ qs)" by (elim conjE)
  then show "payloads_ok (ds @ ws)" by simp
qed

lemma applied_bounds:
  assumes "checked_add applied 1 = Some (s :: u64)" "unat s + n < 2 ^ 64"
  shows "s = applied + 1" "uint applied + 1 + int n < 2 ^ 64"
proof -
  have s: "s = applied + 1" "uint applied + 1 < 2 ^ 64" using assms(1) by (auto simp: checked_add_def split: if_splits)
  then have u: "uint s = uint applied + 1" by (simp add: uint_plus_if')
  have "int (unat s + n) < int (2 ^ 64)" using assms(2) by (simp only: of_nat_less_iff)
  then have "uint s + int n < 2 ^ 64" by simp
  with u show "uint applied + 1 + int n < 2 ^ 64" by simp
  show "s = applied + 1" by (rule s)
qed

lemma image_prefix:
  assumes "payloads_ok ps" "m \<le> length ps"
  shows "take (64 * m) (journal_image crc s ps @ junk) = journal_image crc s (take m ps)"
proof -
  have "payloads_ok (take m ps)" using assms(1) by (metis append_take_drop_id payloads_ok_simps(3))
  then have "length (journal_image crc s (take m ps)) = 64 * m" using assms(2) by (simp add: length_journal_image)
  moreover have "journal_image crc s ps = journal_image crc s (take m ps) @ journal_image crc (s + of_nat m) (drop m ps)"
    using journal_image_append [of crc s "take m ps" "drop m ps"] assms(2) by (simp add: min_def)
  ultimately show ?thesis by simp
qed

section \<open>Properties\<close>

text \<open>
  C5. The engine answers every command exactly: a failed, poisoned or stopped engine, a foreign
  instrument, a wrong or exhausted sequence, a full event ring and a full journal ring are refused
  in this order, and each refusal leaves the gateway and the journaled history unchanged. Otherwise
  the command succeeds: it is journaled and the gateway takes exactly one step. The internal
  failures \<open>SequenceInvariant\<close> and \<open>Apply\<close> never occur, and nothing panics.
\<close>

theorem engine_answers_exactly:
  assumes "engine_reachable crc file_write file_flush BATCH f0 A N L K R B Q gw sys" "gateway_reachable A N L K ins gw"
    and "f_durable f0 = length (f_bytes f0)" "event_dims A N L K R B"
  shows "\<exists>eng shared r batches queued.
    eng_process_command crc A N L K R B Q (ey_engine sys) (ey_shared sys) command = Some (eng, shared, r) \<and>
    channel_ok Q (en_channel (eg_events (ey_engine sys))) batches \<and> channel_ok RING_CAPACITY (jl_ring (ey_shared sys)) queued \<and>
    r = engine_answer Q (ey_engine sys) (ey_shared sys) batches queued command \<and>
    (if r = Inr ()
     then \<exists>reports result. process_command A N L K (live_gateway sys) command (report_buffer_new R) =
       Some (en_gateway (eg_events eng), reports, result)
     else en_gateway (eg_events eng) = live_gateway sys) \<and>
    process_all A N L K R (ey_sent (after_command sys command (eng, shared, r))) gw = Some (en_gateway (eg_events eng))"
proof -
  have len: "length (f_bytes f0) \<le> f_durable f0" using assms(3) by simp
  note ok = fsink.engine_reachable_ok [OF assms(1,2) len assms(4)]
  obtain eng shared r batches queued where a: "apply_journaled crc A N L K R B Q (ey_engine sys) (ey_shared sys) command (encode_command command) = Some (eng, shared, r)"
      "system_ok crc file_write file_flush BATCH f0 A N L K R Q ins gw (after_command sys command (eng, shared, r))"
      "engine_inv A N L K Q ins (eg_events (ey_engine sys)) batches" "channel_ok RING_CAPACITY (jl_ring (ey_shared sys)) queued"
      "r = engine_answer Q (ey_engine sys) (ey_shared sys) batches queued command"
      "if r = Inr () then \<exists>reports result. process_command A N L K (live_gateway sys) command (report_buffer_new R) = Some (en_gateway (eg_events eng), reports, result)
       else en_gateway (eg_events eng) = live_gateway sys"
    using fsink.apply_journaled_ok [OF ok len assms(4), of command] by blast
  have "process_all A N L K R (ey_sent (after_command sys command (eng, shared, r))) gw = Some (en_gateway (eg_events eng))"
    using a(2) by (simp add: system_ok_def engine_ok_def)
  moreover have "channel_ok Q (en_channel (eg_events (ey_engine sys))) batches" using a(3) by (simp add: engine_inv_def)
  ultimately show ?thesis using a(1,4-6) unfolding eng_process_command_def by blast
qed

lemma channel_drained: "\<lbrakk>channel_ok n ch xs; channel_ok n ch []\<rbrakk> \<Longrightarrow> xs = []"
  using chan.pop_law [of n ch xs] chan.pop_law [of n ch "[]"] by (cases xs) auto

lemma demo_journal_ring: "spsc_try_new RING_CAPACITY = Inr \<lparr>sq_head = 0, sq_tail = 0, sq_slots = replicate 1024 None\<rparr>"
proof -
  have "is_power_of_two RING_CAPACITY"
    unfolding is_power_of_two_def RING_CAPACITY_def set_map by (rule image_eqI [of _ _ 10]) simp_all
  then show ?thesis by (simp add: spsc_try_new_def RING_CAPACITY_def)
qed

text \<open>An engine built around the one-account gateway, with a file for its journal.\<close>

lemma demo_engine_system:
  "\<exists>sys. engine_reachable demo_crc file_write file_flush 4 demo_file 1 2 1 1 4 6 2 demo_gateway sys \<and> ey_sent sys = [] \<and>
     \<not> eg_failed (ey_engine sys) \<and> \<not> is_poisoned (ey_shared sys) \<and> eg_journal (ey_engine sys) \<noteq> None \<and>
     live_gateway sys = demo_gateway \<and> pw_sink (ey_worker sys) = demo_file \<and> \<not> pw_poisoned (ey_worker sys) \<and>
     jl_ring (ey_shared sys) = channel_of \<lparr>sq_head = 0, sq_tail = 0, sq_slots = replicate 1024 None\<rparr> \<and>
     en_channel (eg_events (ey_engine sys)) = channel_of \<lparr>sq_head = 0, sq_tail = 0, sq_slots = replicate 2 None\<rparr>"
proof -
  let ?q = "\<lparr>sq_head = 0, sq_tail = 0, sq_slots = replicate 1024 None\<rparr> :: journal_record spsc_queue"
  let ?e = "\<lparr>sq_head = 0, sq_tail = 0, sq_slots = replicate 2 None\<rparr> :: event_batch spsc_queue"
  let ?st = "\<lparr>sg_events = ?e, sg_queue = ?q, sg_status = status_state_new 0, sg_used = False\<rparr>"
  have st: "engine_storage_try_new 2 = Inr ?st" by (simp add: engine_storage_try_new_def demo_ring_new demo_journal_ring)
  have s1: "gw_expected_sequence demo_gateway = 1" by (simp add: demo_gateway_def gateway_new_def)
  let ?link = "\<lparr>jl_ring = channel_of ?q, jl_status = Some (status_state_new 1)\<rparr>"
  let ?rd = "\<lparr>rd_expected_sequence = 1, rd_poisoned = False, rd_shutdown_complete = False\<rparr>"
  let ?eng = "\<lparr>eg_events = \<lparr>en_gateway = demo_gateway, en_channel = channel_of ?e\<rparr>, eg_journal = Some \<lparr>jw_next_sequence = 1\<rparr>, eg_failed = False\<rparr>"
  let ?wk = "\<lparr>pw_reader = ?rd, pw_sink = demo_file, pw_policy = EveryBatch, pw_poisoned = False\<rparr>"
  have b: "builder_build 4 6 demo_gateway ?st = (?st\<lparr>sg_used := True\<rparr>, Inr (?eng, ?link, ?rd))"
    using s1 by (simp add: builder_build_def journal_split_def event_engine_try_new_def Let_def)
  have w: "worker_new 4 ?link ?rd demo_file EveryBatch = (?link, Inr ?wk)"
    by (simp add: worker_new_def status_state_new_def)
  show ?thesis
    by (rule exI, rule conjI, rule engine_reachable.Built [OF st b w]) (simp add: is_poisoned_def status_state_new_def)
qed

theorem engine_answers_exactly_witness:
  "\<exists>sys eng shared. engine_reachable demo_crc file_write file_flush 4 demo_file 1 2 1 1 4 6 2 demo_gateway sys \<and>
     eng_process_command demo_crc 1 2 1 1 4 6 2 (ey_engine sys) (ey_shared sys) (NewOrder demo_reserve) = Some (eng, shared, Inr ()) \<and>
     gw_expected_sequence (en_gateway (eg_events eng)) = 2"
proof -
  obtain sys where sys: "engine_reachable demo_crc file_write file_flush 4 demo_file 1 2 1 1 4 6 2 demo_gateway sys"
      "\<not> eg_failed (ey_engine sys)" "\<not> is_poisoned (ey_shared sys)" "eg_journal (ey_engine sys) \<noteq> None" "live_gateway sys = demo_gateway"
      "jl_ring (ey_shared sys) = channel_of \<lparr>sq_head = 0, sq_tail = 0, sq_slots = replicate 1024 None\<rparr>"
      "en_channel (eg_events (ey_engine sys)) = channel_of \<lparr>sq_head = 0, sq_tail = 0, sq_slots = replicate 2 None\<rparr>"
    using demo_engine_system by blast
  have dur: "f_durable demo_file = length (f_bytes demo_file)" by (simp add: demo_file_def)
  obtain eng shared r batches queued where a: "eng_process_command demo_crc 1 2 1 1 4 6 2 (ey_engine sys) (ey_shared sys) (NewOrder demo_reserve) = Some (eng, shared, r)"
      "channel_ok 2 (en_channel (eg_events (ey_engine sys))) batches" "channel_ok RING_CAPACITY (jl_ring (ey_shared sys)) queued"
      "r = engine_answer 2 (ey_engine sys) (ey_shared sys) batches queued (NewOrder demo_reserve)"
      "if r = Inr () then \<exists>reports result. process_command 1 2 1 1 (live_gateway sys) (NewOrder demo_reserve) (report_buffer_new 4) = Some (en_gateway (eg_events eng), reports, result)
       else en_gateway (eg_events eng) = live_gateway sys"
    using engine_answers_exactly [OF sys(1) demo_gateway_reachable dur demo_event_dims, of "NewOrder demo_reserve"] by blast
  have fresh: "channel_ok 2 (en_channel (eg_events (ey_engine sys))) []" "channel_ok RING_CAPACITY (jl_ring (ey_shared sys)) []"
    unfolding sys(6,7) by (rule channel_new_ok [OF demo_ring_new] channel_new_ok [OF demo_journal_ring])+
  have empty: "batches = []" "queued = []" by (rule channel_drained [OF a(2) fresh(1)] channel_drained [OF a(3) fresh(2)])+
  have "engine_instrument (ey_engine sys) = 7" using sys(5) by (simp add: engine_instrument_def demo_gateway_def gateway_new_def book_new_def)
  moreover have "check_sequence (live_gateway sys) (command_sequence (NewOrder demo_reserve)) = Inr ()"
    using demo_admitted sys(5) by (simp add: check_sequence_admitted del: command_sequence.simps)
  ultimately have r: "r = Inr ()" using a(4) sys(2-4) empty
    by (simp add: engine_answer_def demo_reserve_def RING_CAPACITY_def)
  have inv: "engine_inv 1 2 1 1 2 7 demo_engine []" by (rule demo_engine_inv)
  have "gw_expected_sequence (en_gateway (eg_events eng)) = gw_expected_sequence (en_gateway demo_engine) + 1"
    using a(5) r sys(5) expected_after [OF inv demo_gateway_dims] demo_admitted by (auto simp: demo_engine_def)
  then show ?thesis using sys(1) a(1) r by (auto simp: demo_engine_def demo_gateway_def gateway_new_def)
qed

text \<open>
  C4. Crash recovery of the engine, started on an empty journal file with any reachable gateway and a
  snapshot at its journal cut. At every moment the journal file starts with whole records of the
  first \<open>w\<close> successful commands, of which the first \<open>d\<close> are durable, and the status words say so.
  When the orders the engine started with are within the limits of their accounts, then whatever number
  of these records survives, recovering from the snapshot taken when the engine was
  built and that prefix of the file yields, without error, a gateway equivalent to the one that
  processed exactly that many commands; when one of these orders is outside (an accepted
  replace can leave it there, \<open>Gateway_State\<close>), recovery is refused with \<open>OrderLimit\<close>. The live gateway is the
  one that processed all successful commands.
\<close>

theorem engine_crash_recovery:
  assumes "engine_reachable crc file_write file_flush BATCH f0 A N L K R B Q gw sys" "gateway_reachable A N L K ins gw"
    and "f_bytes f0 = []" "f_durable f0 = 0" "event_dims A N L K R B" "K < 2 ^ 32"
    and "\<forall>x. length (sha256 x) = 32" "checked_add applied 1 = Some (gw_expected_sequence gw)"
  shows "\<exists>sn s d w. encode_snapshot sha256 A N L K gw applied = Some (Inr sn) \<and>
    jl_status (ey_shared sys) = Some s \<and> d \<le> w \<and> w \<le> length (ey_sent sys) \<and>
    ss_next_durable_sequence s = applied + 1 + of_nat d \<and> ss_next_written_sequence s = applied + 1 + of_nat w \<and>
    64 * d \<le> f_durable (pw_sink (ey_worker sys)) \<and> 64 * w \<le> length (f_bytes (pw_sink (ey_worker sys))) \<and>
    (\<forall>m \<le> w. if orders_within A gw
       then \<exists>live recovered. process_all A N L K R (take m (ey_sent sys)) gw = Some live \<and>
         recover_snapshot_and_tail sha256 crc A N L K R (sn_bytes sn) (take (64 * m) (f_bytes (pw_sink (ey_worker sys)))) = Some (Inr recovered) \<and>
         gw_inv A N L K recovered \<and> gw_equiv A N L K live recovered
       else recover_snapshot_and_tail sha256 crc A N L K R (sn_bytes sn) (take (64 * m) (f_bytes (pw_sink (ey_worker sys))))
         = Some (Inl (RecSnapshot (SnGatewayState GsOrderLimit)))) \<and>
    process_all A N L K R (ey_sent sys) gw = Some (live_gateway sys)"
proof -
  let ?f = "gw_expected_sequence gw" and ?file = "pw_sink (ey_worker sys)"
  have gd: "gateway_dims A N L K" using assms(5) by (simp add: event_dims_def)
  have len: "length (f_bytes f0) \<le> f_durable f0" using assms(3) by simp
  note ok = fsink.engine_reachable_ok [OF assms(1,2) len assms(5)]
  obtain ds ws ls qs where sent: "map encode_command (ey_sent sys) = ds @ ws @ ls @ qs"
    and seg: "segments crc f_bytes f_durable ?f [] (ey_shared sys) (ey_worker sys) (eg_journal (ey_engine sys) = None) ds ws ls qs"
    using engine_journal [OF ok assms(3)] by metis
  note P = segments_parts [OF seg]
  obtain junk where junk: "f_bytes ?file = journal_image crc ?f (ds @ ws) @ junk" using P(2) by blast
  let ?d = "length ds" and ?w = "length (ds @ ws)"
  have n: "length (ey_sent sys) = length (ds @ ws @ ls @ qs)" using sent by (metis length_map)
  have f: "?f = applied + 1" "uint applied + 1 + int (length (ey_sent sys)) < 2 ^ 64"
    using applied_bounds [OF assms(8) P(4)] n by simp_all
  have cons: "consecutive ?f (ey_sent sys)" "process_all A N L K R (ey_sent sys) gw = Some (live_gateway sys)"
    using ok by (simp_all add: system_ok_def engine_ok_def)
  obtain sn where sn: "encode_snapshot sha256 A N L K gw applied = Some (Inr sn)"
    using snapshot_taken [OF assms(2) gd assms(6,7,8)] by blast
  have rec: "\<exists>live recovered. process_all A N L K R (take m (ey_sent sys)) gw = Some live \<and>
       recover_snapshot_and_tail sha256 crc A N L K R (sn_bytes sn) (take (64 * m) (f_bytes ?file)) = Some (Inr recovered) \<and>
       gw_inv A N L K recovered \<and> gw_equiv A N L K live recovered"
    if m: "m \<le> ?w" and within: "orders_within A gw" for m
  proof -
    have "take m (ds @ ws) = map encode_command (take m (ey_sent sys))"
      using m arg_cong [OF sent, of "take m"] by (simp add: take_map)
    then have "take (64 * m) (f_bytes ?file) = journal_image crc (applied + 1) (map encode_command (take m (ey_sent sys)))"
      using image_prefix [OF P(5) m, of crc ?f junk] junk f(1) by simp
    moreover have "consecutive (applied + 1) (take m (ey_sent sys))" "uint applied + 1 + int (length (take m (ey_sent sys))) < 2 ^ 64"
      using consecutive_take [OF cons(1)] f by (auto simp: min_def)
    ultimately show ?thesis
      using recover_tail [OF assms(2) gd assms(6) within assms(7,8) sn, of "take m (ey_sent sys)" R crc] by auto
  qed
  note refused = recover_refused [OF assms(2) gd assms(6) _ assms(7,8) sn]
  have "64 * ?w \<le> length (f_bytes ?file)" using junk length_journal_image [OF P(5), of crc ?f] by simp
  then show ?thesis
    using P(1,3) n cons(2) sn rec refused unfolding f(1)
    by (intro exI [of _ sn] exI [of _ ?d] exI [of _ ?w] exI conjI) (assumption | simp)+
qed

theorem engine_crash_recovery_witness:
  "\<exists>sys sn live recovered. engine_reachable demo_crc file_write file_flush 4 demo_file 1 2 1 1 4 6 2 demo_gateway sys \<and>
     encode_snapshot (\<lambda>_. replicate 32 7) 1 2 1 1 demo_gateway 0 = Some (Inr sn) \<and> process_all 1 2 1 1 4 [] demo_gateway = Some live \<and>
     recover_snapshot_and_tail (\<lambda>_. replicate 32 7) demo_crc 1 2 1 1 4 (sn_bytes sn) [] = Some (Inr recovered) \<and> gw_equiv 1 2 1 1 live recovered"
proof -
  obtain sys where sys: "engine_reachable demo_crc file_write file_flush 4 demo_file 1 2 1 1 4 6 2 demo_gateway sys"
    using demo_engine_system by blast
  have f: "f_bytes demo_file = []" "f_durable demo_file = 0" by (simp_all add: demo_file_def)
  show ?thesis
    using engine_crash_recovery [OF sys demo_gateway_reachable f demo_event_dims _ _ demo_snapshot_parts(2),
        of "\<lambda>_. replicate 32 7"] demo_snapshot_parts(1) sys by (auto dest: spec [of _ 0])
qed

text \<open>The watermarks of a journal that was shut down cleanly.\<close>

lemma checkpoint_taken:
  assumes ok: "engine_ok A N L K R Q ins gw sys" and dims: "gateway_dims A N L K" "K < 2 ^ 32" and sha: "\<forall>x. length (sha256 x) = 32"
    and st: "jl_status shared = Some s" "ss_shutdown_complete s" "\<not> ss_poisoned s"
      "ss_next_written_sequence s = gw_expected_sequence (live_gateway sys)" "ss_next_durable_sequence s = gw_expected_sequence (live_gateway sys)"
    and eng: "eg_journal (ey_engine sys) = None" "\<not> eg_failed (ey_engine sys)"
  shows "\<exists>sn applied. checked_add applied 1 = Some (gw_expected_sequence (live_gateway sys)) \<and>
    encode_snapshot sha256 A N L K (live_gateway sys) applied = Some (Inr sn) \<and>
    engine_snapshot sha256 A N L K (ey_engine sys) shared = Some (Inr sn)"
proof -
  let ?n = "gw_expected_sequence (live_gateway sys)"
  have reach: "gateway_reachable A N L K ins (live_gateway sys)" using ok by (auto simp: engine_ok_def engine_inv_def)
  have "?n \<noteq> 0" using reachable_in_sequence [OF reach dims(1)] by (simp add: in_sequence_def)
  then have n1: "1 \<le> uint ?n" using uint_0_iff [of ?n] uint_ge_0 [of ?n] by linarith
  then have u: "uint (?n - 1) = uint ?n - 1" by (simp add: uint_sub_if')
  have sub: "checked_sub ?n 1 = Some (?n - 1)" using n1 by (simp add: checked_sub_def word_le_def)
  have add: "checked_add (?n - 1) 1 = Some ?n" using u uint_lt2p [of ?n] by (simp add: checked_add_def)
  obtain sn where sn: "encode_snapshot sha256 A N L K (live_gateway sys) (?n - 1) = Some (Inr sn)"
    using snapshot_taken [OF reach dims sha add] by blast
  then have "engine_snapshot sha256 A N L K (ey_engine sys) shared = Some (Inr sn)"
    using st eng sub by (simp add: engine_snapshot_def engine_health_def engine_expected_sequence_def)
  then show ?thesis using add sn by blast
qed

text \<open>
  C9. Orderly shutdown. Once admission has stopped, and the engine did not fail and the file has no
  faults left, shutting the worker down returns and succeeds, every successful command is in the
  file and durable, and the engine's snapshot succeeds. Restoring an engine from that snapshot alone
  gives a gateway equivalent to the one that was shut down, when its orders are within the limits of
  their accounts and the capacities are positive, as the builder asks.
\<close>

theorem engine_shutdown_checkpoint:
  assumes "engine_reachable crc file_write file_flush BATCH f0 A N L K R B Q gw sys" "gateway_reachable A N L K ins gw"
    and "f_bytes f0 = []" "f_durable f0 = 0" "event_dims A N L K R B" "K < 2 ^ 32" "\<forall>x. length (sha256 x) = 32"
    and "eg_journal (ey_engine sys) = None" "\<not> eg_failed (ey_engine sys)"
      "\<not> pw_poisoned (ey_worker sys)" "file_faultless (pw_sink (ey_worker sys))"
  shows "\<exists>shared wk sn. shutdown crc file_write file_flush BATCH (ey_shared sys) (ey_worker sys) = Some (shared, wk, Inr ()) \<and>
    f_bytes (pw_sink wk) = journal_image crc (gw_expected_sequence gw) (map encode_command (ey_sent sys)) \<and>
    length (f_bytes (pw_sink wk)) \<le> f_durable (pw_sink wk) \<and>
    engine_snapshot sha256 A N L K (ey_engine sys) shared = Some (Inr sn) \<and>
    (orders_within A (live_gateway sys) \<and> 0 < A \<and> 0 < N \<and> 0 < L \<and> 0 < R \<longrightarrow>
      (\<exists>restored. builder_restore sha256 crc A N L K R ins (sn_bytes sn) [] = Some (Inr restored) \<and>
        gw_inv A N L K restored \<and> gw_equiv A N L K (live_gateway sys) restored))"
proof -
  let ?f = "gw_expected_sequence gw"
  have gd: "gateway_dims A N L K" using assms(5) by (simp add: event_dims_def)
  have len: "length (f_bytes f0) \<le> f_durable f0" using assms(3) by simp
  note ok = fsink.engine_reachable_ok [OF assms(1,2) len assms(5)]
  have eo: "engine_ok A N L K R Q ins gw sys" using ok by (simp add: system_ok_def)
  obtain ds ws ls qs where sent: "map encode_command (ey_sent sys) = ds @ ws @ ls @ qs" and B: "0 < BATCH"
    and seg0: "segments crc f_bytes f_durable ?f [] (ey_shared sys) (ey_worker sys) (eg_journal (ey_engine sys) = None) ds ws ls qs"
    using engine_journal [OF ok assms(3)] by metis
  have seg: "segments crc f_bytes f_durable ?f [] (ey_shared sys) (ey_worker sys) True ds ws ls qs"
    using seg0 by (simp only: assms(8) simp_thms)
  obtain shared wk ds' ws' ls' qs' where sh:
      "shutdown crc file_write file_flush BATCH (ey_shared sys) (ey_worker sys) = Some (shared, wk, Inr ())"
      "segments crc f_bytes f_durable ?f [] shared wk True ds' ws' ls' qs'" "ds' @ ws' @ ls' @ qs' = map encode_command (ey_sent sys)"
      "rd_shutdown_complete (pw_reader wk)" "\<not> pw_poisoned wk"
    using fsink.shutdown_segments [OF seg B] assms(10,11) sent by metis
  note S = segmentsD [OF sh(2,5)]
  have ds': "ds' = map encode_command (ey_sent sys)" "ws' = []" using S(1,10) sh(3,4) by auto
  have bytes: "f_bytes (pw_sink wk) = journal_image crc ?f (map encode_command (ey_sent sys))" using S(7) ds' by simp
  have dur: "length (f_bytes (pw_sink wk)) \<le> f_durable (pw_sink wk)"
    using S(2,8) bytes ds' length_journal_image [of "map encode_command (ey_sent sys)" crc ?f] by simp
  have ex: "gw_expected_sequence (live_gateway sys) = ?f + of_nat (length (ey_sent sys))" using eo by (simp add: engine_ok_def)
  obtain sn applied where cp: "checked_add applied 1 = Some (gw_expected_sequence (live_gateway sys))"
      "encode_snapshot sha256 A N L K (live_gateway sys) applied = Some (Inr sn)"
      "engine_snapshot sha256 A N L K (ey_engine sys) shared = Some (Inr sn)"
    using checkpoint_taken [OF eo gd assms(6,7) S(9) _ _ _ _ assms(8,9)] sh(4) ds' ex by auto
  have reach: "gateway_reachable A N L K ins (live_gateway sys)" using eo by (auto simp: engine_ok_def engine_inv_def)
  have "\<exists>restored. builder_restore sha256 crc A N L K R ins (sn_bytes sn) [] = Some (Inr restored) \<and>
        gw_inv A N L K restored \<and> gw_equiv A N L K (live_gateway sys) restored"
    if w: "orders_within A (live_gateway sys)" "0 < A" "0 < N" "0 < L" "0 < R"
  proof -
    have b: "uint applied + 1 < 2 ^ 64" using cp(1) by (auto simp: checked_add_def split: if_splits)
    obtain restored where r: "recover_snapshot_and_tail sha256 crc A N L K R (sn_bytes sn) [] = Some (Inr restored)"
        "gw_inv A N L K restored" "gw_equiv A N L K (live_gateway sys) restored"
      using recover_tail [OF reach gd assms(6) w(1) assms(7) cp(1,2), of "[]" R crc] b by auto
    have "ob_instrument (gw_book restored) = ins"
      using gw_equivD(2) [OF r(3)] reachable_gateway_inv [OF reach gd] by (simp add: book_equiv_def)
    then show ?thesis using r w gd by (simp add: builder_restore_def validate_capacity_def gateway_dims_def dims_ok_def)
  qed
  then show ?thesis using sh(1) bytes dur cp(3) by blast
qed

lemma demo_stopped_system:
  "\<exists>sys. engine_reachable demo_crc file_write file_flush 4 demo_file 1 2 1 1 4 6 2 demo_gateway sys \<and> ey_sent sys = [] \<and>
     eg_journal (ey_engine sys) = None \<and> \<not> eg_failed (ey_engine sys) \<and> \<not> pw_poisoned (ey_worker sys) \<and>
     file_faultless (pw_sink (ey_worker sys)) \<and> live_gateway sys = demo_gateway"
proof -
  obtain sys where sys: "engine_reachable demo_crc file_write file_flush 4 demo_file 1 2 1 1 4 6 2 demo_gateway sys" "ey_sent sys = []"
      "\<not> eg_failed (ey_engine sys)" "eg_journal (ey_engine sys) \<noteq> None" "\<not> pw_poisoned (ey_worker sys)" "pw_sink (ey_worker sys) = demo_file"
      "live_gateway sys = demo_gateway"
    using demo_engine_system by blast
  let ?sys = "sys\<lparr>ey_engine := (ey_engine sys)\<lparr>eg_journal := None\<rparr>, ey_shared := close (ey_shared sys)\<rparr>"
  have "engine_step demo_crc file_write file_flush 4 1 2 1 1 4 6 2 sys OpStop = Some ?sys"
    using sys(4) by (auto simp: stop_admission_def)
  from engine_reachable.Step [OF sys(1) this] show ?thesis
    using sys by (intro exI [of _ ?sys]) (simp add: file_faultless_def demo_file_def is_fault_def)
qed

theorem engine_shutdown_checkpoint_witness:
  "\<exists>(sys :: disk_file engine_system) shared wk sn restored. shutdown demo_crc file_write file_flush 4 (ey_shared sys) (ey_worker sys) = Some (shared, wk, Inr ()) \<and>
     f_bytes (pw_sink wk) = [] \<and> engine_snapshot (\<lambda>_. replicate 32 7) 1 2 1 1 (ey_engine sys) shared = Some (Inr sn) \<and>
     builder_restore (\<lambda>_. replicate 32 7) demo_crc 1 2 1 1 4 7 (sn_bytes sn) [] = Some (Inr restored) \<and> gw_equiv 1 2 1 1 demo_gateway restored"
proof -
  obtain sys where sys: "engine_reachable demo_crc file_write file_flush 4 demo_file 1 2 1 1 4 6 2 demo_gateway sys" "ey_sent sys = []"
      "eg_journal (ey_engine sys) = None" "\<not> eg_failed (ey_engine sys)" "\<not> pw_poisoned (ey_worker sys)"
      "file_faultless (pw_sink (ey_worker sys))" "live_gateway sys = demo_gateway"
    using demo_stopped_system by blast
  have f: "f_bytes demo_file = []" "f_durable demo_file = 0" by (simp_all add: demo_file_def)
  obtain shared wk sn restored where "shutdown demo_crc file_write file_flush 4 (ey_shared sys) (ey_worker sys) = Some (shared, wk, Inr ())"
      "f_bytes (pw_sink wk) = []" "engine_snapshot (\<lambda>_. replicate 32 7) 1 2 1 1 (ey_engine sys) shared = Some (Inr sn)"
      "builder_restore (\<lambda>_. replicate 32 7) demo_crc 1 2 1 1 4 7 (sn_bytes sn) [] = Some (Inr restored)" "gw_equiv 1 2 1 1 demo_gateway restored"
    using engine_shutdown_checkpoint [OF sys(1) demo_gateway_reachable f demo_event_dims _ _ sys(3-6), of "\<lambda>_. replicate 32 7"]
      sys(2,7) demo_snapshot_parts(1) by auto
  then show ?thesis by blast
qed

text \<open>
  C10. A snapshot is never taken too early: whenever the engine's snapshot succeeds, admission has
  stopped, every successful command is in the journal file and durable, nothing else is in the file,
  and the bytes are the encoding of the live gateway at its last applied sequence.
\<close>

theorem engine_snapshot_covers_journal:
  assumes "engine_reachable crc file_write file_flush BATCH f0 A N L K R B Q gw sys" "gateway_reachable A N L K ins gw"
    and "f_bytes f0 = []" "f_durable f0 = 0" "event_dims A N L K R B"
    and "engine_snapshot sha256 A N L K (ey_engine sys) (ey_shared sys) = Some (Inr sn)"
  shows "eg_journal (ey_engine sys) = None \<and> \<not> eg_failed (ey_engine sys) \<and>
    f_bytes (pw_sink (ey_worker sys)) = journal_image crc (gw_expected_sequence gw) (map encode_command (ey_sent sys)) \<and>
    length (f_bytes (pw_sink (ey_worker sys))) \<le> f_durable (pw_sink (ey_worker sys)) \<and>
    (\<exists>applied. checked_sub (gw_expected_sequence (live_gateway sys)) 1 = Some applied \<and>
       encode_snapshot sha256 A N L K (live_gateway sys) applied = Some (Inr sn))"
proof -
  let ?f = "gw_expected_sequence gw" and ?wk = "ey_worker sys"
  have len: "length (f_bytes f0) \<le> f_durable f0" using assms(3) by simp
  note ok = fsink.engine_reachable_ok [OF assms(1,2) len assms(5)]
  obtain ds ws ls qs where sent: "map encode_command (ey_sent sys) = ds @ ws @ ls @ qs"
    and seg: "segments crc f_bytes f_durable ?f [] (ey_shared sys) ?wk (eg_journal (ey_engine sys) = None) ds ws ls qs"
    using engine_journal [OF ok assms(3)] by metis
  obtain s applied where s: "jl_status (ey_shared sys) = Some s" "\<not> eg_failed (ey_engine sys)" "\<not> ss_poisoned s" "eg_journal (ey_engine sys) = None"
      "ss_shutdown_complete s" "checked_sub (gw_expected_sequence (live_gateway sys)) 1 = Some applied"
      "encode_snapshot sha256 A N L K (live_gateway sys) applied = Some (Inr sn)"
    using assms(6) unfolding engine_snapshot_def engine_health_def engine_expected_sequence_def
    by (auto simp: Option.bind_eq_Some_conv rbind_def ok_or_def map_err_Inr split: if_splits option.splits sum.splits)
  have np: "\<not> pw_poisoned ?wk" and done1: "rd_shutdown_complete (pw_reader ?wk)" using segments_parts(1) [OF seg] s by auto
  note S = segmentsD [OF seg np]
  have ds: "ds = map encode_command (ey_sent sys)" "ws = []" using S(1,10) done1 sent by auto
  have bytes: "f_bytes (pw_sink ?wk) = journal_image crc ?f (map encode_command (ey_sent sys))" using S(7) ds by simp
  moreover have "length (f_bytes (pw_sink ?wk)) \<le> f_durable (pw_sink ?wk)"
    using S(2,8) bytes ds length_journal_image [of "map encode_command (ey_sent sys)" crc ?f] by simp
  ultimately show ?thesis using s by blast
qed

theorem engine_snapshot_covers_journal_witness:
  "\<exists>sys sn. engine_reachable demo_crc file_write file_flush 4 demo_file 1 2 1 1 4 6 2 demo_gateway sys \<and>
     engine_snapshot (\<lambda>_. replicate 32 7) 1 2 1 1 (ey_engine sys) (ey_shared sys) = Some (Inr sn) \<and> eg_journal (ey_engine sys) = None"
proof -
  obtain sys where sys: "engine_reachable demo_crc file_write file_flush 4 demo_file 1 2 1 1 4 6 2 demo_gateway sys" "ey_sent sys = []"
      "eg_journal (ey_engine sys) = None" "\<not> eg_failed (ey_engine sys)" "\<not> pw_poisoned (ey_worker sys)"
      "file_faultless (pw_sink (ey_worker sys))" "live_gateway sys = demo_gateway"
    using demo_stopped_system by blast
  have f: "f_bytes demo_file = []" "f_durable demo_file = 0" by (simp_all add: demo_file_def)
  have len: "length (f_bytes demo_file) \<le> f_durable demo_file" using f by simp
  note ok = fsink.engine_reachable_ok [OF sys(1) demo_gateway_reachable len demo_event_dims]
  obtain ds ws ls qs where seg0: "0 < (4 :: nat)" "[] = ds @ ws @ ls @ qs"
    "segments demo_crc f_bytes f_durable (gw_expected_sequence demo_gateway) [] (ey_shared sys) (ey_worker sys) (eg_journal (ey_engine sys) = None) ds ws ls qs"
    using engine_journal [OF ok f(1)] sys(2) by (metis list.map(1))
  have seg: "segments demo_crc f_bytes f_durable (gw_expected_sequence demo_gateway) [] (ey_shared sys) (ey_worker sys) True [] [] [] []"
    using seg0 sys(3) by simp
  obtain shared wk r ds' ws' ls' qs' where sh: "shutdown demo_crc file_write file_flush 4 (ey_shared sys) (ey_worker sys) = Some (shared, wk, r)"
      "segments demo_crc f_bytes f_durable (gw_expected_sequence demo_gateway) [] shared wk True ds' ws' ls' qs'" "ds' @ ws' @ ls' @ qs' = []"
      "rd_shutdown_complete (pw_reader wk)" "\<not> pw_poisoned wk"
    using fsink.shutdown_segments [OF seg seg0(1)] sys(5,6) by auto
  let ?sys = "sys\<lparr>ey_shared := shared, ey_worker := wk\<rparr>"
  have r: "engine_reachable demo_crc file_write file_flush 4 demo_file 1 2 1 1 4 6 2 demo_gateway ?sys"
    by (rule engine_reachable.Step [OF sys(1), of OpShutdown]) (simp add: sh(1))
  have eo: "engine_ok 1 2 1 1 4 2 7 demo_gateway ?sys"
    using fsink.engine_reachable_ok [OF r demo_gateway_reachable len demo_event_dims] by (simp add: system_ok_def)
  obtain sn where sn: "engine_snapshot (\<lambda>_. replicate 32 7) 1 2 1 1 (ey_engine ?sys) (ey_shared ?sys) = Some (Inr sn)"
    using checkpoint_taken [OF eo demo_gateway_dims, of "\<lambda>_. replicate 32 7" shared] segments_parts(1) [OF sh(2)] sh(3-5) sys(3,4,7) by auto
  show ?thesis
    using engine_snapshot_covers_journal [OF r demo_gateway_reachable f demo_event_dims sn] r sn by blast
qed

end
