(* ===== verification/Digest.thy ===== *)
theory Digest
  imports Recovery
begin

text \<open>
  The state digests of the book, the risk engine and the gateway (\<open>stable_digest\<close> in
  \<^verbatim>\<open>crates/hft-book\<close>, \<^verbatim>\<open>crates/hft-risk\<close> and \<^verbatim>\<open>crates/hft-gateway\<close>) and the replay of a frame stream
  (\<^verbatim>\<open>crates/hft-replay\<close>). The book digest is a function of the resting orders in priority order; the
  risk digest reads accounts and reservations in slot order, so it depends on how the engine came
  about.
\<close>

unbundle bit_operations_syntax

section \<open>Digests\<close>

definition mix :: "u64 \<Rightarrow> u64 \<Rightarrow> u64" where
  "mix digest value = (digest XOR value) * 0x100000001b3"

definition DIGEST_SEED :: u64 where
  "DIGEST_SEED = 0xcbf29ce484222325"

fun side_discriminant :: "side \<Rightarrow> u8" where
  "side_discriminant Buy = 1"
| "side_discriminant Sell = 2"

definition digest_order :: "resting_order \<Rightarrow> u64 \<Rightarrow> u64" where
  "digest_order order digest =
     mix (mix (mix (mix digest (rest_id order)) (ucast (rest_account_id order))) (rest_quantity order)) (rest_sequence order)"

fun digest_levels :: "price_level option list \<Rightarrow> level_entry list \<Rightarrow> u64 \<Rightarrow> u64 option" where
  "digest_levels levels [] digest = Some digest"
| "digest_levels levels ((price, slot) # listed) digest =
     (case get levels slot of
        None \<Rightarrow> None
      | Some None \<Rightarrow> digest_levels levels listed digest
      | Some (Some level) \<Rightarrow>
          Option.bind (for_each_live level) (\<lambda>orders.
            digest_levels levels listed
              (fold digest_order orders (mix digest (from_be_bytes (to_be_bytes (pl_price level)))))))"

definition digest_side :: "order_book \<Rightarrow> u64 \<Rightarrow> side \<Rightarrow> u64 option" where
  "digest_side book digest side =
     digest_levels (side_levels book side) (iter (side_index book side)) (mix digest (ucast (side_discriminant side)))"

definition book_stable_digest :: "order_book \<Rightarrow> u64 option" where
  "book_stable_digest book =
     Option.bind (digest_side book (mix DIGEST_SEED (ucast (ob_instrument book))) Buy) (\<lambda>digest.
       digest_side book digest Sell)"

definition be_high :: "u8 list \<Rightarrow> u64" where
  "be_high bytes = from_be_bytes (take 8 bytes)"

definition be_low :: "u8 list \<Rightarrow> u64" where
  "be_low bytes = from_be_bytes (drop 8 bytes)"

definition digest_exposure :: "u128 \<Rightarrow> u64 \<Rightarrow> u64" where
  "digest_exposure exposure digest =
     (let bytes = to_be_bytes exposure in mix (mix digest (be_high bytes)) (be_low bytes))"

definition digest_account :: "account_state \<Rightarrow> u64 \<Rightarrow> u64" where
  "digest_account account digest =
     (let digest = mix digest (ucast (ac_id account));
          position = to_be_bytes (ac_settled_position account);
          digest = mix digest (be_high position);
          digest = fold digest_exposure [ac_reserved_buys account, ac_reserved_sells account] digest;
          digest = mix digest (be_low position);
          digest = mix digest (ucast (ac_open_orders account))
      in mix digest (if ac_killed account then 1 else 0))"

fun digest_reservation :: "reservation_slot \<Rightarrow> u64 \<Rightarrow> u64" where
  "digest_reservation (RLive reservation) digest = mix (mix digest (rv_order_id reservation)) (rv_quantity reservation)"
| "digest_reservation (RFree next_free) digest = digest"

definition risk_stable_digest :: "risk_engine \<Rightarrow> u64" where
  "risk_stable_digest eng =
     (let digest = mix DIGEST_SEED (if re_killed eng then 1 else 0);
          digest = mix digest (case re_maximum_order_id eng of None \<Rightarrow> 0 | Some order_id \<Rightarrow> order_id);
          digest = fold digest_account (List.map_filter id (re_accounts eng)) digest
      in fold digest_reservation (re_reservations eng) digest)"

definition gateway_stable_digest :: "gateway \<Rightarrow> u64 option" where
  "gateway_stable_digest gw =
     (let session = word_rotl 29 (gw_expected_sequence gw) XOR
            word_rotl 43 (case gw_maximum_received gw of None \<Rightarrow> 0 | Some order_id \<Rightarrow> order_id) in
      map_option (\<lambda>book. word_rotl 17 book XOR risk_stable_digest (gw_risk gw) XOR session)
        (book_stable_digest (gw_book gw)))"

section \<open>Replay\<close>

record replay_summary =
  sm_frames :: u64
  sm_reports :: u64
  sm_digest :: u64

fun replay_frames ::
  "nat \<Rightarrow> nat \<Rightarrow> nat \<Rightarrow> nat \<Rightarrow> u8 list list \<Rightarrow> gateway \<Rightarrow> report_buffer \<Rightarrow> u64 \<Rightarrow> (gateway \<times> (gateway_error + u64)) option"
where
  "replay_frames A N L K [] gw reports report_count = Some (gw, Inr report_count)"
| "replay_frames A N L K (bytes # frames) gw reports report_count =
     (case process_frame A N L K gw bytes reports of
        None \<Rightarrow> None
      | Some (gw, reports, Inl e) \<Rightarrow> Some (gw, Inl e)
      | Some (gw, reports, Inr _) \<Rightarrow>
          replay_frames A N L K frames gw reports (report_count + of_nat (rb_len reports)))"

definition replay ::
  "nat \<Rightarrow> nat \<Rightarrow> nat \<Rightarrow> nat \<Rightarrow> nat \<Rightarrow> gateway \<Rightarrow> u8 list list \<Rightarrow> (gateway \<times> (gateway_error + replay_summary)) option"
where
  "replay A N L K R gw frames =
     Option.bind (replay_frames A N L K frames gw (report_buffer_new R) 0) (\<lambda>(gw, result).
       case result of
         Inl e \<Rightarrow> Some (gw, Inl e)
       | Inr report_count \<Rightarrow>
           map_option (\<lambda>digest. (gw, Inr \<lparr>sm_frames = of_nat (length frames), sm_reports = report_count, sm_digest = digest\<rparr>))
             (gateway_stable_digest gw))"

section \<open>The book digest is a digest of the resting orders\<close>

definition digest_model_order :: "model_order \<Rightarrow> u64 \<Rightarrow> u64" where
  "digest_model_order m digest = mix (mix (mix (mix digest (mo_id m)) (ucast (mo_account m))) (mo_quantity m)) (mo_sequence m)"

definition digest_group :: "order_group \<Rightarrow> u64 \<Rightarrow> u64" where
  "digest_group g digest = fold digest_model_order (snd g) (mix digest (fst g))"

definition spec_digest_side :: "spec_book \<Rightarrow> side \<Rightarrow> u64 \<Rightarrow> u64" where
  "spec_digest_side sb side digest = fold digest_group (groups (sb side)) (mix digest (ucast (side_discriminant side)))"

definition spec_book_digest :: "instrument_id \<Rightarrow> spec_book \<Rightarrow> u64" where
  "spec_book_digest instrument sb = spec_digest_side sb Sell (spec_digest_side sb Buy (mix DIGEST_SEED (ucast instrument)))"

lemma digest_levels_groups:
  assumes "\<forall>e \<in> set es. \<exists>l. lvl levels (snd e) = Some l \<and> pl_price l = fst e \<and> level_inv K l"
  shows "digest_levels levels es digest = Some (fold digest_group (map (entry_group levels) es) digest)"
  using assms
proof (induction es arbitrary: digest)
  case (Cons e es)
  obtain p i where e: "e = (p, i)" by (cases e)
  obtain l where l: "lvl levels i = Some l" "pl_price l = p" "level_inv K l" using Cons.prems e by auto
  obtain orders where o: "for_each_live l = Some orders" "map strip orders = map (\<lambda>s. the (live_data l s)) (walk l)"
    using for_each_live_walk [OF l(3)] by blast
  have "map abs_order (map strip orders) = map abs_order orders" by simp
  then have abs: "map abs_order orders = snd (entry_group levels e)"
    using o(2) l(1) e by (simp add: entry_group_def o_def)
  have fold: "fold digest_order orders d = fold digest_model_order (map abs_order orders) d" for d
    by (induction orders arbitrary: d) (simp_all add: digest_order_def digest_model_order_def)
  have "get levels i = Some (Some l)" using l(1) by (simp add: lvl_Some)
  moreover have "fst (entry_group levels e) = p" by (simp add: entry_group_def e)
  ultimately show ?case
    using Cons.IH Cons.prems o(1) l(2) by (simp add: e digest_group_def fold abs [unfolded e] del: get_Some)
qed simp

lemma digest_side_spec:
  assumes "shape L K book"
  shows "digest_side book digest side = Some (spec_digest_side (abs_book book) side digest)"
proof -
  note o = side_okD [OF shapeD [OF assms, of side]]
  have "\<exists>l. lvl (side_levels book side) (snd e) = Some l \<and> pl_price l = fst e \<and> level_inv K l"
    if "e \<in> set (iter (side_index book side))" for e
    using o(5) [of "fst e" "snd e"] that by auto
  then show ?thesis
    using digest_levels_groups [of "iter (side_index book side)" "side_levels book side" K]
    by (simp add: digest_side_def spec_digest_side_def side_groups [OF assms])
qed

lemma book_digest_spec:
  assumes "shape L K book"
  shows "book_stable_digest book = Some (spec_book_digest (ob_instrument book) (abs_book book))"
  by (simp add: book_stable_digest_def spec_book_digest_def digest_side_spec [OF assms])

text \<open>The two lanes of a 128-bit value are its halves.\<close>

lemma be_bytes_split: "be_bytes (m + n) x = be_bytes m (x div 256 ^ n) @ be_bytes n x"
  by (induction n arbitrary: x) (simp_all add: div_mult2_eq)

lemma be_lanes: "be_high (to_be_bytes (w :: u128)) = ucast (drop_bit 64 w)" "be_low (to_be_bytes (w :: u128)) = ucast w"
proof -
  have sp: "to_be_bytes w = be_bytes 8 (unat w div 2 ^ 64) @ be_bytes 8 (unat w)"
    using be_bytes_split [of 8 8 "unat w"] by (simp add: to_be_bytes_def)
  show "be_high (to_be_bytes w) = ucast (drop_bit 64 w)"
    unfolding be_high_def sp from_be_bytes_def
    by (simp add: word_unat_eq_iff be_value_be_bytes unat_of_nat unsigned_ucast_eq unsigned_drop_bit_eq take_bit_eq_mod drop_bit_eq_div unat_div)
  show "be_low (to_be_bytes w) = ucast w"
    unfolding be_low_def sp from_be_bytes_def
    by (simp add: word_unat_eq_iff be_value_be_bytes unat_of_nat unsigned_ucast_eq take_bit_eq_mod)
qed

section \<open>Replay follows the gateway\<close>

text \<open>Commands that a gateway all accepts, with the number of reports they produce.\<close>

fun accept_all :: "nat \<Rightarrow> nat \<Rightarrow> nat \<Rightarrow> nat \<Rightarrow> nat \<Rightarrow> command list \<Rightarrow> gateway \<Rightarrow> (gateway \<times> nat) option" where
  "accept_all A N L K R [] gw = Some (gw, 0)"
| "accept_all A N L K R (c # cs) gw =
     (case process_command A N L K gw c (report_buffer_new R) of
        Some (gw, reports, Inr _) \<Rightarrow>
          map_option (\<lambda>(gw, n). (gw, length (report_buffer_iter reports) + n)) (accept_all A N L K R cs gw)
      | _ \<Rightarrow> None)"

lemma frame_step:
  assumes inv: "gw_inv A N L K gw" "gw_inv A N L K gw'" and eq: "gw_equiv A N L K gw gw'" and r: "length (rb_entries r') = R"
  obtains g rp out g' rp' where "process_frame A N L K gw frame (report_buffer_new R) = Some (g, rp, out)"
    "process_frame A N L K gw' frame r' = Some (g', rp', out)" "gw_inv A N L K g" "gw_inv A N L K g'" "gw_equiv A N L K g g'"
    "same_reports rp rp'" "length (rb_entries rp') = R"
proof -
  have len: "length (rb_entries (report_buffer_new R)) = R" by (simp add: report_buffer_new_def)
  have st: "\<exists>h rp out. process_frame A N L K h0 frame r0 = Some (h, rp, out) \<and> gw_inv A N L K h \<and> length (rb_entries rp) = R"
    if "gw_inv A N L K h0" "length (rb_entries r0) = R" for h0 r0
    using process_command_ok [OF that(1), of _ r0] that
    by (cases "parse_message frame") (fastforce simp: process_frame_error process_frame_command)+
  obtain g rp out where p: "process_frame A N L K gw frame (report_buffer_new R) = Some (g, rp, out)" "gw_inv A N L K g"
    using st [OF inv(1) len] by blast
  obtain g' rp' where p': "process_frame A N L K gw' frame r' = Some (g', rp', out)" "gw_equiv A N L K g g'" "same_reports rp rp'"
    using process_frame_equiv [OF eq, of r' "report_buffer_new R" frame] r len p(1) by (auto dest: same_step_Some)
  then show thesis using that [OF p(1) p'(1) p(2) _ p'(2,3)] st [OF inv(2) r] by auto
qed

lemma accepted_frame:
  assumes "process_frame A N L K gw frame r = Some (gw', r', Inr out)"
  obtains c where "frame = encode_command c" "process_command A N L K gw c r = Some (gw', r', Inr out)"
proof (cases "parse_message frame")
  case (Inl e)
  then show thesis using assms by (simp add: process_frame_error)
next
  case (Inr m)
  then show thesis using that [of "to_command m"] assms by (simp add: process_frame_command frame_is_encoding)
qed

lemma replay_frames_equiv:
  assumes "gw_inv A N L K gw" "gw_inv A N L K gw'" "gw_equiv A N L K gw gw'" "length (rb_entries r') = R"
  shows "\<exists>cs left g n g' result. frames = map encode_command cs @ left \<and> accept_all A N L K R cs gw = Some (g, n) \<and>
    replay_frames A N L K frames gw' r' k = Some (g', result) \<and> gw_inv A N L K g' \<and>
    (case result of
       Inr cnt \<Rightarrow> left = [] \<and> cnt = k + of_nat n \<and> gw_equiv A N L K g g'
     | Inl e \<Rightarrow> \<exists>frame left' h rp. left = frame # left' \<and>
         process_frame A N L K g frame (report_buffer_new R) = Some (h, rp, Inl e) \<and> gw_equiv A N L K h g')"
  using assms
proof (induction frames arbitrary: gw gw' r' k)
  case Nil
  then show ?case by (intro exI [of _ "[]"]) auto
next
  case (Cons frame frames)
  obtain g rp out g' rp' where st: "process_frame A N L K gw frame (report_buffer_new R) = Some (g, rp, out)"
      "process_frame A N L K gw' frame r' = Some (g', rp', out)" "gw_inv A N L K g" "gw_inv A N L K g'" "gw_equiv A N L K g g'"
      "same_reports rp rp'" "length (rb_entries rp') = R"
    by (rule frame_step [OF Cons.prems])
  show ?case
  proof (cases out)
    case (Inl e)
    then show ?thesis using st
      by (intro exI [of _ "[]"] exI [of _ "frame # frames"] exI [of _ gw] exI [of _ 0] exI [of _ g'] exI [of _ "Inl e"]) auto
  next
    case (Inr oc)
    obtain c where c: "frame = encode_command c" "process_command A N L K gw c (report_buffer_new R) = Some (g, rp, Inr oc)"
      using accepted_frame st(1) Inr by metis
    have len: "rb_len rp' = length (report_buffer_iter rp)"
      using st(6) by (auto simp: same_reports_def report_buffer_iter_def report_buffer_wf_def dest!: arg_cong [where f = length])
    obtain cs left g2 n g2' result where IH: "frames = map encode_command cs @ left" "accept_all A N L K R cs g = Some (g2, n)"
        "replay_frames A N L K frames g' rp' (k + of_nat (rb_len rp')) = Some (g2', result)" "gw_inv A N L K g2'"
        "case result of Inr cnt \<Rightarrow> left = [] \<and> cnt = k + of_nat (rb_len rp') + of_nat n \<and> gw_equiv A N L K g2 g2'
         | Inl e \<Rightarrow> \<exists>frame left' h rp. left = frame # left' \<and>
             process_frame A N L K g2 frame (report_buffer_new R) = Some (h, rp, Inl e) \<and> gw_equiv A N L K h g2'"
      using Cons.IH [OF st(3-5,7), of "k + of_nat (rb_len rp')"] by blast
    show ?thesis
      using IH c st(2) Inr len
      by (intro exI [of _ "c # cs"] exI [of _ left] exI [of _ g2] exI [of _ "rb_len rp' + n"] exI [of _ g2'] exI [of _ result])
        (auto split: sum.splits)
  qed
qed

section \<open>Digests of restored engines\<close>

definition digest_reservation_state :: "reservation_risk_state \<Rightarrow> u64 \<Rightarrow> u64" where
  "digest_reservation_state r digest = mix (mix digest (rs_order_id r)) (rs_quantity r)"

definition slot_lists :: "risk_engine \<Rightarrow> account_risk_state list \<times> reservation_risk_state list" where
  "slot_lists eng = (map account_risk_state_of (List.map_filter id (re_accounts eng)),
     List.map_filter reservation_risk_state_of (re_reservations eng))"

lemma risk_digest_slots:
  "risk_stable_digest eng =
     fold digest_reservation_state (snd (slot_lists eng))
       (fold (digest_account \<circ> account_of) (fst (slot_lists eng))
         (mix (mix DIGEST_SEED (if re_killed eng then 1 else 0)) (case re_maximum_order_id eng of None \<Rightarrow> 0 | Some k \<Rightarrow> k)))"
proof -
  have "fold digest_reservation slots d = fold digest_reservation_state (List.map_filter reservation_risk_state_of slots) d" for slots d
  proof (induction slots arbitrary: d)
    case (Cons slot slots)
    then show ?case by (cases slot) (simp_all add: List.map_filter_simps digest_reservation_state_def)
  qed (simp add: List.map_filter_simps)
  then show ?thesis by (simp add: risk_stable_digest_def slot_lists_def Let_def fold_map o_def)
qed

lemma restored_slots:
  assumes "risk_from_state A N st = Some (Inr eng)" "risk_dims A N"
  shows "slot_lists eng = (es_accounts st, es_reservations st)"
proof -
  have v: "valid_state A N st" using restore_sound(2) [OF assms(2,1)] by blast
  obtain hs where r: "re_accounts eng = map (\<lambda>s. Some (account_of s)) (es_accounts st) @ replicate (A - length (es_accounts st)) None"
      "length hs = length (es_reservations st)"
      "re_reservations eng = map2 (\<lambda>r h. RLive (slot_of r h)) (es_reservations st) hs @
        map (\<lambda>j. RFree (next_slot N (Suc j))) [length (es_reservations st)..<N]"
    using restore_valid [OF v assms(2)] assms(1) by auto
  have "List.map_filter reservation_risk_state_of (map2 (\<lambda>r h. RLive (slot_of r h)) (es_reservations st) hs) = es_reservations st"
    using r(2) by (intro nth_equalityI) (simp_all add: List.map_filter_def comp_def slot_of_def split_def)
  moreover have "List.map_filter id (map (\<lambda>s. Some (account_of s)) xs) = map account_of xs" for xs
    by (induction xs) (simp_all add: List.map_filter_simps)
  ultimately show ?thesis by (simp add: slot_lists_def r(1,3) map_filter_none comp_def)
qed

text \<open>Accounts and reservations stand in ascending order of their identifiers.\<close>

definition slots_ascending :: "risk_engine \<Rightarrow> bool" where
  "slots_ascending eng \<longleftrightarrow> sorted (map as_id (fst (slot_lists eng))) \<and> sorted (map rs_order_id (snd (slot_lists eng)))"

lemma restored_risk_digest:
  assumes "risk_from_state A N (risk_export_state eng) = Some (Inr eng')" "risk_dims A N" "slots_ascending eng"
  shows "risk_stable_digest eng' = risk_stable_digest eng"
proof -
  have "slot_lists eng' = slot_lists eng"
    using assms(3) unfolding restored_slots [OF assms(1,2)]
    by (simp add: risk_export_state_def slots_ascending_def slot_lists_def sort_key_id_if_sorted)
  moreover have "risk_export_state eng' = risk_export_state eng" using restore_sound(2) [OF assms(2,1)] by blast
  then have "re_killed eng' = re_killed eng" "re_maximum_order_id eng' = re_maximum_order_id eng"
    by (simp_all add: risk_export_state_def)
  ultimately show ?thesis by (simp add: risk_digest_slots)
qed

lemma gateway_digest_spec:
  assumes "gw_inv A N L K gw"
  shows "gateway_stable_digest gw = Some (word_rotl 17 (spec_book_digest (ob_instrument (gw_book gw)) (abs_book (gw_book gw))) XOR
    risk_stable_digest (gw_risk gw) XOR (word_rotl 29 (gw_expected_sequence gw) XOR
      word_rotl 43 (case gw_maximum_received gw of None \<Rightarrow> 0 | Some k \<Rightarrow> k)))"
proof -
  have "shape L K (gw_book gw)" using gw_invD(1) [OF assms] by (simp add: book_inv_def)
  then show ?thesis by (simp add: gateway_stable_digest_def book_digest_spec)
qed

lemma from_state_risk:
  assumes "gateway_from_state A N L K st = Some (Inr gw)"
  shows "risk_from_state A N (gs_risk st) = Some (Inr (gw_risk gw))"
  using assms
  by (auto simp: gateway_from_state_def rbind_def map_err_def split: option.splits sum.splits)

lemma register_slot:
  assumes "register_account A eng i limits = Inr eng'"
  shows "\<exists>slot. List.find (\<lambda>slot. re_accounts eng ! slot = None) [0..<length (re_accounts eng)] = Some slot \<and>
    re_accounts eng' = (re_accounts eng)[slot := Some \<lparr>ac_id = i, ac_limits = limits, ac_settled_position = 0, ac_reserved_buys = 0,
                    ac_reserved_sells = 0, ac_open_orders = 0, ac_killed = False\<rparr>] \<and>
    re_reservations eng' = re_reservations eng \<and> re_killed eng' = re_killed eng \<and> re_maximum_order_id eng' = re_maximum_order_id eng"
  using assms by (auto simp: register_account_def set_account_def split: if_splits option.splits sum.splits probe_error.splits)

lemma xor_cancel: "(a XOR x XOR b = a XOR y XOR b) \<longleftrightarrow> x = (y :: u64)"
proof -
  have "a XOR (a XOR z XOR b) XOR b = z" for z :: u64 by (simp add: bit_eq_iff bit_xor_iff) blast
  then show ?thesis by metis
qed

section \<open>Properties\<close>

text \<open>
  C21. Replay is exact. Given any gateway with the logical state of a reachable one, for example one
  recovered from a snapshot, replaying a stream of frames never panics. It accepts the longest run
  of frames that the reachable gateway accepts one by one as commands, whatever the buffers hold. If
  this is the whole stream, the summary counts the frames and their execution reports (modulo 2 to
  the 64) and its digest is that of the final state; otherwise the first refusal is returned.
\<close>

theorem replay_exact:
  assumes "gateway_reachable A N L K ins gw" "gateway_dims A N L K" "gw_inv A N L K gw'" "gw_equiv A N L K gw gw'"
  shows "\<exists>cs left live n final result. frames = map encode_command cs @ left \<and> accept_all A N L K R cs gw = Some (live, n) \<and>
    replay A N L K R gw' frames = Some (final, result) \<and> gw_inv A N L K final \<and>
    (case result of
       Inr summary \<Rightarrow> left = [] \<and> gw_equiv A N L K live final \<and> sm_frames summary = of_nat (length frames) \<and>
         sm_reports summary = of_nat n \<and> gateway_stable_digest final = Some (sm_digest summary)
     | Inl e \<Rightarrow> \<exists>frame left' h rp. left = frame # left' \<and>
         process_frame A N L K live frame (report_buffer_new R) = Some (h, rp, Inl e) \<and> gw_equiv A N L K h final)"
proof -
  have inv: "gw_inv A N L K gw" using reachable_gateway_inv [OF assms(1,2)] by blast
  have len: "length (rb_entries (report_buffer_new R)) = R" by (simp add: report_buffer_new_def)
  obtain cs left live n final result where r: "frames = map encode_command cs @ left" "accept_all A N L K R cs gw = Some (live, n)"
      "replay_frames A N L K frames gw' (report_buffer_new R) 0 = Some (final, result)" "gw_inv A N L K final"
      "case result of Inr cnt \<Rightarrow> left = [] \<and> cnt = 0 + of_nat n \<and> gw_equiv A N L K live final
       | Inl e \<Rightarrow> \<exists>frame left' h rp. left = frame # left' \<and>
           process_frame A N L K live frame (report_buffer_new R) = Some (h, rp, Inl e) \<and> gw_equiv A N L K h final"
    using replay_frames_equiv [OF inv assms(3,4) len, of frames 0] by blast
  obtain out where out: "replay A N L K R gw' frames = Some (final, out)"
      "case out of Inr summary \<Rightarrow> left = [] \<and> gw_equiv A N L K live final \<and> sm_frames summary = of_nat (length frames) \<and>
         sm_reports summary = of_nat n \<and> gateway_stable_digest final = Some (sm_digest summary)
       | Inl e \<Rightarrow> \<exists>frame left' h rp. left = frame # left' \<and>
         process_frame A N L K live frame (report_buffer_new R) = Some (h, rp, Inl e) \<and> gw_equiv A N L K h final"
    using r(3,5) gateway_digest_spec [OF r(4)] by (cases result) (auto simp: replay_def)
  show ?thesis
    by (intro exI [of _ cs] exI [of _ left] exI [of _ live] exI [of _ n] exI [of _ final] exI [of _ out] conjI r(1,2,4) out)
qed

theorem replay_exact_witness:
  "\<exists>final summary. replay 1 2 1 1 4 demo_gateway [encode_command (NewOrder demo_reserve)] = Some (final, Inr summary) \<and>
     sm_frames summary = 1 \<and> gateway_stable_digest final = Some (sm_digest summary)"
proof -
  let ?c = "NewOrder demo_reserve" and ?r = "report_buffer_new 4"
  have inv: "gw_inv 1 2 1 1 demo_gateway" using reachable_gateway_inv [OF demo_gateway_reachable demo_gateway_dims] by blast
  have eq: "gw_equiv 1 2 1 1 demo_gateway demo_gateway" by (rule same_gateway_equiv [OF inv inv]) (simp add: same_gateway_def)
  have len: "length (rb_entries ?r) = 4" by (simp add: report_buffer_new_def)
  obtain g rp oc where "process_command 1 2 1 1 demo_gateway ?c ?r = Some (g, rp, Inr oc)"
    using process_command_ok [OF inv, of ?c ?r, unfolded command_effect_def] demo_gateway_accepts len by auto
  then have "process_frame 1 2 1 1 demo_gateway (encode_command ?c) ?r = Some (g, rp, Inr oc)"
    using parse_encoded [of ?c] process_frame_command by metis
  then have no: "process_frame 1 2 1 1 demo_gateway (encode_command ?c) ?r \<noteq> Some (h, rp', Inl e)" for h rp' e by simp
  obtain cs left live n final result where r: "[encode_command ?c] = map encode_command cs @ left" "accept_all 1 2 1 1 4 cs demo_gateway = Some (live, n)"
      "replay 1 2 1 1 4 demo_gateway [encode_command ?c] = Some (final, result)"
      "case result of Inr summary \<Rightarrow> left = [] \<and> gw_equiv 1 2 1 1 live final \<and> sm_frames summary = of_nat (length [encode_command ?c]) \<and>
         sm_reports summary = of_nat n \<and> gateway_stable_digest final = Some (sm_digest summary)
       | Inl e \<Rightarrow> \<exists>frame left' h rp. left = frame # left' \<and>
         process_frame 1 2 1 1 live frame ?r = Some (h, rp, Inl e) \<and> gw_equiv 1 2 1 1 h final"
    using replay_exact [OF demo_gateway_reachable demo_gateway_dims inv eq, of "[encode_command ?c]" 4] by blast
  show ?thesis
  proof (cases result)
    case (Inl e)
    then obtain frame left' h rp' where l: "left = frame # left'" "process_frame 1 2 1 1 live frame ?r = Some (h, rp', Inl e)"
      using r(4) by auto
    then have "cs = []" "frame = encode_command ?c" using r(1) by (cases cs; simp)+
    then show ?thesis using l(2) r(2) no by simp
  next
    case (Inr summary)
    then show ?thesis using r(3,4) by auto
  qed
qed

text \<open>
  The digest of a gateway is never a panic, and restoring a gateway from its exported state keeps
  the digest when accounts and reservations occupy their slots in ascending order of their
  identifiers. The book contributes only its instrument and its resting orders in priority order.
\<close>

theorem digest_survives_restore:
  assumes "gateway_reachable A N L K ins gw" "gateway_dims A N L K" "orders_within A gw" "slots_ascending (gw_risk gw)"
  shows "\<exists>st restored d. gateway_export_state L K gw = Some st \<and> gateway_from_state A N L K st = Some (Inr restored) \<and>
    gateway_stable_digest gw = Some d \<and> gateway_stable_digest restored = Some d"
proof -
  have inv: "gw_inv A N L K gw" using reachable_gateway_inv [OF assms(1,2)] by blast
  have dims: "risk_dims A N" using assms(2) by (simp add: gateway_dims_def)
  obtain st gw' where g: "gateway_export_state L K gw = Some st" "gateway_from_state A N L K st = Some (Inr gw')"
      "gw_inv A N L K gw'" "same_gateway A N gw gw'"
    using restore_gateway [OF inv reachable_in_sequence [OF assms(1,2)] reachable_limited [OF reachable_gateway_risk [OF assms(1,2)] dims] assms(2)]
      assms(3) by auto
  have "gs_risk st = risk_export_state (gw_risk gw)" using g(1) gateway_export_spec [OF inv] by auto
  then have "risk_stable_digest (gw_risk gw') = risk_stable_digest (gw_risk gw)"
    using restored_risk_digest [OF _ dims assms(4)] from_state_risk [OF g(2)] by simp
  then show ?thesis
    using g gateway_digest_spec [OF inv] gateway_digest_spec [OF g(3)] by (simp add: same_gateway_def)
qed

theorem digest_survives_restore_witness:
  "\<exists>st restored d. gateway_export_state 1 1 demo_gateway = Some st \<and> gateway_from_state 1 2 1 1 st = Some (Inr restored) \<and>
    gateway_stable_digest demo_gateway = Some d \<and> gateway_stable_digest restored = Some d"
proof -
  have one: "length xs \<le> 1 \<Longrightarrow> sorted xs" for xs :: "'a::linorder list" by (cases xs rule: list.exhaust) auto
  have inv: "risk_inv 1 2 demo_risk" by (rule reachable_risk_inv [OF demo_risk_reachable demo_risk_dims])
  have acc: "length (fst (slot_lists demo_risk)) \<le> 1"
    using length_map_filter [of id "re_accounts demo_risk"] risk_invD(1) [OF inv] by (simp add: slot_lists_def accounts_ok_def)
  have "\<And>r. r \<notin> set (es_reservations (risk_export_state demo_risk))"
    using reservation_entries(2) [OF risk_invD(2) [OF inv]] demo_risk_state(2) by auto
  then have "es_reservations (risk_export_state demo_risk) = []" by (metis list.set_intros(1) list.exhaust)
  then have "snd (slot_lists demo_risk) = []"
    using set_sort [of rs_order_id "snd (slot_lists demo_risk)"] by (simp add: slot_lists_def risk_export_state_def)
  then have "slots_ascending (gw_risk demo_gateway)"
    using acc by (simp add: slots_ascending_def one demo_gateway_def gateway_new_def)
  then show ?thesis
    by (rule digest_survives_restore [OF demo_gateway_reachable demo_gateway_dims demo_snapshot_parts(1)])
qed

definition fresh_account :: "account_id \<Rightarrow> account_state" where
  "fresh_account i = \<lparr>ac_id = i, ac_limits = demo_limits, ac_settled_position = 0, ac_reserved_buys = 0,
     ac_reserved_sells = 0, ac_open_orders = 0, ac_killed = False\<rparr>"

lemma descending_accounts:
  obtains eng where "risk_reachable 2 1 eng" "re_accounts eng = [Some (fresh_account 2), Some (fresh_account 1)]"
    "re_reservations eng = re_reservations (risk_new 2 1)" "\<not> re_killed eng" "re_maximum_order_id eng = None"
proof -
  have lim: "rl_max_quantity demo_limits \<noteq> 0" "rl_max_open_orders demo_limits \<noteq> 0"
    "sint (rl_minimum_price demo_limits) \<le> sint (rl_maximum_price demo_limits)" by (simp_all add: demo_limits_def)
  have rd: "risk_dims 2 1" by (simp add: risk_dims_def)
  have new: "risk_inv 2 1 (risk_new 2 1)" using risk_new_inv(1) [of 2 1] by simp
  have "acct_at (risk_new 2 1) v = None" for v by (simp add: acct_at_def risk_new_def get_def)
  then have none: "acct_of 2 (risk_new 2 1) i = None" for i
    using acct_of_iff [OF risk_invD(1) [OF new], of i] by (metis not_None_eq option.distinct(1))
  obtain e1 where e1: "register_account 2 (risk_new 2 1) 2 demo_limits = Inr e1"
    using register_account_accepts [OF new lim none] by (auto simp: risk_new_def)
  have r1: "risk_inv 2 1 e1" "acct_of 2 e1 1 = None" "risk_reachable 2 1 e1"
    using register_account_ok [OF new e1] none risk_reachable.Register [OF risk_reachable.Init e1] by simp_all
  have s1: "re_accounts e1 = [Some (fresh_account 2), None]" "re_reservations e1 = re_reservations (risk_new 2 1)" "\<not> re_killed e1" "re_maximum_order_id e1 = None"
    using register_slot [OF e1] by (auto simp: fresh_account_def risk_new_def numeral_2_eq_2 upt_rec)
  obtain e2 where e2: "register_account 2 e1 1 demo_limits = Inr e2"
    using register_account_accepts [OF r1(1) lim r1(2)] s1(1) by auto
  have s2: "re_accounts e2 = [Some (fresh_account 2), Some (fresh_account 1)]" "re_reservations e2 = re_reservations (risk_new 2 1)" "\<not> re_killed e2" "re_maximum_order_id e2 = None"
    using register_slot [OF e2] s1 by (auto simp: fresh_account_def upt_rec)
  show thesis by (rule that [OF risk_reachable.Register [OF r1(3) e2] s2])
qed

text \<open>
  C22. The digest is not a function of the logical state. A gateway whose accounts were registered in
  descending order exports a state that restores to a gateway with the same orders, accounts,
  reservations, watermarks and sequence, but with another digest: restoration puts accounts into
  ascending slots, and the risk digest reads the slots in order.
\<close>

theorem digest_depends_on_slots:
  "\<exists>gw st restored. gateway_reachable 2 1 1 1 7 gw \<and> orders_within 2 gw \<and> gateway_export_state 1 1 gw = Some st \<and>
     gateway_from_state 2 1 1 1 st = Some (Inr restored) \<and> same_gateway 2 1 gw restored \<and>
     gateway_stable_digest restored \<noteq> gateway_stable_digest gw"
proof -
  obtain e2 where e2: "risk_reachable 2 1 e2" and s2: "re_accounts e2 = [Some (fresh_account 2), Some (fresh_account 1)]"
      "re_reservations e2 = re_reservations (risk_new 2 1)" "\<not> re_killed e2" "re_maximum_order_id e2 = None"
    by (rule descending_accounts)
  have rd: "risk_dims 2 1" by (simp add: risk_dims_def)
  have gd: "gateway_dims 2 1 1 1" using rd demo_gateway_dims by (simp add: gateway_dims_def)
  define gw where "gw = gateway_new 1 1 e2 7"
  have reach: "gateway_reachable 2 1 1 1 7 gw"
    unfolding gw_def by (rule gateway_reachable.Init [OF e2 s2(4)])
  have inv: "gw_inv 2 1 1 1 gw" using reachable_gateway_inv [OF reach gd] by blast
  have within: "orders_within 2 gw" 
    using book_new_inv [of 1 1 7] demo_dims by (simp add: orders_within_def gw_def gateway_new_def dims_ok_def)
  obtain st gw' where g: "gateway_export_state 1 1 gw = Some st" "gateway_from_state 2 1 1 1 st = Some (Inr gw')"
      "gw_inv 2 1 1 1 gw'" "same_gateway 2 1 gw gw'"
    using restore_gateway [OF inv reachable_in_sequence [OF reach gd] reachable_limited [OF reachable_gateway_risk [OF reach gd] rd] gd] within by auto
  have gr: "gw_risk gw = e2" by (simp add: gw_def gateway_new_def)
  have l2: "slot_lists e2 = (map account_risk_state_of [fresh_account 2, fresh_account 1], [])"
    by (simp add: slot_lists_def s2 risk_new_def List.map_filter_simps)
  then have "es_accounts (risk_export_state e2) = map account_risk_state_of [fresh_account 1, fresh_account 2]" "es_reservations (risk_export_state e2) = []"
    by (simp_all add: slot_lists_def risk_export_state_def account_risk_state_of_def fresh_account_def word_le_nat_alt)
  moreover have "gs_risk st = risk_export_state e2" using g(1) gateway_export_spec [OF inv] gr by auto
  ultimately have l': "slot_lists (gw_risk gw') = (map account_risk_state_of [fresh_account 1, fresh_account 2], [])"
    using restored_slots [OF from_state_risk [OF g(2)] rd] by simp
  have "risk_stable_digest (gw_risk gw') \<noteq> risk_stable_digest e2"
    using g(4) s2(3,4) gr
    by (simp add: risk_digest_slots l2 l' same_gateway_def fresh_account_def digest_account_def digest_exposure_def be_lanes mix_def DIGEST_SEED_def Let_def)
  then have "gateway_stable_digest gw' \<noteq> gateway_stable_digest gw"
    using gateway_digest_spec [OF inv] gateway_digest_spec [OF g(3)] g(4) gr by (simp add: same_gateway_def xor_cancel)
  then show ?thesis using reach within g by blast
qed

end
