(* ===== verification/Model_Book.thy ===== *)
theory Model_Book
  imports Book_State
begin

text \<open>
  The reference book of \<^verbatim>\<open>crates/hft-model\<close>, against which the property tests of the repository compare the
  matching core: per side a vector of price levels in no particular order, each a queue of orders.
  Here it is translated and proved to represent the same specification as the production book, so
  that the comparison the tests make on generated traffic holds for every sequence of commands,
  except for the order in which \<open>replace\<close> checks a command.
\<close>

section \<open>The reference book\<close>

type_synonym model_levels = "(price_ticks \<times> model_order list) list"

record model_fill =
  mf_maker_order_id :: order_id
  mf_price :: price_ticks
  mf_quantity :: quantity

record model_book =
  mb_bids :: model_levels
  mb_asks :: model_levels

fun mb_levels :: "model_book \<Rightarrow> side \<Rightarrow> model_levels" where
  "mb_levels m Buy = mb_bids m"
| "mb_levels m Sell = mb_asks m"

fun set_mb_levels :: "model_book \<Rightarrow> side \<Rightarrow> model_levels \<Rightarrow> model_book" where
  "set_mb_levels m Buy levels = m\<lparr>mb_bids := levels\<rparr>"
| "set_mb_levels m Sell levels = m\<lparr>mb_asks := levels\<rparr>"

text \<open>\<open>Iterator::position\<close>, \<open>Vec::remove\<close> at a position found before, and the search for a level.\<close>

fun iter_position :: "('a \<Rightarrow> bool) \<Rightarrow> 'a list \<Rightarrow> nat option" where
  "iter_position P [] = None"
| "iter_position P (x # xs) = (if P x then Some 0 else map_option Suc (iter_position P xs))"

definition vec_remove :: "nat \<Rightarrow> 'a list \<Rightarrow> 'a list" where
  "vec_remove i xs = take i xs @ drop (Suc i) xs"

definition find_level :: "price_ticks \<Rightarrow> model_levels \<Rightarrow> (price_ticks \<times> model_order list) option" where
  "find_level price levels = List.find (\<lambda>level. fst level = price) levels"

definition crossing_prices :: "side \<Rightarrow> price_ticks \<Rightarrow> model_levels \<Rightarrow> price_ticks list" where
  "crossing_prices side limit maker_levels =
     (let crossing = sort_key sint (filter
            (\<lambda>price. case side of Buy \<Rightarrow> sint price \<le> sint limit | Sell \<Rightarrow> sint price \<ge> sint limit)
            (map fst maker_levels))
      in if side = Sell then rev crossing else crossing)"

text \<open>The simulation of the fills; the flag is the \<open>break 'simulate\<close>.\<close>

fun simulate_queue :: "model_order list \<Rightarrow> u64 \<Rightarrow> nat \<Rightarrow> u64 \<times> nat \<times> bool" where
  "simulate_queue [] remaining report_count = (remaining, report_count, False)"
| "simulate_queue (maker # queue) remaining report_count =
     (if remaining = 0 then (remaining, report_count, True)
      else simulate_queue queue (remaining - min remaining (mo_quantity maker)) (report_count + 1))"

fun simulate :: "model_levels \<Rightarrow> price_ticks list \<Rightarrow> u64 \<Rightarrow> nat \<Rightarrow> (u64 \<times> nat) option" where
  "simulate levels [] remaining report_count = Some (remaining, report_count)"
| "simulate levels (price # crossing) remaining report_count =
     (case find_level price levels of
        None \<Rightarrow> None
      | Some (_, queue) \<Rightarrow>
          (case simulate_queue queue remaining report_count of
             (remaining, report_count, stop) \<Rightarrow>
               if stop then Some (remaining, report_count) else simulate levels crossing remaining report_count))"

definition model_plan :: "model_book \<Rightarrow> new_order \<Rightarrow> nat \<Rightarrow> nat \<Rightarrow> nat \<Rightarrow> (reject_reason + price_ticks list) option" where
  "model_plan m order report_capacity level_cap order_cap =
     (let price = no_price order; maker_levels = mb_levels m (opposite (no_side order)); own_levels = mb_levels m (no_side order) in
      if sint price \<le> 0 then Some (Inl InvalidPrice)
      else if no_quantity order = 0 then Some (Inl InvalidQuantity)
      else if list_ex (\<lambda>resting. mo_id resting = no_order_id order) (concat (map snd (mb_bids m @ mb_asks m)))
      then Some (Inl DuplicateOrderId)
      else
        let crossing = crossing_prices (no_side order) price maker_levels in
        if no_time_in_force order = PostOnly \<and> crossing \<noteq> [] then Some (Inl PostOnlyWouldTrade)
        else
          (case simulate maker_levels crossing (no_quantity order) 0 of
             None \<Rightarrow> None
           | Some (remaining, report_count) \<Rightarrow>
               if report_count > report_capacity then Some (Inl ReportCapacity)
               else
                 (case no_time_in_force order of
                    Fok \<Rightarrow> if remaining > 0 then Some (Inl InsufficientLiquidity) else Some (Inr crossing)
                  | Ioc \<Rightarrow> Some (Inr crossing)
                  | _ \<Rightarrow>
                      if remaining > 0 then
                        (case find_level price own_levels of
                           Some (_, queue) \<Rightarrow>
                             if length queue = order_cap then Some (Inl PriceLevelOrderCapacity) else Some (Inr crossing)
                         | None \<Rightarrow>
                             if length own_levels = level_cap then Some (Inl PriceLevelCapacity) else Some (Inr crossing))
                      else Some (Inr crossing))))"

function fill_queue :: "price_ticks \<Rightarrow> model_order list \<Rightarrow> u64 \<Rightarrow> model_fill list \<Rightarrow> model_order list \<times> u64 \<times> model_fill list" where
  "fill_queue price [] remaining fills = ([], remaining, fills)"
| "fill_queue price (front # queue) remaining fills =
     (if remaining = 0 then (front # queue, remaining, fills)
      else
        let traded = min remaining (mo_quantity front);
            fills = fills @ [\<lparr>mf_maker_order_id = mo_id front, mf_price = price, mf_quantity = traded\<rparr>];
            remaining = remaining - traded;
            front = front\<lparr>mo_quantity := mo_quantity front - traded\<rparr>
        in if mo_quantity front = 0 then fill_queue price queue remaining fills
           else fill_queue price (front # queue) remaining fills)"
  by pat_completeness auto

termination fill_queue
  by (relation "measures [\<lambda>(_, queue, _, _). length queue, \<lambda>(_, _, remaining, _). unat remaining]")
    (auto simp: min_def unat_gt_0 split: if_splits)

definition set_queue :: "model_levels \<Rightarrow> nat \<Rightarrow> model_order list \<Rightarrow> model_levels" where
  "set_queue levels i queue = (if queue = [] then vec_remove i levels else levels[i := (fst (levels ! i), queue)])"

fun fill_levels :: "model_levels \<Rightarrow> price_ticks list \<Rightarrow> u64 \<Rightarrow> model_fill list \<Rightarrow> (model_levels \<times> u64 \<times> model_fill list) option" where
  "fill_levels levels [] remaining fills = Some (levels, remaining, fills)"
| "fill_levels levels (price # crossing) remaining fills =
     (if remaining = 0 then Some (levels, remaining, fills)
      else case iter_position (\<lambda>level. fst level = price) levels of
          None \<Rightarrow> None
        | Some i \<Rightarrow>
            (case fill_queue price (snd (levels ! i)) remaining fills of
               (queue, remaining, fills) \<Rightarrow> fill_levels (set_queue levels i queue) crossing remaining fills))"

fun push_level :: "model_levels \<Rightarrow> price_ticks \<Rightarrow> model_order \<Rightarrow> model_levels" where
  "push_level [] price resting = [(price, [resting])]"
| "push_level ((p, queue) # levels) price resting =
     (if p = price then (p, queue @ [resting]) # levels else (p, queue) # push_level levels price resting)"

definition model_submit ::
  "model_book \<Rightarrow> new_order \<Rightarrow> nat \<Rightarrow> nat \<Rightarrow> nat
     \<Rightarrow> (reject_reason + model_book \<times> order_state \<times> quantity \<times> quantity \<times> quantity \<times> model_fill list) option"
where
  "model_submit m order report_capacity level_cap order_cap =
     rbind (model_plan m order report_capacity level_cap order_cap) (\<lambda>crossing.
     Option.bind (fill_levels (mb_levels m (opposite (no_side order))) crossing (no_quantity order) []) (\<lambda>(levels, remaining, fills).
       let m = set_mb_levels m (opposite (no_side order)) levels;
           rests = (remaining > 0 \<and> (no_time_in_force order = Gtc \<or> no_time_in_force order = PostOnly));
           m = (if rests then set_mb_levels m (no_side order) (push_level (mb_levels m (no_side order)) (no_price order)
                  \<lparr>mo_id = no_order_id order, mo_account = no_account_id order, mo_quantity = remaining, mo_sequence = no_sequence order\<rparr>)
                else m);
           discards = (\<not> rests \<and> no_time_in_force order = Ioc);
           discarded = (if discards then remaining else 0);
           remaining = (if discards then 0 else remaining);
           filled = no_quantity order - remaining - discarded;
           state = (if filled = no_quantity order then Filled else if filled = 0 then Accepted else PartiallyFilled)
       in Some (Inr (m, state, filled, remaining, discarded, fills))))"

text \<open>Replacement.\<close>

definition find_in :: "model_levels \<Rightarrow> order_id \<Rightarrow> nat option" where
  "find_in levels k = iter_position (\<lambda>level. list_ex (\<lambda>order. mo_id order = k) (snd level)) levels"

definition model_located :: "model_book \<Rightarrow> order_id \<Rightarrow> (side \<times> nat) option" where
  "model_located m k =
     (case find_in (mb_bids m) k of
        Some i \<Rightarrow> Some (Buy, i)
      | None \<Rightarrow> map_option (Pair Sell) (find_in (mb_asks m) k))"

text \<open>\<open>min_by\<close> over the opposing levels: the first of the best prices.\<close>

definition opposing_best :: "side \<Rightarrow> model_levels \<Rightarrow> price_ticks option" where
  "opposing_best side opposing =
     (case map fst opposing of
        [] \<Rightarrow> None
      | p # ps \<Rightarrow> Some (fold (\<lambda>q best. if (if side = Buy then sint q < sint best else sint best < sint q) then q else best) ps p))"

definition reprice_crosses :: "side \<Rightarrow> price_ticks \<Rightarrow> model_levels \<Rightarrow> bool" where
  "reprice_crosses side price opposing =
     (case opposing_best side opposing of
        None \<Rightarrow> False
      | Some best \<Rightarrow> if side = Buy then sint price \<ge> sint best else sint price \<le> sint best)"

definition destination_check ::
  "model_levels \<Rightarrow> nat \<Rightarrow> price_ticks \<Rightarrow> price_ticks \<Rightarrow> nat \<Rightarrow> nat \<Rightarrow> (reject_reason + unit) option"
where
  "destination_check levels i level_price price level_cap order_cap =
     (if list_ex (\<lambda>level. fst level = price) levels then
        (case iter_position (\<lambda>level. fst level = price) levels of
           None \<Rightarrow> None
         | Some dest \<Rightarrow>
             let same_level = (dest = i \<and> price = level_price) in
             if length (snd (levels ! dest)) = order_cap \<and> \<not> same_level then Some (Inl PriceLevelOrderCapacity) else Some (Inr ()))
      else
        let source_empties = (length (snd (levels ! i)) = 1) in
        if length levels = level_cap \<and> \<not> source_empties then Some (Inl PriceLevelCapacity) else Some (Inr ()))"

definition model_replace ::
  "model_book \<Rightarrow> replace_order \<Rightarrow> nat \<Rightarrow> nat \<Rightarrow> (reject_reason + model_book \<times> quantity \<times> bool) option"
where
  "model_replace m cmd level_cap order_cap =
     (let price = ro_price cmd; k = ro_order_id cmd in
      if sint price \<le> 0 then Some (Inl InvalidPrice)
      else if ro_quantity cmd = 0 then Some (Inl InvalidQuantity)
      else case model_located m k of
          None \<Rightarrow> Some (Inl UnknownOrder)
        | Some (side, i) \<Rightarrow>
            let levels = mb_levels m side; level_price = fst (levels ! i); queue = snd (levels ! i) in
            (case iter_position (\<lambda>order. mo_id order = k) queue of
               None \<Rightarrow> None
             | Some j \<Rightarrow>
                 let old = queue ! j;
                     priority_kept = (price = level_price \<and> ro_quantity cmd < mo_quantity old) in
                 if mo_account old \<noteq> ro_account_id cmd then Some (Inl NotOrderOwner)
                 else if \<not> priority_kept \<and> price \<noteq> level_price \<and> reprice_crosses side price (mb_levels m (opposite side))
                 then Some (Inl ReplaceWouldCross)
                 else rbind (if priority_kept then Some (Inr ())
                             else destination_check levels i level_price price level_cap order_cap) (\<lambda>_.
                   let levels =
                     (if priority_kept then levels[i := (level_price, queue[j := old\<lparr>mo_quantity := ro_quantity cmd\<rparr>])]
                      else push_level (set_queue levels i (vec_remove j queue)) price
                             \<lparr>mo_id = k, mo_account = ro_account_id cmd, mo_quantity = ro_quantity cmd, mo_sequence = ro_sequence cmd\<rparr>)
                   in Some (Inr (set_mb_levels m side levels, mo_quantity old, \<not> priority_kept)))))"

text \<open>Cancellation.\<close>

fun cancel_from ::
  "model_levels \<Rightarrow> cancel_order \<Rightarrow> (reject_reason + model_levels \<times> order_id \<times> account_id \<times> quantity) option"
where
  "cancel_from [] cmd = None"
| "cancel_from ((price, queue) # levels) cmd =
     (case iter_position (\<lambda>order. mo_id order = co_order_id cmd) queue of
        None \<Rightarrow> map_option (map_sum id (map_prod (Cons (price, queue)) id)) (cancel_from levels cmd)
      | Some index \<Rightarrow>
          let order = queue ! index in
          if mo_account order \<noteq> co_account_id cmd then Some (Inl NotOrderOwner)
          else
            let queue = vec_remove index queue in
            Some (Inr (if queue = [] then levels else (price, queue) # levels, mo_id order, mo_account order, mo_quantity order)))"

definition model_cancel ::
  "model_book \<Rightarrow> cancel_order \<Rightarrow> reject_reason + model_book \<times> order_id \<times> account_id \<times> quantity"
where
  "model_cancel m cmd =
     (case cancel_from (mb_bids m) cmd of
        Some (Inl e) \<Rightarrow> Inl e
      | Some (Inr (levels, r)) \<Rightarrow> Inr (m\<lparr>mb_bids := levels\<rparr>, r)
      | None \<Rightarrow>
          (case cancel_from (mb_asks m) cmd of
             Some (Inl e) \<Rightarrow> Inl e
           | Some (Inr (levels, r)) \<Rightarrow> Inr (m\<lparr>mb_asks := levels\<rparr>, r)
           | None \<Rightarrow> Inl UnknownOrder))"

end
