(* ===== verification/Model_Refine.thy ===== *)
theory Model_Refine
  imports Model_Book Book_Reach
begin

text \<open>
  The reference book of \<open>Model_Book\<close> represents the specification of \<open>Book_Spec\<close>: for every price, the
  queue of the model is the sub-list of the rows at that price. The production book represents the
  same specification, so the two books agree on every command.
\<close>

section \<open>Representation\<close>

definition queue_at :: "model_levels \<Rightarrow> price_ticks \<Rightarrow> model_order list" where
  "queue_at levels p = (case map_of levels p of None \<Rightarrow> [] | Some q \<Rightarrow> q)"

definition model_rep :: "model_levels \<Rightarrow> prow list \<Rightarrow> bool" where
  "model_rep levels rs \<longleftrightarrow> distinct (map fst levels) \<and> (\<forall>level \<in> set levels. snd level \<noteq> []) \<and>
     (\<forall>p. queue_at levels p = map snd (filter (\<lambda>r. fst r = p) rs))"

lemma model_repD:
  assumes "model_rep levels rs"
  shows "distinct (map fst levels)" "(p, q) \<in> set levels \<Longrightarrow> q \<noteq> []" "queue_at levels p = map snd (filter (\<lambda>r. fst r = p) rs)"
  using assms by (auto simp: model_rep_def)

lemma find_map_of: "find_level p levels = map_option (Pair p) (map_of levels p)"
  by (induction levels) (auto simp: find_level_def)

lemma iter_position_Some:
  "iter_position P xs = Some i \<longleftrightarrow> i < length xs \<and> P (xs ! i) \<and> (\<forall>j < i. \<not> P (xs ! j))"
  by (induction xs arbitrary: i) (auto simp: less_Suc_eq_0_disj nth_Cons split: nat.splits)

lemma iter_position_None: "iter_position P xs = None \<longleftrightarrow> (\<forall>x \<in> set xs. \<not> P x)"
  by (induction xs) auto

lemma rep_map_of:
  assumes "model_rep levels rs"
  shows "map_of levels p = (if queue_at levels p = [] then None else Some (queue_at levels p))"
  using model_repD(2) [OF assms] by (auto simp: queue_at_def split: option.splits dest: map_of_SomeD)

lemma rep_member:
  assumes "model_rep levels rs"
  shows "(p, q) \<in> set levels \<longleftrightarrow> q \<noteq> [] \<and> q = queue_at levels p"
  unfolding map_of_eq_Some_iff [OF model_repD(1) [OF assms], symmetric] rep_map_of [OF assms] by auto

lemma rep_orders:
  assumes "model_rep levels rs"
  shows "set (concat (map snd levels)) = snd ` set rs"
proof -
  have "m \<in> set (concat (map snd levels)) \<longleftrightarrow> (\<exists>p q. (p, q) \<in> set levels \<and> m \<in> set q)" for m
    by simp (metis prod.collapse snd_conv)
  then have "m \<in> set (concat (map snd levels)) \<longleftrightarrow> (\<exists>p. m \<in> set (queue_at levels p))" for m
    unfolding rep_member [OF assms] by (metis empty_iff list.set(1))
  moreover have "(\<exists>p. m \<in> set (queue_at levels p)) \<longleftrightarrow> m \<in> snd ` set rs" for m
    unfolding model_repD(3) [OF assms] by force
  ultimately show ?thesis by blast
qed

lemma rep_prices:
  assumes "model_rep levels rs"
  shows "fst ` set levels = fst ` set rs"
proof -
  have "p \<in> fst ` set levels \<longleftrightarrow> queue_at levels p \<noteq> []" for p using rep_member [OF assms] by force
  then show ?thesis using model_repD(3) [OF assms] by (force simp: filter_empty_conv)
qed

lemma rep_counts:
  assumes "model_rep levels rs"
  shows "length levels = level_count rs" "length (queue_at levels p) = count_price p rs"
  using distinct_card [OF model_repD(1) [OF assms]] rep_prices [OF assms] model_repD(3) [OF assms]
  by (simp_all add: level_count_card count_price_def)

lemma rep_find:
  assumes "model_rep levels rs"
  shows "find_level p levels = (if count_price p rs = 0 then None else Some (p, queue_at levels p))"
  using rep_counts(2) [OF assms, of p, symmetric] by (simp add: find_map_of rep_map_of [OF assms])

text \<open>Writing one queue.\<close>

lemma map_of_middle:
  assumes "p \<notin> fst ` set as" "p \<notin> fst ` set bs"
  shows "map_of (as @ bs) = (map_of (as @ (p, x) # bs))(p := None)" "map_of (as @ (p, y) # bs) = (map_of (as @ (p, x) # bs))(p := Some y)"
  using assms by (induction as) (auto simp: fun_eq_iff map_of_eq_None_iff)

lemma set_queue_parts:
  assumes "distinct (map fst levels)" "i < length levels"
  shows "map_of (set_queue levels i q) = (map_of levels)(fst (levels ! i) := if q = [] then None else Some q)"
    "distinct (map fst (set_queue levels i q))" "set (set_queue levels i q) \<subseteq> set levels \<union> (if q = [] then {} else {(fst (levels ! i), q)})"
proof -
  define as bs where "as = take i levels" and "bs = drop (Suc i) levels"
  obtain p x where px: "levels ! i = (p, x)" by (cases "levels ! i")
  have sp: "levels = as @ (p, x) # bs" "length as = i"
    using id_take_nth_drop [OF assms(2)] assms(2) px by (auto simp: as_def bs_def)
  have d: "distinct (map fst (as @ (p, x) # bs))" using assms(1) sp(1) by simp
  have q: "set_queue levels i q = (if q = [] then as @ bs else as @ (p, q) # bs)"
    using sp px by (simp add: set_queue_def vec_remove_def as_def bs_def upd_conv_take_nth_drop assms(2))
  show "map_of (set_queue levels i q) = (map_of levels)(fst (levels ! i) := if q = [] then None else Some q)"
    unfolding q px using d map_of_middle [of p as bs] by (subst sp(1)) auto
  show "distinct (map fst (set_queue levels i q))" unfolding q using d by auto
  show "set (set_queue levels i q) \<subseteq> set levels \<union> (if q = [] then {} else {(fst (levels ! i), q)})"
    unfolding q px by (subst sp(1)) auto
qed

lemma rep_set_queue:
  assumes rep: "model_rep levels rs" and i: "i < length levels" "fst (levels ! i) = p"
    and q: "q = map snd (filter (\<lambda>r. fst r = p) rs')" and other: "\<And>p'. p' \<noteq> p \<Longrightarrow> filter (\<lambda>r. fst r = p') rs' = filter (\<lambda>r. fst r = p') rs"
  shows "model_rep (set_queue levels i q) rs'"
proof -
  note D = model_repD [OF rep]
  note Q = set_queue_parts [OF D(1) i(1), of q, unfolded i(2)]
  have "snd level \<noteq> []" if "level \<in> set (set_queue levels i q)" for level
    using subsetD [OF Q(3) that] D(2) [of "fst level" "snd level"] by (auto split: if_splits)
  moreover have "queue_at (set_queue levels i q) p' = (if p' = p then q else queue_at levels p')" for p'
    by (simp add: queue_at_def Q(1))
  then have "queue_at (set_queue levels i q) p' = map snd (filter (\<lambda>r. fst r = p') rs')" for p'
    using other [of p'] D(3) [of p'] q by simp
  ultimately show ?thesis using Q(2) by (simp add: model_rep_def)
qed

lemma rep_position:
  assumes "model_rep levels rs" "count_price p rs \<noteq> 0"
  obtains i where "iter_position (\<lambda>level. fst level = p) levels = Some i" "i < length levels" "fst (levels ! i) = p"
    "snd (levels ! i) = queue_at levels p"
proof -
  have "(p, queue_at levels p) \<in> set levels"
    using rep_member [OF assms(1)] rep_counts(2) [OF assms(1), of p] assms(2) by auto
  then have "iter_position (\<lambda>level. fst level = p) levels \<noteq> None" unfolding iter_position_None by (metis fst_conv)
  then obtain i where i: "iter_position (\<lambda>level. fst level = p) levels = Some i" by blast
  then have "i < length levels" "fst (levels ! i) = p" by (auto simp: iter_position_Some)
  moreover from this have "(p, snd (levels ! i)) \<in> set levels" by (metis nth_mem prod.collapse)
  ultimately show thesis using that i rep_member [OF assms(1)] by blast
qed

lemma queue_at_push:
  "queue_at (push_level levels p o') p' = (if p' = p then queue_at levels p @ [o'] else queue_at levels p')"
  by (induction levels p o' rule: push_level.induct) (auto simp: queue_at_def)

lemma push_level_prices: "fst ` set (push_level levels p o') = insert p (fst ` set levels)"
  by (induction levels p o' rule: push_level.induct) auto

lemma insert_row_filter:
  assumes "side_sorted d rs"
  shows "filter (\<lambda>r. fst r = p') (insert_row d (p, o') rs) = filter (\<lambda>r. fst r = p') rs @ (if p' = p then [(p, o')] else [])"
proof -
  let ?P = "\<lambda>q. \<not> better d p (fst q)"
  have sp: "rs = takeWhile ?P rs @ dropWhile ?P rs" by simp
  have "better d p (fst b)" if b: "b \<in> set (dropWhile ?P rs)" for b
  proof (cases "dropWhile ?P rs")
    case (Cons h t)
    have h: "better d p (fst h)" using hd_dropWhile [of ?P rs] Cons by simp
    have "side_sorted d (dropWhile ?P rs)" using assms sp by (metis side_sorted_append)
    then have "b = h \<or> \<not> better d (fst b) (fst h)" using b unfolding Cons by (auto simp: side_sorted_def)
    then show ?thesis using h better_total [of d "fst b" "fst h"] better_trans [of d p "fst h" "fst b"] by auto
  next
    case Nil
    show ?thesis using b unfolding Nil by simp
  qed
  then have none: "filter (\<lambda>r. fst r = p) (dropWhile ?P rs) = []" unfolding filter_empty_conv by (metis better_irrefl)
  have "filter (\<lambda>r. fst r = p') rs = filter (\<lambda>r. fst r = p') (takeWhile ?P rs) @ filter (\<lambda>r. fst r = p') (dropWhile ?P rs)"
    using sp by (metis filter_append)
  then show ?thesis using none by (auto simp: insert_row_def)
qed

lemma rep_push:
  assumes "model_rep levels rs" "side_sorted d rs"
  shows "model_rep (push_level levels p o') (insert_row d (p, o') rs)"
proof -
  note D = model_repD [OF assms(1)]
  have "distinct (map fst (push_level levels p o'))"
    using D(1) by (induction levels p o' rule: push_level.induct) (auto simp: push_level_prices)
  moreover have "\<forall>level \<in> set (push_level levels p o'). snd level \<noteq> []"
    using model_rep_def [THEN iffD1, OF assms(1), THEN conjunct2, THEN conjunct1]
    by (induction levels p o' rule: push_level.induct) auto
  ultimately show ?thesis
    using D(3) by (auto simp: model_rep_def queue_at_push insert_row_filter [OF assms(2)])
qed

section \<open>Matching\<close>

definition fill_of :: "model_fill \<Rightarrow> spec_fill" where
  "fill_of f = (mf_maker_order_id f, mf_price f, mf_quantity f)"

lemma spec_match_zero [simp]: "spec_match t lim rs 0 = ([], 0, rs)"
  by (cases rs) auto

lemma fill_queue_step:
  "fill_queue p (m # ms) r fs =
     (if r = 0 then (m # ms, 0, fs)
      else if mo_quantity m \<le> r
      then fill_queue p ms (r - mo_quantity m) (fs @ [\<lparr>mf_maker_order_id = mo_id m, mf_price = p, mf_quantity = mo_quantity m\<rparr>])
      else (m\<lparr>mo_quantity := mo_quantity m - r\<rparr> # ms, 0, fs @ [\<lparr>mf_maker_order_id = mo_id m, mf_price = p, mf_quantity = r\<rparr>]))"
  by (auto simp: Let_def min_def)

lemmas [simp del] = fill_queue.simps(2)

lemma fill_queue_match:
  assumes "fill_queue p ms r fs = (ms', r', fs')" "crosses t p lim"
  shows "\<exists>fs1. fs' = fs @ fs1 \<and> (r' = 0 \<or> ms' = []) \<and>
    (\<forall>rs. spec_match t lim (group_rows (p, ms) @ rs) r =
       (case spec_match t lim rs r' of (fs2, left, rs2) \<Rightarrow> (map fill_of fs1 @ fs2, left, group_rows (p, ms') @ rs2)))"
  using assms(1)
proof (induction ms arbitrary: r fs)
  case Nil
  then show ?case by (auto simp: group_rows_def split: prod.splits)
next
  case (Cons m ms)
  let ?f = "\<lambda>q. \<lparr>mf_maker_order_id = mo_id m, mf_price = p, mf_quantity = q\<rparr>"
  consider "r = 0" | "r \<noteq> 0" "mo_quantity m \<le> r" | "r \<noteq> 0" "\<not> mo_quantity m \<le> r" by blast
  then show ?case
  proof cases
    case 1
    then show ?thesis using Cons.prems by (auto simp: group_rows_def fill_queue_step)
  next
    case 2
    then have "fill_queue p ms (r - mo_quantity m) (fs @ [?f (mo_quantity m)]) = (ms', r', fs')"
      using Cons.prems by (simp add: fill_queue_step)
    from Cons.IH [OF this] obtain fs1 where "fs' = fs @ ?f (mo_quantity m) # fs1" "r' = 0 \<or> ms' = []"
        "\<forall>rs. spec_match t lim (group_rows (p, ms) @ rs) (r - mo_quantity m) =
           (case spec_match t lim rs r' of (fs2, left, rs2) \<Rightarrow> (map fill_of fs1 @ fs2, left, group_rows (p, ms') @ rs2))"
      by auto
    then show ?thesis
      using 2 assms(2) by (intro exI [of _ "?f (mo_quantity m) # fs1"]) (auto simp: group_rows_def fill_of_def Let_def split: prod.splits)
  next
    case 3
    then show ?thesis
      using Cons.prems assms(2) by (intro exI [of _ "[?f r]"]) (auto simp: group_rows_def fill_of_def fill_queue_step)
  qed
qed

lemma fill_queue_append: "fill_queue p ms r (as @ bs) = (case fill_queue p ms r bs of (ms', r', fs) \<Rightarrow> (ms', r', as @ fs))"
  by (induction ms arbitrary: r bs) (auto simp: fill_queue_step)

lemma simulate_queue_fill:
  assumes "fill_queue p ms r fs = (ms', r', fs @ fs1)"
  shows "\<exists>b. simulate_queue ms r n = (r', n + length fs1, b) \<and> (b \<longrightarrow> r' = 0)"
  using assms
proof (induction ms arbitrary: r fs fs1 n)
  case (Cons m ms)
  let ?f = "\<lambda>q. \<lparr>mf_maker_order_id = mo_id m, mf_price = p, mf_quantity = q\<rparr>"
  have zero: "\<exists>b. simulate_queue ms 0 k = (0, k, b)" for k by (cases ms) auto
  consider "r = 0" | "r \<noteq> 0" "mo_quantity m \<le> r" | "r \<noteq> 0" "\<not> mo_quantity m \<le> r" by blast
  then show ?case
  proof cases
    case 2
    obtain fs2 where f: "fs1 = ?f (mo_quantity m) # fs2" "fill_queue p ms (r - mo_quantity m) (fs @ [?f (mo_quantity m)]) = (ms', r', (fs @ [?f (mo_quantity m)]) @ fs2)"
      using Cons.prems 2 fill_queue_append [of p ms "r - mo_quantity m" "fs @ [?f (mo_quantity m)]" "[]"]
      by (auto simp: fill_queue_step split: prod.splits)
    show ?thesis using Cons.IH [OF f(2), of "n + 1"] 2 f(1) by (auto simp: min_def)
  qed (use Cons.prems zero in \<open>auto simp: fill_queue_step min_def\<close>)
qed auto

lemma simulate_zero: "\<forall>p \<in> set ps. find_level p levels \<noteq> None \<Longrightarrow> simulate levels ps 0 n = Some (0, n)"
proof (induction ps)
  case (Cons p ps)
  then obtain q ms where "find_level p levels = Some (q, ms)" by auto
  then show ?case using Cons by (cases ms) auto
qed simp

text \<open>The crossing groups \<open>cg\<close> of a side, followed by the rows that do not cross.\<close>

definition crossing_part :: "side \<Rightarrow> price_ticks \<Rightarrow> order_group list \<Rightarrow> prow list \<Rightarrow> bool" where
  "crossing_part t lim cg nr \<longleftrightarrow> distinct (map fst cg) \<and> (\<forall>g \<in> set cg. crosses t (fst g) lim \<and> snd g \<noteq> [] \<and> fst g \<notin> fst ` set nr) \<and>
     (\<forall>x \<in> set nr. \<not> crosses t (fst x) lim)"

lemma crossing_part_Cons:
  assumes "crossing_part t lim (g # cg) nr"
  shows "crossing_part t lim cg nr" "crosses t (fst g) lim" "snd g \<noteq> []"
    "filter (\<lambda>r. fst r = fst g) (concat (map group_rows cg) @ nr) = []"
  using assms by (auto simp: crossing_part_def group_rows_def filter_empty_conv image_iff)

lemma spec_match_stops:
  assumes "\<forall>x \<in> set nr. \<not> crosses t (fst x) lim"
  shows "spec_match t lim nr r = ([], r, nr)"
  using assms by (cases nr) auto

lemma simulate_match:
  assumes "crossing_part t lim cg nr" "\<forall>g \<in> set cg. find_level (fst g) levels = Some g"
    "spec_match t lim (concat (map group_rows cg) @ nr) r = (fills, r', rs')"
  shows "simulate levels (map fst cg) r n = Some (r', n + length fills)"
  using assms
proof (induction cg arbitrary: r n fills rs')
  case Nil
  then show ?case using spec_match_stops [of nr t lim r] by (auto simp: crossing_part_def)
next
  case (Cons g cg)
  note C = crossing_part_Cons [OF Cons.prems(1)]
  obtain ms' r1 fs1' where f: "fill_queue (fst g) (snd g) r [] = (ms', r1, fs1')" by (metis prod_cases3)
  obtain fs1 where m: "fs1' = [] @ fs1" "r1 = 0 \<or> ms' = []"
      "\<forall>rs. spec_match t lim (group_rows (fst g, snd g) @ rs) r =
         (case spec_match t lim rs r1 of (fs2, left, rs2) \<Rightarrow> (map fill_of fs1 @ fs2, left, group_rows (fst g, ms') @ rs2))"
    using fill_queue_match [OF f C(2)] by blast
  obtain fs2 rs2 where sm: "spec_match t lim (concat (map group_rows cg) @ nr) r1 = (fs2, r', rs2)" "fills = map fill_of fs1 @ fs2"
    using Cons.prems(3) m(3) [rule_format, of "concat (map group_rows cg) @ nr"] by (auto split: prod.splits)
  obtain b where b: "simulate_queue (snd g) r n = (r1, n + length fs1, b)" "b \<longrightarrow> r1 = 0"
    using simulate_queue_fill [of "fst g" "snd g" r "[]" ms' r1 fs1 n] f m(1) by auto
  have lev: "find_level (fst g) levels = Some (fst g, snd g)" using Cons.prems(2) by simp
  have IH: "simulate levels (map fst cg) r1 (n + length fs1) = Some (r', n + length fs1 + length fs2)"
    using Cons.IH [OF C(1) _ sm(1)] Cons.prems(2) by simp
  show ?case
  proof (cases b)
    case True
    then have "r' = 0" "fs2 = []" using b(2) sm(1) by auto
    then show ?thesis using True b lev sm(2) by (simp add: split_def)
  next
    case False
    then show ?thesis using b lev IH sm(2) by (simp add: add.assoc split_def)
  qed
qed

lemma fill_levels_match:
  assumes "crossing_part t lim cg nr" "model_rep levels (concat (map group_rows cg) @ nr)"
    "spec_match t lim (concat (map group_rows cg) @ nr) r = (fills, r', rs')"
  shows "\<exists>levels' fs1. fill_levels levels (map fst cg) r fs = Some (levels', r', fs @ fs1) \<and> map fill_of fs1 = fills \<and> model_rep levels' rs'"
  using assms
proof (induction cg arbitrary: levels r fs fills rs')
  case Nil
  then show ?case using spec_match_stops [of nr t lim r] by (auto simp: crossing_part_def)
next
  case (Cons g cg)
  note C = crossing_part_Cons [OF Cons.prems(1)]
  let ?rows = "concat (map group_rows cg) @ nr" and ?p = "fst g"
  show ?case
  proof (cases "r = 0")
    case True
    then show ?thesis using Cons.prems(2,3) by auto
  next
    case False
    have own: "map snd (filter (\<lambda>r. fst r = ?p) (group_rows (?p, ms) @ ?rows)) = ms" for ms
      using C(4) by (simp add: group_rows_def filter_map o_def)
    have rows: "concat (map group_rows (g # cg)) @ nr = group_rows (?p, snd g) @ ?rows" by simp
    have q: "queue_at levels ?p = snd g" by (simp only: model_repD(3) [OF Cons.prems(2)] rows own)
    then have "count_price ?p (concat (map group_rows (g # cg)) @ nr) \<noteq> 0" using rep_counts(2) [OF Cons.prems(2), of ?p] C(3) by (metis length_0_conv)
    then obtain i where i: "iter_position (\<lambda>level. fst level = ?p) levels = Some i" "i < length levels" "fst (levels ! i) = ?p" "snd (levels ! i) = snd g"
      using rep_position [OF Cons.prems(2)] q by metis
    obtain ms' r1 fs1' where f: "fill_queue ?p (snd g) r fs = (ms', r1, fs1')" by (metis prod_cases3)
    obtain fs1 where m: "fs1' = fs @ fs1" "r1 = 0 \<or> ms' = []"
        "\<forall>rs. spec_match t lim (group_rows (?p, snd g) @ rs) r =
           (case spec_match t lim rs r1 of (fs2, left, rs2) \<Rightarrow> (map fill_of fs1 @ fs2, left, group_rows (?p, ms') @ rs2))"
      using fill_queue_match [OF f C(2)] by blast
    obtain fs2 rs2 where sm: "spec_match t lim ?rows r1 = (fs2, r', rs2)" "fills = map fill_of fs1 @ fs2" "rs' = group_rows (?p, ms') @ rs2"
      using Cons.prems(3) m(3) [rule_format, of ?rows] unfolding rows by (auto split: prod.splits)
    have "filter (\<lambda>r. fst r = p') (group_rows (?p, ms') @ ?rows) = filter (\<lambda>r. fst r = p') (group_rows (?p, snd g) @ ?rows)" if "p' \<noteq> ?p" for p'
      using that by (simp add: group_rows_def filter_map o_def)
    from rep_set_queue [OF Cons.prems(2)[unfolded rows] i(2,3) own [symmetric] this]
    have rep: "model_rep (set_queue levels i ms') (group_rows (?p, ms') @ ?rows)" by blast
    have step: "fill_levels levels (map fst (g # cg)) r fs = fill_levels (set_queue levels i ms') (map fst cg) r1 (fs @ fs1)"
      using False i(1,4) f m(1) by simp
    show ?thesis
    proof (cases "ms' = []")
      case True
      then have "model_rep (set_queue levels i ms') ?rows" using rep by (simp add: group_rows_def)
      from Cons.IH [OF C(1) this sm(1), of "fs @ fs1"] show ?thesis
        unfolding step using sm(2,3) True by (auto simp: group_rows_def)
    next
      case ne: False
      then have "r1 = 0" using m(2) by blast
      then have "r' = 0" "fs2 = []" "rs2 = ?rows" using sm(1) by auto
      moreover have "fill_levels (set_queue levels i ms') (map fst cg) 0 (fs @ fs1) = Some (set_queue levels i ms', 0, fs @ fs1)"
        by (cases cg) auto
      ultimately show ?thesis unfolding step using \<open>r1 = 0\<close> sm(2,3) rep by auto
    qed
  qed
qed

section \<open>The crossing levels\<close>

lemma better_order: "better False = (\<lambda>x y. sint x < sint y)" "better True = (\<lambda>x y. sint y < sint x)"
  by (intro ext; simp add: better_def)+

lemma sorted_prices_equal:
  assumes "sorted_wrt (better d) xs" "sorted_wrt (better d) ys" "set xs = set ys"
  shows "xs = ys"
proof -
  have inj: "inj_on sint (set xs \<union> set ys)" for xs ys :: "price_ticks list" by (rule inj_onI) (rule signed_word_eqI [where ?'a = int])
  have asc: "us = vs" if "sorted_wrt (better False) us" "sorted_wrt (better False) vs" "set us = set vs" for us vs
  proof -
    have "sorted_wrt (<) (map sint us :: int list)" "sorted_wrt (<) (map sint vs :: int list)"
      using that by (simp_all add: sorted_wrt_map better_order)
    then have "map sint us = (map sint vs :: int list)" using that(3) strict_sorted_equal by (metis list.set_map)
    then show ?thesis using inj map_inj_on by blast
  qed
  show ?thesis
  proof (cases d)
    case True
    then have "sorted_wrt (better False) (rev xs)" "sorted_wrt (better False) (rev ys)"
      using assms by (simp_all add: sorted_wrt_rev better_order)
    from asc [OF this] assms(3) show ?thesis by simp
  qed (use asc assms in simp)
qed

lemma group_filter:
  assumes "distinct (map fst gs)" "g \<in> set gs"
  shows "map snd (filter (\<lambda>r. fst r = fst g) (concat (map group_rows gs))) = snd g"
  using assms
proof (induction gs)
  case (Cons h gs)
  have none: "filter (\<lambda>r. fst r = p) (concat (map group_rows xs)) = []" if "p \<notin> fst ` set xs" for p xs
    using that by (auto simp: filter_empty_conv group_rows_def)
  have own: "filter (\<lambda>r. fst r = p) (group_rows x) = (if p = fst x then group_rows x else [])" for p x
    by (auto simp: group_rows_def filter_map o_def)
  have snd: "map snd (group_rows x) = snd x" for x by (simp add: group_rows_def o_def)
  show ?case
  proof (cases "g = h")
    case True
    then have "fst g \<notin> fst ` set gs" using Cons.prems(1) by auto
    then show ?thesis using True by (simp add: none own snd)
  next
    case False
    then have "g \<in> set gs" "fst g \<noteq> fst h" using Cons.prems by (auto simp: rev_image_eqI)
    then show ?thesis using Cons by (simp add: own)
  qed
qed simp

lemma sorted_crossing:
  assumes "distinct (map fst levels)"
  shows "sorted_wrt (better (t = Sell)) (crossing_prices t lim levels)"
    "set (crossing_prices t lim levels) = {p \<in> fst ` set levels. crosses t p lim}"
proof -
  let ?P = "\<lambda>price. case t of Buy \<Rightarrow> sint price \<le> sint lim | Sell \<Rightarrow> sint lim \<le> sint price"
  let ?xs = "sort_key sint (filter ?P (map fst levels))"
  have "distinct ?xs" using assms by simp
  moreover have "inj_on sint (set ?xs)" by (rule inj_onI) (rule signed_word_eqI [where ?'a = int])
  ultimately have "distinct (map sint ?xs :: int list)" by (simp add: distinct_map)
  then have "sorted_wrt (<) (map sint ?xs :: int list)" using sorted_sort_key [of sint "filter ?P (map fst levels)"] strict_sorted_iff by blast
  then have asc: "sorted_wrt (better False) ?xs" by (simp add: sorted_wrt_map better_order)
  then have desc: "sorted_wrt (better True) (rev ?xs)" by (simp add: sorted_wrt_rev better_order)
  show "sorted_wrt (better (t = Sell)) (crossing_prices t lim levels)"
    using asc desc by (cases t) (simp_all add: crossing_prices_def Let_def)
  show "set (crossing_prices t lim levels) = {p \<in> fst ` set levels. crosses t p lim}"
    by (auto simp: crossing_prices_def Let_def crosses_def)
qed

lemma crossing_groups:
  assumes "model_rep levels rs" "side_sorted (t = Sell) rs"
    and cg: "cg = takeWhile (\<lambda>g. crosses t (fst g) lim) (groups rs)"
    and nr: "nr = concat (map group_rows (dropWhile (\<lambda>g. crosses t (fst g) lim) (groups rs)))"
  shows "rs = concat (map group_rows cg) @ nr" "crossing_part t lim cg nr" "crossing_prices t lim levels = map fst cg"
    "g \<in> set cg \<Longrightarrow> find_level (fst g) levels = Some g"
proof -
  let ?gs = "groups rs" and ?C = "\<lambda>g. crosses t (fst g) lim"
  define ng where "ng = dropWhile ?C ?gs"
  have ok: "groups_ok (t = Sell) ?gs" by (rule groups_sorted [OF assms(2)])
  have sp: "?gs = cg @ ng" by (simp add: cg ng_def)
  show rs: "rs = concat (map group_rows cg) @ nr"
    unfolding nr ng_def [symmetric] using arg_cong [OF sp, of "\<lambda>gs. concat (map group_rows gs)"] by simp
  have ne: "g \<in> set ?gs \<Longrightarrow> snd g \<noteq> []" for g by (rule groups_nonempty)
  have sorted: "sorted_wrt (better (t = Sell)) (map fst cg @ map fst ng)" using ok sp by (simp add: groups_ok_def)
  have dist: "distinct (map fst cg @ map fst ng)" using groups_ok_distinct [OF ok] sp by simp
  have cross: "?C g" if "g \<in> set cg" for g using that unfolding cg by (auto dest: set_takeWhileD)
  have out: "\<not> ?C g" if g: "g \<in> set ng" for g
  proof (cases ng)
    case (Cons h t')
    have h: "\<not> ?C h" by (metis Cons hd_dropWhile list.distinct(1) list.sel(1) ng_def)
    have "g = h \<or> better (t = Sell) (fst h) (fst g)" using sorted g unfolding Cons by (auto simp: sorted_wrt_append)
    then show ?thesis using h crosses_better [of t "fst g" lim "fst h"] better_antisym by blast
  qed (use g in simp)
  have "fst ` set nr \<subseteq> fst ` set ng" unfolding nr ng_def [symmetric] by (force simp: group_rows_def)
  then show part: "crossing_part t lim cg nr"
    using dist cross out ne sp unfolding crossing_part_def by (auto 0 3)
  have "set (map fst cg) = {p \<in> fst ` set levels. crosses t p lim}"
    unfolding rep_prices [OF assms(1)] groups_prices [of rs, symmetric] sp using cross out by auto
  then show "crossing_prices t lim levels = map fst cg"
    using sorted_prices_equal sorted_crossing [OF model_repD(1) [OF assms(1)], of t lim] sorted by (simp add: sorted_wrt_append)
  show "find_level (fst g) levels = Some g" if g: "g \<in> set cg"
  proof -
    have "g \<in> set ?gs" using g sp by simp
    from group_filter [OF groups_ok_distinct [OF ok] this]
    have "map snd (filter (\<lambda>r. fst r = fst g) rs) = snd g" by simp
    then have q: "queue_at levels (fst g) = snd g" using model_repD(3) [OF assms(1)] by simp
    moreover have "snd g \<noteq> []" using ne g sp by simp
    ultimately show ?thesis unfolding rep_find [OF assms(1)] rep_counts(2) [OF assms(1), symmetric] by simp
  qed
qed

section \<open>Submitting\<close>

definition same_orders_model :: "model_book \<Rightarrow> spec_book \<Rightarrow> bool" where
  "same_orders_model m sb \<longleftrightarrow> (\<forall>side. model_rep (mb_levels m side) (sb side))"

lemma set_mb_levels_simps [simp]:
  "mb_levels (set_mb_levels m side levels) side' = (if side' = side then levels else mb_levels m side')"
  by (cases side; cases side') auto

lemma match_model:
  assumes rep: "model_rep levels rs" and srt: "side_sorted (t = Sell) rs"
    and sm: "spec_match t lim rs r = (fills, left, rs')"
  defines "ps \<equiv> crossing_prices t lim levels"
  shows "simulate levels ps r 0 = Some (left, length fills)"
    "\<exists>levels' fs. fill_levels levels ps r [] = Some (levels', left, fs) \<and> map fill_of fs = fills \<and> model_rep levels' rs'"
    "ps = [] \<longleftrightarrow> \<not> best_crosses t lim rs"
proof -
  define cg nr where "cg = takeWhile (\<lambda>g. crosses t (fst g) lim) (groups rs)"
    and "nr = concat (map group_rows (dropWhile (\<lambda>g. crosses t (fst g) lim) (groups rs)))"
  note G = crossing_groups [OF rep srt cg_def nr_def]
  have ps: "ps = map fst cg" by (simp add: ps_def G(3))
  show "simulate levels ps r 0 = Some (left, length fills)"
    unfolding ps using simulate_match [OF G(2) _ sm [unfolded G(1)], of levels 0] G(4) by simp
  show "\<exists>levels' fs. fill_levels levels ps r [] = Some (levels', left, fs) \<and> map fill_of fs = fills \<and> model_rep levels' rs'"
    unfolding ps using fill_levels_match [OF G(2) rep [unfolded G(1)] sm [unfolded G(1)], of "[]"] by simp
  have "cg = [] \<longleftrightarrow> \<not> best_crosses t lim rs"
    by (cases rs) (auto simp: cg_def best_crosses_def)
  then show "ps = [] \<longleftrightarrow> \<not> best_crosses t lim rs" by (simp add: ps)
qed

definition summary_matches :: "new_order \<Rightarrow> spec_result \<Rightarrow> order_state \<times> quantity \<times> quantity \<times> quantity \<times> model_fill list \<Rightarrow> bool" where
  "summary_matches order res r \<longleftrightarrow> (case r of (state, filled, resting, discarded, fills) \<Rightarrow>
     state = ms_state (spec_summary order res) \<and> filled = ms_filled_quantity (spec_summary order res) \<and>
     resting = sr_resting res \<and> discarded = sr_discarded res \<and> map fill_of fills = sr_fills res)"

lemma model_submit_spec:
  assumes rep: "same_orders_model m sb" and inv: "spec_inv sb"
  shows "case spec_submit L K cap sb order of
      Inl e \<Rightarrow> model_submit m order cap L K = Some (Inl e)
    | Inr res \<Rightarrow> \<exists>m' r. model_submit m order cap L K = Some (Inr (m', r)) \<and> same_orders_model m' (sr_book res) \<and> summary_matches order res r"
proof -
  let ?t = "no_side order" and ?p = "no_price order" and ?q = "no_quantity order"
  let ?own = "mb_levels m ?t" and ?opp = "mb_levels m (opposite ?t)"
  have R: "model_rep (mb_levels m side) (sb side)" for side using rep by (simp add: same_orders_model_def)
  have srt: "side_sorted (?t = Sell) (sb (opposite ?t))" "side_sorted (?t = Buy) (sb ?t)"
    using spec_invD(1) [OF inv, of "opposite ?t"] spec_invD(1) [OF inv, of ?t] by (cases ?t; simp)+
  obtain fills left rs' where sm: "spec_match ?t ?p (sb (opposite ?t)) ?q = (fills, left, rs')" by (metis prod_cases3)
  note M = match_model [OF R srt(1) sm]
  obtain levels' fs where fl: "fill_levels ?opp (crossing_prices ?t ?p ?opp) ?q [] = Some (levels', left, fs)" "map fill_of fs = fills" "model_rep levels' rs'"
    using M(2) by blast
  have dup: "list_ex (\<lambda>resting. mo_id resting = no_order_id order) (concat (map snd (mb_bids m @ mb_asks m))) \<longleftrightarrow>
      no_order_id order \<in> set (spec_ids sb)"
  proof -
    have "set (concat (map snd (mb_bids m @ mb_asks m))) = snd ` set (sb Buy) \<union> snd ` set (sb Sell)"
      using rep_orders [OF R [of Buy]] rep_orders [OF R [of Sell]] by simp
    moreover have "list_ex (\<lambda>x. mo_id x = k) xs \<longleftrightarrow> k \<in> mo_id ` set xs" for k and xs :: "model_order list" by (auto simp: list_ex_iff)
    moreover have "set (spec_ids sb) = mo_id ` (snd ` set (sb Buy) \<union> snd ` set (sb Sell))"
      by (simp add: spec_ids_def image_Un image_comp)
    ultimately show ?thesis by (simp only:)
  qed
  have own: "find_level ?p ?own = (if count_price ?p (sb ?t) = 0 then None else Some (?p, queue_at ?own ?p))"
      "length (queue_at ?own ?p) = count_price ?p (sb ?t)" "length ?own = level_count (sb ?t)"
    by (rule rep_find [OF R] rep_counts [OF R])+
  have plan: "model_plan m order cap L K = Some (case spec_submit L K cap sb order of Inl e \<Rightarrow> Inl e
      | Inr _ \<Rightarrow> Inr (crossing_prices ?t ?p ?opp))"
    unfolding model_plan_def spec_submit_def Let_def dup M(1,3) sm own
    by (cases "no_time_in_force order") (simp_all add: own M(3) word_gt_0)
  show ?thesis
  proof (cases "spec_submit L K cap sb order")
    case (Inl e)
    then show ?thesis using plan by (simp add: model_submit_def)
  next
    case (Inr res)
    let ?o = "\<lparr>mo_id = no_order_id order, mo_account = no_account_id order, mo_quantity = left, mo_sequence = no_sequence order\<rparr>"
    let ?m = "set_mb_levels m (opposite ?t) levels'"
    have opp: "same_orders_model ?m (sb(opposite ?t := rs'))" using fl(3) R by (simp add: same_orders_model_def)
    consider (rests) "left \<noteq> 0" "no_time_in_force order = Gtc \<or> no_time_in_force order = PostOnly"
        "res = \<lparr>sr_book = sb(opposite ?t := rs', ?t := insert_row (?t = Buy) (?p, ?o) (sb ?t)), sr_fills = fills, sr_resting = left, sr_discarded = 0\<rparr>"
      | (over) "left = 0 \<or> no_time_in_force order = Ioc"
        "res = \<lparr>sr_book = sb(opposite ?t := rs'), sr_fills = fills, sr_resting = 0, sr_discarded = left\<rparr>"
      using Inr by (cases "no_time_in_force order") (auto simp: spec_submit_def sm Let_def word_gt_0 split: if_splits)
    then show ?thesis
    proof cases
      case rests
      have "same_orders_model (set_mb_levels ?m ?t (push_level ?own ?p ?o)) (sr_book res)"
        using fl(3) R rep_push [OF R [of ?t] srt(2), of ?p ?o] rests(3) by (simp add: same_orders_model_def)
      then show ?thesis
        using rests fl Inr plan
        by (auto simp: model_submit_def Let_def word_gt_0 summary_matches_def spec_summary_def)
    next
      case over
      then show ?thesis
        using fl Inr plan opp
        by (auto simp: model_submit_def Let_def word_gt_0 summary_matches_def spec_summary_def)
    qed
  qed
qed

section \<open>Locating one order\<close>

lemma position_unique:
  assumes "iter_position P xs = Some i" "x \<in> set xs" "P x" "\<And>y. y \<in> set xs \<Longrightarrow> P y \<Longrightarrow> y = x"
  shows "xs ! i = x"
  using assms(1) by (intro assms(4)) (simp_all add: iter_position_Some)

lemma located_order:
  assumes rep: "model_rep levels rs" and ids: "distinct (map (mo_id \<circ> snd) rs)"
  shows "List.find (\<lambda>r. mo_id (snd r) = k) rs = None \<Longrightarrow> find_in levels k = None"
    "List.find (\<lambda>r. mo_id (snd r) = k) rs = Some (p, m) \<Longrightarrow>
      \<exists>i j. find_in levels k = Some i \<and> i < length levels \<and> levels ! i = (p, queue_at levels p) \<and>
        iter_position (\<lambda>x. mo_id x = k) (queue_at levels p) = Some j \<and> j < length (queue_at levels p) \<and> queue_at levels p ! j = m \<and>
        mo_id m = k \<and> (\<forall>r \<in> set rs. mo_id (snd r) = k \<longrightarrow> r = (p, m))"
proof -
  have level: "list_ex (\<lambda>x. mo_id x = k) (snd level) \<longleftrightarrow> (\<exists>x. (fst level, x) \<in> set rs \<and> mo_id x = k)" if "level \<in> set levels" for level
  proof -
    have "snd level = map snd (filter (\<lambda>r. fst r = fst level) rs)"
      using rep_member [OF rep, of "fst level" "snd level"] that model_repD(3) [OF rep] by simp
    then show ?thesis by (force simp: list_ex_iff)
  qed
  show "find_in levels k = None" if "List.find (\<lambda>r. mo_id (snd r) = k) rs = None"
    unfolding find_in_def iter_position_None using level that by (force simp: find_None_iff)
  assume f: "List.find (\<lambda>r. mo_id (snd r) = k) rs = Some (p, m)"
  then have m: "(p, m) \<in> set rs" "mo_id m = k" unfolding find_Some_iff by (metis nth_mem, metis snd_conv)
  have uniq: "r = (p, m)" if "r \<in> set rs" "mo_id (snd r) = k" for r
    using ids that m by (metis comp_apply distinct_map inj_onD snd_conv)
  have q: "m \<in> set (queue_at levels p)" unfolding model_repD(3) [OF rep] using m(1) by force
  then have lev: "(p, queue_at levels p) \<in> set levels" using rep_member [OF rep] by force
  then have "find_in levels k \<noteq> None" unfolding find_in_def iter_position_None using level [OF lev] lev m by (metis fst_conv)
  then obtain i where i: "find_in levels k = Some i" by blast
  have "levels ! i = (p, queue_at levels p)"
  proof (rule position_unique [OF i [unfolded find_in_def] lev])
    show "list_ex (\<lambda>order. mo_id order = k) (snd (p, queue_at levels p))" unfolding level [OF lev] using m by auto
    fix y assume y: "y \<in> set levels" "list_ex (\<lambda>order. mo_id order = k) (snd y)"
    then obtain x where "(fst y, x) \<in> set rs" "mo_id x = k" using level by blast
    then have "fst y = p" using uniq [of "(fst y, x)"] by simp
    then show "y = (p, queue_at levels p)" using y(1) rep_member [OF rep, of "fst y" "snd y"] by (cases y) auto
  qed
  moreover have "i < length levels" using i by (auto simp: find_in_def iter_position_Some)
  moreover have "iter_position (\<lambda>x. mo_id x = k) (queue_at levels p) \<noteq> None" unfolding iter_position_None using q m(2) by blast
  then obtain j where j: "iter_position (\<lambda>x. mo_id x = k) (queue_at levels p) = Some j" by blast
  moreover have "queue_at levels p ! j = m"
  proof (rule position_unique [OF j q m(2)])
    fix y assume y: "y \<in> set (queue_at levels p)" "mo_id y = k"
    then have "(p, y) \<in> set rs" unfolding model_repD(3) [OF rep] by auto
    then show "y = m" using uniq [of "(p, y)"] y(2) by simp
  qed
  moreover have "j < length (queue_at levels p)" using j by (auto simp: iter_position_Some)
  ultimately show "\<exists>i j. find_in levels k = Some i \<and> i < length levels \<and> levels ! i = (p, queue_at levels p) \<and>
        iter_position (\<lambda>x. mo_id x = k) (queue_at levels p) = Some j \<and> j < length (queue_at levels p) \<and> queue_at levels p ! j = m \<and>
        mo_id m = k \<and> (\<forall>r \<in> set rs. mo_id (snd r) = k \<longrightarrow> r = (p, m))"
    using i m(2) uniq by blast
qed

lemma queue_edit:
  assumes "distinct (map mo_id q)" "j < length q" "mo_id (q ! j) = k"
  shows "vec_remove j q = filter (\<lambda>x. mo_id x \<noteq> k) q" "q[j := f (q ! j)] = map (\<lambda>x. if mo_id x = k then f x else x) q"
proof -
  have sp: "q = take j q @ q ! j # drop (Suc j) q" using assms(2) by (simp add: id_take_nth_drop)
  then have d: "\<forall>x \<in> set (take j q) \<union> set (drop (Suc j) q). mo_id x \<noteq> k"
    using assms(1,3) by (metis (no_types, lifting) UnE distinct.simps(2) distinct_append disjoint_iff image_eqI list.set_intros(1) list.set_map list.simps(9) map_append)
  have "filter (\<lambda>x. mo_id x \<noteq> k) (take j q @ q ! j # drop (Suc j) q) = take j q @ drop (Suc j) q"
    using d assms(3) by (simp add: filter_id_conv)
  then show "vec_remove j q = filter (\<lambda>x. mo_id x \<noteq> k) q" using sp by (simp add: vec_remove_def)
  have "map (\<lambda>x. if mo_id x = k then f x else x) (take j q @ q ! j # drop (Suc j) q) = take j q @ f (q ! j) # drop (Suc j) q"
    using d assms(3) by (auto intro: map_idI)
  then show "q[j := f (q ! j)] = map (\<lambda>x. if mo_id x = k then f x else x) q" using sp assms(2) by (simp add: upd_conv_take_nth_drop)
qed

lemma rep_edit:
  assumes rep: "model_rep levels rs" and ids: "distinct (map (mo_id \<circ> snd) rs)"
    and i: "i < length levels" "levels ! i = (p, queue_at levels p)" and j: "j < length (queue_at levels p)" "queue_at levels p ! j = m" "mo_id m = k"
    and uniq: "\<forall>r \<in> set rs. mo_id (snd r) = k \<longrightarrow> r = (p, m)"
  shows "model_rep (set_queue levels i (vec_remove j (queue_at levels p))) (spec_remove k rs)"
    "\<lbrakk>\<And>x. f x \<noteq> x \<Longrightarrow> mo_id x = k\<rbrakk> \<Longrightarrow> model_rep (levels[i := (p, (queue_at levels p)[j := f m])]) (map (\<lambda>(p, x). (p, f x)) rs)"
proof -
  let ?q = "queue_at levels p"
  have q: "?q = map snd (filter (\<lambda>r. fst r = p) rs)" by (rule model_repD(3) [OF rep])
  have "distinct (map (mo_id \<circ> snd) (filter (\<lambda>r. fst r = p) rs))" using ids by (rule distinct_map_filter)
  then have d: "distinct (map mo_id ?q)" unfolding q by (simp add: o_def)
  have sw: "filter (\<lambda>r. fst r = p') (spec_remove k rs) = filter (\<lambda>r. mo_id (snd r) \<noteq> k) (filter (\<lambda>r. fst r = p') rs)" for p'
    by (simp add: spec_remove_def conj_commute)
  have jid: "mo_id (?q ! j) = k" using j by simp
  note removed = queue_edit(1) [OF d j(1) jid]
  show "model_rep (set_queue levels i (vec_remove j ?q)) (spec_remove k rs)"
  proof (rule rep_set_queue [OF rep i(1)])
    show "fst (levels ! i) = p" by (simp add: i(2))
    show "vec_remove j ?q = map snd (filter (\<lambda>r. fst r = p) (spec_remove k rs))"
      unfolding removed unfolding sw q by (simp add: filter_map o_def conj_commute)
    show "filter (\<lambda>r. fst r = p') (spec_remove k rs) = filter (\<lambda>r. fst r = p') rs" if "p' \<noteq> p" for p'
      unfolding sw filter_id_conv using uniq that by auto
  qed
  assume f: "\<And>x. f x \<noteq> x \<Longrightarrow> mo_id x = k"
  have fe: "(\<lambda>x. if mo_id x = k then f x else x) = f" by (rule ext) (metis f)
  have "?q[j := f m] = map f ?q"
    using queue_edit(2) [OF d j(1) jid, of f] unfolding fe j(2) .
  moreover have "?q[j := f m] \<noteq> []" using j(1) by auto
  ultimately have sq: "levels[i := (p, ?q[j := f m])] = set_queue levels i (map f ?q)" using i(2) by (simp add: set_queue_def)
  have sw2: "filter (\<lambda>r. fst r = p') (map (\<lambda>(p, x). (p, f x)) rs) = map (\<lambda>(p, x). (p, f x)) (filter (\<lambda>r. fst r = p') rs)" for p'
    by (simp add: filter_map o_def split_def)
  show "model_rep (levels[i := (p, ?q[j := f m])]) (map (\<lambda>(p, x). (p, f x)) rs)"
    unfolding sq
  proof (rule rep_set_queue [OF rep i(1)])
    show "fst (levels ! i) = p" by (simp add: i(2))
    show "map f ?q = map snd (filter (\<lambda>r. fst r = p) (map (\<lambda>(p, x). (p, f x)) rs))"
      unfolding sw2 q by (simp add: o_def split_def)
    show "filter (\<lambda>r. fst r = p') (map (\<lambda>(p, x). (p, f x)) rs) = filter (\<lambda>r. fst r = p') rs" if "p' \<noteq> p" for p'
      unfolding sw2
    proof (rule map_idI)
      fix r assume r: "r \<in> set (filter (\<lambda>r. fst r = p') rs)"
      then have "mo_id (snd r) \<noteq> k" using uniq that by auto
      then have "f (snd r) = snd r" by (metis f)
      then show "(case r of (p, x) \<Rightarrow> (p, f x)) = r" by (simp add: split_def)
    qed
  qed
qed

section \<open>Cancelling\<close>

lemma set_queue_Cons:
  "set_queue (level # levels) (Suc i) q = level # set_queue levels i q"
  "set_queue ((p, q0) # levels) 0 q = (if q = [] then levels else (p, q) # levels)"
  by (auto simp: set_queue_def vec_remove_def)

lemma cancel_from_find:
  "cancel_from levels cmd =
     (case find_in levels (co_order_id cmd) of
        None \<Rightarrow> None
      | Some i \<Rightarrow>
          Option.bind (iter_position (\<lambda>x. mo_id x = co_order_id cmd) (snd (levels ! i))) (\<lambda>j.
            let order = snd (levels ! i) ! j in
            if mo_account order \<noteq> co_account_id cmd then Some (Inl NotOrderOwner)
            else Some (Inr (set_queue levels i (vec_remove j (snd (levels ! i))), mo_id order, mo_account order, mo_quantity order))))"
proof (induction levels)
  case (Cons level levels)
  obtain p q where l: "level = (p, q)" by (cases level)
  show ?case
  proof (cases "iter_position (\<lambda>x. mo_id x = co_order_id cmd) q")
    case None
    then have "\<not> list_ex (\<lambda>x. mo_id x = co_order_id cmd) q" by (auto simp: iter_position_None list_ex_iff)
    then show ?thesis using Cons None
      by (auto simp: l find_in_def set_queue_Cons Let_def split: option.splits Option.bind_splits)
  next
    case (Some j)
    then have "list_ex (\<lambda>x. mo_id x = co_order_id cmd) q" by (auto simp: iter_position_Some list_ex_iff)
    then show ?thesis using Some by (simp add: l find_in_def set_queue_Cons Let_def)
  qed
qed (simp add: find_in_def)

lemma model_cancel_spec:
  assumes rep: "same_orders_model m sb" and inv: "spec_inv sb"
  shows "case spec_cancel sb cmd of
      Inl e \<Rightarrow> model_cancel m cmd = Inl e
    | Inr (sb', x) \<Rightarrow> \<exists>m'. model_cancel m cmd = Inr (m', mo_id x, mo_account x, mo_quantity x) \<and> same_orders_model m' sb'"
proof -
  let ?k = "co_order_id cmd"
  have R: "model_rep (mb_levels m side) (sb side)" for side using rep by (simp add: same_orders_model_def)
  have ids: "distinct (map (mo_id \<circ> snd) (sb side))" for side by (rule spec_invD(3) [OF inv])
  have none: "cancel_from (mb_levels m side) cmd = None" if "List.find (\<lambda>r. mo_id (snd r) = ?k) (sb side) = None" for side
    using located_order(1) [OF R ids that] by (simp add: cancel_from_find)
  have some: "\<exists>levels. cancel_from (mb_levels m side) cmd =
      (if mo_account x \<noteq> co_account_id cmd then Some (Inl NotOrderOwner) else Some (Inr (levels, mo_id x, mo_account x, mo_quantity x))) \<and>
      model_rep levels (spec_remove ?k (sb side))" if f: "List.find (\<lambda>r. mo_id (snd r) = ?k) (sb side) = Some (p, x)" for side p x
  proof -
    obtain i j where l: "find_in (mb_levels m side) ?k = Some i" "i < length (mb_levels m side)" "mb_levels m side ! i = (p, queue_at (mb_levels m side) p)"
        "iter_position (\<lambda>x. mo_id x = ?k) (queue_at (mb_levels m side) p) = Some j" "j < length (queue_at (mb_levels m side) p)"
        "queue_at (mb_levels m side) p ! j = x" "mo_id x = ?k" "\<forall>r \<in> set (sb side). mo_id (snd r) = ?k \<longrightarrow> r = (p, x)"
      using located_order(2) [OF R ids f] by blast
    show ?thesis using rep_edit(1) [OF R ids l(2,3,5-8)] l by (auto simp: cancel_from_find Let_def)
  qed
  show ?thesis
  proof (cases "spec_find sb ?k")
    case None
    then have "List.find (\<lambda>r. mo_id (snd r) = ?k) (sb side) = None" for side by (cases side) (auto simp: spec_find_def split: option.splits)
    then have "cancel_from (mb_bids m) cmd = None" "cancel_from (mb_asks m) cmd = None" using none [of Buy] none [of Sell] by simp_all
    then show ?thesis using None by (simp add: spec_cancel_def model_cancel_def)
  next
    case (Some r)
    obtain side p x where r: "r = (side, p, x)" by (cases r)
    have f: "List.find (\<lambda>r. mo_id (snd r) = ?k) (sb side) = Some (p, x)" "side = Sell \<Longrightarrow> List.find (\<lambda>r. mo_id (snd r) = ?k) (sb Buy) = None"
      using Some unfolding r by (auto simp: spec_find_def split: option.splits)
    obtain levels where l: "cancel_from (mb_levels m side) cmd =
        (if mo_account x \<noteq> co_account_id cmd then Some (Inl NotOrderOwner) else Some (Inr (levels, mo_id x, mo_account x, mo_quantity x)))"
        "model_rep levels (spec_remove ?k (sb side))" using some [OF f(1)] by blast
    have "model_cancel m cmd = (if mo_account x \<noteq> co_account_id cmd then Inl NotOrderOwner
        else Inr (set_mb_levels m side levels, mo_id x, mo_account x, mo_quantity x))"
      using l(1) none [of Buy] f(2) by (cases side) (simp_all add: model_cancel_def)
    moreover have "same_orders_model (set_mb_levels m side levels) (sb(side := spec_remove ?k (sb side)))"
      using R l(2) by (simp add: same_orders_model_def)
    ultimately show ?thesis using Some by (simp add: spec_cancel_def r)
  qed
qed

section \<open>Replacing\<close>

lemma fold_best:
  fixes ps :: "price_ticks list"
  shows "\<exists>b \<in> insert p (set ps). fold (\<lambda>q best. if (if side = Buy then sint q < sint best else sint best < sint q) then q else best) ps p = b \<and>
    (\<forall>q \<in> insert p (set ps). if side = Buy then sint b \<le> sint q else sint q \<le> sint b)"
proof (induction ps arbitrary: p)
  case (Cons q ps)
  let ?best = "\<lambda>q best. if (if side = Buy then sint q < sint best else sint best < sint q) then q else best"
  obtain b where b: "b \<in> insert (?best q p) (set ps)" "fold ?best ps (?best q p) = b"
      "\<forall>x \<in> insert (?best q p) (set ps). if side = Buy then sint b \<le> sint x else sint x \<le> sint b"
    using Cons.IH [of "?best q p"] by blast
  then show ?case by (intro bexI [of _ b]) (auto split: if_splits)
qed simp

lemma reprice_crosses_iff: "reprice_crosses side price levels \<longleftrightarrow> (\<exists>p \<in> fst ` set levels. crosses side p price)"
proof (cases "map fst levels")
  case Nil
  then show ?thesis by (simp add: reprice_crosses_def opposing_best_def)
next
  case (Cons p ps)
  then have set: "fst ` set levels = insert p (set ps)" by (metis list.set_map list.simps(15))
  obtain b where "b \<in> insert p (set ps)" "opposing_best side levels = Some b"
      "\<forall>q \<in> insert p (set ps). if side = Buy then sint b \<le> sint q else sint q \<le> sint b"
    using fold_best [of p ps side] Cons by (auto simp: opposing_best_def)
  then show ?thesis unfolding set by (cases side) (force simp: reprice_crosses_def crosses_def)+
qed

lemma rep_crosses:
  assumes "model_rep levels rs" "side_sorted (side = Sell) rs"
  shows "reprice_crosses side price levels \<longleftrightarrow> best_crosses side price rs"
proof -
  have "best_crosses side price rs \<Longrightarrow> \<exists>r \<in> set rs. crosses side (fst r) price" by (cases rs) (auto simp: best_crosses_def)
  then show ?thesis unfolding reprice_crosses_iff rep_prices [OF assms(1)] using best_crosses_all [OF assms(2)] by blast
qed

lemma destination_check_spec:
  assumes rep: "model_rep levels rs" and i: "i < length levels" "levels ! i = (old, queue_at levels old)"
  shows "destination_check levels i old price L K = Some
    (if price \<noteq> old \<and> 0 < count_price price rs \<and> count_price price rs = K then Inl PriceLevelOrderCapacity
     else if count_price price rs = 0 \<and> level_count rs = L \<and> count_price old rs \<noteq> 1 then Inl PriceLevelCapacity else Inr ())"
proof -
  have ex: "list_ex (\<lambda>level. fst level = price) levels \<longleftrightarrow> count_price price rs \<noteq> 0"
  proof -
    have "list_ex (\<lambda>level. fst level = price) levels \<longleftrightarrow> find_level price levels \<noteq> None"
      unfolding find_level_def list_ex_iff find_None_iff by blast
    then show ?thesis by (simp add: rep_find [OF rep])
  qed
  have len: "length (snd (levels ! i)) = count_price old rs" "length levels = level_count rs"
    using i(2) rep_counts [OF rep] by simp_all
  show ?thesis
  proof (cases "count_price price rs = 0")
    case True
    then show ?thesis using ex len by (simp add: destination_check_def Let_def)
  next
    case False
    obtain d where d: "iter_position (\<lambda>level. fst level = price) levels = Some d" "d < length levels" "fst (levels ! d) = price"
        "snd (levels ! d) = queue_at levels price"
      by (rule rep_position [OF rep False])
    have "price = old \<Longrightarrow> d = i"
      using d(2,3) i nth_eq_iff_index_eq [OF model_repD(1) [OF rep], of d i] by simp
    then show ?thesis using False ex d rep_counts(2) [OF rep, of price] by (auto simp: destination_check_def Let_def)
  qed
qed

lemma model_located_spec:
  assumes rep: "same_orders_model m sb" and inv: "spec_inv sb"
  shows "spec_find sb k = None \<Longrightarrow> model_located m k = None"
    "spec_find sb k = Some (side, p, x) \<Longrightarrow>
      \<exists>i j. model_located m k = Some (side, i) \<and> i < length (mb_levels m side) \<and> mb_levels m side ! i = (p, queue_at (mb_levels m side) p) \<and>
        iter_position (\<lambda>x. mo_id x = k) (queue_at (mb_levels m side) p) = Some j \<and> j < length (queue_at (mb_levels m side) p) \<and>
        queue_at (mb_levels m side) p ! j = x \<and> mo_id x = k \<and> (\<forall>r \<in> set (sb side). mo_id (snd r) = k \<longrightarrow> r = (p, x))"
proof -
  have R: "model_rep (mb_levels m side) (sb side)" for side using rep by (simp add: same_orders_model_def)
  note none = located_order(1) [OF R spec_invD(3) [OF inv]] and some = located_order(2) [OF R spec_invD(3) [OF inv]]
  show "model_located m k = None" if "spec_find sb k = None"
    using that none [of k Buy] none [of k Sell] by (auto simp: spec_find_def model_located_def split: option.splits)
  assume f: "spec_find sb k = Some (side, p, x)"
  have l: "List.find (\<lambda>r. mo_id (snd r) = k) (sb side) = Some (p, x)" "side = Sell \<Longrightarrow> List.find (\<lambda>r. mo_id (snd r) = k) (sb Buy) = None"
    using f by (auto simp: spec_find_def split: option.splits)
  have "model_located m k = map_option (Pair side) (find_in (mb_levels m side) k)" if "find_in (mb_levels m side) k \<noteq> None"
    using that none [of k Buy] l(2) by (cases side) (auto simp: model_located_def)
  then show "\<exists>i j. model_located m k = Some (side, i) \<and> i < length (mb_levels m side) \<and> mb_levels m side ! i = (p, queue_at (mb_levels m side) p) \<and>
        iter_position (\<lambda>x. mo_id x = k) (queue_at (mb_levels m side) p) = Some j \<and> j < length (queue_at (mb_levels m side) p) \<and>
        queue_at (mb_levels m side) p ! j = x \<and> mo_id x = k \<and> (\<forall>r \<in> set (sb side). mo_id (snd r) = k \<longrightarrow> r = (p, x))"
    using some [OF l(1)] by fastforce
qed

lemma model_replace_spec:
  assumes rep: "same_orders_model m sb" and inv: "spec_inv sb" and valid: "0 < sint (ro_price cmd)" "ro_quantity cmd \<noteq> 0"
  shows "case spec_replace L K sb cmd of
      Inl e \<Rightarrow> model_replace m cmd L K = Some (Inl e)
    | Inr (sb', x, lost) \<Rightarrow> \<exists>m'. model_replace m cmd L K = Some (Inr (m', mo_quantity x, lost)) \<and> same_orders_model m' sb'"
proof (cases "spec_find sb (ro_order_id cmd)")
  case None
  then show ?thesis using model_located_spec(1) [OF rep inv] valid by (simp add: spec_replace_def model_replace_def)
next
  case (Some r)
  let ?k = "ro_order_id cmd" and ?p = "ro_price cmd" and ?q = "ro_quantity cmd"
  obtain side old x where r: "r = (side, old, x)" by (cases r)
  let ?ls = "mb_levels m side" and ?rs = "sb side"
  let ?new = "\<lparr>mo_id = ?k, mo_account = ro_account_id cmd, mo_quantity = ?q, mo_sequence = ro_sequence cmd\<rparr>"
  let ?f = "\<lambda>x. if mo_id x = ?k then x\<lparr>mo_quantity := ?q\<rparr> else x"
  have R: "model_rep (mb_levels m s) (sb s)" for s using rep by (simp add: same_orders_model_def)
  have srt: "side_sorted (side = Sell) (sb (opposite side))" "side_sorted (side = Buy) ?rs"
    using spec_invD(1) [OF inv, of "opposite side"] spec_invD(1) [OF inv, of side] by (cases side; simp)+
  obtain i j where l: "model_located m ?k = Some (side, i)" "i < length ?ls" "?ls ! i = (old, queue_at ?ls old)"
      "iter_position (\<lambda>x. mo_id x = ?k) (queue_at ?ls old) = Some j" "j < length (queue_at ?ls old)" "queue_at ?ls old ! j = x" "mo_id x = ?k"
      "\<forall>r \<in> set ?rs. mo_id (snd r) = ?k \<longrightarrow> r = (old, x)"
    using model_located_spec(2) [OF rep inv Some [unfolded r]] by blast
  note E = rep_edit [OF R spec_invD(3) [OF inv] l(2,3,5-8)]
  have kept: "same_orders_model (set_mb_levels m side (?ls[i := (old, (queue_at ?ls old)[j := x\<lparr>mo_quantity := ?q\<rparr>])]))
      (sb(side := map (\<lambda>(p, x). (p, ?f x)) ?rs))"
  proof -
    have "model_rep (?ls[i := (old, (queue_at ?ls old)[j := ?f x])]) (map (\<lambda>(p, x). (p, ?f x)) ?rs)" by (rule E(2)) presburger
    moreover have "?f x = x\<lparr>mo_quantity := ?q\<rparr>" using l(7) by simp
    ultimately have "model_rep (?ls[i := (old, (queue_at ?ls old)[j := x\<lparr>mo_quantity := ?q\<rparr>])]) (map (\<lambda>(p, x). (p, ?f x)) ?rs)" by (simp only:)
    then show ?thesis using R by (simp add: same_orders_model_def)
  qed
  have moved: "same_orders_model (set_mb_levels m side (push_level (set_queue ?ls i (vec_remove j (queue_at ?ls old))) ?p ?new))
      (sb(side := insert_row (side = Buy) (?p, ?new) (spec_remove ?k ?rs)))"
    using rep_push [OF E(1), of "side = Buy" ?p ?new] side_sorted_filter [OF srt(2)] R by (simp add: same_orders_model_def spec_remove_def)
  have v: "\<not> sint ?p \<le> 0" using valid(1) by simp
  note unf = model_replace_def Let_def l(1,3,4,6) destination_check_spec [OF R l(2,3)] rep_crosses [OF R srt(1)]
  note spec = spec_replace_def Let_def Some r
  consider (owner) "mo_account x \<noteq> ro_account_id cmd"
    | (keeps) "mo_account x = ro_account_id cmd" "?p = old" "?q < mo_quantity x"
    | (crosses) "mo_account x = ro_account_id cmd" "?p \<noteq> old" "best_crosses side ?p (sb (opposite side))"
    | (moves) "mo_account x = ro_account_id cmd" "\<not> (?p = old \<and> ?q < mo_quantity x)" "\<not> (?p \<noteq> old \<and> best_crosses side ?p (sb (opposite side)))"
    by blast
  then show ?thesis
  proof cases
    case owner
    then show ?thesis using v valid(2) by (simp add: unf spec)
  next
    case keeps
    then show ?thesis using v valid(2) kept by (simp add: unf spec)
  next
    case crosses
    then show ?thesis using v valid(2) by (simp add: unf spec)
  next
    case moves
    have me: "model_replace m cmd L K = (if ?p \<noteq> old \<and> 0 < count_price ?p ?rs \<and> count_price ?p ?rs = K then Some (Inl PriceLevelOrderCapacity)
        else if count_price ?p ?rs = 0 \<and> level_count ?rs = L \<and> count_price old ?rs \<noteq> 1 then Some (Inl PriceLevelCapacity)
        else Some (Inr (set_mb_levels m side (push_level (set_queue ?ls i (vec_remove j (queue_at ?ls old))) ?p ?new), mo_quantity x, True)))"
      using moves v valid(2) by (cases "?p = old") (simp_all add: unf)
    have se: "spec_replace L K sb cmd = (if ?p \<noteq> old \<and> 0 < count_price ?p ?rs \<and> count_price ?p ?rs = K then Inl PriceLevelOrderCapacity
        else if count_price ?p ?rs = 0 \<and> level_count ?rs = L \<and> count_price old ?rs \<noteq> 1 then Inl PriceLevelCapacity
        else Inr (sb(side := insert_row (side = Buy) (?p, ?new) (spec_remove ?k ?rs)), x, True))"
      using moves v valid(2) by (cases "?p = old") (simp_all add: spec)
    have verdict: "case if A then Inl e1 else if B then Inl e2 else Inr (sb1, x, True) of
        Inl e \<Rightarrow> (if A then Some (Inl e1) else if B then Some (Inl e2) else Some (Inr (m1, mo_quantity x, True))) = Some (Inl e)
      | Inr (sb', y, lost) \<Rightarrow> \<exists>m'. (if A then Some (Inl e1) else if B then Some (Inl e2) else Some (Inr (m1, mo_quantity x, True))) =
          Some (Inr (m', mo_quantity y, lost)) \<and> same_orders_model m' sb'"
      if "same_orders_model m1 sb1" for A B and e1 e2 :: reject_reason and m1 sb1
      using that by simp
    show ?thesis unfolding me se by (rule verdict [OF moved])
  qed
qed

section \<open>Properties\<close>

text \<open>
  C30. The book agrees with the reference model of the property tests on every order of the book's own
  instrument (the reference model does not look at instruments). When a reachable
  book and the reference book hold the same orders, submitting to both gives the same rejection, or
  the same state, filled, resting and discarded quantities and the same fills in the same order as
  execution reports; afterwards both hold the same orders again.
\<close>

theorem reference_submit_agrees:
  assumes "book_reachable L K ins book" "dims_ok L K" "same_orders_model m (abs_book book)"
    and "report_buffer_wf reports" "no_instrument_id order = ins"
  shows "(\<exists>e. submit L K book order reports = Some (Inl e) \<and>
      model_submit m order (report_buffer_remaining_capacity reports) L K = Some (Inl e)) \<or>
    (\<exists>book' reports' summary m' fills. submit L K book order reports = Some (Inr (book', reports', summary)) \<and>
      model_submit m order (report_buffer_remaining_capacity reports) L K =
        Some (Inr (m', ms_state summary, ms_filled_quantity summary, ms_resting_quantity summary, ms_discarded_quantity summary, fills)) \<and>
      report_buffer_iter reports' = report_buffer_iter reports @ map (\<lambda>f. spec_report order (fill_of f)) fills \<and>
      ms_report_count summary = length fills \<and> book_reachable L K ins book' \<and> same_orders_model m' (abs_book book'))"
proof -
  let ?cap = "report_buffer_remaining_capacity reports"
  have inv: "book_inv L K book" "no_instrument_id order = ob_instrument book"
    using reachable_book [OF assms(1,2)] assms(5) by simp_all
  then have si: "spec_inv (abs_book book)" by (simp add: book_inv_def)
  note S = submit_simulates [OF inv(1) assms(4) inv(2)] and M = model_submit_spec [OF assms(3) si, where L = L and K = K and cap = ?cap and order = order]
  show ?thesis
  proof (cases "spec_submit L K ?cap (abs_book book) order")
    case (Inl e)
    then show ?thesis using S M by simp
  next
    case (Inr res)
    obtain book' reports' where b: "submit L K book order reports = Some (Inr (book', reports', spec_summary order res))"
        "abs_book book' = sr_book res" "report_buffer_iter reports' = report_buffer_iter reports @ map (spec_report order) (sr_fills res)"
      using S Inr by auto
    obtain m' r where m': "model_submit m order ?cap L K = Some (Inr (m', r))" "same_orders_model m' (sr_book res)" "summary_matches order res r"
      using M Inr by auto
    obtain fills where r: "r = (ms_state (spec_summary order res), ms_filled_quantity (spec_summary order res), sr_resting res, sr_discarded res, fills)"
        "map fill_of fills = sr_fills res"
      using m'(3) by (auto simp: summary_matches_def split: prod.splits)
    have "ms_resting_quantity (spec_summary order res) = sr_resting res" "ms_discarded_quantity (spec_summary order res) = sr_discarded res"
        "ms_report_count (spec_summary order res) = length fills"
      using arg_cong [OF r(2), of length] by (simp_all add: spec_summary_def Let_def)
    moreover have "book_reachable L K ins book'" by (rule book_reachable.Submit [OF assms(1,4) b(1)])
    moreover have "map (spec_report order) (sr_fills res) = map (\<lambda>f. spec_report order (fill_of f)) fills"
      using r(2) by (simp flip: r(2))
    ultimately show ?thesis using b m' r(1) by auto
  qed
qed

text \<open>
  C31. Cancelling and replacing with commands for the book's own instrument agree with the reference
  model as well: the same rejection, or the same
  answer and the same orders afterwards. For a replacement this needs a positive price and a positive
  quantity; an invalid one changes neither book, but the two may name different reasons.
\<close>

theorem reference_amend_agrees:
  assumes "book_reachable L K ins book" "dims_ok L K" "same_orders_model m (abs_book book)"
    and "co_instrument_id c = ins" "ro_instrument_id r = ins" "0 < sint (ro_price r)" "ro_quantity r \<noteq> 0"
  shows "((\<exists>e. cancel L K book c = Some (Inl e) \<and> model_cancel m c = Inl e) \<or>
      (\<exists>book' cd m'. cancel L K book c = Some (Inr (book', cd)) \<and>
        model_cancel m c = Inr (m', cd_order_id cd, cd_account_id cd, cd_quantity cd) \<and>
        book_reachable L K ins book' \<and> same_orders_model m' (abs_book book'))) \<and>
    ((\<exists>e. replace L K book r = Some (Inl e) \<and> model_replace m r L K = Some (Inl e)) \<or>
      (\<exists>book' rd m'. replace L K book r = Some (Inr (book', rd)) \<and>
        model_replace m r L K = Some (Inr (m', rd_old_quantity rd, rd_priority_lost rd)) \<and>
        book_reachable L K ins book' \<and> same_orders_model m' (abs_book book')))"
proof
  have inv: "book_inv L K book" "co_instrument_id c = ob_instrument book" "ro_instrument_id r = ob_instrument book"
    using reachable_book [OF assms(1,2)] assms(4,5) by simp_all
  then have si: "spec_inv (abs_book book)" by (simp add: book_inv_def)
  note CS = cancel_simulates [OF inv(1,2)] and CM = model_cancel_spec [OF assms(3) si, where cmd = c]
  show "(\<exists>e. cancel L K book c = Some (Inl e) \<and> model_cancel m c = Inl e) \<or>
      (\<exists>book' cd m'. cancel L K book c = Some (Inr (book', cd)) \<and>
        model_cancel m c = Inr (m', cd_order_id cd, cd_account_id cd, cd_quantity cd) \<and>
        book_reachable L K ins book' \<and> same_orders_model m' (abs_book book'))"
  proof (cases "spec_cancel (abs_book book) c")
    case (Inr a)
    then obtain sb x where a: "spec_cancel (abs_book book) c = Inr (sb, x)" by (cases a) auto
    obtain book' m' where b: "cancel L K book c = Some (Inr (book', \<lparr>cd_order_id = mo_id x, cd_account_id = mo_account x, cd_quantity = mo_quantity x\<rparr>))"
        "abs_book book' = sb" "model_cancel m c = Inr (m', mo_id x, mo_account x, mo_quantity x)" "same_orders_model m' sb"
      using CS CM unfolding a by auto
    show ?thesis using b book_reachable.Cancel [OF assms(1) b(1)] by auto
  qed (use CS CM in simp)
  note RS = replace_simulates [OF inv(1,3)] and RM = model_replace_spec [OF assms(3) si assms(6,7), where L = L and K = K]
  show "(\<exists>e. replace L K book r = Some (Inl e) \<and> model_replace m r L K = Some (Inl e)) \<or>
      (\<exists>book' rd m'. replace L K book r = Some (Inr (book', rd)) \<and>
        model_replace m r L K = Some (Inr (m', rd_old_quantity rd, rd_priority_lost rd)) \<and>
        book_reachable L K ins book' \<and> same_orders_model m' (abs_book book'))"
  proof (cases "spec_replace L K (abs_book book) r")
    case (Inr a)
    then obtain sb x lost where a: "spec_replace L K (abs_book book) r = Inr (sb, x, lost)" by (cases a) auto
    obtain book' m' where b: "replace L K book r = Some (Inr (book', \<lparr>rd_order_id = mo_id x, rd_account_id = mo_account x,
          rd_old_quantity = mo_quantity x, rd_new_quantity = ro_quantity r, rd_price = ro_price r, rd_priority_lost = lost\<rparr>))"
        "abs_book book' = sb" "model_replace m r L K = Some (Inr (m', mo_quantity x, lost))" "same_orders_model m' sb"
      using RS RM unfolding a by auto
    show ?thesis using b book_reachable.Replace [OF assms(1) b(1)] by auto
  qed (use RS RM in simp)
qed

definition demo_model :: model_book where
  "demo_model = \<lparr>mb_bids = [(5, [\<lparr>mo_id = 3, mo_account = 9, mo_quantity = 4, mo_sequence = 1\<rparr>])], mb_asks = []\<rparr>"

lemma demo_model_same: "same_orders_model demo_model (abs_book demo_book)"
proof -
  have "model_rep (mb_levels demo_model side) (abs_book demo_book side)" for side
    unfolding demo_book_abs by (cases side) (simp_all add: demo_model_def model_rep_def queue_at_def)
  then show ?thesis by (simp add: same_orders_model_def)
qed

theorem reference_submit_agrees_witness:
  "\<exists>book' reports' summary m' fills. submit 1 1 demo_book (demo_order Sell 8 6) (report_buffer_new 1) = Some (Inr (book', reports', summary)) \<and>
     model_submit demo_model (demo_order Sell 8 6) 1 1 1 = Some (Inr (m', ms_state summary, ms_filled_quantity summary, 2, 0, fills)) \<and>
     length fills = 1 \<and> same_orders_model m' (abs_book book')"
proof -
  have cap: "report_buffer_remaining_capacity (report_buffer_new 1) = 1"
    by (simp add: report_buffer_remaining_capacity_def report_buffer_new_def)
  have "\<exists>m' st q fills. model_submit demo_model (demo_order Sell 8 6) 1 1 1 = Some (Inr (m', st, q, 2, 0, fills)) \<and> length fills = 1"
    by (simp add: model_submit_def model_plan_def demo_model_def demo_order_def crossing_prices_def find_level_def Let_def
        fill_queue_step set_queue_def vec_remove_def)
  then show ?thesis
    using reference_submit_agrees [OF demo_book_reachable demo_dims demo_model_same report_buffer_new_wf(1) [of 1], of "demo_order Sell 8 6", unfolded cap]
    by (auto simp: demo_order_def)
qed

theorem reference_amend_agrees_witness:
  "\<exists>book' m'. cancel 1 1 demo_book \<lparr>co_order_id = 3, co_account_id = 9, co_instrument_id = 7, co_sequence = 2\<rparr> =
       Some (Inr (book', \<lparr>cd_order_id = 3, cd_account_id = 9, cd_quantity = 4\<rparr>)) \<and>
     model_cancel demo_model \<lparr>co_order_id = 3, co_account_id = 9, co_instrument_id = 7, co_sequence = 2\<rparr> = Inr (m', 3, 9, 4) \<and>
     same_orders_model m' (abs_book book')"
proof -
  let ?c = "\<lparr>co_order_id = 3, co_account_id = 9, co_instrument_id = 7, co_sequence = 2\<rparr>"
  let ?r = "\<lparr>ro_order_id = 3, ro_account_id = 9, ro_instrument_id = 7, ro_sequence = 2, ro_price = 6, ro_quantity = 5\<rparr>"
  have "model_cancel demo_model ?c = Inr (\<lparr>mb_bids = [], mb_asks = []\<rparr>, 3, 9, 4)"
    by (simp add: model_cancel_def demo_model_def vec_remove_def)
  then show ?thesis
    using reference_amend_agrees [OF demo_book_reachable demo_dims demo_model_same, of ?c ?r] by (auto simp: cancelled_order.equality)
qed

text \<open>
  The reference model does not mirror the order in which \<open>replace\<close> checks a command: on empty books, a
  replacement of an unknown order at price zero is \<open>UnknownOrder\<close> for the book and \<open>InvalidPrice\<close> for the
  reference model.
\<close>

theorem reference_replace_order_differs:
  "\<exists>m cmd. book_reachable 1 1 7 (book_new 1 1 7) \<and> same_orders_model m (abs_book (book_new 1 1 7)) \<and>
     replace 1 1 (book_new 1 1 7) cmd = Some (Inl UnknownOrder) \<and> model_replace m cmd 1 1 = Some (Inl InvalidPrice)"
proof -
  let ?m = "\<lparr>mb_bids = [], mb_asks = []\<rparr>"
  let ?r = "\<lparr>ro_order_id = 3, ro_account_id = 9, ro_instrument_id = 7, ro_sequence = 2, ro_price = 0, ro_quantity = 5\<rparr>"
  have new: "book_inv 1 1 (book_new 1 1 7)" "abs_book (book_new 1 1 7) = (\<lambda>side. [])"
    using book_new_inv [of 1 1 7] demo_dims by (simp_all add: dims_ok_def)
  have "model_rep (mb_levels ?m side) []" for side by (cases side) (simp_all add: model_rep_def queue_at_def)
  then have "same_orders_model ?m (abs_book (book_new 1 1 7))" unfolding same_orders_model_def new(2) by blast
  moreover have "replace 1 1 (book_new 1 1 7) ?r = Some (Inl UnknownOrder)"
    using replace_simulates [OF new(1), of ?r] unfolding new(2) by (simp add: spec_replace_def spec_find_def book_new_def)
  moreover have "model_replace ?m ?r 1 1 = Some (Inl InvalidPrice)" by (simp add: model_replace_def)
  ultimately show ?thesis using book_reachable.Init by blast
qed

end
