(* ===== verification/Spec2Isabelle.thy ===== *)
theory Spec2Isabelle
  imports Router Session Retransmit Engine_Durable Digest Model_Refine
begin

text \<open>
  A verification library for the deterministic exchange engine of this repository, a workspace of
  Rust crates under \<^verbatim>\<open>src/crates\<close>.

  \<^bold>\<open>The program.\<close> A binary frame (\<^verbatim>\<open>hft-wire\<close>) or a command (\<^verbatim>\<open>hft-types\<close>) reaches a gateway
  (\<^verbatim>\<open>hft-gateway\<close>), which admits it by sequence number, reserves its worst case with the risk engine
  (\<^verbatim>\<open>hft-risk\<close>), submits it to a price-time priority order book (\<^verbatim>\<open>hft-book\<close>), books the fills and
  releases what did not rest. The event engine (\<^verbatim>\<open>hft-events\<close>) wraps a gateway and publishes the result
  of each command as one batch into a single-producer/single-consumer ring (\<^verbatim>\<open>hft-spsc\<close>). The router
  (\<^verbatim>\<open>hft-router\<close>) owns one command ring and one event ring per shard; a matching shard takes its
  commands, runs its event engine and keeps a command back while its event ring is full. Sessions
  and the retransmit window (\<^verbatim>\<open>hft-session\<close>) stand between the wire and the engine. The durable engine
  (\<^verbatim>\<open>hft-engine\<close>) writes each command to a journal ring (\<^verbatim>\<open>hft-journal\<close>) before it applies it; a worker
  persists the journal, and \<^verbatim>\<open>hft-recovery\<close> restores a gateway from a snapshot and the journal after it.

  \<^bold>\<open>Conventions.\<close> Machine integers are words of their width; \<open>usize\<close> is 64 bits. A const generic of
  the source is a natural-number argument of the definitions (\<open>A\<close> accounts, \<open>N\<close> reservations, \<open>L\<close>
  levels, \<open>K\<close> orders per level, \<open>R\<close> reports, \<open>B\<close> events per batch, \<open>C\<close> commands and \<open>Q\<close> batches per
  ring). A \<open>Result\<close> is a sum with the error on the left. A panic (an index out of range, a failed
  \<open>expect\<close>, an overflow in a checked build) is the value \<open>None\<close> of an outer option, so that absence
  of panics is a statement, never a convention. Writes the source makes through
  \<open>&mut\<close> are returned. Two plain additions of the source are word additions, as in a release build: the
  aggregate of a price level, which \<open>Price_Level\<close> shows to be the exact sum, and the \<open>u32\<close> count of
  heartbeat timeouts in \<open>Session\<close>, which nothing reads. Counters of array cells are natural numbers.

  \<^bold>\<open>Theories, in import order.\<close>
  \<^item> \<open>Prelude\<close>: words, checked arithmetic, big-endian bytes, arrays, options.
  \<^item> \<open>Types\<close> (\<^verbatim>\<open>hft-types\<close>): identifiers, orders, commands, reject reasons, the report buffer.
  \<^item> \<open>Wire\<close> (\<^verbatim>\<open>hft-wire\<close>): \<open>parse_message\<close> and the encoders. Parsing inverts encoding, and every
    accepted frame is the encoding of its command.
  \<^item> \<open>Session\<close>, \<open>Retransmit\<close> (\<^verbatim>\<open>hft-session\<close>): \<open>handle\<close>, \<open>tick\<close> and the retained window. Commands
    are accepted in increasing sequence and, unless a deadline overflows at the end of the clock, without
    gaps; silence leads to \<open>Failed\<close>, also with a timeout of zero, which the configuration documents as
    disabling the deadline; refusals change nothing unless the clock is at its end; and confirmed
    frames are exactly the ones dropped.
  \<^item> \<open>Probe_Table\<close>: open addressing with back-shift deletion, as a locale that both indices of the
    engine interpret. \<open>Order_Index\<close>, \<open>Price_Level\<close>, \<open>Level_Index\<close>: the storage of \<^verbatim>\<open>hft-book\<close>. A level
    holds exactly what its history of operations put and left there, and its aggregate is that sum.
  \<^item> \<open>Book\<close>: \<open>submit\<close>, \<open>cancel\<close>, \<open>replace\<close> and their helpers as the source has them. \<open>Book_Side\<close>,
    \<open>Book_Inv\<close>, \<open>Book_Match\<close>: the invariant and what planning and applying a match do to it.
    \<open>Book_Spec\<close>: the same operations on two sorted lists of orders. \<open>Book_Refine\<close>, \<open>Book_Reach\<close>:
    the book implements that specification on every reachable state; no operation panics.
  \<^item> \<open>Risk_Index\<close>, \<open>Risk\<close>, \<open>Risk_Store\<close>, \<open>Risk_Inv\<close>, \<open>Risk_Ops\<close>, \<open>Risk_Amend\<close>, \<open>Risk_Reach\<close>
    (\<^verbatim>\<open>hft-risk\<close>): limits, reservations, fills, amendment and its rollback. Totals are exact sums of
    the reservations, worst-case positions never pass the limit, no operation panics.
  \<^item> \<open>Gateway\<close>, \<open>Gateway_Inv\<close>, \<open>Gateway_Ops\<close>, \<open>Gateway_Reach\<close> (\<^verbatim>\<open>hft-gateway\<close>): each command is one
    step of a specification that knows nothing of storage; reservations are exactly the resting
    orders; the internal-failure error is reached only when sequence numbers are exhausted.
  \<^item> \<open>Spsc\<close> (\<^verbatim>\<open>hft-spsc\<close>): the ring, as atomic operations and as single memory accesses of two threads.
  \<^item> \<open>Events\<close> (\<^verbatim>\<open>hft-events\<close>): one command, one complete batch, or a refusal before anything changes.
  \<^item> \<open>Router\<close> (\<^verbatim>\<open>hft-router\<close>): route tables, routing and shards; no command reaches a foreign shard.
    \<open>Binary_Search\<close>: the slice search of the standard library, used there and in \<open>Risk_State\<close>.
  \<^item> \<open>Book_State\<close>, \<open>Risk_State\<close>, \<open>Gateway_State\<close>: \<open>export_state\<close> and \<open>from_state\<close>. Every accepted state is
    well formed and exported again unchanged; the state of a reachable gateway restores unless an
    order escaped its limits. \<open>Gateway_Equiv\<close>: gateways with the same logical state answer alike.
  \<^item> \<open>Journal\<close>, \<open>Journal_Format\<close>, \<open>Journal_Worker\<close>, \<open>Journal_Recover\<close> (\<^verbatim>\<open>hft-journal\<close>): records, the
    bounded ring, the persistence worker and the recovery scan. The file is at every moment a prefix
    of the accepted payloads; what is reported durable survives; the scan accepts exactly valid runs.
  \<^item> \<open>Snapshot\<close>, \<open>Snapshot_Codec\<close>, \<open>Snapshot_Sound\<close>, \<open>Recovery\<close> (\<^verbatim>\<open>hft-recovery\<close>): the snapshot format,
    canonical in both directions, and recovery from a snapshot and a journal tail.
  \<^item> \<open>Engine\<close>, \<open>Engine_System\<close>, \<open>Engine_Durable\<close> (\<^verbatim>\<open>hft-engine\<close>): the engine and its builder; engine, worker
    and event consumer as a system of steps; answers, crash recovery, shutdown and checkpoint.
  \<^item> \<open>Digest\<close>: \<open>stable_digest\<close> of book, risk engine and gateway, and \<^verbatim>\<open>hft-replay\<close>. The book digest is a
    function of the resting orders; the risk digest also depends on the slots.
  \<^item> \<open>Model_Book\<close>, \<open>Model_Refine\<close> (\<^verbatim>\<open>hft-model\<close>): the reference book of the property tests, and that the
    production book agrees with it on every command up to the order of checks in \<open>replace\<close>.

  \<^bold>\<open>Interfaces.\<close> A locale states what a client relies on: the probe table, the append buffer that
  report buffers and event batches share, the bounded first-in first-out channel the event engine,
  the router and the journal push to, a sink that can be written and flushed and one that eventually
  succeeds, a byte source, and a codec that reads back exactly what it writes. Each is interpreted
  on the definitions translated from the source.

  \<^bold>\<open>Parameters.\<close> CRC32C (\<open>crc\<close>) and SHA-256 (\<open>sha256\<close>) come from other packages and are arguments; the
  only hypothesis on them is that SHA-256 returns 32 bytes. The sink and the source of the journal
  are arguments as well; the file \<open>disk_file\<close> is a script of partial writes, faults and flushes.

  \<^bold>\<open>Bounds and termination.\<close> Loops over a fixed array are structural recursion, or recursion with a
  measure and a termination proof (probe loops, binary search, draining a ring). Where a loop is
  given fuel, the fuel is the capacity of the array it walks, and the lemmas show that it is enough.
  The dimension predicates (\<open>dims_ok\<close>, \<open>risk_dims\<close>, \<open>gateway_dims\<close>, \<open>event_dims\<close>) say that the
  const generics are small enough for their products to be array sizes, and not zero where the
  constructor of the source would accept zero but an operation would then panic.

  \<^bold>\<open>Memory model.\<close> The ring is verified under sequential consistency: every load and store of a cursor
  or of a slot is one step of one of the two threads, interleaved arbitrarily. Weaker orderings are
  not modelled; the acquire and release annotations of the source are exactly on the cursor accesses
  that the steps separate.

  \<^bold>\<open>Not modelled.\<close> Sockets and the in-memory test source of \<^verbatim>\<open>hft-io\<close>; the files and links written by
  \<open>persist_snapshot_new\<close>; the vendor function table of \<^verbatim>\<open>hft-ffi\<close>; the command generator and the
  reference risk engine of \<^verbatim>\<open>hft-model\<close>; soak runs, benchmarks and the command line, which drive the
  crates above and hold no engine state. A reading of the shared journal status is one step.
\<close>

end
